(* ===== verification/Prelude.thy ===== *)
theory Prelude
  imports Main
begin

text \<open>
  What every component of the model shares: the faults a C++ operation can end in and
  the result type that carries them, loops over results, 64-bit size_t
  arithmetic with its wrap-around written out, and generic lemmas on lists.
\<close>

section \<open>Collections of facts\<close>

named_theorems wf_intros \<open>introduction rules: an operation keeps a well-formedness invariant\<close>
named_theorems result_simps \<open>simplification of operations that return a result\<close>

section \<open>Faults and results\<close>

text \<open>
  An operation of the source that can leave defined behaviour, or stop the process,
  returns a result: the left side names how it stopped.
  \<^item> OutOfBounds: a read or write outside the allocated array or vector;
  \<^item> CheckFailed: the macro CHECK of util/check.hh aborts the process;
  \<^item> AssertFailed: a failing assert;
  \<^item> EmptyContainer: top, front or a dereferenced begin of an empty container;
  \<^item> NullPointer: a null pointer is dereferenced;
  \<^item> DoubleDelete: an object is deleted that has been deleted before;
  \<^item> Uninitialized: a pointer is used before it is set;
  \<^item> BadShift: a shift by a negative amount or by the width of the type or more;
  \<^item> Aborted: an explicit call of abort;
  \<^item> Overflow: a number outside the range of its type where the behaviour is undefined;
  \<^item> Exited: the process ends with an error message.
\<close>

datatype fault = OutOfBounds | CheckFailed | AssertFailed | EmptyContainer | NullPointer | DoubleDelete | Uninitialized | BadShift | Aborted | Overflow | Exited

type_synonym 'a result = "fault + 'a"

abbreviation fault_in :: "fault \<Rightarrow> 'a result" where
  "fault_in e \<equiv> Inl e"

abbreviation ret :: "'a \<Rightarrow> 'a result" where
  "ret x \<equiv> Inr x"

definition rbind :: "'a result \<Rightarrow> ('a \<Rightarrow> 'b result) \<Rightarrow> 'b result" where
  "rbind r f = (case r of Inl e \<Rightarrow> Inl e | Inr x \<Rightarrow> f x)"

lemma rbind_simps [simp]:
  "rbind (Inl e) f = Inl e"
  "rbind (Inr x) f = f x"
  by (simp_all add: rbind_def)

lemma rbind_eq_Inr: "rbind r f = Inr y \<longleftrightarrow> (\<exists>x. r = Inr x \<and> f x = Inr y)"
  by (cases r) auto

lemma rbind_eq_Inl: "rbind r f = Inl e \<longleftrightarrow> r = Inl e \<or> (\<exists>x. r = Inr x \<and> f x = Inl e)"
  by (cases r) auto

lemma rbind_cong:
  "r = r' \<Longrightarrow> (\<And>x. r' = Inr x \<Longrightarrow> f x = g x) \<Longrightarrow> rbind r f = rbind r' g"
  by (cases r') simp_all

definition check :: "bool \<Rightarrow> unit result" where
  "check b = (if b then Inr () else Inl CheckFailed)"

definition assert :: "bool \<Rightarrow> unit result" where
  "assert b = (if b then Inr () else Inl AssertFailed)"

lemma check_simps [simp]:
  "check True = Inr ()" "check False = Inl CheckFailed"
  "check b = Inr u \<longleftrightarrow> b" "check b = Inl e \<longleftrightarrow> \<not> b \<and> e = CheckFailed"
  by (auto simp: check_def)

lemma assert_simps [simp]:
  "assert True = Inr ()" "assert False = Inl AssertFailed"
  "assert b = Inr u \<longleftrightarrow> b" "assert b = Inl e \<longleftrightarrow> \<not> b \<and> e = AssertFailed"
  by (auto simp: assert_def)

subsection \<open>Array access\<close>

definition array_get :: "'a list \<Rightarrow> nat \<Rightarrow> 'a result" where
  "array_get xs i = (if i < length xs then Inr (xs ! i) else Inl OutOfBounds)"

definition array_set :: "'a list \<Rightarrow> nat \<Rightarrow> 'a \<Rightarrow> 'a list result" where
  "array_set xs i v = (if i < length xs then Inr (xs[i := v]) else Inl OutOfBounds)"

lemma array_get_simps [simp]:
  "i < length xs \<Longrightarrow> array_get xs i = Inr (xs ! i)"
  "length xs \<le> i \<Longrightarrow> array_get xs i = Inl OutOfBounds"
  by (simp_all add: array_get_def)

lemma array_get_eq_Inr: "array_get xs i = Inr v \<longleftrightarrow> i < length xs \<and> v = xs ! i"
  by (auto simp: array_get_def)

lemma array_set_simps [simp]:
  "i < length xs \<Longrightarrow> array_set xs i v = Inr (xs[i := v])"
  "length xs \<le> i \<Longrightarrow> array_set xs i v = Inl OutOfBounds"
  by (simp_all add: array_set_def)

subsection \<open>Loops over results\<close>

text \<open>
  A loop whose body updates a state and may fault: the first fault ends the loop.
\<close>

fun rfold :: "('a \<Rightarrow> 's \<Rightarrow> 's result) \<Rightarrow> 'a list \<Rightarrow> 's \<Rightarrow> 's result" where
  "rfold f [] s = Inr s"
| "rfold f (x # xs) s = rbind (f x s) (rfold f xs)"

lemma rfold_append: "rfold f (xs @ ys) s = rbind (rfold f xs s) (rfold f ys)"
  by (induction xs arbitrary: s) (auto simp: rbind_def split: sum.splits)

lemma rfold_Inr_fold:
  assumes "\<And>x s. x \<in> set xs \<Longrightarrow> f x s = Inr (g x s)"
  shows "rfold f xs s = Inr (fold g xs s)"
  using assms by (induction xs arbitrary: s) auto

lemma rfold_invariant:
  assumes "rfold f xs s = Inr t" and "P s"
    and "\<And>x u v. x \<in> set xs \<Longrightarrow> P u \<Longrightarrow> f x u = Inr v \<Longrightarrow> P v"
  shows "P t"
  using assms
proof (induction xs arbitrary: s)
  case Nil
  then show ?case by simp
next
  case (Cons x xs)
  from Cons.prems(1) obtain u where u: "f x s = Inr u" "rfold f xs u = Inr t"
    by (auto simp: rbind_eq_Inr)
  have "P u" by (rule Cons.prems(3) [OF _ Cons.prems(2) u(1)]) simp
  then show ?case by (rule Cons.IH [OF u(2)]) (rule Cons.prems(3), simp_all)
qed

lemma rfold_cong_simp:
  assumes "\<And>x s. x \<in> set xs \<Longrightarrow> f x s = g x s"
  shows "rfold f xs s = rfold g xs s"
  using assms by (induction xs arbitrary: s) (auto simp: rbind_def split: sum.splits)

text \<open>A loop whose bodies are loops themselves.\<close>

lemma rfold_concat:
  assumes "\<And>x s. x \<in> set xs \<Longrightarrow> f x s = rfold g (h x) s"
  shows "rfold f xs s = rfold g (concat (map h xs)) s"
  using assms
  by (induction xs arbitrary: s) (auto simp: rfold_append rbind_def split: sum.splits)

text \<open>A loop that builds a vector element by element.\<close>

fun rmap :: "('a \<Rightarrow> 'b result) \<Rightarrow> 'a list \<Rightarrow> 'b list result" where
  "rmap f [] = Inr []"
| "rmap f (x # xs) = rbind (f x) (\<lambda>y. rbind (rmap f xs) (\<lambda>ys. Inr (y # ys)))"

lemma rmap_eq_Inr: "rmap f xs = Inr ys \<longleftrightarrow> list_all2 (\<lambda>x y. f x = Inr y) xs ys"
  by (induction xs arbitrary: ys)
    (auto simp: rbind_eq_Inr list_all2_Cons1)

lemma rmap_Inr_map: "(\<And>x. x \<in> set xs \<Longrightarrow> f x = Inr (g x)) \<Longrightarrow> rmap f xs = Inr (map g xs)"
  by (induction xs) auto

section \<open>size\_t\<close>

text \<open>
  A size_t is a natural number below 2 ^ 64. Where the source's
  arithmetic can wrap around, it is written with sz_add and sz_sub.
  NOT_FOUND is the macro of TypeDef.h.
\<close>

definition SIZE_RANGE :: nat where
  "SIZE_RANGE = 2 ^ 64"

definition NOT_FOUND :: nat where
  "NOT_FOUND = 2 ^ 64 - 1"

definition sz_add :: "nat \<Rightarrow> nat \<Rightarrow> nat" where
  "sz_add a b = (a + b) mod SIZE_RANGE"

definition sz_sub :: "nat \<Rightarrow> nat \<Rightarrow> nat" where
  "sz_sub a b = (a + (SIZE_RANGE - b mod SIZE_RANGE)) mod SIZE_RANGE"

lemma NOT_FOUND_less: "NOT_FOUND < SIZE_RANGE"
  by (simp add: NOT_FOUND_def SIZE_RANGE_def)

lemma less_SIZE_RANGE: "n < NOT_FOUND \<Longrightarrow> n < SIZE_RANGE"
  by (simp add: NOT_FOUND_def SIZE_RANGE_def)

lemma sz_add_small [simp]: "a + b < SIZE_RANGE \<Longrightarrow> sz_add a b = a + b"
  by (simp add: sz_add_def)

lemma sz_sub_small [simp]:
  assumes "b \<le> a" "a < SIZE_RANGE"
  shows "sz_sub a b = a - b"
proof -
  have "a + (SIZE_RANGE - b mod SIZE_RANGE) = (a - b) + SIZE_RANGE"
    using assms by simp
  then have "sz_sub a b = ((a - b) + SIZE_RANGE) mod SIZE_RANGE"
    by (simp only: sz_sub_def)
  also have "\<dots> = (a - b) mod SIZE_RANGE"
    by (rule mod_add_self2)
  also have "\<dots> = a - b"
    using assms(2) by simp
  finally show ?thesis .
qed

lemma sz_add_less: "sz_add a b < SIZE_RANGE"
  by (simp add: sz_add_def SIZE_RANGE_def)

lemma sz_sub_less: "sz_sub a b < SIZE_RANGE"
  by (simp add: sz_sub_def SIZE_RANGE_def)

text \<open>
  The conversion of a size_t to a 32-bit int, as the casts of the source do it on
  the compilers it is built with: reduction modulo 2 ^ 32 into the signed range.
\<close>

definition to_int32 :: "nat \<Rightarrow> int" where
  "to_int32 n = (int n + 2 ^ 31) mod 2 ^ 32 - 2 ^ 31"

lemma to_int32_small [simp]: "n < 2 ^ 31 \<Longrightarrow> to_int32 n = int n"
  by (simp add: to_int32_def)

section \<open>Lists\<close>

lemma find_upt_Some:
  "find P [i..<j] = Some k \<longleftrightarrow> i \<le> k \<and> k < j \<and> P k \<and> (\<forall>l. i \<le> l \<and> l < k \<longrightarrow> \<not> P l)"
proof (induction j)
  case 0
  then show ?case by simp
next
  case (Suc j)
  have app: "find P (xs @ [y]) = (case find P xs of None \<Rightarrow> (if P y then Some y else None) | r \<Rightarrow> r)"
    for xs :: "nat list" and y
    by (induction xs) auto
  show ?case
  proof (cases "i \<le> j")
    case True
    have none: "find P [i..<j] = None \<longleftrightarrow> (\<forall>l. i \<le> l \<and> l < j \<longrightarrow> \<not> P l)"
      by (auto simp: find_None_iff)
    show ?thesis
      using True Suc none
      by (auto simp: app less_Suc_eq split: option.splits)
  next
    case False
    then show ?thesis by auto
  qed
qed

lemma find_upt_None: "find P [i..<j] = None \<longleftrightarrow> (\<forall>l. i \<le> l \<and> l < j \<longrightarrow> \<not> P l)"
  by (auto simp: find_None_iff)

lemma find_rev_upt_Some:
  "find P (rev [i..<j]) = Some k \<longleftrightarrow> i \<le> k \<and> k < j \<and> P k \<and> (\<forall>l. k < l \<and> l < j \<longrightarrow> \<not> P l)"
proof (induction j)
  case 0
  then show ?case by simp
next
  case (Suc j)
  show ?case
  proof (cases "i \<le> j")
    case True
    then show ?thesis
      using Suc by (cases "P j") (auto simp: less_Suc_eq)
  next
    case False
    then show ?thesis by auto
  qed
qed

lemma find_rev_upt_None:
  "find P (rev [i..<j]) = None \<longleftrightarrow> (\<forall>l. i \<le> l \<and> l < j \<longrightarrow> \<not> P l)"
  by (auto simp: find_None_iff)

lemma filter_length_mono:
  "(\<And>x. x \<in> set xs \<Longrightarrow> P x \<Longrightarrow> Q x) \<Longrightarrow> length (filter P xs) \<le> length (filter Q xs)"
  by (induction xs) (auto intro: le_SucI)

lemma takeWhile_short: "\<exists>x \<in> set xs. \<not> P x \<Longrightarrow> length (takeWhile P xs) < length xs"
  by (induction xs) auto

end
