(* ===== verification/WordsBitmaps.thy ===== *)
theory WordsBitmaps
  imports Prelude
begin

text \<open>
  The coverage vector of the phrase-based search (moses/src/WordsBitmap.h and
  WordsBitmap.cpp) and the contiguous spans of the whole decoder (moses/src/WordsRange.h).
  The model reads and writes the array of the bitmap through the checked accessors of
  Prelude, so an index past the sentence end is a fault of the result and not a value.
\<close>

section \<open>WordsRange\<close>

datatype words_range = WordsRange (GetStartPos: nat) (GetEndPos: nat)

fun range_GetNumWordsCovered :: "words_range \<Rightarrow> nat" where
  "range_GetNumWordsCovered (WordsRange s e) =
     (if s = NOT_FOUND then 0 else sz_add (sz_sub e s) 1)"

fun range_less :: "words_range \<Rightarrow> words_range \<Rightarrow> bool" where
  "range_less (WordsRange s e) (WordsRange s' e') \<longleftrightarrow> s < s' \<or> (s = s' \<and> e < e')"

fun range_Overlap :: "words_range \<Rightarrow> words_range \<Rightarrow> bool" where
  "range_Overlap (WordsRange s e) (WordsRange s' e') =
     (if e' < s \<or> s' > e then False else True)"

fun GetNumWordsBetween :: "words_range \<Rightarrow> words_range \<Rightarrow> nat result" where
  "GetNumWordsBetween (WordsRange s e) (WordsRange s' e') =
     rbind (check (\<not> range_Overlap (WordsRange s e) (WordsRange s' e'))) (\<lambda>_.
       if e' < s then Inr (sz_sub s e') else Inr (sz_sub s' e))"

text \<open>The source's strict order makes the ranges a linear order of the library.\<close>

instantiation words_range :: linorder
begin

definition less_words_range :: "words_range \<Rightarrow> words_range \<Rightarrow> bool" where
  "less_words_range = range_less"

definition less_eq_words_range :: "words_range \<Rightarrow> words_range \<Rightarrow> bool" where
  "less_eq_words_range r r' \<longleftrightarrow> r = r' \<or> range_less r r'"

instance
proof
  fix x y z :: words_range
  show "x < y \<longleftrightarrow> x \<le> y \<and> \<not> y \<le> x"
    by (cases x; cases y) (auto simp: less_words_range_def less_eq_words_range_def)
  show "x \<le> x"
    by (simp add: less_eq_words_range_def)
  show "x \<le> y \<Longrightarrow> y \<le> z \<Longrightarrow> x \<le> z"
    by (cases x; cases y; cases z) (auto simp: less_eq_words_range_def)
  show "x \<le> y \<Longrightarrow> y \<le> x \<Longrightarrow> x = y"
    by (cases x; cases y) (auto simp: less_eq_words_range_def)
  show "x \<le> y \<or> y \<le> x"
    by (cases x; cases y) (auto simp: less_eq_words_range_def)
qed

end

text \<open>A span of a sentence: its positions in order, inside the sentence.\<close>

fun valid_range :: "nat \<Rightarrow> words_range \<Rightarrow> bool" where
  "valid_range n (WordsRange s e) \<longleftrightarrow> s \<le> e \<and> e < n \<and> n \<le> NOT_FOUND"

fun positions :: "words_range \<Rightarrow> nat list" where
  "positions (WordsRange s e) = [s..<Suc e]"

lemma range_GetNumWordsCovered_valid:
  "valid_range n r \<Longrightarrow> range_GetNumWordsCovered r = length (positions r)"
  using NOT_FOUND_less by (cases r) auto

lemma range_Overlap_iff:
  assumes "valid_range n r" "valid_range m r'"
  shows "range_Overlap r r' \<longleftrightarrow> set (positions r) \<inter> set (positions r') \<noteq> {}"
proof -
  obtain s e s' e' where r: "r = WordsRange s e" "r' = WordsRange s' e'"
    by (cases r, cases r') blast
  have pos: "set (positions r) = {s..e}" "set (positions r') = {s'..e'}"
    using assms r by (simp_all add: atLeastLessThanSuc_atLeastAtMost del: upt_Suc)
  have "{s..e} \<inter> {s'..e'} \<noteq> {} \<longleftrightarrow> s' \<le> e \<and> s \<le> e'"
  proof
    assume "s' \<le> e \<and> s \<le> e'"
    then have "max s s' \<in> {s..e} \<inter> {s'..e'}" using assms r by simp
    then show "{s..e} \<inter> {s'..e'} \<noteq> {}" by blast
  qed auto
  moreover have "range_Overlap r r' \<longleftrightarrow> s' \<le> e \<and> s \<le> e'"
    using r by (simp add: not_less)
  ultimately show ?thesis by (simp only: pos)
qed

lemma range_Overlap_sym: "range_Overlap r r' = range_Overlap r' r"
  by (cases r; cases r') auto

section \<open>WordsBitmap\<close>

record words_bitmap =
  wb_size :: nat
  wb_bitmap :: "bool list"

subsection \<open>Construction\<close>

definition Initialize :: "nat \<Rightarrow> bool list" where
  "Initialize n = map (\<lambda>pos. False) [0..<n]"

definition Initialize_from :: "nat \<Rightarrow> bool list \<Rightarrow> bool list" where
  "Initialize_from n vec =
     map (\<lambda>pos. if pos < length vec \<and> vec ! pos = True then True else False) [0..<n]"

definition WordsBitmap_from :: "nat \<Rightarrow> bool list \<Rightarrow> words_bitmap" where
  "WordsBitmap_from sz initialize_vector =
     \<lparr>wb_size = sz, wb_bitmap = Initialize_from sz initialize_vector\<rparr>"

definition WordsBitmap :: "nat \<Rightarrow> words_bitmap" where
  "WordsBitmap sz = \<lparr>wb_size = sz, wb_bitmap = Initialize sz\<rparr>"

subsection \<open>Queries\<close>

definition GetValue :: "words_bitmap \<Rightarrow> nat \<Rightarrow> bool result" where
  "GetValue bm pos = array_get (wb_bitmap bm) pos"

definition GetNumWordsCovered :: "words_bitmap \<Rightarrow> nat" where
  "GetNumWordsCovered bm =
     fold (\<lambda>pos count. if wb_bitmap bm ! pos then count + 1 else count) [0..<wb_size bm] 0"

definition GetFirstGapPos :: "words_bitmap \<Rightarrow> nat" where
  "GetFirstGapPos bm =
     (case find (\<lambda>pos. \<not> wb_bitmap bm ! pos) [0..<wb_size bm] of
        Some pos \<Rightarrow> pos | None \<Rightarrow> NOT_FOUND)"

text \<open>
  The loops of GetLastGapPos and GetLastPos count an int down from
  (int) m_size - 1; a size of 2 ^ 31 or more wraps.
\<close>

definition down_positions :: "words_bitmap \<Rightarrow> nat list" where
  "down_positions bm = rev [0..<nat (to_int32 (wb_size bm))]"

definition GetLastGapPos :: "words_bitmap \<Rightarrow> nat" where
  "GetLastGapPos bm =
     (case find (\<lambda>pos. \<not> wb_bitmap bm ! pos) (down_positions bm) of
        Some pos \<Rightarrow> pos | None \<Rightarrow> NOT_FOUND)"

definition GetLastPos :: "words_bitmap \<Rightarrow> nat" where
  "GetLastPos bm =
     (case find (\<lambda>pos. wb_bitmap bm ! pos) (down_positions bm) of
        Some pos \<Rightarrow> pos | None \<Rightarrow> NOT_FOUND)"

definition IsComplete :: "words_bitmap \<Rightarrow> bool" where
  "IsComplete bm \<longleftrightarrow> wb_size bm = GetNumWordsCovered bm"

fun overlap_loop :: "words_bitmap \<Rightarrow> nat list \<Rightarrow> bool result" where
  "overlap_loop bm [] = Inr False"
| "overlap_loop bm (pos # ps) =
     rbind (GetValue bm pos) (\<lambda>v. if v then Inr True else overlap_loop bm ps)"

definition Overlap :: "words_bitmap \<Rightarrow> words_range \<Rightarrow> bool result" where
  "Overlap bm compare = overlap_loop bm (positions compare)"

subsection \<open>Updates\<close>

definition SetValue :: "words_bitmap \<Rightarrow> nat \<Rightarrow> bool \<Rightarrow> words_bitmap result" where
  "SetValue bm pos value =
     rbind (array_set (wb_bitmap bm) pos value) (\<lambda>bs. Inr (bm\<lparr>wb_bitmap := bs\<rparr>))"

definition SetValue_range :: "words_bitmap \<Rightarrow> nat \<Rightarrow> nat \<Rightarrow> bool \<Rightarrow> words_bitmap result" where
  "SetValue_range bm startPos endPos value =
     rfold (\<lambda>pos b. SetValue b pos value) [startPos..<Suc endPos] bm"

subsection \<open>Comparison\<close>

text \<open>
  The order of memcmp on the bytes of the two arrays: 0 or 1 each, compared from the
  front. Only the sign of memcmp's result is specified, so the model returns the sign.
\<close>

fun memcmp_bools :: "bool list \<Rightarrow> bool list \<Rightarrow> int" where
  "memcmp_bools (x # xs) (y # ys) =
     (if x = y then memcmp_bools xs ys else if y then -1 else 1)"
| "memcmp_bools _ _ = 0"

definition Compare :: "words_bitmap \<Rightarrow> words_bitmap \<Rightarrow> int" where
  "Compare bm compare =
     (if wb_size bm \<noteq> wb_size compare
      then (if wb_size bm < wb_size compare then -1 else 1)
      else memcmp_bools (wb_bitmap bm) (wb_bitmap compare))"

definition wb_less :: "words_bitmap \<Rightarrow> words_bitmap \<Rightarrow> bool" where
  "wb_less bm compare \<longleftrightarrow> Compare bm compare < 0"

subsection \<open>Edges\<close>

fun GetEdgeToTheLeftOf :: "words_bitmap \<Rightarrow> nat \<Rightarrow> nat result" where
  "GetEdgeToTheLeftOf bm 0 = Inr 0"
| "GetEdgeToTheLeftOf bm (Suc l) =
     rbind (GetValue bm l) (\<lambda>v. if \<not> v then GetEdgeToTheLeftOf bm l else Inr (Suc l))"

function GetEdgeToTheRightOf :: "words_bitmap \<Rightarrow> nat \<Rightarrow> nat result" where
  "GetEdgeToTheRightOf bm r =
     (if r + 1 < wb_size bm
      then rbind (GetValue bm (r + 1)) (\<lambda>v. if \<not> v then GetEdgeToTheRightOf bm (r + 1) else Inr r)
      else Inr r)"
  by pat_completeness auto
termination
  by (relation "measure (\<lambda>(bm, r). wb_size bm - r)") auto

declare GetEdgeToTheRightOf.simps [simp del]

subsection \<open>Identifiers for recombination\<close>

definition id_start :: "words_bitmap \<Rightarrow> nat" where
  "id_start bm = (let start = GetFirstGapPos bm in if start = NOT_FOUND then wb_size bm else start)"

definition id_end :: "words_bitmap \<Rightarrow> nat" where
  "id_end bm = (let e = GetLastPos bm in if e = NOT_FOUND then 0 else e)"

text \<open>The loop for (pos = end; pos > start; pos--) as a list of positions.\<close>

definition id_positions :: "nat \<Rightarrow> nat \<Rightarrow> nat list" where
  "id_positions start e = rev [Suc start..<Suc e]"

definition GetID :: "words_bitmap \<Rightarrow> nat result" where
  "GetID bm =
     rbind (check (wb_size bm < 2 ^ 16)) (\<lambda>_.
       let start = id_start bm; e = id_end bm in
       rbind (check (e < start \<or> e - start \<le> 16)) (\<lambda>_.
         rbind (rfold (\<lambda>pos id. rbind (GetValue bm pos) (\<lambda>v. Inr (id * 2 + of_bool v)))
                  (id_positions start e) 0)
           (\<lambda>id. Inr (id + 2 ^ 16 * start))))"

definition GetIDPlus :: "words_bitmap \<Rightarrow> nat \<Rightarrow> nat \<Rightarrow> nat result" where
  "GetIDPlus bm startPos endPos =
     rbind (check (wb_size bm < 2 ^ 16)) (\<lambda>_.
       let start0 = id_start bm; e0 = id_end bm;
           start = (if start0 = startPos then endPos + 1 else start0);
           e = (if e0 < endPos then endPos else e0) in
       rbind (check (e < start \<or> e - start \<le> 16)) (\<lambda>_.
         rbind (rfold (\<lambda>pos id. rbind (GetValue bm pos) (\<lambda>v.
                    Inr (if v \<or> (startPos \<le> pos \<and> pos \<le> endPos) then id * 2 + 1 else id * 2)))
                  (id_positions start e) 0)
           (\<lambda>id. Inr (id + 2 ^ 16 * start))))"

section \<open>Lemmas\<close>

definition wf_bitmap :: "words_bitmap \<Rightarrow> bool" where
  "wf_bitmap bm \<longleftrightarrow> length (wb_bitmap bm) = wb_size bm \<and> wb_size bm < 2 ^ 31"

abbreviation covered :: "words_bitmap \<Rightarrow> nat \<Rightarrow> bool" where
  "covered bm i \<equiv> wb_bitmap bm ! i"

lemma wf_WordsBitmap [wf_intros]: "n < 2 ^ 31 \<Longrightarrow> wf_bitmap (WordsBitmap n)"
  by (simp add: wf_bitmap_def WordsBitmap_def Initialize_def)

lemma wf_WordsBitmap_from [wf_intros]: "n < 2 ^ 31 \<Longrightarrow> wf_bitmap (WordsBitmap_from n v)"
  by (simp add: wf_bitmap_def WordsBitmap_from_def Initialize_from_def)

lemma WordsBitmap_covered [simp]: "i < n \<Longrightarrow> \<not> covered (WordsBitmap n) i"
  by (simp add: WordsBitmap_def Initialize_def)

lemma WordsBitmap_from_covered [simp]:
  "i < n \<Longrightarrow> covered (WordsBitmap_from n v) i \<longleftrightarrow> i < length v \<and> v ! i"
  by (simp add: WordsBitmap_from_def Initialize_from_def)

lemma GetValue_in [result_simps]: "wf_bitmap bm \<Longrightarrow> i < wb_size bm \<Longrightarrow> GetValue bm i = Inr (covered bm i)"
  by (simp add: GetValue_def wf_bitmap_def)

lemma GetValue_out [result_simps]: "wf_bitmap bm \<Longrightarrow> wb_size bm \<le> i \<Longrightarrow> GetValue bm i = Inl OutOfBounds"
  by (simp add: GetValue_def wf_bitmap_def)

lemma bitmap_eqI:
  assumes "wf_bitmap a" "wf_bitmap b" "wb_size a = wb_size b"
    and "\<And>i. i < wb_size a \<Longrightarrow> covered a i = covered b i"
  shows "a = b"
proof -
  have "wb_bitmap a = wb_bitmap b"
    using assms by (intro nth_equalityI) (auto simp: wf_bitmap_def)
  then show ?thesis using assms(3) by (cases a; cases b) simp
qed

subsection \<open>Counting and searching\<close>

lemma fold_count:
  "fold (\<lambda>p c. if P p then c + 1 else c) xs n = n + length (filter P xs)" for n :: nat
  by (induction xs arbitrary: n) auto

lemma GetNumWordsCovered_filter:
  "GetNumWordsCovered bm = length (filter (covered bm) [0..<wb_size bm])"
  by (simp add: GetNumWordsCovered_def fold_count [simplified])

lemma GetNumWordsCovered_card:
  "GetNumWordsCovered bm = card {i. i < wb_size bm \<and> covered bm i}"
proof -
  have "set (filter (covered bm) [0..<wb_size bm]) = {i. i < wb_size bm \<and> covered bm i}"
    by auto
  then show ?thesis
    by (metis GetNumWordsCovered_filter distinct_card distinct_filter distinct_upt)
qed

lemma GetNumWordsCovered_le: "GetNumWordsCovered bm \<le> wb_size bm"
  by (metis GetNumWordsCovered_filter diff_zero length_filter_le length_upt)

lemma IsComplete_iff: "IsComplete bm \<longleftrightarrow> (\<forall>i < wb_size bm. covered bm i)"
proof -
  have "IsComplete bm \<longleftrightarrow> filter (covered bm) [0..<wb_size bm] = [0..<wb_size bm]"
    unfolding IsComplete_def GetNumWordsCovered_filter
    by (metis diff_zero filter_id_conv length_filter_less length_upt less_irrefl)
  then show ?thesis by (auto simp: filter_id_conv)
qed

lemma down_positions_wf [simp]: "wf_bitmap bm \<Longrightarrow> down_positions bm = rev [0..<wb_size bm]"
  by (simp add: down_positions_def wf_bitmap_def)

lemma wf_bitmap_size: "wf_bitmap bm \<Longrightarrow> i < wb_size bm \<Longrightarrow> i < NOT_FOUND"
  by (simp add: wf_bitmap_def NOT_FOUND_def)

text \<open>
  Each of the three searches ends at a position with its property, or the bitmap has none.
\<close>

lemma GetFirstGapPos_cases:
  assumes "wf_bitmap bm"
  obtains (gap) "GetFirstGapPos bm < wb_size bm" "\<not> covered bm (GetFirstGapPos bm)"
      "\<forall>i < GetFirstGapPos bm. covered bm i"
    | (complete) "GetFirstGapPos bm = NOT_FOUND" "\<forall>i < wb_size bm. covered bm i"
proof (cases "find (\<lambda>pos. \<not> covered bm pos) [0..<wb_size bm]")
  case None
  show ?thesis
  proof (rule complete)
    show "GetFirstGapPos bm = NOT_FOUND" by (simp only: GetFirstGapPos_def None option.case)
    show "\<forall>i < wb_size bm. covered bm i" using None by (auto simp: find_upt_None)
  qed
next
  case (Some k)
  then have "GetFirstGapPos bm = k" by (simp only: GetFirstGapPos_def option.case)
  then show ?thesis using gap Some by (simp add: find_upt_Some)
qed

lemma GetLastGapPos_cases:
  assumes "wf_bitmap bm"
  obtains (gap) "GetLastGapPos bm < wb_size bm" "\<not> covered bm (GetLastGapPos bm)"
      "\<forall>i. GetLastGapPos bm < i \<and> i < wb_size bm \<longrightarrow> covered bm i"
    | (complete) "GetLastGapPos bm = NOT_FOUND" "\<forall>i < wb_size bm. covered bm i"
proof (cases "find (\<lambda>pos. \<not> covered bm pos) (down_positions bm)")
  case None
  show ?thesis
  proof (rule complete)
    show "GetLastGapPos bm = NOT_FOUND" by (simp only: GetLastGapPos_def None option.case)
    show "\<forall>i < wb_size bm. covered bm i"
      using None assms by (simp add: find_rev_upt_None del: find_None_iff)
  qed
next
  case (Some k)
  then have "GetLastGapPos bm = k" by (simp only: GetLastGapPos_def option.case)
  then show ?thesis using gap Some assms by (simp add: find_rev_upt_Some)
qed

lemma GetLastPos_cases:
  assumes "wf_bitmap bm"
  obtains (last) "GetLastPos bm < wb_size bm" "covered bm (GetLastPos bm)"
      "\<forall>i. GetLastPos bm < i \<and> i < wb_size bm \<longrightarrow> \<not> covered bm i"
    | (none) "GetLastPos bm = NOT_FOUND" "\<forall>i < wb_size bm. \<not> covered bm i"
proof (cases "find (covered bm) (down_positions bm)")
  case None
  show ?thesis
  proof (rule none)
    show "GetLastPos bm = NOT_FOUND" by (simp only: GetLastPos_def None option.case)
    show "\<forall>i < wb_size bm. \<not> covered bm i"
      using None assms by (simp add: find_rev_upt_None del: find_None_iff)
  qed
next
  case (Some k)
  then have "GetLastPos bm = k" by (simp only: GetLastPos_def option.case)
  then show ?thesis using last Some assms by (simp add: find_rev_upt_Some)
qed

lemma GetFirstGapPos_found:
  assumes "wf_bitmap bm" "k < wb_size bm"
  shows "GetFirstGapPos bm = k \<longleftrightarrow> \<not> covered bm k \<and> (\<forall>i<k. covered bm i)"
  using assms(1)
proof (cases rule: GetFirstGapPos_cases)
  case gap
  then show ?thesis by (metis linorder_neqE_nat)
next
  case complete
  then show ?thesis using assms wf_bitmap_size by (metis less_irrefl)
qed

lemma GetFirstGapPos_none:
  assumes "wf_bitmap bm"
  shows "GetFirstGapPos bm = NOT_FOUND \<longleftrightarrow> (\<forall>i < wb_size bm. covered bm i)"
  using assms wf_bitmap_size [OF assms, of NOT_FOUND] by (cases rule: GetFirstGapPos_cases) auto

lemma GetLastPos_found:
  assumes "wf_bitmap bm" "k < wb_size bm"
  shows "GetLastPos bm = k \<longleftrightarrow> covered bm k \<and> (\<forall>i. k < i \<and> i < wb_size bm \<longrightarrow> \<not> covered bm i)"
  using assms(1)
proof (cases rule: GetLastPos_cases)
  case last
  then show ?thesis using assms by (metis linorder_neqE_nat)
next
  case none
  then show ?thesis using assms wf_bitmap_size by (metis less_irrefl)
qed

lemma GetLastPos_none:
  assumes "wf_bitmap bm"
  shows "GetLastPos bm = NOT_FOUND \<longleftrightarrow> (\<forall>i < wb_size bm. \<not> covered bm i)"
  using assms wf_bitmap_size [OF assms, of NOT_FOUND] by (cases rule: GetLastPos_cases) auto

subsection \<open>Overlap and setting a span\<close>

lemma overlap_loop_eq:
  "wf_bitmap bm \<Longrightarrow> \<forall>p \<in> set ps. p < wb_size bm \<Longrightarrow> overlap_loop bm ps = Inr (\<exists>p \<in> set ps. covered bm p)"
  by (induction ps) (auto simp: GetValue_in)

lemma Overlap_eq:
  assumes "wf_bitmap bm" "valid_range (wb_size bm) r"
  shows "Overlap bm r = Inr (\<exists>p \<in> set (positions r). covered bm p)"
  unfolding Overlap_def
  by (rule overlap_loop_eq [OF assms(1)]) (use assms(2) in \<open>cases r, auto\<close>)

lemma SetValue_in [result_simps]:
  "wf_bitmap bm \<Longrightarrow> i < wb_size bm \<Longrightarrow> SetValue bm i v = Inr (bm\<lparr>wb_bitmap := (wb_bitmap bm)[i := v]\<rparr>)"
  by (simp add: SetValue_def wf_bitmap_def)

lemma SetValue_out [result_simps]:
  "wf_bitmap bm \<Longrightarrow> wb_size bm \<le> i \<Longrightarrow> SetValue bm i v = Inl OutOfBounds"
  by (simp add: SetValue_def wf_bitmap_def)

definition set_span :: "words_bitmap \<Rightarrow> nat \<Rightarrow> nat \<Rightarrow> bool \<Rightarrow> words_bitmap" where
  "set_span bm s e v =
     bm\<lparr>wb_bitmap := map (\<lambda>i. if s \<le> i \<and> i < e then v else covered bm i) [0..<wb_size bm]\<rparr>"

lemma set_span_simps [simp]:
  "wb_size (set_span bm s e v) = wb_size bm"
  "i < wb_size bm \<Longrightarrow> covered (set_span bm s e v) i = (if s \<le> i \<and> i < e then v else covered bm i)"
  by (simp_all add: set_span_def)

lemma wf_set_span [wf_intros]: "wf_bitmap bm \<Longrightarrow> wf_bitmap (set_span bm s e v)"
  by (simp add: wf_bitmap_def set_span_def)

lemma SetValue_loop:
  assumes "wf_bitmap bm" "s \<le> k" "k \<le> wb_size bm"
  shows "rfold (\<lambda>pos b. SetValue b pos v) [s..<k] bm = Inr (set_span bm s k v)"
  using assms(2,3)
proof (induction k rule: dec_induct)
  case base
  have "set_span bm s s v = bm"
    using assms(1) by (intro bitmap_eqI wf_set_span) auto
  then show ?case by simp
next
  case (step k)
  have "(wb_bitmap (set_span bm s k v))[k := v] = wb_bitmap (set_span bm s (Suc k) v)"
    using step by (intro nth_equalityI) (auto simp: set_span_def nth_list_update less_Suc_eq)
  then have "(set_span bm s k v)\<lparr>wb_bitmap := (wb_bitmap (set_span bm s k v))[k := v]\<rparr>
      = set_span bm s (Suc k) v"
    by (simp add: set_span_def)
  then show ?case
    using step assms(1) by (simp add: rfold_append SetValue_in wf_set_span)
qed

lemma SetValue_range_in:
  assumes "wf_bitmap bm" "s \<le> e" "e < wb_size bm"
  shows "SetValue_range bm s e v = Inr (set_span bm s (Suc e) v)"
  unfolding SetValue_range_def using SetValue_loop [of bm s "Suc e"] assms by simp

lemma GetNumWordsCovered_set_span:
  assumes "wf_bitmap bm" "s \<le> e" "e < wb_size bm" "\<forall>i. s \<le> i \<and> i \<le> e \<longrightarrow> \<not> covered bm i"
  shows "GetNumWordsCovered (set_span bm s (Suc e) True) = GetNumWordsCovered bm + (e - s + 1)"
proof -
  have "{i. i < wb_size bm \<and> covered (set_span bm s (Suc e) True) i}
      = {i. i < wb_size bm \<and> covered bm i} \<union> {s..e}"
    using assms by (auto split: if_splits)
  moreover have "{i. i < wb_size bm \<and> covered bm i} \<inter> {s..e} = {}"
    using assms by auto
  ultimately show ?thesis
    using assms by (simp add: GetNumWordsCovered_card card_Un_disjoint)
qed

subsection \<open>Identifiers\<close>

lemma id_start_cases:
  assumes "wf_bitmap bm"
  shows "id_start bm \<le> wb_size bm" "\<forall>i < id_start bm. covered bm i"
    "id_start bm < wb_size bm \<Longrightarrow> \<not> covered bm (id_start bm)"
  using assms wf_bitmap_size [OF assms]
  by (cases rule: GetFirstGapPos_cases; force simp: id_start_def Let_def)+

lemma id_start_unique:
  assumes "wf_bitmap bm" "k \<le> wb_size bm" "\<forall>i < k. covered bm i"
    and "k < wb_size bm \<Longrightarrow> \<not> covered bm k"
  shows "id_start bm = k"
  using id_start_cases [OF assms(1)] assms(2-) by (metis le_neq_implies_less linorder_neqE_nat)

lemma id_end_cases:
  assumes "wf_bitmap bm"
  shows "wb_size bm \<noteq> 0 \<Longrightarrow> id_end bm < wb_size bm"
    "\<forall>i. id_end bm < i \<and> i < wb_size bm \<longrightarrow> \<not> covered bm i"
    "0 < id_end bm \<Longrightarrow> id_end bm < wb_size bm \<and> covered bm (id_end bm)"
  using assms wf_bitmap_size [OF assms]
  by (cases rule: GetLastPos_cases; force simp: id_end_def Let_def)+

lemma id_end_unique:
  assumes "wf_bitmap bm" "k < wb_size bm" "covered bm k"
    and "\<forall>i. k < i \<and> i < wb_size bm \<longrightarrow> \<not> covered bm i"
  shows "id_end bm = k"
proof -
  have "GetLastPos bm = k" using assms by (simp add: GetLastPos_found)
  then show ?thesis using assms(1,2) wf_bitmap_size by (fastforce simp: id_end_def)
qed

lemma fold_horner:
  "fold (\<lambda>p i. i * 2 + of_bool (f p)) (rev xs) 0 = (horner_sum of_bool 2 (map f xs) :: nat)"
  by (induction xs) auto

lemma horner_bits_less: "(horner_sum of_bool 2 bs :: nat) < 2 ^ length bs"
  by (induction bs) auto

lemma id_positions_in:
  assumes "wf_bitmap bm" "p \<in> set (id_positions s e)" "e < wb_size bm"
  shows "p < wb_size bm"
  using assms by (auto simp: id_positions_def)

lemma GetID_loop:
  assumes "wf_bitmap bm" "e < wb_size bm \<or> e \<le> s"
  shows "rfold (\<lambda>pos i. rbind (GetValue bm pos) (\<lambda>v. Inr (i * 2 + of_bool v))) (id_positions s e) (0::nat)
    = Inr (horner_sum of_bool 2 (map (covered bm) [Suc s..<Suc e]))"
proof -
  have "rfold (\<lambda>pos i. rbind (GetValue bm pos) (\<lambda>v. Inr (i * 2 + of_bool v))) (id_positions s e) (0::nat)
    = Inr (fold (\<lambda>p i. i * 2 + of_bool (covered bm p)) (id_positions s e) (0::nat))"
    using assms by (intro rfold_Inr_fold) (auto simp: GetValue_in id_positions_def)
  then show ?thesis by (simp only: id_positions_def fold_horner)
qed

definition id_pattern :: "words_bitmap \<Rightarrow> nat" where
  "id_pattern bm = horner_sum of_bool 2 (map (covered bm) [Suc (id_start bm)..<Suc (id_end bm)])"

lemma id_end_in: "wf_bitmap bm \<Longrightarrow> id_end bm < wb_size bm \<or> id_end bm \<le> id_start bm"
  using id_end_cases(3) [of bm] by (cases "id_end bm = 0") auto

lemma GetID_eq:
  assumes "wf_bitmap bm"
  shows "GetID bm =
    (if wb_size bm < 2 ^ 16 \<and> id_end bm - id_start bm \<le> 16
     then Inr (id_pattern bm + 2 ^ 16 * id_start bm) else Inl CheckFailed)"
  using GetID_loop [OF assms id_end_in [OF assms]]
  by (auto simp: GetID_def id_pattern_def check_def Let_def simp del: upt_Suc)

lemma id_pattern_less:
  assumes "id_end bm - id_start bm \<le> 16"
  shows "id_pattern bm < 2 ^ 16"
proof -
  have "id_pattern bm < 2 ^ (id_end bm - id_start bm)"
    using horner_bits_less [of "map (covered bm) [Suc (id_start bm)..<Suc (id_end bm)]"]
    by (simp add: id_pattern_def del: upt_Suc)
  also have "(2::nat) ^ (id_end bm - id_start bm) \<le> 2 ^ 16"
    using assms by (intro power_increasing) auto
  finally show ?thesis .
qed

lemma bit_id_pattern:
  assumes "wf_bitmap bm" "id_start bm < i" "i < wb_size bm"
  shows "bit (id_pattern bm) (i - Suc (id_start bm)) \<longleftrightarrow> covered bm i"
proof -
  have "bit (id_pattern bm) (i - Suc (id_start bm)) \<longleftrightarrow> i \<le> id_end bm \<and> covered bm i"
    using assms(2) by (auto simp: id_pattern_def bit_horner_sum_bit_iff nth_append simp del: upt_Suc)
  then show ?thesis using id_end_cases(2) [OF assms(1)] assms(3) by (metis not_le)
qed

lemma GetID_split:
  assumes "wf_bitmap bm" "GetID bm = Inr k"
  shows "k div 2 ^ 16 = id_start bm" "k mod 2 ^ 16 = id_pattern bm"
  using assms id_pattern_less by (auto simp: GetID_eq split: if_splits)

lemma GetIDPlus_loop:
  assumes "wf_bitmap bm" "e < wb_size bm \<or> e \<le> k" "\<And>p. p \<le> e \<Longrightarrow> p < wb_size bm \<Longrightarrow> g p \<longleftrightarrow> covered bm p \<or> P p"
  shows "rfold (\<lambda>pos i. rbind (GetValue bm pos) (\<lambda>v. Inr (if v \<or> P pos then i * 2 + 1 else i * 2)))
      (id_positions k e) (0::nat) = Inr (horner_sum of_bool 2 (map g [Suc k..<Suc e]))"
proof -
  have "rfold (\<lambda>pos i. rbind (GetValue bm pos) (\<lambda>v. Inr (if v \<or> P pos then i * 2 + 1 else i * 2)))
      (id_positions k e) (0::nat) = Inr (fold (\<lambda>p i. i * 2 + of_bool (g p)) (id_positions k e) (0::nat))"
    using assms by (intro rfold_Inr_fold) (auto simp: GetValue_in id_positions_def)
  then show ?thesis by (simp only: id_positions_def fold_horner)
qed

text \<open>
  The start and end positions GetIDPlus computes, against those of the bitmap with the
  span set.
\<close>

lemma id_end_set_span:
  assumes "wf_bitmap bm" "s \<le> e" "e < wb_size bm"
  shows "id_end (set_span bm s (Suc e) True) = max (id_end bm) e"
proof (rule id_end_unique)
  show "wf_bitmap (set_span bm s (Suc e) True)" by (rule wf_set_span [OF assms(1)])
  have lt: "id_end bm < wb_size bm" using id_end_cases(1) [OF assms(1)] assms(3) by simp
  then show "max (id_end bm) e < wb_size (set_span bm s (Suc e) True)" using assms by simp
  show "covered (set_span bm s (Suc e) True) (max (id_end bm) e)"
    using assms lt id_end_cases(3) [OF assms(1)] by (auto simp: max_def)
  show "\<forall>i. max (id_end bm) e < i \<and> i < wb_size (set_span bm s (Suc e) True) \<longrightarrow>
      \<not> covered (set_span bm s (Suc e) True) i"
    using assms id_end_cases(2) [OF assms(1)] by auto
qed

definition idplus_start :: "words_bitmap \<Rightarrow> nat \<Rightarrow> nat \<Rightarrow> nat" where
  "idplus_start bm s e = (if id_start bm = s then e + 1 else id_start bm)"

lemma id_start_set_span:
  assumes wf: "wf_bitmap bm" and se: "s \<le> e" "e < wb_size bm"
    and free: "\<forall>i. s \<le> i \<and> i \<le> e \<longrightarrow> \<not> covered bm i"
    and adj: "GetFirstGapPos bm = s \<Longrightarrow> e + 1 < wb_size bm \<Longrightarrow> \<not> covered bm (e + 1)"
  shows "id_start (set_span bm s (Suc e) True) = idplus_start bm s e"
proof -
  have le: "id_start bm \<le> s"
    using id_start_cases(2) [OF wf] free se by (meson le_refl not_le)
  have gap: "id_start bm = s \<Longrightarrow> GetFirstGapPos bm = s"
    using id_start_cases [OF wf] se free wf by (simp add: GetFirstGapPos_found)
  show ?thesis
  proof (rule id_start_unique [OF wf_set_span [OF wf]])
    show "idplus_start bm s e \<le> wb_size (set_span bm s (Suc e) True)"
      using se id_start_cases(1) [OF wf] by (simp add: idplus_start_def)
    show "\<forall>i < idplus_start bm s e. covered (set_span bm s (Suc e) True) i"
      using id_start_cases(1,2) [OF wf] se by (auto simp: idplus_start_def)
    show "\<not> covered (set_span bm s (Suc e) True) (idplus_start bm s e)"
      if "idplus_start bm s e < wb_size (set_span bm s (Suc e) True)"
      using that gap adj id_start_cases(3) [OF wf] le by (auto simp: idplus_start_def split: if_splits)
  qed
qed

lemma GetIDPlus_eq:
  assumes wf: "wf_bitmap bm" and se: "s \<le> e" "e < wb_size bm"
  shows "GetIDPlus bm s e =
    (let start = idplus_start bm s e; en = max (id_end bm) e in
     if wb_size bm < 2 ^ 16 \<and> en - start \<le> 16
     then Inr (horner_sum of_bool 2 (map (covered (set_span bm s (Suc e) True)) [Suc start..<Suc en])
               + 2 ^ 16 * start)
     else Inl CheckFailed)"
proof -
  have lt: "max (id_end bm) e < wb_size bm"
    using id_end_cases(1) [OF wf] se by simp
  have loop: "rfold (\<lambda>pos i. rbind (GetValue bm pos)
        (\<lambda>v. Inr (if v \<or> (s \<le> pos \<and> pos \<le> e) then i * 2 + 1 else i * 2)))
      (id_positions (idplus_start bm s e) (max (id_end bm) e)) (0::nat)
    = Inr (horner_sum of_bool 2 (map (covered (set_span bm s (Suc e) True))
        [Suc (idplus_start bm s e)..<Suc (max (id_end bm) e)]))"
    by (rule GetIDPlus_loop [OF wf]) (use lt in \<open>auto split: if_splits\<close>)
  have mx: "(if id_end bm < e then e else id_end bm) = max (id_end bm) e"
    by (simp add: max_def)
  show ?thesis
    using loop lt
    by (auto simp: GetIDPlus_def check_def Let_def mx simp flip: idplus_start_def simp del: upt_Suc)
qed

subsection \<open>The order of memcmp\<close>

lemma memcmp_bools_sign: "memcmp_bools xs ys \<in> {-1, 0, 1}"
  by (induction xs ys rule: memcmp_bools.induct) auto

lemma memcmp_bools_swap: "memcmp_bools ys xs = - memcmp_bools xs ys"
  by (induction xs ys rule: memcmp_bools.induct) auto

lemma memcmp_bools_0: "length xs = length ys \<Longrightarrow> memcmp_bools xs ys = 0 \<longleftrightarrow> xs = ys"
  by (induction xs ys rule: memcmp_bools.induct) auto

lemma memcmp_bools_trans:
  "length xs = length ys \<Longrightarrow> length ys = length zs \<Longrightarrow>
   memcmp_bools xs ys < 0 \<Longrightarrow> memcmp_bools ys zs < 0 \<Longrightarrow> memcmp_bools xs zs < 0"
proof (induction xs ys arbitrary: zs rule: memcmp_bools.induct)
  case (1 x xs y ys)
  obtain z zs' where zs: "zs = z # zs'" using "1.prems"(2) by (cases zs) auto
  have lt: "memcmp_bools (p # ps) (q # qs) < 0 \<longleftrightarrow> (\<not> p \<and> q) \<or> (p = q \<and> memcmp_bools ps qs < 0)"
    for p q ps qs by auto
  have len: "length xs = length ys" "length ys = length zs'"
    using "1.prems"(1,2) zs by simp_all
  from "1.prems"(3,4) have "(\<not> x \<and> y) \<or> (x = y \<and> memcmp_bools xs ys < 0)"
    "(\<not> y \<and> z) \<or> (y = z \<and> memcmp_bools ys zs' < 0)"
    unfolding zs lt .
  then show ?case
    unfolding zs lt using "1.IH" [OF _ len] by blast
qed simp_all

lemma Compare_swap: "Compare b a = - Compare a b"
  using memcmp_bools_swap [of "wb_bitmap a" "wb_bitmap b"] by (auto simp: Compare_def)

lemma Compare_0: "wf_bitmap a \<Longrightarrow> wf_bitmap b \<Longrightarrow> Compare a b = 0 \<longleftrightarrow> a = b"
  by (auto simp: Compare_def wf_bitmap_def memcmp_bools_0)

lemma wb_less_trans:
  assumes "wf_bitmap a" "wf_bitmap b" "wf_bitmap c" "wb_less a b" "wb_less b c"
  shows "wb_less a c"
  using assms memcmp_bools_trans [of "wb_bitmap a" "wb_bitmap b" "wb_bitmap c"]
  by (auto simp: wb_less_def Compare_def wf_bitmap_def split: if_splits)

subsection \<open>Edges\<close>

lemma GetEdgeToTheLeftOf_spec:
  assumes "wf_bitmap bm" "l \<le> wb_size bm"
  obtains k where "GetEdgeToTheLeftOf bm l = Inr k" "k \<le> l" "\<forall>i. k \<le> i \<and> i < l \<longrightarrow> \<not> covered bm i"
    "0 < k \<Longrightarrow> covered bm (k - 1)"
  using assms(2)
proof (induction l arbitrary: thesis)
  case 0
  then show ?case by simp
next
  case (Suc l)
  show ?case
  proof (cases "covered bm l")
    case True
    then show ?thesis using Suc.prems assms(1) by (intro Suc.prems(1) [of "Suc l"]) (auto simp: GetValue_in)
  next
    case False
    obtain k where k: "GetEdgeToTheLeftOf bm l = Inr k" "k \<le> l"
        "\<forall>i. k \<le> i \<and> i < l \<longrightarrow> \<not> covered bm i" "0 < k \<Longrightarrow> covered bm (k - 1)"
      using Suc.IH Suc.prems(2) by auto
    show ?thesis
      using k False Suc.prems(2) assms(1)
      by (intro Suc.prems(1) [of k]) (auto simp: GetValue_in less_Suc_eq)
  qed
qed

lemma GetEdgeToTheRightOf_spec:
  assumes "wf_bitmap bm" "r < wb_size bm"
  obtains k where "GetEdgeToTheRightOf bm r = Inr k" "r \<le> k" "k < wb_size bm"
    "\<forall>i. r < i \<and> i \<le> k \<longrightarrow> \<not> covered bm i" "k + 1 < wb_size bm \<Longrightarrow> covered bm (k + 1)"
  using assms
proof (induction bm r arbitrary: thesis rule: GetEdgeToTheRightOf.induct)
  case (1 bm r)
  show ?case
  proof (cases "r + 1 < wb_size bm \<and> \<not> covered bm (r + 1)")
    case True
    obtain k where k: "GetEdgeToTheRightOf bm (r + 1) = Inr k" "r + 1 \<le> k" "k < wb_size bm"
        "\<forall>i. r + 1 < i \<and> i \<le> k \<longrightarrow> \<not> covered bm i" "k + 1 < wb_size bm \<Longrightarrow> covered bm (k + 1)"
      using "1.IH" [of False] True "1.prems"(2) by auto
    have "GetEdgeToTheRightOf bm r = Inr k"
      using k(1) True "1.prems"(2) by (simp add: GetEdgeToTheRightOf.simps [of bm r] GetValue_in)
    moreover have "\<forall>i. r < i \<and> i \<le> k \<longrightarrow> \<not> covered bm i"
      using k(4) True by (metis Suc_eq_plus1 Suc_lessI)
    ultimately show ?thesis using k by (intro "1.prems"(1) [of k]) auto
  next
    case False
    then have "GetEdgeToTheRightOf bm r = Inr r"
      using "1.prems"(2) by (simp add: GetEdgeToTheRightOf.simps [of bm r] GetValue_in)
    then show ?thesis using False "1.prems"(3) by (intro "1.prems"(1) [of r]) auto
  qed
qed

section \<open>Properties\<close>

text \<open>The equations that evaluate the operations on a concrete bitmap.\<close>

lemmas bitmap_eval =
  WordsBitmap_def WordsBitmap_from_def Initialize_def Initialize_from_def GetValue_def
  GetFirstGapPos_def GetLastPos_def down_positions_def to_int32_def SetValue_range_def SetValue_def
  GetNumWordsCovered_def GetID_def GetIDPlus_def id_start_def id_end_def id_positions_def
  Overlap_def Let_def NOT_FOUND_def upt_rec

text \<open>
  Two coverage vectors of the same sentence with the same identifier are the same
  coverage: GetID, where its two checks pass, loses nothing.
\<close>

theorem GetID_injective:
  assumes "wf_bitmap a" "wf_bitmap b" "wb_size a = wb_size b"
    and "GetID a = Inr k" "GetID b = Inr k"
  shows "a = b"
proof (rule bitmap_eqI [OF assms(1-3)])
  fix i assume i: "i < wb_size a"
  have st: "id_start a = id_start b" and pat: "id_pattern a = id_pattern b"
    using GetID_split [OF assms(1,4)] GetID_split [OF assms(2,5)] by simp_all
  consider "i < id_start a" | "i = id_start a" | "id_start a < i" by linarith
  then show "covered a i = covered b i"
  proof cases
    case 1
    then show ?thesis using id_start_cases(2) assms(1,2) st by metis
  next
    case 2
    then show ?thesis using id_start_cases(3) assms(1-3) st i by metis
  next
    case 3
    then show ?thesis
      using bit_id_pattern [OF assms(1) 3 i] bit_id_pattern [OF assms(2)] assms(3) st pat i by metis
  qed
qed

lemma GetID_injective_witness:
  "WordsBitmap_from 4 [True, False, True, False] = WordsBitmap_from 4 [True, False, True, False, True]"
proof (rule GetID_injective [where k = 65537])
  show "wf_bitmap (WordsBitmap_from 4 [True, False, True, False])"
    "wf_bitmap (WordsBitmap_from 4 [True, False, True, False, True])"
    by (intro wf_WordsBitmap_from; simp)+
  show "GetID (WordsBitmap_from 4 [True, False, True, False]) = Inr 65537"
    "GetID (WordsBitmap_from 4 [True, False, True, False, True]) = Inr 65537"
    by (simp_all add: bitmap_eval)
qed (simp add: WordsBitmap_from_def)

text \<open>
  The identifier GetIDPlus computes for a bitmap and a free span is the identifier of
  the bitmap after the span is set, unless the span fills the first gap and the word after
  it is already translated.
\<close>

theorem GetIDPlus_correct:
  assumes "wf_bitmap bm" "s \<le> e" "e < wb_size bm"
    and "\<forall>i. s \<le> i \<and> i \<le> e \<longrightarrow> \<not> covered bm i"
    and "\<not> (GetFirstGapPos bm = s \<and> e + 1 < wb_size bm \<and> covered bm (e + 1))"
  shows "rbind (SetValue_range bm s e True) GetID = GetIDPlus bm s e"
proof -
  have st: "id_start (set_span bm s (Suc e) True) = idplus_start bm s e"
    using assms by (intro id_start_set_span) auto
  note en = id_end_set_span [OF assms(1-3)]
  show ?thesis
    using assms(1-3) by (simp add: SetValue_range_in GetID_eq wf_set_span GetIDPlus_eq id_pattern_def
        st en Let_def del: upt_Suc)
qed

lemma GetIDPlus_correct_witness:
  "rbind (SetValue_range (WordsBitmap_from 5 [True]) 3 3 True) GetID = GetIDPlus (WordsBitmap_from 5 [True]) 3 3"
proof (rule GetIDPlus_correct)
  show "wf_bitmap (WordsBitmap_from 5 [True])" by (simp add: wf_WordsBitmap_from)
qed (auto simp: WordsBitmap_from_def Initialize_from_def GetFirstGapPos_def upt_rec)

text \<open>
  In the excluded case the two identifiers always differ: GetIDPlus takes the word after
  the span as the new first gap although it is translated.
\<close>

theorem GetIDPlus_adjacent_differs:
  assumes "wf_bitmap bm" "s \<le> e" "GetFirstGapPos bm = s" "e + 1 < wb_size bm" "covered bm (e + 1)"
    and "GetIDPlus bm s e = Inr k" "rbind (SetValue_range bm s e True) GetID = Inr k'"
  shows "k \<noteq> k'"
proof -
  let ?b = "set_span bm s (Suc e) True"
  have s: "s < NOT_FOUND" using wf_bitmap_size [OF assms(1), of s] assms(2,4) by simp
  then have st: "id_start bm = s" using assms(3) by (simp add: id_start_def)
  have "\<forall>i \<le> e + 1. covered ?b i"
    using assms(4,5) id_start_cases(2) [OF assms(1)] st by (auto simp: le_Suc_eq)
  then have gt: "e + 1 < id_start ?b"
    using id_start_cases(1,3) [OF wf_set_span [OF assms(1)]] assms(4)
    by (metis not_le order_le_less_trans set_span_simps(1))
  have "k' div 2 ^ 16 = id_start ?b"
    using assms(1,2,4,7) by (intro GetID_split(1)) (auto simp: SetValue_range_in wf_set_span)
  moreover have "k div 2 ^ 16 = e + 1"
  proof -
    have kk: "k = horner_sum of_bool 2 (map (covered ?b) [Suc (e + 1)..<Suc (max (id_end bm) e)])
        + 2 ^ 16 * (e + 1)" and le: "max (id_end bm) e - (e + 1) \<le> 16"
      using assms(1,2,4,6) st by (auto simp: GetIDPlus_eq idplus_start_def Let_def split: if_splits simp del: upt_Suc)
    have "horner_sum of_bool 2 (map (covered ?b) [Suc (e + 1)..<Suc (max (id_end bm) e)])
        < (2::nat) ^ (max (id_end bm) e - (e + 1))"
      using horner_bits_less [of "map (covered ?b) [Suc (e + 1)..<Suc (max (id_end bm) e)]"]
      by (simp del: upt_Suc)
    also have "\<dots> \<le> 2 ^ 16" using le by (intro power_increasing) auto
    finally show ?thesis by (simp only: kk) simp
  qed
  ultimately show ?thesis using gt by auto
qed

lemma GetIDPlus_adjacent_differs_witness:
  "(65536 :: nat) \<noteq> 131072"
proof (rule GetIDPlus_adjacent_differs [where bm = "WordsBitmap_from 2 [False, True]" and s = 0 and e = 0])
  show "wf_bitmap (WordsBitmap_from 2 [False, True])" by (simp add: wf_WordsBitmap_from)
qed (simp_all add: bitmap_eval)

text \<open>
  Translating a free span marks exactly its words, moves the number of translated
  words up by its length, and completes the sentence exactly when no other gap was left.
\<close>

theorem SetValue_range_coverage:
  assumes "wf_bitmap bm" "s \<le> e" "e < wb_size bm"
    and "Overlap bm (WordsRange s e) = Inr False"
  shows "\<exists>bm'. SetValue_range bm s e True = Inr bm' \<and> wf_bitmap bm' \<and> wb_size bm' = wb_size bm \<and>
    (\<forall>i < wb_size bm. covered bm' i \<longleftrightarrow> covered bm i \<or> (s \<le> i \<and> i \<le> e)) \<and>
    GetNumWordsCovered bm' = GetNumWordsCovered bm + range_GetNumWordsCovered (WordsRange s e) \<and>
    (IsComplete bm' \<longleftrightarrow> (\<forall>i < wb_size bm. \<not> covered bm i \<longrightarrow> s \<le> i \<and> i \<le> e))"
proof -
  have "valid_range (wb_size bm) (WordsRange s e)"
    using assms(1-3) by (simp add: wf_bitmap_def NOT_FOUND_def)
  then have "Overlap bm (WordsRange s e) = Inr (\<exists>p \<in> {s..<Suc e}. covered bm p)"
    and len: "range_GetNumWordsCovered (WordsRange s e) = e - s + 1"
    using Overlap_eq [OF assms(1), of "WordsRange s e"] assms(2)
      range_GetNumWordsCovered_valid [of "wb_size bm" "WordsRange s e"]
    by (simp_all add: Suc_diff_le del: range_GetNumWordsCovered.simps upt_Suc)
  then have free: "\<forall>i. s \<le> i \<and> i \<le> e \<longrightarrow> \<not> covered bm i"
    using assms(4) by auto
  let ?b = "set_span bm s (Suc e) True"
  have cov: "\<forall>i < wb_size bm. covered ?b i \<longleftrightarrow> covered bm i \<or> (s \<le> i \<and> i \<le> e)"
    by auto
  moreover have "IsComplete ?b \<longleftrightarrow> (\<forall>i < wb_size bm. \<not> covered bm i \<longrightarrow> s \<le> i \<and> i \<le> e)"
    unfolding IsComplete_iff set_span_simps(1) using cov by blast
  moreover have "GetNumWordsCovered ?b = GetNumWordsCovered bm + range_GetNumWordsCovered (WordsRange s e)"
    using GetNumWordsCovered_set_span [OF assms(1-3) free] len by simp
  ultimately show ?thesis
    using SetValue_range_in [OF assms(1-3), of True] wf_set_span [OF assms(1)]
    by (metis set_span_simps(1))
qed

lemma SetValue_range_coverage_witness:
  "\<exists>bm'. SetValue_range (WordsBitmap 3) 1 2 True = Inr bm' \<and> GetNumWordsCovered bm' = 2"
proof -
  have w: "wf_bitmap (WordsBitmap 3)" "Overlap (WordsBitmap 3) (WordsRange 1 2) = Inr False"
    "GetNumWordsCovered (WordsBitmap 3) = 0"
    by (simp_all add: bitmap_eval wf_bitmap_def)
  have "range_GetNumWordsCovered (WordsRange 1 2) = 2"
    by (simp add: sz_sub_def sz_add_def SIZE_RANGE_def NOT_FOUND_def)
  then show ?thesis
    using SetValue_range_coverage [OF w(1) _ _ w(2)] w(3) by (auto simp: WordsBitmap_def)
qed

text \<open>
  The comparison of coverage vectors is the strict part of a linear order: it is
  transitive, and of two bitmaps exactly one is less or they are equal.
\<close>

theorem Compare_linear_order:
  assumes "wf_bitmap a" "wf_bitmap b" "wf_bitmap c"
  shows "(wb_less a b \<and> wb_less b c \<longrightarrow> wb_less a c) \<and>
    (wb_less a b \<or> a = b \<or> wb_less b a) \<and> \<not> (wb_less a b \<and> wb_less b a) \<and> \<not> wb_less a a"
  using wb_less_trans [OF assms] Compare_0 [OF assms(1,2)] Compare_0 [OF assms(1,1)] Compare_swap [of a b]
  by (auto simp: wb_less_def)

lemma Compare_linear_order_witness:
  "wb_less (WordsBitmap 2) (WordsBitmap 3) \<or> WordsBitmap 2 = WordsBitmap 3 \<or> wb_less (WordsBitmap 3) (WordsBitmap 2)"
  using Compare_linear_order [of "WordsBitmap 2" "WordsBitmap 3" "WordsBitmap 3"] by (simp add: wf_WordsBitmap)

end
