(* ===== verification/SquareMatrices.thy ===== *)
theory SquareMatrices
  imports WordsBitmaps
begin

text \<open>
  The future score table of the phrase-based search (moses/src/SquareMatrix.h and
  SquareMatrix.cpp) and the jump cost of a coverage vector (WordsBitmap.cpp).

  A score is an element of any type with a zero and an addition; no law of the addition is
  used. The theorem on the two variants of CalcFutureScore therefore holds for IEEE floats
  as well: both variants perform the same additions in the same order.
\<close>

record 'f square_matrix =
  sm_size :: nat
  sm_array :: "'f list"

text \<open>
  The constructor allocates size * size cells and leaves their values
  unspecified: they are an argument of the model.
\<close>

definition SquareMatrix :: "nat \<Rightarrow> 'f list \<Rightarrow> 'f square_matrix" where
  "SquareMatrix n cells = \<lparr>sm_size = n, sm_array = take (n * n) cells\<rparr>"

definition GetScore :: "'f square_matrix \<Rightarrow> nat \<Rightarrow> nat \<Rightarrow> 'f result" where
  "GetScore m startPos endPos = array_get (sm_array m) (startPos * sm_size m + endPos)"

definition SetScore :: "'f square_matrix \<Rightarrow> nat \<Rightarrow> nat \<Rightarrow> 'f \<Rightarrow> 'f square_matrix result" where
  "SetScore m startPos endPos value =
     rbind (array_set (sm_array m) (startPos * sm_size m + endPos) value)
       (\<lambda>cells. Inr (m\<lparr>sm_array := cells\<rparr>))"

text \<open>
  The state of both loops: the start of the open gap, NOT_FOUND when there is none
  (the source's notInGap is the same value), and the score so far.
\<close>

type_synonym 'f gap_state = "nat \<times> 'f"

definition future_step ::
  "'f::plus square_matrix \<Rightarrow> words_bitmap \<Rightarrow> nat \<Rightarrow> 'f gap_state \<Rightarrow> 'f gap_state result" where
  "future_step m bm currPos st = (case st of (startGap, futureScore) \<Rightarrow>
     rbind (GetValue bm currPos) (\<lambda>v.
       if v = False \<and> startGap = NOT_FOUND then Inr (currPos, futureScore)
       else if v = True \<and> startGap \<noteq> NOT_FOUND
       then rbind (GetScore m startGap (sz_sub currPos 1)) (\<lambda>sc. Inr (NOT_FOUND, futureScore + sc))
       else Inr (startGap, futureScore)))"

definition CalcFutureScore :: "'f::{plus,zero} square_matrix \<Rightarrow> words_bitmap \<Rightarrow> 'f result" where
  "CalcFutureScore m bm =
     rbind (rfold (future_step m bm) [0..<wb_size bm] (NOT_FOUND, 0))
       (\<lambda>(startGap, futureScore).
          if startGap \<noteq> NOT_FOUND
          then rbind (GetScore m startGap (sz_sub (wb_size bm) 1)) (\<lambda>sc. Inr (futureScore + sc))
          else Inr futureScore)"

definition future_span_step ::
  "'f::plus square_matrix \<Rightarrow> words_bitmap \<Rightarrow> nat \<Rightarrow> nat \<Rightarrow> nat \<Rightarrow> 'f gap_state \<Rightarrow> 'f gap_state result" where
  "future_span_step m bm startPos endPos currPos st = (case st of (startGap, futureScore) \<Rightarrow>
     rbind (GetValue bm currPos) (\<lambda>v.
       if startGap = NOT_FOUND \<and> v = False \<and> (currPos < startPos \<or> currPos > endPos)
       then Inr (currPos, futureScore)
       else if startGap \<noteq> NOT_FOUND \<and> (v = True \<or> (startPos \<le> currPos \<and> currPos \<le> endPos))
       then rbind (GetScore m startGap (sz_sub currPos 1)) (\<lambda>sc. Inr (NOT_FOUND, futureScore + sc))
       else Inr (startGap, futureScore)))"

definition CalcFutureScore_span ::
  "'f::{plus,zero} square_matrix \<Rightarrow> words_bitmap \<Rightarrow> nat \<Rightarrow> nat \<Rightarrow> 'f result" where
  "CalcFutureScore_span m bm startPos endPos =
     (let gap = GetFirstGapPos bm in
      if gap = NOT_FOUND then Inr 0
      else
        let startGap = (if startPos = gap then NOT_FOUND else gap);
            startLoop = (if startPos = gap then endPos + 1 else gap + 1);
            last0 = GetLastPos bm;
            lastCovered = (if endPos > last0 \<or> last0 = NOT_FOUND then endPos else last0)
        in rbind (rfold (future_span_step m bm startPos endPos) [startLoop..<Suc lastCovered] (startGap, 0))
             (\<lambda>(_, futureScore).
                if lastCovered \<noteq> sz_sub (wb_size bm) 1
                then rbind (GetScore m (lastCovered + 1) (sz_sub (wb_size bm) 1))
                       (\<lambda>sc. Inr (futureScore + sc))
                else Inr futureScore))"

section \<open>GetFutureCosts\<close>

text \<open>
  The loop keeps the previous, current and next tick, the last position and the sum. The
  CHECKs inside the loop are compiled in when NDEBUG is not defined; they compare the
  shifted ticks with the array. The ints are unbounded: the sum is bounded by the square of
  the sentence length.
\<close>

record cost_state =
  cs_sum :: int
  cs_aim1 :: bool
  cs_ai :: bool
  cs_aip1 :: bool
  cs_lastPos :: int

definition cost_step :: "words_bitmap \<Rightarrow> nat \<Rightarrow> cost_state \<Rightarrow> cost_state result" where
  "cost_step bm i st =
     (let aim1 = cs_ai st; ai = cs_aip1 st in
      rbind (if i + 1 = wb_size bm then Inr True else GetValue bm (i + 1)) (\<lambda>aip1.
      rbind (if i > 0 then rbind (GetValue bm (i - 1)) (\<lambda>v. check (aim1 = (i = 0 \<or> v = True))) else Inr ()) (\<lambda>_.
      rbind (if i + 1 < wb_size bm then rbind (GetValue bm (i + 1)) (\<lambda>v. check (aip1 = v)) else Inr ()) (\<lambda>_.
        let s = (if (i = 0 \<or> aim1) \<and> \<not> ai then cs_sum st + \<bar>cs_lastPos st - int i + 1\<bar> else cs_sum st);
            l = (if i > 0 \<and> \<not> ai \<and> (i + 1 = wb_size bm \<or> aip1) then int (i + 1) else cs_lastPos st)
        in Inr \<lparr>cs_sum = s, cs_aim1 = aim1, cs_ai = ai, cs_aip1 = aip1, cs_lastPos = l\<rparr>))))"

definition GetFutureCosts :: "words_bitmap \<Rightarrow> int \<Rightarrow> int result" where
  "GetFutureCosts bm lastPos =
     rbind (GetValue bm 0) (\<lambda>first.
     rbind (rfold (cost_step bm) [0..<wb_size bm]
              \<lparr>cs_sum = 0, cs_aim1 = False, cs_ai = False, cs_aip1 = first, cs_lastPos = lastPos\<rparr>) (\<lambda>st.
       let total = cs_sum st + \<bar>cs_lastPos st - int (wb_size bm) + 1\<bar> in
       rbind (check (total \<ge> 0)) (\<lambda>_. Inr total)))"

section \<open>Lemmas\<close>

definition wf_matrix :: "'f square_matrix \<Rightarrow> bool" where
  "wf_matrix m \<longleftrightarrow> length (sm_array m) = sm_size m * sm_size m"

lemma cell_in:
  assumes "wf_matrix m" "s < sm_size m" "e < sm_size m"
  shows "s * sm_size m + e < length (sm_array m)"
proof -
  have "s * sm_size m + e < Suc s * sm_size m" using assms(3) by simp
  also have "\<dots> \<le> sm_size m * sm_size m" using assms(2) by (intro mult_le_mono1) simp
  finally show ?thesis using assms(1) by (simp only: wf_matrix_def)
qed

lemma wf_SetScore [wf_intros]: "wf_matrix m \<Longrightarrow> SetScore m s e v = Inr m' \<Longrightarrow> wf_matrix m'"
  by (auto simp: SetScore_def wf_matrix_def rbind_eq_Inr array_set_def split: if_splits)

lemma cell_inj:
  assumes "e < n" "e' < n" "s * n + e = s' * n + (e'::nat)"
  shows "s = s' \<and> e = e'"
proof -
  have "(s * n + e) div n = s" "(s' * n + e') div n = s'" using assms(1,2) by simp_all
  then show ?thesis using assms(3) by auto
qed

lemma bitmap_size_small:
  "wf_bitmap bm \<Longrightarrow> i \<le> wb_size bm \<Longrightarrow> i < SIZE_RANGE \<and> i \<noteq> NOT_FOUND"
  by (simp add: wf_bitmap_def SIZE_RANGE_def NOT_FOUND_def)

text \<open>One step of the loop with a span is the step of the loop without one, on the bitmap with the span set.\<close>

lemma future_span_step_eq:
  assumes "wf_bitmap bm" "p < wb_size bm"
  shows "future_span_step m bm s e p st = future_step m (set_span bm s (Suc e) True) p st"
  using assms by (cases st) (auto simp: future_span_step_def future_step_def GetValue_in wf_set_span)

lemma future_loop_covered:
  assumes "wf_bitmap bm" "\<forall>i. a \<le> i \<and> i < b \<longrightarrow> covered bm i" "b \<le> wb_size bm"
  shows "rfold (future_step m bm) [a..<b] (NOT_FOUND, c) = Inr (NOT_FOUND, c)"
proof (cases "a \<le> b")
  case True
  then show ?thesis using assms(2,3)
  proof (induction b rule: dec_induct)
    case (step b)
    then show ?case
      using assms(1) by (simp add: rfold_append future_step_def GetValue_in)
  qed simp
qed simp

lemma future_loop_gap:
  assumes "wf_bitmap bm" "\<forall>i. a \<le> i \<and> i < b \<longrightarrow> \<not> covered bm i" "b \<le> wb_size bm" "g \<noteq> NOT_FOUND"
  shows "rfold (future_step m bm) [a..<b] (g, c) = Inr (g, c)"
proof (cases "a \<le> b")
  case True
  then show ?thesis using assms(2,3)
  proof (induction b rule: dec_induct)
    case (step b)
    then show ?case
      using assms(1,4) by (simp add: rfold_append future_step_def GetValue_in)
  qed simp
qed simp

lemma upt_split3: "a \<le> b \<Longrightarrow> b \<le> (c::nat) \<Longrightarrow> [a..<c] = [a..<b] @ [b..<c]"
  by (metis le_Suc_ex upt_add_eq_append)

text \<open>
  The loop over all positions, from its first gap g on: what the variant with a
  span starts with.
\<close>

lemma future_loop_from_gap:
  assumes "wf_bitmap bm" "g < wb_size bm" "\<not> covered bm g" "\<forall>i<g. covered bm i"
  shows "rfold (future_step m bm) [0..<wb_size bm] (NOT_FOUND, c)
    = rfold (future_step m bm) [Suc g..<wb_size bm] (g, c)"
proof -
  have "[0..<wb_size bm] = [0..<g] @ [g..<wb_size bm]"
    using assms(2) by (intro upt_split3) auto
  moreover have "[g..<wb_size bm] = g # [Suc g..<wb_size bm]"
    using assms(2) by (rule upt_conv_Cons)
  ultimately show ?thesis
    using future_loop_covered [OF assms(1), of 0 g m c] assms
    by (simp add: rfold_append future_step_def GetValue_in)
qed

text \<open>After the last translated word, at most one more gap opens, and it runs to the end.\<close>

lemma future_loop_closed:
  assumes "wf_bitmap bm" "l < wb_size bm" "covered bm l" "a \<le> l"
    and "rfold (future_step m bm) [a..<Suc l] st = Inr (g, c)"
  shows "g = NOT_FOUND"
proof -
  have split: "[a..<Suc l] = [a..<l] @ [l]" using assms(4) by simp
  obtain g0 c0 where "future_step m bm l (g0, c0) = Inr (g, c)"
    using assms(5) unfolding split by (auto simp: rfold_append rbind_eq_Inr)
  then show ?thesis
    using assms(1-3) by (auto simp: future_step_def GetValue_in rbind_eq_Inr split: if_splits)
qed

lemma future_loop_tail:
  assumes "wf_bitmap bm" "l < wb_size bm" "\<forall>i. l < i \<and> i < wb_size bm \<longrightarrow> \<not> covered bm i"
  shows "rfold (future_step m bm) [Suc l..<wb_size bm] (NOT_FOUND, c)
    = Inr (if Suc l = wb_size bm then (NOT_FOUND, c) else (Suc l, c))"
proof (cases "Suc l = wb_size bm")
  case False
  then have "[Suc l..<wb_size bm] = Suc l # [Suc (Suc l)..<wb_size bm]"
    using assms(2) by (intro upt_conv_Cons) auto
  moreover have "Suc l \<noteq> NOT_FOUND"
    using bitmap_size_small [OF assms(1), of "Suc l"] assms(2) by simp
  ultimately show ?thesis
    using assms False future_loop_gap [OF assms(1), of "Suc (Suc l)" "wb_size bm" "Suc l" m c]
    by (simp add: future_step_def GetValue_in)
qed simp

lemma GetFirstGapPos_free:
  assumes "wf_bitmap bm" "s < wb_size bm" "\<not> covered bm s"
  shows "GetFirstGapPos bm \<le> s \<and> GetFirstGapPos bm < wb_size bm
    \<and> \<not> covered bm (GetFirstGapPos bm) \<and> (\<forall>i < GetFirstGapPos bm. covered bm i)
    \<and> GetFirstGapPos bm \<noteq> NOT_FOUND"
  using assms(1)
proof (cases rule: GetFirstGapPos_cases)
  case gap
  have "GetFirstGapPos bm \<le> s" using gap(3) assms(3) by (metis not_le)
  moreover have "GetFirstGapPos bm \<noteq> NOT_FOUND"
    using wf_bitmap_size [OF assms(1) gap(1)] by simp
  ultimately show ?thesis using gap by blast
next
  case complete
  then show ?thesis using assms by blast
qed

text \<open>The last position that is translated once the span is, as the variant computes it.\<close>

definition last_covered :: "words_bitmap \<Rightarrow> nat \<Rightarrow> nat" where
  "last_covered bm e = (if e > GetLastPos bm \<or> GetLastPos bm = NOT_FOUND then e else GetLastPos bm)"

lemma last_covered_props:
  assumes "wf_bitmap bm" "s \<le> e" "e < wb_size bm"
  defines "b \<equiv> set_span bm s (Suc e) True"
  shows "last_covered bm e < wb_size b \<and> covered b (last_covered bm e) \<and> e \<le> last_covered bm e
    \<and> (\<forall>i. last_covered bm e < i \<and> i < wb_size b \<longrightarrow> \<not> covered b i)"
  using assms(1)
proof (cases rule: GetLastPos_cases)
  case last
  have "GetLastPos bm \<noteq> NOT_FOUND" using wf_bitmap_size [OF assms(1) last(1)] by simp
  then show ?thesis
    using last assms(2,3) by (cases "e > GetLastPos bm") (simp_all add: b_def last_covered_def)
next
  case none
  then show ?thesis using assms(2,3) by (simp add: b_def last_covered_def)
qed

definition span_start :: "words_bitmap \<Rightarrow> nat \<Rightarrow> nat \<Rightarrow> nat \<times> nat" where
  "span_start bm s e =
     (if s = GetFirstGapPos bm then (e + 1, NOT_FOUND) else (GetFirstGapPos bm + 1, GetFirstGapPos bm))"

lemma future_loop_span_start:
  assumes "wf_bitmap bm" "s \<le> e" "e < wb_size bm" "\<forall>i. s \<le> i \<and> i \<le> e \<longrightarrow> \<not> covered bm i"
  defines "b \<equiv> set_span bm s (Suc e) True"
  shows "rfold (future_step m b) [0..<wb_size b] (NOT_FOUND, c)
    = rfold (future_step m b) [fst (span_start bm s e)..<wb_size b] (snd (span_start bm s e), c)"
proof (cases "s = GetFirstGapPos bm")
  case True
  have wb: "wf_bitmap b" unfolding b_def by (rule wf_set_span [OF assms(1)])
  have "\<forall>i. 0 \<le> i \<and> i < e + 1 \<longrightarrow> covered b i"
    using GetFirstGapPos_free [OF assms(1), of s] assms(2-4) True
    by (auto simp: b_def)
  then have "rfold (future_step m b) [0..<e + 1] (NOT_FOUND, c) = Inr (NOT_FOUND, c)"
    using assms(3) by (intro future_loop_covered [OF wb]) (auto simp: b_def)
  moreover have "[0..<wb_size b] = [0..<e + 1] @ [e + 1..<wb_size b]"
    using assms(3) by (intro upt_split3) (auto simp: b_def)
  ultimately show ?thesis using True by (simp add: rfold_append span_start_def del: upt_Suc)
next
  case False
  have g: "GetFirstGapPos bm < s" "GetFirstGapPos bm < wb_size bm"
    "\<not> covered bm (GetFirstGapPos bm)" "\<forall>i < GetFirstGapPos bm. covered bm i"
    using GetFirstGapPos_free [OF assms(1), of s] assms(2-4) False by auto
  then have "rfold (future_step m b) [0..<wb_size b] (NOT_FOUND, c)
    = rfold (future_step m b) [Suc (GetFirstGapPos bm)..<wb_size b] (GetFirstGapPos bm, c)"
    using g assms by (intro future_loop_from_gap) (auto simp: b_def wf_set_span)
  then show ?thesis using False by (simp add: span_start_def)
qed

lemma span_start_le:
  assumes "wf_bitmap bm" "s \<le> e" "e < wb_size bm" "\<not> covered bm s"
  shows "fst (span_start bm s e) \<le> Suc (last_covered bm e)"
    "fst (span_start bm s e) = Suc (last_covered bm e) \<Longrightarrow> snd (span_start bm s e) = NOT_FOUND"
  using GetFirstGapPos_free [OF assms(1), of s] last_covered_props [OF assms(1-3)] assms(2-4)
  by (auto simp: span_start_def)

text \<open>
  The loop of GetFutureCosts keeps the ticks before and at the current position, and each
  iteration adds at most the sentence length and one.
\<close>

abbreviation cost_start :: "words_bitmap \<Rightarrow> int \<Rightarrow> cost_state" where
  "cost_start bm lastPos \<equiv>
     \<lparr>cs_sum = 0, cs_aim1 = False, cs_ai = False, cs_aip1 = covered bm 0, cs_lastPos = lastPos\<rparr>"

definition cost_inv :: "words_bitmap \<Rightarrow> nat \<Rightarrow> cost_state \<Rightarrow> bool" where
  "cost_inv bm k st \<longleftrightarrow> cs_sum st \<ge> 0 \<and> cs_sum st \<le> int k * (int (wb_size bm) + 1)
     \<and> cs_lastPos st \<ge> 0 \<and> cs_lastPos st \<le> int (wb_size bm)
     \<and> (k > 0 \<longrightarrow> cs_ai st = covered bm (k - 1)) \<and> (k < wb_size bm \<longrightarrow> cs_aip1 st = covered bm k)"

lemma cost_inv_step:
  assumes "wf_bitmap bm" "k < wb_size bm" "cost_inv bm k st"
  shows "\<exists>st'. cost_step bm k st = Inr st' \<and> cost_inv bm (Suc k) st'"
proof -
  have "\<bar>cs_lastPos st - int k + 1\<bar> \<le> int (wb_size bm) + 1"
    using assms(2,3) unfolding cost_inv_def by linarith
  then show ?thesis
    using assms by (auto simp: cost_step_def cost_inv_def GetValue_in Let_def algebra_simps)
qed

lemma cost_loop:
  assumes "wf_bitmap bm" "k \<le> wb_size bm" "0 \<le> lastPos" "lastPos \<le> int (wb_size bm)"
  shows "\<exists>st. rfold (cost_step bm) [0..<k] (cost_start bm lastPos) = Inr st \<and> cost_inv bm k st"
  using assms(2)
proof (induction k)
  case 0
  then show ?case using assms(3,4) by (simp add: cost_inv_def)
next
  case (Suc k)
  then obtain st where "rfold (cost_step bm) [0..<k] (cost_start bm lastPos) = Inr st" "cost_inv bm k st"
    by auto
  then show ?case
    using cost_inv_step [OF assms(1), of k st] Suc.prems by (auto simp: rfold_append)
qed

section \<open>Properties\<close>

text \<open>
  The future score of a bitmap with an additional span, computed without building the
  extended bitmap, is the future score of the bitmap in which the span is set: the same
  table cells, added in the same order, and the same faults, for every table.
\<close>

theorem CalcFutureScore_span_correct:
  assumes "wf_bitmap bm" "s \<le> e" "e < wb_size bm" "\<forall>i. s \<le> i \<and> i \<le> e \<longrightarrow> \<not> covered bm i"
  shows "CalcFutureScore_span m bm s e = rbind (SetValue_range bm s e True) (CalcFutureScore m)"
proof -
  let ?b = "set_span bm s (Suc e) True" and ?L = "last_covered bm e"
  let ?a = "fst (span_start bm s e)" and ?g = "snd (span_start bm s e)"
  have wb: "wf_bitmap ?b" by (rule wf_set_span [OF assms(1)])
  have L: "?L < wb_size ?b" "covered ?b ?L" "e \<le> ?L"
    "\<forall>i. ?L < i \<and> i < wb_size ?b \<longrightarrow> \<not> covered ?b i"
    using last_covered_props [OF assms(1-3)] by auto
  note le = span_start_le [OF assms(1-3)]
  have free: "\<not> covered bm s" using assms(2,4) by simp
  let ?P = "rfold (future_step m ?b) [?a..<Suc ?L] (?g, 0)"
  have "[?a..<wb_size ?b] = [?a..<Suc ?L] @ [Suc ?L..<wb_size ?b]"
    using le(1) [OF free] L(1) by (intro upt_split3) auto
  then have full: "rfold (future_step m ?b) [0..<wb_size ?b] (NOT_FOUND, 0)
      = rbind ?P (rfold (future_step m ?b) [Suc ?L..<wb_size ?b])"
    unfolding future_loop_span_start [OF assms] by (simp only: rfold_append)
  have span: "rfold (future_span_step m bm s e) [?a..<Suc ?L] (?g, 0) = ?P"
    using assms(1) L(1) by (intro rfold_cong_simp future_span_step_eq) auto
  have variant: "CalcFutureScore_span m bm s e = rbind ?P (\<lambda>(_, c).
      if ?L \<noteq> sz_sub (wb_size bm) 1
      then rbind (GetScore m (?L + 1) (sz_sub (wb_size bm) 1)) (\<lambda>sc. Inr (c + sc)) else Inr c)"
    using GetFirstGapPos_free [OF assms(1) _ free] assms(2,3) span
    by (simp add: CalcFutureScore_span_def Let_def flip: last_covered_def)
      (auto simp: span_start_def eq_commute)
  have last: "sz_sub (wb_size bm) 1 = wb_size bm - 1"
    using assms(3) bitmap_size_small [OF assms(1), of "wb_size bm"] by simp
  show ?thesis
  proof (cases ?P)
    case (Inl f)
    then show ?thesis
      using full variant assms(1-3) by (simp add: SetValue_range_in CalcFutureScore_def)
  next
    case (Inr gc)
    then obtain c where P: "?P = Inr (NOT_FOUND, c)"
      using future_loop_closed [OF wb L(1,2), of ?a m "(?g, 0)"] le [OF free]
      by (cases gc; cases "?a \<le> ?L") (auto simp: le_Suc_eq)
    have "Suc ?L \<noteq> NOT_FOUND"
      using bitmap_size_small [OF assms(1), of "Suc ?L"] L(1) by simp
    moreover have "?L \<noteq> wb_size bm - 1 \<longleftrightarrow> Suc ?L \<noteq> wb_size bm" using L(1) by auto
    ultimately show ?thesis
      using full variant assms(1-3) P future_loop_tail [OF wb L(1,4), of m c] last
      by (auto simp: SetValue_range_in CalcFutureScore_def)
  qed
qed

lemmas matrix_eval = SquareMatrix_def GetScore_def SetScore_def future_step_def CalcFutureScore_def
  future_span_step_def CalcFutureScore_span_def cost_step_def GetFutureCosts_def

lemma CalcFutureScore_span_correct_witness:
  "CalcFutureScore_span (SquareMatrix 3 [0, 1, 2, 3, 4, 5, 6, 7, 8 :: int]) (WordsBitmap_from 3 [False, False]) 1 1 = Inr 8
   \<and> rbind (SetValue_range (WordsBitmap_from 3 [False, False]) 1 1 True)
       (CalcFutureScore (SquareMatrix 3 [0, 1, 2, 3, 4, 5, 6, 7, 8 :: int])) = Inr 8"
proof -
  have "CalcFutureScore_span (SquareMatrix 3 [0, 1, 2, 3, 4, 5, 6, 7, 8 :: int]) (WordsBitmap_from 3 [False, False]) 1 1 = Inr 8"
    by (simp add: matrix_eval bitmap_eval SIZE_RANGE_def)
  moreover have "CalcFutureScore_span (SquareMatrix 3 [0, 1, 2, 3, 4, 5, 6, 7, 8 :: int]) (WordsBitmap_from 3 [False, False]) 1 1
     = rbind (SetValue_range (WordsBitmap_from 3 [False, False]) 1 1 True)
       (CalcFutureScore (SquareMatrix 3 [0, 1, 2, 3, 4, 5, 6, 7, 8 :: int]))"
    by (rule CalcFutureScore_span_correct) (auto simp: bitmap_eval wf_bitmap_def)
  ultimately show ?thesis by simp
qed

text \<open>
  Jump costs: for a sentence of at least one word and a last position within it or just
  after it, the consistency checks inside the loop (the ticks shifted through the three
  flags are those of the array) and the final check that the sum is not negative never
  fail. The result is at most the square of the sentence length plus one, so the C++ int
  does not overflow up to 46339 words. On the empty sentence the routine reads outside the
  array.
\<close>

theorem GetFutureCosts_total:
  assumes "wf_bitmap bm" "wb_size bm > 0" "0 \<le> lastPos" "lastPos \<le> int (wb_size bm)"
  shows "(\<exists>c. GetFutureCosts bm lastPos = Inr c \<and> 0 \<le> c \<and> c \<le> (int (wb_size bm) + 1) ^ 2)
    \<and> GetFutureCosts (WordsBitmap 0) lastPos = Inl OutOfBounds"
proof
  obtain st where st: "rfold (cost_step bm) [0..<wb_size bm] (cost_start bm lastPos) = Inr st"
    and inv: "cost_inv bm (wb_size bm) st"
    using cost_loop [OF assms(1) order_refl assms(3,4)] by blast
  have "\<bar>cs_lastPos st - int (wb_size bm) + 1\<bar> \<le> int (wb_size bm) + 1"
    using inv unfolding cost_inv_def by linarith
  then show "\<exists>c. GetFutureCosts bm lastPos = Inr c \<and> 0 \<le> c \<and> c \<le> (int (wb_size bm) + 1) ^ 2"
    using st inv assms(1,2)
    by (simp add: GetFutureCosts_def GetValue_in Let_def cost_inv_def power2_eq_square algebra_simps)
  show "GetFutureCosts (WordsBitmap 0) lastPos = Inl OutOfBounds"
    by (simp add: GetFutureCosts_def GetValue_def WordsBitmap_def Initialize_def)
qed

lemma GetFutureCosts_total_witness:
  "GetFutureCosts (WordsBitmap_from 3 [False, True]) 0 = Inr 3
   \<and> (\<exists>c. GetFutureCosts (WordsBitmap_from 3 [False, True]) 0 = Inr c \<and> 0 \<le> c \<and> c \<le> (int 3 + 1) ^ 2)"
proof
  show "GetFutureCosts (WordsBitmap_from 3 [False, True]) 0 = Inr 3"
    by (simp add: matrix_eval bitmap_eval SIZE_RANGE_def)
  show "\<exists>c. GetFutureCosts (WordsBitmap_from 3 [False, True]) 0 = Inr c \<and> 0 \<le> c \<and> c \<le> (int 3 + 1) ^ 2"
    using GetFutureCosts_total [of "WordsBitmap_from 3 [False, True]" 0]
    by (simp add: bitmap_eval wf_bitmap_def)
qed

end
