(* ===== verification/HashMaps.thy ===== *)
theory HashMaps
  imports Prelude
begin

text \<open>
  boost::unordered\_map and boost::unordered\_set with a user-defined equality predicate,
  as association lists. A lookup passes the key that is looked up first and the stored key
  second to the predicate. Insertion keeps an entry with an equal key. The order in which
  the containers iterate is not specified; the model iterates in the order of insertion,
  and no property depends on the order.

  The equality predicates of the decoder are equivalences only on words with the same
  active factors, as their comments say. The locale keyed states this: its laws hold on the
  keys the predicate ok admits.
\<close>

type_synonym ('k, 'v) umap = "('k \<times> 'v) list"

fun um_find :: "('k \<Rightarrow> 'k \<Rightarrow> bool) \<Rightarrow> 'k \<Rightarrow> ('k, 'v) umap \<Rightarrow> 'v option" where
  "um_find eq k [] = None"
| "um_find eq k ((k', v) # m) = (if eq k k' then Some v else um_find eq k m)"

definition um_insert :: "('k \<Rightarrow> 'k \<Rightarrow> bool) \<Rightarrow> 'k \<Rightarrow> 'v \<Rightarrow> ('k, 'v) umap \<Rightarrow> ('k, 'v) umap" where
  "um_insert eq k v m = (if um_find eq k m = None then m @ [(k, v)] else m)"

text \<open>
  The idiom insert(make\_pair(key, Value())) followed by changes through the returned
  reference: the entry's value, or the default value when the key is new, is replaced by
  what the caller makes of it.
\<close>

fun um_modify ::
  "('k \<Rightarrow> 'k \<Rightarrow> bool) \<Rightarrow> 'k \<Rightarrow> 'v \<Rightarrow> ('v \<Rightarrow> 'v result) \<Rightarrow> ('k, 'v) umap \<Rightarrow> ('k, 'v) umap result" where
  "um_modify eq k d f [] = rbind (f d) (\<lambda>v. Inr [(k, v)])"
| "um_modify eq k d f ((k', v) # m) =
     (if eq k k' then rbind (f v) (\<lambda>v'. Inr ((k', v') # m))
      else rbind (um_modify eq k d f m) (\<lambda>m'. Inr ((k', v) # m')))"

lemma um_find_append:
  "um_find eq k (m @ m') = (case um_find eq k m of None \<Rightarrow> um_find eq k m' | Some v \<Rightarrow> Some v)"
  by (induction eq k m rule: um_find.induct) auto

lemma um_find_None: "um_find eq k m = None \<longleftrightarrow> (\<forall>(k', v) \<in> set m. \<not> eq k k')"
  by (induction eq k m rule: um_find.induct) auto

lemma um_find_Some_in: "um_find eq k m = Some v \<Longrightarrow> \<exists>k'. (k', v) \<in> set m \<and> eq k k'"
  by (induction eq k m rule: um_find.induct) (auto split: if_splits)

lemma um_modify_keys:
  "um_modify eq k d f m = Inr m' \<Longrightarrow> fst ` set m' \<subseteq> insert k (fst ` set m)"
proof (induction m arbitrary: m')
  case (Cons e m)
  obtain k1 v1 where e: "e = (k1, v1)" by fastforce
  show ?case
  proof (cases "eq k k1")
    case True
    then show ?thesis using Cons.prems e by (auto simp: rbind_eq_Inr)
  next
    case False
    then obtain m1 where m1: "um_modify eq k d f m = Inr m1" "m' = (k1, v1) # m1"
      using Cons.prems e by (auto simp: rbind_eq_Inr)
    then show ?thesis using Cons.IH [OF m1(1)] e by auto
  qed
qed (auto simp: rbind_eq_Inr)

lemma um_modify_cong:
  "(\<And>v. f v = g v) \<Longrightarrow> um_modify eq k d f m = um_modify eq k d g m"
  by (induction eq k d f m rule: um_modify.induct) auto

locale keyed =
  fixes eq :: "'k \<Rightarrow> 'k \<Rightarrow> bool" and ok :: "'k \<Rightarrow> bool"
  assumes eq_refl: "ok a \<Longrightarrow> eq a a"
    and eq_sym: "ok a \<Longrightarrow> ok b \<Longrightarrow> eq a b \<Longrightarrow> eq b a"
    and eq_trans: "ok a \<Longrightarrow> ok b \<Longrightarrow> ok c \<Longrightarrow> eq a b \<Longrightarrow> eq b c \<Longrightarrow> eq a c"
begin

definition ok_map :: "('k, 'v) umap \<Rightarrow> bool" where
  "ok_map m \<longleftrightarrow> (\<forall>(k, v) \<in> set m. ok k)"

lemma ok_map_simps [simp]:
  "ok_map []" "ok_map ((k, v) # m) \<longleftrightarrow> ok k \<and> ok_map m" "ok_map (m @ m') \<longleftrightarrow> ok_map m \<and> ok_map m'"
  by (auto simp: ok_map_def)

lemma eq_cong: "ok a \<Longrightarrow> ok b \<Longrightarrow> ok c \<Longrightarrow> eq a b \<Longrightarrow> eq a c \<longleftrightarrow> eq b c"
  by (meson eq_sym eq_trans)

lemma find_cong: "ok_map m \<Longrightarrow> ok a \<Longrightarrow> ok b \<Longrightarrow> eq a b \<Longrightarrow> um_find eq a m = um_find eq b m"
proof (induction m)
  case (Cons e m)
  obtain k v where e: "e = (k, v)" by fastforce
  have "eq a k \<longleftrightarrow> eq b k" using Cons.prems e by (intro eq_cong) auto
  then show ?case using Cons e by simp
qed simp

lemma find_insert:
  assumes "ok_map m" "ok k" "ok k'"
  shows "um_find eq k' (um_insert eq k v m)
    = (if eq k' k then Some (case um_find eq k m of None \<Rightarrow> v | Some v' \<Rightarrow> v') else um_find eq k' m)"
  using assms find_cong [of m k' k]
  by (auto simp: um_insert_def um_find_append split: option.splits)

lemma ok_insert: "ok_map m \<Longrightarrow> ok k \<Longrightarrow> ok_map (um_insert eq k v m)"
  by (simp add: um_insert_def)

lemma ok_modify: "um_modify eq k d f m = Inr m' \<Longrightarrow> ok_map m \<Longrightarrow> ok k \<Longrightarrow> ok_map m'"
  using um_modify_keys [of eq k d f m m'] by (fastforce simp: ok_map_def)

text \<open>What a lookup finds after the value of a key has been changed in place.\<close>

lemma find_modify:
  assumes "um_modify eq k d f m = Inr m'" "ok_map m" "ok k" "ok k'"
  shows "if eq k' k
    then \<exists>v. f (case um_find eq k m of None \<Rightarrow> d | Some v \<Rightarrow> v) = Inr v \<and> um_find eq k' m' = Some v
    else um_find eq k' m' = um_find eq k' m"
  using assms
proof (induction m arbitrary: m')
  case (Cons e m)
  obtain k1 v1 where e: "e = (k1, v1)" by fastforce
  show ?case
  proof (cases "eq k k1")
    case True
    then obtain v' where v': "f v1 = Inr v'" "m' = (k1, v') # m"
      using Cons.prems(1) e by (auto simp: rbind_eq_Inr)
    have "eq k' k \<longleftrightarrow> eq k' k1"
      using True Cons.prems e by (metis eq_cong eq_sym ok_map_simps(2))
    then show ?thesis using True v' e by simp
  next
    case False
    then obtain m1 where m1: "um_modify eq k d f m = Inr m1" "m' = (k1, v1) # m1"
      using Cons.prems(1) e by (auto simp: rbind_eq_Inr)
    have "eq k' k \<Longrightarrow> \<not> eq k' k1"
      using False Cons.prems e by (metis eq_cong eq_sym ok_map_simps(2))
    then show ?thesis using Cons.IH [OF m1(1)] False Cons.prems e m1(2) by simp
  qed
qed (auto simp: rbind_eq_Inr)

text \<open>No two entries have equal keys.\<close>

definition distinct_map :: "('k, 'v) umap \<Rightarrow> bool" where
  "distinct_map m \<longleftrightarrow> sorted_wrt (\<lambda>a b. \<not> eq (fst a) (fst b)) m"

lemma distinct_map_simps [simp]:
  "distinct_map []" "distinct_map ((k, v) # m) \<longleftrightarrow> (\<forall>(k', v') \<in> set m. \<not> eq k k') \<and> distinct_map m"
  by (auto simp: distinct_map_def)

lemma find_unique:
  assumes "ok_map m" "distinct_map m" "ok k" "(k', v) \<in> set m" "eq k k'"
  shows "um_find eq k m = Some v"
  using assms
proof (induction m)
  case (Cons e m)
  obtain k1 v1 where e: "e = (k1, v1)" by fastforce
  show ?case
  proof (cases "(k', v) = e")
    case False
    then have in_m: "(k', v) \<in> set m" using Cons.prems(4) by auto
    then have "ok k'" using Cons.prems(1) by (auto simp: ok_map_def)
    have "\<not> eq k k1"
    proof
      assume "eq k k1"
      then have "eq k1 k'" using Cons.prems e eq_sym eq_trans \<open>ok k'\<close> by (metis ok_map_simps(2))
      then show False using Cons.prems(2) in_m e by auto
    qed
    then show ?thesis using Cons in_m e by simp
  qed (use Cons.prems e in auto)
qed simp

lemma distinct_insert:
  assumes "ok_map m" "distinct_map m" "ok k"
  shows "distinct_map (um_insert eq k v m)"
  using assms eq_sym
  by (fastforce simp: um_insert_def um_find_None distinct_map_def sorted_wrt_append ok_map_def)

lemma distinct_modify:
  assumes "um_modify eq k d f m = Inr m'" "ok_map m" "distinct_map m" "ok k"
  shows "distinct_map m'"
  using assms
proof (induction m arbitrary: m')
  case (Cons e m)
  obtain k1 v1 where e: "e = (k1, v1)" by fastforce
  show ?case
  proof (cases "eq k k1")
    case True
    then show ?thesis using Cons.prems e by (auto simp: rbind_eq_Inr)
  next
    case False
    then obtain m1 where m1: "um_modify eq k d f m = Inr m1" "m' = (k1, v1) # m1"
      using Cons.prems(1) e by (auto simp: rbind_eq_Inr)
    have "\<not> eq k1 k" using False Cons.prems e eq_sym by auto
    moreover have "k' \<in> insert k (fst ` set m)" if "(k', v') \<in> set m1" for k' v'
      using um_modify_keys [OF m1(1)] that by (metis fst_conv image_eqI subsetD)
    ultimately show ?thesis using Cons.IH [OF m1(1)] Cons.prems e m1(2) by fastforce
  qed
qed (auto simp: rbind_eq_Inr)

end

end
