(* ===== verification/Scores.thy ===== *)
theory Scores
  imports Prelude Complex_Main
begin

text \<open>
  Scores: the floats of the decoder, weighted sums of log probabilities.

  A score is a real number or one of the two infinities the source uses as initial values
  of thresholds and best scores. Rounding and NaN are not modelled: an addition of finite
  scores is exact, and the sum of the two infinities, a NaN in the source, is minus
  infinity here. No property depends on that sum.
\<close>

datatype score = NegInf | Fin real | PosInf

fun score_le :: "score \<Rightarrow> score \<Rightarrow> bool" where
  "score_le NegInf _ \<longleftrightarrow> True"
| "score_le (Fin a) NegInf \<longleftrightarrow> False"
| "score_le (Fin a) (Fin b) \<longleftrightarrow> a \<le> b"
| "score_le (Fin a) PosInf \<longleftrightarrow> True"
| "score_le PosInf b \<longleftrightarrow> b = PosInf"

fun score_plus :: "score \<Rightarrow> score \<Rightarrow> score" where
  "score_plus NegInf _ = NegInf"
| "score_plus _ NegInf = NegInf"
| "score_plus (Fin a) (Fin b) = Fin (a + b)"
| "score_plus (Fin a) PosInf = PosInf"
| "score_plus PosInf (Fin b) = PosInf"
| "score_plus PosInf PosInf = PosInf"

instantiation score :: linorder
begin

definition less_eq_score :: "score \<Rightarrow> score \<Rightarrow> bool" where
  "less_eq_score = score_le"

definition less_score :: "score \<Rightarrow> score \<Rightarrow> bool" where
  "less_score a b \<longleftrightarrow> \<not> score_le b a"

instance
proof
  fix a b c :: score
  show "a < b \<longleftrightarrow> a \<le> b \<and> \<not> b \<le> a"
    by (cases a; cases b) (auto simp: less_eq_score_def less_score_def)
  show "a \<le> a" by (cases a) (auto simp: less_eq_score_def)
  show "a \<le> b \<Longrightarrow> b \<le> c \<Longrightarrow> a \<le> c"
    by (cases a; cases b; cases c) (auto simp: less_eq_score_def)
  show "a \<le> b \<Longrightarrow> b \<le> a \<Longrightarrow> a = b"
    by (cases a; cases b) (auto simp: less_eq_score_def)
  show "a \<le> b \<or> b \<le> a"
    by (cases a; cases b) (auto simp: less_eq_score_def)
qed

end

lemma score_order_simps [simp]:
  "NegInf \<le> b" "(Fin x \<le> Fin y) = (x \<le> y)" "\<not> Fin x \<le> NegInf" "\<not> PosInf \<le> Fin x"
  "\<not> PosInf \<le> NegInf" "(Fin x < Fin y) = (x < y)" "NegInf < Fin x" "Fin x < PosInf" "NegInf < PosInf"
  "\<not> b < NegInf"
  by (simp_all add: less_eq_score_def less_score_def not_le)

lemma score_le_PosInf [simp]: "a \<le> PosInf" "\<not> PosInf < a"
  by (cases a; simp add: less_eq_score_def less_score_def)+

instantiation score :: ordered_comm_monoid_add
begin

definition zero_score :: score where
  "zero_score = Fin 0"

definition plus_score :: "score \<Rightarrow> score \<Rightarrow> score" where
  "plus_score = score_plus"

instance
proof
  fix a b c :: score
  show "a + b + c = a + (b + c)"
    by (cases a; cases b; cases c) (auto simp: plus_score_def)
  show "a + b = b + a"
    by (cases a; cases b) (auto simp: plus_score_def)
  show "0 + a = a"
    by (cases a) (auto simp: plus_score_def zero_score_def)
  show "a \<le> b \<Longrightarrow> c + a \<le> c + b"
    by (cases a; cases b; cases c) (auto simp: plus_score_def)
qed

end

lemma score_plus_simps [simp]:
  "Fin x + Fin y = Fin (x + y)" "NegInf + a = NegInf" "Fin x + PosInf = PosInf" "PosInf + Fin x = PosInf"
  by (simp_all add: plus_score_def)

lemma score_plus_NegInf [simp]: "a + NegInf = NegInf"
  by (cases a) (simp_all add: plus_score_def)

lemma score_zero: "(0 :: score) = Fin 0"
  by (rule zero_score_def)

text \<open>The conditional minimum and maximum of the source.\<close>

lemma score_min_if: "(if a < b then a else b) = min a (b :: score)"
  by (auto simp: min_def)

lemma score_max_if: "(if a > b then a else b) = max a (b :: score)"
  by (auto simp: max_def)

text \<open>The floor of a logarithm (TypeDef.h).\<close>

definition LOWEST_SCORE :: real where
  "LOWEST_SCORE = -100"

text \<open>Addition and subtraction of score vectors (ScoreComponentCollection.h): on a prefix of the components.\<close>

definition PlusEquals :: "real list \<Rightarrow> real list \<Rightarrow> real list result" where
  "PlusEquals scores rhs =
     rbind (check (length scores \<ge> length rhs)) (\<lambda>_.
       Inr (map2 (+) (take (length rhs) scores) rhs @ drop (length rhs) scores))"

definition MinusEquals :: "real list \<Rightarrow> real list \<Rightarrow> real list result" where
  "MinusEquals scores rhs =
     rbind (check (length scores \<ge> length rhs)) (\<lambda>_.
       Inr (map2 (-) (take (length rhs) scores) rhs @ drop (length rhs) scores))"

text \<open>The difference of two scores; of equal infinities it is a NaN in the source.\<close>

fun score_minus :: "score \<Rightarrow> score \<Rightarrow> score" where
  "score_minus (Fin a) (Fin b) = Fin (a - b)"
| "score_minus _ NegInf = PosInf"
| "score_minus NegInf _ = NegInf"
| "score_minus _ PosInf = NegInf"
| "score_minus PosInf _ = PosInf"

end
