(* ===== verification/ChartTypes.thy ===== *)
theory ChartTypes
  imports HashMaps Scores WordsBitmaps
begin

text \<open>
  The data the chart decoder passes around: words with factors (Factor.h, Word.h, Word.cpp,
  Terminal.h, NonTerminal.h), alignments of non-terminals (AlignmentInfo), target phrases,
  hypotheses (ChartHypothesis) and labels of chart cells (ChartCellLabel, ChartCellLabelSet).

  A factor is interned by FactorCollection: two factors are equal when their addresses are,
  and Factor::Compare compares addresses. A factor is its address; NULL is None.
\<close>

section \<open>Words\<close>

type_synonym factor = nat

record word =
  w_factors :: "factor option list"
  w_isNonTerminal :: bool

definition MAX_NUM_FACTORS :: nat where
  "MAX_NUM_FACTORS = 4"

definition GetFactor :: "word \<Rightarrow> nat \<Rightarrow> factor option" where
  "GetFactor w i = (if i < length (w_factors w) then w_factors w ! i else None)"

abbreviation IsNonTerminal :: "word \<Rightarrow> bool" where
  "IsNonTerminal w \<equiv> w_isNonTerminal w"

definition Factor_Compare :: "factor \<Rightarrow> factor \<Rightarrow> int" where
  "Factor_Compare f g = (if f < g then -1 else if f > g then 1 else 0)"

definition Word_Merge :: "word \<Rightarrow> word \<Rightarrow> word" where
  "Word_Merge w sourceWord = w\<lparr>w_factors := map (\<lambda>i.
     case GetFactor w i of None \<Rightarrow> GetFactor sourceWord i | Some f \<Rightarrow> Some f) [0..<MAX_NUM_FACTORS]\<rparr>"

text \<open>The loop of Word::Compare from factor type i on.\<close>

fun compare_factors :: "word \<Rightarrow> word \<Rightarrow> nat list \<Rightarrow> int" where
  "compare_factors w v [] = 0"
| "compare_factors w v (i # is) =
     (case (GetFactor w i, GetFactor v i) of
        (Some f, Some g) \<Rightarrow> if f = g then compare_factors w v is else if f < g then -1 else 1
      | _ \<Rightarrow> compare_factors w v is)"

definition Word_Compare :: "word \<Rightarrow> word \<Rightarrow> int" where
  "Word_Compare w v =
     (if IsNonTerminal w \<noteq> IsNonTerminal v then (if IsNonTerminal w then -1 else 1)
      else compare_factors w v [0..<MAX_NUM_FACTORS])"

definition word_eq :: "word \<Rightarrow> word \<Rightarrow> bool" where
  "word_eq w v \<longleftrightarrow> Word_Compare w v = 0"

text \<open>
  The equality predicates of the hash containers. Compare reads no memory through its
  argument, so a NULL factor compares like any other address.
\<close>

definition NonTerminalEqualityPred :: "word \<Rightarrow> word \<Rightarrow> bool" where
  "NonTerminalEqualityPred k1 k2 \<longleftrightarrow> GetFactor k1 0 = GetFactor k2 0"

fun NonTerminalMapKeyEqualityPred :: "word \<times> word \<Rightarrow> word \<times> word \<Rightarrow> bool" where
  "NonTerminalMapKeyEqualityPred (a1, a2) (b1, b2) =
     (if GetFactor a1 0 \<noteq> GetFactor b1 0 then False
      else if GetFactor a2 0 \<noteq> GetFactor b2 0 then False else True)"

definition TerminalEqualityPred :: "word \<Rightarrow> word \<Rightarrow> bool" where
  "TerminalEqualityPred t1 t2 \<longleftrightarrow>
     list_all (\<lambda>i. \<not> (GetFactor t1 i \<noteq> None \<and> GetFactor t1 i \<noteq> GetFactor t2 i)) [0..<MAX_NUM_FACTORS]"

text \<open>The factor types that are active in a word.\<close>

definition active :: "word \<Rightarrow> nat set" where
  "active w = {i. i < MAX_NUM_FACTORS \<and> GetFactor w i \<noteq> None}"

lemma TerminalEqualityPred_iff:
  assumes "active t1 = active t2"
  shows "TerminalEqualityPred t1 t2 \<longleftrightarrow> (\<forall>i < MAX_NUM_FACTORS. GetFactor t1 i = GetFactor t2 i)"
proof -
  have "i < MAX_NUM_FACTORS \<Longrightarrow> GetFactor t1 i = None \<longleftrightarrow> GetFactor t2 i = None" for i
    using assms unfolding active_def set_eq_iff mem_Collect_eq by metis
  then show ?thesis
    unfolding TerminalEqualityPred_def list_all_iff Ball_def set_upt atLeastLessThan_iff by (metis le0)
qed

text \<open>The laws of the hash containers hold for the three predicates.\<close>

interpretation nonterms: keyed NonTerminalEqualityPred "\<lambda>w. True"
  by unfold_locales (auto simp: NonTerminalEqualityPred_def)

interpretation nonterm_pairs: keyed NonTerminalMapKeyEqualityPred "\<lambda>w. True"
  by unfold_locales (auto split: if_splits)

interpretation terminals: keyed TerminalEqualityPred "\<lambda>w. active w = act" for act :: "nat set"
  by unfold_locales (simp_all add: TerminalEqualityPred_iff)

lemma compare_factors_0:
  "compare_factors w v is = 0 \<longleftrightarrow>
     (\<forall>i \<in> set is. GetFactor w i = None \<or> GetFactor v i = None \<or> GetFactor w i = GetFactor v i)"
  by (induction "is") (auto split: option.splits)

lemma word_eq_iff:
  "word_eq w v \<longleftrightarrow> IsNonTerminal w = IsNonTerminal v \<and>
     (\<forall>i < MAX_NUM_FACTORS. GetFactor w i = None \<or> GetFactor v i = None \<or> GetFactor w i = GetFactor v i)"
  by (simp add: word_eq_def Word_Compare_def compare_factors_0 atLeast0LessThan Ball_def)

section \<open>Alignments and target phrases\<close>

text \<open>
  An AlignmentInfo holds a std::set of pairs of source and target positions: a list sorted
  in increasing order. The map has the index of the non-terminal for each target position.
\<close>

definition max_target :: "(nat \<times> nat) list \<Rightarrow> nat" where
  "max_target pairs = fold (\<lambda>p m. if snd p > m then snd p else m) (tl pairs) (snd (hd pairs))"

definition BuildNonTermIndexMap :: "(nat \<times> nat) list \<Rightarrow> nat list" where
  "BuildNonTermIndexMap pairs =
     (if pairs = [] then []
      else fold (\<lambda>(i, p) m. m[snd p := i]) (enumerate 0 pairs)
             (replicate (max_target pairs + 1) NOT_FOUND))"

record target_phrase =
  tp_ptr :: nat
  tp_words :: "word list"
  tp_futureScore :: score
  tp_breakdown :: "real list"
  tp_align :: "(nat \<times> nat) list"
  tp_lhs :: word

section \<open>Hypotheses\<close>

text \<open>
  A hypothesis with its target phrase, source range, feature function states, score
  breakdown, total score, recombined hypotheses (the arc list, None when it has not been
  allocated) and the hypotheses of its non-terminals. h\_winning is the identifier of
  the hypothesis that the source's pointer of the same name refers to. The states have a
  type of their own: the stateful feature functions are parameters of the model.
\<close>

datatype 's hypo = Hypo
  (h_id: nat)
  (h_tp: target_phrase)
  (h_range: words_range)
  (h_states: "'s option list")
  (h_breakdown: "real list")
  (h_total: score)
  (h_arcs: "'s hypo list option")
  (h_prev: "'s hypo list")
  (h_winning: "nat option")

abbreviation GetTotalScore :: "'s hypo \<Rightarrow> score" where
  "GetTotalScore \<equiv> h_total"

abbreviation GetTargetLHS :: "'s hypo \<Rightarrow> word" where
  "GetTargetLHS h \<equiv> tp_lhs (h_tp h)"

text \<open>A list of hypotheses ordered by score, and the lists for the non-terminals of a rule.\<close>

type_synonym 's hypo_list = "'s hypo list"
type_synonym 's stack_vec = "'s hypo_list list"

section \<open>Labels of chart cells\<close>

record 's cell_label =
  cl_coverage :: words_range
  cl_label :: word
  cl_stack :: "'s hypo_list option"

type_synonym 's label_set = "(word, 's cell_label) umap"

definition AddWord :: "words_range \<Rightarrow> word \<Rightarrow> 's label_set \<Rightarrow> 's label_set" where
  "AddWord coverage w m = um_insert NonTerminalEqualityPred w
     \<lparr>cl_coverage = coverage, cl_label = w, cl_stack = None\<rparr> m"

definition AddConstituent :: "words_range \<Rightarrow> word \<Rightarrow> 's hypo_list \<Rightarrow> 's label_set \<Rightarrow> 's label_set" where
  "AddConstituent coverage w sorted_hypos m = um_insert NonTerminalEqualityPred w
     \<lparr>cl_coverage = coverage, cl_label = w, cl_stack = Some sorted_hypos\<rparr> m"

definition label_Find :: "'s label_set \<Rightarrow> word \<Rightarrow> 's cell_label option" where
  "label_Find m w = um_find NonTerminalEqualityPred w m"

section \<open>Output phrases\<close>

text \<open>
  The words of a target phrase in order, with the output of a non-terminal in its place.
  The outputs of the children are values, so the recursion on the child a non-terminal
  refers to is the recursion on all of them.
\<close>

definition output_word :: "word list result list \<Rightarrow> target_phrase \<Rightarrow> nat \<Rightarrow> word list result" where
  "output_word outs tp pos =
     rbind (array_get (tp_words tp) pos) (\<lambda>w.
       if IsNonTerminal w
       then rbind (array_get (BuildNonTermIndexMap (tp_align tp)) pos) (\<lambda>nonTermInd.
              rbind (array_get outs nonTermInd) (\<lambda>out. out))
       else Inr [w])"

definition output_phrase :: "word list result list \<Rightarrow> target_phrase \<Rightarrow> word list result" where
  "output_phrase outs tp =
     rfold (\<lambda>pos acc. rbind (output_word outs tp pos) (\<lambda>ws. Inr (acc @ ws)))
       [0..<length (tp_words tp)] []"

fun CreateOutputPhrase :: "'s hypo \<Rightarrow> word list result" where
  "CreateOutputPhrase (Hypo i tp r st bd sc arcs prev win) =
     output_phrase (map CreateOutputPhrase prev) tp"

section \<open>Lemmas on output phrases\<close>

lemma fold_assign_other:
  "j \<notin> snd ` set (map snd ips) \<Longrightarrow> fold (\<lambda>(i, p) m. m[snd p := i]) ips m ! j = m ! j"
  by (induction ips arbitrary: m) (auto split: prod.splits)

lemma fold_assign_length: "length (fold (\<lambda>(i, p) m. m[snd p := i]) ips m) = length m"
  by (induction ips arbitrary: m) (auto split: prod.splits)

lemma fold_assign_nth:
  assumes "distinct (map snd pairs)" "k < length pairs" "snd (pairs ! k) < length m"
  shows "fold (\<lambda>(i, p) m. m[snd p := i]) (enumerate n pairs) m ! snd (pairs ! k) = n + k"
  using assms
proof (induction pairs arbitrary: n m k)
  case (Cons p pairs)
  show ?case
  proof (cases k)
    case 0
    have "snd p \<notin> snd ` set (map snd (enumerate (Suc n) pairs))"
      using Cons.prems(1) by (auto simp: in_set_enumerate_eq)
    then show ?thesis using 0 Cons.prems by (simp add: fold_assign_other)
  next
    case (Suc j)
    then show ?thesis using Cons.IH [of j "m[snd p := n]" "Suc n"] Cons.prems by simp
  qed
qed simp

lemma fold_max: "fold (\<lambda>p m. if snd p > m then snd p else m) ps m = fold max (map snd ps) (m :: nat)"
proof (induction ps arbitrary: m)
  case (Cons p ps)
  then show ?case by (cases "snd p > m") (auto simp: max_def)
qed simp

lemma max_target_ge: "p \<in> set pairs \<Longrightarrow> snd p \<le> max_target pairs"
  unfolding max_target_def fold_max by (cases pairs) (auto simp flip: Max.set_eq_fold)

lemma BuildNonTermIndexMap_nth:
  assumes "distinct (map snd pairs)" "k < length pairs"
  shows "snd (pairs ! k) < length (BuildNonTermIndexMap pairs)"
    and "BuildNonTermIndexMap pairs ! snd (pairs ! k) = k"
proof -
  have "snd (pairs ! k) < max_target pairs + 1" using max_target_ge [of "pairs ! k" pairs] assms(2) by simp
  then show "snd (pairs ! k) < length (BuildNonTermIndexMap pairs)"
    and "BuildNonTermIndexMap pairs ! snd (pairs ! k) = k"
    using assms fold_assign_nth [of pairs k "replicate (max_target pairs + 1) NOT_FOUND" 0]
    by (auto simp: BuildNonTermIndexMap_def fold_assign_length)
qed

text \<open>
  What a target phrase and the hypotheses of its non-terminals have to be: the alignment
  pairs each non-terminal of the target side with one of the source side, and there is a
  hypothesis for every pair.
\<close>

definition wf_phrase :: "target_phrase \<Rightarrow> bool" where
  "wf_phrase tp \<longleftrightarrow> distinct (map snd (tp_align tp)) \<and>
     snd ` set (tp_align tp) = {pos. pos < length (tp_words tp) \<and> IsNonTerminal (tp_words tp ! pos)}"

lemma wf_phrase_code:
  "wf_phrase tp \<longleftrightarrow> distinct (map snd (tp_align tp)) \<and>
     snd ` set (tp_align tp) = set (filter (\<lambda>pos. IsNonTerminal (tp_words tp ! pos)) [0..<length (tp_words tp)])"
  by (simp add: wf_phrase_def)

fun wf_hypo :: "'s hypo \<Rightarrow> bool" where
  "wf_hypo (Hypo i tp r st bd sc arcs prev win) \<longleftrightarrow>
     wf_phrase tp \<and> length prev = length (tp_align tp) \<and> list_all wf_hypo prev"

text \<open>The non-terminal of the source side, counted from the left, that a target position is aligned to.\<close>

definition source_rank :: "target_phrase \<Rightarrow> nat \<Rightarrow> nat" where
  "source_rank tp pos = length (takeWhile (\<lambda>p. snd p \<noteq> pos) (tp_align tp))"

fun hypo_yield :: "'s hypo \<Rightarrow> word list" where
  "hypo_yield (Hypo i tp r st bd sc arcs prev win) =
     concat (map (\<lambda>pos. if IsNonTerminal (tp_words tp ! pos)
                        then map hypo_yield prev ! source_rank tp pos
                        else [tp_words tp ! pos]) [0..<length (tp_words tp)])"

lemma source_rank_in:
  assumes "pos \<in> snd ` set (tp_align tp)"
  shows "source_rank tp pos < length (tp_align tp)" "snd (tp_align tp ! source_rank tp pos) = pos"
proof -
  have ex: "\<exists>x \<in> set (tp_align tp). \<not> snd x \<noteq> pos" using assms by auto
  show less: "source_rank tp pos < length (tp_align tp)"
    unfolding source_rank_def using ex by (rule takeWhile_short)
  then show "snd (tp_align tp ! source_rank tp pos) = pos"
    unfolding source_rank_def by (metis (mono_tags, lifting) nth_length_takeWhile)
qed

lemma output_word_eq:
  assumes "wf_phrase tp" "length ys = length (tp_align tp)" "pos < length (tp_words tp)"
  shows "output_word (map Inr ys) tp pos = Inr (if IsNonTerminal (tp_words tp ! pos)
    then ys ! source_rank tp pos else [tp_words tp ! pos])"
proof (cases "IsNonTerminal (tp_words tp ! pos)")
  case True
  then have pos: "pos \<in> snd ` set (tp_align tp)" using assms(1,3) by (simp add: wf_phrase_def)
  note rank = source_rank_in [OF pos]
  have "pos < length (BuildNonTermIndexMap (tp_align tp))"
    "BuildNonTermIndexMap (tp_align tp) ! pos = source_rank tp pos"
    using BuildNonTermIndexMap_nth [of "tp_align tp" "source_rank tp pos"] rank assms(1)
    by (auto simp: wf_phrase_def)
  then show ?thesis using True assms(2,3) rank(1) by (simp add: output_word_def)
qed (use assms(3) in \<open>simp add: output_word_def\<close>)

lemma output_phrase_eq:
  assumes "wf_phrase tp" "length ys = length (tp_align tp)"
  shows "output_phrase (map Inr ys) tp = Inr (concat (map (\<lambda>pos. if IsNonTerminal (tp_words tp ! pos)
    then ys ! source_rank tp pos else [tp_words tp ! pos]) [0..<length (tp_words tp)]))"
proof -
  let ?g = "\<lambda>pos. if IsNonTerminal (tp_words tp ! pos)
    then ys ! source_rank tp pos else [tp_words tp ! pos]"
  have "rfold (\<lambda>pos acc. rbind (output_word (map Inr ys) tp pos) (\<lambda>ws. Inr (acc @ ws)))
      [0..<length (tp_words tp)] [] = Inr (fold (\<lambda>pos acc. acc @ ?g pos) [0..<length (tp_words tp)] [])"
    using assms by (intro rfold_Inr_fold) (simp add: output_word_eq)
  moreover have "fold (\<lambda>pos acc. acc @ ?g pos) ps acc = acc @ concat (map ?g ps)" for ps acc
    by (induction ps arbitrary: acc) simp_all
  ultimately show ?thesis by (simp add: output_phrase_def)
qed

section \<open>Properties\<close>

text \<open>
  C21. The output of a derivation: when the rules' alignments pair their non-terminals and
  every non-terminal has its hypothesis, CreateOutputPhrase returns, reads no index outside
  the index map or the vector of previous hypotheses, puts the output of the hypothesis of
  the k-th source non-terminal at the target position aligned to it, and leaves no
  non-terminal in the output.
\<close>

theorem CreateOutputPhrase_correct:
  assumes "wf_hypo h"
  shows "CreateOutputPhrase h = Inr (hypo_yield h) \<and> list_all (\<lambda>w. \<not> IsNonTerminal w) (hypo_yield h)"
  using assms
proof (induction h)
  case (Hypo i tp r st bd sc arcs prev win)
  then have prev: "list_all wf_hypo prev" and wf: "wf_phrase tp" "length prev = length (tp_align tp)"
    by simp_all
  then have IH: "CreateOutputPhrase p = Inr (hypo_yield p)" "list_all (\<lambda>w. \<not> IsNonTerminal w) (hypo_yield p)"
    if "p \<in> set prev" for p
    using Hypo that by (auto simp: list_all_iff)
  have "map CreateOutputPhrase prev = map Inr (map hypo_yield prev)" using IH(1) by simp
  then have "CreateOutputPhrase (Hypo i tp r st bd sc arcs prev win)
      = Inr (hypo_yield (Hypo i tp r st bd sc arcs prev win))"
    using wf by (simp only: CreateOutputPhrase.simps hypo_yield.simps output_phrase_eq length_map)
  moreover have "list_all (\<lambda>w. \<not> IsNonTerminal w) (map hypo_yield prev ! source_rank tp pos)"
    if "pos < length (tp_words tp)" "IsNonTerminal (tp_words tp ! pos)" for pos
    using source_rank_in(1) [of pos tp] wf that IH(2) by (simp add: wf_phrase_def)
  ultimately show ?case by (auto simp: list_all_iff)
qed

definition example_hypo :: "unit hypo" where
  "example_hypo = (let
     t = (\<lambda>f. \<lparr>w_factors = [Some f], w_isNonTerminal = False\<rparr>);
     x = \<lparr>w_factors = [Some 9], w_isNonTerminal = True\<rparr>;
     tp = (\<lambda>ws al. \<lparr>tp_ptr = 0, tp_words = ws, tp_futureScore = Fin 0, tp_breakdown = [],
                     tp_align = al, tp_lhs = x\<rparr>);
     leaf = (\<lambda>f. Hypo 0 (tp [t f] []) (WordsRange 0 0) [] [] (Fin 0) None [] None)
   in Hypo 1 (tp [x, t 5, x] [(0, 2), (2, 0)]) (WordsRange 0 2) [] [] (Fin 0) None [leaf 6, leaf 7] None)"

lemma CreateOutputPhrase_correct_witness:
  "CreateOutputPhrase example_hypo = Inr (hypo_yield example_hypo)
   \<and> map (\<lambda>w. GetFactor w 0) (hypo_yield example_hypo) = [Some 7, Some 5, Some 6]"
proof
  have "wf_hypo example_hypo"
    by (auto simp: example_hypo_def wf_phrase_code Let_def upt_rec)
  then show "CreateOutputPhrase example_hypo = Inr (hypo_yield example_hypo)"
    by (rule CreateOutputPhrase_correct [THEN conjunct1])
  show "map (\<lambda>w. GetFactor w 0) (hypo_yield example_hypo) = [Some 7, Some 5, Some 6]"
    by (simp add: example_hypo_def Let_def source_rank_def GetFactor_def upt_rec)
qed

text \<open>
  Comparison of words: the comparison that orders words, which skips a factor that one
  of the words lacks, is not transitive: a word can be equal to two words that differ. On
  words with the same active factors it is the equality of all their factors.
\<close>

theorem Word_Compare_equality:
  "(active w = active v \<and> IsNonTerminal w = IsNonTerminal v \<longrightarrow>
      (word_eq w v \<longleftrightarrow> TerminalEqualityPred w v)) \<and>
   (\<exists>a b c. word_eq a b \<and> word_eq b c \<and> \<not> word_eq a c)"
proof
  show "active w = active v \<and> IsNonTerminal w = IsNonTerminal v \<longrightarrow>
      (word_eq w v \<longleftrightarrow> TerminalEqualityPred w v)"
  proof
    assume a: "active w = active v \<and> IsNonTerminal w = IsNonTerminal v"
    then have "i < MAX_NUM_FACTORS \<Longrightarrow> GetFactor w i = None \<longleftrightarrow> GetFactor v i = None" for i
      unfolding active_def set_eq_iff mem_Collect_eq by metis
    then show "word_eq w v \<longleftrightarrow> TerminalEqualityPred w v"
      using a by (simp add: TerminalEqualityPred_iff word_eq_iff) metis
  qed
  let ?w = "\<lambda>fs. \<lparr>w_factors = fs, w_isNonTerminal = False\<rparr>"
  have "word_eq (?w [Some 1]) (?w [None]) \<and> word_eq (?w [None]) (?w [Some 2])
      \<and> \<not> word_eq (?w [Some 1]) (?w [Some 2])"
    by (simp add: word_eq_def Word_Compare_def GetFactor_def MAX_NUM_FACTORS_def upt_rec)
  then show "\<exists>a b c. word_eq a b \<and> word_eq b c \<and> \<not> word_eq a c" by blast
qed

lemma Word_Compare_equality_witness:
  "TerminalEqualityPred \<lparr>w_factors = [Some 1], w_isNonTerminal = False\<rparr>
     \<lparr>w_factors = [Some 1], w_isNonTerminal = False\<rparr>"
proof -
  let ?w = "\<lparr>w_factors = [Some 1], w_isNonTerminal = False\<rparr>"
  have "word_eq ?w ?w"
    by (simp add: word_eq_def Word_Compare_def GetFactor_def MAX_NUM_FACTORS_def upt_rec)
  then show ?thesis using Word_Compare_equality [of ?w ?w] by blast
qed

end
