(* ===== verification/StdAlgorithms.thy ===== *)
theory StdAlgorithms
  imports Scores "HOL-Library.Multiset"
begin

text \<open>
  The algorithms of the C++ standard library that the decoder calls, as contracts. The
  standard leaves the order of some elements open, so an algorithm is a parameter of the
  operations that call it, and a locale states what the standard promises of it. The
  comparators of the decoder all order by descending score: the key is a score.

  \<^item> splitting: std::nth\_element(first, first + n, last) puts no smaller key before
    position n than from position n on;
  \<^item> selection: in addition the element at position n is the one a sort would put there;
  \<^item> partial\_sorting: std::partial\_sort sorts the first n positions;
  \<^item> partitioning: std::partition;
  \<^item> priority: the element a std::priority\_queue has at its top. The queue is a list in the
    order of the insertions; which of several greatest elements is at the top is left open.

  Each is interpreted on an implementation by sorting or filtering.
\<close>

section \<open>Contracts\<close>

type_synonym 'a select = "('a \<Rightarrow> score) \<Rightarrow> nat \<Rightarrow> 'a list \<Rightarrow> 'a list"

locale splitting =
  fixes sel :: "'a select"
  assumes sel_mset: "mset (sel key n xs) = mset xs"
    and sel_split: "x \<in> set (take n (sel key n xs)) \<Longrightarrow> y \<in> set (drop n (sel key n xs)) \<Longrightarrow> key y \<le> key x"
begin

lemma sel_length [simp]: "length (sel key n xs) = length xs"
  by (metis sel_mset size_mset)

lemma sel_set [simp]: "set (sel key n xs) = set xs"
  by (metis sel_mset set_mset_mset)

end

locale selection = splitting +
  assumes sel_pivot: "n < length xs \<Longrightarrow> y \<in> set (drop n (sel key n xs)) \<Longrightarrow> key y \<le> key (sel key n xs ! n)"
begin

text \<open>The element at the selected position is the least of the ones before it and itself.\<close>

lemma sel_nth_least:
  assumes "n < length xs" "x \<in> set (take (Suc n) (sel key n xs))"
  shows "key (sel key n xs ! n) \<le> key x"
proof -
  have "take (Suc n) (sel key n xs) = take n (sel key n xs) @ [sel key n xs ! n]"
    using assms(1) by (simp add: take_Suc_conv_app_nth)
  moreover have "sel key n xs ! n \<in> set (drop n (sel key n xs))"
    using assms(1) by (simp flip: Cons_nth_drop_Suc)
  ultimately show ?thesis using assms(2) sel_split by fastforce
qed

lemma sel_drop_Suc:
  assumes "n < length xs" "y \<in> set (drop (Suc n) (sel key n xs))"
  shows "key y \<le> key (sel key n xs ! n)"
proof -
  have "drop n (sel key n xs) = sel key n xs ! n # drop (Suc n) (sel key n xs)"
    using assms(1) by (simp add: Cons_nth_drop_Suc)
  then show ?thesis using assms by (intro sel_pivot) simp_all
qed

lemma sel_split_Suc:
  assumes "n < length xs"
  shows "\<forall>x \<in> set (take (Suc n) (sel key n xs)). \<forall>y \<in> set (drop (Suc n) (sel key n xs)). key y \<le> key x"
  using sel_nth_least [OF assms] sel_drop_Suc [OF assms] order_trans by blast

end

locale partial_sorting = splitting +
  assumes sel_sorted: "sorted_wrt (\<lambda>x y. key y \<le> key x) (take n (sel key n xs))"

locale partitioning =
  fixes part :: "('a \<Rightarrow> bool) \<Rightarrow> 'a list \<Rightarrow> 'a list"
  assumes part_mset: "mset (part P xs) = mset xs"
    and part_true: "x \<in> set (take (length (filter P xs)) (part P xs)) \<Longrightarrow> P x"
begin

lemma part_length [simp]: "length (part P xs) = length xs"
  by (metis part_mset size_mset)

lemma part_take: "mset (take (length (filter P xs)) (part P xs)) = filter_mset P (mset xs)"
proof -
  let ?k = "length (filter P xs)" and ?p = "part P xs"
  have "mset (filter P ?p) = filter_mset P (mset xs)"
    by (simp add: part_mset)
  then have len: "length (filter P ?p) = ?k" by (metis mset_filter size_mset)
  have pre: "filter P (take ?k ?p) = take ?k ?p"
    using part_true by (intro filter_True) auto
  have "filter P ?p = filter P (take ?k ?p) @ filter P (drop ?k ?p)"
    by (metis append_take_drop_id filter_append)
  moreover have "length (take ?k ?p) = ?k" using len by (simp add: min_absorb2)
  ultimately have "filter P ?p = take ?k ?p"
    using len pre by simp
  then show ?thesis by (metis part_mset mset_filter)
qed

end

type_synonym 'a pick = "('a \<Rightarrow> score) \<Rightarrow> 'a list \<Rightarrow> nat"

locale priority =
  fixes pick :: "'a pick"
  assumes pick_less: "xs \<noteq> [] \<Longrightarrow> pick key xs < length xs"
    and pick_max: "x \<in> set xs \<Longrightarrow> key x \<le> key (xs ! pick key xs)"

text \<open>top and pop of a priority queue; both are undefined on an empty queue.\<close>

definition pq_pop :: "'a pick \<Rightarrow> ('a \<Rightarrow> score) \<Rightarrow> 'a list \<Rightarrow> ('a \<times> 'a list) result" where
  "pq_pop pick key xs =
     (if xs = [] then Inl EmptyContainer
      else let i = pick key xs in rbind (array_get xs i) (\<lambda>x. Inr (x, take i xs @ drop (Suc i) xs)))"

context priority
begin

lemma pq_pop_nth:
  assumes "xs \<noteq> []"
  obtains i where "i < length xs" "pq_pop pick key xs = Inr (xs ! i, take i xs @ drop (Suc i) xs)"
    "\<forall>y \<in> set xs. key y \<le> key (xs ! i)"
  using that [of "pick key xs"] pick_less [OF assms] pick_max assms by (simp add: pq_pop_def Let_def)

lemma pq_pop_Inr:
  assumes "xs \<noteq> []"
  obtains x ys where "pq_pop pick key xs = Inr (x, ys)" "mset xs = add_mset x (mset ys)" "\<forall>y \<in> set xs. key y \<le> key x"
proof -
  obtain i where i: "i < length xs" "pq_pop pick key xs = Inr (xs ! i, take i xs @ drop (Suc i) xs)"
    "\<forall>y \<in> set xs. key y \<le> key (xs ! i)" by (rule pq_pop_nth [OF assms])
  have "mset xs = mset (take i xs @ xs ! i # drop (Suc i) xs)" using i(1) by (simp add: id_take_nth_drop [symmetric])
  then show ?thesis using i(2,3) by (intro that [of "xs ! i" "take i xs @ drop (Suc i) xs"]) simp_all
qed

end

text \<open>
  When no element after the first n is larger than one of them, and at least n elements
  reach c, the first n do.
\<close>

lemma split_top:
  assumes "\<forall>x \<in> set (take n ys). \<forall>y \<in> set (drop n ys). key y \<le> (key x :: score)"
    and "n \<le> length (filter (\<lambda>x. c \<le> key x) ys)"
  shows "\<forall>x \<in> set (take n ys). c \<le> key x"
proof (rule ccontr)
  assume "\<not> ?thesis"
  then obtain x where x: "x \<in> set (take n ys)" "\<not> c \<le> key x" by auto
  have "filter (\<lambda>x. c \<le> key x) (drop n ys) = []"
    using assms(1) x by (auto simp: filter_empty_conv dest: order_trans)
  moreover have "length (filter (\<lambda>x. c \<le> key x) (take n ys)) < length (take n ys)"
    using x by (rule length_filter_less)
  moreover have "filter (\<lambda>x. c \<le> key x) ys
      = filter (\<lambda>x. c \<le> key x) (take n ys) @ filter (\<lambda>x. c \<le> key x) (drop n ys)"
    by (metis append_take_drop_id filter_append)
  ultimately show False using assms(2) by simp
qed

section \<open>Implementations\<close>

text \<open>A stable sort by descending key implements the three contracts on orders.\<close>

definition sort_desc :: "('a \<Rightarrow> score) \<Rightarrow> 'a list \<Rightarrow> 'a list" where
  "sort_desc key xs = rev (sort_key key (rev xs))"

definition sort_select :: "'a select" where
  "sort_select key n xs = sort_desc key xs"

lemma mset_sort_desc [simp]: "mset (sort_desc key xs) = mset xs"
  by (simp add: sort_desc_def)

lemma set_sort_desc [simp]: "set (sort_desc key xs) = set xs"
  by (metis mset_sort_desc set_mset_mset)

lemma length_sort_desc [simp]: "length (sort_desc key xs) = length xs"
  by (simp add: sort_desc_def)

lemma sort_desc_sorted: "sorted_wrt (\<lambda>x y. key y \<le> key x) (sort_desc key xs)"
  using sorted_sort_key [of key "rev xs"]
  by (simp add: sort_desc_def sorted_wrt_rev sorted_wrt_map)

interpretation sorting: partial_sorting sort_select
proof
  fix key :: "'a \<Rightarrow> score" and n xs x y
  show "mset (sort_select key n xs) = mset xs" by (simp add: sort_select_def)
  have "sorted_wrt (\<lambda>x y. key y \<le> key x) (take n (sort_desc key xs) @ drop n (sort_desc key xs))"
    by (simp add: sort_desc_sorted)
  then show "x \<in> set (take n (sort_select key n xs)) \<Longrightarrow> y \<in> set (drop n (sort_select key n xs)) \<Longrightarrow> key y \<le> key x"
    unfolding sort_select_def sorted_wrt_append by blast
  show "sorted_wrt (\<lambda>x y. key y \<le> key x) (take n (sort_select key n xs))"
    by (simp add: sort_select_def sort_desc_sorted sorted_wrt_take)
qed

interpretation sorting_sel: selection sort_select
proof
  fix key :: "'a \<Rightarrow> score" and n xs y
  assume "n < length xs" and y: "y \<in> set (drop n (sort_select key n xs))"
  then have "drop n (sort_select key n xs) = sort_select key n xs ! n # drop (Suc n) (sort_select key n xs)"
    by (simp add: Cons_nth_drop_Suc)
  moreover have "sorted_wrt (\<lambda>x y. key y \<le> key x) (drop n (sort_select key n xs))"
    by (simp add: sort_select_def sort_desc_sorted sorted_wrt_drop)
  ultimately show "key y \<le> key (sort_select key n xs ! n)" using y by auto
qed

definition stable_partition :: "('a \<Rightarrow> bool) \<Rightarrow> 'a list \<Rightarrow> 'a list" where
  "stable_partition P xs = filter P xs @ filter (\<lambda>x. \<not> P x) xs"

interpretation filtering: partitioning stable_partition
  by unfold_locales (auto simp: stable_partition_def)

text \<open>The first of the greatest elements.\<close>

definition first_max :: "'a pick" where
  "first_max key xs = length (takeWhile (\<lambda>x. \<exists>y \<in> set xs. key x < key y) xs)"

interpretation first: priority first_max
proof
  fix key :: "'a \<Rightarrow> score" and xs :: "'a list"
  have greatest: "\<exists>x \<in> set xs. \<forall>y \<in> set xs. key y \<le> key x" if "xs \<noteq> []"
  proof -
    have "Max (key ` set xs) \<in> key ` set xs" using that by (intro Max_in) auto
    then obtain x where "x \<in> set xs" "key x = Max (key ` set xs)" by force
    then show ?thesis by (metis Max_ge finite_imageI finite_set imageI)
  qed
  show less: "first_max key xs < length xs" if ne: "xs \<noteq> []"
  proof -
    obtain x where "x \<in> set xs" "\<not> (\<exists>y \<in> set xs. key x < key y)" using greatest [OF ne] by (auto simp: not_less)
    then have "\<exists>x \<in> set xs. \<not> (\<exists>y \<in> set xs. key x < key y)" by blast
    then show ?thesis unfolding first_max_def by (rule takeWhile_short)
  qed
  fix x
  assume x: "x \<in> set xs"
  then have "xs \<noteq> []" by auto
  from less [OF this] have "\<not> (\<exists>y \<in> set xs. key (xs ! first_max key xs) < key y)"
    unfolding first_max_def by (rule nth_length_takeWhile)
  then show "key x \<le> key (xs ! first_max key xs)" using x by (simp add: not_less)
qed

end
