(* ===== verification/RuleTrie.thy ===== *)
theory RuleTrie
  imports ChartTypes StdAlgorithms
begin

text \<open>
  The rule table in memory: target phrase collections (TargetPhraseCollection.cpp) at the
  nodes of a prefix tree over source symbols (RuleTable/PhraseDictionaryNodeSCFG) that
  PhraseDictionaryMinSpan fills and prunes. A source non-terminal and the target
  non-terminal it is aligned to form one symbol of the tree.
\<close>

section \<open>Target phrase collections\<close>

definition tpc_Add :: "target_phrase list \<Rightarrow> target_phrase \<Rightarrow> target_phrase list" where
  "tpc_Add c tp = c @ [tp]"

definition tpc_middle :: "nat \<Rightarrow> target_phrase list \<Rightarrow> nat" where
  "tpc_middle tableLimit c =
     (if tableLimit = 0 \<or> length c < tableLimit then length c else tableLimit)"

definition tpc_NthElement :: "target_phrase select \<Rightarrow> nat \<Rightarrow> target_phrase list \<Rightarrow> target_phrase list" where
  "tpc_NthElement sel tableLimit c = sel tp_futureScore (tpc_middle tableLimit c) c"

definition tpc_Prune :: "target_phrase select \<Rightarrow> bool \<Rightarrow> nat \<Rightarrow> target_phrase list \<Rightarrow> target_phrase list" where
  "tpc_Prune sel adhereTableLimit tableLimit c =
     (let s = tpc_NthElement sel tableLimit c in
      if adhereTableLimit \<and> length s > tableLimit then take tableLimit s else s)"

definition tpc_Sort :: "target_phrase select \<Rightarrow> bool \<Rightarrow> nat \<Rightarrow> target_phrase list \<Rightarrow> target_phrase list" where
  "tpc_Sort partial_sort adhereTableLimit tableLimit c =
     (let s = partial_sort tp_futureScore (tpc_middle tableLimit c) c in
      if adhereTableLimit \<and> length s > tableLimit then take tableLimit s else s)"

section \<open>Nodes\<close>

datatype rule_node = Node
  (m_sourceTermMap: "(word \<times> rule_node) list")
  (m_nonTermMap: "((word \<times> word) \<times> rule_node) list")
  (m_tpc: "target_phrase list option")

definition empty_node :: rule_node where
  "empty_node = Node [] [] None"

definition IsLeaf :: "rule_node \<Rightarrow> bool" where
  "IsLeaf node \<longleftrightarrow> m_sourceTermMap node = [] \<and> m_nonTermMap node = []"

definition GetChild :: "rule_node \<Rightarrow> word \<Rightarrow> rule_node option result" where
  "GetChild node sourceTerm =
     rbind (check (\<not> IsNonTerminal sourceTerm)) (\<lambda>_.
       Inr (um_find TerminalEqualityPred sourceTerm (m_sourceTermMap node)))"

definition GetChild_nt :: "rule_node \<Rightarrow> word \<Rightarrow> word \<Rightarrow> rule_node option result" where
  "GetChild_nt node sourceNonTerm targetNonTerm =
     rbind (check (IsNonTerminal sourceNonTerm)) (\<lambda>_.
     rbind (check (IsNonTerminal targetNonTerm)) (\<lambda>_.
       Inr (um_find NonTerminalMapKeyEqualityPred (sourceNonTerm, targetNonTerm) (m_nonTermMap node))))"

text \<open>
  GetOrCreateChild returns a pointer into the node; what is done through the pointer is the
  argument f, applied to the child, new or not.
\<close>

definition GetOrCreateChild ::
  "word \<Rightarrow> (rule_node \<Rightarrow> rule_node result) \<Rightarrow> rule_node \<Rightarrow> rule_node result" where
  "GetOrCreateChild sourceTerm f node =
     rbind (um_modify TerminalEqualityPred sourceTerm empty_node f (m_sourceTermMap node)) (\<lambda>t.
       Inr (Node t (m_nonTermMap node) (m_tpc node)))"

definition GetOrCreateChild_nt ::
  "word \<Rightarrow> word \<Rightarrow> (rule_node \<Rightarrow> rule_node result) \<Rightarrow> rule_node \<Rightarrow> rule_node result" where
  "GetOrCreateChild_nt sourceNonTerm targetNonTerm f node =
     rbind (check (IsNonTerminal sourceNonTerm)) (\<lambda>_.
     rbind (check (IsNonTerminal targetNonTerm)) (\<lambda>_.
     rbind (um_modify NonTerminalMapKeyEqualityPred (sourceNonTerm, targetNonTerm) empty_node f
              (m_nonTermMap node)) (\<lambda>n.
       Inr (Node (m_sourceTermMap node) n (m_tpc node)))))"

text \<open>
  The walk of GetOrCreateNode over the source words from position pos on; al is the rest of
  the alignment, which is ordered by source position.
\<close>

fun GetOrCreateNode ::
  "target_phrase \<Rightarrow> word list \<Rightarrow> nat \<Rightarrow> (nat \<times> nat) list \<Rightarrow> (rule_node \<Rightarrow> rule_node result)
     \<Rightarrow> rule_node \<Rightarrow> rule_node result" where
  "GetOrCreateNode target [] pos al f node = f node"
| "GetOrCreateNode target (word # words) pos al f node =
     (if IsNonTerminal word
      then (case al of
              [] \<Rightarrow> Inl AssertFailed
            | (s, targetNonTermInd) # al' \<Rightarrow>
                rbind (assert (s = pos)) (\<lambda>_.
                rbind (array_get (tp_words target) targetNonTermInd) (\<lambda>targetNonTerm.
                  GetOrCreateChild_nt word targetNonTerm
                    (GetOrCreateNode target words (Suc pos) al' f) node)))
      else GetOrCreateChild word (GetOrCreateNode target words (Suc pos) al f) node)"

abbreviation node_GetOrCreateTPC :: "(target_phrase list \<Rightarrow> target_phrase list) \<Rightarrow> rule_node \<Rightarrow> rule_node" where
  "node_GetOrCreateTPC g node \<equiv> Node (m_sourceTermMap node) (m_nonTermMap node)
     (Some (g (case m_tpc node of None \<Rightarrow> [] | Some c \<Rightarrow> c)))"

definition GetOrCreateTargetPhraseCollection ::
  "word list \<Rightarrow> target_phrase \<Rightarrow> (target_phrase list \<Rightarrow> target_phrase list) \<Rightarrow> rule_node \<Rightarrow> rule_node result" where
  "GetOrCreateTargetPhraseCollection source target g root_node =
     GetOrCreateNode target source 0 (tp_align target)
       (\<lambda>node. Inr (node_GetOrCreateTPC g node)) root_node"

text \<open>A rule of the rule table file, as the loader adds it.\<close>

definition AddRule :: "word list \<Rightarrow> target_phrase \<Rightarrow> rule_node \<Rightarrow> rule_node result" where
  "AddRule source target root_node =
     GetOrCreateTargetPhraseCollection source target (\<lambda>c. tpc_Add c target) root_node"

section \<open>Pruning\<close>

primrec node_Prune :: "target_phrase select \<Rightarrow> nat \<Rightarrow> rule_node \<Rightarrow> rule_node" where
  "node_Prune sel tableLimit (Node t n c) =
     Node (map (map_prod id (node_Prune sel tableLimit)) t)
          (map (map_prod id (node_Prune sel tableLimit)) n)
          (map_option (tpc_Prune sel True tableLimit) c)"

primrec node_Sort :: "target_phrase select \<Rightarrow> nat \<Rightarrow> rule_node \<Rightarrow> rule_node" where
  "node_Sort partial_sort tableLimit (Node t n c) =
     Node (map (map_prod id (node_Sort partial_sort tableLimit)) t)
          (map (map_prod id (node_Sort partial_sort tableLimit)) n)
          (map_option (tpc_Sort partial_sort True tableLimit) c)"

definition SortAndPrune :: "target_phrase select \<Rightarrow> nat \<Rightarrow> rule_node \<Rightarrow> rule_node" where
  "SortAndPrune partial_sort tableLimit root_node =
     (if tableLimit \<noteq> 0 then node_Sort partial_sort tableLimit root_node else root_node)"

section \<open>Paths\<close>

text \<open>The abstract view: a path of symbols leads to a collection.\<close>

datatype rule_key = TermKey word | NTKey word word

fun key_eq :: "rule_key \<Rightarrow> rule_key \<Rightarrow> bool" where
  "key_eq (TermKey a) (TermKey b) \<longleftrightarrow> TerminalEqualityPred a b"
| "key_eq (NTKey a a') (NTKey b b') \<longleftrightarrow> NonTerminalMapKeyEqualityPred (a, a') (b, b')"
| "key_eq _ _ \<longleftrightarrow> False"

fun child_at :: "rule_key \<Rightarrow> rule_node \<Rightarrow> rule_node option" where
  "child_at (TermKey w) node = um_find TerminalEqualityPred w (m_sourceTermMap node)"
| "child_at (NTKey w v) node = um_find NonTerminalMapKeyEqualityPred (w, v) (m_nonTermMap node)"

fun node_at :: "rule_key list \<Rightarrow> rule_node \<Rightarrow> rule_node option" where
  "node_at [] node = Some node"
| "node_at (k # ks) node = Option.bind (child_at k node) (node_at ks)"

definition collection_at :: "rule_key list \<Rightarrow> rule_node \<Rightarrow> target_phrase list option" where
  "collection_at ks node = Option.bind (node_at ks node) m_tpc"

text \<open>The path of a rule, when its alignment pairs the source non-terminals in order.\<close>

fun rule_path :: "target_phrase \<Rightarrow> word list \<Rightarrow> nat \<Rightarrow> (nat \<times> nat) list \<Rightarrow> rule_key list option" where
  "rule_path target [] pos al = Some []"
| "rule_path target (word # words) pos al =
     (if IsNonTerminal word
      then (case al of
              [] \<Rightarrow> None
            | (s, t) # al' \<Rightarrow>
                if s = pos \<and> t < length (tp_words target) \<and> IsNonTerminal (tp_words target ! t)
                then map_option ((#) (NTKey word (tp_words target ! t))) (rule_path target words (Suc pos) al')
                else None)
      else map_option ((#) (TermKey word)) (rule_path target words (Suc pos) al))"

section \<open>Lemmas\<close>

text \<open>
  The tree of a rule table: all terminals have the same active factors, and no node has two
  children for equal symbols.
\<close>

inductive wf_trie :: "nat set \<Rightarrow> rule_node \<Rightarrow> bool" for act :: "nat set" where
  wf_Node: "(\<And>w ch. (w, ch) \<in> set t \<Longrightarrow> active w = act \<and> wf_trie act ch)
    \<Longrightarrow> (\<And>k ch. (k, ch) \<in> set n \<Longrightarrow> wf_trie act ch)
    \<Longrightarrow> terminals.distinct_map t \<Longrightarrow> nonterm_pairs.distinct_map n \<Longrightarrow> wf_trie act (Node t n c)"

inductive_simps wf_trie_Node: "wf_trie act (Node t n c)"

lemma wf_empty_node [simp]: "wf_trie act empty_node"
  by (simp add: empty_node_def wf_trie_Node)

definition ok_key :: "nat set \<Rightarrow> rule_key \<Rightarrow> bool" where
  "ok_key act k \<longleftrightarrow> (case k of TermKey w \<Rightarrow> active w = act | NTKey _ _ \<Rightarrow> True)"

lemma ok_key_simps [simp]:
  "ok_key act (TermKey w) \<longleftrightarrow> active w = act" "ok_key act (NTKey a b)"
  by (simp_all add: ok_key_def)

lemma um_modify_total:
  "(\<And>v. P v \<Longrightarrow> \<exists>v'. f v = Inr v') \<Longrightarrow> P d \<Longrightarrow> (\<And>k v. (k, v) \<in> set m \<Longrightarrow> P v)
    \<Longrightarrow> \<exists>m'. um_modify eq k d f m = Inr m'"
proof (induction m)
  case (Cons e m)
  then show ?case by (cases e) fastforce
qed fastforce

lemma um_modify_values:
  "um_modify eq k d f m = Inr m' \<Longrightarrow> (\<And>v v'. P v \<Longrightarrow> f v = Inr v' \<Longrightarrow> P v') \<Longrightarrow> P d
    \<Longrightarrow> (\<And>k v. (k, v) \<in> set m \<Longrightarrow> P v) \<Longrightarrow> (k', v') \<in> set m' \<Longrightarrow> P v'"
proof (induction m arbitrary: m')
  case (Cons e m)
  obtain k1 v1 where e: "e = (k1, v1)" by fastforce
  show ?case
  proof (cases "eq k k1")
    case True
    then obtain v2 where "f v1 = Inr v2" "m' = (k1, v2) # m"
      using Cons.prems(1) e by (auto simp: rbind_eq_Inr)
    then show ?thesis using Cons.prems(2,4,5) e by (metis list.set_intros prod.inject set_ConsD)
  next
    case False
    then obtain m1 where m1: "um_modify eq k d f m = Inr m1" "m' = (k1, v1) # m1"
      using Cons.prems(1) e by (auto simp: rbind_eq_Inr)
    show ?thesis
    proof (cases "(k', v') = (k1, v1)")
      case True
      then show ?thesis using Cons.prems(4) [of k1 v1] e by simp
    next
      case False
      then have "(k', v') \<in> set m1" using Cons.prems(5) m1(2) by auto
      moreover have "P v" if "(k, v) \<in> set m" for k v using Cons.prems(4) [of k v] that by simp
      ultimately show ?thesis using Cons.IH [OF m1(1)] Cons.prems(2,3) by blast
    qed
  qed
qed (auto simp: rbind_eq_Inr)

text \<open>
  Going down one symbol and changing the child changes what a lookup finds at that symbol,
  and nothing else.
\<close>

definition modify_child ::
  "rule_key \<Rightarrow> (rule_node \<Rightarrow> rule_node result) \<Rightarrow> rule_node \<Rightarrow> rule_node result" where
  "modify_child k f node = (case k of
     TermKey w \<Rightarrow> GetOrCreateChild w f node
   | NTKey a b \<Rightarrow> GetOrCreateChild_nt a b f node)"

fun typed_key :: "rule_key \<Rightarrow> bool" where
  "typed_key (TermKey w) \<longleftrightarrow> \<not> IsNonTerminal w"
| "typed_key (NTKey a b) \<longleftrightarrow> IsNonTerminal a \<and> IsNonTerminal b"

lemma modify_child_at:
  assumes "modify_child k f node = Inr node'" "wf_trie act node" "ok_key act k" "ok_key act k'"
  shows "if key_eq k' k
    then \<exists>ch. f (case child_at k node of None \<Rightarrow> empty_node | Some ch \<Rightarrow> ch) = Inr ch
           \<and> child_at k' node' = Some ch
    else child_at k' node' = child_at k' node"
    and "m_tpc node' = m_tpc node"
proof -
  obtain t n c where node: "node = Node t n c" by (cases node)
  have ok: "terminals.ok_map act t" "nonterm_pairs.ok_map n"
    using assms(2) by (auto simp: node wf_trie_Node terminals.ok_map_def nonterm_pairs.ok_map_def)
  show "if key_eq k' k
    then \<exists>ch. f (case child_at k node of None \<Rightarrow> empty_node | Some ch \<Rightarrow> ch) = Inr ch
           \<and> child_at k' node' = Some ch
    else child_at k' node' = child_at k' node"
  proof (cases k)
    case (TermKey w)
    then obtain t' where t': "um_modify TerminalEqualityPred w empty_node f t = Inr t'" "node' = Node t' n c"
      using assms(1) by (auto simp: modify_child_def GetOrCreateChild_def node rbind_eq_Inr)
    then show ?thesis
      using terminals.find_modify [OF t'(1) ok(1)] assms(3,4) TermKey node
      by (cases k') simp_all
  next
    case (NTKey a b)
    then obtain n' where n': "um_modify NonTerminalMapKeyEqualityPred (a, b) empty_node f n = Inr n'"
        "node' = Node t n' c"
      using assms(1) by (auto simp: modify_child_def GetOrCreateChild_nt_def node rbind_eq_Inr)
    then show ?thesis
      using nonterm_pairs.find_modify [OF n'(1) ok(2)] NTKey node
      by (cases k') simp_all
  qed
  show "m_tpc node' = m_tpc node"
    using assms(1) by (cases k)
      (auto simp: modify_child_def GetOrCreateChild_def GetOrCreateChild_nt_def node rbind_eq_Inr)
qed

lemma modify_child_total:
  assumes "typed_key k" "wf_trie act node" "\<And>ch. wf_trie act ch \<Longrightarrow> \<exists>ch'. f ch = Inr ch'"
  shows "\<exists>node'. modify_child k f node = Inr node'"
proof -
  obtain t n c where node: "node = Node t n c" by (cases node)
  show ?thesis
  proof (cases k)
    case (TermKey w)
    have "\<exists>t'. um_modify TerminalEqualityPred w empty_node f t = Inr t'"
      using assms(2,3) by (intro um_modify_total [where P = "wf_trie act"]) (auto simp: node wf_trie_Node)
    then show ?thesis using TermKey by (auto simp: modify_child_def GetOrCreateChild_def node)
  next
    case (NTKey a b)
    have "\<exists>n'. um_modify NonTerminalMapKeyEqualityPred (a, b) empty_node f n = Inr n'"
      using assms(2,3) by (intro um_modify_total [where P = "wf_trie act"]) (auto simp: node wf_trie_Node)
    then show ?thesis using NTKey assms(1) by (auto simp: modify_child_def GetOrCreateChild_nt_def node)
  qed
qed

lemma wf_modify_child [wf_intros]:
  assumes "modify_child k f node = Inr node'" "wf_trie act node" "ok_key act k"
    and "\<And>ch ch'. wf_trie act ch \<Longrightarrow> f ch = Inr ch' \<Longrightarrow> wf_trie act ch'"
  shows "wf_trie act node'"
proof -
  obtain t n c where node: "node = Node t n c" by (cases node)
  show ?thesis
  proof (cases k)
    case (TermKey w)
    then obtain t' where t': "um_modify TerminalEqualityPred w empty_node f t = Inr t'" "node' = Node t' n c"
      using assms(1) by (auto simp: modify_child_def GetOrCreateChild_def node rbind_eq_Inr)
    have "wf_trie act ch" if "(w', ch) \<in> set t'" for w' ch
    proof (rule um_modify_values [OF t'(1), of "wf_trie act"])
      show "(k, v) \<in> set t \<Longrightarrow> wf_trie act v" for k v using assms(2) by (auto simp: node wf_trie_Node)
    qed (use assms(4) that in auto)
    moreover have "active w' = act" if "(w', ch) \<in> set t'" for w' ch
    proof -
      have "w' \<in> insert w (fst ` set t)"
        using um_modify_keys [OF t'(1)] that by (metis fst_conv image_eqI subsetD)
      then show ?thesis using assms(2,3) TermKey by (auto simp: node wf_trie_Node)
    qed
    moreover have "terminals.distinct_map t'"
      using terminals.distinct_modify [OF t'(1), of act] assms(2,3) TermKey
      by (auto simp: node wf_trie_Node terminals.ok_map_def)
    ultimately show ?thesis using assms(2) t'(2) by (simp add: node wf_trie_Node)
  next
    case (NTKey a b)
    then obtain n' where n': "um_modify NonTerminalMapKeyEqualityPred (a, b) empty_node f n = Inr n'"
        "node' = Node t n' c"
      using assms(1) by (auto simp: modify_child_def GetOrCreateChild_nt_def node rbind_eq_Inr)
    have "wf_trie act ch" if "(k', ch) \<in> set n'" for k' ch
    proof (rule um_modify_values [OF n'(1), of "wf_trie act"])
      show "(k, v) \<in> set n \<Longrightarrow> wf_trie act v" for k v
        using assms(2) by (cases k) (auto simp: node wf_trie_Node)
    qed (use assms(4) that in auto)
    moreover have "nonterm_pairs.distinct_map n'"
      using nonterm_pairs.distinct_modify [OF n'(1)] assms(2)
      by (auto simp: node wf_trie_Node nonterm_pairs.ok_map_def)
    ultimately show ?thesis using assms(2) n'(2) by (simp add: node wf_trie_Node)
  qed
qed

text \<open>The walk of GetOrCreateNode goes down along the path of the rule.\<close>

fun modify_path :: "rule_key list \<Rightarrow> (rule_node \<Rightarrow> rule_node result) \<Rightarrow> rule_node \<Rightarrow> rule_node result" where
  "modify_path [] f node = f node"
| "modify_path (k # ks) f node = modify_child k (modify_path ks f) node"

lemma rule_path_typed: "rule_path target words pos al = Some ks \<Longrightarrow> list_all typed_key ks"
  by (induction target words pos al arbitrary: ks rule: rule_path.induct)
    (auto split: if_splits list.splits prod.splits)

lemma GetOrCreateNode_path:
  "rule_path target words pos al = Some ks \<Longrightarrow>
     GetOrCreateNode target words pos al f node = modify_path ks f node"
proof (induction target words pos al arbitrary: ks node rule: rule_path.induct)
  case (2 target word words pos al)
  show ?case
  proof (cases "IsNonTerminal word")
    case False
    then obtain ks' where ks': "ks = TermKey word # ks'" "rule_path target words (Suc pos) al = Some ks'"
      using 2(3) by auto
    have "GetOrCreateNode target words (Suc pos) al f = modify_path ks' f"
      using 2(2) [OF False ks'(2)] by (simp add: fun_eq_iff)
    then show ?thesis using False ks'(1) by (simp add: modify_child_def)
  next
    case True
    then obtain s t al' where al: "al = (s, t) # al'"
      using 2(3) by (cases al) auto
    then obtain ks' where ks': "ks = NTKey word (tp_words target ! t) # ks'"
        "rule_path target words (Suc pos) al' = Some ks'" "s = pos" "t < length (tp_words target)"
        "IsNonTerminal (tp_words target ! t)"
      using True 2(3) by (auto split: if_splits)
    have "GetOrCreateNode target words (Suc pos) al' f = modify_path ks' f"
      using 2(1) [OF True al refl] ks' by (simp add: fun_eq_iff)
    then show ?thesis using True al ks' by (simp add: modify_child_def)
  qed
qed simp

lemma modify_path_total:
  assumes "list_all typed_key ks" "wf_trie act node" "\<And>ch. wf_trie act ch \<Longrightarrow> \<exists>ch'. f ch = Inr ch'"
  shows "\<exists>node'. modify_path ks f node = Inr node'"
  using assms(1,2)
proof (induction ks arbitrary: node)
  case (Cons k ks)
  then show ?case by (auto intro!: modify_child_total)
qed (simp add: assms(3))

lemma wf_modify_path [wf_intros]:
  assumes "modify_path ks f node = Inr node'" "wf_trie act node" "list_all (ok_key act) ks"
    and "\<And>ch ch'. wf_trie act ch \<Longrightarrow> f ch = Inr ch' \<Longrightarrow> wf_trie act ch'"
  shows "wf_trie act node'"
  using assms(1-3)
proof (induction ks arbitrary: node node')
  case (Cons k ks)
  then show ?case by (auto intro!: wf_modify_child [of k "modify_path ks f" node node' act])
qed (use assms(4) in simp)

lemma child_at_wf: "child_at k node = Some ch \<Longrightarrow> wf_trie act node \<Longrightarrow> wf_trie act ch"
  by (cases k; cases node) (auto simp: wf_trie_Node dest!: um_find_Some_in)

lemma child_at_cong:
  assumes "wf_trie act node" "ok_key act k1" "ok_key act k2" "key_eq k1 k2"
  shows "child_at k1 node = child_at k2 node"
proof -
  obtain t n c where node: "node = Node t n c" by (cases node)
  have ok: "terminals.ok_map act t" "nonterm_pairs.ok_map n"
    using assms(1) by (auto simp: node wf_trie_Node terminals.ok_map_def nonterm_pairs.ok_map_def)
  show ?thesis
    using assms(2-4) terminals.find_cong [OF ok(1)] nonterm_pairs.find_cong [OF ok(2)]
    by (cases k1; cases k2) (auto simp: node)
qed

lemma collection_at_Cons:
  "collection_at (k # ks) node = Option.bind (child_at k node) (collection_at ks)"
  by (cases "child_at k node") (simp_all add: collection_at_def)

lemma collection_at_empty: "collection_at ks empty_node = None"
proof (cases ks)
  case (Cons k ks')
  then show ?thesis by (cases k) (simp_all add: collection_at_Cons empty_node_def)
qed (simp add: collection_at_def empty_node_def)

lemma modify_path_at:
  assumes "modify_path ks f node = Inr node'" "wf_trie act node" "list_all (ok_key act) ks"
    and "list_all (ok_key act) ks'"
    and f: "\<And>ch ch'. f ch = Inr ch' \<Longrightarrow> m_sourceTermMap ch' = m_sourceTermMap ch
      \<and> m_nonTermMap ch' = m_nonTermMap ch \<and> m_tpc ch' = Some (g (m_tpc ch))"
  shows "collection_at ks' node'
    = (if list_all2 key_eq ks' ks then Some (g (collection_at ks node)) else collection_at ks' node)"
  using assms(1-4)
proof (induction ks arbitrary: node node' ks')
  case Nil
  then have f': "m_sourceTermMap node' = m_sourceTermMap node" "m_nonTermMap node' = m_nonTermMap node"
    "m_tpc node' = Some (g (m_tpc node))" using f by auto
  show ?case
  proof (cases ks')
    case (Cons k ks1)
    have "child_at k node' = child_at k node" using f' by (cases k) simp_all
    then show ?thesis using Cons by (simp add: collection_at_Cons)
  qed (use f' in \<open>simp add: collection_at_def\<close>)
next
  case (Cons k ks)
  have mod: "modify_child k (modify_path ks f) node = Inr node'" using Cons.prems(1) by simp
  show ?case
  proof (cases ks')
    case Nil
    then show ?thesis using modify_child_at(2) [OF mod Cons.prems(2), of k] Cons.prems(3)
      by (simp add: collection_at_def)
  next
    case ks': (Cons k1 ks1)
    note at = modify_child_at(1) [OF mod Cons.prems(2), of k1]
    show ?thesis
    proof (cases "key_eq k1 k")
      case False
      then show ?thesis using at ks' Cons.prems(3,4) by (simp add: collection_at_Cons)
    next
      case True
      let ?ch = "case child_at k node of None \<Rightarrow> empty_node | Some ch \<Rightarrow> ch"
      obtain ch' where ch': "modify_path ks f ?ch = Inr ch'" "child_at k1 node' = Some ch'"
        using at True ks' Cons.prems(3,4) by auto
      have wf: "wf_trie act ?ch"
        using Cons.prems(2) child_at_wf by (auto split: option.splits)
      have same: "child_at k1 node = child_at k node"
        using child_at_cong [OF Cons.prems(2) _ _ True] Cons.prems(3,4) ks' by simp
      have bind: "collection_at ls ?ch = Option.bind (child_at k node) (collection_at ls)" for ls
        by (cases "child_at k node") (simp_all add: collection_at_empty)
      show ?thesis
        using Cons.IH [OF ch'(1) wf, of ks1] Cons.prems(3,4) ks' True ch'(2) same
        by (simp add: collection_at_Cons bind)
    qed
  qed
qed

text \<open>Sorting acts on the collection of every path.\<close>

lemma um_find_map_prod: "um_find eq k (map (map_prod id f) m) = map_option f (um_find eq k m)"
  by (induction eq k m rule: um_find.induct) auto

lemma child_at_node_Sort:
  "child_at k (node_Sort ps limit node) = map_option (node_Sort ps limit) (child_at k node)"
  by (cases k; cases node) (simp_all add: um_find_map_prod)

lemma collection_at_node_Sort:
  "collection_at ks (node_Sort ps limit node) = map_option (tpc_Sort ps True limit) (collection_at ks node)"
proof (induction ks arbitrary: node)
  case Nil
  then show ?case by (cases node) (simp add: collection_at_def)
next
  case (Cons k ks)
  then show ?case by (cases "child_at k node") (simp_all add: collection_at_Cons child_at_node_Sort)
qed

locale phrase_sorting = partial_sorting sel for sel :: "target_phrase select"
begin

lemma tpc_Sort_best:
  assumes "limit \<ge> 1"
  shows "mset (tpc_Sort sel True limit c) \<subseteq># mset c"
    and "length (tpc_Sort sel True limit c) = min limit (length c)"
    and "sorted_wrt (\<lambda>x y. tp_futureScore y \<le> tp_futureScore x) (tpc_Sort sel True limit c)"
    and "r \<in># mset c - mset (tpc_Sort sel True limit c) \<Longrightarrow> x \<in> set (tpc_Sort sel True limit c)
      \<Longrightarrow> tp_futureScore r \<le> tp_futureScore x"
proof -
  let ?m = "tpc_middle limit c" and ?s = "sel tp_futureScore (tpc_middle limit c) c"
  have s: "tpc_Sort sel True limit c = take ?m ?s"
    using assms by (auto simp: tpc_Sort_def tpc_middle_def Let_def)
  have split: "mset c = mset (take ?m ?s) + mset (drop ?m ?s)"
    by (metis append_take_drop_id mset_append sel_mset)
  show "mset (tpc_Sort sel True limit c) \<subseteq># mset c" unfolding s split by simp
  show "length (tpc_Sort sel True limit c) = min limit (length c)"
    using assms unfolding s by (auto simp: tpc_middle_def)
  show "sorted_wrt (\<lambda>x y. tp_futureScore y \<le> tp_futureScore x) (tpc_Sort sel True limit c)"
    unfolding s by (rule sel_sorted)
  show "r \<in># mset c - mset (tpc_Sort sel True limit c) \<Longrightarrow> x \<in> set (tpc_Sort sel True limit c)
      \<Longrightarrow> tp_futureScore r \<le> tp_futureScore x"
    unfolding s split by (auto intro: sel_split)
qed

end

interpretation sorted_phrases: phrase_sorting sort_select
  by unfold_locales

section \<open>Properties\<close>

text \<open>
  C17. Filling the rule table: adding a rule whose alignment pairs its non-terminals never
  fails an assertion; afterwards the path of its source symbols leads to the collection it
  led to before with the rule's target phrase added at the end, every other path leads to
  what it led to before, and the tree stays well formed.
\<close>

theorem AddRule_lookup:
  assumes "wf_trie act root_node" "rule_path target source 0 (tp_align target) = Some ks"
    and "list_all (ok_key act) ks" "list_all (ok_key act) ks'"
  shows "\<exists>root'. AddRule source target root_node = Inr root' \<and> wf_trie act root' \<and>
    collection_at ks' root' =
      (if list_all2 key_eq ks' ks
       then Some ((case collection_at ks root_node of None \<Rightarrow> [] | Some c \<Rightarrow> c) @ [target])
       else collection_at ks' root_node)"
proof -
  let ?f = "\<lambda>node. Inr (Node (m_sourceTermMap node) (m_nonTermMap node)
    (Some (tpc_Add (case m_tpc node of None \<Rightarrow> [] | Some c \<Rightarrow> c) target)))"
  have eq: "AddRule source target root_node = modify_path ks ?f root_node"
    by (simp add: AddRule_def GetOrCreateTargetPhraseCollection_def GetOrCreateNode_path [OF assms(2)])
  obtain root' where root': "modify_path ks ?f root_node = Inr root'"
    using modify_path_total [OF rule_path_typed [OF assms(2)] assms(1), of ?f] by auto
  have "wf_trie act root'"
    by (rule wf_modify_path [OF root' assms(1,3)]) (auto elim: wf_trie.cases simp: wf_trie_Node)
  moreover have "collection_at ks' root' = (if list_all2 key_eq ks' ks
      then Some (tpc_Add (case collection_at ks root_node of None \<Rightarrow> [] | Some c \<Rightarrow> c) target)
      else collection_at ks' root_node)"
    by (rule modify_path_at [OF root' assms(1,3,4)]) auto
  ultimately show ?thesis using eq root' by (simp add: tpc_Add_def)
qed

text \<open>
  C27. Table limit: sorting and pruning the table keeps at every path, for a table limit that
  is not 0, the limit best target phrases in descending order of their future score (all of
  them when there are no more), so the first is the best; a table limit of 0 leaves the
  table as it is.
\<close>

theorem SortAndPrune_keeps_best:
  assumes "partial_sorting ps" "collection_at ks root_node = Some c"
  shows "(limit = 0 \<longrightarrow> SortAndPrune ps limit root_node = root_node) \<and>
    (limit \<noteq> 0 \<longrightarrow> (\<exists>c'. collection_at ks (SortAndPrune ps limit root_node) = Some c' \<and>
       mset c' \<subseteq># mset c \<and> length c' = min limit (length c) \<and>
       sorted_wrt (\<lambda>x y. tp_futureScore y \<le> tp_futureScore x) c' \<and>
       (\<forall>r \<in># mset c - mset c'. \<forall>x \<in> set c'. tp_futureScore r \<le> tp_futureScore x)))"
proof (cases "limit = 0")
  case False
  have sel: "phrase_sorting ps" using assms(1) by (simp add: phrase_sorting_def)
  have "collection_at ks (SortAndPrune ps limit root_node) = Some (tpc_Sort ps True limit c)"
    using False assms(2) by (simp add: SortAndPrune_def collection_at_node_Sort)
  then show ?thesis
    using False phrase_sorting.tpc_Sort_best(1-3) [OF sel, of limit c]
      phrase_sorting.tpc_Sort_best(4) [OF sel, of limit] by auto
qed (simp add: SortAndPrune_def)

abbreviation example_word :: "nat \<Rightarrow> bool \<Rightarrow> word" where
  "example_word f nt \<equiv> \<lparr>w_factors = [Some f], w_isNonTerminal = nt\<rparr>"

definition example_rule :: "real \<Rightarrow> target_phrase" where
  "example_rule x = \<lparr>tp_ptr = 0, tp_words = [example_word 1 True, example_word 7 False],
     tp_futureScore = Fin x, tp_breakdown = [], tp_align = [(1, 0)], tp_lhs = example_word 1 True\<rparr>"

definition example_source :: "word list" where
  "example_source = [example_word 5 False, example_word 1 True]"

lemma active_example [simp]: "active (example_word f nt) = {0}"
  by (auto simp: active_def GetFactor_def MAX_NUM_FACTORS_def)

lemma AddRule_lookup_witness:
  "rule_path (example_rule 3) example_source 0 (tp_align (example_rule 3))
     = Some [TermKey (example_word 5 False), NTKey (example_word 1 True) (example_word 1 True)]
   \<and> map_option (map tp_futureScore) (case AddRule example_source (example_rule 3) empty_node of
       Inl e \<Rightarrow> None
     | Inr root' \<Rightarrow> collection_at [TermKey (example_word 5 False),
           NTKey (example_word 1 True) (example_word 1 True)] root') = Some [Fin 3]"
proof
  let ?ks = "[TermKey (example_word 5 False), NTKey (example_word 1 True) (example_word 1 True)]"
  show path: "rule_path (example_rule 3) example_source 0 (tp_align (example_rule 3)) = Some ?ks"
    by (simp add: example_rule_def example_source_def)
  have "list_all2 key_eq ?ks ?ks"
    by (simp add: TerminalEqualityPred_def list_all_iff)
  then show "map_option (map tp_futureScore) (case AddRule example_source (example_rule 3) empty_node of
      Inl e \<Rightarrow> None | Inr root' \<Rightarrow> collection_at ?ks root') = Some [Fin 3]"
    using AddRule_lookup [OF wf_empty_node path, of "{0}" ?ks]
    by (auto simp: collection_at_empty example_rule_def)
qed

lemma SortAndPrune_keeps_best_witness:
  "map_option (map tp_futureScore) (collection_at []
       (SortAndPrune sort_select 2 (Node [] [] (Some (map example_rule [1, 3, 2]))))) = Some [Fin 3, Fin 2]
   \<and> (\<exists>c'. collection_at [] (SortAndPrune sort_select 2 (Node [] [] (Some (map example_rule [1, 3, 2])))) = Some c'
       \<and> length c' = 2)"
proof
  show "map_option (map tp_futureScore) (collection_at []
       (SortAndPrune sort_select 2 (Node [] [] (Some (map example_rule [1, 3, 2]))))) = Some [Fin 3, Fin 2]"
    by (simp add: SortAndPrune_def collection_at_def tpc_Sort_def tpc_middle_def sort_select_def
        sort_desc_def example_rule_def Let_def)
  have "partial_sorting (sort_select :: target_phrase select)" by unfold_locales
  then show "\<exists>c'. collection_at [] (SortAndPrune sort_select 2 (Node [] [] (Some (map example_rule [1, 3, 2])))) = Some c'
       \<and> length c' = 2"
    using SortAndPrune_keeps_best [of sort_select "[]" "Node [] [] (Some (map example_rule [1, 3, 2]))" _ 2]
    by (fastforce simp: collection_at_def)
qed

end
