(* ===== verification/TransOptList.thy ===== *)
theory TransOptList
  imports ChartTypes StdAlgorithms
begin

text \<open>
  The list of translation options of a chart span (ChartTranslationOption.cpp,
  ChartTranslationOptionList.cpp): rules with the hypothesis lists of their non-terminals,
  limited to the best ruleLimit by lazy pruning.

  The vector m\_collection is reused from span to span: only its first m\_size elements are
  in use. The parameters sel and part are std::nth\_element and std::partition.
\<close>

section \<open>Translation options\<close>

record 's trans_option =
  to_stackVec :: "'s stack_vec"
  to_tpc :: "target_phrase list"
  to_range :: words_range
  to_estimate :: score

definition CalcEstimateOfBestScore :: "target_phrase list \<Rightarrow> 's stack_vec \<Rightarrow> score result" where
  "CalcEstimateOfBestScore tpc stackVec =
     (case tpc of [] \<Rightarrow> Inl EmptyContainer
      | targetPhrase # _ \<Rightarrow>
          rfold (\<lambda>stack sc. case stack of [] \<Rightarrow> Inl AssertFailed
                              | bestHypo # _ \<Rightarrow> Inr (sc + GetTotalScore bestHypo))
            stackVec (tp_futureScore targetPhrase))"

section \<open>The list\<close>

record 's trans_opt_list =
  tol_collection :: "'s trans_option list"
  tol_size :: nat
  tol_threshold :: score
  tol_ruleLimit :: nat

definition ChartTranslationOptionList :: "nat \<Rightarrow> 's trans_opt_list" where
  "ChartTranslationOptionList ruleLimit =
     \<lparr>tol_collection = [], tol_size = 0, tol_threshold = PosInf, tol_ruleLimit = ruleLimit\<rparr>"

definition tol_Clear :: "'s trans_opt_list \<Rightarrow> 's trans_opt_list" where
  "tol_Clear l = l\<lparr>tol_size := 0, tol_threshold := PosInf\<rparr>"

definition tol_Get :: "'s trans_opt_list \<Rightarrow> nat \<Rightarrow> 's trans_option result" where
  "tol_Get l i = array_get (tol_collection l) i"

text \<open>Prune if bursting.\<close>

definition tol_burst :: "'s trans_option select \<Rightarrow> 's trans_opt_list \<Rightarrow> 's trans_opt_list result" where
  "tol_burst sel l =
     (if tol_size l = tol_ruleLimit l * 2
      then let coll = sel to_estimate (tol_ruleLimit l - 1) (take (tol_size l) (tol_collection l))
                        @ drop (tol_size l) (tol_collection l)
           in rbind (array_get coll (tol_ruleLimit l - 1)) (\<lambda>opt.
                Inr (l\<lparr>tol_collection := coll, tol_threshold := to_estimate opt,
                       tol_size := tol_ruleLimit l\<rparr>))
      else Inr l)"

definition tol_Add ::
  "'s trans_option select \<Rightarrow> 's trans_opt_list \<Rightarrow> target_phrase list \<Rightarrow> 's stack_vec \<Rightarrow> words_range
     \<Rightarrow> 's trans_opt_list result" where
  "tol_Add sel l tpc stackVec rng =
     (if tpc = [] then Inr l
      else rbind (CalcEstimateOfBestScore tpc stackVec) (\<lambda>score.
        if tol_size l > tol_ruleLimit l \<and> score < tol_threshold l then Inr l
        else
          let opt = \<lparr>to_stackVec = stackVec, to_tpc = tpc, to_range = rng, to_estimate = score\<rparr> in
          rbind (if tol_size l = length (tol_collection l) then Inr (tol_collection l @ [opt])
                 else array_set (tol_collection l) (tol_size l) opt) (\<lambda>coll.
            let n = tol_size l + 1;
                th = (if n \<le> tol_ruleLimit l
                      then if score < tol_threshold l then score else tol_threshold l
                      else tol_threshold l)
            in tol_burst sel (l\<lparr>tol_collection := coll, tol_size := n, tol_threshold := th\<rparr>))))"

definition tol_ShrinkToLimit ::
  "'s trans_option select \<Rightarrow> 's trans_opt_list \<Rightarrow> 's trans_opt_list result" where
  "tol_ShrinkToLimit sel l =
     (if tol_size l > tol_ruleLimit l
      then rbind (assert (tol_size l < tol_ruleLimit l * 2)) (\<lambda>_.
             Inr (l\<lparr>tol_collection := sel to_estimate (tol_ruleLimit l) (take (tol_size l) (tol_collection l))
                                        @ drop (tol_size l) (tol_collection l),
                    tol_size := tol_ruleLimit l\<rparr>))
      else Inr l)"

definition ScoreThresholdPred :: "score \<Rightarrow> 's trans_option \<Rightarrow> bool" where
  "ScoreThresholdPred threshold opt \<longleftrightarrow> to_estimate opt \<ge> threshold"

definition best_estimate :: "'s trans_option list \<Rightarrow> score" where
  "best_estimate opts = fold (\<lambda>opt th. if to_estimate opt > th then to_estimate opt else th) opts NegInf"

definition tol_ApplyThreshold ::
  "(('s trans_option \<Rightarrow> bool) \<Rightarrow> 's trans_option list \<Rightarrow> 's trans_option list) \<Rightarrow> score
     \<Rightarrow> 's trans_opt_list \<Rightarrow> 's trans_opt_list" where
  "tol_ApplyThreshold part translationOptionThreshold l =
     (let used = take (tol_size l) (tol_collection l);
          th = best_estimate used + translationOptionThreshold
      in l\<lparr>tol_collection := part (ScoreThresholdPred th) used @ drop (tol_size l) (tol_collection l),
           tol_size := length (filter (ScoreThresholdPred th) used)\<rparr>)"

section \<open>Invariant\<close>

definition used :: "'s trans_opt_list \<Rightarrow> 's trans_option list" where
  "used l = take (tol_size l) (tol_collection l)"

definition estimate :: "target_phrase list \<Rightarrow> 's stack_vec \<Rightarrow> score" where
  "estimate tpc stackVec = fold (\<lambda>stack sc. sc + GetTotalScore (hd stack)) stackVec (tp_futureScore (hd tpc))"

lemma CalcEstimate_eq:
  assumes "tpc \<noteq> []" "\<forall>stack \<in> set stackVec. stack \<noteq> []"
  shows "CalcEstimateOfBestScore tpc stackVec = Inr (estimate tpc stackVec)"
proof -
  have "rfold (\<lambda>stack sc. case stack of [] \<Rightarrow> Inl AssertFailed
      | bestHypo # _ \<Rightarrow> Inr (sc + GetTotalScore bestHypo)) stackVec sc
    = Inr (fold (\<lambda>stack sc. sc + GetTotalScore (hd stack)) stackVec sc)" for sc
    using assms(2) by (intro rfold_Inr_fold) (auto split: list.splits)
  then show ?thesis using assms(1) by (cases tpc) (simp_all add: CalcEstimateOfBestScore_def estimate_def)
qed

text \<open>
  After the options O have been offered, the list holds some of them; of those that were
  dropped, none is better than the worst of ruleLimit options in use; and the threshold is
  reached by as many options in use as the limit allows.
\<close>

definition offered_inv :: "'s trans_opt_list \<Rightarrow> 's trans_option multiset \<Rightarrow> bool" where
  "offered_inv l opts \<longleftrightarrow>
     tol_ruleLimit l \<ge> 1 \<and> tol_size l \<le> length (tol_collection l) \<and>
     mset (used l) \<subseteq># opts \<and>
     (\<forall>r \<in># opts - mset (used l).
        tol_ruleLimit l \<le> length (filter (\<lambda>x. to_estimate r \<le> to_estimate x) (used l))) \<and>
     min (tol_size l) (tol_ruleLimit l)
       \<le> length (filter (\<lambda>x. tol_threshold l \<le> to_estimate x) (used l))"

lemma offered_inv_init:
  "tol_ruleLimit l \<ge> 1 \<Longrightarrow> offered_inv (tol_Clear l) {#}"
  by (simp add: offered_inv_def tol_Clear_def used_def)

lemma length_used [simp]: "offered_inv l opts \<Longrightarrow> length (used l) = tol_size l"
  by (simp add: used_def offered_inv_def)

text \<open>Adding an option at the end of the options in use, with the threshold as Add sets it.\<close>

lemma offered_push:
  assumes "offered_inv l opts" "used l' = used l @ [opt]" "tol_size l' = Suc (tol_size l)"
    and "tol_ruleLimit l' = tol_ruleLimit l" "tol_size l' \<le> length (tol_collection l')"
    and "tol_threshold l' = (if Suc (tol_size l) \<le> tol_ruleLimit l
      then min (to_estimate opt) (tol_threshold l) else tol_threshold l)"
  shows "offered_inv l' (add_mset opt opts)"
proof -
  have sub: "mset (used l) \<subseteq># opts" using assms(1) by (simp add: offered_inv_def)
  have "min (tol_size l') (tol_ruleLimit l')
      \<le> length (filter (\<lambda>x. tol_threshold l' \<le> to_estimate x) (used l'))"
  proof (cases "Suc (tol_size l) \<le> tol_ruleLimit l")
    case True
    then have "tol_size l \<le> length (filter (\<lambda>x. tol_threshold l \<le> to_estimate x) (used l))"
      using assms(1) by (simp add: offered_inv_def)
    also have "\<dots> \<le> length (filter (\<lambda>x. tol_threshold l' \<le> to_estimate x) (used l))"
      using True assms(6) by (intro filter_length_mono) (auto intro: min.coboundedI2)
    finally show ?thesis using True assms by simp
  next
    case False
    then show ?thesis using assms by (auto simp: offered_inv_def)
  qed
  moreover have "tol_ruleLimit l \<le> length (filter (\<lambda>x. to_estimate r \<le> to_estimate x) (used l'))"
    if "r \<in># opts - mset (used l)" for r
    using assms(1,2) that by (fastforce simp: offered_inv_def)
  ultimately show ?thesis
    using assms sub by (auto simp: offered_inv_def)
qed

text \<open>Cutting the options in use down to the first ruleLimit of a selection.\<close>

lemma offered_cut:
  fixes ys :: "'s trans_option list" and l l' :: "'s trans_opt_list"
  assumes "offered_inv l opts" "mset ys = mset (used l)"
    and "\<forall>x \<in> set (take (tol_ruleLimit l) ys). \<forall>y \<in> set (drop (tol_ruleLimit l) ys). to_estimate y \<le> to_estimate x"
    and "tol_ruleLimit l \<le> tol_size l"
  shows "mset (take (tol_ruleLimit l) ys) \<subseteq># opts
    \<and> (\<forall>r \<in># opts - mset (take (tol_ruleLimit l) ys). \<forall>x \<in> set (take (tol_ruleLimit l) ys).
          to_estimate r \<le> to_estimate x)"
proof -
  let ?n = "tol_ruleLimit l"
  have split: "mset (used l) = mset (take ?n ys) + mset (drop ?n ys)"
    using assms(2) by (metis append_take_drop_id mset_append)
  obtain rest where opts: "opts = mset (used l) + rest"
    using assms(1) by (auto simp: offered_inv_def subset_mset.le_iff_add)
  have "to_estimate r \<le> to_estimate x"
    if r: "r \<in># opts - mset (take ?n ys)" and x: "x \<in> set (take ?n ys)" for r x
  proof (cases "r \<in> set (drop ?n ys)")
    case False
    have "opts - mset (take ?n ys) = mset (drop ?n ys) + rest"
      by (simp add: opts split add.assoc)
    then have "r \<in># opts - mset (used l)" using r False by (simp add: opts)
    then have "?n \<le> length (filter (\<lambda>x. to_estimate r \<le> to_estimate x) (used l))"
      using assms(1) by (simp add: offered_inv_def)
    also have "\<dots> = length (filter (\<lambda>x. to_estimate r \<le> to_estimate x) ys)"
      using assms(2) by (metis mset_filter size_mset)
    finally show ?thesis using split_top [OF assms(3)] x by blast
  qed (use assms(3) x in blast)
  moreover have "mset (take ?n ys) \<subseteq># opts" by (simp add: opts split add.assoc)
  ultimately show ?thesis by blast
qed

text \<open>What is kept after the cut is offered as well: the invariant with the limit reached.\<close>

lemma offered_inv_cut:
  assumes "mset kept \<subseteq># opts" "length kept = tol_ruleLimit l" "tol_ruleLimit l \<ge> 1"
    and "\<forall>r \<in># opts - mset kept. \<forall>x \<in> set kept. to_estimate r \<le> to_estimate x"
    and "\<forall>x \<in> set kept. tol_threshold l \<le> to_estimate x"
    and "used l = kept" "tol_size l = tol_ruleLimit l" "tol_size l \<le> length (tol_collection l)"
  shows "offered_inv l opts"
proof -
  have "filter (\<lambda>x. tol_threshold l \<le> to_estimate x) kept = kept" using assms(5) by simp
  moreover have "filter (\<lambda>x. to_estimate r \<le> to_estimate x) kept = kept" if "r \<in># opts - mset kept" for r
    using assms(4) that by simp
  ultimately show ?thesis using assms by (simp add: offered_inv_def)
qed

text \<open>An option as Add stores it.\<close>

abbreviation the_option :: "target_phrase list \<Rightarrow> 's stack_vec \<Rightarrow> words_range \<Rightarrow> 's trans_option" where
  "the_option tpc stackVec rng \<equiv>
     \<lparr>to_stackVec = stackVec, to_tpc = tpc, to_range = rng, to_estimate = estimate tpc stackVec\<rparr>"

lemma tol_Add_cases:
  assumes "offered_inv l opts" "tpc \<noteq> []" "\<forall>stack \<in> set stackVec. stack \<noteq> []"
  obtains (reject) "tol_Add sel l tpc stackVec rng = Inr l" "tol_ruleLimit l < tol_size l"
      "estimate tpc stackVec < tol_threshold l"
    | (push) l1 where "tol_Add sel l tpc stackVec rng = tol_burst sel l1"
      "offered_inv l1 (add_mset (the_option tpc stackVec rng) opts)"
      "tol_size l1 = Suc (tol_size l)" "tol_ruleLimit l1 = tol_ruleLimit l"
proof (cases "tol_size l > tol_ruleLimit l \<and> estimate tpc stackVec < tol_threshold l")
  case True
  then show ?thesis using reject assms(2,3) by (simp add: tol_Add_def CalcEstimate_eq)
next
  case False
  define coll where "coll = (if tol_size l = length (tol_collection l)
    then tol_collection l @ [the_option tpc stackVec rng]
    else (tol_collection l)[tol_size l := the_option tpc stackVec rng])"
  define l1 where "l1 = l\<lparr>tol_collection := coll, tol_size := tol_size l + 1,
    tol_threshold := (if tol_size l + 1 \<le> tol_ruleLimit l
      then if estimate tpc stackVec < tol_threshold l then estimate tpc stackVec else tol_threshold l
      else tol_threshold l)\<rparr>"
  have le: "tol_size l \<le> length (tol_collection l)" using assms(1) by (simp add: offered_inv_def)
  have "used l1 = used l @ [the_option tpc stackVec rng]"
    using le by (auto simp: l1_def coll_def used_def take_Suc_conv_app_nth)
  then have "offered_inv l1 (add_mset (the_option tpc stackVec rng) opts)"
    using le by (intro offered_push [OF assms(1)]) (auto simp: l1_def coll_def score_min_if)
  moreover have "tol_Add sel l tpc stackVec rng = tol_burst sel l1"
    using False le assms(2,3) by (auto simp: tol_Add_def CalcEstimate_eq l1_def coll_def Let_def)
  ultimately show ?thesis by (intro push [of l1]) (simp_all add: l1_def)
qed

text \<open>The list of options on top of any nth\_element that keeps its contract.\<close>

locale option_selection = selection sel for sel :: "'s trans_option select"
begin

lemma offered_burst:
  assumes "offered_inv l opts" "tol_size l \<le> tol_ruleLimit l * 2"
  shows "\<exists>l'. tol_burst sel l = Inr l' \<and> offered_inv l' opts \<and> tol_size l' < tol_ruleLimit l * 2
    \<and> tol_ruleLimit l' = tol_ruleLimit l"
proof (cases "tol_size l = tol_ruleLimit l * 2")
  case True
  let ?n = "tol_ruleLimit l" and ?ys = "sel to_estimate (tol_ruleLimit l - 1) (used l)"
  let ?coll = "?ys @ drop (tol_size l) (tol_collection l)"
  have n: "?n \<ge> 1" "tol_size l \<le> length (tol_collection l)" using assms(1) by (auto simp: offered_inv_def)
  have len: "length (used l) = ?n * 2" using assms(1) True by simp
  have less: "?n - Suc 0 < ?n * 2" using n by linarith
  have split: "\<forall>x \<in> set (take ?n ?ys). \<forall>y \<in> set (drop ?n ?ys). to_estimate y \<le> to_estimate x"
    using sel_split_Suc [of "?n - 1" "used l" to_estimate] n len by simp
  have cut: "mset (take ?n ?ys) \<subseteq># opts"
      "\<forall>r \<in># opts - mset (take ?n ?ys). \<forall>x \<in> set (take ?n ?ys). to_estimate r \<le> to_estimate x"
    using offered_cut [OF assms(1) sel_mset split] True by auto
  let ?l' = "l\<lparr>tol_collection := ?coll, tol_threshold := to_estimate (?ys ! (?n - 1)), tol_size := ?n\<rparr>"
  have "\<forall>x \<in> set (take ?n ?ys). to_estimate (?ys ! (?n - 1)) \<le> to_estimate x"
    using sel_nth_least [of "?n - 1" "used l" _ to_estimate] n len by simp
  then have "offered_inv ?l' opts"
    using cut n len by (intro offered_inv_cut [of "take ?n ?ys"]) (auto simp: used_def)
  moreover have "tol_burst sel l = Inr ?l'"
    using True n len less by (simp add: tol_burst_def used_def nth_append array_get_def Let_def)
  ultimately show ?thesis using n by auto
next
  case False
  then show ?thesis using assms by (simp add: tol_burst_def)
qed

lemma offered_Add:
  assumes "offered_inv l opts" "tol_size l < tol_ruleLimit l * 2"
    and "tpc \<noteq> []" "\<forall>stack \<in> set stackVec. stack \<noteq> []"
  shows "\<exists>l'. tol_Add sel l tpc stackVec rng = Inr l'
    \<and> offered_inv l' (add_mset (the_option tpc stackVec rng) opts)
    \<and> tol_size l' < tol_ruleLimit l * 2 \<and> tol_ruleLimit l' = tol_ruleLimit l"
  using assms(1,3,4)
proof (cases rule: tol_Add_cases [where sel = sel and rng = rng])
  case reject
  have "tol_ruleLimit l \<le> length (filter (\<lambda>x. tol_threshold l \<le> to_estimate x) (used l))"
    using assms(1) reject(2) by (simp add: offered_inv_def)
  also have "\<dots> \<le> length (filter (\<lambda>x. estimate tpc stackVec \<le> to_estimate x) (used l))"
    using reject(3) by (intro filter_length_mono) auto
  finally have "offered_inv l (add_mset (the_option tpc stackVec rng) opts)"
    using assms(1) by (auto simp: offered_inv_def add_mset_diff_bothsides subset_mset.le_iff_add
      dest: in_diffD split: if_splits)
  then show ?thesis using reject(1) assms(2) by auto
next
  case (push l1)
  then show ?thesis using offered_burst [OF push(2)] assms(2) by auto
qed

lemma offered_Shrink:
  assumes "offered_inv l opts" "tol_size l < tol_ruleLimit l * 2"
  shows "\<exists>l'. tol_ShrinkToLimit sel l = Inr l' \<and> mset (used l') \<subseteq># opts
    \<and> length (used l') = min (tol_ruleLimit l) (size opts)
    \<and> (\<forall>r \<in># opts - mset (used l'). \<forall>x \<in> set (used l'). to_estimate r \<le> to_estimate x)"
proof (cases "tol_size l > tol_ruleLimit l")
  case True
  let ?n = "tol_ruleLimit l" and ?ys = "sel to_estimate (tol_ruleLimit l) (used l)"
  let ?l' = "l\<lparr>tol_collection := ?ys @ drop (tol_size l) (tol_collection l), tol_size := ?n\<rparr>"
  have len: "length (used l) = tol_size l" using assms(1) by simp
  have "\<forall>x \<in> set (take ?n ?ys). \<forall>y \<in> set (drop ?n ?ys). to_estimate y \<le> to_estimate x"
    using sel_split by blast
  from offered_cut [OF assms(1) sel_mset this]
  have cut: "mset (take ?n ?ys) \<subseteq># opts"
      "\<forall>r \<in># opts - mset (take ?n ?ys). \<forall>x \<in> set (take ?n ?ys). to_estimate r \<le> to_estimate x"
    using True by auto
  have "size (mset (used l)) \<le> size opts"
    using assms(1) by (intro size_mset_mono) (simp add: offered_inv_def)
  then have "min ?n (size opts) = ?n" using len True by simp
  moreover have "used ?l' = take ?n ?ys" using len True by (simp add: used_def)
  moreover have "tol_ShrinkToLimit sel l = Inr ?l'"
    using True assms(2) by (simp add: tol_ShrinkToLimit_def used_def)
  ultimately show ?thesis using cut len True by auto
next
  case False
  obtain rest where opts: "opts = mset (used l) + rest"
    using assms(1) by (auto simp: offered_inv_def subset_mset.le_iff_add)
  have reached: "tol_ruleLimit l \<le> length (filter (\<lambda>x. to_estimate r \<le> to_estimate x) (used l))"
    if "r \<in># rest" for r
    using assms(1) that by (simp add: offered_inv_def opts)
  have len: "length (used l) = tol_size l" using assms(1) by simp
  have all: "filter (\<lambda>x. to_estimate r \<le> to_estimate x) (used l) = used l" "tol_size l = tol_ruleLimit l"
    if "r \<in># rest" for r
  proof -
    have "length (filter (\<lambda>x. to_estimate r \<le> to_estimate x) (used l)) \<le> length (used l)"
      by (rule length_filter_le)
    then have eq: "length (filter (\<lambda>x. to_estimate r \<le> to_estimate x) (used l)) = length (used l)"
      "tol_size l = tol_ruleLimit l"
      using reached [OF that] len False by auto
    show "tol_size l = tol_ruleLimit l" by (rule eq(2))
    show "filter (\<lambda>x. to_estimate r \<le> to_estimate x) (used l) = used l"
      using eq(1) by (metis filter_id_conv length_filter_less less_irrefl)
  qed
  have "\<forall>r \<in># rest. \<forall>x \<in> set (used l). to_estimate r \<le> to_estimate x"
    using all(1) by (metis filter_id_conv)
  moreover have "length (used l) = min (tol_ruleLimit l) (size opts)"
  proof (cases "rest = {#}")
    case False
    then obtain r where "r \<in># rest" by blast
    then show ?thesis using all(2) len by (simp add: opts)
  qed (use False len in \<open>simp add: opts\<close>)
  ultimately show ?thesis using False by (auto simp: tol_ShrinkToLimit_def opts)
qed

lemma offered_Adds:
  assumes "offered_inv l opts" "tol_size l < tol_ruleLimit l * 2"
    and "\<forall>(tpc, stackVec, rng) \<in> set offers. tpc = [] \<or> [] \<notin> set stackVec"
  shows "\<exists>l'. rfold (\<lambda>(tpc, stackVec, rng) l. tol_Add sel l tpc stackVec rng) offers l = Inr l'
    \<and> offered_inv l' (opts + mset (map (\<lambda>(tpc, stackVec, rng). the_option tpc stackVec rng)
                                     (filter (\<lambda>(tpc, _, _). tpc \<noteq> []) offers)))
    \<and> tol_size l' < tol_ruleLimit l * 2 \<and> tol_ruleLimit l' = tol_ruleLimit l"
  using assms
proof (induction offers arbitrary: l opts)
  case (Cons offer offers)
  obtain tpc stackVec rng where offer: "offer = (tpc, stackVec, rng)" by (cases offer)
  show ?case
  proof (cases "tpc = []")
    case True
    then show ?thesis using Cons offer by (simp add: tol_Add_def)
  next
    case False
    have "\<forall>stack \<in> set stackVec. stack \<noteq> []" using False Cons.prems(3) offer by auto
    from offered_Add [OF Cons.prems(1,2) False this, of rng]
    obtain l1 where l1: "tol_Add sel l tpc stackVec rng = Inr l1"
      "offered_inv l1 (add_mset (the_option tpc stackVec rng) opts)"
      "tol_size l1 < tol_ruleLimit l1 * 2" "tol_ruleLimit l1 = tol_ruleLimit l"
      by auto
    then show ?thesis using Cons.IH [OF l1(2,3)] Cons.prems(3) offer False by auto
  qed
qed simp

end

interpretation sorted_options: option_selection sort_select
  by unfold_locales

lemma best_estimate_le:
  "best_estimate opts + th \<le> c \<longleftrightarrow> (\<forall>opt \<in> set opts. to_estimate opt + th \<le> c)"
proof -
  have "fold (\<lambda>opt th. if to_estimate opt > th then to_estimate opt else th) opts b + th \<le> c
      \<longleftrightarrow> b + th \<le> c \<and> (\<forall>opt \<in> set opts. to_estimate opt + th \<le> c)" for b
  proof (induction opts arbitrary: b)
    case (Cons opt opts)
    have "max (to_estimate opt) b + th \<le> c \<longleftrightarrow> to_estimate opt + th \<le> c \<and> b + th \<le> c"
      using add_right_mono [of b "to_estimate opt" th] add_right_mono [of "to_estimate opt" b th]
      by (cases rule: linorder_le_cases [of "to_estimate opt" b]) (auto simp: max_def intro: order_trans)
    then show ?case using Cons by (auto simp: score_max_if)
  qed simp
  then show ?thesis by (simp add: best_estimate_def)
qed

section \<open>Properties\<close>

text \<open>The options a sequence of calls of Add offers: those with a target phrase.\<close>

definition offered_options ::
  "(target_phrase list \<times> 's stack_vec \<times> words_range) list \<Rightarrow> 's trans_option multiset" where
  "offered_options offers = mset (map (\<lambda>(tpc, stackVec, rng). the_option tpc stackVec rng)
     (filter (\<lambda>(tpc, _, _). tpc \<noteq> []) offers))"

definition tol_Adds ::
  "'s trans_option select \<Rightarrow> (target_phrase list \<times> 's stack_vec \<times> words_range) list
     \<Rightarrow> 's trans_opt_list \<Rightarrow> 's trans_opt_list result" where
  "tol_Adds sel = rfold (\<lambda>(tpc, stackVec, rng) l. tol_Add sel l tpc stackVec rng)"

lemma kept_best:
  assumes "selection sel" "tol_ruleLimit l \<ge> 1"
    and "\<forall>(tpc, stackVec, rng) \<in> set offers. tpc = [] \<or> [] \<notin> set stackVec"
  shows "\<exists>l'. rbind (tol_Adds sel offers (tol_Clear l)) (tol_ShrinkToLimit sel) = Inr l'
    \<and> mset (used l') \<subseteq># offered_options offers
    \<and> length (used l') = min (tol_ruleLimit l) (size (offered_options offers))
    \<and> (\<forall>r \<in># offered_options offers - mset (used l'). \<forall>x \<in> set (used l'). to_estimate r \<le> to_estimate x)"
proof -
  have sel: "option_selection sel" using assms(1) by (simp add: option_selection_def)
  have "offered_inv (tol_Clear l) {#}" by (rule offered_inv_init [OF assms(2)])
  moreover have "tol_size (tol_Clear l) < tol_ruleLimit (tol_Clear l) * 2"
    using assms(2) by (simp add: tol_Clear_def)
  ultimately obtain l1 where "tol_Adds sel offers (tol_Clear l) = Inr l1"
      "offered_inv l1 (offered_options offers)" "tol_size l1 < tol_ruleLimit l1 * 2"
      "tol_ruleLimit l1 = tol_ruleLimit l"
    using option_selection.offered_Adds [OF sel, of "tol_Clear l" "{#}" offers] assms(3)
    by (auto simp: tol_Adds_def offered_options_def tol_Clear_def)
  then show ?thesis using option_selection.offered_Shrink [OF sel, of l1 "offered_options offers"] by auto
qed

lemma threshold_keeps:
  assumes "partitioning part" "tol_size l \<le> length (tol_collection l)"
  shows "mset (used (tol_ApplyThreshold part th l))
      = filter_mset (\<lambda>x. \<forall>y \<in> set (used l). to_estimate y + th \<le> to_estimate x) (mset (used l))
    \<and> (th \<le> 0 \<and> used l \<noteq> [] \<longrightarrow> used (tol_ApplyThreshold part th l) \<noteq> [])"
proof
  let ?P = "ScoreThresholdPred (best_estimate (used l) + th)"
  let ?Q = "\<lambda>x. \<forall>y \<in> set (used l). to_estimate y + th \<le> to_estimate x"
  have "length (filter ?P (used l)) \<le> length (used l)" by (rule length_filter_le)
  then have "used (tol_ApplyThreshold part th l) = take (length (filter ?P (used l))) (part ?P (used l))"
    using assms by (simp add: used_def tol_ApplyThreshold_def Let_def partitioning.part_length)
  then have "mset (used (tol_ApplyThreshold part th l)) = filter_mset ?P (mset (used l))"
    by (simp add: partitioning.part_take [OF assms(1)])
  also have "?P = ?Q" by (simp add: fun_eq_iff ScoreThresholdPred_def best_estimate_le)
  finally show eq: "mset (used (tol_ApplyThreshold part th l)) = filter_mset ?Q (mset (used l))" .
  show "th \<le> 0 \<and> used l \<noteq> [] \<longrightarrow> used (tol_ApplyThreshold part th l) \<noteq> []"
  proof
    assume a: "th \<le> 0 \<and> used l \<noteq> []"
    have "Max (to_estimate ` set (used l)) \<in> to_estimate ` set (used l)" using a by (intro Max_in) auto
    then obtain x where x: "x \<in> set (used l)" "to_estimate x = Max (to_estimate ` set (used l))" by force
    have "to_estimate y + th \<le> to_estimate x" if "y \<in> set (used l)" for y
      using add_mono [of "to_estimate y" "to_estimate x" th 0] a that x(2) by simp
    then have "x \<in># mset (used (tol_ApplyThreshold part th l))" using x(1) by (simp add: eq)
    then show "used (tol_ApplyThreshold part th l) \<noteq> []" by auto
  qed
qed

text \<open>
  C16. Rule limit: after Clear, any sequence of Adds and ShrinkToLimit, whatever nth\_element
  with the contract of the standard is used and whatever an earlier span has left in the
  vector, the list holds the ruleLimit best of all options offered (all of them when there
  are no more), the lazy pruning and the rejection by threshold on the way lose none of
  them, and the assertion on the list's size does not fail.
\<close>

theorem rule_limit_keeps_best:
  assumes "selection sel" "tol_ruleLimit l \<ge> 1"
    and "\<forall>(tpc, stackVec, rng) \<in> set offers. tpc = [] \<or> [] \<notin> set stackVec"
  shows "\<exists>l'. rbind (tol_Adds sel offers (tol_Clear l)) (tol_ShrinkToLimit sel) = Inr l'
    \<and> mset (used l') \<subseteq># offered_options offers
    \<and> length (used l') = min (tol_ruleLimit l) (size (offered_options offers))
    \<and> (\<forall>r \<in># offered_options offers - mset (used l'). \<forall>x \<in> set (used l'). to_estimate r \<le> to_estimate x)"
  by (rule kept_best [OF assms])

text \<open>
  C28. Threshold pruning: ApplyThreshold keeps exactly the options whose estimate is within
  the threshold of every option in use, hence of the best one; with a threshold that is
  not positive some option survives when there was one.
\<close>

theorem ApplyThreshold_keeps:
  assumes "partitioning part" "tol_size l \<le> length (tol_collection l)"
  shows "mset (used (tol_ApplyThreshold part th l))
      = filter_mset (\<lambda>x. \<forall>y \<in> set (used l). to_estimate y + th \<le> to_estimate x) (mset (used l))
    \<and> (th \<le> 0 \<and> used l \<noteq> [] \<longrightarrow> used (tol_ApplyThreshold part th l) \<noteq> [])"
  by (rule threshold_keeps [OF assms])

definition example_phrase :: "real \<Rightarrow> target_phrase" where
  "example_phrase x = \<lparr>tp_ptr = 0, tp_words = [], tp_futureScore = Fin x, tp_breakdown = [], tp_align = [],
     tp_lhs = \<lparr>w_factors = [], w_isNonTerminal = True\<rparr>\<rparr>"

definition example_offers :: "(target_phrase list \<times> unit stack_vec \<times> words_range) list" where
  "example_offers = map (\<lambda>x. ([example_phrase x], [], WordsRange 0 0)) [1, 4, 2, 5, 3]"

lemmas option_list_eval = tol_Adds_def tol_Add_def tol_burst_def tol_Clear_def tol_ShrinkToLimit_def
  tol_ApplyThreshold_def CalcEstimateOfBestScore_def ChartTranslationOptionList_def used_def
  sort_select_def sort_desc_def Let_def best_estimate_def ScoreThresholdPred_def stable_partition_def

lemma rule_limit_keeps_best_witness:
  "map (map_sum id (map to_estimate \<circ> used))
     [rbind (tol_Adds sort_select example_offers (tol_Clear (ChartTranslationOptionList 2)))
       (tol_ShrinkToLimit sort_select)] = [Inr [Fin 5, Fin 4]]
   \<and> (\<exists>l'. rbind (tol_Adds sort_select example_offers (tol_Clear (ChartTranslationOptionList 2)))
         (tol_ShrinkToLimit sort_select) = Inr l' \<and> length (used l') = 2)"
proof
  show "map (map_sum id (map to_estimate \<circ> used))
     [rbind (tol_Adds sort_select example_offers (tol_Clear (ChartTranslationOptionList 2)))
       (tol_ShrinkToLimit sort_select)] = [Inr [Fin 5, Fin 4]]"
    by (simp add: option_list_eval example_offers_def example_phrase_def)
  have "selection (sort_select :: unit trans_option select)" by unfold_locales
  moreover have "size (offered_options example_offers) = 5"
    by (simp add: offered_options_def example_offers_def)
  ultimately show "\<exists>l'. rbind (tol_Adds sort_select example_offers (tol_Clear (ChartTranslationOptionList 2)))
         (tol_ShrinkToLimit sort_select) = Inr l' \<and> length (used l') = 2"
    using rule_limit_keeps_best [of sort_select "ChartTranslationOptionList 2" example_offers]
    by (force simp: example_offers_def ChartTranslationOptionList_def)
qed

definition example_list :: "unit trans_opt_list" where
  "example_list = \<lparr>tol_collection = map (\<lambda>x. \<lparr>to_stackVec = [], to_tpc = [], to_range = WordsRange 0 0,
     to_estimate = Fin x\<rparr>) [1, 4, 2], tol_size = 3, tol_threshold = PosInf, tol_ruleLimit = 5\<rparr>"

lemma ApplyThreshold_keeps_witness:
  "map to_estimate (used (tol_ApplyThreshold stable_partition (Fin (-2)) example_list)) = [Fin 4, Fin 2]
   \<and> mset (used (tol_ApplyThreshold stable_partition (Fin (-2)) example_list))
      = filter_mset (\<lambda>x. list_all (\<lambda>y. to_estimate y + Fin (-2) \<le> to_estimate x) (used example_list))
          (mset (used example_list))"
proof
  show "map to_estimate (used (tol_ApplyThreshold stable_partition (Fin (-2)) example_list)) = [Fin 4, Fin 2]"
    by (simp add: option_list_eval example_list_def numeral_3_eq_3)
  have "partitioning (stable_partition :: (unit trans_option \<Rightarrow> bool) \<Rightarrow> _)" by unfold_locales
  moreover have "tol_size example_list \<le> length (tol_collection example_list)"
    by (simp add: example_list_def)
  ultimately show "mset (used (tol_ApplyThreshold stable_partition (Fin (-2)) example_list))
      = filter_mset (\<lambda>x. list_all (\<lambda>y. to_estimate y + Fin (-2) \<le> to_estimate x) (used example_list))
          (mset (used example_list))"
    using ApplyThreshold_keeps [of stable_partition example_list "Fin (-2)"]
    by (simp add: list_all_iff)
qed

end
