(* ===== verification/RuleLookup.thy ===== *)
theory RuleLookup
  imports RuleTrie TransOptList
begin

text \<open>
  The lookup of chart rules with a minimum span (CYKPlusParser/DotChart.h,
  DotChartInMemory.h, ChartRuleLookupManagerCYKPlus.cpp,
  ChartRuleLookupManagerMinSpan.cpp): for every start position a collection of dotted
  rules, extended word by word; the rules that cover a span completely are offered to the
  list of translation options when the span is longer than the minimum and, in clause
  mode, ends at a clause end.
\<close>

section \<open>Dotted rules\<close>

text \<open>
  A dotted rule points to the node of the rule table its symbols lead to. The init rule
  has no label and no previous rule.
\<close>

datatype 's dotted_rule =
    InitRule (GetLastNode: rule_node)
  | DottedRule (GetLastNode: rule_node) (GetChartCellLabel: "'s cell_label") (GetPrev: "'s dotted_rule")

fun IsRoot :: "'s dotted_rule \<Rightarrow> bool" where
  "IsRoot (InitRule _) \<longleftrightarrow> True"
| "IsRoot (DottedRule _ _ _) \<longleftrightarrow> False"

text \<open>The label pointer of the init rule is NULL.\<close>

fun GetWordsRange :: "'s dotted_rule \<Rightarrow> words_range result" where
  "GetWordsRange (InitRule _) = Inl NullPointer"
| "GetWordsRange (DottedRule _ lab _) = Inr (cl_coverage lab)"

record 's dotted_coll =
  dc_coll :: "'s dotted_rule list list"
  dc_expandable :: "'s dotted_rule list"

definition DottedRuleColl :: "nat \<Rightarrow> 's dotted_coll" where
  "DottedRuleColl n = \<lparr>dc_coll = replicate n [], dc_expandable = []\<rparr>"

definition dc_Add :: "nat \<Rightarrow> 's dotted_rule \<Rightarrow> 's dotted_coll \<Rightarrow> 's dotted_coll result" where
  "dc_Add pos rule coll =
     rbind (array_get (dc_coll coll) pos) (\<lambda>rules.
       Inr (coll\<lparr>dc_coll := (dc_coll coll)[pos := rules @ [rule]],
                 dc_expandable := (if \<not> IsLeaf (GetLastNode rule) then dc_expandable coll @ [rule]
                                   else dc_expandable coll)\<rparr>))"

text \<open>Clear does something only when the rules live in object pools (USE\_BOOST\_POOL).\<close>

definition dc_Clear :: "bool \<Rightarrow> nat \<Rightarrow> 's dotted_coll \<Rightarrow> 's dotted_coll" where
  "dc_Clear pool pos coll =
     (if pool then coll\<lparr>dc_coll := (dc_coll coll)[pos := []]\<rparr> else coll)"

section \<open>What the lookup reads\<close>

text \<open>
  The chart and the input as the lookup reads them: the label of the source word of a
  position, the source labels of a span (InputType::GetLabelSet), the target labels of the
  cell of a span, and whether the clause bounds option is set.
\<close>

record 's lookup_env =
  le_source :: "nat \<Rightarrow> 's cell_label"
  le_labelSet :: "nat \<Rightarrow> nat \<Rightarrow> word list"
  le_targets :: "nat \<Rightarrow> nat \<Rightarrow> 's label_set"
  le_clauseMode :: bool
  le_clauseBounds :: "int list list"
  le_pool :: bool

section \<open>Completed rules\<close>

text \<open>
  The vector of hypothesis lists is filled from its end while the dotted rule is followed
  back to the init rule.
\<close>

fun rule_stacks :: "'s dotted_rule \<Rightarrow> 's stack_vec \<Rightarrow> 's stack_vec result" where
  "rule_stacks (InitRule _) stackVec = Inr stackVec"
| "rule_stacks (DottedRule _ lab prev) stackVec =
     (if IsNonTerminal (cl_label lab)
      then (case cl_stack lab of None \<Rightarrow> Inl AssertFailed
            | Some stack \<Rightarrow> rule_stacks prev (stack # stackVec))
      else rule_stacks prev stackVec)"

definition AddCompletedRule ::
  "'s trans_option select \<Rightarrow> 's dotted_rule \<Rightarrow> target_phrase list \<Rightarrow> words_range
     \<Rightarrow> 's trans_opt_list \<Rightarrow> 's trans_opt_list result" where
  "AddCompletedRule sel dottedRule tpc rng outColl =
     rbind (rule_stacks dottedRule []) (\<lambda>stackVec. tol_Add sel outColl tpc stackVec rng)"

definition MatchesInterval :: "int \<Rightarrow> int \<Rightarrow> bool" where
  "MatchesInterval input boundary = (if input = boundary then True else False)"

definition IsInside :: "int \<Rightarrow> int \<Rightarrow> int \<Rightarrow> bool" where
  "IsInside input boundary1 boundary2 = (if boundary1 \<le> input \<and> boundary2 \<ge> input then True else False)"

text \<open>
  The loop over the boundaries of one clause, two at a time. The state is the flag crosses
  and the option list; a clause with an odd number of boundaries reads the end iterator.
\<close>

fun clause_pairs ::
  "('o \<Rightarrow> 'o result) \<Rightarrow> int \<Rightarrow> int \<Rightarrow> bool \<Rightarrow> int list \<Rightarrow> bool \<times> 'o \<Rightarrow> (bool \<times> 'o) result" where
  "clause_pairs add startPos endPos ok [] st = Inr st"
| "clause_pairs add startPos endPos ok [boundary1] st = Inl OutOfBounds"
| "clause_pairs add startPos endPos ok (boundary1 # boundary2 # bounds) (crosses, out) =
     (let isEndMatch = MatchesInterval endPos boundary2;
          isInsideStart = IsInside startPos (boundary1 + 1) (boundary2 + 1);
          isInsideEnd = IsInside endPos (boundary1 + 1) (boundary2 + 1);
          crosses' = (if (isInsideStart \<and> \<not> isInsideEnd) \<or> (\<not> isInsideStart \<and> isInsideEnd)
                      then True else crosses)
      in rbind (if isEndMatch \<and> ok \<and> \<not> crosses' then add out else Inr out) (\<lambda>out'.
           clause_pairs add startPos endPos ok bounds (crosses', out')))"

text \<open>The treatment of one rule that covers the span.\<close>

definition output_rule ::
  "'s trans_option select \<Rightarrow> 's lookup_env \<Rightarrow> words_range \<Rightarrow> nat \<Rightarrow> 's dotted_rule
     \<Rightarrow> 's trans_opt_list \<Rightarrow> 's trans_opt_list result" where
  "output_rule sel env rng minSpan dottedRule outColl =
     rbind (GetWordsRange dottedRule) (\<lambda>covered_range.
       let endPos = int (GetEndPos covered_range);
           startOfFirst = int (GetStartPos rng);
           span = endPos - startOfFirst + 1;
           add = (\<lambda>tpc out. AddCompletedRule sel dottedRule tpc rng out)
       in if le_clauseMode env
          then rbind (rfold (\<lambda>boundaries st.
                   clause_pairs (\<lambda>out. case m_tpc (GetLastNode dottedRule) of None \<Rightarrow> Inr out | Some tpc \<Rightarrow> add tpc out)
                     startOfFirst endPos
                     (m_tpc (GetLastNode dottedRule) \<noteq> None \<and> span > int minSpan) boundaries st)
                 (le_clauseBounds env) (False, outColl)) (\<lambda>(_, out). Inr out)
          else if span > int minSpan
          then (case m_tpc (GetLastNode dottedRule) of
                  Some tpc \<Rightarrow> add tpc outColl
                | None \<Rightarrow> Inr outColl)
          else Inr outColl)"

section \<open>Extending dotted rules\<close>

definition ExtendPartialRuleApplication ::
  "'s lookup_env \<Rightarrow> 's dotted_rule \<Rightarrow> nat \<Rightarrow> nat \<Rightarrow> nat \<Rightarrow> 's dotted_coll \<Rightarrow> 's dotted_coll result" where
  "ExtendPartialRuleApplication env prevDottedRule startPos endPos stackInd coll =
     (let sourceNonTerms = le_labelSet env startPos endPos;
          targetNonTerms = le_targets env startPos endPos;
          node = GetLastNode prevDottedRule;
          nonTermMap = m_nonTermMap node
      in if length nonTermMap = 0 then Inr coll
         else if length sourceNonTerms * length targetNonTerms \<le> length nonTermMap * 2
         then rfold (\<lambda>sourceNonTerm. rfold (\<lambda>q coll.
                  rbind (GetChild_nt node sourceNonTerm (cl_label (snd q))) (\<lambda>child.
                    case child of None \<Rightarrow> Inr coll
                    | Some ch \<Rightarrow> dc_Add stackInd (DottedRule ch (snd q) prevDottedRule) coll))
                targetNonTerms) sourceNonTerms coll
         else rfold (\<lambda>p coll.
                  if \<not> list_ex (NonTerminalEqualityPred (fst (fst p))) sourceNonTerms then Inr coll
                  else case label_Find targetNonTerms (snd (fst p)) of
                         None \<Rightarrow> Inr coll
                       | Some lab \<Rightarrow> dc_Add stackInd (DottedRule (snd p) lab prevDottedRule) coll)
                nonTermMap coll)"

text \<open>One iteration of the main loop.\<close>

definition extend_rule ::
  "'s lookup_env \<Rightarrow> words_range \<Rightarrow> 's dotted_rule \<Rightarrow> 's dotted_coll \<Rightarrow> 's dotted_coll result" where
  "extend_rule env rng prevDottedRule coll =
     (let relEndPos = GetEndPos rng - GetStartPos rng; absEndPos = GetEndPos rng in
      rbind (if IsRoot prevDottedRule then Inr (GetStartPos rng)
             else rbind (GetWordsRange prevDottedRule) (\<lambda>r. Inr (GetEndPos r + 1))) (\<lambda>startPos.
      rbind (if startPos = absEndPos
             then rbind (GetChild (GetLastNode prevDottedRule) (cl_label (le_source env absEndPos))) (\<lambda>node.
                    case node of None \<Rightarrow> Inr coll
                    | Some ch \<Rightarrow> dc_Add (relEndPos + 1)
                                   (DottedRule ch (le_source env absEndPos) prevDottedRule) coll)
             else Inr coll) (\<lambda>coll1.
      if startPos > absEndPos then Inr coll1
      else if startPos = GetStartPos rng \<and> GetEndPos rng > GetStartPos rng
      then ExtendPartialRuleApplication env prevDottedRule startPos (absEndPos - 1) relEndPos coll1
      else ExtendPartialRuleApplication env prevDottedRule startPos absEndPos (relEndPos + 1) coll1)))"

section \<open>The main loop\<close>

text \<open>
  The loop over the expandable rules, to which the body adds: it ends because the node of
  an added rule is below the node of the rule it extends.
\<close>

definition grows :: "'s dotted_rule \<Rightarrow> 's dotted_coll \<Rightarrow> 's dotted_coll \<Rightarrow> bool" where
  "grows prev coll coll' \<longleftrightarrow> (\<exists>rs. dc_expandable coll' = dc_expandable coll @ rs
     \<and> (\<forall>r \<in> set rs. size (GetLastNode r) < size (GetLastNode prev)))"

lemma grows_refl: "grows prev coll coll"
  by (simp add: grows_def)

lemma grows_trans: "grows prev a b \<Longrightarrow> grows prev b c \<Longrightarrow> grows prev a c"
  by (force simp: grows_def)

lemma grows_Add:
  "dc_Add pos (DottedRule ch lab prev) coll = Inr coll' \<Longrightarrow> size ch < size (GetLastNode prev) \<Longrightarrow> grows prev coll coll'"
  by (auto simp: dc_Add_def rbind_eq_Inr grows_def split: if_splits)

lemma size_child:
  "(k, ch) \<in> set (m_sourceTermMap node) \<Longrightarrow> size ch < size node"
  "(k', ch) \<in> set (m_nonTermMap node) \<Longrightarrow> size ch < size node"
proof -
  obtain t n c where node: "node = Node t n c" by (cases node)
  show "(k, ch) \<in> set (m_sourceTermMap node) \<Longrightarrow> size ch < size node"
    using size_list_estimation' [of "(k, ch)" t "size ch" "size_prod (\<lambda>_. 0) size"] by (force simp: node)
  show "(k', ch) \<in> set (m_nonTermMap node) \<Longrightarrow> size ch < size node"
    using size_list_estimation' [of "(k', ch)" n "size ch" "size_prod (\<lambda>_. 0) size"] by (force simp: node)
qed

lemma size_found:
  "um_find eq k (m_sourceTermMap node) = Some ch \<Longrightarrow> size ch < size node"
  "um_find eq' k' (m_nonTermMap node) = Some ch \<Longrightarrow> size ch < size node"
  using um_find_Some_in size_child by metis+

lemma grows_rfold:
  assumes "rfold f xs coll = Inr coll'" "\<And>x u v. x \<in> set xs \<Longrightarrow> f x u = Inr v \<Longrightarrow> grows prev u v"
  shows "grows prev coll coll'"
  using assms(1) by (rule rfold_invariant) (auto intro: grows_refl grows_trans assms(2))

lemma grows_Extend:
  assumes "ExtendPartialRuleApplication env prev s e pos coll = Inr coll'"
  shows "grows prev coll coll'"
proof -
  have pair: "grows prev u v"
    if "rbind (GetChild_nt (GetLastNode prev) src lab) (\<lambda>child. case child of None \<Rightarrow> Inr u
      | Some ch \<Rightarrow> dc_Add pos (DottedRule ch q prev) u) = Inr v" for src lab q u v
    using that by (auto simp: GetChild_nt_def rbind_eq_Inr size_found
      intro: grows_refl grows_Add split: option.splits)
  have child: "grows prev u v"
    if "p \<in> set (m_nonTermMap (GetLastNode prev))"
      "(if B then Inr u else case found of None \<Rightarrow> Inr u
        | Some lab \<Rightarrow> dc_Add pos (DottedRule (snd p) lab prev) u) = Inr v" for p B found u v
  proof -
    have "size (snd p) < size (GetLastNode prev)"
      using that(1) size_child(2) [of "fst p" "snd p"] by simp
    then show ?thesis using that(2) by (auto split: if_splits option.splits intro: grows_refl grows_Add)
  qed
  show ?thesis
    using assms unfolding ExtendPartialRuleApplication_def Let_def
    by (auto split: if_splits simp: grows_refl elim!: grows_rfold intro: pair child)
qed

lemma grows_extend_rule:
  assumes "extend_rule env rng prev coll = Inr coll'"
  shows "grows prev coll coll'"
proof -
  have bind: "grows prev a c'"
    if "rbind r f = Inr c'" "\<And>c. r = Inr c \<Longrightarrow> grows prev a c" "\<And>c. f c = Inr c' \<Longrightarrow> grows prev c c'"
    for r f a c'
    using that by (auto simp: rbind_eq_Inr intro: grows_trans)
  obtain startPos where
    "rbind (if startPos = GetEndPos rng
             then rbind (GetChild (GetLastNode prev) (cl_label (le_source env (GetEndPos rng)))) (\<lambda>node.
                    case node of None \<Rightarrow> Inr coll
                    | Some ch \<Rightarrow> dc_Add (GetEndPos rng - GetStartPos rng + 1)
                                   (DottedRule ch (le_source env (GetEndPos rng)) prev) coll)
             else Inr coll) (\<lambda>coll1.
      if startPos > GetEndPos rng then Inr coll1
      else if startPos = GetStartPos rng \<and> GetEndPos rng > GetStartPos rng
      then ExtendPartialRuleApplication env prev startPos (GetEndPos rng - 1) (GetEndPos rng - GetStartPos rng) coll1
      else ExtendPartialRuleApplication env prev startPos (GetEndPos rng) (GetEndPos rng - GetStartPos rng + 1) coll1)
      = Inr coll'"
    using assms [unfolded extend_rule_def Let_def, THEN rbind_eq_Inr [THEN iffD1]] by blast
  then show ?thesis
    by (rule bind)
      (auto simp: GetChild_def rbind_eq_Inr size_found intro: grows_refl grows_Add grows_Extend
        split: if_splits option.splits)
qed

lemmas rbind_loop_cong [fundef_cong] = rbind_cong

function main_loop :: "'s lookup_env \<Rightarrow> words_range \<Rightarrow> nat \<Rightarrow> 's dotted_coll \<Rightarrow> 's dotted_coll result" where
  "main_loop env rng ind coll =
     (if ind < length (dc_expandable coll)
      then rbind (extend_rule env rng (dc_expandable coll ! ind) coll)
             (\<lambda>coll'. main_loop env rng (Suc ind) coll')
      else Inr coll)"
  by pat_completeness auto

termination
proof (relation "inv_image (mult less_than)
    (\<lambda>(env, rng, ind, coll). mset (map (size \<circ> GetLastNode) (drop ind (dc_expandable coll))))")
  fix env :: "'s lookup_env" and rng ind and coll coll' :: "'s dotted_coll"
  assume ind: "ind < length (dc_expandable coll)"
    and "extend_rule env rng (dc_expandable coll ! ind) coll = Inr coll'"
  then obtain rs where rs: "dc_expandable coll' = dc_expandable coll @ rs"
      "\<forall>r \<in> set rs. size (GetLastNode r) < size (GetLastNode (dc_expandable coll ! ind))"
    using grows_extend_rule by (force simp: grows_def)
  let ?s = "\<lambda>xs. mset (map (size \<circ> GetLastNode) xs)" and ?rest = "drop (Suc ind) (dc_expandable coll)"
  have "(?s ?rest + ?s rs, ?s ?rest + {#size (GetLastNode (dc_expandable coll ! ind))#}) \<in> mult less_than"
    using rs(2) by (intro one_step_implies_mult) auto
  moreover have "drop ind (dc_expandable coll) = dc_expandable coll ! ind # ?rest"
    using ind by (simp add: Cons_nth_drop_Suc)
  ultimately show "((env, rng, Suc ind, coll'), (env, rng, ind, coll)) \<in> inv_image (mult less_than)
      (\<lambda>(env, rng, ind, coll). mset (map (size \<circ> GetLastNode) (drop ind (dc_expandable coll))))"
    using ind rs(1) by simp
qed (simp add: wf_mult)

declare main_loop.simps [simp del]

section \<open>GetChartRuleCollection\<close>

record 's lookup_manager =
  lm_colls :: "'s dotted_coll list"

definition ChartRuleLookupManagerMinSpan :: "nat \<Rightarrow> rule_node \<Rightarrow> 's lookup_manager result" where
  "ChartRuleLookupManagerMinSpan sourceSize rootNode =
     rbind (rmap (\<lambda>ind. dc_Add 0 (InitRule rootNode) (DottedRuleColl (sourceSize - ind + 1)))
              [0..<sourceSize]) (\<lambda>colls. Inr \<lparr>lm_colls = colls\<rparr>)"

definition GetChartRuleCollection ::
  "'s trans_option select \<Rightarrow> 's lookup_env \<Rightarrow> words_range \<Rightarrow> nat
     \<Rightarrow> 's lookup_manager \<times> 's trans_opt_list \<Rightarrow> ('s lookup_manager \<times> 's trans_opt_list) result" where
  "GetChartRuleCollection sel env rng minSpan st =
     (case st of (lm, outColl) \<Rightarrow>
        let relEndPos = GetEndPos rng - GetStartPos rng in
        rbind (array_get (lm_colls lm) (GetStartPos rng)) (\<lambda>dottedRuleCol.
        rbind (main_loop env rng 0 dottedRuleCol) (\<lambda>coll.
        rbind (array_get (dc_coll coll) (relEndPos + 1)) (\<lambda>rules.
        rbind (rfold (output_rule sel env rng minSpan) rules outColl) (\<lambda>out.
        rbind (tol_ShrinkToLimit sel out) (\<lambda>out'.
          Inr (lm\<lparr>lm_colls := (lm_colls lm)[GetStartPos rng := dc_Clear (le_pool env) (relEndPos + 1) coll]\<rparr>,
               out')))))))"

text \<open>
  What an iteration adds. A list of additions at positions, done one after the other:
\<close>

abbreviation dc_adds :: "(nat \<times> 's dotted_rule) list \<Rightarrow> 's dotted_coll \<Rightarrow> 's dotted_coll result" where
  "dc_adds \<equiv> rfold (\<lambda>(pos, rule). dc_Add pos rule)"

abbreviation expandable :: "'s dotted_rule \<Rightarrow> bool" where
  "expandable rule \<equiv> \<not> IsLeaf (GetLastNode rule)"

lemma dc_adds_eq:
  assumes "\<forall>(pos, rule) \<in> set ps. pos < length (dc_coll coll)"
  shows "\<exists>coll'. dc_adds ps coll = Inr coll' \<and> length (dc_coll coll') = length (dc_coll coll)
    \<and> dc_expandable coll' = dc_expandable coll @ filter expandable (map snd ps)
    \<and> (\<forall>i < length (dc_coll coll).
         dc_coll coll' ! i = dc_coll coll ! i @ map snd (filter (\<lambda>p. fst p = i) ps))"
  using assms
proof (induction ps arbitrary: coll)
  case (Cons p ps)
  obtain pos rule where p: "p = (pos, rule)" by fastforce
  let ?c = "coll\<lparr>dc_coll := (dc_coll coll)[pos := dc_coll coll ! pos @ [rule]],
    dc_expandable := (if \<not> IsLeaf (GetLastNode rule) then dc_expandable coll @ [rule] else dc_expandable coll)\<rparr>"
  have "dc_Add pos rule coll = Inr ?c" using Cons.prems p by (simp add: dc_Add_def)
  moreover obtain coll' where coll': "dc_adds ps ?c = Inr coll'" "length (dc_coll coll') = length (dc_coll ?c)"
      "dc_expandable coll' = dc_expandable ?c @ filter expandable (map snd ps)"
      "\<forall>i < length (dc_coll ?c). dc_coll coll' ! i = dc_coll ?c ! i @ map snd (filter (\<lambda>p. fst p = i) ps)"
    using Cons.IH [of ?c] Cons.prems by fastforce
  ultimately show ?case
    using p by (intro exI [of _ coll']) (auto simp: nth_list_update)
qed simp

lemma dc_adds_success:
  assumes "dc_adds ps coll = Inr coll'"
  shows "dc_expandable coll' = dc_expandable coll @ filter expandable (map snd ps)"
  using assms
proof (induction ps arbitrary: coll)
  case (Cons p ps)
  then show ?case
    by (cases p) (auto simp: rbind_eq_Inr dc_Add_def split: if_splits)
qed simp

section \<open>The additions of one iteration\<close>

definition pair_matches ::
  "'s lookup_env \<Rightarrow> 's dotted_rule \<Rightarrow> nat \<Rightarrow> nat \<Rightarrow> 's dotted_rule list" where
  "pair_matches env prev s e = concat (map (\<lambda>src. concat (map (\<lambda>q.
     case um_find NonTerminalMapKeyEqualityPred (src, cl_label (snd q)) (m_nonTermMap (GetLastNode prev)) of
       None \<Rightarrow> [] | Some ch \<Rightarrow> [DottedRule ch (snd q) prev]) (le_targets env s e))) (le_labelSet env s e))"

definition child_matches ::
  "'s lookup_env \<Rightarrow> 's dotted_rule \<Rightarrow> nat \<Rightarrow> nat \<Rightarrow> 's dotted_rule list" where
  "child_matches env prev s e = concat (map (\<lambda>p.
     if \<not> list_ex (NonTerminalEqualityPred (fst (fst p))) (le_labelSet env s e) then []
     else case label_Find (le_targets env s e) (snd (fst p)) of
            None \<Rightarrow> [] | Some lab \<Rightarrow> [DottedRule (snd p) lab prev]) (m_nonTermMap (GetLastNode prev)))"

definition nonterm_matches ::
  "'s lookup_env \<Rightarrow> 's dotted_rule \<Rightarrow> nat \<Rightarrow> nat \<Rightarrow> 's dotted_rule list" where
  "nonterm_matches env prev s e =
     (let nonTermMap = m_nonTermMap (GetLastNode prev) in
      if length nonTermMap = 0 then []
      else if length (le_labelSet env s e) * length (le_targets env s e) \<le> length nonTermMap * 2
      then pair_matches env prev s e else child_matches env prev s e)"

text \<open>The labels of a span are non-terminals.\<close>

definition nonterm_labels :: "'s lookup_env \<Rightarrow> nat \<Rightarrow> nat \<Rightarrow> bool" where
  "nonterm_labels env s e \<longleftrightarrow> list_all IsNonTerminal (le_labelSet env s e)
     \<and> list_all (\<lambda>q. IsNonTerminal (cl_label (snd q))) (le_targets env s e)"

lemma rfold_adds_concat:
  assumes "\<And>x coll. x \<in> set xs \<Longrightarrow> f x coll = dc_adds (map (Pair pos) (h x)) coll"
  shows "rfold f xs coll = dc_adds (map (Pair pos) (concat (map h xs))) coll"
proof -
  have "rfold f xs coll = dc_adds (concat (map (\<lambda>x. map (Pair pos) (h x)) xs)) coll"
    using assms by (intro rfold_concat) simp
  then show ?thesis by (simp add: map_concat comp_def)
qed

lemma Extend_eq:
  assumes "nonterm_labels env s e"
  shows "ExtendPartialRuleApplication env prev s e pos coll
    = dc_adds (map (Pair pos) (nonterm_matches env prev s e)) coll"
proof -
  let ?node = "GetLastNode prev"
  have combos: "rfold (\<lambda>q coll.
        rbind (GetChild_nt ?node src (cl_label (snd q))) (\<lambda>child.
          case child of None \<Rightarrow> Inr coll
          | Some ch \<Rightarrow> dc_Add pos (DottedRule ch (snd q) prev) coll)) (le_targets env s e) coll
      = dc_adds (map (Pair pos) (concat (map (\<lambda>q.
          case um_find NonTerminalMapKeyEqualityPred (src, cl_label (snd q)) (m_nonTermMap ?node) of
            None \<Rightarrow> [] | Some ch \<Rightarrow> [DottedRule ch (snd q) prev]) (le_targets env s e)))) coll"
    if "IsNonTerminal src" for src coll
    using assms that
    by (intro rfold_adds_concat)
      (force simp: GetChild_nt_def nonterm_labels_def list_all_iff rbind_def split: option.splits sum.splits)
  have pairs: "rfold (\<lambda>src. rfold (\<lambda>q coll.
        rbind (GetChild_nt ?node src (cl_label (snd q))) (\<lambda>child.
          case child of None \<Rightarrow> Inr coll
          | Some ch \<Rightarrow> dc_Add pos (DottedRule ch (snd q) prev) coll)) (le_targets env s e))
        (le_labelSet env s e) coll
      = dc_adds (map (Pair pos) (pair_matches env prev s e)) coll"
    unfolding pair_matches_def using assms
    by (intro rfold_adds_concat combos) (auto simp: nonterm_labels_def list_all_iff)
  have children: "rfold (\<lambda>p coll.
        if \<not> list_ex (NonTerminalEqualityPred (fst (fst p))) (le_labelSet env s e) then Inr coll
        else case label_Find (le_targets env s e) (snd (fst p)) of
               None \<Rightarrow> Inr coll
             | Some lab \<Rightarrow> dc_Add pos (DottedRule (snd p) lab prev) coll) (m_nonTermMap ?node) coll
      = dc_adds (map (Pair pos) (child_matches env prev s e)) coll"
    unfolding child_matches_def
    by (intro rfold_adds_concat) (auto simp: rbind_def split: option.splits sum.splits)
  show ?thesis
    using pairs children by (simp add: ExtendPartialRuleApplication_def nonterm_matches_def Let_def)
qed

section \<open>Both searches find the same children\<close>

text \<open>
  The labels of a span as ChartCellLabelSet keeps them: one label for each key, and the key
  is the label's word.
\<close>

definition wf_targets :: "'s label_set \<Rightarrow> bool" where
  "wf_targets tgts \<longleftrightarrow> nonterms.distinct_map tgts
     \<and> (\<forall>(w, lab) \<in> set tgts. NonTerminalEqualityPred w (cl_label lab))"

text \<open>The rules a span's labels allow, without regard to the way they are searched for.\<close>

definition matching ::
  "'s lookup_env \<Rightarrow> 's dotted_rule \<Rightarrow> nat \<Rightarrow> nat \<Rightarrow> 's dotted_rule set" where
  "matching env prev s e = {DottedRule ch lab prev | ch lab. \<exists>src \<in> set (le_labelSet env s e).
     lab \<in> snd ` set (le_targets env s e)
     \<and> um_find NonTerminalMapKeyEqualityPred (src, cl_label lab) (m_nonTermMap (GetLastNode prev)) = Some ch}"

lemma set_pair_matches: "set (pair_matches env prev s e) = matching env prev s e"
proof
  show "set (pair_matches env prev s e) \<subseteq> matching env prev s e"
  proof
    fix r
    assume "r \<in> set (pair_matches env prev s e)"
    then obtain src q where "src \<in> set (le_labelSet env s e)" "q \<in> set (le_targets env s e)"
      "r \<in> set (case um_find NonTerminalMapKeyEqualityPred (src, cl_label (snd q))
          (m_nonTermMap (GetLastNode prev)) of None \<Rightarrow> [] | Some ch \<Rightarrow> [DottedRule ch (snd q) prev])"
      by (auto simp: pair_matches_def)
    then show "r \<in> matching env prev s e"
      by (auto simp: matching_def split: option.splits)
  qed
  show "matching env prev s e \<subseteq> set (pair_matches env prev s e)"
  proof
    fix r
    assume "r \<in> matching env prev s e"
    then obtain src q ch where "src \<in> set (le_labelSet env s e)" "q \<in> set (le_targets env s e)"
      "um_find NonTerminalMapKeyEqualityPred (src, cl_label (snd q)) (m_nonTermMap (GetLastNode prev)) = Some ch"
      "r = DottedRule ch (snd q) prev"
      by (auto simp: matching_def)
    then show "r \<in> set (pair_matches env prev s e)"
      by (auto simp: pair_matches_def intro!: bexI [of _ src] bexI [of _ q])
  qed
qed

lemma set_child_matches:
  assumes "wf_trie act (GetLastNode prev)" "wf_targets (le_targets env s e)"
  shows "set (child_matches env prev s e) = matching env prev s e"
proof -
  let ?n = "m_nonTermMap (GetLastNode prev)"
  have n: "nonterm_pairs.ok_map ?n" "nonterm_pairs.distinct_map ?n"
    using assms(1) by (auto elim!: wf_trie.cases simp: nonterm_pairs.ok_map_def)
  have tgts: "nonterms.ok_map (le_targets env s e)" "nonterms.distinct_map (le_targets env s e)"
    "\<And>w lab. (w, lab) \<in> set (le_targets env s e) \<Longrightarrow> NonTerminalEqualityPred w (cl_label lab)"
    using assms(2) by (auto simp: wf_targets_def nonterms.ok_map_def)
  have "DottedRule ch lab prev \<in> set (child_matches env prev s e) \<longleftrightarrow> DottedRule ch lab prev \<in> matching env prev s e"
    for ch lab
  proof
    assume "DottedRule ch lab prev \<in> set (child_matches env prev s e)"
    then obtain a b src where ab: "((a, b), ch) \<in> set ?n" "src \<in> set (le_labelSet env s e)"
        "NonTerminalEqualityPred a src" "label_Find (le_targets env s e) b = Some lab"
      by (auto simp: child_matches_def list_ex_iff split: if_splits option.splits)
    obtain w where w: "(w, lab) \<in> set (le_targets env s e)" "NonTerminalEqualityPred b w"
      using ab(4) um_find_Some_in [of NonTerminalEqualityPred b "le_targets env s e" lab]
      by (auto simp: label_Find_def)
    have "NonTerminalMapKeyEqualityPred (src, cl_label lab) (a, b)"
      using ab(3) w(2) tgts(3) [OF w(1)] by (simp add: NonTerminalEqualityPred_def)
    then have "um_find NonTerminalMapKeyEqualityPred (src, cl_label lab) ?n = Some ch"
      using nonterm_pairs.find_unique [OF n _ ab(1)] by simp
    then show "DottedRule ch lab prev \<in> matching env prev s e"
      using ab(2) w(1) by (force simp: matching_def)
  next
    assume "DottedRule ch lab prev \<in> matching env prev s e"
    then obtain src w where src: "src \<in> set (le_labelSet env s e)" "(w, lab) \<in> set (le_targets env s e)"
        "um_find NonTerminalMapKeyEqualityPred (src, cl_label lab) ?n = Some ch"
      by (auto simp: matching_def)
    obtain a b where ab: "((a, b), ch) \<in> set ?n" "NonTerminalMapKeyEqualityPred (src, cl_label lab) (a, b)"
      using um_find_Some_in [OF src(3)] by auto
    have "NonTerminalEqualityPred b w" "NonTerminalEqualityPred a src"
      using ab(2) tgts(3) [OF src(2)] by (auto simp: NonTerminalEqualityPred_def split: if_splits)
    then have "label_Find (le_targets env s e) b = Some lab"
      using nonterms.find_unique [OF tgts(1,2) _ src(2)] by (simp add: label_Find_def)
    then show "DottedRule ch lab prev \<in> set (child_matches env prev s e)"
      using ab(1) src(1) \<open>NonTerminalEqualityPred a src\<close>
      by (force simp: child_matches_def list_ex_iff intro!: bexI [of _ "((a, b), ch)"])
  qed
  moreover have "\<exists>ch lab. r = DottedRule ch lab prev" if "r \<in> set (child_matches env prev s e)" for r
    using that by (auto simp: child_matches_def split: if_splits option.splits)
  moreover have "\<exists>ch lab. r = DottedRule ch lab prev" if "r \<in> matching env prev s e" for r
    using that by (auto simp: matching_def)
  ultimately show ?thesis by blast
qed

lemma set_nonterm_matches:
  assumes "wf_trie act (GetLastNode prev)" "wf_targets (le_targets env s e)"
  shows "set (nonterm_matches env prev s e) = matching env prev s e"
proof (cases "m_nonTermMap (GetLastNode prev) = []")
  case True
  then show ?thesis by (simp add: nonterm_matches_def matching_def)
next
  case False
  then show ?thesis
    using set_pair_matches [of env prev s e] set_child_matches [OF assms]
    by (simp add: nonterm_matches_def Let_def)
qed

section \<open>The rules of a span\<close>

text \<open>
  A partial rule over a start position, as a derivation: each symbol is the next source
  word or a non-terminal of a span that begins where the rule has come to. The number is
  the number of words covered.
\<close>

inductive derives :: "'s lookup_env \<Rightarrow> rule_node \<Rightarrow> nat \<Rightarrow> nat \<Rightarrow> 's dotted_rule \<Rightarrow> bool"
  for env :: "'s lookup_env" and top_node :: rule_node and start :: nat where
  d_init: "derives env top_node start 0 (InitRule top_node)"
| d_word: "derives env top_node start j r
    \<Longrightarrow> um_find TerminalEqualityPred (cl_label (le_source env (start + j))) (m_sourceTermMap (GetLastNode r)) = Some ch
    \<Longrightarrow> derives env top_node start (Suc j) (DottedRule ch (le_source env (start + j)) r)"
| d_nonterm: "derives env top_node start j r \<Longrightarrow> j < m \<Longrightarrow> r' \<in> matching env r (start + j) (start + m - 1)
    \<Longrightarrow> derives env top_node start m r'"

inductive_cases derives_DottedE: "derives env top_node start j (DottedRule ch lab r)"
inductive_cases derives_InitE: "derives env top_node start j (InitRule node)"

text \<open>
  Well-formed input: words are terminals and labels non-terminals, with the coverage of
  their cells; the source labels of a span are a set (NonTerminalSet).
\<close>

definition distinct_labels :: "word list \<Rightarrow> bool" where
  "distinct_labels labels \<longleftrightarrow> sorted_wrt (\<lambda>a b. \<not> NonTerminalEqualityPred a b) labels"

definition wf_env :: "'s lookup_env \<Rightarrow> nat \<Rightarrow> bool" where
  "wf_env env n \<longleftrightarrow>
     (\<forall>i < n. \<not> IsNonTerminal (cl_label (le_source env i)) \<and> cl_coverage (le_source env i) = WordsRange i i) \<and>
     (\<forall>s e. s \<le> e \<and> e < n \<longrightarrow> nonterm_labels env s e \<and> distinct_labels (le_labelSet env s e) \<and> wf_targets (le_targets env s e) \<and>
        (\<forall>lab \<in> snd ` set (le_targets env s e). cl_coverage lab = WordsRange s e))"

text \<open>A rule that consists of one non-terminal.\<close>

fun unary :: "'s dotted_rule \<Rightarrow> bool" where
  "unary (InitRule _) \<longleftrightarrow> False"
| "unary (DottedRule _ lab prev) \<longleftrightarrow> IsNonTerminal (cl_label lab) \<and> IsRoot prev"

definition next_pos :: "nat \<Rightarrow> 's dotted_rule \<Rightarrow> nat" where
  "next_pos start r = (if IsRoot r then start
     else case GetWordsRange r of Inl _ \<Rightarrow> 0 | Inr rng \<Rightarrow> GetEndPos rng + 1)"

lemma matchingE:
  assumes "r' \<in> matching env r s e"
  obtains ch lab where "r' = DottedRule ch lab r" "lab \<in> snd ` set (le_targets env s e)"
    "(\<exists>k. (k, ch) \<in> set (m_nonTermMap (GetLastNode r)))"
  using assms by (auto simp: matching_def dest!: um_find_Some_in)

lemma derives_facts:
  assumes "derives env top_node start j r" "wf_env env n" "start + j \<le> n" "wf_trie act top_node"
  shows "next_pos start r = start + j" "IsRoot r \<longleftrightarrow> j = 0" "wf_trie act (GetLastNode r)"
    "j > 0 \<Longrightarrow> \<exists>s. GetWordsRange r = Inr (WordsRange s (start + j - 1))"
proof -
  have "next_pos start r = start + j \<and> (IsRoot r \<longleftrightarrow> j = 0) \<and> wf_trie act (GetLastNode r)
      \<and> (j > 0 \<longrightarrow> (\<exists>s. GetWordsRange r = Inr (WordsRange s (start + j - 1))))"
    using assms
  proof (induction rule: derives.induct)
    case (d_word j r ch)
    then have "wf_trie act ch"
      by (auto elim!: wf_trie.cases [of act "GetLastNode r"] dest!: um_find_Some_in)
    then show ?case using d_word by (auto simp: wf_env_def next_pos_def)
  next
    case (d_nonterm j r m r')
    obtain ch lab k where r': "r' = DottedRule ch lab r" "(k, ch) \<in> set (m_nonTermMap (GetLastNode r))"
        "lab \<in> snd ` set (le_targets env (start + j) (start + m - 1))"
      using d_nonterm.hyps(3) by (elim matchingE) blast
    have "wf_trie act (GetLastNode r)" using d_nonterm by simp
    then have "wf_trie act ch" using r'(2) by (cases k) (auto elim!: wf_trie.cases [of act "GetLastNode r"])
    moreover have "cl_coverage lab = WordsRange (start + j) (start + m - 1)"
    proof -
      have "start + j \<le> start + m - 1 \<and> start + m - 1 < n" using d_nonterm.prems(2) d_nonterm.hyps(2) by auto
      then show ?thesis using d_nonterm.prems(1) r'(3) unfolding wf_env_def by blast
    qed
    ultimately show ?case using r'(1) d_nonterm.hyps(2) by (auto simp: next_pos_def)
  qed (auto simp: next_pos_def)
  then show "next_pos start r = start + j" "IsRoot r \<longleftrightarrow> j = 0" "wf_trie act (GetLastNode r)"
    "j > 0 \<Longrightarrow> \<exists>s. GetWordsRange r = Inr (WordsRange s (start + j - 1))" by auto
qed

text \<open>What one iteration of the main loop adds for a rule, at which positions.\<close>

definition additions ::
  "'s lookup_env \<Rightarrow> words_range \<Rightarrow> 's dotted_rule \<Rightarrow> (nat \<times> 's dotted_rule) list" where
  "additions env rng r =
     (let startPos = next_pos (GetStartPos rng) r; absEndPos = GetEndPos rng;
          relEndPos = absEndPos - GetStartPos rng in
      (if startPos = absEndPos
       then case um_find TerminalEqualityPred (cl_label (le_source env absEndPos)) (m_sourceTermMap (GetLastNode r)) of
              None \<Rightarrow> []
            | Some ch \<Rightarrow> [(relEndPos + 1, DottedRule ch (le_source env absEndPos) r)]
       else []) @
      (if startPos > absEndPos then []
       else if startPos = GetStartPos rng \<and> absEndPos > GetStartPos rng
       then map (Pair relEndPos) (nonterm_matches env r startPos (absEndPos - 1))
       else map (Pair (relEndPos + 1)) (nonterm_matches env r startPos absEndPos)))"

lemma extend_rule_eq:
  assumes "IsRoot r \<or> (\<exists>rng'. GetWordsRange r = Inr rng')"
    and "\<not> IsNonTerminal (cl_label (le_source env (GetEndPos rng)))"
    and "\<And>s e. GetStartPos rng \<le> s \<Longrightarrow> s \<le> e \<Longrightarrow> e \<le> GetEndPos rng \<Longrightarrow> nonterm_labels env s e"
    and "GetStartPos rng \<le> next_pos (GetStartPos rng) r" "GetStartPos rng \<le> GetEndPos rng"
  shows "extend_rule env rng r coll = dc_adds (additions env rng r) coll"
proof -
  let ?p = "next_pos (GetStartPos rng) r"
  have start: "(if IsRoot r then Inr (GetStartPos rng)
             else rbind (GetWordsRange r) (\<lambda>r. Inr (GetEndPos r + 1))) = Inr ?p"
    using assms(1) by (auto simp: next_pos_def)
  have word: "(if ?p = GetEndPos rng
             then rbind (GetChild (GetLastNode r) (cl_label (le_source env (GetEndPos rng)))) (\<lambda>node.
                    case node of None \<Rightarrow> Inr coll
                    | Some ch \<Rightarrow> dc_Add (GetEndPos rng - GetStartPos rng + 1)
                                   (DottedRule ch (le_source env (GetEndPos rng)) r) coll)
             else Inr coll)
      = dc_adds (if ?p = GetEndPos rng
          then case um_find TerminalEqualityPred (cl_label (le_source env (GetEndPos rng)))
                 (m_sourceTermMap (GetLastNode r)) of
              None \<Rightarrow> []
            | Some ch \<Rightarrow> [(GetEndPos rng - GetStartPos rng + 1, DottedRule ch (le_source env (GetEndPos rng)) r)]
          else []) coll"
    using assms(2) by (auto simp: GetChild_def rbind_def split: option.splits sum.splits)
  have nonterms: "(if ?p > GetEndPos rng then Inr coll1
      else if ?p = GetStartPos rng \<and> GetEndPos rng > GetStartPos rng
      then ExtendPartialRuleApplication env r ?p (GetEndPos rng - 1) (GetEndPos rng - GetStartPos rng) coll1
      else ExtendPartialRuleApplication env r ?p (GetEndPos rng) (GetEndPos rng - GetStartPos rng + 1) coll1)
      = dc_adds (if ?p > GetEndPos rng then []
       else if ?p = GetStartPos rng \<and> GetEndPos rng > GetStartPos rng
       then map (Pair (GetEndPos rng - GetStartPos rng)) (nonterm_matches env r ?p (GetEndPos rng - 1))
       else map (Pair (GetEndPos rng - GetStartPos rng + 1)) (nonterm_matches env r ?p (GetEndPos rng))) coll1"
    for coll1
  proof (cases "?p > GetEndPos rng")
    case False
    show ?thesis
    proof (cases "?p = GetStartPos rng \<and> GetEndPos rng > GetStartPos rng")
      case True
      then have "nonterm_labels env ?p (GetEndPos rng - 1)" by (intro assms(3)) auto
      then show ?thesis using True by (simp add: Extend_eq)
    next
      case no: False
      then show ?thesis using False Extend_eq [OF assms(3), of ?p "GetEndPos rng"] assms(4) by auto
    qed
  qed simp
  show ?thesis
    unfolding extend_rule_def additions_def Let_def rfold_append start rbind_simps word nonterms
    by (rule refl)
qed

text \<open>
  The main loop, when each iteration adds what A says: in the end the expandable rules are
  closed under A, and every position holds what A adds to it for them.
\<close>

lemma main_loop_eq:
  assumes "\<And>r c. P r \<Longrightarrow> extend_rule env rng r c = dc_adds (A r) c"
    and "\<And>r pos r'. P r \<Longrightarrow> (pos, r') \<in> set (A r) \<Longrightarrow> pos < n \<and> P r'"
    and "\<forall>r \<in> set (dc_expandable coll). P r" "length (dc_coll coll) = n" "ind \<le> length (dc_expandable coll)"
  shows "\<exists>coll'. main_loop env rng ind coll = Inr coll' \<and> length (dc_coll coll') = n
    \<and> (\<forall>r \<in> set (dc_expandable coll'). P r)
    \<and> (\<exists>rs. dc_expandable coll' = dc_expandable coll @ rs)
    \<and> dc_expandable coll' = dc_expandable coll
        @ concat (map (\<lambda>r. filter expandable (map snd (A r))) (drop ind (dc_expandable coll')))
    \<and> (\<forall>i < n. dc_coll coll' ! i = dc_coll coll ! i
        @ concat (map (\<lambda>r. map snd (filter (\<lambda>p. fst p = i) (A r))) (drop ind (dc_expandable coll'))))"
  using assms
proof (induction env rng ind coll rule: main_loop.induct)
  case (1 env rng ind coll)
  note ext = 1(2) and pos = 1(3) and P = 1(4) and len = 1(5) and ind = 1(6)
  show ?case
  proof (cases "ind < length (dc_expandable coll)")
    case False
    then show ?thesis using P len ind by (subst main_loop.simps) simp
  next
    case True
    let ?r = "dc_expandable coll ! ind"
    have Pr: "P ?r" using P True by simp
    have in_range: "\<forall>(pos, rule) \<in> set (A ?r). pos < length (dc_coll coll)"
      using pos [OF Pr] len by auto
    then obtain c1 where c1: "extend_rule env rng ?r coll = Inr c1" "length (dc_coll c1) = n"
        "dc_expandable c1 = dc_expandable coll @ filter expandable (map snd (A ?r))"
        "\<forall>i < n. dc_coll c1 ! i = dc_coll coll ! i @ map snd (filter (\<lambda>p. fst p = i) (A ?r))"
      using dc_adds_eq [OF in_range] ext [OF Pr] len by auto
    have "P r'" if "r' \<in> set (dc_expandable c1)" for r'
      using that c1(3) P pos [OF Pr] by fastforce
    then obtain c' where c': "main_loop env rng (Suc ind) c1 = Inr c'" "length (dc_coll c') = n"
        "\<forall>r \<in> set (dc_expandable c'). P r" "\<exists>rs. dc_expandable c' = dc_expandable c1 @ rs"
        "dc_expandable c' = dc_expandable c1
          @ concat (map (\<lambda>r. filter expandable (map snd (A r))) (drop (Suc ind) (dc_expandable c')))"
        "\<forall>i < n. dc_coll c' ! i = dc_coll c1 ! i
          @ concat (map (\<lambda>r. map snd (filter (\<lambda>p. fst p = i) (A r))) (drop (Suc ind) (dc_expandable c')))"
      using 1(1) [OF True c1(1) ext pos] c1(2,3) True by force
    have "length (dc_expandable c') > ind" "dc_expandable c' ! ind = ?r"
      using c'(4) c1(3) True by (auto simp: nth_append)
    then have drop: "drop ind (dc_expandable c') = ?r # drop (Suc ind) (dc_expandable c')"
      by (metis Cons_nth_drop_Suc)
    have "main_loop env rng ind coll = Inr c'"
      using True c1(1) c'(1) by (subst main_loop.simps) simp
    moreover have "\<exists>rs. dc_expandable c' = dc_expandable coll @ rs" using c'(4) c1(3) by auto
    moreover have "dc_expandable c' = dc_expandable coll
        @ concat (map (\<lambda>r. filter expandable (map snd (A r))) (drop ind (dc_expandable c')))"
      unfolding drop using c'(5) c1(3) by simp
    moreover have "\<forall>i < n. dc_coll c' ! i = dc_coll coll ! i
        @ concat (map (\<lambda>r. map snd (filter (\<lambda>p. fst p = i) (A r))) (drop ind (dc_expandable c')))"
      unfolding drop using c'(6) c1(4) by simp
    ultimately show ?thesis using c'(2,3) by blast
  qed
qed

lemma main_loop_elim:
  assumes "\<forall>r c. P r \<longrightarrow> extend_rule env rng r c = dc_adds (A r) c"
    and "\<forall>r pos r'. P r \<longrightarrow> (pos, r') \<in> set (A r) \<longrightarrow> pos < n \<and> P r'"
    and "\<forall>r \<in> set (dc_expandable coll). P r" "length (dc_coll coll) = n"
  obtains coll' where "main_loop env rng 0 coll = Inr coll'" "length (dc_coll coll') = n"
    "\<forall>r \<in> set (dc_expandable coll'). P r"
    "dc_expandable coll' = dc_expandable coll
        @ concat (map (\<lambda>r. filter expandable (map snd (A r))) (dc_expandable coll'))"
    "\<forall>i < n. dc_coll coll' ! i = dc_coll coll ! i
        @ concat (map (\<lambda>r. map snd (filter (\<lambda>p. fst p = i) (A r))) (dc_expandable coll'))"
proof -
  have "\<exists>coll'. main_loop env rng 0 coll = Inr coll' \<and> length (dc_coll coll') = n
    \<and> (\<forall>r \<in> set (dc_expandable coll'). P r)
    \<and> (\<exists>rs. dc_expandable coll' = dc_expandable coll @ rs)
    \<and> dc_expandable coll' = dc_expandable coll
        @ concat (map (\<lambda>r. filter expandable (map snd (A r))) (drop 0 (dc_expandable coll')))
    \<and> (\<forall>i < n. dc_coll coll' ! i = dc_coll coll ! i
        @ concat (map (\<lambda>r. map snd (filter (\<lambda>p. fst p = i) (A r))) (drop 0 (dc_expandable coll'))))"
    by (rule main_loop_eq [where P = P]) (use assms in blast)+
  then show ?thesis unfolding drop_0 by (elim exE conjE) (rule that)
qed

text \<open>
  While a span is processed, its own cell is still empty; the cells of shorter spans are
  complete.
\<close>

definition current :: "'s lookup_env \<Rightarrow> nat \<Rightarrow> nat \<Rightarrow> 's lookup_env" where
  "current env start k =
     env\<lparr>le_targets := (\<lambda>s e. if s = start \<and> e = k then [] else le_targets env s e)\<rparr>"

lemma current_simps [simp]:
  "le_source (current env start k) = le_source env"
  "le_labelSet (current env start k) = le_labelSet env"
  "le_clauseMode (current env start k) = le_clauseMode env"
  "le_clauseBounds (current env start k) = le_clauseBounds env"
  "le_pool (current env start k) = le_pool env"
  "le_targets (current env start k) s e = (if s = start \<and> e = k then [] else le_targets env s e)"
  by (simp_all add: current_def)

lemma wf_current: "wf_env env n \<Longrightarrow> wf_env (current env start k) n"
  by (simp add: wf_env_def nonterm_labels_def wf_targets_def)

lemma matching_current:
  "matching (current env start k) r s e = (if s = start \<and> e = k then {} else matching env r s e)"
  by (simp add: matching_def)

text \<open>The extension of a rule by the source word of a position.\<close>

definition word_extension :: "'s lookup_env \<Rightarrow> nat \<Rightarrow> 's dotted_rule \<Rightarrow> 's dotted_rule set" where
  "word_extension env k r = (case um_find TerminalEqualityPred (cl_label (le_source env k)) (m_sourceTermMap (GetLastNode r)) of
     None \<Rightarrow> {} | Some ch \<Rightarrow> {DottedRule ch (le_source env k) r})"

lemma additions_current:
  assumes "derives env top_node start j r" "wf_env env n" "wf_trie act top_node"
    and "j \<le> Suc m" "k = start + m" "k < n"
  shows "set (additions (current env start k) (WordsRange start k) r) =
    (if j = m then Pair (Suc m) ` word_extension env k r else {})
    \<union> (if 0 < j \<and> j \<le> m then Pair (Suc m) ` matching env r (start + j) k else {})
    \<union> (if j = 0 \<and> 0 < m then Pair m ` matching env r start (k - 1) else {})"
proof -
  have j: "start + j \<le> n" using assms(4-6) by simp
  have p: "next_pos start r = start + j" "wf_trie act (GetLastNode r)"
    using derives_facts [OF assms(1,2) j assms(3)] by auto
  have word: "set (if start + j = k
       then case um_find TerminalEqualityPred (cl_label (le_source env k)) (m_sourceTermMap (GetLastNode r)) of
              None \<Rightarrow> []
            | Some ch \<Rightarrow> [(Suc m, DottedRule ch (le_source env k) r)]
       else []) = (if j = m then Pair (Suc m) ` word_extension env k r else {})"
  proof (cases "j = m")
    case True
    then have "start + j = k" using assms(5) by simp
    then show ?thesis unfolding if_P [OF True] if_P [OF \<open>start + j = k\<close>] word_extension_def
      by (cases "um_find TerminalEqualityPred (cl_label (le_source env k)) (m_sourceTermMap (GetLastNode r))")
        simp_all
  next
    case False
    then have "start + j \<noteq> k" using assms(5) by simp
    then show ?thesis using False by simp
  qed
  have nts: "set (nonterm_matches (current env start k) r s e) = matching (current env start k) r s e"
    if "s \<le> e" "e < n" for s e
  proof -
    have "wf_targets (le_targets (current env start k) s e)"
      using that wf_current [OF assms(2), of start k] unfolding wf_env_def by blast
    then show ?thesis by (rule set_nonterm_matches [OF p(2)])
  qed
  consider "j = 0" "m = 0" | "j = 0" "0 < m" | "0 < j" "j \<le> m" | "j = Suc m"
    using assms(4) by linarith
  then show ?thesis
  proof cases
    case 1
    then show ?thesis
      using assms(5,6) p(1) word nts [of k k] by (simp add: additions_def Let_def matching_current)
  next
    case 2
    then have "k - 1 < n" "start \<le> k - 1" "k - 1 \<noteq> k" using assms(5,6) by auto
    then show ?thesis
      using 2 assms(5,6) p(1) word nts [of start "k - 1"] by (simp add: additions_def Let_def matching_current)
  next
    case 3
    obtain q where q: "start + j = q" "next_pos start r = q" using p(1) by blast
    have facts: "\<not> k < q" "q \<noteq> start" "k - start + 1 = Suc m" "q \<le> k" using 3 assms(5) q(1) by auto
    have "additions (current env start k) (WordsRange start k) r
        = (if q = k
           then case um_find TerminalEqualityPred (cl_label (le_source env k)) (m_sourceTermMap (GetLastNode r)) of
                  None \<Rightarrow> [] | Some ch \<Rightarrow> [(Suc m, DottedRule ch (le_source env k) r)]
           else []) @ map (Pair (Suc m)) (nonterm_matches (current env start k) r q k)"
      using facts by (simp add: additions_def Let_def q(2) split: option.splits)
    then have "set (additions (current env start k) (WordsRange start k) r)
        = (if j = m then Pair (Suc m) ` word_extension env k r else {}) \<union> Pair (Suc m) ` matching env r q k"
      using facts(2) by (simp only: set_append set_map word [unfolded q(1)] nts [OF facts(4) assms(6)]
          matching_current simp_thms if_False)
    then show ?thesis using 3 q(1) by simp
  next
    case 4
    then have "next_pos start r = Suc k" "j \<noteq> m" "\<not> j \<le> m" "j \<noteq> 0" using assms(5) p(1) by auto
    then show ?thesis by (simp add: additions_def Let_def)
  qed
qed

text \<open>
  Between the calls for a start position: the expandable rules are those that cover fewer
  than m words and have a continuation in the rule table; of the ones over m - 1 words, those that are a
  single non-terminal have not been found yet.
\<close>

definition lookup_inv :: "'s lookup_env \<Rightarrow> rule_node \<Rightarrow> nat \<Rightarrow> nat \<Rightarrow> nat \<Rightarrow> 's dotted_coll \<Rightarrow> bool" where
  "lookup_inv env top_node start n m coll \<longleftrightarrow>
     length (dc_coll coll) = n - start + 1 \<and>
     (\<forall>i. m \<le> i \<and> i \<le> n - start \<longrightarrow> dc_coll coll ! i = []) \<and>
     set (dc_expandable coll) = {r. \<exists>j<m. derives env top_node start j r
        \<and> \<not> (unary r \<and> j = m - 1) \<and> expandable r}"

lemma derives_0: "derives env top_node start 0 r \<longleftrightarrow> r = InitRule top_node"
proof
  assume "derives env top_node start 0 r"
  then show "r = InitRule top_node" by (cases rule: derives.cases) auto
qed (simp add: d_init)

lemma lookup_inv_init:
  assumes "start < n"
  shows "\<exists>coll. dc_Add 0 (InitRule top_node) (DottedRuleColl (n - start + 1)) = Inr coll
    \<and> lookup_inv env top_node start n 1 coll"
  using assms by (auto simp: dc_Add_def DottedRuleColl_def lookup_inv_def derives_0)

text \<open>A rule over all words of the span extends a rule over fewer.\<close>

lemma derives_SucE:
  assumes "derives env top_node start (Suc m) r"
  obtains (word) ch r1 where "r = DottedRule ch (le_source env (start + m)) r1" "derives env top_node start m r1"
      "um_find TerminalEqualityPred (cl_label (le_source env (start + m))) (m_sourceTermMap (GetLastNode r1)) = Some ch"
    | (nonterm) j r1 where "derives env top_node start j r1" "j \<le> m" "r \<in> matching env r1 (start + j) (start + m)"
  using assms by (cases rule: derives.cases) auto

lemma expandable_nonterm: "r \<in> matching env r1 s e \<Longrightarrow> expandable r1"
  by (auto simp: IsLeaf_def elim!: matchingE)

lemma expandable_word: "um_find eq w (m_sourceTermMap (GetLastNode r1)) = Some ch \<Longrightarrow> expandable r1"
  by (auto simp: IsLeaf_def)

lemma derives_word_ext:
  "derives env top_node start m r \<Longrightarrow> r' \<in> word_extension env (start + m) r \<Longrightarrow> derives env top_node start (Suc m) r'"
  by (auto simp: word_extension_def intro: d_word split: option.splits)

text \<open>What the iterations add are longer derivations.\<close>

lemma additions_derive:
  assumes "derives env top_node start j r" "wf_env env n" "wf_trie act top_node" "j \<le> Suc m" "start + m < n"
    and "(pos, r') \<in> set (additions (current env start (start + m)) (WordsRange start (start + m)) r)"
  shows "pos = Suc m \<and> derives env top_node start (Suc m) r' \<and> (j = m \<and> r' \<in> word_extension env (start + m) r
        \<or> 0 < j \<and> j \<le> m \<and> r' \<in> matching env r (start + j) (start + m))
    \<or> pos = m \<and> 0 < m \<and> j = 0 \<and> r' \<in> matching env r start (start + m - 1) \<and> derives env top_node start m r'"
proof -
  have cases: "pos = Suc m \<and> j = m \<and> r' \<in> word_extension env (start + m) r
      \<or> pos = Suc m \<and> 0 < j \<and> j \<le> m \<and> r' \<in> matching env r (start + j) (start + m)
      \<or> pos = m \<and> j = 0 \<and> 0 < m \<and> r' \<in> matching env r start (start + m - 1)"
    using assms(6) unfolding additions_current [OF assms(1-4) refl assms(5)] by (auto split: if_splits)
  then show ?thesis
    using assms(1) derives_word_ext [of env top_node start m r r']
      d_nonterm [of env top_node start j r "Suc m" r'] d_nonterm [of env top_node start j r m r']
    by auto
qed

lemma word_ext_unary: "\<not> IsNonTerminal (cl_label (le_source env k)) \<Longrightarrow> r' \<in> word_extension env k r \<Longrightarrow> \<not> unary r'"
  by (auto simp: word_extension_def split: option.splits)

lemma matching_unary:
  assumes "r' \<in> matching env r s e" "nonterm_labels env s e"
  shows "unary r' \<longleftrightarrow> IsRoot r"
  using assms by (auto simp: matching_def nonterm_labels_def list_all_iff)

lemma wf_env_labels: "wf_env env n \<Longrightarrow> s \<le> e \<Longrightarrow> e < n \<Longrightarrow> nonterm_labels env s e"
  unfolding wf_env_def by blast

text \<open>
  The call for a span: all rules over fewer words are expandable in the end, and the
  position of the span holds exactly the rules that derive it, single non-terminals apart.
\<close>

lemma lookup_closed:
  assumes wf: "wf_env env n" "wf_trie act top_node" "start + m < n"
    and X: "{r. \<exists>j\<le>m. derives env top_node start j r \<and> \<not> (unary r \<and> j = m) \<and> expandable r} \<subseteq> X"
    and "\<And>r r' pos. r \<in> X \<Longrightarrow> (pos, r') \<in> set (additions (current env start (start + m)) (WordsRange start (start + m)) r)
      \<Longrightarrow> expandable r' \<Longrightarrow> r' \<in> X"
    and r: "derives env top_node start j r" "j \<le> m" "expandable r"
  shows "r \<in> X"
proof (cases "unary r \<and> j = m")
  case True
  then have u: "unary r" "derives env top_node start m r" using r(1) by auto
  then obtain m' where m': "m = Suc m'" by (cases m) (auto simp: derives_0)
  obtain j' r0 where j': "derives env top_node start j' r0" "j' \<le> m'" "r \<in> matching env r0 (start + j') (start + m')"
    using u(2) [unfolded m']
  proof (cases rule: derives_SucE)
    case (word ch r1)
    then show ?thesis using u(1) wf(1,3) m' by (auto simp: wf_env_def)
  qed (use that in blast)
  have "start + j' \<le> start + m'" "start + m' < n" using j'(2) wf(3) m' by auto
  then have "IsRoot r0" using u(1) matching_unary [OF j'(3)] wf_env_labels [OF wf(1)] by blast
  then have "j' = 0" using derives_facts(2) [OF j'(1) wf(1) _ wf(2)] j'(2) wf(3) m' by simp
  then have match: "r \<in> matching env r0 start (start + m - 1)" using j'(3) m' by simp
  have "\<not> (unary r0 \<and> j' = m)" using \<open>IsRoot r0\<close> by (cases r0) auto
  then have "r0 \<in> {r. \<exists>j\<le>m. derives env top_node start j r \<and> \<not> (unary r \<and> j = m) \<and> expandable r}"
    using j'(1,2) m' expandable_nonterm [OF j'(3)] by (intro CollectI exI [of _ j']) simp
  then have "r0 \<in> X" using X by blast
  moreover have "Pair m r \<in> set (additions (current env start (start + m)) (WordsRange start (start + m)) r0)"
    unfolding additions_current [OF j'(1) wf(1,2) le_SucI [OF le_trans [OF j'(2) le_SucI [OF order_refl, of m', folded m']]] refl wf(3)]
    using \<open>j' = 0\<close> match m' by auto
  ultimately show ?thesis using assms(5) r(3) by blast
next
  case False
  then show ?thesis using X r by blast
qed

lemma closed_list:
  assumes "ys = es @ concat (map f ys)"
  shows "x \<in> set ys \<longleftrightarrow> x \<in> set es \<or> (\<exists>y \<in> set ys. x \<in> set (f y))"
proof -
  have "x \<in> set ys \<longleftrightarrow> x \<in> set (es @ concat (map f ys))" by (rule arg_cong [OF assms])
  also have "\<dots> \<longleftrightarrow> x \<in> set es \<or> (\<exists>y \<in> set ys. x \<in> set (f y))"
    unfolding set_append set_concat set_map by blast
  finally show ?thesis .
qed

lemma in_filter_snd: "x \<in> set (filter P (map snd ps)) \<longleftrightarrow> (\<exists>pos. (pos, x) \<in> set ps \<and> P x)"
  by force

lemma in_map_snd_filter: "x \<in> set (map snd (filter (\<lambda>p. fst p = i) ps)) \<longleftrightarrow> (i, x) \<in> set ps"
  by force

text \<open>What the main loop needs: the iterations add what additions says, within the bounds.\<close>

lemma extend_rule_additions:
  assumes "derives env top_node start j r" "j \<le> Suc m"
    and wf: "wf_env env n" "wf_trie act top_node" "start + m < n"
  shows "extend_rule (current env start (start + m)) (WordsRange start (start + m)) r c
    = dc_adds (additions (current env start (start + m)) (WordsRange start (start + m)) r) c"
proof -
  note facts = derives_facts [OF assms(1) wf(1) _ wf(2)]
  have "nonterm_labels (current env start (start + m)) s e" if "s \<le> e" "e \<le> start + m" for s e
    using wf_env_labels [OF wf_current [OF wf(1)]] that wf(3) by simp
  moreover have "\<not> IsNonTerminal (cl_label (le_source env (start + m)))"
    using wf(1,3) by (simp add: wf_env_def)
  moreover have "IsRoot r \<or> (\<exists>rng'. GetWordsRange r = Inr rng')" "start \<le> next_pos start r"
    using facts assms(2) wf(3) by auto
  ultimately show ?thesis by (intro extend_rule_eq) auto
qed

lemma additions_bounds:
  assumes "derives env top_node start j r" "j \<le> Suc m"
    and wf: "wf_env env n" "wf_trie act top_node" "start + m < n"
    and "(pos, r') \<in> set (additions (current env start (start + m)) (WordsRange start (start + m)) r)"
  shows "pos < n - start + 1 \<and> (\<exists>j \<le> Suc m. derives env top_node start j r')"
proof -
  have "pos = Suc m \<and> derives env top_node start (Suc m) r' \<or> pos = m \<and> derives env top_node start m r'"
    using additions_derive [OF assms(1) wf(1,2) assms(2) wf(3) assms(6)] by blast
  moreover have "Suc m < n - start + 1" "m \<le> Suc m" using wf(3) by simp_all
  ultimately show ?thesis by (metis Suc_lessD order_refl)
qed

text \<open>The rules added for the span are not single non-terminals.\<close>

lemma additions_span:
  assumes "derives env top_node start j r" "j \<le> Suc m"
    and wf: "wf_env env n" "wf_trie act top_node" "start + m < n"
    and "(Suc m, r') \<in> set (additions (current env start (start + m)) (WordsRange start (start + m)) r)"
  shows "derives env top_node start (Suc m) r' \<and> \<not> unary r'"
proof -
  from additions_derive [OF assms(1) wf(1,2) assms(2) wf(3) assms(6)]
  have d: "derives env top_node start (Suc m) r'" and "r' \<in> word_extension env (start + m) r
      \<or> 0 < j \<and> j \<le> m \<and> r' \<in> matching env r (start + j) (start + m)" by auto
  then consider "r' \<in> word_extension env (start + m) r" | "0 < j" "j \<le> m" "r' \<in> matching env r (start + j) (start + m)"
    by blast
  then have "\<not> unary r'"
  proof cases
    case 1
    have "\<not> IsNonTerminal (cl_label (le_source env (start + m)))" using wf(1,3) by (simp add: wf_env_def)
    then show ?thesis using 1 by (rule word_ext_unary)
  next
    case 2
    then have "\<not> IsRoot r" using derives_facts(2) [OF assms(1) wf(1) _ wf(2)] wf(3) by simp
    then show ?thesis using matching_unary [OF 2(3)] wf_env_labels [OF wf(1)] 2(2) wf(3) by simp
  qed
  then show ?thesis using d by blast
qed

text \<open>Every rule of the span is added for one of the rules over fewer words.\<close>

lemma span_complete:
  assumes wf: "wf_env env n" "wf_trie act top_node" "start + m < n"
    and X: "\<forall>j r. derives env top_node start j r \<longrightarrow> j \<le> m \<longrightarrow> expandable r \<longrightarrow> r \<in> X"
    and r': "derives env top_node start (Suc m) r'" "\<not> unary r'"
  shows "\<exists>r \<in> X. (Suc m, r') \<in> set (additions (current env start (start + m)) (WordsRange start (start + m)) r)"
proof -
  have in_A: "(Suc m, r') \<in> set (additions (current env start (start + m)) (WordsRange start (start + m)) r)"
    if "derives env top_node start j r" "j = m \<and> r' \<in> word_extension env (start + m) r
      \<or> 0 < j \<and> j \<le> m \<and> r' \<in> matching env r (start + j) (start + m)" for j r r'
  proof -
    have "j \<le> Suc m" using that(2) by auto
    from additions_current [OF that(1) wf(1,2) this refl wf(3)] show ?thesis
      using that(2) by (elim disjE) simp_all
  qed
  show ?thesis
    using r'(1)
  proof (cases rule: derives_SucE)
    case (word ch r1)
    then have "r1 \<in> X" using X word(2) expandable_word [OF word(3)] by blast
    moreover have "r' \<in> word_extension env (start + m) r1" using word by (simp add: word_extension_def)
    ultimately show ?thesis using in_A [OF word(2)] by blast
  next
    case (nonterm j r1)
    have "\<not> IsRoot r1" using matching_unary [OF nonterm(3)] wf_env_labels [OF wf(1)] nonterm(2) wf(3) r'(2) by simp
    then have "0 < j" using derives_facts(2) [OF nonterm(1) wf(1) _ wf(2)] nonterm(2) wf(3) by simp
    moreover have "r1 \<in> X" using X nonterm(1,2) expandable_nonterm [OF nonterm(3)] by blast
    ultimately show ?thesis using in_A [OF nonterm(1)] nonterm(2,3) by blast
  qed
qed

text \<open>The rules that are expandable in the end.\<close>

lemma expandable_closed:
  assumes wf: "wf_env env n" "wf_trie act top_node" "start + m < n"
    and old: "es = {r. \<exists>j \<le> m. derives env top_node start j r \<and> \<not> (unary r \<and> j = m) \<and> expandable r}"
    and P: "\<forall>r \<in> X. \<exists>j \<le> Suc m. derives env top_node start j r"
    and X: "\<forall>r'. r' \<in> X \<longleftrightarrow> r' \<in> es \<or> (\<exists>r \<in> X. \<exists>pos. (pos, r') \<in> set (additions (current env start (start + m))
      (WordsRange start (start + m)) r) \<and> expandable r')"
    and closed: "\<forall>j r. derives env top_node start j r \<longrightarrow> j \<le> m \<longrightarrow> expandable r \<longrightarrow> r \<in> X"
  shows "X = {r. \<exists>j \<le> Suc m. derives env top_node start j r \<and> \<not> (unary r \<and> j = Suc m) \<and> expandable r}"
proof (intro set_eqI iffI CollectI)
  fix r'
  assume "r' \<in> X"
  then consider "r' \<in> es" | r pos where "r \<in> X"
      "(pos, r') \<in> set (additions (current env start (start + m)) (WordsRange start (start + m)) r)" "expandable r'"
    using X by blast
  then show "\<exists>j \<le> Suc m. derives env top_node start j r' \<and> \<not> (unary r' \<and> j = Suc m) \<and> expandable r'"
  proof cases
    case 1
    then obtain j where "j \<le> m" "derives env top_node start j r'" "expandable r'" using old by blast
    then show ?thesis by (intro exI [of _ j]) simp
  next
    case 2
    obtain j where j: "derives env top_node start j r" "j \<le> Suc m" using P 2(1) by blast
    from additions_derive [OF j(1) wf(1,2) j(2) wf(3) 2(2)]
    consider "pos = Suc m" | "derives env top_node start m r'" by blast
    then show ?thesis
    proof cases
      case 1
      then show ?thesis using additions_span [OF j wf] 2(2,3) by blast
    next
      case low: 2
      then show ?thesis using 2(3) by (intro exI [of _ m]) simp
    qed
  qed
next
  fix r'
  assume "r' \<in> {r. \<exists>j \<le> Suc m. derives env top_node start j r \<and> \<not> (unary r \<and> j = Suc m) \<and> expandable r}"
  then obtain j where j: "j \<le> Suc m" "derives env top_node start j r'" "\<not> (unary r' \<and> j = Suc m)" "expandable r'"
    by blast
  show "r' \<in> X"
  proof (cases "j \<le> m")
    case True
    then show ?thesis using closed j(2,4) by blast
  next
    case False
    then have "j = Suc m" using j(1) by simp
    then have "derives env top_node start (Suc m) r'" "\<not> unary r'" using j(2,3) by simp_all
    from span_complete [OF wf closed this]
    show ?thesis using j(4) X by blast
  qed
qed

text \<open>The main loop of a call: the expandable rules and the positions in the end, by what the iterations add.\<close>

lemma loop_equations:
  assumes "lookup_inv env top_node start n (Suc m) coll"
    and wf: "wf_env env n" "wf_trie act top_node" "start + m < n"
  obtains coll' where "main_loop (current env start (start + m)) (WordsRange start (start + m)) 0 coll = Inr coll'"
    "length (dc_coll coll') = n - start + 1" "\<forall>r \<in> set (dc_expandable coll'). \<exists>j \<le> Suc m. derives env top_node start j r"
    "dc_expandable coll' = dc_expandable coll @ concat (map (\<lambda>r. filter expandable
        (map snd (additions (current env start (start + m)) (WordsRange start (start + m)) r))) (dc_expandable coll'))"
    "\<forall>i. Suc m \<le> i \<and> i \<le> n - start \<longrightarrow> dc_coll coll' ! i = concat (map (\<lambda>r. map snd (filter (\<lambda>p. fst p = i)
        (additions (current env start (start + m)) (WordsRange start (start + m)) r))) (dc_expandable coll'))"
proof -
  let ?e = "current env start (start + m)" and ?rng = "WordsRange start (start + m)"
  let ?A = "additions ?e ?rng" and ?P = "\<lambda>r. \<exists>j \<le> Suc m. derives env top_node start j r"
  let ?N = "n - start + 1"
  have len: "length (dc_coll coll) = ?N"
    and empty: "\<forall>i. Suc m \<le> i \<and> i \<le> n - start \<longrightarrow> dc_coll coll ! i = []"
    and exp: "set (dc_expandable coll) = {r. \<exists>j \<le> m. derives env top_node start j r \<and> \<not> (unary r \<and> j = m) \<and> expandable r}"
    using assms(1) by (auto simp: lookup_inv_def less_Suc_eq_le)
  have ext: "\<forall>r c. ?P r \<longrightarrow> extend_rule ?e ?rng r c = dc_adds (?A r) c"
    using extend_rule_additions [OF _ _ wf] by blast
  have add: "\<forall>r pos r'. ?P r \<longrightarrow> (pos, r') \<in> set (?A r) \<longrightarrow> pos < ?N \<and> ?P r'"
    using additions_bounds [OF _ _ wf] by blast
  have P: "\<forall>r \<in> set (dc_expandable coll). ?P r"
    unfolding exp using le_SucI by blast
  obtain coll' where c': "main_loop ?e ?rng 0 coll = Inr coll'" "length (dc_coll coll') = ?N"
      "\<forall>r \<in> set (dc_expandable coll'). ?P r"
      "dc_expandable coll' = dc_expandable coll @ concat (map (\<lambda>r. filter expandable (map snd (?A r))) (dc_expandable coll'))"
      "\<forall>i < ?N. dc_coll coll' ! i = dc_coll coll ! i
        @ concat (map (\<lambda>r. map snd (filter (\<lambda>p. fst p = i) (?A r))) (dc_expandable coll'))"
    by (rule main_loop_elim [where P = ?P and A = ?A, OF ext add P len])
  show ?thesis by (rule that [OF c'(1-4)]) (use c'(5) empty in auto)
qed

lemma lookup_step:
  assumes "lookup_inv env top_node start n (Suc m) coll"
    and wf: "wf_env env n" "wf_trie act top_node" "start + m < n"
  shows "\<exists>coll'. main_loop (current env start (start + m)) (WordsRange start (start + m)) 0 coll = Inr coll'
    \<and> set (dc_coll coll' ! Suc m) = {r. derives env top_node start (Suc m) r \<and> \<not> unary r}
    \<and> lookup_inv env top_node start n (Suc (Suc m)) coll'"
proof -
  let ?e = "current env start (start + m)" and ?rng = "WordsRange start (start + m)"
  let ?A = "additions ?e ?rng"
  have exp: "set (dc_expandable coll) = {r. \<exists>j \<le> m. derives env top_node start j r \<and> \<not> (unary r \<and> j = m) \<and> expandable r}"
    using assms(1) by (auto simp: lookup_inv_def less_Suc_eq_le)
  obtain coll' where c': "main_loop ?e ?rng 0 coll = Inr coll'" "length (dc_coll coll') = n - start + 1"
      "\<forall>r \<in> set (dc_expandable coll'). \<exists>j \<le> Suc m. derives env top_node start j r"
      "dc_expandable coll' = dc_expandable coll @ concat (map (\<lambda>r. filter expandable (map snd (?A r))) (dc_expandable coll'))"
      "\<forall>i. Suc m \<le> i \<and> i \<le> n - start \<longrightarrow> dc_coll coll' ! i = concat (map (\<lambda>r. map snd (filter (\<lambda>p. fst p = i) (?A r))) (dc_expandable coll'))"
    by (rule loop_equations [OF assms])
  let ?X = "set (dc_expandable coll')"
  have X: "r' \<in> ?X \<longleftrightarrow> r' \<in> set (dc_expandable coll) \<or> (\<exists>r \<in> ?X. \<exists>pos. (pos, r') \<in> set (?A r) \<and> expandable r')"
    for r'
    unfolding closed_list [OF c'(4), of r'] in_filter_snd by blast
  have closed: "\<forall>j r. derives env top_node start j r \<longrightarrow> j \<le> m \<longrightarrow> expandable r \<longrightarrow> r \<in> ?X"
  proof (intro allI impI, rule lookup_closed [OF wf])
    show "{r. \<exists>j\<le>m. derives env top_node start j r \<and> \<not> (unary r \<and> j = m) \<and> expandable r} \<subseteq> ?X"
      unfolding exp [symmetric] using X by blast
    show "r' \<in> ?X" if "r \<in> ?X" "(pos, r') \<in> set (?A r)" "expandable r'" for r r' pos
      using X that by blast
  qed
  have at: "set (dc_coll coll' ! i) = {r'. \<exists>r \<in> ?X. (i, r') \<in> set (?A r)}" if "Suc m \<le> i" "i \<le> n - start" for i
  proof (rule set_eqI)
    fix x
    have "dc_coll coll' ! i = concat (map (\<lambda>r. map snd (filter (\<lambda>p. fst p = i) (?A r))) (dc_expandable coll'))"
      using c'(5) that by simp
    then have "x \<in> set (dc_coll coll' ! i) \<longleftrightarrow> (\<exists>r \<in> ?X. x \<in> set (map snd (filter (\<lambda>p. fst p = i) (?A r))))"
      by (simp only: set_concat set_map UN_iff image_image)
    then show "x \<in> set (dc_coll coll' ! i) \<longleftrightarrow> x \<in> {r'. \<exists>r \<in> ?X. (i, r') \<in> set (?A r)}"
      unfolding in_map_snd_filter by simp
  qed
  have new: "derives env top_node start (Suc m) r' \<and> \<not> unary r'" if "r \<in> ?X" "(Suc m, r') \<in> set (?A r)" for r r'
    using c'(3) that additions_span [OF _ _ wf] by blast
  have span: "set (dc_coll coll' ! Suc m) = {r. derives env top_node start (Suc m) r \<and> \<not> unary r}"
    using at [of "Suc m"] new span_complete [OF wf closed] wf(3) by auto
  have "dc_coll coll' ! i = []" if i: "Suc (Suc m) \<le> i" "i \<le> n - start" for i
  proof -
    have "(i, r') \<notin> set (?A r)" if "r \<in> ?X" for r r'
    proof -
      obtain j where j: "derives env top_node start j r" "j \<le> Suc m" using c'(3) \<open>r \<in> ?X\<close> by blast
      show ?thesis using additions_derive [OF j(1) wf(1,2) j(2) wf(3), of i r'] i(1) by auto
    qed
    then show ?thesis using at [of i] i by auto
  qed
  moreover have "?X = {r. \<exists>j \<le> Suc m. derives env top_node start j r \<and> \<not> (unary r \<and> j = Suc m) \<and> expandable r}"
    by (rule expandable_closed [OF wf exp c'(3) _ closed]) (use X in blast)
  ultimately have "lookup_inv env top_node start n (Suc (Suc m)) coll'"
    using c'(2) by (auto simp: lookup_inv_def less_Suc_eq_le)
  then show ?thesis using c'(1) span by blast
qed

section \<open>What a rule contributes\<close>

text \<open>The boundaries of the clauses, two at a time, and the crossing of one pair.\<close>

fun pairs_of :: "int list \<Rightarrow> (int \<times> int) list" where
  "pairs_of (b1 # b2 # bounds) = (b1, b2) # pairs_of bounds"
| "pairs_of _ = []"

definition crossing :: "int \<Rightarrow> int \<Rightarrow> int \<times> int \<Rightarrow> bool" where
  "crossing s e p \<longleftrightarrow> (fst p + 1 \<le> s \<and> s \<le> snd p + 1) \<noteq> (fst p + 1 \<le> e \<and> e \<le> snd p + 1)"

text \<open>How often a rule from s to e is added: once for each clause end it matches, up to the first clause it crosses.\<close>

fun accept_count :: "int \<Rightarrow> int \<Rightarrow> (int \<times> int) list \<Rightarrow> nat" where
  "accept_count s e [] = 0"
| "accept_count s e (p # ps) =
     (if crossing s e p then 0 else (if e = snd p then 1 else 0) + accept_count s e ps)"

abbreviation repeat_add :: "('o \<Rightarrow> 'o result) \<Rightarrow> nat \<Rightarrow> 'o \<Rightarrow> 'o result" where
  "repeat_add add n \<equiv> rfold (\<lambda>_. add) (replicate n ())"

lemma clause_pairs_eq:
  assumes "even (length bounds)"
  shows "clause_pairs add s e ok bounds (c, out) =
    rbind (repeat_add add (if ok \<and> \<not> c then accept_count s e (pairs_of bounds) else 0) out)
      (\<lambda>out'. Inr (c \<or> (\<exists>p \<in> set (pairs_of bounds). crossing s e p), out'))"
  using assms
proof (induction bounds arbitrary: c out rule: pairs_of.induct)
  case (1 b1 b2 bounds)
  have crosses: "(if IsInside s (b1 + 1) (b2 + 1) \<and> \<not> IsInside e (b1 + 1) (b2 + 1)
      \<or> \<not> IsInside s (b1 + 1) (b2 + 1) \<and> IsInside e (b1 + 1) (b2 + 1) then True else c)
      \<longleftrightarrow> crossing s e (b1, b2) \<or> c"
    by (auto simp: IsInside_def crossing_def)
  have match: "MatchesInterval e b2 \<longleftrightarrow> e = b2" by (simp add: MatchesInterval_def)
  have even: "even (length bounds)" using 1(2) by simp
  show ?case
    unfolding clause_pairs.simps Let_def crosses match 1(1) [OF even]
    by (auto simp: rbind_def split: sum.splits)
qed auto

lemma clause_loop_eq:
  assumes "\<forall>bounds \<in> set clauses. even (length bounds)"
  shows "rfold (\<lambda>bounds. clause_pairs add s e ok bounds) clauses (c, out) =
    rbind (repeat_add add (if ok \<and> \<not> c then accept_count s e (concat (map pairs_of clauses)) else 0) out)
      (\<lambda>out'. Inr (c \<or> (\<exists>p \<in> set (concat (map pairs_of clauses)). crossing s e p), out'))"
  using assms
proof (induction clauses arbitrary: ok c out)
  case (Cons bounds clauses)
  have count: "accept_count s e (ps @ qs) = accept_count s e ps
      + (if \<exists>p \<in> set ps. crossing s e p then 0 else accept_count s e qs)" for ps qs
    by (induction ps) auto
  have IH: "rfold (\<lambda>bounds. clause_pairs add s e ok' bounds) clauses (c', out') =
    rbind (repeat_add add (if ok' \<and> \<not> c' then accept_count s e (concat (map pairs_of clauses)) else 0) out')
      (\<lambda>out'. Inr (c' \<or> (\<exists>p \<in> set (concat (map pairs_of clauses)). crossing s e p), out'))" for ok' c' out'
    using Cons by simp
  have "even (length bounds)" using Cons.prems by simp
  then show ?case
    by (auto simp: clause_pairs_eq IH count replicate_add rfold_append rbind_def split: sum.splits)
qed simp

text \<open>The hypothesis lists of the non-terminals of a rule, from left to right.\<close>

fun stacks_of :: "'s dotted_rule \<Rightarrow> 's stack_vec" where
  "stacks_of (InitRule _) = []"
| "stacks_of (DottedRule _ lab prev) = stacks_of prev
     @ (if IsNonTerminal (cl_label lab) then [case cl_stack lab of None \<Rightarrow> [] | Some stack \<Rightarrow> stack] else [])"

fun has_stacks :: "'s dotted_rule \<Rightarrow> bool" where
  "has_stacks (InitRule _) \<longleftrightarrow> True"
| "has_stacks (DottedRule _ lab prev) \<longleftrightarrow> has_stacks prev
     \<and> (IsNonTerminal (cl_label lab) \<longrightarrow> (\<exists>h hs. cl_stack lab = Some (h # hs)))"

lemma rule_stacks_eq: "has_stacks r \<Longrightarrow> rule_stacks r acc = Inr (stacks_of r @ acc)"
  by (induction r acc rule: rule_stacks.induct) auto

lemma stacks_of_nonempty: "has_stacks r \<Longrightarrow> [] \<notin> set (stacks_of r)"
  by (induction r) auto

text \<open>The options a rule over the span from s to e contributes.\<close>

definition times_offered :: "'s lookup_env \<Rightarrow> nat \<Rightarrow> nat \<Rightarrow> nat \<Rightarrow> nat" where
  "times_offered env minSpan s e =
     (if e + 1 - s > minSpan
      then if le_clauseMode env then accept_count (int s) (int e) (concat (map pairs_of (le_clauseBounds env))) else 1
      else 0)"

definition offers_of ::
  "'s lookup_env \<Rightarrow> nat \<Rightarrow> nat \<Rightarrow> nat \<Rightarrow> 's dotted_rule \<Rightarrow> (target_phrase list \<times> 's stack_vec \<times> words_range) list" where
  "offers_of env minSpan s e r = (case m_tpc (GetLastNode r) of None \<Rightarrow> []
     | Some tpc \<Rightarrow> replicate (times_offered env minSpan s e) (tpc, stacks_of r, WordsRange s e))"

lemma repeat_add_adds:
  "repeat_add (\<lambda>out. tol_Add sel out tpc stackVec rng) k out = tol_Adds sel (replicate k (tpc, stackVec, rng)) out"
  unfolding tol_Adds_def
  by (induction k arbitrary: out) (auto simp: rbind_def split: sum.splits)

lemma output_rule_eq:
  assumes "GetWordsRange r = Inr (WordsRange s0 e)" "s \<le> e" "has_stacks r"
    and "\<forall>bounds \<in> set (le_clauseBounds env). even (length bounds)"
  shows "output_rule sel env (WordsRange s e) minSpan r out = tol_Adds sel (offers_of env minSpan s e r) out"
proof -
  have span: "int e - int s + 1 > int minSpan \<longleftrightarrow> e + 1 - s > minSpan" using assms(2) by linarith
  have add: "AddCompletedRule sel r tpc (WordsRange s e) out = tol_Add sel out tpc (stacks_of r) (WordsRange s e)" for tpc out
    by (simp add: AddCompletedRule_def rule_stacks_eq [OF assms(3)])
  show ?thesis
  proof (cases "m_tpc (GetLastNode r)")
    case None
    then show ?thesis
      using assms(1) clause_loop_eq [OF assms(4), of "\<lambda>out. Inr out" "int s" "int e" False False out]
      by (simp add: output_rule_def offers_of_def Let_def tol_Adds_def split: if_splits)
  next
    case (Some tpc)
    then show ?thesis
      using assms(1) clause_loop_eq [OF assms(4), of "\<lambda>out. tol_Add sel out tpc (stacks_of r) (WordsRange s e)"
          "int s" "int e" "minSpan < e + 1 - s" False out]
      by (auto simp: output_rule_def offers_of_def Let_def span add times_offered_def repeat_add_adds
          rbind_def tol_Adds_def split: sum.splits)
  qed
qed

end
