(* ===== verification/LookupCounts.thy ===== *)
theory LookupCounts
  imports RuleLookup
begin

text \<open>
  How often the lookup finds a rule: once for every sequence of children of the rule table that derives it.
  Two children of a node with equal sub-tables are the same value here, so a dotted rule is found once for each of them. Then the
  calls for the spans of a sentence: what each call offers to the list of translation options, with multiplicity.
\<close>

section \<open>Counting\<close>

lemma count_concat: "count (mset (concat xss)) x = sum_list (map (\<lambda>xs. count (mset xs) x) xss)"
  by (induction xss) simp_all

lemma count_concat_from:
  assumes "\<And>r. r \<in> set rs \<Longrightarrow> r \<noteq> p \<Longrightarrow> x \<notin> set (f r)"
  shows "count (mset (concat (map f rs))) x = count (mset rs) p * count (mset (f p)) x"
  using assms
proof (induction rs)
  case (Cons r rs)
  then have "count (mset (f r)) x = (if r = p then count (mset (f p)) x else 0)" by (auto simp: count_eq_zero_iff)
  then show ?case using Cons by simp
qed simp

lemma count_concat_filter:
  assumes "\<And>p. p \<in> set xs \<Longrightarrow> count (mset (f p)) x = (if P p then 1 else 0)"
  shows "count (mset (concat (map f xs))) x = length (filter P xs)"
  using assms by (induction xs) simp_all

lemma length_filter_unique:
  assumes "sorted_wrt (\<lambda>a b. \<not> (P a \<and> P b)) xs"
  shows "length (filter P xs) = (if \<exists>x \<in> set xs. P x then 1 else 0)"
  using assms by (induction xs) (auto simp: filter_empty_conv)

lemma length_filter_disj:
  assumes "\<forall>x \<in> set xs. \<not> (P x \<and> Q x)"
  shows "length (filter (\<lambda>x. P x \<or> Q x) xs) = length (filter P xs) + length (filter Q xs)"
  using assms by (induction xs) auto

lemma count_positions: "count (mset (map snd (filter (\<lambda>p. fst p = i) ps))) x = count (mset ps) (i, x)"
  by (induction ps) auto

lemma count_filtered: "count (mset (filter P xs)) x = (if P x then count (mset xs) x else 0)"
  by (induction xs) auto

lemma count_snd:
  assumes "\<And>j. (j, x) \<in> set ps \<Longrightarrow> j = i"
  shows "count (mset (map snd ps)) x = count (mset ps) (i, x)"
  using assms
proof (induction ps)
  case (Cons p ps)
  have "snd p = x \<Longrightarrow> fst p = i" by (metis Cons.prems list.set_intros(1) prod.collapse)
  then have "snd p = x \<longleftrightarrow> p = (i, x)" by (cases p) auto
  moreover have "count (mset (map snd ps)) x = count (mset ps) (i, x)" by (rule Cons.IH) (rule Cons.prems, simp)
  ultimately show ?case by simp
qed simp

section \<open>The multiplicity of a rule\<close>

text \<open>The children of the node whose keys are a source label of the label's span and the label, and that are a given node.\<close>

definition children_with :: "'s lookup_env \<Rightarrow> 's dotted_rule \<Rightarrow> rule_node \<Rightarrow> 's cell_label \<Rightarrow> nat" where
  "children_with env prev ch lab = length (filter (\<lambda>p. snd p = ch \<and> NonTerminalEqualityPred (snd (fst p)) (cl_label lab)
     \<and> list_ex (NonTerminalEqualityPred (fst (fst p))) (le_labelSet env (GetStartPos (cl_coverage lab)) (GetEndPos (cl_coverage lab))))
     (m_nonTermMap (GetLastNode prev)))"

text \<open>
  The number of sequences of children that lead to a dotted rule: a node has at most one child for a word, and for a label one for
  each source label of the span it has a key for.
\<close>

fun ways :: "'s lookup_env \<Rightarrow> 's dotted_rule \<Rightarrow> nat" where
  "ways env (InitRule _) = 1"
| "ways env (DottedRule ch lab prev) =
     ways env prev * (if IsNonTerminal (cl_label lab) then children_with env prev ch lab else 1)"

lemma children_with_current [simp]: "children_with (current env start k) = children_with env"
  by (simp add: fun_eq_iff children_with_def)

text \<open>The same number, by the source labels.\<close>

lemma source_children:
  fixes nt :: "((word \<times> word) \<times> rule_node) list"
  assumes "distinct_labels labels" "nonterm_pairs.distinct_map nt"
  shows "length (filter (\<lambda>p. snd p = ch \<and> NonTerminalEqualityPred (snd (fst p)) l \<and> list_ex (NonTerminalEqualityPred (fst (fst p))) labels) nt)
    = length (filter (\<lambda>src. um_find NonTerminalMapKeyEqualityPred (src, l) nt = Some ch) labels)"
  using assms(1)
proof (induction labels)
  case (Cons src labels)
  let ?one = "\<lambda>p. snd p = ch \<and> NonTerminalEqualityPred (snd (fst p)) l \<and> NonTerminalEqualityPred (fst (fst p)) src"
  let ?rest = "\<lambda>p. snd p = ch \<and> NonTerminalEqualityPred (snd (fst p)) l \<and> list_ex (NonTerminalEqualityPred (fst (fst p))) labels"
  have ok: "nonterm_pairs.ok_map nt" by (simp add: nonterm_pairs.ok_map_def)
  have key: "NonTerminalMapKeyEqualityPred (src, l) (a, b) \<longleftrightarrow> NonTerminalEqualityPred b l \<and> NonTerminalEqualityPred a src" for a b
    by (auto simp: NonTerminalEqualityPred_def)
  have "sorted_wrt (\<lambda>x y. \<not> (?one x \<and> ?one y)) nt"
    using assms(2) unfolding nonterm_pairs.distinct_map_def
    by (rule sorted_wrt_mono_rel [rotated]) (auto simp: NonTerminalEqualityPred_def)
  then have "length (filter ?one nt) = (if \<exists>x \<in> set nt. ?one x then 1 else 0)" by (rule length_filter_unique)
  also have "(\<exists>x \<in> set nt. ?one x) \<longleftrightarrow> um_find NonTerminalMapKeyEqualityPred (src, l) nt = Some ch"
  proof
    assume "\<exists>x \<in> set nt. ?one x"
    then obtain a b where "((a, b), ch) \<in> set nt" "NonTerminalMapKeyEqualityPred (src, l) (a, b)" using key by auto
    then show "um_find NonTerminalMapKeyEqualityPred (src, l) nt = Some ch"
      using nonterm_pairs.find_unique [OF ok assms(2)] by blast
  next
    assume "um_find NonTerminalMapKeyEqualityPred (src, l) nt = Some ch"
    then obtain a b where "((a, b), ch) \<in> set nt" "NonTerminalMapKeyEqualityPred (src, l) (a, b)"
      using um_find_Some_in [of NonTerminalMapKeyEqualityPred "(src, l)" nt ch] by auto
    then show "\<exists>x \<in> set nt. ?one x" using key by (intro bexI [of _ "((a, b), ch)"]) auto
  qed
  finally have one: "length (filter ?one nt) = (if um_find NonTerminalMapKeyEqualityPred (src, l) nt = Some ch then 1 else 0)" .
  have "\<forall>x \<in> set nt. \<not> (?one x \<and> ?rest x)"
    using Cons.prems by (fastforce simp: distinct_labels_def list_ex_iff NonTerminalEqualityPred_def)
  from length_filter_disj [OF this]
  have "length (filter (\<lambda>x. ?one x \<or> ?rest x) nt) = length (filter ?one nt) + length (filter ?rest nt)" .
  moreover have "(\<lambda>x. ?one x \<or> ?rest x) = (\<lambda>p. snd p = ch \<and> NonTerminalEqualityPred (snd (fst p)) l
      \<and> list_ex (NonTerminalEqualityPred (fst (fst p))) (src # labels))" by (auto simp: fun_eq_iff)
  moreover have "length (filter ?rest nt)
      = length (filter (\<lambda>src. um_find NonTerminalMapKeyEqualityPred (src, l) nt = Some ch) labels)"
    by (rule Cons.IH) (use Cons.prems in \<open>simp add: distinct_labels_def\<close>)
  ultimately show ?case using one by simp
qed simp

text \<open>A label of a span is found by its word, and is there once.\<close>

lemma target_once:
  assumes "wf_targets tgts" "lab \<in> snd ` set tgts"
  shows "label_Find tgts b = Some lab \<longleftrightarrow> NonTerminalEqualityPred b (cl_label lab)"
    and "length (filter (\<lambda>q. snd q = lab) tgts) = 1"
proof -
  have t: "nonterms.ok_map tgts" "nonterms.distinct_map tgts" "\<And>w lab. (w, lab) \<in> set tgts \<Longrightarrow> NonTerminalEqualityPred w (cl_label lab)"
    using assms(1) by (auto simp: wf_targets_def nonterms.ok_map_def)
  obtain w where w: "(w, lab) \<in> set tgts" using assms(2) by auto
  show "label_Find tgts b = Some lab \<longleftrightarrow> NonTerminalEqualityPred b (cl_label lab)"
  proof
    assume "label_Find tgts b = Some lab"
    then obtain w' where "(w', lab) \<in> set tgts" "NonTerminalEqualityPred b w'"
      using um_find_Some_in [of NonTerminalEqualityPred b tgts lab] by (auto simp: label_Find_def)
    then show "NonTerminalEqualityPred b (cl_label lab)" using t(3) by (simp add: NonTerminalEqualityPred_def)
  next
    assume "NonTerminalEqualityPred b (cl_label lab)"
    then have "NonTerminalEqualityPred b w" using t(3) [OF w] by (simp add: NonTerminalEqualityPred_def)
    then show "label_Find tgts b = Some lab"
      using nonterms.find_unique [OF t(1,2) _ w] by (simp add: label_Find_def)
  qed
  have "sorted_wrt (\<lambda>p q. \<not> (snd p = lab \<and> snd q = lab)) tgts"
    using t(2,3) unfolding nonterms.distinct_map_def
    by (rule_tac sorted_wrt_mono_rel [rotated]) (fastforce simp: NonTerminalEqualityPred_def)+
  then show "length (filter (\<lambda>q. snd q = lab) tgts) = 1"
    using w by (subst length_filter_unique) (auto intro: bexI [of _ "(w, lab)"])
qed

text \<open>Both searches find a rule as often as there are such children.\<close>

lemma count_matches:
  assumes wf: "wf_trie act (GetLastNode prev)" "wf_targets (le_targets env s e)" "distinct_labels (le_labelSet env s e)"
    and lab: "lab \<in> snd ` set (le_targets env s e)" "cl_coverage lab = WordsRange s e"
  shows "count (mset (nonterm_matches env prev s e)) (DottedRule ch lab prev) = children_with env prev ch lab"
proof -
  let ?n = "m_nonTermMap (GetLastNode prev)" and ?x = "DottedRule ch lab prev" and ?l = "cl_label lab"
  have n: "nonterm_pairs.distinct_map ?n" using wf(1) by (auto elim!: wf_trie.cases)
  note found = target_once(1) [OF wf(2) lab(1)] and one = target_once(2) [OF wf(2) lab(1)]
  have pairs: "count (mset (pair_matches env prev s e)) ?x
      = length (filter (\<lambda>src. um_find NonTerminalMapKeyEqualityPred (src, ?l) ?n = Some ch) (le_labelSet env s e))"
    unfolding pair_matches_def
  proof (rule count_concat_filter)
    fix src
    let ?f = "\<lambda>q. case um_find NonTerminalMapKeyEqualityPred (src, cl_label (snd q)) ?n of None \<Rightarrow> [] | Some ch \<Rightarrow> [DottedRule ch (snd q) prev]"
    have "count (mset (concat (map ?f (le_targets env s e)))) ?x
        = length (filter (\<lambda>q. snd q = lab \<and> um_find NonTerminalMapKeyEqualityPred (src, ?l) ?n = Some ch) (le_targets env s e))"
      by (rule count_concat_filter) (auto split: option.splits)
    then show "count (mset (concat (map ?f (le_targets env s e)))) ?x
        = (if um_find NonTerminalMapKeyEqualityPred (src, ?l) ?n = Some ch then 1 else 0)"
      using one by simp
  qed
  have "count (mset (child_matches env prev s e)) ?x = children_with env prev ch lab"
    unfolding child_matches_def children_with_def lab(2) words_range.sel
  proof (rule count_concat_filter)
    fix p :: "(word \<times> word) \<times> rule_node"
    obtain a b c where p: "p = ((a, b), c)" by (cases p) auto
    show "count (mset (if \<not> list_ex (NonTerminalEqualityPred (fst (fst p))) (le_labelSet env s e) then []
        else case label_Find (le_targets env s e) (snd (fst p)) of None \<Rightarrow> [] | Some lab \<Rightarrow> [DottedRule (snd p) lab prev])) ?x
      = (if snd p = ch \<and> NonTerminalEqualityPred (snd (fst p)) ?l
          \<and> list_ex (NonTerminalEqualityPred (fst (fst p))) (le_labelSet env s e) then 1 else 0)"
      unfolding p using found [of b] by (cases "label_Find (le_targets env s e) b") auto
  qed
  moreover have "count (mset (pair_matches env prev s e)) ?x = children_with env prev ch lab"
    unfolding pairs children_with_def lab(2) words_range.sel source_children [OF wf(3) n] ..
  moreover have "children_with env prev ch lab = 0" if "?n = []" using that by (simp add: children_with_def)
  ultimately show ?thesis unfolding nonterm_matches_def Let_def by (simp split: if_split)
qed

section \<open>The multiplicities that the main loop finds\<close>

lemma count_map_Pair: "count (image_mset (Pair i) A) (j, x) = (if i = j then count A x else 0)"
  by (induction A) auto

lemma additions_split:
  assumes "GetStartPos rng \<le> next_pos (GetStartPos rng) r"
  obtains i ch W pos N s e where "additions env rng r = W @ map (Pair pos) N"
    "W = [] \<or> W = [(i, DottedRule ch (le_source env (GetEndPos rng)) r)]"
    "N = [] \<or> N = nonterm_matches env r s e \<and> GetStartPos rng \<le> s \<and> s \<le> e \<and> e \<le> GetEndPos rng"
proof -
  let ?s = "next_pos (GetStartPos rng) r" and ?k = "GetEndPos rng"
  let ?W = "if ?s = ?k
       then case um_find TerminalEqualityPred (cl_label (le_source env ?k)) (m_sourceTermMap (GetLastNode r)) of
              None \<Rightarrow> []
            | Some ch \<Rightarrow> [(?k - GetStartPos rng + 1, DottedRule ch (le_source env ?k) r)]
       else []"
  have "\<exists>i ch. ?W = [] \<or> ?W = [(i, DottedRule ch (le_source env ?k) r)]"
    by (cases "um_find TerminalEqualityPred (cl_label (le_source env ?k)) (m_sourceTermMap (GetLastNode r))") simp_all
  then obtain i ch where W: "?W = [] \<or> ?W = [(i, DottedRule ch (le_source env ?k) r)]" by blast
  consider "?k < ?s" | "\<not> ?k < ?s" "?s = GetStartPos rng" "GetStartPos rng < ?k"
    | "\<not> ?k < ?s" "\<not> (?s = GetStartPos rng \<and> GetStartPos rng < ?k)" by blast
  then show ?thesis
  proof cases
    case 1
    show ?thesis by (rule that [of ?W 0 "[]", OF _ W]) (use 1 in \<open>simp_all add: additions_def Let_def\<close>)
  next
    case 2
    show ?thesis
      by (rule that [of ?W "?k - GetStartPos rng" "nonterm_matches env r ?s (?k - 1)", OF _ W])
        (use 2 in \<open>auto simp: additions_def Let_def\<close>)
  next
    case 3
    show ?thesis
      by (rule that [of ?W "?k - GetStartPos rng + 1" "nonterm_matches env r ?s ?k", OF _ W])
        (use 3 assms in \<open>auto simp: additions_def Let_def\<close>)
  qed
qed

text \<open>What an iteration adds for a rule extends the rule, each extension as often as there are children for it.\<close>

lemma additions_count:
  assumes r: "derives env top_node start j r" "j \<le> Suc m"
    and wf: "wf_env env n" "wf_trie act top_node" "start + m < n"
    and x: "(pos, x) \<in> set (additions (current env start (start + m)) (WordsRange start (start + m)) r)"
  shows "\<exists>ch lab. x = DottedRule ch lab r"
    and "ways env x = ways env r * count (mset (additions (current env start (start + m)) (WordsRange start (start + m)) r)) (pos, x)"
proof -
  let ?e = "current env start (start + m)" and ?A = "additions (current env start (start + m)) (WordsRange start (start + m)) r"
  have facts: "next_pos start r = start + j" "wf_trie act (GetLastNode r)" using derives_facts [OF r(1) wf(1) _ wf(2)] r(2) wf(3) by simp_all
  then have "GetStartPos (WordsRange start (start + m)) \<le> next_pos (GetStartPos (WordsRange start (start + m))) r" by simp
  then obtain i ch W pos' N s e where split: "?A = W @ map (Pair pos') N"
      "W = [] \<or> W = [(i, DottedRule ch (le_source ?e (GetEndPos (WordsRange start (start + m)))) r)]"
      "N = [] \<or> N = nonterm_matches ?e r s e \<and> GetStartPos (WordsRange start (start + m)) \<le> s \<and> s \<le> e
        \<and> e \<le> GetEndPos (WordsRange start (start + m))" by (rule additions_split [where env = ?e])
  note split = split(1) split(2,3) [unfolded words_range.sel]
  have word: "\<not> IsNonTerminal (cl_label (le_source ?e (start + m)))" using wf(1,3) by (simp add: wf_env_def)
  have label: "\<exists>ch lab. y = DottedRule ch lab r \<and> IsNonTerminal (cl_label lab) \<and> count (mset N) y = children_with env r ch lab"
    if "y \<in> set N" for y
  proof -
    have N: "N = nonterm_matches ?e r s e" "s \<le> e" "e < n" using split(3) that wf(3) by auto
    have w: "nonterm_labels ?e s e" "distinct_labels (le_labelSet ?e s e)" "wf_targets (le_targets ?e s e)"
        "\<forall>lab \<in> snd ` set (le_targets ?e s e). cl_coverage lab = WordsRange s e"
      using wf_current [OF wf(1), of start "start + m"] N(2,3) unfolding wf_env_def by blast+
    have "y \<in> matching ?e r s e" using that unfolding N(1) set_nonterm_matches [OF facts(2) w(3)] .
    then obtain ch lab where y: "y = DottedRule ch lab r" "lab \<in> snd ` set (le_targets ?e s e)" by (elim matchingE) blast
    moreover have "IsNonTerminal (cl_label lab)" using y(2) w(1) unfolding nonterm_labels_def list_all_iff by blast
    moreover have "cl_coverage lab = WordsRange s e" using y(2) w(4) by blast
    from count_matches [OF facts(2) w(3,2) y(2) this] have "count (mset N) y = children_with env r ch lab"
      unfolding N(1) y(1) by simp
    ultimately show ?thesis by blast
  qed
  show "\<exists>ch lab. x = DottedRule ch lab r" using x split(1,2) label [of x] by auto
  have counts: "count (mset ?A) (pos, x) = count (mset W) (pos, x) + (if pos' = pos then count (mset N) x else 0)"
    by (simp add: split(1) count_map_Pair)
  show "ways env x = ways env r * count (mset ?A) (pos, x)"
  proof (cases "(pos, x) \<in> set W")
    case True
    then have W: "W = [(pos, x)]" "x = DottedRule ch (le_source ?e (start + m)) r" using split(2) by auto
    then have "x \<notin> set N" using label word by fastforce
    then have "count (mset ?A) (pos, x) = 1" unfolding counts using W(1) by (simp add: count_eq_zero_iff)
    then show ?thesis using W(2) word by simp
  next
    case False
    then have "pos' = pos" "x \<in> set N" using x split(1) by auto
    moreover have "count (mset W) (pos, x) = 0" using False by (simp add: count_eq_zero_iff)
    ultimately show ?thesis unfolding counts using label [of x] by auto
  qed
qed

lemma derives_length:
  assumes "derives env top_node start i x" "derives env top_node start j x" "wf_env env n" "wf_trie act top_node" "start + i \<le> n" "start + j \<le> n"
  shows "i = j"
  using derives_facts(1) [OF assms(1,3,5,4)] derives_facts(1) [OF assms(2,3,6,4)] by simp

text \<open>Every expandable rule is there as often as it is derived.\<close>

definition counted :: "'s lookup_env \<Rightarrow> 's dotted_coll \<Rightarrow> bool" where
  "counted env coll \<longleftrightarrow> (\<forall>r \<in> set (dc_expandable coll). count (mset (dc_expandable coll)) r = ways env r)"

text \<open>What is added for a rule at a position derives the words up to there, and on the last but one position it is a single non-terminal.\<close>

lemma additions_extend:
  assumes r: "derives env top_node start j r" "j \<le> Suc m"
    and wf: "wf_env env n" "wf_trie act top_node" "start + m < n"
    and x: "(pos, x) \<in> set (additions (current env start (start + m)) (WordsRange start (start + m)) r)"
  shows "derives env top_node start pos x \<and> m \<le> pos \<and> pos \<le> Suc m \<and> (pos = m \<longrightarrow> unary x)"
proof -
  have "unary x" if "0 < m" "j = 0" "x \<in> matching env r start (start + m - 1)"
    using matching_unary [OF that(3)] wf_env_labels [OF wf(1), of start "start + m - 1"] derives_facts(2) [OF r(1) wf(1) _ wf(2)] that wf(3)
    by simp
  then show ?thesis using additions_derive [OF r(1) wf(1,2) r(2) wf(3) x] by auto
qed

text \<open>An addition comes from one rule only, the one it extends.\<close>

lemma count_additions:
  assumes wf: "wf_env env n" "wf_trie act top_node" "start + m < n"
    and P: "\<forall>r \<in> set E. \<exists>j \<le> Suc m. derives env top_node start j r"
    and f: "\<And>r y. y \<in> set (f r) \<Longrightarrow> \<exists>pos. (pos, y) \<in> set (additions (current env start (start + m)) (WordsRange start (start + m)) r)"
    and r: "r \<in> set E" "(pos, x) \<in> set (additions (current env start (start + m)) (WordsRange start (start + m)) r)"
  shows "count (mset (concat (map f E))) x = count (mset E) r * count (mset (f r)) x"
proof (rule count_concat_from)
  let ?A = "additions (current env start (start + m)) (WordsRange start (start + m))"
  have form: "\<exists>ch lab. x = DottedRule ch lab r'" if r': "r' \<in> set E" "(pos', x) \<in> set (?A r')" for r' pos'
  proof -
    obtain j where "derives env top_node start j r'" "j \<le> Suc m" using P r'(1) by blast
    from additions_count(1) [OF this wf r'(2)] show ?thesis .
  qed
  fix r'
  assume r': "r' \<in> set E" "r' \<noteq> r"
  show "x \<notin> set (f r')"
  proof
    assume "x \<in> set (f r')"
    from f [OF this] form [OF r'(1)] form [OF r] r'(2) show False by auto
  qed
qed

lemma rules_counted:
  assumes inv: "lookup_inv env top_node start n (Suc m) coll" "counted env coll"
    and wf: "wf_env env n" "wf_trie act top_node" "start + m < n"
    and E: "E = dc_expandable coll @ concat (map (\<lambda>r. filter expandable
        (map snd (additions (current env start (start + m)) (WordsRange start (start + m)) r))) E)"
    and P: "\<forall>r \<in> set E. \<exists>j \<le> Suc m. derives env top_node start j r"
    and x: "x \<in> set E"
  shows "count (mset E) x = ways env x"
  using x
proof (induction "size x" arbitrary: x rule: less_induct)
  case less
  let ?A = "additions (current env start (start + m)) (WordsRange start (start + m))"
  let ?F = "\<lambda>r. filter expandable (map snd (?A r))"
  have added: "derives env top_node start pos y \<and> m \<le> pos \<and> pos \<le> Suc m \<and> (pos = m \<longrightarrow> unary y)
      \<and> (\<exists>ch lab. y = DottedRule ch lab r) \<and> ways env y = ways env r * count (mset (?A r)) (pos, y)"
    if r: "r \<in> set E" "(pos, y) \<in> set (?A r)" for r pos y
  proof -
    obtain j where j: "derives env top_node start j r" "j \<le> Suc m" using P r(1) by blast
    show ?thesis using additions_extend [OF j wf r(2)] additions_count [OF j wf r(2)] by simp
  qed
  have length: "i = k" if "derives env top_node start i y" "derives env top_node start k y" "i \<le> Suc m" "k \<le> Suc m" for i k y
    using derives_length [OF that(1,2) wf(1,2)] that(3,4) wf(3) by simp
  have E_count: "count (mset E) x = count (mset (dc_expandable coll)) x + count (mset (concat (map ?F E))) x"
    by (subst E) simp
  show ?case
  proof (cases "x \<in> set (dc_expandable coll)")
    case True
    then obtain i where i: "i \<le> m" "derives env top_node start i x" "\<not> (unary x \<and> i = m)"
      using inv(1) by (auto simp: lookup_inv_def less_Suc_eq_le)
    have "(pos, x) \<notin> set (?A r)" if "r \<in> set E" for r pos
      using added [OF that, of pos x] length [OF i(2), of pos] i by auto
    then have "x \<notin> set (concat (map ?F E))" by auto
    then show ?thesis using E_count True inv(2) by (simp add: counted_def count_eq_zero_iff)
  next
    case False
    have "x \<in> set (dc_expandable coll) \<or> x \<in> set (concat (map ?F E))" using less.prems by (subst (asm) E) simp
    then obtain r pos where r: "r \<in> set E" "(pos, x) \<in> set (?A r)" "expandable x" using False by auto
    note a = added [OF r(1,2)]
    obtain ch lab where form: "x = DottedRule ch lab r" using a by blast
    have "count (mset (concat (map ?F E))) x = count (mset E) r * count (mset (?F r)) x"
      by (rule count_additions [OF wf P _ r(1,2)]) auto
    also have "count (mset (?F r)) x = count (mset (map snd (?A r))) x" using r(3) by (simp add: count_filtered)
    also have "\<dots> = count (mset (?A r)) (pos, x)"
      by (rule count_snd) (use added [OF r(1)] length a in blast)
    also have "count (mset E) r = ways env r" using less.hyps [OF _ r(1)] form by simp
    finally show ?thesis using E_count False a by (simp add: count_eq_zero_iff)
  qed
qed

lemma lookup_counts:
  assumes inv: "lookup_inv env top_node start n (Suc m) coll" "counted env coll"
    and wf: "wf_env env n" "wf_trie act top_node" "start + m < n"
  shows "\<exists>coll'. main_loop (current env start (start + m)) (WordsRange start (start + m)) 0 coll = Inr coll'
    \<and> lookup_inv env top_node start n (Suc (Suc m)) coll' \<and> counted env coll'
    \<and> (\<forall>r. count (mset (dc_coll coll' ! Suc m)) r = (if derives env top_node start (Suc m) r \<and> \<not> unary r then ways env r else 0))"
proof -
  let ?A = "additions (current env start (start + m)) (WordsRange start (start + m))"
  obtain coll' where c': "main_loop (current env start (start + m)) (WordsRange start (start + m)) 0 coll = Inr coll'"
      "set (dc_coll coll' ! Suc m) = {r. derives env top_node start (Suc m) r \<and> \<not> unary r}"
      "lookup_inv env top_node start n (Suc (Suc m)) coll'"
    using lookup_step [OF inv(1) wf] by blast
  obtain c where c: "main_loop (current env start (start + m)) (WordsRange start (start + m)) 0 coll = Inr c"
      "\<forall>r \<in> set (dc_expandable c). \<exists>j \<le> Suc m. derives env top_node start j r"
      "dc_expandable c = dc_expandable coll @ concat (map (\<lambda>r. filter expandable (map snd (?A r))) (dc_expandable c))"
      "\<forall>i. Suc m \<le> i \<and> i \<le> n - start \<longrightarrow> dc_coll c ! i = concat (map (\<lambda>r. map snd (filter (\<lambda>p. fst p = i) (?A r))) (dc_expandable c))"
    by (rule loop_equations [OF inv(1) wf])
  have same: "c = coll'" using c(1) c'(1) by simp
  let ?E = "dc_expandable coll'" and ?rules = "dc_coll coll' ! Suc m" and ?F = "\<lambda>r. map snd (filter (\<lambda>p. fst p = Suc m) (?A r))"
  have ways: "count (mset ?E) x = ways env x" if "x \<in> set ?E" for x
    using rules_counted [OF inv wf c(3,2)] that unfolding same by blast
  have rules: "?rules = concat (map ?F ?E)" using c(4) wf(3) unfolding same by simp
  have "count (mset ?rules) x = ways env x" if "x \<in> set ?rules" for x
  proof -
    have "\<exists>r \<in> set ?E. x \<in> set (?F r)" using that unfolding rules by (simp only: set_concat set_map UN_iff image_image)
    then obtain r where r: "r \<in> set ?E" "(Suc m, x) \<in> set (?A r)" unfolding in_map_snd_filter by blast
    have P: "\<forall>r \<in> set ?E. \<exists>j \<le> Suc m. derives env top_node start j r" using c(2) unfolding same .
    then obtain j where "derives env top_node start j r" "j \<le> Suc m" using r(1) by blast
    note one = additions_count(2) [OF this wf r(2)]
    have "count (mset ?rules) x = count (mset ?E) r * count (mset (?F r)) x"
      unfolding rules by (rule count_additions [OF wf P _ r]) auto
    then show ?thesis unfolding count_positions using ways [OF r(1)] one by simp
  qed
  then have "count (mset ?rules) r = (if derives env top_node start (Suc m) r \<and> \<not> unary r then ways env r else 0)" for r
    using c'(2) by (cases "r \<in> set ?rules") (auto simp: count_eq_zero_iff)
  then show ?thesis using c'(1,3) ways by (intro exI [of _ coll']) (simp add: counted_def)
qed

section \<open>The calls for the spans of a sentence\<close>

definition wf_stacks :: "'s lookup_env \<Rightarrow> nat \<Rightarrow> bool" where
  "wf_stacks env n \<longleftrightarrow> (\<forall>s e. s \<le> e \<and> e < n \<longrightarrow>
     (\<forall>lab \<in> snd ` set (le_targets env s e). \<exists>h hs. cl_stack lab = Some (h # hs)))"

lemma derives_has_stacks:
  "derives env top_node start j r \<Longrightarrow> wf_env env n \<Longrightarrow> wf_stacks env n \<Longrightarrow> start + j \<le> n \<Longrightarrow> has_stacks r"
proof (induction rule: derives.induct)
  case (d_word j r ch)
  then show ?case by (simp add: wf_env_def)
next
  case (d_nonterm j r m r')
  obtain ch lab k where r': "r' = DottedRule ch lab r"
      "lab \<in> snd ` set (le_targets env (start + j) (start + m - 1))"
    using d_nonterm.hyps(3) by (elim matchingE) blast
  have "start + j \<le> start + m - 1 \<and> start + m - 1 < n" using d_nonterm by auto
  then have "\<exists>h hs. cl_stack lab = Some (h # hs)"
    using d_nonterm.prems(2) r'(2) unfolding wf_stacks_def by blast
  then show ?case using r'(1) d_nonterm by simp
qed simp

text \<open>
  The state of the manager between calls: for every start position s, the spans of at most
  p s words have been processed, and every expandable rule is there as often as it is derived.
\<close>

definition manager_inv :: "'s lookup_env \<Rightarrow> rule_node \<Rightarrow> nat \<Rightarrow> (nat \<Rightarrow> nat) \<Rightarrow> 's lookup_manager \<Rightarrow> bool" where
  "manager_inv env top_node n p lm \<longleftrightarrow> length (lm_colls lm) = n
     \<and> (\<forall>s < n. lookup_inv env top_node s n (Suc (p s)) (lm_colls lm ! s) \<and> counted env (lm_colls lm ! s))"

lemma manager_init:
  "\<exists>lm. ChartRuleLookupManagerMinSpan n top_node = Inr lm \<and> manager_inv env top_node n (\<lambda>_. 0) lm"
proof -
  have "\<forall>s. \<exists>c. s < n \<longrightarrow> dc_Add 0 (InitRule top_node) (DottedRuleColl (n - s + 1)) = Inr c
      \<and> lookup_inv env top_node s n 1 c \<and> counted env c"
  proof
    fix s
    show "\<exists>c. s < n \<longrightarrow> dc_Add 0 (InitRule top_node) (DottedRuleColl (n - s + 1)) = Inr c \<and> lookup_inv env top_node s n 1 c \<and> counted env c"
    proof (cases "s < n")
      case True
      then obtain c where c: "dc_Add 0 (InitRule top_node) (DottedRuleColl (n - s + 1)) = Inr c" "lookup_inv env top_node s n 1 c"
        using lookup_inv_init by blast
      moreover from this(1) have "counted env c" by (auto simp: dc_Add_def DottedRuleColl_def counted_def)
      ultimately show ?thesis by blast
    qed simp
  qed
  then obtain c where c: "\<forall>s. s < n \<longrightarrow> dc_Add 0 (InitRule top_node) (DottedRuleColl (n - s + 1)) = Inr (c s)
      \<and> lookup_inv env top_node s n 1 (c s) \<and> counted env (c s)"
    by (rule choice [THEN exE])
  then have "rmap (\<lambda>ind. dc_Add 0 (InitRule top_node) (DottedRuleColl (n - ind + 1))) [0..<n]
      = Inr (map c [0..<n])"
    by (intro rmap_Inr_map) simp
  then show ?thesis using c by (auto simp: ChartRuleLookupManagerMinSpan_def manager_inv_def)
qed

lemma lookup_inv_clear:
  "lookup_inv env top_node start n m coll \<Longrightarrow> lookup_inv env top_node start n m (dc_Clear pool pos coll)"
  by (cases "pos < length (dc_coll coll)")
    (auto simp: lookup_inv_def dc_Clear_def nth_list_update list_update_beyond)

lemma counted_clear: "counted env coll \<Longrightarrow> counted env (dc_Clear pool pos coll)"
  by (simp add: counted_def dc_Clear_def)

lemma offers_of_current [simp]: "offers_of (current env start k) = offers_of env"
proof -
  have "times_offered (current env start k) = times_offered env"
    by (simp add: fun_eq_iff times_offered_def)
  then show ?thesis by (simp add: fun_eq_iff offers_of_def split: option.splits)
qed

lemma set_offers_of:
  "set (concat (map (offers_of env minSpan s e) rules)) = {(tpc, stacks_of r, WordsRange s e) | r tpc.
     r \<in> set rules \<and> m_tpc (GetLastNode r) = Some tpc \<and> 0 < times_offered env minSpan s e}"
  by (force simp: offers_of_def split: option.splits if_splits)

text \<open>
  The rules of a span. Spans are processed for each start position in the order of their
  ends, each when all shorter spans have their labels and its own cell is still empty.
\<close>

lemma lookup_span_offers:
  assumes "manager_inv env top_node n p lm" "p start = m" "start + m < n"
    and "wf_env env n" "wf_stacks env n" "wf_trie act top_node"
    and "\<forall>bounds \<in> set (le_clauseBounds env). even (length bounds)"
  shows "\<exists>rules offers lm'. GetChartRuleCollection sel (current env start (start + m)) (WordsRange start (start + m))
        minSpan (lm, out) = rbind (tol_Adds sel offers out) (\<lambda>out1. rbind (tol_ShrinkToLimit sel out1) (\<lambda>out'. Inr (lm', out')))
    \<and> manager_inv env top_node n (p(start := Suc m)) lm'
    \<and> (\<forall>r. count (mset rules) r = (if derives env top_node start (Suc m) r \<and> \<not> unary r then ways env r else 0))
    \<and> offers = concat (map (offers_of env minSpan start (start + m)) rules)
    \<and> set offers = {(tpc, stacks_of r, WordsRange start (start + m)) | r tpc.
        derives env top_node start (Suc m) r \<and> \<not> unary r \<and> m_tpc (GetLastNode r) = Some tpc
        \<and> 0 < times_offered env minSpan start (start + m)}
    \<and> (\<forall>(tpc, stackVec, rng) \<in> set offers. [] \<notin> set stackVec)"
proof -
  let ?e = "current env start (start + m)" and ?rng = "WordsRange start (start + m)"
  have inv: "lookup_inv env top_node start n (Suc m) (lm_colls lm ! start)" "counted env (lm_colls lm ! start)" "length (lm_colls lm) = n"
    using assms(1-3) by (auto simp: manager_inv_def)
  obtain coll where coll: "main_loop ?e ?rng 0 (lm_colls lm ! start) = Inr coll"
      "lookup_inv env top_node start n (Suc (Suc m)) coll" "counted env coll"
      "\<forall>r. count (mset (dc_coll coll ! Suc m)) r = (if derives env top_node start (Suc m) r \<and> \<not> unary r then ways env r else 0)"
    using lookup_counts [OF inv(1,2) assms(4,6,3)] by blast
  have set: "set (dc_coll coll ! Suc m) = {r. derives env top_node start (Suc m) r \<and> \<not> unary r}"
    using lookup_step [OF inv(1) assms(4,6,3)] coll(1) by simp
  have len: "Suc m < length (dc_coll coll)" using coll(2) assms(3) by (simp add: lookup_inv_def)
  let ?rules = "dc_coll coll ! Suc m"
  let ?offers = "concat (map (offers_of env minSpan start (start + m)) ?rules)"
  have r: "has_stacks r \<and> (\<exists>s. GetWordsRange r = Inr (WordsRange s (start + m)))" if "r \<in> set ?rules" for r
    using derives_facts(4) [OF _ assms(4) _ assms(6), of start "Suc m" r]
      derives_has_stacks [OF _ assms(4,5), of top_node start "Suc m" r] that set assms(3) by auto
  have "output_rule sel ?e ?rng minSpan r out = tol_Adds sel (offers_of env minSpan start (start + m) r) out"
    if mem: "r \<in> set ?rules" for r out
  proof -
    obtain s where "GetWordsRange r = Inr (WordsRange s (start + m))" using r [OF mem] by blast
    from output_rule_eq [OF this, of start ?e] show ?thesis
      using r [OF mem] assms(7) by simp
  qed
  then have out: "rfold (output_rule sel ?e ?rng minSpan) ?rules out = tol_Adds sel ?offers out"
    unfolding tol_Adds_def by (intro rfold_concat) simp
  let ?lm = "lm\<lparr>lm_colls := (lm_colls lm)[start := dc_Clear (le_pool env) (Suc m) coll]\<rparr>"
  have "GetChartRuleCollection sel ?e ?rng minSpan (lm, out)
      = rbind (tol_Adds sel ?offers out) (\<lambda>out1. rbind (tol_ShrinkToLimit sel out1) (\<lambda>out'. Inr (?lm, out')))"
    using inv(3) assms(3) coll(1) len out by (simp add: GetChartRuleCollection_def Let_def)
  moreover have "manager_inv env top_node n (p(start := Suc m)) ?lm"
    using assms(1,3) inv(3) lookup_inv_clear [OF coll(2)] counted_clear [OF coll(3)] by (auto simp: manager_inv_def nth_list_update)
  moreover have "\<forall>(tpc, stackVec, rng) \<in> set ?offers. [] \<notin> set stackVec"
    using r stacks_of_nonempty by (auto simp: offers_of_def split: option.splits)
  moreover have "set ?offers = {(tpc, stacks_of r, WordsRange start (start + m)) | r tpc.
        derives env top_node start (Suc m) r \<and> \<not> unary r \<and> m_tpc (GetLastNode r) = Some tpc
        \<and> 0 < times_offered env minSpan start (start + m)}"
    unfolding set_offers_of set by auto
  ultimately show ?thesis using coll(4) by blast
qed

end
