(* ===== verification/LookupProps.thy ===== *)
theory LookupProps
  imports LookupCounts
begin

text \<open>
  The properties of the rule lookup (theories RuleLookup and LookupCounts): which rules an extension adds, what
  the lookup of a span leaves in the list of translation options, and what the clause
  bounds let through.
\<close>

section \<open>Extension by a non-terminal\<close>

lemma filter_at_position: "filter (\<lambda>p. fst p = i) (map (Pair pos) rs) = (if i = pos then map (Pair pos) rs else [])"
  by (induction rs) auto

text \<open>
  C25. Extension of a dotted rule over a sub-span: whichever of its two search strategies
  ExtendPartialRuleApplication takes (pairs of labels looked up in the node, or children of the node
  looked up among the labels), it returns, it adds at the given position exactly
  the rules for the children of the node whose key is a pair of a source label and a target label
  of the sub-span, it makes those expandable that have a continuation, and it changes no other position.
\<close>

theorem Extend_adds_matching:
  assumes "nonterm_labels env s e" "wf_trie act (GetLastNode prev)" "wf_targets (le_targets env s e)"
    and "pos < length (dc_coll coll)"
  shows "\<exists>coll'. ExtendPartialRuleApplication env prev s e pos coll = Inr coll'
    \<and> set (dc_coll coll' ! pos) = set (dc_coll coll ! pos) \<union> matching env prev s e
    \<and> set (dc_expandable coll') = set (dc_expandable coll) \<union> {r \<in> matching env prev s e. \<not> IsLeaf (GetLastNode r)}
    \<and> (\<forall>i < length (dc_coll coll). i \<noteq> pos \<longrightarrow> dc_coll coll' ! i = dc_coll coll ! i)"
proof -
  let ?rs = "nonterm_matches env prev s e"
  obtain coll' where "dc_adds (map (Pair pos) ?rs) coll = Inr coll'"
      "dc_expandable coll' = dc_expandable coll @ filter expandable (map snd (map (Pair pos) ?rs))"
      "\<forall>i < length (dc_coll coll).
         dc_coll coll' ! i = dc_coll coll ! i @ map snd (filter (\<lambda>p. fst p = i) (map (Pair pos) ?rs))"
    using dc_adds_eq [of "map (Pair pos) ?rs" coll] assms(4) by auto
  then show ?thesis
    using assms(4) set_nonterm_matches [OF assms(2,3)]
    by (auto simp: Extend_eq [OF assms(1)] filter_at_position comp_def)
qed

section \<open>The lookup of a span\<close>

text \<open>
  C1. The rules of a span. Spans are processed for each start position in the order of their
  ends, each when all shorter spans have their labels and its own cell is still empty. Then
  GetChartRuleCollection returns (its main loop ends, no check fails, no read is out of
  bounds), and it leaves in the cleared list the ruleLimit best of the options offered. The
  offers come from exactly the rules that the rule table and the
  chart derive for the span, as a sequence of source words and labelled sub-spans without gap or
  overlap, rules of a single non-terminal excepted, each found once for every sequence of children of
  the table that derives it. A rule whose node has target phrases is offered once when the span
  is longer than the minimum span and there are no clause bounds; in clause mode as often as the span ends with a clause before the
  first clause it crosses, and a rule without target phrases, or on a span that is not longer than the minimum, is not offered. The state is ready for the
  next longer span.
\<close>

theorem lookup_span_exact:
  assumes "manager_inv env top_node n p lm" "p start = m" "start + m < n"
    and "wf_env env n" "wf_stacks env n" "wf_trie act top_node"
    and "\<forall>bounds \<in> set (le_clauseBounds env). even (length bounds)"
    and "selection sel" "tol_ruleLimit l \<ge> 1"
  shows "\<exists>rules offers lm' l'. GetChartRuleCollection sel (current env start (start + m)) (WordsRange start (start + m))
        minSpan (lm, tol_Clear l) = Inr (lm', l')
    \<and> manager_inv env top_node n (p(start := Suc m)) lm'
    \<and> (\<forall>r. count (mset rules) r = (if derives env top_node start (Suc m) r \<and> \<not> unary r then ways env r else 0))
    \<and> offers = concat (map (\<lambda>r. case m_tpc (GetLastNode r) of None \<Rightarrow> []
        | Some tpc \<Rightarrow> replicate (times_offered env minSpan start (start + m)) (tpc, stacks_of r, WordsRange start (start + m))) rules)
    \<and> set offers = {(tpc, stacks_of r, WordsRange start (start + m)) | r tpc.
        derives env top_node start (Suc m) r \<and> \<not> unary r \<and> m_tpc (GetLastNode r) = Some tpc
        \<and> 0 < times_offered env minSpan start (start + m)}
    \<and> mset (used l') \<subseteq># offered_options offers
    \<and> length (used l') = min (tol_ruleLimit l) (size (offered_options offers))
    \<and> (\<forall>r \<in># offered_options offers - mset (used l'). \<forall>x \<in> set (used l'). to_estimate r \<le> to_estimate x)"
proof -
  obtain rules offers lm' where o: "GetChartRuleCollection sel (current env start (start + m)) (WordsRange start (start + m))
        minSpan (lm, tol_Clear l) = rbind (tol_Adds sel offers (tol_Clear l)) (\<lambda>out1.
          rbind (tol_ShrinkToLimit sel out1) (\<lambda>out'. Inr (lm', out')))"
      "manager_inv env top_node n (p(start := Suc m)) lm'"
      "set offers = {(tpc, stacks_of r, WordsRange start (start + m)) | r tpc.
        derives env top_node start (Suc m) r \<and> \<not> unary r \<and> m_tpc (GetLastNode r) = Some tpc
        \<and> 0 < times_offered env minSpan start (start + m)}"
      "\<forall>(tpc, stackVec, rng) \<in> set offers. [] \<notin> set stackVec"
      "\<forall>r. count (mset rules) r = (if derives env top_node start (Suc m) r \<and> \<not> unary r then ways env r else 0)"
      "offers = concat (map (offers_of env minSpan start (start + m)) rules)"
    using lookup_span_offers [OF assms(1-7)] by blast
  have "\<forall>(tpc, stackVec, rng) \<in> set offers. tpc = [] \<or> [] \<notin> set stackVec" using o(4) by auto
  from kept_best [OF assms(8,9) this]
  obtain l' where l': "rbind (tol_Adds sel offers (tol_Clear l)) (tol_ShrinkToLimit sel) = Inr l'"
    "mset (used l') \<subseteq># offered_options offers"
    "length (used l') = min (tol_ruleLimit l) (size (offered_options offers))"
    "\<forall>r \<in># offered_options offers - mset (used l'). \<forall>x \<in> set (used l'). to_estimate r \<le> to_estimate x" by blast
  have "GetChartRuleCollection sel (current env start (start + m)) (WordsRange start (start + m))
        minSpan (lm, tol_Clear l) = Inr (lm', l')"
    using l'(1) by (auto simp: o(1) rbind_eq_Inr)
  then show ?thesis using o(2,3,5) o(6) [unfolded offers_of_def] l'(2-4) by blast
qed

text \<open>A sentence of one word, with a rule for it.\<close>

definition example_env :: "unit lookup_env" where
  "example_env = \<lparr>le_source = (\<lambda>i. \<lparr>cl_coverage = WordsRange i i, cl_label = example_word 5 False, cl_stack = None\<rparr>),
     le_labelSet = (\<lambda>s e. [example_word 1 True]), le_targets = (\<lambda>s e. []),
     le_clauseMode = False, le_clauseBounds = [], le_pool = False\<rparr>"

definition example_trie :: rule_node where
  "example_trie = Node [(example_word 5 False, Node [] [] (Some [example_rule 3]))] [] None"

lemma wf_example_trie: "wf_trie {0} example_trie"
  by (simp add: example_trie_def wf_trie_Node terminals.distinct_map_def nonterm_pairs.distinct_map_def)

lemma example_derives: "derives example_env example_trie 0 (Suc 0)
  (DottedRule (Node [] [] (Some [example_rule 3])) (le_source example_env 0) (InitRule example_trie))"
proof -
  have "derives example_env example_trie 0 (Suc 0)
      (DottedRule (Node [] [] (Some [example_rule 3])) (le_source example_env (0 + 0)) (InitRule example_trie))"
    by (rule d_word [OF d_init])
      (simp add: example_trie_def example_env_def TerminalEqualityPred_def list_all_iff)
  then show ?thesis by simp
qed

lemma lookup_span_exact_witness:
  "\<exists>lm lm' l'. ChartRuleLookupManagerMinSpan 1 example_trie = Inr lm
    \<and> GetChartRuleCollection sort_select example_env (WordsRange 0 0) 0 (lm, ChartTranslationOptionList 1) = Inr (lm', l')
    \<and> length (used l') = 1"
proof -
  obtain lm where lm: "ChartRuleLookupManagerMinSpan 1 example_trie = Inr lm"
      "manager_inv example_env example_trie 1 (\<lambda>_. 0) lm"
    using manager_init by blast
  have env: "current example_env 0 0 = example_env"
    by (simp add: current_def example_env_def fun_eq_iff)
  have sel: "selection (sort_select :: unit trans_option select)" by unfold_locales
  have wf: "wf_env example_env 1" "wf_stacks example_env 1"
    by (simp_all add: wf_env_def wf_stacks_def example_env_def nonterm_labels_def wf_targets_def
        nonterms.distinct_map_def distinct_labels_def)
  have lim: "1 \<le> tol_ruleLimit (ChartTranslationOptionList 1 :: unit trans_opt_list)" "\<forall>bounds \<in> set (le_clauseBounds example_env). even (length bounds)"
    by (simp_all add: ChartTranslationOptionList_def example_env_def)
  have bounds: "(\<lambda>_. 0) (0 :: nat) = (0 :: nat)" "0 + 0 < (1 :: nat)" by simp_all
  obtain rules offers lm' l' where raw: "GetChartRuleCollection sort_select (current example_env 0 (0 + 0)) (WordsRange 0 (0 + 0)) 0
        (lm, tol_Clear (ChartTranslationOptionList 1)) = Inr (lm', l')"
    "set offers = {(tpc, stacks_of r, WordsRange 0 (0 + 0)) | r tpc. derives example_env example_trie 0 (Suc 0) r
        \<and> \<not> unary r \<and> m_tpc (GetLastNode r) = Some tpc \<and> 0 < times_offered example_env 0 0 (0 + 0)}"
    "length (used l') = min (tol_ruleLimit (ChartTranslationOptionList 1 :: unit trans_opt_list)) (size (offered_options offers))"
    using lookup_span_exact [OF lm(2) bounds wf wf_example_trie lim(2) sel lim(1), of 0] by (elim exE conjE) (rule that; assumption)
  then have o: "GetChartRuleCollection sort_select example_env (WordsRange 0 0) 0
        (lm, tol_Clear (ChartTranslationOptionList 1)) = Inr (lm', l')"
    "set offers = {(tpc, stacks_of r, WordsRange 0 0) | r tpc. derives example_env example_trie 0 (Suc 0) r
        \<and> \<not> unary r \<and> m_tpc (GetLastNode r) = Some tpc \<and> 0 < times_offered example_env 0 0 0}"
    "length (used l') = min 1 (size (offered_options offers))"
    unfolding add_0 env by (simp_all add: ChartTranslationOptionList_def)
  have "0 < times_offered example_env 0 0 0" by (simp add: times_offered_def example_env_def)
  moreover have "\<not> unary (DottedRule (Node [] [] (Some [example_rule 3])) (le_source example_env 0) (InitRule example_trie))"
    "stacks_of (DottedRule (Node [] [] (Some [example_rule 3])) (le_source example_env 0) (InitRule example_trie)) = []"
    by (simp_all add: example_env_def)
  ultimately have "([example_rule 3], [], WordsRange 0 0) \<in> set offers"
    using example_derives o(2) by (force intro!: exI)
  then have "offered_options offers \<noteq> {#}"
    by (auto simp: offered_options_def filter_empty_conv)
  then have "length (used l') = 1" using o(3) by (cases "size (offered_options offers)") auto
  moreover have "tol_Clear (ChartTranslationOptionList 1) = (ChartTranslationOptionList 1 :: unit trans_opt_list)"
    by (simp add: tol_Clear_def ChartTranslationOptionList_def)
  ultimately show ?thesis using lm(1) o(1) by auto
qed

section \<open>Clause bounds\<close>

lemma accept_countE:
  assumes "0 < accept_count s e ps"
  obtains p where "p \<in> set ps" "e = snd p" "\<not> crossing s e p"
  using assms by (induction ps) (auto split: if_splits)

text \<open>
  Minimum span and clause bounds: when a rule that covers the span adds an option, the span has
  more than minSpan words, and in clause mode it ends at the end of some clause and does not
  cross that clause: it starts after the clause's first bound, when the clause has more than one word.
\<close>

theorem output_rule_safe:
  assumes "GetWordsRange r = Inr (WordsRange s0 e)" "s \<le> e" "has_stacks r"
    and "\<forall>bounds \<in> set (le_clauseBounds env). even (length bounds)"
    and "output_rule sel env (WordsRange s e) minSpan r out \<noteq> Inr out"
  shows "e + 1 - s > minSpan \<and> (le_clauseMode env \<longrightarrow>
    (\<exists>bounds \<in> set (le_clauseBounds env). \<exists>(b1, b2) \<in> set (pairs_of bounds). int e = b2 \<and> (b1 < b2 \<longrightarrow> b1 < int s)))"
proof -
  have "offers_of env minSpan s e r \<noteq> []"
    using assms(5) by (auto simp: output_rule_eq [OF assms(1-4)] tol_Adds_def)
  then have times: "0 < times_offered env minSpan s e" by (auto simp: offers_of_def split: option.splits)
  show ?thesis
  proof (intro conjI impI)
    show "e + 1 - s > minSpan" using times by (auto simp: times_offered_def split: if_splits)
    assume "le_clauseMode env"
    then have "0 < accept_count (int s) (int e) (concat (map pairs_of (le_clauseBounds env)))"
      using times by (auto simp: times_offered_def split: if_splits)
    then obtain p where p: "p \<in> set (concat (map pairs_of (le_clauseBounds env)))" "int e = snd p"
        "\<not> crossing (int s) (int e) p" by (rule accept_countE)
    then obtain bounds where "bounds \<in> set (le_clauseBounds env)" "p \<in> set (pairs_of bounds)" by auto
    moreover have "fst p < snd p \<longrightarrow> fst p < int s" using p(2,3) assms(2) by (auto simp: crossing_def)
    ultimately show "\<exists>bounds \<in> set (le_clauseBounds env). \<exists>(b1, b2) \<in> set (pairs_of bounds).
        int e = b2 \<and> (b1 < b2 \<longrightarrow> b1 < int s)"
      using p(2) by (intro bexI [of _ bounds] bexI [of _ p]) (auto split: prod.splits)
  qed
qed

text \<open>
  C40. The order of the clauses matters: with a clause b..e inside a clause a..e, a rule that starts
  in the outer clause only and ends at e is added when the outer clause is listed first, and
  is not when the inner clause is; a rule that starts in both is added twice either way, so
  that it takes two places of the rule limit. A clause with an odd number of bounds is read
  beyond its end.
\<close>

theorem clause_order_matters:
  assumes "a < b" "b < e" "b < s \<and> s \<le> e \<or> a < s \<and> s \<le> b"
  shows "rfold (clause_pairs add s e True) [[a, e], [b, e]] (False, out) =
      rbind (add out) (\<lambda>out1. if b < s then rbind (add out1) (\<lambda>out2. Inr (False, out2)) else Inr (True, out1))
    \<and> rfold (clause_pairs add s e True) [[b, e], [a, e]] (False, out) =
      (if b < s then rbind (add out) (\<lambda>out1. rbind (add out1) (\<lambda>out2. Inr (False, out2))) else Inr (True, out))
    \<and> clause_pairs add s e True [a] (False, out) = Inl OutOfBounds"
proof -
  have inside: "IsInside e (a + 1) (e + 1)" "IsInside e (b + 1) (e + 1)" "IsInside s (a + 1) (e + 1)"
    "IsInside s (b + 1) (e + 1) \<longleftrightarrow> b < s" "MatchesInterval e e"
    using assms by (auto simp: IsInside_def MatchesInterval_def)
  show ?thesis by (auto simp: Let_def inside rbind_def split: sum.splits)
qed

lemma clause_order_matters_witness:
  "rfold (clause_pairs (\<lambda>n. Inr (Suc n)) 1 9 True) [[0, 9], [5, 9]] (False, 0) = Inr (True, 1)
   \<and> rfold (clause_pairs (\<lambda>n. Inr (Suc n)) 1 9 True) [[5, 9], [0, 9]] (False, 0) = Inr (True, 0)
   \<and> rfold (clause_pairs (\<lambda>n. Inr (Suc n)) 6 9 True) [[5, 9], [0, 9]] (False, 0) = Inr (False, 2)"
  using clause_order_matters [of 0 5 9 1 "\<lambda>n. Inr (Suc n)" 0]
    clause_order_matters [of 0 5 9 6 "\<lambda>n. Inr (Suc n)" 0] by simp

definition example_rule_6_9 :: "unit dotted_rule" where
  "example_rule_6_9 = DottedRule (Node [] [] (Some [example_rule 3]))
     \<lparr>cl_coverage = WordsRange 6 9, cl_label = example_word 1 False, cl_stack = None\<rparr> (InitRule example_trie)"

abbreviation clause_env :: "unit lookup_env" where
  "clause_env \<equiv> example_env\<lparr>le_clauseMode := True, le_clauseBounds := [[0, 9]]\<rparr>"

lemma output_rule_safe_witness:
  "output_rule sort_select clause_env (WordsRange 6 9) 3 example_rule_6_9 (ChartTranslationOptionList 1)
     \<noteq> Inr (ChartTranslationOptionList 1)
   \<and> 9 + 1 - 6 > (3 :: nat)"
proof
  show out: "output_rule sort_select clause_env (WordsRange 6 9) 3 example_rule_6_9 (ChartTranslationOptionList 1)
     \<noteq> Inr (ChartTranslationOptionList 1)"
    by (simp add: output_rule_def example_rule_6_9_def AddCompletedRule_def Let_def MatchesInterval_def
        IsInside_def tol_Add_def CalcEstimateOfBestScore_def example_rule_def ChartTranslationOptionList_def tol_burst_def)
  show "9 + 1 - 6 > (3 :: nat)"
    using output_rule_safe [of example_rule_6_9 6 9 6 clause_env sort_select 3 "ChartTranslationOptionList 1"] out
    by (simp add: example_rule_6_9_def)
qed

definition nonterm_env :: "unit lookup_env" where
  "nonterm_env = example_env\<lparr>le_targets := (\<lambda>s e. AddConstituent (WordsRange s e) (example_word 1 True) [example_hypo] [])\<rparr>"

definition nonterm_trie :: rule_node where
  "nonterm_trie = Node [] [((example_word 1 True, example_word 1 True), Node [] [] (Some [example_rule 3]))] None"

lemma Extend_adds_matching_witness:
  "\<exists>coll' r. ExtendPartialRuleApplication nonterm_env (InitRule nonterm_trie) 0 0 1 (DottedRuleColl 2) = Inr coll'
    \<and> dc_coll coll' ! 0 = [] \<and> r \<in> set (dc_coll coll' ! 1) \<and> m_tpc (GetLastNode r) = Some [example_rule 3]
    \<and> dc_expandable coll' = []"
proof -
  let ?lab = "\<lparr>cl_coverage = WordsRange 0 0, cl_label = example_word 1 True, cl_stack = Some [example_hypo]\<rparr>"
  let ?r = "DottedRule (Node [] [] (Some [example_rule 3])) ?lab (InitRule nonterm_trie)"
  have targets: "le_targets nonterm_env 0 0 = [(example_word 1 True, ?lab)]"
    "le_labelSet nonterm_env 0 0 = [example_word 1 True]"
    by (simp_all add: nonterm_env_def example_env_def AddConstituent_def um_insert_def)
  have labels: "nonterm_labels nonterm_env 0 0" by (simp add: nonterm_labels_def targets)
  have wf: "wf_targets (le_targets nonterm_env 0 0)"
    by (simp add: wf_targets_def targets nonterms.distinct_map_def NonTerminalEqualityPred_def)
  have trie: "wf_trie {0} nonterm_trie"
    by (simp add: nonterm_trie_def wf_trie_Node terminals.distinct_map_def nonterm_pairs.distinct_map_def)
  have match: "matching nonterm_env (InitRule nonterm_trie) 0 0 = {?r}"
    by (simp add: matching_def targets nonterm_trie_def)
  have leaf: "IsLeaf (GetLastNode ?r)" by (simp add: IsLeaf_def)
  obtain coll' where c: "ExtendPartialRuleApplication nonterm_env (InitRule nonterm_trie) 0 0 1 (DottedRuleColl 2) = Inr coll'"
      "set (dc_coll coll' ! 1) = set (dc_coll (DottedRuleColl 2) ! 1) \<union> {?r}"
      "set (dc_expandable coll') = set (dc_expandable (DottedRuleColl 2)) \<union> {r \<in> {?r}. \<not> IsLeaf (GetLastNode r)}"
      "\<forall>i < length (dc_coll (DottedRuleColl 2)). i \<noteq> 1 \<longrightarrow> dc_coll coll' ! i = dc_coll (DottedRuleColl 2) ! i"
    using Extend_adds_matching [of nonterm_env 0 0 "{0}" "InitRule nonterm_trie" 1 "DottedRuleColl 2",
        unfolded match, OF labels _ wf] trie
    by (force simp: DottedRuleColl_def)
  have "{r \<in> {?r}. \<not> IsLeaf (GetLastNode r)} = {}" using leaf by blast
  then have "set (dc_expandable coll') = {}" using c(3) by (simp only: DottedRuleColl_def dotted_coll.simps set_empty2 list.set(1) Un_empty)
  moreover have "dc_coll coll' ! 0 = []" "?r \<in> set (dc_coll coll' ! 1)"
    using c(2,4) by (simp_all add: DottedRuleColl_def)
  ultimately show ?thesis using c(1) by (intro exI [of _ coll'] exI [of _ ?r]) simp
qed

end
