(* ===== verification/OrderedSets.thy ===== *)
theory OrderedSets
  imports Prelude "HOL-Library.Multiset"
begin

text \<open>
  std::set with a comparator that may fail a check: the elements in the order of the
  comparator. A search compares with the elements one after the other from the
  beginning; the container compares with the elements on a path of a tree. On elements that the
  comparator orders, as the locale ordered\_by states it, both find the same place.
\<close>

section \<open>Operations\<close>

text \<open>insert: the new container, and the element that prevents the insertion.\<close>

fun set_insert :: "('a \<Rightarrow> 'a \<Rightarrow> bool result) \<Rightarrow> 'a \<Rightarrow> 'a list \<Rightarrow> ('a list \<times> 'a option) result" where
  "set_insert cless x [] = Inr ([x], None)"
| "set_insert cless x (y # ys) =
     rbind (cless y x) (\<lambda>before.
       if before then rbind (set_insert cless x ys) (\<lambda>(ys', e). Inr (y # ys', e))
       else rbind (cless x y) (\<lambda>after.
         if after then Inr (x # y # ys, None) else Inr (y # ys, Some y)))"

fun set_find :: "('a \<Rightarrow> 'a \<Rightarrow> bool result) \<Rightarrow> 'a \<Rightarrow> 'a list \<Rightarrow> 'a option result" where
  "set_find cless x [] = Inr None"
| "set_find cless x (y # ys) =
     rbind (cless y x) (\<lambda>before.
       if before then set_find cless x ys
       else rbind (cless x y) (\<lambda>after. Inr (if after then None else Some y)))"

section \<open>Comparators that order their elements\<close>

text \<open>
  A strict weak order on the elements ok admits: lt is what the comparator cless returns.
\<close>

locale ordered_by =
  fixes cless :: "'a \<Rightarrow> 'a \<Rightarrow> bool result" and lt :: "'a \<Rightarrow> 'a \<Rightarrow> bool" and ok :: "'a \<Rightarrow> bool"
  assumes less_ok: "ok x \<Longrightarrow> ok y \<Longrightarrow> cless x y = Inr (lt x y)"
    and lt_irrefl: "ok x \<Longrightarrow> \<not> lt x x"
    and lt_trans: "ok x \<Longrightarrow> ok y \<Longrightarrow> ok z \<Longrightarrow> lt x y \<Longrightarrow> lt y z \<Longrightarrow> lt x z"
    and lt_split: "ok x \<Longrightarrow> ok y \<Longrightarrow> ok z \<Longrightarrow> lt x z \<Longrightarrow> lt x y \<or> lt y z"
begin

definition eqv :: "'a \<Rightarrow> 'a \<Rightarrow> bool" where
  "eqv x y \<longleftrightarrow> \<not> lt x y \<and> \<not> lt y x"

definition ok_set :: "'a list \<Rightarrow> bool" where
  "ok_set xs \<longleftrightarrow> list_all ok xs \<and> sorted_wrt lt xs"

lemma ok_set_simps [simp]:
  "ok_set []" "ok_set (x # xs) \<longleftrightarrow> ok x \<and> (\<forall>y \<in> set xs. lt x y) \<and> ok_set xs"
  by (auto simp: ok_set_def)

lemma ok_set_ok: "ok_set xs \<Longrightarrow> x \<in> set xs \<Longrightarrow> ok x"
  by (simp add: ok_set_def list_all_iff)

lemma eqv_refl [simp]: "ok x \<Longrightarrow> eqv x x"
  by (simp add: eqv_def lt_irrefl)

lemma eqv_sym: "eqv x y \<longleftrightarrow> eqv y x"
  by (auto simp: eqv_def)

lemma eqv_trans: "ok x \<Longrightarrow> ok y \<Longrightarrow> ok z \<Longrightarrow> eqv x y \<Longrightarrow> eqv y z \<Longrightarrow> eqv x z"
  unfolding eqv_def by (metis lt_split)

lemma lt_eqv: "ok x \<Longrightarrow> ok y \<Longrightarrow> ok z \<Longrightarrow> lt x y \<Longrightarrow> eqv y z \<Longrightarrow> lt x z"
  unfolding eqv_def by (metis lt_split)

text \<open>No two elements of the container are equivalent.\<close>

lemma ok_set_eqv: "ok_set xs \<Longrightarrow> x \<in> set xs \<Longrightarrow> y \<in> set xs \<Longrightarrow> eqv x y \<Longrightarrow> x = y"
  by (induction xs) (auto simp: eqv_def)

lemma ok_set_distinct: "ok_set xs \<Longrightarrow> distinct xs"
  by (induction xs) (auto simp: lt_irrefl)

lemma ok_set_filter: "ok_set xs \<Longrightarrow> ok_set (filter P xs)"
  by (induction xs) auto

lemma ok_set_remove1: "ok_set xs \<Longrightarrow> ok_set (remove1 x xs)"
  using ok_set_distinct [of xs] by (simp add: distinct_remove1_removeAll removeAll_filter_not_eq ok_set_filter)

text \<open>Insertion of an element that has an equivalent one, and of one that has not.\<close>

lemma set_insert_existing:
  "ok_set xs \<Longrightarrow> ok x \<Longrightarrow> y \<in> set xs \<Longrightarrow> eqv x y \<Longrightarrow> set_insert cless x xs = Inr (xs, Some y)"
proof (induction xs)
  case (Cons z zs)
  have z: "ok z" "cless z x = Inr (lt z x)" "cless x z = Inr (lt x z)"
    using Cons.prems(1,2) by (auto simp: less_ok)
  show ?case
  proof (cases "y = z")
    case True
    then show ?thesis using Cons.prems(4) z by (simp add: eqv_def)
  next
    case False
    then have "lt z x" using Cons.prems z lt_eqv [of z y x] ok_set_ok [of zs y] by (auto simp: eqv_sym)
    then show ?thesis using Cons False z by simp
  qed
qed simp

lemma set_insert_new:
  "ok_set xs \<Longrightarrow> ok x \<Longrightarrow> (\<forall>y \<in> set xs. \<not> eqv x y) \<Longrightarrow>
     \<exists>xs'. set_insert cless x xs = Inr (xs', None) \<and> ok_set xs' \<and> mset xs' = add_mset x (mset xs)"
proof (induction xs)
  case (Cons z zs)
  have z: "ok z" "cless z x = Inr (lt z x)" "cless x z = Inr (lt x z)" "\<not> eqv x z"
    using Cons.prems by (auto simp: less_ok)
  show ?case
  proof (cases "lt z x")
    case True
    obtain zs' where zs': "set_insert cless x zs = Inr (zs', None)" "ok_set zs'" "mset zs' = add_mset x (mset zs)"
      using Cons by auto
    have "set zs' = insert x (set zs)" using zs'(3) by (metis set_mset_add_mset_insert set_mset_mset)
    then show ?thesis using True z zs' Cons.prems(1) by auto
  next
    case False
    then have "lt x z" using z(4) by (simp add: eqv_def)
    moreover have "lt x y" if "y \<in> set zs" for y
      using lt_trans [of x z y] \<open>lt x z\<close> that Cons.prems(1,2) ok_set_ok [of zs y] by auto
    ultimately show ?thesis using False z Cons.prems(1,2) by simp
  qed
qed simp

lemma set_find_existing:
  "ok_set xs \<Longrightarrow> ok x \<Longrightarrow> y \<in> set xs \<Longrightarrow> eqv x y \<Longrightarrow> set_find cless x xs = Inr (Some y)"
proof (induction xs)
  case (Cons z zs)
  have z: "ok z" "cless z x = Inr (lt z x)" "cless x z = Inr (lt x z)"
    using Cons.prems(1,2) by (auto simp: less_ok)
  show ?case
  proof (cases "y = z")
    case True
    then show ?thesis using Cons.prems(4) z by (simp add: eqv_def)
  next
    case False
    then have "lt z x" using Cons.prems z lt_eqv [of z y x] ok_set_ok [of zs y] by (auto simp: eqv_sym)
    then show ?thesis using Cons False z by simp
  qed
qed simp

end

end
