(* ===== verification/HypoColl.thy ===== *)
theory HypoColl
  imports ChartTypes StdAlgorithms OrderedSets
begin

text \<open>
  The hypotheses of a chart cell with the same target label (ChartHypothesisCollection.h,
  ChartHypothesisCollection.cpp, and the operations of ChartHypothesis.cpp they call):
  recombination of hypotheses with equal states, the beam, lazy pruning to a stack size and
  the lists of recombined hypotheses (arcs) for n-best output.

  The comparison of feature function states (FFState::Compare) is the parameter cmp; the
  difference of two state addresses, which the source takes when one of the states is
  NULL, is the parameter diff. std::sort on the whole range and std::nth\_element are the
  parameter sel (theory StdAlgorithms). The counters of SentenceStats are not modelled.
\<close>

section \<open>Recombination order\<close>

text \<open>The loop over the states of the first hypothesis reads those of the second at the same index.\<close>

fun compare_states :: "('s \<Rightarrow> 's \<Rightarrow> int) \<Rightarrow> ('s option \<Rightarrow> 's option \<Rightarrow> int)
    \<Rightarrow> 's option list \<Rightarrow> 's option list \<Rightarrow> int result" where
  "compare_states cmp diff [] _ = Inr 0"
| "compare_states cmp diff (x # xs) [] = Inl OutOfBounds"
| "compare_states cmp diff (x # xs) (y # ys) =
     (let comp = (case (x, y) of (Some a, Some b) \<Rightarrow> cmp a b | _ \<Rightarrow> diff x y)
      in if comp \<noteq> 0 then Inr comp else compare_states cmp diff xs ys)"

definition RecombineCompare :: "('s \<Rightarrow> 's \<Rightarrow> int) \<Rightarrow> ('s option \<Rightarrow> 's option \<Rightarrow> int)
    \<Rightarrow> 's hypo \<Rightarrow> 's hypo \<Rightarrow> int result" where
  "RecombineCompare cmp diff h compare = compare_states cmp diff (h_states h) (h_states compare)"

definition RecombinationOrderer :: "('s \<Rightarrow> 's \<Rightarrow> int) \<Rightarrow> ('s option \<Rightarrow> 's option \<Rightarrow> int)
    \<Rightarrow> 's hypo \<Rightarrow> 's hypo \<Rightarrow> bool result" where
  "RecombinationOrderer cmp diff hypoA hypoB =
     rbind (check (h_range hypoA = h_range hypoB)) (\<lambda>_.
     rbind (check (word_eq (GetTargetLHS hypoA) (GetTargetLHS hypoB))) (\<lambda>_.
     rbind (RecombineCompare cmp diff hypoA hypoB) (\<lambda>r.
       Inr (if r \<noteq> 0 then r < 0 else False))))"

section \<open>Arcs\<close>

fun with_arcs :: "'s hypo list option \<Rightarrow> 's hypo \<Rightarrow> 's hypo" where
  "with_arcs arcs (Hypo i tp r st bd sc _ prev win) = Hypo i tp r st bd sc arcs prev win"

fun SetWinningHypo :: "nat option \<Rightarrow> 's hypo \<Rightarrow> 's hypo" where
  "SetWinningHypo w (Hypo i tp r st bd sc arcs prev _) = Hypo i tp r st bd sc arcs prev w"

text \<open>
  AddArc of the winner: it takes over the loser's arcs, whose own pointer becomes 0, and
  then the loser.
\<close>

definition AddArc :: "'s hypo \<Rightarrow> 's hypo \<Rightarrow> 's hypo" where
  "AddArc h loserHypo =
     (let merged = (case h_arcs h of
            None \<Rightarrow> (case h_arcs loserHypo of Some l \<Rightarrow> l | None \<Rightarrow> [])
          | Some arcs \<Rightarrow> (case h_arcs loserHypo of Some l \<Rightarrow> arcs @ l | None \<Rightarrow> arcs))
      in with_arcs (Some (merged @ [with_arcs None loserHypo])) h)"

text \<open>With an n-best size of 0 the iterator of the pruning lies before the beginning.\<close>

definition hypo_CleanupArcList :: "'s hypo select \<Rightarrow> bool \<Rightarrow> nat \<Rightarrow> 's hypo \<Rightarrow> 's hypo result" where
  "hypo_CleanupArcList sel distinctNBest nBestSize h =
     (let h' = SetWinningHypo (Some (h_id h)) h in
      case h_arcs h' of
        None \<Rightarrow> Inr h'
      | Some arcs \<Rightarrow>
          rbind (if \<not> distinctNBest \<and> length arcs > nBestSize
                 then if nBestSize = 0 then Inl OutOfBounds
                      else Inr (take nBestSize (sel GetTotalScore (nBestSize - 1) arcs))
                 else Inr arcs) (\<lambda>kept.
            Inr (with_arcs (Some (map (SetWinningHypo (Some (h_id h))) kept)) h')))"

section \<open>The collection\<close>

record 's hypo_coll =
  hc_hypos :: "'s hypo list"
  hc_hyposOrdered :: "'s hypo list"
  hc_bestScore :: score
  hc_beamWidth :: score
  hc_maxHypoStackSize :: nat
  hc_nBestIsEnabled :: bool

definition ChartHypothesisCollection :: "score \<Rightarrow> nat \<Rightarrow> bool \<Rightarrow> 's hypo_coll" where
  "ChartHypothesisCollection beamWidth maxHypoStackSize nBestIsEnabled =
     \<lparr>hc_hypos = [], hc_hyposOrdered = [], hc_bestScore = NegInf, hc_beamWidth = beamWidth,
      hc_maxHypoStackSize = maxHypoStackSize, hc_nBestIsEnabled = nBestIsEnabled\<rparr>"

definition Detach :: "'s hypo \<Rightarrow> 's hypo_coll \<Rightarrow> 's hypo_coll" where
  "Detach h coll = coll\<lparr>hc_hypos := remove1 h (hc_hypos coll)\<rparr>"

text \<open>The threshold of the pruning: the priority queue pops its greatest score first.\<close>

definition prune_threshold :: "'s hypo_coll \<Rightarrow> score result" where
  "prune_threshold coll =
     (let bestScores = sort_desc id (filter (\<lambda>score. score > hc_bestScore coll + hc_beamWidth coll)
                          (map GetTotalScore (hc_hypos coll)));
          minNewSizeHeapSize = (if hc_maxHypoStackSize coll > length bestScores then length bestScores
                                else hc_maxHypoStackSize coll)
      in case drop (minNewSizeHeapSize - 1) bestScores of
           [] \<Rightarrow> Inl EmptyContainer
         | scoreThreshold # _ \<Rightarrow> Inr scoreThreshold)"

text \<open>The last resort when many hypotheses have the same score.\<close>

definition desperation_prune :: "('s hypo \<Rightarrow> 's hypo \<Rightarrow> bool result) \<Rightarrow> 's hypo select \<Rightarrow> 's hypo_coll \<Rightarrow> 's hypo_coll result" where
  "desperation_prune cless sel coll =
     (if length (hc_hypos coll) > hc_maxHypoStackSize coll * 2
      then let hyposOrdered = sel GetTotalScore (length (hc_hypos coll)) (hc_hypos coll)
           in rfold (\<lambda>hypo coll. rbind (set_find cless hypo (hc_hypos coll)) (\<lambda>found.
                case found of None \<Rightarrow> Inl CheckFailed | Some h \<Rightarrow> Inr (Detach h coll)))
              (drop (hc_maxHypoStackSize coll * 2) hyposOrdered) coll
      else Inr coll)"

definition hc_PruneToSize :: "('s hypo \<Rightarrow> 's hypo \<Rightarrow> bool result) \<Rightarrow> 's hypo select \<Rightarrow> 's hypo_coll \<Rightarrow> 's hypo_coll result" where
  "hc_PruneToSize cless sel coll =
     (if length (hc_hypos coll) > hc_maxHypoStackSize coll
      then rbind (prune_threshold coll) (\<lambda>scoreThreshold.
             desperation_prune cless sel
               (coll\<lparr>hc_hypos := filter (\<lambda>hypo. \<not> GetTotalScore hypo < scoreThreshold) (hc_hypos coll)\<rparr>))
      else Inr coll)"

text \<open>The second component is the existing hypothesis that prevented the insertion.\<close>

definition hc_Add :: "('s hypo \<Rightarrow> 's hypo \<Rightarrow> bool result) \<Rightarrow> 's hypo select \<Rightarrow> 's hypo \<Rightarrow> 's hypo_coll
    \<Rightarrow> ('s hypo_coll \<times> 's hypo option) result" where
  "hc_Add cless sel hypo coll =
     rbind (set_insert cless hypo (hc_hypos coll)) (\<lambda>(hypos, existing).
       case existing of
         Some e \<Rightarrow> Inr (coll, Some e)
       | None \<Rightarrow>
           let coll' = coll\<lparr>hc_hypos := hypos,
                 hc_bestScore := (if GetTotalScore hypo > hc_bestScore coll then GetTotalScore hypo
                                  else hc_bestScore coll)\<rparr>
           in rbind (if length hypos > sz_sub (2 * hc_maxHypoStackSize coll) 1
                     then hc_PruneToSize cless sel coll' else Inr coll') (\<lambda>coll''.
                Inr (coll'', None)))"

definition hc_AddHypothesis :: "('s hypo \<Rightarrow> 's hypo \<Rightarrow> bool result) \<Rightarrow> 's hypo select \<Rightarrow> 's hypo \<Rightarrow> 's hypo_coll
    \<Rightarrow> (bool \<times> 's hypo_coll) result" where
  "hc_AddHypothesis cless sel hypo coll =
     (if GetTotalScore hypo < hc_bestScore coll + hc_beamWidth coll then Inr (False, coll)
      else rbind (hc_Add cless sel hypo coll) (\<lambda>(coll1, existing).
        case existing of
          None \<Rightarrow> Inr (True, coll1)
        | Some hypoExisting \<Rightarrow>
            if GetTotalScore hypo > GetTotalScore hypoExisting
            then rbind (hc_Add cless sel
                         (if hc_nBestIsEnabled coll1 then AddArc hypo hypoExisting else hypo)
                         (Detach hypoExisting coll1)) (\<lambda>(coll2, existing2).
                   case existing2 of None \<Rightarrow> Inr (False, coll2) | Some _ \<Rightarrow> Inl Aborted)
            else Inr (False,
                   if hc_nBestIsEnabled coll1
                   then coll1\<lparr>hc_hypos := map (\<lambda>h. if h = hypoExisting then AddArc h hypo else h) (hc_hypos coll1)\<rparr>
                   else coll1)))"

definition hc_SortHypotheses :: "'s hypo select \<Rightarrow> 's hypo_coll \<Rightarrow> 's hypo_coll result" where
  "hc_SortHypotheses sel coll =
     rbind (check (hc_hyposOrdered coll = [])) (\<lambda>_.
       Inr (if hc_hypos coll \<noteq> []
            then coll\<lparr>hc_hyposOrdered := sel GetTotalScore (length (hc_hypos coll)) (hc_hypos coll)\<rparr>
            else coll))"

definition hc_CleanupArcList :: "'s hypo select \<Rightarrow> bool \<Rightarrow> nat \<Rightarrow> 's hypo_coll \<Rightarrow> 's hypo_coll result" where
  "hc_CleanupArcList sel distinctNBest nBestSize coll =
     rbind (rmap (hypo_CleanupArcList sel distinctNBest nBestSize) (hc_hypos coll)) (\<lambda>hypos.
       Inr (coll\<lparr>hc_hypos := hypos\<rparr>))"

lemma with_arcs_simps [simp]:
  "h_id (with_arcs a h) = h_id h" "h_tp (with_arcs a h) = h_tp h" "h_range (with_arcs a h) = h_range h"
  "h_states (with_arcs a h) = h_states h" "h_total (with_arcs a h) = h_total h" "h_arcs (with_arcs a h) = a"
  "with_arcs a (with_arcs b h) = with_arcs a h" "h_prev (with_arcs a h) = h_prev h"
  by (cases h; simp)+

lemma SetWinningHypo_simps [simp]:
  "h_id (SetWinningHypo w h) = h_id h" "h_states (SetWinningHypo w h) = h_states h"
  "h_total (SetWinningHypo w h) = h_total h" "h_arcs (SetWinningHypo w h) = h_arcs h"
  "h_winning (SetWinningHypo w h) = w"
  by (cases h; simp)+

lemma RecombinationOrderer_with_arcs [simp]:
  "RecombinationOrderer cmp diff (with_arcs a h) g = RecombinationOrderer cmp diff h g"
  "RecombinationOrderer cmp diff g (with_arcs a h) = RecombinationOrderer cmp diff g h"
  by (simp_all add: RecombinationOrderer_def RecombineCompare_def)

section \<open>What the comparison of states has to be\<close>

text \<open>
  FFState::Compare of a stateful feature function returns a negative number, 0 or a positive number
  as a total preorder does.
\<close>

locale total_compare =
  fixes cmp :: "'s \<Rightarrow> 's \<Rightarrow> int"
  assumes cmp_refl: "cmp x x = 0"
    and cmp_anti: "cmp x y < 0 \<longleftrightarrow> 0 < cmp y x"
    and cmp_trans: "cmp x y \<le> 0 \<Longrightarrow> cmp y z \<le> 0 \<Longrightarrow> cmp x z \<le> 0"
begin

definition cle :: "'s \<Rightarrow> 's \<Rightarrow> bool" where
  "cle x y \<longleftrightarrow> cmp x y \<le> 0"

lemma cmp_cle: "cmp x y < 0 \<longleftrightarrow> \<not> cle y x" "cmp x y = 0 \<longleftrightarrow> cle x y \<and> cle y x"
  using cmp_anti [of x y] cmp_anti [of y x] by (auto simp: cle_def)

lemma cle_total: "cle x y \<or> cle y x"
  using cmp_anti [of x y] by (auto simp: cle_def)

lemma cle_trans: "cle x y \<Longrightarrow> cle y z \<Longrightarrow> cle x z"
  unfolding cle_def by (rule cmp_trans)

text \<open>The order of the states of two hypotheses, where the same feature functions have a state.\<close>

fun states_less :: "'s option list \<Rightarrow> 's option list \<Rightarrow> bool" where
  "states_less (Some a # xs) (Some b # ys) \<longleftrightarrow> cmp a b < 0 \<or> (cmp a b = 0 \<and> states_less xs ys)"
| "states_less (None # xs) (None # ys) \<longleftrightarrow> states_less xs ys"
| "states_less _ _ \<longleftrightarrow> False"

abbreviation same_shape :: "'s option list \<Rightarrow> 's option list \<Rightarrow> bool" where
  "same_shape xs ys \<equiv> map Option.is_none xs = map Option.is_none ys"

lemma compare_states_less:
  "diff None None = 0 \<Longrightarrow> same_shape xs ys \<Longrightarrow>
     \<exists>c. compare_states cmp diff xs ys = Inr c \<and> (c < 0 \<longleftrightarrow> states_less xs ys) \<and> (0 < c \<longleftrightarrow> states_less ys xs)"
proof (induction xs ys rule: states_less.induct)
  case (1 a xs b ys)
  then show ?case
    using cmp_anti [of a b] cmp_anti [of b a] by (cases "cmp a b = 0") (auto simp: Let_def)
qed (simp_all add: Option.is_none_def)

lemma states_less_irrefl: "\<not> states_less xs xs"
proof (induction xs)
  case (Cons x xs)
  then show ?case by (cases x) (simp_all add: cmp_refl)
qed simp

lemma same_shapeE:
  assumes "same_shape (x # xs) ys"
  obtains y ys' where "ys = y # ys'" "(x = None) = (y = None)" "same_shape xs ys'"
  using assms by (cases ys) (auto simp: Option.is_none_def)

lemma states_less_trans:
  "same_shape xs ys \<Longrightarrow> same_shape ys zs \<Longrightarrow> states_less xs ys \<Longrightarrow> states_less ys zs \<Longrightarrow> states_less xs zs"
proof (induction xs arbitrary: ys zs)
  case (Cons x xs)
  obtain y ys' where y: "ys = y # ys'" "(x = None) = (y = None)" "same_shape xs ys'"
    using Cons.prems(1) by (rule same_shapeE)
  obtain z zs' where z: "zs = z # zs'" "(y = None) = (z = None)" "same_shape ys' zs'"
    using Cons.prems(2) y(1) same_shapeE by metis
  show ?case
  proof (cases x)
    case None
    then have "y = None" "z = None" using y(2) z(2) by auto
    then show ?thesis using None Cons.IH [OF y(3) z(3)] Cons.prems(3,4) y(1) z(1) by simp
  next
    case (Some a)
    then obtain b c where b: "y = Some b" "z = Some c" using y z by auto
    have "\<not> cle b a \<or> cle a b \<and> states_less xs ys'" "\<not> cle c b \<or> cle b c \<and> states_less ys' zs'"
      using Cons.prems(3,4) Some y z b by (auto simp: cmp_cle)
    then have "\<not> cle c a \<or> cle a c \<and> states_less xs zs'"
      using Cons.IH [OF y(3) z(3)] by (meson cle_total cle_trans)
    then have "cmp a c < 0 \<or> cmp a c = 0 \<and> states_less xs zs'" using cle_total [of a c] by (auto simp: cmp_cle)
    then show ?thesis using Some b z by simp
  qed
qed simp

lemma states_less_split:
  "same_shape xs ys \<Longrightarrow> same_shape ys zs \<Longrightarrow> states_less xs zs \<Longrightarrow> states_less xs ys \<or> states_less ys zs"
proof (induction xs arbitrary: ys zs)
  case (Cons x xs)
  obtain y ys' where y: "ys = y # ys'" "(x = None) = (y = None)" "same_shape xs ys'"
    using Cons.prems(1) by (rule same_shapeE)
  obtain z zs' where z: "zs = z # zs'" "(y = None) = (z = None)" "same_shape ys' zs'"
    using Cons.prems(2) y(1) same_shapeE by metis
  show ?case
  proof (cases x)
    case None
    then have "y = None" "z = None" using y(2) z(2) by auto
    then show ?thesis using None Cons.IH [OF y(3) z(3)] Cons.prems(3) y(1) z(1) by simp
  next
    case (Some a)
    then obtain b c where b: "y = Some b" "z = Some c" using y z by auto
    have "\<not> cle c a \<or> cle a c \<and> states_less xs zs'" using Cons.prems(3) Some y z b by (auto simp: cmp_cle)
    then have "\<not> cle b a \<or> cle a b \<and> states_less xs ys' \<or> \<not> cle c b \<or> cle b c \<and> states_less ys' zs'"
      using Cons.IH [OF y(3) z(3)] by (meson cle_total cle_trans)
    then have "cmp a b < 0 \<or> cmp a b = 0 \<and> states_less xs ys' \<or> cmp b c < 0 \<or> cmp b c = 0 \<and> states_less ys' zs'"
      using cle_total [of a b] cle_total [of b c] by (auto simp: cmp_cle)
    then show ?thesis using Some b z y by auto
  qed
qed simp

end

text \<open>The hypotheses of one collection: same range, same label, states of the same feature functions.\<close>

definition ok_hypo :: "words_range \<Rightarrow> word \<Rightarrow> bool list \<Rightarrow> 's hypo \<Rightarrow> bool" where
  "ok_hypo rng lhs shape h \<longleftrightarrow>
     h_range h = rng \<and> GetTargetLHS h = lhs \<and> map Option.is_none (h_states h) = shape"

lemma ok_hypo_with_arcs [simp]: "ok_hypo rng lhs shape (with_arcs a h) = ok_hypo rng lhs shape h"
  by (simp add: ok_hypo_def)

lemma word_eq_refl [simp]: "word_eq w w"
  by (simp add: word_eq_iff)

locale hypo_order = total_compare cmp + partial_sorting sel
  for cmp :: "'s \<Rightarrow> 's \<Rightarrow> int" and sel :: "'s hypo select" +
  fixes diff :: "'s option \<Rightarrow> 's option \<Rightarrow> int" and rng :: words_range and lhs :: word and shape :: "bool list"
  assumes diff_None: "diff None None = 0"
begin

sublocale recomb: ordered_by "RecombinationOrderer cmp diff"
  "\<lambda>x y. states_less (h_states x) (h_states y)" "ok_hypo rng lhs shape"
proof
  fix x y z :: "'s hypo"
  assume x: "ok_hypo rng lhs shape x"
  show "\<not> states_less (h_states x) (h_states x)" by (rule states_less_irrefl)
  assume y: "ok_hypo rng lhs shape y"
  have xy: "same_shape (h_states x) (h_states y)" using x y by (simp add: ok_hypo_def)
  obtain c where "compare_states cmp diff (h_states x) (h_states y) = Inr c"
      "c < 0 \<longleftrightarrow> states_less (h_states x) (h_states y)"
    using compare_states_less [of diff "h_states x" "h_states y", OF diff_None xy] by blast
  then show "RecombinationOrderer cmp diff x y = Inr (states_less (h_states x) (h_states y))"
    using x y by (auto simp: RecombinationOrderer_def RecombineCompare_def ok_hypo_def)
  assume z: "ok_hypo rng lhs shape z"
  have yz: "same_shape (h_states y) (h_states z)" using y z by (simp add: ok_hypo_def)
  show "states_less (h_states x) (h_states y) \<Longrightarrow> states_less (h_states y) (h_states z)
      \<Longrightarrow> states_less (h_states x) (h_states z)"
    by (rule states_less_trans [OF xy yz])
  show "states_less (h_states x) (h_states z)
      \<Longrightarrow> states_less (h_states x) (h_states y) \<or> states_less (h_states y) (h_states z)"
    by (rule states_less_split [OF xy yz])
qed

lemma eqv_RecombineCompare:
  assumes "ok_hypo rng lhs shape x" "ok_hypo rng lhs shape y"
  shows "recomb.eqv x y \<longleftrightarrow> RecombineCompare cmp diff x y = Inr 0"
proof -
  have "same_shape (h_states x) (h_states y)" using assms by (simp add: ok_hypo_def)
  from compare_states_less [of diff "h_states x" "h_states y", OF diff_None this] show ?thesis
    by (auto simp: recomb.eqv_def RecombineCompare_def not_less)
qed

end

end
