(* ===== verification/RuleCubes.thy ===== *)
theory RuleCubes
  imports TransOptList HypoColl
begin

text \<open>
  Cube pruning: the creation of hypotheses from a translation option in the order of their
  scores (RuleCube.h, RuleCube.cpp, RuleCubeItem.h, RuleCubeItem.cpp, RuleCubeQueue.h,
  RuleCubeQueue.cpp, and the constructor and CalcScore of ChartHypothesis.cpp).

  An item of a cube is a choice of a target phrase and of one hypothesis for every
  non-terminal, each by its position in its list; the lists are those of the translation option of the
  cube. Pointers to target phrases and hypotheses are compared by the identifiers tp\_ptr and
  h\_id. The stateful feature functions (the language models) and the top elements of
  the two priority queues are parameters.
\<close>

section \<open>Scores of a hypothesis\<close>

text \<open>
  What the creation of a hypothesis reads: whether scoring is lazy, the number of score
  components, their weights, and the feature functions, which get the hypothesis as
  evaluated so far with their index and return a state and the new score breakdown.
\<close>

record 's cube_env =
  ce_lazy :: bool
  ce_components :: nat
  ce_weights :: "real list"
  ce_ffs :: "('s hypo \<Rightarrow> nat \<Rightarrow> real list \<Rightarrow> 's option \<times> real list) list"

definition GetWeightedScore :: "real list \<Rightarrow> real list \<Rightarrow> real" where
  "GetWeightedScore weights scores = sum_list (map2 (*) scores weights)"

fun set_scores :: "'s option list \<Rightarrow> real list \<Rightarrow> score \<Rightarrow> 's hypo \<Rightarrow> 's hypo" where
  "set_scores st bd sc (Hypo i tp r _ _ _ arcs prev win) = Hypo i tp r st bd sc arcs prev win"

definition CalcScore :: "'s cube_env \<Rightarrow> 's hypo \<Rightarrow> 's hypo result" where
  "CalcScore env h =
     rbind (rfold (\<lambda>prevHypo bd. PlusEquals bd (h_breakdown prevHypo)) (h_prev h) (h_breakdown h)) (\<lambda>bd.
     rbind (PlusEquals bd (tp_breakdown (h_tp h))) (\<lambda>bd1.
       let h1 = set_scores (h_states h) bd1 (h_total h) h;
           h2 = fold (\<lambda>(i, ff) h. case ff h i (h_breakdown h) of
                  (st, bd) \<Rightarrow> set_scores ((h_states h)[i := st]) bd (h_total h) h)
                (enumerate 0 (ce_ffs env)) h1
       in Inr (set_scores (h_states h2) (h_breakdown h2)
                (Fin (GetWeightedScore (ce_weights env) (h_breakdown h2))) h2)))"

section \<open>Items\<close>

record 's cube_item =
  ci_pos :: nat
  ci_hypoPos :: "nat list"
  ci_hypothesis :: "'s hypo option"
  ci_score :: score

definition GetTargetPhrase :: "'s trans_option \<Rightarrow> 's cube_item \<Rightarrow> target_phrase result" where
  "GetTargetPhrase opt item = array_get (to_tpc opt) (ci_pos item)"

definition GetHypotheses :: "'s trans_option \<Rightarrow> 's cube_item \<Rightarrow> 's hypo list result" where
  "GetHypotheses opt item = rmap (\<lambda>(stack, pos). array_get stack pos) (zip (to_stackVec opt) (ci_hypoPos item))"

definition HasMoreTranslations :: "'s trans_option \<Rightarrow> 's cube_item \<Rightarrow> bool" where
  "HasMoreTranslations opt item \<longleftrightarrow> ci_pos item + 1 < length (to_tpc opt)"

definition HasMoreHypo :: "'s hypo list \<Rightarrow> nat \<Rightarrow> bool" where
  "HasMoreHypo stack pos \<longleftrightarrow> pos + 1 < length stack"

text \<open>The score is set before it is read.\<close>

definition RuleCubeItem :: "'s trans_option \<Rightarrow> 's cube_item result" where
  "RuleCubeItem opt =
     rbind (rmap (\<lambda>stack. rbind (assert (stack \<noteq> [])) (\<lambda>_. Inr 0)) (to_stackVec opt)) (\<lambda>dims.
       Inr \<lparr>ci_pos = 0, ci_hypoPos = dims, ci_hypothesis = None, ci_score = Fin 0\<rparr>)"

text \<open>The copy of an item that differs in one dimension; None is the translation dimension, -1 in the source.\<close>

definition NextItem :: "'s cube_item \<Rightarrow> nat option \<Rightarrow> 's cube_item" where
  "NextItem item hypoDimensionIncr =
     (case hypoDimensionIncr of
        None \<Rightarrow> item\<lparr>ci_pos := ci_pos item + 1, ci_hypothesis := None\<rparr>
      | Some i \<Rightarrow> item\<lparr>ci_hypoPos := (ci_hypoPos item)[i := ci_hypoPos item ! i + 1], ci_hypothesis := None\<rparr>)"

definition EstimateScore :: "'s trans_option \<Rightarrow> 's cube_item \<Rightarrow> 's cube_item result" where
  "EstimateScore opt item =
     rbind (GetTargetPhrase opt item) (\<lambda>tp.
     rbind (GetHypotheses opt item) (\<lambda>hs.
       Inr (item\<lparr>ci_score := fold (\<lambda>h sc. sc + GetTotalScore h) hs (tp_futureScore tp)\<rparr>)))"

text \<open>
  The constructor of ChartHypothesis; it takes the next identifier from the manager. The score is set by CalcScore.
\<close>

definition ChartHypothesis :: "'s cube_env \<Rightarrow> 's trans_option \<Rightarrow> 's cube_item \<Rightarrow> nat \<Rightarrow> 's hypo result" where
  "ChartHypothesis env opt item newId =
     rbind (GetTargetPhrase opt item) (\<lambda>tp.
     rbind (GetHypotheses opt item) (\<lambda>hs.
       Inr (Hypo newId tp (to_range opt) (replicate (length (ce_ffs env)) None)
              (replicate (ce_components env) 0) (Fin 0) None hs None)))"

definition CreateHypothesis :: "'s cube_env \<Rightarrow> 's trans_option \<Rightarrow> 's cube_item \<Rightarrow> nat \<Rightarrow> ('s cube_item \<times> nat) result" where
  "CreateHypothesis env opt item newId =
     rbind (ChartHypothesis env opt item newId) (\<lambda>h0.
     rbind (CalcScore env h0) (\<lambda>h.
       Inr (item\<lparr>ci_hypothesis := Some h, ci_score := GetTotalScore h\<rparr>, Suc newId)))"

definition ReleaseHypothesis :: "'s cube_item \<Rightarrow> 's hypo result" where
  "ReleaseHypothesis item = (case ci_hypothesis item of None \<Rightarrow> Inl CheckFailed | Some h \<Rightarrow> Inr h)"

section \<open>A cube\<close>

text \<open>RuleCubeItemEqualityPred: the same hypotheses and the same target phrase.\<close>

definition item_eq :: "'s trans_option \<Rightarrow> 's cube_item \<Rightarrow> 's cube_item \<Rightarrow> bool result" where
  "item_eq opt p q =
     rbind (GetHypotheses opt p) (\<lambda>hp. rbind (GetHypotheses opt q) (\<lambda>hq.
     rbind (GetTargetPhrase opt p) (\<lambda>tp. rbind (GetTargetPhrase opt q) (\<lambda>tq.
       Inr (map h_id hp = map h_id hq \<and> tp_ptr tp = tp_ptr tq)))))"

record 's rule_cube =
  rc_transOpt :: "'s trans_option"
  rc_covered :: "'s cube_item list"
  rc_queue :: "'s cube_item list"

definition score_item :: "'s cube_env \<Rightarrow> 's trans_option \<Rightarrow> 's cube_item \<Rightarrow> nat \<Rightarrow> ('s cube_item \<times> nat) result" where
  "score_item env opt item n =
     (if ce_lazy env then rbind (EstimateScore opt item) (\<lambda>it. Inr (it, n))
      else CreateHypothesis env opt item n)"

definition RuleCube :: "'s cube_env \<Rightarrow> 's trans_option \<Rightarrow> nat \<Rightarrow> ('s rule_cube \<times> nat) result" where
  "RuleCube env opt n =
     rbind (RuleCubeItem opt) (\<lambda>item.
     rbind (score_item env opt item n) (\<lambda>(it, n').
       Inr (\<lparr>rc_transOpt = opt, rc_covered = [it], rc_queue = [it]\<rparr>, n')))"

fun is_covered :: "'s trans_option \<Rightarrow> 's cube_item \<Rightarrow> 's cube_item list \<Rightarrow> bool result" where
  "is_covered opt item [] = Inr False"
| "is_covered opt item (p # ps) =
     rbind (item_eq opt item p) (\<lambda>b. if b then Inr True else is_covered opt item ps)"

definition CreateNeighbor :: "'s cube_env \<Rightarrow> 's cube_item \<Rightarrow> nat option \<Rightarrow> 's rule_cube \<times> nat \<Rightarrow> ('s rule_cube \<times> nat) result" where
  "CreateNeighbor env item dimensionIndex st =
     (case st of (cube, n) \<Rightarrow>
        let newItem = NextItem item dimensionIndex in
        rbind (is_covered (rc_transOpt cube) newItem (rc_covered cube)) (\<lambda>seen.
          if seen then Inr (cube, n)
          else rbind (score_item env (rc_transOpt cube) newItem n) (\<lambda>(it, n').
            Inr (cube\<lparr>rc_covered := rc_covered cube @ [it], rc_queue := rc_queue cube @ [it]\<rparr>, n'))))"

definition CreateNeighbors :: "'s cube_env \<Rightarrow> 's cube_item \<Rightarrow> 's rule_cube \<times> nat \<Rightarrow> ('s rule_cube \<times> nat) result" where
  "CreateNeighbors env item st =
     rbind (if HasMoreTranslations (rc_transOpt (fst st)) item then CreateNeighbor env item None st else Inr st)
       (rfold (\<lambda>(i, stack, pos) st. if HasMoreHypo stack pos then CreateNeighbor env item (Some i) st else Inr st)
          (enumerate 0 (zip (to_stackVec (rc_transOpt (fst st))) (ci_hypoPos item))))"

definition cube_Pop :: "'s cube_env \<Rightarrow> 's cube_item pick \<Rightarrow> 's rule_cube \<times> nat
    \<Rightarrow> ('s cube_item \<times> 's rule_cube \<times> nat) result" where
  "cube_Pop env pick st =
     (case st of (cube, n) \<Rightarrow>
        rbind (pq_pop pick ci_score (rc_queue cube)) (\<lambda>(item, rest).
        rbind (CreateNeighbors env item (cube\<lparr>rc_queue := rest\<rparr>, n)) (\<lambda>(cube', n').
          Inr (item, cube', n'))))"

definition GetTopScore :: "'s cube_item pick \<Rightarrow> 's rule_cube \<Rightarrow> score result" where
  "GetTopScore pick cube =
     rbind (check (rc_queue cube \<noteq> [])) (\<lambda>_.
     rbind (array_get (rc_queue cube) (pick ci_score (rc_queue cube))) (\<lambda>item. Inr (ci_score item)))"

section \<open>The queue of cubes\<close>

text \<open>The cubes in the queue with the scores of their top items, which RuleCubeOrderer compares.\<close>

definition queue_Pop :: "'s cube_env \<Rightarrow> 's cube_item pick \<Rightarrow> (score \<times> 's rule_cube) pick
    \<Rightarrow> 's rule_cube list \<times> nat \<Rightarrow> ('s hypo \<times> 's rule_cube list \<times> nat) result" where
  "queue_Pop env pick cpick st =
     (case st of (cubes, n) \<Rightarrow>
        rbind (rmap (\<lambda>c. rbind (GetTopScore pick c) (\<lambda>s. Inr (s, c))) cubes) (\<lambda>scored.
        rbind (pq_pop cpick fst scored) (\<lambda>((_, cube), rest).
        rbind (cube_Pop env pick (cube, n)) (\<lambda>(item, cube', n1).
        rbind (if ce_lazy env then CreateHypothesis env (rc_transOpt cube') item n1 else Inr (item, n1)) (\<lambda>(item', n2).
        rbind (ReleaseHypothesis item') (\<lambda>hypo.
          Inr (hypo, (if rc_queue cube' \<noteq> [] then map snd rest @ [cube'] else map snd rest), n2)))))))"

end
