(* ===== verification/RuleCubeProps.thy ===== *)
theory RuleCubeProps
  imports RuleCubes
begin

text \<open>
  Cube pruning (theory RuleCubes) as a best-first search of a grid: the combinations of a
  cube are the points of a grid, a queue holds its frontier, and every combination that has not
  been taken lies above a point of the frontier.
\<close>

section \<open>The grid of a translation option\<close>

type_synonym point = "nat \<times> nat list"

definition combos :: "'s trans_option \<Rightarrow> point set" where
  "combos opt = {(i, js). i < length (to_tpc opt) \<and> list_all2 (\<lambda>j stack. j < length stack) js (to_stackVec opt)}"

definition pos_of :: "'s cube_item \<Rightarrow> point" where
  "pos_of item = (ci_pos item, ci_hypoPos item)"

definition origin :: "'s trans_option \<Rightarrow> point" where
  "origin opt = (0, replicate (length (to_stackVec opt)) 0)"

fun next_point :: "nat option \<Rightarrow> point \<Rightarrow> point" where
  "next_point None (i, js) = (Suc i, js)"
| "next_point (Some k) (i, js) = (i, js[k := Suc (js ! k)])"

fun chosen :: "'s trans_option \<Rightarrow> point \<Rightarrow> 's hypo list" where
  "chosen opt (i, js) = map2 (!) (to_stackVec opt) js"

definition chosen_tp :: "'s trans_option \<Rightarrow> point \<Rightarrow> target_phrase" where
  "chosen_tp opt p = to_tpc opt ! fst p"

definition estimate_of :: "'s trans_option \<Rightarrow> point \<Rightarrow> score" where
  "estimate_of opt p = fold (\<lambda>h sc. sc + GetTotalScore h) (chosen opt p) (tp_futureScore (chosen_tp opt p))"

text \<open>What the decoder guarantees: nothing is empty, and the pointers in a list are different.\<close>

definition wf_option :: "'s cube_env \<Rightarrow> 's trans_option \<Rightarrow> bool" where
  "wf_option env opt \<longleftrightarrow> to_tpc opt \<noteq> [] \<and> distinct (map tp_ptr (to_tpc opt)) \<and>
     (\<forall>tp \<in> set (to_tpc opt). length (tp_breakdown tp) \<le> ce_components env) \<and>
     (\<forall>stack \<in> set (to_stackVec opt). stack \<noteq> [] \<and> distinct (map h_id stack) \<and>
        (\<forall>h \<in> set stack. length (h_breakdown h) \<le> ce_components env))"

lemma next_item_pos [simp]: "pos_of (NextItem item d) = next_point d (pos_of item)"
  by (cases d) (auto simp: pos_of_def NextItem_def)

lemma origin_combos: "wf_option env opt \<Longrightarrow> origin opt \<in> combos opt"
  by (auto simp: combos_def origin_def wf_option_def list_all2_conv_all_nth)

lemma combos_length: "(i, js) \<in> combos opt \<Longrightarrow> length js = length (to_stackVec opt)"
  by (auto simp: combos_def list_all2_lengthD)

lemma GetTargetPhrase_combo: "pos_of item \<in> combos opt \<Longrightarrow> GetTargetPhrase opt item = Inr (chosen_tp opt (pos_of item))"
  by (auto simp: combos_def pos_of_def GetTargetPhrase_def chosen_tp_def)

lemma GetHypotheses_combo:
  assumes "pos_of item \<in> combos opt"
  shows "GetHypotheses opt item = Inr (chosen opt (pos_of item))"
proof -
  have "list_all2 (\<lambda>j stack. j < length stack) (ci_hypoPos item) (to_stackVec opt)"
    using assms by (auto simp: combos_def pos_of_def)
  then have "rmap (\<lambda>(stack, pos). array_get stack pos) (zip (to_stackVec opt) (ci_hypoPos item))
      = Inr (map (\<lambda>(stack, pos). stack ! pos) (zip (to_stackVec opt) (ci_hypoPos item)))"
    by (intro rmap_Inr_map) (auto simp: list_all2_conv_all_nth set_zip)
  then show ?thesis by (simp add: GetHypotheses_def pos_of_def)
qed

lemma chosen_in:
  assumes "p \<in> combos opt" "h \<in> set (chosen opt p)"
  shows "\<exists>stack \<in> set (to_stackVec opt). h \<in> set stack"
proof -
  obtain i js where p: "p = (i, js)" by (cases p)
  obtain k where k: "k < length (chosen opt p)" "chosen opt p ! k = h" using assms(2) by (auto simp: in_set_conv_nth)
  then have "k < length (to_stackVec opt)" "js ! k < length (to_stackVec opt ! k)" "h = to_stackVec opt ! k ! (js ! k)"
    using assms(1) by (auto simp: p combos_def list_all2_conv_all_nth)
  then show ?thesis by (metis nth_mem)
qed

text \<open>Equal items are items at the same point.\<close>

lemma chosen_inj:
  assumes "wf_option env opt" "(i, js) \<in> combos opt" "(i', js') \<in> combos opt"
    and "map h_id (chosen opt (i, js)) = map h_id (chosen opt (i', js'))"
  shows "js = js'"
proof (rule nth_equalityI)
  have len: "length js = length (to_stackVec opt)" "length js' = length (to_stackVec opt)"
    using assms(2,3) combos_length by auto
  then show "length js = length js'" by simp
  fix k
  assume "k < length js"
  then have k: "k < length (to_stackVec opt)" using len by simp
  let ?s = "to_stackVec opt ! k"
  have "h_id (?s ! (js ! k)) = map h_id (chosen opt (i, js)) ! k" using k len by simp
  also have "\<dots> = h_id (?s ! (js' ! k))" unfolding assms(4) using k len by simp
  finally have "map h_id ?s ! (js ! k) = map h_id ?s ! (js' ! k)" "js ! k < length ?s" "js' ! k < length ?s"
    using assms(2,3) k by (auto simp: combos_def list_all2_conv_all_nth)
  moreover have "distinct (map h_id ?s)" using assms(1) k by (auto simp: wf_option_def)
  ultimately show "js ! k = js' ! k" by (simp add: nth_eq_iff_index_eq del: nth_map)
qed

lemma item_eq_combo:
  assumes "wf_option env opt" "pos_of p \<in> combos opt" "pos_of q \<in> combos opt"
  shows "item_eq opt p q = Inr (pos_of p = pos_of q)"
proof -
  have "tp_ptr (chosen_tp opt (pos_of p)) = tp_ptr (chosen_tp opt (pos_of q)) \<longleftrightarrow> ci_pos p = ci_pos q"
    using assms nth_eq_iff_index_eq [of "map tp_ptr (to_tpc opt)" "ci_pos p" "ci_pos q"]
    by (auto simp: chosen_tp_def pos_of_def combos_def wf_option_def)
  moreover have "map h_id (chosen opt (pos_of p)) = map h_id (chosen opt (pos_of q)) \<longleftrightarrow> ci_hypoPos p = ci_hypoPos q"
    using chosen_inj [OF assms(1), of "ci_pos p" "ci_hypoPos p" "ci_pos q" "ci_hypoPos q"] assms(2,3)
    by (auto simp: pos_of_def)
  moreover have "pos_of p = pos_of q \<longleftrightarrow> ci_pos p = ci_pos q \<and> ci_hypoPos p = ci_hypoPos q" by (simp add: pos_of_def)
  ultimately show ?thesis
    by (simp add: item_eq_def GetTargetPhrase_combo GetHypotheses_combo assms(2,3) conj_commute)
qed

lemma is_covered_combo:
  assumes "wf_option env opt" "pos_of item \<in> combos opt" "\<forall>p \<in> set ps. pos_of p \<in> combos opt"
  shows "is_covered opt item ps = Inr (pos_of item \<in> pos_of ` set ps)"
  using assms(3) by (induction ps) (auto simp: item_eq_combo [OF assms(1,2)])

section \<open>Scoring\<close>

lemma PlusEquals_total: "length rhs \<le> length scores \<Longrightarrow> \<exists>r. PlusEquals scores rhs = Inr r \<and> length r = length scores"
  by (simp add: PlusEquals_def)

lemma set_scores_simps [simp]:
  "h_id (set_scores st bd sc h) = h_id h" "h_tp (set_scores st bd sc h) = h_tp h"
  "h_range (set_scores st bd sc h) = h_range h" "h_prev (set_scores st bd sc h) = h_prev h"
  "h_arcs (set_scores st bd sc h) = h_arcs h" "h_total (set_scores st bd sc h) = sc"
  "h_winning (set_scores st bd sc h) = h_winning h" "h_states (set_scores st bd sc h) = st"
  "h_breakdown (set_scores st bd sc h) = bd"
  by (cases h; simp)+

text \<open>The hypothesis of a point before it is scored, and after.\<close>

definition new_hypo :: "'s cube_env \<Rightarrow> 's trans_option \<Rightarrow> point \<Rightarrow> nat \<Rightarrow> 's hypo" where
  "new_hypo env opt p n = Hypo n (chosen_tp opt p) (to_range opt) (replicate (length (ce_ffs env)) None)
     (replicate (ce_components env) 0) (Fin 0) None (chosen opt p) None"

definition made_from :: "'s cube_env \<Rightarrow> 's trans_option \<Rightarrow> point \<Rightarrow> 's hypo \<Rightarrow> bool" where
  "made_from env opt p h \<longleftrightarrow> (\<exists>n. CalcScore env (new_hypo env opt p n) = Inr h)"

lemma CalcScore_total:
  assumes "\<forall>g \<in> set (h_prev h). length (h_breakdown g) \<le> length (h_breakdown h)"
    and "length (tp_breakdown (h_tp h)) \<le> length (h_breakdown h)"
  shows "\<exists>h'. CalcScore env h = Inr h' \<and> h_id h' = h_id h \<and> h_tp h' = h_tp h \<and> h_prev h' = h_prev h
    \<and> h_range h' = h_range h \<and> h_arcs h' = h_arcs h \<and> h_winning h' = h_winning h \<and> (\<exists>x. GetTotalScore h' = Fin x)"
proof -
  let ?n = "length (h_breakdown h)"
  have "\<exists>bd'. rfold (\<lambda>prevHypo bd. PlusEquals bd (h_breakdown prevHypo)) gs bd = Inr bd' \<and> length bd' = ?n"
    if "length bd = ?n" "\<forall>g \<in> set gs. length (h_breakdown g) \<le> ?n" for gs bd
    using that
  proof (induction gs arbitrary: bd)
    case (Cons g gs)
    then obtain r where "PlusEquals bd (h_breakdown g) = Inr r" "length r = ?n"
      using PlusEquals_total [of "h_breakdown g" bd] by auto
    then show ?case using Cons by simp
  qed simp
  then obtain bd where bd: "rfold (\<lambda>prevHypo bd. PlusEquals bd (h_breakdown prevHypo)) (h_prev h) (h_breakdown h) = Inr bd"
    "length bd = ?n" using assms(1) by blast
  then obtain bd1 where bd1: "PlusEquals bd (tp_breakdown (h_tp h)) = Inr bd1"
    using PlusEquals_total [of "tp_breakdown (h_tp h)" bd] assms(2) by auto
  define step where "step = (\<lambda>(i, ff) h. case ff h i (h_breakdown h) of
    (st, bd) \<Rightarrow> set_scores ((h_states h)[i := st]) bd (h_total h) (h :: 'a hypo))"
  have keep: "h_id (fold step ffs g) = h_id g \<and> h_tp (fold step ffs g) = h_tp g \<and> h_prev (fold step ffs g) = h_prev g
      \<and> h_range (fold step ffs g) = h_range g \<and> h_arcs (fold step ffs g) = h_arcs g \<and> h_winning (fold step ffs g) = h_winning g"
    for ffs :: "(nat \<times> ('a hypo \<Rightarrow> nat \<Rightarrow> real list \<Rightarrow> 'a option \<times> real list)) list" and g
    by (induction ffs arbitrary: g) (auto simp: step_def split: prod.splits)
  let ?h2 = "fold step (enumerate 0 (ce_ffs env)) (set_scores (h_states h) bd1 (h_total h) h)"
  have "CalcScore env h = Inr (set_scores (h_states ?h2) (h_breakdown ?h2)
      (Fin (GetWeightedScore (ce_weights env) (h_breakdown ?h2))) ?h2)"
    by (simp add: CalcScore_def bd(1) bd1 Let_def step_def)
  then show ?thesis using keep by simp
qed

lemma CreateHypothesis_combo:
  assumes "wf_option env opt" "pos_of item \<in> combos opt"
  shows "\<exists>h. CreateHypothesis env opt item n = Inr (item\<lparr>ci_hypothesis := Some h, ci_score := GetTotalScore h\<rparr>, Suc n)
    \<and> made_from env opt (pos_of item) h"
proof -
  let ?h0 = "new_hypo env opt (pos_of item) n"
  have create: "ChartHypothesis env opt item n = Inr ?h0"
    by (simp add: ChartHypothesis_def GetTargetPhrase_combo GetHypotheses_combo assms(2) new_hypo_def)
  moreover have "\<forall>g \<in> set (h_prev ?h0). length (h_breakdown g) \<le> length (h_breakdown ?h0)"
    using assms(1) chosen_in [OF assms(2)] by (fastforce simp: wf_option_def new_hypo_def)
  moreover have "length (tp_breakdown (h_tp ?h0)) \<le> length (h_breakdown ?h0)"
    using assms by (auto simp: wf_option_def chosen_tp_def combos_def new_hypo_def)
  ultimately obtain h where "CalcScore env ?h0 = Inr h"
    using CalcScore_total [of ?h0 env] by auto
  then show ?thesis using create by (intro exI [of _ h]) (auto simp: CreateHypothesis_def made_from_def)
qed

lemma made_fromD:
  assumes "wf_option env opt" "p \<in> combos opt" "made_from env opt p h"
  shows "h_tp h = chosen_tp opt p" "h_prev h = chosen opt p" "h_range h = to_range opt"
    "h_arcs h = None" "h_winning h = None" "\<exists>x. GetTotalScore h = Fin x"
proof -
  obtain n where n: "CalcScore env (new_hypo env opt p n) = Inr h" using assms(3) by (auto simp: made_from_def)
  have "\<forall>g \<in> set (h_prev (new_hypo env opt p n)). length (h_breakdown g) \<le> length (h_breakdown (new_hypo env opt p n))"
    using assms(1) chosen_in [OF assms(2)] by (fastforce simp: wf_option_def new_hypo_def)
  moreover have "length (tp_breakdown (h_tp (new_hypo env opt p n))) \<le> length (h_breakdown (new_hypo env opt p n))"
    using assms(1,2) by (auto simp: wf_option_def chosen_tp_def combos_def new_hypo_def)
  ultimately show "h_tp h = chosen_tp opt p" "h_prev h = chosen opt p" "h_range h = to_range opt"
    "h_arcs h = None" "h_winning h = None" "\<exists>x. GetTotalScore h = Fin x"
    using CalcScore_total [of "new_hypo env opt p n" env] n by (auto simp: new_hypo_def)
qed

text \<open>An item as the queue holds it.\<close>

definition item_ok :: "'s cube_env \<Rightarrow> 's trans_option \<Rightarrow> 's cube_item \<Rightarrow> bool" where
  "item_ok env opt item \<longleftrightarrow> pos_of item \<in> combos opt \<and>
     (if ce_lazy env then ci_score item = estimate_of opt (pos_of item)
      else \<exists>h. ci_hypothesis item = Some h \<and> made_from env opt (pos_of item) h \<and> ci_score item = GetTotalScore h)"

lemma pos_of_update [simp]:
  "pos_of (item\<lparr>ci_score := s\<rparr>) = pos_of item" "pos_of (item\<lparr>ci_hypothesis := h\<rparr>) = pos_of item"
  by (simp_all add: pos_of_def)

lemma score_item_combo:
  assumes "wf_option env opt" "pos_of item \<in> combos opt"
  shows "\<exists>it n'. score_item env opt item n = Inr (it, n') \<and> item_ok env opt it \<and> pos_of it = pos_of item"
proof (cases "ce_lazy env")
  case True
  then show ?thesis
    using assms by (simp add: score_item_def EstimateScore_def GetTargetPhrase_combo GetHypotheses_combo
        item_ok_def estimate_of_def)
next
  case False
  then show ?thesis
    using CreateHypothesis_combo [OF assms, of n] assms(2) by (auto simp: score_item_def item_ok_def)
qed

section \<open>The invariant of the search\<close>

text \<open>
  The points taken are P: the covered points are those taken and those in the queue. In a
  closed cube the neighbours of a taken point are covered.
\<close>

definition cube_base :: "'s cube_env \<Rightarrow> 's trans_option \<Rightarrow> point set \<Rightarrow> 's rule_cube \<Rightarrow> bool" where
  "cube_base env opt P cube \<longleftrightarrow> rc_transOpt cube = opt \<and>
     (\<forall>item \<in> set (rc_queue cube). item_ok env opt item) \<and>
     (\<forall>item \<in> set (rc_covered cube). pos_of item \<in> combos opt) \<and>
     distinct (map pos_of (rc_queue cube)) \<and> P \<inter> pos_of ` set (rc_queue cube) = {} \<and>
     pos_of ` set (rc_covered cube) = P \<union> pos_of ` set (rc_queue cube) \<and> origin opt \<in> pos_of ` set (rc_covered cube)"

definition cube_closed :: "'s trans_option \<Rightarrow> point set \<Rightarrow> 's rule_cube \<Rightarrow> bool" where
  "cube_closed opt P cube \<longleftrightarrow> (\<forall>p \<in> P. \<forall>d. (\<forall>k. d = Some k \<longrightarrow> k < length (to_stackVec opt)) \<longrightarrow>
     next_point d p \<in> combos opt \<longrightarrow> next_point d p \<in> pos_of ` set (rc_covered cube))"

lemma RuleCube_base:
  assumes "wf_option env opt"
  shows "\<exists>cube n'. RuleCube env opt n = Inr (cube, n') \<and> cube_base env opt {} cube \<and> cube_closed opt {} cube"
proof -
  have "rmap (\<lambda>stack. rbind (assert (stack \<noteq> [])) (\<lambda>_. Inr (0 :: nat))) (to_stackVec opt) = Inr (map (\<lambda>_. 0) (to_stackVec opt))"
    using assms by (intro rmap_Inr_map) (auto simp: wf_option_def)
  then have "RuleCubeItem opt = Inr \<lparr>ci_pos = 0, ci_hypoPos = map (\<lambda>_. 0) (to_stackVec opt), ci_hypothesis = None, ci_score = Fin 0\<rparr>"
    by (simp add: RuleCubeItem_def)
  then obtain item where item: "RuleCubeItem opt = Inr item" "pos_of item = origin opt"
    by (simp add: pos_of_def origin_def map_replicate_const)
  then obtain it n' where "score_item env opt item n = Inr (it, n')" "item_ok env opt it" "pos_of it = origin opt"
    using score_item_combo [OF assms, of item n] origin_combos [OF assms] by auto
  then show ?thesis
    using item origin_combos [OF assms] by (simp add: RuleCube_def cube_base_def cube_closed_def)
qed

lemma CreateNeighbor_base:
  assumes "wf_option env opt" "cube_base env opt P cube" "next_point d (pos_of item) \<in> combos opt"
  shows "\<exists>cube' n'. CreateNeighbor env item d (cube, n) = Inr (cube', n') \<and> cube_base env opt P cube'
    \<and> pos_of ` set (rc_covered cube') = insert (next_point d (pos_of item)) (pos_of ` set (rc_covered cube))"
proof -
  let ?new = "NextItem item d"
  have opt: "rc_transOpt cube = opt" using assms(2) by (simp add: cube_base_def)
  have seen: "is_covered opt ?new (rc_covered cube) = Inr (pos_of ?new \<in> pos_of ` set (rc_covered cube))"
    using assms by (intro is_covered_combo) (auto simp: cube_base_def)
  show ?thesis
  proof (cases "pos_of ?new \<in> pos_of ` set (rc_covered cube)")
    case True
    then show ?thesis using assms(2) seen opt by (simp add: CreateNeighbor_def insert_absorb)
  next
    case False
    obtain it n' where it: "score_item env opt ?new n = Inr (it, n')" "item_ok env opt it" "pos_of it = pos_of ?new"
      using score_item_combo [OF assms(1), of ?new n] assms(3) by auto
    let ?cube = "cube\<lparr>rc_covered := rc_covered cube @ [it], rc_queue := rc_queue cube @ [it]\<rparr>"
    have "CreateNeighbor env item d (cube, n) = Inr (?cube, n')"
      using seen False it(1) opt by (simp add: CreateNeighbor_def)
    moreover have "cube_base env opt P ?cube"
      using assms(2,3) False it by (auto simp: cube_base_def)
    ultimately show ?thesis using it(3) by auto
  qed
qed

lemma CreateNeighbor_if:
  assumes "wf_option env opt" "cube_base env opt P cube" "B \<longrightarrow> next_point d (pos_of item) \<in> combos opt"
  shows "\<exists>cube' n'. (if B then CreateNeighbor env item d (cube, n) else Inr (cube, n)) = Inr (cube', n')
    \<and> cube_base env opt P cube' \<and> pos_of ` set (rc_covered cube) \<subseteq> pos_of ` set (rc_covered cube')
    \<and> (B \<longrightarrow> next_point d (pos_of item) \<in> pos_of ` set (rc_covered cube'))"
proof (cases B)
  case True
  then obtain cube' n' where "CreateNeighbor env item d (cube, n) = Inr (cube', n')" "cube_base env opt P cube'"
    "pos_of ` set (rc_covered cube') = insert (next_point d (pos_of item)) (pos_of ` set (rc_covered cube))"
    using CreateNeighbor_base [OF assms(1,2), of d item n] assms(3) by blast
  then show ?thesis using True by (intro exI [of _ cube'] exI [of _ n']) auto
qed (use assms(2) in simp)

lemma next_hypo_combo:
  assumes "(i, js) \<in> combos opt" "k < length (to_stackVec opt)"
  shows "next_point (Some k) (i, js) \<in> combos opt \<longleftrightarrow> HasMoreHypo (to_stackVec opt ! k) (js ! k)"
  using assms by (auto simp: combos_def list_all2_conv_all_nth nth_list_update HasMoreHypo_def)

lemma CreateNeighbors_base:
  assumes "wf_option env opt" "cube_base env opt P cube" "pos_of item \<in> combos opt"
  shows "\<exists>cube' n'. CreateNeighbors env item (cube, n) = Inr (cube', n') \<and> cube_base env opt P cube'
    \<and> pos_of ` set (rc_covered cube) \<subseteq> pos_of ` set (rc_covered cube')
    \<and> (\<forall>d. (\<forall>k. d = Some k \<longrightarrow> k < length (to_stackVec opt)) \<longrightarrow> next_point d (pos_of item) \<in> combos opt
         \<longrightarrow> next_point d (pos_of item) \<in> pos_of ` set (rc_covered cube'))"
proof -
  obtain i js where pos: "pos_of item = (i, js)" "ci_pos item = i" "ci_hypoPos item = js" by (simp add: pos_of_def)
  have len: "length js = length (to_stackVec opt)" using assms(3) combos_length pos(1) by simp
  have opt: "rc_transOpt cube = opt" using assms(2) by (simp add: cube_base_def)
  let ?dims = "enumerate 0 (zip (to_stackVec opt) js)"
  let ?step = "\<lambda>(i, stack, pos) st. if HasMoreHypo stack pos then CreateNeighbor env item (Some i) st else Inr st"
  have "HasMoreTranslations opt item \<longleftrightarrow> next_point None (i, js) \<in> combos opt"
    using assms(3) pos by (auto simp: HasMoreTranslations_def combos_def)
  then obtain c1 n1 where c1: "(if HasMoreTranslations opt item then CreateNeighbor env item None (cube, n) else Inr (cube, n)) = Inr (c1, n1)"
      "cube_base env opt P c1" "pos_of ` set (rc_covered cube) \<subseteq> pos_of ` set (rc_covered c1)"
      "next_point None (i, js) \<in> combos opt \<longrightarrow> next_point None (i, js) \<in> pos_of ` set (rc_covered c1)"
    using CreateNeighbor_if [OF assms(1,2), of "HasMoreTranslations opt item" None item n] pos(1) by metis
  have loop: "\<exists>c2 n2. rfold ?step ds (c1, n1) = Inr (c2, n2) \<and> cube_base env opt P c2
      \<and> pos_of ` set (rc_covered c1) \<subseteq> pos_of ` set (rc_covered c2)
      \<and> (\<forall>(k, stack, j) \<in> set ds. HasMoreHypo stack j \<longrightarrow> next_point (Some k) (i, js) \<in> pos_of ` set (rc_covered c2))"
    if "cube_base env opt P c1" "\<forall>(k, stack, j) \<in> set ds. HasMoreHypo stack j \<longrightarrow> next_point (Some k) (i, js) \<in> combos opt"
    for ds c1 n1
    using that
  proof (induction ds arbitrary: c1 n1)
    case (Cons d ds)
    obtain k stack j where d: "d = (k, stack, j)" by (cases d)
    have "HasMoreHypo stack j \<longrightarrow> next_point (Some k) (pos_of item) \<in> combos opt"
      using Cons.prems(2) d pos(1) by simp
    from CreateNeighbor_if [OF assms(1) Cons.prems(1) this, of n1]
    obtain c2 n2 where c2: "?step d (c1, n1) = Inr (c2, n2)" "cube_base env opt P c2"
        "pos_of ` set (rc_covered c1) \<subseteq> pos_of ` set (rc_covered c2)"
        "HasMoreHypo stack j \<longrightarrow> next_point (Some k) (i, js) \<in> pos_of ` set (rc_covered c2)"
      unfolding d prod.case pos(1) by blast
    obtain c3 n3 where c3: "rfold ?step ds (c2, n2) = Inr (c3, n3)" "cube_base env opt P c3"
        "pos_of ` set (rc_covered c2) \<subseteq> pos_of ` set (rc_covered c3)"
        "\<forall>(k, stack, j) \<in> set ds. HasMoreHypo stack j \<longrightarrow> next_point (Some k) (i, js) \<in> pos_of ` set (rc_covered c3)"
    proof -
      have "\<forall>(k, stack, j) \<in> set ds. HasMoreHypo stack j \<longrightarrow> next_point (Some k) (i, js) \<in> combos opt"
        using Cons.prems(2) by simp
      from Cons.IH [OF c2(2) this, of n2] show ?thesis using that by blast
    qed
    have "HasMoreHypo stack j \<longrightarrow> next_point (Some k) (i, js) \<in> pos_of ` set (rc_covered c3)"
      using c2(4) c3(3) by blast
    then have "\<forall>(k, stack, j) \<in> set (d # ds). HasMoreHypo stack j \<longrightarrow> next_point (Some k) (i, js) \<in> pos_of ` set (rc_covered c3)"
      using c3(4) d by simp
    moreover have "rfold ?step (d # ds) (c1, n1) = Inr (c3, n3)" using c2(1) c3(1) by simp
    ultimately show ?case using c3(2) order_trans [OF c2(3) c3(3)] by blast
  qed simp
  have dims: "(k, stack, j) \<in> set ?dims \<longleftrightarrow> k < length (to_stackVec opt) \<and> stack = to_stackVec opt ! k \<and> j = js ! k" for k stack j
    using len by (auto simp: in_set_enumerate_eq)
  have more: "next_point (Some k) (i, js) \<in> combos opt \<longleftrightarrow> HasMoreHypo (to_stackVec opt ! k) (js ! k)"
    if "k < length (to_stackVec opt)" for k
    using next_hypo_combo assms(3) pos(1) that by simp
  obtain c2 n2 where c2: "rfold ?step ?dims (c1, n1) = Inr (c2, n2)" "cube_base env opt P c2"
      "pos_of ` set (rc_covered c1) \<subseteq> pos_of ` set (rc_covered c2)"
      "\<forall>(k, stack, j) \<in> set ?dims. HasMoreHypo stack j \<longrightarrow> next_point (Some k) (i, js) \<in> pos_of ` set (rc_covered c2)"
  proof -
    have "\<forall>(k, stack, j) \<in> set ?dims. HasMoreHypo stack j \<longrightarrow> next_point (Some k) (i, js) \<in> combos opt"
    proof (intro ballI, clarify)
      fix k stack j
      assume mem: "(k, stack, j) \<in> set ?dims" and has: "HasMoreHypo stack j"
      have k: "k < length (to_stackVec opt)" "stack = to_stackVec opt ! k" "j = js ! k"
        using mem unfolding dims by blast+
      show "next_point (Some k) (i, js) \<in> combos opt" using has unfolding more [OF k(1)] k(2,3) .
    qed
    from loop [OF c1(2) this, of n1] show ?thesis using that by blast
  qed
  have create: "CreateNeighbors env item (cube, n) = Inr (c2, n2)"
    using c1(1) c2(1) by (simp add: CreateNeighbors_def opt pos)
  have covered: "next_point d (i, js) \<in> pos_of ` set (rc_covered c2)"
    if "\<forall>k. d = Some k \<longrightarrow> k < length (to_stackVec opt)" "next_point d (i, js) \<in> combos opt" for d
  proof (cases d)
    case None
    then show ?thesis using c1(4) c2(3) that(2) by blast
  next
    case (Some k)
    then have k: "k < length (to_stackVec opt)" using that(1) by simp
    then have has: "HasMoreHypo (to_stackVec opt ! k) (js ! k)" using more [OF k] that(2) Some by simp
    have "(k, to_stackVec opt ! k, js ! k) \<in> set ?dims" using k unfolding dims by simp
    from bspec [OF c2(4) this] show ?thesis using has Some by simp
  qed
  show ?thesis
    by (intro exI [of _ c2] exI [of _ n2] conjI allI impI create c2(2) order_trans [OF c1(3) c2(3)])
      (use covered pos(1) in simp)
qed

section \<open>Pop\<close>

lemma cube_base_pop:
  assumes "cube_base env opt P cube" "mset (rc_queue cube) = add_mset item (mset rest)"
  shows "cube_base env opt (insert (pos_of item) P) (cube\<lparr>rc_queue := rest\<rparr>)"
proof -
  have set: "set (rc_queue cube) = insert item (set rest)"
    using assms(2) by (metis set_mset_add_mset_insert set_mset_mset)
  have "mset (map pos_of (rc_queue cube)) = mset (pos_of item # map pos_of rest)" using assms(2) by simp
  then have "distinct (pos_of item # map pos_of rest)"
    using assms(1) unfolding cube_base_def by (metis distinct_count_atmost_1 count_mset set_mset_mset)
  then show ?thesis using assms(1) by (auto simp: cube_base_def set)
qed

lemma cube_Pop_spec:
  assumes "priority pick" "wf_option env opt" "cube_base env opt P cube" "cube_closed opt P cube" "rc_queue cube \<noteq> []"
  shows "\<exists>item cube' n'. cube_Pop env pick (cube, n) = Inr (item, cube', n') \<and> item \<in> set (rc_queue cube)
    \<and> (\<forall>y \<in> set (rc_queue cube). ci_score y \<le> ci_score item) \<and> pos_of item \<notin> P
    \<and> cube_base env opt (insert (pos_of item) P) cube' \<and> cube_closed opt (insert (pos_of item) P) cube'"
proof -
  obtain item rest where pop: "pq_pop pick ci_score (rc_queue cube) = Inr (item, rest)"
      "mset (rc_queue cube) = add_mset item (mset rest)" "\<forall>y \<in> set (rc_queue cube). ci_score y \<le> ci_score item"
    by (rule priority.pq_pop_Inr [OF assms(1,5)])
  let ?c = "cube\<lparr>rc_queue := rest\<rparr>" and ?P = "insert (pos_of item) P"
  have item: "item \<in> set (rc_queue cube)" using pop(2) by (metis set_mset_mset union_single_eq_member)
  then have ok: "pos_of item \<in> combos opt" "pos_of item \<notin> P"
    using assms(3) by (auto simp: cube_base_def item_ok_def)
  obtain c' n' where c': "CreateNeighbors env item (?c, n) = Inr (c', n')" "cube_base env opt ?P c'"
      "pos_of ` set (rc_covered ?c) \<subseteq> pos_of ` set (rc_covered c')"
      "\<forall>d. (\<forall>k. d = Some k \<longrightarrow> k < length (to_stackVec opt)) \<longrightarrow> next_point d (pos_of item) \<in> combos opt
         \<longrightarrow> next_point d (pos_of item) \<in> pos_of ` set (rc_covered c')"
    using CreateNeighbors_base [OF assms(2) cube_base_pop [OF assms(3) pop(2)] ok(1), of n] by blast
  have "cube_closed opt ?P c'"
    unfolding cube_closed_def
  proof (intro ballI allI impI)
    fix p d
    assume p: "p \<in> ?P" and d: "\<forall>k. d = Some k \<longrightarrow> k < length (to_stackVec opt)" "next_point d p \<in> combos opt"
    show "next_point d p \<in> pos_of ` set (rc_covered c')"
    proof (cases "p = pos_of item")
      case True
      then show ?thesis using c'(4) d by simp
    next
      case False
      then have "next_point d p \<in> pos_of ` set (rc_covered ?c)"
        using assms(4) p d unfolding cube_closed_def by simp
      then show ?thesis using c'(3) by blast
    qed
  qed
  moreover have "cube_Pop env pick (cube, n) = Inr (item, c', n')"
    using pop(1) c'(1) by (simp add: cube_Pop_def)
  ultimately show ?thesis using item pop(3) ok(2) c'(2) by blast
qed

section \<open>The frontier\<close>

definition below :: "point \<Rightarrow> point \<Rightarrow> bool" where
  "below p q \<longleftrightarrow> fst p \<le> fst q \<and> list_all2 (\<le>) (snd p) (snd q)"

lemma below_refl [simp]: "below p p"
  by (simp add: below_def list_all2_refl)

lemma below_trans: "below p q \<Longrightarrow> below q r \<Longrightarrow> below p r"
  unfolding below_def using list_all2_trans [of "(\<le>)" "(\<le>)" "(\<le>)" "snd p" "snd q" "snd r"] by (auto intro: order_trans)

lemma below_next: "length js = n \<Longrightarrow> (\<forall>k. d = Some k \<longrightarrow> k < n) \<Longrightarrow> below (i, js) (next_point d (i, js))"
  by (cases d) (auto simp: below_def list_all2_conv_all_nth nth_list_update list_all2_refl)

text \<open>A point other than the origin is next to one nearer to it.\<close>

lemma predecessor:
  assumes "(i, js) \<in> combos opt" "(i, js) \<noteq> origin opt"
  shows "\<exists>d i' js'. (\<forall>k. d = Some k \<longrightarrow> k < length (to_stackVec opt)) \<and> (i', js') \<in> combos opt
    \<and> next_point d (i', js') = (i, js) \<and> i' + sum_list js' < i + sum_list js"
proof (cases i)
  case (Suc i')
  then show ?thesis using assms(1) by (intro exI [of _ None] exI [of _ i'] exI [of _ js]) (auto simp: combos_def)
next
  case 0
  have len: "length js = length (to_stackVec opt)" using assms(1) combos_length by blast
  have "js \<noteq> replicate (length js) 0" using assms(2) 0 len by (auto simp: origin_def)
  then obtain k where k: "k < length js" "0 < js ! k"
    by (metis gr0I length_replicate nth_equalityI nth_replicate)
  let ?js = "js[k := js ! k - 1]"
  have "list_all2 (\<lambda>j stack. j < length stack) ?js (to_stackVec opt)"
    using assms(1) k by (auto simp: combos_def list_all2_conv_all_nth nth_list_update intro: less_imp_diff_less)
  then have "(i, ?js) \<in> combos opt" using assms(1) by (simp add: combos_def)
  moreover have "next_point (Some k) (i, ?js) = (i, js)" using k by simp
  moreover have "sum_list ?js < sum_list js"
  proof -
    have "js ! k \<le> sum_list js" using k(1) by (rule elem_le_sum_list)
    then show ?thesis using k by (simp add: sum_list_update)
  qed
  ultimately show ?thesis using k len by (intro exI [of _ "Some k"] exI [of _ i] exI [of _ ?js]) auto
qed

lemma frontier:
  assumes "cube_base env opt P cube" "cube_closed opt P cube" "c \<in> combos opt" "c \<notin> P"
  shows "\<exists>q \<in> set (rc_queue cube). below (pos_of q) c"
  using assms(3,4)
proof (induction "fst c + sum_list (snd c)" arbitrary: c rule: less_induct)
  case less
  obtain i js where c: "c = (i, js)" by (cases c)
  have here: ?case if "c \<in> pos_of ` set (rc_covered cube)"
  proof -
    have "c \<in> P \<union> pos_of ` set (rc_queue cube)" using assms(1) that unfolding cube_base_def by blast
    then obtain q where "q \<in> set (rc_queue cube)" "c = pos_of q" using less.prems(2) by blast
    then show ?thesis by (intro bexI [of _ q]) simp_all
  qed
  show ?case
  proof (cases "c = origin opt")
    case True
    then have "c \<in> pos_of ` set (rc_covered cube)" using assms(1) unfolding cube_base_def by blast
    then show ?thesis by (rule here)
  next
    case False
    obtain d i' js' where d: "\<forall>k. d = Some k \<longrightarrow> k < length (to_stackVec opt)" "(i', js') \<in> combos opt"
        "next_point d (i', js') = (i, js)" "i' + sum_list js' < i + sum_list js"
      using predecessor less.prems(1) False unfolding c by blast
    show ?thesis
    proof (cases "(i', js') \<in> P")
      case True
      then have "c \<in> pos_of ` set (rc_covered cube)"
        using assms(2) d(1,3) less.prems(1) unfolding cube_closed_def c by metis
      then show ?thesis by (rule here)
    next
      case False
      have "fst (i', js') + sum_list (snd (i', js')) < fst c + sum_list (snd c)" using d(4) c by simp
      from less.hyps [OF this d(2) False] obtain q where "q \<in> set (rc_queue cube)" "below (pos_of q) (i', js')" by blast
      moreover have "below (i', js') c"
        unfolding c d(3) [symmetric] using below_next combos_length [OF d(2)] d(1) by blast
      ultimately show ?thesis using below_trans by blast
    qed
  qed
qed

section \<open>The order of estimates\<close>

text \<open>Target phrases and hypotheses come in descending order of their scores.\<close>

definition sorted_option :: "'s trans_option \<Rightarrow> bool" where
  "sorted_option opt \<longleftrightarrow> sorted_wrt (\<lambda>x y. tp_futureScore y \<le> tp_futureScore x) (to_tpc opt) \<and>
     (\<forall>stack \<in> set (to_stackVec opt). sorted_wrt (\<lambda>x y. GetTotalScore y \<le> GetTotalScore x) stack)"

lemma fold_add_mono:
  "list_all2 (\<lambda>g h. GetTotalScore h \<le> GetTotalScore g) gs hs \<Longrightarrow> a \<le> b
     \<Longrightarrow> fold (\<lambda>h sc. sc + GetTotalScore h) hs a \<le> fold (\<lambda>h sc. sc + GetTotalScore h) gs (b :: score)"
  by (induction gs hs arbitrary: a b rule: list_all2_induct) (auto intro: add_mono)

lemma sorted_wrt_nth_le: "sorted_wrt R xs \<Longrightarrow> (\<And>x. R x x) \<Longrightarrow> i \<le> j \<Longrightarrow> j < length xs \<Longrightarrow> R (xs ! i) (xs ! j)"
  by (cases "i = j") (auto simp: sorted_wrt_nth_less)

lemma estimate_antimono:
  assumes "sorted_option opt" "p \<in> combos opt" "q \<in> combos opt" "below p q"
  shows "estimate_of opt q \<le> estimate_of opt p"
proof -
  obtain i js i' js' where pq: "p = (i, js)" "q = (i', js')" by (cases p; cases q)
  have len: "length js = length (to_stackVec opt)" "length js' = length (to_stackVec opt)"
    using assms(2,3) combos_length pq by auto
  have "GetTotalScore (to_stackVec opt ! k ! (js' ! k)) \<le> GetTotalScore (to_stackVec opt ! k ! (js ! k))"
    if k: "k < length (to_stackVec opt)" for k
  proof -
    have "sorted_wrt (\<lambda>x y. GetTotalScore y \<le> GetTotalScore x) (to_stackVec opt ! k)"
      using assms(1) k by (simp add: sorted_option_def)
    moreover have "js ! k \<le> js' ! k" "js' ! k < length (to_stackVec opt ! k)"
      using assms(3,4) k len by (auto simp: pq below_def combos_def list_all2_conv_all_nth)
    ultimately show ?thesis by (intro sorted_wrt_nth_le [where R = "\<lambda>x y. GetTotalScore y \<le> GetTotalScore x"]) auto
  qed
  then have "list_all2 (\<lambda>g h. GetTotalScore h \<le> GetTotalScore g) (chosen opt p) (chosen opt q)"
    using len by (simp add: pq list_all2_conv_all_nth)
  moreover have "tp_futureScore (chosen_tp opt q) \<le> tp_futureScore (chosen_tp opt p)"
    using assms by (auto simp: pq chosen_tp_def sorted_option_def below_def combos_def
        intro!: sorted_wrt_nth_le [where R = "\<lambda>x y. tp_futureScore y \<le> tp_futureScore x"])
  ultimately show ?thesis unfolding estimate_of_def by (rule fold_add_mono)
qed

section \<open>Sequences of Pop\<close>

fun cube_Pops :: "'s cube_env \<Rightarrow> 's cube_item pick \<Rightarrow> nat \<Rightarrow> 's rule_cube \<times> nat
    \<Rightarrow> ('s cube_item list \<times> 's rule_cube \<times> nat) result" where
  "cube_Pops env pick 0 st = Inr ([], st)"
| "cube_Pops env pick (Suc k) st =
     rbind (cube_Pop env pick st) (\<lambda>(item, st1).
     rbind (cube_Pops env pick k st1) (\<lambda>(items, st2). Inr (item # items, st2)))"

lemma finite_combos: "finite (combos opt)"
proof -
  have "combos opt \<subseteq> {..<length (to_tpc opt)} \<times> {js. set js \<subseteq> {..<Suc (sum_list (map length (to_stackVec opt)))}
      \<and> length js = length (to_stackVec opt)}"
  proof
    fix p
    assume p: "p \<in> combos opt"
    obtain i js where ij: "p = (i, js)" by (cases p)
    have "js ! k \<le> sum_list (map length (to_stackVec opt))" if k: "k < length js" for k
    proof -
      have "js ! k < length (to_stackVec opt ! k)" "k < length (to_stackVec opt)"
        using p k by (auto simp: ij combos_def list_all2_conv_all_nth)
      moreover from this(2) have "map length (to_stackVec opt) ! k \<le> sum_list (map length (to_stackVec opt))"
        by (intro elem_le_sum_list) simp
      ultimately show ?thesis by simp
    qed
    then have "set js \<subseteq> {..<Suc (sum_list (map length (to_stackVec opt)))}"
      by (auto simp: in_set_conv_nth less_Suc_eq_le)
    then show "p \<in> {..<length (to_tpc opt)} \<times> {js. set js \<subseteq> {..<Suc (sum_list (map length (to_stackVec opt)))}
      \<and> length js = length (to_stackVec opt)}"
      using p combos_length by (auto simp: ij combos_def)
  qed
  then show ?thesis by (rule finite_subset) (intro finite_cartesian_product finite_lists_length_eq; simp)
qed

lemma queue_empty_iff:
  assumes "cube_base env opt P cube" "cube_closed opt P cube" "P \<subseteq> combos opt"
  shows "rc_queue cube = [] \<longleftrightarrow> P = combos opt"
proof
  assume "rc_queue cube = []"
  then show "P = combos opt" using frontier [OF assms(1,2)] assms(3) by fastforce
next
  assume "P = combos opt"
  then show "rc_queue cube = []"
    using assms(1) unfolding cube_base_def item_ok_def by (metis (no_types, lifting) disjoint_iff image_eqI last_in_set)
qed

text \<open>The top item has the best estimate of all combinations that have not been taken.\<close>

lemma top_best:
  assumes "ce_lazy env" "sorted_option opt" "cube_base env opt P cube" "cube_closed opt P cube"
    and "item \<in> set (rc_queue cube)" "\<forall>y \<in> set (rc_queue cube). ci_score y \<le> ci_score item"
    and "c \<in> combos opt" "c \<notin> P"
  shows "estimate_of opt c \<le> estimate_of opt (pos_of item)" "ci_score item = estimate_of opt (pos_of item)"
proof -
  have ok: "item_ok env opt y" if "y \<in> set (rc_queue cube)" for y using assms(3) that by (simp add: cube_base_def)
  obtain q where q: "q \<in> set (rc_queue cube)" "below (pos_of q) c" using frontier [OF assms(3,4,7,8)] by blast
  have "estimate_of opt c \<le> estimate_of opt (pos_of q)"
    using estimate_antimono [OF assms(2) _ assms(7) q(2)] ok [OF q(1)] by (simp add: item_ok_def)
  also have "\<dots> = ci_score q" using ok [OF q(1)] assms(1) by (simp add: item_ok_def)
  also have "\<dots> \<le> ci_score item" using assms(6) q(1) by blast
  also show "ci_score item = estimate_of opt (pos_of item)" using ok [OF assms(5)] assms(1) by (simp add: item_ok_def)
  finally show "estimate_of opt c \<le> estimate_of opt (pos_of item)" .
qed

lemma cube_Pops_spec:
  assumes "priority pick" "wf_option env opt" "cube_base env opt P cube" "cube_closed opt P cube" "P \<subseteq> combos opt"
    and "k \<le> card (combos opt - P)"
  shows "\<exists>items cube' n'. cube_Pops env pick k (cube, n) = Inr (items, cube', n') \<and> length items = k
    \<and> distinct (map pos_of items) \<and> pos_of ` set items \<subseteq> combos opt - P
    \<and> cube_base env opt (P \<union> pos_of ` set items) cube' \<and> cube_closed opt (P \<union> pos_of ` set items) cube'
    \<and> (ce_lazy env \<and> sorted_option opt \<longrightarrow>
        sorted_wrt (\<lambda>x y. estimate_of opt (pos_of y) \<le> estimate_of opt (pos_of x)) items \<and>
        (\<forall>x \<in> set items. \<forall>c \<in> combos opt - P - pos_of ` set items. estimate_of opt c \<le> estimate_of opt (pos_of x)))"
  using assms(3-6)
proof (induction k arbitrary: P cube n)
  case 0
  then show ?case by simp
next
  case (Suc k)
  have "P \<noteq> combos opt" using Suc.prems(4) by auto
  then have "rc_queue cube \<noteq> []" using queue_empty_iff [OF Suc.prems(1,2,3)] by simp
  from cube_Pop_spec [OF assms(1,2) Suc.prems(1,2) this]
  obtain item c1 n1 where pop: "cube_Pop env pick (cube, n) = Inr (item, c1, n1)" "item \<in> set (rc_queue cube)"
      "\<forall>y \<in> set (rc_queue cube). ci_score y \<le> ci_score item" "pos_of item \<notin> P"
      "cube_base env opt (insert (pos_of item) P) c1" "cube_closed opt (insert (pos_of item) P) c1" by blast
  let ?P = "insert (pos_of item) P"
  have combo: "pos_of item \<in> combos opt" using Suc.prems(1) pop(2) by (auto simp: cube_base_def item_ok_def)
  then have P: "?P \<subseteq> combos opt" using Suc.prems(3) by simp
  have "card (combos opt - ?P) = card (combos opt - P) - 1"
    using combo pop(4) finite_combos [of opt] by (simp add: card_Diff_insert)
  then have "k \<le> card (combos opt - ?P)" using Suc.prems(4) by simp
  from Suc.IH [OF pop(5,6) P this, of n1]
  obtain items c2 n2 where rest: "cube_Pops env pick k (c1, n1) = Inr (items, c2, n2)" "length items = k"
    "distinct (map pos_of items)" "pos_of ` set items \<subseteq> combos opt - ?P"
    "cube_base env opt (?P \<union> pos_of ` set items) c2" "cube_closed opt (?P \<union> pos_of ` set items) c2"
    "ce_lazy env \<and> sorted_option opt \<longrightarrow>
        sorted_wrt (\<lambda>x y. estimate_of opt (pos_of y) \<le> estimate_of opt (pos_of x)) items \<and>
        (\<forall>x \<in> set items. \<forall>c \<in> combos opt - ?P - pos_of ` set items. estimate_of opt c \<le> estimate_of opt (pos_of x))"
    by blast
  have best: "estimate_of opt c \<le> estimate_of opt (pos_of item)"
    if "ce_lazy env" "sorted_option opt" "c \<in> combos opt - P" for c
    using top_best(1) [OF that(1,2) Suc.prems(1,2) pop(2,3)] that(3) by blast
  have "?P \<union> pos_of ` set items = P \<union> pos_of ` set (item # items)" by auto
  then have "cube_base env opt (P \<union> pos_of ` set (item # items)) c2" "cube_closed opt (P \<union> pos_of ` set (item # items)) c2"
    using rest(5,6) by simp_all
  moreover have "cube_Pops env pick (Suc k) (cube, n) = Inr (item # items, c2, n2)" using pop(1) rest(1) by simp
  moreover have "distinct (map pos_of (item # items))" "pos_of ` set (item # items) \<subseteq> combos opt - P"
    using rest(3,4) combo pop(4) by auto
  moreover have "ce_lazy env \<and> sorted_option opt \<longrightarrow>
      sorted_wrt (\<lambda>x y. estimate_of opt (pos_of y) \<le> estimate_of opt (pos_of x)) (item # items) \<and>
      (\<forall>x \<in> set (item # items). \<forall>c \<in> combos opt - P - pos_of ` set (item # items).
         estimate_of opt c \<le> estimate_of opt (pos_of x))"
  proof (intro impI conjI)
    assume lazy: "ce_lazy env \<and> sorted_option opt"
    have "\<forall>y \<in> set items. estimate_of opt (pos_of y) \<le> estimate_of opt (pos_of item)"
      using best lazy rest(4) by blast
    then show "sorted_wrt (\<lambda>x y. estimate_of opt (pos_of y) \<le> estimate_of opt (pos_of x)) (item # items)"
      using rest(7) lazy by simp
    have "combos opt - P - pos_of ` set (item # items) = combos opt - ?P - pos_of ` set items" by auto
    then show "\<forall>x \<in> set (item # items). \<forall>c \<in> combos opt - P - pos_of ` set (item # items).
         estimate_of opt c \<le> estimate_of opt (pos_of x)"
      using best lazy rest(7) by auto
  qed
  ultimately show ?case using rest(2) by (intro exI [of _ "item # items"] exI [of _ c2] exI [of _ n2] conjI) simp_all
qed

section \<open>Properties\<close>

text \<open>
  C6. Best-first enumeration of a cube: popping a new cube k times, for any k up to the number of combinations
  of a target phrase with a hypothesis per non-terminal, never reads outside a list or an empty queue, gives k different
  combinations, and the queue runs empty exactly when all have been given. With lazy scoring and sorted lists
  they come in the order of their estimates, and no combination that is left has a better estimate than one that was given,
  whatever the priority queue does with equal scores.
\<close>

theorem cube_best_first:
  assumes "priority pick" "wf_option env opt" "k \<le> card (combos opt)"
  shows "\<exists>items cube n'. rbind (RuleCube env opt n) (cube_Pops env pick k) = Inr (items, cube, n') \<and> length items = k
    \<and> distinct (map pos_of items) \<and> pos_of ` set items \<subseteq> combos opt
    \<and> (rc_queue cube = [] \<longleftrightarrow> k = card (combos opt))
    \<and> (ce_lazy env \<and> sorted_option opt \<longrightarrow>
        sorted_wrt (\<lambda>x y. estimate_of opt (pos_of y) \<le> estimate_of opt (pos_of x)) items \<and>
        (\<forall>x \<in> set items. \<forall>c \<in> combos opt - pos_of ` set items. estimate_of opt c \<le> estimate_of opt (pos_of x)))"
proof -
  obtain cube0 n0 where c0: "RuleCube env opt n = Inr (cube0, n0)" "cube_base env opt {} cube0" "cube_closed opt {} cube0"
    using RuleCube_base [OF assms(2), of n] by blast
  have "k \<le> card (combos opt - {})" using assms(3) by simp
  from cube_Pops_spec [OF assms(1,2) c0(2,3) _ this, of n0]
  obtain items cube n' where c: "cube_Pops env pick k (cube0, n0) = Inr (items, cube, n')" "length items = k"
    "distinct (map pos_of items)" "pos_of ` set items \<subseteq> combos opt"
    "cube_base env opt (pos_of ` set items) cube" "cube_closed opt (pos_of ` set items) cube"
    "ce_lazy env \<and> sorted_option opt \<longrightarrow>
        sorted_wrt (\<lambda>x y. estimate_of opt (pos_of y) \<le> estimate_of opt (pos_of x)) items \<and>
        (\<forall>x \<in> set items. \<forall>c \<in> combos opt - pos_of ` set items. estimate_of opt c \<le> estimate_of opt (pos_of x))"
    by auto
  have "card (pos_of ` set items) = k" using c(2,3) distinct_card [of "map pos_of items"] by simp
  then have "pos_of ` set items = combos opt \<longleftrightarrow> k = card (combos opt)"
    using c(4) finite_combos [of opt] by (metis card_subset_eq)
  then have "rc_queue cube = [] \<longleftrightarrow> k = card (combos opt)" using queue_empty_iff [OF c(5,6,4)] by simp
  then show ?thesis using c0(1) c(1-4,7) by (intro exI [of _ items] exI [of _ cube] exI [of _ n']) simp
qed

definition example_phrase :: "nat \<Rightarrow> real \<Rightarrow> target_phrase" where
  "example_phrase i x = \<lparr>tp_ptr = i, tp_words = [], tp_futureScore = Fin x, tp_breakdown = [], tp_align = [],
     tp_lhs = \<lparr>w_factors = [], w_isNonTerminal = True\<rparr>\<rparr>"

definition example_option :: "unit trans_option" where
  "example_option = \<lparr>to_stackVec = [[Hypo 0 (example_phrase 7 0) (WordsRange 0 0) [] [] (Fin (-1)) None [] None,
       Hypo 1 (example_phrase 7 0) (WordsRange 0 0) [] [] (Fin (-2)) None [] None]],
     to_tpc = [example_phrase 1 (-1), example_phrase 2 (-4)], to_range = WordsRange 0 1, to_estimate = Fin (-2)\<rparr>"

definition example_env :: "bool \<Rightarrow> unit cube_env" where
  "example_env lazy = \<lparr>ce_lazy = lazy, ce_components = 1, ce_weights = [1], ce_ffs = []\<rparr>"

lemma example_wf: "wf_option (example_env lazy) example_option" "sorted_option example_option"
  by (simp_all add: wf_option_def sorted_option_def example_option_def example_env_def example_phrase_def)

lemma example_combos: "{(0, [0]), (0, [1]), (1, [0])} \<subseteq> combos example_option"
  by (simp add: combos_def example_option_def)

lemma cube_best_first_witness:
  "\<exists>items cube n'. rbind (RuleCube (example_env True) example_option 5)
       (cube_Pops (example_env True) first_max 3) = Inr (items, cube, n') \<and> length items = 3"
proof -
  have "card {(0, [0]), (0, [1]), (1, [0]) :: point} \<le> card (combos example_option)"
    by (rule card_mono [OF finite_combos example_combos])
  then have "3 \<le> card (combos example_option)" by simp
  from cube_best_first [OF first.priority_axioms example_wf(1) this, of True 5] show ?thesis by blast
qed

end
