(* ===== verification/CubeQueue.thy ===== *)
theory CubeQueue
  imports RuleCubeProps
begin

text \<open>
  The queue of cubes of a cell (RuleCubeQueue) as one best-first search over the combinations of
  all translation options: the invariant of the queue, and what a pop returns.
\<close>

section \<open>The invariant\<close>

text \<open>
  The cubes in the queue, each with the number of its translation option; P has the
  points that have been taken of every option. An option whose cube has left the queue is
  exhausted.
\<close>

definition queue_ok :: "'s cube_env \<Rightarrow> 's trans_option list \<Rightarrow> (nat \<Rightarrow> point set) \<Rightarrow> (nat \<times> 's rule_cube) list \<Rightarrow> bool" where
  "queue_ok env opts P tagged \<longleftrightarrow> distinct (map fst tagged) \<and>
     (\<forall>(a, c) \<in> set tagged. a < length opts \<and> cube_base env (opts ! a) (P a) c \<and> cube_closed (opts ! a) (P a) c
        \<and> rc_queue c \<noteq> []) \<and>
     (\<forall>a < length opts. P a \<subseteq> combos (opts ! a) \<and> (a \<notin> fst ` set tagged \<longrightarrow> P a = combos (opts ! a)))"

text \<open>The combinations that are left, of all options.\<close>

definition remaining :: "'s trans_option list \<Rightarrow> (nat \<Rightarrow> point set) \<Rightarrow> (nat \<times> point) set" where
  "remaining opts P = {(a, p). a < length opts \<and> p \<in> combos (opts ! a) \<and> p \<notin> P a}"

definition choice_estimate :: "'s trans_option list \<Rightarrow> nat \<times> point \<Rightarrow> score" where
  "choice_estimate opts ap = estimate_of (opts ! fst ap) (snd ap)"

text \<open>The combinations a queue offers: the first one of every option, and the neighbours of those that have been taken.\<close>

definition frontier_choices :: "'s trans_option list \<Rightarrow> (nat \<Rightarrow> point set) \<Rightarrow> (nat \<times> point) set" where
  "frontier_choices opts P = {(b, q). (b, q) \<in> remaining opts P \<and> (q = origin (opts ! b)
     \<or> (\<exists>p \<in> P b. \<exists>d. (\<forall>k. d = Some k \<longrightarrow> k < length (to_stackVec (opts ! b))) \<and> q = next_point d p))}"

text \<open>
  No offered combination is better than one that is taken as a hypothesis: by the scores of the hypotheses, or with lazy scoring by
  the estimates.
\<close>

definition best_offered :: "'s cube_env \<Rightarrow> 's trans_option list \<Rightarrow> (nat \<Rightarrow> point set) \<Rightarrow> nat \<times> point \<Rightarrow> 's hypo \<Rightarrow> bool" where
  "best_offered env opts P ap h \<longleftrightarrow> (\<forall>(b, q) \<in> frontier_choices opts P.
     if ce_lazy env then choice_estimate opts (b, q) \<le> choice_estimate opts ap
     else \<exists>g. made_from env (opts ! b) q g \<and> GetTotalScore g \<le> GetTotalScore h)"

lemma finite_remaining: "finite (remaining opts P)"
proof -
  have "remaining opts P \<subseteq> (\<Union>a \<in> {..<length opts}. Pair a ` combos (opts ! a))"
    by (auto simp: remaining_def)
  then show ?thesis by (rule finite_subset) (simp add: finite_combos)
qed

lemma remaining_take: "remaining opts (P(a := insert p (P a))) = remaining opts P - {(a, p)}"
  by (auto simp: remaining_def split: if_splits)

lemma queue_ok_empty:
  assumes "queue_ok env opts P tagged"
  shows "tagged = [] \<longleftrightarrow> remaining opts P = {}"
proof
  assume "tagged = []"
  then show "remaining opts P = {}" using assms by (auto simp: queue_ok_def remaining_def)
next
  assume none: "remaining opts P = {}"
  show "tagged = []"
  proof (rule ccontr)
    assume "tagged \<noteq> []"
    then obtain a c where "(a, c) \<in> set tagged" by (metis list.set_intros(1) list.exhaust surj_pair)
    then have c: "a < length opts" "cube_base env (opts ! a) (P a) c" "rc_queue c \<noteq> []"
      using assms by (auto simp: queue_ok_def)
    obtain q where "q \<in> set (rc_queue c)" using c(3) by (metis list.set_intros(1) list.exhaust)
    then have "pos_of q \<in> combos (opts ! a)" "pos_of q \<notin> P a"
      using c(2) by (auto simp: cube_base_def item_ok_def)
    then have "(a, pos_of q) \<in> remaining opts P" using c(1) by (simp add: remaining_def)
    then show False using none by simp
  qed
qed

section \<open>A pop of the queue\<close>

definition top_score :: "'s cube_item pick \<Rightarrow> 's rule_cube \<Rightarrow> score" where
  "top_score pick c = ci_score (rc_queue c ! pick ci_score (rc_queue c))"

lemma GetTopScore_Inr:
  assumes "priority pick" "rc_queue c \<noteq> []"
  shows "GetTopScore pick c = Inr (top_score pick c)"
  using priority.pick_less [OF assms, of ci_score] assms(2) by (simp add: GetTopScore_def top_score_def)

lemma top_score_ge:
  "priority pick \<Longrightarrow> q \<in> set (rc_queue c) \<Longrightarrow> ci_score q \<le> top_score pick c"
  unfolding top_score_def by (rule priority.pick_max)

lemma top_score_in:
  assumes "priority pick" "rc_queue c \<noteq> []"
  shows "\<exists>q \<in> set (rc_queue c). top_score pick c = ci_score q"
  unfolding top_score_def
  by (intro bexI [of _ "rc_queue c ! pick ci_score (rc_queue c)"]) (simp_all add: priority.pick_less [OF assms])

text \<open>The queue of cubes pops a cube with the best top score.\<close>

lemma pick_cube:
  assumes "priority pick" "priority cpick" "tagged \<noteq> []" "\<forall>(a, c) \<in> set tagged. rc_queue c \<noteq> []"
  obtains xs a c ys where "tagged = xs @ (a, c) # ys"
    "rbind (rmap (\<lambda>c. rbind (GetTopScore pick c) (\<lambda>s. Inr (s, c))) (map snd tagged)) (pq_pop cpick fst)
      = Inr ((top_score pick c, c), map (\<lambda>(a, c). (top_score pick c, c)) (xs @ ys))"
    "\<forall>(b, d) \<in> set tagged. top_score pick d \<le> top_score pick c"
proof -
  let ?sc = "\<lambda>c. (top_score pick c, c)"
  have "rmap (\<lambda>c. rbind (GetTopScore pick c) (\<lambda>s. Inr (s, c))) (map snd tagged) = Inr (map ?sc (map snd tagged))"
    using assms(4) by (intro rmap_Inr_map) (auto simp: GetTopScore_Inr [OF assms(1)])
  moreover obtain i where i: "i < length (map ?sc (map snd tagged))"
      "pq_pop cpick fst (map ?sc (map snd tagged)) = Inr (map ?sc (map snd tagged) ! i,
         take i (map ?sc (map snd tagged)) @ drop (Suc i) (map ?sc (map snd tagged)))"
      "\<forall>y \<in> set (map ?sc (map snd tagged)). fst y \<le> fst (map ?sc (map snd tagged) ! i)"
    using priority.pq_pop_nth [OF assms(2), of "map ?sc (map snd tagged)" fst] assms(3) by auto
  moreover obtain a c where ac: "tagged ! i = (a, c)" by fastforce
  moreover have "tagged = take i tagged @ (a, c) # drop (Suc i) tagged"
    using i(1) ac by (metis id_take_nth_drop length_map)
  moreover have "\<forall>(b, d) \<in> set tagged. top_score pick d \<le> top_score pick c"
    using i(1,3) ac by force
  ultimately show ?thesis
    by (intro that [of "take i tagged" a c "drop (Suc i) tagged"]) (simp_all add: take_map drop_map case_prod_unfold)
qed

lemma queue_ok_drop:
  assumes "queue_ok env opts P (xs @ (a, c) # ys)" "p \<in> combos (opts ! a)"
    and "cube_base env (opts ! a) (insert p (P a)) c'" "cube_closed (opts ! a) (insert p (P a)) c'"
  shows "queue_ok env opts (P(a := insert p (P a))) (if rc_queue c' \<noteq> [] then (xs @ ys) @ [(a, c')] else xs @ ys)"
proof -
  let ?P = "P(a := insert p (P a))"
  have a: "a < length opts" "a \<notin> fst ` set (xs @ ys)" "P a \<subseteq> combos (opts ! a)"
    using assms(1) by (auto simp: queue_ok_def)
  have other: "b \<noteq> a" if "(b, d) \<in> set (xs @ ys)" for b d
    using that a(2) by force
  have empty: "rc_queue c' = [] \<Longrightarrow> insert p (P a) = combos (opts ! a)"
    using queue_empty_iff [OF assms(3,4)] assms(2) a(3) by simp
  have rest: "distinct (map fst (xs @ ys))" "\<forall>(b, d) \<in> set (xs @ ys). b < length opts \<and> cube_base env (opts ! b) (P b) d
      \<and> cube_closed (opts ! b) (P b) d \<and> rc_queue d \<noteq> []"
      "\<forall>b < length opts. P b \<subseteq> combos (opts ! b) \<and> (b \<notin> insert a (fst ` set (xs @ ys)) \<longrightarrow> P b = combos (opts ! b))"
    using assms(1) by (auto simp: queue_ok_def)
  have keep: "\<forall>(b, d) \<in> set (xs @ ys). b < length opts \<and> cube_base env (opts ! b) (?P b) d
      \<and> cube_closed (opts ! b) (?P b) d \<and> rc_queue d \<noteq> []"
  proof clarify
    fix b d
    assume mem: "(b, d) \<in> set (xs @ ys)"
    then show "b < length opts \<and> cube_base env (opts ! b) (?P b) d \<and> cube_closed (opts ! b) (?P b) d \<and> rc_queue d \<noteq> []"
      using rest(2) other [OF mem] by auto
  qed
  show ?thesis
  proof (cases "rc_queue c' = []")
    case True
    have "\<forall>b < length opts. ?P b \<subseteq> combos (opts ! b) \<and> (b \<notin> fst ` set (xs @ ys) \<longrightarrow> ?P b = combos (opts ! b))"
      using rest(3) empty [OF True] by simp
    then show ?thesis using True rest(1) keep unfolding queue_ok_def by simp
  next
    case False
    have "\<forall>b < length opts. ?P b \<subseteq> combos (opts ! b) \<and> (b \<notin> fst ` set ((xs @ ys) @ [(a, c')]) \<longrightarrow> ?P b = combos (opts ! b))"
      using rest(3) assms(2) by simp
    moreover have "distinct (map fst ((xs @ ys) @ [(a, c')]))" using rest(1) a(2) by auto
    moreover have "\<forall>(b, d) \<in> set ((xs @ ys) @ [(a, c')]). b < length opts \<and> cube_base env (opts ! b) (?P b) d
      \<and> cube_closed (opts ! b) (?P b) d \<and> rc_queue d \<noteq> []"
      using keep a(1) assms(3,4) False by simp
    ultimately show ?thesis using False unfolding queue_ok_def by simp
  qed
qed


text \<open>Every offered combination is an item of a cube in the queue.\<close>

lemma frontier_queued:
  assumes "queue_ok env opts P tagged" "(b, q) \<in> frontier_choices opts P"
  shows "\<exists>d t. (b, d) \<in> set tagged \<and> t \<in> set (rc_queue d) \<and> pos_of t = q \<and> item_ok env (opts ! b) t"
proof -
  have b: "b < length opts" "q \<in> combos (opts ! b)" "q \<notin> P b"
    and q: "q = origin (opts ! b) \<or> (\<exists>p \<in> P b. \<exists>d. (\<forall>k. d = Some k \<longrightarrow> k < length (to_stackVec (opts ! b))) \<and> q = next_point d p)"
    using assms(2) by (auto simp: frontier_choices_def remaining_def)
  then have "b \<in> fst ` set tagged" using assms(1) by (auto simp: queue_ok_def)
  then obtain d where d: "(b, d) \<in> set tagged" by force
  then have bd: "cube_base env (opts ! b) (P b) d" "cube_closed (opts ! b) (P b) d" using assms(1) by (auto simp: queue_ok_def)
  then have "q \<in> pos_of ` set (rc_covered d)" using q b(2) unfolding cube_base_def cube_closed_def by metis
  then have "q \<in> pos_of ` set (rc_queue d)" using bd(1) b(3) unfolding cube_base_def by blast
  then obtain t where "t \<in> set (rc_queue d)" "pos_of t = q" by blast
  then show ?thesis using d bd(1) unfolding cube_base_def by blast
qed

text \<open>
  A pop takes a combination that is left and makes its hypothesis, the best of those offered. With lazy scoring and sorted lists
  no combination that is left in any option has a better estimate.
\<close>

lemma queue_Pop_spec:
  assumes "priority pick" "priority cpick" "\<forall>opt \<in> set opts. wf_option env opt" "queue_ok env opts P tagged" "tagged \<noteq> []"
  shows "\<exists>hypo a p tagged' n'. queue_Pop env pick cpick (map snd tagged, n) = Inr (hypo, map snd tagged', n')
    \<and> (a, p) \<in> remaining opts P \<and> made_from env (opts ! a) p hypo \<and> queue_ok env opts (P(a := insert p (P a))) tagged'
    \<and> best_offered env opts P (a, p) hypo
    \<and> (ce_lazy env \<and> (\<forall>opt \<in> set opts. sorted_option opt)
         \<longrightarrow> (\<forall>bq \<in> remaining opts P. choice_estimate opts bq \<le> choice_estimate opts (a, p)))"
proof -
  have ne: "\<forall>(a, c) \<in> set tagged. rc_queue c \<noteq> []" using assms(4) by (auto simp: queue_ok_def)
  obtain xs a c ys where c: "tagged = xs @ (a, c) # ys"
    "rbind (rmap (\<lambda>c. rbind (GetTopScore pick c) (\<lambda>s. Inr (s, c))) (map snd tagged)) (pq_pop cpick fst)
      = Inr ((top_score pick c, c), map (\<lambda>(a, c). (top_score pick c, c)) (xs @ ys))"
    "\<forall>(b, d) \<in> set tagged. top_score pick d \<le> top_score pick c"
    by (rule pick_cube [OF assms(1,2,5) ne])
  let ?opt = "opts ! a"
  have ac: "a < length opts" "cube_base env ?opt (P a) c" "cube_closed ?opt (P a) c" "rc_queue c \<noteq> []"
    using assms(4) c(1) by (auto simp: queue_ok_def)
  have wf: "wf_option env ?opt" using assms(3) ac(1) by simp
  obtain item c' n1 where pop: "cube_Pop env pick (c, n) = Inr (item, c', n1)" "item \<in> set (rc_queue c)"
    "\<forall>y \<in> set (rc_queue c). ci_score y \<le> ci_score item" "pos_of item \<notin> P a"
    "cube_base env ?opt (insert (pos_of item) (P a)) c'" "cube_closed ?opt (insert (pos_of item) (P a)) c'"
    using cube_Pop_spec [OF assms(1) wf ac(2-4), of n] by blast
  have ok: "item_ok env ?opt item" using ac(2) pop(2) by (simp add: cube_base_def)
  then have combo: "pos_of item \<in> combos ?opt" by (simp add: item_ok_def)
  have opt: "rc_transOpt c' = ?opt" using pop(5) by (simp add: cube_base_def)
  obtain hypo n2 it where made: "(if ce_lazy env then CreateHypothesis env (rc_transOpt c') item n1 else Inr (item, n1)) = Inr (it, n2)"
    "ci_hypothesis it = Some hypo" "made_from env ?opt (pos_of item) hypo" "\<not> ce_lazy env \<longrightarrow> ci_score item = GetTotalScore hypo"
  proof (cases "ce_lazy env")
    case True
    then show ?thesis using CreateHypothesis_combo [OF wf combo, of n1] opt that by auto
  next
    case False
    then show ?thesis using ok that [of item n1] by (auto simp: item_ok_def)
  qed
  let ?tagged = "if rc_queue c' \<noteq> [] then (xs @ ys) @ [(a, c')] else xs @ ys"
  let ?next = "\<lambda>((_, cube), rest).
        rbind (cube_Pop env pick (cube, n)) (\<lambda>(item, cube', n1).
        rbind (if ce_lazy env then CreateHypothesis env (rc_transOpt cube') item n1 else Inr (item, n1)) (\<lambda>(item', n2).
        rbind (ReleaseHypothesis item') (\<lambda>hypo.
          Inr (hypo, (if rc_queue cube' \<noteq> [] then map snd rest @ [cube'] else map snd rest), n2))))"
  have "queue_Pop env pick cpick (map snd tagged, n)
      = rbind (rbind (rmap (\<lambda>c. rbind (GetTopScore pick c) (\<lambda>s. Inr (s, c))) (map snd tagged)) (pq_pop cpick fst)) ?next"
    by (simp add: queue_Pop_def rbind_def split: sum.splits)
  also have "\<dots> = Inr (hypo, map snd ?tagged, n2)"
    unfolding c(2) rbind_simps prod.case pop(1) made(1)
    by (simp add: made(2) ReleaseHypothesis_def case_prod_unfold comp_def)
  finally have "queue_Pop env pick cpick (map snd tagged, n) = Inr (hypo, map snd ?tagged, n2)" .
  moreover have "(a, pos_of item) \<in> remaining opts P" using ac(1) combo pop(4) by (simp add: remaining_def)
  moreover have "queue_ok env opts (P(a := insert (pos_of item) (P a))) ?tagged"
    using assms(4) unfolding c(1) by (rule queue_ok_drop) (use combo pop(5,6) in simp_all)
  moreover have "choice_estimate opts bq \<le> choice_estimate opts (a, pos_of item)"
    if lazy: "ce_lazy env" "\<forall>opt \<in> set opts. sorted_option opt" and bq: "bq \<in> remaining opts P" for bq
  proof -
    obtain b q where b: "bq = (b, q)" "b < length opts" "q \<in> combos (opts ! b)" "q \<notin> P b"
      using bq by (auto simp: remaining_def)
    then have "b \<in> fst ` set tagged" using assms(4) by (auto simp: queue_ok_def)
    then obtain d where d: "(b, d) \<in> set tagged" by force
    then have bd: "cube_base env (opts ! b) (P b) d" "cube_closed (opts ! b) (P b) d" "rc_queue d \<noteq> []"
      using assms(4) by (auto simp: queue_ok_def)
    obtain t where t: "t \<in> set (rc_queue d)" "top_score pick d = ci_score t"
      using top_score_in [OF assms(1) bd(3)] by blast
    have top: "\<forall>y \<in> set (rc_queue d). ci_score y \<le> ci_score t"
      using top_score_ge [OF assms(1)] t(2) by metis
    have sorted: "sorted_option (opts ! b)" "sorted_option (opts ! a)" using lazy(2) b(2) ac(1) by simp_all
    note best = top_best [OF lazy(1) sorted(1) bd(1,2) t(1) top b(3,4)]
    have "estimate_of (opts ! b) q \<le> top_score pick d" using best t(2) by simp
    also have "\<dots> \<le> top_score pick c" using c(3) d by blast
    also have "\<dots> \<le> ci_score item" using top_score_in [OF assms(1) ac(4)] pop(3) by auto
    also have "\<dots> = estimate_of ?opt (pos_of item)" using ok lazy(1) by (simp add: item_ok_def)
    finally show ?thesis using b(1) by (simp add: choice_estimate_def)
  qed
  moreover have "best_offered env opts P (a, pos_of item) hypo"
    unfolding best_offered_def
  proof clarify
    fix b q
    assume "(b, q) \<in> frontier_choices opts P"
    from frontier_queued [OF assms(4) this]
    obtain d t where t: "(b, d) \<in> set tagged" "t \<in> set (rc_queue d)" "pos_of t = q" "item_ok env (opts ! b) t" by blast
    have "ci_score t \<le> top_score pick d" by (rule top_score_ge [OF assms(1) t(2)])
    also have "\<dots> \<le> top_score pick c" using c(3) t(1) by blast
    also have "\<dots> \<le> ci_score item" using top_score_in [OF assms(1) ac(4)] pop(3) by auto
    finally have le: "ci_score t \<le> ci_score item" .
    show "if ce_lazy env then choice_estimate opts (b, q) \<le> choice_estimate opts (a, pos_of item)
        else \<exists>g. made_from env (opts ! b) q g \<and> GetTotalScore g \<le> GetTotalScore hypo"
    proof (cases "ce_lazy env")
      case True
      then show ?thesis using le t(3,4) ok by (simp add: item_ok_def choice_estimate_def)
    next
      case False
      then obtain g where "made_from env (opts ! b) q g" "ci_score t = GetTotalScore g" using t(3,4) by (auto simp: item_ok_def)
      then show ?thesis using le made(4) False by auto
    qed
  qed
  ultimately show ?thesis using made(3) by blast
qed

section \<open>Filling the queue\<close>

lemma fill_queue:
  assumes "\<forall>opt \<in> set opts. wf_option env opt"
  shows "\<exists>tagged n'. rfold (\<lambda>opt (cubes, n). rbind (RuleCube env opt n) (\<lambda>(c, n'). Inr (cubes @ [c], n'))) opts ([], n)
      = Inr (map snd tagged, n') \<and> queue_ok env opts (\<lambda>_. {}) tagged"
  using assms
proof (induction opts rule: rev_induct)
  case Nil
  then show ?case by (intro exI [of _ "[]"]) (simp add: queue_ok_def)
next
  case (snoc opt opts)
  then obtain tagged n1 where t: "rfold (\<lambda>opt (cubes, n). rbind (RuleCube env opt n) (\<lambda>(c, n'). Inr (cubes @ [c], n'))) opts ([], n)
      = Inr (map snd tagged, n1)" "queue_ok env opts (\<lambda>_. {}) tagged" by auto
  have wf: "wf_option env opt" using snoc.prems by simp
  obtain c n2 where c: "RuleCube env opt n1 = Inr (c, n2)" "cube_base env opt {} c" "cube_closed opt {} c"
    using RuleCube_base [OF wf, of n1] by blast
  have ne: "rc_queue c \<noteq> []"
    using queue_empty_iff [OF c(2,3)] origin_combos [OF wf] by auto
  let ?tagged = "tagged @ [(length opts, c)]"
  have less: "a < length opts" if "(a, d) \<in> set tagged" for a d
    using t(2) that by (auto simp: queue_ok_def)
  have old: "\<forall>(a, d) \<in> set tagged. a < length (opts @ [opt]) \<and> cube_base env ((opts @ [opt]) ! a) {} d
      \<and> cube_closed ((opts @ [opt]) ! a) {} d \<and> rc_queue d \<noteq> []"
    using t(2) less by (fastforce simp: queue_ok_def nth_append less_Suc_eq)
  have all: "\<forall>a < length (opts @ [opt]). a \<in> fst ` set ?tagged"
  proof (intro allI impI)
    fix a
    assume a: "a < length (opts @ [opt])"
    show "a \<in> fst ` set ?tagged"
    proof (cases "a < length opts")
      case True
      then have "combos (opts ! a) \<noteq> {}" using origin_combos [of env "opts ! a"] snoc.prems by auto
      then show ?thesis using t(2) True by (auto simp: queue_ok_def)
    qed (use a in simp)
  qed
  have "distinct (map fst ?tagged)" using t(2) less by (fastforce simp: queue_ok_def)
  then have "queue_ok env (opts @ [opt]) (\<lambda>_. {}) ?tagged"
    unfolding queue_ok_def using old all c(2,3) ne by simp
  then show ?case using t(1) c(1) by (intro exI [of _ ?tagged] exI [of _ n2]) (simp add: rfold_append)
qed

end
