(* ===== verification/ChartCells.thy ===== *)
theory ChartCells
  imports RuleCubes
begin

text \<open>
  The cells of the chart (ChartCell.h, ChartCell.cpp, ChartCellCollection.h,
  ChartCellCollection.cpp): for every span the hypotheses by target label, filled by cube
  pruning, and the labels the rule lookup of longer spans reads.
\<close>

section \<open>Parameters\<close>

text \<open>
  What a cell takes from StaticData and the translation system, and the comparator and the
  library algorithms it uses.
\<close>

record 's cell_env =
  cp_cube :: "'s cube_env"
  cp_less :: "'s hypo \<Rightarrow> 's hypo \<Rightarrow> bool result"
  cp_sel :: "'s hypo select"
  cp_pick :: "'s cube_item pick"
  cp_cpick :: "(score \<times> 's rule_cube) pick"
  cp_beamWidth :: score
  cp_maxHypoStackSize :: nat
  cp_nBestIsEnabled :: bool
  cp_distinctNBest :: bool
  cp_nBestSize :: nat
  cp_popLimit :: nat

section \<open>A cell\<close>

record 's chart_cell =
  cc_hypoColl :: "(word, 's hypo_coll) umap"
  cc_coverage :: words_range
  cc_sourceWordLabel :: "'s cell_label option"
  cc_targetLabelSet :: "'s label_set"
  cc_nBestIsEnabled :: bool

definition ChartCell :: "'s cell_env \<Rightarrow> word list \<Rightarrow> nat \<Rightarrow> nat \<Rightarrow> 's chart_cell result" where
  "ChartCell env source startPos endPos =
     rbind (if startPos = endPos
            then rbind (array_get source startPos) (\<lambda>w.
                   Inr (Some \<lparr>cl_coverage = WordsRange startPos endPos, cl_label = w, cl_stack = None\<rparr>))
            else Inr None) (\<lambda>label.
       Inr \<lparr>cc_hypoColl = [], cc_coverage = WordsRange startPos endPos, cc_sourceWordLabel = label,
            cc_targetLabelSet = [], cc_nBestIsEnabled = cp_nBestIsEnabled env\<rparr>)"

text \<open>The subscript operator of the map creates an empty collection for a new label.\<close>

definition cell_AddHypothesis :: "'s cell_env \<Rightarrow> 's hypo \<Rightarrow> 's chart_cell \<Rightarrow> 's chart_cell result" where
  "cell_AddHypothesis env hypo cell =
     rbind (um_modify NonTerminalEqualityPred (GetTargetLHS hypo)
              (ChartHypothesisCollection (cp_beamWidth env) (cp_maxHypoStackSize env) (cp_nBestIsEnabled env))
              (\<lambda>coll. rbind (hc_AddHypothesis (cp_less env) (cp_sel env) hypo coll) (\<lambda>(_, coll'). Inr coll'))
              (cc_hypoColl cell)) (\<lambda>m.
       Inr (cell\<lparr>cc_hypoColl := m\<rparr>))"

text \<open>A loop over the collections that changes each of them.\<close>

definition each_coll :: "('s hypo_coll \<Rightarrow> 's hypo_coll result) \<Rightarrow> 's chart_cell \<Rightarrow> 's chart_cell result" where
  "each_coll f cell =
     rbind (rmap (\<lambda>(label, coll). rbind (f coll) (\<lambda>coll'. Inr (label, coll'))) (cc_hypoColl cell)) (\<lambda>m.
       Inr (cell\<lparr>cc_hypoColl := m\<rparr>))"

definition cell_PruneToSize :: "'s cell_env \<Rightarrow> 's chart_cell \<Rightarrow> 's chart_cell result" where
  "cell_PruneToSize env = each_coll (hc_PruneToSize (cp_less env) (cp_sel env))"

text \<open>The loop that pops hypotheses, at most popLimit times; the numbers are the pops that are left and the next identifier.\<close>

fun pop_loop :: "'s cell_env \<Rightarrow> nat \<Rightarrow> 's rule_cube list \<times> nat \<Rightarrow> 's chart_cell \<Rightarrow> ('s chart_cell \<times> nat) result" where
  "pop_loop env 0 st cell = Inr (cell, snd st)"
| "pop_loop env (Suc k) st cell =
     (if fst st = [] then Inr (cell, snd st)
      else rbind (queue_Pop (cp_cube env) (cp_pick env) (cp_cpick env) st) (\<lambda>(hypo, st').
           rbind (cell_AddHypothesis env hypo cell) (\<lambda>cell'.
             pop_loop env k st' cell')))"

definition add_cube :: "'s cell_env \<Rightarrow> 's trans_opt_list \<Rightarrow> nat \<Rightarrow> 's rule_cube list \<times> nat \<Rightarrow> ('s rule_cube list \<times> nat) result" where
  "add_cube env transOptList i st =
     rbind (tol_Get transOptList i) (\<lambda>transOpt.
     rbind (RuleCube (cp_cube env) transOpt (snd st)) (\<lambda>(cube, n).
       Inr (fst st @ [cube], n)))"

definition cell_ProcessSentence :: "'s cell_env \<Rightarrow> 's trans_opt_list \<Rightarrow> 's chart_cell \<times> nat \<Rightarrow> ('s chart_cell \<times> nat) result" where
  "cell_ProcessSentence env transOptList st =
     rbind (rfold (add_cube env transOptList) [0..<tol_size transOptList] ([], snd st)) (\<lambda>queue.
       pop_loop env (cp_popLimit env) queue (fst st))"

text \<open>
  The label of a collection points to its sorted list, which is filled after the label has
  been added; the model sorts first.
\<close>

definition cell_SortHypotheses :: "'s cell_env \<Rightarrow> 's chart_cell \<Rightarrow> 's chart_cell result" where
  "cell_SortHypotheses env cell =
     rbind (check (cc_targetLabelSet cell = [])) (\<lambda>_.
     rbind (each_coll (hc_SortHypotheses (cp_sel env)) cell) (\<lambda>cell'.
       Inr (cell'\<lparr>cc_targetLabelSet := fold (\<lambda>(label, coll).
              AddConstituent (cc_coverage cell) label (hc_hyposOrdered coll)) (cc_hypoColl cell') []\<rparr>)))"

definition cell_GetBestHypothesis :: "'s chart_cell \<Rightarrow> 's hypo option result" where
  "cell_GetBestHypothesis cell =
     rbind (rfold (\<lambda>(label, coll) (ret, bestScore).
         case hc_hyposOrdered coll of
           [] \<Rightarrow> Inl CheckFailed
         | hypo # _ \<Rightarrow> Inr (if GetTotalScore hypo > bestScore then (Some hypo, GetTotalScore hypo) else (ret, bestScore)))
       (cc_hypoColl cell) (None, NegInf)) (\<lambda>(ret, _). Inr ret)"

definition cell_CleanupArcList :: "'s cell_env \<Rightarrow> 's chart_cell \<Rightarrow> 's chart_cell result" where
  "cell_CleanupArcList env cell =
     (if \<not> cc_nBestIsEnabled cell then Inr cell
      else each_coll (hc_CleanupArcList (cp_sel env) (cp_distinctNBest env) (cp_nBestSize env)) cell)"

definition cell_GetSize :: "'s chart_cell \<Rightarrow> nat" where
  "cell_GetSize cell = fold (\<lambda>(label, coll) ret. ret + length (hc_hypos coll)) (cc_hypoColl cell) 0"

definition GetSortedHypotheses :: "'s chart_cell \<Rightarrow> word \<Rightarrow> 's hypo_list option" where
  "GetSortedHypotheses cell constituentLabel =
     (case um_find NonTerminalEqualityPred constituentLabel (cc_hypoColl cell) of
        None \<Rightarrow> None | Some coll \<Rightarrow> Some (hc_hyposOrdered coll))"

definition GetSourceWordLabel :: "'s chart_cell \<Rightarrow> 's cell_label result" where
  "GetSourceWordLabel cell =
     rbind (check (range_GetNumWordsCovered (cc_coverage cell) = 1)) (\<lambda>_.
       case cc_sourceWordLabel cell of None \<Rightarrow> Inl NullPointer | Some lab \<Rightarrow> Inr lab)"

section \<open>The chart\<close>

text \<open>The cells by start position and length minus 1.\<close>

type_synonym 's chart = "'s chart_cell list list"

definition ChartCellCollection :: "'s cell_env \<Rightarrow> word list \<Rightarrow> 's chart result" where
  "ChartCellCollection env source =
     rmap (\<lambda>startPos. rmap (\<lambda>endPos. ChartCell env source startPos endPos) [startPos..<length source])
       [0..<length source]"

definition chart_Get :: "'s chart \<Rightarrow> words_range \<Rightarrow> 's chart_cell result" where
  "chart_Get cells coverage =
     rbind (array_get cells (GetStartPos coverage)) (\<lambda>row.
       array_get row (GetEndPos coverage - GetStartPos coverage))"

definition chart_set :: "words_range \<Rightarrow> 's chart_cell \<Rightarrow> 's chart \<Rightarrow> 's chart result" where
  "chart_set coverage cell cells =
     rbind (array_get cells (GetStartPos coverage)) (\<lambda>row.
     rbind (array_set row (GetEndPos coverage - GetStartPos coverage) cell) (\<lambda>row'.
       Inr (cells[GetStartPos coverage := row'])))"

end
