(* ===== verification/HypoCollProps.thy ===== *)
theory HypoCollProps
  imports HypoColl
begin

text \<open>
  The properties of a hypothesis collection (theory HypoColl): what pruning keeps, and what
  a sequence of calls of AddHypothesis leaves in the collection.
\<close>

section \<open>Pruning\<close>

text \<open>How many hypotheses reach a score.\<close>

abbreviation reach :: "score \<Rightarrow> 's hypo list \<Rightarrow> nat" where
  "reach c hs \<equiv> length (filter (\<lambda>h. c \<le> GetTotalScore h) hs)"

lemma reach_mset: "mset hs = mset hs' \<Longrightarrow> reach c hs = reach c hs'"
  by (metis mset_filter size_mset)

lemma reach_map: "reach c hs = length (filter ((\<le>) c) (map GetTotalScore hs))"
  by (simp add: filter_map comp_def)

text \<open>The beam: scores at or below it are never needed.\<close>

abbreviation beam :: "'s hypo_coll \<Rightarrow> score" where
  "beam coll \<equiv> hc_bestScore coll + hc_beamWidth coll"

lemma sorted_desc_nth: "sorted_wrt (\<lambda>x y. y \<le> x) xs \<Longrightarrow> i \<le> j \<Longrightarrow> j < length xs \<Longrightarrow> xs ! j \<le> (xs ! i :: score)"
  using sorted_wrt_nth_less [of "\<lambda>x y. y \<le> x" xs i j] by (cases "i = j") auto

lemma prune_threshold_spec:
  assumes "\<exists>h \<in> set (hc_hypos coll). beam coll < GetTotalScore h" "1 \<le> hc_maxHypoStackSize coll"
  obtains th where "prune_threshold coll = Inr th" "beam coll < th"
    "\<And>c. beam coll < c \<Longrightarrow> c \<le> th \<Longrightarrow> min (hc_maxHypoStackSize coll) (reach c (hc_hypos coll)) \<le> reach th (hc_hypos coll)"
    "\<And>g. g \<in> set (hc_hypos coll) \<Longrightarrow> GetTotalScore g < th \<Longrightarrow> GetTotalScore g \<le> beam coll
       \<or> hc_maxHypoStackSize coll \<le> reach th (hc_hypos coll)"
proof -
  let ?k = "hc_maxHypoStackSize coll" and ?hs = "hc_hypos coll"
  define above where "above = filter (\<lambda>score. score > beam coll) (map GetTotalScore ?hs)"
  define heap where "heap = sort_desc id above"
  define n where "n = (if ?k > length heap then length heap else ?k)"
  have n_min: "n = min ?k (length above)" by (simp add: n_def heap_def min_def)
  have "above \<noteq> []" using assms(1) by (auto simp: above_def filter_empty_conv)
  then have n: "1 \<le> n" "n \<le> length heap" using assms(2) by (auto simp: n_min heap_def Suc_le_eq)
  let ?th = "heap ! (n - 1)"
  have sorted: "sorted_wrt (\<lambda>x y. y \<le> x) heap"
    using sort_desc_sorted [of id above] by (simp add: heap_def)
  have "drop (n - 1) heap = ?th # drop n heap" using n by (metis Cons_nth_drop_Suc Suc_diff_1 Suc_le_lessD less_le_trans diff_less less_one not_less)
  then have th: "prune_threshold coll = Inr ?th"
    unfolding prune_threshold_def Let_def above_def [symmetric] heap_def [symmetric] n_def [symmetric] by simp
  have mem: "?th \<in> set above" using n by (metis Suc_le_lessD diff_less heap_def less_le_trans less_one nth_mem set_sort_desc not_less One_nat_def Suc_pred)
  have "\<forall>s \<in> set (take n heap). ?th \<le> s"
  proof
    fix s
    assume "s \<in> set (take n heap)"
    then obtain i where "i < n" "s = heap ! i" by (auto simp: in_set_conv_nth)
    then show "?th \<le> s" using sorted_desc_nth [OF sorted, of i "n - 1"] n by simp
  qed
  then have "length (take n heap) \<le> length (filter ((\<le>) ?th) heap)"
    by (metis append_take_drop_id filter_True filter_append le_add1 length_append)
  also have "\<dots> = length (filter ((\<le>) ?th) above)"
    by (metis heap_def mset_filter mset_sort_desc size_mset)
  also have "\<dots> \<le> reach ?th ?hs"
    unfolding reach_map above_def filter_filter by (intro filter_length_mono) simp
  finally have reach: "n \<le> reach ?th ?hs" using n by simp
  show ?thesis
  proof (rule that [OF th])
    show "beam coll < ?th" using mem by (simp add: above_def)
    show "min ?k (reach c ?hs) \<le> reach ?th ?hs" if "beam coll < c" for c
    proof -
      have "reach c ?hs \<le> length above"
        unfolding reach_map above_def using that by (intro filter_length_mono) auto
      then show ?thesis using reach by (simp add: n_min)
    qed
    show "GetTotalScore g \<le> beam coll \<or> ?k \<le> reach ?th ?hs" if "g \<in> set ?hs" "GetTotalScore g < ?th" for g
    proof (cases "GetTotalScore g \<le> beam coll")
      case False
      then have "GetTotalScore g \<in> set heap" using that(1) by (simp add: heap_def above_def not_le)
      then obtain i where i: "i < length heap" "heap ! i = GetTotalScore g" by (auto simp: in_set_conv_nth)
      have "n - 1 < length heap" using n by linarith
      then have "\<not> i \<le> n - 1" using sorted_desc_nth [OF sorted, of i "n - 1"] n i that(2) by auto
      then have "n < length above" using i n by (simp add: heap_def)
      then show ?thesis using reach by (simp add: n_min)
    qed simp
  qed
qed

section \<open>Pruning in a collection\<close>

text \<open>
  What pruning promises: it removes only hypotheses that score no better than all it keeps; of
  the hypotheses that reach a score above the beam, as many remain as the stack size allows;
  and what is removed is below the beam or has as many better ones in its place.
\<close>

definition pruned :: "'s hypo_coll \<Rightarrow> 's hypo list \<Rightarrow> bool" where
  "pruned coll hs' \<longleftrightarrow> set hs' \<subseteq> set (hc_hypos coll) \<and>
     length hs' \<le> hc_maxHypoStackSize coll * 2 \<and>
     (\<forall>c. beam coll < c \<longrightarrow> min (hc_maxHypoStackSize coll) (reach c (hc_hypos coll)) \<le> reach c hs') \<and>
     (\<forall>g \<in> set (hc_hypos coll) - set hs'. (\<forall>h \<in> set hs'. GetTotalScore g \<le> GetTotalScore h) \<and>
        (GetTotalScore g \<le> beam coll \<or> hc_maxHypoStackSize coll \<le> reach (GetTotalScore g) hs'))"

lemma reach_mono: "c \<le> d \<Longrightarrow> reach d hs \<le> reach c hs"
  by (intro filter_length_mono) auto

lemma pruned_best:
  assumes "pruned coll hs'" "b \<in> set (hc_hypos coll)" "GetTotalScore b = c" "beam coll < c"
    and "\<forall>h \<in> set (hc_hypos coll). GetTotalScore h \<le> c" "1 \<le> hc_maxHypoStackSize coll"
  shows "c \<in> GetTotalScore ` set hs'"
proof -
  have "filter (\<lambda>h. c \<le> GetTotalScore h) (hc_hypos coll) \<noteq> []"
    unfolding filter_empty_conv using assms(2,3) order_refl by metis
  then have "0 < reach c (hc_hypos coll)" by simp
  moreover have "min (hc_maxHypoStackSize coll) (reach c (hc_hypos coll)) \<le> reach c hs'"
    using assms(1,4) by (simp add: pruned_def)
  ultimately have "0 < reach c hs'" using assms(6) by linarith
  then obtain h where h: "h \<in> set hs'" "c \<le> GetTotalScore h" by (auto simp: filter_empty_conv)
  moreover have "GetTotalScore h \<le> c" using assms(1,5) h(1) unfolding pruned_def by blast
  ultimately show ?thesis by (force simp: antisym)
qed

text \<open>The first k hypotheses of a list in descending order of the scores.\<close>

lemma reach_take:
  assumes "sorted_wrt (\<lambda>x y. GetTotalScore y \<le> GetTotalScore x) hs"
  shows "min k (reach c hs) \<le> reach c (take k hs)"
proof (cases "\<forall>h \<in> set (take k hs). c \<le> GetTotalScore h")
  case True
  then have "reach c (take k hs) = length (take k hs)" by simp
  moreover have "min k (reach c hs) \<le> length hs" using length_filter_le [of _ hs] le_trans min.cobounded2 by blast
  ultimately show ?thesis by simp
next
  case False
  then obtain h where h: "h \<in> set (take k hs)" "GetTotalScore h < c" by (auto simp: not_le)
  have "sorted_wrt (\<lambda>x y. GetTotalScore y \<le> GetTotalScore x) (take k hs @ drop k hs)" using assms by simp
  then have "\<forall>g \<in> set (drop k hs). GetTotalScore g < c"
    using h unfolding sorted_wrt_append by (meson le_less_trans)
  then have "filter (\<lambda>h. c \<le> GetTotalScore h) (drop k hs) = []" by (auto simp: filter_empty_conv not_le)
  then have "reach c hs = reach c (take k hs)"
    by (metis append_take_drop_id filter_append self_append_conv)
  then show ?thesis by simp
qed

context hypo_order
begin

abbreviation ok_coll :: "'s hypo list \<Rightarrow> bool" where
  "ok_coll \<equiv> recomb.ok_set"

lemma remove_found:
  assumes "ok_coll (hc_hypos coll)" "set ds \<subseteq> set (hc_hypos coll)" "distinct ds"
  shows "rfold (\<lambda>hypo coll. rbind (set_find (RecombinationOrderer cmp diff) hypo (hc_hypos coll)) (\<lambda>found.
           case found of None \<Rightarrow> Inl CheckFailed | Some h \<Rightarrow> Inr (Detach h coll))) ds coll
    = Inr (coll\<lparr>hc_hypos := filter (\<lambda>h. h \<notin> set ds) (hc_hypos coll)\<rparr>)"
  using assms
proof (induction ds arbitrary: coll)
  case (Cons d ds)
  have d: "d \<in> set (hc_hypos coll)" "ok_hypo rng lhs shape d"
    using Cons.prems(1,2) recomb.ok_set_ok by auto
  have find: "set_find (RecombinationOrderer cmp diff) d (hc_hypos coll) = Inr (Some d)"
    by (rule recomb.set_find_existing [OF Cons.prems(1) d(2,1)]) (use d(2) in simp)
  have del: "hc_hypos (Detach d coll) = filter (\<lambda>h. h \<noteq> d) (hc_hypos coll)"
    using recomb.ok_set_distinct [OF Cons.prems(1)]
    by (simp add: Detach_def distinct_remove1_removeAll removeAll_filter_not_eq eq_commute)
  have "ok_coll (hc_hypos (Detach d coll))" unfolding del by (rule recomb.ok_set_filter [OF Cons.prems(1)])
  moreover have "set ds \<subseteq> set (hc_hypos (Detach d coll))" using Cons.prems(2,3) by (auto simp: del)
  ultimately have "rfold (\<lambda>hypo coll. rbind (set_find (RecombinationOrderer cmp diff) hypo (hc_hypos coll)) (\<lambda>found.
        case found of None \<Rightarrow> Inl CheckFailed | Some h \<Rightarrow> Inr (Detach h coll))) ds (Detach d coll)
      = Inr ((Detach d coll)\<lparr>hc_hypos := filter (\<lambda>h. h \<notin> set ds) (hc_hypos (Detach d coll))\<rparr>)"
    using Cons by simp
  then show ?case
    using find by (simp add: del) (auto simp: Detach_def intro!: arg_cong2 [where f = hc_hypos_update] filter_cong)
qed simp

lemma desperation_spec:
  assumes "ok_coll (hc_hypos coll)"
  obtains hs' where "desperation_prune (RecombinationOrderer cmp diff) sel coll = Inr (coll\<lparr>hc_hypos := hs'\<rparr>)"
    "ok_coll hs'" "set hs' \<subseteq> set (hc_hypos coll)" "length hs' \<le> hc_maxHypoStackSize coll * 2"
    "\<forall>c. min (hc_maxHypoStackSize coll * 2) (reach c (hc_hypos coll)) \<le> reach c hs'"
    "\<forall>g \<in> set (hc_hypos coll) - set hs'. length hs' = hc_maxHypoStackSize coll * 2
       \<and> (\<forall>h \<in> set hs'. GetTotalScore g \<le> GetTotalScore h)"
proof (cases "length (hc_hypos coll) > hc_maxHypoStackSize coll * 2")
  case False
  then show ?thesis using assms that [of "hc_hypos coll"] by (simp add: desperation_prune_def)
next
  case True
  let ?hs = "hc_hypos coll" and ?k = "hc_maxHypoStackSize coll * 2"
  define ordered where "ordered = sel GetTotalScore (length ?hs) ?hs"
  define hs' where "hs' = filter (\<lambda>h. h \<notin> set (drop ?k ordered)) ?hs"
  have m: "mset ordered = mset ?hs" by (simp add: ordered_def sel_mset)
  have dist: "distinct ?hs" by (rule recomb.ok_set_distinct [OF assms])
  then have dist': "distinct ordered" using m by (metis distinct_count_atmost_1 count_mset set_mset_mset)
  have set: "set ordered = set ?hs" using m by (metis set_mset_mset)
  have len: "length ordered = length ?hs" using m by (metis size_mset)
  have sorted: "sorted_wrt (\<lambda>x y. GetTotalScore y \<le> GetTotalScore x) ordered"
    using sel_sorted [of GetTotalScore "length ?hs" ?hs] len by (simp add: ordered_def)
  have eq: "desperation_prune (RecombinationOrderer cmp diff) sel coll = Inr (coll\<lparr>hc_hypos := hs'\<rparr>)"
    unfolding desperation_prune_def Let_def if_P [OF True] ordered_def [symmetric] hs'_def
    by (rule remove_found [OF assms]) (use set dist' set_drop_subset in fastforce)+
  have "set (take ?k ordered) \<union> set (drop ?k ordered) = set ?hs"
    by (metis append_take_drop_id set set_append)
  moreover have "set (take ?k ordered) \<inter> set (drop ?k ordered) = {}"
    using dist' by (simp add: set_take_disj_set_drop_if_distinct)
  ultimately have top: "set hs' = set (take ?k ordered)" by (auto simp: hs'_def)
  have "mset hs' = mset (take ?k ordered)"
    using top dist dist' set_eq_iff_mset_eq_distinct [of hs' "take ?k ordered"] by (simp add: hs'_def)
  then have reach: "reach c hs' = reach c (take ?k ordered)" and "length hs' = length (take ?k ordered)" for c
    using reach_mset by (blast, metis size_mset)
  then have len': "length hs' = ?k" using True len by simp
  have drop: "g \<in> set (drop ?k ordered)" if "g \<in> set ?hs - set hs'" for g
    using that by (auto simp: hs'_def)
  show ?thesis
  proof (rule that [OF eq])
    show "ok_coll hs'" unfolding hs'_def by (rule recomb.ok_set_filter [OF assms])
    show "\<forall>c. min ?k (reach c ?hs) \<le> reach c hs'"
      using reach_take [OF sorted, of ?k] reach_mset [OF m] by (simp add: reach)
    have "sorted_wrt (\<lambda>x y. GetTotalScore y \<le> GetTotalScore x) (take ?k ordered @ drop ?k ordered)"
      using sorted by simp
    then show "\<forall>g \<in> set ?hs - set hs'. length hs' = ?k \<and> (\<forall>h \<in> set hs'. GetTotalScore g \<le> GetTotalScore h)"
      using drop len' unfolding top sorted_wrt_append by blast
  qed (use len' in \<open>auto simp: hs'_def\<close>)
qed

lemma PruneToSize_spec:
  assumes ok: "ok_coll (hc_hypos coll)" and k: "1 \<le> hc_maxHypoStackSize coll"
    and best: "\<exists>h \<in> set (hc_hypos coll). beam coll < GetTotalScore h"
  obtains hs' where "hc_PruneToSize (RecombinationOrderer cmp diff) sel coll = Inr (coll\<lparr>hc_hypos := hs'\<rparr>)"
    "ok_coll hs'" "pruned coll hs'"
proof (cases "length (hc_hypos coll) > hc_maxHypoStackSize coll")
  case False
  then show ?thesis
    using ok that [of "hc_hypos coll"] by (auto simp: hc_PruneToSize_def pruned_def)
next
  case True
  let ?hs = "hc_hypos coll" and ?k = "hc_maxHypoStackSize coll"
  obtain th where th: "prune_threshold coll = Inr th" "beam coll < th"
    "\<And>c. beam coll < c \<Longrightarrow> c \<le> th \<Longrightarrow> min ?k (reach c ?hs) \<le> reach th ?hs"
    "\<And>g. g \<in> set ?hs \<Longrightarrow> GetTotalScore g < th \<Longrightarrow> GetTotalScore g \<le> beam coll \<or> ?k \<le> reach th ?hs"
    using prune_threshold_spec [OF best k] by blast
  define hs1 where "hs1 = filter (\<lambda>hypo. \<not> GetTotalScore hypo < th) ?hs"
  define c1 where "c1 = coll\<lparr>hc_hypos := hs1\<rparr>"
  have c1: "hc_hypos c1 = hs1" "hc_maxHypoStackSize c1 = ?k" "\<And>hs. c1\<lparr>hc_hypos := hs\<rparr> = coll\<lparr>hc_hypos := hs\<rparr>"
    by (simp_all add: c1_def)
  have ok1: "ok_coll (hc_hypos c1)" using recomb.ok_set_filter [OF ok] by (simp add: c1 hs1_def)
  obtain hs' where hs': "desperation_prune (RecombinationOrderer cmp diff) sel c1 = Inr (coll\<lparr>hc_hypos := hs'\<rparr>)"
    "ok_coll hs'" "set hs' \<subseteq> set hs1" "length hs' \<le> ?k * 2"
    "\<forall>c. min (?k * 2) (reach c hs1) \<le> reach c hs'"
    "\<forall>g \<in> set hs1 - set hs'. length hs' = ?k * 2 \<and> (\<forall>h \<in> set hs'. GetTotalScore g \<le> GetTotalScore h)"
    by (rule desperation_spec [OF ok1, unfolded c1])
  have reach1: "reach c hs1 = reach (max c th) ?hs" for c
    by (auto simp: hs1_def not_less intro!: arg_cong [where f = length] filter_cong)
  have eq: "hc_PruneToSize (RecombinationOrderer cmp diff) sel coll = Inr (coll\<lparr>hc_hypos := hs'\<rparr>)"
    using True th(1) hs'(1) by (simp add: hc_PruneToSize_def hs1_def c1_def)
  have low: "(\<forall>h \<in> set hs'. GetTotalScore g \<le> GetTotalScore h) \<and> (GetTotalScore g \<le> beam coll \<or> ?k \<le> reach (GetTotalScore g) hs')"
    if g: "g \<in> set ?hs - set hs'" for g
  proof (cases "GetTotalScore g < th")
    case True
    have "GetTotalScore g \<le> GetTotalScore h" if "h \<in> set hs'" for h
      using True hs'(3) that by (auto simp: hs1_def)
    moreover have "?k \<le> reach (GetTotalScore g) hs'" if "?k \<le> reach th ?hs"
    proof -
      have "reach (GetTotalScore g) hs1 = reach th ?hs" using True by (simp add: reach1 max_def)
      then show ?thesis using hs'(5) [THEN spec, of "GetTotalScore g"] that by simp
    qed
    ultimately show ?thesis using th(4) [of g] g True by blast
  next
    case False
    then have "g \<in> set hs1 - set hs'" using g by (simp add: hs1_def)
    then have "length hs' = ?k * 2" "\<forall>h \<in> set hs'. GetTotalScore g \<le> GetTotalScore h"
      using hs'(6) by blast+
    then show ?thesis by simp
  qed
  have "min ?k (reach c ?hs) \<le> reach c hs'" if c: "beam coll < c" for c
  proof (cases "c \<le> th")
    case True
    then show ?thesis using th(3) [OF c True] hs'(5) [THEN spec, of c] by (simp add: reach1 max_def)
  next
    case False
    then show ?thesis using hs'(5) [THEN spec, of c] by (simp add: reach1 max_def)
  qed
  moreover have "set hs' \<subseteq> set ?hs" using hs'(3) by (auto simp: hs1_def)
  ultimately have "pruned coll hs'" unfolding pruned_def using low hs'(4) by blast
  then show ?thesis by (rule that [OF eq hs'(2)])
qed

end

section \<open>Sequences of AddHypothesis\<close>

text \<open>A hypothesis without its arcs, and its arcs.\<close>

abbreviation bare :: "'s hypo \<Rightarrow> 's hypo" where
  "bare h \<equiv> with_arcs None h"

definition arcs_of :: "'s hypo \<Rightarrow> 's hypo list" where
  "arcs_of h = (case h_arcs h of None \<Rightarrow> [] | Some arcs \<Rightarrow> arcs)"

lemma arcs_of_simps [simp]: "arcs_of (with_arcs (Some as) h) = as" "arcs_of (with_arcs None h) = []"
  by (simp_all add: arcs_of_def)

lemma AddArc_simps [simp]:
  "h_total (AddArc h l) = h_total h" "h_states (AddArc h l) = h_states h" "bare (AddArc h l) = bare h"
  "arcs_of (AddArc h l) = arcs_of h @ arcs_of l @ [bare l]" "ok_hypo rng lhs shape (AddArc h l) = ok_hypo rng lhs shape h"
  by (simp_all add: AddArc_def arcs_of_def split: option.splits)

lemma bare_total: "bare h = bare g \<Longrightarrow> h_total h = h_total g"
  by (metis with_arcs_simps(5))

lemma reach_Cons_remove1:
  "mset hs' = add_mset h (mset (remove1 e hs)) \<Longrightarrow> e \<in> set hs \<Longrightarrow> GetTotalScore e \<le> GetTotalScore h
     \<Longrightarrow> reach c hs \<le> reach c hs'"
proof -
  assume m: "mset hs' = add_mset h (mset (remove1 e hs))" and e: "e \<in> set hs" "GetTotalScore e \<le> GetTotalScore h"
  have "reach c hs = reach c (e # remove1 e hs)" using e(1) by (intro reach_mset) simp
  also have "\<dots> \<le> reach c (h # remove1 e hs)" using e(2) by auto
  also have "\<dots> = reach c hs'" using m by (intro reach_mset) simp
  finally show ?thesis .
qed

text \<open>The parameters of the collection: a proper beam and a stack size that is not 0.\<close>

definition proper :: "'s hypo_coll \<Rightarrow> bool" where
  "proper coll \<longleftrightarrow> (\<exists>w. hc_beamWidth coll = Fin w \<and> w < 0) \<and>
     1 \<le> hc_maxHypoStackSize coll \<and> 2 * hc_maxHypoStackSize coll < SIZE_RANGE"

definition same_params :: "'s hypo_coll \<Rightarrow> 's hypo_coll \<Rightarrow> bool" where
  "same_params coll coll' \<longleftrightarrow> hc_beamWidth coll' = hc_beamWidth coll \<and>
     hc_maxHypoStackSize coll' = hc_maxHypoStackSize coll \<and>
     hc_nBestIsEnabled coll' = hc_nBestIsEnabled coll \<and> hc_hyposOrdered coll' = hc_hyposOrdered coll"

text \<open>
  What a caller relies on: fresh hypotheses of one cell and label, with finite scores.
\<close>

definition valid_offers :: "words_range \<Rightarrow> word \<Rightarrow> bool list \<Rightarrow> 's hypo list \<Rightarrow> bool" where
  "valid_offers rng lhs shape hs \<longleftrightarrow>
     (\<forall>h \<in> set hs. ok_hypo rng lhs shape h \<and> h_arcs h = None \<and> (\<exists>x. GetTotalScore h = Fin x))"

context hypo_order
begin

lemma eqv_arcs [simp]:
  "recomb.eqv (with_arcs a x) y = recomb.eqv x y" "recomb.eqv x (with_arcs a y) = recomb.eqv x y"
  "recomb.eqv (AddArc x l) y = recomb.eqv x y" "recomb.eqv x (AddArc y l) = recomb.eqv x y"
  by (simp_all add: recomb.eqv_def)

text \<open>
  The first hypothesis stands for the second: same states, a score as good, and in n-best mode the
  second is found among its arcs.
\<close>

definition represents :: "bool \<Rightarrow> 's hypo \<Rightarrow> 's hypo \<Rightarrow> bool" where
  "represents nBest g h \<longleftrightarrow> recomb.eqv g h \<and> GetTotalScore h \<le> GetTotalScore g
     \<and> (nBest \<longrightarrow> bare h = bare g \<or> bare h \<in> set (arcs_of g))"

definition subsumes :: "bool \<Rightarrow> 's hypo \<Rightarrow> 's hypo \<Rightarrow> bool" where
  "subsumes nBest g h \<longleftrightarrow> recomb.eqv g h \<and> GetTotalScore h \<le> GetTotalScore g
     \<and> (nBest \<longrightarrow> insert (bare h) (set (arcs_of h)) \<subseteq> insert (bare g) (set (arcs_of g)))"

definition arcs_sound :: "'s hypo list \<Rightarrow> 's hypo \<Rightarrow> bool" where
  "arcs_sound offered h \<longleftrightarrow> (\<forall>a \<in> set (arcs_of h). a \<in> bare ` set offered \<and> recomb.eqv h a
     \<and> GetTotalScore a \<le> GetTotalScore h)"

definition coll_holds :: "'s hypo_coll \<Rightarrow> 's hypo list \<Rightarrow> bool" where
  "coll_holds coll offered \<longleftrightarrow> ok_coll (hc_hypos coll) \<and>
     (\<forall>h \<in> set (hc_hypos coll). bare h \<in> bare ` set offered \<and> arcs_sound offered h) \<and>
     (\<forall>h \<in> set offered. GetTotalScore h \<le> hc_bestScore coll) \<and>
     (if offered = [] then hc_bestScore coll = NegInf
      else \<exists>h \<in> set (hc_hypos coll). GetTotalScore h = hc_bestScore coll) \<and>
     (\<forall>h \<in> set offered. (\<exists>g \<in> set (hc_hypos coll). represents (hc_nBestIsEnabled coll) g h)
        \<or> GetTotalScore h \<le> beam coll
        \<or> hc_maxHypoStackSize coll \<le> reach (GetTotalScore h) (hc_hypos coll))"

lemma coll_holds_total:
  "coll_holds coll offered \<Longrightarrow> h \<in> set (hc_hypos coll) \<Longrightarrow> GetTotalScore h \<le> hc_bestScore coll"
proof -
  assume a: "coll_holds coll offered" "h \<in> set (hc_hypos coll)"
  then obtain x where "x \<in> set offered" "bare h = bare x" by (auto simp: coll_holds_def)
  then show ?thesis using a(1) bare_total [of h x] by (simp add: coll_holds_def)
qed

lemma holds_pruned:
  assumes "coll_holds coll offered" "pruned coll hs'" "ok_coll hs'" "1 \<le> hc_maxHypoStackSize coll"
    and "beam coll < hc_bestScore coll" "offered \<noteq> []"
  shows "coll_holds (coll\<lparr>hc_hypos := hs'\<rparr>) offered"
proof -
  let ?k = "hc_maxHypoStackSize coll" and ?hs = "hc_hypos coll"
  have sub: "set hs' \<subseteq> set ?hs"
    and keep: "\<And>c. beam coll < c \<Longrightarrow> min ?k (reach c ?hs) \<le> reach c hs'"
    and drop: "\<And>g. g \<in> set ?hs - set hs' \<Longrightarrow> GetTotalScore g \<le> beam coll \<or> ?k \<le> reach (GetTotalScore g) hs'"
    using assms(2) unfolding pruned_def by blast+
  obtain b where b: "b \<in> set ?hs" "GetTotalScore b = hc_bestScore coll"
    using assms(1,6) unfolding coll_holds_def by metis
  have "hc_bestScore coll \<in> GetTotalScore ` set hs'"
    using coll_holds_total [OF assms(1)] by (intro pruned_best [OF assms(2) b assms(5) _ assms(4)]) blast
  then have best: "\<exists>h \<in> set hs'. GetTotalScore h = hc_bestScore coll" by (metis imageE)
  have "(\<exists>g \<in> set hs'. represents (hc_nBestIsEnabled coll) g h) \<or> GetTotalScore h \<le> beam coll
      \<or> ?k \<le> reach (GetTotalScore h) hs'" if h: "h \<in> set offered" for h
  proof -
    consider g where "g \<in> set ?hs" "represents (hc_nBestIsEnabled coll) g h" | "GetTotalScore h \<le> beam coll"
      | "?k \<le> reach (GetTotalScore h) ?hs"
      using assms(1) h by (auto simp: coll_holds_def)
    then show ?thesis
    proof cases
      case 1
      then have le: "GetTotalScore h \<le> GetTotalScore g" by (simp add: represents_def)
      show ?thesis
      proof (cases "g \<in> set hs'")
        case False
        then have "GetTotalScore g \<le> beam coll \<or> ?k \<le> reach (GetTotalScore g) hs'" using drop 1(1) by blast
        then show ?thesis using le reach_mono [OF le, of hs'] by (metis order_trans)
      qed (use 1 in blast)
    next
      case 3
      then show ?thesis using keep [of "GetTotalScore h"] by (cases "GetTotalScore h \<le> beam coll") auto
    qed simp
  qed
  then show ?thesis using assms(1,3,6) best sub by (auto simp: coll_holds_def)
qed

text \<open>A new hypothesis is accounted for: added, or merged with one that is there.\<close>

lemma holds_update:
  assumes "coll_holds coll offered" "ok_coll hs'" "hc_beamWidth coll \<le> 0"
    and "\<forall>g \<in> set (hc_hypos coll). \<exists>g' \<in> set hs'. subsumes (hc_nBestIsEnabled coll) g' g"
    and "\<exists>g' \<in> set hs'. represents (hc_nBestIsEnabled coll) g' h"
    and "\<forall>g' \<in> set hs'. bare g' \<in> insert (bare h) (bare ` set (hc_hypos coll)) \<and> arcs_sound (offered @ [h]) g'"
    and "\<forall>c. reach c (hc_hypos coll) \<le> reach c hs'" "ok_hypo rng lhs shape h" "list_all (ok_hypo rng lhs shape) offered"
  shows "coll_holds (coll\<lparr>hc_hypos := hs', hc_bestScore := max (GetTotalScore h) (hc_bestScore coll)\<rparr>) (offered @ [h])"
proof -
  let ?best = "max (GetTotalScore h) (hc_bestScore coll)" and ?nb = "hc_nBestIsEnabled coll"
  let ?k = "hc_maxHypoStackSize coll" and ?hs = "hc_hypos coll"
  have beam: "beam coll \<le> ?best + hc_beamWidth coll" by (intro add_right_mono) simp
  have ok: "ok_hypo rng lhs shape g" if "g \<in> set ?hs \<union> set hs' \<union> set offered" for g
    using that assms(1,2,9) recomb.ok_set_ok by (auto simp: coll_holds_def list_all_iff)
  have total: "GetTotalScore g \<le> ?best" if g: "g \<in> set hs'" for g
  proof -
    consider "bare g = bare h" | g0 where "g0 \<in> set ?hs" "bare g = bare g0" using assms(6) g by blast
    then show ?thesis
    proof cases
      case 1
      then show ?thesis using bare_total [of g h] by simp
    next
      case 2
      then show ?thesis using bare_total [of g g0] coll_holds_total [OF assms(1) 2(1)] by (simp add: le_max_iff_disj)
    qed
  qed
  have best: "\<exists>g \<in> set hs'. GetTotalScore g = ?best"
  proof (cases "hc_bestScore coll \<le> GetTotalScore h")
    case True
    obtain g where g: "g \<in> set hs'" "GetTotalScore h \<le> GetTotalScore g"
      using assms(5) by (auto simp: represents_def)
    then have "GetTotalScore g = ?best" using total [OF g(1)] True by (simp add: max_def)
    then show ?thesis using g(1) by blast
  next
    case False
    then have "offered \<noteq> []" using assms(1) by (auto simp: coll_holds_def)
    then obtain b where "b \<in> set ?hs" "GetTotalScore b = hc_bestScore coll"
      using assms(1) by (auto simp: coll_holds_def)
    moreover from this obtain g where g: "g \<in> set hs'" "GetTotalScore b \<le> GetTotalScore g"
      using assms(4) by (auto simp: subsumes_def)
    moreover have "?best = hc_bestScore coll" using False by (simp add: max_absorb2 not_le)
    ultimately have "GetTotalScore g = ?best" using total [OF g(1)] by simp
    then show ?thesis using g(1) by blast
  qed
  have old: "(\<exists>g \<in> set hs'. represents ?nb g x) \<or> GetTotalScore x \<le> ?best + hc_beamWidth coll
      \<or> ?k \<le> reach (GetTotalScore x) hs'" if x: "x \<in> set offered" for x
  proof -
    consider g where "g \<in> set ?hs" "represents ?nb g x" | "GetTotalScore x \<le> beam coll"
      | "?k \<le> reach (GetTotalScore x) ?hs"
      using assms(1) x by (auto simp: coll_holds_def)
    then show ?thesis
    proof cases
      case 1
      obtain g' where g': "g' \<in> set hs'" "subsumes ?nb g' g" using assms(4) 1(1) by blast
      then have "represents ?nb g' x"
        using 1 x recomb.eqv_trans [of g' g x] ok order_trans [of "GetTotalScore x" "GetTotalScore g"]
        by (auto simp: represents_def subsumes_def)
      then show ?thesis using g'(1) by blast
    next
      case 2
      then show ?thesis using beam by (blast intro: order_trans)
    next
      case 3
      then show ?thesis using assms(7) order_trans by blast
    qed
  qed
  have src: "bare g \<in> bare ` set (offered @ [h]) \<and> arcs_sound (offered @ [h]) g" if "g \<in> set hs'" for g
    using assms(1,6) that by (force simp: coll_holds_def)
  show ?thesis
    using assms(1,2,5) best old src by (auto simp: coll_holds_def le_max_iff_disj)
qed

abbreviation good_offers :: "'s hypo list \<Rightarrow> bool" where
  "good_offers \<equiv> valid_offers rng lhs shape"

lemmas good_offers_def = valid_offers_def

lemma beam_less_best:
  assumes "coll_holds coll offered" "proper coll" "good_offers offered" "offered \<noteq> []"
  shows "beam coll < hc_bestScore coll"
proof -
  obtain h x where "h \<in> set (hc_hypos coll)" "GetTotalScore h = hc_bestScore coll" "x \<in> set offered" "bare h = bare x"
    using assms(1,4) by (auto simp: coll_holds_def)
  then obtain y where "hc_bestScore coll = Fin y"
    using bare_total [of h x] assms(3) unfolding good_offers_def by metis
  then show ?thesis using assms(2) by (auto simp: proper_def)
qed

lemma hc_Add_new:
  assumes "ok_coll (hc_hypos coll)" "ok_hypo rng lhs shape h" "\<forall>y \<in> set (hc_hypos coll). \<not> recomb.eqv h y"
    and "\<forall>hs. ok_coll hs \<longrightarrow> mset hs = add_mset h (mset (hc_hypos coll)) \<longrightarrow>
      coll_holds (coll\<lparr>hc_hypos := hs, hc_bestScore := max (GetTotalScore h) (hc_bestScore coll)\<rparr>) offered"
    and "proper coll" "good_offers offered" "offered \<noteq> []"
  shows "\<exists>coll'. hc_Add (RecombinationOrderer cmp diff) sel h coll = Inr (coll', None) \<and> coll_holds coll' offered
    \<and> same_params coll coll' \<and> length (hc_hypos coll') \<le> hc_maxHypoStackSize coll * 2"
proof -
  obtain hs where hs: "set_insert (RecombinationOrderer cmp diff) h (hc_hypos coll) = Inr (hs, None)"
      "ok_coll hs" "mset hs = add_mset h (mset (hc_hypos coll))"
    using recomb.set_insert_new [OF assms(1-3)] by blast
  define coll1 where "coll1 = coll\<lparr>hc_hypos := hs, hc_bestScore := max (GetTotalScore h) (hc_bestScore coll)\<rparr>"
  have c1: "hc_hypos coll1 = hs" "same_params coll coll1" "hc_maxHypoStackSize coll1 = hc_maxHypoStackSize coll"
    "proper coll1" using assms(5) by (simp_all add: coll1_def same_params_def proper_def)
  have holds: "coll_holds coll1 offered" using assms(4) hs(2,3) by (simp add: coll1_def)
  note less = beam_less_best [OF holds c1(4) assms(6,7)]
  have add: "hc_Add (RecombinationOrderer cmp diff) sel h coll = rbind
      (if length hs > sz_sub (2 * hc_maxHypoStackSize coll) 1
       then hc_PruneToSize (RecombinationOrderer cmp diff) sel coll1 else Inr coll1) (\<lambda>c. Inr (c, None))"
    by (simp add: hc_Add_def hs(1) coll1_def score_max_if Let_def)
  show ?thesis
  proof (cases "length hs > sz_sub (2 * hc_maxHypoStackSize coll) 1")
    case False
    then have "length hs \<le> hc_maxHypoStackSize coll * 2" using assms(5) by (simp add: proper_def)
    then show ?thesis using False holds c1 add by auto
  next
    case True
    have "\<exists>g \<in> set (hc_hypos coll1). beam coll1 < GetTotalScore g"
      using holds assms(7) less unfolding coll_holds_def by metis
    moreover have "ok_coll (hc_hypos coll1)" "1 \<le> hc_maxHypoStackSize coll1"
      using hs(2) c1 by (simp_all add: proper_def)
    ultimately obtain hs' where hs': "hc_PruneToSize (RecombinationOrderer cmp diff) sel coll1 = Inr (coll1\<lparr>hc_hypos := hs'\<rparr>)"
        "ok_coll hs'" "pruned coll1 hs'"
      using PruneToSize_spec by blast
    have "coll_holds (coll1\<lparr>hc_hypos := hs'\<rparr>) offered"
      using holds_pruned [OF holds hs'(3,2) _ less assms(7)] c1(4) by (simp add: proper_def)
    moreover have "length hs' \<le> hc_maxHypoStackSize coll * 2" using hs'(3) c1(3) by (simp add: pruned_def)
    moreover have "same_params coll (coll1\<lparr>hc_hypos := hs'\<rparr>)" using c1(2) by (simp add: same_params_def)
    ultimately show ?thesis using True add hs'(1) by (intro exI [of _ "coll1\<lparr>hc_hypos := hs'\<rparr>"]) simp
  qed
qed

lemma subsumes_refl: "ok_hypo rng lhs shape g \<Longrightarrow> subsumes nBest g g"
  by (simp add: subsumes_def)

lemma arcs_sound_mono: "arcs_sound offered g \<Longrightarrow> arcs_sound (offered @ [h]) g"
  by (auto simp: arcs_sound_def)

lemma good_offers_ok: "good_offers offered \<Longrightarrow> list_all (ok_hypo rng lhs shape) offered"
  by (simp add: good_offers_def list_all_iff)

lemma holds_rejected:
  assumes "coll_holds coll offered" "proper coll" "GetTotalScore h < beam coll"
  shows "coll_holds coll (offered @ [h])"
proof -
  have ne: "offered \<noteq> []" using assms(1,3) by (auto simp: coll_holds_def)
  obtain w where "hc_beamWidth coll = Fin w" "w < 0" using assms(2) by (auto simp: proper_def)
  then have "beam coll \<le> hc_bestScore coll + Fin 0" by (intro add_left_mono) simp
  also have "\<dots> = hc_bestScore coll" by (simp flip: score_zero)
  finally have "GetTotalScore h \<le> hc_bestScore coll" using assms(3) by simp
  then show ?thesis
    using assms(1,3) ne arcs_sound_mono [of offered _ h] by (auto simp: coll_holds_def)
qed

lemma holds_new:
  assumes "coll_holds coll offered" "good_offers (offered @ [h])" "proper coll"
    and "ok_coll hs" "mset hs = add_mset h (mset (hc_hypos coll))"
  shows "coll_holds (coll\<lparr>hc_hypos := hs, hc_bestScore := max (GetTotalScore h) (hc_bestScore coll)\<rparr>) (offered @ [h])"
proof (rule holds_update [OF assms(1,4)])
  have hs: "set hs = insert h (set (hc_hypos coll))" using assms(5) by (metis set_mset_add_mset_insert set_mset_mset)
  have ok: "ok_hypo rng lhs shape h" "arcs_of h = []" "good_offers offered"
    using assms(2) by (auto simp: good_offers_def arcs_of_def)
  have okc: "ok_hypo rng lhs shape g" if "g \<in> set (hc_hypos coll)" for g
    using assms(1) that recomb.ok_set_ok by (auto simp: coll_holds_def)
  show "hc_beamWidth coll \<le> 0" using assms(3) by (auto simp: proper_def score_zero)
  show "\<forall>g \<in> set (hc_hypos coll). \<exists>g' \<in> set hs. subsumes (hc_nBestIsEnabled coll) g' g"
    using okc subsumes_refl by (auto simp: hs)
  show "\<exists>g' \<in> set hs. represents (hc_nBestIsEnabled coll) g' h" using ok by (auto simp: hs represents_def)
  have "arcs_sound (offered @ [h]) h" using ok(2) by (simp add: arcs_sound_def)
  then show "\<forall>g' \<in> set hs. bare g' \<in> insert (bare h) (bare ` set (hc_hypos coll)) \<and> arcs_sound (offered @ [h]) g'"
    using assms(1) arcs_sound_mono by (auto simp: hs coll_holds_def)
  show "\<forall>c. reach c (hc_hypos coll) \<le> reach c hs"
    using reach_mset [of hs "h # hc_hypos coll"] assms(5) by (auto intro: le_SucI)
  show "ok_hypo rng lhs shape h" "list_all (ok_hypo rng lhs shape) offered"
    using ok good_offers_ok by auto
qed

text \<open>A better hypothesis takes the place of the existing one.\<close>

lemma holds_better:
  assumes "coll_holds coll offered" "good_offers (offered @ [h])" "proper coll"
    and "e \<in> set (hc_hypos coll)" "recomb.eqv h e" "GetTotalScore e < GetTotalScore h"
    and "h' = (if hc_nBestIsEnabled coll then AddArc h e else h)"
    and "ok_coll hs" "mset hs = add_mset h' (mset (remove1 e (hc_hypos coll)))"
  shows "coll_holds (coll\<lparr>hc_hypos := hs, hc_bestScore := max (GetTotalScore h) (hc_bestScore coll)\<rparr>) (offered @ [h])"
proof (rule holds_update [OF assms(1,8)])
  have okc: "ok_coll (hc_hypos coll)" using assms(1) by (simp add: coll_holds_def)
  have hs: "set hs = insert h' (set (hc_hypos coll) - {e})"
    using assms(9) recomb.ok_set_distinct [OF okc] by (metis set_mset_add_mset_insert set_mset_mset set_remove1_eq)
  have ok: "ok_hypo rng lhs shape h" "arcs_of h = []" "good_offers offered"
    using assms(2) by (auto simp: good_offers_def arcs_of_def)
  have okg: "ok_hypo rng lhs shape g" if "g \<in> set (hc_hypos coll)" for g
    using okc that recomb.ok_set_ok by blast
  have h': "GetTotalScore h' = GetTotalScore h" "recomb.eqv h' x = recomb.eqv h x" "bare h' = bare h" for x
    by (simp_all add: assms(7))
  show "hc_beamWidth coll \<le> 0" using assms(3) by (auto simp: proper_def score_zero)
  have sub: "subsumes (hc_nBestIsEnabled coll) h' e"
    using assms(5,6) by (auto simp: subsumes_def h' assms(7))
  show "\<forall>g \<in> set (hc_hypos coll). \<exists>g' \<in> set hs. subsumes (hc_nBestIsEnabled coll) g' g"
  proof
    fix g
    assume g: "g \<in> set (hc_hypos coll)"
    show "\<exists>g' \<in> set hs. subsumes (hc_nBestIsEnabled coll) g' g"
    proof (cases "g = e")
      case False
      then show ?thesis using g okg subsumes_refl by (auto simp: hs)
    qed (use sub in \<open>auto simp: hs\<close>)
  qed
  show "\<exists>g' \<in> set hs. represents (hc_nBestIsEnabled coll) g' h"
    using ok(1) by (intro bexI [of _ h']) (auto simp: hs represents_def h')
  have "arcs_sound (offered @ [h]) e" "bare e \<in> bare ` set offered"
    using assms(1,4) arcs_sound_mono by (auto simp: coll_holds_def)
  then have "arcs_sound (offered @ [h]) h'"
    using assms(5,6) ok(1) okg [OF assms(4)] recomb.eqv_trans [of h e] ok
    by (auto simp: arcs_sound_def h' assms(7) good_offers_def)
  then show "\<forall>g' \<in> set hs. bare g' \<in> insert (bare h) (bare ` set (hc_hypos coll)) \<and> arcs_sound (offered @ [h]) g'"
    using assms(1) arcs_sound_mono by (auto simp: hs coll_holds_def h')
  show "\<forall>c. reach c (hc_hypos coll) \<le> reach c hs"
    using reach_Cons_remove1 [OF assms(9,4)] assms(6) by (simp add: h')
  show "ok_hypo rng lhs shape h" "list_all (ok_hypo rng lhs shape) offered"
    using ok good_offers_ok by auto
qed

lemma ok_coll_map:
  assumes "ok_coll hs" "\<And>g. h_states (f g) = h_states g" "\<And>g. ok_hypo rng lhs shape (f g) = ok_hypo rng lhs shape g"
  shows "ok_coll (map f hs)"
  using assms by (simp add: recomb.ok_set_def list_all_iff sorted_wrt_map)

text \<open>The existing hypothesis is kept, and in n-best mode it takes the new one as an arc.\<close>

lemma holds_worse:
  assumes "coll_holds coll offered" "good_offers (offered @ [h])" "proper coll"
    and "e \<in> set (hc_hypos coll)" "recomb.eqv h e" "GetTotalScore h \<le> GetTotalScore e"
    and "hs = (if hc_nBestIsEnabled coll then map (\<lambda>g. if g = e then AddArc g h else g) (hc_hypos coll) else hc_hypos coll)"
  shows "coll_holds (coll\<lparr>hc_hypos := hs\<rparr>) (offered @ [h])"
proof -
  let ?f = "\<lambda>g. if hc_nBestIsEnabled coll \<and> g = e then AddArc g h else g"
  have hs: "hs = map ?f (hc_hypos coll)" by (simp add: assms(7))
  have okc: "ok_coll (hc_hypos coll)" using assms(1) by (simp add: coll_holds_def)
  have ok: "ok_hypo rng lhs shape h" "arcs_of h = []" "good_offers offered" "bare h = h"
    using assms(2) by (auto simp: good_offers_def arcs_of_def) (cases h; simp)
  have okg: "ok_hypo rng lhs shape g" if "g \<in> set (hc_hypos coll)" for g
    using okc that recomb.ok_set_ok by blast
  have sub: "subsumes (hc_nBestIsEnabled coll) (?f g) g" if "g \<in> set (hc_hypos coll)" for g
    using okg [OF that] by (auto simp: subsumes_def)
  have rep: "represents (hc_nBestIsEnabled coll) (?f e) h"
    using assms(5,6) recomb.eqv_sym by (auto simp: represents_def)
  have "coll_holds (coll\<lparr>hc_hypos := hs, hc_bestScore := max (GetTotalScore h) (hc_bestScore coll)\<rparr>) (offered @ [h])"
  proof (rule holds_update [OF assms(1)])
    show "ok_coll hs" unfolding hs by (rule ok_coll_map [OF okc]) simp_all
    show "hc_beamWidth coll \<le> 0" using assms(3) by (auto simp: proper_def score_zero)
    show "\<forall>g \<in> set (hc_hypos coll). \<exists>g' \<in> set hs. subsumes (hc_nBestIsEnabled coll) g' g"
      unfolding hs set_map using sub by blast
    show "\<exists>g' \<in> set hs. represents (hc_nBestIsEnabled coll) g' h"
      unfolding hs set_map using rep assms(4) by blast
    have "arcs_sound (offered @ [h]) (?f g)" if "g \<in> set (hc_hypos coll)" for g
      using assms(1,5,6) that arcs_sound_mono [of offered g h] ok recomb.eqv_sym
      by (auto simp: coll_holds_def arcs_sound_def)
    then show "\<forall>g' \<in> set hs. bare g' \<in> insert (bare h) (bare ` set (hc_hypos coll)) \<and> arcs_sound (offered @ [h]) g'"
      unfolding hs set_map by (intro ballI conjI; elim imageE; hypsubst) auto
    show "\<forall>c. reach c (hc_hypos coll) \<le> reach c hs"
      by (auto simp: hs filter_map comp_def intro!: filter_length_mono)
    show "ok_hypo rng lhs shape h" "list_all (ok_hypo rng lhs shape) offered"
      using ok good_offers_ok by auto
  qed
  moreover have "max (GetTotalScore h) (hc_bestScore coll) = hc_bestScore coll"
    using assms(6) coll_holds_total [OF assms(1,4)] by simp
  ultimately show ?thesis by simp
qed

lemma AddHypothesis_step:
  assumes "coll_holds coll offered" "good_offers (offered @ [h])" "proper coll"
    and "length (hc_hypos coll) \<le> hc_maxHypoStackSize coll * 2"
  shows "\<exists>b coll'. hc_AddHypothesis (RecombinationOrderer cmp diff) sel h coll = Inr (b, coll')
    \<and> coll_holds coll' (offered @ [h]) \<and> same_params coll coll'
    \<and> length (hc_hypos coll') \<le> hc_maxHypoStackSize coll * 2"
proof (cases "GetTotalScore h < beam coll")
  case True
  then show ?thesis
    using holds_rejected [OF assms(1,3)] assms(4)
    by (intro exI [of _ False] exI [of _ coll]) (simp add: hc_AddHypothesis_def same_params_def)
next
  case False
  have okc: "ok_coll (hc_hypos coll)" using assms(1) by (simp add: coll_holds_def)
  have ok: "ok_hypo rng lhs shape h" using assms(2) by (auto simp: good_offers_def)
  show ?thesis
  proof (cases "\<exists>e \<in> set (hc_hypos coll). recomb.eqv h e")
    case new: False
    have "\<exists>coll'. hc_Add (RecombinationOrderer cmp diff) sel h coll = Inr (coll', None) \<and> coll_holds coll' (offered @ [h])
      \<and> same_params coll coll' \<and> length (hc_hypos coll') \<le> hc_maxHypoStackSize coll * 2"
      using holds_new [OF assms(1-3)] new by (intro hc_Add_new [OF okc ok _ _ assms(3,2)]) auto
    then show ?thesis using False by (auto simp: hc_AddHypothesis_def)
  next
    case True
    then obtain e where e: "e \<in> set (hc_hypos coll)" "recomb.eqv h e" by blast
    have add: "hc_Add (RecombinationOrderer cmp diff) sel h coll = Inr (coll, Some e)"
      by (simp add: hc_Add_def recomb.set_insert_existing [OF okc ok e])
    show ?thesis
    proof (cases "GetTotalScore h > GetTotalScore e")
      case worse: False
      let ?hs = "if hc_nBestIsEnabled coll then map (\<lambda>g. if g = e then AddArc g h else g) (hc_hypos coll) else hc_hypos coll"
      have "coll_holds (coll\<lparr>hc_hypos := ?hs\<rparr>) (offered @ [h])"
        using worse by (intro holds_worse [OF assms(1-3) e _ refl]) simp
      moreover have "hc_AddHypothesis (RecombinationOrderer cmp diff) sel h coll = Inr (False, coll\<lparr>hc_hypos := ?hs\<rparr>)"
        using False add worse by (simp add: hc_AddHypothesis_def)
      ultimately show ?thesis
        using assms(4) by (intro exI [of _ False] exI [of _ "coll\<lparr>hc_hypos := ?hs\<rparr>"]) (simp add: same_params_def)
    next
      case better: True
      let ?h = "if hc_nBestIsEnabled coll then AddArc h e else h"
      have "\<exists>coll'. hc_Add (RecombinationOrderer cmp diff) sel ?h (Detach e coll) = Inr (coll', None)
        \<and> coll_holds coll' (offered @ [h]) \<and> same_params (Detach e coll) coll'
        \<and> length (hc_hypos coll') \<le> hc_maxHypoStackSize (Detach e coll) * 2"
      proof (rule hc_Add_new [OF _ _ _ _ _ assms(2)])
        show "ok_coll (hc_hypos (Detach e coll))" by (simp add: Detach_def recomb.ok_set_remove1 [OF okc])
        show "ok_hypo rng lhs shape ?h" using ok by simp
        have "\<not> recomb.eqv h y" if "y \<in> set (hc_hypos coll) - {e}" for y
        proof
          assume "recomb.eqv h y"
          then have "recomb.eqv e y"
            using e recomb.eqv_trans [of e h y] ok that recomb.ok_set_ok [OF okc] recomb.eqv_sym by blast
          then show False using recomb.ok_set_eqv [OF okc e(1)] that by auto
        qed
        then show "\<forall>y \<in> set (hc_hypos (Detach e coll)). \<not> recomb.eqv ?h y"
          using recomb.ok_set_distinct [OF okc] by (auto simp: Detach_def)
        show "proper (Detach e coll)" using assms(3) by (simp add: Detach_def proper_def)
        show "\<forall>hs. ok_coll hs \<longrightarrow> mset hs = add_mset ?h (mset (hc_hypos (Detach e coll))) \<longrightarrow>
          coll_holds (Detach e coll\<lparr>hc_hypos := hs,
            hc_bestScore := max (GetTotalScore ?h) (hc_bestScore (Detach e coll))\<rparr>) (offered @ [h])"
          using holds_better [OF assms(1-3) e better refl] by (simp add: Detach_def)
      qed simp
      then obtain coll' where "hc_Add (RecombinationOrderer cmp diff) sel ?h (Detach e coll) = Inr (coll', None)"
        "coll_holds coll' (offered @ [h])" "same_params (Detach e coll) coll'"
        "length (hc_hypos coll') \<le> hc_maxHypoStackSize (Detach e coll) * 2" by blast
      then show ?thesis
        using False add better by (intro exI [of _ False] exI [of _ coll']) (simp add: hc_AddHypothesis_def Detach_def same_params_def)
    qed
  qed
qed

lemma ok_collI:
  assumes "list_all (ok_hypo rng lhs shape) hs" "sorted_wrt (\<lambda>x y. RecombinationOrderer cmp diff x y = Inr True) hs"
  shows "ok_coll hs"
proof -
  have "sorted_wrt (\<lambda>x y. states_less (h_states x) (h_states y)) hs"
    using assms(2)
    by (rule sorted_wrt_mono_rel [rotated]) (use assms(1) recomb.less_ok in \<open>auto simp: list_all_iff\<close>)
  then show ?thesis using assms(1) by (simp add: recomb.ok_set_def)
qed

lemma holds_empty:
  "coll_holds (ChartHypothesisCollection beamWidth k nBest) []"
  by (simp add: coll_holds_def ChartHypothesisCollection_def)

lemma AddHypothesis_loop:
  assumes "coll_holds coll offered" "good_offers (offered @ hs)" "proper coll"
    and "length (hc_hypos coll) \<le> hc_maxHypoStackSize coll * 2"
  shows "\<exists>coll'. rfold (\<lambda>h c. rbind (hc_AddHypothesis (RecombinationOrderer cmp diff) sel h c) (\<lambda>(_, c'). Inr c')) hs coll = Inr coll'
    \<and> coll_holds coll' (offered @ hs) \<and> same_params coll coll'
    \<and> length (hc_hypos coll') \<le> hc_maxHypoStackSize coll * 2"
  using assms
proof (induction hs arbitrary: coll offered)
  case (Cons h hs)
  have "good_offers (offered @ [h])" using Cons.prems(2) by (auto simp: good_offers_def)
  from AddHypothesis_step [OF Cons.prems(1) this Cons.prems(3,4)]
  obtain b c1 where c1: "hc_AddHypothesis (RecombinationOrderer cmp diff) sel h coll = Inr (b, c1)"
    "coll_holds c1 (offered @ [h])" "same_params coll c1" "length (hc_hypos c1) \<le> hc_maxHypoStackSize coll * 2" by blast
  have p: "proper c1" "hc_maxHypoStackSize c1 = hc_maxHypoStackSize coll"
    using c1(3) Cons.prems(3) by (simp_all add: same_params_def proper_def)
  from Cons.IH [OF c1(2) _ p(1)] Cons.prems(2) c1(4) p(2)
  obtain c2 where "rfold (\<lambda>h c. rbind (hc_AddHypothesis (RecombinationOrderer cmp diff) sel h c) (\<lambda>(_, c'). Inr c')) hs c1 = Inr c2"
    "coll_holds c2 (offered @ h # hs)" "same_params c1 c2" "length (hc_hypos c2) \<le> hc_maxHypoStackSize coll * 2" by auto
  then show ?case using c1(1,3) by (auto simp: same_params_def)
qed (simp add: same_params_def)

lemma holds_result:
  assumes "coll_holds coll hs" "good_offers hs"
  shows "sorted_wrt (\<lambda>x y. RecombinationOrderer cmp diff x y = Inr True) (hc_hypos coll)"
    and "\<forall>h \<in> set (hc_hypos coll). bare h \<in> set hs \<and> set (arcs_of h) \<subseteq> set hs"
    and "hs \<noteq> [] \<longrightarrow> hc_bestScore coll = Max (GetTotalScore ` set hs)
      \<and> hc_bestScore coll \<in> GetTotalScore ` set (hc_hypos coll)"
    and "\<forall>h \<in> set hs. (\<exists>g \<in> set (hc_hypos coll). RecombineCompare cmp diff g h = Inr 0
            \<and> GetTotalScore h \<le> GetTotalScore g \<and> (hc_nBestIsEnabled coll \<longrightarrow> h = bare g \<or> h \<in> set (arcs_of g)))
        \<or> GetTotalScore h \<le> beam coll \<or> hc_maxHypoStackSize coll \<le> reach (GetTotalScore h) (hc_hypos coll)"
proof -
  have okc: "ok_coll (hc_hypos coll)" using assms(1) by (simp add: coll_holds_def)
  have bare: "bare h = h" if "h \<in> set hs" for h
    using assms(2) that by (cases h) (auto simp: good_offers_def)
  then have img: "bare ` set hs = set hs" by force
  have "sorted_wrt (\<lambda>x y. states_less (h_states x) (h_states y)) (hc_hypos coll)"
    using okc by (simp add: recomb.ok_set_def)
  then show "sorted_wrt (\<lambda>x y. RecombinationOrderer cmp diff x y = Inr True) (hc_hypos coll)"
    by (rule sorted_wrt_mono_rel [rotated]) (use recomb.ok_set_ok [OF okc] recomb.less_ok in auto)
  show src: "\<forall>h \<in> set (hc_hypos coll). bare h \<in> set hs \<and> set (arcs_of h) \<subseteq> set hs"
    using assms(1) by (auto simp: coll_holds_def arcs_sound_def img)
  show "hs \<noteq> [] \<longrightarrow> hc_bestScore coll = Max (GetTotalScore ` set hs)
      \<and> hc_bestScore coll \<in> GetTotalScore ` set (hc_hypos coll)"
  proof
    assume ne: "hs \<noteq> []"
    then obtain h where h: "h \<in> set (hc_hypos coll)" "GetTotalScore h = hc_bestScore coll"
      using assms(1) unfolding coll_holds_def by metis
    have "GetTotalScore (bare h) \<in> GetTotalScore ` set hs" using src h(1) by blast
    then have "hc_bestScore coll \<in> GetTotalScore ` set hs" using h(2) by simp
    moreover have "\<forall>s \<in> GetTotalScore ` set hs. s \<le> hc_bestScore coll"
      using assms(1) by (simp add: coll_holds_def)
    ultimately have "Max (GetTotalScore ` set hs) = hc_bestScore coll" by (intro Max_eqI) auto
    then show "hc_bestScore coll = Max (GetTotalScore ` set hs)
      \<and> hc_bestScore coll \<in> GetTotalScore ` set (hc_hypos coll)" using h by (metis image_eqI)
  qed
  have "represents nBest g h \<Longrightarrow> RecombineCompare cmp diff g h = Inr 0
            \<and> GetTotalScore h \<le> GetTotalScore g \<and> (nBest \<longrightarrow> h = bare g \<or> h \<in> set (arcs_of g))"
    if "h \<in> set hs" "g \<in> set (hc_hypos coll)" for nBest g h
    using eqv_RecombineCompare [OF recomb.ok_set_ok [OF okc that(2)], of h] assms(2) that(1) bare [OF that(1)]
    by (auto simp: represents_def good_offers_def)
  then show "\<forall>h \<in> set hs. (\<exists>g \<in> set (hc_hypos coll). RecombineCompare cmp diff g h = Inr 0
            \<and> GetTotalScore h \<le> GetTotalScore g \<and> (hc_nBestIsEnabled coll \<longrightarrow> h = bare g \<or> h \<in> set (arcs_of g)))
        \<or> GetTotalScore h \<le> beam coll \<or> hc_maxHypoStackSize coll \<le> reach (GetTotalScore h) (hc_hypos coll)"
    using assms(1) unfolding coll_holds_def by blast
qed

end

text \<open>Factor::Compare is a total comparison.\<close>

interpretation factors: total_compare Factor_Compare
  by unfold_locales (auto simp: Factor_Compare_def split: if_splits)

interpretation factor_hypos: hypo_order Factor_Compare sort_select "\<lambda>_ _. 0" rng lhs shape
  for rng lhs shape
  by unfold_locales simp

section \<open>Properties\<close>

definition hc_Adds :: "('s hypo \<Rightarrow> 's hypo \<Rightarrow> bool result) \<Rightarrow> 's hypo select \<Rightarrow> 's hypo list \<Rightarrow> 's hypo_coll \<Rightarrow> 's hypo_coll result" where
  "hc_Adds cless sel = rfold (\<lambda>h c. rbind (hc_AddHypothesis cless sel h c) (\<lambda>(_, c'). Inr c'))"

lemma hc_Adds_total:
  assumes "total_compare cmp" "partial_sorting sel" "diff None None = 0" "valid_offers rng lhs shape hs"
    and "w < 0" "1 \<le> k" "2 * k < SIZE_RANGE"
  obtains coll where "hc_Adds (RecombinationOrderer cmp diff) sel hs (ChartHypothesisCollection (Fin w) k nBest) = Inr coll"
    "hypo_order.coll_holds cmp rng lhs shape coll hs" "same_params (ChartHypothesisCollection (Fin w) k nBest) coll"
    "length (hc_hypos coll) \<le> k * 2"
proof -
  have loc: "hypo_order cmp sel diff"
    using assms(1-3) by (simp add: hypo_order_def hypo_order_axioms_def)
  let ?c0 = "ChartHypothesisCollection (Fin w) k nBest"
  have good: "valid_offers rng lhs shape ([] @ hs)" using assms(4) by simp
  have "proper ?c0" using assms(5-7) by (simp add: proper_def ChartHypothesisCollection_def)
  from hypo_order.AddHypothesis_loop [OF loc hypo_order.holds_empty [OF loc] good this]
  show ?thesis using that by (auto simp: hc_Adds_def ChartHypothesisCollection_def)
qed

text \<open>
  C3. Recombination, beam and stack pruning together: after any sequence of AddHypothesis on an empty
  collection no check has failed and the process has not aborted; the collection is
  ordered without two hypotheses of equal states and holds at most twice the stack size;
  each of its hypotheses is one of those offered, with offered ones as arcs; the best score
  is that of the best hypothesis offered, which is kept; and a hypothesis that was offered is in the
  collection, or is recombined with one there that has equal states and no lower score (as
  its arc in n-best mode), or is not above the beam, or as many
  hypotheses that are no worse as the stack size allows are in its place.
\<close>

theorem AddHypothesis_keeps_best:
  assumes "total_compare cmp" "partial_sorting sel" "diff None None = 0" "valid_offers rng lhs shape hs"
    and "w < 0" "1 \<le> k" "2 * k < SIZE_RANGE"
  shows "\<exists>coll. hc_Adds (RecombinationOrderer cmp diff) sel hs (ChartHypothesisCollection (Fin w) k nBest) = Inr coll
    \<and> length (hc_hypos coll) \<le> k * 2
    \<and> sorted_wrt (\<lambda>x y. RecombinationOrderer cmp diff x y = Inr True) (hc_hypos coll)
    \<and> (\<forall>h \<in> set (hc_hypos coll). bare h \<in> set hs \<and> set (arcs_of h) \<subseteq> set hs)
    \<and> (hs \<noteq> [] \<longrightarrow> hc_bestScore coll = Max (GetTotalScore ` set hs)
          \<and> hc_bestScore coll \<in> GetTotalScore ` set (hc_hypos coll))
    \<and> (\<forall>h \<in> set hs. (\<exists>g \<in> set (hc_hypos coll). RecombineCompare cmp diff g h = Inr 0
            \<and> GetTotalScore h \<le> GetTotalScore g \<and> (nBest \<longrightarrow> h = bare g \<or> h \<in> set (arcs_of g)))
        \<or> GetTotalScore h \<le> hc_bestScore coll + Fin w
        \<or> k \<le> length (filter (\<lambda>g. GetTotalScore h \<le> GetTotalScore g) (hc_hypos coll)))"
proof -
  have loc: "hypo_order cmp sel diff"
    using assms(1-3) by (simp add: hypo_order_def hypo_order_axioms_def)
  let ?c0 = "ChartHypothesisCollection (Fin w) k nBest"
  obtain coll where c: "hc_Adds (RecombinationOrderer cmp diff) sel hs ?c0 = Inr coll"
      "hypo_order.coll_holds cmp rng lhs shape coll hs" "same_params ?c0 coll" "length (hc_hypos coll) \<le> k * 2"
    by (rule hc_Adds_total [where diff = diff, OF assms])
  have "hc_beamWidth coll = Fin w" "hc_maxHypoStackSize coll = k" "hc_nBestIsEnabled coll = nBest"
    using c(3) by (simp_all add: same_params_def ChartHypothesisCollection_def)
  note params = this and facts = hypo_order.holds_result [OF loc c(2) assms(4)]
  show ?thesis by (rule exI [of _ coll]) (use c(1,4) facts(1-3) facts(4) [unfolded params] in blast)
qed

text \<open>
  C30. Pruning to the stack size, on a collection without two hypotheses of equal states whose best
  score is attained: with a beam below 0 it returns, keeps at most twice the stack size, removes nothing that scores better
  than what it keeps, and keeps as many of the hypotheses above the beam as the stack size
  allows. With a beam width of 0 or more no hypothesis is above the beam, and when the
  collection is over its size the threshold is read from an empty priority queue.
\<close>

theorem PruneToSize_keeps:
  assumes "total_compare cmp" "partial_sorting sel" "diff None None = 0"
    and "list_all (ok_hypo rng lhs shape) (hc_hypos coll)"
    and "sorted_wrt (\<lambda>x y. RecombinationOrderer cmp diff x y = Inr True) (hc_hypos coll)"
    and "Fin best \<in> GetTotalScore ` set (hc_hypos coll)" "\<forall>h \<in> set (hc_hypos coll). GetTotalScore h \<le> Fin best"
    and "hc_bestScore coll = Fin best" "hc_beamWidth coll = Fin w" "1 \<le> hc_maxHypoStackSize coll"
  shows "(w < 0 \<longrightarrow> (\<exists>hs'. hc_PruneToSize (RecombinationOrderer cmp diff) sel coll = Inr (coll\<lparr>hc_hypos := hs'\<rparr>)
      \<and> pruned coll hs' \<and> Fin best \<in> GetTotalScore ` set hs'))
    \<and> (0 \<le> w \<and> hc_maxHypoStackSize coll < length (hc_hypos coll) \<longrightarrow>
        hc_PruneToSize (RecombinationOrderer cmp diff) sel coll = Inl EmptyContainer)"
proof (intro conjI impI)
  have loc: "hypo_order cmp sel diff"
    using assms(1-3) by (simp add: hypo_order_def hypo_order_axioms_def)
  assume w: "w < 0"
  have less: "beam coll < Fin best" using w assms(8,9) by simp
  obtain h where h: "h \<in> set (hc_hypos coll)" "GetTotalScore h = Fin best" using assms(6) by auto
  then have "\<exists>h \<in> set (hc_hypos coll). beam coll < GetTotalScore h" using less by metis
  from hypo_order.PruneToSize_spec [OF loc hypo_order.ok_collI [OF loc assms(4,5)] assms(10) this]
  obtain hs' where hs': "hc_PruneToSize (RecombinationOrderer cmp diff) sel coll = Inr (coll\<lparr>hc_hypos := hs'\<rparr>)"
    "pruned coll hs'" by blast
  show "\<exists>hs'. hc_PruneToSize (RecombinationOrderer cmp diff) sel coll = Inr (coll\<lparr>hc_hypos := hs'\<rparr>)
      \<and> pruned coll hs' \<and> Fin best \<in> GetTotalScore ` set hs'"
    using hs' pruned_best [OF hs'(2) h less assms(7,10)] by blast
next
  assume a: "0 \<le> w \<and> hc_maxHypoStackSize coll < length (hc_hypos coll)"
  have "filter (\<lambda>score. score > beam coll) (map GetTotalScore (hc_hypos coll)) = []"
    using assms(7) order_trans [of _ "Fin best" "beam coll"] a assms(8,9) by (simp add: filter_empty_conv not_less)
  then have "prune_threshold coll = Inl EmptyContainer"
    by (simp add: prune_threshold_def sort_desc_def)
  then show "hc_PruneToSize (RecombinationOrderer cmp diff) sel coll = Inl EmptyContainer"
    using a by (simp add: hc_PruneToSize_def)
qed

lemma hc_SortHypotheses_spec:
  assumes "partial_sorting sel" "hc_hyposOrdered coll = []"
  obtains os where "hc_SortHypotheses sel coll = Inr (coll\<lparr>hc_hyposOrdered := os\<rparr>)" "mset os = mset (hc_hypos coll)"
    "sorted_wrt (\<lambda>x y. GetTotalScore y \<le> GetTotalScore x) os"
proof (cases "hc_hypos coll = []")
  case True
  then show ?thesis using assms(2) that [of "[]"] by (simp add: hc_SortHypotheses_def)
next
  case False
  let ?os = "sel GetTotalScore (length (hc_hypos coll)) (hc_hypos coll)"
  have m: "mset ?os = mset (hc_hypos coll)"
    using assms(1) by (simp add: partial_sorting_def splitting.sel_mset)
  then have len: "length ?os = length (hc_hypos coll)" by (metis size_mset)
  have sorted: "sorted_wrt (\<lambda>x y. GetTotalScore y \<le> GetTotalScore x) ?os"
    using partial_sorting.sel_sorted [OF assms(1), of GetTotalScore "length (hc_hypos coll)" "hc_hypos coll"] len by simp
  show ?thesis using False assms(2) by (intro that [OF _ m sorted]) (simp add: hc_SortHypotheses_def)
qed

lemma sorted_hd_best:
  assumes "mset os = mset hs" "sorted_wrt (\<lambda>x y. key y \<le> (key x :: score)) os" "hs \<noteq> []"
  shows "hd os \<in> set hs" "h \<in> set hs \<Longrightarrow> key h \<le> key (hd os)"
proof -
  have set: "set hs = set os" using assms(1) by (metis set_mset_mset)
  then obtain x xs where os: "os = x # xs" using assms(3) by (cases os) auto
  show "hd os \<in> set hs" by (simp add: set os)
  show "h \<in> set hs \<Longrightarrow> key h \<le> key (hd os)" using assms(2) unfolding set os by auto
qed

text \<open>
  Sorting a collection for the cells above: the ordered list has the hypotheses of the collection, each
  as often as there, in descending order of the scores, so its first is a best one; sorting
  twice fails the check on a non-empty list.
\<close>

theorem SortHypotheses_sorted:
  assumes "partial_sorting sel" "hc_hyposOrdered coll = []"
  shows "\<exists>coll'. hc_SortHypotheses sel coll = Inr coll' \<and> hc_hypos coll' = hc_hypos coll
    \<and> mset (hc_hyposOrdered coll') = mset (hc_hypos coll)
    \<and> sorted_wrt (\<lambda>x y. GetTotalScore y \<le> GetTotalScore x) (hc_hyposOrdered coll')
    \<and> (hc_hypos coll \<noteq> [] \<longrightarrow> (\<forall>h \<in> set (hc_hypos coll). GetTotalScore h \<le> GetTotalScore (hd (hc_hyposOrdered coll')))
        \<and> hc_SortHypotheses sel coll' = Inl CheckFailed)"
proof -
  obtain os where os: "hc_SortHypotheses sel coll = Inr (coll\<lparr>hc_hyposOrdered := os\<rparr>)" "mset os = mset (hc_hypos coll)"
    "sorted_wrt (\<lambda>x y. GetTotalScore y \<le> GetTotalScore x) os"
    by (rule hc_SortHypotheses_spec [OF assms])
  have "os \<noteq> []" if "hc_hypos coll \<noteq> []" using os(2) that by auto
  then have "hc_hypos coll \<noteq> [] \<longrightarrow> hc_SortHypotheses sel (coll\<lparr>hc_hyposOrdered := os\<rparr>) = Inl CheckFailed"
    by (simp add: hc_SortHypotheses_def)
  then show ?thesis
    using os sorted_hd_best(2) [OF os(2,3)] by (intro exI [of _ "coll\<lparr>hc_hyposOrdered := os\<rparr>"]) simp
qed

text \<open>
  What the cleaning of the arcs makes of a hypothesis: it is the winner of itself and of the
  arcs that are kept; when the arcs are cut, no arc that is dropped is better than one that is kept.
\<close>

definition cleaned :: "bool \<Rightarrow> nat \<Rightarrow> 's hypo \<Rightarrow> 's hypo \<Rightarrow> bool" where
  "cleaned distinctNBest nBestSize h h' \<longleftrightarrow>
     h_id h' = h_id h \<and> h_states h' = h_states h \<and> h_total h' = h_total h \<and> h_winning h' = Some (h_id h) \<and>
     (\<exists>kept dropped. mset (arcs_of h) = mset kept + mset dropped
        \<and> arcs_of h' = map (SetWinningHypo (Some (h_id h))) kept
        \<and> length kept = (if distinctNBest then length (arcs_of h) else min nBestSize (length (arcs_of h)))
        \<and> (\<forall>a \<in> set dropped. \<forall>b \<in> set kept. h_total a \<le> h_total b))"

lemma cleanedI:
  assumes "mset (arcs_of h) = mset kept + mset dropped" "\<forall>a \<in> set dropped. \<forall>b \<in> set kept. h_total a \<le> h_total b"
    and "length kept = (if distinctNBest then length (arcs_of h) else min nBestSize (length (arcs_of h)))"
  shows "cleaned distinctNBest nBestSize h
    (with_arcs (Some (map (SetWinningHypo (Some (h_id h))) kept)) (SetWinningHypo (Some (h_id h)) h))"
proof -
  have "h_winning (with_arcs as g) = h_winning g" for as and g :: "'a hypo" by (cases g) simp
  then show ?thesis
    unfolding cleaned_def using assms by (intro conjI exI [of _ kept] exI [of _ dropped]) simp_all
qed

lemma hypo_CleanupArcList_cleaned:
  assumes "selection sel" "nBestSize \<noteq> 0"
  shows "\<exists>h'. hypo_CleanupArcList sel distinctNBest nBestSize h = Inr h' \<and> cleaned distinctNBest nBestSize h h'"
proof (cases "h_arcs h")
  case None
  then show ?thesis by (simp add: hypo_CleanupArcList_def cleaned_def arcs_of_def Let_def)
next
  case (Some arcs)
  then have arcs: "arcs_of h = arcs" by (simp add: arcs_of_def)
  show ?thesis
  proof (cases "\<not> distinctNBest \<and> length arcs > nBestSize")
    case True
    let ?ys = "sel GetTotalScore (nBestSize - 1) arcs"
    have m: "mset ?ys = mset arcs" using assms(1) by (simp add: selection_def splitting.sel_mset)
    then have len: "length ?ys = length arcs" by (metis size_mset)
    have "\<forall>x \<in> set (take nBestSize ?ys). \<forall>y \<in> set (drop nBestSize ?ys). GetTotalScore y \<le> GetTotalScore x"
    proof -
      have "nBestSize - 1 < length arcs" "Suc (nBestSize - 1) = nBestSize" using True assms(2) by linarith+
      then show ?thesis using selection.sel_split_Suc [OF assms(1), of "nBestSize - 1" arcs GetTotalScore] by simp
    qed
    moreover have "mset arcs = mset (take nBestSize ?ys) + mset (drop nBestSize ?ys)"
      by (metis append_take_drop_id m mset_append)
    moreover have "length (take nBestSize ?ys) = nBestSize" using len True by simp
    ultimately have "cleaned distinctNBest nBestSize h (with_arcs (Some (map (SetWinningHypo (Some (h_id h)))
        (take nBestSize ?ys))) (SetWinningHypo (Some (h_id h)) h))"
      using True arcs by (intro cleanedI [where dropped = "drop nBestSize ?ys"]) auto
    then show ?thesis using True Some assms(2) by (simp add: hypo_CleanupArcList_def Let_def)
  next
    case False
    then have "cleaned distinctNBest nBestSize h (with_arcs (Some (map (SetWinningHypo (Some (h_id h))) arcs))
        (SetWinningHypo (Some (h_id h)) h))"
      using arcs by (intro cleanedI [where dropped = "[]"]) auto
    then show ?thesis unfolding hypo_CleanupArcList_def Let_def SetWinningHypo_simps Some option.case if_not_P [OF False] by simp
  qed
qed

text \<open>
  Arcs for n-best output: with an n-best size that is not 0 CleanupArcList returns, makes every hypothesis of the
  collection the winner of itself and of its arcs, and cuts the arcs to the n-best size only when the n-best list need
  not be distinct, to best ones. With an n-best size of 0 it reads before the beginning of the first list of
  arcs it has to cut.
\<close>

theorem CleanupArcList_keeps:
  assumes "selection sel"
  shows "(nBestSize \<noteq> 0 \<longrightarrow> (\<exists>coll'. hc_CleanupArcList sel distinctNBest nBestSize coll = Inr coll' \<and>
      list_all2 (cleaned distinctNBest nBestSize) (hc_hypos coll) (hc_hypos coll')))
    \<and> (nBestSize = 0 \<and> \<not> distinctNBest \<and> (\<exists>h \<in> set (hc_hypos coll). arcs_of h \<noteq> []) \<longrightarrow>
      hc_CleanupArcList sel distinctNBest nBestSize coll = Inl OutOfBounds)"
proof (intro conjI impI)
  assume "nBestSize \<noteq> 0"
  then obtain f where f: "\<forall>h. hypo_CleanupArcList sel distinctNBest nBestSize h = Inr (f h) \<and> cleaned distinctNBest nBestSize h (f h)"
    using hypo_CleanupArcList_cleaned [OF assms] by metis
  have "rmap (hypo_CleanupArcList sel distinctNBest nBestSize) (hc_hypos coll) = Inr (map f (hc_hypos coll))"
    using f by (intro rmap_Inr_map) simp
  then show "\<exists>coll'. hc_CleanupArcList sel distinctNBest nBestSize coll = Inr coll' \<and>
      list_all2 (cleaned distinctNBest nBestSize) (hc_hypos coll) (hc_hypos coll')"
    using f by (simp add: hc_CleanupArcList_def list_all2_conv_all_nth)
next
  assume a: "nBestSize = 0 \<and> \<not> distinctNBest \<and> (\<exists>h \<in> set (hc_hypos coll). arcs_of h \<noteq> [])"
  have one: "hypo_CleanupArcList sel distinctNBest nBestSize h = (if arcs_of h \<noteq> [] then Inl OutOfBounds
      else Inr (SetWinningHypo (Some (h_id h)) h))" for h
    using a by (cases h) (auto simp: hypo_CleanupArcList_def arcs_of_def Let_def split: option.splits)
  have "rmap (hypo_CleanupArcList sel distinctNBest nBestSize) hs = Inl OutOfBounds" if "\<exists>h \<in> set hs. arcs_of h \<noteq> []" for hs
    using that by (induction hs) (auto simp: one)
  then show "hc_CleanupArcList sel distinctNBest nBestSize coll = Inl OutOfBounds"
    using a by (simp add: hc_CleanupArcList_def)
qed

section \<open>Examples\<close>

definition example_fresh :: "nat \<Rightarrow> nat \<Rightarrow> real \<Rightarrow> factor hypo" where
  "example_fresh i state x = Hypo i \<lparr>tp_ptr = 0, tp_words = [], tp_futureScore = Fin 0, tp_breakdown = [], tp_align = [],
     tp_lhs = \<lparr>w_factors = [Some 9], w_isNonTerminal = True\<rparr>\<rparr> (WordsRange 0 0) [Some state] [] (Fin x) None [] None"

definition example_hypos :: "factor hypo list" where
  "example_hypos = [example_fresh 0 5 (-3), example_fresh 1 5 (-1), example_fresh 2 6 (-2)]"

lemma example_sel: "partial_sorting (sort_select :: factor hypo select)"
  by unfold_locales

lemma AddHypothesis_keeps_best_witness:
  "\<exists>coll. hc_Adds (RecombinationOrderer Factor_Compare (\<lambda>_ _. 0)) sort_select example_hypos
      (ChartHypothesisCollection (Fin (-10)) 2 True) = Inr coll
    \<and> hc_bestScore coll = Fin (-1) \<and> length (hc_hypos coll) \<le> 4"
proof -
  have "valid_offers (WordsRange 0 0) \<lparr>w_factors = [Some 9], w_isNonTerminal = True\<rparr> [False] example_hypos"
    by (simp add: valid_offers_def example_hypos_def example_fresh_def ok_hypo_def)
  moreover have "Max (GetTotalScore ` set example_hypos) = Fin (-1)"
    by (rule Max_eqI) (auto simp: example_hypos_def example_fresh_def)
  moreover have "example_hypos \<noteq> []" by (simp add: example_hypos_def)
  ultimately show ?thesis
    using AddHypothesis_keeps_best [OF factors.total_compare_axioms example_sel, of "\<lambda>_ _. 0" _ _ _ example_hypos "-10" 2 True]
    by (force simp: SIZE_RANGE_def)
qed

definition example_coll :: "factor hypo_coll" where
  "example_coll = \<lparr>hc_hypos = [example_fresh 0 5 (-3), example_fresh 1 6 (-1)], hc_hyposOrdered = [],
     hc_bestScore = Fin (-1), hc_beamWidth = Fin 0, hc_maxHypoStackSize = 1, hc_nBestIsEnabled = False\<rparr>"

lemma PruneToSize_keeps_witness:
  "hc_PruneToSize (RecombinationOrderer Factor_Compare (\<lambda>_ _. 0)) sort_select example_coll = Inl EmptyContainer"
proof -
  have "list_all (ok_hypo (WordsRange 0 0) \<lparr>w_factors = [Some 9], w_isNonTerminal = True\<rparr> [False]) (hc_hypos example_coll)"
    "sorted_wrt (\<lambda>x y. RecombinationOrderer Factor_Compare (\<lambda>_ _. 0) x y = Inr True) (hc_hypos example_coll)"
    by (simp_all add: example_coll_def example_fresh_def ok_hypo_def RecombinationOrderer_def RecombineCompare_def
        Factor_Compare_def)
  then show ?thesis
    using PruneToSize_keeps [OF factors.total_compare_axioms example_sel, of "\<lambda>_ _. 0" _ _ _ example_coll "-1" 0]
    by (force simp: example_coll_def example_fresh_def)
qed

lemma SortHypotheses_sorted_witness:
  "\<exists>coll'. hc_SortHypotheses sort_select example_coll = Inr coll' \<and> hc_hypos coll' = hc_hypos example_coll
    \<and> hc_SortHypotheses sort_select coll' = Inl CheckFailed"
  using SortHypotheses_sorted [OF example_sel, of example_coll] by (auto simp: example_coll_def)

lemma CleanupArcList_keeps_witness:
  "\<exists>coll'. hc_CleanupArcList sort_select False 2 example_coll = Inr coll'
    \<and> list_all2 (cleaned False 2) (hc_hypos example_coll) (hc_hypos coll')"
proof -
  have "selection (sort_select :: factor hypo select)" by unfold_locales
  then show ?thesis using CleanupArcList_keeps [of sort_select 2 False example_coll] by auto
qed

end
