(* ===== verification/CellProps.thy ===== *)
theory CellProps
  imports CubeQueue ChartCells HypoCollProps
begin

text \<open>
  The cells of the chart: which hypotheses a cell creates and in which order, what its
  collections hold afterwards, the labels it passes to longer spans, and its best hypothesis.
\<close>

section \<open>The pops of a cell\<close>

text \<open>What a loop of pops has taken, in order: choices that were left, best first.\<close>

definition popped :: "'s cube_env \<Rightarrow> 's trans_option list \<Rightarrow> (nat \<times> point) set \<Rightarrow> (nat \<times> point) list \<Rightarrow> 's hypo list \<Rightarrow> bool" where
  "popped env opts L aps hs \<longleftrightarrow> distinct aps \<and> set aps \<subseteq> L \<and>
     list_all2 (\<lambda>(a, p) h. made_from env (opts ! a) p h) aps hs \<and>
     (ce_lazy env \<and> (\<forall>opt \<in> set opts. sorted_option opt) \<longrightarrow>
        sorted_wrt (\<lambda>x y. choice_estimate opts y \<le> choice_estimate opts x) aps \<and>
        (\<forall>x \<in> set aps. \<forall>y \<in> L - set aps. choice_estimate opts y \<le> choice_estimate opts x))"

lemma popped_Cons:
  assumes "(a, p) \<in> L" "made_from env (opts ! a) p h" "popped env opts (L - {(a, p)}) aps hs"
    and "ce_lazy env \<and> (\<forall>opt \<in> set opts. sorted_option opt) \<longrightarrow> (\<forall>bq \<in> L. choice_estimate opts bq \<le> choice_estimate opts (a, p))"
  shows "popped env opts L ((a, p) # aps) (h # hs)"
proof -
  have fresh: "(a, p) \<notin> set aps" "set aps \<subseteq> L" using assms(3) by (auto simp: popped_def)
  then have "L - set ((a, p) # aps) = L - {(a, p)} - set aps" by auto
  then show ?thesis using assms fresh unfolding popped_def by auto
qed

text \<open>The hypotheses come best first: each is the best of those offered when it is taken.\<close>

fun best_first :: "'s cube_env \<Rightarrow> 's trans_option list \<Rightarrow> (nat \<Rightarrow> point set) \<Rightarrow> (nat \<times> point) list \<Rightarrow> 's hypo list \<Rightarrow> bool" where
  "best_first env opts P [] hs \<longleftrightarrow> hs = []"
| "best_first env opts P (ap # aps) hs \<longleftrightarrow> (case hs of [] \<Rightarrow> False
     | h # hs' \<Rightarrow> best_offered env opts P ap h \<and> best_first env opts (P(fst ap := insert (snd ap) (P (fst ap)))) aps hs')"

lemma pop_loop_spec:
  assumes "priority (cp_pick env)" "priority (cp_cpick env)" "\<forall>opt \<in> set opts. wf_option (cp_cube env) opt"
    and "queue_ok (cp_cube env) opts P tagged"
  shows "\<exists>aps hs n'. length hs = min k (card (remaining opts P)) \<and> popped (cp_cube env) opts (remaining opts P) aps hs
    \<and> best_first (cp_cube env) opts P aps hs
    \<and> (\<forall>cell. pop_loop env k (map snd tagged, n) cell = rbind (rfold (cell_AddHypothesis env) hs cell) (\<lambda>cell'. Inr (cell', n')))"
  using assms(4)
proof (induction k arbitrary: P tagged n)
  case 0
  then show ?case by (intro exI [of _ "[]"] exI [of _ n]) (simp add: popped_def)
next
  case (Suc k)
  show ?case
  proof (cases "tagged = []")
    case True
    then have "remaining opts P = {}" using queue_ok_empty [OF Suc.prems] by simp
    then show ?thesis using True by (intro exI [of _ "[]"] exI [of _ n]) (simp add: popped_def)
  next
    case False
    obtain hypo a p tagged' n1 where pop:
        "queue_Pop (cp_cube env) (cp_pick env) (cp_cpick env) (map snd tagged, n) = Inr (hypo, map snd tagged', n1)"
        "(a, p) \<in> remaining opts P" "made_from (cp_cube env) (opts ! a) p hypo"
        "queue_ok (cp_cube env) opts (P(a := insert p (P a))) tagged'" "best_offered (cp_cube env) opts P (a, p) hypo"
        "ce_lazy (cp_cube env) \<and> (\<forall>opt \<in> set opts. sorted_option opt)
         \<longrightarrow> (\<forall>bq \<in> remaining opts P. choice_estimate opts bq \<le> choice_estimate opts (a, p))"
      using queue_Pop_spec [OF assms(1-3) Suc.prems False, of n] by blast
    from Suc.IH [OF pop(4), of n1]
    obtain aps hs n' where rest: "length hs = min k (card (remaining opts P - {(a, p)}))"
        "popped (cp_cube env) opts (remaining opts P - {(a, p)}) aps hs" "best_first (cp_cube env) opts (P(a := insert p (P a))) aps hs"
        "\<forall>cell. pop_loop env k (map snd tagged', n1) cell = rbind (rfold (cell_AddHypothesis env) hs cell) (\<lambda>cell'. Inr (cell', n'))"
      unfolding remaining_take by blast
    have "card (remaining opts P) = Suc (card (remaining opts P - {(a, p)}))"
      using pop(2) finite_remaining by (metis card_Suc_Diff1)
    then have "length (hypo # hs) = min (Suc k) (card (remaining opts P))" using rest(1) by simp
    moreover have "pop_loop env (Suc k) (map snd tagged, n) cell
        = rbind (rfold (cell_AddHypothesis env) (hypo # hs) cell) (\<lambda>cell'. Inr (cell', n'))" for cell
      using False pop(1) rest(4) by (simp add: rbind_def split: sum.splits)
    moreover have "popped (cp_cube env) opts (remaining opts P) ((a, p) # aps) (hypo # hs)"
      using pop(2,3) rest(2) pop(6) by (rule popped_Cons)
    moreover have "best_first (cp_cube env) opts P ((a, p) # aps) (hypo # hs)" using pop(5) rest(3) by simp
    ultimately show ?thesis by blast
  qed
qed

section \<open>The hypotheses that are created\<close>

text \<open>Whether a feature function keeps a state does not depend on the hypothesis.\<close>

definition ffs_shape :: "'s cube_env \<Rightarrow> bool list \<Rightarrow> bool" where
  "ffs_shape env shape \<longleftrightarrow> length shape = length (ce_ffs env) \<and>
     (\<forall>i < length (ce_ffs env). \<forall>h bd. Option.is_none (fst ((ce_ffs env ! i) h i bd)) = shape ! i)"

definition ff_step :: "nat \<times> ('s hypo \<Rightarrow> nat \<Rightarrow> real list \<Rightarrow> 's option \<times> real list) \<Rightarrow> 's hypo \<Rightarrow> 's hypo" where
  "ff_step = (\<lambda>(i, ff) h. case ff h i (h_breakdown h) of
     (st, bd) \<Rightarrow> set_scores ((h_states h)[i := st]) bd (h_total h) h)"

lemma ff_steps_states:
  assumes "\<forall>i < length ffs. \<forall>h bd. Option.is_none (fst ((ffs ! i) h (n + i) bd)) = shape ! (n + i)"
    and "n + length ffs \<le> length (h_states h)"
  shows "length (h_states (fold ff_step (enumerate n ffs) h)) = length (h_states h)
    \<and> (\<forall>j < n. h_states (fold ff_step (enumerate n ffs) h) ! j = h_states h ! j)
    \<and> (\<forall>j. n \<le> j \<and> j < n + length ffs \<longrightarrow> Option.is_none (h_states (fold ff_step (enumerate n ffs) h) ! j) = shape ! j)"
  using assms
proof (induction ffs arbitrary: n h)
  case (Cons ff ffs)
  obtain st bd where step: "ff h n (h_breakdown h) = (st, bd)" by fastforce
  let ?h = "ff_step (n, ff) h"
  have states: "h_states ?h = (h_states h)[n := st]" by (simp add: ff_step_def step)
  have tail: "\<forall>i < length ffs. \<forall>h bd. Option.is_none (fst ((ffs ! i) h (Suc n + i) bd)) = shape ! (Suc n + i)"
    using Cons.prems(1) by fastforce
  have first: "Option.is_none st = shape ! n"
    using Cons.prems(1) [rule_format, of 0 h "h_breakdown h"] step by simp
  have len: "Suc n + length ffs \<le> length (h_states ?h)" using Cons.prems(2) states by simp
  note IH = Cons.IH [OF tail len]
  have "Option.is_none (h_states (fold ff_step (enumerate (Suc n) ffs) ?h) ! j) = shape ! j"
    if j: "n \<le> j" "j < n + length (ff # ffs)" for j
  proof (cases "j = n")
    case True
    then have "h_states (fold ff_step (enumerate (Suc n) ffs) ?h) ! j = h_states ?h ! n" using IH by simp
    then show ?thesis using len states first True by simp
  next
    case False
    then show ?thesis using IH j by simp
  qed
  then show ?case using IH states by simp
qed auto

lemma CalcScore_states:
  assumes "CalcScore env h = Inr h'" "ffs_shape env shape" "length (h_states h) = length (ce_ffs env)"
  shows "map Option.is_none (h_states h') = shape"
proof -
  obtain bd1 where "h' = (let h2 = fold ff_step (enumerate 0 (ce_ffs env)) (set_scores (h_states h) bd1 (h_total h) h)
      in set_scores (h_states h2) (h_breakdown h2) (Fin (GetWeightedScore (ce_weights env) (h_breakdown h2))) h2)"
    using assms(1) by (auto simp: CalcScore_def rbind_eq_Inr Let_def ff_step_def)
  then have h': "h_states h' = h_states (fold ff_step (enumerate 0 (ce_ffs env)) (set_scores (h_states h) bd1 (h_total h) h))"
    by (simp add: Let_def)
  show ?thesis
    unfolding h' using assms(2,3) by (intro nth_equalityI) (use ff_steps_states [of "ce_ffs env" 0 shape] in \<open>simp_all add: ffs_shape_def\<close>)
qed

lemma made_from_ok:
  assumes "wf_option env opt" "p \<in> combos opt" "made_from env opt p h" "ffs_shape env shape"
  shows "ok_hypo (to_range opt) (tp_lhs (chosen_tp opt p)) shape h"
proof -
  obtain n where n: "CalcScore env (new_hypo env opt p n) = Inr h" using assms(3) by (auto simp: made_from_def)
  have "map Option.is_none (h_states h) = shape"
    by (rule CalcScore_states [OF n assms(4)]) (simp add: new_hypo_def)
  then show ?thesis using made_fromD [OF assms(1-3)] by (simp add: ok_hypo_def)
qed

section \<open>What the collections of a cell hold\<close>

text \<open>Hypotheses of one span with the states of the same feature functions, whose labels are equal when their first factors are.\<close>

definition cell_offers :: "words_range \<Rightarrow> bool list \<Rightarrow> 's hypo list \<Rightarrow> bool" where
  "cell_offers rng shape hs \<longleftrightarrow>
     (\<forall>h \<in> set hs. ok_hypo rng (GetTargetLHS h) shape h \<and> h_arcs h = None \<and> (\<exists>x. GetTotalScore h = Fin x)) \<and>
     (\<forall>g \<in> set hs. \<forall>h \<in> set hs. NonTerminalEqualityPred (GetTargetLHS g) (GetTargetLHS h) \<longrightarrow> GetTargetLHS g = GetTargetLHS h)"

abbreviation with_label :: "word \<Rightarrow> 's hypo list \<Rightarrow> 's hypo list" where
  "with_label w hs \<equiv> filter (\<lambda>h. NonTerminalEqualityPred w (GetTargetLHS h)) hs"

abbreviation new_coll :: "'s cell_env \<Rightarrow> 's hypo_coll" where
  "new_coll env \<equiv> ChartHypothesisCollection (cp_beamWidth env) (cp_maxHypoStackSize env) (cp_nBestIsEnabled env)"

text \<open>Every label that has been offered has the collection that AddHypothesis builds from its hypotheses; there is no other collection.\<close>

definition cell_holds :: "'s cell_env \<Rightarrow> 's hypo list \<Rightarrow> 's chart_cell \<Rightarrow> bool" where
  "cell_holds env hs cell \<longleftrightarrow> nonterms.distinct_map (cc_hypoColl cell) \<and>
     (\<forall>w. case um_find NonTerminalEqualityPred w (cc_hypoColl cell) of
            None \<Rightarrow> with_label w hs = []
          | Some coll \<Rightarrow> with_label w hs \<noteq> [] \<and> hc_Adds (cp_less env) (cp_sel env) (with_label w hs) (new_coll env) = Inr coll)"

text \<open>What the parameters of a cell have to be.\<close>

definition wf_cell_env :: "('s \<Rightarrow> 's \<Rightarrow> int) \<Rightarrow> ('s option \<Rightarrow> 's option \<Rightarrow> int) \<Rightarrow> 's cell_env \<Rightarrow> bool" where
  "wf_cell_env cmp diff env \<longleftrightarrow> total_compare cmp \<and> diff None None = 0 \<and> cp_less env = RecombinationOrderer cmp diff \<and>
     partial_sorting (cp_sel env) \<and> priority (cp_pick env) \<and> priority (cp_cpick env) \<and>
     (\<exists>w < 0. cp_beamWidth env = Fin w) \<and> 1 \<le> cp_maxHypoStackSize env \<and> 2 * cp_maxHypoStackSize env < SIZE_RANGE"

lemma label_adds_total:
  assumes "wf_cell_env cmp diff env" "cell_offers rng shape hs"
  shows "\<exists>coll. hc_Adds (cp_less env) (cp_sel env) (with_label w hs) (new_coll env) = Inr coll"
proof -
  obtain b where b: "b < 0" "cp_beamWidth env = Fin b" using assms(1) by (auto simp: wf_cell_env_def)
  let ?hs = "with_label w hs"
  have same: "GetTargetLHS g = GetTargetLHS h" if "g \<in> set ?hs" "h \<in> set ?hs" for g h
    using assms(2) that unfolding cell_offers_def NonTerminalEqualityPred_def by auto
  have "valid_offers rng (GetTargetLHS (hd ?hs)) shape ?hs"
    unfolding valid_offers_def
  proof (intro ballI conjI)
    fix h
    assume h: "h \<in> set ?hs"
    then have "hd ?hs \<in> set ?hs" by (metis hd_in_set list.set(1) empty_iff)
    then have "GetTargetLHS h = GetTargetLHS (hd ?hs)" using same h by blast
    then show "ok_hypo rng (GetTargetLHS (hd ?hs)) shape h"
      using assms(2) h unfolding cell_offers_def mem_Collect_eq set_filter by metis
  qed (use assms(2) in \<open>auto simp: cell_offers_def\<close>)
  moreover have "total_compare cmp" "partial_sorting (cp_sel env)" "diff None None = 0"
    "1 \<le> cp_maxHypoStackSize env" "2 * cp_maxHypoStackSize env < SIZE_RANGE" "cp_less env = RecombinationOrderer cmp diff"
    using assms(1) by (auto simp: wf_cell_env_def)
  ultimately show ?thesis
    using hc_Adds_total [where diff = diff and hs = ?hs and nBest = "cp_nBestIsEnabled env"] b by metis
qed

lemma um_modify_found:
  assumes "f (case um_find eq k m of None \<Rightarrow> d | Some v \<Rightarrow> v) = Inr v"
  shows "\<exists>m'. um_modify eq k d f m = Inr m'"
  using assms by (induction m) (auto split: if_splits)

lemma cell_holds_fresh:
  "cc_hypoColl cell = [] \<Longrightarrow> cell_holds env [] cell"
  by (simp add: cell_holds_def)

lemma cell_AddHypothesis_holds:
  assumes "wf_cell_env cmp diff env" "cell_offers rng shape (hs @ [h])" "cell_holds env hs cell"
  shows "\<exists>m. cell_AddHypothesis env h cell = Inr (cell\<lparr>cc_hypoColl := m\<rparr>) \<and> cell_holds env (hs @ [h]) (cell\<lparr>cc_hypoColl := m\<rparr>)"
proof -
  let ?k = "GetTargetLHS h"
  let ?f = "\<lambda>coll. rbind (hc_AddHypothesis (cp_less env) (cp_sel env) h coll) (\<lambda>(_, coll'). Inr coll')"
  let ?old = "case um_find NonTerminalEqualityPred ?k (cc_hypoColl cell) of None \<Rightarrow> new_coll env | Some v \<Rightarrow> v"
  have adds: "hc_Adds (cp_less env) (cp_sel env) (with_label ?k hs) (new_coll env) = Inr ?old"
    using assms(3) unfolding cell_holds_def by (auto simp: hc_Adds_def split: option.splits dest: spec [of _ ?k])
  have "with_label ?k (hs @ [h]) = with_label ?k hs @ [h]" by (simp add: NonTerminalEqualityPred_def)
  then have app: "hc_Adds (cp_less env) (cp_sel env) (with_label ?k (hs @ [h])) (new_coll env) = ?f ?old"
    using adds by (simp add: hc_Adds_def rfold_append rbind_def split: sum.splits)
  then obtain coll where coll: "?f ?old = Inr coll"
    using label_adds_total [OF assms(1,2), of ?k] by auto
  then obtain m where m: "um_modify NonTerminalEqualityPred ?k (new_coll env) ?f (cc_hypoColl cell) = Inr m"
    using um_modify_found by metis
  have "cell_AddHypothesis env h cell = Inr (cell\<lparr>cc_hypoColl := m\<rparr>)"
    by (simp add: cell_AddHypothesis_def m)
  moreover have "cell_holds env (hs @ [h]) (cell\<lparr>cc_hypoColl := m\<rparr>)"
    unfolding cell_holds_def
  proof (intro conjI allI)
    show "nonterms.distinct_map (cc_hypoColl (cell\<lparr>cc_hypoColl := m\<rparr>))"
      using nonterms.distinct_modify [OF m] assms(3) by (simp add: cell_holds_def nonterms.ok_map_def)
    fix w
    have find: "if NonTerminalEqualityPred w ?k
        then \<exists>v. ?f ?old = Inr v \<and> um_find NonTerminalEqualityPred w m = Some v
        else um_find NonTerminalEqualityPred w m = um_find NonTerminalEqualityPred w (cc_hypoColl cell)"
      using nonterms.find_modify [OF m] by (simp add: nonterms.ok_map_def)
    show "case um_find NonTerminalEqualityPred w (cc_hypoColl (cell\<lparr>cc_hypoColl := m\<rparr>)) of
            None \<Rightarrow> with_label w (hs @ [h]) = []
          | Some coll \<Rightarrow> with_label w (hs @ [h]) \<noteq> [] \<and>
              hc_Adds (cp_less env) (cp_sel env) (with_label w (hs @ [h])) (new_coll env) = Inr coll"
    proof (cases "NonTerminalEqualityPred w ?k")
      case True
      then have "with_label w (hs @ [h]) = with_label ?k (hs @ [h])" by (simp add: NonTerminalEqualityPred_def)
      moreover obtain v where "?f ?old = Inr v" "um_find NonTerminalEqualityPred w m = Some v" using find True by auto
      moreover have "with_label ?k (hs @ [h]) \<noteq> []" by (simp add: NonTerminalEqualityPred_def)
      ultimately show ?thesis using app by simp
    next
      case False
      then have same: "with_label w (hs @ [h]) = with_label w hs" by simp
      have old: "um_find NonTerminalEqualityPred w m = um_find NonTerminalEqualityPred w (cc_hypoColl cell)"
        using find False by simp
      have m_of: "cc_hypoColl (cell\<lparr>cc_hypoColl := m\<rparr>) = m" by simp
      show ?thesis using assms(3) unfolding cell_holds_def same m_of old by blast
    qed
  qed
  ultimately show ?thesis by blast
qed

lemma cell_adds:
  assumes "wf_cell_env cmp diff env" "cell_offers rng shape hs" "cc_hypoColl cell = []"
  shows "\<exists>m. rfold (cell_AddHypothesis env) hs cell = Inr (cell\<lparr>cc_hypoColl := m\<rparr>) \<and> cell_holds env hs (cell\<lparr>cc_hypoColl := m\<rparr>)"
  using assms(2)
proof (induction hs rule: rev_induct)
  case Nil
  have "cell\<lparr>cc_hypoColl := []\<rparr> = cell" using assms(3) by (cases cell) simp
  then show ?case using cell_holds_fresh [OF assms(3)] by (intro exI [of _ "[]"]) simp
next
  case (snoc h hs)
  have "cell_offers rng shape hs" using snoc.prems by (simp add: cell_offers_def)
  then obtain m where m: "rfold (cell_AddHypothesis env) hs cell = Inr (cell\<lparr>cc_hypoColl := m\<rparr>)"
    "cell_holds env hs (cell\<lparr>cc_hypoColl := m\<rparr>)" using snoc.IH by blast
  from cell_AddHypothesis_holds [OF assms(1) snoc.prems m(2)] show ?case by (auto simp: rfold_append m(1))
qed

section \<open>The translation options of a cell\<close>

text \<open>
  The options that are in use come from one span; the labels of their rules are
  equal when their first factors are.
\<close>

definition wf_options :: "'s cell_env \<Rightarrow> words_range \<Rightarrow> 's trans_option list \<Rightarrow> bool" where
  "wf_options env rng opts \<longleftrightarrow> (\<forall>opt \<in> set opts. wf_option (cp_cube env) opt \<and> to_range opt = rng) \<and>
     (\<forall>x \<in> (\<Union>opt \<in> set opts. set (to_tpc opt)). \<forall>y \<in> (\<Union>opt \<in> set opts. set (to_tpc opt)).
        NonTerminalEqualityPred (tp_lhs x) (tp_lhs y) \<longrightarrow> tp_lhs x = tp_lhs y)"

lemma popped_offers:
  assumes "wf_options env rng opts" "ffs_shape (cp_cube env) shape" "popped (cp_cube env) opts (remaining opts P) aps hs"
  shows "cell_offers rng shape hs"
proof -
  have made: "\<exists>a p. a < length opts \<and> p \<in> combos (opts ! a) \<and> made_from (cp_cube env) (opts ! a) p h"
    if "h \<in> set hs" for h
  proof -
    obtain i where i: "i < length hs" "hs ! i = h" using \<open>h \<in> set hs\<close> by (auto simp: in_set_conv_nth)
    obtain a p where ap: "aps ! i = (a, p)" by (cases "aps ! i")
    have len: "length aps = length hs" "made_from (cp_cube env) (opts ! a) p h"
      using assms(3) i ap unfolding popped_def list_all2_conv_all_nth by auto
    then have "(a, p) \<in> remaining opts P"
      using assms(3) i ap unfolding popped_def by (metis nth_mem subsetD)
    then have "a < length opts \<and> p \<in> combos (opts ! a)" by (simp add: remaining_def)
    then show ?thesis using len(2) by blast
  qed
  have one: "ok_hypo rng (GetTargetLHS h) shape h \<and> h_arcs h = None \<and> (\<exists>x. GetTotalScore h = Fin x)
      \<and> (\<exists>tp \<in> (\<Union>opt \<in> set opts. set (to_tpc opt)). GetTargetLHS h = tp_lhs tp)" if mem: "h \<in> set hs" for h
  proof -
    obtain a p where a: "a < length opts" "p \<in> combos (opts ! a)" "made_from (cp_cube env) (opts ! a) p h"
      using made [OF mem] by blast
    have opt: "opts ! a \<in> set opts" "wf_option (cp_cube env) (opts ! a)" "to_range (opts ! a) = rng"
      using assms(1) a(1) by (auto simp: wf_options_def)
    note D = made_fromD [OF opt(2) a(2,3)]
    have "chosen_tp (opts ! a) p \<in> set (to_tpc (opts ! a))" using a(2) by (auto simp: combos_def chosen_tp_def)
    then have "\<exists>tp \<in> (\<Union>opt \<in> set opts. set (to_tpc opt)). GetTargetLHS h = tp_lhs tp" using opt(1) D(1) by auto
    moreover have "ok_hypo rng (GetTargetLHS h) shape h"
      using made_from_ok [OF opt(2) a(2,3) assms(2)] opt(3) D(1) by simp
    ultimately show ?thesis using D(4,6) by simp
  qed
  have "GetTargetLHS g = GetTargetLHS h"
    if "g \<in> set hs" "h \<in> set hs" "NonTerminalEqualityPred (GetTargetLHS g) (GetTargetLHS h)" for g h
    using one [OF that(1)] one [OF that(2)] that(3) assms(1) unfolding wf_options_def by metis
  then show ?thesis using one unfolding cell_offers_def by blast
qed

section \<open>ProcessSentence\<close>

abbreviation used_options :: "'s trans_opt_list \<Rightarrow> 's trans_option list" where
  "used_options tol \<equiv> take (tol_size tol) (tol_collection tol)"

lemma add_cubes:
  assumes "tol_size tol \<le> length (tol_collection tol)"
  shows "rfold (add_cube env tol) [0..<tol_size tol] st
    = rfold (\<lambda>opt (cubes, n). rbind (RuleCube (cp_cube env) opt n) (\<lambda>(c, n'). Inr (cubes @ [c], n'))) (used_options tol) st"
proof -
  have "rfold (add_cube env tol) [0..<k] st
      = rfold (\<lambda>opt (cubes, n). rbind (RuleCube (cp_cube env) opt n) (\<lambda>(c, n'). Inr (cubes @ [c], n')))
          (take k (tol_collection tol)) st" if "k \<le> tol_size tol" for k
    using that
  proof (induction k)
    case (Suc k)
    have "tol_Get tol k = Inr (tol_collection tol ! k)" using Suc.prems assms by (simp add: tol_Get_def)
    then show ?case using Suc assms
      by (simp add: take_Suc_conv_app_nth rfold_append add_cube_def rbind_def case_prod_unfold split: sum.splits)
  qed simp
  then show ?thesis by simp
qed

text \<open>All combinations of all options.\<close>

abbreviation all_choices :: "'s trans_option list \<Rightarrow> (nat \<times> point) set" where
  "all_choices opts \<equiv> remaining opts (\<lambda>_. {})"

section \<open>Sorting, labels and the best hypothesis\<close>

definition sorted_coll :: "'s hypo_coll \<Rightarrow> 's hypo_coll \<Rightarrow> bool" where
  "sorted_coll coll coll' \<longleftrightarrow> (\<exists>os. coll' = coll\<lparr>hc_hyposOrdered := os\<rparr> \<and> mset os = mset (hc_hypos coll) \<and>
     sorted_wrt (\<lambda>x y. GetTotalScore y \<le> GetTotalScore x) os)"

lemma sorted_collD:
  assumes "sorted_coll coll coll'"
  shows "mset (hc_hyposOrdered coll') = mset (hc_hypos coll)"
    "sorted_wrt (\<lambda>x y. GetTotalScore y \<le> GetTotalScore x) (hc_hyposOrdered coll')"
  using assms by (auto simp: sorted_coll_def)

lemma sorts:
  assumes "partial_sorting sel" "\<forall>(l, c) \<in> set colls. hc_hyposOrdered c = []"
  shows "\<exists>colls'. rmap (\<lambda>(label, coll). rbind (hc_SortHypotheses sel coll) (\<lambda>coll'. Inr (label, coll'))) colls = Inr colls'
    \<and> list_all2 (\<lambda>(l, c) (l', c'). l' = l \<and> sorted_coll c c') colls colls'"
  using assms(2)
proof (induction colls)
  case (Cons lc colls)
  obtain l c where lc: "lc = (l, c)" by (cases lc)
  then have "hc_hyposOrdered c = []" using Cons.prems by simp
  then obtain os where os: "hc_SortHypotheses sel c = Inr (c\<lparr>hc_hyposOrdered := os\<rparr>)" "mset os = mset (hc_hypos c)"
    "sorted_wrt (\<lambda>x y. GetTotalScore y \<le> GetTotalScore x) os"
    by (rule hc_SortHypotheses_spec [OF assms(1)])
  then have sorted: "sorted_coll c (c\<lparr>hc_hyposOrdered := os\<rparr>)" unfolding sorted_coll_def by blast
  obtain colls' where "rmap (\<lambda>(label, coll). rbind (hc_SortHypotheses sel coll) (\<lambda>coll'. Inr (label, coll'))) colls = Inr colls'"
      "list_all2 (\<lambda>(l, c) (l', c'). l' = l \<and> sorted_coll c c') colls colls'"
    using Cons by auto
  then show ?case using os(1) sorted lc by (intro exI [of _ "(l, c\<lparr>hc_hyposOrdered := os\<rparr>) # colls'"]) simp
qed simp

lemma find_fold_insert:
  "um_find NonTerminalEqualityPred w (fold (\<lambda>(k, v). um_insert NonTerminalEqualityPred k (f k v)) xs m)
    = um_find NonTerminalEqualityPred w (m @ map (\<lambda>(k, v). (k, f k v)) xs)"
proof (induction xs arbitrary: m)
  case (Cons x xs)
  obtain k v where x: "x = (k, v)" by (cases x)
  have "um_find NonTerminalEqualityPred w (um_insert NonTerminalEqualityPred k (f k v) m @ ys)
      = um_find NonTerminalEqualityPred w (m @ (k, f k v) # ys)" for ys
  proof -
    have "um_find NonTerminalEqualityPred w m = um_find NonTerminalEqualityPred k m" if "NonTerminalEqualityPred w k"
      using nonterms.find_cong [of m w k] that by (simp add: nonterms.ok_map_def)
    then show ?thesis by (auto simp: um_insert_def um_find_append split: option.splits)
  qed
  then show ?case using Cons x by simp
qed simp

definition label_of :: "words_range \<Rightarrow> word \<Rightarrow> 's hypo_list \<Rightarrow> 's cell_label" where
  "label_of rng w hs = \<lparr>cl_coverage = rng, cl_label = w, cl_stack = Some hs\<rparr>"

lemma find_sorted:
  assumes "list_all2 (\<lambda>(l, c) (l', c'). l' = l \<and> sorted_coll c c') colls colls'"
  shows "um_find NonTerminalEqualityPred w colls = None \<Longrightarrow> um_find NonTerminalEqualityPred w colls' = None"
    and "um_find NonTerminalEqualityPred w colls = Some c
      \<Longrightarrow> \<exists>c'. um_find NonTerminalEqualityPred w colls' = Some c' \<and> sorted_coll c c'"
  using assms by (induction rule: list_all2_induct) (auto split: if_splits)

lemma find_map:
  shows "um_find NonTerminalEqualityPred w (map (\<lambda>(l, c). (l, F l c)) xs) = None \<longleftrightarrow> um_find NonTerminalEqualityPred w xs = None"
    and "um_find NonTerminalEqualityPred w xs = Some c
      \<Longrightarrow> \<exists>l. NonTerminalEqualityPred w l \<and> um_find NonTerminalEqualityPred w (map (\<lambda>(l, c). (l, F l c)) xs) = Some (F l c)"
  by (induction xs) (auto split: if_splits)

lemma cell_SortHypotheses_spec:
  assumes "partial_sorting (cp_sel env)" "cc_targetLabelSet cell = []" "\<forall>(l, c) \<in> set (cc_hypoColl cell). hc_hyposOrdered c = []"
  obtains cell' where "cell_SortHypotheses env cell = Inr cell'"
    "list_all2 (\<lambda>(l, c) (l', c'). l' = l \<and> sorted_coll c c') (cc_hypoColl cell) (cc_hypoColl cell')"
    "\<forall>w. label_Find (cc_targetLabelSet cell') w = um_find NonTerminalEqualityPred w
       (map (\<lambda>(l, c). (l, label_of (cc_coverage cell) l (hc_hyposOrdered c))) (cc_hypoColl cell'))"
proof -
  obtain colls' where colls': "rmap (\<lambda>(label, coll). rbind (hc_SortHypotheses (cp_sel env) coll) (\<lambda>coll'. Inr (label, coll')))
      (cc_hypoColl cell) = Inr colls'"
    "list_all2 (\<lambda>(l, c) (l', c'). l' = l \<and> sorted_coll c c') (cc_hypoColl cell) colls'"
    using sorts [OF assms(1,3)] by blast
  let ?f = "\<lambda>l c. label_of (cc_coverage cell) l (hc_hyposOrdered c)"
  let ?labels = "fold (\<lambda>(label, coll). AddConstituent (cc_coverage cell) label (hc_hyposOrdered coll)) colls' []"
  have "?labels = fold (\<lambda>(k, v). um_insert NonTerminalEqualityPred k (?f k v)) colls' []"
    by (simp add: AddConstituent_def [abs_def] label_of_def)
  then have "label_Find ?labels w = um_find NonTerminalEqualityPred w (map (\<lambda>(l, c). (l, ?f l c)) colls')" for w
    unfolding label_Find_def by (simp add: find_fold_insert)
  then show ?thesis
    using colls' assms(2)
    by (intro that [of "cell\<lparr>cc_hypoColl := colls', cc_targetLabelSet := ?labels\<rparr>"])
      (simp_all add: cell_SortHypotheses_def each_coll_def)
qed

lemma sorted_heads:
  assumes "list_all2 (\<lambda>(l, c) (l', c'). l' = l \<and> sorted_coll c c') colls colls'" "i < length colls" "hc_hypos (snd (colls ! i)) \<noteq> []"
  shows "hd (hc_hyposOrdered (snd (colls' ! i))) \<in> set (hc_hypos (snd (colls ! i)))
    \<and> hc_hyposOrdered (snd (colls' ! i)) \<noteq> []
    \<and> (\<forall>g \<in> set (hc_hypos (snd (colls ! i))). GetTotalScore g \<le> GetTotalScore (hd (hc_hyposOrdered (snd (colls' ! i)))))"
proof -
  have "sorted_coll (snd (colls ! i)) (snd (colls' ! i))"
    using list_all2_nthD [OF assms(1,2)] by (simp add: case_prod_unfold)
  note m = sorted_collD [OF this]
  have "hc_hyposOrdered (snd (colls' ! i)) \<noteq> []" using m(1) assms(3) by auto
  then show ?thesis using sorted_hd_best [OF m assms(3)] by blast
qed

text \<open>The loop over the collections keeps the best first hypothesis.\<close>

definition best_step :: "word \<times> 's hypo_coll \<Rightarrow> 's hypo option \<times> score \<Rightarrow> ('s hypo option \<times> score) result" where
  "best_step = (\<lambda>(label, coll) (ret, bestScore).
     case hc_hyposOrdered coll of
       [] \<Rightarrow> Inl CheckFailed
     | hypo # _ \<Rightarrow> Inr (if GetTotalScore hypo > bestScore then (Some hypo, GetTotalScore hypo) else (ret, bestScore)))"

lemma best_loop:
  assumes "\<forall>(l, c) \<in> set colls. hc_hyposOrdered c \<noteq> [] \<and> GetTotalScore (hd (hc_hyposOrdered c)) \<noteq> NegInf"
    and "case best of None \<Rightarrow> sc = NegInf | Some h \<Rightarrow> sc = GetTotalScore h"
  shows "\<exists>best' sc'. rfold best_step colls (best, sc) = Inr (best', sc') \<and> sc \<le> sc'
    \<and> (case best' of None \<Rightarrow> sc' = NegInf | Some h \<Rightarrow> sc' = GetTotalScore h)
    \<and> (\<forall>(l, c) \<in> set colls. GetTotalScore (hd (hc_hyposOrdered c)) \<le> sc')
    \<and> (best' = best \<or> best' \<in> (\<lambda>(l, c). Some (hd (hc_hyposOrdered c))) ` set colls)
    \<and> (best = None \<and> colls \<noteq> [] \<longrightarrow> best' \<noteq> None)"
  using assms
proof (induction colls arbitrary: best sc)
  case (Cons lc colls)
  obtain l c where lc: "lc = (l, c)" by (cases lc)
  obtain h hs where h: "hc_hyposOrdered c = h # hs" "GetTotalScore h \<noteq> NegInf"
    using Cons.prems(1) lc by (cases "hc_hyposOrdered c") auto
  let ?st = "if GetTotalScore h > sc then (Some h, GetTotalScore h) else (best, sc)"
  have step: "best_step lc (best, sc) = Inr ?st" by (simp add: best_step_def lc h(1))
  have "\<exists>best' sc'. rfold best_step colls ?st = Inr (best', sc') \<and> snd ?st \<le> sc'
    \<and> (case best' of None \<Rightarrow> sc' = NegInf | Some h \<Rightarrow> sc' = GetTotalScore h)
    \<and> (\<forall>(l, c) \<in> set colls. GetTotalScore (hd (hc_hyposOrdered c)) \<le> sc')
    \<and> (best' = fst ?st \<or> best' \<in> (\<lambda>(l, c). Some (hd (hc_hyposOrdered c))) ` set colls)
    \<and> (fst ?st = None \<and> colls \<noteq> [] \<longrightarrow> best' \<noteq> None)"
  proof -
    have "\<forall>(l, c) \<in> set colls. hc_hyposOrdered c \<noteq> [] \<and> GetTotalScore (hd (hc_hyposOrdered c)) \<noteq> NegInf"
      using Cons.prems(1) by simp
    moreover obtain b0 s0 where st: "?st = (b0, s0)" by (cases ?st)
    moreover from st have "case b0 of None \<Rightarrow> s0 = NegInf | Some h \<Rightarrow> s0 = GetTotalScore h"
      using Cons.prems(2) by (cases best) (auto split: if_splits)
    ultimately show ?thesis unfolding st fst_conv snd_conv by (intro Cons.IH)
  qed
  then obtain best' sc' where b: "rfold best_step colls ?st = Inr (best', sc')" "snd ?st \<le> sc'"
    "case best' of None \<Rightarrow> sc' = NegInf | Some h \<Rightarrow> sc' = GetTotalScore h"
    "\<forall>(l, c) \<in> set colls. GetTotalScore (hd (hc_hyposOrdered c)) \<le> sc'"
    "best' = fst ?st \<or> best' \<in> (\<lambda>(l, c). Some (hd (hc_hyposOrdered c))) ` set colls" by blast
  have "sc \<le> snd ?st" "GetTotalScore h \<le> snd ?st" by auto
  then have le: "sc \<le> sc'" "GetTotalScore h \<le> sc'" using b(2) by (auto intro: order_trans)
  then have "best' \<noteq> None" using h(2) b(3) by (cases "GetTotalScore h") (auto split: option.splits)
  moreover have "best' = best \<or> best' \<in> (\<lambda>(l, c). Some (hd (hc_hyposOrdered c))) ` set (lc # colls)"
    using b(5) lc h(1) by (auto split: if_splits)
  ultimately show ?case using step b(1,3,4) le lc h(1) by (intro exI [of _ best'] exI [of _ sc']) simp
qed (auto split: option.splits)

lemma best_fault:
  "\<exists>(l, c) \<in> set colls. hc_hyposOrdered c = [] \<Longrightarrow> rfold best_step colls st = Inl CheckFailed"
proof (induction colls arbitrary: st)
  case (Cons lc colls)
  then show ?case
    by (cases lc; cases st; cases "hc_hyposOrdered (snd lc)") (auto simp: best_step_def)
qed simp

lemma cell_GetBestHypothesis_fold:
  "cell_GetBestHypothesis cell = rbind (rfold best_step (cc_hypoColl cell) (None, NegInf)) (\<lambda>(ret, _). Inr ret)"
  by (simp add: cell_GetBestHypothesis_def best_step_def)

section \<open>Properties\<close>

text \<open>
  C2. Filling a cell: ProcessSentence never fails; it creates as many hypotheses as there are combinations, up to the pop limit,
  each from a different combination of one of the translation options, and best first: no combination on offer, that is the first of an
  option or a neighbour of one already taken, would give a hypothesis with a better score than the one created, or with
  lazy scoring has a better estimate. With lazy scoring (off by default) and sorted lists the combinations are also the best of all, in
  descending order of their estimates; this is not claimed for the other configurations. Every label's collection is the one that
  AddHypothesis builds from the hypotheses with that label.
\<close>

theorem ProcessSentence_best_first:
  assumes "wf_cell_env cmp diff env" "tol_size tol \<le> length (tol_collection tol)"
    and "wf_options env (cc_coverage cell) (used_options tol)" "ffs_shape (cp_cube env) shape" "cc_hypoColl cell = []"
  shows "\<exists>aps hs m n'. cell_ProcessSentence env tol (cell, n) = Inr (cell\<lparr>cc_hypoColl := m\<rparr>, n')
    \<and> length hs = min (cp_popLimit env) (card (all_choices (used_options tol)))
    \<and> popped (cp_cube env) (used_options tol) (all_choices (used_options tol)) aps hs
    \<and> best_first (cp_cube env) (used_options tol) (\<lambda>_. {}) aps hs
    \<and> cell_holds env hs (cell\<lparr>cc_hypoColl := m\<rparr>)"
proof -
  let ?opts = "used_options tol"
  have wf: "\<forall>opt \<in> set ?opts. wf_option (cp_cube env) opt" using assms(3) by (simp add: wf_options_def)
  have pick: "priority (cp_pick env)" "priority (cp_cpick env)" using assms(1) by (simp_all add: wf_cell_env_def)
  obtain tagged n1 where q: "rfold (add_cube env tol) [0..<tol_size tol] ([], n) = Inr (map snd tagged, n1)"
    "queue_ok (cp_cube env) ?opts (\<lambda>_. {}) tagged"
    using fill_queue [OF wf, of n] unfolding add_cubes [OF assms(2)] by blast
  obtain aps hs n' where p: "length hs = min (cp_popLimit env) (card (all_choices ?opts))"
      "popped (cp_cube env) ?opts (all_choices ?opts) aps hs" "best_first (cp_cube env) ?opts (\<lambda>_. {}) aps hs"
      "\<forall>cell. pop_loop env (cp_popLimit env) (map snd tagged, n1) cell
         = rbind (rfold (cell_AddHypothesis env) hs cell) (\<lambda>cell'. Inr (cell', n'))"
    using pop_loop_spec [OF pick wf q(2), of "cp_popLimit env" n1] by blast
  obtain m where "rfold (cell_AddHypothesis env) hs cell = Inr (cell\<lparr>cc_hypoColl := m\<rparr>)"
      "cell_holds env hs (cell\<lparr>cc_hypoColl := m\<rparr>)"
    using cell_adds [OF assms(1) popped_offers [OF assms(3,4) p(2)] assms(5)] by blast
  then show ?thesis using p(1-3)
    by (intro exI [of _ aps] exI [of _ hs] exI [of _ m] exI [of _ n']) (simp add: cell_ProcessSentence_def q(1) p(4))
qed

text \<open>
  The labels a cell passes to the rule lookup: after sorting, the label set has a label for a word exactly when the cell has a
  collection for it, with the span of the cell and all hypotheses of that collection in descending order of
  their scores.
\<close>

theorem SortHypotheses_labels:
  assumes "partial_sorting (cp_sel env)" "cc_targetLabelSet cell = []" "\<forall>(l, c) \<in> set (cc_hypoColl cell). hc_hyposOrdered c = []"
  shows "\<exists>cell'. cell_SortHypotheses env cell = Inr cell' \<and>
    (\<forall>w. case um_find NonTerminalEqualityPred w (cc_hypoColl cell) of
        None \<Rightarrow> label_Find (cc_targetLabelSet cell') w = None \<and> GetSortedHypotheses cell' w = None
      | Some coll \<Rightarrow> \<exists>lab hs. label_Find (cc_targetLabelSet cell') w = Some lab \<and> GetSortedHypotheses cell' w = Some hs
          \<and> cl_stack lab = Some hs \<and> cl_coverage lab = cc_coverage cell \<and> NonTerminalEqualityPred w (cl_label lab)
          \<and> mset hs = mset (hc_hypos coll) \<and> sorted_wrt (\<lambda>x y. GetTotalScore y \<le> GetTotalScore x) hs)"
proof -
  obtain cell' where cell': "cell_SortHypotheses env cell = Inr cell'"
    "list_all2 (\<lambda>(l, c) (l', c'). l' = l \<and> sorted_coll c c') (cc_hypoColl cell) (cc_hypoColl cell')"
    "\<forall>w. label_Find (cc_targetLabelSet cell') w = um_find NonTerminalEqualityPred w
       (map (\<lambda>(l, c). (l, label_of (cc_coverage cell) l (hc_hyposOrdered c))) (cc_hypoColl cell'))"
    by (rule cell_SortHypotheses_spec [OF assms]) blast
  show ?thesis
  proof (intro exI [of _ cell'] conjI cell'(1) allI)
    fix w
    show "case um_find NonTerminalEqualityPred w (cc_hypoColl cell) of
        None \<Rightarrow> label_Find (cc_targetLabelSet cell') w = None \<and> GetSortedHypotheses cell' w = None
      | Some coll \<Rightarrow> \<exists>lab hs. label_Find (cc_targetLabelSet cell') w = Some lab \<and> GetSortedHypotheses cell' w = Some hs
          \<and> cl_stack lab = Some hs \<and> cl_coverage lab = cc_coverage cell \<and> NonTerminalEqualityPred w (cl_label lab)
          \<and> mset hs = mset (hc_hypos coll) \<and> sorted_wrt (\<lambda>x y. GetTotalScore y \<le> GetTotalScore x) hs"
    proof (cases "um_find NonTerminalEqualityPred w (cc_hypoColl cell)")
      case None
      then have none: "um_find NonTerminalEqualityPred w (cc_hypoColl cell') = None" using find_sorted(1) [OF cell'(2)] by simp
      then show ?thesis using None by (simp add: cell'(3) [rule_format] GetSortedHypotheses_def find_map(1))
    next
      case (Some coll)
      then obtain coll' where coll': "um_find NonTerminalEqualityPred w (cc_hypoColl cell') = Some coll'" "sorted_coll coll coll'"
        using find_sorted(2) [OF cell'(2)] by blast
      obtain l where l: "NonTerminalEqualityPred w l" "label_Find (cc_targetLabelSet cell') w
          = Some (label_of (cc_coverage cell) l (hc_hyposOrdered coll'))"
        using find_map(2) [OF coll'(1), of "\<lambda>l c. label_of (cc_coverage cell) l (hc_hyposOrdered c)"]
        by (metis cell'(3))
      have "GetSortedHypotheses cell' w = Some (hc_hyposOrdered coll')" by (simp add: GetSortedHypotheses_def coll'(1))
      then show ?thesis
        unfolding Some option.case using l sorted_collD [OF coll'(2)]
        by (intro exI [of _ "label_of (cc_coverage cell) l (hc_hyposOrdered coll')"] exI [of _ "hc_hyposOrdered coll'"] conjI)
          (simp_all add: label_of_def)
    qed
  qed
qed

text \<open>
  The best hypothesis of a cell: once a cell whose collections are not empty has been sorted, GetBestHypothesis
  returns a hypothesis of one of its collections that scores at least as well as every hypothesis of the cell;
  before sorting it fails a check.
\<close>

theorem GetBestHypothesis_best:
  assumes "partial_sorting (cp_sel env)" "cc_targetLabelSet cell = []" "cc_hypoColl cell \<noteq> []"
    and "\<forall>(l, c) \<in> set (cc_hypoColl cell). hc_hyposOrdered c = [] \<and> hc_hypos c \<noteq> [] \<and> (\<forall>h \<in> set (hc_hypos c). GetTotalScore h \<noteq> NegInf)"
  shows "cell_GetBestHypothesis cell = Inl CheckFailed
    \<and> (\<exists>h. rbind (cell_SortHypotheses env cell) cell_GetBestHypothesis = Inr (Some h)
      \<and> (\<exists>(l, c) \<in> set (cc_hypoColl cell). h \<in> set (hc_hypos c))
      \<and> (\<forall>(l, c) \<in> set (cc_hypoColl cell). \<forall>g \<in> set (hc_hypos c). GetTotalScore g \<le> GetTotalScore h))"
proof
  have "\<exists>(l, c) \<in> set (cc_hypoColl cell). hc_hyposOrdered c = []"
    using assms(3,4) by (cases "cc_hypoColl cell") auto
  from best_fault [OF this] show "cell_GetBestHypothesis cell = Inl CheckFailed"
    by (simp add: cell_GetBestHypothesis_fold)
  have "\<forall>(l, c) \<in> set (cc_hypoColl cell). hc_hyposOrdered c = []" using assms(4) by auto
  then obtain cell' where cell': "cell_SortHypotheses env cell = Inr cell'"
    "list_all2 (\<lambda>(l, c) (l', c'). l' = l \<and> sorted_coll c c') (cc_hypoColl cell) (cc_hypoColl cell')"
    by (rule cell_SortHypotheses_spec [OF assms(1,2)]) blast
  let ?colls = "cc_hypoColl cell" and ?colls' = "cc_hypoColl cell'"
  have len: "length ?colls' = length ?colls" using cell'(2) by (simp add: list_all2_lengthD)
  have pair: "hd (hc_hyposOrdered (snd (?colls' ! i))) \<in> set (hc_hypos (snd (?colls ! i)))
      \<and> hc_hyposOrdered (snd (?colls' ! i)) \<noteq> []
      \<and> (\<forall>g \<in> set (hc_hypos (snd (?colls ! i))). GetTotalScore g \<le> GetTotalScore (hd (hc_hyposOrdered (snd (?colls' ! i)))))"
    if i: "i < length ?colls" for i
    using sorted_heads [OF cell'(2) i] assms(4) i by (fastforce dest: nth_mem)
  have "\<forall>(l, c) \<in> set ?colls'. hc_hyposOrdered c \<noteq> [] \<and> GetTotalScore (hd (hc_hyposOrdered c)) \<noteq> NegInf"
  proof clarify
    fix l c
    assume "(l, c) \<in> set ?colls'"
    then obtain i where i: "i < length ?colls" "?colls' ! i = (l, c)" using len by (auto simp: in_set_conv_nth)
    have "?colls ! i \<in> set ?colls" using i(1) by simp
    then show "hc_hyposOrdered c \<noteq> [] \<and> GetTotalScore (hd (hc_hyposOrdered c)) \<noteq> NegInf"
      using pair [OF i(1)] assms(4) i(2) by (fastforce simp: case_prod_unfold)
  qed
  from best_loop [OF this, of NegInf None, unfolded option.case, OF refl]
  obtain best sc where b: "rfold best_step ?colls' (None, NegInf) = Inr (best, sc)"
      "case best of None \<Rightarrow> sc = NegInf | Some h \<Rightarrow> sc = GetTotalScore h"
      "\<forall>(l, c) \<in> set ?colls'. GetTotalScore (hd (hc_hyposOrdered c)) \<le> sc"
      "best = None \<or> best \<in> (\<lambda>(l, c). Some (hd (hc_hyposOrdered c))) ` set ?colls'"
      "?colls' \<noteq> [] \<longrightarrow> best \<noteq> None" by blast
  have "?colls' \<noteq> []" using len assms(3) by auto
  then obtain h where h: "best = Some h" "sc = GetTotalScore h" using b(2,5) by (cases best) auto
  then have "Some h \<in> (\<lambda>(l, c). Some (hd (hc_hyposOrdered c))) ` set ?colls'" using b(4) by simp
  then obtain lc where lc: "lc \<in> set ?colls'" "h = hd (hc_hyposOrdered (snd lc))"
    unfolding case_prod_unfold image_iff option.inject by blast
  from lc(1) obtain i where "i < length ?colls" "?colls' ! i = lc" unfolding in_set_conv_nth len by blast
  then have i: "i < length ?colls" "h = hd (hc_hyposOrdered (snd (?colls' ! i)))" using lc(2) by simp_all
  have "rbind (cell_SortHypotheses env cell) cell_GetBestHypothesis = Inr (Some h)"
    by (simp add: cell'(1) cell_GetBestHypothesis_fold b(1) h(1))
  moreover have "\<exists>(l, c) \<in> set ?colls. h \<in> set (hc_hypos c)"
    using pair [OF i(1)] i by (intro bexI [of _ "?colls ! i"]) (simp_all add: case_prod_unfold)
  moreover have "\<forall>(l, c) \<in> set ?colls. \<forall>g \<in> set (hc_hypos c). GetTotalScore g \<le> GetTotalScore h"
  proof clarify
    fix l c g
    assume "(l, c) \<in> set ?colls" and g: "g \<in> set (hc_hypos c)"
    then obtain j where j: "j < length ?colls" "?colls ! j = (l, c)" by (auto simp: in_set_conv_nth)
    then have "GetTotalScore g \<le> GetTotalScore (hd (hc_hyposOrdered (snd (?colls' ! j))))" using pair [OF j(1)] g by simp
    also have "?colls' ! j \<in> set ?colls'" using j(1) len by simp
    then have "GetTotalScore (hd (hc_hyposOrdered (snd (?colls' ! j)))) \<le> sc" using b(3) by (auto simp: case_prod_unfold)
    finally show "GetTotalScore g \<le> GetTotalScore h" using h(2) by simp
  qed
  ultimately show "\<exists>h. rbind (cell_SortHypotheses env cell) cell_GetBestHypothesis = Inr (Some h)
      \<and> (\<exists>(l, c) \<in> set ?colls. h \<in> set (hc_hypos c))
      \<and> (\<forall>(l, c) \<in> set ?colls. \<forall>g \<in> set (hc_hypos c). GetTotalScore g \<le> GetTotalScore h)" by blast
qed

section \<open>Examples\<close>

definition example_cells :: "unit cell_env" where
  "example_cells = \<lparr>cp_cube = example_env True, cp_less = RecombinationOrderer (\<lambda>_ _. 0) (\<lambda>_ _. 0), cp_sel = sort_select,
     cp_pick = first_max, cp_cpick = first_max, cp_beamWidth = Fin (-10), cp_maxHypoStackSize = 2, cp_nBestIsEnabled = True,
     cp_distinctNBest = False, cp_nBestSize = 1, cp_popLimit = 3\<rparr>"

definition example_tol :: "unit trans_opt_list" where
  "example_tol = \<lparr>tol_collection = [example_option], tol_size = 1, tol_threshold = NegInf, tol_ruleLimit = 1\<rparr>"

definition example_cell :: "unit chart_cell" where
  "example_cell = \<lparr>cc_hypoColl = [], cc_coverage = WordsRange 0 1, cc_sourceWordLabel = None, cc_targetLabelSet = [], cc_nBestIsEnabled = True\<rparr>"

lemma example_cells_wf: "wf_cell_env (\<lambda>_ _. 0) (\<lambda>_ _. 0) example_cells"
  by (auto simp: wf_cell_env_def example_cells_def total_compare_def SIZE_RANGE_def
      intro: first.priority_axioms sorting.partial_sorting_axioms)

lemma ProcessSentence_best_first_witness:
  "\<exists>cell' n'. cell_ProcessSentence example_cells example_tol (example_cell, 7) = Inr (cell', n')"
proof -
  have "wf_options example_cells (cc_coverage example_cell) (used_options example_tol)"
    using example_wf(1) by (auto simp: wf_options_def example_tol_def example_cell_def example_cells_def
        example_option_def example_phrase_def)
  moreover have "ffs_shape (cp_cube example_cells) []"
    by (simp add: ffs_shape_def example_cells_def example_env_def)
  ultimately show ?thesis
    using ProcessSentence_best_first [OF example_cells_wf, of example_tol example_cell "[]" 7]
    by (auto simp: example_tol_def example_cell_def)
qed

definition example_full :: "unit chart_cell" where
  "example_full = example_cell\<lparr>cc_hypoColl := [(\<lparr>w_factors = [Some 9], w_isNonTerminal = True\<rparr>,
     (ChartHypothesisCollection (Fin (-10)) 2 True)\<lparr>hc_hypos := [hd (hd (to_stackVec example_option)),
        last (hd (to_stackVec example_option))]\<rparr>)]\<rparr>"

lemma SortHypotheses_labels_witness:
  "\<exists>cell'. cell_SortHypotheses example_cells example_full = Inr cell'
     \<and> label_Find (cc_targetLabelSet cell') \<lparr>w_factors = [Some 9], w_isNonTerminal = True\<rparr> \<noteq> None"
proof -
  have "partial_sorting (cp_sel example_cells)" using example_cells_wf by (simp add: wf_cell_env_def)
  moreover have "um_find NonTerminalEqualityPred \<lparr>w_factors = [Some 9], w_isNonTerminal = True\<rparr> (cc_hypoColl example_full) \<noteq> None"
    by (simp add: example_full_def NonTerminalEqualityPred_def)
  moreover have "cc_targetLabelSet example_full = []" "\<forall>(l, c) \<in> set (cc_hypoColl example_full). hc_hyposOrdered c = []"
    by (simp_all add: example_full_def example_cell_def ChartHypothesisCollection_def)
  ultimately show ?thesis
    using SortHypotheses_labels [of example_cells example_full] by (fastforce split: option.splits)
qed

lemma GetBestHypothesis_best_witness:
  "\<exists>h. rbind (cell_SortHypotheses example_cells example_full) cell_GetBestHypothesis = Inr (Some h)"
proof -
  have "partial_sorting (cp_sel example_cells)" using example_cells_wf by (simp add: wf_cell_env_def)
  from GetBestHypothesis_best [OF this, of example_full] show ?thesis
    by (auto simp: example_full_def example_cell_def ChartHypothesisCollection_def example_option_def)
qed

end
