(* ===== verification/Phrases.thy ===== *)
theory Phrases
  imports ChartTypes OrderedSets "HOL-Library.List_Lexorder" "HOL-Library.Product_Lexorder"
begin

text \<open>
  Phrases, vectors of words (Phrase.h, Phrase.cpp): merging and compatibility of factors,
  sub-phrases, the search for a phrase, and the comparison that orders phrases in sets.

  The array of factors of a word has MAX\_NUM\_FACTORS entries; a word of the model may have a
  shorter list, whose missing entries are NULL. The parsing and printing of phrases is not modelled here.
\<close>

section \<open>Factors of a phrase\<close>

type_synonym phrase = "word list"

definition SetFactor :: "word \<Rightarrow> nat \<Rightarrow> factor option \<Rightarrow> word" where
  "SetFactor w i f = w\<lparr>w_factors := (map (GetFactor w) [0..<MAX_NUM_FACTORS])[i := f]\<rparr>"

definition phrase_GetFactor :: "phrase \<Rightarrow> nat \<Rightarrow> nat \<Rightarrow> factor option result" where
  "phrase_GetFactor p pos factorType =
     rbind (array_get p pos) (\<lambda>w.
       if factorType < MAX_NUM_FACTORS then Inr (GetFactor w factorType) else Inl OutOfBounds)"

definition phrase_SetFactor :: "phrase \<Rightarrow> nat \<Rightarrow> nat \<Rightarrow> factor option \<Rightarrow> phrase result" where
  "phrase_SetFactor p pos factorType f =
     rbind (array_get p pos) (\<lambda>w.
       if factorType < MAX_NUM_FACTORS then Inr (p[pos := SetFactor w factorType f]) else Inl OutOfBounds)"

section \<open>Merging\<close>

text \<open>MergeFactors of all factors, of one factor type, and of a list of factor types.\<close>

definition MergeFactors :: "phrase \<Rightarrow> phrase \<Rightarrow> phrase result" where
  "MergeFactors p copy =
     rbind (check (length p = length copy)) (\<lambda>_.
       rfold (\<lambda>currPos. rfold (\<lambda>factorType p.
           rbind (phrase_GetFactor copy currPos factorType) (\<lambda>factor.
             case factor of None \<Rightarrow> Inr p | Some f \<Rightarrow> phrase_SetFactor p currPos factorType (Some f)))
           [0..<MAX_NUM_FACTORS])
         [0..<length p] p)"

definition MergeFactors_vec :: "phrase \<Rightarrow> phrase \<Rightarrow> nat list \<Rightarrow> phrase result" where
  "MergeFactors_vec p copy factorVec =
     rbind (check (length p = length copy)) (\<lambda>_.
       rfold (\<lambda>currPos. rfold (\<lambda>i p.
           rbind (phrase_GetFactor copy currPos i) (phrase_SetFactor p currPos i)) factorVec)
         [0..<length p] p)"

definition MergeFactors_one :: "phrase \<Rightarrow> phrase \<Rightarrow> nat \<Rightarrow> phrase result" where
  "MergeFactors_one p copy factorType =
     rbind (check (length p = length copy)) (\<lambda>_.
       rfold (\<lambda>currPos p. rbind (phrase_GetFactor copy currPos factorType) (phrase_SetFactor p currPos factorType))
         [0..<length p] p)"

text \<open>The loops of the three IsCompatible return false at the first difference.\<close>

definition IsCompatible :: "phrase \<Rightarrow> phrase \<Rightarrow> bool" where
  "IsCompatible p inputPhrase \<longleftrightarrow>
     (if length inputPhrase \<noteq> length p then False
      else list_all (\<lambda>currPos. list_all (\<lambda>factorType.
        \<not> (GetFactor (p ! currPos) factorType \<noteq> None \<and> GetFactor (inputPhrase ! currPos) factorType \<noteq> None
           \<and> GetFactor (p ! currPos) factorType \<noteq> GetFactor (inputPhrase ! currPos) factorType))
        [0..<MAX_NUM_FACTORS]) [0..<length p])"

definition IsCompatible_vec :: "phrase \<Rightarrow> phrase \<Rightarrow> nat list \<Rightarrow> bool result" where
  "IsCompatible_vec p inputPhrase factorVec =
     (if length inputPhrase \<noteq> length p then Inr False
      else rfold (\<lambda>currPos ret. rfold (\<lambda>i ret. if \<not> ret then Inr False else
          rbind (phrase_GetFactor p currPos i) (\<lambda>f. rbind (phrase_GetFactor inputPhrase currPos i) (\<lambda>g. Inr (f = g))))
          factorVec ret) [0..<length p] True)"

definition IsCompatible_one :: "phrase \<Rightarrow> phrase \<Rightarrow> nat \<Rightarrow> bool result" where
  "IsCompatible_one p inputPhrase factorType =
     (if length inputPhrase \<noteq> length p then Inr False
      else rfold (\<lambda>currPos ret. if \<not> ret then Inr False else
          rbind (phrase_GetFactor p currPos factorType) (\<lambda>f.
          rbind (phrase_GetFactor inputPhrase currPos factorType) (\<lambda>g. Inr (f = g)))) [0..<length p] True)"

section \<open>Words of a phrase\<close>

definition GetSubString :: "phrase \<Rightarrow> words_range \<Rightarrow> phrase result" where
  "GetSubString p wordsRange = rmap (array_get p) [GetStartPos wordsRange..<Suc (GetEndPos wordsRange)]"

definition Append :: "phrase \<Rightarrow> phrase \<Rightarrow> phrase" where
  "Append p endPhrase = fold (\<lambda>w p. p @ [w]) endPhrase p"

text \<open>A new word at the end, then the loop that shifts the words from the back.\<close>

definition PrependWord :: "phrase \<Rightarrow> word \<Rightarrow> phrase" where
  "PrependWord p newWord =
     (let p1 = p @ [\<lparr>w_factors = [], w_isNonTerminal = False\<rparr>];
          p2 = fold (\<lambda>pos q. q[pos := q ! (pos - 1)]) (rev [1..<length p1]) p1
      in p2[0 := newWord])"

definition RemoveWord :: "phrase \<Rightarrow> nat \<Rightarrow> phrase result" where
  "RemoveWord p pos = rbind (check (pos < length p)) (\<lambda>_. Inr (take pos p @ drop (Suc pos) p))"

definition GetNumTerminals :: "phrase \<Rightarrow> nat" where
  "GetNumTerminals p = fold (\<lambda>w ret. if \<not> IsNonTerminal w then ret + 1 else ret) p 0"

section \<open>Contains\<close>

text \<open>The string of a factor is the parameter str; a missing factor is a null pointer.\<close>

definition match_word :: "(factor \<Rightarrow> string) \<Rightarrow> phrase \<Rightarrow> string list list \<Rightarrow> nat \<Rightarrow> nat \<Rightarrow> nat \<Rightarrow> nat \<Rightarrow> bool result" where
  "match_word str p sub start factorType k j =
     rbind (array_get sub j) (\<lambda>ws. rbind (array_get ws k) (\<lambda>subStr.
     rbind (phrase_GetFactor p (j + start) factorType) (\<lambda>f.
       case f of None \<Rightarrow> Inl NullPointer | Some f \<Rightarrow> Inr (subStr = str f))))"

definition match_at :: "(factor \<Rightarrow> string) \<Rightarrow> phrase \<Rightarrow> string list list \<Rightarrow> nat list \<Rightarrow> nat \<Rightarrow> bool result" where
  "match_at str p sub inputFactor start =
     rfold (\<lambda>(k, factorType) match. if \<not> match then Inr False else
         rfold (\<lambda>j match. if \<not> match then Inr False else match_word str p sub start factorType k j)
           [0..<length sub] True)
       (enumerate 0 inputFactor) True"

definition Contains :: "(factor \<Rightarrow> string) \<Rightarrow> phrase \<Rightarrow> string list list \<Rightarrow> nat list \<Rightarrow> bool result" where
  "Contains str p sub inputFactor =
     (if length sub > length p then Inr False
      else rfold (\<lambda>start found. if found then Inr True else match_at str p sub inputFactor start)
             [0..<length p - length sub + 1] False)"

section \<open>Comparison\<close>

fun compare_words :: "phrase \<Rightarrow> phrase \<Rightarrow> int" where
  "compare_words (w # ws) (v # vs) = (let r = Word_Compare w v in if r \<noteq> 0 then r else compare_words ws vs)"
| "compare_words _ _ = 0"

definition Phrase_Compare :: "phrase \<Rightarrow> phrase \<Rightarrow> int" where
  "Phrase_Compare p other =
     (if length p \<noteq> length other then (if length p < length other then -1 else 1)
      else compare_words p other)"

definition phrase_less :: "phrase \<Rightarrow> phrase \<Rightarrow> bool" where
  "phrase_less p q \<longleftrightarrow> Phrase_Compare p q < 0"

section \<open>Merging\<close>

lemma GetFactor_SetFactor:
  "j < MAX_NUM_FACTORS \<Longrightarrow> GetFactor (SetFactor w i f) j = (if j = i then f else GetFactor w j)"
  by (auto simp: GetFactor_def SetFactor_def nth_list_update)

lemma SetFactor_IsNonTerminal [simp]: "IsNonTerminal (SetFactor w i f) = IsNonTerminal w"
  by (simp add: SetFactor_def)

definition merged :: "phrase \<Rightarrow> phrase \<Rightarrow> nat \<Rightarrow> nat \<Rightarrow> factor option" where
  "merged p copy pos i = (case GetFactor (copy ! pos) i of None \<Rightarrow> GetFactor (p ! pos) i | Some f \<Rightarrow> Some f)"

lemma merge_cells:
  assumes "length copy = length p" "\<forall>(pos, i) \<in> set cells. pos < length p \<and> i < MAX_NUM_FACTORS"
  shows "\<exists>r. rfold (\<lambda>(pos, i) p. rbind (phrase_GetFactor copy pos i) (\<lambda>factor.
        case factor of None \<Rightarrow> Inr p | Some f \<Rightarrow> phrase_SetFactor p pos i (Some f))) cells p = Inr r
    \<and> length r = length p \<and> map IsNonTerminal r = map IsNonTerminal p
    \<and> (\<forall>pos < length p. \<forall>i < MAX_NUM_FACTORS. GetFactor (r ! pos) i
         = (if (pos, i) \<in> set cells then merged p copy pos i else GetFactor (p ! pos) i))"
  using assms
proof (induction cells arbitrary: p)
  case (Cons cell cells)
  obtain pos i where cell: "cell = (pos, i)" by (cases cell)
  have b: "pos < length p" "pos < length copy" "i < MAX_NUM_FACTORS" using Cons.prems cell by auto
  let ?p = "case GetFactor (copy ! pos) i of None \<Rightarrow> p | Some f \<Rightarrow> p[pos := SetFactor (p ! pos) i (Some f)]"
  have p: "length ?p = length p" "map IsNonTerminal ?p = map IsNonTerminal p"
    using b(1) by (auto simp: map_update list_update_same_conv split: option.splits)
  have at: "GetFactor (?p ! q) j = (if (q, j) = (pos, i) then merged p copy pos i else GetFactor (p ! q) j)"
    if "j < MAX_NUM_FACTORS" for q j
    using that b(1) by (auto simp: merged_def GetFactor_SetFactor nth_list_update split: option.splits)
  have step: "rbind (phrase_GetFactor copy pos i) (\<lambda>factor.
        case factor of None \<Rightarrow> Inr p | Some f \<Rightarrow> phrase_SetFactor p pos i (Some f)) = Inr ?p"
    using b by (simp add: phrase_GetFactor_def phrase_SetFactor_def split: option.split)
  have prems: "length copy = length ?p" "\<forall>(pos, i) \<in> set cells. pos < length ?p \<and> i < MAX_NUM_FACTORS"
    using Cons.prems unfolding p(1) by auto
  obtain r where r: "rfold (\<lambda>(pos, i) p. rbind (phrase_GetFactor copy pos i) (\<lambda>factor.
        case factor of None \<Rightarrow> Inr p | Some f \<Rightarrow> phrase_SetFactor p pos i (Some f))) cells ?p = Inr r"
      "length r = length ?p" "map IsNonTerminal r = map IsNonTerminal ?p"
      "\<forall>pos < length ?p. \<forall>i < MAX_NUM_FACTORS. GetFactor (r ! pos) i
         = (if (pos, i) \<in> set cells then merged ?p copy pos i else GetFactor (?p ! pos) i)"
    using Cons.IH [OF prems] by blast
  have "merged ?p copy q j = merged p copy q j" if "j < MAX_NUM_FACTORS" for q j
    using at [OF that, of q] unfolding merged_def by (auto split: option.splits)
  then have "\<forall>q < length p. \<forall>j < MAX_NUM_FACTORS. GetFactor (r ! q) j
         = (if (q, j) \<in> set (cell # cells) then merged p copy q j else GetFactor (p ! q) j)"
    using r(4) at cell unfolding p(1) by auto
  then show ?case using step r(1-3) p cell by (intro exI [of _ r]) simp
qed simp

lemma MergeFactors_cells:
  assumes "length p = length copy"
  shows "\<exists>r. MergeFactors p copy = Inr r \<and> length r = length p \<and> map IsNonTerminal r = map IsNonTerminal p
    \<and> (\<forall>pos < length p. \<forall>i < MAX_NUM_FACTORS. GetFactor (r ! pos) i = merged p copy pos i)"
proof -
  let ?step = "\<lambda>pos i p. rbind (phrase_GetFactor copy pos i) (\<lambda>factor.
        case factor of None \<Rightarrow> Inr p | Some f \<Rightarrow> phrase_SetFactor p pos i (Some f))"
  let ?cells = "concat (map (\<lambda>pos. map (Pair pos) [0..<MAX_NUM_FACTORS]) [0..<length p])"
  have inner: "rfold (?step pos) is s = rfold (\<lambda>(pos, i). ?step pos i) (map (Pair pos) is) s" for pos "is" s
    by (induction "is" arbitrary: s) (auto simp: rbind_def split: sum.splits)
  have "rfold (\<lambda>pos. rfold (?step pos) [0..<MAX_NUM_FACTORS]) [0..<length p] p = rfold (\<lambda>(pos, i). ?step pos i) ?cells p"
    by (rule rfold_concat) (rule inner)
  then have "MergeFactors p copy = rfold (\<lambda>(pos, i). ?step pos i) ?cells p"
    using assms by (simp add: MergeFactors_def)
  moreover have "\<forall>(pos, i) \<in> set ?cells. pos < length p \<and> i < MAX_NUM_FACTORS" by auto
  moreover have "(pos, i) \<in> set ?cells" if "pos < length p" "i < MAX_NUM_FACTORS" for pos i
    using that by (auto intro!: bexI [of _ pos])
  ultimately show ?thesis using merge_cells [of copy p ?cells] assms by (simp del: set_concat)
qed

section \<open>Loops with a flag\<close>

lemma rfold_all:
  "(\<And>x. x \<in> set xs \<Longrightarrow> f x = Inr (P x)) \<Longrightarrow>
     rfold (\<lambda>x ok. if \<not> ok then Inr False else f x) xs b = Inr (b \<and> (\<forall>x \<in> set xs. P x))"
  by (induction xs arbitrary: b) auto

lemma rfold_any:
  "(\<And>x. x \<in> set xs \<Longrightarrow> f x = Inr (P x)) \<Longrightarrow>
     rfold (\<lambda>x found. if found then Inr True else f x) xs b = Inr (b \<or> (\<exists>x \<in> set xs. P x))"
  by (induction xs arbitrary: b) auto

lemma enumerate_all: "(\<forall>x \<in> set (enumerate 0 xs). Q (fst x) (snd x)) \<longleftrightarrow> (\<forall>k < length xs. Q k (xs ! k))"
proof -
  have "set (enumerate 0 xs) = (\<lambda>k. (k, xs ! k)) ` {..<length xs}"
    by (auto simp: in_set_enumerate_eq image_iff)
  then show ?thesis by auto
qed

section \<open>The order of phrases\<close>

text \<open>
  On words with the same active factors the comparison is the one of a key: the non-terminals first, then the
  factors.
\<close>

definition word_key :: "word \<Rightarrow> nat list" where
  "word_key w = (if IsNonTerminal w then 0 else 1) # List.map_filter (GetFactor w) [0..<MAX_NUM_FACTORS]"

definition phrase_key :: "phrase \<Rightarrow> nat \<times> nat list list" where
  "phrase_key p = (length p, map word_key p)"

lemma compare_factors_key:
  assumes "\<forall>i \<in> set is. (GetFactor w i = None) = (GetFactor v i = None)"
  shows "(compare_factors w v is < 0 \<longleftrightarrow> List.map_filter (GetFactor w) is < List.map_filter (GetFactor v) is)
    \<and> (compare_factors w v is = 0 \<longleftrightarrow> List.map_filter (GetFactor w) is = List.map_filter (GetFactor v) is)"
  using assms by (induction "is") (auto simp: map_filter_simps split: option.splits)

lemma Word_Compare_key:
  assumes "active w = active v"
  shows "(Word_Compare w v < 0 \<longleftrightarrow> word_key w < word_key v) \<and> (Word_Compare w v = 0 \<longleftrightarrow> word_key w = word_key v)"
proof -
  have "\<forall>i \<in> set [0..<MAX_NUM_FACTORS]. (GetFactor w i = None) = (GetFactor v i = None)"
    using assms unfolding active_def set_eq_iff mem_Collect_eq by (metis atLeastLessThan_iff set_upt)
  from compare_factors_key [OF this] show ?thesis by (auto simp: Word_Compare_def word_key_def)
qed

lemma compare_words_key:
  assumes "length p = length q" "\<forall>w \<in> set p \<union> set q. active w = act"
  shows "(compare_words p q < 0 \<longleftrightarrow> map word_key p < map word_key q) \<and> (compare_words p q = 0 \<longleftrightarrow> map word_key p = map word_key q)"
  using assms
proof (induction p q rule: list_induct2)
  case (Cons w ws v vs)
  then have "active w = active v" by simp
  from Word_Compare_key [OF this] Cons show ?case by (auto simp: Let_def)
qed simp

lemma phrase_less_key:
  assumes "\<forall>w \<in> set p \<union> set q. active w = act"
  shows "phrase_less p q \<longleftrightarrow> phrase_key p < phrase_key q"
  using compare_words_key [OF _ assms]
  by (auto simp: phrase_less_def Phrase_Compare_def phrase_key_def less_prod_def')

lemma Phrase_Compare_key:
  assumes "\<forall>w \<in> set p \<union> set q. active w = act"
  shows "Phrase_Compare p q = 0 \<longleftrightarrow> phrase_key p = phrase_key q"
  using compare_words_key [OF _ assms] by (auto simp: Phrase_Compare_def phrase_key_def)

text \<open>The container laws hold for phrases whose words have the same active factors.\<close>

lemma phrase_order:
  "ordered_by (\<lambda>p q. Inr (phrase_less p q)) (\<lambda>p q. phrase_key p < phrase_key q) (\<lambda>p. \<forall>w \<in> set p. active w = act)"
proof
  fix p q r :: phrase
  assume "\<forall>w \<in> set p. active w = act" "\<forall>w \<in> set q. active w = act"
  then have "\<forall>w \<in> set p \<union> set q. active w = act" by auto
  from phrase_less_key [OF this] show "(Inr (phrase_less p q) :: bool result) = Inr (phrase_key p < phrase_key q)" by simp
next
  fix p q r :: phrase
  show "\<not> phrase_key p < phrase_key p" by simp
  show "phrase_key p < phrase_key q \<Longrightarrow> phrase_key q < phrase_key r \<Longrightarrow> phrase_key p < phrase_key r" by (rule order_less_trans)
  show "phrase_key p < phrase_key r \<Longrightarrow> phrase_key p < phrase_key q \<or> phrase_key q < phrase_key r" by auto
qed

interpretation phrases: ordered_by "\<lambda>p q. Inr (phrase_less p q)" "\<lambda>p q. phrase_key p < phrase_key q"
  "\<lambda>p. \<forall>w \<in> set p. active w = act" for act :: "nat set"
  by (rule phrase_order)

section \<open>Properties\<close>

text \<open>
  Merging the factors of two phrases of the same length gives at every position the other phrase's factor where it has
  one and the phrase's own factor elsewhere; IsCompatible holds exactly when no factor of the phrase is
  lost by the merge. Phrases of different lengths fail the check.
\<close>

theorem MergeFactors_compatible:
  "(if length p \<noteq> length copy then MergeFactors p copy = Inl CheckFailed \<and> \<not> IsCompatible p copy
    else \<exists>r. MergeFactors p copy = Inr r \<and> length r = length p \<and> map IsNonTerminal r = map IsNonTerminal p
      \<and> (\<forall>pos < length p. \<forall>i < MAX_NUM_FACTORS. GetFactor (r ! pos) i
           = (case GetFactor (copy ! pos) i of None \<Rightarrow> GetFactor (p ! pos) i | Some f \<Rightarrow> Some f))
      \<and> (IsCompatible p copy \<longleftrightarrow> (\<forall>pos < length p. \<forall>i < MAX_NUM_FACTORS.
           GetFactor (p ! pos) i \<noteq> None \<longrightarrow> GetFactor (r ! pos) i = GetFactor (p ! pos) i)))"
proof (cases "length p = length copy")
  case True
  then obtain r where r: "MergeFactors p copy = Inr r" "length r = length p" "map IsNonTerminal r = map IsNonTerminal p"
    "\<forall>pos < length p. \<forall>i < MAX_NUM_FACTORS. GetFactor (r ! pos) i = merged p copy pos i"
    using MergeFactors_cells by blast
  have "IsCompatible p copy \<longleftrightarrow> (\<forall>pos < length p. \<forall>i < MAX_NUM_FACTORS.
           GetFactor (p ! pos) i \<noteq> None \<longrightarrow> merged p copy pos i = GetFactor (p ! pos) i)"
  proof -
    have one: "\<not> (GetFactor (p ! pos) i \<noteq> None \<and> GetFactor (copy ! pos) i \<noteq> None \<and> GetFactor (p ! pos) i \<noteq> GetFactor (copy ! pos) i)
        \<longleftrightarrow> (GetFactor (p ! pos) i \<noteq> None \<longrightarrow> merged p copy pos i = GetFactor (p ! pos) i)" for pos i
      by (cases "GetFactor (copy ! pos) i") (auto simp: merged_def)
    show ?thesis unfolding IsCompatible_def one using True by (simp add: list_all_iff Ball_def)
  qed
  then show ?thesis using True r by (simp add: merged_def)
qed (simp add: MergeFactors_def IsCompatible_def check_def)

lemma MergeFactors_compatible_witness:
  "\<exists>r. MergeFactors [\<lparr>w_factors = [Some 1], w_isNonTerminal = False\<rparr>]
     [\<lparr>w_factors = [None, Some 2], w_isNonTerminal = False\<rparr>] = Inr r"
  using MergeFactors_compatible [of "[\<lparr>w_factors = [Some 1], w_isNonTerminal = False\<rparr>]"
      "[\<lparr>w_factors = [None, Some 2], w_isNonTerminal = False\<rparr>]"] by auto

text \<open>
  Contains finds a phrase given by the strings of its factors exactly when it occurs somewhere, for the
  factor types it is asked to compare; the empty phrase occurs in every phrase, and a longer one in none.
\<close>

theorem Contains_correct:
  assumes "\<forall>ws \<in> set sub. length inputFactor \<le> length ws"
    and "\<forall>w \<in> set p. \<forall>t \<in> set inputFactor. t < MAX_NUM_FACTORS \<and> GetFactor w t \<noteq> None"
  shows "Contains str p sub inputFactor = Inr (\<exists>start. start + length sub \<le> length p \<and>
    (\<forall>j < length sub. \<forall>k < length inputFactor. sub ! j ! k = str (the (GetFactor (p ! (start + j)) (inputFactor ! k)))))"
proof -
  let ?eq = "\<lambda>start k j. sub ! j ! k = str (the (GetFactor (p ! (start + j)) (inputFactor ! k)))"
  have word: "match_word str p sub start (inputFactor ! k) k j = Inr (?eq start k j)"
    if "start + length sub \<le> length p" "k < length inputFactor" "j < length sub" for start k j
  proof -
    have "k < length (sub ! j)" using assms(1) that(2,3) by (meson le_less_trans less_le_trans nth_mem)
    moreover have "p ! (start + j) \<in> set p" "inputFactor ! k \<in> set inputFactor" using that by auto
    then have "inputFactor ! k < MAX_NUM_FACTORS" "GetFactor (p ! (start + j)) (inputFactor ! k) \<noteq> None"
      using assms(2) by blast+
    ultimately show ?thesis
      using that by (auto simp: match_word_def phrase_GetFactor_def add.commute)
  qed
  have at: "match_at str p sub inputFactor start = Inr (\<forall>j < length sub. \<forall>k < length inputFactor. ?eq start k j)"
    if start: "start + length sub \<le> length p" for start
  proof -
    have loop: "rfold (\<lambda>j match. if \<not> match then Inr False else match_word str p sub start (inputFactor ! k) k j) [0..<length sub] True
        = Inr (\<forall>j < length sub. ?eq start k j)" if "k < length inputFactor" for k
      using rfold_all [of "[0..<length sub]" _ "?eq start k" True] word [OF start that] by (simp add: Ball_def)
    have "match_at str p sub inputFactor start = Inr (True \<and> (\<forall>x \<in> set (enumerate 0 inputFactor). \<forall>j < length sub. ?eq start (fst x) j))"
      unfolding match_at_def case_prod_unfold by (rule rfold_all) (clarsimp simp: in_set_enumerate_eq, unfold fst_conv snd_conv, erule loop)
    then show ?thesis
      using enumerate_all [of inputFactor "\<lambda>k t. \<forall>j < length sub. ?eq start k j"] by auto
  qed
  show ?thesis
  proof (cases "length sub > length p")
    case False
    have "Contains str p sub inputFactor
        = Inr (False \<or> (\<exists>start \<in> set [0..<length p - length sub + 1]. \<forall>j < length sub. \<forall>k < length inputFactor. ?eq start k j))"
      unfolding Contains_def using False by (simp only: if_False) (rule rfold_any, rule at, use False in auto)
    also have "start \<in> set [0..<length p - length sub + 1] \<longleftrightarrow> start + length sub \<le> length p" for start
      using False by auto
    then have "(False \<or> (\<exists>start \<in> set [0..<length p - length sub + 1]. \<forall>j < length sub. \<forall>k < length inputFactor. ?eq start k j))
        \<longleftrightarrow> (\<exists>start. start + length sub \<le> length p \<and> (\<forall>j < length sub. \<forall>k < length inputFactor. ?eq start k j))"
      by blast
    finally show ?thesis by simp
  qed (auto simp: Contains_def)
qed

lemma Contains_correct_witness:
  "Contains (\<lambda>f. if f = 7 then ''a'' else ''b'') [\<lparr>w_factors = [Some 5], w_isNonTerminal = False\<rparr>, \<lparr>w_factors = [Some 7], w_isNonTerminal = False\<rparr>]
     [[''a'']] [0] = Inr True"
  by (subst Contains_correct) (auto simp: GetFactor_def MAX_NUM_FACTORS_def nth_Cons' intro!: exI [of _ 1])

end
