(* ===== verification/Trellis.thy ===== *)
theory Trellis
  imports Phrases HypoColl RuleCubes
begin

text \<open>
  The n-best list of the chart decoder (ChartTrellisNode, ChartTrellisPath,
  ChartTrellisDetour, ChartTrellisDetourQueue, and CreateDeviantPaths and CalcNBest of ChartManager.cpp).

  A path is a tree of nodes over hypotheses. Nodes are compared by their addresses in the
  source; here a node of a path is named by its position, the list of child indices that
  leads to it from the final node. Hypotheses are compared by their identifiers.
\<close>

section \<open>Nodes\<close>

datatype 's trellis = Trellis (tn_hypo: "'s hypo") (tn_children: "'s trellis list")

type_synonym position = "nat list"

text \<open>The constructor from a hypothesis, with CreateChildren.\<close>

fun new_node :: "'s hypo \<Rightarrow> 's trellis" where
  "new_node (Hypo i tp r st bd sc arcs prev win) = Trellis (Hypo i tp r st bd sc arcs prev win) (map new_node prev)"

text \<open>
  The constructor that copies the node at position here with the node at position target replaced; dev is
  the deviation point found so far. CreateChildren copies the children from number i on.
\<close>

fun copy_node :: "position \<Rightarrow> 's trellis \<Rightarrow> position \<Rightarrow> 's hypo \<Rightarrow> position option \<Rightarrow> 's trellis \<times> position option"
  and copy_children :: "position \<Rightarrow> nat \<Rightarrow> 's trellis list \<Rightarrow> position \<Rightarrow> 's hypo \<Rightarrow> position option
    \<Rightarrow> 's trellis list \<times> position option" where
  "copy_node here (Trellis h cs) target replacementHypo dev =
     (if here = target then (new_node replacementHypo, Some here)
      else case copy_children here 0 cs target replacementHypo dev of (cs', dev') \<Rightarrow> (Trellis h cs', dev'))"
| "copy_children here i [] target replacementHypo dev = ([], dev)"
| "copy_children here i (c # cs) target replacementHypo dev =
     (case copy_node (here @ [i]) c target replacementHypo dev of (c', dev1) \<Rightarrow>
      case copy_children here (Suc i) cs target replacementHypo dev1 of (cs', dev2) \<Rightarrow> (c' # cs', dev2))"

text \<open>The constructor from a detour: the final node of the base path, the substituted node and the replacement.\<close>

definition detour_node :: "'s trellis \<Rightarrow> position \<Rightarrow> 's hypo \<Rightarrow> 's trellis \<times> position option" where
  "detour_node final target replacementHypo =
     (let hypo = (if target = [] then replacementHypo else tn_hypo final) in
      if h_id hypo = h_id replacementHypo then (new_node hypo, Some [])
      else case copy_children [] 0 (tn_children final) target replacementHypo None of (cs', dev) \<Rightarrow> (Trellis hypo cs', dev))"

fun node_at :: "'s trellis \<Rightarrow> position \<Rightarrow> 's trellis result" where
  "node_at t [] = Inr t"
| "node_at t (i # is) = rbind (array_get (tn_children t) i) (\<lambda>c. node_at c is)"

fun trellis_output :: "'s trellis \<Rightarrow> phrase result" where
  "trellis_output (Trellis h cs) = output_phrase (map trellis_output cs) (h_tp h)"

section \<open>Paths and detours\<close>

record 's trellis_path =
  pt_final :: "'s trellis"
  pt_deviation :: "position option"
  pt_breakdown :: "real list"
  pt_total :: score

record 's detour =
  dt_base :: "'s trellis_path"
  dt_substituted :: position
  dt_replacement :: "'s hypo"
  dt_total :: score

definition path_of_hypo :: "'s hypo \<Rightarrow> 's trellis_path" where
  "path_of_hypo hypo = \<lparr>pt_final = new_node hypo, pt_deviation = None, pt_breakdown = h_breakdown hypo,
     pt_total = GetTotalScore hypo\<rparr>"

text \<open>The hypothesis of the substituted node is an argument of the constructor of a detour.\<close>

definition ChartTrellisDetour :: "'s trellis_path \<Rightarrow> position \<Rightarrow> 's hypo \<Rightarrow> 's hypo \<Rightarrow> 's detour" where
  "ChartTrellisDetour basePath substitutedNode substitutedHypo replacementHypo =
     \<lparr>dt_base = basePath, dt_substituted = substitutedNode, dt_replacement = replacementHypo,
      dt_total = pt_total basePath + score_minus (GetTotalScore replacementHypo) (GetTotalScore substitutedHypo)\<rparr>"

text \<open>
  The path of a detour. The deviation point has no initial value in the source; when no node has set it, its value is
  indeterminate, which the model takes as a failing check.
\<close>

definition path_of_detour :: "real list \<Rightarrow> 's detour \<Rightarrow> 's trellis_path result" where
  "path_of_detour weights detour =
     (case detour_node (pt_final (dt_base detour)) (dt_substituted detour) (dt_replacement detour) of (final, dev) \<Rightarrow>
        rbind (check (dev \<noteq> None)) (\<lambda>_.
        rbind (node_at (pt_final (dt_base detour)) (dt_substituted detour)) (\<lambda>substituted.
        rbind (MinusEquals (h_breakdown (dt_replacement detour)) (h_breakdown (tn_hypo substituted))) (\<lambda>scoreChange.
        rbind (PlusEquals (pt_breakdown (dt_base detour)) scoreChange) (\<lambda>bd.
          Inr \<lparr>pt_final = final, pt_deviation = dev, pt_breakdown = bd,
               pt_total = Fin (GetWeightedScore weights bd)\<rparr>)))))"

definition path_output :: "'s trellis_path \<Rightarrow> phrase result" where
  "path_output path = trellis_output (pt_final path)"

section \<open>The queue of detours\<close>

text \<open>The multiset orders by descending score; a new element comes after its equals. Capacity 0 is unbounded.\<close>

fun queue_insert :: "'s detour \<Rightarrow> 's detour list \<Rightarrow> 's detour list" where
  "queue_insert d [] = [d]"
| "queue_insert d (x # xs) = (if dt_total d > dt_total x then d # x # xs else x # queue_insert d xs)"

definition Push :: "nat \<Rightarrow> 's detour \<Rightarrow> 's detour list \<Rightarrow> 's detour list" where
  "Push capacity detour queue =
     (if capacity = 0 \<or> length queue < capacity then queue_insert detour queue
      else if dt_total detour > dt_total (last queue) then queue_insert detour (butlast queue)
      else queue)"

fun queue_PopDetour :: "'s detour list \<Rightarrow> ('s detour \<times> 's detour list) result" where
  "queue_PopDetour [] = Inl EmptyContainer"
| "queue_PopDetour (d # ds) = Inr (d, ds)"

text \<open>CreateDeviantPaths: the arcs of a node, then its children.\<close>

fun CreateDeviantPaths :: "'s trellis_path \<Rightarrow> position \<Rightarrow> 's trellis \<Rightarrow> nat \<Rightarrow> 's detour list \<Rightarrow> 's detour list"
  and deviant_children :: "'s trellis_path \<Rightarrow> position \<Rightarrow> nat \<Rightarrow> 's trellis list \<Rightarrow> nat \<Rightarrow> 's detour list \<Rightarrow> 's detour list" where
  "CreateDeviantPaths basePath here (Trellis h cs) capacity queue =
     deviant_children basePath here 0 cs capacity
       (fold (\<lambda>replacement. Push capacity (ChartTrellisDetour basePath here h replacement))
         (case h_arcs h of None \<Rightarrow> [] | Some arcList \<Rightarrow> arcList) queue)"
| "deviant_children basePath here i [] capacity queue = queue"
| "deviant_children basePath here i (c # cs) capacity queue =
     deviant_children basePath here (Suc i) cs capacity (CreateDeviantPaths basePath (here @ [i]) c capacity queue)"

section \<open>CalcNBest\<close>

text \<open>The limit of pops: a size\_t product when only distinct translations are wanted.\<close>

definition nbest_popLimit :: "nat \<Rightarrow> bool \<Rightarrow> nat \<Rightarrow> nat" where
  "nbest_popLimit wanted onlyDistinct nBestFactor =
     (if \<not> onlyDistinct then wanted - 1
      else if nBestFactor = 0 then (wanted * 1000) mod SIZE_RANGE
      else (wanted * nBestFactor) mod SIZE_RANGE)"

text \<open>The main loop; the first number is the pops that are left.\<close>

fun nbest_loop :: "real list \<Rightarrow> nat \<Rightarrow> nat \<Rightarrow> bool \<Rightarrow> nat \<Rightarrow> 's detour list \<Rightarrow> phrase list \<Rightarrow> 's trellis_path list
    \<Rightarrow> 's trellis_path list result" where
  "nbest_loop weights capacity wanted onlyDistinct 0 contenders seen found = Inr found"
| "nbest_loop weights capacity wanted onlyDistinct (Suc k) contenders seen found =
     (if \<not> (length found < wanted \<and> contenders \<noteq> []) then Inr found
      else rbind (queue_PopDetour contenders) (\<lambda>(detour, rest).
           rbind (path_of_detour weights detour) (\<lambda>basePath.
           case pt_deviation basePath of
             None \<Rightarrow> Inl CheckFailed
           | Some deviation \<Rightarrow>
               rbind (node_at (pt_final basePath) deviation) (\<lambda>node.
                 let contenders' = CreateDeviantPaths basePath deviation node capacity rest in
                 if \<not> onlyDistinct
                 then nbest_loop weights capacity wanted onlyDistinct k contenders' seen (found @ [basePath])
                 else rbind (path_output basePath) (\<lambda>tgtPhrase.
                      rbind (set_insert (\<lambda>p q. Inr (phrase_less p q)) tgtPhrase seen) (\<lambda>(seen', existing).
                        nbest_loop weights capacity wanted onlyDistinct k contenders' seen'
                          (if existing = None then found @ [basePath] else found)))))))"

text \<open>The best hypothesis of the last cell is an argument.\<close>

definition CalcNBest :: "real list \<Rightarrow> nat \<Rightarrow> 's hypo option result \<Rightarrow> nat \<Rightarrow> nat \<Rightarrow> bool \<Rightarrow> 's trellis_path list result" where
  "CalcNBest weights nBestFactor best sourceSize wanted onlyDistinct =
     (if wanted = 0 \<or> sourceSize = 0 then Inr []
      else rbind best (\<lambda>hypo.
        case hypo of
          None \<Rightarrow> Inr []
        | Some hypo \<Rightarrow>
            let basePath = path_of_hypo hypo in
            if wanted = 1 then Inr [basePath]
            else rbind (if onlyDistinct then rbind (path_output basePath) (\<lambda>p. Inr [p]) else Inr []) (\<lambda>seen.
              let popLimit = nbest_popLimit wanted onlyDistinct nBestFactor in
              nbest_loop weights popLimit wanted onlyDistinct popLimit
                (CreateDeviantPaths basePath [] (pt_final basePath) popLimit []) seen [basePath])))"

end
