(* ===== verification/TrellisProps.thy ===== *)
theory TrellisProps
  imports Trellis HypoCollProps
begin

text \<open>
  The n-best list of the chart decoder: every path is a derivation of the best hypothesis with
  some hypotheses replaced by arcs, its score is the sum of the scores of its rule
  applications, and the paths come in descending order of their scores.
\<close>

section \<open>The hypotheses below a hypothesis\<close>

fun reachable :: "'s hypo \<Rightarrow> 's hypo list" where
  "reachable (Hypo i tp r st bd sc arcs prev win) =
     Hypo i tp r st bd sc arcs prev win #
       concat (map reachable (case arcs of None \<Rightarrow> [] | Some l \<Rightarrow> l)) @ concat (map reachable prev)"

definition below :: "'s hypo \<Rightarrow> 's hypo list" where
  "below h = concat (map reachable (h_prev h))"

lemma reachable_simps: "set (reachable h) = {h} \<union> (\<Union>a \<in> set (arcs_of h). set (reachable a)) \<union> set (below h)"
proof (cases h)
  case (Hypo i tp r st bd sc arcs prev win)
  show ?thesis
  proof (cases arcs)
    case None
    show ?thesis
      unfolding Hypo None arcs_of_def below_def hypo.sel option.case reachable.simps list.map concat.simps append_Nil by simp
  next
    case (Some l)
    show ?thesis
      unfolding Hypo Some arcs_of_def below_def hypo.sel option.case reachable.simps list.map set_append set_concat set_map set_simps
      by blast
  qed
qed

lemma reachable_refl [simp]: "h \<in> set (reachable h)"
  by (subst reachable_simps) simp

lemma reachable_arcs: "a \<in> set (arcs_of h) \<Longrightarrow> set (reachable a) \<subseteq> set (reachable h)"
  by (subst (2) reachable_simps) auto

lemma below_reachable: "set (below h) \<subseteq> set (reachable h)"
  by (subst reachable_simps) auto

lemma reachable_prev: "p \<in> set (h_prev h) \<Longrightarrow> set (reachable p) \<subseteq> set (below h)"
  by (auto simp: below_def)

lemma reachable_trans: "g \<in> set (reachable h) \<Longrightarrow> set (reachable g) \<subseteq> set (reachable h)"
proof (induction h rule: reachable.induct)
  case (1 i tp r st bd sc arcs prev win)
  let ?h = "Hypo i tp r st bd sc arcs prev win"
  consider "g = ?h" | a where "a \<in> set (arcs_of ?h)" "g \<in> set (reachable a)" | p where "p \<in> set prev" "g \<in> set (reachable p)"
    using "1.prems" by (auto simp: arcs_of_def)
  then show ?case
  proof cases
    case 2
    then have "set (reachable g) \<subseteq> set (reachable a)" using "1.IH"(1) by (auto simp: arcs_of_def)
    then show ?thesis using reachable_arcs [OF 2(1)] by blast
  next
    case 3
    then have "set (reachable g) \<subseteq> set (reachable p)" using "1.IH"(2) by simp
    moreover have "set (reachable p) \<subseteq> set (reachable ?h)" using 3(1) by auto
    ultimately show ?thesis by blast
  qed simp
qed

section \<open>Trees\<close>

fun replace_at :: "'s trellis \<Rightarrow> position \<Rightarrow> 's trellis \<Rightarrow> 's trellis" where
  "replace_at t [] x = x"
| "replace_at (Trellis h cs) (i # q) x = Trellis h (cs[i := replace_at (cs ! i) q x])"

text \<open>Copying with a replacement, described by replace\_at.\<close>

lemma copy_other:
  "\<not> (\<exists>q. target = here @ q) \<Longrightarrow> copy_node here t target rep dev = (t, dev)"
  "(\<forall>j q. i \<le> j \<longrightarrow> target \<noteq> here @ j # q) \<Longrightarrow> copy_children here i cs target rep dev = (cs, dev)"
proof (induction here t target rep dev and here i cs target rep dev rule: copy_node_copy_children.induct)
  case (1 here h cs target rep dev)
  have "here \<noteq> target" "\<forall>j q. 0 \<le> j \<longrightarrow> target \<noteq> here @ j # q" using "1.prems" by auto
  then show ?case using "1.IH" by simp
next
  case (3 here i c cs target rep dev)
  have "\<not> (\<exists>q. target = (here @ [i]) @ q)" "\<forall>j q. Suc i \<le> j \<longrightarrow> target \<noteq> here @ j # q" using "3.prems" by auto
  then show ?case using "3.IH" by simp
qed simp

lemma copy_at:
  "node_at t q = Inr s \<Longrightarrow> copy_node here t (here @ q) rep dev = (replace_at t q (new_node rep), Some (here @ q))"
proof (induction q arbitrary: t here dev)
  case Nil
  obtain h cs where "t = Trellis h cs" by (cases t)
  then show ?case by simp
next
  case (Cons k q)
  note IH = Cons.IH
  obtain h cs where t: "t = Trellis h cs" by (cases t)
  have k: "k < length cs" "node_at (cs ! k) q = Inr s" using Cons.prems by (auto simp: t rbind_eq_Inr array_get_eq_Inr)
  have children: "copy_children here i ds (here @ k # q) rep dev
      = (ds[k - i := replace_at (ds ! (k - i)) q (new_node rep)], Some (here @ k # q))"
    if "i \<le> k" "k - i < length ds" "node_at (ds ! (k - i)) q = Inr s" for i ds dev
    using that
  proof (induction ds arbitrary: i dev)
    case (Cons d ds)
    show ?case
    proof (cases "k = i")
      case True
      have "copy_node (here @ [i]) d ((here @ [i]) @ q) rep dev = (replace_at d q (new_node rep), Some ((here @ [i]) @ q))"
        using Cons.prems True by (intro IH) simp
      moreover have "copy_children here (Suc i) ds (here @ k # q) rep dev' = (ds, dev')" for dev'
        by (rule copy_other(2)) (use True in auto)
      ultimately show ?thesis using True by simp
    next
      case False
      have "copy_node (here @ [i]) d (here @ k # q) rep dev = (d, dev)"
        by (rule copy_other(1)) (use False in auto)
      moreover have "copy_children here (Suc i) ds (here @ k # q) rep dev
          = (ds[k - Suc i := replace_at (ds ! (k - Suc i)) q (new_node rep)], Some (here @ k # q))"
        using Cons.prems False by (intro Cons.IH) (auto simp: nth_Cons' Suc_diff_Suc)
      moreover have "k - i = Suc (k - Suc i)" using False Cons.prems(1) by simp
      ultimately show ?thesis by simp
    qed
  qed simp
  have "here \<noteq> here @ k # q" by simp
  then show ?case using children [of 0 cs dev] k by (simp add: t)
qed

section \<open>Derivations and their scores\<close>

text \<open>A tree for a hypothesis: the hypothesis or one of its arcs, with trees for the hypotheses of its non-terminals.\<close>

inductive derivation :: "'s hypo \<Rightarrow> 's trellis \<Rightarrow> bool" where
  "g = h \<or> g \<in> set (arcs_of h) \<Longrightarrow> list_all2 derivation (h_prev g) cs \<Longrightarrow> derivation h (Trellis g cs)"

inductive_cases derivationE: "derivation h (Trellis g cs)"

fun fin_part :: "score \<Rightarrow> real" where
  "fin_part (Fin x) = x"
| "fin_part _ = 0"

text \<open>The score a hypothesis adds to those of its non-terminals, summed over a tree.\<close>

definition local_score :: "'s hypo \<Rightarrow> real" where
  "local_score h = fin_part (GetTotalScore h) - sum_list (map (\<lambda>p. fin_part (GetTotalScore p)) (h_prev h))"

fun tree_score :: "'s trellis \<Rightarrow> real" where
  "tree_score (Trellis h cs) = local_score h + sum_list (map tree_score cs)"

lemma new_node_simp: "new_node h = Trellis h (map new_node (h_prev h))"
  by (cases h) simp

lemma tn_hypo_new_node [simp]: "tn_hypo (new_node h) = h"
  by (subst new_node_simp) simp

lemma new_node_derivation: "derivation h (new_node h)"
proof (induction h rule: new_node.induct)
  case (1 i tp r st bd sc arcs prev win)
  then have "list_all2 derivation prev (map new_node prev)" by (simp add: list_all2_conv_all_nth)
  then show ?case by (auto intro: derivation.intros)
qed

lemma new_node_score: "tree_score (new_node h) = fin_part (GetTotalScore h)"
proof (induction h rule: new_node.induct)
  case (1 i tp r st bd sc arcs prev win)
  then have eq: "map (tree_score \<circ> new_node) prev = map (\<lambda>p. fin_part (GetTotalScore p)) prev" by simp
  show ?case unfolding new_node.simps tree_score.simps list.map_comp eq local_score_def by simp
qed

lemma node_at_append: "node_at t (p @ q) = rbind (node_at t p) (\<lambda>s. node_at s q)"
  by (induction p arbitrary: t) (auto simp: rbind_def split: sum.splits)

lemma node_at_replace: "node_at t q = Inr s \<Longrightarrow> node_at (replace_at t q x) q = Inr x"
proof (induction q arbitrary: t)
  case (Cons k q)
  obtain h cs where t: "t = Trellis h cs" by (cases t)
  have "k < length cs" "node_at (cs ! k) q = Inr s" using Cons.prems by (auto simp: t rbind_eq_Inr array_get_eq_Inr)
  then show ?case using Cons.IH by (simp add: t)
qed simp

lemma sum_list_update_real: "k < length xs \<Longrightarrow> sum_list (xs[k := x]) = sum_list xs - xs ! k + (x :: real)"
  by (induction xs arbitrary: k) (auto split: nat.splits)

lemma replace_score: "node_at t q = Inr s \<Longrightarrow> tree_score (replace_at t q x) = tree_score t - tree_score s + tree_score x"
proof (induction q arbitrary: t)
  case Nil
  then show ?case by simp
next
  case (Cons k q)
  obtain h cs where t: "t = Trellis h cs" by (cases t)
  have k: "k < length cs" "node_at (cs ! k) q = Inr s" using Cons.prems by (auto simp: t rbind_eq_Inr array_get_eq_Inr)
  show ?case using Cons.IH [OF k(2)] k(1) by (simp add: t map_update sum_list_update_real)
qed

text \<open>Where no arc has arcs of its own, replacing a node by an arc of its hypothesis gives a derivation.\<close>

definition flat_arcs :: "'s hypo \<Rightarrow> bool" where
  "flat_arcs h \<longleftrightarrow> (\<forall>g \<in> set (reachable h). \<forall>a \<in> set (arcs_of g). arcs_of a = [])"

lemma flat_arcs_reachable: "flat_arcs h \<Longrightarrow> g \<in> set (reachable h) \<Longrightarrow> flat_arcs g"
  unfolding flat_arcs_def using reachable_trans by blast

lemma derivation_hypo: "derivation h t \<Longrightarrow> tn_hypo t = h \<or> tn_hypo t \<in> set (arcs_of h)"
  by (cases t) (auto elim: derivationE)

lemma derivation_reachable: "derivation h t \<Longrightarrow> tn_hypo t \<in> set (reachable h)"
  using derivation_hypo [of h t] reachable_arcs [of "tn_hypo t" h] reachable_refl by blast

lemma derivation_child:
  assumes "derivation h t" "k < length (tn_children t)"
  shows "k < length (h_prev (tn_hypo t))" "derivation (h_prev (tn_hypo t) ! k) (tn_children t ! k)"
  using assms by (cases t, auto elim!: derivationE simp: list_all2_conv_all_nth)+

lemma derivation_node:
  assumes "derivation h t" "node_at t q = Inr s"
  shows "tn_hypo s \<in> set (reachable h) \<and> (q \<noteq> [] \<longrightarrow> set (reachable (tn_hypo s)) \<subseteq> set (below (tn_hypo t)))"
  using assms
proof (induction q arbitrary: h t)
  case Nil
  then show ?case using derivation_reachable by auto
next
  case (Cons k q)
  have k: "k < length (tn_children t)" "node_at (tn_children t ! k) q = Inr s"
    using Cons.prems(2) by (auto simp: rbind_eq_Inr array_get_eq_Inr)
  let ?p = "h_prev (tn_hypo t) ! k"
  have "tn_hypo s \<in> set (reachable ?p)" using Cons.IH [OF derivation_child(2) [OF Cons.prems(1) k(1)] k(2)] by blast
  moreover have "?p \<in> set (h_prev (tn_hypo t))" using derivation_child(1) [OF Cons.prems(1) k(1)] by simp
  ultimately have "set (reachable (tn_hypo s)) \<subseteq> set (below (tn_hypo t))"
    using reachable_trans reachable_prev by (metis subset_trans)
  moreover have "set (below (tn_hypo t)) \<subseteq> set (reachable h)"
    using below_reachable reachable_trans [OF derivation_reachable [OF Cons.prems(1)]] by blast
  ultimately show ?case using reachable_refl by blast
qed

lemma replace_derivation:
  assumes "derivation h t" "flat_arcs h" "node_at t q = Inr s" "a \<in> set (arcs_of (tn_hypo s))"
  shows "derivation h (replace_at t q (new_node a))"
  using assms
proof (induction q arbitrary: h t)
  case Nil
  then have s: "s = t" by simp
  have "tn_hypo t = h" using derivation_hypo [OF Nil(1)] Nil(2,4) s by (auto simp: flat_arcs_def dest: bspec [OF _ reachable_refl])
  then have "a \<in> set (arcs_of h)" using Nil(4) s by simp
  moreover obtain cs where "new_node a = Trellis a cs" "list_all2 derivation (h_prev a) cs"
    using new_node_derivation [of a] by (metis derivationE new_node_simp)
  ultimately show ?case by (auto intro: derivation.intros)
next
  case (Cons k q)
  obtain g cs where t: "t = Trellis g cs" by (cases t)
  have k: "k < length cs" "node_at (cs ! k) q = Inr s" using Cons.prems(3) by (auto simp: t rbind_eq_Inr array_get_eq_Inr)
  have g: "g = h \<or> g \<in> set (arcs_of h)" "list_all2 derivation (h_prev g) cs"
    using Cons.prems(1) by (auto simp: t elim: derivationE)
  have "g \<in> set (reachable h)" using derivation_reachable [OF Cons.prems(1)] by (simp add: t)
  moreover have "h_prev g ! k \<in> set (reachable g)"
    using g(2) k(1) reachable_prev [of "h_prev g ! k" g] below_reachable by (fastforce simp: list_all2_lengthD)
  ultimately have "flat_arcs (h_prev g ! k)" using flat_arcs_reachable Cons.prems(2) by metis
  then have "derivation (h_prev g ! k) (replace_at (cs ! k) q (new_node a))"
    using Cons.IH [OF _ _ k(2) Cons.prems(4)] g(2) k(1) by (simp add: list_all2_conv_all_nth)
  then have "list_all2 derivation (h_prev g) (cs[k := replace_at (cs ! k) q (new_node a)])"
    using g(2) k(1) by (auto simp: list_all2_conv_all_nth nth_list_update)
  then show ?case using g(1) by (auto simp: t intro: derivation.intros)
qed

text \<open>A subtree of a tree that is made from a hypothesis is one itself.\<close>

lemma new_node_at: "node_at (new_node g) q = Inr s \<Longrightarrow> s = new_node (tn_hypo s)"
proof (induction q arbitrary: g)
  case (Cons k q)
  then show ?case by (subst (asm) new_node_simp) (auto simp: rbind_eq_Inr array_get_eq_Inr)
qed auto

section \<open>Paths\<close>

text \<open>
  What the decoder guarantees of the best hypothesis: breakdowns of one length whose weighted sums are the
  scores, arcs without arcs that are no better than their winners, and identifiers that do not repeat along
  a derivation.
\<close>

definition scored :: "real list \<Rightarrow> nat \<Rightarrow> 's hypo \<Rightarrow> bool" where
  "scored weights n h \<longleftrightarrow> (\<forall>g \<in> set (reachable h). length (h_breakdown g) = n
     \<and> GetTotalScore g = Fin (GetWeightedScore weights (h_breakdown g))
     \<and> (\<forall>a \<in> set (arcs_of g). GetTotalScore a \<le> GetTotalScore g \<and> arcs_of a = [])
     \<and> (\<forall>x \<in> set (below g). h_id x \<noteq> h_id g))"

definition path_ok :: "real list \<Rightarrow> nat \<Rightarrow> 's hypo \<Rightarrow> 's trellis_path \<Rightarrow> bool" where
  "path_ok weights n h path \<longleftrightarrow> derivation h (pt_final path) \<and> length (pt_breakdown path) = n
     \<and> pt_total path = Fin (GetWeightedScore weights (pt_breakdown path)) \<and> pt_total path = Fin (tree_score (pt_final path))"

definition dev_of :: "'s trellis_path \<Rightarrow> position" where
  "dev_of path = (case pt_deviation path of None \<Rightarrow> [] | Some p \<Rightarrow> p)"

text \<open>Below its deviation point a path has no further deviation.\<close>

definition base_ok :: "real list \<Rightarrow> nat \<Rightarrow> 's hypo \<Rightarrow> 's trellis_path \<Rightarrow> bool" where
  "base_ok weights n h path \<longleftrightarrow> path_ok weights n h path \<and> (\<exists>g. node_at (pt_final path) (dev_of path) = Inr (new_node g))"

definition detour_ok :: "real list \<Rightarrow> nat \<Rightarrow> 's hypo \<Rightarrow> 's detour \<Rightarrow> bool" where
  "detour_ok weights n h d \<longleftrightarrow> path_ok weights n h (dt_base d) \<and>
     (\<exists>g. node_at (pt_final (dt_base d)) (dt_substituted d) = Inr (new_node g) \<and> dt_replacement d \<in> set (arcs_of g)
        \<and> dt_total d = pt_total (dt_base d) + score_minus (GetTotalScore (dt_replacement d)) (GetTotalScore g))"

lemma scoredD:
  assumes "scored weights n h" "g \<in> set (reachable h)"
  shows "length (h_breakdown g) = n" "GetTotalScore g = Fin (GetWeightedScore weights (h_breakdown g))"
    "a \<in> set (arcs_of g) \<Longrightarrow> GetTotalScore a \<le> GetTotalScore g" "x \<in> set (below g) \<Longrightarrow> h_id x \<noteq> h_id g"
  using assms unfolding scored_def by blast+

lemma scored_flat: "scored weights n h \<Longrightarrow> flat_arcs h"
  by (simp add: scored_def flat_arcs_def)

lemma path_of_hypo_ok: "scored weights n h \<Longrightarrow> base_ok weights n h (path_of_hypo h)"
  using scoredD(1,2) [of weights n h h] new_node_derivation [of h] new_node_score [of h]
  by (auto simp: base_ok_def path_ok_def path_of_hypo_def dev_of_def)

text \<open>The weighted score is linear.\<close>

lemma weighted_diff:
  "length a = length b \<Longrightarrow> GetWeightedScore ws (map2 (-) a b) = GetWeightedScore ws a - GetWeightedScore ws b"
proof (induction a b arbitrary: ws rule: list_induct2)
  case (Cons x xs y ys)
  show ?case
  proof (cases ws)
    case (Cons w ws')
    then show ?thesis using Cons.IH [of ws'] by (simp add: GetWeightedScore_def algebra_simps)
  qed (simp add: GetWeightedScore_def)
qed (simp add: GetWeightedScore_def)

lemma weighted_sum:
  "length a = length b \<Longrightarrow> GetWeightedScore ws (map2 (+) a b) = GetWeightedScore ws a + GetWeightedScore ws b"
proof (induction a b arbitrary: ws rule: list_induct2)
  case (Cons x xs y ys)
  show ?case
  proof (cases ws)
    case (Cons w ws')
    then show ?thesis using Cons.IH [of ws'] by (simp add: GetWeightedScore_def algebra_simps)
  qed (simp add: GetWeightedScore_def)
qed (simp add: GetWeightedScore_def)

text \<open>The tree of a detour.\<close>

lemma detour_node_replace:
  assumes "scored weights n h" "derivation h t" "node_at t q = Inr (new_node g)" "a \<in> set (arcs_of g)"
  shows "detour_node t q a = (replace_at t q (new_node a), Some q)"
proof (cases q)
  case Nil
  then show ?thesis by (simp add: detour_node_def)
next
  case (Cons k q')
  have "a \<in> set (below (tn_hypo t))"
    using derivation_node [OF assms(2,3)] Cons subsetD [OF reachable_arcs [OF assms(4)] reachable_refl] by auto
  then have "h_id a \<noteq> h_id (tn_hypo t)"
    using scoredD(4) [OF assms(1) derivation_reachable [OF assms(2)]] by blast
  moreover obtain f cs where t: "t = Trellis f cs" by (cases t)
  moreover have "copy_node [] t ([] @ q) a None = (replace_at t q (new_node a), Some ([] @ q))"
    by (rule copy_at [OF assms(3)])
  ultimately show ?thesis using Cons by (simp add: detour_node_def)
qed

lemma path_of_detour_ok:
  assumes "scored weights n h" "detour_ok weights n h d"
  shows "\<exists>path. path_of_detour weights d = Inr path \<and> base_ok weights n h path \<and> pt_total path = dt_total d
    \<and> pt_deviation path = Some (dt_substituted d)"
proof -
  let ?base = "dt_base d" and ?q = "dt_substituted d" and ?a = "dt_replacement d"
  obtain g where g: "node_at (pt_final ?base) ?q = Inr (new_node g)" "?a \<in> set (arcs_of g)"
      "dt_total d = pt_total ?base + score_minus (GetTotalScore ?a) (GetTotalScore g)" "path_ok weights n h ?base"
    using assms(2) by (auto simp: detour_ok_def)
  have base: "derivation h (pt_final ?base)" "length (pt_breakdown ?base) = n"
      "pt_total ?base = Fin (GetWeightedScore weights (pt_breakdown ?base))" "pt_total ?base = Fin (tree_score (pt_final ?base))"
    using g(4) unfolding path_ok_def by blast+
  have "g \<in> set (reachable h)" using derivation_node [OF base(1) g(1)] by simp
  then have "?a \<in> set (reachable h)"
    using reachable_arcs [OF g(2)] reachable_refl [of ?a] reachable_trans [of g h] by blast
  note G = scoredD(1,2) [OF assms(1) \<open>g \<in> set (reachable h)\<close>] and A = scoredD(1,2) [OF assms(1) this]
  let ?t = "replace_at (pt_final ?base) ?q (new_node ?a)"
  let ?bd = "map2 (+) (pt_breakdown ?base) (map2 (-) (h_breakdown ?a) (h_breakdown g))"
  let ?path = "\<lparr>pt_final = ?t, pt_deviation = Some ?q, pt_breakdown = ?bd, pt_total = Fin (GetWeightedScore weights ?bd)\<rparr>"
  have "path_of_detour weights d = Inr ?path"
    using detour_node_replace [OF assms(1) base(1) g(1,2)] g(1) G(1) A(1) base(2)
    by (simp add: path_of_detour_def MinusEquals_def PlusEquals_def)
  moreover have weighted: "GetWeightedScore weights ?bd
      = GetWeightedScore weights (pt_breakdown ?base) + (GetWeightedScore weights (h_breakdown ?a) - GetWeightedScore weights (h_breakdown g))"
    using G(1) A(1) base(2) by (simp add: weighted_sum weighted_diff)
  moreover have "tree_score ?t = tree_score (pt_final ?base) - fin_part (GetTotalScore g) + fin_part (GetTotalScore ?a)"
    using replace_score [OF g(1)] by (simp add: new_node_score)
  moreover have "derivation h ?t"
    using replace_derivation [OF base(1) scored_flat [OF assms(1)] g(1)] g(2) by simp
  moreover have "node_at ?t ?q = Inr (new_node ?a)" by (rule node_at_replace [OF g(1)])
  ultimately show ?thesis
    using G(1,2) A(1,2) base g(3) by (intro exI [of _ ?path]) (auto simp: base_ok_def path_ok_def dev_of_def)
qed

section \<open>The queue\<close>

abbreviation desc :: "'s detour list \<Rightarrow> bool" where
  "desc \<equiv> sorted_wrt (\<lambda>x y. dt_total y \<le> dt_total x)"

lemma queue_insert_set: "set (queue_insert d q) = insert d (set q)"
  by (induction q) auto

lemma queue_insert_desc: "desc q \<Longrightarrow> desc (queue_insert d q)"
  by (induction q) (auto simp: queue_insert_set not_less)

lemma Push_set: "set (Push cap d q) \<subseteq> insert d (set q)"
  by (auto simp: Push_def queue_insert_set dest: in_set_butlastD)

lemma Push_desc: "desc q \<Longrightarrow> desc (Push cap d q)"
proof -
  assume q: "desc q"
  have "desc (butlast q)" using q by (metis append_butlast_last_id butlast.simps(1) sorted_wrt_append)
  then show ?thesis using q by (simp add: Push_def queue_insert_desc)
qed

text \<open>CreateDeviantPaths pushes a detour for every arc of every node of the tree.\<close>

lemma fold_Push:
  "desc q \<Longrightarrow> desc (fold (\<lambda>r. Push cap (f r)) rs q) \<and> set (fold (\<lambda>r. Push cap (f r)) rs q) \<subseteq> f ` set rs \<union> set q"
proof (induction rs arbitrary: q)
  case (Cons r rs)
  then show ?case using Cons.IH [OF Push_desc [OF Cons.prems, of cap "f r"]] Push_set [of cap "f r" q] by auto
qed simp

lemma deviant_set:
  "desc q \<Longrightarrow> desc (CreateDeviantPaths base here t cap q) \<and>
     (\<forall>d \<in> set (CreateDeviantPaths base here t cap q). d \<in> set q \<or>
        (\<exists>p s. node_at t p = Inr s \<and> dt_base d = base \<and> dt_substituted d = here @ p \<and> dt_replacement d \<in> set (arcs_of (tn_hypo s))
          \<and> dt_total d = pt_total base + score_minus (GetTotalScore (dt_replacement d)) (GetTotalScore (tn_hypo s))))"
  "desc q \<Longrightarrow> desc (deviant_children base here i cs cap q) \<and>
     (\<forall>d \<in> set (deviant_children base here i cs cap q). d \<in> set q \<or>
        (\<exists>j p s. j < length cs \<and> node_at (cs ! j) p = Inr s \<and> dt_base d = base \<and> dt_substituted d = here @ (i + j) # p
          \<and> dt_replacement d \<in> set (arcs_of (tn_hypo s))
          \<and> dt_total d = pt_total base + score_minus (GetTotalScore (dt_replacement d)) (GetTotalScore (tn_hypo s))))"
proof (induction base here t cap q and base here i cs cap q rule: CreateDeviantPaths_deviant_children.induct)
  case (1 base here h cs cap q)
  let ?q = "fold (\<lambda>r. Push cap (ChartTrellisDetour base here h r)) (arcs_of h) q"
  have q: "desc ?q" "set ?q \<subseteq> ChartTrellisDetour base here h ` set (arcs_of h) \<union> set q"
    using fold_Push [OF "1.prems", of cap "ChartTrellisDetour base here h" "arcs_of h"] by simp_all
  note IH = "1.IH" [folded arcs_of_def, OF q(1)]
  have eq: "CreateDeviantPaths base here (Trellis h cs) cap q = deviant_children base here 0 cs cap ?q"
    by (simp add: arcs_of_def)
  show ?case
    unfolding eq
  proof (intro conjI ballI)
    show "desc (deviant_children base here 0 cs cap ?q)" using IH by blast
    fix d
    assume "d \<in> set (deviant_children base here 0 cs cap ?q)"
    then consider "d \<in> set q" | r where "r \<in> set (arcs_of h)" "d = ChartTrellisDetour base here h r"
      | j p s where "j < length cs" "node_at (cs ! j) p = Inr s" "dt_base d = base" "dt_substituted d = here @ (0 + j) # p"
          "dt_replacement d \<in> set (arcs_of (tn_hypo s))"
          "dt_total d = pt_total base + score_minus (GetTotalScore (dt_replacement d)) (GetTotalScore (tn_hypo s))"
      using IH q(2) by blast
    then show "d \<in> set q \<or> (\<exists>p s. node_at (Trellis h cs) p = Inr s \<and> dt_base d = base \<and> dt_substituted d = here @ p
        \<and> dt_replacement d \<in> set (arcs_of (tn_hypo s))
        \<and> dt_total d = pt_total base + score_minus (GetTotalScore (dt_replacement d)) (GetTotalScore (tn_hypo s)))"
    proof cases
      case 2
      then show ?thesis
        by (intro disjI2 exI [of _ "[]"] exI [of _ "Trellis h cs"]) (simp add: ChartTrellisDetour_def)
    next
      case 3
      then show ?thesis by (intro disjI2 exI [of _ "j # p"] exI [of _ s]) simp
    qed simp
  qed
next
  case (3 base here i c cs cap q)
  let ?q = "CreateDeviantPaths base (here @ [i]) c cap q"
  have q: "desc ?q" using "3.IH"(1) [OF "3.prems"] by blast
  note IH = "3.IH"(2) [OF q]
  have eq: "deviant_children base here i (c # cs) cap q = deviant_children base here (Suc i) cs cap ?q" by simp
  show ?case
    unfolding eq
  proof (intro conjI ballI)
    show "desc (deviant_children base here (Suc i) cs cap ?q)" using IH by blast
    fix d
    assume "d \<in> set (deviant_children base here (Suc i) cs cap ?q)"
    then consider "d \<in> set q" | p s where "node_at c p = Inr s" "dt_base d = base" "dt_substituted d = (here @ [i]) @ p"
          "dt_replacement d \<in> set (arcs_of (tn_hypo s))"
          "dt_total d = pt_total base + score_minus (GetTotalScore (dt_replacement d)) (GetTotalScore (tn_hypo s))"
      | j p s where "j < length cs" "node_at (cs ! j) p = Inr s" "dt_base d = base" "dt_substituted d = here @ (Suc i + j) # p"
          "dt_replacement d \<in> set (arcs_of (tn_hypo s))"
          "dt_total d = pt_total base + score_minus (GetTotalScore (dt_replacement d)) (GetTotalScore (tn_hypo s))"
      using IH "3.IH"(1) [OF "3.prems"] by blast
    then show "d \<in> set q \<or> (\<exists>j p s. j < length (c # cs) \<and> node_at ((c # cs) ! j) p = Inr s \<and> dt_base d = base
        \<and> dt_substituted d = here @ (i + j) # p \<and> dt_replacement d \<in> set (arcs_of (tn_hypo s))
        \<and> dt_total d = pt_total base + score_minus (GetTotalScore (dt_replacement d)) (GetTotalScore (tn_hypo s)))"
    proof cases
      case 2
      then show ?thesis by (intro disjI2 exI [of _ 0] exI [of _ p] exI [of _ s]) simp
    next
      case 3
      then show ?thesis by (intro disjI2 exI [of _ "Suc j"] exI [of _ p] exI [of _ s]) simp
    qed simp
  qed
qed simp

text \<open>The detours of a path from its deviation point on are good, and no better than the path.\<close>

lemma deviations_ok:
  assumes "scored weights n h" "base_ok weights n h base" "dev_of base = here" "node_at (pt_final base) here = Inr node"
    and "desc q" "\<forall>d \<in> set q. detour_ok weights n h d \<and> dt_total d \<le> m" "pt_total base \<le> m"
  shows "desc (CreateDeviantPaths base here node cap q)
    \<and> (\<forall>d \<in> set (CreateDeviantPaths base here node cap q). detour_ok weights n h d \<and> dt_total d \<le> m)"
proof (intro conjI ballI)
  show "desc (CreateDeviantPaths base here node cap q)" using deviant_set(1) [OF assms(5)] by blast
  fix d
  assume "d \<in> set (CreateDeviantPaths base here node cap q)"
  then consider "d \<in> set q" | p s where "node_at node p = Inr s" "dt_base d = base" "dt_substituted d = here @ p"
      "dt_replacement d \<in> set (arcs_of (tn_hypo s))"
      "dt_total d = pt_total base + score_minus (GetTotalScore (dt_replacement d)) (GetTotalScore (tn_hypo s))"
    using deviant_set(1) [OF assms(5)] by blast
  then have "detour_ok weights n h d \<and> dt_total d \<le> m"
  proof cases
    case 2
    obtain g where "node_at (pt_final base) here = Inr (new_node g)" using assms(2,3) by (auto simp: base_ok_def)
    then have node: "node = new_node g" using assms(4) by simp
    have s: "s = new_node (tn_hypo s)" using new_node_at 2(1) node by blast
    have at: "node_at (pt_final base) (dt_substituted d) = Inr s" using assms(4) 2(1,3) by (simp add: node_at_append)
    have path: "path_ok weights n h base" using assms(2) by (simp add: base_ok_def)
    then have "derivation h (pt_final base)" by (simp add: path_ok_def)
    from derivation_node [OF this at] have mem: "tn_hypo s \<in> set (reachable h)" by blast
    have a: "dt_replacement d \<in> set (reachable h)"
      using reachable_arcs [OF 2(4)] reachable_refl [of "dt_replacement d"] reachable_trans [OF mem] by blast
    obtain x where x: "pt_total base = Fin x" using path by (auto simp: path_ok_def)
    have "GetTotalScore (dt_replacement d) \<le> GetTotalScore (tn_hypo s)" by (rule scoredD(3) [OF assms(1) mem 2(4)])
    then have "dt_total d \<le> pt_total base"
      using 2(5) x scoredD(2) [OF assms(1) mem] scoredD(2) [OF assms(1) a] by simp
    moreover have "detour_ok weights n h d"
      unfolding detour_ok_def using path 2(2,4,5) at s by (intro conjI exI [of _ "tn_hypo s"]) simp_all
    ultimately show ?thesis using assms(7) by (auto intro: order_trans)
  qed (use assms(6) in blast)
  then show "detour_ok weights n h d" "dt_total d \<le> m" by blast+
qed

section \<open>Outputs\<close>

text \<open>The phrases of all rules are well-formed, and their words have the same active factors.\<close>

definition worded :: "nat set \<Rightarrow> 's hypo \<Rightarrow> bool" where
  "worded act h \<longleftrightarrow> (\<forall>g \<in> set (reachable h). wf_phrase (h_tp g) \<and> length (h_prev g) = length (tp_align (h_tp g))
     \<and> (\<forall>w \<in> set (tp_words (h_tp g)). \<not> IsNonTerminal w \<longrightarrow> active w = act))"

lemma worded_reachable: "worded act h \<Longrightarrow> g \<in> set (reachable h) \<Longrightarrow> worded act g"
  unfolding worded_def using reachable_trans by blast

lemma output_phrase_words:
  assumes "wf_phrase tp" "length ys = length (tp_align tp)" "\<forall>y \<in> set ys. \<forall>w \<in> set y. active w = act"
    and "\<forall>w \<in> set (tp_words tp). \<not> IsNonTerminal w \<longrightarrow> active w = act"
  shows "\<exists>p. output_phrase (map Inr ys) tp = Inr p \<and> (\<forall>w \<in> set p. active w = act)"
proof -
  let ?g = "\<lambda>pos. if IsNonTerminal (tp_words tp ! pos) then ys ! source_rank tp pos else [tp_words tp ! pos]"
  have "\<forall>w \<in> set (?g pos). active w = act" if pos: "pos < length (tp_words tp)" for pos
  proof (cases "IsNonTerminal (tp_words tp ! pos)")
    case True
    then have "pos \<in> snd ` set (tp_align tp)" using assms(1) pos by (simp add: wf_phrase_def)
    then have "ys ! source_rank tp pos \<in> set ys" using source_rank_in(1) assms(2) by simp
    then show ?thesis using assms(3) True by simp
  qed (use assms(4) pos in auto)
  then show ?thesis using output_phrase_eq [OF assms(1,2)] by (auto simp: atLeast0LessThan)
qed

lemma trellis_output_total:
  "derivation h t \<Longrightarrow> worded act h \<Longrightarrow> \<exists>p. trellis_output t = Inr p \<and> (\<forall>w \<in> set p. active w = act)"
proof (induction t arbitrary: h)
  case (Trellis g cs)
  have g: "g \<in> set (reachable h)" using derivation_reachable [OF Trellis.prems(1)] by simp
  then have wg: "worded act g" using worded_reachable Trellis.prems(2) by blast
  have cs: "list_all2 derivation (h_prev g) cs" using Trellis.prems(1) by (auto elim: derivationE)
  have "\<exists>p. trellis_output c = Inr p \<and> (\<forall>w \<in> set p. active w = act)" if mem: "c \<in> set cs" for c
  proof -
    obtain k where k: "k < length cs" "c = cs ! k" using mem by (auto simp: in_set_conv_nth)
    then have "derivation (h_prev g ! k) c" "h_prev g ! k \<in> set (h_prev g)" using cs by (auto simp: list_all2_conv_all_nth)
    moreover from this(2) have "worded act (h_prev g ! k)"
      using worded_reachable [OF wg] reachable_prev below_reachable reachable_refl by blast
    ultimately show ?thesis using Trellis.IH [OF mem] by blast
  qed
  then obtain f where f: "\<forall>c \<in> set cs. trellis_output c = Inr (f c) \<and> (\<forall>w \<in> set (f c). active w = act)" by metis
  then have eq: "map trellis_output cs = map Inr (map f cs)" by simp
  have "\<exists>p. output_phrase (map Inr (map f cs)) (h_tp g) = Inr p \<and> (\<forall>w \<in> set p. active w = act)"
    using wg f list_all2_lengthD [OF cs]
    by (intro output_phrase_words) (auto simp: worded_def dest!: bspec [OF _ reachable_refl])
  then show ?case unfolding trellis_output.simps eq .
qed

definition out_of :: "'s trellis_path \<Rightarrow> phrase" where
  "out_of path = (case path_output path of Inr p \<Rightarrow> p | Inl _ \<Rightarrow> [])"

lemma path_output_ok:
  "path_ok weights n h path \<Longrightarrow> worded act h \<Longrightarrow> path_output path = Inr (out_of path) \<and> (\<forall>w \<in> set (out_of path). active w = act)"
  using trellis_output_total [of h "pt_final path" act] by (auto simp: path_ok_def path_output_def out_of_def)

section \<open>The main loop\<close>

definition keys :: "'s trellis_path list \<Rightarrow> (nat \<times> nat list list) list" where
  "keys paths = map (\<lambda>p. phrase_key (out_of p)) paths"

text \<open>What holds of the paths found so far, whose last score is m.\<close>

definition found_ok :: "real list \<Rightarrow> nat \<Rightarrow> 's hypo \<Rightarrow> nat \<Rightarrow> bool \<Rightarrow> nat set \<Rightarrow> phrase list \<Rightarrow> score \<Rightarrow> 's trellis_path list \<Rightarrow> bool" where
  "found_ok weights n h wanted onlyDistinct act seen m found \<longleftrightarrow>
     (\<forall>p \<in> set found. path_ok weights n h p \<and> m \<le> pt_total p) \<and>
     sorted_wrt (\<lambda>x y. pt_total y \<le> pt_total x) found \<and> length found \<le> wanted \<and>
     (onlyDistinct \<longrightarrow> phrases.ok_set act seen \<and> distinct (keys found) \<and> set (keys found) = phrase_key ` set seen)"

lemma seen_insert:
  assumes "phrases.ok_set act seen" "\<forall>w \<in> set p. active w = act"
  shows "\<exists>seen' existing. set_insert (\<lambda>p q. Inr (phrase_less p q)) p seen = Inr (seen', existing) \<and> phrases.ok_set act seen'
    \<and> (if phrase_key p \<in> phrase_key ` set seen then existing \<noteq> None \<and> seen' = seen
       else existing = None \<and> phrase_key ` set seen' = insert (phrase_key p) (phrase_key ` set seen))"
proof (cases "phrase_key p \<in> phrase_key ` set seen")
  case True
  then obtain y where "y \<in> set seen" "phrases.eqv p y" by (auto simp: phrases.eqv_def)
  from phrases.set_insert_existing [OF assms this] show ?thesis using True assms(1) by simp
next
  case False
  then have "\<forall>y \<in> set seen. \<not> phrases.eqv p y" by (auto simp: phrases.eqv_def not_less image_iff)
  from phrases.set_insert_new [OF assms this] obtain seen' where
    s: "set_insert (\<lambda>p q. Inr (phrase_less p q)) p seen = Inr (seen', None)" "phrases.ok_set act seen'"
      "mset seen' = add_mset p (mset seen)" by blast
  have "set seen' = insert p (set seen)" using s(3) by (metis set_mset_add_mset_insert set_mset_mset)
  then show ?thesis using s(1,2) False by simp
qed

lemma distinct_keys:
  "distinct (keys paths) \<Longrightarrow> \<forall>p \<in> set paths. \<forall>w \<in> set (out_of p). active w = act
     \<Longrightarrow> sorted_wrt (\<lambda>x y. Phrase_Compare (out_of x) (out_of y) \<noteq> 0) paths"
proof (induction paths)
  case (Cons p paths)
  have "Phrase_Compare (out_of p) (out_of q) \<noteq> 0" if "q \<in> set paths" for q
  proof -
    have "\<forall>w \<in> set (out_of p) \<union> set (out_of q). active w = act" using Cons.prems(2) that by auto
    from Phrase_Compare_key [OF this] show ?thesis using Cons.prems(1) that by (auto simp: keys_def)
  qed
  then show ?case using Cons by (simp add: keys_def)
qed simp

lemma nbest_loop_ok:
  assumes "scored weights n h" "onlyDistinct \<longrightarrow> worded act h"
    and "desc contenders" "\<forall>d \<in> set contenders. detour_ok weights n h d \<and> dt_total d \<le> m"
    and "found_ok weights n h wanted onlyDistinct act seen m found"
  shows "\<exists>res seen' m'. nbest_loop weights cap wanted onlyDistinct k contenders seen found = Inr (found @ res)
    \<and> found_ok weights n h wanted onlyDistinct act seen' m' (found @ res)"
  using assms(3-5)
proof (induction k arbitrary: contenders seen found m)
  case 0
  then show ?case by (intro exI [of _ "[]"] exI [of _ seen] exI [of _ m]) simp
next
  case (Suc k)
  show ?case
  proof (cases "length found < wanted \<and> contenders \<noteq> []")
    case False
    then show ?thesis using Suc.prems(3) by (intro exI [of _ "[]"] exI [of _ seen] exI [of _ m]) auto
  next
    case True
    then obtain d rest where c: "contenders = d # rest" by (cases contenders) auto
    have d: "detour_ok weights n h d" "dt_total d \<le> m" using Suc.prems(2) c by auto
    obtain path where path: "path_of_detour weights d = Inr path" "base_ok weights n h path" "pt_total path = dt_total d"
        "pt_deviation path = Some (dt_substituted d)"
      using path_of_detour_ok [OF assms(1) d(1)] by blast
    have dev: "dev_of path = dt_substituted d" using path(4) by (simp add: dev_of_def)
    obtain node where node: "node_at (pt_final path) (dt_substituted d) = Inr node"
      using path(2) dev by (auto simp: base_ok_def)
    have rest: "desc rest" "\<forall>e \<in> set rest. detour_ok weights n h e \<and> dt_total e \<le> dt_total d"
      using Suc.prems(1,2) c by auto
    let ?cont = "CreateDeviantPaths path (dt_substituted d) node cap rest"
    have next_ok: "desc ?cont" "\<forall>e \<in> set ?cont. detour_ok weights n h e \<and> dt_total e \<le> dt_total d"
      using deviations_ok [OF assms(1) path(2) dev node rest] path(3) by auto
    have ok: "path_ok weights n h path" using path(2) by (simp add: base_ok_def)
    have old: "\<forall>p \<in> set found. path_ok weights n h p \<and> dt_total d \<le> pt_total p"
      "sorted_wrt (\<lambda>x y. pt_total y \<le> pt_total x) found"
      using Suc.prems(3) d(2) by (auto simp: found_ok_def intro: order_trans)
    have more: "\<exists>res seen'' m'. nbest_loop weights cap wanted onlyDistinct k ?cont seen' found' = Inr (found' @ res)
        \<and> found_ok weights n h wanted onlyDistinct act seen'' m' (found' @ res)"
      if "found_ok weights n h wanted onlyDistinct act seen' (dt_total d) found'" for seen' found'
      by (rule Suc.IH [OF next_ok that])
    have add: "found_ok weights n h wanted onlyDistinct act seen' (dt_total d) (found @ [path])"
      if "onlyDistinct \<longrightarrow> phrases.ok_set act seen' \<and> distinct (keys (found @ [path])) \<and> set (keys (found @ [path])) = phrase_key ` set seen'"
      for seen'
      using old ok path(3) that True by (simp add: found_ok_def sorted_wrt_append)
    let ?loop = "nbest_loop weights cap wanted onlyDistinct"
    show ?thesis
    proof (cases onlyDistinct)
      case False
      have "?loop (Suc k) contenders seen found = ?loop k ?cont seen (found @ [path])"
        using True False path(1,4) node by (simp add: c)
      moreover have "found_ok weights n h wanted onlyDistinct act seen (dt_total d) (found @ [path])" by (rule add) (use False in simp)
      ultimately show ?thesis using more [of seen "found @ [path]"] by auto
    next
      case True': True
      have worded: "worded act h" using assms(2) True' by simp
      note out = path_output_ok [OF ok worded]
      have seen: "phrases.ok_set act seen" "distinct (keys found)" "set (keys found) = phrase_key ` set seen"
        using Suc.prems(3) True' by (auto simp: found_ok_def)
      obtain seen' existing where ins: "set_insert (\<lambda>p q. Inr (phrase_less p q)) (out_of path) seen = Inr (seen', existing)"
        "phrases.ok_set act seen'" "if phrase_key (out_of path) \<in> phrase_key ` set seen then existing \<noteq> None \<and> seen' = seen
           else existing = None \<and> phrase_key ` set seen' = insert (phrase_key (out_of path)) (phrase_key ` set seen)"
        using seen_insert [OF seen(1)] out by blast
      have step: "?loop (Suc k) contenders seen found = ?loop k ?cont seen' (if existing = None then found @ [path] else found)"
        using True True' path(1,4) node out ins(1) by (simp add: c)
      show ?thesis
      proof (cases "existing = None")
        case True
        then have "found_ok weights n h wanted onlyDistinct act seen' (dt_total d) (found @ [path])"
          using ins(2,3) seen(2,3) by (intro add) (auto simp: keys_def split: if_splits)
        from more [OF this] show ?thesis using step True by auto
      next
        case False
        then have "seen' = seen" using ins(3) by (auto split: if_splits)
        moreover have "found_ok weights n h wanted onlyDistinct act seen (dt_total d) found"
          using old seen Suc.prems(3) by (simp add: found_ok_def)
        ultimately show ?thesis using more [of seen found] step False by simp
      qed
    qed
  qed
qed

section \<open>Properties\<close>

text \<open>
  C4. The n-best list: CalcNBest never fails; the first path is the best hypothesis's own; every path is a derivation of
  the best hypothesis with hypotheses replaced by their arcs, and its score, computed from differences of score
  breakdowns, is the sum of the scores of the rule applications in its tree; the paths come in
  descending order of their scores, no more than were asked for, and when only distinct translations are wanted,
  no two have equal output phrases.
\<close>

theorem CalcNBest_sorted:
  assumes "scored weights n h" "onlyDistinct \<longrightarrow> worded act h" "wanted \<noteq> 0" "sourceSize \<noteq> 0"
  shows "\<exists>paths. CalcNBest weights nBestFactor (Inr (Some h)) sourceSize wanted onlyDistinct = Inr paths
    \<and> paths \<noteq> [] \<and> hd paths = path_of_hypo h \<and> length paths \<le> wanted
    \<and> (\<forall>p \<in> set paths. derivation h (pt_final p) \<and> pt_total p = Fin (tree_score (pt_final p)))
    \<and> sorted_wrt (\<lambda>x y. pt_total y \<le> pt_total x) paths
    \<and> (onlyDistinct \<longrightarrow> (\<forall>p \<in> set paths. path_output p = Inr (out_of p))
        \<and> sorted_wrt (\<lambda>x y. Phrase_Compare (out_of x) (out_of y) \<noteq> 0) paths)"
proof -
  let ?base = "path_of_hypo h" and ?limit = "nbest_popLimit wanted onlyDistinct nBestFactor"
  have base: "base_ok weights n h ?base" "path_ok weights n h ?base" "pt_deviation ?base = None"
    using path_of_hypo_ok [OF assms(1)] by (simp_all add: base_ok_def path_of_hypo_def)
  have dev: "dev_of ?base = []" by (simp add: dev_of_def base(3))
  let ?cont = "CreateDeviantPaths ?base [] (pt_final ?base) ?limit []"
  have cont: "desc ?cont" "\<forall>d \<in> set ?cont. detour_ok weights n h d \<and> dt_total d \<le> pt_total ?base"
    using deviations_ok [OF assms(1) base(1) dev, of "pt_final ?base" "[]" "pt_total ?base"] by auto
  let ?seen = "if onlyDistinct then [out_of ?base] else []"
  have out: "onlyDistinct \<Longrightarrow> path_output ?base = Inr (out_of ?base) \<and> (\<forall>w \<in> set (out_of ?base). active w = act)"
    using path_output_ok [OF base(2)] assms(2) by blast
  have init: "found_ok weights n h wanted onlyDistinct act ?seen (pt_total ?base) [?base]"
    using base(2) assms(3) out by (auto simp: found_ok_def keys_def)
  have "\<exists>paths seen' m'. CalcNBest weights nBestFactor (Inr (Some h)) sourceSize wanted onlyDistinct = Inr paths
      \<and> paths \<noteq> [] \<and> hd paths = ?base \<and> found_ok weights n h wanted onlyDistinct act seen' m' paths"
  proof (cases "wanted = 1")
    case True
    then show ?thesis using init assms(4) by (auto simp: CalcNBest_def)
  next
    case False
    have "CalcNBest weights nBestFactor (Inr (Some h)) sourceSize wanted onlyDistinct
        = nbest_loop weights ?limit wanted onlyDistinct ?limit ?cont ?seen [?base]"
      using False assms(3,4) out by (auto simp: CalcNBest_def Let_def)
    then show ?thesis using nbest_loop_ok [OF assms(1,2) cont init, of ?limit ?limit] by (fastforce simp: hd_append)
  qed
  then obtain paths seen' m' where paths: "CalcNBest weights nBestFactor (Inr (Some h)) sourceSize wanted onlyDistinct = Inr paths"
      "paths \<noteq> []" "hd paths = ?base" "found_ok weights n h wanted onlyDistinct act seen' m' paths" by blast
  have ok: "\<forall>p \<in> set paths. path_ok weights n h p" "length paths \<le> wanted"
      "sorted_wrt (\<lambda>x y. pt_total y \<le> pt_total x) paths" "onlyDistinct \<longrightarrow> distinct (keys paths)"
    using paths(4) by (simp_all add: found_ok_def)
  have out: "path_output p = Inr (out_of p) \<and> (\<forall>w \<in> set (out_of p). active w = act)" if "onlyDistinct" "p \<in> set paths" for p
    using path_output_ok [of weights n h p act] ok(1) assms(2) that by blast
  have "onlyDistinct \<longrightarrow> sorted_wrt (\<lambda>x y. Phrase_Compare (out_of x) (out_of y) \<noteq> 0) paths"
    using distinct_keys [of paths act] ok(4) out by blast
  moreover have "\<forall>p \<in> set paths. derivation h (pt_final p) \<and> pt_total p = Fin (tree_score (pt_final p))"
    using ok(1) unfolding path_ok_def by blast
  ultimately show ?thesis using paths(1-3) ok(2,3) out by blast
qed

definition example_rule :: "nat \<Rightarrow> target_phrase" where
  "example_rule f = \<lparr>tp_ptr = f, tp_words = [\<lparr>w_factors = [Some f], w_isNonTerminal = False\<rparr>], tp_futureScore = Fin 0,
     tp_breakdown = [], tp_align = [], tp_lhs = \<lparr>w_factors = [Some 9], w_isNonTerminal = True\<rparr>\<rparr>"

definition example_best :: "unit hypo" where
  "example_best = Hypo 1 (example_rule 5) (WordsRange 0 0) [] [-1] (Fin (-1))
     (Some [Hypo 2 (example_rule 6) (WordsRange 0 0) [] [-3] (Fin (-3)) None [] None]) [] None"

lemma CalcNBest_sorted_witness:
  "\<exists>paths. CalcNBest [1] 0 (Inr (Some example_best)) 1 5 True = Inr paths \<and> hd paths = path_of_hypo example_best"
proof -
  have "scored [1] 1 example_best"
    by (simp add: scored_def example_best_def below_def arcs_of_def GetWeightedScore_def)
  moreover have "worded {0} example_best"
    by (auto simp: worded_def example_best_def example_rule_def arcs_of_def wf_phrase_code active_def GetFactor_def MAX_NUM_FACTORS_def)
  ultimately show ?thesis using CalcNBest_sorted [of "[1]" 1 example_best True "{0}" 5 1 0] by auto
qed

end
