(* ===== verification/ScoreIndex.thy ===== *)
theory ScoreIndex
  imports Scores
begin

text \<open>
  Score components (ScoreProducer.h, ScoreIndexManager.h, ScoreIndexManager.cpp,
  ScoreComponentCollection.h, ScoreComponentCollection.cpp): every feature function has a contiguous
  range of slots in the vectors of scores. The weights file and the output streams are not
  modelled; the check that guards the output of labeled scores is.
\<close>

section \<open>Producers and the index manager\<close>

text \<open>A producer with the strings it is asked for by the index of a component.\<close>

record score_producer =
  sp_id :: nat
  sp_components :: nat
  sp_inputScores :: nat
  sp_description :: "nat \<Rightarrow> string"
  sp_shortName :: "nat \<Rightarrow> string"

record score_index =
  si_begins :: "nat list"
  si_ends :: "nat list"
  si_producers :: "score_producer list"
  si_featureNames :: "string list"
  si_featureShortNames :: "string list"
  si_last :: nat

definition ScoreIndexManager :: score_index where
  "ScoreIndexManager = \<lparr>si_begins = [], si_ends = [], si_producers = [], si_featureNames = [], si_featureShortNames = [], si_last = 0\<rparr>"

text \<open>The second component of the state is the global counter of identifiers; CreateScoreBookkeepingID takes the next one.\<close>

definition AddScoreProducer :: "score_producer \<Rightarrow> score_index \<times> nat \<Rightarrow> (score_index \<times> nat) result" where
  "AddScoreProducer sp st =
     (case st of (sim, counter) \<Rightarrow>
        let sp = sp\<lparr>sp_id := counter\<rparr> in
        rbind (check (length (si_begins sim) = sp_id sp)) (\<lambda>_.
        rbind (check (sp_components sp > 0)) (\<lambda>_.
          Inr (sim\<lparr>si_producers := si_producers sim @ [sp], si_begins := si_begins sim @ [si_last sim],
                    si_last := si_last sim + sp_components sp, si_ends := si_ends sim @ [si_last sim + sp_components sp]\<rparr>,
               Suc counter))))"

definition GetBeginIndex :: "score_index \<Rightarrow> nat \<Rightarrow> nat result" where
  "GetBeginIndex sim i = array_get (si_begins sim) i"

definition GetEndIndex :: "score_index \<Rightarrow> nat \<Rightarrow> nat result" where
  "GetEndIndex sim i = array_get (si_ends sim) i"

text \<open>A number in decimal, as a stream prints it.\<close>

fun decimal :: "nat \<Rightarrow> string" where
  "decimal n = (if n < 10 then [char_of (48 + n)] else decimal (n div 10) @ [char_of (48 + n mod 10)])"

declare decimal.simps [simp del]

definition feature_name :: "score_producer \<Rightarrow> nat \<Rightarrow> bool \<Rightarrow> nat \<Rightarrow> string" where
  "feature_name sp k add_idx n = sp_description sp k @ (if add_idx then ''_'' @ decimal n else [])"

text \<open>The loop over the producers, with the position cur\_i in the vector of scores.\<close>

fun name_loop :: "nat \<Rightarrow> (score_producer \<times> nat) list \<Rightarrow> nat \<Rightarrow> string list \<Rightarrow> string list \<Rightarrow> (string list \<times> string list) result" where
  "name_loop m_last [] cur_i names shorts = (if cur_i < m_last then Inl OutOfBounds else Inr (names, shorts))"
| "name_loop m_last ((sp, endIndex) # rest) cur_i names shorts =
     (if \<not> cur_i < m_last then Inr (names, shorts)
      else let inputs = sp_inputScores sp;
               names1 = names @ map (\<lambda>k. feature_name sp k (inputs > 1) (k + 1)) [0..<inputs];
               cur_i1 = cur_i + inputs;
               add_idx = (sz_sub endIndex cur_i1 > 1);
               inds = [1..<endIndex - cur_i1 + 1]
           in name_loop m_last rest (max cur_i1 endIndex)
                (names1 @ map (\<lambda>ind. feature_name sp (inputs + ind - 1) add_idx ind) inds)
                (shorts @ map (\<lambda>ind. sp_shortName sp (inputs + ind - 1)) inds))"

definition InitFeatureNames :: "score_index \<Rightarrow> score_index result" where
  "InitFeatureNames sim =
     rbind (name_loop (si_last sim) (zip (si_producers sim) (si_ends sim)) 0 [] []) (\<lambda>(names, shorts).
       Inr (sim\<lparr>si_featureNames := names, si_featureShortNames := shorts\<rparr>))"

text \<open>What PrintLabeledScores checks; the weights are as many as the scores.\<close>

definition PrintLabeledScores_check :: "score_index \<Rightarrow> real list \<Rightarrow> unit result" where
  "PrintLabeledScores_check sim scores = check (length (si_featureShortNames sim) = length (replicate (length scores) (1 :: real)))"

section \<open>Score vectors\<close>

definition ScoreComponentCollection :: "score_index \<Rightarrow> real list" where
  "ScoreComponentCollection sim = replicate (si_last sim) 0"

definition ZeroAll :: "real list \<Rightarrow> real list" where
  "ZeroAll scores = map (\<lambda>_. 0) scores"

text \<open>A change of one entry.\<close>

definition update_at :: "nat \<Rightarrow> (real \<Rightarrow> real) \<Rightarrow> real list \<Rightarrow> real list result" where
  "update_at i f scores = rbind (array_get scores i) (\<lambda>x. Inr (scores[i := f x]))"

definition PlusEquals_scores :: "score_index \<Rightarrow> score_producer \<Rightarrow> real list \<Rightarrow> real list \<Rightarrow> real list result" where
  "PlusEquals_scores sim sp scores scc =
     rbind (check (length scores = sp_components sp)) (\<lambda>_.
     rbind (GetBeginIndex sim (sp_id sp)) (\<lambda>begin.
       rfold (\<lambda>(i, v). update_at i (\<lambda>x. x + v)) (enumerate begin scores) scc))"

definition PlusEquals_producer :: "score_index \<Rightarrow> score_producer \<Rightarrow> real list \<Rightarrow> real list \<Rightarrow> real list result" where
  "PlusEquals_producer sim sp scores scc =
     rbind (GetBeginIndex sim (sp_id sp)) (\<lambda>i. rbind (GetEndIndex sim (sp_id sp)) (\<lambda>endIndex.
       rfold (\<lambda>i scc. rbind (array_get scores i) (\<lambda>v. update_at i (\<lambda>x. x + v) scc)) [i..<endIndex] scc))"

definition PlusEquals_one :: "score_index \<Rightarrow> score_producer \<Rightarrow> real \<Rightarrow> real list \<Rightarrow> real list result" where
  "PlusEquals_one sim sp score scc =
     rbind (check (1 = sp_components sp)) (\<lambda>_. rbind (GetBeginIndex sim (sp_id sp)) (\<lambda>i. update_at i (\<lambda>x. x + score) scc))"

definition Assign :: "score_index \<Rightarrow> score_producer \<Rightarrow> real list \<Rightarrow> real list \<Rightarrow> real list result" where
  "Assign sim sp scores scc =
     rbind (check (length scores = sp_components sp)) (\<lambda>_.
     rbind (GetBeginIndex sim (sp_id sp)) (\<lambda>begin.
       rfold (\<lambda>(i, v). update_at i (\<lambda>x. v)) (enumerate begin scores) scc))"

definition Assign_one :: "score_index \<Rightarrow> score_producer \<Rightarrow> real \<Rightarrow> real list \<Rightarrow> real list result" where
  "Assign_one sim sp score scc =
     rbind (check (1 = sp_components sp)) (\<lambda>_. rbind (GetBeginIndex sim (sp_id sp)) (\<lambda>i. update_at i (\<lambda>x. score) scc))"

definition GetScoresForProducer :: "score_index \<Rightarrow> score_producer \<Rightarrow> real list \<Rightarrow> real list result" where
  "GetScoresForProducer sim sp scc =
     rbind (GetBeginIndex sim (sp_id sp)) (\<lambda>begin. rbind (GetEndIndex sim (sp_id sp)) (\<lambda>endIndex.
       rmap (array_get scc) [begin..<endIndex]))"

definition GetScoreForProducer :: "score_index \<Rightarrow> score_producer \<Rightarrow> real list \<Rightarrow> real result" where
  "GetScoreForProducer sim sp scc =
     rbind (GetBeginIndex sim (sp_id sp)) (\<lambda>begin. rbind (GetEndIndex sim (sp_id sp)) (\<lambda>endIndex.
     rbind (check (sz_sub endIndex begin = 1)) (\<lambda>_. array_get scc begin)))"

text \<open>The inner product reads a weight for every score.\<close>

definition InnerProduct :: "real list \<Rightarrow> real list \<Rightarrow> real result" where
  "InnerProduct scc rhs = rfold (\<lambda>(i, x) acc. rbind (array_get rhs i) (\<lambda>w. Inr (acc + x * w))) (enumerate 0 scc) 0"

definition PartialInnerProduct :: "score_index \<Rightarrow> score_producer \<Rightarrow> real list \<Rightarrow> real list \<Rightarrow> real result" where
  "PartialInnerProduct sim sp rhs scc =
     rbind (GetScoresForProducer sim sp scc) (\<lambda>lhs.
     rbind (check (length lhs = length rhs)) (\<lambda>_. InnerProduct lhs rhs))"

text \<open>The scores of all language models lie between two indices.\<close>

definition ZeroAllLM :: "nat \<Rightarrow> nat \<Rightarrow> real list \<Rightarrow> real list result" where
  "ZeroAllLM minIndex maxIndex = rfold (\<lambda>ind. update_at ind (\<lambda>_. 0)) [minIndex..<Suc maxIndex]"

definition PlusEqualsAllLM :: "nat \<Rightarrow> nat \<Rightarrow> real list \<Rightarrow> real list \<Rightarrow> real list result" where
  "PlusEqualsAllLM minIndex maxIndex rhs =
     rfold (\<lambda>ind scc. rbind (array_get rhs ind) (\<lambda>v. update_at ind (\<lambda>x. x + v) scc)) [minIndex..<Suc maxIndex]"

section \<open>The ranges of the producers\<close>

definition AddScoreProducers :: "score_producer list \<Rightarrow> score_index \<times> nat \<Rightarrow> (score_index \<times> nat) result" where
  "AddScoreProducers = rfold AddScoreProducer"

text \<open>The slots before producer i.\<close>

definition slot :: "score_producer list \<Rightarrow> nat \<Rightarrow> nat" where
  "slot sps i = sum_list (map sp_components (take i sps))"

definition wf_index :: "score_producer list \<Rightarrow> score_index \<Rightarrow> bool" where
  "wf_index sps sim \<longleftrightarrow> si_begins sim = map (slot sps) [0..<length sps] \<and> si_ends sim = map (\<lambda>i. slot sps (Suc i)) [0..<length sps]
     \<and> si_last sim = slot sps (length sps)
     \<and> si_producers sim = map (\<lambda>i. (sps ! i)\<lparr>sp_id := i\<rparr>) [0..<length sps]"

lemma slot_append [simp]: "i \<le> length sps \<Longrightarrow> slot (sps @ qs) i = slot sps i"
  by (simp add: slot_def)

lemma slot_mono: "i \<le> j \<Longrightarrow> slot sps i \<le> slot sps j"
proof (induction j)
  case (Suc j)
  have "slot sps j \<le> slot sps (Suc j)" by (cases "j < length sps") (simp_all add: slot_def take_Suc_conv_app_nth)
  then show ?case using Suc by (auto simp: le_Suc_eq)
qed simp

lemma slot_Suc: "i < length sps \<Longrightarrow> slot sps (Suc i) = slot sps i + sp_components (sps ! i)"
  by (simp add: slot_def take_Suc_conv_app_nth)

lemma AddScoreProducer_wf:
  assumes "wf_index sps sim" "sp_components sp > 0"
  shows "\<exists>sim'. AddScoreProducer sp (sim, length sps) = Inr (sim', Suc (length sps)) \<and> wf_index (sps @ [sp]) sim'"
proof -
  have "length (si_begins sim) = length sps" using assms(1) by (simp add: wf_index_def)
  moreover have "slot (sps @ [sp]) (Suc (length sps)) = slot sps (length sps) + sp_components sp"
    by (simp add: slot_Suc)
  ultimately show ?thesis
    using assms by (auto simp: AddScoreProducer_def wf_index_def Let_def nth_append)
qed

lemma AddScoreProducers_wf:
  "\<forall>sp \<in> set sps. sp_components sp > 0 \<Longrightarrow>
     \<exists>sim. AddScoreProducers sps (ScoreIndexManager, 0) = Inr (sim, length sps) \<and> wf_index sps sim"
proof (induction sps rule: rev_induct)
  case Nil
  then show ?case by (simp add: AddScoreProducers_def wf_index_def slot_def ScoreIndexManager_def)
next
  case (snoc sp sps)
  then obtain sim where "AddScoreProducers sps (ScoreIndexManager, 0) = Inr (sim, length sps)" "wf_index sps sim" by auto
  moreover from AddScoreProducer_wf [OF this(2), of sp] snoc.prems
  obtain sim' where "AddScoreProducer sp (sim, length sps) = Inr (sim', Suc (length sps))" "wf_index (sps @ [sp]) sim'" by auto
  ultimately show ?case by (simp add: AddScoreProducers_def rfold_append)
qed

section \<open>Loops over a range of slots\<close>

lemma update_at_in: "i < length scores \<Longrightarrow> update_at i f scores = Inr (scores[i := f (scores ! i)])"
  by (simp add: update_at_def)

lemma update_loop:
  assumes "start + length vs \<le> length scc"
  shows "\<exists>r. rfold (\<lambda>(i, v). update_at i (f v)) (enumerate start vs) scc = Inr r \<and> length r = length scc
    \<and> (\<forall>i < length scc. r ! i = (if start \<le> i \<and> i < start + length vs then f (vs ! (i - start)) (scc ! i) else scc ! i))"
  using assms
proof (induction vs arbitrary: start scc)
  case (Cons v vs)
  let ?scc = "scc[start := f v (scc ! start)]"
  have b: "start < length scc" "Suc start + length vs \<le> length ?scc" using Cons.prems by auto
  obtain r where r: "rfold (\<lambda>(i, v). update_at i (f v)) (enumerate (Suc start) vs) ?scc = Inr r" "length r = length ?scc"
      "\<forall>i < length ?scc. r ! i = (if Suc start \<le> i \<and> i < Suc start + length vs then f (vs ! (i - Suc start)) (?scc ! i) else ?scc ! i)"
    using Cons.IH [OF b(2)] by blast
  have "\<forall>i < length scc. r ! i = (if start \<le> i \<and> i < start + length (v # vs) then f ((v # vs) ! (i - start)) (scc ! i) else scc ! i)"
  proof (intro allI impI)
    fix i
    assume i: "i < length scc"
    show "r ! i = (if start \<le> i \<and> i < start + length (v # vs) then f ((v # vs) ! (i - start)) (scc ! i) else scc ! i)"
      using r(3) i by (cases "i = start") (auto simp: nth_Cons' Suc_diff_Suc)
  qed
  then show ?case using r(1,2) b(1) by (intro exI [of _ r]) (simp add: update_at_in)
qed simp

lemma wf_range:
  assumes "wf_index sps sim" "k < length sps" "sp_id sp = k" "sp_components sp = sp_components (sps ! k)"
  shows "GetBeginIndex sim (sp_id sp) = Inr (slot sps k)" "GetEndIndex sim (sp_id sp) = Inr (slot sps k + sp_components sp)"
    "slot sps k + sp_components sp \<le> si_last sim"
  using assms slot_mono [of "Suc k" "length sps" sps]
  by (simp_all add: GetBeginIndex_def GetEndIndex_def wf_index_def slot_Suc)

lemma rmap_range: "j \<le> length xs \<Longrightarrow> rmap (array_get xs) [i..<j] = Inr (map ((!) xs) [i..<j])"
  by (rule rmap_Inr_map) simp

lemma Assign_spec:
  assumes "wf_index sps sim" "k < length sps" "sp_id sp = k" "sp_components sp = sp_components (sps ! k)"
    and "length scc = si_last sim" "length vs = sp_components sp"
  obtains r where "Assign sim sp vs scc = Inr r" "length r = length scc"
    "\<forall>i < length scc. r ! i = (if slot sps k \<le> i \<and> i < slot sps k + length vs then vs ! (i - slot sps k) else scc ! i)"
proof -
  note R = wf_range [OF assms(1-4)]
  have "slot sps k + length vs \<le> length scc" using R(3) assms(5,6) by simp
  from update_loop [OF this, of "\<lambda>v _. v"] show ?thesis using that R(1) assms(6) by (auto simp: Assign_def)
qed

lemma GetScores_nth:
  assumes "wf_index sps sim" "k < length sps" "sp_id sp = k" "sp_components sp = sp_components (sps ! k)" "length scc = si_last sim"
  shows "GetScoresForProducer sim sp scc = Inr (map ((!) scc) [slot sps k..<slot sps k + sp_components sp])"
  using wf_range [OF assms(1-4)] assms(5) by (simp add: GetScoresForProducer_def rmap_range)

section \<open>Names\<close>

lemma name_loop_spec:
  assumes "\<forall>sp \<in> set sps. sp_inputScores sp \<le> sp_components sp \<and> sp_components sp > 0"
    and "length names = cur" "m_last = cur + sum_list (map sp_components sps)"
  shows "\<exists>ns ss. name_loop m_last (zip sps (map (\<lambda>i. cur + slot sps (Suc i)) [0..<length sps])) cur names shorts = Inr (ns, ss)
    \<and> length ns = m_last \<and> length ss = length shorts + sum_list (map (\<lambda>sp. sp_components sp - sp_inputScores sp) sps)"
  using assms
proof (induction sps arbitrary: cur names shorts)
  case (Cons sp sps)
  have sp: "sp_inputScores sp \<le> sp_components sp" "sp_components sp > 0" using Cons.prems(1) by auto
  let ?cur = "cur + sp_components sp"
  have ends: "map (\<lambda>i. cur + slot (sp # sps) (Suc i)) [0..<length (sp # sps)]
      = ?cur # map (\<lambda>i. ?cur + slot sps (Suc i)) [0..<length sps]"
    unfolding length_Cons upt_conv_Cons [OF zero_less_Suc] map_Suc_upt [symmetric] by (simp add: slot_def)
  let ?inputs = "sp_inputScores sp"
  let ?inds = "[1..<?cur - (cur + ?inputs) + 1]"
  let ?names = "(names @ map (\<lambda>k. feature_name sp k (?inputs > 1) (k + 1)) [0..<?inputs])
     @ map (\<lambda>ind. feature_name sp (?inputs + ind - 1) (sz_sub ?cur (cur + ?inputs) > 1) ind) ?inds"
  let ?shorts = "shorts @ map (\<lambda>ind. sp_shortName sp (?inputs + ind - 1)) ?inds"
  have len: "length ?names = ?cur" "length ?shorts = length shorts + (sp_components sp - ?inputs)"
    using Cons.prems(2) sp(1) by (simp_all del: upt_Suc)
  have tot: "m_last = ?cur + sum_list (map sp_components sps)" using Cons.prems(3) by simp
  obtain ns ss where ns: "name_loop m_last (zip sps (map (\<lambda>i. ?cur + slot sps (Suc i)) [0..<length sps])) ?cur ?names ?shorts = Inr (ns, ss)"
      "length ns = m_last" "length ss = length ?shorts + sum_list (map (\<lambda>sp. sp_components sp - sp_inputScores sp) sps)"
    using Cons.IH [OF _ len(1) tot, of ?shorts] Cons.prems(1) by auto
  have "name_loop m_last (zip (sp # sps) (map (\<lambda>i. cur + slot (sp # sps) (Suc i)) [0..<length (sp # sps)])) cur names shorts
      = name_loop m_last (zip sps (map (\<lambda>i. ?cur + slot sps (Suc i)) [0..<length sps])) ?cur ?names ?shorts"
    unfolding ends using Cons.prems(3) sp by (simp add: Let_def max_def)
  then show ?case using ns len(2) by (intro exI [of _ ns] exI [of _ ss]) simp
qed simp

section \<open>Properties\<close>

text \<open>
  Registering producers: when every producer has at least one component, all are accepted; they get the identifiers 0, 1, 2, and so
  on, and contiguous ranges of slots in this order, without gaps, that fill the score vector; the first producer
  without components fails a check.
\<close>

theorem AddScoreProducer_ranges:
  "if \<forall>sp \<in> set sps. sp_components sp > 0
   then \<exists>sim. AddScoreProducers sps (ScoreIndexManager, 0) = Inr (sim, length sps)
     \<and> si_last sim = sum_list (map sp_components sps)
     \<and> (\<forall>k < length sps. sp_id (si_producers sim ! k) = k \<and> (\<exists>b. GetBeginIndex sim k = Inr b \<and> GetEndIndex sim k = Inr (b + sp_components (sps ! k))
          \<and> (if k = 0 then b = 0 else GetEndIndex sim (k - 1) = Inr b)))
   else AddScoreProducers sps (ScoreIndexManager, 0) = Inl CheckFailed"
proof (cases "\<forall>sp \<in> set sps. sp_components sp > 0")
  case True
  then obtain sim where sim: "AddScoreProducers sps (ScoreIndexManager, 0) = Inr (sim, length sps)" "wf_index sps sim"
    using AddScoreProducers_wf by blast
  have "sp_id (si_producers sim ! k) = k \<and> (\<exists>b. GetBeginIndex sim k = Inr b \<and> GetEndIndex sim k = Inr (b + sp_components (sps ! k))
          \<and> (if k = 0 then b = 0 else GetEndIndex sim (k - 1) = Inr b))" if k: "k < length sps" for k
  proof -
    have "GetEndIndex sim (k - 1) = Inr (slot sps k)" if "k \<noteq> 0"
    proof -
      have "k - 1 < length [0..<length sps]" "[0..<length sps] ! (k - 1) = k - 1" using k by simp_all
      then show ?thesis using sim(2) k that by (simp add: GetEndIndex_def wf_index_def)
    qed
    moreover have "slot sps 0 = 0" by (simp add: slot_def)
    ultimately show ?thesis
      using sim(2) k by (intro conjI exI [of _ "slot sps k"]) (auto simp: GetBeginIndex_def GetEndIndex_def wf_index_def slot_Suc)
  qed
  moreover have "si_last sim = sum_list (map sp_components sps)" using sim(2) by (simp add: wf_index_def slot_def)
  ultimately show ?thesis using True sim(1) by simp
next
  case False
  then obtain xs sp ys where sps: "sps = xs @ sp # ys" "sp_components sp = 0" "\<forall>sp \<in> set xs. sp_components sp > 0"
    using split_list_first_prop [of sps "\<lambda>sp. sp_components sp = 0"] by auto
  obtain sim where "AddScoreProducers xs (ScoreIndexManager, 0) = Inr (sim, length xs)" "wf_index xs sim"
    using AddScoreProducers_wf [OF sps(3)] by blast
  then have "AddScoreProducers sps (ScoreIndexManager, 0) = Inl CheckFailed"
    using sps(2) by (simp add: sps(1) AddScoreProducers_def rfold_append AddScoreProducer_def Let_def wf_index_def check_def)
  then show ?thesis using False by simp
qed

definition example_producer :: "nat \<Rightarrow> nat \<Rightarrow> score_producer" where
  "example_producer n i = \<lparr>sp_id = 0, sp_components = n, sp_inputScores = i, sp_description = (\<lambda>_. ''tm''), sp_shortName = (\<lambda>_. ''t'')\<rparr>"

lemma AddScoreProducer_ranges_witness:
  "\<exists>sim. AddScoreProducers [example_producer 1 0, example_producer 5 2] (ScoreIndexManager, 0) = Inr (sim, 2) \<and> si_last sim = 6"
  using AddScoreProducer_ranges [of "[example_producer 1 0, example_producer 5 2]"] by (auto simp: example_producer_def)

text \<open>
  C38. The scores of a producer: after Assign, GetScoresForProducer gives back the assigned scores for that producer, and
  for every other one the scores it had; a vector of another length fails the check.
\<close>

theorem Assign_roundtrip:
  assumes "wf_index sps sim" "p < length sps" "q < length sps" "length scc = si_last sim"
  shows "if length vs = sp_components (sps ! p)
    then \<exists>r. Assign sim ((sps ! p)\<lparr>sp_id := p\<rparr>) vs scc = Inr r \<and> length r = length scc
      \<and> GetScoresForProducer sim ((sps ! q)\<lparr>sp_id := q\<rparr>) r
        = (if q = p then Inr vs else GetScoresForProducer sim ((sps ! q)\<lparr>sp_id := q\<rparr>) scc)
    else Assign sim ((sps ! p)\<lparr>sp_id := p\<rparr>) vs scc = Inl CheckFailed"
proof (cases "length vs = sp_components (sps ! p)")
  case True
  let ?p = "(sps ! p)\<lparr>sp_id := p\<rparr>" and ?q = "(sps ! q)\<lparr>sp_id := q\<rparr>"
  obtain r where r: "Assign sim ?p vs scc = Inr r" "length r = length scc"
    "\<forall>i < length scc. r ! i = (if slot sps p \<le> i \<and> i < slot sps p + length vs then vs ! (i - slot sps p) else scc ! i)"
    by (rule Assign_spec [of sps sim p ?p scc vs]) (use assms True in simp_all)
  let ?range = "[slot sps q..<slot sps q + sp_components (sps ! q)]"
  have get: "GetScoresForProducer sim ?q s = Inr (map ((!) s) ?range)" if "length s = si_last sim" for s
    using GetScores_nth [of sps sim q ?q s] assms that by simp
  have bound: "slot sps q + sp_components (sps ! q) \<le> length scc"
    using wf_range(3) [of sps sim q ?q] assms by simp
  have "map ((!) r) ?range = (if q = p then vs else map ((!) scc) ?range)"
  proof (cases "q = p")
    case True
    have "map ((!) r) ?range = vs"
      using r(3) bound True \<open>length vs = sp_components (sps ! p)\<close> by (intro nth_equalityI) auto
    then show ?thesis using True by simp
  next
    case False
    have "slot sps (Suc q) \<le> slot sps p \<or> slot sps (Suc p) \<le> slot sps q"
      using False slot_mono [of "Suc q" p sps] slot_mono [of "Suc p" q sps] by linarith
    then have "slot sps q + sp_components (sps ! q) \<le> slot sps p \<or> slot sps p + length vs \<le> slot sps q"
      using assms(2,3) True by (simp add: slot_Suc)
    then have "\<forall>i \<in> set ?range. r ! i = scc ! i" using r(3) bound by auto
    then show ?thesis using False by simp
  qed
  then show ?thesis using True r(1,2) get [of r] get [of scc] assms(4) by simp
qed (simp add: Assign_def check_def)

lemma Assign_roundtrip_witness:
  "\<exists>r. Assign \<lparr>si_begins = [0], si_ends = [2], si_producers = [example_producer 2 0], si_featureNames = [], si_featureShortNames = [], si_last = 2\<rparr>
     (example_producer 2 0) [3, 4] [0, 0] = Inr r"
proof -
  let ?sim = "\<lparr>si_begins = [0], si_ends = [2], si_producers = [example_producer 2 0], si_featureNames = [], si_featureShortNames = [], si_last = 2\<rparr>"
  have "wf_index [example_producer 2 0] ?sim" by (simp add: wf_index_def slot_def example_producer_def)
  from Assign_roundtrip [OF this, of 0 0 "[0, 0]" "[3, 4]"] show ?thesis by (auto simp: example_producer_def)
qed

text \<open>
  Feature names: after all producers are registered, every score has a name, but only the components that are not input scores have a
  short name; the check of PrintLabeledScores fails for a full score vector as soon as a producer has input scores.
\<close>

theorem InitFeatureNames_short:
  assumes "wf_index sps sim" "\<forall>sp \<in> set sps. sp_inputScores sp \<le> sp_components sp \<and> sp_components sp > 0" "length scc = si_last sim"
  shows "\<exists>sim'. InitFeatureNames sim = Inr sim' \<and> length (si_featureNames sim') = si_last sim
    \<and> length (si_featureShortNames sim') = sum_list (map (\<lambda>sp. sp_components sp - sp_inputScores sp) sps)
    \<and> PrintLabeledScores_check sim' scc = (if \<forall>sp \<in> set sps. sp_inputScores sp = 0 then Inr () else Inl CheckFailed)"
proof -
  let ?sps = "map (\<lambda>i. (sps ! i)\<lparr>sp_id := i\<rparr>) [0..<length sps]"
  have same: "map sp_components ?sps = map sp_components sps"
    "map (\<lambda>sp. sp_components sp - sp_inputScores sp) ?sps = map (\<lambda>sp. sp_components sp - sp_inputScores sp) sps"
    by (auto intro!: nth_equalityI)
  have slots: "slot ?sps i = slot sps i" for i using same(1) by (simp add: slot_def take_map [symmetric])
  have ok: "\<forall>sp \<in> set ?sps. sp_inputScores sp \<le> sp_components sp \<and> sp_components sp > 0" using assms(2) by auto
  have "si_last sim = 0 + sum_list (map sp_components ?sps)" using assms(1) same(1) by (simp add: wf_index_def slot_def)
  from name_loop_spec [OF ok _ this, of "[]" "[]"]
  obtain ns ss where loop: "name_loop (si_last sim) (zip (si_producers sim) (si_ends sim)) 0 [] [] = Inr (ns, ss)"
    "length ns = si_last sim" "length ss = sum_list (map (\<lambda>sp. sp_components sp - sp_inputScores sp) sps)"
    using assms(1) slots same(2) by (auto simp: wf_index_def)
  have "(sum_list (map (\<lambda>sp. sp_components sp - sp_inputScores sp) sps) = sum_list (map sp_components sps))
      \<longleftrightarrow> (\<forall>sp \<in> set sps. sp_inputScores sp = 0)"
    using assms(2)
  proof (induction sps)
    case (Cons sp sps)
    have "sum_list (map (\<lambda>sp. sp_components sp - sp_inputScores sp) sps) \<le> sum_list (map sp_components sps)"
      by (rule sum_list_mono) simp
    then show ?case using Cons by auto
  qed simp
  then show ?thesis
    using loop assms(1,3) by (auto simp: InitFeatureNames_def PrintLabeledScores_check_def wf_index_def slot_def check_def)
qed

lemma InitFeatureNames_short_witness:
  "\<exists>sim'. InitFeatureNames \<lparr>si_begins = [0], si_ends = [2], si_producers = [example_producer 2 1], si_featureNames = [], si_featureShortNames = [], si_last = 2\<rparr> = Inr sim'
     \<and> PrintLabeledScores_check sim' [0, 0] = Inl CheckFailed"
proof -
  let ?sim = "\<lparr>si_begins = [0], si_ends = [2], si_producers = [example_producer 2 1], si_featureNames = [], si_featureShortNames = [], si_last = 2\<rparr>"
  have "wf_index [example_producer 2 1] ?sim" by (simp add: wf_index_def slot_def example_producer_def)
  from InitFeatureNames_short [OF this, of "[0, 0]"] show ?thesis by (auto simp: example_producer_def)
qed

end
