(* ===== verification/Manager.thy ===== *)
theory Manager
  imports RuleLookup ChartCells ScoreIndex
begin

text \<open>
  The chart decoder as a whole (ChartManager.cpp, ChartTranslationOptionCollection.cpp,
  DecodeGraph.h, Word::CreateUnknownWord): for every span, from the short ones to the long ones, the rules of every
  rule table are looked up, unknown words get translations, and the cell of the span is
  filled, pruned and sorted.

  All rule tables are of the class with minimum spans (theory RuleLookup). What StaticData, the
  translation system and the input provide is the record decoder. The logarithm of a negative
  probability, a NaN, is not modelled; the logarithm of 0 is minus infinity.
\<close>

section \<open>What the decoder reads\<close>

record decode_graph =
  dg_size :: nat
  dg_maxChartSpan :: nat
  dg_minChartSpan :: nat

definition GetMaxChartSpan :: "decode_graph \<Rightarrow> nat result" where
  "GetMaxChartSpan graph = rbind (check (dg_maxChartSpan graph \<noteq> NOT_FOUND)) (\<lambda>_. Inr (dg_maxChartSpan graph))"

record 's decoder =
  de_cells :: "'s cell_env"
  de_optsel :: "'s trans_option select"
  de_part :: "('s trans_option \<Rightarrow> bool) \<Rightarrow> 's trans_option list \<Rightarrow> 's trans_option list"
  de_threshold :: score
  de_graphs :: "decode_graph list"
  de_source :: "word list"
  de_labels :: "nat \<Rightarrow> nat \<Rightarrow> word list"
  de_clauseMode :: bool
  de_clauseBounds :: "int list list"
  de_pool :: bool
  de_alwaysDirect :: bool
  de_dropUnknown :: bool
  de_string :: "factor \<Rightarrow> string"
  de_unknownFactor :: factor
  de_unknownLHS :: "(string \<times> real) list"
  de_lhsWord :: "string \<Rightarrow> word"
  de_index :: score_index
  de_unknownProducer :: score_producer
  de_wordPenaltyProducer :: score_producer

section \<open>Unknown words\<close>

definition CreateUnknownWord :: "factor \<Rightarrow> word \<Rightarrow> word" where
  "CreateUnknownWord unknown sourceWord =
     \<lparr>w_factors = map (\<lambda>i. case GetFactor sourceWord i of None \<Rightarrow> Some unknown | Some f \<Rightarrow> Some f) [0..<MAX_NUM_FACTORS],
      w_isNonTerminal = IsNonTerminal sourceWord\<rparr>"

text \<open>FloorScore(TransformScore(prob)).\<close>

definition floored_log :: "real \<Rightarrow> real" where
  "floored_log prob = (if prob > 0 then max (ln prob) LOWEST_SCORE else LOWEST_SCORE)"

definition word_penalty :: "real list" where
  "word_penalty = [- 0.434294482]"

text \<open>TargetPhrase::SetScore with a producer, and a new target phrase at address ptr.\<close>

definition tp_SetScore :: "'s decoder \<Rightarrow> score_producer \<Rightarrow> real list \<Rightarrow> target_phrase \<Rightarrow> target_phrase result" where
  "tp_SetScore de sp scores tp =
     rbind (Assign (de_index de) sp scores (tp_breakdown tp)) (\<lambda>bd.
       Inr (tp\<lparr>tp_breakdown := bd, tp_futureScore := Fin (GetWeightedScore (ce_weights (cp_cube (de_cells de))) bd)\<rparr>))"

definition TargetPhrase :: "'s decoder \<Rightarrow> nat \<Rightarrow> target_phrase" where
  "TargetPhrase de ptr = \<lparr>tp_ptr = ptr, tp_words = [], tp_futureScore = Fin 0,
     tp_breakdown = ScoreComponentCollection (de_index de), tp_align = [], tp_lhs = \<lparr>w_factors = [], w_isNonTerminal = False\<rparr>\<rparr>"

text \<open>The state: the translation options, the cache of target phrase collections (by address), and the next address.\<close>

record 's option_state =
  os_tol :: "'s trans_opt_list"
  os_cache :: "nat list"
  os_nextPtr :: nat

definition unknown_word :: "'s decoder \<Rightarrow> word \<Rightarrow> words_range \<Rightarrow> string \<times> real \<Rightarrow> 's option_state \<Rightarrow> 's option_state result" where
  "unknown_word de sourceWord rng entry st =
     (case entry of (targetLHSStr, prob) \<Rightarrow>
        let targetLHS = de_lhsWord de targetLHSStr; ptr = os_nextPtr st in
        rbind (check (GetFactor targetLHS 0 \<noteq> None)) (\<lambda>_.
        let tp0 = (TargetPhrase de ptr)\<lparr>tp_words := [CreateUnknownWord (de_unknownFactor de) sourceWord]\<rparr> in
        rbind (tp_SetScore de (de_unknownProducer de) [floored_log prob] tp0) (\<lambda>tp1.
        rbind (tp_SetScore de (de_wordPenaltyProducer de) word_penalty tp1) (\<lambda>tp2.
        rbind (tol_Add (de_optsel de) (os_tol st) [tp2\<lparr>tp_lhs := targetLHS\<rparr>] [] rng) (\<lambda>tol.
          Inr \<lparr>os_tol = tol, os_cache = os_cache st @ [ptr], os_nextPtr = Suc ptr\<rparr>)))))"

text \<open>
  All entries of a dropped word share one target phrase: a change of its left-hand side shows in the options that have been added
  with it.
\<close>

definition set_shared_lhs :: "nat \<Rightarrow> word \<Rightarrow> 's trans_opt_list \<Rightarrow> 's trans_opt_list" where
  "set_shared_lhs ptr lhs l = l\<lparr>tol_collection := map (\<lambda>opt. opt\<lparr>to_tpc :=
     map (\<lambda>tp. if tp_ptr tp = ptr then tp\<lparr>tp_lhs := lhs\<rparr> else tp) (to_tpc opt)\<rparr>) (tol_collection l)\<rparr>"

definition dropped_word :: "'s decoder \<Rightarrow> words_range \<Rightarrow> string \<times> real \<Rightarrow> target_phrase \<times> 's option_state
    \<Rightarrow> (target_phrase \<times> 's option_state) result" where
  "dropped_word de rng entry st =
     (case st of (tp, os) \<Rightarrow>
        let targetLHS = de_lhsWord de (fst entry) in
        rbind (check (GetFactor targetLHS 0 \<noteq> None)) (\<lambda>_.
        rbind (tp_SetScore de (de_unknownProducer de) [LOWEST_SCORE] tp) (\<lambda>tp1.
        let tp2 = tp1\<lparr>tp_lhs := targetLHS\<rparr> in
        rbind (tol_Add (de_optsel de) (set_shared_lhs (tp_ptr tp) targetLHS (os_tol os)) [tp2] [] rng) (\<lambda>tol.
          Inr (tp2, os\<lparr>os_tol := tol, os_cache := os_cache os @ [tp_ptr tp]\<rparr>)))))"

definition is_digit :: "char \<Rightarrow> bool" where
  "is_digit c \<longleftrightarrow> c \<in> set ''0123456789''"

text \<open>The label of the source word is fetched, and with it the check that the span is one word.\<close>

definition ProcessOneUnknownWord :: "'s decoder \<Rightarrow> 's chart \<Rightarrow> word \<Rightarrow> words_range \<Rightarrow> 's option_state \<Rightarrow> 's option_state result" where
  "ProcessOneUnknownWord de cells sourceWord rng st =
     rbind (chart_Get cells rng) (\<lambda>cell. rbind (GetSourceWordLabel cell) (\<lambda>_.
     rbind (if de_dropUnknown de
            then case GetFactor sourceWord 0 of None \<Rightarrow> Inl NullPointer | Some f \<Rightarrow> Inr (list_ex is_digit (de_string de f))
            else Inr False) (\<lambda>isDigit.
       if \<not> de_dropUnknown de \<or> isDigit then rfold (unknown_word de sourceWord rng) (de_unknownLHS de) st
       else rbind (rfold (dropped_word de rng) (de_unknownLHS de)
                    (TargetPhrase de (os_nextPtr st), st\<lparr>os_nextPtr := Suc (os_nextPtr st)\<rparr>)) (\<lambda>(_, st'). Inr st'))))"

text \<open>
  RemoveAllInColl deletes the objects at the addresses of a collection; alive are the objects not deleted yet. The
  destructor deletes the cached collections of target phrases; those allocated have the addresses below the next one.
\<close>

definition RemoveAllInColl :: "nat list \<Rightarrow> nat list \<Rightarrow> nat list result" where
  "RemoveAllInColl = rfold (\<lambda>ptr alive. if ptr \<in> set alive then Inr (removeAll ptr alive) else Inl DoubleDelete)"

definition delete_options :: "'s option_state \<Rightarrow> nat list result" where
  "delete_options st = RemoveAllInColl (os_cache st) [0..<os_nextPtr st]"

section \<open>Translation options of a span\<close>

text \<open>The lookup reads the chart; a span outside the chart has no labels.\<close>

definition chart_lookup_env :: "'s decoder \<Rightarrow> 's chart \<Rightarrow> 's lookup_env" where
  "chart_lookup_env de cells =
     \<lparr>le_source = (\<lambda>i. case chart_Get cells (WordsRange i i) of
          Inr cell \<Rightarrow> (case GetSourceWordLabel cell of Inr lab \<Rightarrow> lab
             | Inl _ \<Rightarrow> \<lparr>cl_coverage = WordsRange i i, cl_label = \<lparr>w_factors = [], w_isNonTerminal = False\<rparr>, cl_stack = None\<rparr>)
        | Inl _ \<Rightarrow> \<lparr>cl_coverage = WordsRange i i, cl_label = \<lparr>w_factors = [], w_isNonTerminal = False\<rparr>, cl_stack = None\<rparr>),
      le_labelSet = de_labels de,
      le_targets = (\<lambda>s e. case chart_Get cells (WordsRange s e) of Inr cell \<Rightarrow> cc_targetLabelSet cell | Inl _ \<Rightarrow> []),
      le_clauseMode = de_clauseMode de, le_clauseBounds = de_clauseBounds de, le_pool = de_pool de\<rparr>"

definition lookup_graph :: "'s decoder \<Rightarrow> 's chart \<Rightarrow> words_range \<Rightarrow> nat \<times> decode_graph
    \<Rightarrow> 's lookup_manager list \<times> 's option_state \<Rightarrow> ('s lookup_manager list \<times> 's option_state) result" where
  "lookup_graph de cells rng ig st =
     (case (ig, st) of ((i, graph), (managers, os)) \<Rightarrow>
        rbind (assert (dg_size graph = 1)) (\<lambda>_.
        rbind (array_get managers i) (\<lambda>lm.
        rbind (GetMaxChartSpan graph) (\<lambda>maxSpan.
          if maxSpan = 0 \<or> range_GetNumWordsCovered rng \<le> maxSpan
          then rbind (GetChartRuleCollection (de_optsel de) (chart_lookup_env de cells) rng (dg_minChartSpan graph) (lm, os_tol os))
                 (\<lambda>(lm', tol). Inr (managers[i := lm'], os\<lparr>os_tol := tol\<rparr>))
          else Inr (managers, os)))))"

definition needs_unknown :: "'s decoder \<Rightarrow> words_range \<Rightarrow> 's trans_opt_list \<Rightarrow> bool" where
  "needs_unknown de rng tol \<longleftrightarrow>
     range_GetNumWordsCovered rng = 1 \<and> GetStartPos rng \<noteq> 0 \<and> GetStartPos rng \<noteq> sz_sub (length (de_source de)) 1
     \<and> (tol_size tol = 0 \<or> de_alwaysDirect de)"

definition CreateTranslationOptionsForRange :: "'s decoder \<Rightarrow> 's chart \<Rightarrow> words_range
    \<Rightarrow> 's lookup_manager list \<times> 's option_state \<Rightarrow> ('s lookup_manager list \<times> 's option_state) result" where
  "CreateTranslationOptionsForRange de cells rng st =
     (case st of (managers, os) \<Rightarrow>
        rbind (assert (length (de_graphs de) = length managers)) (\<lambda>_.
        rbind (rfold (lookup_graph de cells rng) (enumerate 0 (de_graphs de)) (managers, os\<lparr>os_tol := tol_Clear (os_tol os)\<rparr>))
          (\<lambda>(managers', os1).
        rbind (if needs_unknown de rng (os_tol os1)
               then rbind (array_get (de_source de) (GetStartPos rng)) (\<lambda>sourceWord. ProcessOneUnknownWord de cells sourceWord rng os1)
               else Inr os1) (\<lambda>os2.
          Inr (managers', os2\<lparr>os_tol := tol_ApplyThreshold (de_part de) (de_threshold de) (os_tol os2)\<rparr>)))))"

section \<open>The manager\<close>

record 's manager =
  mg_chart :: "'s chart"
  mg_lookups :: "'s lookup_manager list"
  mg_options :: "'s option_state"
  mg_hypothesisId :: nat

text \<open>The tries of the rule tables are arguments of the constructor.\<close>

definition ChartManager :: "'s decoder \<Rightarrow> nat \<Rightarrow> rule_node list \<Rightarrow> 's manager result" where
  "ChartManager de ruleLimit tries =
     rbind (ChartCellCollection (de_cells de) (de_source de)) (\<lambda>cells.
     rbind (rmap (ChartRuleLookupManagerMinSpan (length (de_source de))) tries) (\<lambda>lms.
       Inr \<lparr>mg_chart = cells, mg_lookups = lms,
            mg_options = \<lparr>os_tol = ChartTranslationOptionList ruleLimit, os_cache = [], os_nextPtr = 0\<rparr>, mg_hypothesisId = 0\<rparr>))"

definition process_span :: "'s decoder \<Rightarrow> words_range \<Rightarrow> 's manager \<Rightarrow> 's manager result" where
  "process_span de rng mg =
     rbind (CreateTranslationOptionsForRange de (mg_chart mg) rng (mg_lookups mg, mg_options mg)) (\<lambda>(lms, os).
     rbind (chart_Get (mg_chart mg) rng) (\<lambda>cell.
     rbind (cell_ProcessSentence (de_cells de) (os_tol os) (cell, mg_hypothesisId mg)) (\<lambda>(cell1, n).
     rbind (cell_PruneToSize (de_cells de) cell1) (\<lambda>cell2.
     rbind (cell_CleanupArcList (de_cells de) cell2) (\<lambda>cell3.
     rbind (cell_SortHypotheses (de_cells de) cell3) (\<lambda>cell4.
     rbind (chart_set rng cell4 (mg_chart mg)) (\<lambda>cells.
       Inr (mg\<lparr>mg_chart := cells, mg_lookups := lms, mg_options := os\<lparr>os_tol := tol_Clear (os_tol os)\<rparr>, mg_hypothesisId := n\<rparr>))))))))"

text \<open>The spans in the order of the main loop.\<close>

definition spans :: "nat \<Rightarrow> words_range list" where
  "spans n = concat (map (\<lambda>width. map (\<lambda>startPos. WordsRange startPos (startPos + width - 1)) [0..<n - width + 1]) [1..<n + 1])"

text \<open>An option of the XML input: its first target phrase gets the word penalty, then it is the only choice of a cube item.\<close>

definition AddXmlOption :: "'s decoder \<Rightarrow> 's trans_option \<Rightarrow> 's manager \<Rightarrow> 's manager result" where
  "AddXmlOption de opt mg =
     rbind (array_get (to_tpc opt) 0) (\<lambda>tp.
     rbind (tp_SetScore de (de_wordPenaltyProducer de) word_penalty tp) (\<lambda>tp'.
     let opt' = opt\<lparr>to_tpc := (to_tpc opt)[0 := tp']\<rparr> in
     rbind (RuleCubeItem opt') (\<lambda>item.
     rbind (ChartHypothesis (cp_cube (de_cells de)) opt' item (mg_hypothesisId mg)) (\<lambda>h0.
     rbind (CalcScore (cp_cube (de_cells de)) h0) (\<lambda>hypo.
     rbind (chart_Get (mg_chart mg) (to_range opt')) (\<lambda>cell.
     rbind (cell_AddHypothesis (de_cells de) hypo cell) (\<lambda>cell'.
     rbind (chart_set (to_range opt') cell' (mg_chart mg)) (\<lambda>cells.
       Inr (mg\<lparr>mg_chart := cells, mg_hypothesisId := Suc (mg_hypothesisId mg)\<rparr>)))))))))"

definition AddXmlChartOptions :: "'s decoder \<Rightarrow> 's trans_option list \<Rightarrow> 's manager \<Rightarrow> 's manager result" where
  "AddXmlChartOptions de = rfold (AddXmlOption de)"

definition ProcessSentence :: "'s decoder \<Rightarrow> 's trans_option list \<Rightarrow> 's manager \<Rightarrow> 's manager result" where
  "ProcessSentence de xmlOptions mg =
     rbind (AddXmlChartOptions de xmlOptions mg) (rfold (process_span de) (spans (length (de_source de))))"

definition GetBestHypothesis :: "'s decoder \<Rightarrow> 's manager \<Rightarrow> 's hypo option result" where
  "GetBestHypothesis de mg =
     (if length (de_source de) = 0 then Inr None
      else rbind (chart_Get (mg_chart mg) (WordsRange 0 (length (de_source de) - 1))) cell_GetBestHypothesis)"

end
