(* ===== verification/ManagerProps.thy ===== *)
theory ManagerProps
  imports Manager CellProps
begin

text \<open>
  Properties of the chart decoder of theory Manager: the translations of unknown words, what
  happens to dropped words, the order of the spans, and that an inner word always has an option.
\<close>

section \<open>Translations of unknown words\<close>

text \<open>A producer that is registered with one score.\<close>

definition single :: "score_producer list \<Rightarrow> score_producer \<Rightarrow> bool" where
  "single sps sp \<longleftrightarrow> sp_id sp < length sps \<and> sp_components sp = 1 \<and> sp_components (sps ! sp_id sp) = 1"

text \<open>What the decoder needs for unknown words: registered producers and left-hand sides with a surface string.\<close>

definition unknown_ok :: "score_producer list \<Rightarrow> 's decoder \<Rightarrow> bool" where
  "unknown_ok sps de \<longleftrightarrow> wf_index sps (de_index de)
     \<and> single sps (de_unknownProducer de) \<and> single sps (de_wordPenaltyProducer de)
     \<and> (\<forall>(lhs, p) \<in> set (de_unknownLHS de). GetFactor (de_lhsWord de lhs) 0 \<noteq> None)"

abbreviation with_score :: "score_producer list \<Rightarrow> score_producer \<Rightarrow> real \<Rightarrow> real list \<Rightarrow> real list" where
  "with_score sps sp x bd \<equiv> bd[slot sps (sp_id sp) := x]"

lemma single_slot:
  assumes "wf_index sps sim" "single sps sp"
  shows "GetBeginIndex sim (sp_id sp) = Inr (slot sps (sp_id sp))" "slot sps (sp_id sp) < si_last sim"
  using wf_range [of sps sim "sp_id sp" sp] assms by (auto simp: single_def)

lemma Assign_single:
  assumes "wf_index sps sim" "single sps sp" "length bd = si_last sim"
  shows "Assign sim sp [x] bd = Inr (with_score sps sp x bd)"
  using single_slot [OF assms(1,2)] assms(2,3) by (simp add: Assign_def single_def update_at_in)

definition unknown_breakdown :: "score_producer list \<Rightarrow> 's decoder \<Rightarrow> real \<Rightarrow> real list" where
  "unknown_breakdown sps de p = with_score sps (de_wordPenaltyProducer de) (- 0.434294482)
     (with_score sps (de_unknownProducer de) (floored_log p) (replicate (si_last (de_index de)) 0))"

text \<open>The translation of an unknown word for one entry of the list of left-hand sides.\<close>

definition unknown_phrase :: "score_producer list \<Rightarrow> 's decoder \<Rightarrow> word \<Rightarrow> string \<times> real \<Rightarrow> nat \<Rightarrow> target_phrase" where
  "unknown_phrase sps de sourceWord entry ptr =
     \<lparr>tp_ptr = ptr, tp_words = [CreateUnknownWord (de_unknownFactor de) sourceWord],
      tp_futureScore = Fin (GetWeightedScore (ce_weights (cp_cube (de_cells de))) (unknown_breakdown sps de (snd entry))),
      tp_breakdown = unknown_breakdown sps de (snd entry), tp_align = [], tp_lhs = de_lhsWord de (fst entry)\<rparr>"

lemma unknown_word_eq:
  assumes "unknown_ok sps de" "entry \<in> set (de_unknownLHS de)"
  shows "unknown_word de sourceWord rng entry st =
    rbind (tol_Add (de_optsel de) (os_tol st) [unknown_phrase sps de sourceWord entry (os_nextPtr st)] [] rng) (\<lambda>tol.
      Inr \<lparr>os_tol = tol, os_cache = os_cache st @ [os_nextPtr st], os_nextPtr = Suc (os_nextPtr st)\<rparr>)"
  using assms
  by (auto simp: unknown_word_def unknown_ok_def tp_SetScore_def Assign_single ScoreComponentCollection_def
    TargetPhrase_def word_penalty_def unknown_phrase_def unknown_breakdown_def Let_def split: prod.splits)

lemma tol_Adds_Cons: "tol_Adds sel ((tpc, stackVec, rng) # offers) l = rbind (tol_Add sel l tpc stackVec rng) (tol_Adds sel offers)"
  by (simp add: tol_Adds_def)

text \<open>The offers of all entries, with the addresses from ptr on.\<close>

definition unknown_offers :: "score_producer list \<Rightarrow> 's decoder \<Rightarrow> word \<Rightarrow> words_range \<Rightarrow> (string \<times> real) list \<Rightarrow> nat
    \<Rightarrow> (target_phrase list \<times> 's stack_vec \<times> words_range) list" where
  "unknown_offers sps de sourceWord rng entries ptr =
     map (\<lambda>(i, entry). ([unknown_phrase sps de sourceWord entry i], [], rng)) (enumerate ptr entries)"

lemma unknown_words_eq:
  assumes "unknown_ok sps de" "set entries \<subseteq> set (de_unknownLHS de)"
  shows "rfold (unknown_word de sourceWord rng) entries st =
    rbind (tol_Adds (de_optsel de) (unknown_offers sps de sourceWord rng entries (os_nextPtr st)) (os_tol st)) (\<lambda>tol.
      Inr \<lparr>os_tol = tol, os_cache = os_cache st @ [os_nextPtr st..<os_nextPtr st + length entries],
           os_nextPtr = os_nextPtr st + length entries\<rparr>)"
  using assms(2)
proof (induction entries arbitrary: st)
  case Nil
  show ?case by (simp add: unknown_offers_def tol_Adds_def)
next
  case (Cons entry entries)
  have step: "unknown_word de sourceWord rng entry st =
    rbind (tol_Add (de_optsel de) (os_tol st) [unknown_phrase sps de sourceWord entry (os_nextPtr st)] [] rng) (\<lambda>tol.
      Inr \<lparr>os_tol = tol, os_cache = os_cache st @ [os_nextPtr st], os_nextPtr = Suc (os_nextPtr st)\<rparr>)"
    using Cons.prems by (intro unknown_word_eq [OF assms(1)]) simp
  show ?case
    using Cons.IH Cons.prems
    by (cases "tol_Add (de_optsel de) (os_tol st) [unknown_phrase sps de sourceWord entry (os_nextPtr st)] [] rng")
      (simp_all add: step unknown_offers_def tol_Adds_Cons upt_conv_Cons del: upt_Suc)
qed

definition kept_word :: "'s decoder \<Rightarrow> word \<Rightarrow> bool" where
  "kept_word de sourceWord \<longleftrightarrow> \<not> de_dropUnknown de
     \<or> (\<exists>f. GetFactor sourceWord 0 = Some f \<and> (\<exists>c \<in> set (de_string de f). is_digit c))"

lemma ProcessOneUnknownWord_kept:
  assumes "unknown_ok sps de" "kept_word de sourceWord" "chart_Get cells rng = Inr cell" "GetSourceWordLabel cell = Inr lab"
  shows "ProcessOneUnknownWord de cells sourceWord rng st =
    rbind (tol_Adds (de_optsel de) (unknown_offers sps de sourceWord rng (de_unknownLHS de) (os_nextPtr st)) (os_tol st)) (\<lambda>tol.
      Inr \<lparr>os_tol = tol, os_cache = os_cache st @ [os_nextPtr st..<os_nextPtr st + length (de_unknownLHS de)],
           os_nextPtr = os_nextPtr st + length (de_unknownLHS de)\<rparr>)"
  using assms(2-) unknown_words_eq [OF assms(1) subset_refl]
  by (auto simp: ProcessOneUnknownWord_def kept_word_def list_ex_iff)

text \<open>While there is room, the options are stored one after the other.\<close>

lemma tol_Adds_room:
  fixes l :: "'s trans_opt_list"
  assumes "\<forall>(tpc, stackVec, rng) \<in> set offers. tpc \<noteq> [] \<and> stackVec = []"
    and "tol_size l + length offers \<le> tol_ruleLimit l" "tol_size l \<le> length (tol_collection l)"
  shows "\<exists>l'. tol_Adds sel offers l = Inr l' \<and> used l' = used l @ map (\<lambda>(tpc, stackVec, rng). the_option tpc stackVec rng) offers
    \<and> tol_ruleLimit l' = tol_ruleLimit l \<and> tol_size l' = tol_size l + length offers \<and> tol_size l' \<le> length (tol_collection l')"
  using assms
proof (induction offers arbitrary: l)
  case Nil
  then show ?case by (simp add: tol_Adds_def)
next
  case (Cons offer offers)
  obtain tpc rng where offer: "offer = (tpc, [], rng)" "tpc \<noteq> []" using Cons.prems(1) by (cases offer) auto
  let ?coll = "if tol_size l = length (tol_collection l) then tol_collection l @ [the_option tpc [] rng]
    else (tol_collection l)[tol_size l := the_option tpc [] rng]"
  let ?l = "l\<lparr>tol_collection := ?coll, tol_size := tol_size l + 1, tol_threshold := min (estimate tpc ([] :: 's stack_vec)) (tol_threshold l)\<rparr>"
  have "tol_Add sel l tpc [] rng = Inr ?l"
    using offer(2) Cons.prems(2,3) by (auto simp: tol_Add_def CalcEstimate_eq tol_burst_def Let_def score_min_if)
  moreover have "used ?l = used l @ [the_option tpc [] rng]"
    using Cons.prems(3) by (auto simp: used_def take_Suc_conv_app_nth)
  moreover have "tol_size ?l + length offers \<le> tol_ruleLimit ?l" "tol_size ?l \<le> length (tol_collection ?l)"
    using Cons.prems(2,3) by auto
  ultimately show ?case using Cons.IH [of ?l] Cons.prems(1) by (simp add: offer(1) tol_Adds_Cons)
qed

text \<open>The weighted score of a vector with two entries.\<close>

lemma GetWeightedScore_two:
  assumes "i < n" "j < n" "i \<noteq> j" "length weights = n"
  shows "GetWeightedScore weights ((replicate n 0)[i := a, j := b]) = weights ! i * a + weights ! j * b"
proof -
  let ?xs = "(replicate n 0)[i := a, j := b]"
  have "GetWeightedScore weights ?xs = (\<Sum>k<n. ?xs ! k * weights ! k)"
    using assms by (simp add: GetWeightedScore_def sum_list_sum_nth atLeast0LessThan)
  also have "\<dots> = (\<Sum>k<n. (if k = i then weights ! i * a else 0) + (if k = j then weights ! j * b else 0))"
    using assms by (intro sum.cong) (auto simp: nth_list_update)
  also have "\<dots> = weights ! i * a + weights ! j * b"
    using assms by (simp add: sum.distrib)
  finally show ?thesis .
qed

lemma slot_inj:
  assumes "i < length sps" "j < length sps" "slot sps i = slot sps j" "sp_components (sps ! i) = 1" "sp_components (sps ! j) = 1"
  shows "i = j"
proof (rule ccontr)
  assume "i \<noteq> j"
  then have "slot sps (Suc i) \<le> slot sps j \<or> slot sps (Suc j) \<le> slot sps i"
    using slot_mono [of "Suc i" j sps] slot_mono [of "Suc j" i sps] by linarith
  then show False using assms by (simp add: slot_Suc)
qed

lemma unknown_score:
  assumes "unknown_ok sps de" "sp_id (de_unknownProducer de) \<noteq> sp_id (de_wordPenaltyProducer de)"
    and "length (ce_weights (cp_cube (de_cells de))) = si_last (de_index de)"
  shows "GetWeightedScore (ce_weights (cp_cube (de_cells de))) (unknown_breakdown sps de p)
    = ce_weights (cp_cube (de_cells de)) ! slot sps (sp_id (de_unknownProducer de)) * floored_log p
      + ce_weights (cp_cube (de_cells de)) ! slot sps (sp_id (de_wordPenaltyProducer de)) * (- 0.434294482)"
  unfolding unknown_breakdown_def
  using assms single_slot(2) [of sps "de_index de"] slot_inj [of "sp_id (de_unknownProducer de)" sps "sp_id (de_wordPenaltyProducer de)"]
  by (intro GetWeightedScore_two) (auto simp: unknown_ok_def single_def)

text \<open>An option for an unknown word, as one entry of the list of left-hand sides asks for it.\<close>

definition unknown_option :: "score_producer list \<Rightarrow> 's decoder \<Rightarrow> word \<Rightarrow> words_range \<Rightarrow> 's trans_option \<Rightarrow> string \<times> real \<Rightarrow> bool" where
  "unknown_option sps de sourceWord rng opt entry \<longleftrightarrow>
     to_stackVec opt = [] \<and> to_range opt = rng
     \<and> map tp_words (to_tpc opt) = [[CreateUnknownWord (de_unknownFactor de) sourceWord]]
     \<and> map tp_lhs (to_tpc opt) = [de_lhsWord de (fst entry)]
     \<and> to_estimate opt = Fin (ce_weights (cp_cube (de_cells de)) ! slot sps (sp_id (de_unknownProducer de)) * floored_log (snd entry)
           + ce_weights (cp_cube (de_cells de)) ! slot sps (sp_id (de_wordPenaltyProducer de)) * (- 0.434294482))"

lemma unknown_offers_options:
  assumes "unknown_ok sps de" "sp_id (de_unknownProducer de) \<noteq> sp_id (de_wordPenaltyProducer de)"
    and "length (ce_weights (cp_cube (de_cells de))) = si_last (de_index de)"
  shows "list_all2 (unknown_option sps de sourceWord rng)
    (map (\<lambda>(tpc, stackVec, rng). the_option tpc stackVec rng) (unknown_offers sps de sourceWord rng entries ptr)) entries"
  by (induction entries arbitrary: ptr)
    (auto simp: unknown_offers_def unknown_option_def estimate_def unknown_phrase_def unknown_score [OF assms])

text \<open>Deleting distinct addresses that are alive succeeds; deleting one of them twice does not.\<close>

lemma RemoveAllInColl_distinct:
  "distinct ptrs \<Longrightarrow> set ptrs \<subseteq> set alive \<Longrightarrow> \<exists>rest. RemoveAllInColl ptrs alive = Inr rest"
proof (induction ptrs arbitrary: alive)
  case (Cons ptr ptrs)
  then have "set ptrs \<subseteq> set (removeAll ptr alive)" by auto
  then show ?case using Cons by (auto simp: RemoveAllInColl_def)
qed (simp add: RemoveAllInColl_def)

lemma RemoveAllInColl_twice:
  "\<not> distinct ptrs \<Longrightarrow> RemoveAllInColl ptrs alive = Inl DoubleDelete"
proof (induction ptrs arbitrary: alive)
  case (Cons ptr ptrs)
  have later: "ptr \<in> set ptrs \<Longrightarrow> ptr \<notin> set al \<Longrightarrow> RemoveAllInColl ptrs al = Inl DoubleDelete" for ptr al
  proof (induction ptrs arbitrary: al)
    case (Cons p ps)
    then show ?case by (cases "p = ptr") (auto simp: RemoveAllInColl_def)
  qed simp
  show ?case
  proof (cases "distinct ptrs")
    case True
    then have "ptr \<in> set ptrs" using Cons.prems by simp
    from later [OF this, of "removeAll ptr alive"] show ?thesis by (simp add: RemoveAllInColl_def)
  next
    case False
    then show ?thesis using Cons.IH by (simp add: RemoveAllInColl_def)
  qed
qed simp

lemma RemoveAllInColl_result:
  "(\<exists>rest. RemoveAllInColl ptrs alive = Inr rest) \<longleftrightarrow> distinct ptrs \<and> set ptrs \<subseteq> set alive"
proof
  assume a: "\<exists>rest. RemoveAllInColl ptrs alive = Inr rest"
  have "RemoveAllInColl ptrs alive = Inr rest \<Longrightarrow> set ptrs \<subseteq> set alive" for rest
    by (induction ptrs arbitrary: alive) (fastforce simp: RemoveAllInColl_def split: if_splits)+
  then show "distinct ptrs \<and> set ptrs \<subseteq> set alive" using a RemoveAllInColl_twice by fastforce
qed (use RemoveAllInColl_distinct in blast)

section \<open>Dropped words\<close>

text \<open>The phrase all entries of a dropped word share, with the left-hand side it has at the moment.\<close>

definition dropped_phrase :: "score_producer list \<Rightarrow> 's decoder \<Rightarrow> nat \<Rightarrow> real list \<Rightarrow> score \<Rightarrow> word \<Rightarrow> target_phrase" where
  "dropped_phrase sps de ptr bd sc lhs = \<lparr>tp_ptr = ptr, tp_words = [], tp_futureScore = sc, tp_breakdown = bd, tp_align = [], tp_lhs = lhs\<rparr>"

abbreviation floor_breakdown :: "score_producer list \<Rightarrow> 's decoder \<Rightarrow> real list" where
  "floor_breakdown sps de \<equiv> with_score sps (de_unknownProducer de) LOWEST_SCORE (replicate (si_last (de_index de)) 0)"

abbreviation floor_phrase :: "score_producer list \<Rightarrow> 's decoder \<Rightarrow> nat \<Rightarrow> word \<Rightarrow> target_phrase" where
  "floor_phrase sps de ptr \<equiv> dropped_phrase sps de ptr (floor_breakdown sps de)
     (Fin (GetWeightedScore (ce_weights (cp_cube (de_cells de))) (floor_breakdown sps de)))"

abbreviation floor_option :: "score_producer list \<Rightarrow> 's decoder \<Rightarrow> words_range \<Rightarrow> nat \<Rightarrow> word \<Rightarrow> 's trans_option" where
  "floor_option sps de rng ptr lhs \<equiv> the_option [floor_phrase sps de ptr lhs] [] rng"

lemma used_set_shared: "used (set_shared_lhs ptr lhs l) = map (\<lambda>opt. opt\<lparr>to_tpc :=
     map (\<lambda>tp. if tp_ptr tp = ptr then tp\<lparr>tp_lhs := lhs\<rparr> else tp) (to_tpc opt)\<rparr>) (used l)"
  by (simp add: used_def set_shared_lhs_def take_map)

lemma dropped_step:
  fixes de :: "'s decoder" and st :: "'s option_state"
  assumes "unknown_ok sps de" "entry \<in> set (de_unknownLHS de)"
    and "used (os_tol st) = replicate k (floor_option sps de rng ptr lhs0)"
    and "tol_size (os_tol st) < tol_ruleLimit (os_tol st)" "tol_size (os_tol st) \<le> length (tol_collection (os_tol st))"
    and "length bd = si_last (de_index de)" "with_score sps (de_unknownProducer de) LOWEST_SCORE bd = floor_breakdown sps de"
  shows "\<exists>tol. dropped_word de rng entry (dropped_phrase sps de ptr bd sc lhs, st)
      = Inr (floor_phrase sps de ptr (de_lhsWord de (fst entry)), st\<lparr>os_tol := tol, os_cache := os_cache st @ [ptr]\<rparr>)
    \<and> used tol = replicate (Suc k) (floor_option sps de rng ptr (de_lhsWord de (fst entry)))
    \<and> tol_ruleLimit tol = tol_ruleLimit (os_tol st) \<and> tol_size tol = Suc (tol_size (os_tol st))
    \<and> tol_size tol \<le> length (tol_collection tol)"
proof -
  let ?lhs = "de_lhsWord de (fst entry)"
  let ?l = "set_shared_lhs ptr ?lhs (os_tol st)" and ?tp = "floor_phrase sps de ptr ?lhs"
  let ?offers = "[([?tp], [] :: 's stack_vec, rng)]"
  have l: "tol_size ?l = tol_size (os_tol st)" "tol_ruleLimit ?l = tol_ruleLimit (os_tol st)"
    "length (tol_collection ?l) = length (tol_collection (os_tol st))"
    by (simp_all add: set_shared_lhs_def)
  have "used ?l = replicate k (floor_option sps de rng ptr ?lhs)"
    by (simp add: used_set_shared assms(3) dropped_phrase_def estimate_def)
  moreover have "\<exists>tol. tol_Adds (de_optsel de) ?offers ?l = Inr tol
      \<and> used tol = used ?l @ map (\<lambda>(tpc, stackVec, rng). the_option tpc stackVec rng) ?offers
      \<and> tol_ruleLimit tol = tol_ruleLimit ?l \<and> tol_size tol = tol_size ?l + length ?offers
      \<and> tol_size tol \<le> length (tol_collection tol)"
    by (rule tol_Adds_room) (use assms(4,5) l in simp_all)
  ultimately obtain tol where tol: "tol_Add (de_optsel de) ?l [?tp] [] rng = Inr tol"
      "used tol = replicate (Suc k) (floor_option sps de rng ptr ?lhs)" "tol_ruleLimit tol = tol_ruleLimit (os_tol st)"
      "tol_size tol = Suc (tol_size (os_tol st))" "tol_size tol \<le> length (tol_collection tol)"
    using l by (auto simp: tol_Adds_def rbind_eq_Inr replicate_append_same)
  moreover have "GetFactor ?lhs 0 \<noteq> None" using assms(1,2) by (auto simp: unknown_ok_def)
  moreover have "tp_SetScore de (de_unknownProducer de) [LOWEST_SCORE] (dropped_phrase sps de ptr bd sc lhs)
      = Inr (floor_phrase sps de ptr lhs)"
    using Assign_single [of sps "de_index de" "de_unknownProducer de" bd LOWEST_SCORE] assms(1,6,7)
    by (simp add: tp_SetScore_def unknown_ok_def dropped_phrase_def)
  ultimately show ?thesis
    by (intro exI [of _ tol]) (simp add: dropped_word_def Let_def dropped_phrase_def)
qed

lemma dropped_loop:
  fixes de :: "'s decoder" and st :: "'s option_state"
  assumes "unknown_ok sps de" "set entries \<subseteq> set (de_unknownLHS de)"
    and "used (os_tol st) = replicate k (floor_option sps de rng ptr lhs0)"
    and "tol_size (os_tol st) + length entries \<le> tol_ruleLimit (os_tol st)" "tol_size (os_tol st) \<le> length (tol_collection (os_tol st))"
    and "length bd = si_last (de_index de)" "with_score sps (de_unknownProducer de) LOWEST_SCORE bd = floor_breakdown sps de"
  shows "\<exists>tp tol. rfold (dropped_word de rng) entries (dropped_phrase sps de ptr bd sc lhs, st)
      = Inr (tp, st\<lparr>os_tol := tol, os_cache := os_cache st @ replicate (length entries) ptr\<rparr>)
    \<and> used tol = replicate (k + length entries)
        (floor_option sps de rng ptr (if entries = [] then lhs0 else de_lhsWord de (fst (last entries))))"
  using assms(2-)
proof (induction entries arbitrary: st k lhs0 bd sc lhs)
  case Nil
  then show ?case by (intro exI [of _ "dropped_phrase sps de ptr bd sc lhs"] exI [of _ "os_tol st"]) simp
next
  case (Cons entry entries)
  let ?lhs = "de_lhsWord de (fst entry)"
  have "entry \<in> set (de_unknownLHS de)" "tol_size (os_tol st) < tol_ruleLimit (os_tol st)" using Cons.prems by auto
  from dropped_step [OF assms(1) this(1) Cons.prems(2) this(2) Cons.prems(4,5,6)]
  obtain tol where tol: "dropped_word de rng entry (dropped_phrase sps de ptr bd sc lhs, st)
      = Inr (floor_phrase sps de ptr ?lhs, st\<lparr>os_tol := tol, os_cache := os_cache st @ [ptr]\<rparr>)"
    "used tol = replicate (Suc k) (floor_option sps de rng ptr ?lhs)" "tol_ruleLimit tol = tol_ruleLimit (os_tol st)"
    "tol_size tol = Suc (tol_size (os_tol st))" "tol_size tol \<le> length (tol_collection tol)"
    by blast
  let ?st = "st\<lparr>os_tol := tol, os_cache := os_cache st @ [ptr]\<rparr>"
  have "\<exists>tp tol'. rfold (dropped_word de rng) entries (floor_phrase sps de ptr ?lhs, ?st)
      = Inr (tp, ?st\<lparr>os_tol := tol', os_cache := os_cache ?st @ replicate (length entries) ptr\<rparr>)
    \<and> used tol' = replicate (Suc k + length entries)
        (floor_option sps de rng ptr (if entries = [] then ?lhs else de_lhsWord de (fst (last entries))))"
    using Cons.prems(1,3,5) tol by (intro Cons.IH) simp_all
  then show ?case using tol(1) by auto
qed

section \<open>The spans\<close>

abbreviation spans_of :: "nat \<Rightarrow> nat \<Rightarrow> words_range list" where
  "spans_of n width \<equiv> map (\<lambda>startPos. WordsRange startPos (startPos + width - 1)) [0..<n - width + 1]"

definition span_width :: "words_range \<Rightarrow> nat" where
  "span_width rng = GetEndPos rng + 1 - GetStartPos rng"

lemma in_concat_map: "x \<in> set (concat (map f ws)) \<longleftrightarrow> (\<exists>w \<in> set ws. x \<in> set (f w))"
  by simp

lemma in_spans: "r \<in> set (spans n) \<longleftrightarrow> (\<exists>w \<in> set [1..<n + 1]. r \<in> set (spans_of n w))"
  unfolding spans_def by (rule in_concat_map)

lemma set_spans: "set (spans n) = {WordsRange s e | s e. s \<le> e \<and> e < n}"
proof (intro equalityI subsetI)
  fix r assume "r \<in> {WordsRange s e | s e. s \<le> e \<and> e < n}"
  then obtain s e where r: "r = WordsRange s e" "s \<le> e" "e < n" by auto
  then have "s \<in> set [0..<n - (e + 1 - s) + 1]" "r = WordsRange s (s + (e + 1 - s) - 1)" by auto
  then have "r \<in> set (spans_of n (e + 1 - s))" unfolding set_map by blast
  moreover have "e + 1 - s \<in> set [1..<n + 1]" using r by auto
  ultimately show "r \<in> set (spans n)" unfolding in_spans by (intro bexI)
next
  fix r assume "r \<in> set (spans n)"
  then obtain w where w: "w \<in> set [1..<n + 1]" "r \<in> set (spans_of n w)" unfolding in_spans by (rule bexE)
  then obtain s where "s \<in> set [0..<n - w + 1]" "r = WordsRange s (s + w - 1)" unfolding set_map by blast
  then show "r \<in> {WordsRange s e | s e. s \<le> e \<and> e < n}" using w(1) by auto
qed

lemma spans_sorted: "sorted_wrt (\<lambda>a b. span_width a < span_width b \<or> span_width a = span_width b \<and> GetStartPos a < GetStartPos b) (spans n)"
proof -
  let ?P = "\<lambda>a b. span_width a < span_width b \<or> span_width a = span_width b \<and> GetStartPos a < GetStartPos b"
  have inner: "sorted_wrt ?P (spans_of n w)" if "w \<ge> 1" for w
    unfolding sorted_wrt_map using that
    by (intro sorted_wrt_mono_rel [OF _ sorted_wrt_upt]) (simp add: span_width_def)
  have width: "r \<in> set (spans_of n w) \<Longrightarrow> w \<ge> 1 \<Longrightarrow> span_width r = w" for r w
    by (auto simp: span_width_def)
  have "sorted_wrt ?P (concat (map (spans_of n) ws))" if "sorted_wrt (<) ws" "\<forall>w \<in> set ws. w \<ge> 1" for ws
    using that
  proof (induction ws)
    case (Cons w ws)
    have "?P a b" if a: "a \<in> set (spans_of n w)" and b: "b \<in> set (concat (map (spans_of n) ws))" for a b
    proof -
      obtain v where v: "v \<in> set ws" "b \<in> set (spans_of n v)" using b unfolding in_concat_map by (rule bexE)
      then have "w < v" "1 \<le> w" "1 \<le> v" using Cons.prems by auto
      then show ?thesis using width [OF a] width [OF v(2)] by simp
    qed
    moreover have "sorted_wrt ?P (spans_of n w)" "sorted_wrt ?P (concat (map (spans_of n) ws))" using Cons inner by simp_all
    ultimately show ?case unfolding list.map concat.simps sorted_wrt_append by blast
  qed simp
  then show ?thesis by (simp add: spans_def del: upt_Suc)
qed

lemma spans_distinct: "distinct (spans n)"
  unfolding distinct_conv_nth
proof (intro allI impI)
  fix i j assume ij: "i < length (spans n)" "j < length (spans n)" "i \<noteq> j"
  show "spans n ! i \<noteq> spans n ! j"
    using sorted_wrt_nth_less [OF spans_sorted, of i j n] sorted_wrt_nth_less [OF spans_sorted, of j i n] ij
    by (cases rule: linorder_cases [of i j]) auto
qed

lemma spans_before:
  assumes "i < length (spans n)"
    and "s \<le> e \<and> GetStartPos (spans n ! i) \<le> s \<and> e \<le> GetEndPos (spans n ! i) \<and> WordsRange s e \<noteq> spans n ! i"
  shows "WordsRange s e \<in> set (take i (spans n))"
proof -
  let ?r = "spans n ! i"
  have "?r \<in> set (spans n)" using assms(1) by simp
  then have r: "GetStartPos ?r \<le> GetEndPos ?r" "GetEndPos ?r < n" unfolding set_spans by auto
  then have "WordsRange s e \<in> set (spans n)" using assms(2) unfolding set_spans by auto
  then obtain j where j: "j < length (spans n)" "spans n ! j = WordsRange s e" by (auto simp: in_set_conv_nth)
  have "span_width (WordsRange s e) < span_width ?r"
    using assms(2) r by (cases ?r) (auto simp: span_width_def)
  then have "j < i"
    using sorted_wrt_nth_less [OF spans_sorted, of i j n] j assms(1)
    by (cases rule: linorder_cases [of i j]) auto
  then show ?thesis using j assms(1) by (auto simp: in_set_conv_nth intro!: exI [of _ j])
qed

section \<open>The list of options of a word\<close>

definition tol_ok :: "nat \<Rightarrow> 's trans_opt_list \<Rightarrow> bool" where
  "tol_ok n l \<longleftrightarrow> tol_ruleLimit l = n \<and> n \<ge> 1 \<and> tol_size l \<le> length (tol_collection l)"

lemma tol_ok_Clear: "tol_ok n l \<Longrightarrow> tol_ok n (tol_Clear l)"
  by (simp add: tol_ok_def tol_Clear_def)

lemma tol_ok_shared [simp]: "tol_ok n (set_shared_lhs ptr lhs l) = tol_ok n l" "tol_size (set_shared_lhs ptr lhs l) = tol_size l"
  by (simp_all add: tol_ok_def set_shared_lhs_def)

context option_selection
begin

lemma tol_ok_burst:
  assumes "tol_ok n l" "tol_size l > 0"
  shows "\<exists>l'. tol_burst sel l = Inr l' \<and> tol_ok n l' \<and> tol_size l' > 0"
proof (cases "tol_size l = tol_ruleLimit l * 2")
  case True
  have "length (sel to_estimate (tol_ruleLimit l - 1) (take (tol_size l) (tol_collection l))) = tol_ruleLimit l * 2"
    using True assms(1) by (simp add: tol_ok_def)
  then show ?thesis using True assms(1) by (auto simp: tol_burst_def tol_ok_def Let_def)
qed (use assms in \<open>simp add: tol_burst_def\<close>)

lemma tol_ok_Add:
  assumes "tol_ok n l" "tpc \<noteq> []" "CalcEstimateOfBestScore tpc stackVec = Inr score"
  shows "\<exists>l'. tol_Add sel l tpc stackVec rng = Inr l' \<and> tol_ok n l' \<and> tol_size l' > 0"
proof (cases "tol_size l > tol_ruleLimit l \<and> score < tol_threshold l")
  case True
  then show ?thesis using assms by (simp add: tol_Add_def)
next
  case False
  let ?opt = "\<lparr>to_stackVec = stackVec, to_tpc = tpc, to_range = rng, to_estimate = score\<rparr>"
  obtain coll where coll: "(if tol_size l = length (tol_collection l) then Inr (tol_collection l @ [?opt])
      else array_set (tol_collection l) (tol_size l) ?opt) = Inr coll" "tol_size l + 1 \<le> length coll"
    using assms(1) by (cases "tol_size l = length (tol_collection l)") (auto simp: tol_ok_def)
  show ?thesis
    using False assms tol_ok_burst [of n "l\<lparr>tol_collection := coll, tol_size := tol_size l + 1, tol_threshold := th\<rparr>" for th] coll(2)
    by (auto simp: tol_Add_def coll(1) Let_def tol_ok_def)
qed

lemma tol_ok_Add_result:
  assumes "tol_Add sel l tpc stackVec rng = Inr l'" "tol_ok n l"
  shows "tol_ok n l'"
proof (cases "tpc = []")
  case False
  then obtain score where "CalcEstimateOfBestScore tpc stackVec = Inr score"
    using assms(1) by (auto simp: tol_Add_def rbind_eq_Inr)
  then show ?thesis using tol_ok_Add [OF assms(2) False, of stackVec score rng] assms(1) by simp
qed (use assms in \<open>simp add: tol_Add_def\<close>)

lemma tol_ok_Shrink: "tol_ShrinkToLimit sel l = Inr l' \<Longrightarrow> tol_ok n l \<Longrightarrow> tol_ok n l'"
  by (auto simp: tol_ShrinkToLimit_def tol_ok_def rbind_eq_Inr split: if_splits)

end

text \<open>A property that adding a rule keeps is kept by the treatment of the clauses and of all rules of a span.\<close>

lemma clause_pairs_keeps:
  "clause_pairs add s e ok bs (c, out) = Inr (c', out') \<Longrightarrow> P out \<Longrightarrow> (\<And>u v. P u \<Longrightarrow> add u = Inr v \<Longrightarrow> P v) \<Longrightarrow> P out'"
  by (induction add s e ok bs "(c, out)" arbitrary: c out rule: clause_pairs.induct)
    (auto simp: Let_def rbind_eq_Inr split: if_splits)

lemma output_rule_ok:
  assumes "option_selection sel" "output_rule sel env rng minSpan r out = Inr out'" "tol_ok n out"
  shows "tol_ok n out'"
proof -
  have add: "AddCompletedRule sel r tpc rng u = Inr v \<Longrightarrow> tol_ok n u \<Longrightarrow> tol_ok n v" for tpc u v
    using option_selection.tol_ok_Add_result [OF assms(1)] by (auto simp: AddCompletedRule_def rbind_eq_Inr)
  show ?thesis
  proof (cases "le_clauseMode env")
    case True
    then obtain covered c where c: "rfold (\<lambda>boundaries st.
         clause_pairs (\<lambda>out. case m_tpc (GetLastNode r) of None \<Rightarrow> Inr out | Some tpc \<Rightarrow> AddCompletedRule sel r tpc rng out)
           (int (GetStartPos rng)) (int (GetEndPos covered))
           (m_tpc (GetLastNode r) \<noteq> None \<and> int (GetEndPos covered) - int (GetStartPos rng) + 1 > int minSpan) boundaries st)
         (le_clauseBounds env) (False, out) = Inr (c, out')"
      using assms(2) by (auto simp: output_rule_def rbind_eq_Inr Let_def)
    have "tol_ok n (snd (c, out'))"
    proof (rule rfold_invariant [OF c, where P = "\<lambda>st. tol_ok n (snd st)"])
      fix bs u v
      assume "tol_ok n (snd u)" "clause_pairs (\<lambda>out. case m_tpc (GetLastNode r) of None \<Rightarrow> Inr out | Some tpc \<Rightarrow> AddCompletedRule sel r tpc rng out)
           (int (GetStartPos rng)) (int (GetEndPos covered))
           (m_tpc (GetLastNode r) \<noteq> None \<and> int (GetEndPos covered) - int (GetStartPos rng) + 1 > int minSpan) bs u = Inr v"
      then show "tol_ok n (snd v)"
        by (cases u; cases v) (auto elim!: clause_pairs_keeps simp: add split: option.splits)
    qed (simp add: assms(3))
    then show ?thesis by simp
  next
    case False
    then show ?thesis using assms(2,3) add by (auto simp: output_rule_def rbind_eq_Inr Let_def split: option.splits if_splits)
  qed
qed

lemma GetChartRuleCollection_ok:
  assumes "option_selection sel" "GetChartRuleCollection sel env rng minSpan (lm, l) = Inr (lm', l')" "tol_ok n l"
  shows "tol_ok n l'"
proof -
  obtain rules out where "rfold (output_rule sel env rng minSpan) rules l = Inr out" "tol_ShrinkToLimit sel out = Inr l'"
    using assms(2) by (auto simp: GetChartRuleCollection_def Let_def rbind_eq_Inr)
  moreover from this(1) have "tol_ok n out"
    by (rule rfold_invariant [where P = "tol_ok n"]) (use output_rule_ok [OF assms(1)] assms(3) in blast)+
  ultimately show ?thesis using option_selection.tol_ok_Shrink [OF assms(1)] by blast
qed

lemma lookup_graphs_ok:
  assumes "option_selection (de_optsel de)" "rfold (lookup_graph de cells rng) graphs (managers, os) = Inr (managers', os')"
    and "tol_ok n (os_tol os)"
  shows "tol_ok n (os_tol os')"
proof -
  have "tol_ok n (os_tol (snd (managers', os')))"
  proof (rule rfold_invariant [OF assms(2), where P = "\<lambda>st. tol_ok n (os_tol (snd st))"])
    fix ig u v
    assume "tol_ok n (os_tol (snd u))" "lookup_graph de cells rng ig u = Inr v"
    then show "tol_ok n (os_tol (snd v))"
      using GetChartRuleCollection_ok [OF assms(1)]
      by (cases ig; cases u; cases v) (fastforce simp: lookup_graph_def rbind_eq_Inr split: if_splits)
  qed (simp add: assms(3))
  then show ?thesis by simp
qed

text \<open>A loop that runs at least once ends in a state as each of its steps leaves it.\<close>

lemma rfold_step:
  assumes "\<And>x u. x \<in> set xs \<Longrightarrow> I u \<Longrightarrow> \<exists>v. f x u = Inr v \<and> I v \<and> J v" "xs \<noteq> []" "I s"
  shows "\<exists>t. rfold f xs s = Inr t \<and> I t \<and> J t"
  using assms
proof (induction xs arbitrary: s)
  case (Cons x xs)
  obtain v where v: "f x s = Inr v" "I v" "J v" using Cons.prems(1) [of x s] Cons.prems(3) by auto
  show ?case
  proof (cases "xs = []")
    case False
    have "\<exists>t. rfold f xs v = Inr t \<and> I t \<and> J t" by (rule Cons.IH [OF _ False v(2)]) (use Cons.prems(1) in auto)
    then show ?thesis using v(1) by simp
  qed (use v in simp)
qed simp

lemma CalcEstimate_no_stacks: "tpc \<noteq> [] \<Longrightarrow> CalcEstimateOfBestScore tpc [] = Inr (tp_futureScore (hd tpc))"
  by (cases tpc) (simp_all add: CalcEstimateOfBestScore_def)

lemma unknown_word_total:
  assumes "unknown_ok sps de" "option_selection (de_optsel de)" "entry \<in> set (de_unknownLHS de)" "tol_ok n (os_tol st)"
  shows "\<exists>st'. unknown_word de sourceWord rng entry st = Inr st' \<and> tol_ok n (os_tol st') \<and> tol_size (os_tol st') > 0"
proof -
  let ?tpc = "[unknown_phrase sps de sourceWord entry (os_nextPtr st)]"
  obtain tol where "tol_Add (de_optsel de) (os_tol st) ?tpc [] rng = Inr tol" "tol_ok n tol" "tol_size tol > 0"
    using option_selection.tol_ok_Add [OF assms(2,4) _ CalcEstimate_no_stacks, of ?tpc] by auto
  then show ?thesis by (simp add: unknown_word_eq [OF assms(1,3)])
qed

lemma dropped_word_total:
  assumes "unknown_ok sps de" "option_selection (de_optsel de)" "entry \<in> set (de_unknownLHS de)"
    and "tol_ok n (os_tol st)" "length (tp_breakdown tp) = si_last (de_index de)"
  shows "\<exists>tp' st'. dropped_word de rng entry (tp, st) = Inr (tp', st') \<and> tol_ok n (os_tol st') \<and> tol_size (os_tol st') > 0
    \<and> length (tp_breakdown tp') = si_last (de_index de)"
proof -
  have ok: "wf_index sps (de_index de)" "single sps (de_unknownProducer de)" "GetFactor (de_lhsWord de (fst entry)) 0 \<noteq> None"
    using assms(1,3) by (auto simp: unknown_ok_def)
  let ?lhs = "de_lhsWord de (fst entry)"
  obtain tp1 where tp1: "tp_SetScore de (de_unknownProducer de) [LOWEST_SCORE] tp = Inr tp1" "length (tp_breakdown tp1) = si_last (de_index de)"
    by (simp add: tp_SetScore_def Assign_single [OF ok(1,2) assms(5)] assms(5))
  obtain tol where "tol_Add (de_optsel de) (set_shared_lhs (tp_ptr tp) ?lhs (os_tol st)) [tp1\<lparr>tp_lhs := ?lhs\<rparr>] [] rng = Inr tol"
      "tol_ok n tol" "tol_size tol > 0"
    using option_selection.tol_ok_Add [OF assms(2) _ _ CalcEstimate_no_stacks, of n "set_shared_lhs (tp_ptr tp) ?lhs (os_tol st)"
      "[tp1\<lparr>tp_lhs := ?lhs\<rparr>]"] assms(4) by auto
  then show ?thesis using tp1 ok(3) by (simp add: dropped_word_def Let_def)
qed

lemma ProcessOneUnknownWord_total:
  fixes de :: "'s decoder"
  assumes "unknown_ok sps de" "option_selection (de_optsel de)" "de_unknownLHS de \<noteq> []" "tol_ok n (os_tol st)"
    and "chart_Get cells rng = Inr cell" "GetSourceWordLabel cell = Inr lab" "de_dropUnknown de \<longrightarrow> GetFactor sourceWord 0 \<noteq> None"
  shows "\<exists>st'. ProcessOneUnknownWord de cells sourceWord rng st = Inr st' \<and> tol_ok n (os_tol st') \<and> tol_size (os_tol st') > 0"
proof (cases "kept_word de sourceWord")
  case True
  have "\<exists>st'. rfold (unknown_word de sourceWord rng) (de_unknownLHS de) st = Inr st' \<and> tol_ok n (os_tol st') \<and> tol_size (os_tol st') > 0"
    by (rule rfold_step) (use unknown_word_total [OF assms(1,2)] assms(3,4) in blast)+
  then show ?thesis using True assms(5-7) by (auto simp: ProcessOneUnknownWord_def kept_word_def list_ex_iff)
next
  case False
  let ?I = "\<lambda>(tp :: target_phrase, st :: 's option_state). tol_ok n (os_tol st) \<and> length (tp_breakdown tp) = si_last (de_index de)"
  let ?s = "(TargetPhrase de (os_nextPtr st), st\<lparr>os_nextPtr := Suc (os_nextPtr st)\<rparr>)"
  have "\<exists>t. rfold (dropped_word de rng) (de_unknownLHS de) ?s = Inr t \<and> ?I t \<and> tol_size (os_tol (snd t)) > 0"
  proof (rule rfold_step [OF _ assms(3)])
    show "?I ?s" using assms(4) by (simp add: TargetPhrase_def ScoreComponentCollection_def)
    fix entry u assume "entry \<in> set (de_unknownLHS de)" "?I u"
    then show "\<exists>v. dropped_word de rng entry u = Inr v \<and> ?I v \<and> tol_size (os_tol (snd v)) > 0"
      using dropped_word_total [OF assms(1,2), of entry n "snd u" "fst u" rng] by (cases u) fastforce
  qed
  then obtain tp st' where "rfold (dropped_word de rng) (de_unknownLHS de) ?s = Inr (tp, st')" "tol_ok n (os_tol st')" "tol_size (os_tol st') > 0"
    by auto
  then show ?thesis using False assms(5-7) by (auto simp: ProcessOneUnknownWord_def kept_word_def list_ex_iff)
qed

section \<open>Properties\<close>

text \<open>
  Unknown words: a word that is kept gets one translation per entry of the list of left-hand sides, in the order of that list. Each is
  the word itself with its missing factors filled, under the left-hand side of the entry, and its score is the weighted sum of the
  floored logarithm of the entry's probability and the word penalty. The destructor deletes the new phrases without a fault when
  it could delete the old ones.
\<close>

theorem UnknownWord_options:
  assumes "unknown_ok sps de" "sp_id (de_unknownProducer de) \<noteq> sp_id (de_wordPenaltyProducer de)"
    and "length (ce_weights (cp_cube (de_cells de))) = si_last (de_index de)"
    and "kept_word de sourceWord" "chart_Get cells rng = Inr cell" "GetSourceWordLabel cell = Inr lab"
    and "tol_size (os_tol st) = 0" "length (de_unknownLHS de) \<le> tol_ruleLimit (os_tol st)"
    and "\<exists>rest. delete_options st = Inr rest"
  shows "\<exists>st' rest. ProcessOneUnknownWord de cells sourceWord rng st = Inr st'
    \<and> list_all2 (unknown_option sps de sourceWord rng) (used (os_tol st')) (de_unknownLHS de)
    \<and> delete_options st' = Inr rest"
proof -
  let ?offers = "unknown_offers sps de sourceWord rng (de_unknownLHS de) (os_nextPtr st)"
  have "\<forall>(tpc, stackVec, rng) \<in> set ?offers. tpc \<noteq> [] \<and> stackVec = []" "length ?offers = length (de_unknownLHS de)"
    by (auto simp: unknown_offers_def)
  from tol_Adds_room [OF this(1), of "os_tol st" "de_optsel de"] this(2)
  obtain tol where tol: "tol_Adds (de_optsel de) ?offers (os_tol st) = Inr tol"
      "used tol = used (os_tol st) @ map (\<lambda>(tpc, stackVec, rng). the_option tpc stackVec rng) ?offers"
    using assms(7,8) by auto
  let ?st = "\<lparr>os_tol = tol, os_cache = os_cache st @ [os_nextPtr st..<os_nextPtr st + length (de_unknownLHS de)],
    os_nextPtr = os_nextPtr st + length (de_unknownLHS de)\<rparr>"
  have "distinct (os_cache st)" "set (os_cache st) \<subseteq> {0..<os_nextPtr st}"
    using assms(9) by (simp_all add: delete_options_def RemoveAllInColl_result)
  then have "\<exists>rest. delete_options ?st = Inr rest"
    unfolding delete_options_def RemoveAllInColl_result by auto
  then obtain rest where "delete_options ?st = Inr rest" ..
  moreover have "used tol = map (\<lambda>(tpc, stackVec, rng). the_option tpc stackVec rng) ?offers"
    using tol(2) assms(7) by (simp add: used_def)
  then have "list_all2 (unknown_option sps de sourceWord rng) (used tol) (de_unknownLHS de)"
    using unknown_offers_options [OF assms(1-3)] by simp
  moreover have "ProcessOneUnknownWord de cells sourceWord rng st = Inr ?st"
    by (simp add: ProcessOneUnknownWord_kept [OF assms(1,4,5,6)] tol(1))
  ultimately show ?thesis by (intro exI [of _ ?st] exI [of _ rest]) simp
qed

definition example_word :: "nat \<Rightarrow> word" where
  "example_word i = \<lparr>w_factors = [Some i], w_isNonTerminal = False\<rparr>"

definition example_decoder :: "bool \<Rightarrow> unit decoder" where
  "example_decoder dropped = \<lparr>de_cells = example_cells\<lparr>cp_cube := (example_env True)\<lparr>ce_components := 2, ce_weights := [1, 1]\<rparr>\<rparr>,
     de_optsel = sort_select, de_part = stable_partition, de_threshold = Fin (-1), de_graphs = [],
     de_source = [example_word 1, example_word 2, example_word 3], de_labels = (\<lambda>_ _. []), de_clauseMode = False, de_clauseBounds = [],
     de_pool = True, de_alwaysDirect = False, de_dropUnknown = dropped, de_string = (\<lambda>_. ''x''), de_unknownFactor = 9,
     de_unknownLHS = [(''S'', 1), (''NP'', 1)], de_lhsWord = (\<lambda>s. \<lparr>w_factors = [Some (length s)], w_isNonTerminal = True\<rparr>),
     de_index = \<lparr>si_begins = [0, 1], si_ends = [1, 2], si_producers = [example_producer 1 0, (example_producer 1 0)\<lparr>sp_id := 1\<rparr>],
       si_featureNames = [], si_featureShortNames = [], si_last = 2\<rparr>,
     de_unknownProducer = example_producer 1 0, de_wordPenaltyProducer = (example_producer 1 0)\<lparr>sp_id := 1\<rparr>\<rparr>"

definition example_chart :: "unit chart" where
  "example_chart = map (\<lambda>i. [example_cell\<lparr>cc_coverage := WordsRange i i, cc_sourceWordLabel := Some
     \<lparr>cl_coverage = WordsRange i i, cl_label = example_word (i + 1), cl_stack = None\<rparr>\<rparr>]) [0, 1, 2]"

definition example_options :: "unit option_state" where
  "example_options = \<lparr>os_tol = ChartTranslationOptionList 5, os_cache = [], os_nextPtr = 0\<rparr>"

lemma example_unknown_ok: "unknown_ok [example_producer 1 0, example_producer 1 0] (example_decoder dropped)"
  by (simp add: unknown_ok_def example_decoder_def wf_index_def single_def slot_def example_producer_def GetFactor_def
    numeral_2_eq_2)

lemma UnknownWord_options_witness:
  "\<exists>st'. ProcessOneUnknownWord (example_decoder False) example_chart (example_word 2) (WordsRange 1 1) example_options = Inr st'
    \<and> length (used (os_tol st')) = 2"
proof -
  let ?cell = "example_chart ! 1 ! 0"
  have "sp_id (de_unknownProducer (example_decoder False)) \<noteq> sp_id (de_wordPenaltyProducer (example_decoder False))"
    "length (ce_weights (cp_cube (de_cells (example_decoder False)))) = si_last (de_index (example_decoder False))"
    "kept_word (example_decoder False) (example_word 2)"
    by (simp_all add: example_decoder_def example_producer_def kept_word_def)
  moreover have "chart_Get example_chart (WordsRange 1 1) = Inr ?cell"
    by (simp add: chart_Get_def example_chart_def)
  moreover have "\<exists>lab. GetSourceWordLabel ?cell = Inr lab"
    by (simp add: GetSourceWordLabel_def example_chart_def NOT_FOUND_def SIZE_RANGE_def)
  then obtain lab where "GetSourceWordLabel ?cell = Inr lab" ..
  moreover have "tol_size (os_tol example_options) = 0"
    "length (de_unknownLHS (example_decoder False)) \<le> tol_ruleLimit (os_tol example_options)"
    "\<exists>rest. delete_options example_options = Inr rest"
    by (simp_all add: example_options_def example_decoder_def ChartTranslationOptionList_def delete_options_def RemoveAllInColl_def)
  ultimately obtain st' rest where "ProcessOneUnknownWord (example_decoder False) example_chart (example_word 2) (WordsRange 1 1)
      example_options = Inr st'"
    "list_all2 (unknown_option [example_producer 1 0, example_producer 1 0] (example_decoder False) (example_word 2) (WordsRange 1 1))
      (used (os_tol st')) (de_unknownLHS (example_decoder False))"
    using UnknownWord_options [OF example_unknown_ok] by blast
  then show ?thesis by (auto simp: example_decoder_def dest: list_all2_lengthD)
qed

text \<open>
  C35. Dropped words: when unknown words are dropped and the word has no digit, the options of all left-hand sides share one empty target
  phrase, so that all of them end up under the left-hand side of the last entry, with the score of the floor. The phrase's collection is
  cached once per entry, and the destructor deletes it twice as soon as there are two entries.
\<close>

theorem dropped_words_share:
  assumes "unknown_ok sps de" "\<not> kept_word de sourceWord" "GetFactor sourceWord 0 \<noteq> None"
    and "chart_Get cells rng = Inr cell" "GetSourceWordLabel cell = Inr lab"
    and "tol_size (os_tol st) = 0" "length (de_unknownLHS de) \<le> tol_ruleLimit (os_tol st)"
  shows "\<exists>st' tps. ProcessOneUnknownWord de cells sourceWord rng st = Inr st'
    \<and> map to_tpc (used (os_tol st')) = map (\<lambda>tp. [tp]) tps \<and> length tps = length (de_unknownLHS de)
    \<and> (\<forall>tp \<in> set tps. tp_ptr tp = os_nextPtr st \<and> tp_words tp = [] \<and> tp_lhs tp = de_lhsWord de (fst (last (de_unknownLHS de)))
         \<and> tp_breakdown tp = floor_breakdown sps de)
    \<and> (length (de_unknownLHS de) \<ge> 2 \<longrightarrow> delete_options st' = Inl DoubleDelete)"
proof -
  let ?n = "length (de_unknownLHS de)" and ?ptr = "os_nextPtr st"
  let ?st = "st\<lparr>os_nextPtr := Suc ?ptr\<rparr>"
  let ?bd = "replicate (si_last (de_index de)) 0 :: real list" and ?no_lhs = "\<lparr>w_factors = [], w_isNonTerminal = False\<rparr>"
  have new: "TargetPhrase de ?ptr = dropped_phrase sps de ?ptr ?bd (Fin 0) ?no_lhs"
    by (simp add: TargetPhrase_def dropped_phrase_def ScoreComponentCollection_def)
  have "used (os_tol ?st) = replicate 0 (floor_option sps de rng ?ptr ?no_lhs)" using assms(6) by (simp add: used_def)
  moreover have "tol_size (os_tol ?st) + ?n \<le> tol_ruleLimit (os_tol ?st)" "tol_size (os_tol ?st) \<le> length (tol_collection (os_tol ?st))"
    using assms(6,7) by simp_all
  ultimately have "\<exists>tp tol. rfold (dropped_word de rng) (de_unknownLHS de) (TargetPhrase de ?ptr, ?st)
      = Inr (tp, ?st\<lparr>os_tol := tol, os_cache := os_cache ?st @ replicate ?n ?ptr\<rparr>)
    \<and> used tol = replicate (0 + ?n) (floor_option sps de rng ?ptr
        (if de_unknownLHS de = [] then ?no_lhs else de_lhsWord de (fst (last (de_unknownLHS de)))))"
    unfolding new by (intro dropped_loop [OF assms(1) subset_refl]) simp_all
  then obtain tp tol where fold: "rfold (dropped_word de rng) (de_unknownLHS de) (TargetPhrase de ?ptr, ?st)
      = Inr (tp, ?st\<lparr>os_tol := tol, os_cache := os_cache st @ replicate ?n ?ptr\<rparr>)"
    "used tol = replicate ?n (floor_option sps de rng ?ptr (de_lhsWord de (fst (last (de_unknownLHS de)))))"
    by (cases "de_unknownLHS de = []") auto
  let ?st' = "?st\<lparr>os_tol := tol, os_cache := os_cache st @ replicate ?n ?ptr\<rparr>"
  have "ProcessOneUnknownWord de cells sourceWord rng st = Inr ?st'"
    using assms(2-5) fold(1) by (auto simp: ProcessOneUnknownWord_def kept_word_def list_ex_iff)
  moreover have "delete_options ?st' = Inl DoubleDelete" if n: "?n \<ge> 2"
  proof -
    obtain m where "?n = Suc (Suc m)" using n by (metis add_2_eq_Suc le_Suc_ex)
    then have "\<not> distinct (os_cache ?st')" by simp
    then show ?thesis unfolding delete_options_def by (rule RemoveAllInColl_twice)
  qed
  ultimately show ?thesis
    using fold(2)
    by (intro exI [of _ ?st'] exI [of _ "replicate ?n (floor_phrase sps de ?ptr (de_lhsWord de (fst (last (de_unknownLHS de)))))"])
      (simp add: dropped_phrase_def)
qed

lemma dropped_words_share_witness:
  "\<exists>st'. ProcessOneUnknownWord (example_decoder True) example_chart (example_word 2) (WordsRange 1 1) example_options = Inr st'
    \<and> delete_options st' = Inl DoubleDelete"
proof -
  let ?cell = "example_chart ! 1 ! 0"
  have "\<not> kept_word (example_decoder True) (example_word 2)" "GetFactor (example_word 2) 0 \<noteq> None"
    by (simp_all add: example_decoder_def kept_word_def example_word_def GetFactor_def is_digit_def)
  moreover have "chart_Get example_chart (WordsRange 1 1) = Inr ?cell"
    by (simp add: chart_Get_def example_chart_def)
  moreover have "\<exists>lab. GetSourceWordLabel ?cell = Inr lab"
    by (simp add: GetSourceWordLabel_def example_chart_def NOT_FOUND_def SIZE_RANGE_def)
  then obtain lab where "GetSourceWordLabel ?cell = Inr lab" ..
  moreover have "tol_size (os_tol example_options) = 0"
    "length (de_unknownLHS (example_decoder True)) \<le> tol_ruleLimit (os_tol example_options)"
    by (simp_all add: example_options_def example_decoder_def ChartTranslationOptionList_def)
  ultimately have "\<exists>st'. ProcessOneUnknownWord (example_decoder True) example_chart (example_word 2) (WordsRange 1 1) example_options = Inr st'
    \<and> (length (de_unknownLHS (example_decoder True)) \<ge> 2 \<longrightarrow> delete_options st' = Inl DoubleDelete)"
    using dropped_words_share [OF example_unknown_ok] by blast
  then show ?thesis by (simp add: example_decoder_def)
qed

text \<open>
  C18. Order of the spans: the main loop visits every span of the sentence exactly once, and every span that lies inside another one
  before that one, so that the cells a rule application reads are finished when it does.
\<close>

theorem spans_order:
  "distinct (spans n) \<and> set (spans n) = {WordsRange s e | s e. s \<le> e \<and> e < n}
   \<and> (\<forall>i < length (spans n). \<forall>s e. s \<le> e \<and> GetStartPos (spans n ! i) \<le> s \<and> e \<le> GetEndPos (spans n ! i)
        \<and> WordsRange s e \<noteq> spans n ! i \<longrightarrow> WordsRange s e \<in> set (take i (spans n)))"
  using spans_distinct set_spans spans_before by blast

lemma spans_order_witness: "spans 2 = [WordsRange 0 0, WordsRange 1 1, WordsRange 0 1] \<and> WordsRange 1 1 \<in> set (take 2 (spans 2))"
proof
  show eq: "spans 2 = [WordsRange 0 0, WordsRange 1 1, WordsRange 0 1]" by (simp add: spans_def numeral_2_eq_2)
  have "(1 :: nat) \<le> 1 \<and> GetStartPos (spans 2 ! 2) \<le> 1 \<and> 1 \<le> GetEndPos (spans 2 ! 2) \<and> WordsRange 1 1 \<noteq> spans 2 ! 2"
    "2 < length (spans 2)" by (simp_all add: eq)
  then show "WordsRange 1 1 \<in> set (take 2 (spans 2))" using spans_order [of 2] by blast
qed

text \<open>
  C34. An inner word is never without a translation: however the rule tables are filled, when the rules of a span of one word that
  is neither the first nor the last of the sentence have been looked up, the collection of its options succeeds and leaves at least one, provided
  there is a left-hand side for unknown words and the pruning threshold is not positive.
\<close>

theorem inner_word_translated:
  assumes "unknown_ok sps de" "de_unknownLHS de \<noteq> []" "de_dropUnknown de \<longrightarrow> GetFactor (de_source de ! i) 0 \<noteq> None"
    and "selection (de_optsel de)" "partitioning (de_part de)" "de_threshold de \<le> 0"
    and "0 < i" "i < length (de_source de) - 1" "length (de_source de) < NOT_FOUND"
    and "chart_Get cells (WordsRange i i) = Inr cell" "GetSourceWordLabel cell = Inr lab"
    and "length (de_graphs de) = length managers" "tol_ok n (os_tol os)"
    and "rfold (lookup_graph de cells (WordsRange i i)) (enumerate 0 (de_graphs de)) (managers, os\<lparr>os_tol := tol_Clear (os_tol os)\<rparr>)
      = Inr (managers', os1)"
  shows "\<exists>os'. CreateTranslationOptionsForRange de cells (WordsRange i i) (managers, os) = Inr (managers', os')
    \<and> tol_ok n (os_tol os') \<and> used (os_tol os') \<noteq> []"
proof -
  have sel: "option_selection (de_optsel de)" using assms(4) by (simp add: option_selection_def)
  let ?unknown = "needs_unknown de (WordsRange i i) (os_tol os1)"
  have ok1: "tol_ok n (os_tol os1)"
    by (rule lookup_graphs_ok [OF sel assms(14)]) (use assms(13) tol_ok_Clear in simp)
  have "\<exists>os2. (if ?unknown then ProcessOneUnknownWord de cells (de_source de ! i) (WordsRange i i) os1 else Inr os1) = Inr os2
    \<and> tol_ok n (os_tol os2) \<and> tol_size (os_tol os2) > 0"
  proof (cases ?unknown)
    case True
    then show ?thesis using ProcessOneUnknownWord_total [OF assms(1) sel assms(2) ok1 assms(10,11,3)] by simp
  next
    case False
    have "range_GetNumWordsCovered (WordsRange i i) = 1" "sz_sub (length (de_source de)) 1 = length (de_source de) - 1"
      using assms(7-9) by (simp_all add: NOT_FOUND_def SIZE_RANGE_def)
    then have "tol_size (os_tol os1) \<noteq> 0" using False assms(7,8) by (auto simp: needs_unknown_def)
    then show ?thesis using False ok1 by simp
  qed
  then obtain os2 where os2: "(if ?unknown then ProcessOneUnknownWord de cells (de_source de ! i) (WordsRange i i) os1 else Inr os1) = Inr os2"
    "tol_ok n (os_tol os2)" "tol_size (os_tol os2) > 0" by blast
  let ?tol = "tol_ApplyThreshold (de_part de) (de_threshold de) (os_tol os2)"
  have size: "tol_size (os_tol os2) \<le> length (tol_collection (os_tol os2))" using os2(2) by (simp add: tol_ok_def)
  then have "used (os_tol os2) \<noteq> []" using os2(3) by (auto simp: used_def)
  then have "used ?tol \<noteq> []" using threshold_keeps [OF assms(5) size, of "de_threshold de"] assms(6) by blast
  moreover have "tol_ok n ?tol"
    using os2(2) size partitioning.part_length [OF assms(5)]
    by (auto simp: tol_ok_def tol_ApplyThreshold_def Let_def intro!: le_trans [OF length_filter_le])
  moreover have "CreateTranslationOptionsForRange de cells (WordsRange i i) (managers, os) = Inr (managers', os2\<lparr>os_tol := ?tol\<rparr>)"
    using assms(7,8,12,14) os2(1) by (auto simp: CreateTranslationOptionsForRange_def split: if_splits)
  ultimately show ?thesis by (intro exI [of _ "os2\<lparr>os_tol := ?tol\<rparr>"]) simp
qed

lemma inner_word_translated_witness:
  "\<exists>os'. CreateTranslationOptionsForRange (example_decoder True) example_chart (WordsRange 1 1) ([], example_options) = Inr ([], os')
    \<and> used (os_tol os') \<noteq> []"
proof -
  let ?de = "example_decoder True" and ?cell = "example_chart ! 1 ! 0"
  have a: "de_unknownLHS ?de \<noteq> []" "de_dropUnknown ?de \<longrightarrow> GetFactor (de_source ?de ! 1) 0 \<noteq> None" "de_threshold ?de \<le> 0"
    "(0 :: nat) < 1" "1 < length (de_source ?de) - 1" "length (de_source ?de) < NOT_FOUND" "length (de_graphs ?de) = length []"
    by (simp_all add: example_decoder_def example_word_def GetFactor_def NOT_FOUND_def zero_score_def)
  have b: "selection (de_optsel ?de)" "partitioning (de_part ?de)"
    unfolding example_decoder_def by simp_all unfold_locales
  have "chart_Get example_chart (WordsRange 1 1) = Inr ?cell" by (simp add: chart_Get_def example_chart_def)
  moreover have "\<exists>lab. GetSourceWordLabel ?cell = Inr lab"
    by (simp add: GetSourceWordLabel_def example_chart_def NOT_FOUND_def SIZE_RANGE_def)
  then obtain lab where "GetSourceWordLabel ?cell = Inr lab" ..
  moreover have "tol_ok 5 (os_tol example_options)" by (simp add: tol_ok_def example_options_def ChartTranslationOptionList_def)
  moreover have "rfold (lookup_graph ?de example_chart (WordsRange 1 1)) (enumerate 0 (de_graphs ?de))
      ([], example_options\<lparr>os_tol := tol_Clear (os_tol example_options)\<rparr>)
    = Inr ([], example_options\<lparr>os_tol := tol_Clear (os_tol example_options)\<rparr>)"
    by (simp add: example_decoder_def)
  ultimately show ?thesis using inner_word_translated [OF example_unknown_ok a(1,2) b a(3-6) _ _ a(7)] by blast
qed

end
