(* ===== verification/Reordering.thy ===== *)
theory Reordering
  imports WordsBitmaps Phrases
begin

text \<open>
  Limits on reordering in the phrase-based search: walls and zones (ReorderingConstraint.h,
  ReorderingConstraint.cpp) and the distance a jump is charged for
  (InputType::ComputeDistortionDistance).

  A wall after a position may not be crossed while a word before it is untranslated; a zone is a
  span that has to be finished once it is entered. The arrays of walls are lists of the
  size given to InitializeWalls; the verbose output is not modelled.
\<close>

section \<open>Walls and zones\<close>

definition NOT_A_ZONE :: nat where
  "NOT_A_ZONE = 999999999"

record reordering_constraint =
  rc_size :: nat
  rc_wall :: "bool list"
  rc_localWall :: "nat list"
  rc_zone :: "(nat \<times> nat) list"
  rc_active :: bool

definition ReorderingConstraint :: reordering_constraint where
  "ReorderingConstraint = \<lparr>rc_size = 0, rc_wall = [], rc_localWall = [], rc_zone = [], rc_active = False\<rparr>"

definition InitializeWalls :: "nat \<Rightarrow> reordering_constraint \<Rightarrow> reordering_constraint" where
  "InitializeWalls sz rc = rc\<lparr>rc_size := sz, rc_wall := replicate sz False, rc_localWall := replicate sz NOT_A_ZONE\<rparr>"

definition GetWall :: "reordering_constraint \<Rightarrow> nat \<Rightarrow> bool result" where
  "GetWall rc pos = array_get (rc_wall rc) pos"

definition GetLocalWall :: "reordering_constraint \<Rightarrow> nat \<Rightarrow> nat \<Rightarrow> bool result" where
  "GetLocalWall rc pos zone = rbind (array_get (rc_localWall rc) pos) (\<lambda>z. Inr (z = zone))"

definition SetWall :: "nat \<Rightarrow> bool \<Rightarrow> reordering_constraint \<Rightarrow> reordering_constraint result" where
  "SetWall pos value rc = rbind (array_set (rc_wall rc) pos value) (\<lambda>wall. Inr (rc\<lparr>rc_wall := wall, rc_active := True\<rparr>))"

definition SetZone :: "nat \<Rightarrow> nat \<Rightarrow> reordering_constraint \<Rightarrow> reordering_constraint" where
  "SetZone startPos endPos rc = rc\<lparr>rc_zone := rc_zone rc @ [(startPos, endPos)], rc_active := True\<rparr>"

text \<open>One position of one zone in FinalizeWalls.\<close>

definition finalize_pos :: "nat \<Rightarrow> nat \<Rightarrow> nat \<Rightarrow> nat \<Rightarrow> reordering_constraint \<Rightarrow> reordering_constraint result" where
  "finalize_pos z startZone endZone pos rc =
     rbind (array_get (rc_wall rc) pos) (\<lambda>wall.
       if wall
       then rbind (array_set (rc_localWall rc) pos z) (\<lambda>localWall.
            rbind (array_set (rc_wall rc) pos False) (\<lambda>walls.
              Inr (rc\<lparr>rc_wall := walls, rc_localWall := localWall\<rparr>)))
       else rbind (array_get (rc_localWall rc) pos) (\<lambda>assigned_z.
         if assigned_z \<noteq> NOT_A_ZONE
         then rbind (array_get (rc_zone rc) assigned_z) (\<lambda>(assignedStart, assignedEnd).
           if assignedStart < startZone \<or> assignedEnd > endZone
           then rbind (array_set (rc_localWall rc) pos z) (\<lambda>localWall. Inr (rc\<lparr>rc_localWall := localWall\<rparr>))
           else Inr rc)
         else Inr rc))"

definition FinalizeWalls :: "reordering_constraint \<Rightarrow> reordering_constraint result" where
  "FinalizeWalls rc =
     rfold (\<lambda>(z, (startZone, endZone)) rc. rfold (finalize_pos z startZone endZone) [startZone..<endZone] rc)
       (enumerate 0 (rc_zone rc)) rc"

text \<open>The surface string of a factor is a parameter.\<close>

definition is_punctuation :: "string \<Rightarrow> bool" where
  "is_punctuation s \<longleftrightarrow> s \<in> {'','', ''.'', ''!'', ''?'', '':'', '';'', [CHR 0x22]}"

definition SetMonotoneAtPunctuation :: "(factor \<Rightarrow> string) \<Rightarrow> phrase \<Rightarrow> reordering_constraint \<Rightarrow> reordering_constraint result" where
  "SetMonotoneAtPunctuation str sentence =
     rfold (\<lambda>i rc. case GetFactor (sentence ! i) 0 of
         None \<Rightarrow> Inl NullPointer
       | Some f \<Rightarrow>
           if is_punctuation (str f)
           then rbind (if i > 0 \<and> i < sz_sub (rc_size rc) 1 then SetWall i True rc else Inr rc) (\<lambda>rc.
                if i > 1 then SetWall (i - 1) True rc else Inr rc)
           else Inr rc) [0..<length sentence]"

section \<open>The check of an extension\<close>

text \<open>A comparison of a size_t with an int converts the int.\<close>

definition int_to_size :: "int \<Rightarrow> nat" where
  "int_to_size d = nat (d mod 2 ^ 64)"

fun wall_between :: "reordering_constraint \<Rightarrow> nat list \<Rightarrow> bool result" where
  "wall_between rc [] = Inr False"
| "wall_between rc (pos # ps) = rbind (GetWall rc pos) (\<lambda>w. if w then Inr True else wall_between rc ps)"

definition count_translated :: "words_bitmap \<Rightarrow> nat \<Rightarrow> nat \<Rightarrow> nat result" where
  "count_translated bitmap startZone endZone =
     rfold (\<lambda>pos n. rbind (GetValue bitmap pos) (\<lambda>v. Inr (if v then n + 1 else n))) [startZone..<Suc endZone] 0"

fun local_violation :: "reordering_constraint \<Rightarrow> words_bitmap \<Rightarrow> nat \<Rightarrow> nat \<Rightarrow> nat list \<Rightarrow> bool \<Rightarrow> bool result" where
  "local_violation rc bitmap startPos z [] seen = Inr False"
| "local_violation rc bitmap startPos z (pos # ps) seen =
     rbind (GetValue bitmap pos) (\<lambda>v.
       let seen' = (seen \<or> (\<not> v \<and> pos < startPos)) in
       rbind (if seen' then GetLocalWall rc pos z else Inr False) (\<lambda>w.
         if w then Inr True else local_violation rc bitmap startPos z ps seen'))"

text \<open>The checks of one zone: whether it allows the extension.\<close>

definition check_zone :: "int \<Rightarrow> reordering_constraint \<Rightarrow> words_bitmap \<Rightarrow> nat \<Rightarrow> nat \<Rightarrow> nat \<Rightarrow> nat \<Rightarrow> nat \<times> nat \<times> nat \<Rightarrow> bool result" where
  "check_zone distortionLimit rc bitmap startPos endPos firstGapPos lastPos zone =
     (case zone of (z, startZone, endZone) \<Rightarrow>
        let outside = (endPos < startZone \<or> startPos > endZone) in
        if lastPos < startZone \<and> outside then Inr True
        else if firstGapPos > endZone then Inr True
        else rbind (if lastPos \<ge> startZone then count_translated bitmap startZone endZone else Inr 0) (\<lambda>numWordsInZoneTranslated.
          let activeZone = (numWordsInZoneTranslated > 0) in
          if numWordsInZoneTranslated = sz_add (sz_sub endZone startZone) 1 then Inr True
          else if \<not> activeZone \<and> outside then Inr True
          else if activeZone \<and> outside then Inr False
          else if startPos \<noteq> firstGapPos \<and> sz_sub endZone firstGapPos \<ge> int_to_size distortionLimit then Inr False
          else if startPos \<le> startZone then Inr True
          else if endPos > endZone
          then Inr (\<not> sz_add (sz_sub endZone startPos) 1
                      < sz_sub (sz_add (sz_sub endZone startZone) 1) numWordsInZoneTranslated)
          else rbind (local_violation rc bitmap startPos z [startZone..<min endZone endPos] False) (\<lambda>v. Inr (\<not> v))))"

fun check_zones :: "(nat \<times> nat \<times> nat \<Rightarrow> bool result) \<Rightarrow> (nat \<times> nat \<times> nat) list \<Rightarrow> bool result" where
  "check_zones f [] = Inr True"
| "check_zones f (zone # zones) = rbind (f zone) (\<lambda>ok. if ok then check_zones f zones else Inr False)"

definition Check :: "int \<Rightarrow> reordering_constraint \<Rightarrow> words_bitmap \<Rightarrow> nat \<Rightarrow> nat \<Rightarrow> bool result" where
  "Check distortionLimit rc bitmap startPos endPos =
     (if \<not> rc_active rc then Inr True
      else let firstGapPos = GetFirstGapPos bitmap in
        rbind (if firstGapPos \<noteq> startPos then wall_between rc [firstGapPos..<endPos] else Inr False) (\<lambda>wall.
          if wall then Inr False
          else let lastPos = GetLastPos bitmap in
            if (lastPos = NOT_FOUND \<and> startPos = 0) \<or> (firstGapPos > lastPos \<and> firstGapPos = startPos) then Inr True
            else check_zones (check_zone distortionLimit rc bitmap startPos endPos firstGapPos lastPos)
                   (enumerate 0 (rc_zone rc))))"

section \<open>Distortion\<close>

definition ComputeDistortionDistance :: "words_range \<Rightarrow> words_range \<Rightarrow> int" where
  "ComputeDistortionDistance prev current =
     \<bar>if range_GetNumWordsCovered prev = 0 then to_int32 (GetStartPos current)
      else to_int32 (GetEndPos prev) - to_int32 (GetStartPos current) + 1\<bar>"

end
