(* ===== verification/ReorderingProps.thy ===== *)
theory ReorderingProps
  imports Reordering
begin

text \<open>
  Properties of the reordering constraints of theory Reordering: walls are respected by every
  sequence of checked extensions, a zone once entered is finished, and FinalizeWalls gives every
  wall in a zone to the innermost one.
\<close>

section \<open>Evaluation of the checks\<close>

definition wf_constraint :: "nat \<Rightarrow> reordering_constraint \<Rightarrow> bool" where
  "wf_constraint n rc \<longleftrightarrow> rc_size rc = n \<and> length (rc_wall rc) = n \<and> length (rc_localWall rc) = n
     \<and> (\<forall>(a, b) \<in> set (rc_zone rc). a \<le> b \<and> b < n)"

lemma wall_between_eq:
  "\<forall>p \<in> set ps. p < length (rc_wall rc) \<Longrightarrow> wall_between rc ps = Inr (\<exists>p \<in> set ps. rc_wall rc ! p)"
  by (induction ps) (auto simp: GetWall_def)

text \<open>The translated words of a zone.\<close>

definition translated :: "words_bitmap \<Rightarrow> nat \<Rightarrow> nat \<Rightarrow> nat set" where
  "translated bm a b = {p. a \<le> p \<and> p \<le> b \<and> covered bm p}"

lemma finite_translated [simp]: "finite (translated bm a b)"
  by (rule finite_subset [of _ "{a..b}"]) (auto simp: translated_def)

lemma count_translated_eq:
  assumes "wf_bitmap bm" "b < wb_size bm"
  shows "count_translated bm a b = Inr (card (translated bm a b))"
proof -
  have "rfold (\<lambda>pos n. rbind (GetValue bm pos) (\<lambda>v. Inr (if v then n + 1 else n))) ps k
      = Inr (k + card {p \<in> set ps. covered bm p})" if "\<forall>p \<in> set ps. p < wb_size bm" "distinct ps" for ps k
    using that
  proof (induction ps arbitrary: k)
    case (Cons p ps)
    have "{q \<in> set (p # ps). covered bm q} = (if covered bm p then insert p {q \<in> set ps. covered bm q} else {q \<in> set ps. covered bm q})"
      by auto
    then show ?case using Cons assms(1) by (simp add: GetValue_in)
  qed simp
  from this [of "[a..<Suc b]" 0] assms(2)
  have "count_translated bm a b = Inr (card {p \<in> set [a..<Suc b]. covered bm p})"
    unfolding count_translated_def by (auto simp del: upt_Suc)
  moreover have "{p \<in> set [a..<Suc b]. covered bm p} = translated bm a b" by (auto simp: translated_def)
  ultimately show ?thesis by simp
qed

lemma card_translated:
  assumes "a \<le> b"
  shows "card (translated bm a b) + card {p. a \<le> p \<and> p \<le> b \<and> \<not> covered bm p} = b - a + 1"
proof -
  have "{a..b} = translated bm a b \<union> {p. a \<le> p \<and> p \<le> b \<and> \<not> covered bm p}" by (auto simp: translated_def)
  then have "card {a..b} = card (translated bm a b \<union> {p. a \<le> p \<and> p \<le> b \<and> \<not> covered bm p})" by simp
  also have "\<dots> = card (translated bm a b) + card {p. a \<le> p \<and> p \<le> b \<and> \<not> covered bm p}"
    by (rule card_Un_disjoint) (auto simp: translated_def intro: finite_subset [of _ "{a..b}"])
  finally show ?thesis using assms by simp
qed

lemma check_zones_True: "check_zones f zs = Inr True \<longleftrightarrow> (\<forall>z \<in> set zs. f z = Inr True)"
  by (induction zs) (auto simp: rbind_eq_Inr split: if_splits)

lemma size_small: "n < 2 ^ 31 \<Longrightarrow> n < SIZE_RANGE"
  by (simp add: SIZE_RANGE_def)

text \<open>What a zone that is partly translated demands of an extension.\<close>

lemma check_zone_active:
  assumes "check_zone limit rc bm s e gap lastPos (z, a, b) = Inr True"
    and "wf_bitmap bm" "a \<le> b" "b < wb_size bm" "gap \<le> b" "a \<le> lastPos"
    and "0 < card (translated bm a b)" "card (translated bm a b) < b - a + 1"
  shows "\<not> (e < a \<or> s > b) \<and> (a < s \<longrightarrow> b < e \<longrightarrow> b - a + 1 - card (translated bm a b) \<le> b - s + 1)"
proof -
  have small: "b + 1 < SIZE_RANGE" using assms(2,4) by (simp add: wf_bitmap_def SIZE_RANGE_def)
  have eq: "sz_sub b a = b - a" "sz_add (b - a) 1 = b - a + 1" "s \<le> b \<Longrightarrow> sz_sub b s = b - s" "sz_add (b - s) 1 = b - s + 1"
    "sz_sub (b - a + 1) (card (translated bm a b)) = b - a + 1 - card (translated bm a b)"
    using small assms(3,8) by auto
  show ?thesis
    using assms(1,5-8) eq
    by (auto simp: check_zone_def Let_def count_translated_eq [OF assms(2,4)] split: if_splits)
qed

lemma Check_zone:
  assumes "Check limit rc bm s e = Inr True" "rc_active rc" "z < length (rc_zone rc)" "rc_zone rc ! z = (a, b)"
    and "\<not> (GetLastPos bm = NOT_FOUND \<and> s = 0)" "\<not> (GetFirstGapPos bm > GetLastPos bm \<and> GetFirstGapPos bm = s)"
  shows "check_zone limit rc bm s e (GetFirstGapPos bm) (GetLastPos bm) (z, a, b) = Inr True"
proof -
  have "(z, a, b) \<in> set (enumerate 0 (rc_zone rc))" using assms(3,4) by (force simp: in_set_enumerate_eq)
  then show ?thesis
    using assms(1,2,5,6) by (auto simp: Check_def Let_def rbind_eq_Inr check_zones_True split: if_splits)
qed

text \<open>The checks return on every span of the sentence.\<close>

lemma local_violation_total:
  assumes "wf_bitmap bm" "\<forall>x \<in> set xs. x < wb_size bm" "\<forall>x \<in> set xs. x < length (rc_localWall rc)"
  shows "\<exists>b. local_violation rc bm a z xs seen = Inr b"
  using assms by (induction xs arbitrary: seen) (auto simp: GetValue_in GetLocalWall_def Let_def)

lemma if_total: "\<exists>b. x = Inr b \<Longrightarrow> \<exists>b. y = Inr b \<Longrightarrow> \<exists>b. (if c then x else y) = Inr b"
  by simp

lemma rbind_total: "\<exists>x. r = Inr x \<Longrightarrow> (\<And>x. \<exists>b. f x = Inr b) \<Longrightarrow> \<exists>b. rbind r f = Inr b"
  by auto

lemma check_zone_total:
  assumes "wf_bitmap bm" "wb_size bm = n" "wf_constraint n rc" "x \<le> y" "y < n" "e < n"
  shows "\<exists>b. check_zone d rc bm a e gap lastPos (z, x, y) = Inr b"
proof -
  obtain b where b: "local_violation rc bm a z [x..<min y e] False = Inr b"
    using local_violation_total [OF assms(1), of "[x..<min y e]" rc a z False] assms by (auto simp: wf_constraint_def)
  have c: "count_translated bm x y = Inr (card (translated bm x y))" using count_translated_eq assms by simp
  show ?thesis
    unfolding check_zone_def Let_def prod.case by (intro if_total rbind_total) (auto simp: b c)
qed

lemma check_zones_total: "(\<And>z. z \<in> set zs \<Longrightarrow> \<exists>b. f z = Inr b) \<Longrightarrow> \<exists>b. check_zones f zs = Inr b"
proof (induction zs)
  case (Cons z zs)
  then obtain b c where "f z = Inr b" "check_zones f zs = Inr c" by (metis list.set_intros(1,2))
  then show ?case by (cases b) auto
qed auto

lemma Check_total:
  assumes "wf_bitmap bm" "wb_size bm = n" "rc_active rc \<longrightarrow> wf_constraint n rc" "e < n"
  shows "\<exists>b. Check d rc bm a e = Inr b"
proof (cases "rc_active rc")
  case True
  then have wf: "wf_constraint n rc" using assms(3) by simp
  have wall: "\<exists>b. wall_between rc [g..<e] = Inr b" for g
    using wall_between_eq [of "[g..<e]" rc] wf assms(4) by (auto simp: wf_constraint_def)
  have zones: "\<exists>b. check_zones (check_zone d rc bm a e g l) (enumerate 0 (rc_zone rc)) = Inr b" for g l
  proof (rule check_zones_total)
    fix zone
    assume "zone \<in> set (enumerate 0 (rc_zone rc))"
    then have "snd zone \<in> set (rc_zone rc)" by (auto simp: in_set_enumerate_eq intro: nth_mem dest: sym)
    then obtain z x y where "zone = (z, x, y)" "(x, y) \<in> set (rc_zone rc)" by (cases zone) simp
    then show "\<exists>b. check_zone d rc bm a e g l zone = Inr b"
      using check_zone_total [OF assms(1,2) wf _ _ assms(4)] wf by (auto simp: wf_constraint_def)
  qed
  show ?thesis using True wall [of "GetFirstGapPos bm"] zones by (auto simp: Check_def Let_def)
qed (auto simp: Check_def)

section \<open>Walls\<close>

text \<open>The coverage vectors a search can reach by extensions that pass the check.\<close>

inductive reached :: "int \<Rightarrow> reordering_constraint \<Rightarrow> nat \<Rightarrow> words_bitmap \<Rightarrow> bool" for limit rc n where
  reached_start: "reached limit rc n (WordsBitmap n)"
| reached_step: "reached limit rc n bm \<Longrightarrow> s \<le> e \<Longrightarrow> e < n \<Longrightarrow> Overlap bm (WordsRange s e) = Inr False
    \<Longrightarrow> Check limit rc bm s e = Inr True \<Longrightarrow> SetValue_range bm s e True = Inr bm' \<Longrightarrow> reached limit rc n bm'"

definition wall_kept :: "reordering_constraint \<Rightarrow> words_bitmap \<Rightarrow> bool" where
  "wall_kept rc bm \<longleftrightarrow> (\<forall>w < wb_size bm. rc_wall rc ! w \<longrightarrow> (\<exists>j. w < j \<and> j < wb_size bm \<and> covered bm j)
     \<longrightarrow> (\<forall>i \<le> w. covered bm i))"

lemma Check_wall:
  assumes "Check limit rc bm s e = Inr True" "rc_active rc" "wf_constraint n rc" "e < n"
    and "GetFirstGapPos bm \<noteq> s" "GetFirstGapPos bm \<le> w" "w < e"
  shows "\<not> rc_wall rc ! w"
proof -
  have "wall_between rc [GetFirstGapPos bm..<e] = Inr (\<exists>p \<in> set [GetFirstGapPos bm..<e]. rc_wall rc ! p)"
    by (rule wall_between_eq) (use assms(3,4) in \<open>auto simp: wf_constraint_def\<close>)
  then show ?thesis using assms by (auto simp: Check_def Let_def split: if_splits)
qed

lemma wall_kept_extend:
  assumes "wf_bitmap bm" "wb_size bm = n" "wall_kept rc bm" "wf_constraint n rc" "rc_active rc" "s \<le> e" "e < n"
    and "\<not> covered bm s" "Check limit rc bm s e = Inr True"
  shows "wall_kept rc (set_span bm s (Suc e) True)"
  unfolding wall_kept_def
proof (intro allI impI)
  fix w i
  let ?b = "set_span bm s (Suc e) True"
  assume w: "w < wb_size ?b" "rc_wall rc ! w" and "\<exists>j. w < j \<and> j < wb_size ?b \<and> covered ?b j" and i: "i \<le> w"
  then obtain j where j: "w < j" "j < n" "covered ?b j" using assms(2) by auto
  have size: "i < n" "j < n" using i w(1) j assms(2) by auto
  let ?gap = "GetFirstGapPos bm"
  have "?gap \<le> s \<and> (\<forall>k < ?gap. covered bm k)"
    using assms(1)
  proof (cases rule: GetFirstGapPos_cases)
    case gap
    then show ?thesis using assms(8) by (auto simp: not_less [symmetric])
  next
    case complete
    then show ?thesis using assms(2,6,7,8) by auto
  qed
  then have gap: "?gap \<le> s" "\<forall>k < ?gap. covered bm k" by auto
  show "covered ?b i"
  proof (cases "covered bm j")
    case True
    moreover have "w < wb_size bm" "j < wb_size bm" using w(1) j(2) assms(2) by auto
    ultimately have "covered bm i" using assms(3) w(2) j(1) i unfolding wall_kept_def by blast
    then show ?thesis using size assms(2) by simp
  next
    case False
    then have js: "s \<le> j" "j \<le> e" using j(3) size assms(1,2) by (auto split: if_splits)
    show ?thesis
    proof (cases "?gap = s")
      case True
      then show ?thesis using gap(2) i js j(1) size assms(1,2) by (cases "i < s") auto
    next
      case False
      then have "w < ?gap"
        using Check_wall [OF assms(9,5,4,7) False, of w] w(2) js j(1) by (cases "?gap \<le> w") auto
      then show ?thesis using gap(2) i size assms(1,2) by simp
    qed
  qed
qed

lemma reached_wall_kept:
  assumes "reached limit rc n bm" "wf_constraint n rc" "rc_active rc" "n < 2 ^ 31"
  shows "wf_bitmap bm \<and> wb_size bm = n \<and> wall_kept rc bm"
  using assms(1)
proof (induction rule: reached.induct)
  case reached_start
  then show ?case using wf_WordsBitmap [OF assms(4)] by (auto simp: wall_kept_def WordsBitmap_def Initialize_def)
next
  case (reached_step bm s e bm')
  have "\<not> covered bm s"
    using reached_step Overlap_eq [of bm "WordsRange s e"] assms(4) by (auto simp: NOT_FOUND_def)
  moreover have "bm' = set_span bm s (Suc e) True"
    using reached_step SetValue_range_in [of bm s e True] by simp
  ultimately show ?case
    using reached_step wall_kept_extend [of bm n rc s e limit] assms(2,3) wf_set_span by simp
qed

section \<open>FinalizeWalls\<close>

text \<open>The wall and the local wall of one position, after one zone that contains it.\<close>

definition finalized :: "(nat \<times> nat) list \<Rightarrow> nat \<Rightarrow> nat \<times> nat \<Rightarrow> bool \<times> nat \<Rightarrow> bool \<times> nat" where
  "finalized zones z ab wl = (case (ab, wl) of ((a, b), (w, l)) \<Rightarrow>
     if w then (False, z)
     else if l \<noteq> NOT_A_ZONE \<and> (fst (zones ! l) < a \<or> snd (zones ! l) > b) then (False, z) else (w, l))"

abbreviation wall_of :: "reordering_constraint \<Rightarrow> nat \<Rightarrow> bool \<times> nat" where
  "wall_of rc p \<equiv> (rc_wall rc ! p, rc_localWall rc ! p)"

definition good_walls :: "nat \<Rightarrow> (nat \<times> nat) list \<Rightarrow> reordering_constraint \<Rightarrow> bool" where
  "good_walls n zones rc \<longleftrightarrow> rc_zone rc = zones \<and> length (rc_wall rc) = n \<and> length (rc_localWall rc) = n
     \<and> (\<forall>p < n. rc_localWall rc ! p \<noteq> NOT_A_ZONE \<longrightarrow> rc_localWall rc ! p < length zones)"

lemma finalize_pos_eq:
  assumes "good_walls n zones rc" "pos < n" "z < length zones"
  shows "\<exists>rc'. finalize_pos z a b pos rc = Inr rc' \<and> good_walls n zones rc'
    \<and> (\<forall>p < n. wall_of rc' p = (if p = pos then finalized zones z (a, b) (wall_of rc p) else wall_of rc p))"
  using assms
  by (auto simp: finalize_pos_def good_walls_def finalized_def nth_list_update split: prod.splits)

lemma finalize_zone_eq:
  assumes "good_walls n zones rc" "\<forall>p \<in> set ps. p < n" "distinct ps" "z < length zones"
  shows "\<exists>rc'. rfold (finalize_pos z a b) ps rc = Inr rc' \<and> good_walls n zones rc'
    \<and> (\<forall>p < n. wall_of rc' p = (if p \<in> set ps then finalized zones z (a, b) (wall_of rc p) else wall_of rc p))"
  using assms(1-3)
proof (induction ps arbitrary: rc)
  case (Cons pos ps)
  obtain rc1 where rc1: "finalize_pos z a b pos rc = Inr rc1" "good_walls n zones rc1"
      "\<forall>p < n. wall_of rc1 p = (if p = pos then finalized zones z (a, b) (wall_of rc p) else wall_of rc p)"
    using finalize_pos_eq [OF Cons.prems(1) _ assms(4), of pos a b] Cons.prems(2) by auto
  obtain rc2 where rc2: "rfold (finalize_pos z a b) ps rc1 = Inr rc2" "good_walls n zones rc2"
      "\<forall>p < n. wall_of rc2 p = (if p \<in> set ps then finalized zones z (a, b) (wall_of rc1 p) else wall_of rc1 p)"
    using Cons.IH [OF rc1(2)] Cons.prems(2,3) by auto
  have "\<forall>p < n. wall_of rc2 p = (if p \<in> set (pos # ps) then finalized zones z (a, b) (wall_of rc p) else wall_of rc p)"
    using rc1(3) rc2(3) Cons.prems(3) by (metis distinct.simps(2) list.set_intros(1,2) set_ConsD)
  then show ?case using rc1(1) rc2(1,2) by simp
qed simp

text \<open>The positions a zone has before its last one, and the innermost of the first k zones at a position.\<close>

abbreviation in_zone :: "nat \<Rightarrow> nat \<times> nat \<Rightarrow> bool" where
  "in_zone p ab \<equiv> fst ab \<le> p \<and> p < snd ab"

definition innermost :: "(nat \<times> nat) list \<Rightarrow> nat \<Rightarrow> nat \<Rightarrow> nat \<Rightarrow> bool" where
  "innermost zones k p z \<longleftrightarrow> z < k \<and> in_zone p (zones ! z)
     \<and> (\<forall>z' < k. in_zone p (zones ! z') \<longrightarrow> fst (zones ! z') \<le> fst (zones ! z) \<and> snd (zones ! z) \<le> snd (zones ! z'))"

definition localized :: "(nat \<times> nat) list \<Rightarrow> nat \<Rightarrow> bool \<Rightarrow> nat \<Rightarrow> bool \<times> nat \<Rightarrow> bool" where
  "localized zones k wall p wl \<longleftrightarrow>
     (if wall \<and> (\<exists>z < k. in_zone p (zones ! z)) then \<not> fst wl \<and> innermost zones k p (snd wl) else wl = (wall, NOT_A_ZONE))"

text \<open>Zones that share a position are nested.\<close>

definition nested :: "(nat \<times> nat) list \<Rightarrow> bool" where
  "nested zones \<longleftrightarrow> (\<forall>y \<in> set zones. \<forall>z \<in> set zones. \<forall>p. in_zone p y \<and> in_zone p z \<longrightarrow>
     fst y \<le> fst z \<and> snd z \<le> snd y \<or> fst z \<le> fst y \<and> snd y \<le> snd z)"

lemma localized_step:
  assumes "nested zones" "k < length zones" "length zones \<le> NOT_A_ZONE" "localized zones k wall p wl"
  shows "localized zones (Suc k) wall p (if in_zone p (zones ! k) then finalized zones k (zones ! k) wl else wl)"
proof (cases "wall \<and> (\<exists>z < k. in_zone p (zones ! z))")
  case True
  obtain l where l: "wl = (False, l)" "innermost zones k p l"
    using assms(4) True by (cases wl) (auto simp: localized_def)
  have z: "l < k" "in_zone p (zones ! l)" using l(2) by (auto simp: innermost_def)
  have nest: "fst (zones ! l) \<le> fst (zones ! k) \<and> snd (zones ! k) \<le> snd (zones ! l)
      \<or> fst (zones ! k) \<le> fst (zones ! l) \<and> snd (zones ! l) \<le> snd (zones ! k)" if "in_zone p (zones ! k)"
    using assms(1,2) z that unfolding nested_def by (meson less_trans nth_mem)
  have "innermost zones (Suc k) p (if in_zone p (zones ! k) \<and> (fst (zones ! l) < fst (zones ! k) \<or> snd (zones ! l) > snd (zones ! k)) then k else l)"
    using l(2) nest z unfolding innermost_def by (auto simp: less_Suc_eq)
  moreover have "\<exists>z < Suc k. in_zone p (zones ! z)" using z by (auto intro: less_SucI)
  ultimately show ?thesis
    using True l(1) z(1) assms(2,3) by (auto simp: localized_def finalized_def split: prod.splits if_splits)
next
  case False
  then have "wl = (wall, NOT_A_ZONE)" using assms(4) by (auto simp: localized_def)
  moreover have "innermost zones (Suc k) p k" if "in_zone p (zones ! k)" "wall"
    using that False by (auto simp: innermost_def less_Suc_eq)
  moreover have "(\<exists>z < Suc k. in_zone p (zones ! z)) \<longleftrightarrow> in_zone p (zones ! k)" if "wall"
    using that False by (auto simp: less_Suc_eq)
  ultimately show ?thesis
    by (cases wall) (auto simp: localized_def finalized_def split: prod.splits)
qed

lemma finalize_zones:
  assumes "nested zones" "length zones \<le> NOT_A_ZONE" "\<forall>(a, b) \<in> set zones. b < n"
    and "zones = take k zones @ zs" "k \<le> length zones" "good_walls n zones rc" "\<forall>p < n. localized zones k (walls p) p (wall_of rc p)"
  shows "\<exists>rc'. rfold (\<lambda>(z, (a, b)) rc. rfold (finalize_pos z a b) [a..<b] rc) (enumerate k zs) rc = Inr rc'
    \<and> good_walls n zones rc' \<and> (\<forall>p < n. localized zones (length zones) (walls p) p (wall_of rc' p))"
  using assms(4-)
proof (induction zs arbitrary: k rc)
  case Nil
  then have "k = length zones" by (metis append_Nil2 length_take min.absorb2)
  then show ?case using Nil by simp
next
  case (Cons ab zs)
  obtain a b where ab: "ab = (a, b)" by (cases ab)
  have k: "k < length zones" "zones ! k = (a, b)"
    using Cons.prems(1,2) ab by (metis append_take_drop_id drop_all not_less same_append_eq list.distinct(1), metis nth_append_length length_take min.absorb2)
  then have zs: "zones = take (Suc k) zones @ zs"
    using Cons.prems(1) ab by (simp add: take_Suc_conv_app_nth)
  have "b < n" using assms(3) k nth_mem by force
  then obtain rc1 where rc1: "rfold (finalize_pos k a b) [a..<b] rc = Inr rc1" "good_walls n zones rc1"
      "\<forall>p < n. wall_of rc1 p = (if p \<in> set [a..<b] then finalized zones k (a, b) (wall_of rc p) else wall_of rc p)"
    using finalize_zone_eq [OF Cons.prems(3), of "[a..<b]" k a b] k(1) by auto
  have "\<forall>p < n. localized zones (Suc k) (walls p) p (wall_of rc1 p)"
  proof (intro allI impI)
    fix p assume p: "p < n"
    then have "localized zones k (walls p) p (wall_of rc p)" using Cons.prems(4) by blast
    from localized_step [OF assms(1) k(1) assms(2) this]
    have "localized zones (Suc k) (walls p) p (if in_zone p (a, b) then finalized zones k (a, b) (wall_of rc p) else wall_of rc p)"
      unfolding k(2) .
    moreover have "wall_of rc1 p = (if in_zone p (a, b) then finalized zones k (a, b) (wall_of rc p) else wall_of rc p)"
      using rc1(3) p by simp
    ultimately show "localized zones (Suc k) (walls p) p (wall_of rc1 p)" by (simp only:)
  qed
  from Cons.IH [OF zs _ rc1(2) this] k(1) show ?case using rc1(1) ab by simp
qed

section \<open>Properties\<close>

text \<open>
  C39. Walls are respected: in every coverage vector a search reaches by extensions that pass Check, whatever the zones and the distortion
  limit are, a word after a wall is translated only when all words up to the wall are.
\<close>

theorem walls_respected:
  assumes "wf_constraint n rc" "rc_active rc" "n < 2 ^ 31" "reached limit rc n bm"
    and "rc_wall rc ! w" "w < j" "j < n" "covered bm j" "i \<le> w"
  shows "covered bm i"
  using reached_wall_kept [OF assms(4,1-3)] assms(5-9) unfolding wall_kept_def by (meson less_trans)

text \<open>
  A zone once entered is finished: when some but not all words of a zone are translated, an extension that passes Check touches the zone;
  and unless it continues a translation without gaps, one that begins inside the zone and goes beyond its end translates all words
  of the zone that are left.
\<close>

theorem zone_finished:
  assumes "wf_bitmap bm" "wb_size bm = n" "wf_constraint n rc" "rc_active rc" "z < length (rc_zone rc)" "rc_zone rc ! z = (a, b)"
    and "a \<le> i" "i \<le> b" "covered bm i" "a \<le> j" "j \<le> b" "\<not> covered bm j"
    and "s \<le> e" "e < n" "Overlap bm (WordsRange s e) = Inr False" "Check limit rc bm s e = Inr True"
  shows "s \<le> b \<and> a \<le> e \<and> (a < s \<and> b < e \<and> \<not> (GetFirstGapPos bm = s \<and> GetLastPos bm < s) \<longrightarrow>
    (\<forall>k. a \<le> k \<and> k \<le> b \<longrightarrow> covered (set_span bm s (Suc e) True) k))"
proof -
  have ab: "a \<le> b" "b < n" using assms(3,5,6) nth_mem [OF assms(5)] by (auto simp: wf_constraint_def)
  have "GetLastPos bm < n \<and> i \<le> GetLastPos bm"
    using assms(1) by (cases rule: GetLastPos_cases) (use assms(2,7-9) ab in \<open>force simp: not_le [symmetric]\<close>)+
  then have last: "a \<le> GetLastPos bm" "GetLastPos bm < n" "i \<le> GetLastPos bm" using assms(7) by auto
  have gap: "GetFirstGapPos bm \<le> j"
    using assms(1) by (cases rule: GetFirstGapPos_cases) (use assms(2,11,12) ab in \<open>auto simp: not_less [symmetric]\<close>)
  have "GetLastPos bm \<noteq> NOT_FOUND" using last(2) assms(1,2) by (auto simp: wf_bitmap_def NOT_FOUND_def)
  show ?thesis
  proof (cases "GetFirstGapPos bm > GetLastPos bm \<and> GetFirstGapPos bm = s")
    case True
    then show ?thesis using last gap assms(11,13) by auto
  next
    case False
    then have zone: "check_zone limit rc bm s e (GetFirstGapPos bm) (GetLastPos bm) (z, a, b) = Inr True"
      using Check_zone [OF assms(16,4,5,6)] \<open>GetLastPos bm \<noteq> NOT_FOUND\<close> by blast
    have pos: "0 < card (translated bm a b)" using assms(7-9) by (auto simp: card_gt_0_iff translated_def)
    let ?U = "{p. a \<le> p \<and> p \<le> b \<and> \<not> covered bm p}"
    have U: "finite ?U" "j \<in> ?U" "card (translated bm a b) + card ?U = b - a + 1"
      using assms(10-12) card_translated [OF ab(1)] by (auto intro: finite_subset [of _ "{a..b}"])
    then have less: "card (translated bm a b) < b - a + 1" using card_gt_0_iff [of ?U] by (metis add_cancel_left_right empty_iff less_add_same_cancel1 not_gr_zero le_add1 le_neq_implies_less card_0_eq)
    note act = check_zone_active [OF zone assms(1) ab(1) _ _ last(1) pos less]
    have "b < wb_size bm" "GetFirstGapPos bm \<le> b" using ab assms(2,11) gap by auto
    note act = act [OF this]
    have fill: "\<forall>k. a \<le> k \<and> k \<le> b \<longrightarrow> covered (set_span bm s (Suc e) True) k" if se: "a < s" "b < e" "s \<le> b"
    proof -
      have "\<not> (\<exists>p \<in> set (positions (WordsRange s e)). covered bm p)"
        using Overlap_eq [OF assms(1), of "WordsRange s e"] assms(1,2,13-15) by (auto simp: wf_bitmap_def NOT_FOUND_def)
      then have sub: "{s..b} \<subseteq> ?U" using se by auto
      have "card ?U \<le> card {s..b}" using act se U(3) by simp
      then have "?U = {s..b}" using card_subset_eq [OF U(1) sub] card_mono [OF U(1) sub] by simp
      then have "\<forall>k. a \<le> k \<and> k \<le> b \<longrightarrow> covered bm k \<or> s \<le> k" by auto
      then show ?thesis using se ab(2) assms(2) by (metis le_imp_less_Suc le_less_trans less_imp_le_nat set_span_simps(2))
    qed
    then show ?thesis using act by auto
  qed
qed

text \<open>
  FinalizeWalls, for zones of which any two that share a position are nested: no wall in a zone, before the zone's last position, is left;
  it has become a local wall of the innermost zone around it. Every other wall stays.
\<close>

theorem FinalizeWalls_innermost:
  assumes "nested (rc_zone rc)" "wf_constraint n rc" "length (rc_zone rc) \<le> NOT_A_ZONE"
    and "\<forall>p < n. rc_localWall rc ! p = NOT_A_ZONE"
  shows "\<exists>rc'. FinalizeWalls rc = Inr rc' \<and> rc_zone rc' = rc_zone rc \<and> (\<forall>p < n.
    if rc_wall rc ! p \<and> (\<exists>z < length (rc_zone rc). in_zone p (rc_zone rc ! z))
    then \<not> rc_wall rc' ! p \<and> innermost (rc_zone rc) (length (rc_zone rc)) p (rc_localWall rc' ! p)
    else rc_wall rc' ! p = rc_wall rc ! p \<and> rc_localWall rc' ! p = NOT_A_ZONE)"
proof -
  have "good_walls n (rc_zone rc) rc" using assms(2,4) by (simp add: good_walls_def wf_constraint_def)
  moreover have "\<forall>p < n. localized (rc_zone rc) 0 (rc_wall rc ! p) p (wall_of rc p)"
    using assms(4) by (simp add: localized_def)
  moreover have "\<forall>(a, b) \<in> set (rc_zone rc). b < n" using assms(2) by (auto simp: wf_constraint_def)
  ultimately obtain rc' where rc': "FinalizeWalls rc = Inr rc'" "good_walls n (rc_zone rc) rc'"
      "\<forall>p < n. localized (rc_zone rc) (length (rc_zone rc)) (rc_wall rc ! p) p (wall_of rc' p)"
    using finalize_zones [OF assms(1,3), where n = n and zs = "rc_zone rc" and k = 0 and rc = rc and walls = "\<lambda>p. rc_wall rc ! p"] by (auto simp: FinalizeWalls_def)
  then show ?thesis by (auto simp: localized_def good_walls_def split: if_splits)
qed

definition example_walls :: reordering_constraint where
  "example_walls = \<lparr>rc_size = 3, rc_wall = [True, False, False], rc_localWall = replicate 3 NOT_A_ZONE, rc_zone = [(1, 2)], rc_active = True\<rparr>"

lemma walls_respected_witness:
  "covered \<lparr>wb_size = 3, wb_bitmap = [True, True, False]\<rparr> 0"
proof -
  let ?b0 = "WordsBitmap 3" and ?b1 = "\<lparr>wb_size = 3, wb_bitmap = [True, False, False]\<rparr>"
    and ?b2 = "\<lparr>wb_size = 3, wb_bitmap = [True, True, False]\<rparr>"
  have b1: "reached 6 example_walls 3 ?b1"
  proof (rule reached_step [OF reached_start])
    show "Overlap ?b0 (WordsRange 0 0) = Inr False" "Check 6 example_walls ?b0 0 0 = Inr True" "SetValue_range ?b0 0 0 True = Inr ?b1"
      by (simp_all add: Check_def bitmap_eval example_walls_def)
  qed simp_all
  have "reached 6 example_walls 3 ?b2"
  proof (rule reached_step [OF b1])
    show "Overlap ?b1 (WordsRange 1 1) = Inr False" "Check 6 example_walls ?b1 1 1 = Inr True" "SetValue_range ?b1 1 1 True = Inr ?b2"
      by (simp_all add: Check_def bitmap_eval example_walls_def)
  qed simp_all
  moreover have "wf_constraint 3 example_walls" "rc_active example_walls" "rc_wall example_walls ! 0"
    by (simp_all add: wf_constraint_def example_walls_def)
  ultimately show ?thesis using walls_respected [of 3 example_walls 6 ?b2 0 1 0] by simp
qed

definition example_zone :: reordering_constraint where
  "example_zone = \<lparr>rc_size = 4, rc_wall = replicate 4 False, rc_localWall = replicate 4 NOT_A_ZONE, rc_zone = [(1, 2)], rc_active = True\<rparr>"

lemma zone_finished_witness:
  "\<exists>s e. Check 6 example_zone \<lparr>wb_size = 4, wb_bitmap = [False, True, False, False]\<rparr> s e = Inr True \<and> s \<le> 2 \<and> 1 \<le> e"
proof -
  let ?bm = "\<lparr>wb_size = 4, wb_bitmap = [False, True, False, False]\<rparr>"
  have check: "Check 6 example_zone ?bm 2 2 = Inr True" "Overlap ?bm (WordsRange 2 2) = Inr False"
    by (simp_all add: Check_def bitmap_eval example_zone_def GetWall_def check_zone_def count_translated_def int_to_size_def
        sz_sub_def sz_add_def SIZE_RANGE_def)
  have "wf_bitmap ?bm" "wf_constraint 4 example_zone" "rc_active example_zone" "rc_zone example_zone ! 0 = (1, 2)"
    by (simp_all add: wf_bitmap_def wf_constraint_def example_zone_def)
  then have "(2 :: nat) \<le> 2 \<and> (1 :: nat) \<le> 2"
    using zone_finished [of ?bm 4 example_zone 0 1 2 1 2 2 2 6] check by (simp add: example_zone_def)
  then show ?thesis using check(1) by blast
qed

lemma FinalizeWalls_innermost_witness:
  "\<exists>rc'. FinalizeWalls \<lparr>rc_size = 4, rc_wall = [False, True, False, True], rc_localWall = replicate 4 NOT_A_ZONE,
     rc_zone = [(1, 2), (0, 3)], rc_active = True\<rparr> = Inr rc' \<and> \<not> rc_wall rc' ! 1 \<and> rc_wall rc' ! 3"
proof -
  let ?rc = "\<lparr>rc_size = 4, rc_wall = [False, True, False, True], rc_localWall = replicate 4 NOT_A_ZONE,
     rc_zone = [(1, 2), (0, 3)], rc_active = True\<rparr> :: reordering_constraint"
  have "nested (rc_zone ?rc)" by (auto simp: nested_def)
  moreover have "wf_constraint 4 ?rc" by (simp add: wf_constraint_def)
  moreover have "length (rc_zone ?rc) \<le> NOT_A_ZONE" "\<forall>p < 4. rc_localWall ?rc ! p = NOT_A_ZONE" by (simp_all add: NOT_A_ZONE_def)
  ultimately obtain rc' where rc': "FinalizeWalls ?rc = Inr rc'" "rc_zone rc' = rc_zone ?rc" "\<forall>p < 4.
    if rc_wall ?rc ! p \<and> (\<exists>z < length (rc_zone ?rc). in_zone p (rc_zone ?rc ! z))
    then \<not> rc_wall rc' ! p \<and> innermost (rc_zone ?rc) (length (rc_zone ?rc)) p (rc_localWall rc' ! p)
    else rc_wall rc' ! p = rc_wall ?rc ! p \<and> rc_localWall rc' ! p = NOT_A_ZONE"
    using FinalizeWalls_innermost by blast
  have "\<exists>z < length (rc_zone ?rc). in_zone 1 (rc_zone ?rc ! z)" by (auto intro: exI [of _ 0])
  moreover have "\<not> (\<exists>z < length (rc_zone ?rc). in_zone 3 (rc_zone ?rc ! z))" by (auto simp: less_Suc_eq numeral_2_eq_2 nth_Cons')
  ultimately have "\<not> rc_wall rc' ! 1" "rc_wall rc' ! 3"
    using rc'(3) [rule_format, of 1] rc'(3) [rule_format, of 3] by simp_all
  then show ?thesis using rc'(1) by blast
qed

end
