(* ===== verification/TransOptColl.thy ===== *)
theory TransOptColl
  imports ScoreIndex Phrases SquareMatrices StdAlgorithms
begin

text \<open>
  Translation options of the phrase-based search (TranslationOption.h, TranslationOption.cpp,
  TranslationOptionList.h, TranslationOptionCollection.h, TranslationOptionCollection.cpp, LMList.cpp): for every
  span of the sentence the list of its phrase translations, the pruning of the lists, unknown words, and the table of
  future scores.

  What the decoding steps find for a span, the language models and the XML markup of the input are
  parameters; the cross-sentence cache is off; cached reordering scores are not modelled. std::nth\_element and
  std::sort are parameters of theory StdAlgorithms.
\<close>

section \<open>Options and language models\<close>

record pb_option =
  po_target :: target_phrase
  po_range :: words_range
  po_future :: score
  po_breakdown :: "real list"

record language_model =
  lm_producer :: score_producer
  lm_weight :: real
  lm_oovWeight :: real
  lm_useable :: "phrase \<Rightarrow> bool"
  lm_score :: "phrase \<Rightarrow> real \<times> real \<times> nat"

datatype xml_input_type = XmlPassThrough | XmlIgnore | XmlExclusive | XmlInclusive

text \<open>What the collection reads of StaticData, the translation system and the input.\<close>

record pb_system =
  py_index :: score_index
  py_weights :: "real list"
  py_wordPenalty :: real
  py_lms :: "language_model list"
  py_oovFeature :: bool
  py_unknownProducer :: score_producer
  py_dropUnknown :: bool
  py_alwaysDirect :: bool
  py_string :: "factor \<Rightarrow> string"
  py_unknownFactor :: factor
  py_maxPhraseLength :: nat
  py_xmlType :: xml_input_type
  py_xmlOverlap :: "nat \<Rightarrow> nat \<Rightarrow> bool"
  py_xmlOptions :: "nat \<Rightarrow> nat \<Rightarrow> pb_option list"
  py_graphs :: nat
  py_backoff :: "nat list"
  py_lookup :: "nat \<Rightarrow> nat \<Rightarrow> nat \<Rightarrow> bool \<Rightarrow> pb_option list"
  py_source :: "word list"
  py_optsel :: "pb_option select"

text \<open>One language model: the accumulated full, n-gram and out-of-vocabulary scores and the breakdown.\<close>

definition lm_CalcScore :: "pb_system \<Rightarrow> phrase \<Rightarrow> language_model \<Rightarrow> (real \<times> real \<times> real) \<times> real list
    \<Rightarrow> ((real \<times> real \<times> real) \<times> real list) result" where
  "lm_CalcScore sys ph lm st =
     (case st of ((retFullScore, retNGramScore, retOOVScore), breakdown) \<Rightarrow>
        if \<not> lm_useable lm ph then Inr st
        else case lm_score lm ph of (fullScore, nGramScore, oovCount) \<Rightarrow>
          rbind (if py_oovFeature sys
                 then rbind (Assign (py_index sys) (lm_producer lm) [nGramScore, real oovCount] breakdown) (\<lambda>bd.
                        Inr (retOOVScore + real oovCount * lm_oovWeight lm, bd))
                 else rbind (Assign_one (py_index sys) (lm_producer lm) nGramScore breakdown) (\<lambda>bd. Inr (retOOVScore, bd))) (\<lambda>(oov, bd).
            Inr ((retFullScore + fullScore * lm_weight lm, retNGramScore + nGramScore * lm_weight lm, oov), bd)))"

definition LMList_CalcScore :: "pb_system \<Rightarrow> phrase \<Rightarrow> real list \<Rightarrow> ((real \<times> real \<times> real) \<times> real list) result" where
  "LMList_CalcScore sys ph breakdown = rfold (lm_CalcScore sys ph) (py_lms sys) ((0, 0, 0), breakdown)"

text \<open>TranslationOption::CalcScore.\<close>

definition option_CalcScore :: "pb_system \<Rightarrow> pb_option \<Rightarrow> pb_option result" where
  "option_CalcScore sys opt =
     rbind (LMList_CalcScore sys (tp_words (po_target opt)) (po_breakdown opt)) (\<lambda>((full, ngram, oov), breakdown).
     rbind (InnerProduct breakdown (py_weights sys)) (\<lambda>weighted.
       Inr (opt\<lparr>po_breakdown := breakdown,
                 po_future := Fin (full - ngram + oov + weighted - real (length (tp_words (po_target opt))) * py_wordPenalty sys)\<rparr>)))"

section \<open>The collection\<close>

record option_coll =
  oc_collection :: "pb_option list list list"
  oc_futureScore :: "score square_matrix"
  oc_maxNoTransOptPerCoverage :: nat
  oc_translationOptionThreshold :: score

text \<open>The number of spans that begin at a position, and all spans in the order of the loops.\<close>

definition max_size :: "pb_system \<Rightarrow> nat \<Rightarrow> nat" where
  "max_size sys startPos = min (length (py_source sys) - startPos) (py_maxPhraseLength sys)"

definition all_spans :: "pb_system \<Rightarrow> (nat \<times> nat) list" where
  "all_spans sys = concat (map (\<lambda>startPos. map (Pair startPos) [startPos..<startPos + max_size sys startPos]) [0..<length (py_source sys)])"

definition TranslationOptionCollection :: "pb_system \<Rightarrow> score list \<Rightarrow> nat \<Rightarrow> score \<Rightarrow> option_coll" where
  "TranslationOptionCollection sys cells maxNo threshold =
     \<lparr>oc_collection = map (\<lambda>startPos. replicate (max_size sys startPos) []) [0..<length (py_source sys)],
      oc_futureScore = SquareMatrix (length (py_source sys)) cells,
      oc_maxNoTransOptPerCoverage = maxNo, oc_translationOptionThreshold = threshold\<rparr>"

definition list_index :: "pb_system \<Rightarrow> nat \<Rightarrow> nat \<Rightarrow> nat" where
  "list_index sys startPos endPos = min (sz_sub endPos startPos) (py_maxPhraseLength sys)"

definition GetTranslationOptionList :: "pb_system \<Rightarrow> nat \<Rightarrow> nat \<Rightarrow> option_coll \<Rightarrow> pb_option list result" where
  "GetTranslationOptionList sys startPos endPos coll =
     rbind (array_get (oc_collection coll) startPos) (\<lambda>row.
     rbind (check (list_index sys startPos endPos < length row)) (\<lambda>_. Inr (row ! list_index sys startPos endPos)))"

text \<open>Writing through the reference that GetTranslationOptionList returns.\<close>

definition set_list :: "pb_system \<Rightarrow> nat \<Rightarrow> nat \<Rightarrow> pb_option list \<Rightarrow> option_coll \<Rightarrow> option_coll" where
  "set_list sys startPos endPos opts coll =
     coll\<lparr>oc_collection := (oc_collection coll)[startPos := (oc_collection coll ! startPos)[list_index sys startPos endPos := opts]]\<rparr>"

definition update_list :: "pb_system \<Rightarrow> (pb_option list \<Rightarrow> pb_option list) \<Rightarrow> nat \<times> nat \<Rightarrow> option_coll \<Rightarrow> option_coll result" where
  "update_list sys f interval coll = (case interval of (startPos, endPos) \<Rightarrow>
     rbind (GetTranslationOptionList sys startPos endPos coll) (\<lambda>opts. Inr (set_list sys startPos endPos (f opts) coll)))"

definition oc_Add :: "pb_option \<Rightarrow> option_coll \<Rightarrow> option_coll result" where
  "oc_Add opt coll =
     (let s = GetStartPos (po_range opt); k = sz_sub (GetEndPos (po_range opt)) s in
      rbind (array_get (oc_collection coll) s) (\<lambda>row.
      rbind (check (k < length row)) (\<lambda>_.
        Inr (coll\<lparr>oc_collection := (oc_collection coll)[s := row[k := row ! k @ [opt]]]\<rparr>))))"

section \<open>Pruning\<close>

text \<open>The loop that removes an option stays at its index: what remains are the options that are not removed.\<close>

definition prune_list :: "pb_option select \<Rightarrow> nat \<Rightarrow> score \<Rightarrow> pb_option list \<Rightarrow> pb_option list" where
  "prune_list sel maxNo threshold fullList =
     (let sized = (if maxNo > 0 \<and> length fullList > maxNo then take maxNo (sel po_future maxNo fullList) else fullList) in
      if length sized > 1 \<and> threshold \<noteq> NegInf
      then let bestScore = fold (\<lambda>opt best. if po_future opt > best then po_future opt else best) sized NegInf
           in filter (\<lambda>opt. \<not> po_future opt < bestScore + threshold) sized
      else sized)"

definition oc_Prune :: "pb_system \<Rightarrow> option_coll \<Rightarrow> option_coll result" where
  "oc_Prune sys coll =
     (if oc_maxNoTransOptPerCoverage coll = 0 \<and> oc_translationOptionThreshold coll = NegInf then Inr coll
      else rfold (update_list sys (prune_list (py_optsel sys) (oc_maxNoTransOptPerCoverage coll) (oc_translationOptionThreshold coll)))
             (all_spans sys) coll)"

definition oc_Sort :: "pb_system \<Rightarrow> option_coll \<Rightarrow> option_coll result" where
  "oc_Sort sys = rfold (update_list sys (\<lambda>opts. py_optsel sys po_future (length opts) opts)) (all_spans sys)"

section \<open>Unknown words\<close>

text \<open>The position of the first digit, as find\_first\_of returns it.\<close>

definition first_digit :: "string \<Rightarrow> nat" where
  "first_digit s = (if \<exists>c \<in> set s. c \<in> set ''0123456789'' then length (takeWhile (\<lambda>c. c \<notin> set ''0123456789'') s) else NOT_FOUND)"

definition unknown_target :: "pb_system \<Rightarrow> word \<Rightarrow> string \<Rightarrow> target_phrase" where
  "unknown_target sys sourceWord s =
     (let isEpsilon = (s = '''' \<or> s = ''*EPS*'');
          isDigit = (py_dropUnknown sys \<and> first_digit s = 1);
          targetWord = \<lparr>w_factors = map (\<lambda>i. case GetFactor sourceWord i of None \<Rightarrow> Some (py_unknownFactor sys) | Some f \<Rightarrow> Some f)
              [0..<MAX_NUM_FACTORS], w_isNonTerminal = False\<rparr>;
          blank = \<lparr>tp_ptr = 0, tp_words = [], tp_futureScore = Fin (- py_wordPenalty sys), tp_breakdown = ScoreComponentCollection (py_index sys),
              tp_align = [], tp_lhs = \<lparr>w_factors = [], w_isNonTerminal = False\<rparr>\<rparr>
      in if \<not> (py_dropUnknown sys \<or> isEpsilon) \<or> isDigit then blank\<lparr>tp_words := [targetWord], tp_align := [(0, 0)]\<rparr> else blank)"

text \<open>For text input: the option covers one word and has no input scores.\<close>

definition pb_ProcessOneUnknownWord :: "pb_system \<Rightarrow> word \<Rightarrow> nat \<Rightarrow> option_coll \<Rightarrow> option_coll result" where
  "pb_ProcessOneUnknownWord sys sourceWord sourcePos coll =
     (case GetFactor sourceWord 0 of
        None \<Rightarrow> Inl NullPointer
      | Some f \<Rightarrow>
          rbind (Assign (py_index sys) (py_unknownProducer sys) [LOWEST_SCORE] (ScoreComponentCollection (py_index sys))) (\<lambda>bd.
          rbind (option_CalcScore sys \<lparr>po_target = unknown_target sys sourceWord (py_string sys f),
              po_range = WordsRange sourcePos sourcePos, po_future = Fin 0, po_breakdown = bd\<rparr>) (\<lambda>opt. oc_Add opt coll)))"

section \<open>Creating the options\<close>

definition pb_CreateTranslationOptionsForRange :: "pb_system \<Rightarrow> nat \<Rightarrow> nat \<Rightarrow> nat \<Rightarrow> bool \<Rightarrow> option_coll \<Rightarrow> option_coll result" where
  "pb_CreateTranslationOptionsForRange sys graph startPos endPos adhereTableLimit coll =
     rbind (if py_xmlType sys \<noteq> XmlExclusive \<or> \<not> py_xmlOverlap sys startPos endPos
            then rfold (\<lambda>opt c. rbind (option_CalcScore sys opt) (\<lambda>opt'. oc_Add opt' c)) (py_lookup sys graph startPos endPos adhereTableLimit) coll
            else Inr coll) (\<lambda>coll1.
       if py_xmlType sys \<noteq> XmlPassThrough \<and> py_xmlOverlap sys startPos endPos
       then rfold (\<lambda>opt c. rbind (option_CalcScore sys opt) (\<lambda>opt'. oc_Add opt' c)) (py_xmlOptions sys startPos endPos) coll1
       else Inr coll1)"

definition pb_ProcessUnknownWord :: "pb_system \<Rightarrow> option_coll \<Rightarrow> option_coll result" where
  "pb_ProcessUnknownWord sys coll =
     rbind (rfold (\<lambda>graph. rfold (\<lambda>pos c. rbind (GetTranslationOptionList sys pos pos c) (\<lambda>fullList.
              if fullList = [] then pb_CreateTranslationOptionsForRange sys graph pos pos False c else Inr c))
            [0..<length (py_source sys)]) [0..<py_graphs sys] coll) (\<lambda>coll1.
       rfold (\<lambda>pos c. rbind (GetTranslationOptionList sys pos pos c) (\<lambda>fullList.
           if fullList = [] \<or> py_alwaysDirect sys
           then rbind (array_get (py_source sys) pos) (\<lambda>sourceWord. pb_ProcessOneUnknownWord sys sourceWord pos c) else Inr c))
         [0..<length (py_source sys)] coll1)"

text \<open>The loop over all spans for one decoding graph, with the backoff of the graphs after the first.\<close>

definition create_for_graph :: "pb_system \<Rightarrow> nat \<Rightarrow> option_coll \<Rightarrow> option_coll result" where
  "create_for_graph sys graph = rfold (\<lambda>(startPos, endPos) coll.
     rbind (if graph > 0 then array_get (py_backoff sys) graph else Inr 0) (\<lambda>backoff.
     rbind (array_get (oc_collection coll) startPos) (\<lambda>row. rbind (array_get row (endPos - startPos)) (\<lambda>opts.
       if graph > 0 \<and> backoff \<noteq> 0 \<and> (endPos - startPos + 1 \<ge> backoff \<or> opts \<noteq> []) then Inr coll
       else pb_CreateTranslationOptionsForRange sys graph startPos endPos True coll)))) (all_spans sys)"

section \<open>Future scores\<close>

definition raise_score :: "nat \<Rightarrow> nat \<Rightarrow> score \<Rightarrow> score square_matrix \<Rightarrow> score square_matrix result" where
  "raise_score startPos endPos sc m =
     rbind (GetScore m startPos endPos) (\<lambda>old. if sc > old then SetScore m startPos endPos sc else Inr m)"

definition init_scores :: "nat \<Rightarrow> score square_matrix \<Rightarrow> score square_matrix result" where
  "init_scores sz = rfold (\<lambda>row. rfold (\<lambda>col m. SetScore m row col NegInf) [row..<sz]) [0..<sz]"

definition span_scores :: "pb_system \<Rightarrow> option_coll \<Rightarrow> score square_matrix \<Rightarrow> score square_matrix result" where
  "span_scores sys coll = rfold (\<lambda>(startPos, endPos) m.
     rbind (GetTranslationOptionList sys startPos endPos coll) (\<lambda>opts.
       rfold (\<lambda>opt. raise_score startPos endPos (po_future opt)) opts m)) (all_spans sys)"

definition join_score :: "nat \<Rightarrow> nat \<Rightarrow> nat \<Rightarrow> score square_matrix \<Rightarrow> score square_matrix result" where
  "join_score startPos endPos joinAt m =
     rbind (GetScore m startPos joinAt) (\<lambda>a. rbind (GetScore m (joinAt + 1) endPos) (\<lambda>b. raise_score startPos endPos (a + b) m))"

definition join_scores :: "nat \<Rightarrow> score square_matrix \<Rightarrow> score square_matrix result" where
  "join_scores sz = rfold (\<lambda>colstart. rfold (\<lambda>diagshift.
     rfold (join_score diagshift (colstart + diagshift)) [diagshift..<colstart + diagshift]) [0..<sz - colstart]) [1..<sz]"

definition oc_CalcFutureScore :: "pb_system \<Rightarrow> option_coll \<Rightarrow> option_coll result" where
  "oc_CalcFutureScore sys coll =
     rbind (init_scores (length (py_source sys)) (oc_futureScore coll)) (\<lambda>m1.
     rbind (span_scores sys coll m1) (\<lambda>m2.
     rbind (join_scores (length (py_source sys)) m2) (\<lambda>m3. Inr (coll\<lparr>oc_futureScore := m3\<rparr>))))"

definition CreateTranslationOptions :: "pb_system \<Rightarrow> option_coll \<Rightarrow> option_coll result" where
  "CreateTranslationOptions sys coll =
     rbind (rfold (create_for_graph sys) [0..<py_graphs sys] coll) (\<lambda>c1.
     rbind (pb_ProcessUnknownWord sys c1) (\<lambda>c2.
     rbind (oc_Prune sys c2) (\<lambda>c3.
     rbind (oc_Sort sys c3) (oc_CalcFutureScore sys))))"

end
