(* ===== verification/FutureScores.thy ===== *)
theory FutureScores
  imports TransOptColl
begin

text \<open>
  The table of future scores (TranslationOptionCollection::CalcFutureScore, theory TransOptColl): each cell is the score
  of the best sequence of translation options that covers its span.
\<close>

section \<open>Cells of a matrix\<close>

definition good_matrix :: "nat \<Rightarrow> score square_matrix \<Rightarrow> bool" where
  "good_matrix n m \<longleftrightarrow> wf_matrix m \<and> sm_size m = n"

abbreviation mat :: "score square_matrix \<Rightarrow> nat \<Rightarrow> nat \<Rightarrow> score" where
  "mat m s e \<equiv> sm_array m ! (s * sm_size m + e)"

lemma GetScore_in: "good_matrix n m \<Longrightarrow> s < n \<Longrightarrow> e < n \<Longrightarrow> GetScore m s e = Inr (mat m s e)"
  using cell_in [of m s e] by (simp add: good_matrix_def GetScore_def)

text \<open>A step that changes one cell.\<close>

definition changes :: "nat \<Rightarrow> nat \<times> nat \<Rightarrow> (score \<Rightarrow> score) \<Rightarrow> score square_matrix \<Rightarrow> score square_matrix \<Rightarrow> bool" where
  "changes n c g m m' \<longleftrightarrow> good_matrix n m' \<and> (\<forall>s < n. \<forall>e < n. mat m' s e = (if (s, e) = c then g (mat m s e) else mat m s e))"

lemma SetScore_changes:
  assumes "good_matrix n m" "s < n" "e < n"
  shows "\<exists>m'. SetScore m s e v = Inr m' \<and> changes n (s, e) (\<lambda>_. v) m m'"
proof -
  let ?m = "m\<lparr>sm_array := (sm_array m)[s * sm_size m + e := v]\<rparr>"
  have in_range: "s * sm_size m + e < length (sm_array m)" using cell_in [of m s e] assms by (simp add: good_matrix_def)
  have "mat ?m s' e' = (if (s', e') = (s, e) then v else mat m s' e')" if "s' < n" "e' < n" for s' e'
  proof (cases "(s', e') = (s, e)")
    case False
    then have "s * sm_size m + e \<noteq> s' * sm_size m + e'"
      using cell_inj [of e n e' s s'] that assms by (auto simp: good_matrix_def)
    then show ?thesis using False by auto
  qed (use in_range in simp)
  then show ?thesis
    using in_range assms(1) by (intro exI [of _ ?m]) (simp add: SetScore_def changes_def good_matrix_def wf_matrix_def)
qed

lemma raise_score_changes:
  assumes "good_matrix n m" "s < n" "e < n"
  shows "\<exists>m'. raise_score s e v m = Inr m' \<and> changes n (s, e) (\<lambda>x. max x v) m m'"
proof (cases "v > mat m s e")
  case True
  then show ?thesis
    using SetScore_changes [OF assms, of v] GetScore_in [OF assms] by (auto simp: raise_score_def changes_def max_def)
next
  case False
  then have "changes n (s, e) (\<lambda>x. max x v) m m" using assms(1) by (auto simp: changes_def max_def)
  then show ?thesis using False GetScore_in [OF assms] by (simp add: raise_score_def)
qed

lemma changes_trans: "changes n c f m m1 \<Longrightarrow> changes n c g m1 m2 \<Longrightarrow> changes n c (\<lambda>x. g (f x)) m m2"
  by (simp add: changes_def)

text \<open>A loop of steps that all change the same cell.\<close>

lemma same_cell_loop:
  assumes "good_matrix n m"
    and "\<And>x m1. x \<in> set xs \<Longrightarrow> good_matrix n m1 \<Longrightarrow> (\<forall>s < n. \<forall>e < n. (s, e) \<noteq> c \<longrightarrow> mat m1 s e = mat m s e)
      \<Longrightarrow> \<exists>m2. f x m1 = Inr m2 \<and> changes n c (g x) m1 m2"
  shows "\<exists>m'. rfold f xs m = Inr m' \<and> changes n c (fold g xs) m m'"
proof -
  have "\<exists>m2. rfold f ys m1 = Inr m2 \<and> changes n c (fold g ys) m1 m2"
    if "set ys \<subseteq> set xs" "good_matrix n m1" "\<forall>s < n. \<forall>e < n. (s, e) \<noteq> c \<longrightarrow> mat m1 s e = mat m s e" for ys m1
    using that
  proof (induction ys arbitrary: m1)
    case Nil
    then show ?case by (simp add: changes_def)
  next
    case (Cons y ys)
    then obtain m2 where m2: "f y m1 = Inr m2" "changes n c (g y) m1 m2" using assms(2) [of y m1] by auto
    have "good_matrix n m2" "\<forall>s < n. \<forall>e < n. (s, e) \<noteq> c \<longrightarrow> mat m2 s e = mat m s e"
      using m2(2) Cons.prems(3) by (simp_all add: changes_def)
    from Cons.IH [OF _ this] Cons.prems(1)
    obtain m3 where "rfold f ys m2 = Inr m3" "changes n c (fold g ys) m2 m3" by auto
    then show ?case using m2(1) changes_trans [OF m2(2), of "fold g ys" m3] by (simp add: comp_def)
  qed
  from this [of xs m] assms(1) show ?thesis by simp
qed

text \<open>A loop over different cells; a step may read cells the loop does not change.\<close>

lemma cell_loop:
  assumes "good_matrix n m" "distinct cs"
    and "\<And>c m1. c \<in> set cs \<Longrightarrow> good_matrix n m1 \<Longrightarrow> (\<forall>s < n. \<forall>e < n. (s, e) \<notin> set cs \<longrightarrow> mat m1 s e = mat m s e)
      \<Longrightarrow> \<exists>m2. f c m1 = Inr m2 \<and> changes n c (g c) m1 m2"
  shows "\<exists>m'. rfold f cs m = Inr m' \<and> good_matrix n m'
    \<and> (\<forall>s < n. \<forall>e < n. mat m' s e = (if (s, e) \<in> set cs then g (s, e) (mat m s e) else mat m s e))"
proof -
  have "\<exists>m2. rfold f ys m1 = Inr m2 \<and> good_matrix n m2
      \<and> (\<forall>s < n. \<forall>e < n. mat m2 s e = (if (s, e) \<in> set ys then g (s, e) (mat m1 s e) else mat m1 s e))"
    if "set ys \<subseteq> set cs" "distinct ys" "good_matrix n m1" "\<forall>s < n. \<forall>e < n. (s, e) \<notin> set cs \<longrightarrow> mat m1 s e = mat m s e" for ys m1
    using that
  proof (induction ys arbitrary: m1)
    case (Cons y ys)
    then obtain m2 where m2: "f y m1 = Inr m2" "changes n y (g y) m1 m2" using assms(3) [of y m1] by auto
    have "good_matrix n m2" "\<forall>s < n. \<forall>e < n. (s, e) \<notin> set cs \<longrightarrow> mat m2 s e = mat m s e"
      using m2(2) Cons.prems(1,4) by (auto simp: changes_def)
    from Cons.IH [OF _ _ this] Cons.prems(1,2)
    obtain m3 where m3: "rfold f ys m2 = Inr m3" "good_matrix n m3"
      "\<forall>s < n. \<forall>e < n. mat m3 s e = (if (s, e) \<in> set ys then g (s, e) (mat m2 s e) else mat m2 s e)" by auto
    have "\<forall>s < n. \<forall>e < n. mat m3 s e = (if (s, e) \<in> set (y # ys) then g (s, e) (mat m1 s e) else mat m1 s e)"
      using m3(3) m2(2) Cons.prems(2) by (auto simp: changes_def)
    then show ?case using m2(1) m3(1,2) by simp
  qed simp
  from this [of cs m] assms(1,2) show ?thesis by simp
qed

lemma rfold_map: "rfold f (map h xs) s = rfold (\<lambda>x. f (h x)) xs s"
  by (induction xs arbitrary: s) (auto simp: rbind_def split: sum.splits)

section \<open>The best sequence of options\<close>

definition wf_coll :: "pb_system \<Rightarrow> option_coll \<Rightarrow> bool" where
  "wf_coll sys coll \<longleftrightarrow> length (oc_collection coll) = length (py_source sys)
     \<and> (\<forall>s < length (py_source sys). length (oc_collection coll ! s) = max_size sys s)
     \<and> good_matrix (length (py_source sys)) (oc_futureScore coll)"

text \<open>The options of a span; none when it is longer than the longest phrase.\<close>

definition offer :: "pb_system \<Rightarrow> option_coll \<Rightarrow> nat \<Rightarrow> nat \<Rightarrow> pb_option list" where
  "offer sys coll s e = (if e - s < max_size sys s then oc_collection coll ! s ! (e - s) else [])"

text \<open>Options that cover a span one after the other, without gaps.\<close>

fun chain :: "(nat \<Rightarrow> nat \<Rightarrow> pb_option list) \<Rightarrow> nat \<Rightarrow> nat \<Rightarrow> pb_option list \<Rightarrow> bool" where
  "chain L s e [] \<longleftrightarrow> False"
| "chain L s e (opt # opts) \<longleftrightarrow>
     (if opts = [] then opt \<in> set (L s e) else \<exists>j \<in> {s..<e}. opt \<in> set (L s j) \<and> chain L (Suc j) e opts)"

definition chain_score :: "pb_option list \<Rightarrow> score" where
  "chain_score opts = sum_list (map po_future opts)"

definition span_best :: "pb_option list \<Rightarrow> score" where
  "span_best opts = fold (\<lambda>opt x. max x (po_future opt)) opts NegInf"

function best_split :: "(nat \<Rightarrow> nat \<Rightarrow> score) \<Rightarrow> nat \<Rightarrow> nat \<Rightarrow> score" where
  "best_split B s e = fold (\<lambda>j x. max x (best_split B s j + best_split B (Suc j) e)) [s..<e] (B s e)"
  by pat_completeness auto
termination by (relation "measure (\<lambda>(B, s, e). e - s)") auto

declare best_split.simps [simp del]

lemma fold_max_ge: "b \<le> fold (\<lambda>j x. max x (f j)) js b" "j \<in> set js \<Longrightarrow> f j \<le> fold (\<lambda>j x. max x (f j)) js (b :: score)"
proof -
  have ge: "b \<le> fold (\<lambda>j x. max x (f j)) js b" for b js
    by (induction js arbitrary: b) (auto intro: order_trans [OF max.cobounded1])
  then show "b \<le> fold (\<lambda>j x. max x (f j)) js b" .
  show "j \<in> set js \<Longrightarrow> f j \<le> fold (\<lambda>j x. max x (f j)) js b"
    by (induction js arbitrary: b) (auto intro: order_trans [OF max.cobounded2 ge])
qed

lemma fold_max_in: "fold (\<lambda>j x. max x (f j)) js b = b \<or> (\<exists>j \<in> set js. fold (\<lambda>j x. max x (f j)) js b = (f j :: score))"
proof (induction js arbitrary: b)
  case (Cons j js)
  then show ?case using Cons [of "max b (f j)"] by (auto simp: max_def split: if_splits)
qed simp

lemma chain_append: "chain L s j xs \<Longrightarrow> chain L (Suc j) e ys \<Longrightarrow> s \<le> j \<Longrightarrow> j < e \<Longrightarrow> chain L s e (xs @ ys)"
proof (induction xs arbitrary: s)
  case (Cons x xs)
  have "ys \<noteq> []" using Cons.prems(2) by auto
  then show ?case using Cons by (auto split: if_splits)
qed simp

lemma best_split_chain:
  fixes L :: "nat \<Rightarrow> nat \<Rightarrow> pb_option list"
  defines "B \<equiv> \<lambda>s e. span_best (L s e)"
  assumes "s \<le> e"
  shows "(chain L s e opts \<longrightarrow> chain_score opts \<le> best_split B s e)
    \<and> (best_split B s e = NegInf \<or> (\<exists>opts. chain L s e opts \<and> chain_score opts = best_split B s e))"
  using assms(2)
proof (induction "e - s" arbitrary: s e opts rule: less_induct)
  case less
  let ?V = "best_split B"
  have V: "?V s e = fold (\<lambda>j x. max x (?V s j + ?V (Suc j) e)) [s..<e] (B s e)" by (rule best_split.simps)
  have single: "po_future opt \<le> B s j" if "opt \<in> set (L s j)" for opt j
    unfolding B_def span_best_def by (rule fold_max_ge(2) [OF that])
  have base: "B s j \<le> ?V s j" for j by (subst best_split.simps) (rule fold_max_ge(1))
  have "chain_score opts \<le> ?V s e" if c: "chain L s e opts"
  proof (cases opts)
    case (Cons opt rest)
    show ?thesis
    proof (cases "rest = []")
      case True
      then show ?thesis using c Cons single [of opt e] base [of e] by (simp add: chain_score_def)
    next
      case False
      then obtain j where j: "s \<le> j" "j < e" "opt \<in> set (L s j)" "chain L (Suc j) e rest" using c Cons by auto
      have "chain_score rest \<le> ?V (Suc j) e" using less.hyps [of e "Suc j" rest] j less.prems by auto
      moreover have "po_future opt \<le> ?V s j" using single [OF j(3)] base [of j] by simp
      ultimately have "chain_score opts \<le> ?V s j + ?V (Suc j) e" by (simp add: Cons chain_score_def add_mono)
      also have "\<dots> \<le> ?V s e" unfolding V by (rule fold_max_ge(2)) (use j in auto)
      finally show ?thesis .
    qed
  qed (use c in simp)
  moreover have "?V s e = NegInf \<or> (\<exists>opts. chain L s e opts \<and> chain_score opts = ?V s e)"
  proof -
    consider "?V s e = B s e" | j where "s \<le> j" "j < e" "?V s e = ?V s j + ?V (Suc j) e"
      unfolding V using fold_max_in [of "\<lambda>j. ?V s j + ?V (Suc j) e" "[s..<e]" "B s e"] by auto
    then show ?thesis
    proof cases
      case 1
      consider "B s e = NegInf" | opt where "opt \<in> set (L s e)" "B s e = po_future opt"
        using fold_max_in [of po_future "L s e" NegInf] by (auto simp: B_def span_best_def)
      then show ?thesis
      proof cases
        case 2
        then show ?thesis using 1 by (intro disjI2 exI [of _ "[opt]"]) (simp add: chain_score_def)
      qed (simp add: 1)
    next
      case 2
      show ?thesis
      proof (cases "?V s j = NegInf \<or> ?V (Suc j) e = NegInf")
        case True
        then show ?thesis using 2(3) by auto
      next
        case False
        have "j - s < e - s" "e - Suc j < e - s" using 2(1,2) by auto
        note hyps = less.hyps [OF this(1) 2(1)] less.hyps [OF this(2) Suc_leI [OF 2(2)]]
        obtain xs where xs: "chain L s j xs" "chain_score xs = ?V s j" using False hyps(1) by blast
        obtain ys where ys: "chain L (Suc j) e ys" "chain_score ys = ?V (Suc j) e"
          using False hyps(2) by blast
        show ?thesis
          using 2 xs ys chain_append [of L s j xs e ys] by (intro disjI2 exI [of _ "xs @ ys"]) (simp add: chain_score_def)
      qed
    qed
  qed
  ultimately show ?case by blast
qed

section \<open>The three loops\<close>

text \<open>Cells listed row by row.\<close>

definition cells :: "(nat \<Rightarrow> nat) \<Rightarrow> nat \<Rightarrow> (nat \<times> nat) list" where
  "cells width n = concat (map (\<lambda>s. map (Pair s) [s..<s + width s]) [0..<n])"

lemma set_cells: "(s, e) \<in> set (cells width n) \<longleftrightarrow> s < n \<and> s \<le> e \<and> e < s + width s"
  by (fastforce simp: cells_def)

lemma distinct_cells: "distinct (cells width n)"
  by (induction n) (auto simp: cells_def distinct_map inj_on_def)

lemma init_scores_cells:
  assumes "good_matrix n m"
  shows "\<exists>m'. init_scores n m = Inr m' \<and> good_matrix n m' \<and> (\<forall>s e. s \<le> e \<longrightarrow> e < n \<longrightarrow> mat m' s e = NegInf)"
proof -
  let ?cs = "cells (\<lambda>s. n - s) n"
  have "init_scores n m = rfold (\<lambda>(s, e) m. SetScore m s e NegInf) ?cs m"
    unfolding init_scores_def cells_def by (rule rfold_concat) (auto simp: rfold_map)
  moreover have "\<exists>m'. rfold (\<lambda>(s, e) m. SetScore m s e NegInf) ?cs m = Inr m' \<and> good_matrix n m'
    \<and> (\<forall>s < n. \<forall>e < n. mat m' s e = (if (s, e) \<in> set ?cs then (\<lambda>_ _. NegInf) (s, e) (mat m s e) else mat m s e))"
    by (rule cell_loop [OF assms distinct_cells]) (auto simp: set_cells intro!: SetScore_changes)
  ultimately show ?thesis by (auto simp: set_cells)
qed

lemma all_spans_cells: "all_spans sys = cells (max_size sys) (length (py_source sys))"
  by (simp add: all_spans_def cells_def)

lemma max_size_le: "max_size sys s \<le> length (py_source sys) - s" "max_size sys s \<le> py_maxPhraseLength sys"
  by (simp_all add: max_size_def)

lemma span_scores_cells:
  fixes sys coll
  defines "n \<equiv> length (py_source sys)"
  assumes wf: "wf_coll sys coll" and n: "n < SIZE_RANGE" and m: "good_matrix n m" "\<forall>s e. s \<le> e \<longrightarrow> e < n \<longrightarrow> mat m s e = NegInf"
  shows "\<exists>m'. span_scores sys coll m = Inr m' \<and> good_matrix n m'
    \<and> (\<forall>s e. s \<le> e \<longrightarrow> e < n \<longrightarrow> mat m' s e = span_best (offer sys coll s e))"
proof -
  let ?f = "\<lambda>(s, e) m. rbind (GetTranslationOptionList sys s e coll) (\<lambda>opts. rfold (\<lambda>opt. raise_score s e (po_future opt)) opts m)"
  let ?g = "\<lambda>(s, e). fold (\<lambda>opt x. max x (po_future opt)) (offer sys coll s e)"
  have get: "GetTranslationOptionList sys s e coll = Inr (offer sys coll s e)" if "s < n" "s \<le> e" "e < s + max_size sys s" for s e
    using that wf max_size_le [of sys s] n
    by (auto simp: GetTranslationOptionList_def wf_coll_def array_get_def check_def list_index_def offer_def n_def)
  have "\<exists>m'. rfold ?f (all_spans sys) m = Inr m' \<and> good_matrix n m'
    \<and> (\<forall>s < n. \<forall>e < n. mat m' s e = (if (s, e) \<in> set (all_spans sys) then ?g (s, e) (mat m s e) else mat m s e))"
    unfolding all_spans_cells
  proof (rule cell_loop [OF m(1) distinct_cells])
    fix c m1
    assume c: "c \<in> set (cells (max_size sys) (length (py_source sys)))" and m1: "good_matrix n m1"
    obtain s e where se: "c = (s, e)" by (cases c)
    then have se_in: "s < n" "s \<le> e" "e < s + max_size sys s" using c by (auto simp: set_cells n_def)
    then have "e < n" using max_size_le(1) [of sys s] by (simp add: n_def)
    then show "\<exists>m2. ?f c m1 = Inr m2 \<and> changes n c (?g c) m1 m2"
      using same_cell_loop [OF m1, of "offer sys coll s e" "(s, e)" "\<lambda>opt. raise_score s e (po_future opt)" "\<lambda>opt x. max x (po_future opt)"]
        raise_score_changes se_in(1) by (simp add: se get [OF se_in])
  qed
  then obtain m' where m': "rfold ?f (all_spans sys) m = Inr m'" "good_matrix n m'"
    "\<forall>s < n. \<forall>e < n. mat m' s e = (if (s, e) \<in> set (all_spans sys) then ?g (s, e) (mat m s e) else mat m s e)" by blast
  have "mat m' s e = span_best (offer sys coll s e)" if "s \<le> e" "e < n" for s e
  proof (cases "(s, e) \<in> set (all_spans sys)")
    case True
    then show ?thesis using that m(2) m'(3) by (simp add: span_best_def)
  next
    case False
    then have "offer sys coll s e = []" using that by (auto simp: all_spans_cells set_cells offer_def n_def)
    then show ?thesis using that m(2) m'(3) False by (simp add: span_best_def)
  qed
  then show ?thesis using m'(1,2) by (simp add: span_scores_def)
qed

text \<open>One cell of the table from shorter spans, then the diagonals one after the other.\<close>

definition joined :: "(nat \<Rightarrow> nat \<Rightarrow> score) \<Rightarrow> nat \<Rightarrow> nat \<Rightarrow> score square_matrix \<Rightarrow> bool" where
  "joined B n k m \<longleftrightarrow> (\<forall>s e. s \<le> e \<longrightarrow> e < n \<longrightarrow> mat m s e = (if e - s < k then best_split B s e else B s e))"

lemma join_cell:
  assumes m: "good_matrix n m" and se: "s < e" "e < n"
    and V: "\<And>s' e'. s' \<le> e' \<Longrightarrow> e' < n \<Longrightarrow> e' - s' < e - s \<Longrightarrow> mat m s' e' = best_split B s' e'"
  shows "\<exists>m'. rfold (join_score s e) [s..<e] m = Inr m'
    \<and> changes n (s, e) (fold (\<lambda>j x. max x (best_split B s j + best_split B (Suc j) e)) [s..<e]) m m'"
proof (rule same_cell_loop [OF m])
  fix j m1
  assume j: "j \<in> set [s..<e]" and m1: "good_matrix n m1" "\<forall>s' < n. \<forall>e' < n. (s', e') \<noteq> (s, e) \<longrightarrow> mat m1 s' e' = mat m s' e'"
  have "mat m1 s j = best_split B s j" "mat m1 (Suc j) e = best_split B (Suc j) e"
    using j se m1(2) V [of s j] V [of "Suc j" e] by (auto simp del: mult_Suc)
  then have "join_score s e j m1 = raise_score s e (best_split B s j + best_split B (Suc j) e) m1"
    using j se GetScore_in [OF m1(1), of s j] GetScore_in [OF m1(1), of "Suc j" e] by (simp add: join_score_def)
  then show "\<exists>m2. join_score s e j m1 = Inr m2 \<and> changes n (s, e) (\<lambda>x. max x (best_split B s j + best_split B (Suc j) e)) m1 m2"
    using raise_score_changes [OF m1(1)] se by simp
qed

lemma join_diagonal:
  assumes m: "good_matrix n m" "joined B n k m" and k: "0 < k" "k < n"
  shows "\<exists>m'. rfold (\<lambda>d. rfold (join_score d (k + d)) [d..<k + d]) [0..<n - k] m = Inr m'
    \<and> good_matrix n m' \<and> joined B n (Suc k) m'"
proof -
  let ?f = "\<lambda>(s, e). rfold (join_score s e) [s..<e]" and ?cs = "map (\<lambda>d. (d, k + d)) [0..<n - k]"
  let ?g = "\<lambda>(s, e). fold (\<lambda>j x. max x (best_split B s j + best_split B (Suc j) e)) [s..<e]"
  have cs: "(s, e) \<in> set ?cs \<longleftrightarrow> s \<le> e \<and> e < n \<and> e - s = k" for s e using k by (auto simp: image_iff)
  have "distinct ?cs" by (simp add: distinct_map inj_on_def)
  have "\<exists>m'. rfold ?f ?cs m = Inr m' \<and> good_matrix n m'
    \<and> (\<forall>s < n. \<forall>e < n. mat m' s e = (if (s, e) \<in> set ?cs then ?g (s, e) (mat m s e) else mat m s e))"
  proof (rule cell_loop [OF m(1) \<open>distinct ?cs\<close>])
    fix c m1
    assume c: "c \<in> set ?cs" and m1: "good_matrix n m1" "\<forall>s < n. \<forall>e < n. (s, e) \<notin> set ?cs \<longrightarrow> mat m1 s e = mat m s e"
    obtain s e where se: "c = (s, e)" by (cases c)
    then have in_cs: "s \<le> e" "e < n" "e - s = k" using c by (simp_all only: cs)
    have "mat m1 s' e' = best_split B s' e'" if "s' \<le> e'" "e' < n" "e' - s' < e - s" for s' e'
      using that m(2) m1(2) in_cs(3) cs [of s' e'] by (auto simp: joined_def)
    then show "\<exists>m2. ?f c m1 = Inr m2 \<and> changes n c (?g c) m1 m2"
      using join_cell [OF m1(1), of s e B] in_cs k(1) by (simp add: se)
  qed
  then obtain m' where m': "rfold ?f ?cs m = Inr m'" "good_matrix n m'"
    "\<forall>s < n. \<forall>e < n. mat m' s e = (if (s, e) \<in> set ?cs then ?g (s, e) (mat m s e) else mat m s e)" by blast
  have "mat m' s e = (if e - s < Suc k then best_split B s e else B s e)" if "s \<le> e" "e < n" for s e
  proof (cases "e - s = k")
    case True
    then have "mat m s e = B s e" using m(2) that by (simp add: joined_def)
    then show ?thesis using m'(3) that True cs [of s e] best_split.simps [of B s e] by auto
  next
    case False
    then have "mat m' s e = mat m s e" using m'(3) that cs [of s e] by auto
    then show ?thesis using m(2) that False by (auto simp: joined_def)
  qed
  moreover have "rfold (\<lambda>d. rfold (join_score d (k + d)) [d..<k + d]) [0..<n - k] m = Inr m'"
    using m'(1) by (simp add: rfold_map)
  ultimately show ?thesis using m'(2) unfolding joined_def by blast
qed

lemma join_scores_cells:
  assumes "good_matrix n m" "\<forall>s e. s \<le> e \<longrightarrow> e < n \<longrightarrow> mat m s e = B s e"
  shows "\<exists>m'. join_scores n m = Inr m' \<and> good_matrix n m' \<and> joined B n n m'"
proof -
  let ?F = "\<lambda>k. rfold (\<lambda>d. rfold (join_score d (k + d)) [d..<k + d]) [0..<n - k]"
  have "best_split B s s = B s s" for s by (subst best_split.simps) simp
  then have start: "joined B n 1 m" using assms(2) by (auto simp: joined_def)
  have step: "\<exists>m'. rfold ?F [1..<Suc k] m = Inr m' \<and> good_matrix n m' \<and> joined B n (Suc k) m'" if "k < n" for k
    using that
  proof (induction k)
    case (Suc k)
    then obtain m1 where "rfold ?F [1..<Suc k] m = Inr m1" "good_matrix n m1" "joined B n (Suc k) m1" by auto
    moreover from this obtain m2 where "?F (Suc k) m1 = Inr m2" "good_matrix n m2" "joined B n (Suc (Suc k)) m2"
      using join_diagonal [of n m1 B "Suc k"] Suc.prems by blast
    moreover have "[1..<Suc (Suc k)] = [1..<Suc k] @ [Suc k]" by simp
    ultimately show ?case by (simp add: rfold_append del: upt_Suc)
  qed (use assms(1) start in simp)
  show ?thesis
  proof (cases n)
    case 0
    then show ?thesis using assms(1) by (simp add: join_scores_def joined_def)
  next
    case (Suc k)
    then show ?thesis using step [of k] by (simp add: join_scores_def)
  qed
qed

text \<open>
  C26. CalcFutureScore ends, and leaves in the cell of every span the score of the best sequence of translation options
  that covers it: no sequence scores more, and one has this score unless the cell is -infinity.
\<close>

theorem CalcFutureScore_best:
  assumes "wf_coll sys coll" and "length (py_source sys) < SIZE_RANGE"
  shows "\<exists>coll'. oc_CalcFutureScore sys coll = Inr coll' \<and> oc_collection coll' = oc_collection coll
    \<and> (\<forall>s e. s \<le> e \<longrightarrow> e < length (py_source sys) \<longrightarrow> (\<exists>v. GetScore (oc_futureScore coll') s e = Inr v
        \<and> (\<forall>opts. chain (offer sys coll) s e opts \<longrightarrow> chain_score opts \<le> v)
        \<and> (v = NegInf \<or> (\<exists>opts. chain (offer sys coll) s e opts \<and> chain_score opts = v))))"
proof -
  let ?n = "length (py_source sys)" and ?B = "\<lambda>s e. span_best (offer sys coll s e)"
  obtain m1 where m1: "init_scores ?n (oc_futureScore coll) = Inr m1" "good_matrix ?n m1" "\<forall>s e. s \<le> e \<longrightarrow> e < ?n \<longrightarrow> mat m1 s e = NegInf"
    using init_scores_cells [of ?n "oc_futureScore coll"] assms(1) by (auto simp: wf_coll_def)
  obtain m2 where m2: "span_scores sys coll m1 = Inr m2" "good_matrix ?n m2" "\<forall>s e. s \<le> e \<longrightarrow> e < ?n \<longrightarrow> mat m2 s e = ?B s e"
    using span_scores_cells [OF assms m1(2,3)] by auto
  obtain m3 where m3: "join_scores ?n m2 = Inr m3" "good_matrix ?n m3" "joined ?B ?n ?n m3"
    using join_scores_cells [OF m2(2,3)] by auto
  have "GetScore m3 s e = Inr (best_split ?B s e)" if "s \<le> e" "e < ?n" for s e
    using m3(3) that less_imp_diff_less [of e ?n s] GetScore_in [OF m3(2), of s e] by (simp add: joined_def)
  then show ?thesis
    using m1(1) m2(1) m3(1) best_split_chain [of _ _ "offer sys coll"] by (auto simp: oc_CalcFutureScore_def)
qed

text \<open>A sentence of two words with three options.\<close>

definition ex_option :: "nat \<Rightarrow> nat \<Rightarrow> real \<Rightarrow> pb_option" where
  "ex_option s e x = \<lparr>po_target = \<lparr>tp_ptr = 0, tp_words = [], tp_futureScore = Fin 0, tp_breakdown = [], tp_align = [],
       tp_lhs = \<lparr>w_factors = [], w_isNonTerminal = False\<rparr>\<rparr>,
     po_range = WordsRange s e, po_future = Fin x, po_breakdown = []\<rparr>"

definition ex_unknown :: score_producer where
  "ex_unknown = \<lparr>sp_id = 0, sp_components = 1, sp_inputScores = 0, sp_description = (\<lambda>_. ''UnknownWordPenalty''),
     sp_shortName = (\<lambda>_. ''u'')\<rparr>"

definition ex_word :: word where
  "ex_word = \<lparr>w_factors = [Some 0], w_isNonTerminal = False\<rparr>"

definition ex_sys :: "string \<Rightarrow> pb_system" where
  "ex_sys s = \<lparr>py_index = \<lparr>si_begins = [0], si_ends = [1], si_producers = [ex_unknown], si_featureNames = [], si_featureShortNames = [],
       si_last = 1\<rparr>,
     py_weights = [1], py_wordPenalty = 0, py_lms = [], py_oovFeature = False, py_unknownProducer = ex_unknown, py_dropUnknown = True,
     py_alwaysDirect = False, py_string = (\<lambda>_. s), py_unknownFactor = 7, py_maxPhraseLength = 2, py_xmlType = XmlPassThrough,
     py_xmlOverlap = (\<lambda>_ _. False), py_xmlOptions = (\<lambda>_ _. []), py_graphs = 1, py_backoff = [0], py_lookup = (\<lambda>_ _ _ _. []),
     py_source = [ex_word, ex_word], py_optsel = (\<lambda>_ _ opts. opts)\<rparr>"

definition ex_coll :: option_coll where
  "ex_coll = \<lparr>oc_collection = [[[ex_option 0 0 3], [ex_option 0 1 (-1)]], [[ex_option 1 1 4]]],
     oc_futureScore = SquareMatrix 2 (replicate 4 (Fin 0)), oc_maxNoTransOptPerCoverage = 0, oc_translationOptionThreshold = NegInf\<rparr>"

lemma ex_sys_simps:
  "py_source (ex_sys s) = [ex_word, ex_word]" "py_maxPhraseLength (ex_sys s) = 2" "py_dropUnknown (ex_sys s) = True"
  "py_string (ex_sys s) f = s" "max_size (ex_sys s) 0 = 2" "max_size (ex_sys s) 1 = 1" "max_size (ex_sys s) (Suc 0) = 1"
  by (simp_all add: ex_sys_def max_size_def)

lemma all_less_two: "(\<forall>i < (2::nat). P i) \<longleftrightarrow> P 0 \<and> P 1"
  by (auto simp: numeral_2_eq_2 less_Suc_eq)

lemma wf_ex_coll: "wf_coll (ex_sys s) ex_coll"
  by (simp add: wf_coll_def ex_coll_def ex_sys_simps good_matrix_def wf_matrix_def SquareMatrix_def all_less_two [unfolded numeral_2_eq_2])

theorem CalcFutureScore_best_witness:
  "\<exists>coll'. oc_CalcFutureScore (ex_sys ''1999'') ex_coll = Inr coll' \<and> (\<exists>v. GetScore (oc_futureScore coll') 0 1 = Inr v \<and> Fin 7 \<le> v)"
proof -
  obtain coll' where c: "oc_CalcFutureScore (ex_sys ''1999'') ex_coll = Inr coll'"
    "\<forall>i j. i \<le> j \<longrightarrow> j < length (py_source (ex_sys ''1999'')) \<longrightarrow> (\<exists>v. GetScore (oc_futureScore coll') i j = Inr v
        \<and> (\<forall>opts. chain (offer (ex_sys ''1999'') ex_coll) i j opts \<longrightarrow> chain_score opts \<le> v)
        \<and> (v = NegInf \<or> (\<exists>opts. chain (offer (ex_sys ''1999'') ex_coll) i j opts \<and> chain_score opts = v)))"
    using CalcFutureScore_best [OF wf_ex_coll [of "''1999''"]] by (auto simp: ex_sys_simps SIZE_RANGE_def)
  have opts: "chain (offer (ex_sys ''1999'') ex_coll) 0 1 [ex_option 0 0 3, ex_option 1 1 4]"
    by (simp add: offer_def ex_sys_simps ex_coll_def)
  have sc: "chain_score [ex_option 0 0 3, ex_option 1 1 4] = Fin 7" by (simp add: chain_score_def ex_option_def)
  obtain v where "GetScore (oc_futureScore coll') 0 1 = Inr v" "\<forall>opts. chain (offer (ex_sys ''1999'') ex_coll) 0 1 opts \<longrightarrow> chain_score opts \<le> v"
    using c(2) [rule_format, of 0 1] by (auto simp: ex_sys_simps)
  then show ?thesis using c(1) opts sc by metis
qed

section \<open>Unknown words of the phrase-based search\<close>

abbreviation digits :: "char set" where
  "digits \<equiv> set ''0123456789''"

lemma first_digit_one: "first_digit s = 1 \<longleftrightarrow> 1 < length s \<and> s ! 0 \<notin> digits \<and> s ! 1 \<in> digits"
proof (cases s)
  case (Cons a t)
  show ?thesis
  proof (cases t)
    case (Cons b u)
    then show ?thesis using \<open>s = a # t\<close> by (auto simp: first_digit_def NOT_FOUND_def)
  qed (use Cons in \<open>auto simp: first_digit_def NOT_FOUND_def\<close>)
qed (simp add: first_digit_def NOT_FOUND_def)

text \<open>
  When unknown words are dropped, an unknown word keeps its translation exactly when its first digit is at index 1
  (the result of find\_first\_of is used as a truth value equal to 1): numbers such as 1999 are dropped.
\<close>

theorem digit_words_dropped:
  assumes "pb_ProcessOneUnknownWord sys w pos coll = Inr coll'" and "GetFactor w 0 = Some f"
    and "py_dropUnknown sys" and "pos < SIZE_RANGE"
  shows "\<exists>opt. oc_collection coll' = (oc_collection coll)[pos := (oc_collection coll ! pos)[0 := oc_collection coll ! pos ! 0 @ [opt]]]
    \<and> length (tp_words (po_target opt)) = (if 1 < length (py_string sys f) \<and> py_string sys f ! 0 \<notin> digits \<and> py_string sys f ! 1 \<in> digits then 1 else 0)"
proof -
  let ?s = "py_string sys f"
  obtain bd opt where calc: "option_CalcScore sys \<lparr>po_target = unknown_target sys w ?s, po_range = WordsRange pos pos, po_future = Fin 0,
      po_breakdown = bd\<rparr> = Inr opt" and add: "oc_Add opt coll = Inr coll'"
    using assms(1,2) by (auto simp: pb_ProcessOneUnknownWord_def rbind_eq_Inr)
  have opt: "po_target opt = unknown_target sys w ?s" "po_range opt = WordsRange pos pos"
    using calc by (auto simp: option_CalcScore_def rbind_eq_Inr)
  have "oc_collection coll' = (oc_collection coll)[pos := (oc_collection coll ! pos)[0 := oc_collection coll ! pos ! 0 @ [opt]]]"
    using add assms(4) by (auto simp: oc_Add_def opt Let_def rbind_eq_Inr array_get_def check_def split: if_splits)
  moreover have "length (tp_words (po_target opt)) = (if first_digit ?s = 1 then 1 else 0)"
    by (simp add: opt unknown_target_def assms(3))
  ultimately show ?thesis unfolding first_digit_one by blast
qed

theorem digit_words_dropped_witness:
  "\<exists>coll' opt. pb_ProcessOneUnknownWord (ex_sys ''1999'') ex_word 1 ex_coll = Inr coll'
    \<and> oc_collection coll' ! 1 = [[ex_option 1 1 4, opt]] \<and> tp_words (po_target opt) = []"
proof -
  obtain coll' where run: "pb_ProcessOneUnknownWord (ex_sys ''1999'') ex_word 1 ex_coll = Inr coll'"
    by (simp add: pb_ProcessOneUnknownWord_def ex_word_def GetFactor_def ex_sys_def Assign_def ex_unknown_def check_def
        GetBeginIndex_def array_get_def update_at_def ScoreComponentCollection_def option_CalcScore_def LMList_CalcScore_def
        unknown_target_def first_digit_def InnerProduct_def oc_Add_def ex_coll_def Let_def sz_sub_def SIZE_RANGE_def)
  show ?thesis using digit_words_dropped [OF run, of 0] run
    by (auto simp: ex_word_def GetFactor_def ex_sys_simps SIZE_RANGE_def ex_coll_def)
qed

end
