(* ===== verification/PhraseHypos.thy ===== *)
theory PhraseHypos
  imports HypoColl TransOptColl Reordering
begin

text \<open>
  The hypotheses of the phrase-based search (Hypothesis.h, Hypothesis.cpp) and the feature functions for the
  distortion and the word penalty (DummyScoreProducers.cpp).

  A hypothesis refers to its predecessor by value: the fields of a hypothesis that the search changes later (the arcs and
  the winner) are final when its first successor is created (theorem predecessors\_stay of theory SearchProps). Feature functions
  other than the two above are parameters; a state of a feature function has a type of its own.
\<close>

section \<open>Hypotheses\<close>

datatype 's pb_hypo = PbHypo
  (ph_id: nat)
  (ph_prev: "'s pb_hypo option")
  (ph_target: target_phrase)
  (ph_completed: words_bitmap)
  (ph_sourceRange: words_range)
  (ph_targetRange: words_range)
  (ph_wordDeleted: bool)
  (ph_total: score)
  (ph_future: score)
  (ph_breakdown: "real list")
  (ph_states: "'s option list")
  (ph_winning: "nat option")
  (ph_arcs: "'s pb_hypo list option")
  (ph_transOpt: "pb_option option")

fun with_scores :: "score \<Rightarrow> score \<Rightarrow> real list \<Rightarrow> 's option list \<Rightarrow> 's pb_hypo \<Rightarrow> 's pb_hypo" where
  "with_scores tot' fut' bd' st' (PbHypo i prev tp bm sr tr del tot fut bd st win arcs opt) =
     PbHypo i prev tp bm sr tr del tot' fut' bd' st' win arcs opt"

fun pb_with_arcs :: "'s pb_hypo list option \<Rightarrow> 's pb_hypo \<Rightarrow> 's pb_hypo" where
  "pb_with_arcs arcs' (PbHypo i prev tp bm sr tr del tot fut bd st win arcs opt) =
     PbHypo i prev tp bm sr tr del tot fut bd st win arcs' opt"

fun pb_SetWinningHypo :: "nat option \<Rightarrow> 's pb_hypo \<Rightarrow> 's pb_hypo" where
  "pb_SetWinningHypo win' (PbHypo i prev tp bm sr tr del tot fut bd st win arcs opt) =
     PbHypo i prev tp bm sr tr del tot fut bd st win' arcs opt"

definition pb_GetScore :: "'s pb_hypo \<Rightarrow> score" where
  "pb_GetScore h = score_minus (ph_total h) (ph_future h)"

text \<open>
  What the search reads besides the translation system: the feature functions, the partial translation it
  starts from, the words already translated, and the phrase the output is constrained to. A stateful feature function
  gets the hypothesis, the state of its predecessor and the score breakdown.
\<close>

record 's pb_features =
  pf_stateless :: "(target_phrase \<Rightarrow> real list \<Rightarrow> real list result) list"
  pf_stateful :: "('s pb_hypo \<Rightarrow> 's option \<Rightarrow> real list \<Rightarrow> ('s option \<times> real list) result) list"
  pf_emptyStates :: "'s option list"
  pf_initialTarget :: target_phrase
  pf_sourceCompleted :: "bool list"
  pf_constraint :: "phrase option"

text \<open>The hypothesis the search starts with; its target range ends before position 0 when the phrase is empty.\<close>

definition initial_hypothesis :: "pb_system \<Rightarrow> 's pb_features \<Rightarrow> nat \<Rightarrow> 's pb_hypo" where
  "initial_hypothesis sys ff i =
     (let bm = WordsBitmap_from (length (py_source sys)) (pf_sourceCompleted ff);
          gap = GetFirstGapPos bm
      in PbHypo i None (pf_initialTarget ff) bm
           (WordsRange (if gap > 0 then 0 else NOT_FOUND) (if gap > 0 then gap - 1 else NOT_FOUND))
           (WordsRange 0 (sz_sub (length (tp_words (pf_initialTarget ff))) 1))
           False (Fin 0) (Fin 0) (ScoreComponentCollection (py_index sys)) (pf_emptyStates ff) None None None)"

text \<open>A hypothesis that continues another one, before it is scored.\<close>

definition extended_hypothesis :: "nat \<Rightarrow> 's pb_hypo \<Rightarrow> pb_option \<Rightarrow> 's pb_hypo result" where
  "extended_hypothesis i prevHypo transOpt =
     (let r = po_range transOpt; tp = po_target transOpt; e = GetEndPos (ph_targetRange prevHypo) in
      rbind (Overlap (ph_completed prevHypo) r) (\<lambda>overlaps. rbind (check (\<not> overlaps)) (\<lambda>_.
      rbind (SetValue_range (ph_completed prevHypo) (GetStartPos r) (GetEndPos r) True) (\<lambda>bm.
        Inr (PbHypo i (Some prevHypo) tp bm r (WordsRange (sz_add e 1) (sz_add e (length (tp_words tp))))
               (tp_words tp = []) (Fin 0) (Fin 0) (ph_breakdown prevHypo) (map (\<lambda>_. None) (ph_states prevHypo)) None None (Some transOpt))))))"

text \<open>
  Whether an option agrees with the phrase the output is constrained to. Create returns NULL
  when it does not, and the identifier is not used up then.
\<close>

definition matches_constraint :: "'s pb_hypo \<Rightarrow> pb_option \<Rightarrow> phrase option \<Rightarrow> bool result" where
  "matches_constraint prevHypo transOpt constraint = (case constraint of
     None \<Rightarrow> Inr True
   | Some constrainingPhrase \<Rightarrow>
       let start = sz_add 1 (GetEndPos (ph_targetRange prevHypo));
           endpoint = sz_sub (sz_add start (length (tp_words (po_target transOpt)))) 1
       in if endpoint < length constrainingPhrase
          then rbind (GetSubString constrainingPhrase (WordsRange start endpoint)) (\<lambda>relevantConstraint.
                 Inr (IsCompatible relevantConstraint (tp_words (po_target transOpt))))
          else Inr False)"

definition Hypothesis_Create :: "nat \<Rightarrow> 's pb_hypo \<Rightarrow> pb_option \<Rightarrow> phrase option \<Rightarrow> 's pb_hypo option result" where
  "Hypothesis_Create i prevHypo transOpt constraint =
     rbind (matches_constraint prevHypo transOpt constraint) (\<lambda>createHypothesis.
       if createHypothesis then rbind (extended_hypothesis i prevHypo transOpt) (\<lambda>h. Inr (Some h)) else Inr None)"

section \<open>Recombination\<close>

definition pb_RecombineCompare :: "('s \<Rightarrow> 's \<Rightarrow> int) \<Rightarrow> ('s option \<Rightarrow> 's option \<Rightarrow> int) \<Rightarrow> 's pb_hypo \<Rightarrow> 's pb_hypo \<Rightarrow> int result" where
  "pb_RecombineCompare cmp diff h compare =
     (let comp = Compare (ph_completed h) (ph_completed compare)
      in if comp \<noteq> 0 then Inr comp else compare_states cmp diff (ph_states h) (ph_states compare))"

definition HypothesisRecombinationOrderer :: "('s \<Rightarrow> 's \<Rightarrow> int) \<Rightarrow> ('s option \<Rightarrow> 's option \<Rightarrow> int)
    \<Rightarrow> 's pb_hypo \<Rightarrow> 's pb_hypo \<Rightarrow> bool result" where
  "HypothesisRecombinationOrderer cmp diff hypoA hypoB = rbind (pb_RecombineCompare cmp diff hypoA hypoB) (\<lambda>c. Inr (c < 0))"

definition pb_AddArc :: "'s pb_hypo \<Rightarrow> 's pb_hypo \<Rightarrow> 's pb_hypo" where
  "pb_AddArc h loserHypo =
     (let merged = (case ph_arcs h of
            None \<Rightarrow> (case ph_arcs loserHypo of Some l \<Rightarrow> l | None \<Rightarrow> [])
          | Some arcs \<Rightarrow> (case ph_arcs loserHypo of Some l \<Rightarrow> arcs @ l | None \<Rightarrow> arcs))
      in pb_with_arcs (Some (merged @ [pb_with_arcs None loserHypo])) h)"

definition pb_CleanupArcList :: "'s pb_hypo select \<Rightarrow> bool \<Rightarrow> nat \<Rightarrow> 's pb_hypo \<Rightarrow> 's pb_hypo result" where
  "pb_CleanupArcList sel distinctNBest nBestSize h =
     (let h' = pb_SetWinningHypo (Some (ph_id h)) h in
      case ph_arcs h' of
        None \<Rightarrow> Inr h'
      | Some arcs \<Rightarrow>
          rbind (if \<not> distinctNBest \<and> length arcs > nBestSize * 5
                 then if nBestSize = 0 then Inl OutOfBounds
                      else Inr (take nBestSize (sel ph_total (nBestSize - 1) arcs))
                 else Inr arcs) (\<lambda>kept.
            Inr (pb_with_arcs (Some (map (pb_SetWinningHypo (Some (ph_id h))) kept)) h')))"

section \<open>Scores\<close>

text \<open>The stateful feature functions in order; each reads the state its predecessor left at the same index.\<close>

definition evaluate_stateful :: "'s pb_features \<Rightarrow> 's pb_hypo \<Rightarrow> real list \<Rightarrow> ('s option list \<times> real list) result" where
  "evaluate_stateful ff h bd0 =
     rfold (\<lambda>(i, f) (st, bd).
       rbind (case ph_prev h of None \<Rightarrow> Inr None | Some p \<Rightarrow> array_get (ph_states p) i) (\<lambda>prevState.
       rbind (f (with_scores (ph_total h) (ph_future h) bd st h) prevState bd) (\<lambda>(s, bd').
       rbind (array_set st i s) (\<lambda>st'. Inr (st', bd')))))
     (enumerate 0 (pf_stateful ff)) (ph_states h, bd0)"

definition pb_CalcScore :: "pb_system \<Rightarrow> 's pb_features \<Rightarrow> score square_matrix \<Rightarrow> 's pb_hypo \<Rightarrow> 's pb_hypo result" where
  "pb_CalcScore sys ff futureScore h = (case ph_transOpt h of
     None \<Rightarrow> Inl NullPointer
   | Some opt \<Rightarrow>
       rbind (PlusEquals (ph_breakdown h) (po_breakdown opt)) (\<lambda>bd1.
       rbind (rfold (\<lambda>f. f (ph_target h)) (pf_stateless ff) bd1) (\<lambda>bd2.
       rbind (evaluate_stateful ff h bd2) (\<lambda>(st, bd3).
       rbind (CalcFutureScore futureScore (ph_completed h)) (\<lambda>future.
       rbind (InnerProduct bd3 (py_weights sys)) (\<lambda>x.
         Inr (with_scores (Fin x + future) future bd3 st h)))))))"

text \<open>The expected and the remaining score of early discarding: the first statement of each is a check of a string literal negated.\<close>

definition CalcExpectedScore :: "'s pb_hypo \<Rightarrow> score result" where
  "CalcExpectedScore h = rbind (check False) (\<lambda>_. Inr (ph_total h))"

definition CalcRemainingScore :: "'s pb_hypo \<Rightarrow> 's pb_hypo result" where
  "CalcRemainingScore h = rbind (check False) (\<lambda>_. Inr h)"

section \<open>Output\<close>

text \<open>The words of the translation in the order ToStream writes them, and the word at a position of it.\<close>

fun pb_words :: "'s pb_hypo \<Rightarrow> word list" where
  "pb_words (PbHypo i prev tp bm sr tr del tot fut bd st win arcs opt) =
     (case prev of None \<Rightarrow> [] | Some p \<Rightarrow> pb_words p) @ tp_words tp"

fun pb_GetWord :: "nat \<Rightarrow> 's pb_hypo \<Rightarrow> word result" where
  "pb_GetWord pos (PbHypo i prev tp bm sr tr del tot fut bd st win arcs opt) =
     (if pos < GetStartPos tr
      then case prev of None \<Rightarrow> Inl CheckFailed | Some p \<Rightarrow> pb_GetWord pos p
      else array_get (tp_words tp) (pos - GetStartPos tr))"

text \<open>The options a hypothesis was made from.\<close>

fun options_of :: "'s pb_hypo \<Rightarrow> pb_option list" where
  "options_of (PbHypo i prev tp bm sr tr del tot fut bd st win arcs opt) =
     (case prev of None \<Rightarrow> [] | Some p \<Rightarrow> options_of p) @ (case opt of None \<Rightarrow> [] | Some x \<Rightarrow> [x])"

section \<open>Distortion and word penalty\<close>

record distortion_state =
  ds_range :: words_range
  ds_first_gap :: int

definition Distortion_Compare :: "distortion_state \<Rightarrow> distortion_state \<Rightarrow> int" where
  "Distortion_Compare d other =
     (if GetEndPos (ds_range d) < GetEndPos (ds_range other) then -1
      else if GetEndPos (ds_range d) > GetEndPos (ds_range other) then 1 else 0)"

text \<open>frontSpan is the number of words at the beginning that are already translated.\<close>

definition Distortion_EmptyHypothesisState :: "nat \<Rightarrow> distortion_state" where
  "Distortion_EmptyHypothesisState frontSpan =
     \<lparr>ds_range = (if frontSpan > 0 then WordsRange 0 (frontSpan - 1) else WordsRange NOT_FOUND NOT_FOUND),
      ds_first_gap = to_int32 NOT_FOUND\<rparr>"

text \<open>USE\_OLD is 1: the score is the negated width of the jump, whatever the first gap is.\<close>

definition CalculateDistortionScore :: "(words_range \<Rightarrow> words_range \<Rightarrow> int) \<Rightarrow> words_range \<Rightarrow> words_range \<Rightarrow> real" where
  "CalculateDistortionScore distance prev current = - real_of_int (distance prev current)"

definition Distortion_Evaluate :: "score_index \<Rightarrow> score_producer \<Rightarrow> (words_range \<Rightarrow> words_range \<Rightarrow> int) \<Rightarrow> 's pb_hypo
    \<Rightarrow> distortion_state option \<Rightarrow> real list \<Rightarrow> (distortion_state option \<times> real list) result" where
  "Distortion_Evaluate sim sp distance h prev_state out = (case (prev_state, ph_prev h) of
     (Some prev, Some p) \<Rightarrow>
       rbind (PlusEquals_one sim sp (CalculateDistortionScore distance (ds_range prev) (ph_sourceRange h)) out) (\<lambda>out'.
         Inr (Some \<lparr>ds_range = ph_sourceRange h, ds_first_gap = to_int32 (GetFirstGapPos (ph_completed p))\<rparr>, out'))
   | _ \<Rightarrow> Inl NullPointer)"

definition WordPenalty_Evaluate :: "score_index \<Rightarrow> score_producer \<Rightarrow> target_phrase \<Rightarrow> real list \<Rightarrow> real list result" where
  "WordPenalty_Evaluate sim sp tp out = PlusEquals_one sim sp (- real (length (tp_words tp))) out"

interpretation distortion_states: total_compare Distortion_Compare
  by unfold_locales (auto simp: Distortion_Compare_def split: if_splits)

section \<open>Lemmas\<close>

lemma output_simps [simp]:
  "options_of (with_scores t f bd st h) = options_of h" "options_of (pb_with_arcs a h) = options_of h"
  "options_of (pb_SetWinningHypo w h) = options_of h" "pb_words (with_scores t f bd st h) = pb_words h"
  "pb_words (pb_with_arcs a h) = pb_words h" "pb_words (pb_SetWinningHypo w h) = pb_words h"
  "pb_GetWord pos (with_scores t f bd st h) = pb_GetWord pos h" "pb_GetWord pos (pb_with_arcs a h) = pb_GetWord pos h"
  "pb_GetWord pos (pb_SetWinningHypo w h) = pb_GetWord pos h"
  by (cases h; simp)+

lemma with_scores_simps [simp]:
  "ph_id (with_scores t f bd st h) = ph_id h" "ph_prev (with_scores t f bd st h) = ph_prev h"
  "ph_completed (with_scores t f bd st h) = ph_completed h" "ph_sourceRange (with_scores t f bd st h) = ph_sourceRange h"
  "ph_targetRange (with_scores t f bd st h) = ph_targetRange h" "ph_total (with_scores t f bd st h) = t"
  "ph_future (with_scores t f bd st h) = f" "ph_breakdown (with_scores t f bd st h) = bd" "ph_states (with_scores t f bd st h) = st"
  "ph_transOpt (with_scores t f bd st h) = ph_transOpt h" "ph_target (with_scores t f bd st h) = ph_target h"
  "ph_arcs (with_scores t f bd st h) = ph_arcs h"
  by (cases h; simp)+

lemma pb_with_arcs_simps [simp]:
  "ph_id (pb_with_arcs a h) = ph_id h" "ph_prev (pb_with_arcs a h) = ph_prev h"
  "ph_completed (pb_with_arcs a h) = ph_completed h" "ph_sourceRange (pb_with_arcs a h) = ph_sourceRange h"
  "ph_targetRange (pb_with_arcs a h) = ph_targetRange h" "ph_total (pb_with_arcs a h) = ph_total h"
  "ph_future (pb_with_arcs a h) = ph_future h" "ph_breakdown (pb_with_arcs a h) = ph_breakdown h"
  "ph_states (pb_with_arcs a h) = ph_states h" "ph_transOpt (pb_with_arcs a h) = ph_transOpt h"
  "ph_target (pb_with_arcs a h) = ph_target h" "ph_arcs (pb_with_arcs a h) = a"
  "pb_with_arcs a (pb_with_arcs b h) = pb_with_arcs a h"
  by (cases h; simp)+

lemma pb_SetWinningHypo_simps [simp]:
  "ph_id (pb_SetWinningHypo w h) = ph_id h" "ph_prev (pb_SetWinningHypo w h) = ph_prev h"
  "ph_completed (pb_SetWinningHypo w h) = ph_completed h" "ph_sourceRange (pb_SetWinningHypo w h) = ph_sourceRange h"
  "ph_targetRange (pb_SetWinningHypo w h) = ph_targetRange h" "ph_total (pb_SetWinningHypo w h) = ph_total h"
  "ph_future (pb_SetWinningHypo w h) = ph_future h" "ph_breakdown (pb_SetWinningHypo w h) = ph_breakdown h"
  "ph_states (pb_SetWinningHypo w h) = ph_states h" "ph_transOpt (pb_SetWinningHypo w h) = ph_transOpt h"
  "ph_target (pb_SetWinningHypo w h) = ph_target h" "ph_arcs (pb_SetWinningHypo w h) = ph_arcs h"
  "ph_winning (pb_SetWinningHypo w h) = w"
  by (cases h; simp)+

lemma pb_AddArc_simps [simp]:
  "ph_id (pb_AddArc h g) = ph_id h" "ph_prev (pb_AddArc h g) = ph_prev h"
  "ph_completed (pb_AddArc h g) = ph_completed h" "ph_sourceRange (pb_AddArc h g) = ph_sourceRange h"
  "ph_targetRange (pb_AddArc h g) = ph_targetRange h" "ph_total (pb_AddArc h g) = ph_total h"
  "ph_future (pb_AddArc h g) = ph_future h" "ph_breakdown (pb_AddArc h g) = ph_breakdown h"
  "ph_states (pb_AddArc h g) = ph_states h" "ph_transOpt (pb_AddArc h g) = ph_transOpt h" "ph_target (pb_AddArc h g) = ph_target h"
  by (simp_all add: pb_AddArc_def Let_def)

section \<open>Where the words of the output are\<close>

text \<open>The target range of a hypothesis starts after the words before it.\<close>

fun placed :: "'s pb_hypo \<Rightarrow> bool" where
  "placed (PbHypo i prev tp bm sr tr del tot fut bd st win arcs opt) \<longleftrightarrow>
     (case prev of None \<Rightarrow> tr = WordsRange 0 (sz_sub (length (tp_words tp)) 1)
      | Some p \<Rightarrow> placed p \<and> tr = WordsRange (length (pb_words p) mod SIZE_RANGE) (sz_sub (length (pb_words p) + length (tp_words tp)) 1))"

text \<open>Where a target range ends.\<close>

lemma placed_end: "placed p \<Longrightarrow> GetEndPos (ph_targetRange p) = sz_sub (length (pb_words p)) 1"
  by (cases p) (auto split: option.splits)

lemma sz_sub_one: "sz_sub a (Suc 0) = (a + (SIZE_RANGE - 1)) mod SIZE_RANGE"
  by (simp add: sz_sub_def SIZE_RANGE_def)

lemma sz_after: "sz_add (sz_sub a (Suc 0)) (Suc 0) = a mod SIZE_RANGE" "sz_add (sz_sub a (Suc 0)) b = sz_sub (a + b) (Suc 0)"
proof -
  have add: "sz_add (sz_sub a (Suc 0)) b = (a + (SIZE_RANGE - 1) + b) mod SIZE_RANGE" for b
    unfolding sz_add_def sz_sub_one by (rule mod_add_left_eq)
  have "a + (SIZE_RANGE - 1) + Suc 0 = a + SIZE_RANGE" by (simp add: SIZE_RANGE_def)
  then show "sz_add (sz_sub a (Suc 0)) (Suc 0) = a mod SIZE_RANGE" unfolding add by (simp only: mod_add_self2)
  show "sz_add (sz_sub a (Suc 0)) b = sz_sub (a + b) (Suc 0)" unfolding add unfolding sz_sub_one by (simp only: ac_simps)
qed

text \<open>A word of the output is where the target ranges say it is.\<close>

lemma GetWord_placed: "placed h \<Longrightarrow> length (pb_words h) < SIZE_RANGE \<Longrightarrow> pos < length (pb_words h) \<Longrightarrow> pb_GetWord pos h = Inr (pb_words h ! pos)"
proof (induction h rule: pb_words.induct)
  case (1 i prev tp bm sr tr del tot fut bd st win arcs opt)
  show ?case
  proof (cases prev)
    case None
    then show ?thesis using "1.prems" by simp
  next
    case (Some p)
    then have p: "placed p" "length (pb_words p) < SIZE_RANGE" "GetStartPos tr = length (pb_words p)" using "1.prems" by auto
    then show ?thesis using "1.IH" [OF Some p(1,2)] "1.prems"(3) Some by (auto simp: nth_append)
  qed
qed

end
