(* ===== verification/HypoStacks.thy ===== *)
theory HypoStacks
  imports PhraseHypos
begin

text \<open>
  The stacks of the phrase-based search (HypothesisStack.cpp, HypothesisStackNormal.h, HypothesisStackNormal.cpp): the
  hypotheses that cover the same number of words, recombination, the beam, lazy pruning with a minimal number of
  hypotheses per coverage (stack diversity), and the lists of recombined hypotheses.

  The set of hypotheses is a std::set (theory OrderedSets) with the comparator cless; std::sort and std::nth\_element
  are the parameter sel. FREEHYPO of a hypothesis that has left the set is not visible in the model; the counters of
  SentenceStats are not modelled.
\<close>

record 's hypo_stack =
  hs_hypos :: "'s pb_hypo list"
  hs_bestScore :: score
  hs_worstScore :: score
  hs_diversityWorstScore :: "nat \<Rightarrow> score option"
  hs_beamWidth :: score
  hs_maxHypoStackSize :: nat
  hs_minHypoStackDiversity :: nat
  hs_nBestIsEnabled :: bool

text \<open>The constructor with SetMaxHypoStackSize and SetBeamWidth.\<close>

definition HypothesisStackNormal :: "nat \<Rightarrow> nat \<Rightarrow> score \<Rightarrow> bool \<Rightarrow> 's hypo_stack" where
  "HypothesisStackNormal maxHypoStackSize minHypoStackDiversity beamWidth nBestIsEnabled =
     \<lparr>hs_hypos = [], hs_bestScore = NegInf, hs_worstScore = NegInf, hs_diversityWorstScore = (\<lambda>_. None), hs_beamWidth = beamWidth,
      hs_maxHypoStackSize = maxHypoStackSize, hs_minHypoStackDiversity = minHypoStackDiversity, hs_nBestIsEnabled = nBestIsEnabled\<rparr>"

definition SetWorstScoreForBitmap :: "nat \<Rightarrow> score \<Rightarrow> 's hypo_stack \<Rightarrow> 's hypo_stack" where
  "SetWorstScoreForBitmap i worstScore st = st\<lparr>hs_diversityWorstScore := (hs_diversityWorstScore st)(i := Some worstScore)\<rparr>"

definition GetWorstScoreForBitmap :: "nat \<Rightarrow> 's hypo_stack \<Rightarrow> score" where
  "GetWorstScoreForBitmap i st = (case hs_diversityWorstScore st i of None \<Rightarrow> NegInf | Some sc \<Rightarrow> sc)"

definition bitmap_GetWorstScore :: "words_bitmap \<Rightarrow> 's hypo_stack \<Rightarrow> score result" where
  "bitmap_GetWorstScore coverage st = rbind (GetID coverage) (\<lambda>i. Inr (GetWorstScoreForBitmap i st))"

definition hs_Detach :: "'s pb_hypo \<Rightarrow> 's hypo_stack \<Rightarrow> 's hypo_stack" where
  "hs_Detach h st = st\<lparr>hs_hypos := remove1 h (hs_hypos st)\<rparr>"

section \<open>Pruning\<close>

text \<open>
  The first pass over the sorted hypotheses keeps the best ones of every coverage. Its state is the new set, which hypotheses are
  included, the numbers of hypotheses per coverage, and the stack.
\<close>

definition diversity_step :: "('s pb_hypo \<Rightarrow> 's pb_hypo \<Rightarrow> bool result) \<Rightarrow> 's pb_hypo
    \<Rightarrow> bool list \<times> (nat \<Rightarrow> nat) \<times> 's hypo_stack \<Rightarrow> (bool list \<times> (nat \<Rightarrow> nat) \<times> 's hypo_stack) result" where
  "diversity_step cless hyp s = (case s of (included, diversityCount, st) \<Rightarrow>
     rbind (GetID (ph_completed hyp)) (\<lambda>coverage.
       if diversityCount coverage < hs_minHypoStackDiversity st
       then rbind (set_insert cless hyp (hs_hypos st)) (\<lambda>(hypos, _).
              let st' = st\<lparr>hs_hypos := hypos\<rparr>; n = diversityCount coverage + 1 in
              Inr (included @ [True], diversityCount(coverage := n),
                   if n = hs_minHypoStackDiversity st then SetWorstScoreForBitmap coverage (ph_total hyp) st' else st'))
       else Inr (included @ [False], diversityCount, st)))"

text \<open>The second pass fills the set with the best of the others.\<close>

fun add_best :: "('s pb_hypo \<Rightarrow> 's pb_hypo \<Rightarrow> bool result) \<Rightarrow> nat \<Rightarrow> ('s pb_hypo \<times> bool) list \<Rightarrow> 's hypo_stack \<Rightarrow> 's hypo_stack result" where
  "add_best cless newSize [] st = Inr st"
| "add_best cless newSize ((hyp, included) # rest) st =
     (if length (hs_hypos st) < newSize \<and> ph_total hyp > hs_bestScore st + hs_beamWidth st
      then if included then add_best cless newSize rest st
           else rbind (set_insert cless hyp (hs_hypos st)) (\<lambda>(hypos, _).
                  let st' = st\<lparr>hs_hypos := hypos\<rparr> in
                  add_best cless newSize rest
                    (if length hypos = newSize then st'\<lparr>hs_worstScore := ph_total hyp\<rparr> else st'))
      else Inr st)"

definition GetSortedList :: "'s pb_hypo select \<Rightarrow> 's hypo_stack \<Rightarrow> 's pb_hypo list" where
  "GetSortedList sel st = sel ph_total (length (hs_hypos st)) (hs_hypos st)"

definition hs_PruneToSize :: "('s pb_hypo \<Rightarrow> 's pb_hypo \<Rightarrow> bool result) \<Rightarrow> 's pb_hypo select \<Rightarrow> nat \<Rightarrow> 's hypo_stack \<Rightarrow> 's hypo_stack result" where
  "hs_PruneToSize cless sel newSize st =
     (if length (hs_hypos st) \<le> newSize then Inr st
      else let hypos = GetSortedList sel st in
        rbind (if hs_minHypoStackDiversity st > 0
               then rfold (diversity_step cless) hypos ([], \<lambda>_. 0, st\<lparr>hs_hypos := []\<rparr>)
               else Inr (map (\<lambda>_. False) hypos, \<lambda>_. 0, st\<lparr>hs_hypos := []\<rparr>)) (\<lambda>(included, _, st1).
          if length (hs_hypos st1) < newSize then add_best cless newSize (zip hypos included) st1 else Inr st1))"

section \<open>Adding a hypothesis\<close>

text \<open>
  The size the set may have before it is pruned: a size\_t, to which the number of hypotheses per coverage is
  added, shifted by the distortion limit.
\<close>

definition tolerated_size :: "int \<Rightarrow> 's hypo_stack \<Rightarrow> nat result" where
  "tolerated_size maxDistortion st =
     (let base = sz_sub (2 * hs_maxHypoStackSize st) 1 in
      if hs_minHypoStackDiversity st = 0 then Inr base
      else if maxDistortion < 0 \<or> maxDistortion \<ge> 64 then Inl BadShift
      else Inr (sz_add base (push_bit (nat maxDistortion) (hs_minHypoStackDiversity st))))"

definition update_scores :: "'s pb_hypo \<Rightarrow> 's hypo_stack \<Rightarrow> 's hypo_stack" where
  "update_scores hypo st =
     (if ph_total hypo > hs_bestScore st
      then let bound = ph_total hypo + hs_beamWidth st in
        st\<lparr>hs_bestScore := ph_total hypo, hs_worstScore := (if bound > hs_worstScore st then bound else hs_worstScore st)\<rparr>
      else st)"

definition update_diversity :: "'s pb_hypo \<Rightarrow> 's hypo_stack \<Rightarrow> 's hypo_stack result" where
  "update_diversity hypo st =
     (if hs_minHypoStackDiversity st = 1
      then rbind (bitmap_GetWorstScore (ph_completed hypo) st) (\<lambda>w.
             if ph_total hypo > w
             then rbind (GetID (ph_completed hypo)) (\<lambda>i. Inr (SetWorstScoreForBitmap i (ph_total hypo) st))
             else Inr st)
      else Inr st)"

text \<open>The second component is the existing hypothesis that prevented the insertion.\<close>

definition hs_Add :: "('s pb_hypo \<Rightarrow> 's pb_hypo \<Rightarrow> bool result) \<Rightarrow> 's pb_hypo select \<Rightarrow> int \<Rightarrow> 's pb_hypo \<Rightarrow> 's hypo_stack
    \<Rightarrow> ('s hypo_stack \<times> 's pb_hypo option) result" where
  "hs_Add cless sel maxDistortion hypo st =
     rbind (set_insert cless hypo (hs_hypos st)) (\<lambda>(hypos, existing). case existing of
       Some e \<Rightarrow> Inr (st, Some e)
     | None \<Rightarrow>
         rbind (update_diversity hypo (update_scores hypo (st\<lparr>hs_hypos := hypos\<rparr>))) (\<lambda>st1.
         rbind (tolerated_size maxDistortion st1) (\<lambda>toleratedSize.
         rbind (if length (hs_hypos st1) > toleratedSize then hs_PruneToSize cless sel (hs_maxHypoStackSize st1) st1 else Inr st1) (\<lambda>st2.
           Inr (st2, None)))))"

text \<open>Whether a hypothesis is too bad for the stack.\<close>

definition too_bad :: "bool \<Rightarrow> 's pb_hypo \<Rightarrow> 's hypo_stack \<Rightarrow> bool result" where
  "too_bad disableDiscarding hypo st =
     (if \<not> disableDiscarding \<and> ph_total hypo < hs_worstScore st
      then if hs_minHypoStackDiversity st > 0
           then rbind (bitmap_GetWorstScore (ph_completed hypo) st) (\<lambda>w. Inr (\<not> ph_total hypo \<ge> w))
           else Inr True
      else Inr False)"

definition hs_AddPrune :: "('s pb_hypo \<Rightarrow> 's pb_hypo \<Rightarrow> bool result) \<Rightarrow> 's pb_hypo select \<Rightarrow> int \<Rightarrow> bool \<Rightarrow> 's pb_hypo \<Rightarrow> 's hypo_stack
    \<Rightarrow> (bool \<times> 's hypo_stack) result" where
  "hs_AddPrune cless sel maxDistortion disableDiscarding hypo st =
     rbind (too_bad disableDiscarding hypo st) (\<lambda>bad.
       if bad then Inr (False, st)
       else rbind (hs_Add cless sel maxDistortion hypo st) (\<lambda>(st1, existing). case existing of
         None \<Rightarrow> Inr (True, st1)
       | Some hypoExisting \<Rightarrow>
           if ph_total hypo > ph_total hypoExisting
           then rbind (hs_Add cless sel maxDistortion
                         (if hs_nBestIsEnabled st1 then pb_AddArc hypo hypoExisting else hypo)
                         (hs_Detach hypoExisting st1)) (\<lambda>(st2, existing2).
                  case existing2 of None \<Rightarrow> Inr (False, st2) | Some _ \<Rightarrow> Inl Aborted)
           else Inr (False,
                  if hs_nBestIsEnabled st1
                  then st1\<lparr>hs_hypos := map (\<lambda>h. if h = hypoExisting then pb_AddArc h hypo else h) (hs_hypos st1)\<rparr>
                  else st1)))"

section \<open>Results of a stack\<close>

definition hs_GetBestHypothesis :: "'s hypo_stack \<Rightarrow> 's pb_hypo option" where
  "hs_GetBestHypothesis st = (case hs_hypos st of
     [] \<Rightarrow> None
   | h # hs \<Rightarrow> Some (fold (\<lambda>hypo bestHypo. if ph_total hypo > ph_total bestHypo then hypo else bestHypo) hs h))"

definition hs_CleanupArcList :: "'s pb_hypo select \<Rightarrow> bool \<Rightarrow> nat \<Rightarrow> 's hypo_stack \<Rightarrow> 's hypo_stack result" where
  "hs_CleanupArcList sel distinctNBest nBestSize st =
     (if \<not> hs_nBestIsEnabled st then Inr st
      else rbind (rmap (pb_CleanupArcList sel distinctNBest nBestSize) (hs_hypos st)) (\<lambda>hypos.
             Inr (st\<lparr>hs_hypos := hypos\<rparr>)))"

end
