(* ===== verification/PhraseSearch.thy ===== *)
theory PhraseSearch
  imports HypoStacks
begin

text \<open>
  The search of the phrase-based decoder stack by stack (SearchNormal.h, SearchNormal.cpp): stack i has the hypotheses that cover i
  words; the hypotheses of each stack in turn are extended by all translation options that the coverage, the distortion limit and the
  reordering constraints allow.

  The clock is the parameter ps\_timeout (whether the time is over before the stack of an index). The path queries and jump widths of
  the input are parameters, since word lattices define their own. The counters of SentenceStats and the output of the verbose levels are not modelled.
\<close>

section \<open>State\<close>

record 's pb_search =
  ps_sys :: pb_system
  ps_coll :: option_coll
  ps_features :: "'s pb_features"
  ps_cmp :: "'s \<Rightarrow> 's \<Rightarrow> int"
  ps_diff :: "'s option \<Rightarrow> 's option \<Rightarrow> int"
  ps_sel :: "'s pb_hypo select"
  ps_maxDistortion :: int
  ps_isWordLattice :: bool
  ps_CanIGetFromAToB :: "nat \<Rightarrow> nat \<Rightarrow> bool"
  ps_IsCoveragePossible :: "words_range \<Rightarrow> bool"
  ps_distance :: "words_range \<Rightarrow> words_range \<Rightarrow> int"
  ps_reordering :: reordering_constraint
  ps_maxHypoStackSize :: nat
  ps_minHypoStackDiversity :: nat
  ps_beamWidth :: score
  ps_nBestIsEnabled :: bool
  ps_distinctNBest :: bool
  ps_nBestSize :: nat
  ps_disableDiscarding :: bool
  ps_earlyDiscarding :: bool
  ps_earlyDiscardingThreshold :: score
  ps_timeout :: "nat \<Rightarrow> bool"

text \<open>The stacks, the number of hypotheses created, the flag of an interrupted search and the last stack that was expanded.\<close>

record 's search_state =
  ss_stacks :: "'s hypo_stack list"
  ss_hypoId :: nat
  ss_interrupted :: bool
  ss_actual :: "nat option"

abbreviation orderer :: "'s pb_search \<Rightarrow> 's pb_hypo \<Rightarrow> 's pb_hypo \<Rightarrow> bool result" where
  "orderer ps \<equiv> HypothesisRecombinationOrderer (ps_cmp ps) (ps_diff ps)"

definition SearchNormal :: "'s pb_search \<Rightarrow> 's search_state" where
  "SearchNormal ps =
     \<lparr>ss_stacks = replicate (length (py_source (ps_sys ps)) + 1)
        (HypothesisStackNormal (ps_maxHypoStackSize ps) (ps_minHypoStackDiversity ps) (ps_beamWidth ps) (ps_nBestIsEnabled ps)),
      ss_hypoId = 0, ss_interrupted = False, ss_actual = None\<rparr>"

definition add_to_stack :: "'s pb_search \<Rightarrow> nat \<Rightarrow> 's pb_hypo \<Rightarrow> 's search_state \<Rightarrow> 's search_state result" where
  "add_to_stack ps i hypo s =
     rbind (array_get (ss_stacks s) i) (\<lambda>stack.
     rbind (hs_AddPrune (orderer ps) (ps_sel ps) (ps_maxDistortion ps) (ps_disableDiscarding ps) hypo stack) (\<lambda>(_, stack').
       Inr (s\<lparr>ss_stacks := (ss_stacks s)[i := stack']\<rparr>)))"

section \<open>Expansion\<close>

text \<open>The score a hypothesis on a stack must not fall below, for early discarding.\<close>

definition allowed_score :: "'s pb_search \<Rightarrow> 's pb_hypo \<Rightarrow> pb_option \<Rightarrow> 's search_state \<Rightarrow> score result" where
  "allowed_score ps hypothesis transOpt s =
     (let r = po_range transOpt;
          wordsTranslated = GetNumWordsCovered (ph_completed hypothesis) + sz_add (sz_sub (GetEndPos r) (GetStartPos r)) 1 in
      rbind (array_get (ss_stacks s) wordsTranslated) (\<lambda>stack.
      rbind (if ps_minHypoStackDiversity ps \<noteq> 0
             then rbind (GetIDPlus (ph_completed hypothesis) (GetStartPos r) (GetEndPos r)) (\<lambda>i.
                    Inr (min (hs_worstScore stack) (GetWorstScoreForBitmap i stack)))
             else Inr (hs_worstScore stack)) (\<lambda>allowedScore.
        Inr (allowedScore + ps_earlyDiscardingThreshold ps))))"

text \<open>A new hypothesis with its score, or none; and the state with the identifiers used up.\<close>

definition build_hypothesis :: "'s pb_search \<Rightarrow> 's pb_hypo \<Rightarrow> pb_option \<Rightarrow> score \<Rightarrow> 's search_state
    \<Rightarrow> ('s pb_hypo option \<times> 's search_state) result" where
  "build_hypothesis ps hypothesis transOpt expectedScore s =
     (if \<not> ps_earlyDiscarding ps
      then rbind (Hypothesis_Create (ss_hypoId s) hypothesis transOpt (pf_constraint (ps_features ps))) (\<lambda>newHypo. case newHypo of
             None \<Rightarrow> Inr (None, s)
           | Some h \<Rightarrow> rbind (pb_CalcScore (ps_sys ps) (ps_features ps) (oc_futureScore (ps_coll ps)) h) (\<lambda>h'.
               Inr (Some h', s\<lparr>ss_hypoId := Suc (ss_hypoId s)\<rparr>)))
      else rbind (allowed_score ps hypothesis transOpt s) (\<lambda>allowedScore.
        if expectedScore + po_future transOpt < allowedScore then Inr (None, s)
        else rbind (Hypothesis_Create (ss_hypoId s) hypothesis transOpt (pf_constraint (ps_features ps))) (\<lambda>newHypo. case newHypo of
               None \<Rightarrow> Inr (None, s)
             | Some h \<Rightarrow>
                 let s' = s\<lparr>ss_hypoId := Suc (ss_hypoId s)\<rparr> in
                 rbind (CalcExpectedScore h) (\<lambda>expected.
                   if expected < allowedScore then Inr (None, s')
                   else rbind (CalcRemainingScore h) (\<lambda>h'. Inr (Some h', s'))))))"

definition ExpandHypothesis :: "'s pb_search \<Rightarrow> 's pb_hypo \<Rightarrow> score \<Rightarrow> pb_option \<Rightarrow> 's search_state \<Rightarrow> 's search_state result" where
  "ExpandHypothesis ps hypothesis expectedScore transOpt s =
     rbind (build_hypothesis ps hypothesis transOpt expectedScore s) (\<lambda>(newHypo, s'). case newHypo of
       None \<Rightarrow> Inr s'
     | Some h \<Rightarrow> add_to_stack ps (GetNumWordsCovered (ph_completed h)) h s')"

definition ExpandAllHypotheses :: "'s pb_search \<Rightarrow> 's pb_hypo \<Rightarrow> nat \<Rightarrow> nat \<Rightarrow> 's search_state \<Rightarrow> 's search_state result" where
  "ExpandAllHypotheses ps hypothesis startPos endPos s =
     rbind (if ps_earlyDiscarding ps
            then rbind (CalcFutureScore_span (oc_futureScore (ps_coll ps)) (ph_completed hypothesis) startPos endPos) (\<lambda>x.
                   Inr (pb_GetScore hypothesis + x))
            else Inr (Fin 0)) (\<lambda>expectedScore.
     rbind (GetTranslationOptionList (ps_sys ps) startPos endPos (ps_coll ps)) (\<lambda>transOptList.
       rfold (ExpandHypothesis ps hypothesis expectedScore) transOptList s))"

text \<open>The basic checks of a span: options, no overlap, and the reordering constraints, in the order of the source.\<close>

definition basic_checks :: "'s pb_search \<Rightarrow> words_bitmap \<Rightarrow> nat \<Rightarrow> nat \<Rightarrow> bool result" where
  "basic_checks ps hypoBitmap startPos endPos =
     rbind (GetTranslationOptionList (ps_sys ps) startPos endPos (ps_coll ps)) (\<lambda>opts.
       if opts = [] then Inr False
       else rbind (Overlap hypoBitmap (WordsRange startPos endPos)) (\<lambda>overlaps.
         if overlaps then Inr False
         else Check (ps_maxDistortion ps) (ps_reordering ps) hypoBitmap startPos endPos))"

definition expand_unlimited :: "'s pb_search \<Rightarrow> 's pb_hypo \<Rightarrow> nat \<times> nat \<Rightarrow> 's search_state \<Rightarrow> 's search_state result" where
  "expand_unlimited ps hypothesis interval s = (case interval of (startPos, endPos) \<Rightarrow>
     rbind (basic_checks ps (ph_completed hypothesis) startPos endPos) (\<lambda>ok.
       if ok then ExpandAllHypotheses ps hypothesis startPos endPos s else Inr s))"

text \<open>The checks of a start position under a distortion limit: whether it is skipped.\<close>

definition skip_start :: "'s pb_search \<Rightarrow> 's pb_hypo \<Rightarrow> nat \<Rightarrow> bool result" where
  "skip_start ps hypothesis startPos =
     (let hypoBitmap = ph_completed hypothesis; prevRange = ph_sourceRange hypothesis in
      rbind (GetValue hypoBitmap startPos) (\<lambda>taken.
        if taken then Inr True
        else rbind (GetEdgeToTheLeftOf hypoBitmap startPos) (\<lambda>closestLeft.
          if ps_isWordLattice ps \<and> closestLeft \<noteq> 0 \<and> closestLeft \<noteq> startPos \<and> \<not> ps_CanIGetFromAToB ps closestLeft startPos then Inr True
          else if ps_isWordLattice ps \<and> GetStartPos prevRange \<noteq> NOT_FOUND \<and> GetStartPos prevRange > startPos
                 \<and> \<not> ps_CanIGetFromAToB ps startPos (GetStartPos prevRange) then Inr True
          else Inr (ps_distance ps prevRange (WordsRange startPos startPos) > ps_maxDistortion ps))))"

text \<open>The checks of one span under a distortion limit, and its expansion.\<close>

definition expand_limited :: "'s pb_search \<Rightarrow> 's pb_hypo \<Rightarrow> nat \<Rightarrow> nat \<Rightarrow> 's search_state \<Rightarrow> 's search_state result" where
  "expand_limited ps hypothesis startPos endPos s =
     (let hypoBitmap = ph_completed hypothesis; hypoFirstGapPos = GetFirstGapPos hypoBitmap; extRange = WordsRange startPos endPos in
      rbind (basic_checks ps hypoBitmap startPos endPos) (\<lambda>ok.
        if \<not> ok \<or> (ps_isWordLattice ps \<and> \<not> ps_IsCoveragePossible ps extRange) then Inr s
        else rbind (GetEdgeToTheRightOf hypoBitmap endPos) (\<lambda>closestRight.
          if ps_isWordLattice ps \<and> closestRight \<noteq> endPos \<and> closestRight + 1 < length (py_source (ps_sys ps))
             \<and> \<not> ps_CanIGetFromAToB ps (endPos + 1) (closestRight + 1) then Inr s
          else if hypoFirstGapPos = startPos then ExpandAllHypotheses ps hypothesis startPos endPos s
          else if ps_distance ps extRange (WordsRange hypoFirstGapPos hypoFirstGapPos) > ps_maxDistortion ps then Inr s
          else ExpandAllHypotheses ps hypothesis startPos endPos s)))"

definition ProcessOneHypothesis :: "'s pb_search \<Rightarrow> 's pb_hypo \<Rightarrow> 's search_state \<Rightarrow> 's search_state result" where
  "ProcessOneHypothesis ps hypothesis s =
     (let n = length (py_source (ps_sys ps)); starts = [GetFirstGapPos (ph_completed hypothesis)..<n];
          ends = (\<lambda>startPos. [startPos..<startPos + max_size (ps_sys ps) startPos]) in
      if ps_maxDistortion ps < 0
      then rfold (\<lambda>startPos. rfold (\<lambda>endPos. expand_unlimited ps hypothesis (startPos, endPos)) (ends startPos)) starts s
      else rfold (\<lambda>startPos s. rbind (skip_start ps hypothesis startPos) (\<lambda>skip.
             if skip then Inr s else rfold (expand_limited ps hypothesis startPos) (ends startPos) s)) starts s)"

section \<open>The main loop\<close>

text \<open>
  One stack: pruning, the arcs, and the expansion of every hypothesis. The source iterates over the set while the expansions add to other stacks.
\<close>

definition process_stack :: "'s pb_search \<Rightarrow> nat \<Rightarrow> 's search_state \<Rightarrow> 's search_state result" where
  "process_stack ps i s =
     rbind (array_get (ss_stacks s) i) (\<lambda>stack.
     rbind (hs_PruneToSize (orderer ps) (ps_sel ps) (ps_maxHypoStackSize ps) stack) (\<lambda>stack1.
     rbind (hs_CleanupArcList (ps_sel ps) (ps_distinctNBest ps) (ps_nBestSize ps) stack1) (\<lambda>stack2.
     rbind (rfold (ProcessOneHypothesis ps) (hs_hypos stack2) (s\<lparr>ss_stacks := (ss_stacks s)[i := stack2]\<rparr>)) (\<lambda>s'.
       Inr (s'\<lparr>ss_actual := Some i\<rparr>)))))"

definition stack_step :: "'s pb_search \<Rightarrow> nat \<Rightarrow> 's search_state \<Rightarrow> 's search_state result" where
  "stack_step ps i s =
     (if ss_interrupted s then Inr s
      else if ps_timeout ps i then Inr (s\<lparr>ss_interrupted := True\<rparr>)
      else process_stack ps i s)"

definition first_state :: "'s pb_search \<Rightarrow> 's search_state result" where
  "first_state ps = add_to_stack ps 0 (initial_hypothesis (ps_sys ps) (ps_features ps) 0) ((SearchNormal ps)\<lparr>ss_hypoId := 1\<rparr>)"

definition pb_ProcessSentence :: "'s pb_search \<Rightarrow> 's search_state result" where
  "pb_ProcessSentence ps =
     rbind (first_state ps) (\<lambda>s. rfold (stack_step ps) [0..<length (ss_stacks s)] s)"

definition pb_GetBestHypothesis :: "'s search_state \<Rightarrow> 's pb_hypo option result" where
  "pb_GetBestHypothesis s =
     (if \<not> ss_interrupted s
      then if ss_stacks s = [] then Inl EmptyContainer else Inr (hs_GetBestHypothesis (last (ss_stacks s)))
      else case ss_actual s of
             None \<Rightarrow> Inl Uninitialized
           | Some i \<Rightarrow> rbind (array_get (ss_stacks s) i) (\<lambda>stack. Inr (hs_GetBestHypothesis stack)))"

end
