(* ===== verification/StackProps.thy ===== *)
theory StackProps
  imports HypoStacks
begin

text \<open>
  Properties of the stacks of the phrase-based search (theory HypoStacks): the recombination order, what pruning keeps of
  each coverage and of the whole stack, and what a sequence of additions leaves.
\<close>

section \<open>The recombination order\<close>

text \<open>The hypotheses of one search: bitmaps of the sentence, states of the same feature functions, a finite score.\<close>

definition ok_pb :: "nat \<Rightarrow> bool list \<Rightarrow> 's pb_hypo \<Rightarrow> bool" where
  "ok_pb n shape h \<longleftrightarrow> wf_bitmap (ph_completed h) \<and> wb_size (ph_completed h) = n
     \<and> map Option.is_none (ph_states h) = shape \<and> (\<exists>x. ph_total h = Fin x)"

lemma ok_pb_simps [simp]:
  "ok_pb n shape (pb_with_arcs a h) = ok_pb n shape h" "ok_pb n shape (pb_AddArc h g) = ok_pb n shape h"
  "ok_pb n shape (pb_SetWinningHypo w h) = ok_pb n shape h"
  by (simp_all add: ok_pb_def)

locale pb_order = total_compare cmp + partial_sorting sel
  for cmp :: "'s \<Rightarrow> 's \<Rightarrow> int" and sel :: "'s pb_hypo select" +
  fixes diff :: "'s option \<Rightarrow> 's option \<Rightarrow> int" and n :: nat and shape :: "bool list"
  assumes diff_None: "diff None None = 0"
begin

definition before :: "'s pb_hypo \<Rightarrow> 's pb_hypo \<Rightarrow> bool" where
  "before x y \<longleftrightarrow> wb_less (ph_completed x) (ph_completed y)
     \<or> ph_completed x = ph_completed y \<and> states_less (ph_states x) (ph_states y)"

sublocale recomb: ordered_by "HypothesisRecombinationOrderer cmp diff" before "ok_pb n shape"
proof
  fix x y z :: "'s pb_hypo"
  assume x: "ok_pb n shape x"
  have irrefl: "\<not> wb_less (ph_completed x) (ph_completed x)"
    using x Compare_0 [of "ph_completed x" "ph_completed x"] by (simp add: ok_pb_def wb_less_def)
  then show "\<not> before x x" by (simp add: before_def states_less_irrefl)
  assume y: "ok_pb n shape y"
  have xy: "same_shape (ph_states x) (ph_states y)" using x y by (simp add: ok_pb_def)
  obtain c where c: "compare_states cmp diff (ph_states x) (ph_states y) = Inr c"
      "c < 0 \<longleftrightarrow> states_less (ph_states x) (ph_states y)"
    using compare_states_less [of diff "ph_states x" "ph_states y", OF diff_None xy] by blast
  have "Compare (ph_completed x) (ph_completed y) = 0 \<longleftrightarrow> ph_completed x = ph_completed y"
    using x y by (simp add: ok_pb_def Compare_0)
  then show "HypothesisRecombinationOrderer cmp diff x y = Inr (before x y)"
    using c irrefl by (auto simp: HypothesisRecombinationOrderer_def pb_RecombineCompare_def Let_def before_def wb_less_def)
  assume z: "ok_pb n shape z"
  have yz: "same_shape (ph_states y) (ph_states z)" using y z by (simp add: ok_pb_def)
  have wf: "wf_bitmap (ph_completed x)" "wf_bitmap (ph_completed y)" "wf_bitmap (ph_completed z)"
    using x y z by (simp_all add: ok_pb_def)
  have tri: "wb_less a b \<or> a = b \<or> wb_less b a" if "wf_bitmap a" "wf_bitmap b" for a b
    using Compare_0 [OF that] Compare_swap [of a b] by (auto simp: wb_less_def)
  note states_trans = states_less_trans [OF xy yz] and states_split = states_less_split [OF xy yz]
  show "before x y \<Longrightarrow> before y z \<Longrightarrow> before x z"
    unfolding before_def using wb_less_trans [OF wf] states_trans by metis
  show "before x z \<Longrightarrow> before x y \<or> before y z"
    unfolding before_def using tri [OF wf(1,2)] wb_less_trans [OF wf(2,1,3)] states_split by metis
qed

end

section \<open>The first pass of pruning\<close>

definition hyp_id :: "'s pb_hypo \<Rightarrow> nat" where
  "hyp_id h = (case GetID (ph_completed h) of Inr i \<Rightarrow> i | Inl _ \<Rightarrow> 0)"

text \<open>Which hypotheses of the sorted list the first pass includes.\<close>

fun kept_flags :: "nat \<Rightarrow> (nat \<Rightarrow> nat) \<Rightarrow> 's pb_hypo list \<Rightarrow> bool list" where
  "kept_flags m c [] = []"
| "kept_flags m c (h # hs) =
     (if c (hyp_id h) < m then True # kept_flags m (c(hyp_id h := c (hyp_id h) + 1)) hs else False # kept_flags m c hs)"

lemma length_kept_flags [simp]: "length (kept_flags m c hs) = length hs"
  by (induction hs arbitrary: c) auto

lemma kept_flags_0 [simp]: "kept_flags 0 c hs = map (\<lambda>_. False) hs"
  by (induction hs) auto

text \<open>An excluded hypothesis has enough included ones of its coverage before it.\<close>

lemma kept_flags_excluded:
  assumes "j < length hs" "\<not> kept_flags m c hs ! j"
  shows "m \<le> c (hyp_id (hs ! j)) + length (filter (\<lambda>(h, f). f \<and> hyp_id h = hyp_id (hs ! j)) (take j (zip hs (kept_flags m c hs))))"
  using assms
proof (induction hs arbitrary: c j)
  case (Cons h hs)
  show ?case
  proof (cases j)
    case 0
    then show ?thesis using Cons.prems by (auto split: if_splits)
  next
    case (Suc i)
    have i: "i < length hs" using Suc Cons.prems(1) by simp
    show ?thesis
    proof (cases "c (hyp_id h) < m")
      case True
      then have "\<not> kept_flags m (c(hyp_id h := c (hyp_id h) + 1)) hs ! i" using Cons.prems(2) Suc by simp
      from Cons.IH [OF i this] show ?thesis using True Suc by (auto simp: fun_upd_def split: if_splits)
    next
      case False
      then have "\<not> kept_flags m c hs ! i" using Cons.prems(2) Suc by simp
      from Cons.IH [OF i this] show ?thesis using False Suc by simp
    qed
  qed
qed simp

definition picked :: "'a list \<Rightarrow> bool list \<Rightarrow> 'a list" where
  "picked hs flags = map fst (filter snd (zip hs flags))"

lemma picked_Cons [simp]: "picked (h # hs) (f # fs) = (if f then h # picked hs fs else picked hs fs)"
  by (simp add: picked_def)

lemma picked_Nil [simp]: "picked [] fs = []"
  by (simp add: picked_def)

text \<open>What pruning leaves unchanged.\<close>

definition same_limits :: "'s hypo_stack \<Rightarrow> 's hypo_stack \<Rightarrow> bool" where
  "same_limits st st' \<longleftrightarrow> hs_beamWidth st' = hs_beamWidth st \<and> hs_maxHypoStackSize st' = hs_maxHypoStackSize st
     \<and> hs_minHypoStackDiversity st' = hs_minHypoStackDiversity st \<and> hs_nBestIsEnabled st' = hs_nBestIsEnabled st"

lemma same_limits_refl [simp]: "same_limits st st"
  by (simp add: same_limits_def)

lemma same_limits_trans: "same_limits a b \<Longrightarrow> same_limits b c \<Longrightarrow> same_limits a c"
  by (simp add: same_limits_def)

text \<open>The second pass from st to st': it stops at position k, and has added the hypotheses before it that were not included.\<close>

definition filled :: "'s pb_hypo set \<Rightarrow> nat \<Rightarrow> ('s pb_hypo \<times> bool) list \<Rightarrow> 's hypo_stack \<Rightarrow> nat \<Rightarrow> 's hypo_stack \<Rightarrow> bool" where
  "filled A newSize ps st k st' \<longleftrightarrow>
     mset (hs_hypos st') = mset (hs_hypos st) + mset (map fst (filter (\<lambda>p. \<not> snd p) (take k ps)))
     \<and> (\<forall>p \<in> set (take k ps). ph_total (fst p) > hs_bestScore st + hs_beamWidth st)
     \<and> (k < length ps \<longrightarrow> newSize \<le> length (hs_hypos st') \<or> ph_total (fst (ps ! k)) \<le> hs_bestScore st + hs_beamWidth st)
     \<and> k \<le> length ps \<and> same_limits st st' \<and> hs_bestScore st' = hs_bestScore st
     \<and> (hs_worstScore st' = hs_worstScore st \<or> (\<exists>h \<in> A. hs_worstScore st' = ph_total h))
     \<and> length (hs_hypos st') \<le> max newSize (length (hs_hypos st))"

lemma filled_stop:
  "ps = [] \<or> \<not> (length (hs_hypos st) < newSize \<and> ph_total (fst (hd ps)) > hs_bestScore st + hs_beamWidth st) \<Longrightarrow> filled A newSize ps st 0 st"
  by (cases ps) (auto simp: filled_def not_less)

lemma filled_skip:
  assumes "filled A newSize ps st k st'" "ph_total h > hs_bestScore st + hs_beamWidth st"
  shows "filled A newSize ((h, True) # ps) st (Suc k) st'"
  using assms by (auto simp: filled_def)

lemma filled_add:
  assumes "filled A newSize ps st1 k st'" "ph_total h > hs_bestScore st + hs_beamWidth st" "h \<in> A" "length (hs_hypos st) < newSize"
    and "mset (hs_hypos st1) = add_mset h (mset (hs_hypos st))" "same_limits st st1" "hs_bestScore st1 = hs_bestScore st"
    and "hs_worstScore st1 = hs_worstScore st \<or> hs_worstScore st1 = ph_total h"
  shows "filled A newSize ((h, False) # ps) st (Suc k) st'"
proof -
  have "length (hs_hypos st1) = Suc (length (hs_hypos st))" using assms(5) by (metis size_add_mset size_mset)
  then have "max newSize (length (hs_hypos st1)) = newSize" "max newSize (length (hs_hypos st)) = newSize" using assms(4) by auto
  moreover have "hs_beamWidth st1 = hs_beamWidth st" using assms(6) by (simp add: same_limits_def)
  ultimately show ?thesis
    using assms(1,8) unfolding filled_def by (auto simp: assms(2-7) same_limits_trans [OF assms(6)])
qed

context pb_order
begin

lemma insert_other:
  assumes "recomb.ok_set A" "recomb.ok_set S" "set S \<subseteq> set A" "h \<in> set A" "h \<notin> set S"
  shows "\<exists>S' e. set_insert (HypothesisRecombinationOrderer cmp diff) h S = Inr (S', None)
    \<and> recomb.ok_set S' \<and> mset S' = add_mset h (mset S)"
proof -
  have "ok_pb n shape h" using assms(1,4) by (rule recomb.ok_set_ok)
  moreover have "\<forall>y \<in> set S. \<not> recomb.eqv h y"
    using assms recomb.ok_set_eqv [OF assms(1)] by blast
  ultimately show ?thesis using recomb.set_insert_new [OF assms(2)] by blast
qed

lemma diversity_pass:
  assumes "recomb.ok_set A" "set hs \<subseteq> set A" "distinct hs" "\<forall>h \<in> set hs. \<exists>i. GetID (ph_completed h) = Inr i"
    and "recomb.ok_set (hs_hypos st)" "set (hs_hypos st) \<subseteq> set A" "set (hs_hypos st) \<inter> set hs = {}"
  shows "\<exists>c' st'. rfold (diversity_step (HypothesisRecombinationOrderer cmp diff)) hs (inc, c, st)
      = Inr (inc @ kept_flags (hs_minHypoStackDiversity st) c hs, c', st')
    \<and> recomb.ok_set (hs_hypos st') \<and> mset (hs_hypos st') = mset (hs_hypos st) + mset (picked hs (kept_flags (hs_minHypoStackDiversity st) c hs))
    \<and> same_limits st st' \<and> hs_bestScore st' = hs_bestScore st \<and> hs_worstScore st' = hs_worstScore st"
  using assms
proof (induction hs arbitrary: inc c st)
  case (Cons h hs)
  let ?m = "hs_minHypoStackDiversity st" and ?cless = "HypothesisRecombinationOrderer cmp diff"
  have id: "GetID (ph_completed h) = Inr (hyp_id h)" using Cons.prems(4) by (auto simp: hyp_id_def)
  show ?case
  proof (cases "c (hyp_id h) < ?m")
    case True
    let ?c = "c(hyp_id h := c (hyp_id h) + 1)"
    obtain S' where S': "set_insert ?cless h (hs_hypos st) = Inr (S', None)" "recomb.ok_set S'"
      "mset S' = add_mset h (mset (hs_hypos st))"
      using insert_other [OF Cons.prems(1,5,6), of h] Cons.prems(2,7) by auto
    have set_S': "set S' = insert h (set (hs_hypos st))" using S'(3) by (metis set_mset_add_mset_insert set_mset_mset)
    define st1 where "st1 = (if c (hyp_id h) + 1 = ?m then SetWorstScoreForBitmap (hyp_id h) (ph_total h) (st\<lparr>hs_hypos := S'\<rparr>)
      else st\<lparr>hs_hypos := S'\<rparr>)"
    have step: "diversity_step ?cless h (inc, c, st) = Inr (inc @ [True], ?c, st1)"
      using True id S'(1) by (simp add: diversity_step_def st1_def Let_def)
    have st1: "hs_hypos st1 = S'" "hs_minHypoStackDiversity st1 = ?m" "same_limits st st1"
      "hs_bestScore st1 = hs_bestScore st" "hs_worstScore st1 = hs_worstScore st"
      by (simp_all add: st1_def SetWorstScoreForBitmap_def same_limits_def)
    have "\<exists>c' st'. rfold (diversity_step ?cless) hs (inc @ [True], ?c, st1) = Inr ((inc @ [True]) @ kept_flags (hs_minHypoStackDiversity st1) ?c hs, c', st')
      \<and> recomb.ok_set (hs_hypos st') \<and> mset (hs_hypos st') = mset (hs_hypos st1) + mset (picked hs (kept_flags (hs_minHypoStackDiversity st1) ?c hs))
      \<and> same_limits st1 st' \<and> hs_bestScore st' = hs_bestScore st1 \<and> hs_worstScore st' = hs_worstScore st1"
      by (rule Cons.IH [OF Cons.prems(1)]) (use Cons.prems S' set_S' st1(1) in auto)
    then show ?thesis using step True S'(3) st1 same_limits_trans [OF st1(3)] by auto
  next
    case False
    have step: "diversity_step ?cless h (inc, c, st) = Inr (inc @ [False], c, st)"
      using False id by (simp add: diversity_step_def)
    have "\<exists>c' st'. rfold (diversity_step ?cless) hs (inc @ [False], c, st) = Inr ((inc @ [False]) @ kept_flags ?m c hs, c', st')
      \<and> recomb.ok_set (hs_hypos st') \<and> mset (hs_hypos st') = mset (hs_hypos st) + mset (picked hs (kept_flags ?m c hs))
      \<and> same_limits st st' \<and> hs_bestScore st' = hs_bestScore st \<and> hs_worstScore st' = hs_worstScore st"
      by (rule Cons.IH [OF Cons.prems(1)]) (use Cons.prems in auto)
    then show ?thesis using step False by auto
  qed
qed simp

lemma add_best_pass:
  assumes "recomb.ok_set A" "set (map fst ps) \<subseteq> set A" "distinct (map fst ps)"
    and "recomb.ok_set (hs_hypos st)" "set (hs_hypos st) \<subseteq> set A" "\<forall>(h, f) \<in> set ps. \<not> f \<longrightarrow> h \<notin> set (hs_hypos st)"
  shows "\<exists>k st'. add_best (HypothesisRecombinationOrderer cmp diff) newSize ps st = Inr st' \<and> recomb.ok_set (hs_hypos st')
    \<and> filled (set A) newSize ps st k st'"
  using assms
proof (induction ps arbitrary: st)
  case Nil
  then show ?case using filled_stop [of "[]" st newSize "set A"] by auto
next
  case (Cons p ps)
  let ?cless = "HypothesisRecombinationOrderer cmp diff"
  obtain h f where p: "p = (h, f)" by (cases p)
  show ?case
  proof (cases "length (hs_hypos st) < newSize \<and> ph_total h > hs_bestScore st + hs_beamWidth st")
    case False
    then have "filled (set A) newSize (p # ps) st 0 st" by (intro filled_stop) (simp add: p)
    moreover have "add_best ?cless newSize (p # ps) st = Inr st" using False unfolding p by (simp only: add_best.simps if_False)
    ultimately show ?thesis using Cons.prems(4) by blast
  next
    case go: True
    show ?thesis
    proof (cases f)
      case True
      have "\<exists>k st'. add_best ?cless newSize ps st = Inr st' \<and> recomb.ok_set (hs_hypos st') \<and> filled (set A) newSize ps st k st'"
        by (rule Cons.IH [OF Cons.prems(1)]) (use Cons.prems in auto)
      then obtain k st' where "add_best ?cless newSize ps st = Inr st'" "recomb.ok_set (hs_hypos st')" "filled (set A) newSize ps st k st'"
        by blast
      moreover from filled_skip [OF this(3)] have "filled (set A) newSize (p # ps) st (Suc k) st'" using go True p by simp
      moreover have "add_best ?cless newSize (p # ps) st = add_best ?cless newSize ps st" using go True p by simp
      ultimately show ?thesis by (metis (no_types))
    next
      case False
      have h: "h \<in> set A" "h \<notin> set (hs_hypos st)" using Cons.prems(2,6) p False by auto
      obtain S' where S': "set_insert ?cless h (hs_hypos st) = Inr (S', None)" "recomb.ok_set S'"
        "mset S' = add_mset h (mset (hs_hypos st))"
        using insert_other [OF Cons.prems(1,4,5) h] by auto
      have set_S': "set S' = insert h (set (hs_hypos st))" using S'(3) by (metis set_mset_add_mset_insert set_mset_mset)
      define st1 where "st1 = (if length S' = newSize then st\<lparr>hs_hypos := S', hs_worstScore := ph_total h\<rparr> else st\<lparr>hs_hypos := S'\<rparr>)"
      have step: "add_best ?cless newSize (p # ps) st = add_best ?cless newSize ps st1"
        using go False p S'(1) by (simp add: st1_def Let_def)
      have st1: "hs_hypos st1 = S'" "same_limits st st1" "hs_bestScore st1 = hs_bestScore st"
        "hs_worstScore st1 = hs_worstScore st \<or> hs_worstScore st1 = ph_total h"
        by (simp_all add: st1_def same_limits_def)
      have "\<exists>k st'. add_best ?cless newSize ps st1 = Inr st' \<and> recomb.ok_set (hs_hypos st') \<and> filled (set A) newSize ps st1 k st'"
      proof (rule Cons.IH [OF Cons.prems(1)])
        have "g \<noteq> h" if "(g, e) \<in> set ps" for g e using Cons.prems(3) p that by force
        moreover have "g \<notin> set (hs_hypos st)" if "(g, e) \<in> set ps" "\<not> e" for g e using Cons.prems(6) that by auto
        ultimately show "\<forall>(g, e) \<in> set ps. \<not> e \<longrightarrow> g \<notin> set (hs_hypos st1)" unfolding st1(1) set_S' by blast
        show "set (hs_hypos st1) \<subseteq> set A" using Cons.prems(5) set_S' st1(1) h(1) by simp
      qed (use Cons.prems(2,3) st1(1) S'(2) in simp_all)
      then obtain k st' where "add_best ?cless newSize ps st1 = Inr st'" "recomb.ok_set (hs_hypos st')" "filled (set A) newSize ps st1 k st'"
        by blast
      moreover from filled_add [OF this(3), where h = h and st = st] have "filled (set A) newSize (p # ps) st (Suc k) st'"
        using go h(1) S'(3) st1 False p by simp
      ultimately show ?thesis using step by (metis (no_types))
    qed
  qed
qed

end

section \<open>Pruning\<close>

text \<open>
  What pruning from st to st' promises: of the coverage of every hypothesis it drops, as many hypotheses that score no less
  are kept as the diversity demands, and the stack is full or the hypothesis is outside the beam; without
  diversity the stack has at most the new size, and what is dropped scores no more than what is kept.
\<close>

definition pruned_to :: "nat \<Rightarrow> 's hypo_stack \<Rightarrow> 's hypo_stack \<Rightarrow> bool" where
  "pruned_to newSize st st' \<longleftrightarrow> set (hs_hypos st') \<subseteq> set (hs_hypos st) \<and> same_limits st st' \<and> hs_bestScore st' = hs_bestScore st
     \<and> (hs_worstScore st' = hs_worstScore st \<or> (\<exists>h \<in> set (hs_hypos st). hs_worstScore st' = ph_total h))
     \<and> (\<forall>g \<in> set (hs_hypos st) - set (hs_hypos st').
          hs_minHypoStackDiversity st \<le> length (filter (\<lambda>h. hyp_id h = hyp_id g \<and> ph_total g \<le> ph_total h) (hs_hypos st'))
          \<and> (newSize \<le> length (hs_hypos st') \<or> ph_total g \<le> hs_bestScore st + hs_beamWidth st)
          \<and> (hs_minHypoStackDiversity st = 0 \<longrightarrow> (\<forall>h \<in> set (hs_hypos st'). ph_total g \<le> ph_total h)))
     \<and> (hs_minHypoStackDiversity st = 0 \<longrightarrow> length (hs_hypos st') \<le> newSize)"

lemma set_picked: "length flags = length hs \<Longrightarrow> h \<in> set (picked hs flags) \<longleftrightarrow> (\<exists>j < length hs. hs ! j = h \<and> flags ! j)"
  by (force simp: picked_def set_zip)

lemma picked_False [simp]: "picked hs (map (\<lambda>_. False) hs) = []"
  by (induction hs) auto

lemma map_fst_zip_flags: "length flags = length hs \<Longrightarrow> map fst (zip hs flags) = hs"
  by simp

text \<open>The positions of the sorted list that both passes keep.\<close>

lemma kept_same_coverage:
  assumes "distinct hs" "sorted_wrt (\<lambda>x y. ph_total y \<le> ph_total x) hs" "j < length hs" "\<not> kept_flags m (\<lambda>_. 0) hs ! j"
    and "distinct kept" "set (picked hs (kept_flags m (\<lambda>_. 0) hs)) \<subseteq> set kept"
  shows "m \<le> length (filter (\<lambda>h. hyp_id h = hyp_id (hs ! j) \<and> ph_total (hs ! j) \<le> ph_total h) kept)"
proof -
  let ?flags = "kept_flags m (\<lambda>_. 0) hs" and ?P = "\<lambda>h. hyp_id h = hyp_id (hs ! j) \<and> ph_total (hs ! j) \<le> ph_total h"
  define ps where "ps = filter (\<lambda>(h, f). f \<and> hyp_id h = hyp_id (hs ! j)) (take j (zip hs ?flags))"
  have "map fst ps = map fst (filter (\<lambda>(h, f). f \<and> hyp_id h = hyp_id (hs ! j)) (take j (zip hs ?flags)))" by (simp add: ps_def)
  moreover have "distinct (map fst (take j (zip hs ?flags)))" using assms(1) by (simp add: take_map [symmetric])
  ultimately have dist: "distinct (map fst ps)" by (simp add: distinct_map_filter)
  have "fst p \<in> set (filter ?P kept)" if p: "p \<in> set ps" for p
  proof -
    obtain i where i: "i < j" "fst p = hs ! i" "?flags ! i" "hyp_id (hs ! i) = hyp_id (hs ! j)"
      using p assms(3) by (auto simp: ps_def in_set_conv_nth)
    have "ph_total (hs ! j) \<le> ph_total (hs ! i)" using assms(2,3) i(1) by (auto simp: sorted_wrt_iff_nth_less)
    moreover have "hs ! i \<in> set kept" using assms(3,6) i(1,3) set_picked [of ?flags hs "hs ! i"] by auto
    ultimately show ?thesis using i by simp
  qed
  then have "set (map fst ps) \<subseteq> set (filter ?P kept)" by auto
  then have "card (set (map fst ps)) \<le> card (set (filter ?P kept))" by (intro card_mono) simp_all
  then have "length ps \<le> length (filter ?P kept)"
    using distinct_card [OF dist] distinct_card [of "filter ?P kept"] assms(5) by simp
  moreover have "m \<le> length ps" using kept_flags_excluded [OF assms(3,4)] by (simp add: ps_def)
  ultimately show ?thesis by simp
qed

lemma pruned_toI:
  fixes st st' :: "'s hypo_stack"
  defines "m \<equiv> hs_minHypoStackDiversity st" and "bound \<equiv> hs_bestScore st + hs_beamWidth st"
  assumes hs: "mset hs = mset (hs_hypos st)" "distinct hs" "sorted_wrt (\<lambda>x y. ph_total y \<le> ph_total x) hs"
    and st': "mset (hs_hypos st') = mset (picked hs (kept_flags m (\<lambda>_. 0) hs))
        + mset (map fst (filter (\<lambda>p. \<not> snd p) (take k (zip hs (kept_flags m (\<lambda>_. 0) hs)))))" "distinct (hs_hypos st')"
    and k: "k < length hs \<longrightarrow> newSize \<le> length (hs_hypos st') \<or> ph_total (hs ! k) \<le> bound"
    and len: "m = 0 \<longrightarrow> length (hs_hypos st') \<le> newSize"
    and rest: "same_limits st st'" "hs_bestScore st' = hs_bestScore st"
      "hs_worstScore st' = hs_worstScore st \<or> (\<exists>h \<in> set (hs_hypos st). hs_worstScore st' = ph_total h)"
  shows "pruned_to newSize st st'"
proof -
  let ?flags = "kept_flags m (\<lambda>_. 0) hs"
  have set_hs: "set hs = set (hs_hypos st)" using hs(1) by (metis set_mset_mset)
  have "set (hs_hypos st') = set (picked hs ?flags) \<union> set (map fst (filter (\<lambda>p. \<not> snd p) (take k (zip hs ?flags))))"
    using st'(1) by (metis set_mset_mset set_mset_union)
  moreover have "h \<in> set (map fst (filter (\<lambda>p. \<not> snd p) (take k (zip hs ?flags)))) \<longleftrightarrow> (\<exists>j < length hs. hs ! j = h \<and> \<not> ?flags ! j \<and> j < k)" for h
    by (force simp: in_set_conv_nth)
  ultimately have kept: "h \<in> set (hs_hypos st') \<longleftrightarrow> (\<exists>j < length hs. hs ! j = h \<and> (?flags ! j \<or> j < k))" for h
    using set_picked [of ?flags hs h] by auto
  have "hs_minHypoStackDiversity st \<le> length (filter (\<lambda>h. hyp_id h = hyp_id g \<and> ph_total g \<le> ph_total h) (hs_hypos st'))
      \<and> (newSize \<le> length (hs_hypos st') \<or> ph_total g \<le> bound) \<and> (m = 0 \<longrightarrow> (\<forall>h \<in> set (hs_hypos st'). ph_total g \<le> ph_total h))"
    if g: "g \<in> set (hs_hypos st)" "g \<notin> set (hs_hypos st')" for g
  proof -
    obtain j where j: "j < length hs" "hs ! j = g" using g(1) set_hs by (metis in_set_conv_nth)
    then have out: "\<not> ?flags ! j" "k \<le> j" using g(2) kept by (auto simp: not_less)
    have sorted: "ph_total g \<le> ph_total (hs ! i)" if "i \<le> j" for i
      using that j hs(3) by (cases "i = j") (auto simp: sorted_wrt_iff_nth_less)
    have "set (picked hs ?flags) \<subseteq> set (hs_hypos st')" using kept set_picked [of ?flags hs] by auto
    then have "m \<le> length (filter (\<lambda>h. hyp_id h = hyp_id g \<and> ph_total g \<le> ph_total h) (hs_hypos st'))"
      using kept_same_coverage [OF hs(2,3) j(1) out(1) st'(2)] j(2) by simp
    moreover have "newSize \<le> length (hs_hypos st') \<or> ph_total g \<le> bound" using k j(1) out(2) sorted [OF out(2)] by auto
    moreover have "\<forall>h \<in> set (hs_hypos st'). ph_total g \<le> ph_total h" if "m = 0" using kept that sorted out(2) by auto
    ultimately show ?thesis by (simp add: m_def)
  qed
  moreover have "h \<in> set (hs_hypos st)" if mem: "h \<in> set (hs_hypos st')" for h
  proof -
    obtain j where j: "j < length hs" "hs ! j = h" using mem kept [of h] by auto
    show ?thesis using nth_mem [OF j(1)] j(2) set_hs by simp
  qed
  ultimately show ?thesis using rest len unfolding pruned_to_def m_def bound_def subset_iff by blast
qed

text \<open>A best hypothesis stays, when the new size is not 0 and the beam is below 0.\<close>

lemma pruned_to_best:
  assumes "pruned_to newSize st st'" "b \<in> set (hs_hypos st)" "ph_total b = hs_bestScore st" "hs_bestScore st = Fin x"
    and "0 < newSize" "hs_beamWidth st < Fin 0"
  shows "\<exists>h \<in> set (hs_hypos st'). hs_bestScore st \<le> ph_total h"
proof (cases "b \<in> set (hs_hypos st')")
  case False
  let ?same = "filter (\<lambda>h. hyp_id h = hyp_id b \<and> ph_total b \<le> ph_total h) (hs_hypos st')"
  have dropped: "hs_minHypoStackDiversity st \<le> length ?same" "newSize \<le> length (hs_hypos st') \<or> ph_total b \<le> hs_bestScore st + hs_beamWidth st"
    "hs_minHypoStackDiversity st = 0 \<longrightarrow> (\<forall>h \<in> set (hs_hypos st'). ph_total b \<le> ph_total h)"
    using assms(1,2) False unfolding pruned_to_def by blast+
  have "\<not> ph_total b \<le> hs_bestScore st + hs_beamWidth st" using assms(3,4,6) by (cases "hs_beamWidth st") auto
  then have "hs_hypos st' \<noteq> []" using dropped(2) assms(5) by auto
  show ?thesis
  proof (cases "hs_minHypoStackDiversity st = 0")
    case True
    then show ?thesis using dropped(3) \<open>hs_hypos st' \<noteq> []\<close> assms(3) by (metis last_in_set)
  next
    case False
    then have "0 < length ?same" using dropped(1) by linarith
    then obtain h where "h \<in> set ?same" by (metis length_greater_0_conv last_in_set)
    then show ?thesis using assms(3) by auto
  qed
qed (intro bexI [of _ b], simp_all add: assms(3))

definition ids_ok :: "nat \<Rightarrow> 's pb_hypo list \<Rightarrow> bool" where
  "ids_ok m hs \<longleftrightarrow> m = 0 \<or> (\<forall>h \<in> set hs. \<exists>i. GetID (ph_completed h) = Inr i)"

lemma pruned_to_refl: "length (hs_hypos st) \<le> newSize \<Longrightarrow> pruned_to newSize st st"
  by (simp add: pruned_to_def)


context pb_order
begin

lemma GetSortedList_sorted:
  "mset (GetSortedList sel st) = mset (hs_hypos st)" "sorted_wrt (\<lambda>x y. ph_total y \<le> ph_total x) (GetSortedList sel st)"
  using sel_sorted [of ph_total "length (hs_hypos st)" "hs_hypos st"] by (simp_all add: GetSortedList_def sel_mset)

lemma PruneToSize_spec:
  assumes ok: "recomb.ok_set (hs_hypos st)" and ids: "ids_ok (hs_minHypoStackDiversity st) (hs_hypos st)"
  shows "\<exists>st'. hs_PruneToSize (HypothesisRecombinationOrderer cmp diff) sel newSize st = Inr st'
    \<and> recomb.ok_set (hs_hypos st') \<and> pruned_to newSize st st'"
proof (cases "length (hs_hypos st) \<le> newSize")
  case True
  then show ?thesis using ok by (simp add: hs_PruneToSize_def pruned_to_refl)
next
  case False
  let ?cless = "HypothesisRecombinationOrderer cmp diff" and ?m = "hs_minHypoStackDiversity st" and ?st0 = "st\<lparr>hs_hypos := []\<rparr>"
  define hs where "hs = GetSortedList sel st"
  define flags where "flags = kept_flags ?m (\<lambda>_. 0) hs"
  have hs: "mset hs = mset (hs_hypos st)" "sorted_wrt (\<lambda>x y. ph_total y \<le> ph_total x) hs" by (simp_all add: hs_def GetSortedList_sorted)
  have set_hs: "set hs = set (hs_hypos st)" using hs(1) by (metis set_mset_mset)
  have dist: "distinct hs" using recomb.ok_set_distinct [OF ok] hs(1) by (metis mset_eq_imp_distinct_iff)
  have "\<exists>c st1. (if ?m > 0 then rfold (diversity_step ?cless) hs ([], \<lambda>_. 0, ?st0) else Inr (map (\<lambda>_. False) hs, \<lambda>_. 0, ?st0)) = Inr (flags, c, st1)
      \<and> recomb.ok_set (hs_hypos st1) \<and> mset (hs_hypos st1) = mset (picked hs flags) \<and> same_limits st st1
      \<and> hs_bestScore st1 = hs_bestScore st \<and> hs_worstScore st1 = hs_worstScore st"
  proof (cases "?m > 0")
    case True
    have "\<exists>c' st'. rfold (diversity_step ?cless) hs ([], \<lambda>_. 0, ?st0) = Inr ([] @ kept_flags (hs_minHypoStackDiversity ?st0) (\<lambda>_. 0) hs, c', st')
      \<and> recomb.ok_set (hs_hypos st') \<and> mset (hs_hypos st') = mset (hs_hypos ?st0) + mset (picked hs (kept_flags (hs_minHypoStackDiversity ?st0) (\<lambda>_. 0) hs))
      \<and> same_limits ?st0 st' \<and> hs_bestScore st' = hs_bestScore ?st0 \<and> hs_worstScore st' = hs_worstScore ?st0"
      by (rule diversity_pass [OF ok]) (use set_hs dist ids True in \<open>auto simp: ids_ok_def\<close>)
    then show ?thesis using True by (auto simp: flags_def same_limits_def)
  qed (simp add: flags_def same_limits_def)
  then obtain c st1 where st1: "(if ?m > 0 then rfold (diversity_step ?cless) hs ([], \<lambda>_. 0, ?st0) else Inr (map (\<lambda>_. False) hs, \<lambda>_. 0, ?st0)) = Inr (flags, c, st1)"
      "recomb.ok_set (hs_hypos st1)" "mset (hs_hypos st1) = mset (picked hs flags)" "same_limits st st1"
      "hs_bestScore st1 = hs_bestScore st" "hs_worstScore st1 = hs_worstScore st" by blast
  have len: "?m = 0 \<longrightarrow> hs_hypos st1 = []" using st1(3) by (auto simp: flags_def)
  show ?thesis
  proof (cases "length (hs_hypos st1) < newSize")
    case less: True
    have set_st1: "set (hs_hypos st1) = set (picked hs flags)" using st1(3) by (metis set_mset_mset)
    have "\<exists>k st'. add_best ?cless newSize (zip hs flags) st1 = Inr st' \<and> recomb.ok_set (hs_hypos st') \<and> filled (set (hs_hypos st)) newSize (zip hs flags) st1 k st'"
    proof (rule add_best_pass [OF ok])
      show "\<forall>(h, f) \<in> set (zip hs flags). \<not> f \<longrightarrow> h \<notin> set (hs_hypos st1)"
        using set_picked [of flags hs] dist by (auto simp: set_st1 set_zip flags_def nth_eq_iff_index_eq)
      show "set (hs_hypos st1) \<subseteq> set (hs_hypos st)" using set_picked [of flags hs] nth_mem by (auto simp: set_st1 set_hs [symmetric] flags_def)
    qed (use set_hs dist st1(2) in \<open>simp_all add: flags_def\<close>)
    then obtain k st' where st': "add_best ?cless newSize (zip hs flags) st1 = Inr st'" "recomb.ok_set (hs_hypos st')"
      and f: "filled (set (hs_hypos st)) newSize (zip hs flags) st1 k st'" by blast
    have "hs_beamWidth st1 = hs_beamWidth st" using st1(4) by (simp add: same_limits_def)
    then have "pruned_to newSize st st'"
      using f st1(3,5,6) same_limits_trans [OF st1(4)] recomb.ok_set_distinct [OF st'(2)] len less
      by (intro pruned_toI [OF hs(1) dist hs(2), where k = k]) (auto simp: filled_def flags_def)
    then show ?thesis using False st1(1) st' less by (auto simp: hs_PruneToSize_def hs_def [symmetric])
  next
    case full: False
    then have "pruned_to newSize st st1"
      using st1(3-6) recomb.ok_set_distinct [OF st1(2)] len
      by (intro pruned_toI [OF hs(1) dist hs(2), where k = 0]) (auto simp: flags_def)
    then show ?thesis using False st1(1,2) full by (auto simp: hs_PruneToSize_def hs_def [symmetric])
  qed
qed

end

section \<open>Adding hypotheses\<close>

text \<open>The amount of the shift in the tolerated size is defined.\<close>

definition shift_ok :: "int \<Rightarrow> 's hypo_stack \<Rightarrow> bool" where
  "shift_ok maxDistortion st \<longleftrightarrow> hs_minHypoStackDiversity st = 0 \<or> 0 \<le> maxDistortion \<and> maxDistortion < 64"

lemma tolerated_size_ok: "shift_ok d st \<Longrightarrow> \<exists>t. tolerated_size d st = Inr t"
  by (auto simp: shift_ok_def tolerated_size_def Let_def)

lemma tolerated_size_limits: "same_limits st st' \<Longrightarrow> tolerated_size d st' = tolerated_size d st"
  unfolding tolerated_size_def same_limits_def by (elim conjE) (simp only:)

lemma shift_ok_limits: "same_limits st st' \<Longrightarrow> shift_ok d st' = shift_ok d st"
  by (simp add: shift_ok_def same_limits_def)

text \<open>A hypothesis without its arcs.\<close>

abbreviation bare :: "'s pb_hypo \<Rightarrow> 's pb_hypo" where
  "bare \<equiv> pb_with_arcs None"

lemma bare_AddArc [simp]: "bare (pb_AddArc h g) = bare h"
  by (simp add: pb_AddArc_def Let_def)

lemma bare_eqD:
  assumes "bare h = bare g"
  shows "ph_total h = ph_total g" "ph_completed h = ph_completed g" "ph_states h = ph_states g"
  using assms pb_with_arcs_simps by metis+

text \<open>The predecessors of a hypothesis and of the hypotheses it has been recombined with, and those of a stack.\<close>

definition prevs :: "'s pb_hypo \<Rightarrow> 's pb_hypo set" where
  "prevs h = set_option (ph_prev h) \<union> \<Union> ((\<lambda>g. set_option (ph_prev g)) ` (case ph_arcs h of None \<Rightarrow> {} | Some arcs \<Rightarrow> set arcs))"

definition stack_prevs :: "'s hypo_stack \<Rightarrow> 's pb_hypo set" where
  "stack_prevs st = \<Union> (prevs ` set (hs_hypos st))"

lemma prevs_AddArc: "prevs (pb_AddArc h g) \<subseteq> prevs h \<union> prevs g"
  by (cases h; cases g) (auto simp: prevs_def pb_AddArc_def Let_def split: option.splits)

lemma stack_prevs_mono: "set (hs_hypos st') \<subseteq> set (hs_hypos st) \<Longrightarrow> stack_prevs st' \<subseteq> stack_prevs st"
  by (auto simp: stack_prevs_def)

lemma stack_prevs_insert: "set (hs_hypos st') \<subseteq> insert h (set (hs_hypos st)) \<Longrightarrow> stack_prevs st' \<subseteq> prevs h \<union> stack_prevs st"
  by (auto simp: stack_prevs_def)

text \<open>The hypotheses offered to a stack one after the other.\<close>

definition hs_Adds :: "('s pb_hypo \<Rightarrow> 's pb_hypo \<Rightarrow> bool result) \<Rightarrow> 's pb_hypo select \<Rightarrow> int \<Rightarrow> bool \<Rightarrow> 's pb_hypo list \<Rightarrow> 's hypo_stack
    \<Rightarrow> 's hypo_stack result" where
  "hs_Adds cless sel maxDistortion disable = rfold (\<lambda>h st. rbind (hs_AddPrune cless sel maxDistortion disable h st) (\<lambda>(_, st'). Inr st'))"

lemma fold_max_Max:
  fixes f :: "'a \<Rightarrow> score"
  assumes "xs \<noteq> []"
  shows "fold (\<lambda>x b. max b (f x)) xs NegInf = Max (f ` set xs)"
proof -
  have "fold (\<lambda>x b. max b (f x)) ys b = Max (insert b (f ` set ys))" for ys b
  proof -
    have "fold (\<lambda>x b. max b (f x)) ys b = fold max (map f ys) b"
      by (simp add: fold_map) (intro arg_cong [where f = "\<lambda>g. fold g ys b"] ext, simp add: max.commute)
    also have "\<dots> = Max (insert b (f ` set ys))" using Max.set_eq_fold [of b "map f ys"] by simp
    finally show ?thesis .
  qed
  then show ?thesis using assms by (simp add: max_absorb2)
qed

context pb_order
begin

text \<open>The scores of a stack bound its hypotheses, and its best hypothesis is there.\<close>

definition bounded :: "'s hypo_stack \<Rightarrow> bool" where
  "bounded st \<longleftrightarrow> recomb.ok_set (hs_hypos st) \<and> (\<forall>h \<in> set (hs_hypos st). ph_total h \<le> hs_bestScore st)
     \<and> hs_worstScore st \<le> hs_bestScore st \<and> hs_beamWidth st < Fin 0 \<and> 0 < hs_maxHypoStackSize st
     \<and> ids_ok (hs_minHypoStackDiversity st) (hs_hypos st)"

definition wf_stack :: "'s hypo_stack \<Rightarrow> bool" where
  "wf_stack st \<longleftrightarrow> bounded st \<and> (if hs_hypos st = [] then hs_bestScore st = NegInf \<and> hs_worstScore st = NegInf
     else \<exists>h \<in> set (hs_hypos st). ph_total h = hs_bestScore st)"

lemma bounded_finite: "bounded st \<Longrightarrow> h \<in> set (hs_hypos st) \<Longrightarrow> \<exists>x. ph_total h = Fin x"
  using recomb.ok_set_ok [of "hs_hypos st" h] by (auto simp: bounded_def ok_pb_def)

lemma PruneToSize_bounded:
  assumes "bounded st" "b \<in> set (hs_hypos st)" "ph_total b = hs_bestScore st" "0 < newSize"
  shows "\<exists>st'. hs_PruneToSize (HypothesisRecombinationOrderer cmp diff) sel newSize st = Inr st' \<and> wf_stack st'
    \<and> pruned_to newSize st st' \<and> hs_hypos st' \<noteq> []"
proof -
  obtain st' where st': "hs_PruneToSize (HypothesisRecombinationOrderer cmp diff) sel newSize st = Inr st'"
    "recomb.ok_set (hs_hypos st')" "pruned_to newSize st st'"
    using PruneToSize_spec [of st newSize] assms(1) by (auto simp: bounded_def)
  obtain x where "hs_bestScore st = Fin x" using bounded_finite [OF assms(1,2)] assms(3) by auto
  from pruned_to_best [OF st'(3) assms(2,3) this assms(4)] assms(1)
  obtain h where h: "h \<in> set (hs_hypos st')" "hs_bestScore st \<le> ph_total h" by (auto simp: bounded_def)
  have sub: "set (hs_hypos st') \<subseteq> set (hs_hypos st)" "same_limits st st'" "hs_bestScore st' = hs_bestScore st"
    "hs_worstScore st' = hs_worstScore st \<or> (\<exists>h \<in> set (hs_hypos st). hs_worstScore st' = ph_total h)"
    using st'(3) by (simp_all add: pruned_to_def)
  then have "bounded st'" using assms(1) st'(2) by (auto simp: bounded_def same_limits_def ids_ok_def)
  moreover have "ph_total h = hs_bestScore st'" using h sub(1,3) assms(1) by (auto simp: bounded_def intro: antisym)
  ultimately show ?thesis using st' h(1) by (auto simp: wf_stack_def)
qed

lemma update_diversity_ok:
  assumes "ids_ok (hs_minHypoStackDiversity st) [h]"
  shows "\<exists>st'. update_diversity h st = Inr st' \<and> hs_hypos st' = hs_hypos st \<and> hs_bestScore st' = hs_bestScore st
    \<and> hs_worstScore st' = hs_worstScore st \<and> same_limits st st'"
  using assms
  by (auto simp: update_diversity_def ids_ok_def bitmap_GetWorstScore_def SetWorstScoreForBitmap_def same_limits_def)

text \<open>A hypothesis that no other one on the stack is equal to.\<close>

lemma Add_new:
  assumes st: "bounded st" and h: "ok_pb n shape h" "\<forall>y \<in> set (hs_hypos st). \<not> recomb.eqv h y"
    and best: "(\<exists>g \<in> set (hs_hypos st). ph_total g = hs_bestScore st) \<or> hs_bestScore st < ph_total h"
    and ids: "ids_ok (hs_minHypoStackDiversity st) [h]" "shift_ok d st"
  shows "\<exists>st'. hs_Add (HypothesisRecombinationOrderer cmp diff) sel d h st = Inr (st', None) \<and> wf_stack st' \<and> hs_hypos st' \<noteq> []
    \<and> hs_bestScore st' = max (hs_bestScore st) (ph_total h) \<and> same_limits st st' \<and> set (hs_hypos st') \<subseteq> insert h (set (hs_hypos st))
    \<and> (\<forall>t. tolerated_size d st = Inr t \<longrightarrow> length (hs_hypos st) < t \<longrightarrow> set (hs_hypos st') = insert h (set (hs_hypos st)))"
proof -
  let ?cless = "HypothesisRecombinationOrderer cmp diff"
  obtain S where S: "set_insert ?cless h (hs_hypos st) = Inr (S, None)" "recomb.ok_set S" "mset S = add_mset h (mset (hs_hypos st))"
    using recomb.set_insert_new [of "hs_hypos st" h] st h by (auto simp: bounded_def)
  have set_S: "set S = insert h (set (hs_hypos st))" using S(3) by (metis set_mset_add_mset_insert set_mset_mset)
  have len_S: "length S = Suc (length (hs_hypos st))" using S(3) by (metis size_add_mset size_mset)
  define st1 where "st1 = update_scores h (st\<lparr>hs_hypos := S\<rparr>)"
  have beam: "hs_beamWidth st < Fin 0" using st by (simp add: bounded_def)
  obtain x where x: "ph_total h = Fin x" using h(1) by (auto simp: ok_pb_def)
  have bound: "ph_total h + hs_beamWidth st \<le> ph_total h" using beam x by (cases "hs_beamWidth st") auto
  have st1: "hs_hypos st1 = S" "hs_bestScore st1 = max (hs_bestScore st) (ph_total h)" "same_limits st st1"
    by (auto simp: st1_def update_scores_def Let_def same_limits_def max_def)
  have worst: "hs_worstScore st1 \<le> hs_bestScore st1"
    using st bound by (auto simp: st1_def update_scores_def Let_def bounded_def intro: order_trans)
  obtain st2 where st2: "update_diversity h st1 = Inr st2" "hs_hypos st2 = S" "hs_bestScore st2 = hs_bestScore st1"
    "hs_worstScore st2 = hs_worstScore st1" "same_limits st1 st2"
    using update_diversity_ok [of st1 h] ids(1) st1(1,3) by (auto simp: same_limits_def)
  have lim: "same_limits st st2" using same_limits_trans [OF st1(3) st2(5)] .
  have "\<forall>g \<in> set S. ph_total g \<le> hs_bestScore st2" using st by (auto simp: set_S st2(3) st1(2) bounded_def max.coboundedI1)
  then have b2: "bounded st2"
    using st S(2) worst lim ids(1) by (auto simp: bounded_def st2(2,3,4) same_limits_def ids_ok_def set_S)
  have "\<exists>b \<in> set S. ph_total b = hs_bestScore st2"
  proof (cases "hs_bestScore st < ph_total h")
    case True
    then show ?thesis by (intro bexI [of _ h]) (simp_all add: st2(3) st1(2) set_S max_absorb2 less_imp_le)
  next
    case False
    then obtain g where "g \<in> set (hs_hypos st)" "ph_total g = hs_bestScore st" using best by auto
    then show ?thesis using False by (intro bexI [of _ g]) (simp_all add: st2(3) st1(2) set_S max_def)
  qed
  then obtain b where b: "b \<in> set (hs_hypos st2)" "ph_total b = hs_bestScore st2" using st2(2) by auto
  have wf2: "wf_stack st2" using b2 b st2(2) len_S by (auto simp: wf_stack_def)
  obtain t where t: "tolerated_size d st = Inr t" using tolerated_size_ok [OF ids(2)] by blast
  have t2: "tolerated_size d st2 = Inr t" using t tolerated_size_limits [OF lim] by simp
  have add: "hs_Add ?cless sel d h st = rbind (if length S > t then hs_PruneToSize ?cless sel (hs_maxHypoStackSize st2) st2 else Inr st2) (\<lambda>st'. Inr (st', None))"
    using S(1) st2(1,2) t2 by (simp add: hs_Add_def st1_def [symmetric])
  show ?thesis
  proof (cases "length S > t")
    case True
    have "0 < hs_maxHypoStackSize st2" using b2 by (simp add: bounded_def)
    from PruneToSize_bounded [OF b2 b this]
    obtain st' where st': "hs_PruneToSize ?cless sel (hs_maxHypoStackSize st2) st2 = Inr st'" "wf_stack st'"
      "pruned_to (hs_maxHypoStackSize st2) st2 st'" "hs_hypos st' \<noteq> []" by blast
    have "same_limits st st'" using same_limits_trans [OF lim] st'(3) by (simp add: pruned_to_def)
    then show ?thesis
      using add True st' t len_S by (intro exI [of _ st']) (auto simp: pruned_to_def st2(2,3) st1(2) set_S)
  next
    case False
    then show ?thesis using add wf2 lim t len_S by (intro exI [of _ st2]) (auto simp: st2(2,3) st1(2) set_S)
  qed
qed

lemma before_arcs [simp]:
  "before (pb_with_arcs a x) y = before x y" "before x (pb_with_arcs a y) = before x y"
  "before (pb_AddArc x z) y = before x y" "before x (pb_AddArc y z) = before x y"
  by (simp_all add: before_def)

lemma eqv_arcs [simp]:
  "recomb.eqv (pb_with_arcs a x) y = recomb.eqv x y" "recomb.eqv x (pb_with_arcs a y) = recomb.eqv x y"
  "recomb.eqv (pb_AddArc x z) y = recomb.eqv x y" "recomb.eqv x (pb_AddArc y z) = recomb.eqv x y"
  by (simp_all add: recomb.eqv_def)

lemma ok_set_map:
  assumes "\<And>x. ph_completed (f x) = ph_completed x \<and> ph_states (f x) = ph_states x \<and> ph_total (f x) = ph_total x"
  shows "recomb.ok_set (map f xs) = recomb.ok_set xs"
proof -
  have "(\<lambda>x y. before (f x) (f y)) = before" using assms by (intro ext) (simp add: before_def)
  moreover have "list_all (ok_pb n shape) (map f xs) = list_all (ok_pb n shape) xs" using assms by (simp add: list_all_iff ok_pb_def)
  ultimately show ?thesis by (simp only: recomb.ok_set_def sorted_wrt_map)
qed

lemma Add_existing:
  "bounded st \<Longrightarrow> ok_pb n shape h \<Longrightarrow> e \<in> set (hs_hypos st) \<Longrightarrow> recomb.eqv h e \<Longrightarrow>
     hs_Add (HypothesisRecombinationOrderer cmp diff) sel d h st = Inr (st, Some e)"
  using recomb.set_insert_existing [of "hs_hypos st" h e] by (simp add: hs_Add_def bounded_def)

text \<open>Every hypothesis of the first list has an equal one in the second that scores no less.\<close>

definition covered_by :: "'s pb_hypo set \<Rightarrow> 's pb_hypo list \<Rightarrow> bool" where
  "covered_by H hs \<longleftrightarrow> (\<forall>x \<in> H. \<exists>y \<in> set hs. recomb.eqv x y \<and> ph_total x \<le> ph_total y)"

text \<open>What one call of AddPrune promises.\<close>

definition added :: "int \<Rightarrow> bool \<Rightarrow> 's pb_hypo \<Rightarrow> 's hypo_stack \<Rightarrow> 's hypo_stack \<Rightarrow> bool" where
  "added d disable h st st' \<longleftrightarrow> wf_stack st' \<and> hs_hypos st' \<noteq> [] \<and> hs_bestScore st' = max (hs_bestScore st) (ph_total h)
     \<and> same_limits st st' \<and> bare ` set (hs_hypos st') \<subseteq> insert (bare h) (bare ` set (hs_hypos st))
     \<and> stack_prevs st' \<subseteq> prevs h \<union> stack_prevs st
     \<and> (\<forall>t. disable \<longrightarrow> tolerated_size d st = Inr t \<longrightarrow> length (hs_hypos st) < t \<longrightarrow>
          covered_by (insert h (set (hs_hypos st))) (hs_hypos st') \<and> length (hs_hypos st') \<le> Suc (length (hs_hypos st)))"

lemma AddPrune_better:
  assumes st: "wf_stack st" and h: "ok_pb n shape h" and ids: "ids_ok (hs_minHypoStackDiversity st) [h]" "shift_ok d st"
    and e: "e \<in> set (hs_hypos st)" "recomb.eqv h e" "ph_total e < ph_total h" and h': "bare h' = bare h" "prevs h' \<subseteq> prevs h \<union> prevs e"
  shows "\<exists>st'. hs_Add (HypothesisRecombinationOrderer cmp diff) sel d h' (hs_Detach e st) = Inr (st', None) \<and> added d disable h st st'"
proof -
  let ?st = "hs_Detach e st"
  have b: "bounded st" "recomb.ok_set (hs_hypos st)" using st by (simp_all add: wf_stack_def bounded_def)
  have dist: "distinct (hs_hypos st)" using b(2) by (rule recomb.ok_set_distinct)
  have hypos: "set (hs_hypos ?st) = set (hs_hypos st) - {e}" using dist by (simp add: hs_Detach_def)
  have b': "bounded ?st" using b recomb.ok_set_remove1 [OF b(2)] hypos by (auto simp: bounded_def hs_Detach_def ids_ok_def)
  have same: "hs_bestScore ?st = hs_bestScore st" "same_limits st ?st" by (simp_all add: hs_Detach_def same_limits_def)
  note h'_eq = bare_eqD [OF h'(1)]
  have ok': "ok_pb n shape h'" using h h'_eq by (simp add: ok_pb_def)
  have eqv': "recomb.eqv h' y = recomb.eqv h y" for y using h'_eq by (simp add: recomb.eqv_def before_def)
  have other: "\<forall>y \<in> set (hs_hypos ?st). \<not> recomb.eqv h' y"
  proof
    fix y
    assume y: "y \<in> set (hs_hypos ?st)"
    show "\<not> recomb.eqv h' y"
    proof
      assume "recomb.eqv h' y"
      then have "recomb.eqv y e"
        using recomb.eqv_trans [of y h e] eqv' e(1,2) h y hypos recomb.ok_set_ok [OF b(2)] by (auto simp: recomb.eqv_sym)
      then show False using recomb.ok_set_eqv [OF b(2), of y e] y hypos e(1) by auto
    qed
  qed
  obtain g where g: "g \<in> set (hs_hypos st)" "ph_total g = hs_bestScore st"
    using st e(1) by (auto simp: wf_stack_def split: if_splits)
  then have pre: "(\<exists>g \<in> set (hs_hypos ?st). ph_total g = hs_bestScore ?st) \<or> hs_bestScore ?st < ph_total h'"
    using e(3) h'_eq(1) hypos same(1) by (cases "g = e") auto
  have limits: "ids_ok (hs_minHypoStackDiversity ?st) [h']" "shift_ok d ?st"
    using ids h'_eq(2) shift_ok_limits [OF same(2)] by (simp_all add: ids_ok_def hs_Detach_def)
  obtain st' where st': "hs_Add (HypothesisRecombinationOrderer cmp diff) sel d h' ?st = Inr (st', None)" "wf_stack st'" "hs_hypos st' \<noteq> []"
      "hs_bestScore st' = max (hs_bestScore st) (ph_total h)" "same_limits ?st st'" "set (hs_hypos st') \<subseteq> insert h' (set (hs_hypos ?st))"
      "\<forall>t. tolerated_size d ?st = Inr t \<longrightarrow> length (hs_hypos ?st) < t \<longrightarrow> set (hs_hypos st') = insert h' (set (hs_hypos ?st))"
    using Add_new [OF b' ok' other pre limits] unfolding h'_eq(1) same(1) by blast
  have len: "length (hs_hypos ?st) < length (hs_hypos st)"
    using e(1) length_pos_if_in_set [OF e(1)] by (simp add: hs_Detach_def length_remove1)
  have "covered_by (insert h (set (hs_hypos st))) (hs_hypos st') \<and> length (hs_hypos st') \<le> Suc (length (hs_hypos st))"
    if "tolerated_size d st = Inr t" "length (hs_hypos st) < t" for t
  proof
    have set': "set (hs_hypos st') = insert h' (set (hs_hypos st) - {e})"
      using st'(7) that len hypos tolerated_size_limits [OF same(2), of d] by auto
    have "\<exists>y \<in> set (hs_hypos st'). recomb.eqv x y \<and> ph_total x \<le> ph_total y" if "x \<in> insert h (set (hs_hypos st))" for x
    proof (cases "x = h \<or> x = e")
      case True
      then have "recomb.eqv x h'" "ph_total x \<le> ph_total h'"
        using e(2,3) h h'_eq(1) eqv' [of x] by (auto simp: recomb.eqv_sym)
      then show ?thesis using set' by auto
    next
      case False
      then have "x \<in> set (hs_hypos st')" "ok_pb n shape x" using that set' recomb.ok_set_ok [OF b(2)] by auto
      then show ?thesis by (intro bexI [of _ x]) simp_all
    qed
    then show "covered_by (insert h (set (hs_hypos st))) (hs_hypos st')" by (simp add: covered_by_def)
    have "distinct (hs_hypos st')" using st'(2) by (intro recomb.ok_set_distinct) (simp add: wf_stack_def bounded_def)
    then have "length (hs_hypos st') = card (insert h' (set (hs_hypos st) - {e}))" using set' by (metis distinct_card)
    also have "\<dots> \<le> Suc (card (set (hs_hypos st) - {e}))" by (rule card_insert_le_m1) simp_all
    also have "\<dots> \<le> Suc (length (hs_hypos st))" using card_mono [of "set (hs_hypos st)" "set (hs_hypos st) - {e}"] dist by (simp add: distinct_card)
    finally show "length (hs_hypos st') \<le> Suc (length (hs_hypos st))" .
  qed
  moreover have "bare ` set (hs_hypos st') \<subseteq> insert (bare h) (bare ` set (hs_hypos st))" using st'(6) hypos h'(1) by auto
  moreover have "stack_prevs st' \<subseteq> prevs h \<union> stack_prevs st"
    using stack_prevs_insert [OF st'(6)] h'(2) e(1) hypos by (auto simp: stack_prevs_def)
  ultimately show ?thesis using st' same_limits_trans [OF same(2) st'(5)] by (auto simp: added_def)
qed

lemma added_stay:
  assumes "wf_stack st" "hs_hypos st \<noteq> []" "ph_total h \<le> hs_bestScore st" "\<not> disable \<or> (\<exists>e \<in> set (hs_hypos st). recomb.eqv h e \<and> ph_total h \<le> ph_total e)"
    and "wf_stack st'" "map bare (hs_hypos st') = map bare (hs_hypos st)" "same_limits st st'" "hs_bestScore st' = hs_bestScore st"
    and "stack_prevs st' \<subseteq> prevs h \<union> stack_prevs st"
  shows "added d disable h st st'"
proof -
  have set_eq: "bare ` set (hs_hypos st') = bare ` set (hs_hypos st)" by (metis assms(6) set_map)
  have covered: "covered_by (insert h (set (hs_hypos st))) (hs_hypos st')" if d: disable
  proof -
    have "\<exists>y \<in> set (hs_hypos st). recomb.eqv x y \<and> ph_total x \<le> ph_total y" if "x \<in> insert h (set (hs_hypos st))" for x
    proof (cases "x = h")
      case False
      then have "x \<in> set (hs_hypos st)" "ok_pb n shape x" using that assms(1) recomb.ok_set_ok by (auto simp: wf_stack_def bounded_def)
      then show ?thesis by (intro bexI [of _ x]) simp_all
    qed (use assms(4) d in auto)
    moreover have "\<exists>z \<in> set (hs_hypos st'). bare z = bare y" if "y \<in> set (hs_hypos st)" for y using set_eq that by (metis imageE imageI)
    ultimately show ?thesis unfolding covered_by_def by (metis bare_eqD(1) eqv_arcs(2))
  qed
  have "length (hs_hypos st') = length (hs_hypos st)" using assms(6) by (metis length_map)
  moreover have "hs_hypos st' \<noteq> []" using calculation assms(2) by auto
  ultimately show ?thesis using assms(3,5,7-9) set_eq covered by (auto simp: added_def max_absorb1)
qed

lemma AddPrune_new:
  assumes st: "wf_stack st" and h: "ok_pb n shape h" and ids: "ids_ok (hs_minHypoStackDiversity st) [h]" "shift_ok d st"
    and no: "\<forall>e \<in> set (hs_hypos st). \<not> recomb.eqv h e"
  shows "\<exists>st'. hs_Add (HypothesisRecombinationOrderer cmp diff) sel d h st = Inr (st', None) \<and> added d disable h st st'"
proof -
  have "(\<exists>g \<in> set (hs_hypos st). ph_total g = hs_bestScore st) \<or> hs_bestScore st < ph_total h"
    using st h by (auto simp: wf_stack_def ok_pb_def split: if_splits)
  from Add_new [OF _ h no this ids] st
  obtain st' where st': "hs_Add (HypothesisRecombinationOrderer cmp diff) sel d h st = Inr (st', None)" "wf_stack st'" "hs_hypos st' \<noteq> []"
    "hs_bestScore st' = max (hs_bestScore st) (ph_total h)" "same_limits st st'" "set (hs_hypos st') \<subseteq> insert h (set (hs_hypos st))"
    "\<forall>t. tolerated_size d st = Inr t \<longrightarrow> length (hs_hypos st) < t \<longrightarrow> set (hs_hypos st') = insert h (set (hs_hypos st))"
    unfolding wf_stack_def by blast
  have ok': "recomb.ok_set (hs_hypos st')" using st'(2) by (simp add: wf_stack_def bounded_def)
  have "length (hs_hypos st') \<le> card (insert h (set (hs_hypos st)))"
    using st'(6) recomb.ok_set_distinct [OF ok'] card_mono [of "insert h (set (hs_hypos st))" "set (hs_hypos st')"] by (simp add: distinct_card)
  also have "\<dots> \<le> Suc (length (hs_hypos st))" using card_length [of "hs_hypos st"] by (simp add: card_insert_if)
  finally have "length (hs_hypos st') \<le> Suc (length (hs_hypos st))" .
  moreover have "covered_by (insert h (set (hs_hypos st))) (hs_hypos st')" if "tolerated_size d st = Inr t" "length (hs_hypos st) < t" for t
  proof -
    have "set (hs_hypos st') = insert h (set (hs_hypos st))" using st'(7) that by blast
    moreover have "recomb.eqv x x" if "x \<in> set (hs_hypos st')" for x using recomb.ok_set_ok [OF ok' that] by simp
    ultimately show ?thesis unfolding covered_by_def by (metis order_refl)
  qed
  moreover have "bare ` set (hs_hypos st') \<subseteq> insert (bare h) (bare ` set (hs_hypos st))" using st'(6) by auto
  moreover have "stack_prevs st' \<subseteq> prevs h \<union> stack_prevs st" by (rule stack_prevs_insert [OF st'(6)])
  ultimately show ?thesis using st' by (auto simp: added_def)
qed

lemma AddPrune_worse:
  assumes st: "wf_stack st" and e: "e \<in> set (hs_hypos st)" "recomb.eqv h e" "ph_total h \<le> ph_total e"
  shows "added d disable h st (if hs_nBestIsEnabled st
    then st\<lparr>hs_hypos := map (\<lambda>g. if g = e then pb_AddArc g h else g) (hs_hypos st)\<rparr> else st)" (is "added d disable h st ?st")
proof -
  define f where "f = (\<lambda>g. if g = e then pb_AddArc g h else g)"
  have f: "bare (f g) = bare g" "ph_completed (f g) = ph_completed g \<and> ph_states (f g) = ph_states g \<and> ph_total (f g) = ph_total g" for g
    by (simp_all add: f_def)
  have "wf_stack ?st"
    using st ok_set_map [of f "hs_hypos st"] f(2) by (auto simp: f_def [symmetric] wf_stack_def bounded_def ids_ok_def)
  moreover have "map bare (hs_hypos ?st) = map bare (hs_hypos st)" "same_limits st ?st" "hs_bestScore ?st = hs_bestScore st"
    by (simp_all add: f_def [symmetric] f(1) same_limits_def)
  moreover have "ph_total h \<le> hs_bestScore st" "hs_hypos st \<noteq> []"
    using e st by (auto simp: wf_stack_def bounded_def intro: order_trans)
  moreover have "stack_prevs ?st \<subseteq> prevs h \<union> stack_prevs st"
  proof -
    have "prevs (f g) \<subseteq> prevs h \<union> prevs g" for g using prevs_AddArc [of g h] by (auto simp: f_def)
    then have "\<Union> (prevs ` f ` A) \<subseteq> prevs h \<union> \<Union> (prevs ` A)" for A by blast
    then show ?thesis by (simp add: f_def [symmetric] stack_prevs_def)
  qed
  ultimately show ?thesis using st e by (intro added_stay) blast+
qed

lemma AddPrune_spec:
  assumes st: "wf_stack st" and h: "ok_pb n shape h" and ids: "ids_ok (hs_minHypoStackDiversity st) [h]" "shift_ok d st"
  shows "\<exists>b st'. hs_AddPrune (HypothesisRecombinationOrderer cmp diff) sel d disable h st = Inr (b, st') \<and> added d disable h st st'"
proof -
  let ?cless = "HypothesisRecombinationOrderer cmp diff"
  have b: "bounded st" using st by (simp add: wf_stack_def)
  have "\<exists>bad. too_bad disable h st = Inr bad"
    using ids(1) by (auto simp: too_bad_def ids_ok_def bitmap_GetWorstScore_def split: if_splits)
  then obtain bad where bad: "too_bad disable h st = Inr bad" by blast
  show ?thesis
  proof (cases bad)
    case True
    then have less: "\<not> disable" "ph_total h < hs_worstScore st"
      using bad by (auto simp: too_bad_def split: if_splits)
    then have "hs_hypos st \<noteq> []" using st by (auto simp: wf_stack_def split: if_splits)
    moreover have "ph_total h \<le> hs_bestScore st" using less(2) b by (auto simp: bounded_def)
    ultimately have "added d disable h st st" using less(1) st by (intro added_stay) simp_all
    then show ?thesis using True bad by (intro exI [of _ False] exI [of _ st]) (simp add: hs_AddPrune_def)
  next
    case False
    show ?thesis
    proof (cases "\<exists>e \<in> set (hs_hypos st). recomb.eqv h e")
      case no: False
      then obtain st' where "hs_Add ?cless sel d h st = Inr (st', None)" "added d disable h st st'"
        using AddPrune_new [OF st h ids, of disable] by blast
      then show ?thesis using False bad by (intro exI [of _ True] exI [of _ st']) (simp add: hs_AddPrune_def)
    next
      case True
      then obtain e where e: "e \<in> set (hs_hypos st)" "recomb.eqv h e" by blast
      have add: "hs_Add ?cless sel d h st = Inr (st, Some e)" by (rule Add_existing [OF b h e])
      show ?thesis
      proof (cases "ph_total e < ph_total h")
        case True
        have "bare (if hs_nBestIsEnabled st then pb_AddArc h e else h) = bare h"
          "prevs (if hs_nBestIsEnabled st then pb_AddArc h e else h) \<subseteq> prevs h \<union> prevs e" using prevs_AddArc [of h e] by auto
        from AddPrune_better [OF st h ids e True this, of disable]
        obtain st' where "hs_Add ?cless sel d (if hs_nBestIsEnabled st then pb_AddArc h e else h) (hs_Detach e st) = Inr (st', None)"
          "added d disable h st st'" by blast
        then show ?thesis using add True False bad by (intro exI [of _ False] exI [of _ st']) (simp add: hs_AddPrune_def)
      next
        case worse: False
        then have le: "ph_total h \<le> ph_total e" by simp
        let ?st' = "if hs_nBestIsEnabled st then st\<lparr>hs_hypos := map (\<lambda>g. if g = e then pb_AddArc g h else g) (hs_hypos st)\<rparr> else st"
        have "hs_AddPrune ?cless sel d disable h st = Inr (False, ?st')" using add False bad worse by (simp add: hs_AddPrune_def)
        then show ?thesis using AddPrune_worse [OF st e le, of d disable] by blast
      qed
    qed
  qed
qed

text \<open>A sequence of additions.\<close>

lemma covered_by_trans:
  assumes "covered_by H hs" "covered_by (set hs) hs'" "recomb.ok_set hs" "recomb.ok_set hs'" "\<forall>x \<in> H. ok_pb n shape x"
  shows "covered_by H hs'"
  unfolding covered_by_def
proof
  fix x
  assume x: "x \<in> H"
  obtain y where y: "y \<in> set hs" "recomb.eqv x y" "ph_total x \<le> ph_total y" using assms(1) x by (auto simp: covered_by_def)
  obtain z where z: "z \<in> set hs'" "recomb.eqv y z" "ph_total y \<le> ph_total z" using assms(2) y(1) by (auto simp: covered_by_def)
  have "recomb.eqv x z"
    using recomb.eqv_trans [OF _ _ _ y(2) z(2)] x y(1) z(1) assms(3-5) recomb.ok_set_ok by blast
  then show "\<exists>z \<in> set hs'. recomb.eqv x z \<and> ph_total x \<le> ph_total z"
    using z(1,3) y(3) order_trans by blast
qed

lemma wf_ok_set: "wf_stack st \<Longrightarrow> recomb.ok_set (hs_hypos st)"
  by (simp add: wf_stack_def bounded_def)

lemma Adds_spec:
  assumes "wf_stack st" "\<forall>h \<in> set hs. ok_pb n shape h" "ids_ok (hs_minHypoStackDiversity st) hs" "shift_ok d st"
  shows "\<exists>st'. hs_Adds (HypothesisRecombinationOrderer cmp diff) sel d disable hs st = Inr st' \<and> wf_stack st' \<and> same_limits st st'
    \<and> hs_bestScore st' = fold (\<lambda>h b. max b (ph_total h)) hs (hs_bestScore st) \<and> (hs \<noteq> [] \<longrightarrow> hs_hypos st' \<noteq> [])
    \<and> bare ` set (hs_hypos st') \<subseteq> bare ` (set hs \<union> set (hs_hypos st))
    \<and> (\<forall>t. disable \<longrightarrow> tolerated_size d st = Inr t \<longrightarrow> length (hs_hypos st) + length hs \<le> t \<longrightarrow>
          covered_by (set hs \<union> set (hs_hypos st)) (hs_hypos st'))"
  using assms
proof (induction hs arbitrary: st)
  case Nil
  have "covered_by (set (hs_hypos st)) (hs_hypos st)"
    unfolding covered_by_def using recomb.ok_set_ok [OF wf_ok_set [OF Nil(1)]] by (metis order_refl recomb.eqv_refl)
  then show ?case using Nil(1) by (auto simp: hs_Adds_def)
next
  case (Cons h hs)
  let ?cless = "HypothesisRecombinationOrderer cmp diff"
  have ids: "ids_ok (hs_minHypoStackDiversity st) [h]" using Cons.prems(3) by (auto simp: ids_ok_def)
  obtain b st1 where st1: "hs_AddPrune ?cless sel d disable h st = Inr (b, st1)" "added d disable h st st1"
    using AddPrune_spec [OF Cons.prems(1) _ ids Cons.prems(4), of disable] Cons.prems(2) by auto
  have a: "wf_stack st1" "hs_hypos st1 \<noteq> []" "hs_bestScore st1 = max (hs_bestScore st) (ph_total h)" "same_limits st st1"
    "bare ` set (hs_hypos st1) \<subseteq> insert (bare h) (bare ` set (hs_hypos st))"
    "\<forall>t. disable \<longrightarrow> tolerated_size d st = Inr t \<longrightarrow> length (hs_hypos st) < t \<longrightarrow>
          covered_by (insert h (set (hs_hypos st))) (hs_hypos st1) \<and> length (hs_hypos st1) \<le> Suc (length (hs_hypos st))"
    using st1(2) unfolding added_def by blast+
  have pre: "ids_ok (hs_minHypoStackDiversity st1) hs" "shift_ok d st1"
    using Cons.prems(3,4) a(4) shift_ok_limits [OF a(4)] by (auto simp: ids_ok_def same_limits_def)
  from Cons.IH [OF a(1) _ pre] Cons.prems(2)
  obtain st' where st': "hs_Adds ?cless sel d disable hs st1 = Inr st'" "wf_stack st'" "same_limits st1 st'"
    "hs_bestScore st' = fold (\<lambda>h b. max b (ph_total h)) hs (hs_bestScore st1)" "hs \<noteq> [] \<longrightarrow> hs_hypos st' \<noteq> []"
    "bare ` set (hs_hypos st') \<subseteq> bare ` (set hs \<union> set (hs_hypos st1))"
    "\<forall>t. disable \<longrightarrow> tolerated_size d st1 = Inr t \<longrightarrow> length (hs_hypos st1) + length hs \<le> t \<longrightarrow>
          covered_by (set hs \<union> set (hs_hypos st1)) (hs_hypos st')" by auto
  have run: "hs_Adds ?cless sel d disable (h # hs) st = Inr st'" using st1(1) st'(1) by (simp add: hs_Adds_def)
  have "hs_hypos st' \<noteq> []" using st'(1,5) a(2) by (cases hs) (simp_all add: hs_Adds_def)
  moreover have "bare ` set (hs_hypos st') \<subseteq> bare ` (set (h # hs) \<union> set (hs_hypos st))" using st'(6) a(5) by auto
  moreover have "covered_by (set (h # hs) \<union> set (hs_hypos st)) (hs_hypos st')"
    if t: disable "tolerated_size d st = Inr t" "length (hs_hypos st) + length (h # hs) \<le> t" for t
  proof -
    have c1: "covered_by (insert h (set (hs_hypos st))) (hs_hypos st1)" "length (hs_hypos st1) \<le> Suc (length (hs_hypos st))"
      using a(6) t by auto
    have c2: "covered_by (set hs \<union> set (hs_hypos st1)) (hs_hypos st')"
      using st'(7) t c1(2) tolerated_size_limits [OF a(4), of d] by auto
    have "\<forall>x \<in> insert h (set (hs_hypos st)). ok_pb n shape x"
      using Cons.prems(2) recomb.ok_set_ok [OF wf_ok_set [OF Cons.prems(1)]] by auto
    moreover have "covered_by (set (hs_hypos st1)) (hs_hypos st')" using c2 by (simp add: covered_by_def)
    ultimately have "covered_by (insert h (set (hs_hypos st))) (hs_hypos st')"
      using covered_by_trans [OF c1(1) _ wf_ok_set [OF a(1)] wf_ok_set [OF st'(2)]] by blast
    then show ?thesis using c2 by (auto simp: covered_by_def)
  qed
  ultimately show ?case
    using run st'(2,4) same_limits_trans [OF a(4) st'(3)] a(3) by (intro exI [of _ st']) simp
qed

text \<open>What the invariant says of the comparator and of the best hypothesis.\<close>

lemma ok_set_orderer:
  assumes "recomb.ok_set hs"
  shows "sorted_wrt (\<lambda>x y. HypothesisRecombinationOrderer cmp diff x y = Inr True) hs"
proof -
  have "sorted_wrt before hs" using assms by (simp add: recomb.ok_set_def)
  then show ?thesis
    by (rule sorted_wrt_mono_rel [rotated]) (use recomb.less_ok recomb.ok_set_ok [OF assms] in auto)
qed

lemma eqv_orderer:
  "ok_pb n shape x \<Longrightarrow> ok_pb n shape y \<Longrightarrow> recomb.eqv x y \<longleftrightarrow>
     HypothesisRecombinationOrderer cmp diff x y = Inr False \<and> HypothesisRecombinationOrderer cmp diff y x = Inr False"
  by (simp add: recomb.eqv_def recomb.less_ok)

lemma wf_HypothesisStackNormal:
  "w < Fin 0 \<Longrightarrow> 0 < k \<Longrightarrow> wf_stack (HypothesisStackNormal k m w nb)"
  by (simp add: HypothesisStackNormal_def wf_stack_def bounded_def ids_ok_def)

lemma Adds_result:
  assumes "\<forall>h \<in> set hs. ok_pb n shape h" "hs \<noteq> []" "w < Fin 0" "0 < k"
    and "m = 0 \<or> (\<forall>h \<in> set hs. \<exists>i. GetID (ph_completed h) = Inr i) \<and> 0 \<le> d \<and> d < 64"
  shows "\<exists>st. hs_Adds (HypothesisRecombinationOrderer cmp diff) sel d disable hs (HypothesisStackNormal k m w nBest) = Inr st
    \<and> sorted_wrt (\<lambda>x y. HypothesisRecombinationOrderer cmp diff x y = Inr True) (hs_hypos st)
    \<and> bare ` set (hs_hypos st) \<subseteq> bare ` set hs
    \<and> hs_bestScore st = Max (ph_total ` set hs) \<and> hs_bestScore st \<in> ph_total ` set (hs_hypos st)
    \<and> (disable \<and> (\<forall>t. tolerated_size d st = Inr t \<longrightarrow> length hs \<le> t) \<longrightarrow>
        (\<forall>h \<in> set hs. \<exists>g \<in> set (hs_hypos st). HypothesisRecombinationOrderer cmp diff h g = Inr False
           \<and> HypothesisRecombinationOrderer cmp diff g h = Inr False \<and> ph_total h \<le> ph_total g))"
proof -
  let ?st0 = "HypothesisStackNormal k m w nBest :: 's hypo_stack"
  have st0: "hs_hypos ?st0 = []" "hs_bestScore ?st0 = NegInf" "hs_minHypoStackDiversity ?st0 = m"
    by (simp_all add: HypothesisStackNormal_def)
  have pre: "ids_ok (hs_minHypoStackDiversity ?st0) hs" "shift_ok d ?st0" using assms(5) by (auto simp: ids_ok_def shift_ok_def st0)
  obtain st where st: "hs_Adds (HypothesisRecombinationOrderer cmp diff) sel d disable hs ?st0 = Inr st"
    "wf_stack st" "same_limits ?st0 st" "hs_bestScore st = fold (\<lambda>h b. max b (ph_total h)) hs (hs_bestScore ?st0)"
    "hs \<noteq> [] \<longrightarrow> hs_hypos st \<noteq> []" "bare ` set (hs_hypos st) \<subseteq> bare ` (set hs \<union> set (hs_hypos ?st0))"
    "\<forall>t. disable \<longrightarrow> tolerated_size d ?st0 = Inr t \<longrightarrow> length (hs_hypos ?st0) + length hs \<le> t \<longrightarrow>
       covered_by (set hs \<union> set (hs_hypos ?st0)) (hs_hypos st)"
    using Adds_spec [OF wf_HypothesisStackNormal [OF assms(3,4)] assms(1) pre, of disable] by blast
  then have best: "hs_bestScore st = Max (ph_total ` set hs)" "hs_hypos st \<noteq> []" and sub: "bare ` set (hs_hypos st) \<subseteq> bare ` set hs"
    using assms(2) by (simp_all add: st0 fold_max_Max)
  have "hs_bestScore st \<in> ph_total ` set (hs_hypos st)"
    using st(2) best(2) by (auto simp: wf_stack_def split: if_splits) (metis imageI)
  moreover have "\<forall>h \<in> set hs. \<exists>g \<in> set (hs_hypos st). HypothesisRecombinationOrderer cmp diff h g = Inr False
           \<and> HypothesisRecombinationOrderer cmp diff g h = Inr False \<and> ph_total h \<le> ph_total g"
    if d: "disable \<and> (\<forall>t. tolerated_size d st = Inr t \<longrightarrow> length hs \<le> t)"
  proof -
    obtain t where "tolerated_size d ?st0 = Inr t" using tolerated_size_ok [OF pre(2)] by blast
    then have "covered_by (set hs) (hs_hypos st)" using st(7) d tolerated_size_limits [OF st(3), of d] by (simp add: st0)
    then show ?thesis unfolding covered_by_def using eqv_orderer assms(1) recomb.ok_set_ok [OF wf_ok_set [OF st(2)]] by meson
  qed
  ultimately show ?thesis
    using st(1) best(1) sub ok_set_orderer [OF wf_ok_set [OF st(2)]] by (intro exI [of _ st]) simp
qed

lemma ok_setI:
  assumes "list_all (ok_pb n shape) hs" "sorted_wrt (\<lambda>x y. HypothesisRecombinationOrderer cmp diff x y = Inr True) hs"
  shows "recomb.ok_set hs"
proof -
  have "sorted_wrt before hs"
    by (rule sorted_wrt_mono_rel [rotated, OF assms(2)]) (use assms(1) recomb.less_ok in \<open>auto simp: list_all_iff\<close>)
  then show ?thesis using assms(1) by (simp add: recomb.ok_set_def)
qed

end

section \<open>Properties\<close>

lemma pb_orderI: "total_compare cmp \<Longrightarrow> partial_sorting sel \<Longrightarrow> diff None None = 0 \<Longrightarrow> pb_order cmp sel diff"
  by (simp add: pb_order_def pb_order_axioms_def)

interpretation distortion_order: pb_order Distortion_Compare sort_select "\<lambda>_ _. 0" n shape for n shape
  by unfold_locales simp

text \<open>
  C14. AddPrune, called for any hypotheses in turn, ends. No two hypotheses on the stack are recombinable; each is one of the
  offered ones up to its arcs; a hypothesis with the best score of all is on the stack, whatever the limits of the stack
  are; and when nothing is discarded and the offers fit in, every offer has a hypothesis on the stack that it is recombined with and that
  scores no less.
\<close>

theorem AddPrune_keeps_best:
  assumes "total_compare cmp" "partial_sorting sel" "diff None None = 0"
    and "\<forall>h \<in> set hs. ok_pb n shape h" "hs \<noteq> []" "w < Fin 0" "0 < k"
    and "m = 0 \<or> (\<forall>h \<in> set hs. \<exists>i. GetID (ph_completed h) = Inr i) \<and> 0 \<le> d \<and> d < 64"
  shows "\<exists>st. hs_Adds (HypothesisRecombinationOrderer cmp diff) sel d disable hs (HypothesisStackNormal k m w nBest) = Inr st
    \<and> sorted_wrt (\<lambda>x y. HypothesisRecombinationOrderer cmp diff x y = Inr True) (hs_hypos st)
    \<and> bare ` set (hs_hypos st) \<subseteq> bare ` set hs
    \<and> hs_bestScore st = Max (ph_total ` set hs) \<and> hs_bestScore st \<in> ph_total ` set (hs_hypos st)
    \<and> (disable \<and> (\<forall>t. tolerated_size d st = Inr t \<longrightarrow> length hs \<le> t) \<longrightarrow>
        (\<forall>h \<in> set hs. \<exists>g \<in> set (hs_hypos st). HypothesisRecombinationOrderer cmp diff h g = Inr False
           \<and> HypothesisRecombinationOrderer cmp diff g h = Inr False \<and> ph_total h \<le> ph_total g))"
  using pb_order.Adds_result [OF pb_orderI [where diff = diff, OF assms(1-3)] assms(4-8)] .

text \<open>
  C32. Pruning a stack to a size: of the coverage of every hypothesis it drops, as many hypotheses that score no
  less are kept as the stack diversity demands, and it drops nothing above the beam while there is room. Without diversity the
  stack ends within the size with the best hypotheses; then a beam of width 0 (beam-threshold 1) leaves nothing at all of
  a stack that is over the size, because the best hypothesis is not above its own score.
\<close>

theorem stack_PruneToSize_keeps:
  assumes "total_compare cmp" "partial_sorting sel" "diff None None = 0"
    and "list_all (ok_pb n shape) (hs_hypos st)"
    and "sorted_wrt (\<lambda>x y. HypothesisRecombinationOrderer cmp diff x y = Inr True) (hs_hypos st)"
    and "ids_ok (hs_minHypoStackDiversity st) (hs_hypos st)"
  shows "\<exists>st'. hs_PruneToSize (HypothesisRecombinationOrderer cmp diff) sel newSize st = Inr st' \<and> pruned_to newSize st st'
    \<and> (hs_minHypoStackDiversity st = 0 \<and> newSize < length (hs_hypos st) \<and> hs_beamWidth st = Fin 0
         \<and> (\<forall>h \<in> set (hs_hypos st). ph_total h \<le> hs_bestScore st) \<longrightarrow> hs_hypos st' = [])"
proof -
  note loc = pb_orderI [of cmp sel diff, OF assms(1-3)]
  obtain st' where st': "hs_PruneToSize (HypothesisRecombinationOrderer cmp diff) sel newSize st = Inr st'" "pruned_to newSize st st'"
    using pb_order.PruneToSize_spec [OF loc pb_order.ok_setI [OF loc assms(4,5)] assms(6)] by blast
  have "hs_hypos st' = []"
    if m: "hs_minHypoStackDiversity st = 0" "newSize < length (hs_hypos st)" "hs_beamWidth st = Fin 0"
      "\<forall>h \<in> set (hs_hypos st). ph_total h \<le> hs_bestScore st"
  proof -
    define hs where "hs = GetSortedList sel st"
    have set_hs: "set hs = set (hs_hypos st)"
      using pb_order.GetSortedList_sorted(1) [OF loc, of st] by (metis hs_def set_mset_mset)
    have "ph_total h \<le> hs_bestScore st + hs_beamWidth st" if "h \<in> set hs" for h
      using m(3,4) that set_hs by (cases "hs_bestScore st") auto
    then have "add_best (HypothesisRecombinationOrderer cmp diff) newSize (zip hs (map (\<lambda>_. False) hs)) (st\<lparr>hs_hypos := []\<rparr>)
        = Inr (st\<lparr>hs_hypos := []\<rparr>)"
      by (cases hs) (simp_all add: not_less [symmetric])
    then show ?thesis using st'(1) m(1,2) by (auto simp: hs_PruneToSize_def hs_def Let_def split: if_splits)
  qed
  then show ?thesis using st' by (intro exI [of _ st']) simp
qed

section \<open>Witnesses\<close>

text \<open>Hypotheses for the second word of two; the state is the last span.\<close>

definition ex_pb_hypo :: "nat \<Rightarrow> nat \<Rightarrow> real \<Rightarrow> distortion_state pb_hypo" where
  "ex_pb_hypo i pos x = PbHypo i None \<lparr>tp_ptr = 0, tp_words = [], tp_futureScore = Fin 0, tp_breakdown = [], tp_align = [],
       tp_lhs = \<lparr>w_factors = [], w_isNonTerminal = False\<rparr>\<rparr> \<lparr>wb_size = 2, wb_bitmap = [pos = 0, pos = 1]\<rparr>
     (WordsRange pos pos) (WordsRange 0 0) False (Fin x) (Fin 0) [] [Some \<lparr>ds_range = WordsRange pos pos, ds_first_gap = 0\<rparr>] None None None"

definition ex_offers :: "distortion_state pb_hypo list" where
  "ex_offers = [ex_pb_hypo 1 0 (-3), ex_pb_hypo 2 1 (-5), ex_pb_hypo 3 0 (-1)]"

abbreviation ex_orderer :: "distortion_state pb_hypo \<Rightarrow> distortion_state pb_hypo \<Rightarrow> bool result" where
  "ex_orderer \<equiv> HypothesisRecombinationOrderer Distortion_Compare (\<lambda>_ _. 0)"

lemma ex_offers_ok: "\<forall>h \<in> set ex_offers. ok_pb 2 [False] h"
  by (simp add: ex_offers_def ex_pb_hypo_def ok_pb_def wf_bitmap_def)

lemma example_sort: "partial_sorting (sort_select :: 'a select)"
  by unfold_locales

theorem AddPrune_keeps_best_witness:
  "\<exists>st. hs_Adds ex_orderer sort_select 6 True ex_offers (HypothesisStackNormal 2 0 (Fin (-10)) False) = Inr st
    \<and> hs_bestScore st = Fin (-1) \<and> hs_bestScore st \<in> ph_total ` set (hs_hypos st)"
proof -
  have "Max (ph_total ` set ex_offers) = Fin (-1)"
    by (rule Max_eqI) (auto simp: ex_offers_def ex_pb_hypo_def)
  moreover have "ex_offers \<noteq> []" by (simp add: ex_offers_def)
  ultimately show ?thesis
    using AddPrune_keeps_best [OF distortion_states.total_compare_axioms example_sort, of "\<lambda>_ _. 0" ex_offers 2 "[False]" "Fin (-10)" 2 0 6 True False]
      ex_offers_ok by auto
qed

definition ex_stack :: "distortion_state hypo_stack" where
  "ex_stack = (HypothesisStackNormal 1 0 (Fin 0) False)\<lparr>hs_hypos := [ex_pb_hypo 2 1 (-5), ex_pb_hypo 1 0 (-3)], hs_bestScore := Fin (-3)\<rparr>"

theorem stack_PruneToSize_keeps_witness:
  "\<exists>st'. hs_PruneToSize ex_orderer sort_select 1 ex_stack = Inr st' \<and> hs_hypos st' = []"
proof -
  have "list_all (ok_pb 2 [False]) (hs_hypos ex_stack)" "sorted_wrt (\<lambda>x y. ex_orderer x y = Inr True) (hs_hypos ex_stack)"
    "ids_ok (hs_minHypoStackDiversity ex_stack) (hs_hypos ex_stack)"
    by (simp_all add: ex_stack_def ex_pb_hypo_def ok_pb_def wf_bitmap_def HypothesisStackNormal_def ids_ok_def
        HypothesisRecombinationOrderer_def pb_RecombineCompare_def Compare_def Let_def)
  from stack_PruneToSize_keeps [OF distortion_states.total_compare_axioms example_sort _ this, of 1]
  show ?thesis by (auto simp: ex_stack_def ex_pb_hypo_def HypothesisStackNormal_def)
qed

end
