(* ===== verification/StackArcs.thy ===== *)
theory StackArcs
  imports StackProps
begin

text \<open>
  The arcs of a stack (theory HypoStacks): recombination keeps the loser as an arc of the winner. No hypothesis offered to a stack
  is on it twice, as a hypothesis or as an arc, and no arc scores more than its winner, whatever is pruned.
\<close>

section \<open>The hypotheses and arcs of a list\<close>

definition arc_list :: "'s pb_hypo \<Rightarrow> 's pb_hypo list" where
  "arc_list h = (case ph_arcs h of None \<Rightarrow> [] | Some arcs \<Rightarrow> arcs)"

text \<open>A hypothesis without its arcs and its winner, which are set later.\<close>

definition core :: "'s pb_hypo \<Rightarrow> 's pb_hypo" where
  "core h = bare (pb_SetWinningHypo None h)"

definition edges_of :: "'s pb_hypo \<Rightarrow> 's pb_hypo multiset" where
  "edges_of h = mset (map core (h # arc_list h))"

definition edge_mset :: "'s pb_hypo list \<Rightarrow> 's pb_hypo multiset" where
  "edge_mset hs = (\<Sum>h \<in># mset hs. edges_of h)"

definition arcs_ok :: "'s pb_hypo list \<Rightarrow> bool" where
  "arcs_ok hs \<longleftrightarrow> (\<forall>h \<in> set hs. \<forall>a \<in> set (arc_list h). ph_total a \<le> ph_total h \<and> ph_arcs a = None)"

lemma core_simps [simp]:
  "core (pb_with_arcs a h) = core h" "core (pb_SetWinningHypo w h) = core h" "core (core h) = core h"
  "ph_id (core h) = ph_id h" "ph_prev (core h) = ph_prev h" "ph_total (core h) = ph_total h" "ph_breakdown (core h) = ph_breakdown h"
  by (cases h; simp add: core_def)+

lemma core_AddArc [simp]: "core (pb_AddArc h g) = core h"
  by (simp add: pb_AddArc_def Let_def)

lemma arc_list_AddArc [simp]: "arc_list (pb_AddArc h g) = arc_list h @ arc_list g @ [bare g]"
  by (simp add: pb_AddArc_def arc_list_def Let_def split: option.split)

lemma edges_of_AddArc: "edges_of (pb_AddArc h g) = edges_of h + edges_of g"
  by (simp add: edges_of_def)

lemma edges_of_bare: "ph_arcs h = None \<Longrightarrow> edges_of h = {#core h#}"
  by (simp add: edges_of_def arc_list_def)

lemma edge_mset_Cons: "edge_mset (h # hs) = edges_of h + edge_mset hs"
  by (simp add: edge_mset_def)

lemma edge_mset_Nil [simp]: "edge_mset [] = {#}"
  by (simp add: edge_mset_def)

lemma edge_mset_mono: "mset hs \<subseteq># mset hs' \<Longrightarrow> edge_mset hs \<subseteq># edge_mset hs'"
  unfolding edge_mset_def by (auto simp: mset_subset_eq_exists_conv)

lemma core_in_edges: "h \<in> set hs \<Longrightarrow> e \<in> set (h # arc_list h) \<Longrightarrow> core e \<in># edge_mset hs"
  by (induction hs) (auto simp: edge_mset_Cons edges_of_def)

lemma arcs_ok_subset: "arcs_ok hs \<Longrightarrow> set hs' \<subseteq> set hs \<Longrightarrow> arcs_ok hs'"
  by (auto simp: arcs_ok_def)

lemma arcs_ok_AddArc:
  assumes "arcs_ok hs" "ph_total g \<le> ph_total h" "arcs_ok [h]" "arcs_ok [g]"
  shows "arcs_ok [pb_AddArc h g]"
  using assms by (auto simp: arcs_ok_def)

section \<open>Sets and pruning\<close>

lemma set_insert_some: "set_insert cless x xs = Inr (xs', Some e) \<Longrightarrow> xs' = xs \<and> e \<in> set xs"
  by (induction xs arbitrary: xs') (auto simp: rbind_eq_Inr split: if_splits)

lemma set_insert_none: "set_insert cless x xs = Inr (xs', None) \<Longrightarrow> mset xs' = add_mset x (mset xs)"
  by (induction xs arbitrary: xs') (auto simp: rbind_eq_Inr split: if_splits)

lemma set_insert_sub: "set_insert cless x xs = Inr (xs', e) \<Longrightarrow> mset xs' \<subseteq># add_mset x (mset xs)"
  by (cases e) (auto dest: set_insert_some set_insert_none)

lemma diversity_step_sub:
  assumes "diversity_step cless h (inc, c, st) = Inr (inc', c', st')"
  shows "\<exists>b. inc' = inc @ [b] \<and> mset (hs_hypos st') \<subseteq># mset (hs_hypos st) + (if b then {#h#} else {#})"
proof -
  obtain i where i: "(if c i < hs_minHypoStackDiversity st
       then rbind (set_insert cless h (hs_hypos st)) (\<lambda>(hypos, _).
              let st' = st\<lparr>hs_hypos := hypos\<rparr>; n = c i + 1 in
              Inr (inc @ [True], c(i := n), if n = hs_minHypoStackDiversity st then SetWorstScoreForBitmap i (ph_total h) st' else st'))
       else Inr (inc @ [False], c, st)) = Inr (inc', c', st')"
    using assms by (auto simp: diversity_step_def rbind_eq_Inr simp del: if_split)
  show ?thesis
  proof (cases "c i < hs_minHypoStackDiversity st")
    case True
    then obtain hypos e where "set_insert cless h (hs_hypos st) = Inr (hypos, e)" "inc' = inc @ [True]" "hs_hypos st' = hypos"
      using i by (cases "c i + 1 = hs_minHypoStackDiversity st") (auto simp: rbind_eq_Inr Let_def SetWorstScoreForBitmap_def)
    then show ?thesis by (intro exI [of _ True]) (auto dest: set_insert_sub)
  qed (use i in \<open>intro exI [of _ False], simp\<close>)
qed

lemma diversity_sub:
  assumes "rfold (diversity_step cless) hs (inc, c, st) = Inr (inc', c', st')"
  shows "\<exists>flags. inc' = inc @ flags \<and> length flags = length hs \<and> mset (hs_hypos st') \<subseteq># mset (hs_hypos st) + mset (picked hs flags)"
  using assms
proof (induction hs arbitrary: inc c st)
  case (Cons h hs)
  obtain inc1 c1 st1 where s1: "diversity_step cless h (inc, c, st) = Inr (inc1, c1, st1)" "rfold (diversity_step cless) hs (inc1, c1, st1) = Inr (inc', c', st')"
    using Cons.prems by (auto simp: rbind_eq_Inr)
  obtain flags where f: "inc' = inc1 @ flags" "length flags = length hs" "mset (hs_hypos st') \<subseteq># mset (hs_hypos st1) + mset (picked hs flags)"
    using Cons.IH [OF s1(2)] by blast
  obtain b where b: "inc1 = inc @ [b]" "mset (hs_hypos st1) \<subseteq># mset (hs_hypos st) + (if b then {#h#} else {#})"
    using diversity_step_sub [OF s1(1)] by blast
  have "mset (hs_hypos st') \<subseteq># (mset (hs_hypos st) + (if b then {#h#} else {#})) + mset (picked hs flags)"
    using f(3) b(2) by (meson subset_mset.order_trans subset_mset.add_right_mono)
  then show ?case using f(1,2) b(1) by (intro exI [of _ "b # flags"]) (simp split: if_splits)
qed (simp add: picked_def)

lemma add_best_sub:
  assumes "add_best cless k ps st = Inr st'"
  shows "mset (hs_hypos st') \<subseteq># mset (hs_hypos st) + mset (map fst (filter (\<lambda>p. \<not> snd p) ps))"
  using assms
proof (induction ps arbitrary: st)
  case (Cons p ps)
  obtain h inc where p: "p = (h, inc)" by (cases p)
  show ?case
  proof (cases "length (hs_hypos st) < k \<and> ph_total h > hs_bestScore st + hs_beamWidth st")
    case go: True
    show ?thesis
    proof (cases inc)
      case True
      then show ?thesis using go Cons p by simp
    next
      case False
      then obtain hypos e where s: "set_insert cless h (hs_hypos st) = Inr (hypos, e)"
        and rest: "add_best cless k ps (if length hypos = k then st\<lparr>hs_hypos := hypos, hs_worstScore := ph_total h\<rparr> else st\<lparr>hs_hypos := hypos\<rparr>) = Inr st'"
        using go Cons.prems p by (auto simp: rbind_eq_Inr Let_def simp del: if_split)
      have "mset (hs_hypos st') \<subseteq># mset hypos + mset (map fst (filter (\<lambda>p. \<not> snd p) ps))"
        using Cons.IH [OF rest] by (simp split: if_splits)
      moreover have "mset hypos \<subseteq># add_mset h (mset (hs_hypos st))" by (rule set_insert_sub [OF s])
      ultimately have "mset (hs_hypos st') \<subseteq># add_mset h (mset (hs_hypos st)) + mset (map fst (filter (\<lambda>p. \<not> snd p) ps))"
        by (meson subset_mset.order_trans subset_mset.add_right_mono)
      then show ?thesis using False p by simp
    qed
  next
    case False
    then have "st' = st" using Cons.prems p by auto
    then show ?thesis by simp
  qed
qed simp

lemma picked_all: "length flags = length hs \<Longrightarrow> mset (picked hs flags) + mset (map fst (filter (\<lambda>p. \<not> snd p) (zip hs flags))) = mset hs"
proof -
  assume "length flags = length hs"
  then have "mset (map fst (zip hs flags)) = mset hs" by simp
  moreover have "mset (map fst (zip hs flags)) = mset (map fst (filter snd (zip hs flags))) + mset (map fst (filter (\<lambda>p. \<not> snd p) (zip hs flags)))"
    by (metis image_mset_union mset_filter mset_map multiset_partition)
  ultimately show ?thesis by (simp add: picked_def)
qed

lemma PruneToSize_sub:
  assumes "hs_PruneToSize cless sel k st = Inr st'" and sel: "\<And>key m xs. mset (sel key m xs) = mset xs"
  shows "mset (hs_hypos st') \<subseteq># mset (hs_hypos st)"
proof (cases "length (hs_hypos st) \<le> k")
  case False
  define hs where "hs = GetSortedList sel st"
  have hs: "mset hs = mset (hs_hypos st)" by (simp add: hs_def GetSortedList_def sel)
  obtain flags c st1 where st1: "(if hs_minHypoStackDiversity st > 0 then rfold (diversity_step cless) hs ([], \<lambda>_. 0, st\<lparr>hs_hypos := []\<rparr>)
        else Inr (map (\<lambda>_. False) hs, \<lambda>_. 0, st\<lparr>hs_hypos := []\<rparr>)) = Inr (flags, c, st1)"
      "(if length (hs_hypos st1) < k then add_best cless k (zip hs flags) st1 else Inr st1) = Inr st'"
    using assms(1) False unfolding hs_PruneToSize_def hs_def [symmetric] Let_def by (auto simp: rbind_eq_Inr simp del: if_split)
  have flags: "length flags = length hs \<and> mset (hs_hypos st1) \<subseteq># mset (picked hs flags)"
    using st1(1) diversity_sub [of cless hs "[]" "\<lambda>_. 0" "st\<lparr>hs_hypos := []\<rparr>" flags c st1] by (auto split: if_splits)
  have "mset (hs_hypos st') \<subseteq># mset (hs_hypos st1) + mset (map fst (filter (\<lambda>p. \<not> snd p) (zip hs flags)))"
    using st1(2) add_best_sub [of cless k "zip hs flags" st1 st'] by (auto split: if_splits)
  then have "mset (hs_hypos st') \<subseteq># mset (picked hs flags) + mset (map fst (filter (\<lambda>p. \<not> snd p) (zip hs flags)))"
    using flags by (meson subset_mset.order_trans subset_mset.add_right_mono)
  then show ?thesis using picked_all [of flags hs] flags hs by simp
qed (use assms(1) in \<open>simp add: hs_PruneToSize_def\<close>)

section \<open>Adding a hypothesis\<close>

lemma update_hypos:
  "hs_hypos (update_scores h st) = hs_hypos st" "update_diversity h st = Inr st' \<Longrightarrow> hs_hypos st' = hs_hypos st"
  by (auto simp: update_scores_def update_diversity_def SetWorstScoreForBitmap_def Let_def rbind_eq_Inr split: if_splits)

lemma Add_none_sub:
  assumes "hs_Add cless sel d h st = Inr (st', None)" and sel: "\<And>key m xs. mset (sel key m xs) = mset xs"
  shows "mset (hs_hypos st') \<subseteq># add_mset h (mset (hs_hypos st))"
proof -
  obtain hypos st1 t where s: "set_insert cless h (hs_hypos st) = Inr (hypos, None)" "update_diversity h (update_scores h (st\<lparr>hs_hypos := hypos\<rparr>)) = Inr st1"
    "(if length (hs_hypos st1) > t then hs_PruneToSize cless sel (hs_maxHypoStackSize st1) st1 else Inr st1) = Inr st'"
    using assms(1) by (auto simp: hs_Add_def rbind_eq_Inr simp del: if_split split: option.splits)
  have "mset (hs_hypos st1) = add_mset h (mset (hs_hypos st))" using update_hypos(2) [OF s(2)] set_insert_none [OF s(1)] by (simp add: update_hypos(1))
  moreover have "mset (hs_hypos st') \<subseteq># mset (hs_hypos st1)"
  proof (cases "length (hs_hypos st1) > t")
    case True
    then have "hs_PruneToSize cless sel (hs_maxHypoStackSize st1) st1 = Inr st'" using s(3) by simp
    then show ?thesis by (rule PruneToSize_sub [OF _ sel])
  qed (use s(3) in simp)
  ultimately show ?thesis by simp
qed

lemma Add_some: "hs_Add cless sel d h st = Inr (st', Some e) \<Longrightarrow> st' = st \<and> e \<in> set (hs_hypos st)"
  by (auto simp: hs_Add_def rbind_eq_Inr dest: set_insert_some split: option.splits if_splits)

text \<open>What AddPrune makes of the set before it is pruned.\<close>

lemma AddPrune_sets:
  assumes run: "hs_AddPrune cless sel d disable h st = Inr (b, st')" and sel: "\<And>key m xs. mset (sel key m xs) = mset xs"
  shows "(\<exists>g \<in> {h}. mset (hs_hypos st') \<subseteq># add_mset g (mset (hs_hypos st)))
    \<or> (\<exists>e \<in> set (hs_hypos st). ph_total e < ph_total h \<and> mset (hs_hypos st') \<subseteq># add_mset (pb_AddArc h e) (mset (remove1 e (hs_hypos st))))
    \<or> (\<exists>e \<in> set (hs_hypos st). ph_total h \<le> ph_total e \<and> hs_hypos st' = map (\<lambda>g. if g = e then pb_AddArc g h else g) (hs_hypos st))"
proof -
  obtain bad where bad: "too_bad disable h st = Inr bad" using run by (auto simp: hs_AddPrune_def rbind_eq_Inr)
  have drop_e: "mset (remove1 e xs) \<subseteq># mset xs" for e :: "'a pb_hypo" and xs by simp
  show ?thesis
  proof (cases bad)
    case True
    then show ?thesis using run bad by (auto simp: hs_AddPrune_def)
  next
    case False
    then obtain st1 ex where add: "hs_Add cless sel d h st = Inr (st1, ex)" using run bad by (auto simp: hs_AddPrune_def rbind_eq_Inr)
    show ?thesis
    proof (cases ex)
      case None
      then have "st' = st1" using run bad add False by (simp add: hs_AddPrune_def)
      then show ?thesis using Add_none_sub [OF _ sel] add None by auto
    next
      case (Some e)
      then have e: "st1 = st" "e \<in> set (hs_hypos st)" using Add_some add by blast+
      show ?thesis
      proof (cases "ph_total h > ph_total e")
        case True
        then have "hs_Add cless sel d (if hs_nBestIsEnabled st then pb_AddArc h e else h) (hs_Detach e st) = Inr (st', None)"
          using run bad add False Some e(1) by (auto simp: hs_AddPrune_def rbind_eq_Inr split: option.splits)
        from Add_none_sub [OF this sel]
        have "mset (hs_hypos st') \<subseteq># add_mset (if hs_nBestIsEnabled st then pb_AddArc h e else h) (mset (remove1 e (hs_hypos st)))"
          by (simp add: hs_Detach_def)
        then show ?thesis using e(2) True drop_e [of e "hs_hypos st"]
          by (cases "hs_nBestIsEnabled st") (auto intro: subset_mset.order_trans)
      next
        case no: False
        then have "st' = (if hs_nBestIsEnabled st then st\<lparr>hs_hypos := map (\<lambda>g. if g = e then pb_AddArc g h else g) (hs_hypos st)\<rparr> else st)"
          using run bad add False Some e(1) by (simp add: hs_AddPrune_def)
        then show ?thesis using e(2) no by (cases "hs_nBestIsEnabled st") (auto simp: not_less)
      qed
    qed
  qed
qed

lemma map_at:
  assumes "e \<in> set xs" "distinct xs"
  shows "mset (map (\<lambda>g. if g = e then f g else g) xs) = add_mset (f e) (mset (remove1 e xs))"
  using assms
proof (induction xs)
  case (Cons x xs)
  show ?case
  proof (cases "x = e")
    case True
    then have "map (\<lambda>g. if g = e then f g else g) xs = xs" using Cons.prems(2) by (intro map_idI) auto
    then show ?thesis using True by simp
  qed (use Cons in auto)
qed simp

lemma AddPrune_edges:
  assumes run: "hs_AddPrune cless sel d disable h st = Inr (b, st')" and sel: "\<And>key m xs. mset (sel key m xs) = mset xs"
    and dist: "distinct (hs_hypos st)" and h: "ph_arcs h = None"
  shows "edge_mset (hs_hypos st') \<subseteq># add_mset (core h) (edge_mset (hs_hypos st))" "arcs_ok (hs_hypos st) \<Longrightarrow> arcs_ok (hs_hypos st')"
proof -
  let ?xs = "hs_hypos st"
  have "\<exists>ys. mset (hs_hypos st') \<subseteq># mset ys \<and> edge_mset ys = add_mset (core h) (edge_mset ?xs) \<and> (arcs_ok ?xs \<longrightarrow> arcs_ok ys)"
    using AddPrune_sets [OF run sel]
  proof (elim disjE bexE conjE)
    fix g
    assume "g \<in> {h}" "mset (hs_hypos st') \<subseteq># add_mset g (mset ?xs)"
    then show ?thesis using h by (intro exI [of _ "h # ?xs"]) (simp add: edge_mset_Cons edges_of_bare arcs_ok_def arc_list_def)
  next
    fix e
    assume e: "e \<in> set ?xs" "ph_total e < ph_total h" "mset (hs_hypos st') \<subseteq># add_mset (pb_AddArc h e) (mset (remove1 e ?xs))"
    have "edge_mset ?xs = edge_mset (e # remove1 e ?xs)" using e(1) by (simp add: edge_mset_def)
    moreover have "arcs_ok (pb_AddArc h e # remove1 e ?xs)" if "arcs_ok ?xs"
      using that e(1,2) h notin_set_remove1 by (fastforce simp: arcs_ok_def arc_list_def [of h])
    ultimately show ?thesis using e(3) h
      by (intro exI [of _ "pb_AddArc h e # remove1 e ?xs"]) (simp add: edge_mset_Cons edges_of_AddArc edges_of_bare)
  next
    fix e
    assume e: "e \<in> set ?xs" "ph_total h \<le> ph_total e" "hs_hypos st' = map (\<lambda>g. if g = e then pb_AddArc g h else g) ?xs"
    have m: "mset (hs_hypos st') = mset (pb_AddArc e h # remove1 e ?xs)" using map_at [OF e(1) dist] e(3) by simp
    have "edge_mset ?xs = edge_mset (e # remove1 e ?xs)" using e(1) by (simp add: edge_mset_def)
    moreover have "arcs_ok (pb_AddArc e h # remove1 e ?xs)" if "arcs_ok ?xs"
      using that e(1,2) h notin_set_remove1 by (fastforce simp: arcs_ok_def arc_list_def [of h])
    ultimately show ?thesis using m h
      by (intro exI [of _ "pb_AddArc e h # remove1 e ?xs"]) (simp add: edge_mset_Cons edges_of_AddArc edges_of_bare)
  qed
  then obtain ys where ys: "mset (hs_hypos st') \<subseteq># mset ys" "edge_mset ys = add_mset (core h) (edge_mset ?xs)" "arcs_ok ?xs \<longrightarrow> arcs_ok ys" by blast
  show "edge_mset (hs_hypos st') \<subseteq># add_mset (core h) (edge_mset ?xs)" using edge_mset_mono [OF ys(1)] ys(2) by simp
  show "arcs_ok ?xs \<Longrightarrow> arcs_ok (hs_hypos st')"
    using ys(3) arcs_ok_subset set_mset_mono [OF ys(1)] by auto
qed

section \<open>The winners\<close>

text \<open>CleanupArcList makes every hypothesis on a stack the winner of itself and of its arcs.\<close>

definition winners_set :: "'s pb_hypo list \<Rightarrow> bool" where
  "winners_set hs \<longleftrightarrow> (\<forall>h \<in> set hs. \<forall>e \<in> set (h # arc_list h). ph_winning e = Some (ph_id h))"

lemma CleanupArcList_hypo:
  assumes "pb_CleanupArcList sel distinctNBest k h = Inr g" and sel: "\<And>key m xs. mset (sel key m xs) = mset xs"
  shows "edges_of g \<subseteq># edges_of h \<and> winners_set [g] \<and> (arcs_ok [h] \<longrightarrow> arcs_ok [g])"
proof (cases "ph_arcs h")
  case None
  then have "g = pb_SetWinningHypo (Some (ph_id h)) h" using assms(1) by (simp add: pb_CleanupArcList_def)
  then show ?thesis using None by (simp add: edges_of_def arc_list_def winners_set_def arcs_ok_def)
next
  case (Some arcs)
  obtain kept where g: "g = pb_with_arcs (Some (map (pb_SetWinningHypo (Some (ph_id h))) kept)) (pb_SetWinningHypo (Some (ph_id h)) h)"
    "kept = arcs \<or> kept = take k (sel ph_total (k - 1) arcs)"
    using assms(1) Some by (auto simp: pb_CleanupArcList_def Let_def rbind_eq_Inr split: if_splits)
  have kept: "mset kept \<subseteq># mset arcs"
    using g(2) sel [of ph_total "k - 1" arcs] mset_subset_eq_add_left [of "mset (take k (sel ph_total (k - 1) arcs))" "mset (drop k (sel ph_total (k - 1) arcs))"]
    by (auto simp: mset_append [symmetric] simp del: mset_append)
  have "ph_winning (pb_with_arcs a (pb_SetWinningHypo w h)) = w" for a w by (cases h) simp
  moreover have "edges_of g \<subseteq># edges_of h"
    using image_mset_subseteq_mono [OF kept, of core] by (simp add: g(1) edges_of_def arc_list_def Some comp_def)
  moreover have "arcs_ok [h] \<longrightarrow> arcs_ok [g]"
    using set_mset_mono [OF kept] by (auto simp: g(1) arcs_ok_def arc_list_def Some)
  ultimately show ?thesis by (simp add: g(1) winners_set_def arc_list_def)
qed

lemma CleanupArcList_edges:
  assumes "hs_CleanupArcList sel distinctNBest k st = Inr st'" and sel: "\<And>key m xs. mset (sel key m xs) = mset xs"
  shows "edge_mset (hs_hypos st') \<subseteq># edge_mset (hs_hypos st)" "arcs_ok (hs_hypos st) \<Longrightarrow> arcs_ok (hs_hypos st')"
    "hs_nBestIsEnabled st \<Longrightarrow> winners_set (hs_hypos st')"
proof -
  have *: "edge_mset ys \<subseteq># edge_mset xs \<and> (arcs_ok xs \<longrightarrow> arcs_ok ys) \<and> winners_set ys"
    if "rmap (pb_CleanupArcList sel distinctNBest k) xs = Inr ys" for xs ys
    using that unfolding rmap_eq_Inr
  proof (induction rule: list_all2_induct)
    case (Cons x xs y ys)
    have h: "edges_of y \<subseteq># edges_of x" "winners_set [y]" "arcs_ok [x] \<longrightarrow> arcs_ok [y]" using CleanupArcList_hypo [OF Cons(1) sel] by blast+
    have split: "arcs_ok (z # zs) = (arcs_ok [z] \<and> arcs_ok zs)" "winners_set (z # zs) = (winners_set [z] \<and> winners_set zs)" for z :: "'a pb_hypo" and zs
      unfolding arcs_ok_def winners_set_def by auto
    have "edge_mset (y # ys) \<subseteq># edge_mset (x # xs)" using h(1) Cons.IH by (simp add: edge_mset_Cons subset_mset.add_mono)
    then show ?case using h(2,3) Cons.IH split [of x xs] split [of y ys] by blast
  qed (simp add: arcs_ok_def winners_set_def)
  show "edge_mset (hs_hypos st') \<subseteq># edge_mset (hs_hypos st)" "arcs_ok (hs_hypos st) \<Longrightarrow> arcs_ok (hs_hypos st')"
    "hs_nBestIsEnabled st \<Longrightarrow> winners_set (hs_hypos st')"
    using assms(1) * by (fastforce simp: hs_CleanupArcList_def rbind_eq_Inr split: if_splits)+
qed

end
