(* ===== verification/SearchProps.thy ===== *)
theory SearchProps
  imports PhraseSearch StackArcs FutureScores ReorderingProps
begin

text \<open>
  Properties of the phrase-based search (theory PhraseSearch): the hypotheses on the stacks are the derivations the translation options
  allow, the search ends without a fault, and what it guarantees to find.
\<close>

section \<open>Loops\<close>

text \<open>A loop whose steps keep P, keep Q once it holds, and establish Q for some elements.\<close>

lemma rfold_reach:
  assumes "\<And>x s. x \<in> set xs \<Longrightarrow> P s \<Longrightarrow> \<exists>s'. f x s = Inr s' \<and> P s' \<and> (Q s \<or> hit x \<longrightarrow> Q s')" and "P s"
  shows "\<exists>s'. rfold f xs s = Inr s' \<and> P s' \<and> (Q s \<or> (\<exists>x \<in> set xs. hit x) \<longrightarrow> Q s')"
  using assms
proof (induction xs arbitrary: s)
  case (Cons x xs)
  obtain s1 where s1: "f x s = Inr s1" "P s1" "Q s \<or> hit x \<longrightarrow> Q s1" using Cons.prems(1) [of x s] Cons.prems(2) by auto
  have "\<exists>s'. rfold f xs s1 = Inr s' \<and> P s' \<and> (Q s1 \<or> (\<exists>x \<in> set xs. hit x) \<longrightarrow> Q s')"
    by (rule Cons.IH [OF Cons.prems(1) s1(2)]) simp_all
  then show ?case using s1(1,3) by auto
qed simp

section \<open>The search space\<close>

text \<open>
  The specification: a path is a sequence of translation options, each for words that are not yet translated and that the
  reordering constraints and the distortion limit admit. The indices are the coverage and the last span.
\<close>

abbreviation words_of :: "'s pb_search \<Rightarrow> nat" where
  "words_of ps \<equiv> length (py_source (ps_sys ps))"

definition admitted :: "'s pb_search \<Rightarrow> words_bitmap \<Rightarrow> words_range \<Rightarrow> nat \<Rightarrow> nat \<Rightarrow> bool" where
  "admitted ps bm prev s e \<longleftrightarrow> s \<le> e \<and> e < words_of ps \<and> (\<forall>i. s \<le> i \<and> i \<le> e \<longrightarrow> \<not> covered bm i)
     \<and> Check (ps_maxDistortion ps) (ps_reordering ps) bm s e = Inr True
     \<and> (0 \<le> ps_maxDistortion ps \<longrightarrow> ps_distance ps prev (WordsRange s s) \<le> ps_maxDistortion ps
          \<and> (GetFirstGapPos bm = s
             \<or> ps_distance ps (WordsRange s e) (WordsRange (GetFirstGapPos bm) (GetFirstGapPos bm)) \<le> ps_maxDistortion ps))"

text \<open>The range before the first word; GetFirstGapPos of an empty sentence is NOT\_FOUND.\<close>

definition start_range :: "nat \<Rightarrow> words_range" where
  "start_range n = (if n = 0 then WordsRange 0 (NOT_FOUND - 1) else WordsRange NOT_FOUND NOT_FOUND)"

inductive path :: "'s pb_search \<Rightarrow> pb_option list \<Rightarrow> words_bitmap \<Rightarrow> words_range \<Rightarrow> bool" for ps where
  path_start: "path ps [] (WordsBitmap (words_of ps)) (start_range (words_of ps))"
| path_step: "path ps opts bm prev \<Longrightarrow> opt \<in> set (offer (ps_sys ps) (ps_coll ps) s e) \<Longrightarrow> admitted ps bm prev s e
    \<Longrightarrow> path ps (opts @ [opt]) (set_span bm s (Suc e) True) (WordsRange s e)"

text \<open>The score the search gives a hypothesis: the weighted features and the estimate of what is left.\<close>

definition scored :: "'s pb_search \<Rightarrow> 's pb_hypo \<Rightarrow> bool" where
  "scored ps h \<longleftrightarrow> (\<exists>x future. InnerProduct (ph_breakdown h) (py_weights (ps_sys ps)) = Inr x
     \<and> CalcFutureScore (oc_futureScore (ps_coll ps)) (ph_completed h) = Inr future
     \<and> ph_total h = Fin x + future \<and> ph_future h = future)"

text \<open>The output of a sequence of options.\<close>

definition output_of :: "'s pb_search \<Rightarrow> pb_option list \<Rightarrow> word list" where
  "output_of ps opts = tp_words (pf_initialTarget (ps_features ps)) @ concat (map (\<lambda>opt. tp_words (po_target opt)) opts)"

text \<open>A hypothesis of the search that covers j words.\<close>

definition good_hypo :: "'s pb_search \<Rightarrow> bool list \<Rightarrow> nat \<Rightarrow> 's pb_hypo \<Rightarrow> bool" where
  "good_hypo ps shape j h \<longleftrightarrow> path ps (options_of h) (ph_completed h) (ph_sourceRange h) \<and> GetNumWordsCovered (ph_completed h) = j
     \<and> map Option.is_none (ph_states h) = shape \<and> length (ph_breakdown h) = si_last (py_index (ps_sys ps))
     \<and> (\<exists>x. ph_total h = Fin x) \<and> placed h \<and> (j \<noteq> 0 \<longrightarrow> scored ps h)
     \<and> (ph_prev h = None \<longleftrightarrow> j = 0) \<and> pb_words h = output_of ps (options_of h)"

section \<open>The parameters of a search\<close>

text \<open>Feature functions return, and a stateful one leaves a state wherever it did before.\<close>

definition features_ok :: "'s pb_search \<Rightarrow> bool list \<Rightarrow> bool" where
  "features_ok ps shape \<longleftrightarrow> (let L = si_last (py_index (ps_sys ps)) in
     (\<forall>f \<in> set (pf_stateless (ps_features ps)). \<forall>tp bd. length bd = L \<longrightarrow> (\<exists>bd'. f tp bd = Inr bd' \<and> length bd' = L))
     \<and> length (pf_stateful (ps_features ps)) = length shape \<and> map Option.is_none (pf_emptyStates (ps_features ps)) = shape
     \<and> (\<forall>i < length shape. \<forall>h prev bd. ph_prev h \<noteq> None \<longrightarrow> Option.is_none prev = shape ! i \<longrightarrow> length bd = L \<longrightarrow>
          (\<exists>st bd'. (pf_stateful (ps_features ps) ! i) h prev bd = Inr (st, bd') \<and> Option.is_none st = shape ! i \<and> length bd' = L)))"

text \<open>The options of each span are for this span and have a score for every feature.\<close>

definition options_ok :: "'s pb_search \<Rightarrow> bool" where
  "options_ok ps \<longleftrightarrow> wf_coll (ps_sys ps) (ps_coll ps) \<and> si_last (py_index (ps_sys ps)) = length (py_weights (ps_sys ps))
     \<and> (\<forall>s e opt. s \<le> e \<longrightarrow> opt \<in> set (offer (ps_sys ps) (ps_coll ps) s e) \<longrightarrow>
          po_range opt = WordsRange s e \<and> length (po_breakdown opt) = si_last (py_index (ps_sys ps)))
     \<and> (\<forall>s e. s \<le> e \<longrightarrow> e < words_of ps \<longrightarrow> (\<exists>x. GetScore (oc_futureScore (ps_coll ps)) s e = Inr (Fin x)))"

text \<open>
  With stack diversity the coverage vectors need identifiers: the sentence is text with a distortion limit of at most 16, below 2 ^ 16 words.
  The n-best size 0 with an n-best list is excluded: see CleanupArcList.
\<close>

definition search_ok :: "'s pb_search \<Rightarrow> bool list \<Rightarrow> bool" where
  "search_ok ps shape \<longleftrightarrow> total_compare (ps_cmp ps) \<and> partial_sorting (ps_sel ps) \<and> ps_diff ps None None = 0
     \<and> words_of ps < 2 ^ 31 \<and> options_ok ps \<and> features_ok ps shape
     \<and> pf_sourceCompleted (ps_features ps) = []
     \<and> \<not> ps_earlyDiscarding ps \<and> ps_beamWidth ps < Fin 0 \<and> 0 < ps_maxHypoStackSize ps
     \<and> (ps_nBestIsEnabled ps \<longrightarrow> ps_distinctNBest ps \<or> 0 < ps_nBestSize ps)
     \<and> (rc_active (ps_reordering ps) \<longrightarrow> wf_constraint (words_of ps) (ps_reordering ps))
     \<and> (ps_minHypoStackDiversity ps \<noteq> 0 \<longrightarrow> 0 \<le> ps_maxDistortion ps \<and> ps_maxDistortion ps \<le> 16 \<and> words_of ps < 2 ^ 16
          \<and> ps_distance ps = ComputeDistortionDistance)"

text \<open>When every hypothesis can be extended by an option for the first word that is left.\<close>

definition always_extends :: "'s pb_search \<Rightarrow> bool" where
  "always_extends ps \<longleftrightarrow> pf_constraint (ps_features ps) = None \<and> \<not> rc_active (ps_reordering ps) \<and> \<not> ps_isWordLattice ps
     \<and> ps_distance ps = ComputeDistortionDistance \<and> (\<forall>a < words_of ps. offer (ps_sys ps) (ps_coll ps) a a \<noteq> [])"

section \<open>Paths\<close>

lemma path_wf:
  assumes "path ps opts bm prev" "words_of ps < 2 ^ 31"
  shows "wf_bitmap bm" "wb_size bm = words_of ps"
  using assms
  by (induction rule: path.induct) (simp_all add: wf_WordsBitmap wf_set_span, simp add: WordsBitmap_def)

text \<open>Each word of the coverage is translated by exactly one option.\<close>

definition option_spans :: "pb_option list \<Rightarrow> nat list" where
  "option_spans opts = concat (map (\<lambda>opt. positions (po_range opt)) opts)"

lemma path_covers:
  assumes "path ps opts bm prev" "words_of ps < 2 ^ 31" "options_ok ps"
  shows "distinct (option_spans opts) \<and> set (option_spans opts) = {i. i < words_of ps \<and> covered bm i}
    \<and> (\<forall>opt \<in> set opts. \<exists>s e. s \<le> e \<and> opt \<in> set (offer (ps_sys ps) (ps_coll ps) s e))"
  using assms
proof (induction rule: path.induct)
  case (path_step opts bm prev opt s e)
  note wf = path_wf [OF path_step.hyps(1) path_step.prems(1)]
  have r: "positions (po_range opt) = [s..<Suc e]" using path_step.hyps(2,3) path_step.prems(2) by (auto simp: options_ok_def admitted_def)
  have se: "s \<le> e" "e < words_of ps" "\<forall>i. s \<le> i \<and> i \<le> e \<longrightarrow> \<not> covered bm i" using path_step.hyps(3) by (auto simp: admitted_def)
  have IH: "distinct (option_spans opts)" "set (option_spans opts) = {i. i < words_of ps \<and> covered bm i}"
    "\<forall>opt \<in> set opts. \<exists>s e. s \<le> e \<and> opt \<in> set (offer (ps_sys ps) (ps_coll ps) s e)" using path_step by auto
  have "{i. i < words_of ps \<and> covered (set_span bm s (Suc e) True) i} = {i. i < words_of ps \<and> covered bm i} \<union> set [s..<Suc e]"
    using se(1,2) wf(2) by (auto split: if_splits)
  moreover have "option_spans (opts @ [opt]) = option_spans opts @ [s..<Suc e]" by (simp add: option_spans_def r del: upt_Suc)
  moreover have "set (option_spans opts) \<inter> set [s..<Suc e] = {}" using IH(2) se(3) by auto
  ultimately show ?case using IH path_step.hyps(2) se(1) by (auto simp del: upt_Suc)
qed (auto simp: option_spans_def)

text \<open>Under a distortion limit d, no translated word is d or more words after the first gap, and the first gap is in reach.\<close>

lemma text_distance:
  "s \<le> e \<Longrightarrow> e < 2 ^ 31 \<Longrightarrow> k < 2 ^ 31 \<Longrightarrow> ComputeDistortionDistance (WordsRange s e) (WordsRange k k') = \<bar>int e - int k + 1\<bar>"
  by (simp add: ComputeDistortionDistance_def NOT_FOUND_def SIZE_RANGE_def)

lemma GetFirstGapPos_less: "wf_bitmap bm \<Longrightarrow> \<not> covered bm s \<Longrightarrow> s < wb_size bm \<Longrightarrow> GetFirstGapPos bm \<le> s"
  using GetFirstGapPos_free [of bm s] by simp

lemma path_limit:
  assumes "path ps opts bm prev" "words_of ps < 2 ^ 31" "ps_distance ps = ComputeDistortionDistance" "0 \<le> ps_maxDistortion ps"
    and "GetFirstGapPos bm < words_of ps"
  shows "(\<forall>j < words_of ps. covered bm j \<longrightarrow> int j + 1 \<le> int (GetFirstGapPos bm) + ps_maxDistortion ps \<or> j < GetFirstGapPos bm)
    \<and> ps_distance ps prev (WordsRange (GetFirstGapPos bm) (GetFirstGapPos bm)) \<le> ps_maxDistortion ps"
  using assms
proof (induction rule: path.induct)
  case path_start
  have "wb_size (WordsBitmap (words_of ps)) = words_of ps" "0 < words_of ps" using path_start.prems(4) by (auto simp: WordsBitmap_def)
  then have "GetFirstGapPos (WordsBitmap (words_of ps)) = 0"
    using path_start.prems(1) GetFirstGapPos_found [OF wf_WordsBitmap, of "words_of ps" 0] by simp
  then show ?case using path_start.prems(2,3) \<open>0 < words_of ps\<close> by (simp add: ComputeDistortionDistance_def start_range_def)
next
  case (path_step opts bm prev opt s e)
  let ?bm = "set_span bm s (Suc e) True" and ?d = "ps_maxDistortion ps"
  note wf = path_wf [OF path_step.hyps(1) path_step.prems(1)]
  have se: "s \<le> e" "e < words_of ps" "\<not> covered bm s"
    "GetFirstGapPos bm = s \<or> ps_distance ps (WordsRange s e) (WordsRange (GetFirstGapPos bm) (GetFirstGapPos bm)) \<le> ?d"
    using path_step.hyps(3) path_step.prems(3) by (auto simp: admitted_def)
  have gap: "GetFirstGapPos bm \<le> s" "\<forall>i < GetFirstGapPos bm. covered bm i" "\<not> covered bm (GetFirstGapPos bm)"
    using GetFirstGapPos_free [OF wf(1) _ se(3)] se(1,2) wf(2) by auto
  have gap': "\<not> covered ?bm (GetFirstGapPos ?bm)" "\<forall>i < GetFirstGapPos ?bm. covered ?bm i"
    using path_step.prems(4) wf GetFirstGapPos_found [OF wf_set_span [OF wf(1)], of "GetFirstGapPos ?bm" s "Suc e" True] by simp_all
  have IH: "\<forall>j < words_of ps. covered bm j \<longrightarrow> int j + 1 \<le> int (GetFirstGapPos bm) + ?d \<or> j < GetFirstGapPos bm"
    using path_step gap(1) se(1,2) by auto
  have dist: "ps_distance ps (WordsRange s e) (WordsRange k k) = \<bar>int e - int k + 1\<bar>" if "k < words_of ps" for k
    using text_distance [of s e k k] se(1,2) that path_step.prems(1,2) by simp
  show ?case
  proof (cases "GetFirstGapPos bm = s")
    case True
    let ?g = "GetFirstGapPos ?bm"
    have "e < ?g"
    proof (rule ccontr)
      assume "\<not> e < ?g"
      then have "\<not> s \<le> ?g \<and> ?g < words_of ps" using gap'(1) wf(2) path_step.prems(4) by (auto split: if_splits)
      then have "covered bm ?g" using gap(2) True path_step.prems(4) by auto
      then show False using gap'(1) wf(2) path_step.prems(4) by (auto split: if_splits)
    qed
    moreover have "int ?g - 1 - int e \<le> ?d"
    proof (cases "?g = Suc e")
      case False
      then have "e < ?g - 1" using \<open>e < ?g\<close> by simp
      then have "covered bm (?g - 1)" using gap'(2) [rule_format, of "?g - 1"] wf(2) path_step.prems(4) by auto
      then have "int (?g - 1) + 1 \<le> int s + ?d" using IH [rule_format, of "?g - 1"] path_step.prems(4) \<open>e < ?g - 1\<close> se(1) True by auto
      then show ?thesis using \<open>e < ?g - 1\<close> se(1) by simp
    qed (use path_step.prems(3) in simp)
    moreover have "int j + 1 \<le> int ?g + ?d \<or> j < ?g" if "j < words_of ps" "covered ?bm j" for j
    proof (cases "s \<le> j \<and> j \<le> e")
      case False
      then have "covered bm j" using that wf(2) by (auto split: if_splits)
      then show ?thesis using IH that(1) True \<open>e < ?g\<close> se(1) by force
    qed (use \<open>e < ?g\<close> in simp)
    ultimately show ?thesis using dist [of ?g] path_step.prems(4) by auto
  next
    case False
    then have less: "GetFirstGapPos bm < s" using gap(1) by simp
    have g: "GetFirstGapPos ?bm = GetFirstGapPos bm"
      using GetFirstGapPos_found [OF wf_set_span [OF wf(1)], of "GetFirstGapPos bm" s "Suc e" True] gap less se(1,2) wf(2) by auto
    have "int e + 1 \<le> int (GetFirstGapPos bm) + ?d" using se(4) False dist [of "GetFirstGapPos bm"] less se(1,2) by auto
    moreover have "int j + 1 \<le> int (GetFirstGapPos bm) + ?d \<or> j < GetFirstGapPos bm" if "j < words_of ps" "covered ?bm j" for j
      using that IH wf(2) calculation by (auto split: if_splits)
    ultimately show ?thesis using se(4) False by (simp add: g)
  qed
qed

lemma path_GetID:
  assumes "path ps opts bm prev" "words_of ps < 2 ^ 16" "ps_distance ps = ComputeDistortionDistance"
    and "0 \<le> ps_maxDistortion ps" "ps_maxDistortion ps \<le> 16"
  shows "\<exists>i. GetID bm = Inr i"
proof -
  have n: "words_of ps < 2 ^ 31" using assms(2) by simp
  note wf = path_wf [OF assms(1) n]
  have "id_end bm - id_start bm \<le> 16"
  proof (cases "id_start bm < id_end bm")
    case True
    then have e: "id_end bm < words_of ps" "covered bm (id_end bm)" using id_end_cases(3) [OF wf(1)] wf(2) by auto
    have "GetFirstGapPos bm = id_start bm"
      using id_start_cases [OF wf(1)] True e(1) wf GetFirstGapPos_found [OF wf(1), of "id_start bm"] by auto
    then show ?thesis using path_limit [OF assms(1) n assms(3,4)] True e assms(5) by force
  qed simp
  then show ?thesis using assms(2) wf by (simp add: GetID_eq)
qed

section \<open>Scores of a hypothesis\<close>

lemma CalcFutureScore_finite:
  assumes "wf_bitmap bm" "\<forall>s e. s \<le> e \<longrightarrow> e < wb_size bm \<longrightarrow> (\<exists>x. GetScore m s e = Inr (Fin x))"
  shows "\<exists>x. CalcFutureScore m bm = Inr (Fin x)"
proof -
  have "\<exists>g x. rfold (future_step m bm) [0..<k] (NOT_FOUND, 0) = Inr (g, Fin x) \<and> (g = NOT_FOUND \<or> g < k)" if "k \<le> wb_size bm" for k
    using that
  proof (induction k)
    case (Suc k)
    then obtain g x where g: "rfold (future_step m bm) [0..<k] (NOT_FOUND, 0) = Inr (g, Fin x)" "g = NOT_FOUND \<or> g < k" by auto
    have small: "k < SIZE_RANGE" "k \<noteq> NOT_FOUND" using bitmap_size_small [OF assms(1), of k] Suc.prems by auto
    have "\<exists>g' x'. future_step m bm k (g, Fin x) = Inr (g', Fin x') \<and> (g' = NOT_FOUND \<or> g' < Suc k)"
    proof (cases "covered bm k \<and> g \<noteq> NOT_FOUND")
      case True
      then have "g < k" using g(2) by simp
      then have "g \<le> k - 1" "k - 1 < wb_size bm" using Suc.prems by auto
      then obtain y where "GetScore m g (k - 1) = Inr (Fin y)" using assms(2) by blast
      then show ?thesis using True \<open>g < k\<close> small Suc.prems assms(1) by (auto simp: future_step_def GetValue_in)
    qed (use g(2) Suc.prems assms(1) in \<open>auto simp: future_step_def GetValue_in\<close>)
    then show ?case using g(1) by (auto simp: rfold_append)
  qed (simp add: score_zero)
  then obtain g x where g: "rfold (future_step m bm) [0..<wb_size bm] (NOT_FOUND, 0) = Inr (g, Fin x)" "g = NOT_FOUND \<or> g < wb_size bm" by blast
  show ?thesis
  proof (cases "g = NOT_FOUND")
    case False
    then have "g \<le> wb_size bm - 1" "wb_size bm - 1 < wb_size bm" "sz_sub (wb_size bm) 1 = wb_size bm - 1"
      using g(2) bitmap_size_small [OF assms(1), of "wb_size bm"] by auto
    moreover from this obtain y where "GetScore m g (wb_size bm - 1) = Inr (Fin y)" using assms(2) by blast
    ultimately show ?thesis using g(1) False by (simp add: CalcFutureScore_def)
  qed (use g(1) in \<open>simp add: CalcFutureScore_def\<close>)
qed

lemma InnerProduct_total:
  assumes "length bd \<le> length ws"
  shows "\<exists>x. InnerProduct bd ws = Inr x"
proof -
  have "\<exists>x. rfold (\<lambda>(i, x) acc. rbind (array_get ws i) (\<lambda>w. Inr (acc + x * w))) (enumerate k xs) a = Inr x"
    if "k + length xs \<le> length ws" for k xs a
    using that by (induction xs arbitrary: k a) auto
  from this [of 0 bd 0] assms show ?thesis by (simp add: InnerProduct_def)
qed

lemma PlusEquals_same:
  "length rhs = length scores \<Longrightarrow> \<exists>bd. PlusEquals scores rhs = Inr bd \<and> length bd = length scores"
  by (simp add: PlusEquals_def)

lemma stateless_total:
  assumes "\<forall>f \<in> set fs. \<forall>bd. length bd = L \<longrightarrow> (\<exists>bd'. f tp bd = Inr bd' \<and> length bd' = L)" "length bd = L"
  shows "\<exists>bd'. rfold (\<lambda>f. f tp) fs bd = Inr bd' \<and> length bd' = L"
  using assms
proof (induction fs arbitrary: bd)
  case (Cons f fs)
  obtain bd1 where bd1: "f tp bd = Inr bd1" "length bd1 = L" using Cons.prems by auto
  have "\<exists>bd'. rfold (\<lambda>f. f tp) fs bd1 = Inr bd' \<and> length bd' = L" by (rule Cons.IH [OF _ bd1(2)]) (use Cons.prems(1) in simp)
  then show ?case using bd1(1) by simp
qed simp

lemma stateful_total:
  fixes fs :: "('s pb_hypo \<Rightarrow> 's option \<Rightarrow> real list \<Rightarrow> ('s option \<times> real list) result) list"
  assumes "\<forall>i < length fs. \<forall>g prev bd. ph_prev g \<noteq> None \<longrightarrow> Option.is_none prev = shape ! (k + i) \<longrightarrow> length bd = L \<longrightarrow>
      (\<exists>st bd'. (fs ! i) g prev bd = Inr (st, bd') \<and> Option.is_none st = shape ! (k + i) \<and> length bd' = L)"
    and "ph_prev h = Some p" "map Option.is_none (ph_states p) = shape" "k + length fs = length shape"
    and "length st = length shape" "\<forall>i < k. Option.is_none (st ! i) = shape ! i" "length bd = L"
  shows "\<exists>st' bd'. rfold (\<lambda>(i, f) (st, bd).
       rbind (case ph_prev h of None \<Rightarrow> Inr None | Some p \<Rightarrow> array_get (ph_states p) i) (\<lambda>prevState.
       rbind (f (with_scores (ph_total h) (ph_future h) bd st h) prevState bd) (\<lambda>(s, bd').
       rbind (array_set st i s) (\<lambda>st'. Inr (st', bd'))))) (enumerate k fs) (st, bd) = Inr (st', bd')
    \<and> map Option.is_none st' = shape \<and> length bd' = L"
  using assms
proof (induction fs arbitrary: k st bd)
  case Nil
  then show ?case by (auto intro: nth_equalityI)
next
  case (Cons f fs)
  have k: "k < length (ph_states p)" "Option.is_none (ph_states p ! k) = shape ! k"
    using Cons.prems(3,4) by (metis length_Cons length_map less_add_Suc1 add_Suc_right, metis length_Cons length_map less_add_Suc1 add_Suc_right nth_map)
  then obtain s bd1 where f: "f (with_scores (ph_total h) (ph_future h) bd st h) (ph_states p ! k) bd = Inr (s, bd1)"
    "Option.is_none s = shape ! k" "length bd1 = L"
    using Cons.prems(1) [rule_format, of 0 "with_scores (ph_total h) (ph_future h) bd st h" "ph_states p ! k" bd] Cons.prems(2,7) by auto
  have set: "array_set st k s = Inr (st[k := s])" using Cons.prems(4,5) by simp
  have "\<forall>i < Suc k. Option.is_none (st[k := s] ! i) = shape ! i" using Cons.prems(4,5,6) f(2) by (auto simp: nth_list_update less_Suc_eq)
  moreover have "\<forall>i < length fs. \<forall>g prev bd. ph_prev g \<noteq> None \<longrightarrow> Option.is_none prev = shape ! (Suc k + i) \<longrightarrow> length bd = L \<longrightarrow>
      (\<exists>st bd'. (fs ! i) g prev bd = Inr (st, bd') \<and> Option.is_none st = shape ! (Suc k + i) \<and> length bd' = L)"
    using Cons.prems(1) by (metis Suc_less_eq add_Suc_right add_Suc_shift length_Cons nth_Cons_Suc)
  ultimately show ?case
    using Cons.IH [of "Suc k" "st[k := s]" bd1] Cons.prems(2-5) f(1,3) k set by simp
qed

section \<open>The hypotheses of a search\<close>

locale search =
  fixes ps :: "'s pb_search" and shape :: "bool list"
  assumes ok: "search_ok ps shape"

sublocale search \<subseteq> pb_order "ps_cmp ps" "ps_sel ps" "ps_diff ps" "words_of ps" shape
  using ok by (intro pb_orderI) (simp_all add: search_ok_def)

context search
begin

lemma n_small: "words_of ps < 2 ^ 31"
  using ok by (simp add: search_ok_def)

lemma constraint_ok: "rc_active (ps_reordering ps) \<longrightarrow> wf_constraint (words_of ps) (ps_reordering ps)"
  using ok by (simp add: search_ok_def)

lemma good_ok_pb: "good_hypo ps shape j h \<Longrightarrow> ok_pb (words_of ps) shape h"
  using path_wf [OF _ n_small] by (auto simp: good_hypo_def ok_pb_def)

lemma good_id:
  assumes "good_hypo ps shape j h" "ps_minHypoStackDiversity ps \<noteq> 0"
  shows "\<exists>i. GetID (ph_completed h) = Inr i"
  using assms ok by (intro path_GetID) (auto simp: good_hypo_def search_ok_def)

lemma stateful_returns:
  assumes "ph_prev h = Some p" "map Option.is_none (ph_states p) = shape" "length (ph_states h) = length shape" "length bd = length (py_weights (ps_sys ps))"
  shows "\<exists>st bd'. evaluate_stateful (ps_features ps) h bd = Inr (st, bd') \<and> map Option.is_none st = shape \<and> length bd' = length bd"
  unfolding evaluate_stateful_def
  by (rule stateful_total [where p = p]) (use assms ok in \<open>auto simp: search_ok_def features_ok_def options_ok_def Let_def\<close>)

text \<open>A new hypothesis has a score.\<close>

lemma pb_CalcScore_total:
  assumes "ph_transOpt h = Some opt" "length (po_breakdown opt) = si_last (py_index (ps_sys ps))" "length (ph_breakdown h) = si_last (py_index (ps_sys ps))"
    and "ph_prev h = Some p" "map Option.is_none (ph_states p) = shape" "length (ph_states h) = length shape"
    and "wf_bitmap (ph_completed h)" "wb_size (ph_completed h) = words_of ps"
  shows "\<exists>t fut bd st. pb_CalcScore (ps_sys ps) (ps_features ps) (oc_futureScore (ps_coll ps)) h = Inr (with_scores (Fin t) fut bd st h)
    \<and> map Option.is_none st = shape \<and> length bd = si_last (py_index (ps_sys ps)) \<and> scored ps (with_scores (Fin t) fut bd st h)"
proof -
  have L: "si_last (py_index (ps_sys ps)) = length (py_weights (ps_sys ps))" and opts: "options_ok ps" and ff: "features_ok ps shape"
    using ok by (auto simp: search_ok_def options_ok_def)
  obtain bd1 where bd1: "PlusEquals (ph_breakdown h) (po_breakdown opt) = Inr bd1" "length bd1 = si_last (py_index (ps_sys ps))"
    using PlusEquals_same [of "po_breakdown opt" "ph_breakdown h"] assms(2,3) by auto
  obtain bd2 where bd2: "rfold (\<lambda>f. f (ph_target h)) (pf_stateless (ps_features ps)) bd1 = Inr bd2" "length bd2 = si_last (py_index (ps_sys ps))"
    using stateless_total [OF _ bd1(2), of "pf_stateless (ps_features ps)" "ph_target h"] ff by (auto simp: features_ok_def Let_def)
  obtain st bd3 where bd3: "evaluate_stateful (ps_features ps) h bd2 = Inr (st, bd3)" "map Option.is_none st = shape" "length bd3 = length bd2"
    using stateful_returns [OF assms(4-6), of bd2] bd2(2) L by auto
  obtain fut where fut: "CalcFutureScore (oc_futureScore (ps_coll ps)) (ph_completed h) = Inr (Fin fut)"
    using CalcFutureScore_finite [OF assms(7), of "oc_futureScore (ps_coll ps)"] opts unfolding options_ok_def assms(8) by blast
  obtain x where x: "InnerProduct bd3 (py_weights (ps_sys ps)) = Inr x"
    using InnerProduct_total [of bd3 "py_weights (ps_sys ps)"] bd3(3) bd2(2) L by auto
  have "pb_CalcScore (ps_sys ps) (ps_features ps) (oc_futureScore (ps_coll ps)) h = Inr (with_scores (Fin (x + fut)) (Fin fut) bd3 st h)"
    using assms(1) bd1(1) bd2(1) bd3(1) fut x by (simp add: pb_CalcScore_def)
  moreover have "scored ps (with_scores (Fin (x + fut)) (Fin fut) bd3 st h)" using x fut by (simp add: scored_def)
  ultimately show ?thesis using bd3(2,3) bd2(2) by (intro exI conjI) simp_all
qed

text \<open>Extending a hypothesis of the search by an admitted option.\<close>

lemma extend_good:
  assumes p: "good_hypo ps shape j p" and opt: "opt \<in> set (offer (ps_sys ps) (ps_coll ps) s e)"
    and adm: "admitted ps (ph_completed p) (ph_sourceRange p) s e"
  shows "\<exists>h0 h. extended_hypothesis i p opt = Inr h0 \<and> pb_CalcScore (ps_sys ps) (ps_features ps) (oc_futureScore (ps_coll ps)) h0 = Inr h
    \<and> good_hypo ps shape (j + (e - s + 1)) h \<and> ph_prev h = Some p \<and> ph_arcs h = None \<and> ph_id h = i"
proof -
  let ?bm = "set_span (ph_completed p) s (Suc e) True"
  have path: "path ps (options_of p) (ph_completed p) (ph_sourceRange p)" using p by (simp add: good_hypo_def)
  note wf = path_wf [OF path n_small]
  have se: "s \<le> e" "e < words_of ps" "\<forall>i. s \<le> i \<and> i \<le> e \<longrightarrow> \<not> covered (ph_completed p) i" using adm by (auto simp: admitted_def)
  have r: "po_range opt = WordsRange s e" "length (po_breakdown opt) = si_last (py_index (ps_sys ps))"
    using ok opt se(1) by (auto simp: search_ok_def options_ok_def)
  have "valid_range (wb_size (ph_completed p)) (WordsRange s e)" using se(1,2) wf n_small by (simp add: NOT_FOUND_def)
  then have free: "Overlap (ph_completed p) (WordsRange s e) = Inr False" using Overlap_eq [OF wf(1)] se(3) by auto
  define h0 where "h0 = PbHypo i (Some p) (po_target opt) ?bm (WordsRange s e)
    (WordsRange (sz_add (GetEndPos (ph_targetRange p)) 1) (sz_add (GetEndPos (ph_targetRange p)) (length (tp_words (po_target opt)))))
    (tp_words (po_target opt) = []) (Fin 0) (Fin 0) (ph_breakdown p) (map (\<lambda>_. None) (ph_states p)) None None (Some opt)"
  have h0: "extended_hypothesis i p opt = Inr h0"
    using SetValue_range_in [OF wf(1) se(1)] se(2) wf(2) free by (simp add: extended_hypothesis_def r(1) h0_def Let_def)
  have len: "length (ph_states h0) = length shape" using p by (auto simp: good_hypo_def h0_def)
  obtain t fut bd st where h: "pb_CalcScore (ps_sys ps) (ps_features ps) (oc_futureScore (ps_coll ps)) h0 = Inr (with_scores (Fin t) fut bd st h0)"
    "map Option.is_none st = shape" "length bd = si_last (py_index (ps_sys ps))" "scored ps (with_scores (Fin t) fut bd st h0)"
    using pb_CalcScore_total [of h0 opt p] r(2) len p wf by (auto simp: h0_def good_hypo_def wf_set_span)
  have "path ps (options_of p @ [opt]) ?bm (WordsRange s e)" by (rule path_step [OF path opt adm])
  moreover have "GetNumWordsCovered ?bm = j + (e - s + 1)"
    using GetNumWordsCovered_set_span [OF wf(1) se(1) _ se(3)] se(2) wf(2) p by (simp add: good_hypo_def)
  moreover have "placed (with_scores (Fin t) fut bd st h0)"
    using p placed_end [of p] by (auto simp: h0_def good_hypo_def sz_after(1)) (simp_all add: sz_after(2))
  ultimately have "good_hypo ps shape (j + (e - s + 1)) (with_scores (Fin t) fut bd st h0)"
    using h(2-4) p by (simp add: good_hypo_def) (simp add: h0_def output_of_def)
  moreover have "ph_prev h0 = Some p" "ph_arcs h0 = None" "ph_id h0 = i" by (simp_all add: h0_def)
  ultimately show ?thesis using h0 h(1) by auto
qed

lemma matches_constraint_total:
  "\<exists>b. matches_constraint p opt c = Inr b \<and> (c = None \<longrightarrow> b)"
proof (cases c)
  case (Some constrainingPhrase)
  have "\<exists>q. GetSubString constrainingPhrase (WordsRange a b) = Inr q" if "b < length constrainingPhrase" for a b
    using that rmap_Inr_map [of "[a..<Suc b]" "array_get constrainingPhrase" "(!) constrainingPhrase"]
    by (simp add: GetSubString_def del: upt_Suc)
  then show ?thesis using Some by (auto simp: matches_constraint_def Let_def) (metis rbind_simps(2))+
qed (auto simp: matches_constraint_def)

text \<open>The stacks of the search. The predecessor of a hypothesis or an arc covers fewer words, and no arc scores more than its winner.\<close>

definition edge_good :: "nat \<Rightarrow> 's pb_hypo \<Rightarrow> bool" where
  "edge_good j e \<longleftrightarrow> good_hypo ps shape j e \<and> (\<forall>p. ph_prev e = Some p \<longrightarrow> GetNumWordsCovered (ph_completed p) < j)"

definition stack_good :: "nat \<Rightarrow> 's hypo_stack \<Rightarrow> bool" where
  "stack_good j st \<longleftrightarrow> wf_stack st \<and> (\<forall>e \<in># edge_mset (hs_hypos st). edge_good j e) \<and> arcs_ok (hs_hypos st)
     \<and> same_limits (HypothesisStackNormal (ps_maxHypoStackSize ps) (ps_minHypoStackDiversity ps) (ps_beamWidth ps) (ps_nBestIsEnabled ps) :: 's hypo_stack) st
     \<and> (\<forall>h \<in> set (hs_hypos st). good_hypo ps shape j h)"

definition state_good :: "'s search_state \<Rightarrow> bool" where
  "state_good s \<longleftrightarrow> length (ss_stacks s) = Suc (words_of ps) \<and> (\<forall>j \<le> words_of ps. stack_good j (ss_stacks s ! j))
     \<and> (\<forall>e \<in># edge_mset (hs_hypos (ss_stacks s ! 0)). e = core (initial_hypothesis (ps_sys ps) (ps_features ps) 0))"

text \<open>No identifier is given twice, to a hypothesis on a stack or to an arc.\<close>

definition state_ids :: "'s hypo_stack list \<Rightarrow> nat multiset" where
  "state_ids stacks = (\<Sum>st \<in># mset stacks. image_mset ph_id (edge_mset (hs_hypos st)))"

definition fresh :: "'s search_state \<Rightarrow> bool" where
  "fresh s \<longleftrightarrow> state_ids (ss_stacks s) \<subseteq># mset [0..<ss_hypoId s]"

lemma state_ids_update:
  assumes "j < length stacks" "edge_mset (hs_hypos st) \<subseteq># M + edge_mset (hs_hypos (stacks ! j))"
  shows "state_ids (stacks[j := st]) \<subseteq># image_mset ph_id M + state_ids stacks"
proof -
  obtain R where R: "mset stacks = add_mset (stacks ! j) R" using assms(1) by (metis insert_DiffM nth_mem_mset)
  then have "mset (stacks[j := st]) = add_mset st R" using assms(1) by (simp add: mset_update)
  then show ?thesis using image_mset_subseteq_mono [OF assms(2), of ph_id] R by (simp add: state_ids_def subset_mset.add_right_mono ac_simps)
qed

lemma fresh_update:
  assumes "fresh s" "j < length (ss_stacks s)" "edge_mset (hs_hypos st) \<subseteq># edge_mset (hs_hypos (ss_stacks s ! j))"
  shows "fresh (s\<lparr>ss_stacks := (ss_stacks s)[j := st]\<rparr>)"
  using state_ids_update [OF assms(2), of st "{#}"] assms(1,3) by (auto simp: fresh_def intro: subset_mset.order_trans)

lemma fresh_add:
  assumes "fresh s" "j < length (ss_stacks s)" "edge_mset (hs_hypos st) \<subseteq># add_mset (core h) (edge_mset (hs_hypos (ss_stacks s ! j)))" "ph_id h = ss_hypoId s"
  shows "fresh (s\<lparr>ss_hypoId := Suc (ss_hypoId s), ss_stacks := (ss_stacks s)[j := st]\<rparr>)"
proof -
  have "state_ids ((ss_stacks s)[j := st]) \<subseteq># add_mset (ss_hypoId s) (state_ids (ss_stacks s))"
    using state_ids_update [OF assms(2), of st "{#core h#}"] assms(3,4) by simp
  also have "\<dots> \<subseteq># add_mset (ss_hypoId s) (mset [0..<ss_hypoId s])" using assms(1) by (simp add: fresh_def)
  finally show ?thesis by (simp add: fresh_def)
qed

text \<open>
  What the expansion of a hypothesis on stack i leaves: the stacks up to i, and no stack becomes empty; and the
  predecessors it adds are in X.
\<close>

definition later :: "'s pb_hypo set \<Rightarrow> nat \<Rightarrow> 's search_state \<Rightarrow> 's search_state \<Rightarrow> bool" where
  "later X i s s' \<longleftrightarrow> (\<forall>j \<le> i. ss_stacks s' ! j = ss_stacks s ! j)
     \<and> (\<forall>j \<le> words_of ps. hs_hypos (ss_stacks s ! j) \<noteq> [] \<longrightarrow> hs_hypos (ss_stacks s' ! j) \<noteq> [])
     \<and> (\<forall>j \<le> words_of ps. stack_prevs (ss_stacks s' ! j) \<subseteq> X \<union> stack_prevs (ss_stacks s ! j))
     \<and> ss_interrupted s' = ss_interrupted s \<and> (fresh s \<longrightarrow> fresh s')"

lemma later_refl [simp]: "later X i s s"
  by (simp add: later_def)

lemma later_trans: "later X i s s1 \<Longrightarrow> later X i s1 s2 \<Longrightarrow> later X i s s2"
  unfolding later_def by (elim conjE, intro conjI) (simp, simp, blast, simp, simp)

lemma later_mono: "later X i s s1 \<Longrightarrow> X \<subseteq> Y \<Longrightarrow> later Y i s s1"
  unfolding later_def by blast

lemma good_bare: "good_hypo ps shape j (bare h) = good_hypo ps shape j h"
  by (cases h) (simp add: good_hypo_def scored_def)

lemma good_winning: "good_hypo ps shape j (pb_SetWinningHypo w h) = good_hypo ps shape j h"
  by (cases h) (simp add: good_hypo_def scored_def)

lemma good_core: "good_hypo ps shape j (core h) = good_hypo ps shape j h"
  by (simp add: core_def good_bare good_winning)

text \<open>A hypothesis that has just been made.\<close>

definition new_hypo :: "nat \<Rightarrow> 's pb_hypo \<Rightarrow> bool" where
  "new_hypo j h \<longleftrightarrow> edge_good j h \<and> ph_arcs h = None"

lemma edge_good_core: "edge_good j h \<Longrightarrow> edge_good j (core h)"
  by (simp add: edge_good_def good_core)

lemma AddPrune_good:
  assumes st: "stack_good j st" and h: "new_hypo j h"
  shows "\<exists>b st'. hs_AddPrune (orderer ps) (ps_sel ps) (ps_maxDistortion ps) (ps_disableDiscarding ps) h st = Inr (b, st')
    \<and> stack_good j st' \<and> hs_hypos st' \<noteq> [] \<and> stack_prevs st' \<subseteq> prevs h \<union> stack_prevs st
    \<and> edge_mset (hs_hypos st') \<subseteq># add_mset (core h) (edge_mset (hs_hypos st))"
proof -
  have m: "hs_minHypoStackDiversity st = ps_minHypoStackDiversity ps" using st by (simp add: stack_good_def same_limits_def HypothesisStackNormal_def)
  have good: "good_hypo ps shape j h" using h by (simp add: new_hypo_def edge_good_def)
  have ids: "ids_ok (hs_minHypoStackDiversity st) [h]" "shift_ok (ps_maxDistortion ps) st"
    using good_id [OF good] m ok by (auto simp: ids_ok_def shift_ok_def search_ok_def)
  have wf: "wf_stack st" using st by (simp add: stack_good_def)
  from AddPrune_spec [OF this good_ok_pb [OF good] ids]
  obtain b st' where st': "hs_AddPrune (orderer ps) (ps_sel ps) (ps_maxDistortion ps) (ps_disableDiscarding ps) h st = Inr (b, st')"
    "added (ps_maxDistortion ps) (ps_disableDiscarding ps) h st st'" by blast
  then have a: "wf_stack st'" "hs_hypos st' \<noteq> []" "same_limits st st'" "stack_prevs st' \<subseteq> prevs h \<union> stack_prevs st" unfolding added_def by blast+
  have edges: "edge_mset (hs_hypos st') \<subseteq># add_mset (core h) (edge_mset (hs_hypos st))" "arcs_ok (hs_hypos st')"
    using AddPrune_edges [OF st'(1) sel_mset recomb.ok_set_distinct [OF wf_ok_set [OF wf]]] h st by (simp_all add: new_hypo_def stack_good_def)
  have "edge_good j e" if "e \<in># edge_mset (hs_hypos st')" for e
    using mset_subset_eqD [OF edges(1) that] h st edge_good_core by (auto simp: new_hypo_def stack_good_def)
  moreover from this have "good_hypo ps shape j g" if "g \<in> set (hs_hypos st')" for g
    using core_in_edges [OF that, of g] good_core [of j g] by (auto simp: edge_good_def)
  ultimately have "stack_good j st'" using a(1) st same_limits_trans a(3) edges(2) unfolding stack_good_def by blast
  then show ?thesis using st'(1) a(2,4) edges(1) by blast
qed

lemma add_to_stack_step:
  assumes s: "state_good s" and h: "new_hypo j h" "ph_id h = ss_hypoId s" and j: "i < j" "j \<le> words_of ps"
  shows "\<exists>s'. add_to_stack ps j h (s\<lparr>ss_hypoId := Suc (ss_hypoId s)\<rparr>) = Inr s' \<and> state_good s' \<and> later (prevs h) i s s' \<and> hs_hypos (ss_stacks s' ! j) \<noteq> []"
proof -
  have len: "length (ss_stacks s) = Suc (words_of ps)" and st: "stack_good j (ss_stacks s ! j)" using s j(2) by (simp_all add: state_good_def)
  from AddPrune_good [OF st h(1)]
  obtain b st' where st': "hs_AddPrune (orderer ps) (ps_sel ps) (ps_maxDistortion ps) (ps_disableDiscarding ps) h (ss_stacks s ! j) = Inr (b, st')"
    "stack_good j st'" "hs_hypos st' \<noteq> []" "stack_prevs st' \<subseteq> prevs h \<union> stack_prevs (ss_stacks s ! j)"
    "edge_mset (hs_hypos st') \<subseteq># add_mset (core h) (edge_mset (hs_hypos (ss_stacks s ! j)))" by blast
  let ?s' = "s\<lparr>ss_hypoId := Suc (ss_hypoId s), ss_stacks := (ss_stacks s)[j := st']\<rparr>"
  have "add_to_stack ps j h (s\<lparr>ss_hypoId := Suc (ss_hypoId s)\<rparr>) = Inr ?s'" using st'(1) len j(2) by (simp add: add_to_stack_def)
  moreover have "state_good ?s'" using s st'(2) len j by (auto simp: state_good_def nth_list_update)
  moreover have "fresh s \<longrightarrow> fresh ?s'" using fresh_add [OF _ _ st'(5) h(2)] len j(2) by simp
  then have "later (prevs h) i s ?s'" using st'(3,4) len j by (auto simp: later_def nth_list_update)
  ultimately show ?thesis using st'(3) len j(2) by (intro exI [of _ ?s']) simp
qed

text \<open>When a hypothesis covering one more word is sure to be added.\<close>

definition fits :: "nat \<Rightarrow> nat \<Rightarrow> bool" where
  "fits startPos endPos \<longleftrightarrow> pf_constraint (ps_features ps) = None \<and> startPos = endPos \<and> offer (ps_sys ps) (ps_coll ps) startPos endPos \<noteq> []"

abbreviation filled_stack :: "nat \<Rightarrow> 's search_state \<Rightarrow> bool" where
  "filled_stack j s \<equiv> hs_hypos (ss_stacks s ! j) \<noteq> []"

lemma ExpandHypothesis_step:
  assumes s: "state_good s" and p: "good_hypo ps shape i p" and opt: "opt \<in> set (offer (ps_sys ps) (ps_coll ps) a e)"
    and adm: "admitted ps (ph_completed p) (ph_sourceRange p) a e"
  shows "\<exists>s'. ExpandHypothesis ps p x opt s = Inr s' \<and> state_good s' \<and> later {p} i s s' \<and> (fits a e \<longrightarrow> filled_stack (Suc i) s')"
proof -
  have early: "\<not> ps_earlyDiscarding ps" using ok by (simp add: search_ok_def)
  obtain b where b: "matches_constraint p opt (pf_constraint (ps_features ps)) = Inr b" "pf_constraint (ps_features ps) = None \<longrightarrow> b"
    using matches_constraint_total by blast
  show ?thesis
  proof (cases b)
    case True
    from extend_good [OF p opt adm]
    obtain h0 h where h: "extended_hypothesis (ss_hypoId s) p opt = Inr h0"
      "pb_CalcScore (ps_sys ps) (ps_features ps) (oc_futureScore (ps_coll ps)) h0 = Inr h" "good_hypo ps shape (i + (e - a + 1)) h"
      "ph_prev h = Some p" "ph_arcs h = None" "ph_id h = ss_hypoId s" by blast
    have prevs: "prevs h = {p}" by (simp add: prevs_def h(4,5))
    have "wb_size (ph_completed h) = words_of ps" "GetNumWordsCovered (ph_completed h) = i + (e - a + 1)"
      using h(3) path_wf(2) [OF _ n_small] by (auto simp: good_hypo_def)
    then have j: "i < i + (e - a + 1)" "i + (e - a + 1) \<le> words_of ps" using GetNumWordsCovered_le [of "ph_completed h"] by auto
    have "new_hypo (i + (e - a + 1)) h" using h p by (simp add: new_hypo_def edge_good_def good_hypo_def)
    from add_to_stack_step [OF s this h(6) j, unfolded prevs]
    obtain s' where s': "add_to_stack ps (i + (e - a + 1)) h (s\<lparr>ss_hypoId := Suc (ss_hypoId s)\<rparr>) = Inr s'" "state_good s'" "later {p} i s s'"
      "hs_hypos (ss_stacks s' ! (i + (e - a + 1))) \<noteq> []" by blast
    have "ExpandHypothesis ps p x opt s = Inr s'"
      using early b(1) True h(1,2) s'(1) \<open>GetNumWordsCovered (ph_completed h) = i + (e - a + 1)\<close>
      by (simp add: ExpandHypothesis_def build_hypothesis_def Hypothesis_Create_def)
    then show ?thesis using s'(2-4) by (auto simp: fits_def)
  next
    case False
    then have "ExpandHypothesis ps p x opt s = Inr s" "\<not> fits a e"
      using early b by (auto simp: ExpandHypothesis_def build_hypothesis_def Hypothesis_Create_def fits_def)
    then show ?thesis using s by simp
  qed
qed

lemma option_list:
  assumes "a < words_of ps" "a \<le> e" "e < a + max_size (ps_sys ps) a"
  shows "GetTranslationOptionList (ps_sys ps) a e (ps_coll ps) = Inr (offer (ps_sys ps) (ps_coll ps) a e)"
proof -
  have "wf_coll (ps_sys ps) (ps_coll ps)" using ok by (simp add: search_ok_def options_ok_def)
  then have row: "a < length (oc_collection (ps_coll ps))" "length (oc_collection (ps_coll ps) ! a) = max_size (ps_sys ps) a"
    using assms(1) by (auto simp: wf_coll_def)
  have "e - a < max_size (ps_sys ps) a" "e - a < py_maxPhraseLength (ps_sys ps)" using assms max_size_le(2) [of "ps_sys ps" a] by linarith+
  moreover have "e < words_of ps" using assms max_size_le(1) [of "ps_sys ps" a] by linarith
  moreover from this have "list_index (ps_sys ps) a e = e - a"
    using assms(2) calculation(2) n_small by (simp add: list_index_def SIZE_RANGE_def)
  ultimately show ?thesis using row by (simp add: GetTranslationOptionList_def offer_def)
qed

lemma free_less:
  assumes p: "good_hypo ps shape i p" and k: "k < words_of ps" "\<not> covered (ph_completed p) k"
  shows "i < words_of ps"
proof -
  have wf: "wf_bitmap (ph_completed p)" "wb_size (ph_completed p) = words_of ps" and i: "GetNumWordsCovered (ph_completed p) = i"
    using p path_wf [OF _ n_small] by (auto simp: good_hypo_def)
  have "GetNumWordsCovered (ph_completed p) \<noteq> wb_size (ph_completed p)" using k wf(2) IsComplete_iff [of "ph_completed p"] by (auto simp: IsComplete_def)
  then show ?thesis using GetNumWordsCovered_le [of "ph_completed p"] wf(2) i by simp
qed

text \<open>A loop of expansions of a hypothesis on stack i.\<close>

lemma expansion_loop:
  assumes "\<And>x s. x \<in> set xs \<Longrightarrow> state_good s \<Longrightarrow> \<exists>s'. f x s = Inr s' \<and> state_good s' \<and> later X i s s' \<and> (hit x \<longrightarrow> filled_stack (Suc i) s')"
    and "state_good s" "i < words_of ps"
  shows "\<exists>s'. rfold f xs s = Inr s' \<and> state_good s' \<and> later X i s s' \<and> ((\<exists>x \<in> set xs. hit x) \<longrightarrow> filled_stack (Suc i) s')"
proof -
  have "\<exists>s'. rfold f xs s = Inr s' \<and> (state_good s' \<and> later X i s s')
    \<and> (filled_stack (Suc i) s \<or> (\<exists>x \<in> set xs. hit x) \<longrightarrow> filled_stack (Suc i) s')"
  proof (rule rfold_reach)
    fix x s1
    assume x: "x \<in> set xs" and s1: "state_good s1 \<and> later X i s s1"
    obtain s2 where s2: "f x s1 = Inr s2" "state_good s2" "later X i s1 s2" "hit x \<longrightarrow> filled_stack (Suc i) s2" using assms(1) [OF x, of s1] s1 by blast
    moreover have "filled_stack (Suc i) s1 \<longrightarrow> filled_stack (Suc i) s2" using s2(3) assms(3) by (simp add: later_def)
    ultimately show "\<exists>s'. f x s1 = Inr s' \<and> (state_good s' \<and> later X i s s') \<and> (filled_stack (Suc i) s1 \<or> hit x \<longrightarrow> filled_stack (Suc i) s')"
      using s1 later_trans by blast
  qed (use assms(2) in simp)
  then show ?thesis by blast
qed

lemma ExpandAllHypotheses_step:
  assumes s: "state_good s" and p: "good_hypo ps shape i p" and e: "e < a + max_size (ps_sys ps) a"
    and adm: "admitted ps (ph_completed p) (ph_sourceRange p) a e"
  shows "\<exists>s'. ExpandAllHypotheses ps p a e s = Inr s' \<and> state_good s' \<and> later {p} i s s' \<and> (fits a e \<longrightarrow> filled_stack (Suc i) s')"
proof -
  let ?opts = "offer (ps_sys ps) (ps_coll ps) a e"
  have early: "\<not> ps_earlyDiscarding ps" using ok by (simp add: search_ok_def)
  have se: "a < words_of ps" "a \<le> e" "\<not> covered (ph_completed p) a" using adm by (auto simp: admitted_def)
  have i: "i < words_of ps" by (rule free_less [OF p se(1,3)])
  have "\<exists>s'. rfold (ExpandHypothesis ps p (Fin 0)) ?opts s = Inr s' \<and> state_good s' \<and> later {p} i s s'
    \<and> ((\<exists>opt \<in> set ?opts. fits a e) \<longrightarrow> filled_stack (Suc i) s')"
    by (rule expansion_loop [OF ExpandHypothesis_step [OF _ p _ adm] s i])
  moreover have "ExpandAllHypotheses ps p a e s = rfold (ExpandHypothesis ps p (Fin 0)) ?opts s"
    using early option_list [OF se(1,2) e] by (simp add: ExpandAllHypotheses_def)
  moreover have "fits a e \<longrightarrow> (\<exists>opt \<in> set ?opts. fits a e)" by (cases ?opts) (auto simp: fits_def)
  ultimately show ?thesis by auto
qed

text \<open>The conditions of the source on a span are those of the specification.\<close>

lemma good_bitmap:
  assumes "good_hypo ps shape i p"
  shows "wf_bitmap (ph_completed p)" "wb_size (ph_completed p) = words_of ps"
  using assms path_wf [OF _ n_small] by (auto simp: good_hypo_def)

lemma basic_checks_eq:
  assumes p: "good_hypo ps shape i p" and a: "a < words_of ps" "a \<le> e" "e < a + max_size (ps_sys ps) a"
  shows "\<exists>b. basic_checks ps (ph_completed p) a e = Inr b \<and> (b \<longleftrightarrow> offer (ps_sys ps) (ps_coll ps) a e \<noteq> []
    \<and> (\<forall>i. a \<le> i \<and> i \<le> e \<longrightarrow> \<not> covered (ph_completed p) i) \<and> Check (ps_maxDistortion ps) (ps_reordering ps) (ph_completed p) a e = Inr True)"
proof -
  note wf = good_bitmap [OF p]
  have e: "e < words_of ps" using a max_size_le(1) [of "ps_sys ps" a] by linarith
  have "valid_range (wb_size (ph_completed p)) (WordsRange a e)" using a(2) e wf n_small by (simp add: NOT_FOUND_def)
  then have over: "Overlap (ph_completed p) (WordsRange a e) = Inr (\<exists>i. a \<le> i \<and> i \<le> e \<and> covered (ph_completed p) i)"
    using Overlap_eq [OF wf(1)] by (auto simp: less_Suc_eq_le Bex_def simp del: upt_Suc)
  obtain b where b: "Check (ps_maxDistortion ps) (ps_reordering ps) (ph_completed p) a e = Inr b"
    using Check_total [OF wf constraint_ok e] by blast
  show ?thesis using option_list [OF a] over b by (simp add: basic_checks_def)
qed

lemma skip_start_eq:
  assumes p: "good_hypo ps shape i p" and a: "a < words_of ps"
  shows "\<exists>b. skip_start ps p a = Inr b
    \<and> (\<not> b \<longrightarrow> \<not> covered (ph_completed p) a \<and> ps_distance ps (ph_sourceRange p) (WordsRange a a) \<le> ps_maxDistortion ps)
    \<and> (\<not> covered (ph_completed p) a \<and> \<not> ps_isWordLattice ps \<and> ps_distance ps (ph_sourceRange p) (WordsRange a a) \<le> ps_maxDistortion ps \<longrightarrow> \<not> b)"
proof -
  note wf = good_bitmap [OF p]
  obtain k where "GetEdgeToTheLeftOf (ph_completed p) a = Inr k"
    using GetEdgeToTheLeftOf_spec [OF wf(1), of a] wf(2) a by auto
  then show ?thesis using a wf by (auto simp: skip_start_def Let_def GetValue_in)
qed

lemma expand_unlimited_step:
  assumes s: "state_good s" and p: "good_hypo ps shape i p" and a: "a < words_of ps" "e \<in> set [a..<a + max_size (ps_sys ps) a]"
    and d: "ps_maxDistortion ps < 0"
  shows "\<exists>s'. expand_unlimited ps p (a, e) s = Inr s' \<and> state_good s' \<and> later {p} i s s'
    \<and> (fits a e \<and> \<not> rc_active (ps_reordering ps) \<and> \<not> covered (ph_completed p) a \<longrightarrow> filled_stack (Suc i) s')"
proof -
  have e: "a \<le> e" "e < a + max_size (ps_sys ps) a" using a(2) by auto
  obtain b where b: "basic_checks ps (ph_completed p) a e = Inr b" "b \<longleftrightarrow> offer (ps_sys ps) (ps_coll ps) a e \<noteq> []
    \<and> (\<forall>i. a \<le> i \<and> i \<le> e \<longrightarrow> \<not> covered (ph_completed p) i) \<and> Check (ps_maxDistortion ps) (ps_reordering ps) (ph_completed p) a e = Inr True"
    using basic_checks_eq [OF p a(1) e] by blast
  show ?thesis
  proof (cases b)
    case True
    have "e < words_of ps" using a(1) e max_size_le(1) [of "ps_sys ps" a] by linarith
    then have "admitted ps (ph_completed p) (ph_sourceRange p) a e" using True b(2) e(1) d by (simp add: admitted_def)
    from ExpandAllHypotheses_step [OF s p e(2) this] show ?thesis using True b(1) by (auto simp: expand_unlimited_def)
  next
    case False
    then have "\<not> (fits a e \<and> \<not> rc_active (ps_reordering ps) \<and> \<not> covered (ph_completed p) a)"
      using b(2) by (auto simp: fits_def Check_def)
    then show ?thesis using False b(1) s by (auto simp: expand_unlimited_def)
  qed
qed

lemma expand_limited_step:
  assumes s: "state_good s" and p: "good_hypo ps shape i p" and a: "a < words_of ps" "e \<in> set [a..<a + max_size (ps_sys ps) a]"
    and d: "ps_distance ps (ph_sourceRange p) (WordsRange a a) \<le> ps_maxDistortion ps"
  shows "\<exists>s'. expand_limited ps p a e s = Inr s' \<and> state_good s' \<and> later {p} i s s'
    \<and> (fits a e \<and> \<not> rc_active (ps_reordering ps) \<and> \<not> ps_isWordLattice ps \<and> \<not> covered (ph_completed p) a \<and> GetFirstGapPos (ph_completed p) = a
         \<longrightarrow> filled_stack (Suc i) s')"
proof -
  have e: "a \<le> e" "e < a + max_size (ps_sys ps) a" "e < words_of ps"
    using a max_size_le(1) [of "ps_sys ps" a] by (auto simp del: upt_Suc)
  note wf = good_bitmap [OF p]
  obtain b where b: "basic_checks ps (ph_completed p) a e = Inr b" "b \<longleftrightarrow> offer (ps_sys ps) (ps_coll ps) a e \<noteq> []
    \<and> (\<forall>i. a \<le> i \<and> i \<le> e \<longrightarrow> \<not> covered (ph_completed p) i) \<and> Check (ps_maxDistortion ps) (ps_reordering ps) (ph_completed p) a e = Inr True"
    using basic_checks_eq [OF p a(1) e(1,2)] by blast
  obtain k where k: "GetEdgeToTheRightOf (ph_completed p) e = Inr k"
    using GetEdgeToTheRightOf_spec [OF wf(1), of e] wf(2) e(3) by auto
  define c where "c \<longleftrightarrow> (ps_isWordLattice ps \<longrightarrow> ps_IsCoveragePossible ps (WordsRange a e))
    \<and> \<not> (ps_isWordLattice ps \<and> k \<noteq> e \<and> k + 1 < words_of ps \<and> \<not> ps_CanIGetFromAToB ps (e + 1) (k + 1))
    \<and> (GetFirstGapPos (ph_completed p) = a
       \<or> ps_distance ps (WordsRange a e) (WordsRange (GetFirstGapPos (ph_completed p)) (GetFirstGapPos (ph_completed p))) \<le> ps_maxDistortion ps)"
  have run: "expand_limited ps p a e s = (if b \<and> c then ExpandAllHypotheses ps p a e s else Inr s)"
    using b(1) k by (auto simp: expand_limited_def Let_def c_def not_le)
  show ?thesis
  proof (cases "b \<and> c")
    case True
    then have "admitted ps (ph_completed p) (ph_sourceRange p) a e" using b(2) e d by (auto simp: admitted_def c_def)
    from ExpandAllHypotheses_step [OF s p e(2) this] show ?thesis using True run by auto
  next
    case False
    then have "\<not> (fits a e \<and> \<not> rc_active (ps_reordering ps) \<and> \<not> ps_isWordLattice ps \<and> \<not> covered (ph_completed p) a \<and> GetFirstGapPos (ph_completed p) = a)"
      using b(2) by (auto simp: fits_def Check_def c_def)
    then show ?thesis using False run s by auto
  qed
qed

lemma expand_start_step:
  assumes s: "state_good s" and p: "good_hypo ps shape i p" and a: "a < words_of ps" and d: "0 \<le> ps_maxDistortion ps" and i: "i < words_of ps"
  shows "\<exists>s'. rbind (skip_start ps p a) (\<lambda>skip. if skip then Inr s
      else rfold (expand_limited ps p a) [a..<a + max_size (ps_sys ps) a] s) = Inr s' \<and> state_good s' \<and> later {p} i s s'
    \<and> (always_extends ps \<and> GetFirstGapPos (ph_completed p) = a \<longrightarrow> filled_stack (Suc i) s')"
proof -
  let ?hit = "\<lambda>e. fits a e \<and> \<not> rc_active (ps_reordering ps) \<and> \<not> ps_isWordLattice ps \<and> \<not> covered (ph_completed p) a \<and> GetFirstGapPos (ph_completed p) = a"
  obtain b where b: "skip_start ps p a = Inr b"
    "\<not> b \<longrightarrow> \<not> covered (ph_completed p) a \<and> ps_distance ps (ph_sourceRange p) (WordsRange a a) \<le> ps_maxDistortion ps"
    "\<not> covered (ph_completed p) a \<and> \<not> ps_isWordLattice ps \<and> ps_distance ps (ph_sourceRange p) (WordsRange a a) \<le> ps_maxDistortion ps \<longrightarrow> \<not> b"
    using skip_start_eq [OF p a] by blast
  note wf = good_bitmap [OF p]
  have hit: "\<not> b \<and> a \<in> set [a..<a + max_size (ps_sys ps) a] \<and> ?hit a"
    if x: "always_extends ps" "GetFirstGapPos (ph_completed p) = a"
  proof -
    have "path ps (options_of p) (ph_completed p) (ph_sourceRange p)" using p by (simp add: good_hypo_def)
    then have "ps_distance ps (ph_sourceRange p) (WordsRange a a) \<le> ps_maxDistortion ps"
      using path_limit [OF _ n_small _ d] x a by (auto simp: always_extends_def)
    moreover have free: "\<not> covered (ph_completed p) a" using GetFirstGapPos_found [OF wf(1), of a] wf(2) a x(2) by simp
    moreover have "offer (ps_sys ps) (ps_coll ps) a a \<noteq> []" using x(1) a by (simp add: always_extends_def)
    ultimately show ?thesis using b(3) x by (auto simp: always_extends_def fits_def offer_def split: if_splits)
  qed
  show ?thesis
  proof (cases b)
    case False
    have "\<exists>s'. rfold (expand_limited ps p a) [a..<a + max_size (ps_sys ps) a] s = Inr s' \<and> state_good s' \<and> later {p} i s s'
      \<and> ((\<exists>e \<in> set [a..<a + max_size (ps_sys ps) a]. ?hit e) \<longrightarrow> filled_stack (Suc i) s')"
      by (rule expansion_loop [OF _ s i]) (use expand_limited_step [OF _ p a] b(2) False in blast)
    then show ?thesis using b(1) False hit by auto
  qed (use b(1) hit s in auto)
qed

lemma ProcessOneHypothesis_step:
  assumes s: "state_good s" and p: "good_hypo ps shape i p"
  shows "\<exists>s'. ProcessOneHypothesis ps p s = Inr s' \<and> state_good s' \<and> later {p} i s s'
    \<and> (always_extends ps \<and> i < words_of ps \<longrightarrow> filled_stack (Suc i) s')"
proof (cases "GetFirstGapPos (ph_completed p) < words_of ps")
  case gap: True
  let ?g = "GetFirstGapPos (ph_completed p)" and ?n = "words_of ps"
  note wf = good_bitmap [OF p]
  have free: "\<not> covered (ph_completed p) ?g" using GetFirstGapPos_found [OF wf(1), of ?g] gap wf(2) by simp
  have i: "i < ?n" by (rule free_less [OF p gap free])
  have mem: "?g \<in> set [?g..<?n]" using gap by simp
  show ?thesis
  proof (cases "ps_maxDistortion ps < 0")
    case True
    let ?ends = "\<lambda>a. [a..<a + max_size (ps_sys ps) a]"
    let ?hit = "\<lambda>a e. fits a e \<and> \<not> rc_active (ps_reordering ps) \<and> \<not> covered (ph_completed p) a"
    have "\<exists>s'. rfold (\<lambda>a. rfold (\<lambda>e. expand_unlimited ps p (a, e)) (?ends a)) [?g..<?n] s = Inr s' \<and> state_good s' \<and> later {p} i s s'
      \<and> ((\<exists>a \<in> set [?g..<?n]. \<exists>e \<in> set (?ends a). ?hit a e) \<longrightarrow> filled_stack (Suc i) s')"
    proof (rule expansion_loop [OF _ s i])
      fix a s1
      assume "a \<in> set [?g..<?n]" and s1: "state_good s1"
      then have a: "a < ?n" by simp
      show "\<exists>s'. rfold (\<lambda>e. expand_unlimited ps p (a, e)) (?ends a) s1 = Inr s' \<and> state_good s' \<and> later {p} i s1 s'
          \<and> ((\<exists>e \<in> set (?ends a). ?hit a e) \<longrightarrow> filled_stack (Suc i) s')"
        by (rule expansion_loop [OF _ s1 i]) (use expand_unlimited_step [OF _ p a _ True] in blast)
    qed
    moreover have "\<exists>a \<in> set [?g..<?n]. \<exists>e \<in> set (?ends a). ?hit a e" if "always_extends ps"
    proof (intro bexI [of _ ?g] mem)
      have "offer (ps_sys ps) (ps_coll ps) ?g ?g \<noteq> []" using that gap by (simp add: always_extends_def)
      then show "?hit ?g ?g" "?g \<in> set (?ends ?g)" using that free by (auto simp: always_extends_def fits_def offer_def split: if_splits)
    qed
    ultimately show ?thesis using True by (auto simp: ProcessOneHypothesis_def Let_def)
  next
    case False
    have "\<exists>s'. rfold (\<lambda>a s. rbind (skip_start ps p a) (\<lambda>skip. if skip then Inr s
        else rfold (expand_limited ps p a) [a..<a + max_size (ps_sys ps) a] s)) [?g..<?n] s = Inr s' \<and> state_good s' \<and> later {p} i s s'
      \<and> ((\<exists>a \<in> set [?g..<?n]. always_extends ps \<and> ?g = a) \<longrightarrow> filled_stack (Suc i) s')"
    proof (rule expansion_loop [OF _ s i])
      fix a s1
      assume a: "a \<in> set [?g..<?n]" and s1: "state_good s1"
      show "\<exists>s'. rbind (skip_start ps p a) (\<lambda>skip. if skip then Inr s1
          else rfold (expand_limited ps p a) [a..<a + max_size (ps_sys ps) a] s1) = Inr s' \<and> state_good s' \<and> later {p} i s1 s'
        \<and> (always_extends ps \<and> ?g = a \<longrightarrow> filled_stack (Suc i) s')"
        by (rule expand_start_step [OF s1 p _ _ i]) (use a False in simp_all)
    qed
    then show ?thesis using False mem by (auto simp: ProcessOneHypothesis_def Let_def)
  qed
next
  case False
  then have complete: "\<forall>k < words_of ps. covered (ph_completed p) k"
    using GetFirstGapPos_free [OF good_bitmap(1) [OF p]] good_bitmap(2) [OF p] by auto
  have "\<not> i < words_of ps"
    using complete IsComplete_iff [of "ph_completed p"] good_bitmap(2) [OF p] p by (simp add: IsComplete_def good_hypo_def)
  moreover have "ProcessOneHypothesis ps p s = Inr s" using False by (simp add: ProcessOneHypothesis_def Let_def)
  ultimately show ?thesis using s by simp
qed

text \<open>Pruning a stack and its arcs.\<close>

lemma CleanupArcList_core:
  "pb_CleanupArcList sel distinctNBest k h = Inr g \<Longrightarrow> bare (pb_SetWinningHypo None g) = bare (pb_SetWinningHypo None h)"
  by (cases h) (auto simp: pb_CleanupArcList_def Let_def rbind_eq_Inr split: option.splits if_splits)

lemma CleanupArcList_prevs:
  assumes "pb_CleanupArcList (ps_sel ps) distinctNBest k h = Inr g"
  shows "prevs g \<subseteq> prevs h"
proof (cases "ph_arcs h")
  case None
  then show ?thesis using assms by (auto simp: pb_CleanupArcList_def prevs_def)
next
  case (Some arcs)
  have "set (take k (ps_sel ps ph_total (k - 1) arcs)) \<subseteq> set arcs"
    using set_take_subset [of k "ps_sel ps ph_total (k - 1) arcs"] by simp
  moreover obtain kept where "g = pb_with_arcs (Some (map (pb_SetWinningHypo (Some (ph_id h))) kept)) (pb_SetWinningHypo (Some (ph_id h)) h)"
    "kept = arcs \<or> kept = take k (ps_sel ps ph_total (k - 1) arcs)"
    using assms Some by (auto simp: pb_CleanupArcList_def Let_def rbind_eq_Inr split: if_splits)
  ultimately show ?thesis using Some by (auto simp: prevs_def)
qed

lemma PruneToSize_good:
  assumes "stack_good j st" "0 < k"
  shows "\<exists>st'. hs_PruneToSize (orderer ps) (ps_sel ps) k st = Inr st' \<and> stack_good j st' \<and> (hs_hypos st \<noteq> [] \<longrightarrow> hs_hypos st' \<noteq> [])
    \<and> stack_prevs st' \<subseteq> stack_prevs st \<and> edge_mset (hs_hypos st') \<subseteq># edge_mset (hs_hypos st)"
proof (cases "hs_hypos st = []")
  case False
  have wf: "bounded st" using assms(1) by (simp add: stack_good_def wf_stack_def)
  obtain b where b: "b \<in> set (hs_hypos st)" "ph_total b = hs_bestScore st"
    using assms(1) False by (auto simp: stack_good_def wf_stack_def split: if_splits)
  from PruneToSize_bounded [OF wf b assms(2)]
  obtain st' where st': "hs_PruneToSize (orderer ps) (ps_sel ps) k st = Inr st'" "wf_stack st'" "pruned_to k st st'" "hs_hypos st' \<noteq> []" by blast
  then have "same_limits st st'" "set (hs_hypos st') \<subseteq> set (hs_hypos st)" by (simp_all add: pruned_to_def)
  moreover have edges: "edge_mset (hs_hypos st') \<subseteq># edge_mset (hs_hypos st)" by (rule edge_mset_mono [OF PruneToSize_sub [OF st'(1) sel_mset]])
  ultimately have "stack_good j st'"
    using st'(2) assms(1) same_limits_trans arcs_ok_subset mset_subset_eqD [OF edges] by (auto simp: stack_good_def)
  then show ?thesis using st' edges stack_prevs_mono [OF \<open>set (hs_hypos st') \<subseteq> set (hs_hypos st)\<close>] by blast
qed (use assms in \<open>simp add: hs_PruneToSize_def\<close>)

lemma CleanupArcList_good:
  assumes "stack_good j st"
  shows "\<exists>st'. hs_CleanupArcList (ps_sel ps) (ps_distinctNBest ps) (ps_nBestSize ps) st = Inr st' \<and> stack_good j st'
    \<and> (hs_hypos st \<noteq> [] \<longrightarrow> hs_hypos st' \<noteq> []) \<and> stack_prevs st' \<subseteq> stack_prevs st
    \<and> edge_mset (hs_hypos st') \<subseteq># edge_mset (hs_hypos st) \<and> (ps_nBestIsEnabled ps \<longrightarrow> winners_set (hs_hypos st'))"
proof (cases "hs_nBestIsEnabled st")
  case True
  define f where "f h = (case pb_CleanupArcList (ps_sel ps) (ps_distinctNBest ps) (ps_nBestSize ps) h of Inr g \<Rightarrow> g | Inl _ \<Rightarrow> h)" for h
  have "ps_distinctNBest ps \<or> 0 < ps_nBestSize ps"
    using True assms ok by (simp add: stack_good_def same_limits_def HypothesisStackNormal_def search_ok_def)
  then have run: "pb_CleanupArcList (ps_sel ps) (ps_distinctNBest ps) (ps_nBestSize ps) h = Inr (f h)" for h
    by (auto simp: pb_CleanupArcList_def f_def Let_def split: option.splits)
  have core: "bare (pb_SetWinningHypo None (f h)) = bare (pb_SetWinningHypo None h)" for h
    by (rule CleanupArcList_core [OF run])
  have same: "ph_completed (f h) = ph_completed h \<and> ph_states (f h) = ph_states h \<and> ph_total (f h) = ph_total h" for h
    using bare_eqD [OF core [of h]] by simp
  have good: "good_hypo ps shape j (f h) = good_hypo ps shape j h" for h using core [of h] good_bare good_winning by metis
  let ?st = "st\<lparr>hs_hypos := map f (hs_hypos st)\<rparr>"
  have "wf_stack ?st" using assms ok_set_map [of f "hs_hypos st"] same by (auto simp: stack_good_def wf_stack_def bounded_def ids_ok_def)
  moreover have clean: "hs_CleanupArcList (ps_sel ps) (ps_distinctNBest ps) (ps_nBestSize ps) st = Inr ?st"
    using True by (simp add: hs_CleanupArcList_def rmap_Inr_map [OF run])
  note edges = CleanupArcList_edges [OF clean sel_mset]
  ultimately have "stack_good j ?st"
    using assms good edges(2) mset_subset_eqD [OF edges(1)] by (auto simp: stack_good_def same_limits_def)
  moreover have "stack_prevs ?st \<subseteq> stack_prevs st" using CleanupArcList_prevs [OF run] by (auto simp: stack_prevs_def)
  ultimately show ?thesis using clean edges(1) edges(3) [OF True] by (intro exI [of _ ?st]) simp
next
  case False
  then have "\<not> ps_nBestIsEnabled ps" using assms by (simp add: stack_good_def same_limits_def HypothesisStackNormal_def)
  then show ?thesis using assms False by (simp add: hs_CleanupArcList_def)
qed

text \<open>What the step of stack i leaves: the stacks before it, and no stack becomes empty.\<close>

definition stepped :: "nat \<Rightarrow> 's search_state \<Rightarrow> 's search_state \<Rightarrow> bool" where
  "stepped i s s' \<longleftrightarrow> (\<forall>j < i. ss_stacks s' ! j = ss_stacks s ! j)
     \<and> (\<forall>j \<le> words_of ps. stack_prevs (ss_stacks s' ! j) \<subseteq> set (hs_hypos (ss_stacks s' ! i)) \<union> stack_prevs (ss_stacks s ! j))
     \<and> (\<forall>j \<le> words_of ps. filled_stack j s \<longrightarrow> filled_stack j s') \<and> (always_extends ps \<and> i < words_of ps \<and> filled_stack i s \<longrightarrow> filled_stack (Suc i) s')
     \<and> (fresh s \<longrightarrow> fresh s') \<and> (ps_nBestIsEnabled ps \<longrightarrow> winners_set (hs_hypos (ss_stacks s' ! i)))"

lemma process_stack_step:
  assumes s: "state_good s" and i: "i \<le> words_of ps"
  shows "\<exists>s'. process_stack ps i s = Inr s' \<and> state_good s' \<and> stepped i s s' \<and> ss_interrupted s' = ss_interrupted s \<and> ss_actual s' = Some i"
proof -
  have len: "length (ss_stacks s) = Suc (words_of ps)" and st: "stack_good i (ss_stacks s ! i)" using s i by (simp_all add: state_good_def)
  have "0 < ps_maxHypoStackSize ps" using ok by (simp add: search_ok_def)
  from PruneToSize_good [OF st this]
  obtain st1 where st1: "hs_PruneToSize (orderer ps) (ps_sel ps) (ps_maxHypoStackSize ps) (ss_stacks s ! i) = Inr st1" "stack_good i st1"
    "filled_stack i s \<longrightarrow> hs_hypos st1 \<noteq> []" "stack_prevs st1 \<subseteq> stack_prevs (ss_stacks s ! i)"
    "edge_mset (hs_hypos st1) \<subseteq># edge_mset (hs_hypos (ss_stacks s ! i))" by blast
  obtain st2 where st2: "hs_CleanupArcList (ps_sel ps) (ps_distinctNBest ps) (ps_nBestSize ps) st1 = Inr st2" "stack_good i st2"
    "hs_hypos st1 \<noteq> [] \<longrightarrow> hs_hypos st2 \<noteq> []" "stack_prevs st2 \<subseteq> stack_prevs st1"
    "edge_mset (hs_hypos st2) \<subseteq># edge_mset (hs_hypos st1)" "ps_nBestIsEnabled ps \<longrightarrow> winners_set (hs_hypos st2)"
    using CleanupArcList_good [OF st1(2)] by blast
  let ?s1 = "s\<lparr>ss_stacks := (ss_stacks s)[i := st2]\<rparr>"
  have sub: "edge_mset (hs_hypos st2) \<subseteq># edge_mset (hs_hypos (ss_stacks s ! i))" using st2(5) st1(5) by (rule subset_mset.order_trans)
  then have s1: "state_good ?s1" using s st2(2) len i mset_subset_eqD [OF sub] by (auto simp: state_good_def nth_list_update)
  have fresh1: "fresh s \<longrightarrow> fresh ?s1"
    using fresh_update [of s i st2] sub len i by simp
  let ?hit = "\<lambda>p. always_extends ps \<and> i < words_of ps"
  have "\<exists>s'. rfold (ProcessOneHypothesis ps) (hs_hypos st2) ?s1 = Inr s' \<and> (state_good s' \<and> later (set (hs_hypos st2)) i ?s1 s')
    \<and> ((i < words_of ps \<and> filled_stack (Suc i) ?s1) \<or> (\<exists>p \<in> set (hs_hypos st2). ?hit p) \<longrightarrow> i < words_of ps \<and> filled_stack (Suc i) s')"
  proof (rule rfold_reach)
    fix p s2
    assume p: "p \<in> set (hs_hypos st2)" and s2: "state_good s2 \<and> later (set (hs_hypos st2)) i ?s1 s2"
    have "good_hypo ps shape i p" using p st2(2) by (simp add: stack_good_def)
    from ProcessOneHypothesis_step [OF _ this, of s2] s2
    obtain s3 where s3: "ProcessOneHypothesis ps p s2 = Inr s3" "state_good s3" "later {p} i s2 s3" "?hit p \<longrightarrow> filled_stack (Suc i) s3" by blast
    have "later (set (hs_hypos st2)) i s2 s3" by (rule later_mono [OF s3(3)]) (use p in simp)
    moreover have "i < words_of ps \<and> filled_stack (Suc i) s2 \<longrightarrow> filled_stack (Suc i) s3" using s3(3) by (auto simp: later_def)
    ultimately show "\<exists>s'. ProcessOneHypothesis ps p s2 = Inr s' \<and> (state_good s' \<and> later (set (hs_hypos st2)) i ?s1 s')
        \<and> ((i < words_of ps \<and> filled_stack (Suc i) s2) \<or> ?hit p \<longrightarrow> i < words_of ps \<and> filled_stack (Suc i) s')"
      using s2 s3 later_trans by blast
  qed (use s1 in simp)
  then obtain s' where s': "rfold (ProcessOneHypothesis ps) (hs_hypos st2) ?s1 = Inr s'" "state_good s'" "later (set (hs_hypos st2)) i ?s1 s'"
    "(\<exists>p \<in> set (hs_hypos st2). ?hit p) \<longrightarrow> filled_stack (Suc i) s'" by blast
  let ?s' = "s'\<lparr>ss_actual := Some i\<rparr>"
  have "process_stack ps i s = Inr ?s'" using len i st1(1) st2(1) s'(1) by (simp add: process_stack_def)
  moreover have "state_good ?s'" using s'(2) by (simp add: state_good_def)
  moreover have "stepped i s ?s'"
    unfolding stepped_def
  proof (intro conjI)
    have at_i: "ss_stacks s' ! i = st2" using s'(3) len i by (simp add: later_def)
    have prevs: "stack_prevs (ss_stacks ?s1 ! j) \<subseteq> stack_prevs (ss_stacks s ! j)" for j
      using st1(4) st2(4) len i by (cases "j = i") auto
    have "stack_prevs (ss_stacks s' ! j) \<subseteq> set (hs_hypos st2) \<union> stack_prevs (ss_stacks s ! j)" if "j \<le> words_of ps" for j
    proof -
      have "stack_prevs (ss_stacks s' ! j) \<subseteq> set (hs_hypos st2) \<union> stack_prevs (ss_stacks ?s1 ! j)" using s'(3) that unfolding later_def by blast
      then show ?thesis using prevs [of j] by blast
    qed
    then show "\<forall>j \<le> words_of ps. stack_prevs (ss_stacks ?s' ! j) \<subseteq> set (hs_hypos (ss_stacks ?s' ! i)) \<union> stack_prevs (ss_stacks s ! j)"
      by (simp add: at_i)
    show "\<forall>j < i. ss_stacks ?s' ! j = ss_stacks s ! j" using s'(3) by (auto simp: later_def)
    show "\<forall>j \<le> words_of ps. filled_stack j s \<longrightarrow> filled_stack j ?s'"
      using s'(3) len i st1(3) st2(3) by (auto simp: later_def nth_list_update)
    have "filled_stack i s \<longrightarrow> (\<exists>p. p \<in> set (hs_hypos st2))" using st1(3) st2(3) by (auto simp: ex_in_conv)
    then show "always_extends ps \<and> i < words_of ps \<and> filled_stack i s \<longrightarrow> filled_stack (Suc i) ?s'" using s'(4) by auto
    show "fresh s \<longrightarrow> fresh ?s'" using fresh1 s'(3) by (simp add: later_def fresh_def)
    show "ps_nBestIsEnabled ps \<longrightarrow> winners_set (hs_hypos (ss_stacks ?s' ! i))" using st2(6) by (simp add: at_i)
  qed
  moreover have "ss_interrupted ?s' = ss_interrupted s" using s'(3) by (simp add: later_def)
  ultimately show ?thesis by (intro exI [of _ ?s']) simp
qed

text \<open>The predecessors of all hypotheses are on the first k stacks.\<close>

definition linked :: "nat \<Rightarrow> 's search_state \<Rightarrow> bool" where
  "linked k s \<longleftrightarrow> (\<forall>j \<le> words_of ps. stack_prevs (ss_stacks s ! j) \<subseteq> (\<Union>i < k. set (hs_hypos (ss_stacks s ! i))))"

lemma linked_step:
  assumes "linked i s" "stepped i s s'"
  shows "linked (Suc i) s'"
  unfolding linked_def
proof (intro allI impI)
  fix j
  assume j: "j \<le> words_of ps"
  have "stack_prevs (ss_stacks s' ! j) \<subseteq> set (hs_hypos (ss_stacks s' ! i)) \<union> stack_prevs (ss_stacks s ! j)"
    "\<forall>k < i. ss_stacks s' ! k = ss_stacks s ! k" using assms(2) j unfolding stepped_def by blast+
  moreover have "stack_prevs (ss_stacks s ! j) \<subseteq> (\<Union>k < i. set (hs_hypos (ss_stacks s ! k)))" using assms(1) j by (simp add: linked_def)
  ultimately show "stack_prevs (ss_stacks s' ! j) \<subseteq> (\<Union>k < Suc i. set (hs_hypos (ss_stacks s' ! k)))"
    unfolding lessThan_Suc by (auto dest!: subsetD)
qed

text \<open>The first state.\<close>

lemma initial_good: "good_hypo ps shape 0 (initial_hypothesis (ps_sys ps) (ps_features ps) i)"
proof -
  have bm: "WordsBitmap_from k [] = WordsBitmap k" for k
    by (simp add: WordsBitmap_from_def WordsBitmap_def Initialize_from_def Initialize_def)
  have wf: "wf_bitmap (WordsBitmap (words_of ps))" "wb_size (WordsBitmap (words_of ps)) = words_of ps"
    using n_small by (simp_all add: wf_WordsBitmap, simp add: WordsBitmap_def)
  have "GetFirstGapPos (WordsBitmap (words_of ps)) = (if words_of ps = 0 then NOT_FOUND else 0)"
    using GetFirstGapPos_found [OF wf(1), of 0] GetFirstGapPos_none [OF wf(1)] wf(2) by auto
  then have r: "ph_sourceRange (initial_hypothesis (ps_sys ps) (ps_features ps) i) = start_range (words_of ps)"
    using ok by (cases "py_source (ps_sys ps) = []") (simp_all add: initial_hypothesis_def search_ok_def bm Let_def start_range_def NOT_FOUND_def)
  have "GetNumWordsCovered (WordsBitmap (words_of ps)) = 0" using wf(2) by (simp add: GetNumWordsCovered_filter)
  then show ?thesis
    using ok path_start [of ps] r
    by (simp add: good_hypo_def search_ok_def features_ok_def initial_hypothesis_def bm Let_def ScoreComponentCollection_def output_of_def)
qed

lemma first_state_good:
  "\<exists>s. first_state ps = Inr s \<and> state_good s \<and> filled_stack 0 s \<and> \<not> ss_interrupted s \<and> linked 0 s \<and> fresh s"
proof -
  let ?st = "HypothesisStackNormal (ps_maxHypoStackSize ps) (ps_minHypoStackDiversity ps) (ps_beamWidth ps) (ps_nBestIsEnabled ps) :: 's hypo_stack"
  let ?h = "initial_hypothesis (ps_sys ps) (ps_features ps) 0"
  have "wf_stack ?st" using ok by (intro wf_HypothesisStackNormal) (simp_all add: search_ok_def)
  then have good: "stack_good j ?st" for j by (simp add: stack_good_def) (simp add: HypothesisStackNormal_def arcs_ok_def)
  have new: "new_hypo 0 ?h" using initial_good by (simp add: new_hypo_def edge_good_def) (simp add: initial_hypothesis_def Let_def)
  obtain b st where st: "hs_AddPrune (orderer ps) (ps_sel ps) (ps_maxDistortion ps) (ps_disableDiscarding ps) ?h ?st = Inr (b, st)"
    "stack_good 0 st" "hs_hypos st \<noteq> []" "stack_prevs st \<subseteq> prevs ?h \<union> stack_prevs ?st" "edge_mset (hs_hypos st) \<subseteq># add_mset (core ?h) (edge_mset (hs_hypos ?st))"
    using AddPrune_good [OF good new] by blast
  let ?s = "\<lparr>ss_stacks = (replicate (Suc (words_of ps)) ?st)[0 := st], ss_hypoId = 1, ss_interrupted = False, ss_actual = None\<rparr>"
  have "first_state ps = Inr ?s" using st(1) by (simp add: first_state_def add_to_stack_def SearchNormal_def)
  moreover have "edge_mset (hs_hypos ?st) = {#}" by (simp add: HypothesisStackNormal_def)
  then have "e = core ?h" if "e \<in># edge_mset (hs_hypos st)" for e using mset_subset_eqD [OF st(5) that] by simp
  then have "state_good ?s" using good st(2) by (auto simp: state_good_def nth_Cons split: nat.splits)
  moreover have "fresh ?s"
  proof -
    have "edge_mset (hs_hypos ?st) = {#}" "ph_id ?h = 0" by (simp_all add: HypothesisStackNormal_def initial_hypothesis_def Let_def)
    moreover have none: "sum_mset (replicate_mset k {#}) = ({#} :: nat multiset)" for k by (induction k) simp_all
    ultimately show ?thesis using image_mset_subseteq_mono [OF st(5), of ph_id] by (simp add: fresh_def state_ids_def none del: sum_mset_replicate_mset)
  qed
  moreover have "prevs ?h = {}" by (simp add: initial_hypothesis_def prevs_def Let_def)
  then have "stack_prevs st = {}" "stack_prevs ?st = {}" using st(4) by (simp_all add: stack_prevs_def HypothesisStackNormal_def)
  then have "linked 0 ?s" by (auto simp: linked_def nth_Cons split: nat.splits)
  ultimately show ?thesis using st(3) by (intro exI [of _ ?s]) simp
qed

lemma stack_step_good:
  assumes s: "state_good s" "linked i s" and i: "i \<le> words_of ps"
  shows "\<exists>s'. stack_step ps i s = Inr s' \<and> state_good s' \<and> linked (Suc i) s' \<and> (fresh s \<longrightarrow> fresh s') \<and> (\<forall>j < i. ss_stacks s' ! j = ss_stacks s ! j)
    \<and> (\<not> ss_interrupted s \<and> \<not> ps_timeout ps i \<longrightarrow> stepped i s s' \<and> \<not> ss_interrupted s')"
proof (cases "ss_interrupted s \<or> ps_timeout ps i")
  case True
  have "linked (Suc i) s" using s(2) unfolding linked_def lessThan_Suc by blast
  then show ?thesis using True s(1) by (auto simp: stack_step_def state_good_def linked_def fresh_def)
next
  case False
  then have "stack_step ps i s = process_stack ps i s" by (simp add: stack_step_def)
  moreover obtain s' where s': "process_stack ps i s = Inr s'" "state_good s'" "stepped i s s'" "ss_interrupted s' = ss_interrupted s"
    using process_stack_step [OF s(1) i] by blast
  moreover have "\<forall>j < i. ss_stacks s' ! j = ss_stacks s ! j" "fresh s \<longrightarrow> fresh s'" using s'(3) by (simp_all add: stepped_def)
  ultimately show ?thesis using linked_step [OF s(2) s'(3)] False by (intro exI [of _ s']) simp
qed

text \<open>The main loop up to stack k.\<close>

lemma stack_loop:
  assumes s: "state_good s" "filled_stack 0 s" "\<not> ss_interrupted s" "linked 0 s" "fresh s" and k: "k \<le> Suc (words_of ps)"
  shows "\<exists>s'. rfold (stack_step ps) [0..<k] s = Inr s' \<and> state_good s' \<and> linked k s' \<and> fresh s'
    \<and> ((\<forall>i. \<not> ps_timeout ps i) \<longrightarrow> \<not> ss_interrupted s' \<and> (ps_nBestIsEnabled ps \<longrightarrow> (\<forall>j < k. winners_set (hs_hypos (ss_stacks s' ! j))))
      \<and> (always_extends ps \<longrightarrow> (\<forall>j \<le> min k (words_of ps). filled_stack j s')))"
  using k
proof (induction k)
  case (Suc k)
  obtain s1 where s1: "rfold (stack_step ps) [0..<k] s = Inr s1" "state_good s1" "linked k s1" "fresh s1"
    "(\<forall>i. \<not> ps_timeout ps i) \<longrightarrow> \<not> ss_interrupted s1 \<and> (ps_nBestIsEnabled ps \<longrightarrow> (\<forall>j < k. winners_set (hs_hypos (ss_stacks s1 ! j))))
      \<and> (always_extends ps \<longrightarrow> (\<forall>j \<le> min k (words_of ps). filled_stack j s1))"
    using Suc by auto
  obtain s2 where s2: "stack_step ps k s1 = Inr s2" "state_good s2" "linked (Suc k) s2" "fresh s2" "\<forall>j < k. ss_stacks s2 ! j = ss_stacks s1 ! j"
    "\<not> ss_interrupted s1 \<and> \<not> ps_timeout ps k \<longrightarrow> stepped k s1 s2 \<and> \<not> ss_interrupted s2"
    using stack_step_good [OF s1(2,3)] s1(4) Suc.prems by auto
  have "filled_stack j s2" if t: "\<forall>i. \<not> ps_timeout ps i" "always_extends ps" "j \<le> min (Suc k) (words_of ps)" for j
  proof -
    have st: "stepped k s1 s2" "\<forall>j \<le> min k (words_of ps). filled_stack j s1" using s1(5) s2(6) t by auto
    then show ?thesis using t(2,3) by (cases "j = Suc k") (auto simp: stepped_def le_Suc_eq)
  qed
  moreover have "winners_set (hs_hypos (ss_stacks s2 ! j))" if "\<forall>i. \<not> ps_timeout ps i" "ps_nBestIsEnabled ps" "j < Suc k" for j
    using that s1(5) s2(5,6) by (cases "j = k") (auto simp: stepped_def)
  ultimately show ?case using s1(1,5) s2 by (auto simp: rfold_append)
qed (use s in simp)

lemma search_result:
  "\<exists>s. pb_ProcessSentence ps = Inr s \<and> state_good s \<and> linked (Suc (words_of ps)) s \<and> fresh s
    \<and> ((\<forall>i. \<not> ps_timeout ps i) \<longrightarrow> \<not> ss_interrupted s \<and> (ps_nBestIsEnabled ps \<longrightarrow> (\<forall>j \<le> words_of ps. winners_set (hs_hypos (ss_stacks s ! j))))
      \<and> (always_extends ps \<longrightarrow> filled_stack (words_of ps) s))"
proof -
  obtain s0 where s0: "first_state ps = Inr s0" "state_good s0" "filled_stack 0 s0" "\<not> ss_interrupted s0" "linked 0 s0" "fresh s0" using first_state_good by blast
  then have "length (ss_stacks s0) = Suc (words_of ps)" by (simp add: state_good_def)
  then show ?thesis using stack_loop [OF s0(2-6), of "Suc (words_of ps)"] s0(1) by (auto simp: pb_ProcessSentence_def less_Suc_eq_le simp del: upt_Suc)
qed

end

section \<open>Results\<close>

lemma stack_best:
  assumes "hs_hypos st \<noteq> []"
  shows "\<exists>h. hs_GetBestHypothesis st = Some h \<and> h \<in> set (hs_hypos st) \<and> (\<forall>g \<in> set (hs_hypos st). ph_total g \<le> ph_total h)"
proof -
  have "fold (\<lambda>hypo bestHypo. if ph_total hypo > ph_total bestHypo then hypo else bestHypo) hs b \<in> insert b (set hs)
    \<and> (\<forall>g \<in> insert b (set hs). ph_total g \<le> ph_total (fold (\<lambda>hypo bestHypo. if ph_total hypo > ph_total bestHypo then hypo else bestHypo) hs b))" for hs and b :: "'a pb_hypo"
  proof (induction hs arbitrary: b)
    case (Cons x xs)
    show ?case
    proof (cases "ph_total x > ph_total b")
      case True
      then show ?thesis using Cons [of x] by auto
    next
      case False
      then show ?thesis using Cons [of b] by (auto simp: not_less intro: order_trans)
    qed
  qed simp
  then show ?thesis using assms by (cases "hs_hypos st") (auto simp: hs_GetBestHypothesis_def)
qed

text \<open>Early discarding never creates a hypothesis.\<close>

lemma ExpandHypothesis_early:
  "ps_earlyDiscarding ps \<Longrightarrow> ExpandHypothesis ps p x opt s = Inr s' \<Longrightarrow> ss_stacks s' = ss_stacks s"
  by (auto simp: ExpandHypothesis_def build_hypothesis_def CalcExpectedScore_def Let_def rbind_eq_Inr split: option.splits if_splits)

lemma ExpandAllHypotheses_early:
  assumes "ps_earlyDiscarding ps" "ExpandAllHypotheses ps p a e s = Inr s'"
  shows "ss_stacks s' = ss_stacks s"
proof -
  obtain x opts where "rfold (ExpandHypothesis ps p x) opts s = Inr s'" using assms(2) by (auto simp: ExpandAllHypotheses_def rbind_eq_Inr)
  then show ?thesis by (rule rfold_invariant [where P = "\<lambda>u. ss_stacks u = ss_stacks s"]) (auto dest: ExpandHypothesis_early [OF assms(1)])
qed

lemma ProcessOneHypothesis_early:
  assumes early: "ps_earlyDiscarding ps" and run: "ProcessOneHypothesis ps p s = Inr s'"
  shows "ss_stacks s' = ss_stacks s"
proof (cases "ps_maxDistortion ps < 0")
  case True
  have span: "ss_stacks v = ss_stacks u" if "expand_unlimited ps p (a, e) u = Inr v" for a e u v
    using that ExpandAllHypotheses_early [OF early, of p a e u v] by (auto simp: expand_unlimited_def rbind_eq_Inr split: if_splits)
  have ends: "ss_stacks v = ss_stacks u" if "rfold (\<lambda>e. expand_unlimited ps p (a, e)) es u = Inr v" for a es u v
    by (rule rfold_invariant [OF that, where P = "\<lambda>w. ss_stacks w = ss_stacks u"]) (auto dest: span)
  obtain as where "rfold (\<lambda>a. rfold (\<lambda>e. expand_unlimited ps p (a, e)) [a..<a + max_size (ps_sys ps) a]) as s = Inr s'"
    using run True by (auto simp: ProcessOneHypothesis_def Let_def)
  then show ?thesis by (rule rfold_invariant [where P = "\<lambda>w. ss_stacks w = ss_stacks s"]) (auto dest: ends)
next
  case False
  have span: "ss_stacks v = ss_stacks u" if "expand_limited ps p a e u = Inr v" for a e u v
    using that ExpandAllHypotheses_early [OF early, of p a e u v] by (auto simp: expand_limited_def Let_def rbind_eq_Inr split: if_splits)
  have ends: "ss_stacks v = ss_stacks u" if "rfold (expand_limited ps p a) es u = Inr v" for a es u v
    by (rule rfold_invariant [OF that, where P = "\<lambda>w. ss_stacks w = ss_stacks u"]) (auto dest: span)
  obtain as where "rfold (\<lambda>a s. rbind (skip_start ps p a) (\<lambda>skip. if skip then Inr s
      else rfold (expand_limited ps p a) [a..<a + max_size (ps_sys ps) a] s)) as s = Inr s'"
    using run False by (auto simp: ProcessOneHypothesis_def Let_def)
  then show ?thesis
    by (rule rfold_invariant [where P = "\<lambda>w. ss_stacks w = ss_stacks s"]) (auto simp: rbind_eq_Inr dest: ends split: if_splits)
qed

lemma stack_step_early:
  assumes early: "ps_earlyDiscarding ps" and run: "stack_step ps i s = Inr s'"
  shows "length (ss_stacks s') = length (ss_stacks s) \<and> (hs_hypos (ss_stacks s ! j) = [] \<longrightarrow> hs_hypos (ss_stacks s' ! j) = [])"
proof (cases "ss_interrupted s \<or> ps_timeout ps i")
  case True
  then show ?thesis using run by (auto simp: stack_step_def split: if_splits)
next
  case False
  then obtain st1 st2 s1 where st: "i < length (ss_stacks s)" "hs_PruneToSize (orderer ps) (ps_sel ps) (ps_maxHypoStackSize ps) (ss_stacks s ! i) = Inr st1"
    "hs_CleanupArcList (ps_sel ps) (ps_distinctNBest ps) (ps_nBestSize ps) st1 = Inr st2"
    and loop: "rfold (ProcessOneHypothesis ps) (hs_hypos st2) (s\<lparr>ss_stacks := (ss_stacks s)[i := st2]\<rparr>) = Inr s1" "s' = s1\<lparr>ss_actual := Some i\<rparr>"
    using run by (auto simp: stack_step_def process_stack_def rbind_eq_Inr array_get_eq_Inr)
  have "ss_stacks s1 = (ss_stacks s)[i := st2]"
    by (rule rfold_invariant [OF loop(1), where P = "\<lambda>w. ss_stacks w = (ss_stacks s)[i := st2]"]) (auto dest: ProcessOneHypothesis_early [OF early])
  moreover have "hs_hypos st2 = []" if "i = j" "hs_hypos (ss_stacks s ! j) = []"
    using st(2,3) that by (auto simp: hs_PruneToSize_def hs_CleanupArcList_def split: if_splits)
  ultimately show ?thesis using st(1) loop(2) by (cases "i = j") auto
qed

lemma last_stack: "length xs = Suc n \<Longrightarrow> xs \<noteq> [] \<and> last xs = xs ! n"
  by (cases xs rule: rev_cases) auto

lemma searchI: "search_ok ps shape \<Longrightarrow> search ps shape"
  by (simp add: search_def)

lemma search_hypo:
  assumes "search_ok ps shape" "pb_ProcessSentence ps = Inr s" "j \<le> words_of ps" "h \<in> set (hs_hypos (ss_stacks s ! j))"
  shows "good_hypo ps shape j h"
  using search.search_result [OF searchI [OF assms(1)]] assms(2-4) searchI [OF assms(1)]
  by (auto simp: search.state_good_def search.stack_good_def)

section \<open>Properties\<close>

text \<open>
  C13. The search returns: for a sentence whose options, feature functions and limits are as search\_ok says, no CHECK
  fails, no stack, cell or word outside its array is read, and the search ends with a stack for every number of words. When the time is not
  over before the first stack, the best hypothesis can be asked for.
\<close>

theorem search_returns:
  assumes "search_ok ps shape"
  shows "\<exists>s. pb_ProcessSentence ps = Inr s \<and> length (ss_stacks s) = Suc (words_of ps)
    \<and> ((\<forall>i. \<not> ps_timeout ps i) \<longrightarrow> (\<exists>best. pb_GetBestHypothesis s = Inr best))"
proof -
  obtain s where s: "pb_ProcessSentence ps = Inr s" "search.state_good ps shape s" "(\<forall>i. \<not> ps_timeout ps i) \<longrightarrow> \<not> ss_interrupted s"
    using search.search_result [OF searchI [OF assms]] by blast
  moreover from this have "length (ss_stacks s) = Suc (words_of ps)" by (simp add: search.state_good_def [OF searchI [OF assms]])
  ultimately show ?thesis by (intro exI [of _ s]) (auto simp: pb_GetBestHypothesis_def)
qed

text \<open>
  C12. The search refines its specification: every hypothesis on stack j is a path, a sequence of translation options that the
  distortion limit and the reordering constraints admit one after the other; the options translate exactly the j words of its
  coverage, each word once; its output is their targets in order; and past the first stack its score is the weighted sum of its
  features and the estimate of the rest.
\<close>

theorem search_refines_paths:
  assumes "search_ok ps shape" "pb_ProcessSentence ps = Inr s" "j \<le> words_of ps" "h \<in> set (hs_hypos (ss_stacks s ! j))"
  shows "path ps (options_of h) (ph_completed h) (ph_sourceRange h) \<and> GetNumWordsCovered (ph_completed h) = j
    \<and> distinct (option_spans (options_of h)) \<and> set (option_spans (options_of h)) = {i. i < words_of ps \<and> covered (ph_completed h) i}
    \<and> pb_words h = output_of ps (options_of h) \<and> (j \<noteq> 0 \<longrightarrow> scored ps h)"
proof -
  have good: "good_hypo ps shape j h" by (rule search_hypo [OF assms])
  then have "path ps (options_of h) (ph_completed h) (ph_sourceRange h)" by (simp add: good_hypo_def)
  moreover have "words_of ps < 2 ^ 31" "options_ok ps" using assms(1) by (simp_all add: search_ok_def)
  ultimately show ?thesis using path_covers good by (auto simp: good_hypo_def)
qed

text \<open>
  C9. The search finds a translation: when every word has an option of its own, the input is text without walls and
  zones, and the output is not constrained, then whatever the distortion limit, the stack size, the beam, the stack diversity and recombination remove, the
  best hypothesis exists, translates every word exactly once and scores no less than any other complete one found.
\<close>

theorem search_finds_translation:
  assumes "search_ok ps shape" "always_extends ps" "\<forall>i. \<not> ps_timeout ps i"
  shows "\<exists>s h. pb_ProcessSentence ps = Inr s \<and> pb_GetBestHypothesis s = Inr (Some h) \<and> IsComplete (ph_completed h)
    \<and> mset (option_spans (options_of h)) = mset [0..<words_of ps]
    \<and> (\<forall>g \<in> set (hs_hypos (ss_stacks s ! words_of ps)). ph_total g \<le> ph_total h)"
proof -
  note loc = searchI [OF assms(1)]
  obtain s where s: "pb_ProcessSentence ps = Inr s" "search.state_good ps shape s" "\<not> ss_interrupted s" "hs_hypos (ss_stacks s ! words_of ps) \<noteq> []"
    using search.search_result [OF loc] assms(2,3) by blast
  then have stacks: "ss_stacks s \<noteq> []" "last (ss_stacks s) = ss_stacks s ! words_of ps"
    using last_stack [of "ss_stacks s"] by (simp_all add: search.state_good_def [OF loc])
  obtain h where h: "hs_GetBestHypothesis (ss_stacks s ! words_of ps) = Some h" "h \<in> set (hs_hypos (ss_stacks s ! words_of ps))"
    "\<forall>g \<in> set (hs_hypos (ss_stacks s ! words_of ps)). ph_total g \<le> ph_total h" using stack_best [OF s(4)] by blast
  have good: "good_hypo ps shape (words_of ps) h" by (rule search_hypo [OF assms(1) s(1) _ h(2)]) simp
  then have path: "path ps (options_of h) (ph_completed h) (ph_sourceRange h)" by (simp add: good_hypo_def)
  have n: "words_of ps < 2 ^ 31" "options_ok ps" using assms(1) by (simp_all add: search_ok_def)
  have complete: "IsComplete (ph_completed h)" using good path_wf(2) [OF path n(1)] by (simp add: IsComplete_def good_hypo_def)
  then have "{i. i < words_of ps \<and> covered (ph_completed h) i} = set [0..<words_of ps]"
    using IsComplete_iff [of "ph_completed h"] path_wf(2) [OF path n(1)] by auto
  then have "set (option_spans (options_of h)) = set [0..<words_of ps]" "distinct (option_spans (options_of h))" using path_covers [OF path n] by simp_all
  then have "mset (option_spans (options_of h)) = mset [0..<words_of ps]" using set_eq_iff_mset_eq_distinct by (metis distinct_upt)
  then show ?thesis using s stacks h complete by (intro exI [of _ s] exI [of _ h]) (simp add: pb_GetBestHypothesis_def)
qed

text \<open>
  C15. Predecessors stay: when the search ends, the predecessor of every hypothesis on a stack, and of every hypothesis that was recombined
  with one, is itself still on the stack of the words it covers, in its final form: neither pruning nor recombination
  deletes a hypothesis that another one points to.
\<close>

theorem predecessors_stay:
  assumes "search_ok ps shape" "pb_ProcessSentence ps = Inr s" "j \<le> words_of ps" "h \<in> set (hs_hypos (ss_stacks s ! j))"
    and "p \<in> prevs h"
  shows "GetNumWordsCovered (ph_completed p) \<le> words_of ps \<and> p \<in> set (hs_hypos (ss_stacks s ! GetNumWordsCovered (ph_completed p)))"
proof -
  note loc = searchI [OF assms(1)]
  have "search.linked ps (Suc (words_of ps)) s" using search.search_result [OF loc] assms(2) by auto
  moreover have "p \<in> stack_prevs (ss_stacks s ! j)" using assms(4,5) by (auto simp: stack_prevs_def)
  ultimately obtain k where k: "k \<le> words_of ps" "p \<in> set (hs_hypos (ss_stacks s ! k))"
    using assms(3) by (force simp: search.linked_def [OF loc] less_Suc_eq_le)
  have "good_hypo ps shape k p" by (rule search_hypo [OF assms(1,2) k])
  then show ?thesis using k by (simp add: good_hypo_def)
qed

text \<open>
  GetWord follows the predecessors to the word at a position of the output: for every hypothesis of the search it returns
  the word that ToStream writes at this position, also when options with empty targets are in between.
\<close>

theorem GetWord_output:
  assumes "search_ok ps shape" "pb_ProcessSentence ps = Inr s" "j \<le> words_of ps" "h \<in> set (hs_hypos (ss_stacks s ! j))"
    and "length (pb_words h) < SIZE_RANGE" "pos < length (pb_words h)"
  shows "pb_GetWord pos h = Inr (pb_words h ! pos)"
  using search_hypo [OF assms(1-4)] assms(5,6) by (intro GetWord_placed) (simp_all add: good_hypo_def)

text \<open>
  C36. With early discarding the search aborts or finds nothing: CalcExpectedScore and CalcRemainingScore begin with a check that fails,
  so no hypothesis is ever added to a stack after the first, and a search that returns has no best hypothesis.
\<close>

theorem early_discarding_finds_nothing:
  assumes "ps_earlyDiscarding ps" "pb_ProcessSentence ps = Inr s" "0 < words_of ps"
  shows "(\<forall>j. 0 < j \<and> j \<le> words_of ps \<longrightarrow> hs_hypos (ss_stacks s ! j) = [])
    \<and> (\<not> ss_interrupted s \<longrightarrow> pb_GetBestHypothesis s = Inr None)"
proof -
  obtain s0 where s0: "first_state ps = Inr s0" "rfold (stack_step ps) [0..<length (ss_stacks s0)] s0 = Inr s"
    using assms(2) by (auto simp: pb_ProcessSentence_def rbind_eq_Inr)
  have start: "length (ss_stacks s0) = Suc (words_of ps)" "\<forall>j. 0 < j \<and> j \<le> words_of ps \<longrightarrow> hs_hypos (ss_stacks s0 ! j) = []"
    using s0(1) by (auto simp: first_state_def add_to_stack_def SearchNormal_def HypothesisStackNormal_def rbind_eq_Inr nth_Cons split: nat.splits)
  let ?P = "\<lambda>u. length (ss_stacks u) = Suc (words_of ps) \<and> (\<forall>j. 0 < j \<and> j \<le> words_of ps \<longrightarrow> hs_hypos (ss_stacks u ! j) = [])"
  have "?P s"
    by (rule rfold_invariant [OF s0(2), where P = ?P]) (use start stack_step_early [OF assms(1)] in \<open>simp, metis\<close>)
  moreover from this have "hs_hypos (last (ss_stacks s)) = []" "ss_stacks s \<noteq> []" using last_stack [of "ss_stacks s"] assms(3) by auto
  ultimately show ?thesis by (auto simp: pb_GetBestHypothesis_def hs_GetBestHypothesis_def)
qed

text \<open>
  Stack diversity without a distortion limit: the tolerated size of a stack is shifted by the distortion limit, and -1 is the value
  for no limit; the first hypothesis of every sentence up to 2 ^ 16 words then shifts by a negative amount.
\<close>

theorem diversity_needs_limit:
  assumes "0 < ps_minHypoStackDiversity ps" "ps_maxDistortion ps < 0" "words_of ps < 2 ^ 16" "pf_sourceCompleted (ps_features ps) = []"
  shows "pb_ProcessSentence ps = Inl BadShift"
proof -
  let ?h = "initial_hypothesis (ps_sys ps) (ps_features ps) 0"
  have wf: "wf_bitmap (WordsBitmap_from (words_of ps) [])" "wb_size (WordsBitmap_from (words_of ps) []) = words_of ps"
    using assms(3) by (simp_all add: wf_WordsBitmap_from, simp add: WordsBitmap_from_def)
  have "id_end (WordsBitmap_from (words_of ps) []) = 0"
  proof (rule ccontr)
    assume "id_end (WordsBitmap_from (words_of ps) []) \<noteq> 0"
    then show False using id_end_cases(3) [OF wf(1)] wf(2) by auto
  qed
  then have "\<exists>i. GetID (ph_completed ?h) = Inr i"
    using assms(3,4) wf by (simp add: initial_hypothesis_def Let_def GetID_eq)
  then obtain i where i: "GetID (ph_completed ?h) = Inr i" by blast
  have total: "ph_total ?h = Fin 0" by (simp add: initial_hypothesis_def Let_def)
  have "hs_AddPrune (orderer ps) (ps_sel ps) (ps_maxDistortion ps) (ps_disableDiscarding ps) ?h
     (HypothesisStackNormal (ps_maxHypoStackSize ps) (ps_minHypoStackDiversity ps) (ps_beamWidth ps) (ps_nBestIsEnabled ps)) = Inl BadShift"
    using assms(1,2) i total
    by (simp add: hs_AddPrune_def too_bad_def HypothesisStackNormal_def hs_Add_def update_scores_def update_diversity_def Let_def
        bitmap_GetWorstScore_def SetWorstScoreForBitmap_def tolerated_size_def)
  then show ?thesis by (simp add: pb_ProcessSentence_def first_state_def add_to_stack_def SearchNormal_def)
qed

section \<open>Witnesses\<close>

text \<open>Two words with three options, and the feature functions for the distortion and the word penalty.\<close>

definition ex_scored_option :: "nat \<Rightarrow> nat \<Rightarrow> real \<Rightarrow> pb_option" where
  "ex_scored_option s e x = (ex_option s e x)\<lparr>po_breakdown := [x]\<rparr>"

definition ex_features :: "distortion_state pb_features" where
  "ex_features = \<lparr>pf_stateless = [WordPenalty_Evaluate (py_index (ex_sys ''1999'')) ex_unknown],
     pf_stateful = [Distortion_Evaluate (py_index (ex_sys ''1999'')) ex_unknown ComputeDistortionDistance],
     pf_emptyStates = [Some (Distortion_EmptyHypothesisState 0)], pf_initialTarget = (po_target (ex_option 0 0 0))\<lparr>tp_words := [ex_word]\<rparr>,
     pf_sourceCompleted = [], pf_constraint = None\<rparr>"

definition ex_search :: "distortion_state pb_search" where
  "ex_search = \<lparr>ps_sys = ex_sys ''1999'',
     ps_coll = ex_coll\<lparr>oc_collection := [[[ex_scored_option 0 0 3], [ex_scored_option 0 1 (-1)]], [[ex_scored_option 1 1 4]]]\<rparr>,
     ps_features = ex_features, ps_cmp = Distortion_Compare, ps_diff = (\<lambda>_ _. 0), ps_sel = sort_select, ps_maxDistortion = 6,
     ps_isWordLattice = False, ps_CanIGetFromAToB = (\<lambda>_ _. True), ps_IsCoveragePossible = (\<lambda>_. True), ps_distance = ComputeDistortionDistance,
     ps_reordering = ReorderingConstraint, ps_maxHypoStackSize = 2, ps_minHypoStackDiversity = 0, ps_beamWidth = Fin (-10),
     ps_nBestIsEnabled = False, ps_distinctNBest = False, ps_nBestSize = 0, ps_disableDiscarding = False, ps_earlyDiscarding = False,
     ps_earlyDiscardingThreshold = NegInf, ps_timeout = (\<lambda>_. False)\<rparr>"

lemma ex_search_simps:
  "ps_sys ex_search = ex_sys ''1999''" "py_source (ex_sys t) = [ex_word, ex_word]" "ps_timeout ex_search k = False" "ps_features ex_search = ex_features"
  "si_last (py_index (ex_sys ''1999'')) = 1" "py_weights (ex_sys ''1999'') = [1]"
  by (simp_all add: ex_search_def ex_sys_def)

lemma ex_offer:
  "a \<le> e \<Longrightarrow> offer (ps_sys ex_search) (ps_coll ex_search) a e = (if a = 0 \<and> e = 0 then [ex_scored_option 0 0 3]
     else if a = 0 \<and> e = 1 then [ex_scored_option 0 1 (-1)] else if a = 1 \<and> e = 1 then [ex_scored_option 1 1 4] else [])"
proof (cases "a < 2")
  case True
  then have "a = 0 \<or> a = 1" by auto
  then show "a \<le> e \<Longrightarrow> ?thesis"
    by (auto simp: offer_def ex_search_def ex_sys_simps less_Suc_eq numeral_2_eq_2)
next
  case False
  then have "max_size (ps_sys ex_search) a = 0" by (simp add: max_size_def ex_search_def ex_sys_def)
  then show ?thesis using False by (simp add: offer_def)
qed

lemma ex_features_ok: "features_ok ex_search [False]"
proof -
  have one: "PlusEquals_one (py_index (ex_sys ''1999'')) ex_unknown x bd = Inr [hd bd + x]" if "length bd = Suc 0" for x bd
    using that by (cases bd) (simp_all add: PlusEquals_one_def ex_unknown_def ex_sys_def GetBeginIndex_def array_get_def update_at_def)
  show ?thesis
    by (auto simp: features_ok_def Let_def ex_search_simps ex_features_def WordPenalty_Evaluate_def Distortion_Evaluate_def one
        split: option.splits)
qed

lemma ex_search_ok: "search_ok ex_search [False]"
proof -
  have "wf_coll (ps_sys ex_search) (ps_coll ex_search)"
    by (simp add: wf_coll_def ex_search_def ex_coll_def ex_sys_simps good_matrix_def wf_matrix_def SquareMatrix_def all_less_two [unfolded numeral_2_eq_2])
  moreover have "\<exists>x. GetScore (oc_futureScore (ps_coll ex_search)) s e = Inr (Fin x)" if "s \<le> e" "e < 2" for s e
    using that by (auto simp: GetScore_def ex_search_def ex_coll_def SquareMatrix_def nth_Cons split: nat.splits)
  ultimately have "options_ok ex_search"
    using ex_offer by (auto simp: options_ok_def ex_search_simps ex_sys_simps ex_scored_option_def ex_option_def split: if_splits)
  then show ?thesis
    using ex_features_ok distortion_states.total_compare_axioms example_sort
    by (simp add: search_ok_def ex_search_simps) (simp add: ex_search_def ex_features_def ReorderingConstraint_def)
qed

interpretation example_search: search ex_search "[False]"
  by unfold_locales (rule ex_search_ok)

lemma ex_always_extends: "always_extends ex_search"
proof -
  have "offer (ps_sys ex_search) (ps_coll ex_search) a a \<noteq> []" if "a < 2" for a
    using ex_offer [of a a] that by (auto simp: ex_scored_option_def)
  then have "\<forall>a < words_of ex_search. offer (ps_sys ex_search) (ps_coll ex_search) a a \<noteq> []" by (simp add: ex_search_simps)
  then show ?thesis by (simp add: always_extends_def) (simp add: ex_search_def ex_features_def ReorderingConstraint_def)
qed

text \<open>A hypothesis on the last stack of the example.\<close>

lemma ex_search_result:
  "\<exists>s h. pb_ProcessSentence ex_search = Inr s \<and> h \<in> set (hs_hypos (ss_stacks s ! 2)) \<and> good_hypo ex_search [False] 2 h"
proof -
  obtain s where s: "pb_ProcessSentence ex_search = Inr s" "hs_hypos (ss_stacks s ! 2) \<noteq> []"
    using example_search.search_result ex_always_extends by (auto simp: ex_search_simps numeral_2_eq_2)
  then obtain h where "h \<in> set (hs_hypos (ss_stacks s ! 2))" by (metis last_in_set)
  then show ?thesis using search_hypo [OF ex_search_ok s(1), of 2 h] s(1) by (auto simp: ex_search_simps)
qed

theorem search_returns_witness:
  "\<exists>s best. pb_ProcessSentence ex_search = Inr s \<and> length (ss_stacks s) = 3 \<and> pb_GetBestHypothesis s = Inr best"
  using search_returns [OF ex_search_ok] by (auto simp: ex_search_simps)

theorem search_refines_paths_witness:
  "\<exists>s h. pb_ProcessSentence ex_search = Inr s \<and> h \<in> set (hs_hypos (ss_stacks s ! 2)) \<and> scored ex_search h
    \<and> set (option_spans (options_of h)) \<subseteq> {0, 1}"
proof -
  obtain s h where h: "pb_ProcessSentence ex_search = Inr s" "h \<in> set (hs_hypos (ss_stacks s ! 2))" using ex_search_result by blast
  from search_refines_paths [OF ex_search_ok h(1) _ h(2)] have "scored ex_search h" "set (option_spans (options_of h)) \<subseteq> {0, 1}"
    by (auto simp: ex_search_simps less_Suc_eq numeral_2_eq_2)
  then show ?thesis using h by blast
qed

theorem search_finds_translation_witness:
  "\<exists>s h. pb_ProcessSentence ex_search = Inr s \<and> pb_GetBestHypothesis s = Inr (Some h) \<and> mset (option_spans (options_of h)) = {#0, 1#}"
proof -
  have "\<forall>i. \<not> ps_timeout ex_search i" by (simp add: ex_search_def)
  from search_finds_translation [OF ex_search_ok ex_always_extends this] show ?thesis
    by (auto simp: ex_search_simps upt_rec)
qed

theorem predecessors_stay_witness:
  "\<exists>s h p. pb_ProcessSentence ex_search = Inr s \<and> h \<in> set (hs_hypos (ss_stacks s ! 2)) \<and> ph_prev h = Some p
    \<and> p \<in> set (hs_hypos (ss_stacks s ! GetNumWordsCovered (ph_completed p)))"
proof -
  obtain s h where h: "pb_ProcessSentence ex_search = Inr s" "h \<in> set (hs_hypos (ss_stacks s ! 2))" "good_hypo ex_search [False] 2 h"
    using ex_search_result by blast
  then obtain p where p: "ph_prev h = Some p" by (auto simp: good_hypo_def)
  then have "p \<in> prevs h" by (simp add: prevs_def)
  from predecessors_stay [OF ex_search_ok h(1) _ h(2) this] show ?thesis using h p by (auto simp: ex_search_simps)
qed

theorem GetWord_output_witness:
  "\<exists>s h. pb_ProcessSentence ex_search = Inr s \<and> h \<in> set (hs_hypos (ss_stacks s ! 2)) \<and> pb_GetWord 0 h = Inr ex_word"
proof -
  obtain s h where h: "pb_ProcessSentence ex_search = Inr s" "h \<in> set (hs_hypos (ss_stacks s ! 2))" "good_hypo ex_search [False] 2 h"
    using ex_search_result by blast
  have "options_ok ex_search" using ex_search_ok by (simp add: search_ok_def)
  then have "\<forall>opt \<in> set (options_of h). \<exists>a e. a \<le> e \<and> opt \<in> set (offer (ps_sys ex_search) (ps_coll ex_search) a e)"
    using path_covers [of ex_search "options_of h"] h(3) by (auto simp: good_hypo_def ex_search_simps)
  then have "\<forall>opt \<in> set (options_of h). tp_words (po_target opt) = []"
    using ex_offer by (fastforce simp: ex_scored_option_def ex_option_def split: if_splits)
  then have "pb_words h = [ex_word]" using h(3) by (simp add: good_hypo_def output_of_def ex_search_simps) (simp add: ex_features_def)
  then show ?thesis using GetWord_output [OF ex_search_ok h(1) _ h(2), of 0] h by (auto simp: ex_search_simps SIZE_RANGE_def)
qed

text \<open>One word without options, and early discarding.\<close>

definition ex_early :: "distortion_state pb_search" where
  "ex_early = ex_search\<lparr>ps_sys := (ex_sys ''1999'')\<lparr>py_source := [ex_word]\<rparr>, ps_coll := ex_coll\<lparr>oc_collection := [[[]]]\<rparr>, ps_earlyDiscarding := True\<rparr>"

lemma ex_early_run: "\<exists>s. pb_ProcessSentence ex_early = Inr s \<and> \<not> ss_interrupted s"
proof -
  have ps: "py_source (ps_sys ex_early) = [ex_word]" "max_size (ps_sys ex_early) 0 = 1" "ps_timeout ex_early k = False"
    "ps_maxHypoStackSize ex_early = 2" "ps_minHypoStackDiversity ex_early = 0" "ps_beamWidth ex_early = Fin (-10)"
    "ps_nBestIsEnabled ex_early = False" "ps_disableDiscarding ex_early = False" "ps_maxDistortion ex_early = 6" "pf_sourceCompleted (ps_features ex_early) = []"
    "ps_isWordLattice ex_early = False" for k
    by (simp_all add: ex_early_def ex_search_def ex_sys_def max_size_def ex_features_def)
  have opts: "GetTranslationOptionList (ps_sys ex_early) 0 0 (ps_coll ex_early) = Inr []"
    by (simp add: GetTranslationOptionList_def ex_early_def list_index_def sz_sub_def SIZE_RANGE_def check_def)
  let ?h = "initial_hypothesis (ps_sys ex_early) (ps_features ex_early) 0"
  have h: "ph_total ?h = Fin 0" "ph_completed ?h = \<lparr>wb_size = 1, wb_bitmap = [False]\<rparr>"
    using ps by (simp_all add: initial_hypothesis_def Let_def WordsBitmap_from_def Initialize_from_def)
  have gap: "GetFirstGapPos \<lparr>wb_size = Suc 0, wb_bitmap = [False]\<rparr> = 0" by (simp add: GetFirstGapPos_def)
  have expand: "ProcessOneHypothesis ex_early ?h s = Inr s" for s
    using ps opts h gap by (auto simp: ProcessOneHypothesis_def Let_def skip_start_def GetValue_def expand_limited_def basic_checks_def)
  show ?thesis
    using ps h expand
    by (simp add: pb_ProcessSentence_def first_state_def add_to_stack_def SearchNormal_def HypothesisStackNormal_def hs_AddPrune_def too_bad_def
        hs_Add_def update_scores_def update_diversity_def tolerated_size_def sz_sub_def SIZE_RANGE_def
        stack_step_def process_stack_def hs_PruneToSize_def hs_CleanupArcList_def Let_def)
qed

theorem early_discarding_finds_nothing_witness:
  "\<exists>s. pb_ProcessSentence ex_early = Inr s \<and> pb_GetBestHypothesis s = Inr None"
proof -
  obtain s where s: "pb_ProcessSentence ex_early = Inr s" "\<not> ss_interrupted s" using ex_early_run by blast
  moreover have "ps_earlyDiscarding ex_early" "0 < words_of ex_early" by (simp_all add: ex_early_def)
  ultimately show ?thesis using early_discarding_finds_nothing [of ex_early s] by blast
qed

theorem diversity_needs_limit_witness:
  "pb_ProcessSentence (ex_search\<lparr>ps_minHypoStackDiversity := 1, ps_maxDistortion := -1\<rparr>) = Inl BadShift"
  by (rule diversity_needs_limit) (simp_all add: ex_search_def ex_sys_simps ex_features_def)

end
