(* ===== verification/PathLists.thy ===== *)
theory PathLists
  imports PhraseSearch
begin

text \<open>
  n-best lists of the phrase-based decoder (TrellisPath.h, TrellisPath.cpp, TrellisPathCollection.h, TrellisPathCollection.cpp
  and CalcNBest of Manager.cpp): what is read from the stacks after the search.

  Hypotheses are compared by their identifiers; a pointer to a winner is the identifier of a hypothesis on a stack, and a winner that
  is on no stack answers as a null pointer. Output streams, statistics and lattice samples are not modelled.
\<close>

section \<open>Paths\<close>

record 's pb_path =
  pp_path :: "'s pb_hypo list"
  pp_prevEdgeChanged :: nat
  pp_scoreBreakdown :: "real list"
  pp_totalScore :: score

definition GetWinningHypo :: "'s hypo_stack list \<Rightarrow> 's pb_hypo \<Rightarrow> 's pb_hypo result" where
  "GetWinningHypo stacks h = (case ph_winning h of
     None \<Rightarrow> Inl NullPointer
   | Some i \<Rightarrow> (case find (\<lambda>w. ph_id w = i) (concat (map hs_hypos stacks)) of None \<Rightarrow> Inl NullPointer | Some w \<Rightarrow> Inr w))"

text \<open>A hypothesis and its predecessors.\<close>

fun hypo_chain :: "'s pb_hypo \<Rightarrow> 's pb_hypo list" where
  "hypo_chain (PbHypo i prev tp bm sr tr del tot fut bd st win arcs opt) =
     PbHypo i prev tp bm sr tr del tot fut bd st win arcs opt # (case prev of None \<Rightarrow> [] | Some p \<Rightarrow> hypo_chain p)"

definition pure_path :: "'s pb_hypo \<Rightarrow> 's pb_path" where
  "pure_path hypo = \<lparr>pp_path = hypo_chain hypo, pp_prevEdgeChanged = NOT_FOUND, pp_scoreBreakdown = ph_breakdown hypo,
     pp_totalScore = ph_total hypo\<rparr>"

definition exchange_score :: "'s hypo_stack list \<Rightarrow> 's pb_hypo \<Rightarrow> score \<times> real list \<Rightarrow> (score \<times> real list) result" where
  "exchange_score stacks hypo s = (case s of (totalScore, breakdown) \<Rightarrow>
     rbind (GetWinningHypo stacks hypo) (\<lambda>winningHypo.
       if ph_id hypo \<noteq> ph_id winningHypo
       then rbind (MinusEquals breakdown (ph_breakdown winningHypo)) (\<lambda>b. rbind (PlusEquals b (ph_breakdown hypo)) (\<lambda>b'.
              Inr (score_minus totalScore (ph_total winningHypo) + ph_total hypo, b')))
       else Inr (totalScore, breakdown)))"

definition InitScore :: "'s hypo_stack list \<Rightarrow> 's pb_hypo list \<Rightarrow> (score \<times> real list) result" where
  "InitScore stacks path =
     rbind (array_get path 0) (\<lambda>hypo. rbind (GetWinningHypo stacks hypo) (\<lambda>w.
       rfold (exchange_score stacks) path (ph_total w, ph_breakdown w)))"

definition deviant_path :: "'s hypo_stack list \<Rightarrow> 's pb_path \<Rightarrow> nat \<Rightarrow> 's pb_hypo \<Rightarrow> 's pb_path result" where
  "deviant_path stacks copy edgeIndex arc =
     (let path = take edgeIndex (pp_path copy) @ hypo_chain arc in
      rbind (InitScore stacks path) (\<lambda>(totalScore, breakdown).
        Inr \<lparr>pp_path = path, pp_prevEdgeChanged = edgeIndex, pp_scoreBreakdown = breakdown, pp_totalScore = totalScore\<rparr>))"

text \<open>The path of a list of edges in the order of the output.\<close>

definition path_of_edges :: "'s hypo_stack list \<Rightarrow> 's pb_hypo list \<Rightarrow> 's pb_path result" where
  "path_of_edges stacks edges =
     rbind (InitScore stacks (rev edges)) (\<lambda>(totalScore, breakdown).
       Inr \<lparr>pp_path = rev edges, pp_prevEdgeChanged = NOT_FOUND, pp_scoreBreakdown = breakdown, pp_totalScore = totalScore\<rparr>)"

section \<open>The contenders\<close>

text \<open>A multiset in descending order of scores; a new path comes after those of the same score.\<close>

definition coll_Add :: "'s pb_path \<Rightarrow> 's pb_path list \<Rightarrow> 's pb_path list" where
  "coll_Add p coll = takeWhile (\<lambda>q. pp_totalScore q \<ge> pp_totalScore p) coll @ p # dropWhile (\<lambda>q. pp_totalScore q \<ge> pp_totalScore p) coll"

definition coll_Prune :: "nat \<Rightarrow> 's pb_path list \<Rightarrow> 's pb_path list" where
  "coll_Prune newSize coll = (if length coll \<le> newSize then coll else take newSize coll)"

definition add_deviants :: "'s hypo_stack list \<Rightarrow> 's pb_path \<Rightarrow> nat \<Rightarrow> 's pb_path list \<Rightarrow> 's pb_path list result" where
  "add_deviants stacks path currEdge coll =
     rbind (array_get (pp_path path) currEdge) (\<lambda>hypo. case ph_arcs hypo of
       None \<Rightarrow> Inr coll
     | Some arcList \<Rightarrow> rfold (\<lambda>arc coll. rbind (deviant_path stacks path currEdge arc) (\<lambda>d. Inr (coll_Add d coll))) arcList coll)"

definition pb_CreateDeviantPaths :: "'s hypo_stack list \<Rightarrow> 's pb_path \<Rightarrow> 's pb_path list \<Rightarrow> 's pb_path list result" where
  "pb_CreateDeviantPaths stacks path coll =
     rfold (add_deviants stacks path)
       [(if pp_prevEdgeChanged path = NOT_FOUND then 0 else pp_prevEdgeChanged path + 1)..<length (pp_path path)] coll"

section \<open>The output of a path\<close>

text \<open>The first hypothesis of the search, the last one of the path, is left out.\<close>

definition path_GetTargetPhrase :: "'s pb_path \<Rightarrow> phrase" where
  "path_GetTargetPhrase path = concat (map (\<lambda>hypo. tp_words (ph_target hypo)) (rev (butlast (pp_path path))))"

definition surface_word :: "nat list \<Rightarrow> word \<Rightarrow> word result" where
  "surface_word outputFactor w =
     rfold (\<lambda>factorType newWord. case GetFactor w factorType of
         None \<Rightarrow> Inl CheckFailed
       | Some factor \<Rightarrow> Inr (SetFactor newWord factorType (Some factor))) outputFactor \<lparr>w_factors = [], w_isNonTerminal = False\<rparr>"

definition GetSurfacePhrase :: "nat list \<Rightarrow> 's pb_path \<Rightarrow> phrase result" where
  "GetSurfacePhrase outputFactor path = rmap (surface_word outputFactor) (path_GetTargetPhrase path)"

fun target_range_loop :: "nat \<Rightarrow> 's pb_hypo list \<Rightarrow> nat \<Rightarrow> words_range result" where
  "target_range_loop i [] startPos = Inl CheckFailed"
| "target_range_loop i (hypo # edges) startPos =
     (let endPos = sz_sub (sz_add startPos (length (tp_words (ph_target hypo)))) 1 in
      if ph_id hypo = i then Inr (WordsRange startPos endPos) else target_range_loop i edges (sz_add endPos 1))"

definition GetTargetWordsRange :: "'s pb_path \<Rightarrow> 's pb_hypo \<Rightarrow> words_range result" where
  "GetTargetWordsRange path hypo = target_range_loop (ph_id hypo) (rev (pp_path path)) 0"

section \<open>The n-best list\<close>

text \<open>One turn of the main loop: the list, the outputs in it, and the contenders.\<close>

definition pb_nbest_step :: "'s hypo_stack list \<Rightarrow> nat list \<Rightarrow> nat \<Rightarrow> nat \<Rightarrow> bool
    \<Rightarrow> 's pb_path list \<times> phrase list \<times> 's pb_path list \<Rightarrow> ('s pb_path list \<times> phrase list \<times> 's pb_path list) result" where
  "pb_nbest_step stacks outputFactor count0 nBestFactor onlyDistinct s = (case s of
     (result, distinctHyps, []) \<Rightarrow> Inl EmptyContainer
   | (result, distinctHyps, path # contenders) \<Rightarrow>
       rbind (pb_CreateDeviantPaths stacks path contenders) (\<lambda>contenders'.
       if onlyDistinct
       then rbind (GetSurfacePhrase outputFactor path) (\<lambda>tgtPhrase.
            rbind (set_insert (\<lambda>p q. Inr (phrase_less p q)) tgtPhrase distinctHyps) (\<lambda>(distinctHyps', existing).
              Inr (if existing = None then result @ [path] else result, distinctHyps',
                   if nBestFactor > 0 then coll_Prune (count0 * nBestFactor) contenders' else contenders')))
       else Inr (result @ [path], distinctHyps, coll_Prune count0 contenders')))"

text \<open>The loop ends after count * nBestFactor turns at the latest; the first argument counts those left.\<close>

fun pb_nbest_loop :: "nat \<Rightarrow> 's hypo_stack list \<Rightarrow> nat list \<Rightarrow> nat \<Rightarrow> nat \<Rightarrow> bool
    \<Rightarrow> 's pb_path list \<times> phrase list \<times> 's pb_path list \<Rightarrow> 's pb_path list result" where
  "pb_nbest_loop 0 stacks outputFactor count0 nBestFactor onlyDistinct (result, distinctHyps, contenders) = Inr result"
| "pb_nbest_loop (Suc turns) stacks outputFactor count0 nBestFactor onlyDistinct (result, distinctHyps, contenders) =
     (if (if onlyDistinct then length distinctHyps else length result) < count0 \<and> contenders \<noteq> []
      then rbind (pb_nbest_step stacks outputFactor count0 nBestFactor onlyDistinct (result, distinctHyps, contenders))
             (pb_nbest_loop turns stacks outputFactor count0 nBestFactor onlyDistinct)
      else Inr result)"

definition pb_CalcNBest :: "'s pb_search \<Rightarrow> nat list \<Rightarrow> nat \<Rightarrow> nat \<Rightarrow> bool \<Rightarrow> 's search_state \<Rightarrow> 's pb_path list result" where
  "pb_CalcNBest ps outputFactor nBestFactor count0 onlyDistinct s =
     (if count0 = 0 then Inr []
      else if ss_stacks s = [] then Inl EmptyContainer
      else let sortedPureHypo = GetSortedList (ps_sel ps) (last (ss_stacks s));
               contenders = fold (\<lambda>h. coll_Add (pure_path h)) sortedPureHypo [];
               turns = count0 * (if nBestFactor < 1 then 1000 else nBestFactor)
           in pb_nbest_loop turns (ss_stacks s) outputFactor count0 nBestFactor onlyDistinct ([], [], contenders))"

end
