(* ===== verification/ConnectedGraphs.thy ===== *)
theory ConnectedGraphs
  imports PathLists StackArcs
begin

text \<open>
  The search graph of the phrase-based decoder (GetConnectedGraph, GetWinnerConnectedGraph, GetSearchGraph and
  GetForwardBackwardSearchGraph of Manager.cpp): the hypotheses from which the last stack can be reached, and the best score of the
  way there.

  Maps from identifiers are partial functions; operator[] enters a default where nothing was. A set of pointers is the set of their identifiers.
\<close>

section \<open>Connected hypotheses\<close>

text \<open>
  What is reached back from a hypothesis: for the graph of all hypotheses its predecessor and its arcs, for the graph of
  winners the predecessors of both. The hypothesis 0 is left out; a predecessor that is missing is a null pointer for the graph of winners.
\<close>

definition prev_of :: "'s pb_hypo \<Rightarrow> 's pb_hypo result" where
  "prev_of h = (case ph_prev h of None \<Rightarrow> Inl NullPointer | Some p \<Rightarrow> Inr p)"

definition reached_back :: "bool \<Rightarrow> 's pb_hypo \<Rightarrow> 's pb_hypo list result" where
  "reached_back winners hypo =
     (if winners then rbind (rmap prev_of (hypo # arc_list hypo)) (\<lambda>ps. Inr (filter (\<lambda>p. ph_id p > 0) ps))
      else Inr ((case ph_prev hypo of None \<Rightarrow> [] | Some p \<Rightarrow> if ph_id p > 0 then [p] else []) @ arc_list hypo))"

text \<open>The hypotheses that are not yet connected are marked and put at the end of the list.\<close>

fun add_connected :: "'s pb_hypo list \<Rightarrow> nat set \<Rightarrow> nat set \<times> 's pb_hypo list" where
  "add_connected [] conn = (conn, [])"
| "add_connected (h # hs) conn =
     (if ph_id h \<in> conn then add_connected hs conn
      else case add_connected hs (insert (ph_id h) conn) of (conn', new) \<Rightarrow> (conn', h # new))"

lemma prev_of_eq: "prev_of h = Inr p \<longleftrightarrow> ph_prev h = Some p"
  by (simp add: prev_of_def split: option.splits)

lemma size_prev: "ph_prev h = Some p \<Longrightarrow> size p < size h"
  by (cases h) simp

lemma size_arcs: "sum_list (map size (arc_list h)) + (case ph_prev h of None \<Rightarrow> 0 | Some p \<Rightarrow> size p) < size h"
proof -
  have "sum_list (map size xs) \<le> size_list size xs" for xs :: "'a pb_hypo list" by (induction xs) simp_all
  from this [of "arc_list h"] show ?thesis by (cases h) (auto simp: arc_list_def split: option.splits)
qed

lemma add_connected_size: "sum_list (map size (snd (add_connected hs c))) \<le> sum_list (map size hs)"
  by (induction hs c rule: add_connected.induct) (auto split: prod.splits intro: trans_le_add2 le_trans)

lemma reached_back_size:
  assumes "reached_back winners h = Inr hs"
  shows "sum_list (map size hs) < size h"
proof (cases winners)
  case False
  then show ?thesis using assms size_arcs [of h] by (auto simp: reached_back_def split: option.splits)
next
  case True
  obtain ps where ps: "rmap prev_of (h # arc_list h) = Inr ps" "hs = filter (\<lambda>p. ph_id p > 0) ps" using assms True by (auto simp: reached_back_def rbind_eq_Inr)
  have less: "sum_list (map size ys) \<le> sum_list (map size xs)" if "rmap prev_of xs = Inr ys" for xs ys :: "'a pb_hypo list"
    using that
  proof (induction xs arbitrary: ys)
    case (Cons x xs)
    obtain y zs where y: "ys = y # zs" "ph_prev x = Some y" "rmap prev_of xs = Inr zs" using Cons.prems by (auto simp: rbind_eq_Inr prev_of_eq)
    then show ?case using Cons.IH [OF y(3)] size_prev [OF y(2)] by simp
  qed simp
  obtain p qs where p: "ps = p # qs" "ph_prev h = Some p" "rmap prev_of (arc_list h) = Inr qs" using ps(1) by (auto simp: rbind_eq_Inr prev_of_eq)
  have "sum_list (map size hs) \<le> sum_list (map size ps)" unfolding ps(2) by (induction ps) simp_all
  also have "\<dots> < size h" using less [OF p(3)] size_arcs [of h] p(1,2) by simp
  finally show ?thesis .
qed

lemma connect_decreases:
  assumes "reached_back winners h = Inr found" "(conn', new) = add_connected found conn"
  shows "sum_list (map size new) < size h"
  using reached_back_size [OF assms(1)] add_connected_size [of found conn] by (simp add: assms(2) [symmetric])

function connect_loop :: "bool \<Rightarrow> 's pb_hypo list \<Rightarrow> nat set \<Rightarrow> 's pb_hypo list \<Rightarrow> (nat set \<times> 's pb_hypo list) result" where
  "connect_loop winners [] conn connectedList = Inr (conn, connectedList)"
| "connect_loop winners (hypo # todo) conn connectedList =
     (case reached_back winners hypo of
        Inl err \<Rightarrow> Inl err
      | Inr found \<Rightarrow> case add_connected found conn of (conn', new) \<Rightarrow>
          connect_loop winners (todo @ new) conn' (connectedList @ [hypo]))"
  by pat_completeness auto
termination
  by (relation "measure (\<lambda>(w, todo, c, l). sum_list (map size todo))") (simp_all add: connect_decreases)

definition GetConnected :: "bool \<Rightarrow> 's hypo_stack list \<Rightarrow> (nat set \<times> 's pb_hypo list) result" where
  "GetConnected winners stacks =
     (if stacks = [] then Inl EmptyContainer
      else let hypos = hs_hypos (last stacks) in connect_loop winners hypos (set (map ph_id hypos)) [])"

definition GetConnectedGraph :: "'s hypo_stack list \<Rightarrow> (nat set \<times> 's pb_hypo list) result" where
  "GetConnectedGraph = GetConnected False"

definition GetWinnerConnectedGraph :: "'s hypo_stack list \<Rightarrow> (nat set \<times> 's pb_hypo list) result" where
  "GetWinnerConnectedGraph = GetConnected True"

section \<open>Forward scores\<close>

record forward_maps =
  fw_forward :: "nat \<Rightarrow> int option"
  fw_score :: "nat \<Rightarrow> score option"
  fw_outgoing :: "nat \<Rightarrow> nat set"

text \<open>The hypotheses of the last stack have score 0 and no successor.\<close>

definition first_forward :: "'s hypo_stack list \<Rightarrow> forward_maps" where
  "first_forward stacks = fold (\<lambda>h m. m\<lparr>fw_score := (fw_score m)(ph_id h \<mapsto> Fin 0), fw_forward := (fw_forward m)(ph_id h \<mapsto> -1)\<rparr>)
     (hs_hypos (last stacks)) \<lparr>fw_forward = (\<lambda>_. None), fw_score = (\<lambda>_. None), fw_outgoing = (\<lambda>_. {})\<rparr>"

text \<open>An edge of a hypothesis, itself or an arc, makes a play for its predecessor.\<close>

definition make_play :: "'s pb_hypo \<Rightarrow> 's pb_hypo \<Rightarrow> forward_maps \<Rightarrow> forward_maps result" where
  "make_play hypo edge m = rbind (prev_of edge) (\<lambda>prevHypo.
     let f = (case fw_score m (ph_id hypo) of None \<Rightarrow> Fin 0 | Some x \<Rightarrow> x);
         m1 = m\<lparr>fw_score := (fw_score m)(ph_id hypo \<mapsto> f)\<rparr>;
         fscore = score_minus (f + pb_GetScore edge) (pb_GetScore prevHypo);
         m2 = (if (case fw_score m1 (ph_id prevHypo) of None \<Rightarrow> True | Some x \<Rightarrow> x < fscore)
               then m1\<lparr>fw_score := (fw_score m1)(ph_id prevHypo \<mapsto> fscore), fw_forward := (fw_forward m1)(ph_id prevHypo \<mapsto> int (ph_id edge))\<rparr>
               else m1)
     in Inr (m2\<lparr>fw_outgoing := (fw_outgoing m2)(ph_id prevHypo := insert (ph_id hypo) (fw_outgoing m2 (ph_id prevHypo)))\<rparr>))"

definition forward_hypo :: "nat set \<Rightarrow> 's pb_hypo \<Rightarrow> forward_maps \<Rightarrow> forward_maps result" where
  "forward_hypo conn hypo m =
     (if ph_id hypo \<in> conn then rfold (make_play hypo) (hypo # arc_list hypo) m else Inr m)"

text \<open>The stacks from the last one to the second.\<close>

definition forward_pass :: "'s hypo_stack list \<Rightarrow> nat set \<Rightarrow> forward_maps result" where
  "forward_pass stacks conn = rfold (forward_hypo conn) (concat (map hs_hypos (rev (tl stacks)))) (first_forward stacks)"

section \<open>The graphs\<close>

record 's graph_node =
  gn_hypo :: "'s pb_hypo"
  gn_recombinationHypo :: "'s pb_hypo option"
  gn_forward :: int
  gn_fscore :: score

definition graph_nodes :: "nat set \<Rightarrow> forward_maps \<Rightarrow> 's pb_hypo \<Rightarrow> 's graph_node list" where
  "graph_nodes conn m hypo =
     (if ph_id hypo \<in> conn
      then let fwd = (case fw_forward m (ph_id hypo) of None \<Rightarrow> 0 | Some i \<Rightarrow> i);
               fscore = (case fw_score m (ph_id hypo) of None \<Rightarrow> Fin 0 | Some x \<Rightarrow> x)
           in \<lparr>gn_hypo = hypo, gn_recombinationHypo = None, gn_forward = fwd, gn_fscore = fscore\<rparr>
              # map (\<lambda>loser. \<lparr>gn_hypo = loser, gn_recombinationHypo = Some hypo, gn_forward = fwd, gn_fscore = fscore\<rparr>) (arc_list hypo)
      else [])"

definition GetSearchGraph :: "'s hypo_stack list \<Rightarrow> 's graph_node list result" where
  "GetSearchGraph stacks =
     rbind (GetConnectedGraph stacks) (\<lambda>(conn, _). rbind (forward_pass stacks conn) (\<lambda>m.
       Inr (concat (map (graph_nodes (insert 0 conn) m) (concat (map hs_hypos stacks))))))"

text \<open>For lattice minimum Bayes risk decoding: the connected winners, their successors, and the estimated scores.\<close>

definition GetForwardBackwardSearchGraph :: "'s hypo_stack list \<Rightarrow> ('s pb_hypo list \<times> (nat \<Rightarrow> nat set) \<times> score list) result" where
  "GetForwardBackwardSearchGraph stacks =
     rbind (GetWinnerConnectedGraph stacks) (\<lambda>(conn, connectedList). rbind (forward_pass stacks conn) (\<lambda>m.
       Inr (connectedList, fw_outgoing m,
            map (\<lambda>h. pb_GetScore h + (case fw_score m (ph_id h) of None \<Rightarrow> Fin 0 | Some x \<Rightarrow> x)) connectedList)))"

end
