(* ===== verification/SearchGraphs.thy ===== *)
theory SearchGraphs
  imports PathLists StackArcs
begin

text \<open>
  The graph that the stacks of a search form: its nodes are the hypotheses on the stacks, its edges the hypotheses and the arcs that
  lost a recombination against them. A derivation is a path of edges from the last stack to the first hypothesis.
\<close>

definition stack_hypos :: "'s hypo_stack list \<Rightarrow> 's pb_hypo list" where
  "stack_hypos stacks = concat (map hs_hypos stacks)"

definition stack_edges :: "'s hypo_stack list \<Rightarrow> 's pb_hypo list" where
  "stack_edges stacks = concat (map (\<lambda>h. h # arc_list h) (stack_hypos stacks))"

fun real_score :: "score \<Rightarrow> real" where
  "real_score (Fin x) = x"
| "real_score _ = 0"

text \<open>
  What the search leaves: identifiers are unique, winners are set, predecessors are on earlier stacks, an arc is not better than its winner,
  and scores are finite, with the same number of components.
\<close>

definition edge_ok :: "'s hypo_stack list \<Rightarrow> nat \<Rightarrow> nat \<Rightarrow> 's pb_hypo \<Rightarrow> 's pb_hypo \<Rightarrow> bool" where
  "edge_ok stacks L j h e \<longleftrightarrow> ph_winning e = Some (ph_id h) \<and> (\<exists>x. ph_total e = Fin x) \<and> ph_total e \<le> ph_total h \<and> length (ph_breakdown e) = L
     \<and> (\<forall>p. ph_prev e = Some p \<longrightarrow> (\<exists>k < j. p \<in> set (hs_hypos (stacks ! k))))"

definition graph_ok :: "'s hypo_stack list \<Rightarrow> nat \<Rightarrow> bool" where
  "graph_ok stacks L \<longleftrightarrow> distinct (map ph_id (stack_edges stacks)) \<and> length stacks < NOT_FOUND
     \<and> (\<forall>j < length stacks. \<forall>h \<in> set (hs_hypos (stacks ! j)). \<forall>e \<in> set (h # arc_list h). edge_ok stacks L j h e)"

text \<open>The edges of a node, the paths of edges, and their scores: an edge has the difference of its score to the one of the node it starts from.\<close>

definition edge_at :: "'s hypo_stack list \<Rightarrow> 's pb_hypo \<Rightarrow> 's pb_hypo \<Rightarrow> bool" where
  "edge_at stacks e h \<longleftrightarrow> h \<in> set (stack_hypos stacks) \<and> e \<in> set (h # arc_list h)"

fun is_derivation :: "'s hypo_stack list \<Rightarrow> 's pb_hypo list \<Rightarrow> bool" where
  "is_derivation stacks [] \<longleftrightarrow> False"
| "is_derivation stacks [e] \<longleftrightarrow> (\<exists>h \<in> set (stack_hypos stacks). edge_at stacks e h) \<and> ph_prev e = None"
| "is_derivation stacks (e # e' # es) \<longleftrightarrow> (\<exists>h \<in> set (stack_hypos stacks). edge_at stacks e h) \<and> (\<exists>p. ph_prev e = Some p \<and> edge_at stacks e' p)
     \<and> is_derivation stacks (e' # es)"

text \<open>A derivation of a hypothesis on the last stack.\<close>

definition complete_derivation :: "'s hypo_stack list \<Rightarrow> 's pb_hypo list \<Rightarrow> bool" where
  "complete_derivation stacks es \<longleftrightarrow> is_derivation stacks es \<and> (\<exists>h \<in> set (hs_hypos (last stacks)). edge_at stacks (hd es) h)"

definition step_score :: "'s pb_hypo \<Rightarrow> real" where
  "step_score e = real_score (ph_total e) - (case ph_prev e of None \<Rightarrow> 0 | Some p \<Rightarrow> real_score (ph_total p))"

definition derivation_score :: "'s pb_hypo list \<Rightarrow> real" where
  "derivation_score es = sum_list (map step_score es)"

locale search_graph =
  fixes stacks :: "'s hypo_stack list" and L :: nat
  assumes ok: "graph_ok stacks L"

context search_graph
begin

abbreviation node_of :: "'s pb_hypo \<Rightarrow> 's pb_hypo \<Rightarrow> bool" where
  "node_of \<equiv> edge_at stacks"

abbreviation derivation :: "'s pb_hypo list \<Rightarrow> bool" where
  "derivation \<equiv> is_derivation stacks"

lemmas node_of_def = edge_at_def

lemma in_stack: "h \<in> set (stack_hypos stacks) \<longleftrightarrow> (\<exists>j < length stacks. h \<in> set (hs_hypos (stacks ! j)))"
  unfolding stack_hypos_def by simp (metis in_set_conv_nth)

lemma node_in: "h \<in> set (stack_hypos stacks) \<Longrightarrow> node_of h h"
  by (simp add: node_of_def)

lemma edges_split:
  assumes "h \<in> set (stack_hypos stacks)"
  obtains xs ys where "stack_edges stacks = xs @ (h # arc_list h) @ ys" "set xs \<union> set ys = (\<Union>g \<in> set (stack_hypos stacks) - {h}. set (g # arc_list g))"
proof -
  obtain as bs where ab: "stack_hypos stacks = as @ h # bs" using assms by (auto dest: split_list)
  have "distinct (map ph_id (stack_edges stacks))" using ok by (simp add: graph_ok_def)
  then have "h \<notin> set as \<union> set bs" unfolding stack_edges_def ab by auto
  then have "set (stack_hypos stacks) - {h} = set as \<union> set bs" unfolding ab by auto
  then show thesis using that [of "concat (map (\<lambda>h. h # arc_list h) as)" "concat (map (\<lambda>h. h # arc_list h) bs)"] unfolding stack_edges_def ab by auto
qed

lemma ids_unique:
  assumes "node_of e h" "node_of e' h'" "ph_id e = ph_id e'"
  shows "e = e'" "h = h'"
proof -
  have d: "distinct (map ph_id (stack_edges stacks))" using ok by (simp add: graph_ok_def)
  have "e \<in> set (stack_edges stacks)" "e' \<in> set (stack_edges stacks)" using assms(1,2) by (auto simp: node_of_def stack_edges_def)
  then show "e = e'" using d assms(3) by (auto simp: distinct_map inj_on_def)
  have "h \<in> set (stack_hypos stacks)" using assms(1) by (simp add: node_of_def)
  then obtain xs ys where s: "stack_edges stacks = xs @ (h # arc_list h) @ ys"
      "set xs \<union> set ys = (\<Union>g \<in> set (stack_hypos stacks) - {h}. set (g # arc_list g))" by (rule edges_split)
  have "distinct (stack_edges stacks)" using d by (simp add: distinct_map)
  then have "set (h # arc_list h) \<inter> (set xs \<union> set ys) = {}" unfolding s(1) by auto
  then have "h' \<notin> set (stack_hypos stacks) - {h}" using assms(1,2) \<open>e = e'\<close> unfolding s(2) node_of_def by blast
  then show "h = h'" using assms(2) by (auto simp: node_of_def)
qed

lemma node_unique: "node_of e h \<Longrightarrow> node_of e h' \<Longrightarrow> h = h'"
  using ids_unique(2) by blast

lemma arc_not_node: "h \<in> set (stack_hypos stacks) \<Longrightarrow> a \<in> set (arc_list h) \<Longrightarrow> a \<noteq> h"
proof -
  assume h: "h \<in> set (stack_hypos stacks)" "a \<in> set (arc_list h)"
  then obtain xs ys where "stack_edges stacks = xs @ (h # arc_list h) @ ys" by (blast elim: edges_split)
  moreover have "distinct (stack_edges stacks)" using ok by (simp add: graph_ok_def distinct_map)
  ultimately show ?thesis using h(2) by auto
qed

lemma arcs_distinct: "h \<in> set (stack_hypos stacks) \<Longrightarrow> distinct (arc_list h)"
proof -
  assume h: "h \<in> set (stack_hypos stacks)"
  then obtain xs ys where "stack_edges stacks = xs @ (h # arc_list h) @ ys" by (blast elim: edges_split)
  moreover have "distinct (stack_edges stacks)" using ok by (simp add: graph_ok_def distinct_map)
  ultimately show ?thesis by auto
qed

lemma edge_facts:
  assumes "node_of e h"
  shows "ph_winning e = Some (ph_id h)" "ph_total e = Fin (real_score (ph_total e))" "real_score (ph_total e) \<le> real_score (ph_total h)"
    "length (ph_breakdown e) = L" "ph_prev e = Some p \<Longrightarrow> p \<in> set (stack_hypos stacks)"
proof -
  obtain j where j: "j < length stacks" "h \<in> set (hs_hypos (stacks ! j))" using assms by (auto simp: node_of_def in_stack)
  then have e: "edge_ok stacks L j h e" "edge_ok stacks L j h h" using ok assms by (auto simp: graph_ok_def node_of_def)
  then show "ph_winning e = Some (ph_id h)" "length (ph_breakdown e) = L" by (simp_all add: edge_ok_def)
  show "ph_total e = Fin (real_score (ph_total e))" "real_score (ph_total e) \<le> real_score (ph_total h)"
    using e by (auto simp: edge_ok_def)
  assume "ph_prev e = Some p"
  then obtain k where "k < j" "p \<in> set (hs_hypos (stacks ! k))" using e(1) by (auto simp: edge_ok_def)
  then show "p \<in> set (stack_hypos stacks)" using j(1) unfolding in_stack by (intro exI [of _ k]) simp
qed

lemma find_node: "h \<in> set (stack_hypos stacks) \<Longrightarrow> find (\<lambda>w. ph_id w = ph_id h) (stack_hypos stacks) = Some h"
proof (cases "find (\<lambda>w. ph_id w = ph_id h) (stack_hypos stacks)")
  case (Some w)
  assume "h \<in> set (stack_hypos stacks)"
  moreover have "w \<in> set (stack_hypos stacks)" "ph_id w = ph_id h" using Some by (auto simp: find_Some_iff)
  ultimately have "w = h" using ids_unique(1) node_in by blast
  then show ?thesis using Some by simp
qed (auto simp: find_None_iff)

lemma GetWinningHypo_node: "node_of e h \<Longrightarrow> GetWinningHypo stacks e = Inr h"
  using edge_facts(1) [of e h] find_node [of h] by (simp add: GetWinningHypo_def stack_hypos_def [symmetric]) (simp add: node_of_def)

subsection \<open>Derivations\<close>

definition edge_of :: "'s pb_hypo \<Rightarrow> bool" where
  "edge_of e \<longleftrightarrow> (\<exists>h. node_of e h)"

lemma edge_in_graph: "(\<exists>h \<in> set (stack_hypos stacks). node_of e h) \<longleftrightarrow> edge_of e"
  by (auto simp: edge_of_def node_of_def)

lemma derivation_Cons: "derivation (e # es) \<longleftrightarrow> edge_of e \<and> (case es of [] \<Rightarrow> ph_prev e = None
    | e' # es' \<Rightarrow> (\<exists>p. ph_prev e = Some p \<and> node_of e' p) \<and> derivation es)"
  by (cases es) (auto simp: edge_in_graph)

lemma derivation_edge: "derivation es \<Longrightarrow> e \<in> set es \<Longrightarrow> edge_of e"
  by (induction es rule: induct_list012) (auto simp: edge_in_graph)

lemma derivation_next: "derivation es \<Longrightarrow> Suc i < length es \<Longrightarrow> \<exists>p. ph_prev (es ! i) = Some p \<and> node_of (es ! Suc i) p"
  by (induction es arbitrary: i rule: induct_list012) (auto simp: nth_Cons split: nat.splits)

lemma derivation_last: "derivation es \<Longrightarrow> ph_prev (last es) = None"
  by (induction es rule: induct_list012) (auto simp: edge_in_graph)

lemma chain_Cons: "hypo_chain h = h # (case ph_prev h of None \<Rightarrow> [] | Some p \<Rightarrow> hypo_chain p)"
  by (cases h) simp

lemma chain_hd [simp]: "hypo_chain h \<noteq> []" "hd (hypo_chain h) = h" "hypo_chain h ! 0 = h"
  by (simp_all add: chain_Cons [of h])

text \<open>An edge goes from a stack to an earlier one, so that there is no end to the proof without the numbers of the stacks.\<close>

lemma chain_ok:
  assumes "j < length stacks" "h \<in> set (hs_hypos (stacks ! j))" "e \<in> set (h # arc_list h)"
  shows "derivation (hypo_chain e) \<and> (\<forall>g \<in> set (tl (hypo_chain e)). g \<in> set (stack_hypos stacks))"
  using assms
proof (induction j arbitrary: h e rule: less_induct)
  case (less j)
  have n: "node_of e h" using less.prems by (auto simp: node_of_def in_stack)
  show ?case
  proof (cases "ph_prev e")
    case None
    then show ?thesis using n by (auto simp: chain_Cons [of e] edge_in_graph edge_of_def)
  next
    case (Some p)
    have "edge_ok stacks L j h e" using ok less.prems by (auto simp: graph_ok_def)
    then obtain k where k: "k < j" "p \<in> set (hs_hypos (stacks ! k))" using Some by (auto simp: edge_ok_def)
    then have "k < length stacks" using less.prems(1) by simp
    then have "derivation (hypo_chain p)" "\<forall>g \<in> set (tl (hypo_chain p)). g \<in> set (stack_hypos stacks)" "p \<in> set (stack_hypos stacks)"
      using less.IH [OF k(1) _ k(2), of p] k(2) by (auto simp: in_stack)
    then show ?thesis using Some n node_in
      by (auto simp: chain_Cons [of e] chain_Cons [of p] edge_in_graph edge_of_def derivation_Cons split: option.splits)
  qed
qed

lemma chain_edge:
  assumes "node_of e h"
  shows "derivation (hypo_chain e)" "i < length (hypo_chain e) \<Longrightarrow> 0 < i \<Longrightarrow> hypo_chain e ! i \<in> set (stack_hypos stacks)"
proof -
  obtain j where "j < length stacks" "h \<in> set (hs_hypos (stacks ! j))" "e \<in> set (h # arc_list h)" using assms by (auto simp: node_of_def in_stack)
  note C = chain_ok [OF this]
  then show "derivation (hypo_chain e)" by blast
  assume i: "i < length (hypo_chain e)" "0 < i"
  then have "hypo_chain e ! i = tl (hypo_chain e) ! (i - 1)" "i - 1 < length (tl (hypo_chain e))" by (simp_all add: nth_tl)
  then show "hypo_chain e ! i \<in> set (stack_hypos stacks)" using C nth_mem by metis
qed

lemma derivation_append:
  assumes "derivation (xs @ e # es)" "derivation (e' # es')" "node_of e h" "node_of e' h" "xs = [] \<or> (\<exists>p. ph_prev (last xs) = Some p \<and> node_of e p)"
  shows "derivation (xs @ e' # es')"
  using assms(1,5)
proof (induction xs)
  case (Cons x xs)
  show ?case
  proof (cases xs)
    case Nil
    then obtain p where "ph_prev x = Some p" "node_of e p" using Cons.prems(2) by auto
    then show ?thesis using Cons.prems(1) Nil assms(2-4) node_unique by (auto simp: derivation_Cons)
  next
    case (Cons y ys)
    then have "derivation (xs @ e' # es')" using Cons.IH Cons.prems by (simp add: derivation_Cons)
    then show ?thesis using Cons.prems(1) Cons by (simp add: derivation_Cons)
  qed
qed (use assms(2) in simp)

text \<open>Two derivations that share a prefix continue with edges of the same node, and neither is a proper prefix of the other.\<close>

lemma derivation_branch:
  assumes "derivation es" "derivation ds" "take i es = take i ds" "0 < i" "i < length es"
  shows "i < length ds" "\<exists>h. node_of (es ! i) h \<and> node_of (ds ! i) h"
proof -
  obtain k where i: "i = Suc k" using assms(4) by (cases i) auto
  obtain p where p: "ph_prev (es ! k) = Some p" "node_of (es ! i) p" using derivation_next [OF assms(1)] assms(5) i by blast
  have len: "i \<le> length ds"
    using assms(5) arg_cong [OF assms(3), of length] by simp
  have same: "es ! k = ds ! k" using arg_cong [OF assms(3), of "\<lambda>xs. xs ! k"] len assms(5) i by simp
  have "ds \<noteq> []" using assms(2) by auto
  show less: "i < length ds"
  proof (rule ccontr)
    assume "\<not> i < length ds"
    then have "length ds = i" using len by simp
    then have "last ds = ds ! k" using \<open>ds \<noteq> []\<close> i by (simp add: last_conv_nth)
    then show False using derivation_last [OF assms(2)] p(1) same by simp
  qed
  obtain q where "ph_prev (ds ! k) = Some q" "node_of (ds ! i) q" using derivation_next [OF assms(2)] less i by blast
  then show "\<exists>h. node_of (es ! i) h \<and> node_of (ds ! i) h" using p same by auto
qed

lemma derivation_first_difference:
  assumes "derivation es" "derivation ds" "es \<noteq> ds" "take k es = take k ds" "k \<le> length es" "k = 0 \<Longrightarrow> \<exists>h. node_of (hd es) h \<and> node_of (hd ds) h"
  obtains i h where "k \<le> i" "i < length es" "i < length ds" "take i es = take i ds" "es ! i \<noteq> ds ! i" "node_of (es ! i) h" "node_of (ds ! i) h"
proof -
  have ne: "es \<noteq> []" "ds \<noteq> []" using assms(1,2) by auto
  define i where "i = (LEAST i. take (Suc i) es \<noteq> take (Suc i) ds)"
  have ex: "\<exists>i. take (Suc i) es \<noteq> take (Suc i) ds"
  proof (rule ccontr)
    assume "\<not> ?thesis"
    then have "take (Suc (length es + length ds)) es = take (Suc (length es + length ds)) ds" by blast
    then show False using assms(3) by simp
  qed
  then have i: "take (Suc i) es \<noteq> take (Suc i) ds" unfolding i_def by (rule LeastI_ex)
  have before: "take j es = take j ds" if "j \<le> i" for j
    using that not_less_Least [of "j - 1" "\<lambda>i. take (Suc i) es \<noteq> take (Suc i) ds"] unfolding i_def [symmetric] by (cases j) auto
  have "k \<le> i"
  proof (rule ccontr)
    assume "\<not> k \<le> i"
    then have "take (Suc i) (take k es) = take (Suc i) es" "take (Suc i) (take k ds) = take (Suc i) ds" by (simp_all add: min_def)
    then show False using assms(4) i by metis
  qed
  have lens: "i < length es \<and> i < length ds \<and> (\<exists>h. node_of (es ! i) h \<and> node_of (ds ! i) h)"
  proof (cases "i = 0")
    case True
    then show ?thesis using ne assms(6) \<open>k \<le> i\<close> by (simp add: hd_conv_nth)
  next
    case False
    have "i < length es"
    proof (rule ccontr)
      assume no: "\<not> i < length es"
      then have "take i es = es" by simp
      then have "i \<noteq> length ds" "length es \<le> length ds" using before [of i] i no by (auto dest: arg_cong [of _ _ length])
      then show False using derivation_branch(1) [OF assms(2,1), of "length es"] before [of "length es"] no i ne
        by (metis before le_refl length_greater_0_conv linorder_not_less nat_less_le take_all)
    qed
    then show ?thesis using derivation_branch [OF assms(1,2) before [OF order_refl]] False by blast
  qed
  then have "es ! i \<noteq> ds ! i" using i before [OF order_refl] by (auto simp: take_Suc_conv_app_nth)
  then show thesis using that [of i] lens \<open>k \<le> i\<close> before [OF order_refl] by blast
qed

subsection \<open>Scores of derivations\<close>

definition gap :: "'s pb_hypo \<Rightarrow> real" where
  "gap e = real_score (ph_total e) - real_score (ph_total (THE h. node_of e h))"

lemma gap_node: "node_of e h \<Longrightarrow> gap e = real_score (ph_total e) - real_score (ph_total h)"
proof -
  assume h: "node_of e h"
  then have "(THE g. node_of e g) = h" by (rule the_equality) (rule node_unique [OF _ h])
  then show ?thesis by (simp add: gap_def)
qed

lemma gap_nonpos: "edge_of e \<Longrightarrow> gap e \<le> 0"
  using edge_facts(3) by (auto simp: edge_of_def gap_node)

lemma gap_hypo [simp]: "h \<in> set (stack_hypos stacks) \<Longrightarrow> gap h = 0"
  using gap_node [OF node_in] by simp

definition path_score :: "'s pb_hypo list \<Rightarrow> real" where
  "path_score es = real_score (ph_total (hd es)) + sum_list (map gap (tl es))"

text \<open>The score is the sum of the scores of the steps.\<close>

lemma path_score_steps: "derivation es \<Longrightarrow> path_score es = sum_list (map step_score es)"
proof (induction es rule: induct_list012)
  case (3 e e' es)
  then obtain p where "ph_prev e = Some p" "node_of e' p" by auto
  then show ?case using 3 by (simp add: path_score_def step_score_def gap_node)
qed (simp_all add: path_score_def step_score_def)

lemma chain_score:
  assumes "node_of e h"
  shows "path_score (hypo_chain e) = real_score (ph_total e)"
proof -
  have "\<forall>g \<in> set (tl (hypo_chain e)). gap g = 0"
    using chain_edge(2) [OF assms] by (force simp: in_set_conv_nth nth_tl)
  then have "map gap (tl (hypo_chain e)) = map (\<lambda>_. 0) (tl (hypo_chain e))" by simp
  then show ?thesis by (simp add: path_score_def map_replicate_const sum_list_replicate)
qed

lemma exchange_scores:
  assumes "\<forall>e \<in> set es. edge_of e" "length bd = L"
  shows "\<exists>bd'. rfold (exchange_score stacks) es (Fin x, bd) = Inr (Fin (x + sum_list (map gap es)), bd') \<and> length bd' = L"
  using assms
proof (induction es arbitrary: x bd)
  case (Cons e es)
  then obtain h where h: "node_of e h" by (auto simp: edge_of_def)
  then have hh: "node_of h h" by (auto simp: node_of_def)
  note W = GetWinningHypo_node [OF h] edge_facts(4) [OF h] edge_facts(4) [OF hh] edge_facts(2) [OF h] edge_facts(2) [OF hh]
  show ?case
  proof (cases "ph_id e = ph_id h")
    case True
    then have "e = h" using ids_unique(1) [OF h hh] by blast
    then have "exchange_score stacks e (Fin x, bd) = Inr (Fin x, bd)" "gap e = 0" using True W(1) h by (simp_all add: exchange_score_def gap_node)
    then show ?thesis using Cons by simp
  next
    case False
    let ?b = "map2 (-) bd (ph_breakdown h)"
    have b: "MinusEquals bd (ph_breakdown h) = Inr ?b" "PlusEquals ?b (ph_breakdown e) = Inr (map2 (+) ?b (ph_breakdown e))"
      using Cons.prems(2) W by (simp_all add: MinusEquals_def PlusEquals_def check_def)
    have l: "length (map2 (+) ?b (ph_breakdown e)) = L" using Cons.prems(2) W by simp
    obtain bd' where "rfold (exchange_score stacks) es (Fin (x + gap e), map2 (+) ?b (ph_breakdown e)) = Inr (Fin (x + gap e + sum_list (map gap es)), bd')"
        "length bd' = L" using Cons.IH [OF _ l, of "x + gap e"] Cons.prems(1) by auto
    moreover have "score_minus (Fin x) (ph_total h) + ph_total e = Fin (x + gap e)"
      by (subst W(4), subst W(5)) (simp add: gap_node [OF h])
    then have "exchange_score stacks e (Fin x, bd) = Inr (Fin (x + gap e), map2 (+) ?b (ph_breakdown e))"
      using False W(1) b by (simp add: exchange_score_def)
    ultimately show ?thesis by (simp add: add.assoc)
  qed
qed simp

lemma InitScore_derivation:
  assumes "derivation es"
  shows "\<exists>bd. InitScore stacks es = Inr (Fin (path_score es), bd)"
proof -
  obtain e rest where es: "es = e # rest" using assms by (cases es) auto
  then obtain h where h: "node_of e h" using derivation_edge [OF assms, of e] by (auto simp: edge_of_def)
  then have hh: "node_of h h" by (auto simp: node_of_def)
  have edges: "\<forall>x \<in> set es. edge_of x" using derivation_edge [OF assms] by blast
  obtain bd where "rfold (exchange_score stacks) es (Fin (real_score (ph_total h)), ph_breakdown h) = Inr (Fin (real_score (ph_total h) + sum_list (map gap es)), bd)"
    using exchange_scores [OF edges edge_facts(4) [OF hh]] by blast
  moreover have "real_score (ph_total h) + sum_list (map gap es) = path_score es" by (simp add: es path_score_def gap_node [OF h])
  ultimately show ?thesis using GetWinningHypo_node [OF h] edge_facts(2) [OF hh] by (simp add: InitScore_def es)
qed

end

end
