(* ===== verification/NBestProps.thy ===== *)
theory NBestProps
  imports SearchGraphs SearchProps
begin

text \<open>
  The n-best list of the phrase-based decoder: the paths that differ from a path from one edge on form a tree, and the main loop of
  CalcNBest is a best-first search of the trees of all hypotheses on the last stack.
\<close>

section \<open>The tree of paths\<close>

context search_graph
begin

abbreviation complete :: "'s pb_hypo list \<Rightarrow> bool" where
  "complete \<equiv> complete_derivation stacks"

lemmas complete_def = complete_derivation_def

text \<open>The derivations that agree with a path on the edges before a position.\<close>

definition subtree :: "'s pb_hypo list \<Rightarrow> nat \<Rightarrow> 's pb_hypo list set" where
  "subtree es k = {ds. complete ds \<and> take k ds = take k es \<and> (k = 0 \<longrightarrow> (\<exists>h. node_of (hd es) h \<and> node_of (hd ds) h))}"

definition tree_node :: "'s pb_hypo list \<Rightarrow> nat \<Rightarrow> bool" where
  "tree_node es k \<longleftrightarrow> complete es \<and> k \<le> length es \<and> (\<forall>i. k \<le> i \<longrightarrow> i < length es \<longrightarrow> es ! i \<in> set (stack_hypos stacks))"

lemma subtree_self: "tree_node es k \<Longrightarrow> es \<in> subtree es k"
  using derivation_edge [of es "hd es"] by (cases es) (auto simp: tree_node_def subtree_def complete_def edge_of_def)

lemma subtree_complete: "ds \<in> subtree es k \<Longrightarrow> complete ds"
  by (simp add: subtree_def)

lemma hypo_of_node: "h \<in> set (stack_hypos stacks) \<Longrightarrow> node_of h g \<Longrightarrow> g = h"
  using node_unique node_in by blast

lemma subtree_split:
  assumes "tree_node es k" "ds \<in> subtree es k" "ds \<noteq> es"
  shows "\<exists>i a. k \<le> i \<and> i < length es \<and> a \<in> set (arc_list (es ! i)) \<and> ds \<in> subtree (take i es @ hypo_chain a) (Suc i)"
proof -
  have es: "derivation es" "k \<le> length es" and ds: "complete ds" "derivation ds" "take k es = take k ds"
      "k = 0 \<Longrightarrow> \<exists>h. node_of (hd es) h \<and> node_of (hd ds) h"
    using assms(1,2) by (auto simp: tree_node_def subtree_def complete_def)
  obtain i h where i: "k \<le> i" "i < length es" "i < length ds" "take i es = take i ds" "es ! i \<noteq> ds ! i" "node_of (es ! i) h" "node_of (ds ! i) h"
    using derivation_first_difference [OF es(1) ds(2) _ ds(3) es(2) ds(4)] assms(3) by blast
  have "es ! i \<in> set (stack_hypos stacks)" using assms(1) i by (simp add: tree_node_def)
  then have "h = es ! i" using hypo_of_node i(6) by blast
  then have a: "ds ! i \<in> set (arc_list (es ! i))" using i(5,7) by (auto simp: node_of_def)
  have "take (Suc i) ds = take (Suc i) (take i es @ hypo_chain (ds ! i))"
    using i(2,3,4) by (simp add: take_Suc_conv_app_nth chain_Cons [of "ds ! i"])
  then have "ds \<in> subtree (take i es @ hypo_chain (ds ! i)) (Suc i)" using ds(1) by (simp only: subtree_def mem_Collect_eq) simp
  then show ?thesis using i(1,2) a by blast
qed

lemma child_node:
  assumes "tree_node es k" "k \<le> i" "i < length es" "a \<in> set (arc_list (es ! i))"
  shows "tree_node (take i es @ hypo_chain a) (Suc i)" "subtree (take i es @ hypo_chain a) (Suc i) \<subseteq> subtree es k"
    "es \<notin> subtree (take i es @ hypo_chain a) (Suc i)"
proof -
  have es: "derivation es" "complete es" "es ! i \<in> set (stack_hypos stacks)" using assms(1-3) by (auto simp: tree_node_def complete_def)
  have n: "node_of a (es ! i)" "node_of (es ! i) (es ! i)" using es(3) assms(4) by (auto simp: node_of_def)
  have chain: "derivation (hypo_chain a)" by (rule chain_edge(1) [OF n(1)])
  obtain as where as: "hypo_chain a = a # as" by (simp add: chain_Cons [of a])
  have "derivation (take i es @ es ! i # drop (Suc i) es)" using es(1) assms(3) by (simp add: id_take_nth_drop [symmetric])
  moreover have "take i es = [] \<or> (\<exists>p. ph_prev (last (take i es)) = Some p \<and> node_of (es ! i) p)"
  proof (cases i)
    case (Suc j)
    then have "last (take i es) = es ! j" using assms(3) by (simp add: take_Suc_conv_app_nth)
    then show ?thesis using derivation_next [OF es(1), of j] Suc assms(3) by simp
  qed simp
  ultimately have d: "derivation (take i es @ hypo_chain a)"
    unfolding as using derivation_append [of "take i es" "es ! i" "drop (Suc i) es" a as "es ! i"] chain n as by simp
  have hd: "\<exists>h. node_of (hd es) h \<and> node_of (hd (take i es @ hypo_chain a)) h"
  proof (cases i)
    case 0
    then show ?thesis using n assms(3) by (cases es) auto
  next
    case (Suc j)
    then have "hd (take i es @ hypo_chain a) = hd es" using assms(3) by (cases es) auto
    then show ?thesis using es(1) derivation_edge [OF es(1), of "hd es"] by (cases es) (auto simp: edge_of_def)
  qed
  then have c: "complete (take i es @ hypo_chain a)" using es(2) d node_unique unfolding complete_def by blast
  show "tree_node (take i es @ hypo_chain a) (Suc i)"
    unfolding tree_node_def
  proof (intro conjI allI impI)
    fix m
    assume m: "Suc i \<le> m" "m < length (take i es @ hypo_chain a)"
    then have "(take i es @ hypo_chain a) ! m = hypo_chain a ! (m - i)" "0 < m - i" "m - i < length (hypo_chain a)"
      using assms(3) by (auto simp: nth_append)
    then show "(take i es @ hypo_chain a) ! m \<in> set (stack_hypos stacks)" using chain_edge(2) [OF n(1)] by simp
  qed (use c assms(3) as in auto)
  have heads: "\<exists>h. node_of (hd es) h \<and> node_of (hd ds) h" if "take (Suc i) ds = take (Suc i) (take i es @ hypo_chain a)" for ds
  proof -
    have "hd (take (Suc i) ds) = hd (take (Suc i) (take i es @ hypo_chain a))" using that by simp
    then have "hd ds = hd (take i es @ hypo_chain a)" by (simp only: hd_take [OF zero_less_Suc])
    then show ?thesis using hd by simp
  qed
  show "subtree (take i es @ hypo_chain a) (Suc i) \<subseteq> subtree es k"
  proof
    fix ds
    assume ds: "ds \<in> subtree (take i es @ hypo_chain a) (Suc i)"
    then have t: "take (Suc i) ds = take (Suc i) (take i es @ hypo_chain a)" by (simp add: subtree_def)
    have "take k ds = take k (take (Suc i) ds)" using assms(2) by (simp add: min_def)
    also have "\<dots> = take k es" using assms(2,3) unfolding t by (simp add: min_def)
    finally show "ds \<in> subtree es k" using ds heads [OF t] by (auto simp: subtree_def)
  qed
  show "es \<notin> subtree (take i es @ hypo_chain a) (Suc i)"
  proof
    assume "es \<in> subtree (take i es @ hypo_chain a) (Suc i)"
    then have "take (Suc i) es = take (Suc i) (take i es @ hypo_chain a)" by (simp add: subtree_def)
    then have "es ! i = a" using assms(3) by (simp add: take_Suc_conv_app_nth as)
    then show False using arc_not_node [OF es(3) assms(4)] by simp
  qed
qed

lemma children_disjoint:
  assumes "tree_node es k" "k \<le> i" "i < length es" "a \<in> set (arc_list (es ! i))" "k \<le> j" "j < length es" "b \<in> set (arc_list (es ! j))"
    and "(i, a) \<noteq> (j, b)"
  shows "subtree (take i es @ hypo_chain a) (Suc i) \<inter> subtree (take j es @ hypo_chain b) (Suc j) = {}"
proof -
  have at: "ds ! m = (if m < i then es ! m else c)" if "ds \<in> subtree (take i es @ hypo_chain c) (Suc i)" "m \<le> i" "i < length es" for ds i c m
  proof -
    have "take (Suc i) ds = take i es @ [c]" using that(1,3) by (simp add: subtree_def chain_Cons [of c])
    then have "take (Suc i) ds ! m = (take i es @ [c]) ! m" by simp
    then show ?thesis using that(2,3) by (auto simp: nth_append min_def)
  qed
  show ?thesis
  proof (rule ccontr)
    assume "\<not> ?thesis"
    then obtain ds where ds: "ds \<in> subtree (take i es @ hypo_chain a) (Suc i)" "ds \<in> subtree (take j es @ hypo_chain b) (Suc j)" by blast
    have no: "a \<noteq> es ! i" "b \<noteq> es ! j" using assms arc_not_node by (auto simp: tree_node_def)
    consider "i < j" | "j < i" | "i = j" by linarith
    then show False
      using at [OF ds(1) _ assms(3)] at [OF ds(2) _ assms(6)] no assms(8) by cases (metis le_refl less_imp_le less_irrefl)+
  qed
qed

lemma score_gaps:
  assumes "derivation es" "node_of (hd es) h"
  shows "path_score es = real_score (ph_total h) + sum_list (map gap es)"
  using assms by (cases es) (auto simp: path_score_def gap_node)

lemma subtree_score:
  assumes "tree_node es k" "ds \<in> subtree es k"
  shows "path_score ds \<le> path_score es"
proof -
  have es: "derivation es" and ds: "derivation ds" "take k ds = take k es" using assms by (auto simp: tree_node_def subtree_def complete_def)
  obtain h where h: "node_of (hd es) h" "node_of (hd ds) h"
  proof (cases k)
    case 0
    then show ?thesis using assms(2) that by (auto simp: subtree_def)
  next
    case (Suc m)
    then have "hd ds = hd es" using ds(2) by (metis hd_take zero_less_Suc)
    then show ?thesis using that derivation_edge [OF es, of "hd es"] es by (cases es) (auto simp: edge_of_def)
  qed
  have split: "sum_list (map gap xs) = sum_list (map gap (take k xs)) + sum_list (map gap (drop k xs))" for xs
    by (metis append_take_drop_id map_append sum_list_append)
  have "\<forall>e \<in> set (drop k es). gap e = 0" using assms(1) by (auto simp: tree_node_def in_set_conv_nth)
  then have "map gap (drop k es) = map (\<lambda>_. 0) (drop k es)" by simp
  then have "sum_list (map gap (drop k es)) = 0" by (simp add: map_replicate_const sum_list_replicate)
  moreover have "\<forall>e \<in> set (drop k ds). gap e \<le> 0" using gap_nonpos derivation_edge [OF ds(1)] by (auto dest: in_set_dropD)
  then have "sum_list (map gap (drop k ds)) \<le> 0" by (intro sum_list_nonpos) auto
  ultimately have "sum_list (map gap ds) \<le> sum_list (map gap es)" unfolding split [of ds] split [of es] ds(2) by linarith
  then show ?thesis using score_gaps [OF es h(1)] score_gaps [OF ds(1) h(2)] by simp
qed

section \<open>Paths as nodes of the tree\<close>

definition path_start :: "'s pb_path \<Rightarrow> nat" where
  "path_start p = (if pp_prevEdgeChanged p = NOT_FOUND then 0 else pp_prevEdgeChanged p + 1)"

definition path_ok :: "'s pb_path \<Rightarrow> bool" where
  "path_ok p \<longleftrightarrow> tree_node (pp_path p) (path_start p) \<and> pp_totalScore p = Fin (path_score (pp_path p))"

abbreviation below :: "'s pb_path \<Rightarrow> 's pb_hypo list set" where
  "below p \<equiv> subtree (pp_path p) (path_start p)"

lemma derivation_length:
  assumes "derivation (e # es)" "j < length stacks" "h \<in> set (hs_hypos (stacks ! j))" "e \<in> set (h # arc_list h)"
  shows "length es \<le> j"
  using assms
proof (induction es arbitrary: e j h)
  case (Cons e' es)
  then obtain p where p: "ph_prev e = Some p" "node_of e' p" "derivation (e' # es)" by auto
  have "edge_ok stacks L j h e" using ok Cons.prems by (auto simp: graph_ok_def)
  then obtain k where k: "k < j" "p \<in> set (hs_hypos (stacks ! k))" using p(1) by (auto simp: edge_ok_def)
  have "length es \<le> k" using Cons.IH [OF p(3) _ k(2)] k(1) Cons.prems(2) p(2) by (auto simp: node_of_def)
  then show ?case using k(1) by simp
qed simp

lemma derivation_bound: "derivation es \<Longrightarrow> length es < NOT_FOUND"
proof -
  assume d: "derivation es"
  then obtain e rest where es: "es = e # rest" by (cases es) auto
  then obtain h where "node_of e h" using derivation_edge [OF d, of e] by (auto simp: edge_of_def)
  then obtain j where "j < length stacks" "h \<in> set (hs_hypos (stacks ! j))" "e \<in> set (h # arc_list h)" by (auto simp: node_of_def in_stack)
  from derivation_length [OF d [unfolded es] this] have "length es \<le> length stacks" using \<open>j < length stacks\<close> es by simp
  then show ?thesis using ok by (simp add: graph_ok_def)
qed

definition deviant :: "'s pb_path \<Rightarrow> nat \<Rightarrow> 's pb_hypo \<Rightarrow> 's pb_path" where
  "deviant p i a = (case deviant_path stacks p i a of Inr d \<Rightarrow> d | Inl _ \<Rightarrow> p)"

lemma deviant_ok:
  assumes "path_ok p" "path_start p \<le> i" "i < length (pp_path p)" "a \<in> set (arc_list (pp_path p ! i))"
  shows "deviant_path stacks p i a = Inr (deviant p i a)" "pp_path (deviant p i a) = take i (pp_path p) @ hypo_chain a"
    "path_start (deviant p i a) = Suc i" "path_ok (deviant p i a)"
proof -
  have node: "tree_node (pp_path p) (path_start p)" using assms(1) by (simp add: path_ok_def)
  note C = child_node [OF node assms(2-4)]
  have d: "derivation (take i (pp_path p) @ hypo_chain a)" using C(1) by (simp add: tree_node_def complete_def)
  obtain bd where bd: "InitScore stacks (take i (pp_path p) @ hypo_chain a) = Inr (Fin (path_score (take i (pp_path p) @ hypo_chain a)), bd)"
    using InitScore_derivation [OF d] by blast
  have "i < NOT_FOUND" using assms(3) node derivation_bound [of "pp_path p"] by (simp add: tree_node_def complete_def)
  then show "deviant_path stacks p i a = Inr (deviant p i a)" "pp_path (deviant p i a) = take i (pp_path p) @ hypo_chain a"
    "path_start (deviant p i a) = Suc i" "path_ok (deviant p i a)"
    using bd C(1) by (simp_all add: deviant_def deviant_path_def path_start_def path_ok_def Let_def)
qed

definition deviants :: "'s pb_path \<Rightarrow> 's pb_path list" where
  "deviants p = concat (map (\<lambda>i. map (deviant p i) (arc_list (pp_path p ! i))) [path_start p..<length (pp_path p)])"

lemma in_deviants: "d \<in> set (deviants p) \<longleftrightarrow> (\<exists>i a. path_start p \<le> i \<and> i < length (pp_path p) \<and> a \<in> set (arc_list (pp_path p ! i)) \<and> d = deviant p i a)"
  by (auto simp: deviants_def)

lemma CreateDeviantPaths_adds:
  assumes "path_ok p"
  shows "pb_CreateDeviantPaths stacks p coll = Inr (fold coll_Add (deviants p) coll)"
proof -
  have arcs: "rfold (\<lambda>arc coll. rbind (deviant_path stacks p i arc) (\<lambda>d. Inr (coll_Add d coll))) as c = Inr (fold coll_Add (map (deviant p i) as) c)"
    if "path_start p \<le> i" "i < length (pp_path p)" "set as \<subseteq> set (arc_list (pp_path p ! i))" for as i c
    using that(3) by (induction as arbitrary: c) (simp_all add: deviant_ok(1) [OF assms that(1,2)])
  have edge: "add_deviants stacks p i c = Inr (fold coll_Add (map (deviant p i) (arc_list (pp_path p ! i))) c)"
    if "path_start p \<le> i" "i < length (pp_path p)" for i c
    using arcs [OF that, of "arc_list (pp_path p ! i)" c] that by (auto simp: add_deviants_def arc_list_def split: option.splits)
  have "rfold (add_deviants stacks p) is c = Inr (fold coll_Add (concat (map (\<lambda>i. map (deviant p i) (arc_list (pp_path p ! i))) is)) c)"
    if "set is \<subseteq> {path_start p..<length (pp_path p)}" for "is" c
    using that by (induction "is" arbitrary: c) (simp_all add: edge)
  then show ?thesis by (simp add: pb_CreateDeviantPaths_def deviants_def path_start_def)
qed

text \<open>The deviants of a path share out the paths below it.\<close>

lemma deviants_below:
  assumes "path_ok p"
  shows "below p = insert (pp_path p) (\<Union>d \<in> set (deviants p). below d)" "\<forall>d \<in> set (deviants p). pp_path p \<notin> below d"
    "\<forall>d \<in> set (deviants p). path_ok d \<and> pp_totalScore d \<le> pp_totalScore p"
proof -
  have node: "tree_node (pp_path p) (path_start p)" using assms by (simp add: path_ok_def)
  have d: "below (deviant p i a) = subtree (take i (pp_path p) @ hypo_chain a) (Suc i)" "below (deviant p i a) \<subseteq> below p"
      "pp_path p \<notin> below (deviant p i a)" "path_ok (deviant p i a)" "pp_totalScore (deviant p i a) \<le> pp_totalScore p"
    if "path_start p \<le> i" "i < length (pp_path p)" "a \<in> set (arc_list (pp_path p ! i))" for i a
  proof -
    note D = deviant_ok [OF assms that] and C = child_node [OF node that]
    show b: "below (deviant p i a) = subtree (take i (pp_path p) @ hypo_chain a) (Suc i)" by (simp only: D(2,3))
    show sub: "below (deviant p i a) \<subseteq> below p" "pp_path p \<notin> below (deviant p i a)" unfolding b by (rule C(2,3))+
    show dok: "path_ok (deviant p i a)" by (rule D(4))
    then have "pp_path (deviant p i a) \<in> below p" using subtree_self sub(1) unfolding path_ok_def by blast
    then have "path_score (pp_path (deviant p i a)) \<le> path_score (pp_path p)" by (rule subtree_score [OF node])
    then show "pp_totalScore (deviant p i a) \<le> pp_totalScore p" using dok assms by (simp add: path_ok_def)
  qed
  show "below p = insert (pp_path p) (\<Union>d \<in> set (deviants p). below d)"
  proof (intro equalityI subsetI)
    fix ds
    assume "ds \<in> below p"
    then show "ds \<in> insert (pp_path p) (\<Union>d \<in> set (deviants p). below d)"
      using subtree_split [OF node, of ds] d(1) in_deviants by (cases "ds = pp_path p") (auto, metis)
  next
    fix ds
    assume "ds \<in> insert (pp_path p) (\<Union>d \<in> set (deviants p). below d)"
    then consider "ds = pp_path p" | x where "x \<in> set (deviants p)" "ds \<in> below x" by blast
    then show "ds \<in> below p"
    proof cases
      case 1
      then show ?thesis using subtree_self [OF node] by simp
    next
      case 2
      then show ?thesis using d(2) unfolding in_deviants by blast
    qed
  qed
  show "\<forall>d \<in> set (deviants p). pp_path p \<notin> below d" "\<forall>d \<in> set (deviants p). path_ok d \<and> pp_totalScore d \<le> pp_totalScore p"
    using d(3-5) by (auto simp: in_deviants)
qed

lemma deviants_disjoint:
  assumes "path_ok p" "d \<in> set (deviants p)" "d' \<in> set (deviants p)" "d \<noteq> d'"
  shows "below d \<inter> below d' = {}"
proof -
  have node: "tree_node (pp_path p) (path_start p)" using assms(1) by (simp add: path_ok_def)
  obtain i a where i: "path_start p \<le> i" "i < length (pp_path p)" "a \<in> set (arc_list (pp_path p ! i))" "d = deviant p i a"
    using assms(2) by (auto simp: in_deviants)
  obtain j b where j: "path_start p \<le> j" "j < length (pp_path p)" "b \<in> set (arc_list (pp_path p ! j))" "d' = deviant p j b"
    using assms(3) by (auto simp: in_deviants)
  have "(i, a) \<noteq> (j, b)" using assms(4) i(4) j(4) by auto
  from children_disjoint [OF node i(1-3) j(1-3) this] show ?thesis
    unfolding i(4) j(4) deviant_ok(2) [OF assms(1) i(1-3)] deviant_ok(2) [OF assms(1) j(1-3)]
      deviant_ok(3) [OF assms(1) i(1-3)] deviant_ok(3) [OF assms(1) j(1-3)] .
qed

section \<open>The main loop\<close>

abbreviation descending :: "'s pb_path list \<Rightarrow> bool" where
  "descending \<equiv> sorted_wrt (\<lambda>p q. pp_totalScore q \<le> pp_totalScore p)"

lemma coll_Add_mset: "mset (coll_Add p coll) = add_mset p (mset coll)"
proof -
  have "mset (takeWhile P coll) + mset (dropWhile P coll) = mset coll" for P by (simp flip: mset_append)
  then show ?thesis by (simp add: coll_Add_def)
qed

lemma coll_Add_set [simp]: "set (coll_Add p coll) = insert p (set coll)"
  using arg_cong [OF coll_Add_mset, of set_mset] by simp

lemma coll_Add_descending:
  assumes "descending coll"
  shows "descending (coll_Add p coll)"
proof -
  let ?P = "\<lambda>q. pp_totalScore q \<ge> pp_totalScore p"
  have d: "descending (takeWhile ?P coll @ dropWhile ?P coll)" using assms by simp
  have later: "pp_totalScore q \<le> pp_totalScore p" if q: "q \<in> set (dropWhile ?P coll)" for q
  proof (cases "dropWhile ?P coll")
    case (Cons x xs)
    then have "\<not> ?P x" using hd_dropWhile [of ?P coll] by simp
    moreover have "pp_totalScore q \<le> pp_totalScore x" using q Cons d by (auto simp: sorted_wrt_append)
    ultimately show ?thesis by simp
  next
    case Nil
    then show ?thesis using q unfolding Nil by simp
  qed
  have parts: "descending (takeWhile ?P coll)" "descending (dropWhile ?P coll)" using d by (simp_all only: sorted_wrt_append)
  have first: "pp_totalScore p \<le> pp_totalScore q" if "q \<in> set (takeWhile ?P coll)" for q using that by (auto dest: set_takeWhileD)
  show ?thesis using parts first later order_trans unfolding coll_Add_def by (auto simp: sorted_wrt_append) blast
qed

lemma fold_Add:
  "mset (fold coll_Add new coll) = mset new + mset coll" "set (fold coll_Add new coll) = set new \<union> set coll"
  "descending coll \<Longrightarrow> descending (fold coll_Add new coll)"
  by (induction new arbitrary: coll) (auto simp: coll_Add_mset coll_Add_descending)

lemma filter_take_descending:
  assumes "descending xs"
  shows "length (filter (\<lambda>c. x \<le> pp_totalScore c) (take k xs)) = min k (length (filter (\<lambda>c. x \<le> pp_totalScore c) xs))"
  using assms
proof (induction xs arbitrary: k)
  case (Cons y ys)
  show ?case
  proof (cases k)
    case (Suc m)
    show ?thesis
    proof (cases "x \<le> pp_totalScore y")
      case False
      then have "\<forall>z \<in> set (y # ys). \<not> x \<le> pp_totalScore z" using Cons.prems by (auto dest: order_trans)
      moreover have "set (take k (y # ys)) \<subseteq> set (y # ys)" by (rule set_take_subset)
      ultimately have "filter (\<lambda>c. x \<le> pp_totalScore c) (y # ys) = []" "filter (\<lambda>c. x \<le> pp_totalScore c) (take k (y # ys)) = []"
        unfolding filter_empty_conv by blast+
      then show ?thesis by simp
    qed (use Cons Suc in simp)
  qed simp
qed simp

text \<open>
  The invariant of the loop: the list is in descending order and not below any contender, the contenders are nodes of the tree with
  disjoint subtrees, and every derivation is in the list, below a contender, or dropped, and then at least as many as are asked for
  are not below it.
\<close>

definition dropped :: "nat \<Rightarrow> 's pb_path list \<Rightarrow> 's pb_path list \<Rightarrow> 's pb_hypo list \<Rightarrow> bool" where
  "dropped m R C ds \<longleftrightarrow> m \<le> length R + length (filter (\<lambda>c. Fin (path_score ds) \<le> pp_totalScore c) C)
     \<and> (\<forall>p \<in> set R. Fin (path_score ds) \<le> pp_totalScore p)"

definition listed :: "'s pb_path \<Rightarrow> bool" where
  "listed p \<longleftrightarrow> complete (pp_path p) \<and> pp_totalScore p = Fin (path_score (pp_path p))"

definition nbest_inv :: "nat \<Rightarrow> 's pb_path list \<Rightarrow> 's pb_path list \<Rightarrow> bool" where
  "nbest_inv m R C \<longleftrightarrow> (\<forall>p \<in> set R. listed p) \<and> (\<forall>c \<in> set C. path_ok c) \<and> descending (R @ C) \<and> distinct (map pp_path (R @ C))
     \<and> (\<forall>p \<in> set R. \<forall>c \<in> set C. pp_path p \<notin> below c)
     \<and> (\<forall>c \<in> set C. \<forall>c' \<in> set C. c \<noteq> c' \<longrightarrow> below c \<inter> below c' = {})
     \<and> (\<forall>ds. complete ds \<longrightarrow> ds \<in> pp_path ` set R \<or> (\<exists>c \<in> set C. ds \<in> below c) \<or> dropped m R C ds)"

lemma path_ok_self: "path_ok p \<Longrightarrow> pp_path p \<in> below p"
  by (simp add: path_ok_def subtree_self)

lemma path_ok_listed: "path_ok p \<Longrightarrow> listed p"
  by (simp add: path_ok_def listed_def tree_node_def)

lemma below_score: "path_ok p \<Longrightarrow> ds \<in> below p \<Longrightarrow> Fin (path_score ds) \<le> pp_totalScore p"
  using subtree_score [of "pp_path p" "path_start p" ds] by (simp add: path_ok_def)

lemma disjoint_distinct:
  assumes "\<forall>c \<in> set C. path_ok c" "distinct C" "\<forall>c \<in> set C. \<forall>c' \<in> set C. c \<noteq> c' \<longrightarrow> below c \<inter> below c' = {}"
  shows "distinct (map pp_path C)"
  unfolding distinct_map
proof (intro conjI assms(2) inj_onI)
  fix c c'
  assume c: "c \<in> set C" "c' \<in> set C" "pp_path c = pp_path c'"
  then have "pp_path c \<in> below c" "pp_path c \<in> below c'" using assms(1) path_ok_self by (blast, metis)
  then show "c = c'" using assms(3) c(1,2) by blast
qed

lemma deviants_distinct:
  assumes "path_ok p"
  shows "distinct (deviants p)"
proof -
  have node: "tree_node (pp_path p) (path_start p)" using assms by (simp add: path_ok_def)
  have inner: "distinct (map (deviant p i) (arc_list (pp_path p ! i)))" if i: "path_start p \<le> i" "i < length (pp_path p)" for i
  proof -
    have "pp_path p ! i \<in> set (stack_hypos stacks)" using node i by (simp add: tree_node_def)
    moreover have "a = b" if ab: "a \<in> set (arc_list (pp_path p ! i))" "b \<in> set (arc_list (pp_path p ! i))" "deviant p i a = deviant p i b" for a b
    proof -
      have "take i (pp_path p) @ hypo_chain a = take i (pp_path p) @ hypo_chain b"
        using deviant_ok(2) [OF assms i ab(1)] deviant_ok(2) [OF assms i ab(2)] ab(3) by simp
      then show ?thesis by (simp add: chain_Cons [of a] chain_Cons [of b])
    qed
    ultimately show ?thesis by (simp add: distinct_map arcs_distinct inj_on_def)
  qed
  have outer: "set (map (deviant p i) (arc_list (pp_path p ! i))) \<inter> set (map (deviant p j) (arc_list (pp_path p ! j))) = {}"
    if "i \<noteq> j" "path_start p \<le> i" "i < length (pp_path p)" "path_start p \<le> j" "j < length (pp_path p)" for i j
    using deviant_ok(3) [OF assms that(2,3)] deviant_ok(3) [OF assms that(4,5)] that(1) by auto (metis Suc_inject)
  have "distinct (concat (map (\<lambda>i. map (deviant p i) (arc_list (pp_path p ! i))) is))"
    if "set is \<subseteq> {path_start p..<length (pp_path p)}" "distinct is" for "is"
    using that
  proof (induction "is")
    case (Cons i "is")
    have "set (map (deviant p i) (arc_list (pp_path p ! i))) \<inter> (\<Union>j \<in> set is. set (map (deviant p j) (arc_list (pp_path p ! j)))) = {}"
    proof (rule Int_emptyI)
      fix x
      assume x: "x \<in> set (map (deviant p i) (arc_list (pp_path p ! i)))" "x \<in> (\<Union>j \<in> set is. set (map (deviant p j) (arc_list (pp_path p ! j))))"
      then obtain j where j: "j \<in> set is" "x \<in> set (map (deviant p j) (arc_list (pp_path p ! j)))" by blast
      then have "j \<noteq> i" "path_start p \<le> j" "j < length (pp_path p)" "path_start p \<le> i" "i < length (pp_path p)" using Cons.prems by auto
      then show False using outer [of i j] x(1) j(2) by blast
    qed
    moreover have "distinct (concat (map (\<lambda>i. map (deviant p i) (arc_list (pp_path p ! i))) is))" using Cons by simp
    moreover have "distinct (map (deviant p i) (arc_list (pp_path p ! i)))" using inner [of i] Cons.prems(1) by simp
    ultimately show ?case by (simp add: image_Union [symmetric])
  qed simp
  then show ?thesis by (simp add: deviants_def)
qed

text \<open>The contenders before they are pruned.\<close>

lemma nbest_grow:
  assumes inv: "nbest_inv m R (p # C)"
  shows "(\<forall>c \<in> set (fold coll_Add (deviants p) C). path_ok c \<and> pp_totalScore c \<le> pp_totalScore p)"
    "descending (R @ [p] @ fold coll_Add (deviants p) C)" "distinct (map pp_path (R @ [p] @ fold coll_Add (deviants p) C))"
    "\<forall>q \<in> set (R @ [p]). \<forall>c \<in> set (fold coll_Add (deviants p) C). pp_path q \<notin> below c"
    "\<forall>c \<in> set (fold coll_Add (deviants p) C). \<forall>c' \<in> set (fold coll_Add (deviants p) C). c \<noteq> c' \<longrightarrow> below c \<inter> below c' = {}"
proof -
  let ?C = "fold coll_Add (deviants p) C"
  have p: "path_ok p" and C: "\<forall>c \<in> set C. path_ok c \<and> pp_totalScore c \<le> pp_totalScore p" "descending C"
    and R: "\<forall>q \<in> set R. pp_totalScore p \<le> pp_totalScore q" "descending R"
    using inv by (auto simp: nbest_inv_def sorted_wrt_append)
  have apart: "\<forall>c \<in> set C. below p \<inter> below c = {}"
    using inv by (auto simp: nbest_inv_def distinct_map)
  note D = deviants_below [OF p]
  have sub: "\<forall>d \<in> set (deviants p). below d \<subseteq> below p" using D(1) by blast
  show all: "\<forall>c \<in> set ?C. path_ok c \<and> pp_totalScore c \<le> pp_totalScore p" using D(3) C(1) by (auto simp: fold_Add(2))
  show "descending (R @ [p] @ ?C)"
    using R all fold_Add(3) [OF C(2)] by (auto simp: sorted_wrt_append intro: order_trans)
  show no: "\<forall>q \<in> set (R @ [p]). \<forall>c \<in> set ?C. pp_path q \<notin> below c"
  proof (intro ballI)
    fix q c
    assume q: "q \<in> set (R @ [p])" and c: "c \<in> set ?C"
    have old: "\<forall>q \<in> set R. \<forall>c \<in> set (p # C). pp_path q \<notin> below c" using inv unfolding nbest_inv_def by blast
    show "pp_path q \<notin> below c"
    proof (cases "c \<in> set C")
      case True
      then show ?thesis using q old apart path_ok_self [OF p] by auto
    next
      case False
      then have "c \<in> set (deviants p)" using c by (simp add: fold_Add(2))
      then show ?thesis using q old sub D(2) by auto
    qed
  qed
  show dis: "\<forall>c \<in> set ?C. \<forall>c' \<in> set ?C. c \<noteq> c' \<longrightarrow> below c \<inter> below c' = {}"
  proof (intro ballI impI)
    fix c c'
    assume c: "c \<in> set ?C" "c' \<in> set ?C" "c \<noteq> c'"
    have old: "\<forall>c \<in> set C. \<forall>c' \<in> set C. c \<noteq> c' \<longrightarrow> below c \<inter> below c' = {}" using inv by (simp add: nbest_inv_def)
    consider "c \<in> set C" "c' \<in> set C" | "c \<in> set C" "c' \<in> set (deviants p)" | "c \<in> set (deviants p)" "c' \<in> set C"
      | "c \<in> set (deviants p)" "c' \<in> set (deviants p)" using c(1,2) by (auto simp: fold_Add(2))
    then show "below c \<inter> below c' = {}"
      using old c(3) apart sub deviants_disjoint [OF p] by cases blast+
  qed
  have notin: "set (deviants p) \<inter> set C = {}"
  proof (rule Int_emptyI)
    fix d
    assume d: "d \<in> set (deviants p)" "d \<in> set C"
    then have "pp_path d \<in> below d" using C(1) path_ok_self by blast
    then show False using d sub apart by blast
  qed
  have "distinct C" using inv by (simp add: nbest_inv_def distinct_map)
  then have "distinct (deviants p @ C)" using deviants_distinct [OF p] notin by simp
  then have "distinct ?C" using fold_Add(1) [of "deviants p" C] mset_eq_imp_distinct_iff [of ?C "deviants p @ C"] by simp
  moreover have "\<forall>c \<in> set ?C. path_ok c" using all by blast
  ultimately have "distinct (map pp_path ?C)" using dis disjoint_distinct by blast
  moreover have "pp_path q \<noteq> pp_path c" if "q \<in> set (R @ [p])" "c \<in> set ?C" for q c using no all path_ok_self that by metis
  moreover have "distinct (map pp_path (R @ [p]))" using inv by (auto simp: nbest_inv_def)
  ultimately show "distinct (map pp_path (R @ [p] @ ?C))" by (auto simp: image_iff)
qed

lemma nbest_step_inv:
  assumes inv: "nbest_inv m R (p # C)" and less: "length R < m"
  shows "nbest_inv m (R @ [p]) (coll_Prune m (fold coll_Add (deviants p) C))"
proof -
  let ?C = "fold coll_Add (deviants p) C"
  let ?K = "coll_Prune m ?C"
  have K: "?K = take m ?C" by (simp add: coll_Prune_def)
  have sub: "set ?K \<subseteq> set ?C" unfolding K by (rule set_take_subset)
  note G = nbest_grow [OF inv]
  have p: "path_ok p" and R: "\<forall>q \<in> set R. pp_totalScore p \<le> pp_totalScore q" and C: "\<forall>c \<in> set C. pp_totalScore c \<le> pp_totalScore p"
    using inv by (auto simp: nbest_inv_def sorted_wrt_append)
  have sorted: "descending ?C" using G(2) by (simp add: sorted_wrt_append)
  have kept: "length (filter (\<lambda>c. x \<le> pp_totalScore c) ?K) = min m (length (filter (\<lambda>c. x \<le> pp_totalScore c) ?C))" for x
    unfolding K by (rule filter_take_descending [OF sorted])
  have cover: "ds \<in> pp_path ` set (R @ [p]) \<or> (\<exists>c \<in> set ?K. ds \<in> below c) \<or> dropped m (R @ [p]) ?K ds" if ds: "complete ds" for ds
  proof -
    have big: "dropped m (R @ [p]) ?K ds" if c: "c \<in> set ?C" "ds \<in> below c" "c \<notin> set ?K" for c
    proof -
      have score: "Fin (path_score ds) \<le> pp_totalScore c" "pp_totalScore c \<le> pp_totalScore p" using G(1) c(1,2) below_score by blast+
      have "m \<le> length (filter (\<lambda>c. Fin (path_score ds) \<le> pp_totalScore c) ?C)"
      proof -
        have "descending (take m ?C @ drop m ?C)" "c \<in> set (drop m ?C)"
          using sorted c(1,3) unfolding K by (simp, metis Un_iff append_take_drop_id set_append)
        then have "\<forall>x \<in> set (take m ?C). Fin (path_score ds) \<le> pp_totalScore x" using score(1) order_trans unfolding sorted_wrt_append by blast
        then have "filter (\<lambda>c. Fin (path_score ds) \<le> pp_totalScore c) (take m ?C) = take m ?C" by (simp add: filter_id_conv)
        moreover have "drop m ?C \<noteq> []" using \<open>c \<in> set (drop m ?C)\<close> by auto
        ultimately have "length (filter (\<lambda>c. Fin (path_score ds) \<le> pp_totalScore c) (take m ?C)) = m" by simp
        then show ?thesis unfolding filter_take_descending [OF sorted] by simp
      qed
      moreover have "Fin (path_score ds) \<le> pp_totalScore p" using score by (rule order_trans)
      then have "\<forall>q \<in> set (R @ [p]). Fin (path_score ds) \<le> pp_totalScore q" using R by (auto intro: order_trans)
      ultimately show ?thesis by (simp add: dropped_def kept)
    qed
    have old: "ds \<in> pp_path ` set R \<or> (\<exists>c \<in> set (p # C). ds \<in> below c) \<or> dropped m R (p # C) ds" using inv ds unfolding nbest_inv_def by blast
    consider "ds \<in> pp_path ` set (R @ [p])" | c where "c \<in> set ?C" "ds \<in> below c" | "dropped m R (p # C) ds"
      using old deviants_below(1) [OF p] by (auto simp: fold_Add(2))
    then show ?thesis
    proof cases
      case 3
      let ?f = "filter (\<lambda>c. Fin (path_score ds) \<le> pp_totalScore c)"
      have top: "Fin (path_score ds) \<le> pp_totalScore p"
      proof (rule ccontr)
        assume "\<not> Fin (path_score ds) \<le> pp_totalScore p"
        then have "?f (p # C) = []" using C by (auto simp: filter_empty_conv dest: order_trans)
        then show False using 3 less by (simp add: dropped_def)
      qed
      have "mset (?f C) \<subseteq># mset (?f ?C)" by (simp add: fold_Add(1))
      from size_mset_mono [OF this] have "length (?f C) \<le> length (?f ?C)" by (simp only: size_mset)
      moreover have "m \<le> length R + Suc (length (?f C))" using 3 top by (simp add: dropped_def)
      ultimately have "m \<le> length (R @ [p]) + length (?f ?K)" unfolding kept by simp
      moreover have "\<forall>q \<in> set (R @ [p]). Fin (path_score ds) \<le> pp_totalScore q" using 3 top unfolding dropped_def by simp
      ultimately show ?thesis unfolding dropped_def by blast
    qed (use big in blast)+
  qed
  have front: "R @ [p] @ ?K = take (Suc (length R + m)) (R @ [p] @ ?C)" unfolding K by (simp add: Suc_diff_le)
  have "descending (R @ [p] @ ?K)" "distinct (map pp_path (R @ [p] @ ?K))"
    unfolding front using sorted_wrt_take [OF G(2)] distinct_take [OF G(3)] by (simp_all only: take_map)
  moreover have "\<forall>q \<in> set (R @ [p]). listed q" using inv path_ok_listed [OF p] by (auto simp: nbest_inv_def)
  ultimately show ?thesis using G(1,4,5) sub cover unfolding nbest_inv_def by (simp add: subset_iff)
qed

lemma nbest_loop_result:
  assumes "nbest_inv m R C" "length R \<le> m" "m - length R \<le> turns"
  shows "\<exists>R' C'. pb_nbest_loop turns stacks outs m f False (R, [], C) = Inr R' \<and> nbest_inv m R' C' \<and> length R' \<le> m \<and> (length R' = m \<or> C' = [])"
  using assms
proof (induction turns arbitrary: R C)
  case 0
  then show ?case by (intro exI [of _ R] exI [of _ C]) simp
next
  case (Suc turns)
  show ?case
  proof (cases "length R < m \<and> C \<noteq> []")
    case True
    then obtain p C1 where C: "C = p # C1" by (cases C) auto
    then have p: "path_ok p" using Suc.prems(1) by (simp add: nbest_inv_def)
    have step: "pb_nbest_step stacks outs m f False (R, [], C) = Inr (R @ [p], [], coll_Prune m (fold coll_Add (deviants p) C1))"
      by (simp add: pb_nbest_step_def C CreateDeviantPaths_adds [OF p])
    have inv: "nbest_inv m (R @ [p]) (coll_Prune m (fold coll_Add (deviants p) C1))"
      by (rule nbest_step_inv) (use Suc.prems(1) C True in simp_all)
    show ?thesis using Suc.IH [OF inv] True Suc.prems(3) step by simp
  next
    case False
    then show ?thesis using Suc.prems by (intro exI [of _ R] exI [of _ C]) auto
  qed
qed

text \<open>The first contenders.\<close>

lemma first_contenders:
  assumes "mset hs = mset (hs_hypos (last stacks))" "stacks \<noteq> []"
  shows "nbest_inv m [] (fold (\<lambda>h. coll_Add (pure_path h)) hs [])"
proof -
  let ?C = "fold (\<lambda>h. coll_Add (pure_path h)) hs []"
  have fold_eq: "?C = fold coll_Add (map pure_path hs) []" by (simp add: fold_map comp_def)
  have set_hs: "set hs = set (hs_hypos (last stacks))" using assms(1) by (metis set_mset_mset)
  have on: "h \<in> set (stack_hypos stacks)" if "h \<in> set hs" for h
    using that set_hs assms(2) by (auto simp: stack_hypos_def)
  have start: "path_start (pure_path h) = 0" "pp_path (pure_path h) = hypo_chain h" for h by (simp_all add: path_start_def pure_path_def)
  have okp: "path_ok (pure_path h)" if h: "h \<in> set hs" for h
  proof -
    note n = node_in [OF on [OF h]]
    have "hypo_chain h ! i \<in> set (stack_hypos stacks)" if "i < length (hypo_chain h)" for i
      using chain_edge(2) [OF n, of i] that on [OF h] by (cases i) simp_all
    moreover have "complete (hypo_chain h)" using chain_edge(1) [OF n] n h set_hs by (auto simp: complete_def)
    ultimately show ?thesis using chain_score [OF n] edge_facts(2) [OF n] by (simp add: path_ok_def tree_node_def start) (simp add: pure_path_def)
  qed
  have disj: "below (pure_path h) \<inter> below (pure_path g) = {}" if "h \<in> set hs" "g \<in> set hs" "h \<noteq> g" for h g
  proof (rule Int_emptyI)
    fix ds
    assume "ds \<in> below (pure_path h)" "ds \<in> below (pure_path g)"
    then obtain x y where "node_of h x" "node_of (hd ds) x" "node_of g y" "node_of (hd ds) y" by (auto simp: subtree_def start)
    then show False using hypo_of_node [OF on] node_unique that by metis
  qed
  have "distinct (stack_hypos stacks)"
  proof -
    have "distinct (map ph_id (stack_edges stacks))" using ok by (simp add: graph_ok_def)
    then have "distinct (stack_edges stacks)" by (simp add: distinct_map)
    moreover have "distinct (concat (map (\<lambda>h. h # f h) xs)) \<Longrightarrow> distinct xs" for f and xs :: "'s pb_hypo list" by (induction xs) auto
    ultimately show ?thesis by (simp add: stack_edges_def)
  qed
  then have "distinct (hs_hypos (last stacks))" using assms(2) by (induction stacks) (auto simp: stack_hypos_def)
  then have "distinct hs" using mset_eq_imp_distinct_iff [OF assms(1)] by simp
  then have "distinct (map pure_path hs)" using start(2) by (auto simp: distinct_map inj_on_def) (metis chain_hd(2))
  then have "distinct ?C" unfolding fold_eq using fold_Add(1) [of "map pure_path hs" "[]"] mset_eq_imp_distinct_iff by (metis add.right_neutral mset.simps(1))
  moreover have set_C: "set ?C = pure_path ` set hs" unfolding fold_eq by (simp add: fold_Add(2))
  moreover have dis: "\<forall>c \<in> set ?C. \<forall>c' \<in> set ?C. c \<noteq> c' \<longrightarrow> below c \<inter> below c' = {}" using disj unfolding set_C by blast
  moreover have all: "\<forall>c \<in> set ?C. path_ok c" using okp unfolding set_C by blast
  moreover have "descending ?C" unfolding fold_eq by (rule fold_Add(3)) simp
  moreover have "\<exists>c \<in> set ?C. ds \<in> below c" if ds: "complete ds" for ds
  proof -
    obtain h where h: "h \<in> set (hs_hypos (last stacks))" "node_of (hd ds) h" using ds by (auto simp: complete_def)
    then have "ds \<in> below (pure_path h)" using ds node_in on set_hs unfolding start subtree_def by fastforce
    then show ?thesis using h(1) set_hs unfolding set_C by blast
  qed
  ultimately show ?thesis using disjoint_distinct unfolding nbest_inv_def by auto
qed

lemma CalcNBest_best:
  assumes "stacks \<noteq> []" "mset (GetSortedList sel (last stacks)) = mset (hs_hypos (last stacks))" "0 < m" "m \<le> turns"
  shows "\<exists>R. pb_nbest_loop turns stacks outs m f False ([], [], fold (\<lambda>h. coll_Add (pure_path h)) (GetSortedList sel (last stacks)) []) = Inr R
    \<and> (\<forall>p \<in> set R. listed p) \<and> descending R \<and> distinct (map pp_path R) \<and> length R \<le> m
    \<and> (\<forall>ds. complete ds \<longrightarrow> ds \<in> pp_path ` set R \<or> length R = m \<and> (\<forall>p \<in> set R. Fin (path_score ds) \<le> pp_totalScore p))"
proof -
  from nbest_loop_result [OF first_contenders [OF assms(2,1)], where turns = turns and outs = outs and f = f and m = m] assms(4)
  obtain R C where R: "pb_nbest_loop turns stacks outs m f False ([], [], fold (\<lambda>h. coll_Add (pure_path h)) (GetSortedList sel (last stacks)) []) = Inr R"
      "nbest_inv m R C" "length R \<le> m" "length R = m \<or> C = []" by auto
  have "ds \<in> pp_path ` set R \<or> length R = m \<and> (\<forall>p \<in> set R. Fin (path_score ds) \<le> pp_totalScore p)" if ds: "complete ds" for ds
  proof -
    have old: "ds \<in> pp_path ` set R \<or> (\<exists>c \<in> set C. ds \<in> below c) \<or> dropped m R C ds" using R(2) ds unfolding nbest_inv_def by blast
    have ge: "pp_totalScore c \<le> pp_totalScore p" if "p \<in> set R" "c \<in> set C" for p c using R(2) that by (auto simp: nbest_inv_def sorted_wrt_append)
    show ?thesis
    proof (cases "ds \<in> pp_path ` set R")
      case False
      consider c where "c \<in> set C" "ds \<in> below c" | "dropped m R C ds" using old False by blast
      then show ?thesis
      proof cases
        case (1 c)
        then have "path_ok c" using R(2) by (simp add: nbest_inv_def)
        then have "Fin (path_score ds) \<le> pp_totalScore c" using 1(2) below_score by blast
        then show ?thesis using 1(1) R(4) ge order_trans by (metis list.set_cases list.discI empty_iff list.set(1))
      next
        case 2
        then show ?thesis using R(3,4) by (auto simp: dropped_def)
      qed
    qed simp
  qed
  then show ?thesis using R(1-3) by (auto simp: nbest_inv_def sorted_wrt_append)
qed

end

section \<open>The graph of a search\<close>

context search
begin

lemma state_ids_edges: "state_ids stacks = mset (map ph_id (stack_edges stacks))"
proof -
  have one: "image_mset ph_id (edge_mset hs) = mset (map ph_id (concat (map (\<lambda>h. h # arc_list h) hs)))" for hs :: "'a pb_hypo list"
    by (induction hs) (simp_all add: edge_mset_Cons edges_of_def image_mset.compositionality comp_def)
  show ?thesis by (induction stacks) (simp_all add: state_ids_def stack_edges_def stack_hypos_def one)
qed

lemma stack_edge_good:
  assumes "state_good s" "j \<le> words_of ps" "h \<in> set (hs_hypos (ss_stacks s ! j))" "e \<in> set (h # arc_list h)"
  shows "edge_good j e" "ph_total e \<le> ph_total h"
proof -
  have st: "\<forall>e \<in># edge_mset (hs_hypos (ss_stacks s ! j)). edge_good j e" "arcs_ok (hs_hypos (ss_stacks s ! j))"
    using assms(1,2) by (simp_all add: state_good_def stack_good_def)
  have "edge_good j (core e)" using st(1) core_in_edges [OF assms(3,4)] by blast
  then show "edge_good j e" by (simp add: edge_good_def good_core)
  show "ph_total e \<le> ph_total h" using st(2) assms(3,4) by (auto simp: arcs_ok_def)
qed

text \<open>A search with n-best lists that runs to its end leaves a graph as graph\_ok says.\<close>

lemma graph_of_search:
  assumes "ps_nBestIsEnabled ps" "\<forall>i. \<not> ps_timeout ps i" "pb_ProcessSentence ps = Inr s"
  shows "graph_ok (ss_stacks s) (si_last (py_index (ps_sys ps))) \<and> length (ss_stacks s) = Suc (words_of ps)"
proof -
  have s: "state_good s" "linked (Suc (words_of ps)) s" "fresh s" "\<forall>j \<le> words_of ps. winners_set (hs_hypos (ss_stacks s ! j))"
    using search_result assms by auto
  have len: "length (ss_stacks s) = Suc (words_of ps)" using s(1) by (simp add: state_good_def)
  have "mset (map ph_id (stack_edges (ss_stacks s))) \<subseteq># mset [0..<ss_hypoId s]" using s(3) by (simp add: fresh_def state_ids_edges del: mset_map)
  then have dist: "distinct (map ph_id (stack_edges (ss_stacks s)))"
    by (metis distinct_upt mset_subset_eqD mset_eq_imp_distinct_iff distinct_append mset_append mset_subset_eq_exists_conv ex_mset)
  have "edge_ok (ss_stacks s) (si_last (py_index (ps_sys ps))) j h e"
    if h: "j \<le> words_of ps" "h \<in> set (hs_hypos (ss_stacks s ! j))" "e \<in> set (h # arc_list h)" for j h e
  proof -
    have good: "good_hypo ps shape j e" "\<forall>p. ph_prev e = Some p \<longrightarrow> GetNumWordsCovered (ph_completed p) < j" "ph_total e \<le> ph_total h"
      using stack_edge_good [OF s(1) h] by (simp_all add: edge_good_def)
    have "\<exists>k < j. p \<in> set (hs_hypos (ss_stacks s ! k))" if p: "ph_prev e = Some p" for p
    proof -
      have "p \<in> prevs h" using p h(3) by (auto simp: prevs_def arc_list_def split: option.splits)
      then have "p \<in> stack_prevs (ss_stacks s ! j)" using h(2) by (auto simp: stack_prevs_def)
      then obtain k where k: "k < Suc (words_of ps)" "p \<in> set (hs_hypos (ss_stacks s ! k))" using s(2) h(1) by (auto simp: linked_def)
      then have "good_hypo ps shape k p" using s(1) by (simp add: state_good_def stack_good_def less_Suc_eq_le)
      then show ?thesis using good(2) p k(2) by (auto simp: good_hypo_def)
    qed
    moreover have "ph_winning e = Some (ph_id h)" using s(4) h unfolding winners_set_def by blast
    ultimately show ?thesis using good(1,3) by (simp add: edge_ok_def good_hypo_def)
  qed
  moreover have "length (ss_stacks s) < NOT_FOUND" using len n_small by (simp add: NOT_FOUND_def SIZE_RANGE_def)
  ultimately show ?thesis using dist len by (simp add: graph_ok_def less_Suc_eq_le)
qed

end

section \<open>Properties\<close>

text \<open>
  C7. The n-best list is exact: after a search that ran to its end, CalcNBest without the distinct option returns the best derivations that
  the stacks and the arcs of recombined hypotheses hold, each once, in descending order, with the sum of the scores of their
  steps; every other derivation of a hypothesis on the last stack scores no more than all that are returned, and fewer than the demanded number are returned
  only when there are no more. This holds although the contenders are pruned to the demanded number after every path.
\<close>

theorem CalcNBest_exact:
  assumes "search_ok ps shape" "ps_nBestIsEnabled ps" "\<forall>i. \<not> ps_timeout ps i" "pb_ProcessSentence ps = Inr s"
  shows "\<exists>R. pb_CalcNBest ps outputFactor nBestFactor count0 False s = Inr R \<and> length R \<le> count0
    \<and> distinct (map pp_path R) \<and> sorted_wrt (\<lambda>p q. pp_totalScore q \<le> pp_totalScore p) R
    \<and> (\<forall>p \<in> set R. complete_derivation (ss_stacks s) (pp_path p) \<and> pp_totalScore p = Fin (derivation_score (pp_path p)))
    \<and> (\<forall>ds. complete_derivation (ss_stacks s) ds \<longrightarrow> ds \<in> pp_path ` set R
         \<or> length R = count0 \<and> (\<forall>p \<in> set R. Fin (derivation_score ds) \<le> pp_totalScore p))"
proof (cases "count0 = 0")
  case False
  have g: "search_graph (ss_stacks s) (si_last (py_index (ps_sys ps)))" "ss_stacks s \<noteq> []"
    using search.graph_of_search [OF searchI [OF assms(1)] assms(2-4)] by (auto simp: search_graph_def)
  have score: "search_graph.path_score (ss_stacks s) ds = derivation_score ds" if "complete_derivation (ss_stacks s) ds" for ds
    using search_graph.path_score_steps [OF g(1), of ds] that by (simp add: derivation_score_def complete_derivation_def)
  have "partial_sorting (ps_sel ps)" using assms(1) by (simp add: search_ok_def)
  then have "mset (GetSortedList (ps_sel ps) (last (ss_stacks s))) = mset (hs_hypos (last (ss_stacks s)))"
    by (simp add: GetSortedList_def partial_sorting_def splitting.sel_mset)
  moreover have "count0 \<le> count0 * (if nBestFactor < 1 then 1000 else nBestFactor)" by (cases nBestFactor) auto
  moreover have "0 < count0" using False by simp
  ultimately obtain R where R: "pb_nbest_loop (count0 * (if nBestFactor < 1 then 1000 else nBestFactor)) (ss_stacks s) outputFactor count0 nBestFactor False
        ([], [], fold (\<lambda>h. coll_Add (pure_path h)) (GetSortedList (ps_sel ps) (last (ss_stacks s))) []) = Inr R"
      "\<forall>p \<in> set R. search_graph.listed (ss_stacks s) p" "sorted_wrt (\<lambda>p q. pp_totalScore q \<le> pp_totalScore p) R" "distinct (map pp_path R)"
      "length R \<le> count0" "\<forall>ds. complete_derivation (ss_stacks s) ds \<longrightarrow> ds \<in> pp_path ` set R
         \<or> length R = count0 \<and> (\<forall>p \<in> set R. Fin (search_graph.path_score (ss_stacks s) ds) \<le> pp_totalScore p)"
    using search_graph.CalcNBest_best [OF g] by blast
  have "pb_CalcNBest ps outputFactor nBestFactor count0 False s = Inr R"
    using R(1) False g(2) unfolding pb_CalcNBest_def Let_def by (simp only: if_False)
  then show ?thesis using score R(2-6) by (intro exI [of _ R]) (simp add: search_graph.listed_def [OF g(1)])
qed (simp add: pb_CalcNBest_def)

section \<open>Witnesses\<close>

definition ex_nbest_search :: "distortion_state pb_search" where
  "ex_nbest_search = ex_search\<lparr>ps_nBestIsEnabled := True, ps_nBestSize := 2\<rparr>"

lemma ex_nbest_simps:
  "ps_sys ex_nbest_search = ps_sys ex_search" "ps_coll ex_nbest_search = ps_coll ex_search" "ps_features ex_nbest_search = ps_features ex_search"
  "ps_cmp ex_nbest_search = ps_cmp ex_search" "ps_diff ex_nbest_search = ps_diff ex_search" "ps_sel ex_nbest_search = ps_sel ex_search"
  "ps_maxDistortion ex_nbest_search = ps_maxDistortion ex_search" "ps_isWordLattice ex_nbest_search = ps_isWordLattice ex_search"
  "ps_distance ex_nbest_search = ps_distance ex_search" "ps_reordering ex_nbest_search = ps_reordering ex_search"
  "ps_maxHypoStackSize ex_nbest_search = ps_maxHypoStackSize ex_search" "ps_minHypoStackDiversity ex_nbest_search = ps_minHypoStackDiversity ex_search"
  "ps_beamWidth ex_nbest_search = ps_beamWidth ex_search" "ps_earlyDiscarding ex_nbest_search = ps_earlyDiscarding ex_search"
  "ps_nBestIsEnabled ex_nbest_search" "ps_nBestSize ex_nbest_search = 2" "\<not> ps_timeout ex_nbest_search k"
  by (simp_all add: ex_nbest_search_def ex_search_simps)

lemma ex_nbest_ok: "search_ok ex_nbest_search [False]" "always_extends ex_nbest_search"
proof -
  have "options_ok ex_nbest_search = options_ok ex_search" "features_ok ex_nbest_search = features_ok ex_search"
    by (simp_all add: options_ok_def features_ok_def ex_nbest_simps fun_eq_iff)
  then show "search_ok ex_nbest_search [False]" using ex_search_ok by (simp add: search_ok_def ex_nbest_simps)
  show "always_extends ex_nbest_search" using ex_always_extends by (simp add: always_extends_def ex_nbest_simps)
qed

definition ex_nbest_state :: "distortion_state search_state" where
  "ex_nbest_state = (case pb_ProcessSentence ex_nbest_search of Inr s \<Rightarrow> s | Inl _ \<Rightarrow> SearchNormal ex_nbest_search)"

lemma ex_nbest_run: "pb_ProcessSentence ex_nbest_search = Inr ex_nbest_state" "hs_hypos (ss_stacks ex_nbest_state ! 2) \<noteq> []"
  using search.search_result [OF searchI [OF ex_nbest_ok(1)]] ex_nbest_ok(2)
  by (auto simp: ex_nbest_state_def ex_nbest_simps ex_search_simps numeral_2_eq_2)

lemma ex_nbest_graph: "graph_ok (ss_stacks ex_nbest_state) 1" "length (ss_stacks ex_nbest_state) = 3"
  using search.graph_of_search [OF searchI [OF ex_nbest_ok(1)] _ _ ex_nbest_run(1)] by (simp_all add: ex_nbest_simps ex_search_simps)

interpretation example_graph: search_graph "ss_stacks ex_nbest_state" 1
  by unfold_locales (rule ex_nbest_graph)

theorem CalcNBest_exact_witness:
  "\<exists>s R. pb_ProcessSentence ex_nbest_search = Inr s \<and> pb_CalcNBest ex_nbest_search [0] 20 2 False s = Inr R \<and> R \<noteq> [] \<and> length R \<le> 2
    \<and> (\<forall>p \<in> set R. pp_totalScore p = Fin (derivation_score (pp_path p)))"
proof -
  let ?stacks = "ss_stacks ex_nbest_state"
  obtain h where h: "h \<in> set (hs_hypos (?stacks ! 2))" using ex_nbest_run(2) by (metis last_in_set)
  then have on: "h \<in> set (stack_hypos ?stacks)" using ex_nbest_graph(2) by (auto simp: example_graph.in_stack intro: exI [of _ 2])
  have "last ?stacks = ?stacks ! 2" using last_stack [of ?stacks 2] ex_nbest_graph(2) by simp
  then have complete: "complete_derivation ?stacks (hypo_chain h)"
    using example_graph.chain_edge(1) [OF example_graph.node_in [OF on]] example_graph.node_in [OF on] h by (auto simp: complete_derivation_def)
  from CalcNBest_exact [OF ex_nbest_ok(1) ex_nbest_simps(15) _ ex_nbest_run(1), of "[0]" 20 2]
  obtain R where "pb_CalcNBest ex_nbest_search [0] 20 2 False ex_nbest_state = Inr R" "length R \<le> 2"
    "\<forall>p \<in> set R. pp_totalScore p = Fin (derivation_score (pp_path p))" "hypo_chain h \<in> pp_path ` set R \<or> length R = 2"
    using complete by (auto simp: ex_nbest_simps)
  then show ?thesis using ex_nbest_run(1) by (intro exI [of _ ex_nbest_state] exI [of _ R]) auto
qed

end
