(* ===== verification/GraphProps.thy ===== *)
theory GraphProps
  imports ConnectedGraphs NBestProps
begin

text \<open>
  The search graph (theory ConnectedGraphs): its hypotheses are those from which the last stack can be reached, and the forward score
  of a hypothesis is the score of the best way there.
\<close>

section \<open>Completions\<close>

text \<open>
  The ways from a hypothesis to the last stack, as lists of edges from the hypothesis on; the score of an edge is what it adds to the
  score without the estimate of the rest.
\<close>

fun completion :: "'s hypo_stack list \<Rightarrow> 's pb_hypo \<Rightarrow> 's pb_hypo list \<Rightarrow> bool" where
  "completion stacks h [] \<longleftrightarrow> h \<in> set (hs_hypos (last stacks))"
| "completion stacks h (e # es) \<longleftrightarrow> ph_prev e = Some h \<and> (\<exists>g \<in> set (stack_hypos stacks). edge_at stacks e g \<and> completion stacks g es)"

definition arc_score :: "'s pb_hypo \<Rightarrow> real" where
  "arc_score e = real_score (pb_GetScore e) - (case ph_prev e of None \<Rightarrow> 0 | Some p \<Rightarrow> real_score (pb_GetScore p))"

definition completion_score :: "'s pb_hypo list \<Rightarrow> real" where
  "completion_score es = sum_list (map arc_score es)"

definition reaches_end :: "'s hypo_stack list \<Rightarrow> 's pb_hypo \<Rightarrow> bool" where
  "reaches_end stacks h \<longleftrightarrow> (\<exists>es. completion stacks h es)"

text \<open>
  The first stack has the hypothesis 0 and no arcs to other ones, every other hypothesis and arc has a predecessor, and scores without
  the estimate are finite.
\<close>

locale forward_graph = search_graph stacks L for stacks :: "'s hypo_stack list" and L +
  assumes several: "1 < length stacks"
    and start: "h \<in> set (hs_hypos (stacks ! 0)) \<Longrightarrow> e \<in> set (h # arc_list h) \<Longrightarrow> ph_id e = 0 \<and> ph_prev e = None"
    and after: "0 < j \<Longrightarrow> j < length stacks \<Longrightarrow> h \<in> set (hs_hypos (stacks ! j)) \<Longrightarrow> e \<in> set (h # arc_list h) \<Longrightarrow> ph_prev e \<noteq> None"
    and finite_score: "edge_at stacks e h \<Longrightarrow> \<exists>x. pb_GetScore e = Fin x"
    and bare_arcs: "h \<in> set (stack_hypos stacks) \<Longrightarrow> a \<in> set (arc_list h) \<Longrightarrow> arc_list a = []"

context forward_graph
begin

abbreviation live :: "'s pb_hypo \<Rightarrow> bool" where
  "live \<equiv> reaches_end stacks"

lemma last_on: "h \<in> set (hs_hypos (last stacks)) \<Longrightarrow> h \<in> set (hs_hypos (stacks ! (length stacks - 1)))"
  using several by (cases "stacks = []") (auto simp: last_conv_nth)

lemma last_in: "h \<in> set (hs_hypos (last stacks)) \<Longrightarrow> h \<in> set (stack_hypos stacks)"
  using last_on [of h] several unfolding in_stack by (intro exI [of _ "length stacks - 1"]) simp

lemma live_in: "completion stacks h es \<Longrightarrow> h \<in> set (stack_hypos stacks)"
  by (cases es) (auto simp: last_in edge_facts(5))

lemma stack_unique:
  assumes "j < length stacks" "k < length stacks" "h \<in> set (hs_hypos (stacks ! j))" "h \<in> set (hs_hypos (stacks ! k))"
  shows "j = k"
proof -
  have d: "distinct (concat (map hs_hypos stacks))"
  proof -
    have "distinct (map ph_id (stack_edges stacks))" using ok by (simp add: graph_ok_def)
    then have "distinct (stack_edges stacks)" by (simp add: distinct_map)
    moreover have "distinct xs" if "distinct (concat (map (\<lambda>h. h # arc_list h) xs))" for xs :: "'s pb_hypo list"
      using that by (induction xs) auto
    ultimately show ?thesis by (simp add: stack_edges_def stack_hypos_def)
  qed
  have *: "j = k" if "distinct (concat xss)" "j < length xss" "k < length xss" "h \<in> set (xss ! j)" "h \<in> set (xss ! k)" for xss and j k
    using that
  proof (induction xss arbitrary: j k)
    case (Cons xs xss)
    have "h \<notin> set xs" if i: "h \<in> set (xss ! i)" "i < length xss" for i
    proof -
      have "h \<in> \<Union> (set ` set xss)" using i(1) nth_mem [OF i(2)] by blast
      then show ?thesis using Cons.prems(1) by auto
    qed
    then show ?case using Cons by (cases j; cases k) auto
  qed simp
  show ?thesis using * [OF d, of j k] assms by simp
qed

text \<open>The stack of an edge.\<close>

definition on_stack :: "nat \<Rightarrow> 's pb_hypo \<Rightarrow> bool" where
  "on_stack j e \<longleftrightarrow> j < length stacks \<and> (\<exists>h \<in> set (hs_hypos (stacks ! j)). e \<in> set (h # arc_list h))"

lemma on_stack_node: "node_of e g \<Longrightarrow> on_stack j e \<longleftrightarrow> j < length stacks \<and> g \<in> set (hs_hypos (stacks ! j))"
proof
  assume n: "node_of e g" and "on_stack j e"
  then obtain h where h: "j < length stacks" "h \<in> set (hs_hypos (stacks ! j))" "e \<in> set (h # arc_list h)" by (auto simp: on_stack_def)
  then have "node_of e h" by (auto simp: edge_at_def in_stack)
  then show "j < length stacks \<and> g \<in> set (hs_hypos (stacks ! j))" using node_unique [OF n] h by auto
qed (auto simp: on_stack_def edge_at_def)

lemma edge_on_stack: "node_of e g \<Longrightarrow> \<exists>j. on_stack j e"
  using on_stack_node [of e g] by (auto simp: edge_at_def in_stack)

lemma prev_earlier:
  assumes "on_stack j e" "ph_prev e = Some p"
  shows "\<exists>k < j. on_stack k p"
proof -
  obtain h where h: "j < length stacks" "h \<in> set (hs_hypos (stacks ! j))" "e \<in> set (h # arc_list h)" using assms(1) by (auto simp: on_stack_def)
  then have "edge_ok stacks L j h e" using ok by (auto simp: graph_ok_def)
  then obtain k where "k < j" "p \<in> set (hs_hypos (stacks ! k))" using assms(2) by (auto simp: edge_ok_def)
  then show ?thesis using h(1) by (intro exI [of _ k]) (auto simp: on_stack_def)
qed

lemma first_stack: "on_stack 0 e \<Longrightarrow> ph_id e = 0 \<and> ph_prev e = None"
  using start by (auto simp: on_stack_def)

lemma later_stack: "on_stack j e \<Longrightarrow> 0 < j \<Longrightarrow> \<exists>p. ph_prev e = Some p"
  using after by (auto simp: on_stack_def)

text \<open>Every edge goes back to the hypothesis 0, so that no other one has the identifier 0.\<close>

lemma first_reached: "on_stack j e \<Longrightarrow> \<exists>h. on_stack 0 h"
proof (induction j arbitrary: e rule: less_induct)
  case (less j)
  show ?case
  proof (cases "j = 0")
    case False
    then obtain p k where "ph_prev e = Some p" "k < j" "on_stack k p" using later_stack [OF less.prems] prev_earlier [OF less.prems] by blast
    then show ?thesis using less.IH by blast
  qed (use less.prems in blast)
qed

lemma on_stack_edge: "on_stack j e \<Longrightarrow> \<exists>h. node_of e h"
  by (auto simp: on_stack_def edge_at_def in_stack)

lemma later_id: "on_stack j e \<Longrightarrow> 0 < j \<Longrightarrow> 0 < ph_id e"
proof (rule ccontr)
  assume e: "on_stack j e" "0 < j" "\<not> 0 < ph_id e"
  obtain h where h: "on_stack 0 h" using first_reached [OF e(1)] by blast
  then have "ph_id h = ph_id e" "ph_prev h = None" using first_stack e(3) by auto
  moreover obtain a b where "node_of e a" "node_of h b" using on_stack_edge e(1) h by blast
  ultimately have "h = e" using ids_unique(1) by metis
  then show False using \<open>ph_prev h = None\<close> later_stack [OF e(1,2)] by simp
qed

lemma prev_positive: "node_of e g \<Longrightarrow> ph_prev e = Some p \<Longrightarrow> 0 < ph_id e \<and> 0 < ph_id g"
proof -
  assume n: "node_of e g" "ph_prev e = Some p"
  obtain j where j: "on_stack j e" using edge_on_stack [OF n(1)] by blast
  then have "0 < j" using first_stack n(2) by (cases j) auto
  moreover have "on_stack j g" using on_stack_node [OF n(1)] on_stack_node [of g g] j n(1) by (auto simp: edge_at_def)
  ultimately show ?thesis using later_id j by blast
qed

lemma positive_prev: "node_of e g \<Longrightarrow> 0 < ph_id e \<Longrightarrow> e' \<in> set (g # arc_list g) \<Longrightarrow> \<exists>p. ph_prev e' = Some p"
proof -
  assume n: "node_of e g" "0 < ph_id e" "e' \<in> set (g # arc_list g)"
  obtain j where j: "on_stack j e" using edge_on_stack [OF n(1)] by blast
  then have "0 < j" using first_stack n(2) by (cases j) auto
  moreover have "on_stack j e'" using on_stack_node [OF n(1)] j n(3) by (auto simp: on_stack_def)
  ultimately show ?thesis using later_stack by blast
qed

lemma same_prev:
  assumes "ph_id p = ph_id q" "p \<in> set (stack_hypos stacks)" "q \<in> set (stack_hypos stacks)"
  shows "p = q"
  using ids_unique(1) [OF node_in [OF assms(2)] node_in [OF assms(3)] assms(1)] .

subsection \<open>Connected hypotheses\<close>

lemma add_connected_result:
  "add_connected hs c = (c', new) \<Longrightarrow> c' = c \<union> ph_id ` set new \<and> set new \<subseteq> set hs \<and> ph_id ` set hs \<subseteq> c'
    \<and> distinct (map ph_id new) \<and> c \<inter> ph_id ` set new = {}"
  by (induction hs c arbitrary: c' new rule: add_connected.induct) (auto split: if_splits prod.splits)

text \<open>What is in the list: hypotheses and arcs from which the last stack is reached, and for the graph of winners hypotheses only.\<close>

definition sound_edge :: "bool \<Rightarrow> 's pb_hypo \<Rightarrow> bool" where
  "sound_edge winners e \<longleftrightarrow> (\<exists>g. node_of e g \<and> live g \<and> 0 < ph_id e \<and> (winners \<longrightarrow> e = g))"

lemma live_prev: "node_of e g \<Longrightarrow> live g \<Longrightarrow> ph_prev e = Some p \<Longrightarrow> live p"
proof -
  assume n: "node_of e g" "live g" "ph_prev e = Some p"
  then obtain es where "completion stacks g es" by (auto simp: reaches_end_def)
  then have "completion stacks p (e # es)" using n(1,3) by (auto simp: edge_at_def)
  then show ?thesis unfolding reaches_end_def by blast
qed

lemma sound_prev: "node_of e g \<Longrightarrow> live g \<Longrightarrow> ph_prev e = Some p \<Longrightarrow> 0 < ph_id p \<Longrightarrow> sound_edge w p"
  using live_prev node_in edge_facts(5) unfolding sound_edge_def by blast

lemma reached_back_sound:
  assumes "sound_edge w e"
  shows "\<exists>bs. reached_back w e = Inr bs \<and> (\<forall>b \<in> set bs. sound_edge w b)
    \<and> (\<forall>p. 0 < ph_id p \<longrightarrow> (if w then \<exists>e' \<in> set (e # arc_list e). ph_prev e' = Some p else ph_prev e = Some p) \<longrightarrow> p \<in> set bs)
    \<and> (\<not> w \<longrightarrow> set (arc_list e) \<subseteq> set bs)"
proof -
  obtain g where g: "node_of e g" "live g" "0 < ph_id e" "w \<longrightarrow> e = g" using assms by (auto simp: sound_edge_def)
  have on: "g \<in> set (stack_hypos stacks)" using g(1) by (simp add: edge_at_def)
  show ?thesis
  proof (cases w)
    case True
    then have e: "e = g" using g(4) by simp
    have prev: "\<exists>p. ph_prev e' = Some p" if "e' \<in> set (e # arc_list e)" for e' using positive_prev [OF g(1,3)] that e by blast
    have "\<exists>ps. rmap prev_of xs = Inr ps \<and> (\<forall>p. p \<in> set ps \<longleftrightarrow> (\<exists>e' \<in> set xs. ph_prev e' = Some p))" if "set xs \<subseteq> set (e # arc_list e)" for xs
      using that
    proof (induction xs)
      case (Cons x xs)
      obtain p where p: "ph_prev x = Some p" using prev [of x] Cons.prems by auto
      then show ?case using Cons by (auto simp: prev_of_def)
    qed simp
    then obtain ps where ps: "rmap prev_of (e # arc_list e) = Inr ps" "\<forall>p. p \<in> set ps \<longleftrightarrow> (\<exists>e' \<in> set (e # arc_list e). ph_prev e' = Some p)" by blast
    have "sound_edge w p" if "e' \<in> set (e # arc_list e)" "ph_prev e' = Some p" "0 < ph_id p" for e' p
      using sound_prev [of e' g p] that e on g(2) by (auto simp: edge_at_def)
    then show ?thesis using True ps by (auto simp: reached_back_def)
  next
    case False
    have "sound_edge w a" if a: "a \<in> set (arc_list e)" for a
    proof -
      have e: "e = g" using a g(1) bare_arcs [OF on, of e] by (auto simp: edge_at_def)
      then have n: "node_of a g" using a on by (simp add: edge_at_def)
      obtain p where "ph_prev a = Some p" using positive_prev [OF g(1,3), of a] a e by auto
      then show ?thesis using prev_positive [OF n] n g(2) False by (auto simp: sound_edge_def)
    qed
    then show ?thesis using False g(1,2) sound_prev by (auto simp: reached_back_def split: option.splits)
  qed
qed

definition conn_inv :: "bool \<Rightarrow> 's pb_hypo list \<Rightarrow> nat set \<Rightarrow> 's pb_hypo list \<Rightarrow> bool" where
  "conn_inv w todo c l \<longleftrightarrow> c = ph_id ` (set l \<union> set todo) \<and> (\<forall>e \<in> set l \<union> set todo. sound_edge w e) \<and> distinct (map ph_id (l @ todo))
     \<and> set (hs_hypos (last stacks)) \<subseteq> set l \<union> set todo \<and> (\<forall>e \<in> set l. \<forall>bs. reached_back w e = Inr bs \<longrightarrow> ph_id ` set bs \<subseteq> c)"

lemma connect_loop_inv:
  "conn_inv w todo c l \<Longrightarrow> \<exists>c' l'. connect_loop w todo c l = Inr (c', l') \<and> conn_inv w [] c' l'"
proof (induction w todo c l rule: connect_loop.induct)
  case (2 w e todo c l)
  have "sound_edge w e" using 2(2) by (simp add: conn_inv_def)
  from reached_back_sound [OF this] obtain bs where bs: "reached_back w e = Inr bs" "\<forall>b \<in> set bs. sound_edge w b" by blast
  obtain c1 new where new: "add_connected bs c = (c1, new)" by (cases "add_connected bs c")
  note r = add_connected_result [OF new]
  have "conn_inv w (todo @ new) c1 (l @ [e])"
    unfolding conn_inv_def
  proof (intro conjI ballI allI impI)
    show "c1 = ph_id ` (set (l @ [e]) \<union> set (todo @ new))" using 2(2) r unfolding conn_inv_def by auto
    show "distinct (map ph_id ((l @ [e]) @ todo @ new))" using 2(2) r unfolding conn_inv_def by auto
    show "set (hs_hypos (last stacks)) \<subseteq> set (l @ [e]) \<union> set (todo @ new)" using 2(2) unfolding conn_inv_def by auto
    show "sound_edge w x" if "x \<in> set (l @ [e]) \<union> set (todo @ new)" for x using 2(2) bs(2) r that unfolding conn_inv_def by auto
    show "ph_id ` set xs \<subseteq> c1" if "x \<in> set (l @ [e])" "reached_back w x = Inr xs" for x xs
    proof (cases "x = e")
      case False
      then have "x \<in> set l" using that(1) by simp
      then have "ph_id ` set xs \<subseteq> c" using 2(2) that(2) unfolding conn_inv_def by blast
      then show ?thesis using r by blast
    next
      case True
      then have "xs = bs" using that(2) bs(1) by simp
      then show ?thesis using r by blast
    qed
  qed
  from 2(1) [OF bs(1) new [symmetric] this] show ?case using bs(1) new by simp
qed auto

lemma conn_inv_live:
  assumes "conn_inv w [] c l" "0 < ph_id g" "g \<in> set (stack_hypos stacks)"
  shows "ph_id g \<in> c \<longleftrightarrow> live g"
proof
  assume "ph_id g \<in> c"
  then obtain e g' where e: "ph_id e = ph_id g" "node_of e g'" "live g'" using assms(1) by (auto simp: conn_inv_def sound_edge_def)
  then show "live g" using ids_unique(2) [OF e(2) node_in [OF assms(3)]] by simp
next
  have mem: "e \<in> set l" if e: "ph_id e \<in> c" "node_of e g" for e g
  proof -
    obtain x where x: "x \<in> set l" "ph_id x = ph_id e" "sound_edge w x" using e(1) assms(1) by (auto simp: conn_inv_def)
    then have "x = e" using ids_unique(1) [OF _ e(2)] by (auto simp: sound_edge_def)
    then show ?thesis using x(1) by simp
  qed
  have "ph_id g \<in> c" if "completion stacks g es" "0 < ph_id g" for g es
    using that
  proof (induction es arbitrary: g)
    case Nil
    then show ?case using assms(1) by (auto simp: conn_inv_def)
  next
    case (Cons e es)
    then obtain g' where g': "ph_prev e = Some g" "node_of e g'" "completion stacks g' es" by auto
    have pos: "0 < ph_id e" "0 < ph_id g'" using prev_positive [OF g'(2,1)] by blast+
    have in_l: "g' \<in> set l" using mem Cons.IH [OF g'(3) pos(2)] node_in g'(2) by (auto simp: edge_at_def)
    have closed: "b \<in> set bs \<Longrightarrow> x \<in> set l \<Longrightarrow> reached_back w x = Inr bs \<Longrightarrow> ph_id b \<in> c" for x b bs using assms(1) unfolding conn_inv_def by blast
    have sound: "x \<in> set l \<Longrightarrow> sound_edge w x" for x using assms(1) by (simp add: conn_inv_def)
    have e: "e \<in> set (g' # arc_list g')" using g'(2) by (simp add: edge_at_def)
    show ?case
    proof (cases w)
      case True
      then obtain bs where "reached_back w g' = Inr bs" "g \<in> set bs"
        using reached_back_sound [OF sound [OF in_l]] e g'(1) Cons.prems(2) by auto
      then show ?thesis using closed [OF _ in_l] by blast
    next
      case False
      have "e \<in> set l"
      proof (cases "e = g'")
        case no: False
        then show ?thesis using reached_back_sound [OF sound [OF in_l]] closed [OF _ in_l] e False mem [OF _ g'(2)] by auto
      qed (use in_l in simp)
      moreover from this obtain bs where "reached_back w e = Inr bs" "g \<in> set bs"
        using reached_back_sound [OF sound, of e] g'(1) Cons.prems(2) False by auto
      ultimately show ?thesis using closed by blast
    qed
  qed
  then show "live g \<Longrightarrow> ph_id g \<in> c" using assms(2) unfolding reaches_end_def by blast
qed

lemma GetConnected_live:
  "\<exists>c l. GetConnected w stacks = Inr (c, l) \<and> (\<forall>g \<in> set (stack_hypos stacks). 0 < ph_id g \<longrightarrow> (ph_id g \<in> c \<longleftrightarrow> live g))
    \<and> (w \<longrightarrow> distinct l \<and> set l = {g \<in> set (stack_hypos stacks). 0 < ph_id g \<and> live g}) \<and> (hs_hypos (last stacks) = [] \<longrightarrow> c = {} \<and> l = [])"
proof -
  let ?hs = "hs_hypos (last stacks)"
  have ne: "stacks \<noteq> []" using several by auto
  have "sound_edge w h" if h: "h \<in> set ?hs" for h
  proof -
    have "on_stack (length stacks - 1) h" using last_on [OF h] several by (auto simp: on_stack_def)
    then have "0 < ph_id h" using later_id several by auto
    moreover have "live h" unfolding reaches_end_def using h by (intro exI [of _ "[]"]) simp
    ultimately show ?thesis using node_in [OF last_in [OF h]] by (auto simp: sound_edge_def)
  qed
  moreover have "distinct (map ph_id ?hs)"
  proof -
    obtain xs where "stacks = xs @ [last stacks]" using ne by (metis append_butlast_last_id)
    then have "stack_edges stacks = stack_edges (xs @ [last stacks])" by (rule arg_cong)
    then have "stack_edges stacks = stack_edges xs @ concat (map (\<lambda>h. h # arc_list h) ?hs)" by (simp add: stack_edges_def stack_hypos_def)
    then have "distinct (map ph_id (concat (map (\<lambda>h. h # arc_list h) ?hs)))" using ok by (simp add: graph_ok_def)
    moreover have "distinct (map ph_id ys)" if "distinct (map ph_id (concat (map (\<lambda>h. h # arc_list h) ys)))" for ys :: "'s pb_hypo list"
      using that by (induction ys) auto
    ultimately show ?thesis by blast
  qed
  ultimately have "conn_inv w ?hs (set (map ph_id ?hs)) []" by (simp add: conn_inv_def)
  then obtain c l where cl: "connect_loop w ?hs (set (map ph_id ?hs)) [] = Inr (c, l)" "conn_inv w [] c l" using connect_loop_inv by blast
  have "set l = {g \<in> set (stack_hypos stacks). 0 < ph_id g \<and> live g}" if w
  proof
    show "set l \<subseteq> {g \<in> set (stack_hypos stacks). 0 < ph_id g \<and> live g}"
      using cl(2) that by (auto simp: conn_inv_def sound_edge_def edge_at_def)
    show "{g \<in> set (stack_hypos stacks). 0 < ph_id g \<and> live g} \<subseteq> set l"
    proof
      fix g
      assume "g \<in> {g \<in> set (stack_hypos stacks). 0 < ph_id g \<and> live g}"
      then have g: "g \<in> set (stack_hypos stacks)" "ph_id g \<in> c" using conn_inv_live [OF cl(2)] by auto
      then obtain e where e: "e \<in> set l" "ph_id e = ph_id g" "sound_edge w e" using cl(2) by (auto simp: conn_inv_def)
      then show "g \<in> set l" using ids_unique(1) [OF _ node_in [OF g(1)]] by (metis sound_edge_def)
    qed
  qed
  moreover have "distinct l" using cl(2) by (simp add: conn_inv_def distinct_map)
  moreover have "?hs = [] \<longrightarrow> c = {} \<and> l = []" using cl(1) by auto
  ultimately show ?thesis using cl ne conn_inv_live [OF cl(2)] by (intro exI [of _ c] exI [of _ l]) (simp add: GetConnected_def)
qed

subsection \<open>Forward scores\<close>

lemma GetScore_fin: "node_of e h \<Longrightarrow> pb_GetScore e = Fin (real_score (pb_GetScore e))"
  using finite_score by fastforce

text \<open>The completions whose first edge is among those that have made their play.\<close>

definition compl :: "'s pb_hypo set \<Rightarrow> 's pb_hypo \<Rightarrow> 's pb_hypo list \<Rightarrow> bool" where
  "compl E h es \<longleftrightarrow> completion stacks h es \<and> (es = [] \<or> hd es \<in> E)"

definition best_in :: "'s pb_hypo set \<Rightarrow> 's pb_hypo \<Rightarrow> 's pb_hypo list \<Rightarrow> bool" where
  "best_in E h es \<longleftrightarrow> compl E h es \<and> (\<forall>ds. compl E h ds \<longrightarrow> completion_score ds \<le> completion_score es)"

definition successor_id :: "'s pb_hypo list \<Rightarrow> int" where
  "successor_id es = (case es of [] \<Rightarrow> -1 | e # _ \<Rightarrow> int (ph_id e))"

definition forward_ok :: "'s pb_hypo set \<Rightarrow> forward_maps \<Rightarrow> bool" where
  "forward_ok E m \<longleftrightarrow> (\<forall>h \<in> set (stack_hypos stacks). case fw_score m (ph_id h) of
       None \<Rightarrow> (\<forall>es. \<not> compl E h es) \<and> fw_forward m (ph_id h) = None
     | Some f \<Rightarrow> (\<exists>es. best_in E h es \<and> f = Fin (completion_score es) \<and> fw_forward m (ph_id h) = Some (successor_id es)))"

lemma forward_ok_cong:
  assumes "forward_ok E m" "\<And>h es. compl E' h es \<longleftrightarrow> compl E h es"
  shows "forward_ok E' m"
proof -
  have c: "compl E' = compl E" using assms(2) by blast
  then have "best_in E' = best_in E" by (simp add: best_in_def fun_eq_iff)
  then show ?thesis using assms(1) c unfolding forward_ok_def by (simp only:)
qed

lemma completion_Cons_score: "completion_score (e # es) = arc_score e + completion_score es"
  by (simp add: completion_score_def)

text \<open>The play of an edge of a hypothesis all of whose completions have been seen.\<close>

lemma compl_insert:
  assumes "node_of e g" "ph_prev e = Some p"
  shows "compl (insert e E) h ds \<longleftrightarrow> compl E h ds \<or> h = p \<and> (\<exists>es. ds = e # es \<and> completion stacks g es)"
proof (cases ds)
  case (Cons d es)
  have g_in: "g \<in> set (stack_hypos stacks)" using assms(1) by (simp add: edge_at_def)
  have "completion stacks p (e # es) \<longleftrightarrow> completion stacks g es"
    unfolding completion.simps using assms node_unique [OF assms(1)] g_in by blast
  moreover have "completion stacks h (e # es) \<Longrightarrow> h = p" using assms(2) by simp
  ultimately show ?thesis using Cons by (auto simp: compl_def simp del: completion.simps(2))
qed (simp add: compl_def)

lemma prev_other:
  assumes "node_of e g" "ph_prev e = Some p"
  shows "ph_id p \<noteq> ph_id g"
proof
  assume same: "ph_id p = ph_id g"
  have in_graph: "p \<in> set (stack_hypos stacks)" "g \<in> set (stack_hypos stacks)"
    using edge_facts(5) [OF assms] assms(1) by (simp_all add: edge_at_def)
  then have "p = g" using same_prev [OF same] by blast
  obtain j where j: "on_stack j e" using edge_on_stack [OF assms(1)] by blast
  obtain k where k: "k < j" "on_stack k p" using prev_earlier [OF j assms(2)] by blast
  show False
    using on_stack_node [OF assms(1)] on_stack_node [OF node_in [OF in_graph(1)]] j k \<open>p = g\<close> stack_unique [of j k g] by auto
qed

text \<open>The first step of the best completion of a predecessor is the new edge when its play beats the score in the map.\<close>

definition beats :: "forward_maps \<Rightarrow> 's pb_hypo \<Rightarrow> real \<Rightarrow> bool" where
  "beats m p y \<longleftrightarrow> (case fw_score m (ph_id p) of None \<Rightarrow> True | Some x \<Rightarrow> x < Fin y)"

lemma best_after_play:
  assumes fw: "forward_ok E m" and e: "node_of e g" "ph_prev e = Some p" and g: "completion stacks g es"
      "\<And>ds. completion stacks g ds \<Longrightarrow> completion_score ds \<le> completion_score es"
  defines "y \<equiv> completion_score (e # es)"
  shows "if beats m p y then best_in (insert e E) p (e # es)
    else \<exists>cs. best_in (insert e E) p cs \<and> fw_score m (ph_id p) = Some (Fin (completion_score cs)) \<and> fw_forward m (ph_id p) = Some (successor_id cs)"
proof -
  have p_in: "p \<in> set (stack_hypos stacks)" using edge_facts(5) [OF e] .
  have below_y: "completion_score ds \<le> y" if "ds = e # ds'" "completion stacks g ds'" for ds ds'
    using g(2) [OF that(2)] that(1) by (simp add: y_def completion_Cons_score)
  show ?thesis
  proof (cases "beats m p y")
    case True
    have old: "completion_score ds \<le> y" if "compl E p ds" for ds
    proof (cases "fw_score m (ph_id p)")
      case None
      then show ?thesis using fw p_in that by (auto simp: forward_ok_def)
    next
      case (Some f)
      then obtain cs where "best_in E p cs" "f = Fin (completion_score cs)" using fw p_in by (auto simp: forward_ok_def split: option.splits)
      then show ?thesis using True Some that by (fastforce simp: best_in_def beats_def)
    qed
    have "completion_score ds \<le> y" if "compl (insert e E) p ds" for ds
      using that old below_y compl_insert [OF e, of E p ds] by metis
    moreover have "compl (insert e E) p (e # es)" using compl_insert [OF e, of E p] g(1) by simp
    ultimately show ?thesis using True by (simp add: best_in_def y_def)
  next
    case False
    then obtain f where f: "fw_score m (ph_id p) = Some f" "\<not> f < Fin y" by (auto simp: beats_def split: option.splits)
    then obtain cs where cs: "best_in E p cs" "f = Fin (completion_score cs)" "fw_forward m (ph_id p) = Some (successor_id cs)"
      using fw p_in by (auto simp: forward_ok_def split: option.splits)
    then have "y \<le> completion_score cs" using f(2) by simp
    have "completion_score ds \<le> completion_score cs" if "compl (insert e E) p ds" for ds
      using that cs(1) below_y \<open>y \<le> completion_score cs\<close> compl_insert [OF e, of E p ds] order_trans unfolding best_in_def by metis
    moreover have "compl (insert e E) p cs" using cs(1) compl_insert [OF e, of E p cs] by (simp add: best_in_def)
    ultimately show ?thesis using False f(1) cs by (auto simp: best_in_def)
  qed
qed

lemma make_play_ok:
  assumes fw: "forward_ok E m" and e: "node_of e g" "ph_prev e = Some p"
    and g: "fw_score m (ph_id g) = Some (Fin (completion_score es))" "completion stacks g es"
      "\<And>ds. completion stacks g ds \<Longrightarrow> completion_score ds \<le> completion_score es"
  shows "\<exists>m'. make_play g e m = Inr m' \<and> forward_ok (insert e E) m' \<and> (\<forall>i. i \<noteq> ph_id p \<longrightarrow> fw_score m' i = fw_score m i)
    \<and> fw_outgoing m' = (fw_outgoing m)(ph_id p := insert (ph_id g) (fw_outgoing m (ph_id p)))"
proof -
  have p_in: "p \<in> set (stack_hypos stacks)" using edge_facts(5) [OF e] .
  define y where "y = completion_score (e # es)"
  have y: "score_minus (Fin (completion_score es) + pb_GetScore e) (pb_GetScore p) = Fin y"
    by (subst GetScore_fin [OF e(1)], subst GetScore_fin [OF node_in [OF p_in]]) (simp add: y_def completion_Cons_score arc_score_def e(2))
  note after = best_after_play [OF fw e g(2,3), folded y_def]
  define m' where "m' = m\<lparr>fw_score := (if beats m p y then (fw_score m)(ph_id p \<mapsto> Fin y) else fw_score m),
    fw_forward := (if beats m p y then (fw_forward m)(ph_id p \<mapsto> int (ph_id e)) else fw_forward m),
    fw_outgoing := (fw_outgoing m)(ph_id p := insert (ph_id g) (fw_outgoing m (ph_id p)))\<rparr>"
  have same: "(fw_score m)(ph_id g \<mapsto> Fin (completion_score es)) = fw_score m" using g(1) by (simp add: fun_upd_idem_iff)
  have "prev_of e = Inr p" "ph_id p \<noteq> ph_id g" using prev_other [OF e] by (simp_all add: prev_of_eq e(2))
  then have run: "make_play g e m = Inr m'"
    by (cases "beats m p y") (simp_all add: make_play_def g(1) same y m'_def beats_def [symmetric] Let_def cong: option.case_cong)
  have "case fw_score m' (ph_id h) of None \<Rightarrow> (\<forall>ds. \<not> compl (insert e E) h ds) \<and> fw_forward m' (ph_id h) = None
      | Some f \<Rightarrow> \<exists>ds. best_in (insert e E) h ds \<and> f = Fin (completion_score ds) \<and> fw_forward m' (ph_id h) = Some (successor_id ds)"
    if h: "h \<in> set (stack_hypos stacks)" for h
  proof (cases "h = p")
    case False
    then have "ph_id h \<noteq> ph_id p" using same_prev h p_in by blast
    then have m: "fw_score m' (ph_id h) = fw_score m (ph_id h)" "fw_forward m' (ph_id h) = fw_forward m (ph_id h)" by (simp_all add: m'_def)
    have c: "compl (insert e E) h = compl E h" using compl_insert [OF e] False by blast
    then have "best_in (insert e E) h = best_in E h" by (simp add: best_in_def fun_eq_iff)
    then show ?thesis using fw h c unfolding forward_ok_def m by (simp only:)
  qed (use after in \<open>cases "beats m p y"; auto simp: m'_def y_def successor_id_def\<close>)
  then have "forward_ok (insert e E) m'" by (simp add: forward_ok_def)
  then show ?thesis using run by (intro exI [of _ m']) (simp add: m'_def)
qed

text \<open>The edges of hypotheses, and the successors they give their predecessors.\<close>

definition edges_from :: "'s pb_hypo set \<Rightarrow> 's pb_hypo set" where
  "edges_from G = (\<Union>g \<in> G. set (g # arc_list g))"

definition successors :: "'s pb_hypo set \<Rightarrow> nat \<Rightarrow> nat set" where
  "successors E i = {ph_id g | g e p. e \<in> E \<and> node_of e g \<and> live g \<and> ph_prev e = Some p \<and> ph_id p = i}"

definition pass_ok :: "'s pb_hypo set \<Rightarrow> forward_maps \<Rightarrow> bool" where
  "pass_ok E m \<longleftrightarrow> forward_ok E m \<and> fw_outgoing m = successors E"

lemma successors_insert:
  assumes "node_of e g" "live g" "ph_prev e = Some p"
  shows "successors (insert e E) = (successors E)(ph_id p := insert (ph_id g) (successors E (ph_id p)))"
proof
  fix i
  have *: "e' = e \<Longrightarrow> node_of e' g' \<Longrightarrow> ph_prev e' = Some q \<Longrightarrow> g' = g \<and> q = p" for e' g' q
    using node_unique [OF assms(1)] assms(3) by auto
  show "successors (insert e E) i = ((successors E)(ph_id p := insert (ph_id g) (successors E (ph_id p)))) i"
  proof (rule set_eqI)
    fix k
    have "k \<in> successors (insert e E) i \<longleftrightarrow> k \<in> successors E i \<or> k = ph_id g \<and> ph_id p = i"
      unfolding successors_def using assms * by blast
    then show "k \<in> successors (insert e E) i \<longleftrightarrow> k \<in> ((successors E)(ph_id p := insert (ph_id g) (successors E (ph_id p)))) i" by auto
  qed
qed

text \<open>All edges of a hypothesis make their plays.\<close>

lemma make_plays_ok:
  assumes "pass_ok E m" "\<forall>e \<in> set es. node_of e g \<and> (\<exists>p. ph_prev e = Some p)" "live g"
    and "fw_score m (ph_id g) = Some (Fin (completion_score cs))" "completion stacks g cs"
      "\<And>ds. completion stacks g ds \<Longrightarrow> completion_score ds \<le> completion_score cs"
  shows "\<exists>m'. rfold (make_play g) es m = Inr m' \<and> pass_ok (E \<union> set es) m'"
  using assms(1,2,4)
proof (induction es arbitrary: E m)
  case (Cons e es)
  obtain p where e: "node_of e g" "ph_prev e = Some p" using Cons.prems(2) by auto
  obtain m1 where m1: "make_play g e m = Inr m1" "forward_ok (insert e E) m1" "\<forall>i. i \<noteq> ph_id p \<longrightarrow> fw_score m1 i = fw_score m i"
    "fw_outgoing m1 = (fw_outgoing m)(ph_id p := insert (ph_id g) (fw_outgoing m (ph_id p)))"
    using make_play_ok [OF _ e Cons.prems(3) assms(5,6)] Cons.prems(1) by (auto simp: pass_ok_def)
  have "pass_ok (insert e E) m1" using m1(2,4) Cons.prems(1) successors_insert [OF e(1) assms(3) e(2)] by (simp add: pass_ok_def)
  moreover have "fw_score m1 (ph_id g) = Some (Fin (completion_score cs))" using m1(3) prev_other [OF e] Cons.prems(3) by simp
  moreover have "\<forall>e \<in> set es. node_of e g \<and> (\<exists>p. ph_prev e = Some p)" using Cons.prems(2) by simp
  ultimately obtain m' where "rfold (make_play g) es m1 = Inr m'" "pass_ok (insert e E \<union> set es) m'" using Cons.IH [of "insert e E" m1] by blast
  then show ?case using m1(1) by simp
qed simp

text \<open>One hypothesis, after all hypotheses of the stacks behind it.\<close>

lemma forward_hypo_ok:
  assumes m: "pass_ok E m" and g: "on_stack j g" "g \<in> set (stack_hypos stacks)" "0 < j"
    and c: "ph_id g \<in> c \<longleftrightarrow> live g" and seen: "\<And>es. completion stacks g es \<Longrightarrow> compl E g es"
  shows "\<exists>m'. forward_hypo c g m = Inr m' \<and> pass_ok (E \<union> edges_from {g}) m'"
proof (cases "live g")
  case True
  then obtain es where "completion stacks g es" by (auto simp: reaches_end_def)
  then have some: "compl E g es" by (rule seen)
  have "case fw_score m (ph_id g) of None \<Rightarrow> (\<forall>es. \<not> compl E g es) \<and> fw_forward m (ph_id g) = None
     | Some f \<Rightarrow> \<exists>es. best_in E g es \<and> f = Fin (completion_score es) \<and> fw_forward m (ph_id g) = Some (successor_id es)"
    using m g(2) by (simp add: pass_ok_def forward_ok_def)
  then obtain cs where cs: "best_in E g cs" "fw_score m (ph_id g) = Some (Fin (completion_score cs))" using some by (auto split: option.splits)
  have edges: "\<forall>e \<in> set (g # arc_list g). node_of e g \<and> (\<exists>p. ph_prev e = Some p)"
  proof
    fix e
    assume e: "e \<in> set (g # arc_list g)"
    have n: "node_of e g" using e g(2) by (simp add: edge_at_def)
    then have "on_stack j e" using on_stack_node [OF n] on_stack_node [OF node_in [OF g(2)]] g(1) by simp
    then show "node_of e g \<and> (\<exists>p. ph_prev e = Some p)" using n later_stack g(3) by blast
  qed
  have best: "completion stacks g cs" "\<And>ds. completion stacks g ds \<Longrightarrow> completion_score ds \<le> completion_score cs"
    using cs(1) seen by (auto simp: best_in_def compl_def)
  from make_plays_ok [OF m edges True cs(2) best] show ?thesis
    using c True unfolding forward_hypo_def edges_from_def by simp
next
  case False
  have "compl (E \<union> edges_from {g}) h es \<longleftrightarrow> compl E h es" for h es
  proof (cases es)
    case (Cons e es')
    have "e \<notin> edges_from {g}" if comp: "completion stacks h (e # es')"
    proof
      assume "e \<in> edges_from {g}"
      then have "node_of e g" using g(2) by (simp add: edges_from_def edge_at_def)
      then have "completion stacks g es'" using comp node_unique by auto
      then show False using False by (auto simp: reaches_end_def)
    qed
    then show ?thesis unfolding compl_def Cons by auto
  qed (simp add: compl_def)
  then have "forward_ok (E \<union> edges_from {g}) m" using m forward_ok_cong [of E m] by (simp add: pass_ok_def)
  moreover have "successors (E \<union> edges_from {g}) = successors E"
  proof -
    have "g' = g" if "e \<in> edges_from {g}" "node_of e g'" for e g'
      using that g(2) node_unique [OF that(2)] by (auto simp: edges_from_def edge_at_def)
    then show ?thesis using False unfolding successors_def by blast
  qed
  ultimately show ?thesis using m c False by (simp add: forward_hypo_def pass_ok_def)
qed

text \<open>The hypotheses of one stack, then the stacks one after the other.\<close>

lemma stack_seen:
  assumes "on_stack j g" "g \<in> set (stack_hypos stacks)" "completion stacks g es"
    and "\<And>k h. j < k \<Longrightarrow> k < length stacks \<Longrightarrow> h \<in> set (hs_hypos (stacks ! k)) \<Longrightarrow> set (h # arc_list h) \<subseteq> E"
  shows "compl E g es"
proof (cases es)
  case (Cons e es')
  then obtain g' where g': "ph_prev e = Some g" "node_of e g'" using assms(3) by auto
  obtain k where k: "on_stack k e" using edge_on_stack [OF g'(2)] by blast
  obtain i where i: "i < k" "on_stack i g" using prev_earlier [OF k g'(1)] by blast
  have "i = j" using stack_unique [of i j g] on_stack_node [OF node_in [OF assms(2)]] i(2) assms(1) by blast
  then have "set (g' # arc_list g') \<subseteq> E" using assms(4) i(1) on_stack_node [OF g'(2)] k by blast
  then show ?thesis using assms(3) g'(2) Cons unfolding compl_def edge_at_def by auto
qed (use assms(3) in \<open>simp add: compl_def\<close>)

lemma layer_ok:
  assumes "pass_ok E m" "set hs \<subseteq> set (hs_hypos (stacks ! j))" "0 < j" "j < length stacks"
    and "\<forall>g \<in> set (stack_hypos stacks). 0 < ph_id g \<longrightarrow> (ph_id g \<in> c \<longleftrightarrow> live g)"
    and "\<And>k h. j < k \<Longrightarrow> k < length stacks \<Longrightarrow> h \<in> set (hs_hypos (stacks ! k)) \<Longrightarrow> set (h # arc_list h) \<subseteq> E"
  shows "\<exists>m'. rfold (forward_hypo c) hs m = Inr m' \<and> pass_ok (E \<union> edges_from (set hs)) m'"
  using assms(1,2,6)
proof (induction hs arbitrary: E m)
  case Nil
  then show ?case by (simp add: edges_from_def)
next
  case (Cons g hs)
  have in_graph: "g \<in> set (stack_hypos stacks)" using Cons.prems(2) assms(4) by (auto simp: in_stack)
  have on: "on_stack j g" using Cons.prems(2) assms(4) by (auto simp: on_stack_def)
  have c: "ph_id g \<in> c \<longleftrightarrow> live g" using assms(5) in_graph later_id [OF on assms(3)] by blast
  obtain m1 where m1: "forward_hypo c g m = Inr m1" "pass_ok (E \<union> edges_from {g}) m1"
    using forward_hypo_ok [OF Cons.prems(1) on in_graph assms(3) c stack_seen [OF on in_graph]] Cons.prems(3) by blast
  have "\<exists>m'. rfold (forward_hypo c) hs m1 = Inr m' \<and> pass_ok (E \<union> edges_from {g} \<union> edges_from (set hs)) m'"
  proof (rule Cons.IH [OF m1(2)])
    show "set hs \<subseteq> set (hs_hypos (stacks ! j))" using Cons.prems(2) by simp
    show "set (h # arc_list h) \<subseteq> E \<union> edges_from {g}" if "j < k" "k < length stacks" "h \<in> set (hs_hypos (stacks ! k))" for k h
      using Cons.prems(3) [OF that] by blast
  qed
  moreover have "E \<union> edges_from {g} \<union> edges_from (set hs) = E \<union> edges_from (set (g # hs))" by (auto simp: edges_from_def)
  ultimately show ?case using m1(1) by simp
qed

text \<open>The hypotheses on the stacks from a number on.\<close>

definition hypos_from :: "nat \<Rightarrow> 's pb_hypo set" where
  "hypos_from k = set (stack_hypos (drop k stacks))"

lemma hypos_from_mem: "h \<in> hypos_from k \<longleftrightarrow> (\<exists>j. k \<le> j \<and> j < length stacks \<and> h \<in> set (hs_hypos (stacks ! j)))"
proof
  assume "h \<in> hypos_from k"
  then obtain st where st: "st \<in> set (drop k stacks)" "h \<in> set (hs_hypos st)" by (auto simp: hypos_from_def stack_hypos_def)
  then obtain i where "i < length stacks - k" "st = stacks ! (k + i)" by (auto simp: in_set_conv_nth)
  then show "\<exists>j. k \<le> j \<and> j < length stacks \<and> h \<in> set (hs_hypos (stacks ! j))" using st(2) by (intro exI [of _ "k + i"]) auto
next
  assume "\<exists>j. k \<le> j \<and> j < length stacks \<and> h \<in> set (hs_hypos (stacks ! j))"
  then obtain j where j: "k \<le> j" "j < length stacks" "h \<in> set (hs_hypos (stacks ! j))" by blast
  have "drop k stacks ! (j - k) = stacks ! j" using j(1,2) by simp
  then have "stacks ! j \<in> set (drop k stacks)" using j(1,2) nth_mem [of "j - k" "drop k stacks"] by simp
  then show "h \<in> hypos_from k" using j(3) by (auto simp: hypos_from_def stack_hypos_def)
qed

lemma first_forward_ok: "pass_ok {} (first_forward stacks)"
proof -
  let ?m0 = "\<lparr>fw_forward = (\<lambda>_. None), fw_score = (\<lambda>_. None), fw_outgoing = (\<lambda>_. {})\<rparr>"
  let ?f = "\<lambda>(h :: 's pb_hypo) (m :: forward_maps). m\<lparr>fw_score := (fw_score m)(ph_id h \<mapsto> Fin 0), fw_forward := (fw_forward m)(ph_id h \<mapsto> -1)\<rparr>"
  have maps: "fw_score (fold ?f hs m) i = (if i \<in> ph_id ` set hs then Some (Fin 0) else fw_score m i)
      \<and> fw_forward (fold ?f hs m) i = (if i \<in> ph_id ` set hs then Some (-1) else fw_forward m i) \<and> fw_outgoing (fold ?f hs m) = fw_outgoing m"
    for hs :: "'s pb_hypo list" and m i by (induction hs arbitrary: m) auto
  have mem: "ph_id h \<in> ph_id ` set (hs_hypos (last stacks)) \<longleftrightarrow> h \<in> set (hs_hypos (last stacks))" if h: "h \<in> set (stack_hypos stacks)" for h
  proof
    assume "ph_id h \<in> ph_id ` set (hs_hypos (last stacks))"
    then obtain x where x: "ph_id h = ph_id x" "x \<in> set (hs_hypos (last stacks))" by blast
    then have "h = x" using same_prev [OF x(1) h last_in [OF x(2)]] by blast
    then show "h \<in> set (hs_hypos (last stacks))" using x(2) by simp
  qed simp
  have c: "compl {} h es \<longleftrightarrow> es = [] \<and> h \<in> set (hs_hypos (last stacks))" for h es by (cases es) (auto simp: compl_def)
  have best: "best_in {} h [] \<longleftrightarrow> h \<in> set (hs_hypos (last stacks))" for h by (auto simp: best_in_def c)
  have "forward_ok {} (first_forward stacks)"
    unfolding forward_ok_def
  proof
    fix h
    assume h: "h \<in> set (stack_hypos stacks)"
    show "case fw_score (first_forward stacks) (ph_id h) of None \<Rightarrow> (\<forall>es. \<not> compl {} h es) \<and> fw_forward (first_forward stacks) (ph_id h) = None
      | Some f \<Rightarrow> \<exists>es. best_in {} h es \<and> f = Fin (completion_score es) \<and> fw_forward (first_forward stacks) (ph_id h) = Some (successor_id es)"
    proof (cases "h \<in> set (hs_hypos (last stacks))")
      case True
      then have "best_in {} h []" by (simp add: best)
      then show ?thesis using True mem [OF h] maps by (auto simp: first_forward_def completion_score_def successor_id_def intro!: exI [of _ "[]"])
    next
      case False
      then show ?thesis using mem [OF h] maps by (simp add: first_forward_def c)
    qed
  qed
  then show ?thesis using maps by (simp add: pass_ok_def first_forward_def successors_def fun_eq_iff)
qed

lemma forward_pass_ok:
  assumes "\<forall>g \<in> set (stack_hypos stacks). 0 < ph_id g \<longrightarrow> (ph_id g \<in> c \<longleftrightarrow> live g)"
  shows "\<exists>m. forward_pass stacks c = Inr m \<and> pass_ok (edges_from (hypos_from 1)) m"
proof -
  have *: "\<exists>m. rfold (forward_hypo c) (concat (map hs_hypos (rev (drop k stacks)))) (first_forward stacks) = Inr m \<and> pass_ok (edges_from (hypos_from k)) m"
    if k: "k \<le> length stacks" "0 < k" for k
    using k
  proof (induction k rule: inc_induct)
    case base
    then show ?case using first_forward_ok by (simp add: hypos_from_def stack_hypos_def edges_from_def)
  next
    case (step j)
    obtain m where m: "rfold (forward_hypo c) (concat (map hs_hypos (rev (drop (Suc j) stacks)))) (first_forward stacks) = Inr m"
      "pass_ok (edges_from (hypos_from (Suc j))) m" using step by auto
    have "\<exists>m'. rfold (forward_hypo c) (hs_hypos (stacks ! j)) m = Inr m' \<and> pass_ok (edges_from (hypos_from (Suc j)) \<union> edges_from (set (hs_hypos (stacks ! j)))) m'"
    proof (rule layer_ok [OF m(2) _ step.prems _ assms])
      show "set (h # arc_list h) \<subseteq> edges_from (hypos_from (Suc j))" if "j < k" "k < length stacks" "h \<in> set (hs_hypos (stacks ! k))" for k h
      proof -
        have "h \<in> hypos_from (Suc j)" unfolding hypos_from_mem using that by (intro exI [of _ k]) simp
        then show ?thesis unfolding edges_from_def by blast
      qed
    qed (use step.hyps in simp_all)
    moreover have "drop j stacks = stacks ! j # drop (Suc j) stacks" using step.hyps by (simp add: Cons_nth_drop_Suc)
    moreover from this have "edges_from (hypos_from (Suc j)) \<union> edges_from (set (hs_hypos (stacks ! j))) = edges_from (hypos_from j)"
      by (auto simp: edges_from_def hypos_from_def stack_hypos_def)
    ultimately show ?case using m(1) by (auto simp: rfold_append)
  qed
  from * [of 1] several show ?thesis by (simp add: forward_pass_def drop_Suc)
qed

text \<open>Every completion starts with an edge of a hypothesis behind the first stack, so that the plays have seen all.\<close>

lemma compl_all: "compl (edges_from (hypos_from 1)) h es \<longleftrightarrow> completion stacks h es"
proof (cases es)
  case (Cons e es')
  have "e \<in> edges_from (hypos_from 1)" if e: "ph_prev e = Some h" "node_of e g" for g
  proof -
    obtain j where j: "on_stack j e" using edge_on_stack [OF e(2)] by blast
    then have "0 < j" using first_stack e(1) by (cases j) auto
    then have "g \<in> hypos_from 1" unfolding hypos_from_mem using j on_stack_node [OF e(2)] by (intro exI [of _ j]) auto
    then show ?thesis using e(2) by (auto simp: edges_from_def edge_at_def)
  qed
  then show ?thesis using Cons by (auto simp: compl_def)
qed (simp add: compl_def)

lemma forward_pass_result:
  assumes "\<forall>g \<in> set (stack_hypos stacks). 0 < ph_id g \<longrightarrow> (ph_id g \<in> c \<longleftrightarrow> live g)"
  shows "\<exists>m. forward_pass stacks c = Inr m
    \<and> (\<forall>h. live h \<longrightarrow> (\<exists>es. completion stacks h es \<and> (\<forall>ds. completion stacks h ds \<longrightarrow> completion_score ds \<le> completion_score es)
         \<and> fw_score m (ph_id h) = Some (Fin (completion_score es)) \<and> fw_forward m (ph_id h) = Some (successor_id es)))
    \<and> (\<forall>h \<in> set (stack_hypos stacks). \<not> live h \<longrightarrow> fw_score m (ph_id h) = None \<and> fw_forward m (ph_id h) = None)
    \<and> fw_outgoing m = successors (edges_from (hypos_from 1))"
proof -
  obtain m where m: "forward_pass stacks c = Inr m" "pass_ok (edges_from (hypos_from 1)) m" using forward_pass_ok [OF assms] by blast
  have fw: "case fw_score m (ph_id h) of None \<Rightarrow> (\<forall>es. \<not> completion stacks h es) \<and> fw_forward m (ph_id h) = None
     | Some f \<Rightarrow> \<exists>es. (completion stacks h es \<and> (\<forall>ds. completion stacks h ds \<longrightarrow> completion_score ds \<le> completion_score es))
         \<and> f = Fin (completion_score es) \<and> fw_forward m (ph_id h) = Some (successor_id es)" if "h \<in> set (stack_hypos stacks)" for h
    using m(2) that unfolding pass_ok_def forward_ok_def best_in_def compl_all by blast
  have "live h \<Longrightarrow> h \<in> set (stack_hypos stacks)" for h using live_in by (auto simp: reaches_end_def)
  then have "\<exists>es. completion stacks h es \<and> (\<forall>ds. completion stacks h ds \<longrightarrow> completion_score ds \<le> completion_score es)
         \<and> fw_score m (ph_id h) = Some (Fin (completion_score es)) \<and> fw_forward m (ph_id h) = Some (successor_id es)" if "live h" for h
    using fw [of h] that by (auto simp: reaches_end_def split: option.splits)
  moreover have "fw_score m (ph_id h) = None \<and> fw_forward m (ph_id h) = None" if "h \<in> set (stack_hypos stacks)" "\<not> live h" for h
    using fw [OF that(1)] that(2) by (auto simp: reaches_end_def split: option.splits)
  ultimately show ?thesis using m by (auto simp: pass_ok_def)
qed

subsection \<open>The graphs\<close>

definition is_best :: "'s pb_hypo \<Rightarrow> 's pb_hypo list \<Rightarrow> bool" where
  "is_best h es \<longleftrightarrow> completion stacks h es \<and> (\<forall>ds. completion stacks h ds \<longrightarrow> completion_score ds \<le> completion_score es)"

lemma GetSearchGraph_result:
  "\<exists>nodes. GetSearchGraph stacks = Inr nodes
    \<and> map (\<lambda>n. (gn_recombinationHypo n, gn_hypo n)) nodes
        = concat (map (\<lambda>h. (None, h) # map (\<lambda>a. (Some h, a)) (arc_list h)) (filter (\<lambda>h. ph_id h = 0 \<or> live h) (stack_hypos stacks)))
    \<and> (\<forall>n \<in> set nodes. \<exists>h. h = (case gn_recombinationHypo n of None \<Rightarrow> gn_hypo n | Some w \<Rightarrow> w) \<and> (if live h
          then \<exists>es. is_best h es \<and> gn_fscore n = Fin (completion_score es) \<and> gn_forward n = successor_id es
          else gn_fscore n = Fin 0 \<and> gn_forward n = 0))"
proof -
  obtain c l where c: "GetConnected False stacks = Inr (c, l)" "\<forall>g \<in> set (stack_hypos stacks). 0 < ph_id g \<longrightarrow> (ph_id g \<in> c \<longleftrightarrow> live g)"
    using GetConnected_live [of False] by blast
  obtain m where m: "forward_pass stacks c = Inr m" "\<forall>h. live h \<longrightarrow> (\<exists>es. is_best h es \<and> fw_score m (ph_id h) = Some (Fin (completion_score es))
        \<and> fw_forward m (ph_id h) = Some (successor_id es))"
      "\<forall>h \<in> set (stack_hypos stacks). \<not> live h \<longrightarrow> fw_score m (ph_id h) = None \<and> fw_forward m (ph_id h) = None"
    using forward_pass_result [OF c(2)] unfolding is_best_def by blast
  have conn: "ph_id h \<in> insert 0 c \<longleftrightarrow> ph_id h = 0 \<or> live h" if "h \<in> set (stack_hypos stacks)" for h
    using c(2) that by (cases "ph_id h = 0") auto
  have split: "map (\<lambda>n. (gn_recombinationHypo n, gn_hypo n)) (concat (map (graph_nodes (insert 0 c) m) hs))
      = concat (map (\<lambda>h. (None, h) # map (\<lambda>a. (Some h, a)) (arc_list h)) (filter (\<lambda>h. ph_id h = 0 \<or> live h) hs))"
    if "set hs \<subseteq> set (stack_hypos stacks)" for hs
    using that conn by (induction hs) (auto simp: graph_nodes_def Let_def comp_def)
  let ?val = "\<lambda>h n. if live h then \<exists>es. is_best h es \<and> gn_fscore n = Fin (completion_score es) \<and> gn_forward n = successor_id es
     else gn_fscore n = Fin 0 \<and> gn_forward n = 0"
  have node: "\<exists>h. h = (case gn_recombinationHypo n of None \<Rightarrow> gn_hypo n | Some w \<Rightarrow> w) \<and> ?val h n"
    if n: "n \<in> set (concat (map (graph_nodes (insert 0 c) m) (stack_hypos stacks)))" for n
  proof -
    obtain h where h: "h \<in> set (stack_hypos stacks)" "n \<in> set (graph_nodes (insert 0 c) m h)" using n by auto
    then have n_eq: "(case gn_recombinationHypo n of None \<Rightarrow> gn_hypo n | Some w \<Rightarrow> w) = h"
      "gn_forward n = (case fw_forward m (ph_id h) of None \<Rightarrow> 0 | Some i \<Rightarrow> i)" "gn_fscore n = (case fw_score m (ph_id h) of None \<Rightarrow> Fin 0 | Some x \<Rightarrow> x)"
      by (auto simp: graph_nodes_def Let_def split: if_splits)
    have "?val h n"
    proof (cases "live h")
      case True
      then obtain es where "is_best h es" "fw_score m (ph_id h) = Some (Fin (completion_score es))" "fw_forward m (ph_id h) = Some (successor_id es)"
        using m(2) by blast
      then show ?thesis using True n_eq by auto
    next
      case False
      then show ?thesis using m(3) h(1) n_eq by simp
    qed
    then show ?thesis using n_eq(1) by blast
  qed
  have "GetSearchGraph stacks = Inr (concat (map (graph_nodes (insert 0 c) m) (stack_hypos stacks)))"
    using c(1) m(1) by (simp add: GetSearchGraph_def GetConnectedGraph_def stack_hypos_def)
  then show ?thesis using split [OF order_refl] node by (intro exI [of _ "concat (map (graph_nodes (insert 0 c) m) (stack_hypos stacks))"]) blast
qed

lemma GetForwardBackward_result:
  "\<exists>hs out scores. GetForwardBackwardSearchGraph stacks = Inr (hs, out, scores) \<and> distinct hs
    \<and> set hs = {h \<in> set (stack_hypos stacks). 0 < ph_id h \<and> live h}
    \<and> list_all2 (\<lambda>h x. \<exists>es. is_best h es \<and> x = pb_GetScore h + Fin (completion_score es)) hs scores
    \<and> (\<forall>p \<in> set (stack_hypos stacks). out (ph_id p) = {ph_id g | g e. live g \<and> node_of e g \<and> ph_prev e = Some p})"
proof -
  obtain c l where c: "GetConnected True stacks = Inr (c, l)" "\<forall>g \<in> set (stack_hypos stacks). 0 < ph_id g \<longrightarrow> (ph_id g \<in> c \<longleftrightarrow> live g)"
    "distinct l" "set l = {g \<in> set (stack_hypos stacks). 0 < ph_id g \<and> live g}" using GetConnected_live [of True] by blast
  obtain m where m: "forward_pass stacks c = Inr m" "\<forall>h. live h \<longrightarrow> (\<exists>es. is_best h es \<and> fw_score m (ph_id h) = Some (Fin (completion_score es)))"
      "fw_outgoing m = successors (edges_from (hypos_from 1))"
    using forward_pass_result [OF c(2)] unfolding is_best_def by blast
  let ?scores = "map (\<lambda>h. pb_GetScore h + (case fw_score m (ph_id h) of None \<Rightarrow> Fin 0 | Some x \<Rightarrow> x)) l"
  have run: "GetForwardBackwardSearchGraph stacks = Inr (l, fw_outgoing m, ?scores)"
    using c(1) m(1) by (simp add: GetForwardBackwardSearchGraph_def GetWinnerConnectedGraph_def)
  have scores: "list_all2 (\<lambda>h x. \<exists>es. is_best h es \<and> x = pb_GetScore h + Fin (completion_score es)) l ?scores"
    unfolding list_all2_map2
  proof (rule list.rel_refl_strong)
    fix h
    assume "h \<in> set l"
    then have "live h" using c(4) by blast
    then obtain es where "is_best h es" "fw_score m (ph_id h) = Some (Fin (completion_score es))" using m(2) by blast
    then show "\<exists>es. is_best h es \<and> pb_GetScore h + (case fw_score m (ph_id h) of None \<Rightarrow> Fin 0 | Some x \<Rightarrow> x) = pb_GetScore h + Fin (completion_score es)" by auto
  qed
  have out: "fw_outgoing m (ph_id p) = {ph_id g | g e. live g \<and> node_of e g \<and> ph_prev e = Some p}" if p: "p \<in> set (stack_hypos stacks)" for p
  proof -
    have "q = p" if "node_of e g" "ph_prev e = Some q" "ph_id q = ph_id p" for e g q using same_prev [OF that(3) edge_facts(5) [OF that(1,2)] p] .
    moreover have "e \<in> edges_from (hypos_from 1)" if "node_of e g" "ph_prev e = Some p" "live g" for e g
    proof -
      obtain es where "completion stacks g es" using \<open>live g\<close> by (auto simp: reaches_end_def)
      then have "completion stacks p (e # es)" using that(1,2) by (auto simp: edge_at_def)
      then have "compl (edges_from (hypos_from 1)) p (e # es)" by (simp only: compl_all)
      then show ?thesis by (simp add: compl_def)
    qed
    ultimately show ?thesis unfolding m(3) successors_def by blast
  qed
  show ?thesis using run c(3,4) scores out by blast
qed

end

section \<open>The graph of a search\<close>

context search
begin

lemma GetScore_finite:
  assumes "state_good s" "j \<le> words_of ps" "h \<in> set (hs_hypos (ss_stacks s ! j))" "e \<in> set (h # arc_list h)"
  shows "\<exists>x. pb_GetScore e = Fin x"
proof (cases "j = 0")
  case True
  let ?h0 = "initial_hypothesis (ps_sys ps) (ps_features ps) 0"
  have core: "core e = core ?h0" using assms core_in_edges [OF assms(3,4)] True by (auto simp: state_good_def)
  have future: "ph_future (core x) = ph_future x" "ph_total (core x) = ph_total x" for x :: "'s pb_hypo" by (cases x; simp add: core_def)+
  have "ph_total e = Fin 0" "ph_future e = Fin 0"
    using arg_cong [OF core, of ph_total] arg_cong [OF core, of ph_future] by (simp_all add: future initial_hypothesis_def Let_def)
  then show ?thesis by (simp add: pb_GetScore_def)
next
  case False
  have "good_hypo ps shape j e" using stack_edge_good(1) [OF assms] by (simp add: edge_good_def)
  then have "scored ps e" and total: "\<exists>t. ph_total e = Fin t" using False by (simp_all add: good_hypo_def)
  then obtain x where x: "ph_total e = Fin x + ph_future e" by (auto simp: scored_def)
  obtain t where "ph_total e = Fin t" using total by blast
  note x this
  then show ?thesis by (cases "ph_future e") (simp_all add: pb_GetScore_def)
qed

lemma forward_graph_of_search:
  assumes "ps_nBestIsEnabled ps" "\<forall>i. \<not> ps_timeout ps i" "pb_ProcessSentence ps = Inr s" "0 < words_of ps"
  shows "forward_graph (ss_stacks s) (si_last (py_index (ps_sys ps)))"
proof -
  have s: "state_good s" using search_result assms(3) by auto
  have g: "graph_ok (ss_stacks s) (si_last (py_index (ps_sys ps)))" "length (ss_stacks s) = Suc (words_of ps)"
    using graph_of_search [OF assms(1-3)] by blast+
  have edge: "\<exists>j \<le> words_of ps. \<exists>h \<in> set (hs_hypos (ss_stacks s ! j)). h = g \<and> e \<in> set (h # arc_list h)"
    if "edge_at (ss_stacks s) e g" for e g
    using that g(2) by (fastforce simp: edge_at_def stack_hypos_def in_set_conv_nth less_Suc_eq_le)
  show ?thesis
  proof (intro forward_graph.intro forward_graph_axioms.intro)
    show "search_graph (ss_stacks s) (si_last (py_index (ps_sys ps)))" using g(1) by (simp add: search_graph_def)
    show "1 < length (ss_stacks s)" using g(2) assms(4) by simp
    show "ph_id e = 0 \<and> ph_prev e = None" if "h \<in> set (hs_hypos (ss_stacks s ! 0))" "e \<in> set (h # arc_list h)" for h e
    proof -
      have core: "core e = core (initial_hypothesis (ps_sys ps) (ps_features ps) 0)" using s core_in_edges [OF that] by (auto simp: state_good_def)
      show ?thesis using arg_cong [OF core, of ph_id] arg_cong [OF core, of ph_prev] by (simp add: initial_hypothesis_def Let_def)
    qed
    show "ph_prev e \<noteq> None" if "0 < j" "j < length (ss_stacks s)" "h \<in> set (hs_hypos (ss_stacks s ! j))" "e \<in> set (h # arc_list h)" for j h e
      using stack_edge_good(1) [OF s _ that(3,4)] that(1,2) g(2) by (simp add: edge_good_def good_hypo_def)
    show "\<exists>x. pb_GetScore e = Fin x" if e: "edge_at (ss_stacks s) e h" for e h
      using edge [OF e] GetScore_finite [OF s] by blast
    show "arc_list a = []" if a: "h \<in> set (stack_hypos (ss_stacks s))" "a \<in> set (arc_list h)" for h a
    proof -
      have "edge_at (ss_stacks s) h h" using a(1) by (simp add: edge_at_def)
      then obtain j where "j \<le> words_of ps" "h \<in> set (hs_hypos (ss_stacks s ! j))" using edge by blast
      then have "ph_arcs a = None" using s a(2) by (auto simp: state_good_def stack_good_def arcs_ok_def)
      then show ?thesis by (simp add: arc_list_def)
    qed
  qed
qed

end

section \<open>Properties\<close>

text \<open>
  C8. The search graph is exact: after a search that ran to its end, its nodes are the hypothesis 0 and the hypotheses from which the last
  stack can be reached, in the order of the stacks, each followed by its arcs; the forward score of a node is the score of the best way
  from its hypothesis to the last stack, over hypotheses and arcs, and its forward identifier is the first step of such a way, or -1 on the last
  stack. When the search has found no translation, the graph is not empty: the hypothesis 0 remains, with forward score 0 and
  itself as its successor, because missing entries of the maps are read as 0.
\<close>

theorem GetSearchGraph_exact:
  assumes "search_ok ps shape" "ps_nBestIsEnabled ps" "\<forall>i. \<not> ps_timeout ps i" "pb_ProcessSentence ps = Inr s" "0 < words_of ps"
  shows "\<exists>nodes. GetSearchGraph (ss_stacks s) = Inr nodes
    \<and> map (\<lambda>n. (gn_recombinationHypo n, gn_hypo n)) nodes = concat (map (\<lambda>h. (None, h) # map (\<lambda>a. (Some h, a)) (arc_list h))
        (filter (\<lambda>h. ph_id h = 0 \<or> reaches_end (ss_stacks s) h) (stack_hypos (ss_stacks s))))
    \<and> (\<forall>n \<in> set nodes. \<exists>h. h = (case gn_recombinationHypo n of None \<Rightarrow> gn_hypo n | Some w \<Rightarrow> w) \<and> (if reaches_end (ss_stacks s) h
          then \<exists>es. completion (ss_stacks s) h es \<and> (\<forall>ds. completion (ss_stacks s) h ds \<longrightarrow> completion_score ds \<le> completion_score es)
            \<and> gn_fscore n = Fin (completion_score es) \<and> gn_forward n = (case es of [] \<Rightarrow> -1 | e # _ \<Rightarrow> int (ph_id e))
          else gn_fscore n = Fin 0 \<and> gn_forward n = 0))"
proof -
  note g = search.forward_graph_of_search [OF searchI [OF assms(1)] assms(2-5)]
  show ?thesis
    using forward_graph.GetSearchGraph_result [OF g] unfolding forward_graph.is_best_def [OF g] forward_graph.successor_id_def [OF g] conj_assoc .
qed

text \<open>
  C33. The graph of winners that lattice minimum Bayes risk decoding reads is exact: its hypotheses are those after the first from which
  the last stack can be reached, each once; the estimated score of each is its own score and that of the best way to the last stack, so
  that it is the score of the best derivation through it; and the successors of a hypothesis are the winners of its connected extensions.
\<close>

theorem GetForwardBackwardSearchGraph_exact:
  assumes "search_ok ps shape" "ps_nBestIsEnabled ps" "\<forall>i. \<not> ps_timeout ps i" "pb_ProcessSentence ps = Inr s" "0 < words_of ps"
  shows "\<exists>hs out scores. GetForwardBackwardSearchGraph (ss_stacks s) = Inr (hs, out, scores) \<and> distinct hs
    \<and> set hs = {h \<in> set (stack_hypos (ss_stacks s)). 0 < ph_id h \<and> reaches_end (ss_stacks s) h}
    \<and> list_all2 (\<lambda>h x. \<exists>es. completion (ss_stacks s) h es
          \<and> (\<forall>ds. completion (ss_stacks s) h ds \<longrightarrow> completion_score ds \<le> completion_score es)
          \<and> x = pb_GetScore h + Fin (completion_score es)) hs scores
    \<and> (\<forall>p \<in> set (stack_hypos (ss_stacks s)). out (ph_id p)
          = {ph_id g | g e. reaches_end (ss_stacks s) g \<and> edge_at (ss_stacks s) e g \<and> ph_prev e = Some p})"
proof -
  note g = search.forward_graph_of_search [OF searchI [OF assms(1)] assms(2-5)]
  show ?thesis
    using forward_graph.GetForwardBackward_result [OF g] unfolding forward_graph.is_best_def [OF g] conj_assoc .
qed

section \<open>Witnesses\<close>

lemma ex_nbest_words: "0 < words_of ex_nbest_search"
  by (simp add: ex_nbest_simps ex_search_simps)

interpretation example_forward: forward_graph "ss_stacks ex_nbest_state" 1
  using search.forward_graph_of_search [OF searchI [OF ex_nbest_ok(1)] _ _ ex_nbest_run(1) ex_nbest_words]
  by (simp add: ex_nbest_simps ex_search_simps)

text \<open>A hypothesis on the last of the three stacks.\<close>

lemma ex_nbest_last:
  "\<exists>h. h \<in> set (stack_hypos (ss_stacks ex_nbest_state)) \<and> 0 < ph_id h \<and> reaches_end (ss_stacks ex_nbest_state) h"
proof -
  let ?stacks = "ss_stacks ex_nbest_state"
  obtain h where h: "h \<in> set (hs_hypos (?stacks ! 2))" using ex_nbest_run(2) by (metis last_in_set)
  have last: "last ?stacks = ?stacks ! 2" using last_stack [of ?stacks 2] ex_nbest_graph(2) by simp
  have "completion ?stacks h []" using h last by simp
  moreover from this have "h \<in> set (stack_hypos ?stacks)" by (rule example_forward.live_in)
  moreover have "0 < ph_id h" using example_forward.later_id [of 2 h] h ex_nbest_graph(2) by (auto simp: example_forward.on_stack_def)
  ultimately show ?thesis unfolding reaches_end_def by blast
qed

theorem GetSearchGraph_exact_witness:
  "\<exists>s nodes n. pb_ProcessSentence ex_nbest_search = Inr s \<and> GetSearchGraph (ss_stacks s) = Inr nodes \<and> n \<in> set nodes
    \<and> gn_recombinationHypo n = None \<and> 0 < ph_id (gn_hypo n)
    \<and> (\<exists>es. completion (ss_stacks s) (gn_hypo n) es \<and> gn_fscore n = Fin (completion_score es))"
proof -
  obtain h where h: "h \<in> set (stack_hypos (ss_stacks ex_nbest_state))" "0 < ph_id h" "reaches_end (ss_stacks ex_nbest_state) h"
    using ex_nbest_last by blast
  have t: "\<forall>i. \<not> ps_timeout ex_nbest_search i" by (simp add: ex_nbest_simps)
  from GetSearchGraph_exact [OF ex_nbest_ok(1) ex_nbest_simps(15) t ex_nbest_run(1) ex_nbest_words]
  obtain nodes where nodes: "GetSearchGraph (ss_stacks ex_nbest_state) = Inr nodes"
    "map (\<lambda>n. (gn_recombinationHypo n, gn_hypo n)) nodes = concat (map (\<lambda>h. (None, h) # map (\<lambda>a. (Some h, a)) (arc_list h))
        (filter (\<lambda>h. ph_id h = 0 \<or> reaches_end (ss_stacks ex_nbest_state) h) (stack_hypos (ss_stacks ex_nbest_state))))"
    "\<forall>n \<in> set nodes. \<exists>h. h = (case gn_recombinationHypo n of None \<Rightarrow> gn_hypo n | Some w \<Rightarrow> w) \<and> (if reaches_end (ss_stacks ex_nbest_state) h
          then \<exists>es. completion (ss_stacks ex_nbest_state) h es \<and> (\<forall>ds. completion (ss_stacks ex_nbest_state) h ds \<longrightarrow> completion_score ds \<le> completion_score es)
            \<and> gn_fscore n = Fin (completion_score es) \<and> gn_forward n = (case es of [] \<Rightarrow> -1 | e # _ \<Rightarrow> int (ph_id e))
          else gn_fscore n = Fin 0 \<and> gn_forward n = 0)" by blast
  have "(None, h) \<in> set (map (\<lambda>n. (gn_recombinationHypo n, gn_hypo n)) nodes)" unfolding nodes(2) using h by auto
  then obtain n where n: "n \<in> set nodes" "gn_recombinationHypo n = None" "gn_hypo n = h" by auto
  then have "\<exists>es. completion (ss_stacks ex_nbest_state) h es \<and> gn_fscore n = Fin (completion_score es)"
    using bspec [OF nodes(3) n(1)] h(3) by auto
  then show ?thesis using ex_nbest_run(1) nodes(1) n h(2) by blast
qed

theorem GetForwardBackwardSearchGraph_exact_witness:
  "\<exists>s hs out scores. pb_ProcessSentence ex_nbest_search = Inr s
    \<and> GetForwardBackwardSearchGraph (ss_stacks s) = Inr (hs, out, scores) \<and> hs \<noteq> [] \<and> distinct hs \<and> length scores = length hs"
proof -
  have t: "\<forall>i. \<not> ps_timeout ex_nbest_search i" by (simp add: ex_nbest_simps)
  from GetForwardBackwardSearchGraph_exact [OF ex_nbest_ok(1) ex_nbest_simps(15) t ex_nbest_run(1) ex_nbest_words]
  obtain hs out scores where r: "GetForwardBackwardSearchGraph (ss_stacks ex_nbest_state) = Inr (hs, out, scores)" "distinct hs"
    "set hs = {h \<in> set (stack_hypos (ss_stacks ex_nbest_state)). 0 < ph_id h \<and> reaches_end (ss_stacks ex_nbest_state) h}"
    "length hs = length scores" by (auto dest: list_all2_lengthD)
  have "hs \<noteq> []" using r(3) ex_nbest_last by auto
  then show ?thesis using ex_nbest_run(1) r by (intro exI [of _ ex_nbest_state] exI [of _ hs] exI [of _ out] exI [of _ scores]) simp
qed

end
