(* ===== verification/LangModels.thy ===== *)
theory LangModels
  imports PhraseHypos
begin

text \<open>
  The n-gram language models of the phrase-based search (LM/Implementation.h, LM/Implementation.cpp): the score of a phrase,
  and the score of a hypothesis, which adds the n-grams that overlap a phrase boundary.

  The n-gram probabilities are a parameter: GetValueForgotState gives the logarithm of the probability of the last word
  of a context, whether the word is unknown, and the state it leaves. GetValueGivenState and GetState are the
  implementations of the base class, which ignore the state they get.
\<close>

section \<open>Implementations\<close>

record 'l lm_impl =
  im_order :: nat
  im_start :: word
  im_end :: word
  im_value :: "word list \<Rightarrow> (real \<times> bool) \<times> 'l"
  im_null :: 'l
  im_begin :: 'l
  im_new :: 'l

abbreviation GetNGramOrder :: "'l lm_impl \<Rightarrow> nat" where
  "GetNGramOrder \<equiv> im_order"

text \<open>NewState copies the state it gets; im\_new is the state it makes of NULL.\<close>

definition NewState :: "'l lm_impl \<Rightarrow> 'l option \<Rightarrow> 'l" where
  "NewState lm from = (case from of None \<Rightarrow> im_new lm | Some s \<Rightarrow> s)"

definition GetValueGivenState :: "'l lm_impl \<Rightarrow> word list \<Rightarrow> 'l \<Rightarrow> (real \<times> bool) \<times> 'l" where
  "GetValueGivenState lm contextFactor state = im_value lm contextFactor"

definition GetState :: "'l lm_impl \<Rightarrow> word list \<Rightarrow> 'l \<Rightarrow> 'l" where
  "GetState lm contextFactor state = snd (im_value lm contextFactor)"

text \<open>The loop that moves every entry but the first one down.\<close>

definition shift_context :: "nat \<Rightarrow> word list \<Rightarrow> word list result" where
  "shift_context n contextFactor =
     rfold (\<lambda>i c. rbind (array_get c (i + 1)) (array_set c i)) [0..<sz_sub n 1] contextFactor"

definition ShiftOrPush :: "nat \<Rightarrow> word list \<Rightarrow> word \<Rightarrow> word list result" where
  "ShiftOrPush n contextFactor w =
     (if length contextFactor < n then Inr (contextFactor @ [w])
      else rbind (shift_context n contextFactor) (\<lambda>c. array_set c (sz_sub n 1) w))"

section \<open>The score of a phrase\<close>

text \<open>
  The context, the state, the full score, the score of the complete n-grams and the number of unknown words.
  A sentence start after the first position aborts.
\<close>

definition CalcScore_step :: "'l lm_impl \<Rightarrow> phrase \<Rightarrow> nat \<Rightarrow> word list \<times> 'l \<times> real \<times> real \<times> nat
    \<Rightarrow> (word list \<times> 'l \<times> real \<times> real \<times> nat) result" where
  "CalcScore_step lm phrase currPos = (\<lambda>(contextFactor, state, fullScore, ngramScore, oovCount).
     rbind (array_get phrase currPos) (\<lambda>w.
       if IsNonTerminal w
       then if contextFactor \<noteq> [] then Inr ([], im_null lm, fullScore, ngramScore, oovCount)
            else Inr (contextFactor, state, fullScore, ngramScore, oovCount)
       else rbind (ShiftOrPush (GetNGramOrder lm) contextFactor w) (\<lambda>ctx.
            rbind (check (length ctx \<le> GetNGramOrder lm)) (\<lambda>_.
              if word_eq w (im_start lm)
              then if currPos \<noteq> 0 then Inl Aborted else Inr (ctx, state, fullScore, ngramScore, oovCount)
              else case GetValueGivenState lm ctx state of ((score, unknown), st) \<Rightarrow>
                Inr (ctx, st, fullScore + score, if length ctx = GetNGramOrder lm then ngramScore + score else ngramScore,
                  if unknown then oovCount + 1 else oovCount)))))"

definition impl_CalcScore :: "'l lm_impl \<Rightarrow> phrase \<Rightarrow> (real \<times> real \<times> nat) result" where
  "impl_CalcScore lm phrase =
     (if phrase = [] then Inr (0, 0, 0)
      else rbind (rfold (CalcScore_step lm phrase) [0..<length phrase]
             ([], NewState lm (Some (if word_eq (phrase ! 0) (im_start lm) then im_begin lm else im_null lm)), 0, 0, 0))
           (\<lambda>(ctx, state, fullScore, ngramScore, oovCount). Inr (fullScore, ngramScore, oovCount)))"

section \<open>The score of a hypothesis\<close>

text \<open>A word of the output, or the sentence start before it.\<close>

definition context_word :: "'l lm_impl \<Rightarrow> 's pb_hypo \<Rightarrow> int \<Rightarrow> word result" where
  "context_word lm h currPos = (if currPos \<ge> 0 then pb_GetWord (nat currPos) h else Inr (im_start lm))"

definition first_context :: "'l lm_impl \<Rightarrow> 's pb_hypo \<Rightarrow> nat \<Rightarrow> word list result" where
  "first_context lm h startPos =
     rmap (context_word lm h) [to_int32 startPos - to_int32 (GetNGramOrder lm) + 1..to_int32 startPos]"

text \<open>The shifted context with a new last word; back is undefined on an empty vector.\<close>

definition next_context :: "'l lm_impl \<Rightarrow> 's pb_hypo \<Rightarrow> nat \<Rightarrow> word list \<Rightarrow> word list result" where
  "next_context lm h currPos contextFactor =
     rbind (shift_context (GetNGramOrder lm) contextFactor) (\<lambda>c.
     rbind (pb_GetWord currPos h) (\<lambda>w. array_set c (length c - 1) w))"

definition score_next :: "'l lm_impl \<Rightarrow> 's pb_hypo \<Rightarrow> nat \<Rightarrow> word list \<times> 'l \<times> real \<Rightarrow> (word list \<times> 'l \<times> real) result" where
  "score_next lm h currPos = (\<lambda>(contextFactor, res, lmScore).
     rbind (next_context lm h currPos contextFactor) (\<lambda>ctx.
       case GetValueGivenState lm ctx res of ((score, unknown), st) \<Rightarrow> Inr (ctx, st, lmScore + score)))"

text \<open>The context of the sentence end: its last entry first, then the words before it.\<close>

definition end_context :: "'l lm_impl \<Rightarrow> 's pb_hypo \<Rightarrow> word list \<Rightarrow> word list result" where
  "end_context lm h contextFactor =
     (let n = GetNGramOrder lm; hypoSize = sz_add (GetEndPos (ph_targetRange h)) 1
      in rbind (array_set contextFactor (length contextFactor - 1) (im_end lm)) (\<lambda>c.
         rfold (\<lambda>i c. rbind (context_word lm h (to_int32 (sz_add (sz_sub hypoSize n) (i + 1)))) (array_set c i))
           [0..<n - 1] c))"

definition finish_score :: "'l lm_impl \<Rightarrow> 's pb_hypo \<Rightarrow> nat \<Rightarrow> word list \<times> 'l \<times> real \<Rightarrow> ('l \<times> real) result" where
  "finish_score lm h endPos = (\<lambda>(contextFactor, res, lmScore).
     let currEndPos = GetEndPos (ph_targetRange h) in
     if IsComplete (ph_completed h)
     then rbind (end_context lm h contextFactor) (\<lambda>ctx.
            case im_value lm ctx of ((score, unknown), st) \<Rightarrow> Inr (st, lmScore + score))
     else if endPos < currEndPos
     then rbind (rfold (next_context lm h) [endPos + 1..<Suc currEndPos] contextFactor) (\<lambda>ctx.
            Inr (GetState lm ctx res, lmScore))
     else Inr (res, lmScore))"

text \<open>The score of the n-grams that a hypothesis adds, and the state after it.\<close>

definition boundary_score :: "'l lm_impl \<Rightarrow> 's pb_hypo \<Rightarrow> 'l option \<Rightarrow> ('l \<times> real) result" where
  "boundary_score lm h ps =
     (let startPos = GetStartPos (ph_targetRange h); currEndPos = GetEndPos (ph_targetRange h)
      in rbind (first_context lm h startPos) (\<lambda>ctx.
         case (case ps of Some _ \<Rightarrow> GetValueGivenState lm ctx (NewState lm ps) | None \<Rightarrow> im_value lm ctx) of ((score, unknown), st) \<Rightarrow>
         let endPos = min (sz_sub (sz_add startPos (GetNGramOrder lm)) 2) currEndPos
         in rbind (rfold (score_next lm h) [startPos + 1..<Suc endPos] (ctx, st, score)) (finish_score lm h endPos)))"

definition impl_Evaluate :: "'l lm_impl \<Rightarrow> score_index \<Rightarrow> score_producer \<Rightarrow> bool \<Rightarrow> 's pb_hypo
    \<Rightarrow> 'l option \<Rightarrow> real list \<Rightarrow> ('l option \<times> real list) result" where
  "impl_Evaluate lm sim feature oovEnabled h ps out =
     (if GetNGramOrder lm \<le> 1 then Inr (None, out)
      else if range_GetNumWordsCovered (ph_targetRange h) = 0
      then Inr (case ps of Some _ \<Rightarrow> Some (NewState lm ps) | None \<Rightarrow> None, out)
      else rbind (boundary_score lm h ps) (\<lambda>(res, lmScore).
           rbind (if oovEnabled then PlusEquals_scores sim feature [lmScore, 0] out
                  else PlusEquals_one sim feature lmScore out) (\<lambda>out'. Inr (Some res, out'))))"

end
