(* ===== verification/ChartLangModels.thy ===== *)
theory ChartLangModels
  imports LangModels
begin

text \<open>
  The n-gram language models of the chart decoder (LM/Implementation.cpp): the state of a hypothesis, which holds the words
  at both ends of its output and the score of the words whose context is not complete, and the score of a hypothesis, which is
  put together from its rule and the states of the hypotheses of its non-terminals.

  The states of all feature functions of a hypothesis have this type: the static casts of the source are not modelled.
\<close>

section \<open>The state\<close>

record 'l chart_lm_state =
  cs_prefixScore :: real
  cs_rightContext :: 'l
  cs_prefix :: phrase
  cs_suffix :: phrase
  cs_numTargetTerminals :: nat
  cs_range :: words_range

type_synonym 'l lm_hypo = "'l chart_lm_state hypo"

text \<open>The state of a feature function; the source reads through the pointer without a check.\<close>

definition GetFFState :: "nat \<Rightarrow> 'l lm_hypo \<Rightarrow> 'l chart_lm_state result" where
  "GetFFState featureID h = rbind (array_get (h_states h) featureID) (\<lambda>s. case s of None \<Rightarrow> Inl NullPointer | Some st \<Rightarrow> Inr st)"

text \<open>The hypothesis of the non-terminal at a position of the target phrase.\<close>

definition previous_at :: "target_phrase \<Rightarrow> 'a list \<Rightarrow> nat \<Rightarrow> 'a result" where
  "previous_at tp prev pos = rbind (array_get (BuildNonTermIndexMap (tp_align tp)) pos) (array_get prev)"

text \<open>
  The loops of CalcPrefix and CalcSuffix over the positions of the rule: subs are the calls on the previous hypotheses, add
  puts a word into the phrase. The size is decremented after a word and tested after every position.
\<close>

fun edge_loop :: "(phrase \<Rightarrow> word \<Rightarrow> phrase) \<Rightarrow> (phrase \<Rightarrow> nat \<Rightarrow> (phrase \<times> nat) result) list \<Rightarrow> target_phrase
    \<Rightarrow> nat list \<Rightarrow> phrase \<Rightarrow> nat \<Rightarrow> (phrase \<times> nat) result" where
  "edge_loop add subs tp [] p k = Inr (p, k)"
| "edge_loop add subs tp (pos # rest) p k =
     rbind (array_get (tp_words tp) pos) (\<lambda>w.
     rbind (if IsNonTerminal w then rbind (previous_at tp subs pos) (\<lambda>sub. sub p k)
            else Inr (add p w, sz_sub k 1)) (\<lambda>(p', k').
       if k' = 0 then Inr (p', k') else edge_loop add subs tp rest p' k'))"

fun CalcPrefix :: "nat \<Rightarrow> 'l lm_hypo \<Rightarrow> phrase \<Rightarrow> nat \<Rightarrow> (phrase \<times> nat) result" where
  "CalcPrefix featureID (Hypo i tp r st bd sc arcs prev win) p k =
     edge_loop (\<lambda>p w. p @ [w])
       (map (\<lambda>h p k. rbind (GetFFState featureID h) (\<lambda>_. CalcPrefix featureID h p k)) prev)
       tp [0..<length (tp_words tp)] p k"

text \<open>A hypothesis whose prefix is its whole output: the end of the prefix is copied.\<close>

definition copy_prefix :: "phrase \<Rightarrow> phrase \<Rightarrow> nat \<Rightarrow> (phrase \<times> nat) result" where
  "copy_prefix contextPrefix p k =
     (let maxCount = min (length contextPrefix) k
      in rbind (rfold (\<lambda>ind (p, pos). rbind (array_get contextPrefix pos) (\<lambda>w. Inr (PrependWord p w, sz_sub pos 1)))
                 [0..<maxCount] (p, sz_sub (length contextPrefix) 1)) (\<lambda>(p', pos). Inr (p', k - maxCount)))"

fun CalcSuffix :: "nat \<Rightarrow> phrase \<Rightarrow> nat \<Rightarrow> 'l lm_hypo \<Rightarrow> phrase \<Rightarrow> nat \<Rightarrow> (phrase \<times> nat) result" where
  "CalcSuffix featureID contextPrefix numTargetTerminals (Hypo i tp r st bd sc arcs prev win) p k =
     rbind (check (length contextPrefix \<le> numTargetTerminals)) (\<lambda>_.
       if length contextPrefix = numTargetTerminals then copy_prefix contextPrefix p k
       else edge_loop PrependWord
         (map (\<lambda>h p k. rbind (GetFFState featureID h) (\<lambda>s. CalcSuffix featureID (cs_prefix s) (cs_numTargetTerminals s) h p k)) prev)
         tp (rev [0..<length (tp_words tp)]) p k)"

definition count_terminals :: "nat \<Rightarrow> 'l lm_hypo \<Rightarrow> nat result" where
  "count_terminals featureID h =
     rfold (\<lambda>g m. rbind (GetFFState featureID g) (\<lambda>s. Inr (m + cs_numTargetTerminals s))) (h_prev h) (GetNumTerminals (tp_words (h_tp h)))"

text \<open>The state before Set gives it the prefix score and the right context.\<close>

definition LanguageModelChartState :: "'l lm_hypo \<Rightarrow> nat \<Rightarrow> nat \<Rightarrow> (real \<Rightarrow> 'l \<Rightarrow> 'l chart_lm_state) result" where
  "LanguageModelChartState h featureID order =
     rbind (count_terminals featureID h) (\<lambda>numTargetTerminals.
     rbind (CalcPrefix featureID h [] (sz_sub order 1)) (\<lambda>(prefix, _).
     rbind (CalcSuffix featureID prefix numTargetTerminals h [] (sz_sub order 1)) (\<lambda>(suffix, _).
       Inr (\<lambda>prefixScore rightState. \<lparr>cs_prefixScore = prefixScore, cs_rightContext = rightState, cs_prefix = prefix,
         cs_suffix = suffix, cs_numTargetTerminals = numTargetTerminals, cs_range = h_range h\<rparr>))))"

text \<open>
  The comparison of states, which decides whether hypotheses recombine; cmp compares the states of the model and inputSize is
  the number of words of the source.
\<close>

definition chart_state_Compare :: "('l \<Rightarrow> 'l \<Rightarrow> int) \<Rightarrow> nat \<Rightarrow> 'l chart_lm_state \<Rightarrow> 'l chart_lm_state \<Rightarrow> int" where
  "chart_state_Compare cmp inputSize s other =
     (let ret1 = (if GetStartPos (cs_range s) > 0 then Phrase_Compare (cs_prefix s) (cs_prefix other) else 0)
      in if ret1 \<noteq> 0 then ret1
         else if GetEndPos (cs_range s) < sz_sub inputSize 1 then cmp (cs_rightContext other) (cs_rightContext s) else 0)"

section \<open>The score\<close>

text \<open>A natural logarithm as a logarithm of base 10 (Util.h).\<close>

definition UntransformLMScore :: "real \<Rightarrow> real" where
  "UntransformLMScore logNScore = logNScore / 2.30258509299405"

definition updateChartScore :: "'l lm_impl \<Rightarrow> real \<Rightarrow> nat \<Rightarrow> real \<times> real \<Rightarrow> real \<times> real" where
  "updateChartScore lm score wordPos = (\<lambda>(prefixScore, finalizedScore).
     if wordPos < GetNGramOrder lm then (prefixScore + score, finalizedScore) else (prefixScore, finalizedScore + score))"

text \<open>The variables of the loop over the rule.\<close>

record 'l chart_lm_run =
  cr_context :: "word list"
  cr_state :: 'l
  cr_scores :: "real \<times> real"
  cr_wordPos :: nat

definition push_word :: "'l lm_impl \<Rightarrow> word \<Rightarrow> 'l chart_lm_run \<Rightarrow> 'l chart_lm_run result" where
  "push_word lm w run = rbind (ShiftOrPush (GetNGramOrder lm) (cr_context run) w) (\<lambda>ctx. Inr (run\<lparr>cr_context := ctx\<rparr>))"

text \<open>The word that has just been pushed is scored.\<close>

definition score_pushed :: "'l lm_impl \<Rightarrow> 'l chart_lm_run \<Rightarrow> 'l chart_lm_run" where
  "score_pushed lm run =
     (case GetValueGivenState lm (cr_context run) (cr_state run) of ((score, unknown), st) \<Rightarrow>
        run\<lparr>cr_state := st, cr_wordPos := cr_wordPos run + 1,
          cr_scores := updateChartScore lm (UntransformLMScore score) (cr_wordPos run + 1) (cr_scores run)\<rparr>)"

definition chart_terminal :: "'l lm_impl \<Rightarrow> nat \<Rightarrow> word \<Rightarrow> 'l chart_lm_run \<Rightarrow> 'l chart_lm_run result" where
  "chart_terminal lm phrasePos w run =
     rbind (push_word lm w run) (\<lambda>run.
       if word_eq w (im_start lm)
       then rbind (check (phrasePos = 0)) (\<lambda>_. Inr (run\<lparr>cr_state := im_begin lm\<rparr>))
       else Inr (score_pushed lm run))"

text \<open>The first component of the scores of the feature in the breakdown of a hypothesis.\<close>

definition lm_score_of :: "score_index \<Rightarrow> score_producer \<Rightarrow> 'l lm_hypo \<Rightarrow> real result" where
  "lm_score_of sim scorer h = rbind (GetScoresForProducer sim scorer (h_breakdown h)) (\<lambda>ss. array_get ss 0)"

text \<open>A rule that starts with a non-terminal: everything is copied, then the suffix is pushed.\<close>

definition chart_first_nonterminal :: "'l lm_impl \<Rightarrow> score_index \<Rightarrow> score_producer \<Rightarrow> 'l lm_hypo \<Rightarrow> 'l chart_lm_state
    \<Rightarrow> 'l chart_lm_run \<Rightarrow> 'l chart_lm_run result" where
  "chart_first_nonterminal lm sim scorer prevHypo prevState run =
     rbind (lm_score_of sim scorer prevHypo) (\<lambda>full.
     let suffix = cs_suffix prevState;
         diff = to_int32 (sz_sub (length suffix) (sz_sub (GetNGramOrder lm) 1));
         suffixPos = (if diff < 0 then 0 else nat diff)
     in rfold (\<lambda>pos run. rbind (array_get suffix pos) (\<lambda>w. rbind (push_word lm w run) (\<lambda>run. Inr (run\<lparr>cr_wordPos := cr_wordPos run + 1\<rparr>))))
          [suffixPos..<length suffix]
          (run\<lparr>cr_scores := (cs_prefixScore prevState, full - cs_prefixScore prevState), cr_state := cs_rightContext prevState\<rparr>))"

text \<open>
  A non-terminal inside a rule: the words of its prefix are scored, and the score of a larger output is added with the
  state and the words of its end.
\<close>

definition chart_large_phrase :: "'l lm_impl \<Rightarrow> score_index \<Rightarrow> score_producer \<Rightarrow> 'l lm_hypo \<Rightarrow> 'l chart_lm_state
    \<Rightarrow> 'l chart_lm_run \<Rightarrow> 'l chart_lm_run result" where
  "chart_large_phrase lm sim scorer prevHypo prevState run =
     rbind (lm_score_of sim scorer prevHypo) (\<lambda>full.
     let subPhraseLength = cs_numTargetTerminals prevState; window = sz_sub (GetNGramOrder lm) 1; suffix = cs_suffix prevState;
         remainingWords = (if subPhraseLength - window > window then window else subPhraseLength - window)
     in rbind (rfold (\<lambda>pos run. rbind (array_get suffix pos) (\<lambda>w. push_word lm w run)) [sz_sub (length suffix) remainingWords..<length suffix]
          (run\<lparr>cr_scores := (fst (cr_scores run), snd (cr_scores run) + (full - cs_prefixScore prevState)), cr_state := cs_rightContext prevState\<rparr>))
          (\<lambda>run. Inr (run\<lparr>cr_wordPos := cr_wordPos run + subPhraseLength\<rparr>)))"

definition chart_inner_nonterminal :: "'l lm_impl \<Rightarrow> score_index \<Rightarrow> score_producer \<Rightarrow> 'l lm_hypo \<Rightarrow> 'l chart_lm_state
    \<Rightarrow> 'l chart_lm_run \<Rightarrow> 'l chart_lm_run result" where
  "chart_inner_nonterminal lm sim scorer prevHypo prevState run =
     rbind (rfold (\<lambda>prefixPos run. rbind (array_get (cs_prefix prevState) prefixPos) (\<lambda>w.
              rbind (push_word lm w run) (\<lambda>run. Inr (score_pushed lm run))))
        [0..<min (sz_sub (GetNGramOrder lm) 1) (cs_numTargetTerminals prevState)] run) (\<lambda>run.
       if cs_numTargetTerminals prevState > sz_sub (GetNGramOrder lm) 1 then chart_large_phrase lm sim scorer prevHypo prevState run else Inr run)"

definition chart_position :: "'l lm_impl \<Rightarrow> score_index \<Rightarrow> score_producer \<Rightarrow> nat \<Rightarrow> 'l lm_hypo \<Rightarrow> nat
    \<Rightarrow> 'l chart_lm_run \<Rightarrow> 'l chart_lm_run result" where
  "chart_position lm sim scorer featureID h phrasePos run =
     rbind (array_get (tp_words (h_tp h)) phrasePos) (\<lambda>w.
       if \<not> IsNonTerminal w then chart_terminal lm phrasePos w run
       else rbind (previous_at (h_tp h) (h_prev h) phrasePos) (\<lambda>prevHypo.
            rbind (GetFFState featureID prevHypo) (\<lambda>prevState.
              if phrasePos = 0 then chart_first_nonterminal lm sim scorer prevHypo prevState run
              else chart_inner_nonterminal lm sim scorer prevHypo prevState run)))"

definition EvaluateChart :: "'l lm_impl \<Rightarrow> score_index \<Rightarrow> score_producer \<Rightarrow> nat \<Rightarrow> 'l lm_hypo \<Rightarrow> real list
    \<Rightarrow> ('l chart_lm_state \<times> real list) result" where
  "EvaluateChart lm sim scorer featureID h out =
     rbind (LanguageModelChartState h featureID (GetNGramOrder lm)) (\<lambda>set.
     rbind (rfold (chart_position lm sim scorer featureID h) [0..<length (tp_words (h_tp h))]
        \<lparr>cr_context = [], cr_state = NewState lm (Some (im_null lm)), cr_scores = (0, 0), cr_wordPos = 0\<rparr>) (\<lambda>run.
     rbind (Assign_one sim scorer (fst (cr_scores run) + snd (cr_scores run)) out) (\<lambda>out'.
       Inr (set (fst (cr_scores run)) (cr_state run), out'))))"

end
