(* ===== verification/LangModelProps.thy ===== *)
theory LangModelProps
  imports LangModels
begin

text \<open>
  What the n-gram language models of the phrase-based search compute: the scores of a phrase are the sums over its
  n-grams, and the scores of the phrases and of their boundaries add up to the score of the whole sentence.
\<close>

section \<open>Contexts\<close>

lemma shift_loop:
  "k < length c \<Longrightarrow> rfold (\<lambda>i c. rbind (array_get c (i + 1)) (array_set c i)) [0..<k] c = Inr (take k (tl c) @ drop k c)"
proof (induction k)
  case (Suc k)
  have "take k (tl c) @ (drop k c)[0 := c ! Suc k] = take (Suc k) (tl c) @ drop (Suc k) c"
    using Suc.prems by (simp add: take_Suc_conv_app_nth nth_tl Cons_nth_drop_Suc [symmetric])
  moreover have "(take k (tl c) @ drop k c) ! Suc k = c ! Suc k" using Suc.prems by (simp add: nth_append)
  moreover have "(take k (tl c) @ drop k c)[k := x] = take k (tl c) @ (drop k c)[0 := x]" for x
    using Suc.prems by (simp add: list_update_append)
  ultimately show ?case using Suc by (simp add: rfold_append)
qed simp

lemma shift_context_eq:
  assumes "0 < n" "n < SIZE_RANGE" "length c = n"
  shows "shift_context n c = Inr (tl c @ [last c])"
proof -
  have "take (n - 1) (tl c) @ drop (n - 1) c = tl c @ [last c]"
    using assms by (cases c rule: rev_cases) auto
  then show ?thesis using assms shift_loop [of "n - 1" c] by (simp add: shift_context_def del: One_nat_def)
qed

lemma ShiftOrPush_eq:
  assumes "0 < n" "n < SIZE_RANGE" "length c \<le> n"
  shows "ShiftOrPush n c w = Inr ((if length c < n then c else tl c) @ [w])"
  using assms by (cases "length c < n") (auto simp: ShiftOrPush_def shift_context_eq list_update_append)

lemma next_context_eq:
  assumes "0 < GetNGramOrder lm" "GetNGramOrder lm < SIZE_RANGE" "length c = GetNGramOrder lm" "pb_GetWord pos h = Inr w"
  shows "next_context lm h pos c = Inr (tl c @ [w])"
  using assms by (auto simp: next_context_def shift_context_eq list_update_append)

section \<open>The score of a phrase\<close>

text \<open>The last n words before a position since the last non-terminal.\<close>

definition phrase_context :: "nat \<Rightarrow> phrase \<Rightarrow> nat \<Rightarrow> word list" where
  "phrase_context n p k = rev (take n (takeWhile (\<lambda>w. \<not> IsNonTerminal w) (rev (take k p))))"

definition ngram_prob :: "'l lm_impl \<Rightarrow> word list \<Rightarrow> real" where
  "ngram_prob lm ctx = fst (fst (im_value lm ctx))"

text \<open>The positions of a phrase that are scored: no non-terminal and no sentence start.\<close>

definition scored_positions :: "'l lm_impl \<Rightarrow> phrase \<Rightarrow> nat \<Rightarrow> nat list" where
  "scored_positions lm p k = filter (\<lambda>i. \<not> IsNonTerminal (p ! i) \<and> \<not> word_eq (p ! i) (im_start lm)) [0..<k]"

definition full_positions :: "'l lm_impl \<Rightarrow> phrase \<Rightarrow> nat \<Rightarrow> nat list" where
  "full_positions lm p k = filter (\<lambda>i. length (phrase_context (im_order lm) p (Suc i)) = im_order lm) (scored_positions lm p k)"

definition unknown_positions :: "'l lm_impl \<Rightarrow> phrase \<Rightarrow> nat \<Rightarrow> nat list" where
  "unknown_positions lm p k = filter (\<lambda>i. snd (fst (im_value lm (phrase_context (im_order lm) p (Suc i))))) (scored_positions lm p k)"

definition context_sum :: "'l lm_impl \<Rightarrow> phrase \<Rightarrow> nat list \<Rightarrow> real" where
  "context_sum lm p is = (\<Sum>i\<leftarrow>is. ngram_prob lm (phrase_context (im_order lm) p (Suc i)))"

text \<open>A phrase with a sentence start after its first position.\<close>

definition late_start :: "'l lm_impl \<Rightarrow> phrase \<Rightarrow> nat \<Rightarrow> bool" where
  "late_start lm p k \<longleftrightarrow> (\<exists>i < k. 0 < i \<and> \<not> IsNonTerminal (p ! i) \<and> word_eq (p ! i) (im_start lm))"

lemma phrase_context_0 [simp]: "phrase_context n p 0 = []"
  by (simp add: phrase_context_def)

lemma phrase_context_length: "length (phrase_context n p k) \<le> n"
  by (simp add: phrase_context_def)

lemma phrase_context_Suc:
  assumes "k < length p" "0 < n"
  shows "phrase_context n p (Suc k) = (if IsNonTerminal (p ! k) then []
    else (if length (phrase_context n p k) < n then phrase_context n p k else tl (phrase_context n p k)) @ [p ! k])"
proof -
  let ?t = "takeWhile (\<lambda>w. \<not> IsNonTerminal w) (rev (take k p))"
  obtain m where m: "n = Suc m" using assms(2) by (cases n) auto
  have tl: "tl (rev xs) = rev (butlast xs)" for xs :: "word list" by (cases xs rule: rev_cases) auto
  have long: "tl (rev (take (Suc m) ?t)) = rev (take m ?t)" if "Suc m \<le> length ?t"
    unfolding tl using butlast_take [OF that] by simp
  show ?thesis
  proof (cases "length ?t < Suc m")
    case True
    then show ?thesis using assms(1) m by (simp add: phrase_context_def take_Suc_conv_app_nth)
  next
    case False
    then show ?thesis using assms(1) m long by (simp add: phrase_context_def take_Suc_conv_app_nth)
  qed
qed

lemma positions_Suc:
  "scored_positions lm p (Suc k) = scored_positions lm p k @ (if \<not> IsNonTerminal (p ! k) \<and> \<not> word_eq (p ! k) (im_start lm) then [k] else [])"
  by (simp add: scored_positions_def)

lemma late_start_Suc:
  "late_start lm p (Suc k) \<longleftrightarrow> late_start lm p k \<or> 0 < k \<and> \<not> IsNonTerminal (p ! k) \<and> word_eq (p ! k) (im_start lm)"
  by (auto simp: late_start_def less_Suc_eq)

text \<open>One step of the loop.\<close>

lemma CalcScore_step_eq:
  assumes n: "0 < im_order lm" "im_order lm < SIZE_RANGE" and k: "k < length p"
  defines "ctx \<equiv> phrase_context (im_order lm) p (Suc k)"
  shows "IsNonTerminal (p ! k) \<Longrightarrow> \<exists>s'. CalcScore_step lm p k (phrase_context (im_order lm) p k, s, f, g, c) = Inr (ctx, s', f, g, c)"
    and "\<not> IsNonTerminal (p ! k) \<Longrightarrow> word_eq (p ! k) (im_start lm) \<Longrightarrow>
      CalcScore_step lm p k (phrase_context (im_order lm) p k, s, f, g, c) = (if k \<noteq> 0 then Inl Aborted else Inr (ctx, s, f, g, c))"
    and "\<not> IsNonTerminal (p ! k) \<Longrightarrow> \<not> word_eq (p ! k) (im_start lm) \<Longrightarrow>
      \<exists>s'. CalcScore_step lm p k (phrase_context (im_order lm) p k, s, f, g, c) = Inr (ctx, s', f + ngram_prob lm ctx,
        if length ctx = im_order lm then g + ngram_prob lm ctx else g, if snd (fst (im_value lm ctx)) then c + 1 else c)"
proof -
  note eq = ShiftOrPush_eq [OF n phrase_context_length, of p k "p ! k"] and ctx = phrase_context_Suc [OF k n(1)]
  have push: "ShiftOrPush (im_order lm) (phrase_context (im_order lm) p k) (p ! k) = Inr ctx" if "\<not> IsNonTerminal (p ! k)"
    using that unfolding eq ctx_def ctx by simp
  have le: "length ctx \<le> im_order lm" unfolding ctx_def by (rule phrase_context_length)
  show "IsNonTerminal (p ! k) \<Longrightarrow> \<exists>s'. CalcScore_step lm p k (phrase_context (im_order lm) p k, s, f, g, c) = Inr (ctx, s', f, g, c)"
    using k ctx by (simp add: CalcScore_step_def ctx_def)
  show "\<not> IsNonTerminal (p ! k) \<Longrightarrow> word_eq (p ! k) (im_start lm) \<Longrightarrow>
      CalcScore_step lm p k (phrase_context (im_order lm) p k, s, f, g, c) = (if k \<noteq> 0 then Inl Aborted else Inr (ctx, s, f, g, c))"
    using k push le by (simp add: CalcScore_step_def)
  show "\<not> IsNonTerminal (p ! k) \<Longrightarrow> \<not> word_eq (p ! k) (im_start lm) \<Longrightarrow>
      \<exists>s'. CalcScore_step lm p k (phrase_context (im_order lm) p k, s, f, g, c) = Inr (ctx, s', f + ngram_prob lm ctx,
        if length ctx = im_order lm then g + ngram_prob lm ctx else g, if snd (fst (im_value lm ctx)) then c + 1 else c)"
    using k push le by (auto simp: CalcScore_step_def GetValueGivenState_def ngram_prob_def split: prod.splits)
qed

text \<open>The loop after k words.\<close>

lemma CalcScore_loop:
  assumes n: "0 < im_order lm" "im_order lm < SIZE_RANGE" and k: "k \<le> length p"
  shows "if late_start lm p k then rfold (CalcScore_step lm p) [0..<k] ([], s0, 0, 0, 0) = Inl Aborted
     else \<exists>s. rfold (CalcScore_step lm p) [0..<k] ([], s0, 0, 0, 0)
       = Inr (phrase_context (im_order lm) p k, s, context_sum lm p (scored_positions lm p k),
           context_sum lm p (full_positions lm p k), length (unknown_positions lm p k))"
  using k
proof (induction k)
  case 0
  then show ?case by (simp add: late_start_def context_sum_def scored_positions_def full_positions_def unknown_positions_def)
next
  case (Suc k)
  show ?case
  proof (cases "late_start lm p k")
    case True
    then show ?thesis using Suc by (simp add: rfold_append late_start_Suc)
  next
    case False
    then obtain s where s: "rfold (CalcScore_step lm p) [0..<k] ([], s0, 0, 0, 0)
       = Inr (phrase_context (im_order lm) p k, s, context_sum lm p (scored_positions lm p k),
           context_sum lm p (full_positions lm p k), length (unknown_positions lm p k))" using Suc by auto
    have step: "rfold (CalcScore_step lm p) [0..<Suc k] ([], s0, 0, 0, 0)
        = CalcScore_step lm p k (phrase_context (im_order lm) p k, s, context_sum lm p (scored_positions lm p k),
           context_sum lm p (full_positions lm p k), length (unknown_positions lm p k))"
      by (simp add: rfold_append s rbind_def split: sum.splits)
    have k: "k < length p" using Suc.prems by simp
    note one = CalcScore_step_eq [OF n k, of s "context_sum lm p (scored_positions lm p k)" "context_sum lm p (full_positions lm p k)"
        "length (unknown_positions lm p k)"]
    note defs = late_start_Suc positions_Suc full_positions_def unknown_positions_def context_sum_def
    consider "IsNonTerminal (p ! k)" | "\<not> IsNonTerminal (p ! k)" "word_eq (p ! k) (im_start lm)"
      | "\<not> IsNonTerminal (p ! k)" "\<not> word_eq (p ! k) (im_start lm)" by blast
    then show ?thesis
    proof cases
      case 1
      then show ?thesis using False one(1) unfolding step by (auto simp: defs)
    next
      case 2
      then show ?thesis using False one(2) unfolding step by (auto simp: defs)
    next
      case 3
      then show ?thesis using False one(3) [OF 3] unfolding step by (auto simp: defs)
    qed
  qed
qed

section \<open>The n-grams of a sentence\<close>

text \<open>The n words up to a position, with sentence starts before the first word.\<close>

definition padded_ngram :: "'l lm_impl \<Rightarrow> word list \<Rightarrow> nat \<Rightarrow> word list" where
  "padded_ngram lm ws pos = map (\<lambda>j. if j < 0 then im_start lm else ws ! nat j) [int pos - int (im_order lm) + 1..int pos]"

lemma padded_ngram_length [simp]: "length (padded_ngram lm ws pos) = im_order lm"
  by (simp add: padded_ngram_def)

lemma padded_ngram_Suc:
  assumes "0 < im_order lm"
  shows "padded_ngram lm ws (Suc pos) = tl (padded_ngram lm ws pos) @ [ws ! Suc pos]"
proof -
  let ?a = "int pos - int (im_order lm) + 1"
  have "[?a..int pos] = ?a # [?a + 1..int pos]" by (rule upto_rec1) (use assms in simp)
  moreover have "[?a + 1..int (Suc pos)] = [?a + 1..int pos] @ [int (Suc pos)]"
    using upto_rec2 [of "?a + 1" "int (Suc pos)"] assms by simp
  moreover have "int (Suc pos) - int (im_order lm) + 1 = ?a + 1" by simp
  ultimately show ?thesis unfolding padded_ngram_def by (simp add: nat_add_distrib)
qed

lemma padded_ngram_append: "pos < length ws \<Longrightarrow> padded_ngram lm (ws @ vs) pos = padded_ngram lm ws pos"
  by (auto simp: padded_ngram_def nth_append)

text \<open>Inside a phrase of words the contexts are n-grams of the sentence.\<close>

lemma phrase_context_terminal:
  assumes "list_all (\<lambda>w. \<not> IsNonTerminal w) p"
  shows "phrase_context n p k = drop (min k (length p) - n) (take k p)"
proof -
  have "takeWhile (\<lambda>w. \<not> IsNonTerminal w) (rev (take k p)) = rev (take k p)"
    using assms by (auto simp: takeWhile_eq_all_conv list_all_iff dest: in_set_takeD)
  then have "phrase_context n p k = rev (take n (rev (take k p)))" unfolding phrase_context_def by (rule arg_cong)
  also have "\<dots> = drop (min k (length p) - n) (take k p)" by (simp add: take_rev min.commute)
  finally show ?thesis .
qed

lemma phrase_context_padded:
  assumes "list_all (\<lambda>w. \<not> IsNonTerminal w) p" "i < length p" "im_order lm \<le> Suc i"
  shows "phrase_context (im_order lm) p (Suc i) = padded_ngram lm (ps @ p) (length ps + i)"
proof (rule nth_equalityI)
  show "length (phrase_context (im_order lm) p (Suc i)) = length (padded_ngram lm (ps @ p) (length ps + i))"
    using assms by (simp add: phrase_context_terminal)
  fix j assume "j < length (phrase_context (im_order lm) p (Suc i))"
  then have j: "j < im_order lm" using assms by (simp add: phrase_context_terminal)
  have pos: "int (length ps + i) - int (im_order lm) + 1 + int j = int (length ps + (Suc i - im_order lm + j))"
    using assms(3) by simp
  have "padded_ngram lm (ps @ p) (length ps + i) ! j = (ps @ p) ! nat (int (length ps + i) - int (im_order lm) + 1 + int j)"
    using j assms(3) by (simp add: padded_ngram_def nth_upto)
  also have "\<dots> = p ! (Suc i - im_order lm + j)" unfolding pos nat_int by (simp add: nth_append)
  also have "\<dots> = phrase_context (im_order lm) p (Suc i) ! j"
    using assms j by (simp add: phrase_context_terminal)
  finally show "phrase_context (im_order lm) p (Suc i) ! j = padded_ngram lm (ps @ p) (length ps + i) ! j" by simp
qed

section \<open>The score of the boundary\<close>

text \<open>What is known of a hypothesis whose target range is [a, e] and whose output is ws.\<close>

definition output_at :: "'s pb_hypo \<Rightarrow> word list \<Rightarrow> nat \<Rightarrow> nat \<Rightarrow> bool" where
  "output_at h ws a e \<longleftrightarrow> ph_targetRange h = WordsRange a e \<and> length ws = Suc e \<and> a \<le> e
     \<and> (\<forall>pos \<le> e. pb_GetWord pos h = Inr (ws ! pos))"

lemma context_word_eq: "output_at h ws a e \<Longrightarrow> j \<le> int e \<Longrightarrow> context_word lm h j = Inr (if j < 0 then im_start lm else ws ! nat j)"
  by (auto simp: output_at_def context_word_def)

lemma first_context_eq:
  assumes "output_at h ws a e" "a < 2 ^ 31" "im_order lm < 2 ^ 31"
  shows "first_context lm h a = Inr (padded_ngram lm ws a)"
  unfolding first_context_def padded_ngram_def to_int32_small [OF assms(2)] to_int32_small [OF assms(3)]
  using assms(1) by (intro rmap_Inr_map context_word_eq [OF assms(1)]) (auto simp: output_at_def)

lemma next_context_padded:
  assumes h: "output_at h ws a e" and n: "0 < im_order lm" "im_order lm < SIZE_RANGE" and "Suc pos \<le> e"
  shows "next_context lm h (Suc pos) (padded_ngram lm ws pos) = Inr (padded_ngram lm ws (Suc pos))"
  using next_context_eq [OF n padded_ngram_length, of "Suc pos" h "ws ! Suc pos"] h assms(4)
  by (simp add: padded_ngram_Suc [OF n(1)] output_at_def)

lemma score_loop:
  assumes h: "output_at h ws a e" and n: "0 < im_order lm" "im_order lm < SIZE_RANGE"
  shows "a + k \<le> e \<Longrightarrow> rfold (score_next lm h) [Suc a..<Suc (a + k)]
      (padded_ngram lm ws a, snd (im_value lm (padded_ngram lm ws a)), ngram_prob lm (padded_ngram lm ws a))
    = Inr (padded_ngram lm ws (a + k), snd (im_value lm (padded_ngram lm ws (a + k))), \<Sum>pos = a..a + k. ngram_prob lm (padded_ngram lm ws pos))"
proof (induction k)
  case (Suc k)
  have "[Suc a..<Suc (a + Suc k)] = [Suc a..<Suc (a + k)] @ [Suc (a + k)]" by simp
  then show ?case using Suc next_context_padded [OF h n, of "a + k"]
    by (simp add: rfold_append score_next_def GetValueGivenState_def ngram_prob_def split: prod.splits del: upt_Suc)
qed simp

lemma context_loop:
  assumes h: "output_at h ws a e" and n: "0 < im_order lm" "im_order lm < SIZE_RANGE"
  shows "b + k \<le> e \<Longrightarrow> rfold (next_context lm h) [Suc b..<Suc (b + k)] (padded_ngram lm ws b) = Inr (padded_ngram lm ws (b + k))"
proof (induction k)
  case (Suc k)
  have "[Suc b..<Suc (b + Suc k)] = [Suc b..<Suc (b + k)] @ [Suc (b + k)]" by simp
  then show ?case using Suc next_context_padded [OF h n, of "b + k"] by (simp add: rfold_append del: upt_Suc)
qed simp

text \<open>The positions of the last context are computed modulo 2 ^ 64 and converted to int.\<close>

lemma to_int32_difference:
  assumes "a < 2 ^ 31" "b < 2 ^ 31" "k \<le> b"
  shows "to_int32 (sz_add (sz_sub a b) k) = int a - int b + int k"
proof -
  have range: "- (2 ^ 31) \<le> int a - int b + int k" "int a - int b + int k < 2 ^ 31" using assms by auto
  have b: "b mod SIZE_RANGE = b" using assms(2) by (simp add: SIZE_RANGE_def)
  have size: "int SIZE_RANGE = 2 ^ 64" by (simp add: SIZE_RANGE_def)
  have "int (sz_sub a b) = (int a - int b) mod 2 ^ 64"
    unfolding sz_sub_def b of_nat_mod size of_nat_add
    using assms(2) mod_add_self2 [of "int a - int b" "2 ^ 64"] by (simp add: SIZE_RANGE_def of_nat_diff algebra_simps)
  then have "int (sz_add (sz_sub a b) k) = ((int a - int b) mod 2 ^ 64 + int k) mod 2 ^ 64"
    by (simp add: sz_add_def SIZE_RANGE_def zmod_int)
  also have "\<dots> = (int a - int b + int k) mod 2 ^ 64" by (rule mod_add_left_eq)
  finally have "to_int32 (sz_add (sz_sub a b) k) = ((int a - int b + int k) mod 2 ^ 64 + 2 ^ 31) mod 2 ^ 32 - 2 ^ 31"
    by (simp add: to_int32_def)
  also have "((int a - int b + int k) mod 2 ^ 64 + 2 ^ 31) mod 2 ^ 32 = ((int a - int b + int k) + 2 ^ 31) mod 2 ^ 32"
  proof -
    have "(2 :: int) ^ 32 dvd 2 ^ 64" by (rule le_imp_power_dvd) simp
    then have "(int a - int b + int k) mod 2 ^ 64 mod 2 ^ 32 = (int a - int b + int k) mod 2 ^ 32" by (rule mod_mod_cancel)
    then show ?thesis by (metis mod_add_left_eq)
  qed
  also have "\<dots> = (int a - int b + int k) + 2 ^ 31" using range by (intro mod_pos_pos_trivial) auto
  finally show ?thesis by simp
qed

lemma fill_loop:
  assumes "\<And>i. i < k \<Longrightarrow> f i = Inr (g i)"
  shows "k \<le> length c \<Longrightarrow> rfold (\<lambda>i c. rbind (f i) (array_set c i)) [0..<k] c = Inr (map g [0..<k] @ drop k c)"
  using assms
proof (induction k)
  case (Suc k)
  then show ?case by (simp add: rfold_append list_update_append Cons_nth_drop_Suc [symmetric])
qed simp

lemma end_context_eq:
  assumes h: "output_at h ws a e" and n: "1 < im_order lm" "im_order lm < 2 ^ 31" and e: "Suc e < 2 ^ 31"
    and c: "length c = im_order lm"
  shows "end_context lm h c = Inr (padded_ngram lm (ws @ [im_end lm]) (Suc e))"
proof -
  let ?n = "im_order lm"
  let ?g = "\<lambda>i. if int (Suc e) - int ?n + int (i + 1) < 0 then im_start lm else ws ! nat (int (Suc e) - int ?n + int (i + 1))"
  have pos: "sz_add (GetEndPos (ph_targetRange h)) 1 = Suc e" using h e by (simp add: output_at_def SIZE_RANGE_def)
  have word: "context_word lm h (to_int32 (sz_add (sz_sub (Suc e) ?n) (i + 1))) = Inr (?g i)" if "i < ?n - 1" for i
  proof -
    have "i + 1 \<le> ?n" using that by simp
    then have "to_int32 (sz_add (sz_sub (Suc e) ?n) (i + 1)) = int (Suc e) - int ?n + int (i + 1)" by (rule to_int32_difference [OF e n(2)])
    moreover have "int (Suc e) - int ?n + int (i + 1) \<le> int e" using that by simp
    ultimately show ?thesis by (simp only: context_word_eq [OF h])
  qed
  have fill: "rfold (\<lambda>i c. rbind (context_word lm h (to_int32 (sz_add (sz_sub (Suc e) ?n) (i + 1)))) (array_set c i)) [0..<?n - 1]
      (c[?n - 1 := im_end lm]) = Inr (map ?g [0..<?n - 1] @ drop (?n - 1) (c[?n - 1 := im_end lm]))"
    by (rule fill_loop) (use word c in auto)
  have "drop (?n - 1) (c[?n - 1 := im_end lm]) = [im_end lm]" 
  proof (cases c rule: rev_cases)
    case (snoc ys y)
    then have "?n - 1 = length ys" using c by simp
    then show ?thesis using snoc by (simp only: list_update_length) simp
  qed (use c n(1) in simp)
  moreover have "map ?g [0..<?n - 1] @ [im_end lm] = padded_ngram lm (ws @ [im_end lm]) (Suc e)"
  proof (rule nth_equalityI)
    fix j assume "j < length (map ?g [0..<?n - 1] @ [im_end lm])"
    then have j: "j < ?n" using n(1) by simp
    have "padded_ngram lm (ws @ [im_end lm]) (Suc e) ! j = (let p = int (Suc e) - int ?n + 1 + int j in if p < 0 then im_start lm else (ws @ [im_end lm]) ! nat p)"
      using j by (simp add: padded_ngram_def nth_upto Let_def)
    then show "(map ?g [0..<?n - 1] @ [im_end lm]) ! j = padded_ngram lm (ws @ [im_end lm]) (Suc e) ! j"
      using j n(1) h by (cases "j = ?n - 1") (auto simp: nth_append output_at_def Let_def algebra_simps nat_less_iff)
  qed (use n(1) in simp)
  ultimately show ?thesis using fill c n(1) pos by (simp add: end_context_def Let_def)
qed

text \<open>The state and the score after a hypothesis, whatever state the predecessor left.\<close>

definition final_ngram :: "'l lm_impl \<Rightarrow> 's pb_hypo \<Rightarrow> word list \<Rightarrow> word list" where
  "final_ngram lm h ws = (if IsComplete (ph_completed h) then padded_ngram lm (ws @ [im_end lm]) (length ws) else padded_ngram lm ws (length ws - 1))"

definition end_score :: "'l lm_impl \<Rightarrow> 's pb_hypo \<Rightarrow> word list \<Rightarrow> real" where
  "end_score lm h ws = (if IsComplete (ph_completed h) then ngram_prob lm (padded_ngram lm (ws @ [im_end lm]) (length ws)) else 0)"

lemma finish_score_eq:
  assumes h: "output_at h ws a e" and n: "1 < im_order lm" "im_order lm < 2 ^ 31" and e: "Suc e < 2 ^ 31" and m: "m \<le> e"
  shows "finish_score lm h m (padded_ngram lm ws m, snd (im_value lm (padded_ngram lm ws m)), x)
    = Inr (snd (im_value lm (final_ngram lm h ws)), x + end_score lm h ws)"
proof -
  have n': "0 < im_order lm" "im_order lm < SIZE_RANGE" using n by (simp_all add: SIZE_RANGE_def)
  have ws: "length ws = Suc e" "GetEndPos (ph_targetRange h) = e" using h by (simp_all add: output_at_def)
  have loop: "rfold (next_context lm h) [Suc m..<Suc e] (padded_ngram lm ws m) = Inr (padded_ngram lm ws e)"
    using context_loop [OF h n', of m "e - m"] m by (simp del: upt_Suc)
  show ?thesis
  proof (cases "IsComplete (ph_completed h)")
    case True
    then show ?thesis using end_context_eq [OF h n e, of "padded_ngram lm ws m"] ws
      by (simp add: finish_score_def final_ngram_def end_score_def ngram_prob_def split: prod.splits)
  next
    case False
    then show ?thesis using loop m ws
      by (cases "m = e") (simp_all add: finish_score_def final_ngram_def end_score_def GetState_def del: upt_Suc)
  qed
qed

lemma boundary_score_eq:
  assumes h: "output_at h ws a e" and n: "1 < im_order lm" "im_order lm < 2 ^ 31" and e: "Suc e < 2 ^ 31"
  shows "boundary_score lm h ps = Inr (snd (im_value lm (final_ngram lm h ws)),
    (\<Sum>pos = a..min (a + im_order lm - 2) e. ngram_prob lm (padded_ngram lm ws pos)) + end_score lm h ws)"
proof -
  let ?m = "min (a + im_order lm - 2) e"
  have n': "0 < im_order lm" "im_order lm < SIZE_RANGE" using n by (simp_all add: SIZE_RANGE_def)
  have a: "a < 2 ^ 31" "a \<le> ?m" "?m \<le> e" using h e n(1) by (auto simp: output_at_def)
  have pos: "GetStartPos (ph_targetRange h) = a" "GetEndPos (ph_targetRange h) = e" using h by (simp_all add: output_at_def)
  have m: "min (sz_sub (sz_add a (im_order lm)) 2) e = ?m" using a(1) n by (simp add: SIZE_RANGE_def)
  have loop: "rfold (score_next lm h) [Suc a..<Suc ?m] (padded_ngram lm ws a, snd (im_value lm (padded_ngram lm ws a)), ngram_prob lm (padded_ngram lm ws a))
    = Inr (padded_ngram lm ws ?m, snd (im_value lm (padded_ngram lm ws ?m)), \<Sum>pos = a..?m. ngram_prob lm (padded_ngram lm ws pos))"
    using score_loop [OF h n', of "?m - a"] a(2,3) by (simp del: upt_Suc)
  obtain x u t where v: "im_value lm (padded_ngram lm ws a) = ((x, u), t)" by (metis prod.exhaust)
  then have "(case ps of Some _ \<Rightarrow> GetValueGivenState lm (padded_ngram lm ws a) (NewState lm ps) | None \<Rightarrow> im_value lm (padded_ngram lm ws a)) = ((x, u), t)"
    by (simp add: GetValueGivenState_def split: option.split)
  then show ?thesis using loop v m pos first_context_eq [OF h a(1) n(2)] finish_score_eq [OF h n e a(3)]
    by (simp add: boundary_score_def ngram_prob_def del: upt_Suc)
qed

section \<open>The score of a sentence\<close>

text \<open>
  The language model score of a hypothesis and its predecessors: the search adds the n-gram score of every phrase, which is
  in the breakdown of its option, and the score of its boundary.
\<close>

fun path_lm_score :: "'l lm_impl \<Rightarrow> 's pb_hypo \<Rightarrow> real result" where
  "path_lm_score lm (PbHypo i prev tp bm sr tr del tot fut bd st win arcs opt) = (case prev of
     None \<Rightarrow> Inr 0
   | Some p \<Rightarrow>
       rbind (path_lm_score lm p) (\<lambda>before.
       rbind (impl_CalcScore lm (tp_words tp)) (\<lambda>(fullScore, ngramScore, oovCount).
       rbind (if range_GetNumWordsCovered tr = 0 then Inr 0
              else rbind (boundary_score lm (PbHypo i prev tp bm sr tr del tot fut bd st win arcs opt) None) (\<lambda>(res, b). Inr b)) (\<lambda>b.
         Inr (before + ngramScore + b)))))"

fun initial_words :: "'s pb_hypo \<Rightarrow> word list" where
  "initial_words (PbHypo i prev tp bm sr tr del tot fut bd st win arcs opt) = (case prev of None \<Rightarrow> tp_words tp | Some p \<Rightarrow> initial_words p)"

fun incomplete_before :: "'s pb_hypo \<Rightarrow> bool" where
  "incomplete_before (PbHypo i prev tp bm sr tr del tot fut bd st win arcs opt) \<longleftrightarrow>
     (case prev of None \<Rightarrow> True | Some p \<Rightarrow> \<not> IsComplete (ph_completed p) \<and> incomplete_before p)"

definition plain_words :: "'l lm_impl \<Rightarrow> word list \<Rightarrow> bool" where
  "plain_words lm ws \<longleftrightarrow> list_all (\<lambda>w. \<not> IsNonTerminal w \<and> \<not> word_eq w (im_start lm)) ws"

text \<open>The reference: the sum over the n-grams of the padded sentence.\<close>

definition sentence_score :: "'l lm_impl \<Rightarrow> word list \<Rightarrow> nat \<Rightarrow> real" where
  "sentence_score lm ws from = (\<Sum>pos = from..<length ws. ngram_prob lm (padded_ngram lm ws pos))"

lemma CalcScore_plain:
  assumes n: "0 < im_order lm" "im_order lm < SIZE_RANGE" and p: "plain_words lm p"
  shows "\<exists>full oov. impl_CalcScore lm p = Inr (full, \<Sum>pos = length ws + im_order lm - 1..<length ws + length p.
      ngram_prob lm (padded_ngram lm (ws @ p) pos), oov)"
proof -
  have plain: "\<not> IsNonTerminal (p ! i)" "\<not> word_eq (p ! i) (im_start lm)" if "i < length p" for i
    using p that by (simp_all add: plain_words_def list_all_length)
  have terminal: "list_all (\<lambda>w. \<not> IsNonTerminal w) p" using p by (auto simp: plain_words_def list_all_iff)
  have late: "\<not> late_start lm p (length p)" using plain by (auto simp: late_start_def)
  have scored: "scored_positions lm p (length p) = [0..<length p]" using plain by (auto simp: scored_positions_def filter_id_conv)
  have len: "length (phrase_context (im_order lm) p (Suc i)) = im_order lm \<longleftrightarrow> im_order lm - 1 \<le> i" if "i < length p" for i
    using that n(1) by (auto simp: phrase_context_terminal [OF terminal])
  have "full_positions lm p (length p) = filter (\<lambda>i. im_order lm - 1 \<le> i) [0..<length p]"
    unfolding full_positions_def scored by (rule filter_cong) (simp_all add: len)
  moreover have "filter (\<lambda>i. im_order lm - 1 \<le> i) [0..<k] = [im_order lm - 1..<k]" for k by (induction k) auto
  ultimately have full: "full_positions lm p (length p) = [im_order lm - 1..<length p]" by simp
  have "context_sum lm p [im_order lm - 1..<length p]
      = (\<Sum>i = im_order lm - 1..<length p. ngram_prob lm (padded_ngram lm (ws @ p) (length ws + i)))"
    unfolding context_sum_def interv_sum_list_conv_sum_set_nat
    by (rule sum.cong) (use n(1) phrase_context_padded [OF terminal, of _ lm ws] in auto)
  also have "\<dots> = (\<Sum>pos = im_order lm - 1 + length ws..<length p + length ws. ngram_prob lm (padded_ngram lm (ws @ p) pos))"
    unfolding sum.shift_bounds_nat_ivl by (simp add: add.commute)
  finally have sum: "context_sum lm p [im_order lm - 1..<length p]
      = (\<Sum>pos = length ws + im_order lm - 1..<length ws + length p. ngram_prob lm (padded_ngram lm (ws @ p) pos))"
    using n(1) by (simp add: add.commute)
  show ?thesis
  proof (cases "p = []")
    case False
    then show ?thesis
      using CalcScore_loop [OF n le_refl, of p "NewState lm (Some (if word_eq (p ! 0) (im_start lm) then im_begin lm else im_null lm))"] late full sum
      by (auto simp: impl_CalcScore_def)
  qed (use n(1) in \<open>simp add: impl_CalcScore_def\<close>)
qed

lemma placed_output_at:
  assumes "placed h" "ph_prev h = Some p" "tp_words (ph_target h) \<noteq> []" "length (pb_words h) < 2 ^ 31"
  shows "output_at h (pb_words h) (length (pb_words p)) (length (pb_words h) - 1)"
proof -
  have ws: "pb_words h = pb_words p @ tp_words (ph_target h)" using assms(2) by (cases h) simp
  have "GetWord_ok": "pb_GetWord pos h = Inr (pb_words h ! pos)" if "pos < length (pb_words h)" for pos
    using GetWord_placed [OF assms(1) _ that] assms(4) by (simp add: SIZE_RANGE_def)
  moreover have "ph_targetRange h = WordsRange (length (pb_words p)) (length (pb_words h) - 1)"
  proof -
    have "sz_sub (length (pb_words h)) (Suc 0) = length (pb_words h) - Suc 0"
      using assms(3,4) ws by (intro sz_sub_small) (auto simp: SIZE_RANGE_def Suc_le_eq)
    then show ?thesis using assms(1,2,4) ws by (cases h) (auto simp: SIZE_RANGE_def)
  qed
  ultimately show ?thesis using assms(3) ws by (cases "tp_words (ph_target h)") (auto simp: output_at_def)
qed

lemma initial_words_length: "length (initial_words h) \<le> length (pb_words h)"
  by (induction h rule: pb_words.induct) (auto split: option.split intro: trans_le_add1)

lemma empty_range_covers_nothing:
  assumes "k < SIZE_RANGE"
  shows "sz_add (sz_sub (sz_sub k (Suc 0)) k) (Suc 0) = 0"
  using assms by (cases k) (simp_all add: sz_sub_def sz_add_def SIZE_RANGE_def)

lemma split_sum:
  fixes f :: "nat \<Rightarrow> real"
  assumes "i \<le> a" "Suc e = a + b" "a \<le> e" "1 < n"
  shows "(\<Sum>pos = i..<a. f pos) + (\<Sum>pos = a + n - 1..<a + b. f pos) + (\<Sum>pos = a..min (a + n - 2) e. f pos) = (\<Sum>pos = i..<a + b. f pos)"
proof -
  let ?m = "min (a + n - 1) (a + b)"
  have "{a..min (a + n - 2) e} = {a..<?m}" using assms by auto
  moreover have "(\<Sum>pos = a + n - 1..<a + b. f pos) = (\<Sum>pos = ?m..<a + b. f pos)" by (cases "a + n - 1 \<le> a + b") auto
  moreover have "(\<Sum>pos = i..<a. f pos) + (\<Sum>pos = a..<?m. f pos) = (\<Sum>pos = i..<?m. f pos)"
    using assms by (intro sum.atLeastLessThan_concat) auto
  moreover have "(\<Sum>pos = i..<?m. f pos) + (\<Sum>pos = ?m..<a + b. f pos) = (\<Sum>pos = i..<a + b. f pos)"
    using assms by (intro sum.atLeastLessThan_concat) auto
  ultimately show ?thesis by simp
qed

section \<open>Properties\<close>

text \<open>
  C31. The score of a phrase, on every branch: a sentence start after the first position aborts; otherwise the full score is the
  sum over the words, each in the context of the at most n words since the last non-terminal, the n-gram score is the part
  of that sum whose contexts have n words, and the count is that of the unknown words. Sentence starts and non-terminals
  are not scored.
\<close>

theorem CalcScore_sums:
  assumes "0 < im_order lm" "im_order lm < SIZE_RANGE"
  shows "impl_CalcScore lm p = (if late_start lm p (length p) then Inl Aborted
    else Inr (context_sum lm p (scored_positions lm p (length p)), context_sum lm p (full_positions lm p (length p)),
      length (unknown_positions lm p (length p))))"
proof (cases "p = []")
  case True
  then show ?thesis by (simp add: impl_CalcScore_def late_start_def context_sum_def scored_positions_def full_positions_def unknown_positions_def)
next
  case False
  then show ?thesis
    using CalcScore_loop [OF assms le_refl, of p "NewState lm (Some (if word_eq (p ! 0) (im_start lm) then im_begin lm else im_null lm))"]
    by (auto simp: impl_CalcScore_def split: if_splits)
qed

text \<open>
  C11. The language model score of a derivation is that of its sentence: the n-gram scores of the phrases and the scores of
  their boundaries add up to the sum over all n-grams of the output, padded with sentence starts, and over the sentence end
  once the source is complete; the sentence end is missing when the last phrase is empty.
\<close>

theorem path_score_is_sentence_score:
  assumes "placed h" "incomplete_before h" "length (pb_words h) < 2 ^ 31 - 1" "plain_words lm (pb_words h)"
    and "1 < im_order lm" "im_order lm < 2 ^ 31"
  shows "path_lm_score lm h = Inr (sentence_score lm (pb_words h) (length (initial_words h))
    + (if ph_prev h \<noteq> None \<and> tp_words (ph_target h) \<noteq> [] then end_score lm h (pb_words h) else 0))"
  using assms
proof (induction h rule: pb_words.induct)
  case (1 i prev tp bm sr tr del tot fut bd st win arcs opt)
  let ?h = "PbHypo i prev tp bm sr tr del tot fut bd st win arcs opt"
  show ?case
  proof (cases prev)
    case None
    then show ?thesis by (simp add: sentence_score_def)
  next
    case (Some p)
    let ?n = "im_order lm" and ?a = "length (pb_words p)" and ?ws = "pb_words p @ tp_words tp"
    have n: "0 < ?n" "?n < SIZE_RANGE" using "1.prems" by (simp_all add: SIZE_RANGE_def)
    have p: "placed p" "incomplete_before p" "length (pb_words p) < 2 ^ 31 - 1" "plain_words lm (pb_words p)" "end_score lm p (pb_words p) = 0"
      using "1.prems" Some by (auto simp: plain_words_def end_score_def)
    note IH = "1.IH" [OF Some p(1-4) "1.prems"(5,6)]
    have before: "path_lm_score lm p = Inr (\<Sum>pos = length (initial_words p)..<?a. ngram_prob lm (padded_ngram lm ?ws pos))"
    proof -
      have "sentence_score lm (pb_words p) k = (\<Sum>pos = k..<?a. ngram_prob lm (padded_ngram lm ?ws pos))" for k
        unfolding sentence_score_def by (rule sum.cong) (simp_all add: padded_ngram_append)
      then show ?thesis using IH p(5) by simp
    qed
    have init: "length (initial_words p) \<le> ?a" by (rule initial_words_length)
    obtain full oov where calc: "impl_CalcScore lm (tp_words tp)
        = Inr (full, \<Sum>pos = ?a + ?n - 1..<?a + length (tp_words tp). ngram_prob lm (padded_ngram lm ?ws pos), oov)"
      using CalcScore_plain [OF n, of "tp_words tp" "pb_words p"] "1.prems"(4) Some by (auto simp: plain_words_def)
    show ?thesis
    proof (cases "tp_words tp = []")
      case True
      then have "range_GetNumWordsCovered tr = 0" using "1.prems"(1,3) Some by (simp add: empty_range_covers_nothing SIZE_RANGE_def)
      then show ?thesis using Some before calc True "1.prems"(5) by (simp add: sentence_score_def)
    next
      case False
      have at: "output_at ?h ?ws ?a (length ?ws - 1)"
        using placed_output_at [OF "1.prems"(1), of p] "1.prems"(3) False Some by simp
      let ?e = "length ?ws - 1" and ?f = "\<lambda>pos. ngram_prob lm (padded_ngram lm ?ws pos)"
      have e: "Suc ?e = length ?ws" "Suc ?e < 2 ^ 31" "?a \<le> ?e" using False "1.prems"(3) Some by (cases "tp_words tp"; simp)+
      note b = boundary_score_eq [OF at "1.prems"(5,6) e(2), of None]
      have "range_GetNumWordsCovered tr \<noteq> 0" using at e by (auto simp: output_at_def SIZE_RANGE_def NOT_FOUND_def)
      moreover have "(\<Sum>pos = length (initial_words p)..<?a. ?f pos) + (\<Sum>pos = ?a + ?n - 1..<?a + length (tp_words tp). ?f pos)
          + (\<Sum>pos = ?a..min (?a + ?n - 2) ?e. ?f pos) = sentence_score lm ?ws (length (initial_words p))"
        unfolding sentence_score_def length_append by (rule split_sum) (use init e "1.prems"(5) in auto)
      ultimately show ?thesis using Some before calc b False by (simp add: algebra_simps)
    qed
  qed
qed

text \<open>
  Evaluate, on every branch: an empty phrase changes nothing and keeps the state; otherwise the score of the n-grams that
  overlap the start of the phrase, and that of the sentence end of a complete hypothesis, is added to the component of
  the feature, and the state is that of the last n-gram, whatever the state before.
\<close>

theorem Evaluate_branches:
  assumes "placed h" "ph_prev h = Some p" "length (pb_words h) < 2 ^ 31 - 1" "1 < im_order lm" "im_order lm < 2 ^ 31"
  shows "impl_Evaluate lm sim feature oovEnabled h ps out =
    (if tp_words (ph_target h) = [] then Inr (ps, out)
     else let lmScore = (\<Sum>pos = length (pb_words p)..min (length (pb_words p) + im_order lm - 2) (length (pb_words h) - 1).
                ngram_prob lm (padded_ngram lm (pb_words h) pos)) + end_score lm h (pb_words h)
          in rbind (if oovEnabled then PlusEquals_scores sim feature [lmScore, 0] out else PlusEquals_one sim feature lmScore out)
               (\<lambda>out'. Inr (Some (snd (im_value lm (final_ngram lm h (pb_words h)))), out')))"
proof (cases "tp_words (ph_target h) = []")
  case True
  then have "range_GetNumWordsCovered (ph_targetRange h) = 0"
    using assms(1-3) by (cases h) (simp add: empty_range_covers_nothing SIZE_RANGE_def)
  then show ?thesis using True assms(4) by (simp add: impl_Evaluate_def NewState_def split: option.split)
next
  case False
  have ws: "pb_words h = pb_words p @ tp_words (ph_target h)" using assms(2) by (cases h) simp
  have at: "output_at h (pb_words h) (length (pb_words p)) (length (pb_words h) - 1)"
    using placed_output_at [OF assms(1,2) False] assms(3) by simp
  have e: "Suc (length (pb_words h) - 1) < 2 ^ 31" using assms(3) False ws by (cases "tp_words (ph_target h)") auto
  have "range_GetNumWordsCovered (ph_targetRange h) \<noteq> 0"
    using at e by (auto simp: output_at_def SIZE_RANGE_def NOT_FOUND_def)
  then show ?thesis using False assms(4) boundary_score_eq [OF at assms(4,5) e, of ps]
    by (simp add: impl_Evaluate_def Let_def)
qed

section \<open>Examples\<close>

definition lm_word :: "nat \<Rightarrow> word" where
  "lm_word f = \<lparr>w_factors = [Some f], w_isNonTerminal = False\<rparr>"

text \<open>A bigram model whose state is the last word.\<close>

definition example_lm :: "word lm_impl" where
  "example_lm = \<lparr>im_order = 2, im_start = lm_word 1, im_end = lm_word 2,
     im_value = (\<lambda>ctx. ((if ctx = [lm_word 3, lm_word 4] then -1 else -2, ctx = [lm_word 1, lm_word 3]), last ctx)),
     im_null = lm_word 0, im_begin = lm_word 1, im_new = lm_word 0\<rparr>"

definition example_target :: "word list \<Rightarrow> target_phrase" where
  "example_target ws = \<lparr>tp_ptr = 0, tp_words = ws, tp_futureScore = Fin 0, tp_breakdown = [], tp_align = [], tp_lhs = lm_word 0\<rparr>"

text \<open>The sentence is translated by a phrase of two words; the second hypothesis adds an empty phrase.\<close>

definition example_first :: "unit pb_hypo" where
  "example_first = PbHypo 0 None (example_target []) \<lparr>wb_size = 1, wb_bitmap = [False]\<rparr> (WordsRange NOT_FOUND NOT_FOUND)
     (WordsRange 0 NOT_FOUND) False (Fin 0) (Fin 0) [] [] None None None"

definition example_second :: "bool \<Rightarrow> unit pb_hypo" where
  "example_second done = PbHypo 1 (Some example_first) (example_target [lm_word 3, lm_word 4])
     \<lparr>wb_size = 1, wb_bitmap = [done]\<rparr> (WordsRange 0 0) (WordsRange 0 1) False (Fin 0) (Fin 0) [0] [] None None None"

definition example_third :: "unit pb_hypo" where
  "example_third = PbHypo 2 (Some (example_second False)) (example_target []) \<lparr>wb_size = 1, wb_bitmap = [True]\<rparr> (WordsRange 0 0)
     (WordsRange 2 1) True (Fin 0) (Fin 0) [0] [] None None None"

lemmas example_simps = example_lm_def example_first_def example_second_def example_third_def example_target_def plain_words_def

lemma lm_word_simps [simp]: "word_eq (lm_word a) (lm_word b) \<longleftrightarrow> a = b" "IsNonTerminal (lm_word a) \<longleftrightarrow> False" "lm_word a = lm_word b \<longleftrightarrow> a = b"
  by (simp_all add: lm_word_def word_eq_def Word_Compare_def GetFactor_def MAX_NUM_FACTORS_def upt_rec)

lemma example_complete: "IsComplete \<lparr>wb_size = 1, wb_bitmap = [b]\<rparr> \<longleftrightarrow> b"
  by (simp add: IsComplete_def GetNumWordsCovered_def)

lemma CalcScore_sums_witness: "impl_CalcScore example_lm [lm_word 3, lm_word 4] = Inr (-3, -1, 0)
    \<and> impl_CalcScore example_lm [lm_word 3, lm_word 1] = Inl Aborted"
proof
  have n: "0 < im_order example_lm" "im_order example_lm < SIZE_RANGE" by (simp_all add: example_lm_def SIZE_RANGE_def)
  show "impl_CalcScore example_lm [lm_word 3, lm_word 4] = Inr (-3, -1, 0)"
    unfolding CalcScore_sums [OF n]
    by (auto simp: late_start_def context_sum_def scored_positions_def full_positions_def unknown_positions_def phrase_context_def
        ngram_prob_def example_lm_def nth_Cons' upt_rec)
  show "impl_CalcScore example_lm [lm_word 3, lm_word 1] = Inl Aborted"
    unfolding CalcScore_sums [OF n] by (auto simp: late_start_def example_lm_def nth_Cons' intro!: exI [of _ "Suc 0"])
qed

lemma example_padded:
  "padded_ngram example_lm ws 0 = [lm_word 1, ws ! 0]"
  "padded_ngram example_lm ws (Suc k) = [ws ! k, ws ! Suc k]"
  by (simp_all add: padded_ngram_def example_lm_def upto_rec1 nat_add_distrib)

lemma example_hypos:
  "pb_words (example_second d) = [lm_word 3, lm_word 4]" "pb_words example_third = [lm_word 3, lm_word 4]" "pb_words example_first = []"
  "initial_words (example_second d) = []" "initial_words example_third = []"
  "ph_prev (example_second d) = Some example_first" "ph_prev example_third = Some (example_second False)"
  "tp_words (ph_target (example_second d)) = [lm_word 3, lm_word 4]" "tp_words (ph_target example_third) = []"
  "placed (example_second d)" "placed example_third" "incomplete_before (example_second d)" "incomplete_before example_third"
  "IsComplete (ph_completed (example_second d)) \<longleftrightarrow> d"
  by (simp_all add: example_simps example_complete [unfolded One_nat_def] sz_sub_def SIZE_RANGE_def NOT_FOUND_def)

lemma example_order: "im_order example_lm = 2" "im_start example_lm = lm_word 1" "im_end example_lm = lm_word 2"
  "im_value example_lm ctx = ((if ctx = [lm_word 3, lm_word 4] then -1 else -2, ctx = [lm_word 1, lm_word 3]), last ctx)"
  by (simp_all add: example_lm_def)

lemma example_plain: "plain_words example_lm [lm_word 3, lm_word 4]"
  by (simp add: plain_words_def example_order)

lemma path_score_is_sentence_score_witness:
  "path_lm_score example_lm (example_second True) = Inr (-5)
   \<and> pb_words example_third = pb_words (example_second True) \<and> path_lm_score example_lm example_third = Inr (-3)"
proof (intro conjI)
  have two: "{0..<2} = {0, Suc 0}" "padded_ngram example_lm ws 2 = [ws ! 1, ws ! 2]" for ws
    using example_padded(2) [of ws 1] by (auto simp: numeral_2_eq_2)
  show "path_lm_score example_lm (example_second True) = Inr (-5)"
    using path_score_is_sentence_score [of "example_second True" example_lm]
    by (simp add: example_hypos example_order example_plain example_padded sentence_score_def end_score_def ngram_prob_def two)
  show "path_lm_score example_lm example_third = Inr (-3)"
    using path_score_is_sentence_score [of example_third example_lm]
    by (simp add: example_hypos example_order example_plain example_padded sentence_score_def end_score_def ngram_prob_def two)
qed (simp add: example_hypos)

lemma Evaluate_branches_witness:
  "\<forall>s out. impl_Evaluate example_lm ScoreIndexManager (example_producer 1 0) True example_third (Some s) out = Inr (Some s, out)
     \<and> impl_Evaluate example_lm ScoreIndexManager (example_producer 1 0) False (example_second False) None out
     = rbind (PlusEquals_one ScoreIndexManager (example_producer 1 0) (-2) out) (\<lambda>out'. Inr (Some (lm_word 4), out'))"
proof (intro allI conjI)
  fix s out
  show "impl_Evaluate example_lm ScoreIndexManager (example_producer 1 0) True example_third (Some s) out = Inr (Some s, out)"
    using Evaluate_branches [of example_third "example_second False" example_lm ScoreIndexManager "example_producer 1 0" True "Some s" out]
    by (simp add: example_hypos example_order)
  show "impl_Evaluate example_lm ScoreIndexManager (example_producer 1 0) False (example_second False) None out
     = rbind (PlusEquals_one ScoreIndexManager (example_producer 1 0) (-2) out) (\<lambda>out'. Inr (Some (lm_word 4), out'))"
    using Evaluate_branches [of "example_second False" example_first example_lm ScoreIndexManager "example_producer 1 0" False None out]
    by (simp add: example_hypos example_order example_padded end_score_def final_ngram_def ngram_prob_def Let_def)
qed

end
