(* ===== verification/ChartLangModelProps.thy ===== *)
theory ChartLangModelProps
  imports ChartLangModels LangModelProps
begin

text \<open>
  What the n-gram language models of the chart decoder compute: the state of a hypothesis is determined by the words of its
  output, and its score is the sum over the n-grams of the output, whatever its derivation.
\<close>

section \<open>Ends of lists\<close>

definition last_n :: "nat \<Rightarrow> 'a list \<Rightarrow> 'a list" where
  "last_n m xs = drop (length xs - m) xs"

lemma last_n_simps [simp]: "last_n m [] = []" "length (last_n m xs) = min m (length xs)" "last_n 0 xs = []"
  by (auto simp: last_n_def)

lemma last_n_all [simp]: "length xs \<le> m \<Longrightarrow> last_n m xs = xs"
  by (simp add: last_n_def)

lemma last_n_append: "last_n m (xs @ ys) = last_n (m - length ys) xs @ last_n m ys"
  by (cases "length ys \<le> m") (simp_all add: last_n_def)

lemma last_n_snoc: "0 < m \<Longrightarrow> last_n m (xs @ [w]) = last_n (m - 1) xs @ [w]"
  by (simp add: last_n_append)

lemma last_n_last_n: "k \<le> m \<Longrightarrow> last_n k (last_n m xs) = last_n k xs"
  unfolding last_n_def drop_drop length_drop by (rule arg_cong [where f = "\<lambda>i. drop i xs"]) arith

text \<open>Appending to lists that end alike.\<close>

lemma last_n_append_cong: "last_n m xs = last_n m ys \<Longrightarrow> last_n m (xs @ zs) = last_n m (ys @ zs)"
  unfolding last_n_append by (metis diff_le_self last_n_last_n)

lemma ShiftOrPush_last_n:
  assumes "0 < n" "n < SIZE_RANGE" "length c \<le> n"
  shows "ShiftOrPush n c w = Inr (last_n n (c @ [w]))"
proof -
  have "last_n n (c @ [w]) = (if length c < n then c else tl c) @ [w]"
    using assms(1,3) by (cases "length c = n") (auto simp: last_n_snoc last_n_def drop_Suc)
  then show ?thesis using ShiftOrPush_eq [OF assms] by simp
qed

lemma shift_up_loop:
  "k < length q \<Longrightarrow> fold (\<lambda>pos q. q[pos := q ! (pos - 1)]) (rev [1..<Suc k]) q = take 1 q @ take k q @ drop (Suc k) q"
proof (induction k arbitrary: q)
  case (Suc k)
  let ?q = "q[Suc k := q ! k]"
  have "rev [1..<Suc (Suc k)] = Suc k # rev [1..<Suc k]" by simp
  then have "fold (\<lambda>pos q. q[pos := q ! (pos - 1)]) (rev [1..<Suc (Suc k)]) q = take 1 ?q @ take k ?q @ drop (Suc k) ?q"
    using Suc.IH [of ?q] Suc.prems by (simp del: upt_Suc)
  also have "\<dots> = take 1 q @ take (Suc k) q @ drop (Suc (Suc k)) q"
  proof -
    have "drop (Suc k) ?q = q ! k # drop (Suc (Suc k)) q"
      using Suc.prems by (simp add: Cons_nth_drop_Suc [symmetric])
    moreover have "take 1 ?q = take 1 q" "take k ?q = take k q" by (simp_all add: take_update_cancel)
    ultimately show ?thesis using Suc.prems by (simp add: take_Suc_conv_app_nth)
  qed
  finally show ?case .
qed (cases q, simp_all)

lemma PrependWord_Cons: "PrependWord p w = w # p"
proof -
  let ?q = "p @ [\<lparr>w_factors = [], w_isNonTerminal = False\<rparr>]"
  have "fold (\<lambda>pos q. q[pos := q ! (pos - 1)]) (rev [1..<length ?q]) ?q = take 1 ?q @ p"
    using shift_up_loop [of "length p" ?q] by simp
  then show ?thesis by (cases p) (simp_all add: PrependWord_def Let_def)
qed

section \<open>The pieces of an output\<close>

text \<open>What a position of the rule contributes to the output: its word or the output of its non-terminal.\<close>

definition piece :: "target_phrase \<Rightarrow> word list list \<Rightarrow> nat \<Rightarrow> word list" where
  "piece tp ys pos = (if IsNonTerminal (tp_words tp ! pos) then ys ! source_rank tp pos else [tp_words tp ! pos])"

lemma hypo_yield_pieces:
  "hypo_yield (Hypo i tp r st bd sc arcs prev win) = concat (map (piece tp (map hypo_yield prev)) [0..<length (tp_words tp)])"
  unfolding hypo_yield.simps by (rule arg_cong [where f = concat], rule map_cong) (simp_all add: piece_def)

lemma previous_at_eq:
  assumes "wf_phrase tp" "length xs = length (tp_align tp)" "pos < length (tp_words tp)" "IsNonTerminal (tp_words tp ! pos)"
  shows "previous_at tp xs pos = Inr (xs ! source_rank tp pos)" "source_rank tp pos < length xs"
proof -
  have pos: "pos \<in> snd ` set (tp_align tp)" using assms by (simp add: wf_phrase_def)
  note rank = source_rank_in [OF pos]
  have "pos < length (BuildNonTermIndexMap (tp_align tp))" "BuildNonTermIndexMap (tp_align tp) ! pos = source_rank tp pos"
    using BuildNonTermIndexMap_nth [of "tp_align tp" "source_rank tp pos"] rank assms(1) by (auto simp: wf_phrase_def)
  then show "previous_at tp xs pos = Inr (xs ! source_rank tp pos)" "source_rank tp pos < length xs"
    using rank(1) assms(2) by (simp_all add: previous_at_def)
qed

section \<open>Prefix and suffix\<close>

lemma prefix_loop:
  assumes "\<And>pos p k. pos \<in> set ps \<Longrightarrow> 0 < k \<Longrightarrow> k < SIZE_RANGE \<Longrightarrow> IsNonTerminal (tp_words tp ! pos) \<Longrightarrow>
      \<exists>sub. previous_at tp subs pos = Inr sub \<and> sub p k = Inr (p @ take k (piece tp ys pos), k - length (piece tp ys pos))"
    and "\<forall>pos \<in> set ps. pos < length (tp_words tp)" "0 < k" "k < SIZE_RANGE"
  shows "edge_loop (\<lambda>p w. p @ [w]) subs tp ps p k
    = Inr (p @ take k (concat (map (piece tp ys) ps)), k - length (concat (map (piece tp ys) ps)))"
  using assms
proof (induction ps arbitrary: p k)
  case (Cons pos ps)
  let ?x = "piece tp ys pos"
  have "(if IsNonTerminal (tp_words tp ! pos) then rbind (previous_at tp subs pos) (\<lambda>sub. sub p k)
      else Inr (p @ [tp_words tp ! pos], sz_sub k 1)) = Inr (p @ take k ?x, k - length ?x)"
    using Cons.prems(1) [of pos k p] Cons.prems(3,4) by (cases k) (auto simp: piece_def)
  moreover have "edge_loop (\<lambda>p w. p @ [w]) subs tp ps q j = Inr (q @ take j (concat (map (piece tp ys) ps)), j - length (concat (map (piece tp ys) ps)))"
    if "0 < j" "j \<le> k" for q j
    using that Cons.prems by (intro Cons.IH) auto
  ultimately show ?case using Cons.prems(2) by auto
qed simp

lemma suffix_loop:
  assumes "\<And>pos p k. pos \<in> set ps \<Longrightarrow> 0 < k \<Longrightarrow> k < SIZE_RANGE \<Longrightarrow> IsNonTerminal (tp_words tp ! pos) \<Longrightarrow>
      \<exists>sub. previous_at tp subs pos = Inr sub \<and> sub p k = Inr (last_n k (piece tp ys pos) @ p, k - length (piece tp ys pos))"
    and "\<forall>pos \<in> set ps. pos < length (tp_words tp)" "0 < k" "k < SIZE_RANGE"
  shows "edge_loop PrependWord subs tp ps p k
    = Inr (last_n k (concat (map (piece tp ys) (rev ps))) @ p, k - length (concat (map (piece tp ys) ps)))"
  using assms
proof (induction ps arbitrary: p k)
  case (Cons pos ps)
  let ?x = "piece tp ys pos"
  have "(if IsNonTerminal (tp_words tp ! pos) then rbind (previous_at tp subs pos) (\<lambda>sub. sub p k)
      else Inr (PrependWord p (tp_words tp ! pos), sz_sub k 1)) = Inr (last_n k ?x @ p, k - length ?x)"
    using Cons.prems(1) [of pos k p] Cons.prems(3,4) by (cases k) (auto simp: piece_def PrependWord_Cons)
  moreover have "edge_loop PrependWord subs tp ps q j = Inr (last_n j (concat (map (piece tp ys) (rev ps))) @ q, j - length (concat (map (piece tp ys) ps)))"
    if "0 < j" "j \<le> k" for q j
    using that Cons.prems by (intro Cons.IH) auto
  ultimately show ?case using Cons.prems(2) by (auto simp: last_n_append)
qed simp

lemma copy_prefix_eq:
  assumes "length ws < SIZE_RANGE"
  shows "copy_prefix ws p k = Inr (last_n k ws @ p, k - length ws)"
proof -
  let ?step = "\<lambda>ind (p, pos). rbind (array_get ws pos) (\<lambda>w. Inr (PrependWord p w, sz_sub pos 1))"
  have loop: "\<exists>pos. rfold ?step [0..<c] (p, sz_sub (length ws) 1) = Inr (last_n c ws @ p, pos) \<and> (c < length ws \<longrightarrow> pos = length ws - Suc c)"
    if "c \<le> length ws" for c
    using that
  proof (induction c)
    case (Suc c)
    then obtain pos where pos: "rfold ?step [0..<c] (p, sz_sub (length ws) 1) = Inr (last_n c ws @ p, pos)" "pos = length ws - Suc c" by auto
    then have "last_n (Suc c) ws = ws ! pos # last_n c ws" using Suc.prems by (simp add: last_n_def Cons_nth_drop_Suc [symmetric] Suc_diff_Suc)
    then show ?case using pos Suc.prems assms by (simp add: rfold_append PrependWord_Cons)
  qed (use assms in \<open>cases ws; simp add: SIZE_RANGE_def\<close>)
  have "last_n (min (length ws) k) ws = last_n k ws" by (simp add: last_n_def min_def)
  then show ?thesis using loop [of "min (length ws) k"] by (auto simp: copy_prefix_def Let_def)
qed

section \<open>The state of a hypothesis\<close>

text \<open>The words at the ends that the state of every hypothesis has to hold.\<close>

fun edges_ok :: "nat \<Rightarrow> nat \<Rightarrow> 'l lm_hypo \<Rightarrow> bool" where
  "edges_ok n featureID (Hypo i tp r st bd sc arcs prev win) \<longleftrightarrow> list_all (edges_ok n featureID) prev \<and>
     (\<exists>s. featureID < length st \<and> st ! featureID = Some s \<and>
        (let ws = hypo_yield (Hypo i tp r st bd sc arcs prev win)
         in cs_prefix s = take (n - 1) ws \<and> cs_suffix s = last_n (n - 1) ws \<and> cs_numTargetTerminals s = length ws))"

lemma edges_okD:
  assumes "edges_ok n featureID h"
  obtains s where "GetFFState featureID h = Inr s" "cs_prefix s = take (n - 1) (hypo_yield h)"
    "cs_suffix s = last_n (n - 1) (hypo_yield h)" "cs_numTargetTerminals s = length (hypo_yield h)"
  using assms by (cases h) (auto simp: GetFFState_def Let_def simp del: hypo_yield.simps)

lemma source_piece:
  assumes "wf_phrase tp" "length prev = length (tp_align tp)" "pos < length (tp_words tp)" "IsNonTerminal (tp_words tp ! pos)"
  shows "\<exists>h \<in> set prev. \<forall>f. previous_at tp (map f prev) pos = Inr (f h) \<and> piece tp (map hypo_yield prev) pos = hypo_yield h"
  using previous_at_eq [OF assms] previous_at_eq(1) [OF assms(1) _ assms(3,4), of "map f prev" for f] assms(2,4)
  by (intro bexI [of _ "prev ! source_rank tp pos"]) (auto simp: piece_def)

lemma CalcPrefix_eq:
  assumes "wf_hypo h" "list_all (edges_ok n featureID) (h_prev h)" "0 < k" "k < SIZE_RANGE"
  shows "CalcPrefix featureID h p k = Inr (p @ take k (hypo_yield h), k - length (hypo_yield h))"
  using assms
proof (induction h arbitrary: p k)
  case (Hypo i tp r st bd sc arcs prev win)
  have wf: "wf_phrase tp" "length prev = length (tp_align tp)" and prev: "list_all wf_hypo prev" "list_all (edges_ok n featureID) prev"
    using Hypo.prems by simp_all
  have "\<exists>sub. previous_at tp (map (\<lambda>h p k. rbind (GetFFState featureID h) (\<lambda>_. CalcPrefix featureID h p k)) prev) pos = Inr sub
      \<and> sub q j = Inr (q @ take j (piece tp (map hypo_yield prev) pos), j - length (piece tp (map hypo_yield prev) pos))"
    if "pos < length (tp_words tp)" "IsNonTerminal (tp_words tp ! pos)" "0 < j" "j < SIZE_RANGE" for pos q j
  proof -
    from source_piece [OF wf that(1,2)] obtain h where h: "h \<in> set prev"
      and at: "\<And>f :: _ \<Rightarrow> phrase \<Rightarrow> nat \<Rightarrow> (phrase \<times> nat) result. previous_at tp (map f prev) pos = Inr (f h)"
        "piece tp (map hypo_yield prev) pos = hypo_yield h" by meson
    have ok: "wf_hypo h" "edges_ok n featureID h" "list_all (edges_ok n featureID) (h_prev h)"
      using h prev by (auto simp: list_all_iff) (cases h, auto simp: list_all_iff)
    then show ?thesis using Hypo.IH(2) [OF h ok(1,3) that(3,4)] by (auto simp: at elim: edges_okD)
  qed
  then show ?case unfolding hypo_yield_pieces CalcPrefix.simps using Hypo.prems(3,4) by (intro prefix_loop) auto
qed

lemma CalcSuffix_eq:
  assumes "wf_hypo h" "list_all (edges_ok n featureID) (h_prev h)" "0 < k" "k < SIZE_RANGE" "n < SIZE_RANGE"
  shows "CalcSuffix featureID (take (n - 1) (hypo_yield h)) (length (hypo_yield h)) h p k = Inr (last_n k (hypo_yield h) @ p, k - length (hypo_yield h))"
  using assms(1-4)
proof (induction h arbitrary: p k)
  case (Hypo i tp r st bd sc arcs prev win)
  let ?ws = "hypo_yield (Hypo i tp r st bd sc arcs prev win)"
  have wf: "wf_phrase tp" "length prev = length (tp_align tp)" and prev: "list_all wf_hypo prev" "list_all (edges_ok n featureID) prev"
    using Hypo.prems by simp_all
  let ?sub = "\<lambda>h p k. rbind (GetFFState featureID h) (\<lambda>s. CalcSuffix featureID (cs_prefix s) (cs_numTargetTerminals s) h p k)"
  have "\<exists>sub. previous_at tp (map ?sub prev) pos = Inr sub
      \<and> sub q j = Inr (last_n j (piece tp (map hypo_yield prev) pos) @ q, j - length (piece tp (map hypo_yield prev) pos))"
    if "pos < length (tp_words tp)" "IsNonTerminal (tp_words tp ! pos)" "0 < j" "j < SIZE_RANGE" for pos q j
  proof -
    from source_piece [OF wf that(1,2)] obtain h where h: "h \<in> set prev"
      and at: "\<And>f :: _ \<Rightarrow> phrase \<Rightarrow> nat \<Rightarrow> (phrase \<times> nat) result. previous_at tp (map f prev) pos = Inr (f h)"
        "piece tp (map hypo_yield prev) pos = hypo_yield h" by meson
    have ok: "wf_hypo h" "edges_ok n featureID h" "list_all (edges_ok n featureID) (h_prev h)"
      using h prev by (auto simp: list_all_iff) (cases h, auto simp: list_all_iff)
    then show ?thesis using Hypo.IH(2) [OF h ok(1,3) that(3,4)] by (auto simp: at elim: edges_okD)
  qed
  then have loop: "edge_loop PrependWord (map ?sub prev) tp (rev [0..<length (tp_words tp)]) p k = Inr (last_n k ?ws @ p, k - length ?ws)"
    unfolding hypo_yield_pieces using Hypo.prems(3,4)
    using suffix_loop [of "rev [0..<length (tp_words tp)]" tp "map ?sub prev" "map hypo_yield prev" k p]
    by (simp add: length_concat rev_map [symmetric] sum_list_rev)
  show ?case
  proof (cases "length (take (n - 1) ?ws) = length ?ws")
    case True
    then have short: "length ?ws \<le> n - 1" "length ?ws < SIZE_RANGE" "take (n - 1) ?ws = ?ws" using assms(5) by auto
    then show ?thesis by (simp add: copy_prefix_eq del: hypo_yield.simps)
  next
    case False
    have le: "(length (take (n - 1) ?ws) \<le> length ?ws) = True" by simp
    show ?thesis unfolding CalcSuffix.simps using loop False by (simp only: le if_False check_simps rbind_simps)
  qed
qed

lemma GetNumTerminals_filter: "GetNumTerminals p = length (filter (\<lambda>w. \<not> IsNonTerminal w) p)"
proof -
  have "fold (\<lambda>w ret. if \<not> IsNonTerminal w then ret + 1 else ret) p k = k + length (filter (\<lambda>w. \<not> IsNonTerminal w) p)" for k
    by (induction p arbitrary: k) auto
  then show ?thesis by (simp add: GetNumTerminals_def)
qed

text \<open>Every previous hypothesis is the output of one non-terminal, so the lengths add up.\<close>

lemma yield_length:
  assumes "wf_phrase tp" "length ys = length (tp_align tp)"
  shows "length (concat (map (piece tp ys) [0..<length (tp_words tp)])) = GetNumTerminals (tp_words tp) + (\<Sum>y\<leftarrow>ys. length y)"
proof -
  let ?N = "{pos. pos < length (tp_words tp) \<and> IsNonTerminal (tp_words tp ! pos)}"
  let ?T = "{pos. pos < length (tp_words tp) \<and> \<not> IsNonTerminal (tp_words tp ! pos)}"
  have "length (concat (map (piece tp ys) [0..<length (tp_words tp)])) = (\<Sum>pos = 0..<length (tp_words tp). length (piece tp ys pos))"
    by (simp add: length_concat comp_def interv_sum_list_conv_sum_set_nat)
  also have "\<dots> = (\<Sum>pos \<in> ?T \<union> ?N. length (piece tp ys pos))" by (rule sum.cong) auto
  also have "\<dots> = (\<Sum>pos \<in> ?T. length (piece tp ys pos)) + (\<Sum>pos \<in> ?N. length (piece tp ys pos))"
    by (rule sum.union_disjoint) auto
  also have "(\<Sum>pos \<in> ?T. length (piece tp ys pos)) = GetNumTerminals (tp_words tp)"
    by (simp add: piece_def GetNumTerminals_filter length_filter_conv_card)
  also have "(\<Sum>pos \<in> ?N. length (piece tp ys pos)) = (\<Sum>k < length ys. length (ys ! k))"
  proof (rule sum.reindex_bij_witness [where i = "\<lambda>k. snd (tp_align tp ! k)" and j = "source_rank tp"])
    fix pos assume "pos \<in> ?N"
    then have pos: "pos \<in> snd ` set (tp_align tp)" using assms(1) by (simp add: wf_phrase_def)
    show "snd (tp_align tp ! source_rank tp pos) = pos" "source_rank tp pos \<in> {..<length ys}"
      using source_rank_in [OF pos] assms(2) by simp_all
    show "length (ys ! source_rank tp pos) = length (piece tp ys pos)" using \<open>pos \<in> ?N\<close> by (simp add: piece_def)
  next
    fix k assume "k \<in> {..<length ys}"
    then have k: "k < length (tp_align tp)" using assms(2) by simp
    then have pos: "snd (tp_align tp ! k) \<in> snd ` set (tp_align tp)" by simp
    show "snd (tp_align tp ! k) \<in> ?N" using pos assms(1) by (simp add: wf_phrase_def)
    show "source_rank tp (snd (tp_align tp ! k)) = k"
      using source_rank_in [OF pos] k assms(1) nth_eq_iff_index_eq [of "map snd (tp_align tp)" "source_rank tp (snd (tp_align tp ! k))" k]
      by (simp add: wf_phrase_def)
  qed
  also have "(\<Sum>k < length ys. length (ys ! k)) = (\<Sum>y\<leftarrow>ys. length y)" by (simp add: sum_list_sum_nth atLeast0LessThan)
  finally show ?thesis .
qed

lemma count_terminals_eq:
  assumes "wf_hypo h" "list_all (edges_ok n featureID) (h_prev h)"
  shows "count_terminals featureID h = Inr (length (hypo_yield h))"
proof (cases h)
  case (Hypo i tp r st bd sc arcs prev win)
  have "rfold (\<lambda>g m. rbind (GetFFState featureID g) (\<lambda>s. Inr (m + cs_numTargetTerminals s))) hs m
      = Inr (m + (\<Sum>g\<leftarrow>hs. length (hypo_yield g)))" if "list_all (edges_ok n featureID) hs" for hs m
    using that by (induction hs arbitrary: m) (auto elim!: edges_okD)
  then show ?thesis using assms Hypo yield_length [of tp "map hypo_yield prev"]
    by (simp add: count_terminals_def hypo_yield_pieces comp_def del: hypo_yield.simps)
qed

lemma LanguageModelChartState_eq:
  assumes "wf_hypo h" "list_all (edges_ok n featureID) (h_prev h)" "1 < n" "n < SIZE_RANGE"
  shows "LanguageModelChartState h featureID n = Inr (\<lambda>prefixScore rightState. \<lparr>cs_prefixScore = prefixScore, cs_rightContext = rightState,
     cs_prefix = take (n - 1) (hypo_yield h), cs_suffix = last_n (n - 1) (hypo_yield h),
     cs_numTargetTerminals = length (hypo_yield h), cs_range = h_range h\<rparr>)"
proof -
  have k: "sz_sub n 1 = n - 1" "0 < n - 1" "n - 1 < SIZE_RANGE" using assms(3,4) by auto
  show ?thesis
    using CalcPrefix_eq [OF assms(1,2) k(2,3), of "[]"] CalcSuffix_eq [OF assms(1,2) k(2,3) assms(4), of "[]"]
      count_terminals_eq [OF assms(1,2)]
    by (simp add: LanguageModelChartState_def k(1) [unfolded One_nat_def])
qed

section \<open>Scores of an output\<close>

text \<open>The score of a word in the context of at most n words that ends with it; a sentence start has none.\<close>

definition output_ngram :: "'l lm_impl \<Rightarrow> word list \<Rightarrow> nat \<Rightarrow> word list" where
  "output_ngram lm ws i = last_n (im_order lm) (take (Suc i) ws)"

definition word_score :: "'l lm_impl \<Rightarrow> word list \<Rightarrow> nat \<Rightarrow> real" where
  "word_score lm ws i = (if word_eq (ws ! i) (im_start lm) then 0 else UntransformLMScore (ngram_prob lm (output_ngram lm ws i)))"

definition word_sum :: "'l lm_impl \<Rightarrow> word list \<Rightarrow> nat \<Rightarrow> nat \<Rightarrow> real" where
  "word_sum lm ws i j = (\<Sum>k = i..<j. word_score lm ws k)"

text \<open>The state of the model after an output.\<close>

definition right_context :: "'l lm_impl \<Rightarrow> word list \<Rightarrow> 'l" where
  "right_context lm ws = (if ws = [] then im_null lm else if word_eq (last ws) (im_start lm) then im_begin lm
     else snd (im_value lm (last_n (im_order lm) ws)))"

definition no_start :: "'l lm_impl \<Rightarrow> word list \<Rightarrow> bool" where
  "no_start lm ws \<longleftrightarrow> list_all (\<lambda>w. \<not> word_eq w (im_start lm)) ws"

lemma word_score_append: "k < length ws \<Longrightarrow> word_score lm (ws @ vs) k = word_score lm ws k"
  by (simp add: word_score_def output_ngram_def nth_append)

lemma word_sum_append: "j \<le> length ws \<Longrightarrow> word_sum lm (ws @ vs) i j = word_sum lm ws i j"
  unfolding word_sum_def by (rule sum.cong) (simp_all add: word_score_append)

lemma word_score_shift: "im_order lm \<le> Suc k \<Longrightarrow> k < length ws \<Longrightarrow> word_score lm (us @ ws) (length us + k) = word_score lm ws k"
  by (simp add: word_score_def output_ngram_def last_n_append nth_append Suc_diff_le min_def)

lemma word_sum_shift:
  assumes "im_order lm \<le> Suc i" "j \<le> length ws"
  shows "word_sum lm (us @ ws) (length us + i) (length us + j) = word_sum lm ws i j"
proof -
  have "word_sum lm (us @ ws) (length us + i) (length us + j) = (\<Sum>k = i..<j. word_score lm (us @ ws) (length us + k))"
    unfolding word_sum_def using sum.shift_bounds_nat_ivl [of "word_score lm (us @ ws)" i "length us" j] by (simp add: add.commute)
  also have "\<dots> = word_sum lm ws i j" unfolding word_sum_def by (rule sum.cong) (use assms in \<open>simp_all add: word_score_shift\<close>)
  finally show ?thesis .
qed

lemma word_sum_concat: "i \<le> j \<Longrightarrow> j \<le> k \<Longrightarrow> word_sum lm ws i j + word_sum lm ws j k = word_sum lm ws i k"
  unfolding word_sum_def by (rule sum.atLeastLessThan_concat)

lemma word_sum_simps [simp]: "word_sum lm ws i i = 0" "i \<le> j \<Longrightarrow> word_sum lm ws i (Suc j) = word_sum lm ws i j + word_score lm ws j"
  by (simp_all add: word_sum_def)

section \<open>The loop over the rule\<close>

text \<open>The variables of the loop after the output acc.\<close>

definition run_ok :: "'l lm_impl \<Rightarrow> word list \<Rightarrow> 'l chart_lm_run \<Rightarrow> bool" where
  "run_ok lm acc run \<longleftrightarrow>
     last_n (im_order lm - 1) (cr_context run) = last_n (im_order lm - 1) acc \<and> length (cr_context run) \<le> im_order lm
     \<and> cr_state run = right_context lm acc \<and> fst (cr_scores run) + snd (cr_scores run) = word_sum lm acc 0 (length acc)
     \<and> (no_start lm acc \<longrightarrow> fst (cr_scores run) = word_sum lm acc 0 (min (im_order lm - 1) (length acc))
          \<and> min (cr_wordPos run) (im_order lm - 1) = min (length acc) (im_order lm - 1))"

lemma push_word_eq:
  assumes "0 < im_order lm" "im_order lm < SIZE_RANGE" "length (cr_context run) \<le> im_order lm"
  shows "push_word lm w run = Inr (run\<lparr>cr_context := last_n (im_order lm) (cr_context run @ [w])\<rparr>)"
  using ShiftOrPush_last_n [OF assms] by (simp add: push_word_def)

text \<open>After a push the context is the n-gram of the output.\<close>

lemma pushed_context:
  assumes "0 < n" "last_n (n - 1) c = last_n (n - 1) acc"
  shows "last_n n (c @ [w]) = last_n n (acc @ [w])"
  using assms by (simp add: last_n_snoc)

lemma run_ok_word:
  assumes n: "0 < im_order lm" "im_order lm < SIZE_RANGE" and run: "run_ok lm acc run" and w: "\<not> word_eq w (im_start lm)"
  shows "\<exists>run'. rbind (push_word lm w run) (\<lambda>run. Inr (score_pushed lm run)) = Inr run' \<and> run_ok lm (acc @ [w]) run'"
proof -
  let ?n = "im_order lm" and ?c = "last_n (im_order lm) (acc @ [w])"
  have len: "length (cr_context run) \<le> ?n" using run by (simp add: run_ok_def)
  have ctx: "last_n ?n (cr_context run @ [w]) = ?c"
  proof (rule pushed_context [OF n(1)])
    show "last_n (?n - 1) (cr_context run) = last_n (?n - 1) acc" using run by (simp add: run_ok_def)
  qed
  have score: "word_score lm (acc @ [w]) (length acc) = UntransformLMScore (ngram_prob lm ?c)"
    using w by (simp add: word_score_def output_ngram_def)
  obtain x u t where v: "im_value lm ?c = ((x, u), t)" by (metis prod.exhaust)
  define pos where "pos = cr_wordPos run + 1"
  define run' where "run' = run\<lparr>cr_context := ?c, cr_state := t, cr_wordPos := pos, cr_scores := updateChartScore lm (UntransformLMScore x) pos (cr_scores run)\<rparr>"
  have eq: "rbind (push_word lm w run) (\<lambda>run. Inr (score_pushed lm run)) = Inr run'"
    using v by (simp add: push_word_eq [OF n len] ctx score_pushed_def GetValueGivenState_def run'_def pos_def)
  have right: "t = right_context lm (acc @ [w])" using w v by (simp add: right_context_def)
  have "fst (cr_scores run') + snd (cr_scores run') = word_sum lm (acc @ [w]) 0 (length (acc @ [w]))"
    using run v score by (cases "cr_scores run") (simp add: run'_def run_ok_def updateChartScore_def word_sum_append ngram_prob_def)
  moreover have "last_n (?n - 1) (cr_context run') = last_n (?n - 1) (acc @ [w])" by (simp add: run'_def last_n_last_n)
  moreover have "fst (cr_scores run') = word_sum lm (acc @ [w]) 0 (min (?n - 1) (length (acc @ [w])))
      \<and> min (cr_wordPos run') (?n - 1) = min (length (acc @ [w])) (?n - 1)" if start: "no_start lm (acc @ [w])"
  proof -
    have old: "fst (cr_scores run) = word_sum lm acc 0 (min (?n - 1) (length acc))" "min (cr_wordPos run) (?n - 1) = min (length acc) (?n - 1)"
      using run start by (simp_all add: run_ok_def no_start_def)
    then have less: "pos < ?n \<longleftrightarrow> length (acc @ [w]) < ?n" using n(1) by (simp add: pos_def min_def split: if_splits) linarith
    have new: "fst (cr_scores run') = (if pos < ?n then fst (cr_scores run) + UntransformLMScore x else fst (cr_scores run))"
      by (simp add: run'_def updateChartScore_def split: prod.splits)
    show ?thesis
    proof (cases "length (acc @ [w]) < ?n")
      case True
      then show ?thesis using new old less v score by (simp add: run'_def pos_def word_sum_append ngram_prob_def min_def split: if_splits)
    next
      case False
      then have "min (?n - 1) (length (acc @ [w])) = min (?n - 1) (length acc)" by simp
      then show ?thesis using False new old less by (simp add: run'_def pos_def word_sum_append)
    qed
  qed
  ultimately show ?thesis using eq right by (intro exI [of _ run'] conjI) (simp_all add: run_ok_def run'_def)
qed

lemma run_ok_words:
  assumes n: "0 < im_order lm" "im_order lm < SIZE_RANGE"
  shows "run_ok lm acc run \<Longrightarrow> no_start lm (take k ws) \<Longrightarrow> k \<le> length ws \<Longrightarrow>
    \<exists>run'. rfold (\<lambda>pos run. rbind (array_get ws pos) (\<lambda>w. rbind (push_word lm w run) (\<lambda>run. Inr (score_pushed lm run)))) [0..<k] run = Inr run'
      \<and> run_ok lm (acc @ take k ws) run'"
proof (induction k)
  case (Suc k)
  have take: "take (Suc k) ws = take k ws @ [ws ! k]" using Suc.prems(3) by (simp add: take_Suc_conv_app_nth)
  then have "no_start lm (take k ws)" "\<not> word_eq (ws ! k) (im_start lm)" using Suc.prems(2) by (simp_all add: no_start_def)
  moreover from this(1) obtain run1 where "rfold (\<lambda>pos run. rbind (array_get ws pos) (\<lambda>w. rbind (push_word lm w run) (\<lambda>run. Inr (score_pushed lm run)))) [0..<k] run = Inr run1"
    "run_ok lm (acc @ take k ws) run1" using Suc by auto
  ultimately show ?case using run_ok_word [OF n, of "acc @ take k ws" run1 "ws ! k"] Suc.prems(3) take by (auto simp: rfold_append)
qed simp

text \<open>Words that are pushed only.\<close>

lemma push_words_eq:
  assumes n: "0 < im_order lm" "im_order lm < SIZE_RANGE"
    and f: "\<And>run x. f (run\<lparr>cr_context := x\<rparr>) = (f run)\<lparr>cr_context := x\<rparr>"
  shows "length (cr_context run) \<le> im_order lm \<Longrightarrow> i \<le> j \<Longrightarrow> j \<le> length ws \<Longrightarrow>
    rfold (\<lambda>pos run. rbind (array_get ws pos) (\<lambda>w. rbind (push_word lm w run) (\<lambda>run. Inr (f run)))) [i..<j] run
      = Inr (((f ^^ (j - i)) run)\<lparr>cr_context := last_n (im_order lm) (cr_context run @ drop i (take j ws))\<rparr>)"
proof (induction j)
  case (Suc j)
  have pow: "(f ^^ k) (run\<lparr>cr_context := x\<rparr>) = ((f ^^ k) run)\<lparr>cr_context := x\<rparr>" for k run x by (induction k) (simp_all add: f)
  show ?case
  proof (cases "i \<le> j")
    case True
    have "drop i (take (Suc j) ws) = drop i (take j ws) @ [ws ! j]" using Suc.prems(3) True by (simp add: take_Suc_conv_app_nth)
    then have c: "last_n (im_order lm) (last_n (im_order lm) (cr_context run @ drop i (take j ws)) @ [ws ! j])
        = last_n (im_order lm) (cr_context run @ drop i (take (Suc j) ws))"
      using last_n_append_cong [of "im_order lm" "last_n (im_order lm) (cr_context run @ drop i (take j ws))" "cr_context run @ drop i (take j ws)" "[ws ! j]"]
      by (simp add: last_n_last_n)
    have "Suc j - i = Suc (j - i)" using True by simp
    then show ?thesis using Suc True by (simp add: rfold_append push_word_eq [OF n] f c)
  next
    case False
    then have "i = Suc j" using Suc.prems(2) by simp
    then show ?thesis using Suc.prems by simp
  qed
qed simp

text \<open>The state of a previous hypothesis and its score.\<close>

definition state_ok :: "'l lm_impl \<Rightarrow> word list \<Rightarrow> 'l chart_lm_state \<Rightarrow> bool" where
  "state_ok lm ws s \<longleftrightarrow> cs_prefix s = take (im_order lm - 1) ws \<and> cs_suffix s = last_n (im_order lm - 1) ws
     \<and> cs_numTargetTerminals s = length ws \<and> cs_rightContext s = right_context lm ws
     \<and> (no_start lm ws \<longrightarrow> cs_prefixScore s = word_sum lm ws 0 (min (im_order lm - 1) (length ws)))"

text \<open>A non-terminal at the start of a rule.\<close>

lemma first_nonterminal_ok:
  assumes n: "1 < im_order lm" "im_order lm < 2 ^ 31" and s: "state_ok lm ws s"
    and score: "lm_score_of sim scorer h = Inr (word_sum lm ws 0 (length ws))"
    and run: "cr_context run = []" "cr_wordPos run = 0"
  shows "\<exists>run'. chart_first_nonterminal lm sim scorer h s run = Inr run' \<and> run_ok lm ws run'"
proof -
  let ?n = "im_order lm" and ?x = "cs_suffix s"
  have n': "0 < ?n" "?n < SIZE_RANGE" "sz_sub ?n 1 = ?n - 1" using n by (simp_all add: SIZE_RANGE_def)
  have len: "length ?x \<le> ?n - 1" "?x = last_n (?n - 1) ws" using s by (simp_all add: state_ok_def)
  have "to_int32 (sz_sub (length ?x) (?n - 1)) \<le> 0"
  proof -
    have "sz_add (sz_sub (length ?x) (?n - 1)) 0 = sz_sub (length ?x) (?n - 1)" by (simp add: sz_add_def sz_sub_less)
    moreover have "to_int32 (sz_add (sz_sub (length ?x) (?n - 1)) 0) = int (length ?x) - int (?n - 1) + int 0"
      by (rule to_int32_difference) (use len n in auto)
    ultimately show ?thesis using len by simp
  qed
  then have start: "(if to_int32 (sz_sub (length ?x) (sz_sub ?n 1)) < 0 then 0 else nat (to_int32 (sz_sub (length ?x) (sz_sub ?n 1)))) = 0"
    unfolding n'(3) by simp
  define run0 where "run0 = run\<lparr>cr_scores := (cs_prefixScore s, word_sum lm ws 0 (length ws) - cs_prefixScore s), cr_state := cs_rightContext s\<rparr>"
  let ?f = "\<lambda>run :: 'a chart_lm_run. run\<lparr>cr_wordPos := cr_wordPos run + 1\<rparr>"
  have pow: "(?f ^^ k) run0 = run0\<lparr>cr_wordPos := k\<rparr>" for k using run(2) by (induction k) (simp_all add: run0_def)
  have ctx: "last_n ?n ?x = ?x" using len(1) by simp
  have c0: "cr_context run0 = []" using run(1) by (simp add: run0_def)
  have "rfold (\<lambda>pos run. rbind (array_get ?x pos) (\<lambda>w. rbind (push_word lm w run) (\<lambda>run. Inr (?f run)))) [0..<length ?x] run0
      = Inr (((?f ^^ (length ?x - 0)) run0)\<lparr>cr_context := last_n ?n (cr_context run0 @ drop 0 (take (length ?x) ?x))\<rparr>)"
    by (rule push_words_eq [OF n'(1,2)]) (simp_all add: c0)
  then have "chart_first_nonterminal lm sim scorer h s run = Inr (run0\<lparr>cr_wordPos := length ?x, cr_context := ?x\<rparr>)"
    unfolding chart_first_nonterminal_def score rbind_simps Let_def start run0_def [symmetric] by (simp only: pow c0 ctx append_Nil drop_0 take_all order_refl diff_zero)
  moreover have "run_ok lm ws (run0\<lparr>cr_wordPos := length ?x, cr_context := ?x\<rparr>)"
    using s len by (auto simp: run_ok_def state_ok_def run0_def last_n_last_n)
  ultimately show ?thesis by blast
qed

text \<open>A non-terminal inside a rule.\<close>

lemma rbind_Inr_right: "rbind r Inr = r"
  by (cases r) simp_all

lemma last_n_tail:
  assumes "m < length ws" "r = min (length ws - m) m"
  shows "last_n m (acc @ take m ws @ last_n r ws) = last_n m (acc @ ws)"
proof (cases "length ws - m \<le> m")
  case True
  then have "last_n r ws = drop m ws" using assms by (simp add: last_n_def)
  then show ?thesis by simp
next
  case False
  then have "r = m" using assms(2) by simp
  then show ?thesis using assms(1) by (simp add: last_n_append last_n_last_n)
qed

lemma right_context_append: "ws \<noteq> [] \<Longrightarrow> im_order lm \<le> length ws \<Longrightarrow> right_context lm (acc @ ws) = right_context lm ws"
  by (simp add: right_context_def last_n_append)

lemma large_phrase_ok:
  assumes n: "1 < im_order lm" "im_order lm < SIZE_RANGE" and s: "state_ok lm ws s"
    and score: "lm_score_of sim scorer h = Inr (word_sum lm ws 0 (length ws))" and ws: "no_start lm ws" "im_order lm - 1 < length ws"
    and run: "run_ok lm (acc @ take (im_order lm - 1) ws) run"
  shows "\<exists>run'. chart_large_phrase lm sim scorer h s run = Inr run' \<and> run_ok lm (acc @ ws) run'"
proof -
  let ?n = "im_order lm" and ?x = "cs_suffix s"
  let ?r = "min (length ws - (?n - 1)) (?n - 1)"
  let ?full = "word_sum lm ws 0 (length ws)"
  have n': "0 < ?n" "sz_sub ?n 1 = ?n - 1" using n by simp_all
  have x: "?x = last_n (?n - 1) ws" "length ?x = ?n - 1" and sub: "cs_numTargetTerminals s = length ws" using s ws(2) by (simp_all add: state_ok_def)
  have r: "(if cs_numTargetTerminals s - (?n - 1) > ?n - 1 then ?n - 1 else cs_numTargetTerminals s - (?n - 1)) = ?r" using sub by simp
  have pos: "sz_sub (length ?x) ?r = ?n - 1 - ?r" using x(2) n by simp
  define run0 where "run0 = run\<lparr>cr_scores := (fst (cr_scores run), snd (cr_scores run) + (?full - cs_prefixScore s)), cr_state := cs_rightContext s\<rparr>"
  have len: "length (cr_context run0) \<le> ?n" using run by (simp add: run0_def run_ok_def)
  have tail: "drop (?n - 1 - ?r) (take (length ?x) ?x) = last_n ?r ws"
  proof -
    have "length ws - (?n - 1) + (?n - 1 - ?r) = length ws - ?r" using ws(2) by (cases "length ws - (?n - 1) \<le> ?n - 1") simp_all
    moreover have "drop (?n - 1 - ?r) (take (length ?x) ?x) = drop (?n - 1 - ?r) ?x" by simp
    moreover have "drop (?n - 1 - ?r) ?x = drop (?n - 1 - ?r + (length ws - (?n - 1))) ws" unfolding x(1) last_n_def drop_drop by (rule refl)
    ultimately show ?thesis by (simp only: last_n_def add.commute)
  qed
  define ctx where "ctx = last_n ?n (cr_context run0 @ last_n ?r ws)"
  have "rfold (\<lambda>pos run. rbind (array_get ?x pos) (\<lambda>w. rbind (push_word lm w run) (\<lambda>run. Inr (id run)))) [?n - 1 - ?r..<length ?x] run0
      = Inr (((id ^^ (length ?x - (?n - 1 - ?r))) run0)\<lparr>cr_context := last_n ?n (cr_context run0 @ drop (?n - 1 - ?r) (take (length ?x) ?x))\<rparr>)"
    by (rule push_words_eq [OF n'(1) n(2)]) (use len x in simp_all)
  then have loop: "rfold (\<lambda>pos run. rbind (array_get ?x pos) (\<lambda>w. push_word lm w run)) [?n - 1 - ?r..<length ?x] run0 = Inr (run0\<lparr>cr_context := ctx\<rparr>)"
    by (simp only: tail ctx_def [symmetric] id_funpow id_apply rbind_Inr_right)
  define run' where "run' = run0\<lparr>cr_context := ctx, cr_wordPos := cr_wordPos run0 + length ws\<rparr>"
  have eq: "chart_large_phrase lm sim scorer h s run = Inr run'"
    unfolding chart_large_phrase_def score rbind_simps Let_def n'(2) r pos run0_def [symmetric] loop by (simp add: run'_def sub)
  have "last_n (?n - 1) ctx = last_n (?n - 1) ((acc @ take (?n - 1) ws) @ last_n ?r ws)"
    unfolding ctx_def using run by (simp only: last_n_last_n diff_le_self) (rule last_n_append_cong, simp add: run0_def run_ok_def)
  also have "\<dots> = last_n (?n - 1) (acc @ ws)" unfolding append_assoc by (rule last_n_tail [OF ws(2) refl])
  finally have c: "last_n (?n - 1) ctx = last_n (?n - 1) (acc @ ws)" "length ctx \<le> ?n" by (simp_all add: ctx_def)
  have take: "acc @ ws = (acc @ take (?n - 1) ws) @ drop (?n - 1) ws" "length (acc @ take (?n - 1) ws) = length acc + (?n - 1)" using ws(2) by simp_all
  have sums: "word_sum lm (acc @ take (?n - 1) ws) 0 j = word_sum lm (acc @ ws) 0 j" if "j \<le> length acc + (?n - 1)" for j
    using that take word_sum_append [of j "acc @ take (?n - 1) ws" lm "drop (?n - 1) ws" 0] by simp
  have "cs_prefixScore s = word_sum lm ws 0 (?n - 1)" using s ws by (simp add: state_ok_def)
  then have rest: "?full - cs_prefixScore s = word_sum lm (acc @ ws) (length acc + (?n - 1)) (length (acc @ ws))"
    using word_sum_concat [of 0 "?n - 1" "length ws" lm ws] word_sum_shift [of lm "?n - 1" "length ws" ws acc] ws(2) n(1) by simp
  have "fst (cr_scores run) + snd (cr_scores run) = word_sum lm (acc @ ws) 0 (length acc + (?n - 1))"
    using run take(2) sums [of "length acc + (?n - 1)"] by (simp add: run_ok_def)
  then have total: "fst (cr_scores run') + snd (cr_scores run') = word_sum lm (acc @ ws) 0 (length (acc @ ws))"
    using rest word_sum_concat [of 0 "length acc + (?n - 1)" "length (acc @ ws)" lm "acc @ ws"] ws(2) by (simp add: run'_def run0_def)
  have "fst (cr_scores run') = word_sum lm (acc @ ws) 0 (min (?n - 1) (length (acc @ ws)))" if "no_start lm (acc @ ws)"
  proof -
    have "no_start lm (acc @ take (?n - 1) ws)" using that by (auto simp: no_start_def list_all_iff dest: in_set_takeD)
    then show ?thesis using run take(2) sums [of "?n - 1"] ws(2) by (simp add: run_ok_def run'_def run0_def min_def)
  qed
  moreover have "right_context lm (acc @ ws) = right_context lm ws" by (rule right_context_append) (use ws(2) in auto)
  ultimately have "run_ok lm (acc @ ws) run'"
    using c total s ws by (auto simp: run_ok_def run'_def run0_def state_ok_def)
  then show ?thesis using eq by blast
qed

lemma inner_nonterminal_ok:
  assumes n: "1 < im_order lm" "im_order lm < SIZE_RANGE" and s: "state_ok lm ws s"
    and score: "lm_score_of sim scorer h = Inr (word_sum lm ws 0 (length ws))" and ws: "no_start lm ws" and run: "run_ok lm acc run"
  shows "\<exists>run'. chart_inner_nonterminal lm sim scorer h s run = Inr run' \<and> run_ok lm (acc @ ws) run'"
proof -
  let ?n = "im_order lm"
  have n': "0 < ?n" "sz_sub ?n 1 = ?n - 1" using n by simp_all
  have x: "cs_prefix s = take (?n - 1) ws" "cs_numTargetTerminals s = length ws" using s by (simp_all add: state_ok_def)
  have "no_start lm (take (min (?n - 1) (length ws)) (cs_prefix s))" using ws x(1) by (auto simp: no_start_def list_all_iff dest: in_set_takeD)
  then obtain run1 where run1: "rfold (\<lambda>pos run. rbind (array_get (cs_prefix s) pos) (\<lambda>w. rbind (push_word lm w run) (\<lambda>run. Inr (score_pushed lm run))))
      [0..<min (?n - 1) (length ws)] run = Inr run1" "run_ok lm (acc @ take (min (?n - 1) (length ws)) (cs_prefix s)) run1"
    using run_ok_words [OF n'(1) n(2) run, of "min (?n - 1) (length ws)" "cs_prefix s"] x(1) by auto
  have ok: "run_ok lm (acc @ take (?n - 1) ws) run1" using run1(2) x(1) by (simp add: min_def split: if_splits)
  show ?thesis
  proof (cases "?n - 1 < length ws")
    case True
    then show ?thesis using large_phrase_ok [OF n s score ws True ok] run1(1) x(2) n' by (simp add: chart_inner_nonterminal_def)
  next
    case False
    then show ?thesis using run1(1) ok x(2) n' by (simp add: chart_inner_nonterminal_def)
  qed
qed

section \<open>Evaluated hypotheses\<close>

text \<open>The feature has one component of the breakdown.\<close>

definition one_component :: "score_index \<Rightarrow> score_producer \<Rightarrow> bool" where
  "one_component sim sp \<longleftrightarrow> sp_components sp = 1 \<and>
     (case (GetBeginIndex sim (sp_id sp), GetEndIndex sim (sp_id sp)) of (Inr b, Inr e) \<Rightarrow> e = Suc b | _ \<Rightarrow> False)"

text \<open>A hypothesis whose state and score are those EvaluateChart gave it, and so are its previous hypotheses'.\<close>

fun lm_evaluated :: "'l lm_impl \<Rightarrow> score_index \<Rightarrow> score_producer \<Rightarrow> nat \<Rightarrow> 'l lm_hypo \<Rightarrow> bool" where
  "lm_evaluated lm sim sp featureID (Hypo i tp r st bd sc arcs prev win) \<longleftrightarrow>
     list_all (lm_evaluated lm sim sp featureID) prev \<and>
     (\<exists>s out out'. GetFFState featureID (Hypo i tp r st bd sc arcs prev win) = Inr s
        \<and> EvaluateChart lm sim sp featureID (Hypo i tp r st bd sc arcs prev win) out = Inr (s, out')
        \<and> GetScoresForProducer sim sp out' = GetScoresForProducer sim sp bd)"

text \<open>Sentence starts occur only at the start of a rule, or in the output of a non-terminal there.\<close>

fun starts_ok :: "'l lm_impl \<Rightarrow> 'l lm_hypo \<Rightarrow> bool" where
  "starts_ok lm (Hypo i tp r st bd sc arcs prev win) \<longleftrightarrow> list_all (starts_ok lm) prev
     \<and> list_all (\<lambda>pos. no_start lm (piece tp (map hypo_yield prev) pos)) [1..<length (tp_words tp)]"

lemma GetFFState_eq: "GetFFState featureID (Hypo i tp r st bd sc arcs prev win) = Inr s \<longleftrightarrow> featureID < length st \<and> st ! featureID = Some s"
  by (auto simp: GetFFState_def rbind_eq_Inr array_get_eq_Inr split: option.splits)

lemma evaluated_edges:
  assumes "wf_hypo h" "lm_evaluated lm sim sp featureID h" "1 < im_order lm" "im_order lm < SIZE_RANGE"
  shows "edges_ok (im_order lm) featureID h"
  using assms(1,2)
proof (induction h)
  case (Hypo i tp r st bd sc arcs prev win)
  let ?h = "Hypo i tp r st bd sc arcs prev win"
  have edges: "list_all (edges_ok (im_order lm) featureID) (h_prev ?h)" using Hypo by (auto simp: list_all_iff)
  obtain s out out' where s: "GetFFState featureID ?h = Inr s" "EvaluateChart lm sim sp featureID ?h out = Inr (s, out')"
    using Hypo.prems(2) by auto
  note st = LanguageModelChartState_eq [OF Hypo.prems(1) edges assms(3,4)]
  have "cs_prefix s = take (im_order lm - 1) (hypo_yield ?h)" "cs_suffix s = last_n (im_order lm - 1) (hypo_yield ?h)"
    "cs_numTargetTerminals s = length (hypo_yield ?h)"
    using s(2) unfolding EvaluateChart_def st rbind_simps by (auto simp: rbind_eq_Inr simp del: hypo_yield.simps)
  then show ?case using s(1) edges by (auto simp: GetFFState_eq Let_def simp del: hypo_yield.simps)
qed

lemma assigned_score:
  assumes "one_component sim sp" "Assign_one sim sp x out = Inr out'" "GetScoresForProducer sim sp out' = GetScoresForProducer sim sp (h_breakdown h)"
  shows "lm_score_of sim sp h = Inr x"
proof -
  obtain b where b: "GetBeginIndex sim (sp_id sp) = Inr b" "GetEndIndex sim (sp_id sp) = Inr (Suc b)" "sp_components sp = 1"
    using assms(1) by (auto simp: one_component_def split: sum.splits)
  have "b < length out" "out' = out[b := x]" using assms(2) b by (auto simp: Assign_one_def update_at_def rbind_eq_Inr array_get_eq_Inr)
  then have "GetScoresForProducer sim sp out' = Inr [x]" using b by (simp add: GetScoresForProducer_def)
  then show ?thesis unfolding lm_score_of_def assms(3) [symmetric] by simp
qed

text \<open>The state of a previous hypothesis.\<close>

definition summarised :: "'l lm_impl \<Rightarrow> score_index \<Rightarrow> score_producer \<Rightarrow> nat \<Rightarrow> 'l lm_hypo \<Rightarrow> bool" where
  "summarised lm sim sp featureID h \<longleftrightarrow> (\<exists>s. GetFFState featureID h = Inr s \<and> state_ok lm (hypo_yield h) s)
     \<and> lm_score_of sim sp h = Inr (word_sum lm (hypo_yield h) 0 (length (hypo_yield h)))"

lemma chart_position_ok:
  assumes n: "1 < im_order lm" "im_order lm < 2 ^ 31" and h: "wf_hypo h" "list_all (summarised lm sim sp featureID) (h_prev h)" "starts_ok lm h"
    and pos: "pos < length (tp_words (h_tp h))" and run: "run_ok lm acc run" "pos = 0 \<Longrightarrow> acc = [] \<and> cr_context run = [] \<and> cr_wordPos run = 0 \<and> cr_scores run = (0, 0)"
  shows "\<exists>run'. chart_position lm sim sp featureID h pos run = Inr run' \<and> run_ok lm (acc @ piece (h_tp h) (map hypo_yield (h_prev h)) pos) run'"
proof -
  let ?tp = "h_tp h" and ?ys = "map hypo_yield (h_prev h)"
  have n': "0 < im_order lm" "im_order lm < SIZE_RANGE" using n by (simp_all add: SIZE_RANGE_def)
  have wf: "wf_phrase ?tp" "length (h_prev h) = length (tp_align ?tp)" using h(1) by (cases h; simp)+
  have start: "no_start lm (piece ?tp ?ys pos)" if "pos \<noteq> 0" using h(3) pos that by (cases h) (auto simp: list_all_iff)
  show ?thesis
  proof (cases "IsNonTerminal (tp_words ?tp ! pos)")
    case True
    note prev = previous_at_eq [OF wf pos True]
    let ?g = "h_prev h ! source_rank ?tp pos"
    obtain s where s: "GetFFState featureID ?g = Inr s" "state_ok lm (hypo_yield ?g) s"
      "lm_score_of sim sp ?g = Inr (word_sum lm (hypo_yield ?g) 0 (length (hypo_yield ?g)))"
      using h(2) prev(2) by (auto simp: summarised_def list_all_length)
    have piece: "piece ?tp ?ys pos = hypo_yield ?g" using True prev(2) by (simp add: piece_def)
    show ?thesis
    proof (cases "pos = 0")
      case first: True
      then show ?thesis using first_nonterminal_ok [OF n s(2,3)] run(2) True prev(1) s(1) pos piece
        by (simp add: chart_position_def)
    next
      case False
      then show ?thesis using inner_nonterminal_ok [OF n(1) n'(2) s(2,3) _ run(1)] start piece True prev(1) s(1) pos
        by (simp add: chart_position_def)
    qed
  next
    case False
    let ?w = "tp_words ?tp ! pos"
    have piece: "piece ?tp ?ys pos = [?w]" using False by (simp add: piece_def)
    show ?thesis
    proof (cases "word_eq ?w (im_start lm)")
      case True
      then have "pos = 0" using start piece by (auto simp: no_start_def)
      then show ?thesis using run True False pos piece n
        by (auto simp: chart_position_def chart_terminal_def push_word_eq [OF n'] run_ok_def right_context_def no_start_def word_score_def)
    next
      case word: False
      have "\<exists>run'. rbind (push_word lm ?w run) (\<lambda>run. Inr (score_pushed lm run)) = Inr run' \<and> run_ok lm (acc @ [?w]) run'"
        by (rule run_ok_word [OF n' run(1) word])
      then show ?thesis using False word pos piece by (simp add: chart_position_def chart_terminal_def)
    qed
  qed
qed

lemma rule_loop:
  assumes n: "1 < im_order lm" "im_order lm < 2 ^ 31" and h: "wf_hypo h" "list_all (summarised lm sim sp featureID) (h_prev h)" "starts_ok lm h"
    and k: "k \<le> length (tp_words (h_tp h))"
  defines "init \<equiv> \<lparr>cr_context = [], cr_state = NewState lm (Some (im_null lm)), cr_scores = (0, 0), cr_wordPos = 0\<rparr>"
  shows "\<exists>run. rfold (chart_position lm sim sp featureID h) [0..<k] init = Inr run \<and> (k = 0 \<longrightarrow> run = init)
    \<and> run_ok lm (concat (map (piece (h_tp h) (map hypo_yield (h_prev h))) [0..<k])) run"
  using k
proof (induction k)
  case 0
  then show ?case by (simp add: run_ok_def init_def right_context_def NewState_def no_start_def)
next
  case (Suc k)
  then obtain run where run: "rfold (chart_position lm sim sp featureID h) [0..<k] init = Inr run" "k = 0 \<longrightarrow> run = init"
    "run_ok lm (concat (map (piece (h_tp h) (map hypo_yield (h_prev h))) [0..<k])) run" by auto
  have "\<exists>run'. chart_position lm sim sp featureID h k run = Inr run'
      \<and> run_ok lm (concat (map (piece (h_tp h) (map hypo_yield (h_prev h))) [0..<k]) @ piece (h_tp h) (map hypo_yield (h_prev h)) k) run'"
    by (rule chart_position_ok [OF n h _ run(3)]) (use Suc.prems run(2) in \<open>auto simp: init_def\<close>)
  then show ?case using run(1) by (auto simp: rfold_append)
qed

lemma EvaluateChart_step:
  assumes n: "1 < im_order lm" "im_order lm < 2 ^ 31" and h: "wf_hypo h" "list_all (summarised lm sim sp featureID) (h_prev h)" "starts_ok lm h"
    and edges: "list_all (edges_ok (im_order lm) featureID) (h_prev h)"
  shows "\<exists>s. state_ok lm (hypo_yield h) s \<and> cs_range s = h_range h \<and> (\<forall>out. EvaluateChart lm sim sp featureID h out
    = rbind (Assign_one sim sp (word_sum lm (hypo_yield h) 0 (length (hypo_yield h))) out) (\<lambda>out'. Inr (s, out')))"
proof -
  let ?ws = "hypo_yield h"
  have n': "im_order lm < SIZE_RANGE" using n by (simp add: SIZE_RANGE_def)
  have ws: "concat (map (piece (h_tp h) (map hypo_yield (h_prev h))) [0..<length (tp_words (h_tp h))]) = ?ws"
    by (cases h) (simp add: hypo_yield_pieces del: hypo_yield.simps)
  from rule_loop [OF n h le_refl, unfolded ws] obtain run where run: "rfold (chart_position lm sim sp featureID h) [0..<length (tp_words (h_tp h))]
      \<lparr>cr_context = [], cr_state = NewState lm (Some (im_null lm)), cr_scores = (0, 0), cr_wordPos = 0\<rparr> = Inr run" "run_ok lm ?ws run" by blast
  define s where "s = \<lparr>cs_prefixScore = fst (cr_scores run), cs_rightContext = cr_state run, cs_prefix = take (im_order lm - 1) ?ws,
    cs_suffix = last_n (im_order lm - 1) ?ws, cs_numTargetTerminals = length ?ws, cs_range = h_range h\<rparr>"
  have "state_ok lm ?ws s" using run(2) by (simp add: state_ok_def s_def run_ok_def)
  moreover have "EvaluateChart lm sim sp featureID h out
    = rbind (Assign_one sim sp (word_sum lm ?ws 0 (length ?ws)) out) (\<lambda>out'. Inr (s, out'))" for out
    using LanguageModelChartState_eq [OF h(1) edges n(1) n'] run by (simp add: EvaluateChart_def s_def run_ok_def)
  ultimately show ?thesis by (intro exI [of _ s]) (simp add: s_def)
qed

lemma evaluated_summarised:
  assumes n: "1 < im_order lm" "im_order lm < 2 ^ 31" and sp: "one_component sim sp"
    and h: "wf_hypo h" "starts_ok lm h" "lm_evaluated lm sim sp featureID h"
  shows "summarised lm sim sp featureID h"
  using h
proof (induction h)
  case (Hypo i tp r st bd sc arcs prev win)
  let ?h = "Hypo i tp r st bd sc arcs prev win"
  have n': "im_order lm < SIZE_RANGE" using n by (simp add: SIZE_RANGE_def)
  have prev: "list_all (summarised lm sim sp featureID) (h_prev ?h)" "list_all (edges_ok (im_order lm) featureID) (h_prev ?h)"
    using Hypo evaluated_edges [OF _ _ n(1) n'] by (auto simp: list_all_iff)
  from EvaluateChart_step [OF n Hypo.prems(1) prev(1) Hypo.prems(2) prev(2)] obtain s where s: "state_ok lm (hypo_yield ?h) s"
    "\<And>out. EvaluateChart lm sim sp featureID ?h out = rbind (Assign_one sim sp (word_sum lm (hypo_yield ?h) 0 (length (hypo_yield ?h))) out) (\<lambda>out'. Inr (s, out'))" by blast
  obtain t out out' where t: "GetFFState featureID ?h = Inr t" "EvaluateChart lm sim sp featureID ?h out = Inr (t, out')"
    "GetScoresForProducer sim sp out' = GetScoresForProducer sim sp (h_breakdown ?h)" using Hypo.prems(3) by auto
  have assign: "t = s" "Assign_one sim sp (word_sum lm (hypo_yield ?h) 0 (length (hypo_yield ?h))) out = Inr out'"
    using t(2) unfolding s(2) by (auto simp: rbind_eq_Inr)
  then show ?case using t(1) s(1) assigned_score [OF sp assign(2) t(3)] unfolding summarised_def by blast
qed

section \<open>Recombination\<close>

text \<open>Words with the same factors: the comparison of phrases is equality on them.\<close>

definition uniform_words :: "nat set \<Rightarrow> nat \<Rightarrow> word list \<Rightarrow> bool" where
  "uniform_words types m ws \<longleftrightarrow> m \<le> MAX_NUM_FACTORS \<and>
     list_all (\<lambda>w. \<not> IsNonTerminal w \<and> length (w_factors w) = m \<and> active w = types) ws"

lemma uniform_word_eq:
  assumes "uniform_words types m [w]" "uniform_words types m [v]" "Word_Compare w v = 0"
  shows "w = v"
proof -
  have "active w = active v" "word_eq w v" using assms by (simp_all add: uniform_words_def word_eq_def)
  then have none: "GetFactor w i = None \<longleftrightarrow> GetFactor v i = None" if "i < MAX_NUM_FACTORS" for i
    using that unfolding active_def set_eq_iff mem_Collect_eq by metis
  have "\<forall>i < MAX_NUM_FACTORS. GetFactor w i = GetFactor v i" using \<open>word_eq w v\<close> none unfolding word_eq_iff by metis
  then have eq: "GetFactor w i = GetFactor v i" if "i < m" for i using that assms(1) by (simp add: uniform_words_def)
  have "w_factors w = w_factors v"
  proof (rule nth_equalityI)
    fix i assume "i < length (w_factors w)"
    then show "w_factors w ! i = w_factors v ! i" using eq [of i] assms(1,2) by (simp add: uniform_words_def GetFactor_def)
  qed (use assms(1,2) in \<open>simp add: uniform_words_def\<close>)
  then show ?thesis using assms(1,2) by (simp add: uniform_words_def)
qed

lemma uniform_Phrase_Compare:
  assumes "uniform_words types m ws" "uniform_words types m vs" "Phrase_Compare ws vs = 0"
  shows "ws = vs"
proof -
  have "length ws = length vs" "compare_words ws vs = 0" using assms(3) by (auto simp: Phrase_Compare_def split: if_splits)
  then show ?thesis using assms(1,2)
  proof (induction ws vs rule: list_induct2)
    case (Cons w ws v vs)
    have "Word_Compare w v = 0" "compare_words ws vs = 0" using Cons.prems(1) by (auto simp: Let_def split: if_splits)
    moreover have "uniform_words types m [w]" "uniform_words types m ws" "uniform_words types m [v]" "uniform_words types m vs"
      using Cons.prems(2,3) by (simp_all add: uniform_words_def)
    ultimately show ?case using Cons.IH uniform_word_eq by blast
  qed simp
qed

text \<open>What a model has to promise: outputs after which it is in the same state give every continuation the same scores.\<close>

definition state_determines :: "'l lm_impl \<Rightarrow> bool" where
  "state_determines lm \<longleftrightarrow> (\<forall>xs ys vs. right_context lm xs = right_context lm ys \<longrightarrow> vs \<noteq> []
     \<longrightarrow> ngram_prob lm (last_n (im_order lm) (xs @ vs)) = ngram_prob lm (last_n (im_order lm) (ys @ vs)))"

text \<open>The words after an output, scored in its context.\<close>

lemma continuation_score:
  assumes "state_determines lm" "right_context lm xs = right_context lm ys" "k < length vs"
  shows "word_score lm (xs @ vs) (length xs + k) = word_score lm (ys @ vs) (length ys + k)"
proof -
  have "take (Suc k) vs \<noteq> []" using assms(3) by auto
  then have "ngram_prob lm (last_n (im_order lm) (xs @ take (Suc k) vs)) = ngram_prob lm (last_n (im_order lm) (ys @ take (Suc k) vs))"
    using assms(1,2) unfolding state_determines_def by blast
  then show ?thesis by (simp add: word_score_def output_ngram_def)
qed

lemma continuation_sum:
  assumes "state_determines lm" "right_context lm xs = right_context lm ys"
  shows "word_sum lm (xs @ vs) (length xs) (length (xs @ vs)) = word_sum lm (ys @ vs) (length ys) (length (ys @ vs))"
proof -
  have shift: "word_sum lm (zs @ vs) (length zs) (length (zs @ vs)) = (\<Sum>k = 0..<length vs. word_score lm (zs @ vs) (length zs + k))" for zs
    unfolding word_sum_def using sum.shift_bounds_nat_ivl [of "word_score lm (zs @ vs)" 0 "length zs" "length vs"] by (simp add: add.commute)
  show ?thesis unfolding shift by (rule sum.cong) (use continuation_score [OF assms] in auto)
qed

text \<open>The words of an output in a larger context: only the first n - 1 depend on it.\<close>

lemma inner_sum:
  assumes "0 < im_order lm" "im_order lm - 1 \<le> length ys"
  shows "word_sum lm (xs @ ys) (length xs) (length (xs @ ys)) - word_sum lm ys 0 (length ys)
    = word_sum lm (xs @ take (im_order lm - 1) ys) (length xs) (length xs + (im_order lm - 1)) - word_sum lm (take (im_order lm - 1) ys) 0 (im_order lm - 1)"
proof -
  let ?m = "im_order lm - 1"
  have split: "xs @ ys = (xs @ take ?m ys) @ drop ?m ys" "ys = take ?m ys @ drop ?m ys" by simp_all
  have "word_sum lm (xs @ ys) (length xs) (length xs + ?m) = word_sum lm (xs @ take ?m ys) (length xs) (length xs + ?m)"
    using word_sum_append [of "length xs + ?m" "xs @ take ?m ys" lm "drop ?m ys" "length xs"] assms(2) by simp
  moreover have "word_sum lm ys 0 ?m = word_sum lm (take ?m ys) 0 ?m"
    using word_sum_append [of ?m "take ?m ys" lm "drop ?m ys" 0] assms(2) by simp
  moreover have "word_sum lm (xs @ ys) (length xs + ?m) (length xs + length ys) = word_sum lm ys ?m (length ys)"
    by (rule word_sum_shift) (use assms in simp_all)
  ultimately show ?thesis
    using word_sum_concat [of "length xs" "length xs + ?m" "length (xs @ ys)" lm "xs @ ys"] word_sum_concat [of 0 ?m "length ys" lm ys] assms(2) by simp
qed

lemma tail_sum:
  assumes "im_order lm - 1 \<le> length ys"
  shows "word_sum lm (xs @ ys @ vs) (length (xs @ ys)) (length (xs @ ys @ vs)) = word_sum lm (ys @ vs) (length ys) (length (ys @ vs))"
  using word_sum_shift [of lm "length ys" "length (ys @ vs)" "ys @ vs" xs] assms by simp

lemma three_sums:
  "word_sum lm (xs @ ys @ vs) 0 (length (xs @ ys @ vs)) = word_sum lm xs 0 (length xs)
     + word_sum lm (xs @ ys) (length xs) (length (xs @ ys)) + word_sum lm (xs @ ys @ vs) (length (xs @ ys)) (length (xs @ ys @ vs))"
  using word_sum_concat [of 0 "length xs" "length (xs @ ys)" lm "xs @ ys @ vs"]
    word_sum_concat [of 0 "length (xs @ ys)" "length (xs @ ys @ vs)" lm "xs @ ys @ vs"]
    word_sum_append [of "length xs" xs lm "ys @ vs" 0] word_sum_append [of "length (xs @ ys)" "xs @ ys" lm vs "length xs"] by simp

text \<open>An output in a larger one, when its prefix and its right context are those of another output.\<close>

lemma context_difference:
  assumes n: "1 < im_order lm" and det: "state_determines lm" and pre: "take (im_order lm - 1) ys = take (im_order lm - 1) zs"
    and right: "vs \<noteq> [] \<Longrightarrow> right_context lm ys = right_context lm zs"
  shows "word_sum lm (xs @ ys @ vs) 0 (length (xs @ ys @ vs)) - word_sum lm ys 0 (length ys)
    = word_sum lm (xs @ zs @ vs) 0 (length (xs @ zs @ vs)) - word_sum lm zs 0 (length zs)"
proof (cases "length ys < im_order lm - 1 \<or> length zs < im_order lm - 1")
  case True
  have "length (take (im_order lm - 1) ys) = length (take (im_order lm - 1) zs)" using pre by simp
  then have "ys = zs" using True pre by (auto simp: min_def split: if_splits)
  then show ?thesis by simp
next
  case False
  then have long: "im_order lm - 1 \<le> length ys" "im_order lm - 1 \<le> length zs" by simp_all
  have "word_sum lm (ys @ vs) (length ys) (length (ys @ vs)) = word_sum lm (zs @ vs) (length zs) (length (zs @ vs))"
    using continuation_sum [OF det right] by (cases "vs = []") simp_all
  then show ?thesis
    using three_sums [of lm xs ys vs] three_sums [of lm xs zs vs] tail_sum [OF long(1), of xs vs] tail_sum [OF long(2), of xs vs]
      inner_sum [OF _ long(1), of xs] inner_sum [OF _ long(2), of xs] n pre by simp
qed

section \<open>Models of order 1\<close>

text \<open>Every output has words, and every hypothesis of a non-terminal has its state.\<close>

fun full_outputs :: "nat \<Rightarrow> 'l lm_hypo \<Rightarrow> bool" where
  "full_outputs featureID (Hypo i tp r st bd sc arcs prev win) \<longleftrightarrow>
     hypo_yield (Hypo i tp r st bd sc arcs prev win) \<noteq> [] \<and> list_all (full_outputs featureID) prev
     \<and> list_all (\<lambda>g. \<exists>s. GetFFState featureID g = Inr s) prev"

text \<open>The size after it has been decremented from a value that stands for it modulo 2 ^ 64.\<close>

lemma unbounded_prefix_loop:
  assumes "\<And>pos p k. pos \<in> set ps \<Longrightarrow> IsNonTerminal (tp_words tp ! pos) \<Longrightarrow> length (piece tp ys pos) < k \<Longrightarrow> k \<le> SIZE_RANGE \<Longrightarrow>
      \<exists>sub. previous_at tp subs pos = Inr sub \<and> sub p (k mod SIZE_RANGE) = Inr (p @ piece tp ys pos, k - length (piece tp ys pos))"
    and "\<forall>pos \<in> set ps. pos < length (tp_words tp) \<and> piece tp ys pos \<noteq> []"
    and "length (concat (map (piece tp ys) ps)) < k" "k \<le> SIZE_RANGE" "ps \<noteq> []"
  shows "edge_loop (\<lambda>p w. p @ [w]) subs tp ps p (k mod SIZE_RANGE)
    = Inr (p @ concat (map (piece tp ys) ps), k - length (concat (map (piece tp ys) ps)))"
  using assms
proof (induction ps arbitrary: p k)
  case (Cons pos ps)
  let ?x = "piece tp ys pos"
  have "?x \<noteq> []" using Cons.prems(2) by simp
  then have pos: "0 < length ?x" by simp
  moreover have "length ?x < k" using Cons.prems(3) by simp
  ultimately have x: "0 < length ?x" "length ?x < k" "k - length ?x < SIZE_RANGE" using Cons.prems(4) by linarith+
  have dec: "sz_sub (k mod SIZE_RANGE) 1 = k - 1"
  proof (cases "k = SIZE_RANGE")
    case True
    then show ?thesis by (simp add: sz_sub_def SIZE_RANGE_def)
  next
    case False
    then show ?thesis using x Cons.prems(4) by simp
  qed
  have first: "(if IsNonTerminal (tp_words tp ! pos) then rbind (previous_at tp subs pos) (\<lambda>sub. sub p (k mod SIZE_RANGE))
      else Inr (p @ [tp_words tp ! pos], sz_sub (k mod SIZE_RANGE) 1)) = Inr (p @ ?x, k - length ?x)"
    using Cons.prems(1) [of pos k p] Cons.prems(4) x(2) dec by (auto simp: piece_def)
  have mod: "(k - length ?x) mod SIZE_RANGE = k - length ?x" using x(3) by simp
  have "edge_loop (\<lambda>p w. p @ [w]) subs tp ps (p @ ?x) (k - length ?x)
      = Inr ((p @ ?x) @ concat (map (piece tp ys) ps), k - length ?x - length (concat (map (piece tp ys) ps)))"
  proof (cases "ps = []")
    case False
    have "edge_loop (\<lambda>p w. p @ [w]) subs tp ps (p @ ?x) ((k - length ?x) mod SIZE_RANGE)
      = Inr ((p @ ?x) @ concat (map (piece tp ys) ps), k - length ?x - length (concat (map (piece tp ys) ps)))"
      by (rule Cons.IH) (use Cons.prems False in auto)
    then show ?thesis unfolding mod .
  qed simp
  then show ?case using first x Cons.prems(2) by simp
qed simp

lemma full_outputs_nonempty: "full_outputs featureID h \<Longrightarrow> hypo_yield h \<noteq> []"
  by (cases h) (simp del: hypo_yield.simps)

lemma unbounded_prefix:
  assumes "wf_hypo h" "full_outputs featureID h" "length (hypo_yield h) < k" "k \<le> SIZE_RANGE"
  shows "CalcPrefix featureID h p (k mod SIZE_RANGE) = Inr (p @ hypo_yield h, k - length (hypo_yield h))"
  using assms
proof (induction h arbitrary: p k)
  case (Hypo i tp r st bd sc arcs prev win)
  have wf: "wf_phrase tp" "length prev = length (tp_align tp)" and prev: "list_all wf_hypo prev" "list_all (full_outputs featureID) prev"
    "list_all (\<lambda>g. \<exists>s. GetFFState featureID g = Inr s) prev"
    using Hypo.prems(1,2) by simp_all
  have sub: "\<exists>h \<in> set prev. piece tp (map hypo_yield prev) pos = hypo_yield h
      \<and> (\<forall>q j. length (hypo_yield h) < j \<longrightarrow> j \<le> SIZE_RANGE \<longrightarrow>
         (\<exists>sub. previous_at tp (map (\<lambda>h p k. rbind (GetFFState featureID h) (\<lambda>_. CalcPrefix featureID h p k)) prev) pos = Inr sub
            \<and> sub q (j mod SIZE_RANGE) = Inr (q @ hypo_yield h, j - length (hypo_yield h))))"
    if "pos < length (tp_words tp)" "IsNonTerminal (tp_words tp ! pos)" for pos
  proof -
    from source_piece [OF wf that(1,2)] obtain h where h: "h \<in> set prev"
      and at: "\<And>f :: _ \<Rightarrow> phrase \<Rightarrow> nat \<Rightarrow> (phrase \<times> nat) result. previous_at tp (map f prev) pos = Inr (f h)"
        "piece tp (map hypo_yield prev) pos = hypo_yield h" by meson
    have ok: "wf_hypo h" "full_outputs featureID h" "\<exists>s. GetFFState featureID h = Inr s" using h prev by (auto simp: list_all_iff)
    then show ?thesis using Hypo.IH(2) [OF h ok(1,2)] h by (intro bexI [of _ h]) (auto simp: at)
  qed
  have words: "piece tp (map hypo_yield prev) pos \<noteq> []" if "pos < length (tp_words tp)" for pos
  proof (cases "IsNonTerminal (tp_words tp ! pos)")
    case True
    from sub [OF that True] obtain h where "h \<in> set prev" "piece tp (map hypo_yield prev) pos = hypo_yield h" by blast
    then show ?thesis using prev(2) full_outputs_nonempty by (auto simp: list_all_iff)
  qed (simp add: piece_def)
  have "tp_words tp \<noteq> []" using Hypo.prems(2) by auto
  then show ?case unfolding hypo_yield_pieces CalcPrefix.simps
    by (intro unbounded_prefix_loop) (use sub words Hypo.prems(3,4) in \<open>force simp: hypo_yield_pieces simp del: hypo_yield.simps\<close>)+
qed

section \<open>Properties\<close>

text \<open>
  C10. The score and the state of a hypothesis depend on its output only: EvaluateChart, whose result is put together from the rule
  and the states of the previous hypotheses, assigns the sum over the n-grams of the output, and the state it returns holds
  the first and last words, the length of the output and the right context; the prefix score is the sum over the words whose context is not complete.
\<close>

theorem EvaluateChart_output:
  assumes "1 < im_order lm" "im_order lm < 2 ^ 31" "one_component sim sp" "wf_hypo h" "starts_ok lm h"
    and "list_all (lm_evaluated lm sim sp featureID) (h_prev h)"
  shows "\<exists>s. state_ok lm (hypo_yield h) s \<and> cs_range s = h_range h \<and> (\<forall>out. EvaluateChart lm sim sp featureID h out
    = rbind (Assign_one sim sp (word_sum lm (hypo_yield h) 0 (length (hypo_yield h))) out) (\<lambda>out'. Inr (s, out')))"
proof (rule EvaluateChart_step [OF assms(1,2,4) _ assms(5)])
  have n': "im_order lm < SIZE_RANGE" using assms(2) by (simp add: SIZE_RANGE_def)
  have prev: "wf_hypo g" "starts_ok lm g" "lm_evaluated lm sim sp featureID g" if "g \<in> set (h_prev h)" for g
    using that assms(4-6) by (cases h; auto simp: list_all_iff)+
  show "list_all (summarised lm sim sp featureID) (h_prev h)"
    using evaluated_summarised [OF assms(1-3)] prev by (simp add: list_all_iff)
  show "list_all (edges_ok (im_order lm) featureID) (h_prev h)"
    unfolding list_all_iff using evaluated_edges [OF _ _ assms(1) n'] prev by blast
qed

text \<open>
  C19. Recombination keeps what decides between hypotheses: when the states of two hypotheses over the same words of the source compare equal,
  and the model's states decide its probabilities, then in any larger output the two outputs differ by the difference of their own scores.
\<close>

theorem recombination_keeps_differences:
  assumes "1 < im_order lm" "state_determines lm" "\<And>a b. cmp a b = 0 \<Longrightarrow> a = b"
    and "state_ok lm ys s" "state_ok lm zs t" "uniform_words types m ys" "uniform_words types m zs"
    and "chart_state_Compare cmp inputSize s t = 0"
    and "GetStartPos (cs_range s) = 0 \<Longrightarrow> xs = []" "sz_sub inputSize 1 \<le> GetEndPos (cs_range s) \<Longrightarrow> vs = []"
  shows "word_sum lm (xs @ ys @ vs) 0 (length (xs @ ys @ vs)) - word_sum lm ys 0 (length ys)
    = word_sum lm (xs @ zs @ vs) 0 (length (xs @ zs @ vs)) - word_sum lm zs 0 (length zs)"
proof -
  have right: "right_context lm ys = right_context lm zs" if "vs \<noteq> []"
  proof -
    have "GetEndPos (cs_range s) < sz_sub inputSize 1" using that assms(10) by (meson not_less)
    then have "cmp (cs_rightContext t) (cs_rightContext s) = 0"
      using assms(8) by (auto simp: chart_state_Compare_def Let_def split: if_splits)
    then show ?thesis using assms(3) assms(4,5) by (simp add: state_ok_def) metis
  qed
  show ?thesis
  proof (cases "GetStartPos (cs_range s) = 0")
    case True
    then have "xs = []" by (rule assms(9))
    moreover have "word_sum lm (ys @ vs) (length ys) (length (ys @ vs)) = word_sum lm (zs @ vs) (length zs) (length (zs @ vs))"
      using continuation_sum [OF assms(2) right] by (cases "vs = []") simp_all
    ultimately show ?thesis using three_sums [of lm "[]" ys vs] three_sums [of lm "[]" zs vs] by simp
  next
    case False
    then have "Phrase_Compare (cs_prefix s) (cs_prefix t) = 0"
      using assms(8) by (auto simp: chart_state_Compare_def Let_def split: if_splits)
    moreover have "uniform_words types m (cs_prefix s)" "uniform_words types m (cs_prefix t)"
      using assms(4-7) by (auto simp: state_ok_def uniform_words_def list_all_iff dest: in_set_takeD)
    ultimately have "cs_prefix s = cs_prefix t" using uniform_Phrase_Compare by blast
    then show ?thesis using assms(4,5) by (intro context_difference [OF assms(1,2) _ right]) (simp_all add: state_ok_def)
  qed
qed

text \<open>
  For a model of order 1 the size of the prefix is 0: it wraps around after the first word, so the prefix is
  the whole output and hypotheses with different outputs never recombine.
\<close>

theorem unigram_prefix_is_output:
  assumes "wf_hypo h" "full_outputs featureID h" "length (hypo_yield h) < SIZE_RANGE"
  shows "CalcPrefix featureID h [] (sz_sub 1 1) = Inr (hypo_yield h, SIZE_RANGE - length (hypo_yield h))"
  using unbounded_prefix [OF assms order_refl, of "[]"] by (simp add: sz_sub_def SIZE_RANGE_def)

section \<open>Examples\<close>

definition example_index :: score_index where
  "example_index = ScoreIndexManager\<lparr>si_begins := [0], si_ends := [1], si_last := 1\<rparr>"

definition leaf_state :: "word chart_lm_state" where
  "leaf_state = \<lparr>cs_prefixScore = UntransformLMScore (-2), cs_rightContext = lm_word 3, cs_prefix = [lm_word 3], cs_suffix = [lm_word 3],
     cs_numTargetTerminals = 1, cs_range = WordsRange 1 1\<rparr>"

definition leaf_hypo :: "word lm_hypo" where
  "leaf_hypo = Hypo 0 (example_target [lm_word 3]) (WordsRange 1 1) [Some leaf_state] [UntransformLMScore (-2)] (Fin 0) None [] None"

text \<open>A rule that puts a word after the output of its non-terminal.\<close>

definition top_hypo :: "word lm_hypo" where
  "top_hypo = Hypo 1 ((example_target [\<lparr>w_factors = [], w_isNonTerminal = True\<rparr>, lm_word 4])\<lparr>tp_align := [(0, 0)]\<rparr>) (WordsRange 1 2)
     [None] [0] (Fin 0) None [leaf_hypo] None"

lemma example_one_component: "one_component example_index (example_producer 1 0)"
  by (simp add: one_component_def example_index_def example_producer_def GetBeginIndex_def GetEndIndex_def)

lemma leaf_yield: "hypo_yield leaf_hypo = [lm_word 3]" "wf_hypo leaf_hypo" "starts_ok example_lm leaf_hypo"
  by (simp_all add: leaf_hypo_def example_target_def wf_phrase_code)

lemma top_yield: "hypo_yield top_hypo = [lm_word 3, lm_word 4]" "h_prev top_hypo = [leaf_hypo]"
  by (simp_all add: top_hypo_def example_target_def source_rank_def leaf_hypo_def)

lemma leaf_evaluated: "lm_evaluated example_lm example_index (example_producer 1 0) 0 leaf_hypo"
proof -
  have sum: "word_sum example_lm [lm_word 3] 0 1 = UntransformLMScore (-2)"
    by (simp add: word_score_def output_ngram_def example_order ngram_prob_def)
  have "\<exists>s. state_ok example_lm (hypo_yield leaf_hypo) s \<and> cs_range s = h_range leaf_hypo
    \<and> (\<forall>out. EvaluateChart example_lm example_index (example_producer 1 0) 0 leaf_hypo out
      = rbind (Assign_one example_index (example_producer 1 0) (word_sum example_lm (hypo_yield leaf_hypo) 0 (length (hypo_yield leaf_hypo))) out) (\<lambda>out'. Inr (s, out')))"
    by (rule EvaluateChart_step) (use leaf_yield in \<open>simp_all add: leaf_hypo_def example_order\<close>)
  then obtain s where s: "state_ok example_lm [lm_word 3] s" "cs_range s = WordsRange 1 1"
    "\<And>out. EvaluateChart example_lm example_index (example_producer 1 0) 0 leaf_hypo out
      = rbind (Assign_one example_index (example_producer 1 0) (UntransformLMScore (-2)) out) (\<lambda>out'. Inr (s, out'))"
    using sum by (auto simp: leaf_yield) (simp add: leaf_hypo_def)
  have "s = leaf_state"
    using s(1,2) sum by (cases s) (simp add: state_ok_def leaf_state_def example_order right_context_def no_start_def)
  then have "EvaluateChart example_lm example_index (example_producer 1 0) 0 leaf_hypo [0] = Inr (leaf_state, [UntransformLMScore (-2)])"
    unfolding s(3) by (simp add: Assign_one_def update_at_def example_index_def example_producer_def GetBeginIndex_def)
  then show ?thesis unfolding leaf_hypo_def by (auto simp: GetFFState_eq)
qed

lemma EvaluateChart_output_witness:
  "\<exists>s. state_ok example_lm [lm_word 3, lm_word 4] s \<and> EvaluateChart example_lm example_index (example_producer 1 0) 0 top_hypo [7]
    = Inr (s, [UntransformLMScore (-2) + UntransformLMScore (-1)])"
proof -
  have "\<exists>s. state_ok example_lm (hypo_yield top_hypo) s \<and> cs_range s = h_range top_hypo
    \<and> (\<forall>out. EvaluateChart example_lm example_index (example_producer 1 0) 0 top_hypo out
      = rbind (Assign_one example_index (example_producer 1 0) (word_sum example_lm (hypo_yield top_hypo) 0 (length (hypo_yield top_hypo))) out) (\<lambda>out'. Inr (s, out')))"
  proof (rule EvaluateChart_output)
    show "wf_hypo top_hypo" using leaf_yield(2) by (auto simp: top_hypo_def example_target_def wf_phrase_code nth_Cons' upt_rec)
    show "starts_ok example_lm top_hypo" using leaf_yield(3)
      by (simp add: top_hypo_def example_target_def piece_def no_start_def example_order upt_rec)
  qed (use leaf_evaluated example_one_component in \<open>simp_all add: example_order top_yield\<close>)
  moreover have "word_sum example_lm [lm_word 3, lm_word 4] 0 2 = UntransformLMScore (-2) + UntransformLMScore (-1)"
    by (simp add: numeral_2_eq_2 word_score_def output_ngram_def example_order ngram_prob_def last_n_def)
  ultimately show ?thesis
    by (auto simp: top_yield Assign_one_def update_at_def example_index_def example_producer_def GetBeginIndex_def numeral_2_eq_2)
qed

lemma example_determines: "state_determines example_lm"
proof -
  have one: "last_n 2 (ys @ vs) = [lm_word 3, lm_word 4]"
    if right: "right_context example_lm xs = right_context example_lm ys" and vs: "vs \<noteq> []" and ng: "last_n 2 (xs @ vs) = [lm_word 3, lm_word 4]" for xs ys vs
  proof (cases "length vs = 1")
    case True
    then obtain v where v: "vs = [v]" by (auto simp: length_Suc_conv)
    then have xs: "last_n (Suc 0) xs = [lm_word 3]" "v = lm_word 4" using ng by (simp_all add: last_n_append)
    then have "xs \<noteq> []" "last xs = lm_word 3" by (cases xs rule: rev_cases; simp add: last_n_append)+
    then have "right_context example_lm xs = lm_word 3" by (simp add: right_context_def example_order last_n_def)
    then have three: "right_context example_lm ys = lm_word 3" using right by (simp only:)
    have ends: "im_null example_lm = lm_word 0" "im_begin example_lm = lm_word 1" by (simp_all add: example_lm_def)
    have "ys \<noteq> []" using three ends by (auto simp: right_context_def)
    moreover from this have "last ys = lm_word 3" using three ends
      by (cases "word_eq (last ys) (lm_word 1)") (simp_all add: right_context_def example_order last_n_def)
    ultimately have "ys \<noteq> []" "last ys = lm_word 3" by blast+
    then show ?thesis using v xs(2) by (cases ys rule: rev_cases) (simp_all add: last_n_append)
  next
    case False
    then have "2 \<le> length vs" using vs by (cases vs; cases "tl vs") auto
    then show ?thesis using ng by (simp add: last_n_append)
  qed
  have iff: "(last_n 2 (xs @ vs) = [lm_word 3, lm_word 4]) = (last_n 2 (ys @ vs) = [lm_word 3, lm_word 4])"
    if "right_context example_lm xs = right_context example_lm ys" "vs \<noteq> []" for xs ys vs
    using one [OF that] one [OF that(1) [symmetric] that(2)] by blast
  have prob: "ngram_prob example_lm c = (if c = [lm_word 3, lm_word 4] then -1 else -2)" for c by (simp add: ngram_prob_def example_order)
  show ?thesis unfolding state_determines_def prob example_order(1) using iff by metis
qed

definition example_state :: "word list \<Rightarrow> word chart_lm_state" where
  "example_state ws = \<lparr>cs_prefixScore = UntransformLMScore (-2), cs_rightContext = last ws, cs_prefix = [hd ws], cs_suffix = [last ws],
     cs_numTargetTerminals = length ws, cs_range = WordsRange 1 2\<rparr>"

lemma recombination_keeps_differences_witness:
  "word_sum example_lm [lm_word 5, lm_word 3, lm_word 4, lm_word 6] 0 4 - word_sum example_lm [lm_word 3, lm_word 4] 0 2
   = word_sum example_lm [lm_word 5, lm_word 3, lm_word 5, lm_word 4, lm_word 6] 0 5 - word_sum example_lm [lm_word 3, lm_word 5, lm_word 4] 0 3"
proof -
  let ?ys = "[lm_word 3, lm_word 4]" and ?zs = "[lm_word 3, lm_word 5, lm_word 4]" and ?cmp = "\<lambda>a b :: word. if a = b then 0 else 1 :: int"
  have ok: "state_ok example_lm ?ys (example_state ?ys)" "state_ok example_lm ?zs (example_state ?zs)"
    by (simp_all add: state_ok_def example_state_def example_order right_context_def last_n_def word_score_def output_ngram_def ngram_prob_def)
  have uniform: "uniform_words {0} 1 ?ys" "uniform_words {0} 1 ?zs"
    by (auto simp: uniform_words_def lm_word_def active_def GetFactor_def MAX_NUM_FACTORS_def)
  have "word_sum example_lm ([lm_word 5] @ ?ys @ [lm_word 6]) 0 (length ([lm_word 5] @ ?ys @ [lm_word 6])) - word_sum example_lm ?ys 0 (length ?ys)
    = word_sum example_lm ([lm_word 5] @ ?zs @ [lm_word 6]) 0 (length ([lm_word 5] @ ?zs @ [lm_word 6])) - word_sum example_lm ?zs 0 (length ?zs)"
  proof (rule recombination_keeps_differences [OF _ example_determines _ ok uniform, of ?cmp 9])
    have "Phrase_Compare [lm_word 3] [lm_word 3] = 0"
    proof -
      have "word_eq (lm_word 3) (lm_word 3)" by simp
      then have "Word_Compare (lm_word 3) (lm_word 3) = 0" unfolding word_eq_def .
      then show ?thesis by (simp add: Phrase_Compare_def)
    qed
    then show "chart_state_Compare ?cmp 9 (example_state ?ys) (example_state ?zs) = 0" by (simp add: chart_state_Compare_def example_state_def)
  qed (simp_all add: example_order example_state_def SIZE_RANGE_def split: if_splits)
  then show ?thesis by (simp add: numeral_eq_Suc)
qed

lemma unigram_prefix_is_output_witness:
  "CalcPrefix 0 top_hypo [] (sz_sub 1 1) = Inr ([lm_word 3, lm_word 4], SIZE_RANGE - 2)"
proof -
  have "wf_hypo top_hypo" using leaf_yield(2) by (auto simp: top_hypo_def example_target_def wf_phrase_code nth_Cons' upt_rec)
  moreover have "full_outputs 0 top_hypo"
    using top_yield leaf_yield(1) by (auto simp: top_hypo_def leaf_hypo_def GetFFState_eq example_target_def)
  ultimately show ?thesis using unigram_prefix_is_output [of top_hypo 0] by (simp add: top_yield SIZE_RANGE_def)
qed

end
