(* ===== verification/Tokens.thy ===== *)
theory Tokens
  imports ScoreIndex
begin

text \<open>
  Strings and tokens (Util.h) and the clause boundaries of a sentence (ClauseBoundaries.h, ClauseBoundaries.cpp):
  a line of clauses "S,2,5 S,7,9" gives the positions that bound the clauses of one sentence.

  A position of std::string is None when it is npos. The stream is the string of its remaining characters.
\<close>

section \<open>Tokenize\<close>

definition find_first_not_of :: "string \<Rightarrow> string \<Rightarrow> nat option \<Rightarrow> nat option" where
  "find_first_not_of str delimiters pos = (case pos of None \<Rightarrow> None | Some p \<Rightarrow> find (\<lambda>i. str ! i \<notin> set delimiters) [p..<length str])"

definition find_first_of :: "string \<Rightarrow> string \<Rightarrow> nat option \<Rightarrow> nat option" where
  "find_first_of str delimiters pos = (case pos of None \<Rightarrow> None | Some p \<Rightarrow> find (\<lambda>i. str ! i \<in> set delimiters) [p..<length str])"

text \<open>substr from a position within the string up to another one, or to the end.\<close>

definition substr_to :: "string \<Rightarrow> nat \<Rightarrow> nat option \<Rightarrow> string" where
  "substr_to str from to = (case to of None \<Rightarrow> drop from str | Some e \<Rightarrow> take (e - from) (drop from str))"

lemma next_token_after:
  "find_first_not_of str d (find_first_of str d (Some l)) = Some k \<Longrightarrow> l < k \<and> k < length str"
proof -
  assume k: "find_first_not_of str d (find_first_of str d (Some l)) = Some k"
  then obtain p where p: "find_first_of str d (Some l) = Some p" by (auto simp: find_first_not_of_def split: option.splits)
  then have "l \<le> p" "str ! p \<in> set d" by (auto simp: find_first_of_def find_upt_Some)
  moreover have "p \<le> k" "k < length str" "str ! k \<notin> set d" using k unfolding p by (auto simp: find_first_not_of_def find_upt_Some)
  ultimately show "l < k \<and> k < length str" by (metis le_neq_implies_less le_trans order_le_less_trans)
qed

text \<open>
  The loop of the tokenizers: at its head pos is the first delimiter from lastPos on. The tokens that keep accepts are pushed.
\<close>

function token_loop :: "(string \<Rightarrow> bool) \<Rightarrow> string \<Rightarrow> string \<Rightarrow> nat option \<Rightarrow> string list \<Rightarrow> string list" where
  "token_loop keep str delimiters lastPos tokens = (case lastPos of
     None \<Rightarrow> tokens
   | Some l \<Rightarrow>
       let pos = find_first_of str delimiters lastPos; token = substr_to str l pos
       in token_loop keep str delimiters (find_first_not_of str delimiters pos) (if keep token then tokens @ [token] else tokens))"
  by pat_completeness auto

termination
  by (relation "measure (\<lambda>(keep, str, d, lastPos, tokens). case lastPos of None \<Rightarrow> 0 | Some l \<Rightarrow> Suc (length str - l))")
    (auto split: option.split dest!: next_token_after)

declare token_loop.simps [simp del]

definition Tokenize :: "string \<Rightarrow> string \<Rightarrow> string list" where
  "Tokenize str delimiters = token_loop (\<lambda>_. True) str delimiters (find_first_not_of str delimiters (Some 0)) []"

definition Join :: "string \<Rightarrow> string list \<Rightarrow> string" where
  "Join delimiter items = (case items of [] \<Rightarrow> '''' | x # xs \<Rightarrow> fold (\<lambda>item out. out @ delimiter @ item) xs x)"

section \<open>Reading clause boundaries\<close>

definition TokenizeMyString :: "string \<Rightarrow> string \<Rightarrow> string list list" where
  "TokenizeMyString str delimiters =
     (let clauses = token_loop (\<lambda>_. True) str delimiters (find_first_not_of str delimiters (Some 0)) []
      in fold (\<lambda>currentClause intervals. intervals @
           [token_loop (\<lambda>limit. limit \<noteq> ''S'') currentClause '','' (find_first_not_of currentClause '','' (Some 0)) []]) clauses [])"

text \<open>
  atoi: white space, a sign, digits up to the first other character. The behaviour is undefined for a number outside the range of int.
\<close>

definition is_decimal_digit :: "char \<Rightarrow> bool" where
  "is_decimal_digit c \<longleftrightarrow> c \<in> set ''0123456789''"

definition is_space :: "char \<Rightarrow> bool" where
  "is_space c \<longleftrightarrow> c \<in> {CHR '' '', CHR 0x09, CHR 0x0A, CHR 0x0B, CHR 0x0C, CHR 0x0D}"

definition digits_value :: "string \<Rightarrow> nat" where
  "digits_value s = fold (\<lambda>c n. 10 * n + (of_char c - 48)) (takeWhile is_decimal_digit s) 0"

definition atoi :: "string \<Rightarrow> int result" where
  "atoi str =
     (let s = dropWhile is_space str;
          v = (case s of c # t \<Rightarrow> if c = CHR ''-'' then - int (digits_value t) else if c = CHR ''+'' then int (digits_value t)
                 else int (digits_value s) | [] \<Rightarrow> 0)
      in if - (2 ^ 31) \<le> v \<and> v < 2 ^ 31 then Inr v else Inl Overflow)"

text \<open>
  One line of the stream: getline takes the characters before the newline and sets eof when it meets the end of the stream first.
  The result is the return value, the boundaries, and the rest of the stream.
\<close>

definition ReadClauseBoundaries :: "int list list \<Rightarrow> string \<Rightarrow> (int \<times> int list list \<times> string) result" where
  "ReadClauseBoundaries m_clauseBoundaries stream =
     (let line = takeWhile (\<lambda>c. c \<noteq> CHR 0x0A) stream; after = dropWhile (\<lambda>c. c \<noteq> CHR 0x0A) stream
      in case after of
           [] \<Rightarrow> Inr (0, m_clauseBoundaries, [])
         | newline # rest \<Rightarrow> rbind (rmap (rmap atoi) (TokenizeMyString line '' '')) (\<lambda>myMarkersInt. Inr (1, myMarkersInt, rest)))"

section \<open>Tokens as runs of characters\<close>

text \<open>The maximal runs of characters that are not delimiters.\<close>

function runs :: "(char \<Rightarrow> bool) \<Rightarrow> string \<Rightarrow> string list" where
  "runs P s = (case dropWhile P s of [] \<Rightarrow> [] | c # t \<Rightarrow> takeWhile (\<lambda>c. \<not> P c) (c # t) # runs P (dropWhile (\<lambda>c. \<not> P c) (c # t)))"
  by pat_completeness auto
termination
proof (relation "measure (length \<circ> snd)")
  fix P :: "char \<Rightarrow> bool" and s c t
  assume e: "dropWhile P s = c # t"
  then have "\<not> P c" using hd_dropWhile [of P s] by auto
  then have "dropWhile (\<lambda>c. \<not> P c) (c # t) = dropWhile (\<lambda>c. \<not> P c) t" by simp
  then have "length (dropWhile (\<lambda>c. \<not> P c) (c # t)) \<le> length t" by (simp add: length_dropWhile_le)
  moreover have "length (c # t) \<le> length s" unfolding e [symmetric] by (rule length_dropWhile_le)
  ultimately show "((P, dropWhile (\<lambda>c. \<not> P c) (c # t)), (P, s)) \<in> measure (length \<circ> snd)" by simp
qed simp

declare runs.simps [simp del]

lemma find_from:
  "find (\<lambda>i. P (s ! i)) [p..<length s] = (if length (takeWhile (\<lambda>c. \<not> P c) (drop p s)) < length (drop p s)
     then Some (p + length (takeWhile (\<lambda>c. \<not> P c) (drop p s))) else None)"
proof (cases "length (takeWhile (\<lambda>c. \<not> P c) (drop p s)) < length (drop p s)")
  case True
  let ?k = "length (takeWhile (\<lambda>c. \<not> P c) (drop p s))"
  have "P (s ! (p + ?k))" using nth_length_takeWhile [OF True] True by simp
  moreover have "\<not> P (s ! l)" if "p \<le> l" "l < p + ?k" for l
  proof -
    have "takeWhile (\<lambda>c. \<not> P c) (drop p s) ! (l - p) = s ! l" using that True by (subst takeWhile_nth) auto
    moreover have "takeWhile (\<lambda>c. \<not> P c) (drop p s) ! (l - p) \<in> set (takeWhile (\<lambda>c. \<not> P c) (drop p s))" using that by (intro nth_mem) auto
    ultimately show ?thesis by (auto dest: set_takeWhileD)
  qed
  ultimately show ?thesis using True by (auto simp: find_upt_Some)
next
  case False
  have "takeWhile (\<lambda>c. \<not> P c) (drop p s) = take (length (takeWhile (\<lambda>c. \<not> P c) (drop p s))) (drop p s)" by (rule takeWhile_eq_take)
  also have "\<dots> = drop p s" by (rule take_all) (use False in simp)
  finally have "takeWhile (\<lambda>c. \<not> P c) (drop p s) = drop p s" .
  then have "\<forall>c \<in> set (drop p s). \<not> P c" by (metis takeWhile_eq_all_conv)
  then have "\<not> P (s ! l)" if "p \<le> l" "l < length s" for l
  proof -
    have "drop p s ! (l - p) \<in> set (drop p s)" by (rule nth_mem) (use that in simp)
    then show ?thesis using that \<open>\<forall>c \<in> set (drop p s). \<not> P c\<close> by simp
  qed
  then show ?thesis using False by (auto simp: find_upt_None)
qed

lemma dropWhile_drop: "dropWhile P (drop p s) = drop (p + length (takeWhile P (drop p s))) s"
  by (metis add.commute dropWhile_eq_drop drop_drop)

text \<open>The loop from a position on appends the runs of the rest of the string.\<close>

lemma token_loop_runs:
  "token_loop keep str d (find_first_not_of str d (Some p)) acc = acc @ filter keep (runs (\<lambda>c. c \<in> set d) (drop p str))"
proof (induction "length str - p" arbitrary: p acc rule: less_induct)
  case less
  let ?P = "\<lambda>c. c \<in> set d"
  let ?l = "p + length (takeWhile ?P (drop p str))"
  have start: "find_first_not_of str d (Some p) = (if ?l < length str then Some ?l else None)"
    using find_from [of "\<lambda>c. \<not> ?P c" str p] by (auto simp: find_first_not_of_def)
  have rest: "dropWhile ?P (drop p str) = drop ?l str" by (rule dropWhile_drop)
  show ?case
  proof (cases "?l < length str")
    case False
    then show ?thesis by (simp add: start token_loop.simps runs.simps [of ?P "drop p str"] rest)
  next
    case True
    then obtain c t where ct: "drop ?l str = c # t" by (metis Cons_nth_drop_Suc)
    let ?e = "?l + length (takeWhile (\<lambda>c. \<not> ?P c) (drop ?l str))"
    have pos: "find_first_of str d (Some ?l) = (if ?e < length str then Some ?e else None)"
      using find_from [of ?P str ?l] True by (auto simp: find_first_of_def)
    let ?w = "takeWhile (\<lambda>c. \<not> ?P c) (drop ?l str)"
    have c: "\<not> ?P c" using hd_dropWhile [of ?P "drop p str"] ct rest by auto
    then have after: "?l < ?e" unfolding ct by simp
    have token: "substr_to str ?l (find_first_of str d (Some ?l)) = ?w"
    proof (cases "?e < length str")
      case True
      then show ?thesis unfolding pos by (simp add: substr_to_def takeWhile_eq_take [symmetric])
    next
      case False
      have "?w = take (length ?w) (drop ?l str)" by (rule takeWhile_eq_take)
      also have "\<dots> = drop ?l str" by (rule take_all) (use False in simp)
      finally have w: "?w = drop ?l str" .
      have "find_first_of str d (Some ?l) = None" using pos False by simp
      then show ?thesis unfolding substr_to_def w by simp
    qed
    have runs: "runs ?P (drop p str) = ?w # runs ?P (drop ?e str)"
    proof -
      have "dropWhile (\<lambda>c. \<not> ?P c) (drop ?l str) = drop ?e str" by (rule dropWhile_drop)
      then show ?thesis unfolding runs.simps [of ?P "drop p str"] rest ct by simp
    qed
    have rest_tokens: "token_loop keep str d (find_first_not_of str d (find_first_of str d (Some ?l))) acc' = acc' @ filter keep (runs ?P (drop ?e str))" for acc'
    proof (cases "?e < length str")
      case True
      then have less_e: "length str - ?e < length str - p" using after by linarith
      have "find_first_of str d (Some ?l) = Some ?e" using True pos by simp
      then show ?thesis using less [OF less_e] by (simp only:)
    next
      case False
      then have "find_first_of str d (Some ?l) = None" "drop ?e str = []" using pos by simp_all
      then show ?thesis by (simp only: find_first_not_of_def option.case token_loop.simps [of _ _ _ None] runs.simps [of _ "[]"] dropWhile.simps list.case filter.simps append_Nil2)
    qed
    have "token_loop keep str d (Some ?l) acc
        = token_loop keep str d (find_first_not_of str d (find_first_of str d (Some ?l))) (if keep ?w then acc @ [?w] else acc)"
      by (subst token_loop.simps) (simp add: token Let_def)
    also have "\<dots> = acc @ filter keep (runs ?P (drop p str))" unfolding rest_tokens runs by simp
    finally show ?thesis using True unfolding start by simp
  qed
qed

lemma Tokenize_runs: "Tokenize str d = runs (\<lambda>c. c \<in> set d) str"
  by (simp add: Tokenize_def token_loop_runs)

text \<open>Words joined by delimiters.\<close>

lemma runs_Nil [simp]: "runs P [] = []"
  by (simp add: runs.simps)

lemma runs_word:
  assumes "w \<noteq> []" "\<forall>c \<in> set w. \<not> P c" "t = [] \<or> P (hd t)"
  shows "runs P (w @ t) = w # runs P t"
proof -
  have "dropWhile P (w @ t) = w @ t" using assms(1,2) by (cases w) auto
  moreover have "takeWhile (\<lambda>c. \<not> P c) (w @ t) = w" "dropWhile (\<lambda>c. \<not> P c) (w @ t) = t"
    using assms(2,3) by (cases t; simp add: takeWhile_append dropWhile_append; fail)+
  moreover obtain c v where "w @ t = c # v" using assms(1) by (cases w) auto
  ultimately show ?thesis by (subst runs.simps) (simp del: takeWhile.simps dropWhile.simps)
qed

lemma runs_delimiter: "P c \<Longrightarrow> runs P (c # t) = runs P t"
  by (subst (1 2) runs.simps) simp

lemma Join_Cons: "Join d (x # xs) = x @ concat (map (\<lambda>item. d @ item) xs)"
proof -
  have "fold (\<lambda>item out. out @ d @ item) xs a = a @ concat (map (\<lambda>item. d @ item) xs)" for a by (induction xs arbitrary: a) auto
  then show ?thesis by (simp add: Join_def)
qed

lemma Tokenize_Join:
  assumes "list_all (\<lambda>w. w \<noteq> [] \<and> c \<notin> set w) ws"
  shows "Tokenize (Join [c] ws) [c] = ws"
proof -
  have "runs (\<lambda>x. x = c) (concat (map (\<lambda>item. c # item) ws)) = ws" using assms
  proof (induction ws)
    case (Cons w ws)
    then show ?case by (simp add: runs_delimiter) (subst runs_word, auto, cases ws, auto)
  qed simp
  then have all: "runs (\<lambda>x. x = c) (concat (map (\<lambda>item. c # item) ws)) = ws" .
  show ?thesis
  proof (cases ws)
    case (Cons w vs)
    then show ?thesis using all by (simp add: Tokenize_runs Join_Cons runs_delimiter)
  qed (simp add: Tokenize_runs Join_def)
qed

section \<open>Numbers\<close>

lemma digit_table: "map (\<lambda>k. char_of (48 + k)) [0..<10] = ''0123456789''"
  by code_simp

lemma digit_char:
  fixes k :: nat
  assumes "k < 10"
  shows "is_decimal_digit (char_of (48 + k))" "of_char (char_of (48 + k) :: char) = 48 + k" "\<not> is_space (char_of (48 + k))"
    "char_of (48 + k) \<noteq> CHR ''-''" "char_of (48 + k) \<noteq> CHR ''+''"
proof -
  have "char_of (48 + k) \<in> set (map (\<lambda>k. char_of (48 + k)) [0..<10])" using assms by auto
  then have c: "char_of (48 + k) \<in> set ''0123456789''" unfolding digit_table .
  then show "is_decimal_digit (char_of (48 + k))" by (simp only: is_decimal_digit_def)
  show "of_char (char_of (48 + k) :: char) = 48 + k" using assms by simp
  have "\<forall>c \<in> set ''0123456789''. \<not> is_space c \<and> c \<noteq> CHR ''-'' \<and> c \<noteq> CHR ''+''" by (simp add: is_space_def)
  then show "\<not> is_space (char_of (48 + k))" "char_of (48 + k) \<noteq> CHR ''-''" "char_of (48 + k) \<noteq> CHR ''+''" using c by blast+
qed

lemma decimal_digits: "decimal n \<noteq> []" "\<forall>c \<in> set (decimal n). \<exists>k :: nat. k < 10 \<and> c = char_of (48 + k)"
proof -
  show "decimal n \<noteq> []" by (subst decimal.simps) simp
  show "\<forall>c \<in> set (decimal n). \<exists>k :: nat. k < 10 \<and> c = char_of (48 + k)"
  proof (induction n rule: decimal.induct)
    case (1 n)
    show ?case
    proof (cases "n < 10")
      case True
      then have "set (decimal n) = {char_of (48 + n)}" by (simp add: decimal.simps [of n])
      then show ?thesis using True by blast
    next
      case False
      then have "set (decimal n) = insert (char_of (48 + n mod 10)) (set (decimal (n div 10)))" by (simp add: decimal.simps [of n])
      moreover have "n mod 10 < 10" by simp
      ultimately show ?thesis using 1 [OF False] by blast
    qed
  qed
qed

lemma decimal_is_decimal_digit:
  assumes "c \<in> set (decimal n)"
  shows "is_decimal_digit c"
proof -
  have "\<exists>k :: nat. k < 10 \<and> c = char_of (48 + k)" by (rule bspec [OF decimal_digits(2) assms])
  then obtain k :: nat where k: "k < 10" "c = char_of (48 + k)" by (elim exE conjE)
  show ?thesis unfolding k(2) by (rule digit_char(1) [OF k(1)])
qed

lemma decimal_value: "fold (\<lambda>c m. 10 * m + (of_char c - 48)) (decimal n) 0 = n"
proof (induction n rule: decimal.induct)
  case (1 n)
  show ?case
  proof (cases "n < 10")
    case True
    then show ?thesis by (simp add: decimal.simps [of n] digit_char(2))
  next
    case False
    then show ?thesis using 1 by (simp add: decimal.simps [of n] digit_char(2))
  qed
qed

lemma atoi_decimal:
  assumes "n < 2 ^ 31"
  shows "atoi (decimal n) = Inr (int n)"
proof -
  obtain c t where ct: "decimal n = c # t" using decimal_digits(1) [of n] by (cases "decimal n") auto
  have "c \<in> set (decimal n)" using ct by simp
  then have "is_decimal_digit c" by (rule decimal_is_decimal_digit)
  then have c: "\<not> is_space c" "c \<noteq> CHR ''-''" "c \<noteq> CHR ''+''" by (auto simp: is_decimal_digit_def is_space_def)
  have "takeWhile is_decimal_digit (decimal n) = decimal n" using decimal_is_decimal_digit by (simp add: takeWhile_eq_all_conv)
  then have "digits_value (decimal n) = n" by (simp only: digits_value_def decimal_value)
  then show ?thesis using ct c assms by (simp add: atoi_def Let_def)
qed

section \<open>Properties\<close>

text \<open>A line of clauses: the letter S and the limits of each clause, separated by commas, and the clauses separated by blanks.\<close>

definition clause_line :: "nat list list \<Rightarrow> string" where
  "clause_line cb = Join '' '' (map (\<lambda>clause. Join '','' (''S'' # map decimal clause)) cb)"

lemma decimal_chars: "CHR '','' \<notin> set (decimal n)" "CHR '' '' \<notin> set (decimal n)" "CHR 0x0A \<notin> set (decimal n)" "decimal n \<noteq> ''S''"
proof -
  have other: "\<not> is_decimal_digit CHR '',''" "\<not> is_decimal_digit CHR '' ''" "\<not> is_decimal_digit CHR 0x0A" "\<not> is_decimal_digit CHR ''S''" by (simp_all add: is_decimal_digit_def)
  show "CHR '','' \<notin> set (decimal n)" "CHR '' '' \<notin> set (decimal n)" "CHR 0x0A \<notin> set (decimal n)" using other(1-3) decimal_is_decimal_digit by blast+
  have "CHR ''S'' \<notin> set (decimal n)" using other(4) decimal_is_decimal_digit by blast
  then show "decimal n \<noteq> ''S''" by auto
qed

lemma set_Join: "set (Join d xs) \<subseteq> set d \<union> \<Union> (set ` set xs)"
proof (cases xs)
  case (Cons y ys)
  then show ?thesis by (auto simp: Join_Cons)
qed (simp add: Join_def)

lemma clause_chars:
  "CHR '' '' \<notin> set (Join '','' (''S'' # map decimal clause))" "CHR 0x0A \<notin> set (Join '','' (''S'' # map decimal clause))"
  "Join '','' (''S'' # map decimal clause) \<noteq> []"
  using set_Join [of "'',''" "''S'' # map decimal clause"] decimal_chars(2,3) by (auto simp: Join_Cons)

lemma TokenizeMyString_line: "TokenizeMyString (clause_line cb) '' '' = map (map decimal) cb"
proof -
  have clauses: "Tokenize (clause_line cb) '' '' = map (\<lambda>clause. Join '','' (''S'' # map decimal clause)) cb"
    unfolding clause_line_def by (rule Tokenize_Join) (auto simp: list_all_iff clause_chars)
  have limits: "filter (\<lambda>limit. limit \<noteq> ''S'') (Tokenize (Join '','' (''S'' # map decimal clause)) '','') = map decimal clause" for clause
  proof -
    have "Tokenize (Join '','' (''S'' # map decimal clause)) '','' = ''S'' # map decimal clause"
      by (rule Tokenize_Join) (auto simp: list_all_iff decimal_chars decimal_digits(1))
    then show ?thesis by (simp add: decimal_chars(4) filter_id_conv)
  qed
  have loop: "fold (\<lambda>x acc. acc @ [f x]) xs acc = acc @ map f xs" for f :: "string \<Rightarrow> string list" and xs acc by (induction xs arbitrary: acc) auto
  show ?thesis
    using clauses limits unfolding TokenizeMyString_def Let_def loop
    by (simp add: token_loop_runs Tokenize_runs comp_def)
qed

text \<open>
  C29. Clause boundaries written as a line are read back: the clauses with their limits are the result, and the stream stands after the
  line. A last line without a newline is read and dropped: the function returns 0 and leaves the boundaries as they were.
\<close>

theorem ReadClauseBoundaries_roundtrip:
  assumes "\<forall>clause \<in> set cb. \<forall>limit \<in> set clause. limit < 2 ^ 31"
  shows "ReadClauseBoundaries old (clause_line cb @ CHR 0x0A # rest) = Inr (1, map (map int) cb, rest)
    \<and> ReadClauseBoundaries old (clause_line cb) = Inr (0, old, [])"
proof -
  have line: "CHR 0x0A \<notin> set (clause_line cb)"
    using set_Join [of "'' ''" "map (\<lambda>clause. Join '','' (''S'' # map decimal clause)) cb"] clause_chars(2) by (auto simp: clause_line_def)
  then have no: "\<forall>c \<in> set (clause_line cb). c \<noteq> CHR 0x0A" by auto
  have numbers: "rmap (rmap atoi) (map (map decimal) cb) = Inr (map (map int) cb)"
  proof -
    have "list_all2 (\<lambda>x y. atoi x = Inr y) (map decimal clause) (map int clause)" if "clause \<in> set cb" for clause
      using assms that by (auto simp: list_all2_conv_all_nth intro!: atoi_decimal)
    then show ?thesis by (auto simp: rmap_eq_Inr list_all2_conv_all_nth)
  qed
  have "takeWhile (\<lambda>c. c \<noteq> CHR 0x0A) (clause_line cb @ CHR 0x0A # rest) = clause_line cb"
    "dropWhile (\<lambda>c. c \<noteq> CHR 0x0A) (clause_line cb @ CHR 0x0A # rest) = CHR 0x0A # rest"
    "dropWhile (\<lambda>c. c \<noteq> CHR 0x0A) (clause_line cb) = []"
    using no by (simp_all add: takeWhile_append dropWhile_append)
  then show ?thesis by (simp add: ReadClauseBoundaries_def TokenizeMyString_line numbers Let_def del: dropWhile_eq_Nil_conv)
qed

lemma ReadClauseBoundaries_roundtrip_witness:
  "ReadClauseBoundaries [] (''S,0,4 S,5,12'' @ CHR 0x0A # ''S,0,3'') = Inr (1, [[0, 4], [5, 12]], ''S,0,3'')
   \<and> ReadClauseBoundaries [] ''S,0,3'' = Inr (0, [], [])"
proof -
  have "clause_line [[0, 4], [5, 12]] = ''S,0,4 S,5,12''" "clause_line [[0, 3]] = ''S,0,3''"
    by code_simp+
  then show ?thesis
    using ReadClauseBoundaries_roundtrip [of "[[0, 4], [5, 12]]" "[]" "''S,0,3''"] ReadClauseBoundaries_roundtrip [of "[[0, 3]]" "[]" "[]"] by simp
qed

text \<open>
  Tokenize returns the maximal runs of characters that are not delimiters, in order; joining words that are not empty and have no
  delimiter by a delimiter and splitting them again gives the words.
\<close>

theorem Tokenize_splits:
  "Tokenize str d = runs (\<lambda>c. c \<in> set d) str
   \<and> (list_all (\<lambda>w. w \<noteq> [] \<and> c \<notin> set w) ws \<longrightarrow> Tokenize (Join [c] ws) [c] = ws)"
  using Tokenize_runs Tokenize_Join by blast

lemma Tokenize_splits_witness: "Tokenize ''phrase-msd-bidirectional-fe'' ''-'' = [''phrase'', ''msd'', ''bidirectional'', ''fe'']"
proof -
  have "list_all (\<lambda>w. w \<noteq> [] \<and> CHR ''-'' \<notin> set w) [''phrase'', ''msd'', ''bidirectional'', ''fe'']" by simp
  then show ?thesis using Tokenize_splits [of "[]" "[]" "CHR ''-''" "[''phrase'', ''msd'', ''bidirectional'', ''fe'']"] by (simp add: Join_def)
qed

end
