(* ===== verification/LexReordering.thy ===== *)
theory LexReordering
  imports PhraseHypos Tokens "HOL-Library.List_Lexorder"
begin

text \<open>
  The lexicalised reordering model of the phrase-based search (LexicalReordering.cpp, LexicalReorderingState.h,
  LexicalReorderingState.cpp, ReorderingStack.h, ReorderingStack.cpp): the configuration, the orientation of a phrase relative to
  the previous phrase or to the blocks of a hierarchical model, and the scores copied from the table.

  The scores of a translation option (GetCachedScores of its producer, from the reordering table) are the parameter cached; None is
  the null pointer. The comparisons of a state with itself return before they read the scores; here equal states compare as 0.
\<close>

section \<open>Configuration\<close>

datatype model_type = Monotonic | MSD | MSLR | LeftRight | NoModelType
datatype reo_direction = Forward | Backward | Bidirectional
datatype reo_condition = ConditionF | ConditionE | ConditionFE

text \<open>The constructor does not initialise the condition: None until the string sets it.\<close>

record reo_config =
  lc_modelType :: model_type
  lc_phraseBased :: bool
  lc_collapseScores :: bool
  lc_direction :: reo_direction
  lc_condition :: "reo_condition option"

definition GetNumberOfTypes :: "reo_config \<Rightarrow> nat" where
  "GetNumberOfTypes c = (case lc_modelType c of MSD \<Rightarrow> 3 | MSLR \<Rightarrow> 4 | _ \<Rightarrow> 2)"

definition GetNumScoreComponents :: "reo_config \<Rightarrow> nat" where
  "GetNumScoreComponents c =
     (let score_per_dir = (if lc_collapseScores c then 1 else GetNumberOfTypes c)
      in if lc_direction c = Bidirectional then 2 * score_per_dir else score_per_dir)"

definition config_part :: "string \<Rightarrow> reo_config \<Rightarrow> reo_config result" where
  "config_part s c =
     (if s = ''hier'' then Inr (c\<lparr>lc_phraseBased := False\<rparr>)
      else if s = ''phrase'' then Inr (c\<lparr>lc_phraseBased := True\<rparr>)
      else if s = ''wbe'' then Inr (c\<lparr>lc_phraseBased := True\<rparr>)
      else if s = ''msd'' then Inr (c\<lparr>lc_modelType := MSD\<rparr>)
      else if s = ''mslr'' then Inr (c\<lparr>lc_modelType := MSLR\<rparr>)
      else if s = ''monotonicity'' then Inr (c\<lparr>lc_modelType := Monotonic\<rparr>)
      else if s = ''leftright'' then Inr (c\<lparr>lc_modelType := LeftRight\<rparr>)
      else if s = ''backward'' \<or> s = ''unidirectional'' then Inr (c\<lparr>lc_direction := Backward\<rparr>)
      else if s = ''forward'' then Inr (c\<lparr>lc_direction := Forward\<rparr>)
      else if s = ''bidirectional'' then Inr (c\<lparr>lc_direction := Bidirectional\<rparr>)
      else if s = ''f'' then Inr (c\<lparr>lc_condition := Some ConditionF\<rparr>)
      else if s = ''fe'' then Inr (c\<lparr>lc_condition := Some ConditionFE\<rparr>)
      else if s = ''collapseff'' then Inr (c\<lparr>lc_collapseScores := True\<rparr>)
      else if s = ''allff'' then Inr (c\<lparr>lc_collapseScores := False\<rparr>)
      else Inl Exited)"

definition LexicalReorderingConfiguration :: "string \<Rightarrow> reo_config result" where
  "LexicalReorderingConfiguration modelType =
     rbind (rfold config_part (Tokenize modelType ''-'') \<lparr>lc_modelType = NoModelType, lc_phraseBased = True, lc_collapseScores = False,
         lc_direction = Backward, lc_condition = None\<rparr>) (\<lambda>c.
       if lc_modelType c = NoModelType then Inl Exited else Inr c)"

text \<open>
  The constructor of the feature: the factors of both sides are present when the condition needs them, and the number of weights is
  that of the components. A condition that was never set is read all the same.
\<close>

definition LexicalReordering :: "nat list \<Rightarrow> nat list \<Rightarrow> string \<Rightarrow> real list \<Rightarrow> (reo_config \<times> nat list \<times> nat list) result" where
  "LexicalReordering f_factors e_factors modelType weights =
     rbind (LexicalReorderingConfiguration modelType) (\<lambda>c.
     rbind (case lc_condition c of
          None \<Rightarrow> Inl Uninitialized
        | Some ConditionE \<Rightarrow> if e_factors = [] then Inl Exited else Inr ([], e_factors)
        | Some ConditionFE \<Rightarrow> if e_factors = [] then Inl Exited else if f_factors = [] then Inl Exited else Inr (f_factors, e_factors)
        | Some ConditionF \<Rightarrow> if f_factors = [] then Inl Exited else Inr (f_factors, [])) (\<lambda>(factorsF, factorsE).
       if length weights \<noteq> GetNumScoreComponents c then Inl Exited else Inr (c, factorsF, factorsE)))"

section \<open>The stack of blocks\<close>

text \<open>The stack with its last element, the top, first.\<close>

type_synonym reordering_stack = "words_range list"

text \<open>The comparison of the two vectors, which starts at the bottom.\<close>

definition stack_Compare :: "reordering_stack \<Rightarrow> reordering_stack \<Rightarrow> int" where
  "stack_Compare st other = (if rev other > rev st then 1 else if rev other < rev st then -1 else 0)"

fun stack_Reduce :: "words_range \<Rightarrow> reordering_stack \<Rightarrow> reordering_stack" where
  "stack_Reduce current [] = [current]"
| "stack_Reduce current (previous # st) =
     (if sz_sub (GetStartPos current) (GetEndPos previous) = 1
      then stack_Reduce (WordsRange (GetStartPos previous) (GetEndPos current)) st
      else if sz_sub (GetStartPos previous) (GetEndPos current) = 1
      then stack_Reduce (WordsRange (GetStartPos current) (GetEndPos previous)) st
      else current # previous # st)"

fun ShiftReduce :: "words_range \<Rightarrow> reordering_stack \<Rightarrow> int \<times> reordering_stack" where
  "ShiftReduce input_span [] = (to_int32 (sz_add (GetStartPos input_span) 1), [input_span])"
| "ShiftReduce input_span (prev_span # st) =
     (let distance = (if GetStartPos input_span > GetStartPos prev_span
                      then to_int32 (sz_sub (GetStartPos input_span) (GetEndPos prev_span))
                      else to_int32 (sz_sub (GetEndPos input_span) (GetStartPos prev_span)))
      in (distance,
          if distance = 1 then stack_Reduce (WordsRange (GetStartPos prev_span) (GetEndPos input_span)) st
          else if distance = -1 then stack_Reduce (WordsRange (GetStartPos input_span) (GetEndPos prev_span)) st
          else input_span # prev_span # st))"

section \<open>States\<close>

record reo_base =
  rb_config :: reo_config
  rb_direction :: reo_direction
  rb_offset :: nat
  rb_prevScore :: "real list option"

datatype reo_state =
  PhraseBasedReordering (rs_base: reo_base) words_range bool
| HierarchicalBackward (rs_base: reo_base) reordering_stack
| HierarchicalForward (rs_base: reo_base) bool words_range words_bitmap
| BidirectionalReordering (rs_base: reo_base) reo_state reo_state

definition initial_base :: "reo_config \<Rightarrow> reo_direction \<Rightarrow> nat \<Rightarrow> reo_base" where
  "initial_base c dir offset = \<lparr>rb_config = c, rb_direction = dir, rb_offset = offset, rb_prevScore = None\<rparr>"

definition CreateLexicalReorderingState :: "reo_config \<Rightarrow> nat \<Rightarrow> reo_state" where
  "CreateLexicalReorderingState c inputSize =
     (let width = (if lc_collapseScores c then 1 else GetNumberOfTypes c);
          bwd = (if lc_phraseBased c then PhraseBasedReordering (initial_base c Backward 0) (WordsRange NOT_FOUND NOT_FOUND) True
                 else HierarchicalBackward (initial_base c Backward 0) []);
          fwd = (\<lambda>offset. if lc_phraseBased c then PhraseBasedReordering (initial_base c Forward offset) (WordsRange NOT_FOUND NOT_FOUND) True
                 else HierarchicalForward (initial_base c Forward offset) True (WordsRange NOT_FOUND NOT_FOUND) (WordsBitmap inputSize))
      in case lc_direction c of
           Backward \<Rightarrow> bwd
         | Forward \<Rightarrow> fwd 0
         | Bidirectional \<Rightarrow> BidirectionalReordering (initial_base c Bidirectional 0) bwd (fwd width))"

section \<open>Scores\<close>

definition fill_zero :: "nat \<Rightarrow> nat \<Rightarrow> real list \<Rightarrow> real list result" where
  "fill_zero from to = rfold (\<lambda>i s. array_set s i 0) [from..<to]"

text \<open>cachedScores are the scores of the translation option.\<close>

definition CopyScores :: "reo_base \<Rightarrow> real list option \<Rightarrow> nat \<Rightarrow> real list \<Rightarrow> real list result" where
  "CopyScores b cachedScores reoType scores =
     rbind (check (rb_direction b = Backward \<or> rb_direction b = Forward)) (\<lambda>_.
       case (if rb_direction b = Backward then cachedScores else rb_prevScore b) of
         None \<Rightarrow> Inr scores
       | Some scoreSet \<Rightarrow>
           if lc_collapseScores (rb_config b)
           then rbind (array_get scoreSet (rb_offset b + reoType)) (array_set scores (rb_offset b))
           else rbind (fill_zero (rb_offset b) (rb_offset b + GetNumberOfTypes (rb_config b)) scores) (\<lambda>s.
                rbind (array_get scoreSet (rb_offset b + reoType)) (array_set s (rb_offset b + reoType))))"

definition ClearScores :: "reo_base \<Rightarrow> real list \<Rightarrow> real list result" where
  "ClearScores b scores =
     (if lc_collapseScores (rb_config b) then array_set scores (rb_offset b) 0
      else fill_zero (rb_offset b) (rb_offset b + GetNumberOfTypes (rb_config b)) scores)"

fun compare_from :: "real list \<Rightarrow> real list \<Rightarrow> nat list \<Rightarrow> int result" where
  "compare_from my their [] = Inr 0"
| "compare_from my their (i # is) =
     rbind (array_get my i) (\<lambda>m. rbind (array_get their i) (\<lambda>t.
       if m < t then Inr (-1) else if m > t then Inr 1 else compare_from my their is))"

definition ComparePrevScores :: "reo_base \<Rightarrow> real list option \<Rightarrow> int result" where
  "ComparePrevScores b other =
     (if rb_prevScore b = other then Inr 0
      else case (rb_prevScore b, other) of
        (_, None) \<Rightarrow> Inr (-1)
      | (None, _) \<Rightarrow> Inr 1
      | (Some my, Some their) \<Rightarrow> compare_from my their [rb_offset b..<rb_offset b + GetNumberOfTypes (rb_config b)])"

text \<open>Comparison of states; states of different classes fail the cast.\<close>

definition compare_ranges :: "words_range \<Rightarrow> words_range \<Rightarrow> int result \<Rightarrow> int result" where
  "compare_ranges r other equal = (if r = other then equal else if r < other then Inr (-1) else Inr 1)"

definition PhraseBased_Compare :: "reo_base \<Rightarrow> words_range \<Rightarrow> reo_base \<Rightarrow> words_range \<Rightarrow> int result" where
  "PhraseBased_Compare b r b' r' = compare_ranges r r' (if rb_direction b = Forward then ComparePrevScores b (rb_prevScore b') else Inr 0)"

definition HierarchicalForward_Compare :: "reo_base \<Rightarrow> words_range \<Rightarrow> reo_base \<Rightarrow> words_range \<Rightarrow> int result" where
  "HierarchicalForward_Compare b r b' r' = compare_ranges r r' (ComparePrevScores b (rb_prevScore b'))"

fun reo_Compare :: "reo_state \<Rightarrow> reo_state \<Rightarrow> int result" where
  "reo_Compare (PhraseBasedReordering b r first) (PhraseBasedReordering b' r' first') =
     (if PhraseBasedReordering b r first = PhraseBasedReordering b' r' first' then Inr 0 else PhraseBased_Compare b r b' r')"
| "reo_Compare (HierarchicalBackward b st) (HierarchicalBackward b' st') = Inr (stack_Compare st st')"
| "reo_Compare (HierarchicalForward b first r cov) (HierarchicalForward b' first' r' cov') =
     (if HierarchicalForward b first r cov = HierarchicalForward b' first' r' cov' then Inr 0 else HierarchicalForward_Compare b r b' r')"
| "reo_Compare (BidirectionalReordering b bw fw) (BidirectionalReordering b' bw' fw') =
     (if BidirectionalReordering b bw fw = BidirectionalReordering b' bw' fw' then Inr 0
      else rbind (reo_Compare bw bw') (\<lambda>c. if c < 0 then Inr (-1) else if c > 0 then Inr 1 else reo_Compare fw fw'))"
| "reo_Compare _ _ = Inl CheckFailed"

section \<open>Orientations\<close>

text \<open>The orientations are indices into the scores of the table: the constants of LexicalReorderingState.\<close>

abbreviation (input) orient_M :: nat where "orient_M \<equiv> 0"
abbreviation (input) orient_NM :: nat where "orient_NM \<equiv> 1"
abbreviation (input) orient_S :: nat where "orient_S \<equiv> 1"
abbreviation (input) orient_D :: nat where "orient_D \<equiv> 2"
abbreviation (input) orient_DL :: nat where "orient_DL \<equiv> 2"
abbreviation (input) orient_DR :: nat where "orient_DR \<equiv> 3"
abbreviation (input) orient_R :: nat where "orient_R \<equiv> 0"
abbreviation (input) orient_L :: nat where "orient_L \<equiv> 1"

subsection \<open>Relative to the previous phrase\<close>

definition phrase_MSD :: "words_range \<Rightarrow> bool \<Rightarrow> words_range \<Rightarrow> nat" where
  "phrase_MSD prevRange first currRange =
     (if first then if GetStartPos currRange = 0 then orient_M else orient_D
      else if GetEndPos prevRange = sz_sub (GetStartPos currRange) 1 then orient_M
      else if GetStartPos prevRange = sz_add (GetEndPos currRange) 1 then orient_S
      else orient_D)"

definition phrase_MSLR :: "words_range \<Rightarrow> bool \<Rightarrow> words_range \<Rightarrow> nat" where
  "phrase_MSLR prevRange first currRange =
     (if first then if GetStartPos currRange = 0 then orient_M else orient_DR
      else if GetEndPos prevRange = sz_sub (GetStartPos currRange) 1 then orient_M
      else if GetStartPos prevRange = sz_add (GetEndPos currRange) 1 then orient_S
      else if GetEndPos prevRange < GetStartPos currRange then orient_DR
      else orient_DL)"

definition phrase_Monotonic :: "words_range \<Rightarrow> bool \<Rightarrow> words_range \<Rightarrow> nat" where
  "phrase_Monotonic prevRange first currRange =
     (if first \<and> GetStartPos currRange = 0 \<or> GetEndPos prevRange = sz_sub (GetStartPos currRange) 1 then orient_M else orient_NM)"

definition phrase_LeftRight :: "words_range \<Rightarrow> bool \<Rightarrow> words_range \<Rightarrow> nat" where
  "phrase_LeftRight prevRange first currRange =
     (if first \<or> GetEndPos prevRange \<le> GetStartPos currRange then orient_R else orient_L)"

subsection \<open>Relative to the blocks of the stack\<close>

definition stack_MSD :: "int \<Rightarrow> nat" where
  "stack_MSD reoDistance = (if reoDistance = 1 then orient_M else if reoDistance = -1 then orient_S else orient_D)"

definition stack_MSLR :: "int \<Rightarrow> nat" where
  "stack_MSLR reoDistance = (if reoDistance = 1 then orient_M else if reoDistance = -1 then orient_S
     else if reoDistance > 1 then orient_DR else orient_DL)"

definition stack_Monotonic :: "int \<Rightarrow> nat" where
  "stack_Monotonic reoDistance = (if reoDistance = 1 then orient_M else orient_NM)"

definition stack_LeftRight :: "int \<Rightarrow> nat" where
  "stack_LeftRight reoDistance = (if reoDistance \<ge> 1 then orient_R else orient_L)"

subsection \<open>Relative to the translated words\<close>

text \<open>A gap next to the previous phrase, or the phrase itself next to it; the coverage is read only on the side of the phrase.\<close>

definition follows_gap :: "words_range \<Rightarrow> words_range \<Rightarrow> words_bitmap \<Rightarrow> bool result" where
  "follows_gap prevRange currRange cov =
     (if GetStartPos currRange > GetEndPos prevRange
      then rbind (GetValue cov (sz_add (GetEndPos prevRange) 1)) (\<lambda>v.
             Inr (\<not> v \<or> GetStartPos currRange = sz_add (GetEndPos prevRange) 1))
      else Inr False)"

definition precedes_gap :: "words_range \<Rightarrow> words_range \<Rightarrow> words_bitmap \<Rightarrow> bool result" where
  "precedes_gap prevRange currRange cov =
     (if GetEndPos currRange < GetStartPos prevRange
      then rbind (GetValue cov (sz_sub (GetStartPos prevRange) 1)) (\<lambda>v.
             Inr (\<not> v \<or> GetEndPos currRange = sz_sub (GetStartPos prevRange) 1))
      else Inr False)"

definition gap_MSD :: "words_range \<Rightarrow> words_range \<Rightarrow> words_bitmap \<Rightarrow> nat result" where
  "gap_MSD prevRange currRange cov =
     rbind (follows_gap prevRange currRange cov) (\<lambda>mono. if mono then Inr orient_M
     else rbind (precedes_gap prevRange currRange cov) (\<lambda>swap. Inr (if swap then orient_S else orient_D)))"

definition gap_MSLR :: "words_range \<Rightarrow> words_range \<Rightarrow> words_bitmap \<Rightarrow> nat result" where
  "gap_MSLR prevRange currRange cov =
     rbind (follows_gap prevRange currRange cov) (\<lambda>mono. if mono then Inr orient_M
     else rbind (precedes_gap prevRange currRange cov) (\<lambda>swap. Inr (if swap then orient_S
       else if GetStartPos currRange > GetEndPos prevRange then orient_DR else orient_DL)))"

definition gap_Monotonic :: "words_range \<Rightarrow> words_range \<Rightarrow> words_bitmap \<Rightarrow> nat result" where
  "gap_Monotonic prevRange currRange cov =
     rbind (follows_gap prevRange currRange cov) (\<lambda>mono. Inr (if mono then orient_M else orient_NM))"

definition gap_LeftRight :: "words_range \<Rightarrow> words_range \<Rightarrow> nat" where
  "gap_LeftRight prevRange currRange = (if GetStartPos currRange > GetEndPos prevRange then orient_R else orient_L)"

section \<open>Extending a state\<close>

text \<open>The branches on the type of the model in the order of each class.\<close>

definition phrase_orientation :: "model_type \<Rightarrow> words_range \<Rightarrow> bool \<Rightarrow> words_range \<Rightarrow> nat" where
  "phrase_orientation t prevRange first currRange = (case t of
     MSD \<Rightarrow> phrase_MSD prevRange first currRange
   | MSLR \<Rightarrow> phrase_MSLR prevRange first currRange
   | Monotonic \<Rightarrow> phrase_Monotonic prevRange first currRange
   | _ \<Rightarrow> phrase_LeftRight prevRange first currRange)"

definition stack_orientation :: "model_type \<Rightarrow> int \<Rightarrow> nat" where
  "stack_orientation t reoDistance = (case t of
     MSD \<Rightarrow> stack_MSD reoDistance | MSLR \<Rightarrow> stack_MSLR reoDistance | LeftRight \<Rightarrow> stack_LeftRight reoDistance
   | _ \<Rightarrow> stack_Monotonic reoDistance)"

definition gap_orientation :: "model_type \<Rightarrow> words_range \<Rightarrow> words_range \<Rightarrow> words_bitmap \<Rightarrow> nat result" where
  "gap_orientation t prevRange currRange cov = (case t of
     MSD \<Rightarrow> gap_MSD prevRange currRange cov
   | MSLR \<Rightarrow> gap_MSLR prevRange currRange cov
   | Monotonic \<Rightarrow> gap_Monotonic prevRange currRange cov
   | _ \<Rightarrow> Inr (gap_LeftRight prevRange currRange))"

text \<open>The base of the next state keeps the scores of the option, which the forward scores of the option after it are taken from.\<close>

definition next_base :: "reo_base \<Rightarrow> real list option \<Rightarrow> reo_base" where
  "next_base b cachedScores = b\<lparr>rb_prevScore := cachedScores\<rparr>"

definition PhraseBased_Expand :: "words_range \<Rightarrow> real list option \<Rightarrow> reo_base \<Rightarrow> words_range \<Rightarrow> bool \<Rightarrow> real list
    \<Rightarrow> (reo_state \<times> real list) result" where
  "PhraseBased_Expand currWordsRange cachedScores b prevRange first scores =
     rbind (if rb_direction b = Forward \<and> first then ClearScores b scores
            else CopyScores b cachedScores (phrase_orientation (lc_modelType (rb_config b)) prevRange first currWordsRange) scores) (\<lambda>scores'.
       Inr (PhraseBasedReordering (next_base b cachedScores) currWordsRange False, scores'))"

definition HierarchicalBackward_Expand :: "words_range \<Rightarrow> real list option \<Rightarrow> reo_base \<Rightarrow> reordering_stack \<Rightarrow> real list
    \<Rightarrow> (reo_state \<times> real list) result" where
  "HierarchicalBackward_Expand currWordsRange cachedScores b reoStack scores =
     (let (reoDistance, reoStack') = ShiftReduce currWordsRange reoStack in
      rbind (CopyScores b cachedScores (stack_orientation (lc_modelType (rb_config b)) reoDistance) scores) (\<lambda>scores'.
        Inr (HierarchicalBackward (next_base b cachedScores) reoStack', scores')))"

text \<open>The constructor of the next forward state sets the coverage once more.\<close>

definition next_forward :: "words_range \<Rightarrow> real list option \<Rightarrow> reo_base \<Rightarrow> words_bitmap \<Rightarrow> reo_state result" where
  "next_forward currWordsRange cachedScores b prev_coverage =
     rbind (SetValue_range prev_coverage (GetStartPos currWordsRange) (GetEndPos currWordsRange) True) (\<lambda>cov.
       Inr (HierarchicalForward (next_base b cachedScores) False currWordsRange cov))"

definition HierarchicalForward_Expand :: "words_range \<Rightarrow> real list option \<Rightarrow> reo_base \<Rightarrow> bool \<Rightarrow> words_range \<Rightarrow> words_bitmap \<Rightarrow> real list
    \<Rightarrow> (reo_state \<times> real list) result" where
  "HierarchicalForward_Expand currWordsRange cachedScores b first prevRange m_coverage scores =
     rbind (SetValue_range m_coverage (GetStartPos currWordsRange) (GetEndPos currWordsRange) True) (\<lambda>cov.
     rbind (if first then ClearScores b scores
            else rbind (gap_orientation (lc_modelType (rb_config b)) prevRange currWordsRange cov) (\<lambda>reoType.
                   CopyScores b cachedScores reoType scores)) (\<lambda>scores'.
     rbind (next_forward currWordsRange cachedScores b m_coverage) (\<lambda>nextState. Inr (nextState, scores'))))"

fun Expand :: "words_range \<Rightarrow> real list option \<Rightarrow> reo_state \<Rightarrow> real list \<Rightarrow> (reo_state \<times> real list) result" where
  "Expand currWordsRange cachedScores (PhraseBasedReordering b prevRange first) scores =
     PhraseBased_Expand currWordsRange cachedScores b prevRange first scores"
| "Expand currWordsRange cachedScores (HierarchicalBackward b reoStack) scores =
     HierarchicalBackward_Expand currWordsRange cachedScores b reoStack scores"
| "Expand currWordsRange cachedScores (HierarchicalForward b first prevRange m_coverage) scores =
     HierarchicalForward_Expand currWordsRange cachedScores b first prevRange m_coverage scores"
| "Expand currWordsRange cachedScores (BidirectionalReordering b bwd fwd) scores =
     rbind (Expand currWordsRange cachedScores bwd scores) (\<lambda>(newbwd, scores').
     rbind (Expand currWordsRange cachedScores fwd scores') (\<lambda>(newfwd, scores'').
       Inr (BidirectionalReordering (initial_base (rb_config b) Bidirectional (rb_offset b)) newbwd newfwd, scores'')))"

text \<open>
  The feature function: cached gives the scores of an option, and the cast of a state of another feature function, like a missing
  option, is a null pointer.
\<close>

definition LexicalReordering_Evaluate :: "score_index \<Rightarrow> score_producer \<Rightarrow> reo_config \<Rightarrow> (pb_option \<Rightarrow> real list option) \<Rightarrow> 's pb_hypo
    \<Rightarrow> reo_state option \<Rightarrow> real list \<Rightarrow> (reo_state option \<times> real list) result" where
  "LexicalReordering_Evaluate sim sp c cached hypo prev_state out = (case (prev_state, ph_transOpt hypo) of
     (Some prev, Some topt) \<Rightarrow>
       rbind (Expand (po_range topt) (cached topt) prev (replicate (GetNumScoreComponents c) 0)) (\<lambda>(next_state, score).
       rbind (PlusEquals_scores sim sp score out) (\<lambda>out'. Inr (Some next_state, out')))
   | _ \<Rightarrow> Inl NullPointer)"

definition LexicalReordering_EmptyHypothesisState :: "reo_config \<Rightarrow> nat \<Rightarrow> reo_state" where
  "LexicalReordering_EmptyHypothesisState c inputSize = CreateLexicalReorderingState c inputSize"

end
