(* ===== verification/LexReorderingProps.thy ===== *)
theory LexReorderingProps
  imports LexReordering
begin

text \<open>
  Lemmas on the lexicalised reordering model: its states keep their shape and never read outside a table, the stack of blocks is
  a partition of the translated words into blocks that do not touch, the scores of a derivation, and recombination.
\<close>

section \<open>Shapes of states\<close>

definition reo_width :: "reo_config \<Rightarrow> nat" where
  "reo_width c = (if lc_collapseScores c then 1 else GetNumberOfTypes c)"

text \<open>The scores of a table have a column for each orientation of each direction.\<close>

definition table_columns :: "reo_config \<Rightarrow> nat" where
  "table_columns c = (if lc_direction c = Bidirectional then 2 * GetNumberOfTypes c else GetNumberOfTypes c)"

definition enough_scores :: "reo_config \<Rightarrow> real list option \<Rightarrow> bool" where
  "enough_scores c cached \<longleftrightarrow> (\<forall>s. cached = Some s \<longrightarrow> table_columns c \<le> length s)"

definition direction_offset :: "reo_config \<Rightarrow> reo_direction \<Rightarrow> nat" where
  "direction_offset c dir = (if dir = Forward \<and> lc_direction c = Bidirectional then reo_width c else 0)"

definition base_typed :: "reo_config \<Rightarrow> reo_direction \<Rightarrow> reo_base \<Rightarrow> bool" where
  "base_typed c dir b \<longleftrightarrow> rb_config b = c \<and> rb_direction b = dir \<and> rb_offset b = direction_offset c dir \<and> enough_scores c (rb_prevScore b)
     \<and> (dir = Backward \<or> dir = Forward) \<and> (lc_direction c = Bidirectional \<or> lc_direction c = dir)"

fun one_direction :: "reo_config \<Rightarrow> nat \<Rightarrow> reo_direction \<Rightarrow> reo_state \<Rightarrow> bool" where
  "one_direction c n dir (PhraseBasedReordering b r first) \<longleftrightarrow> base_typed c dir b \<and> lc_phraseBased c
     \<and> (if first then r = WordsRange NOT_FOUND NOT_FOUND else valid_range n r)"
| "one_direction c n dir (HierarchicalBackward b st) \<longleftrightarrow> base_typed c dir b \<and> \<not> lc_phraseBased c \<and> dir = Backward"
| "one_direction c n dir (HierarchicalForward b first r cov) \<longleftrightarrow> base_typed c dir b \<and> \<not> lc_phraseBased c \<and> dir = Forward
     \<and> wf_bitmap cov \<and> wb_size cov = n \<and> (if first then r = WordsRange NOT_FOUND NOT_FOUND else valid_range n r)"
| "one_direction c n dir (BidirectionalReordering b bw fw) \<longleftrightarrow> False"

text \<open>The class of a state is fixed by the configuration.\<close>

fun reo_typed :: "reo_config \<Rightarrow> nat \<Rightarrow> reo_state \<Rightarrow> bool" where
  "reo_typed c n (BidirectionalReordering b bw fw) \<longleftrightarrow> lc_direction c = Bidirectional \<and> rb_config b = c
     \<and> one_direction c n Backward bw \<and> one_direction c n Forward fw"
| "reo_typed c n st \<longleftrightarrow> lc_direction c \<noteq> Bidirectional \<and> one_direction c n (lc_direction c) st"

lemma types_positive [simp]: "0 < GetNumberOfTypes c"
  by (simp add: GetNumberOfTypes_def split: model_type.split)

lemma components_width:
  "GetNumScoreComponents c = (if lc_direction c = Bidirectional then 2 * reo_width c else reo_width c)"
  by (simp add: GetNumScoreComponents_def reo_width_def Let_def)

lemma width_fits: "base_typed c dir b \<Longrightarrow> rb_offset b + reo_width c \<le> GetNumScoreComponents c"
  by (auto simp: base_typed_def direction_offset_def components_width)

lemma column_exists:
  assumes "base_typed c dir b" "enough_scores c (Some s)" "t < GetNumberOfTypes c"
  shows "rb_offset b + t < length s"
proof -
  have "reo_width c \<le> GetNumberOfTypes c" using types_positive [of c] unfolding reo_width_def by (simp add: Suc_leI del: types_positive)
  then have "rb_offset b + t < table_columns c"
    using assms(1,3) by (auto simp: base_typed_def direction_offset_def table_columns_def)
  then show ?thesis using assms(2) by (auto simp: enough_scores_def)
qed

subsection \<open>Orientations\<close>

lemma orientation_bounds:
  "phrase_orientation (lc_modelType c) r first r' < GetNumberOfTypes c"
  "stack_orientation (lc_modelType c) d < GetNumberOfTypes c"
  by (auto simp: phrase_orientation_def stack_orientation_def GetNumberOfTypes_def phrase_MSD_def phrase_MSLR_def phrase_Monotonic_def
      phrase_LeftRight_def stack_MSD_def stack_MSLR_def stack_Monotonic_def stack_LeftRight_def split: model_type.split)

lemma NOT_FOUND_Suc: "n \<le> NOT_FOUND \<Longrightarrow> Suc n \<le> SIZE_RANGE"
  by (simp add: NOT_FOUND_def SIZE_RANGE_def)

lemma follows_gap_in:
  assumes "wf_bitmap cov" "valid_range (wb_size cov) r" "valid_range (wb_size cov) r'"
  shows "follows_gap r r' cov = Inr (GetStartPos r' > GetEndPos r \<and> (\<not> covered cov (Suc (GetEndPos r)) \<or> GetStartPos r' = Suc (GetEndPos r)))"
proof (cases "GetStartPos r' > GetEndPos r")
  case True
  then have "Suc (GetEndPos r) < wb_size cov" using assms(3) by (cases r') auto
  moreover have "sz_add (GetEndPos r) 1 = Suc (GetEndPos r)"
    using calculation assms(2) NOT_FOUND_Suc [of "wb_size cov"] by (cases r) simp
  ultimately show ?thesis using True assms(1) by (simp add: follows_gap_def GetValue_in)
qed (simp add: follows_gap_def)

lemma precedes_gap_in:
  assumes "wf_bitmap cov" "valid_range (wb_size cov) r" "valid_range (wb_size cov) r'"
  shows "precedes_gap r r' cov = Inr (GetEndPos r' < GetStartPos r \<and> (\<not> covered cov (GetStartPos r - 1) \<or> GetEndPos r' = GetStartPos r - 1))"
proof (cases "GetEndPos r' < GetStartPos r")
  case True
  then have "GetStartPos r - 1 < wb_size cov" using assms(2) by (cases r) auto
  moreover have "sz_sub (GetStartPos r) 1 = GetStartPos r - 1"
    using True assms(2) NOT_FOUND_Suc [of "wb_size cov"] by (cases r) simp
  ultimately show ?thesis using True assms(1) by (simp add: precedes_gap_def GetValue_in)
qed (simp add: precedes_gap_def)

lemma gap_orientation_bound:
  assumes "wf_bitmap cov" "valid_range (wb_size cov) r" "valid_range (wb_size cov) r'"
  shows "\<exists>t < GetNumberOfTypes c. gap_orientation (lc_modelType c) r r' cov = Inr t"
  by (simp add: gap_orientation_def gap_MSD_def gap_MSLR_def gap_Monotonic_def gap_LeftRight_def follows_gap_in [OF assms]
      precedes_gap_in [OF assms] GetNumberOfTypes_def split: model_type.split)

section \<open>Scores\<close>

text \<open>What one direction writes: its components of the scores, from the column of the orientation.\<close>

definition write_direction :: "reo_base \<Rightarrow> (nat \<Rightarrow> real) \<Rightarrow> real list \<Rightarrow> real list" where
  "write_direction b v scores =
     map (\<lambda>i. if rb_offset b \<le> i \<and> i < rb_offset b + reo_width (rb_config b) then v (i - rb_offset b) else scores ! i) [0..<length scores]"

lemma write_direction_length [simp]: "length (write_direction b v scores) = length scores"
  by (simp add: write_direction_def)

lemma fill_zero_in:
  assumes "to \<le> length s" "from \<le> to"
  shows "fill_zero from to s = Inr (map (\<lambda>i. if from \<le> i \<and> i < to then 0 else s ! i) [0..<length s])"
  using assms(2,1)
proof (induction to rule: dec_induct)
  case base
  then show ?case by (auto simp: fill_zero_def intro!: nth_equalityI)
next
  case (step to)
  then show ?case by (auto simp: fill_zero_def rfold_append nth_list_update intro!: nth_equalityI)
qed

definition copied_column :: "reo_config \<Rightarrow> real list \<Rightarrow> nat \<Rightarrow> nat \<Rightarrow> nat \<Rightarrow> real" where
  "copied_column c s offset t j = (if lc_collapseScores c \<or> j = t then s ! (offset + t) else 0)"

lemma CopyScores_in:
  assumes "base_typed c dir b" "enough_scores c cached" "t < GetNumberOfTypes c" "length scores = GetNumScoreComponents c"
  shows "CopyScores b cached t scores = Inr (case (if dir = Backward then cached else rb_prevScore b) of
      None \<Rightarrow> scores | Some s \<Rightarrow> write_direction b (copied_column c s (rb_offset b) t) scores)"
proof (cases "if dir = Backward then cached else rb_prevScore b")
  case None
  then show ?thesis using assms(1) by (auto simp: CopyScores_def base_typed_def)
next
  case (Some s)
  have b: "rb_config b = c" "rb_direction b = dir" "dir = Backward \<or> dir = Forward" using assms(1) by (auto simp: base_typed_def)
  have "enough_scores c (Some s)" using Some assms(1,2) by (auto simp: base_typed_def split: if_splits)
  then have col: "rb_offset b + t < length s" by (rule column_exists [OF assms(1) _ assms(3)])
  have fits: "rb_offset b + reo_width c \<le> length scores" using width_fits [OF assms(1)] assms(4) by simp
  show ?thesis
  proof (cases "lc_collapseScores c")
    case True
    then have "rb_offset b < length scores" using fits by (simp add: reo_width_def)
    then have "CopyScores b cached t scores = Inr (scores[rb_offset b := s ! (rb_offset b + t)])"
      using b Some col True by (auto simp: CopyScores_def)
    also have "scores[rb_offset b := s ! (rb_offset b + t)] = write_direction b (copied_column c s (rb_offset b) t) scores"
      using True b(1) by (intro nth_equalityI) (auto simp: write_direction_def reo_width_def copied_column_def nth_list_update)
    finally show ?thesis unfolding Some by simp
  next
    case False
    then have types: "rb_offset b + GetNumberOfTypes c \<le> length scores" using fits by (simp add: reo_width_def)
    let ?z = "map (\<lambda>i. if rb_offset b \<le> i \<and> i < rb_offset b + GetNumberOfTypes c then 0 else scores ! i) [0..<length scores]"
    have "rb_offset b + t < length ?z" using types assms(3) by simp
    then have "CopyScores b cached t scores = Inr (?z[rb_offset b + t := s ! (rb_offset b + t)])"
      using b Some col False types by (auto simp: CopyScores_def fill_zero_in simp del: length_map)
    also have "?z[rb_offset b + t := s ! (rb_offset b + t)] = write_direction b (copied_column c s (rb_offset b) t) scores"
      using False b(1) assms(3) by (intro nth_equalityI) (auto simp: write_direction_def reo_width_def copied_column_def nth_list_update)
    finally show ?thesis unfolding Some by simp
  qed
qed

lemma ClearScores_in:
  assumes "base_typed c dir b" "length scores = GetNumScoreComponents c"
  shows "ClearScores b scores = Inr (write_direction b (\<lambda>_. 0) scores)"
proof -
  have b: "rb_config b = c" using assms(1) by (simp add: base_typed_def)
  have fits: "rb_offset b + reo_width c \<le> length scores" using width_fits [OF assms(1)] assms(2) by simp
  show ?thesis
  proof (cases "lc_collapseScores c")
    case True
    then show ?thesis using fits b
      by (auto simp: ClearScores_def reo_width_def write_direction_def nth_list_update intro!: nth_equalityI)
  next
    case False
    then show ?thesis using fits b by (simp add: ClearScores_def reo_width_def write_direction_def fill_zero_in)
  qed
qed

section \<open>One step\<close>

lemmas [simp] = PhraseBased_Expand_def HierarchicalBackward_Expand_def next_forward_def HierarchicalForward_Expand_def
  PhraseBased_Compare_def HierarchicalForward_Compare_def

text \<open>The scores of one direction after an option: those of the option for the backward direction, of the previous one for the forward.\<close>

definition source_scores :: "reo_base \<Rightarrow> real list option \<Rightarrow> real list option" where
  "source_scores b cached = (if rb_direction b = Backward then cached else rb_prevScore b)"

definition copied_scores :: "reo_base \<Rightarrow> real list option \<Rightarrow> nat \<Rightarrow> real list \<Rightarrow> real list" where
  "copied_scores b cached t scores = (case source_scores b cached of
     None \<Rightarrow> scores | Some s \<Rightarrow> write_direction b (copied_column (rb_config b) s (rb_offset b) t) scores)"

lemma copied_scores_length [simp]: "length (copied_scores b cached t scores) = length scores"
  by (simp add: copied_scores_def split: option.split)

lemma base_config: "base_typed c dir b \<Longrightarrow> rb_config b = c" "base_typed c dir b \<Longrightarrow> rb_direction b = dir"
  by (simp_all add: base_typed_def)

lemma CopyScores_typed:
  assumes "base_typed c dir b" "enough_scores c cached" "t < GetNumberOfTypes c" "length scores = GetNumScoreComponents c"
  shows "CopyScores b cached t scores = Inr (copied_scores b cached t scores)"
  using CopyScores_in [OF assms] by (simp add: copied_scores_def source_scores_def base_config [OF assms(1)] cong: option.case_cong)

lemma next_base_typed: "base_typed c dir b \<Longrightarrow> enough_scores c cached \<Longrightarrow> base_typed c dir (next_base b cached)"
  by (simp add: base_typed_def next_base_def)

lemma Expand_phrase:
  assumes "one_direction c n dir (PhraseBasedReordering b p first)" "enough_scores c cached" "length scores = GetNumScoreComponents c"
  shows "Expand r cached (PhraseBasedReordering b p first) scores = Inr (PhraseBasedReordering (next_base b cached) r False,
     if dir = Forward \<and> first then write_direction b (\<lambda>_. 0) scores
     else copied_scores b cached (phrase_orientation (lc_modelType c) p first r) scores)"
proof -
  have b: "base_typed c dir b" using assms(1) by simp
  show ?thesis using CopyScores_typed [OF b assms(2) orientation_bounds(1) assms(3)] ClearScores_in [OF b assms(3)]
    by (simp add: base_config [OF b])
qed

lemma Expand_stack:
  assumes "one_direction c n dir (HierarchicalBackward b st)" "enough_scores c cached" "length scores = GetNumScoreComponents c"
  shows "Expand r cached (HierarchicalBackward b st) scores = Inr (HierarchicalBackward (next_base b cached) (snd (ShiftReduce r st)),
     copied_scores b cached (stack_orientation (lc_modelType c) (fst (ShiftReduce r st))) scores)"
proof -
  have b: "base_typed c dir b" using assms(1) by auto
  show ?thesis using CopyScores_typed [OF b assms(2) orientation_bounds(2) assms(3)]
    by (simp add: base_config [OF b] split: prod.split)
qed

lemma valid_SetValue_range:
  "wf_bitmap cov \<Longrightarrow> valid_range (wb_size cov) r \<Longrightarrow>
     SetValue_range cov (GetStartPos r) (GetEndPos r) True = Inr (set_span cov (GetStartPos r) (Suc (GetEndPos r)) True)"
  by (cases r) (simp add: SetValue_range_in)

lemma Expand_gap:
  assumes "one_direction c n dir (HierarchicalForward b first p cov)" "enough_scores c cached" "length scores = GetNumScoreComponents c"
    and "valid_range n r"
  shows "\<exists>t. (first \<or> gap_orientation (lc_modelType c) p r (set_span cov (GetStartPos r) (Suc (GetEndPos r)) True) = Inr t)
     \<and> Expand r cached (HierarchicalForward b first p cov) scores = Inr (HierarchicalForward (next_base b cached) False r
         (set_span cov (GetStartPos r) (Suc (GetEndPos r)) True),
         if first then write_direction b (\<lambda>_. 0) scores else copied_scores b cached t scores)"
proof -
  have b: "base_typed c dir b" and cov: "wf_bitmap cov" "wb_size cov = n" and p: "\<not> first \<Longrightarrow> valid_range n p"
    using assms(1) by auto
  note set' = valid_SetValue_range [OF cov(1), of r, unfolded cov(2), OF assms(4)]
  show ?thesis
  proof (cases first)
    case True
    then show ?thesis using set' ClearScores_in [OF b assms(3)] by simp
  next
    case False
    let ?cov = "set_span cov (GetStartPos r) (Suc (GetEndPos r)) True"
    have "wf_bitmap ?cov" "wb_size ?cov = n" using cov by (simp_all add: wf_set_span)
    then obtain t where t: "t < GetNumberOfTypes c" "gap_orientation (lc_modelType c) p r ?cov = Inr t"
      using gap_orientation_bound [of ?cov p r c] p [OF False] assms(4) by auto
    then show ?thesis using False set' CopyScores_typed [OF b assms(2) t(1) assms(3)] by (auto simp: base_config [OF b])
  qed
qed

lemma Expand_one_direction:
  assumes "one_direction c n dir st" "enough_scores c cached" "length scores = GetNumScoreComponents c" "valid_range n r"
  shows "\<exists>st' scores'. Expand r cached st scores = Inr (st', scores') \<and> one_direction c n dir st' \<and> length scores' = length scores"
proof (cases st)
  case (PhraseBasedReordering b p first)
  then show ?thesis using Expand_phrase [of c n dir b p first cached scores r] assms by (simp add: next_base_typed)
next
  case (HierarchicalBackward b s)
  then show ?thesis using Expand_stack [of c n dir b s cached scores r] assms by (auto simp: next_base_typed simp del: Expand.simps)
next
  case (HierarchicalForward b first p cov)
  have one: "one_direction c n dir (HierarchicalForward b first p cov)" using assms(1) unfolding HierarchicalForward .
  obtain t where "Expand r cached st scores = Inr (HierarchicalForward (next_base b cached) False r
      (set_span cov (GetStartPos r) (Suc (GetEndPos r)) True), if first then write_direction b (\<lambda>_. 0) scores else copied_scores b cached t scores)"
    using Expand_gap [OF one assms(2-4)] HierarchicalForward by blast
  moreover have "base_typed c dir (next_base b cached)" using one assms(2) by (auto intro: next_base_typed)
  ultimately show ?thesis using one assms(4) by (simp add: wf_set_span split: if_splits)
qed (use assms in simp)

lemma Expand_typed:
  assumes "reo_typed c n st" "enough_scores c cached" "length scores = GetNumScoreComponents c" "valid_range n r"
  shows "\<exists>st' scores'. Expand r cached st scores = Inr (st', scores') \<and> reo_typed c n st' \<and> length scores' = length scores"
proof (cases "lc_direction c = Bidirectional")
  case True
  then obtain b bw fw where st: "st = BidirectionalReordering b bw fw" "rb_config b = c"
    "one_direction c n Backward bw" "one_direction c n Forward fw"
    using assms(1) by (cases st) auto
  obtain bw' s1 where 1: "Expand r cached bw scores = Inr (bw', s1)" "one_direction c n Backward bw'" "length s1 = length scores"
    using Expand_one_direction [OF st(3) assms(2-4)] by blast
  obtain fw' s2 where 2: "Expand r cached fw s1 = Inr (fw', s2)" "one_direction c n Forward fw'" "length s2 = length scores"
    using Expand_one_direction [OF st(4) assms(2) _ assms(4), of s1] 1(3) assms(3) by auto
  show ?thesis using 1 2 st True by (simp add: initial_base_def)
next
  case False
  then have "one_direction c n (lc_direction c) st" using assms(1) by (cases st) auto
  then obtain st' s' where "Expand r cached st scores = Inr (st', s')" "one_direction c n (lc_direction c) st'" "length s' = length scores"
    using Expand_one_direction assms(2-4) by blast
  then show ?thesis using False by (cases st') auto
qed

lemma Create_typed: "lc_modelType c \<noteq> NoModelType \<Longrightarrow> n < 2 ^ 31 \<Longrightarrow> reo_typed c n (CreateLexicalReorderingState c n)"
  by (auto simp: CreateLexicalReorderingState_def Let_def base_typed_def initial_base_def direction_offset_def reo_width_def
      enough_scores_def wf_WordsBitmap split: reo_direction.split) (simp_all add: WordsBitmap_def)

section \<open>The feature function\<close>

lemma PlusEquals_scores_in:
  assumes "wf_index sps sim" "k < length sps" "sp_id sp = k" "sp_components sp = sp_components (sps ! k)"
    and "length out = si_last sim" "length vs = sp_components sp"
  shows "\<exists>r. PlusEquals_scores sim sp vs out = Inr r \<and> length r = length out
    \<and> (\<forall>i < length out. r ! i = (if slot sps k \<le> i \<and> i < slot sps k + length vs then out ! i + vs ! (i - slot sps k) else out ! i))"
proof -
  note R = wf_range [OF assms(1-4)]
  have "slot sps k + length vs \<le> length out" using R(3) assms(5,6) by simp
  from update_loop [OF this, of "\<lambda>v x. x + v"] show ?thesis using R(1) assms(6) by (simp add: PlusEquals_scores_def)
qed

lemma configured_type: "LexicalReorderingConfiguration s = Inr c \<Longrightarrow> lc_modelType c \<noteq> NoModelType"
  by (auto simp: LexicalReorderingConfiguration_def rbind_eq_Inr split: if_splits)

text \<open>
  C5. The states of a configured model are well typed: a state has the class, the direction and the offset its configuration asks
  for, and the ranges in it lie in the sentence. The state of the empty hypothesis is well typed, and Evaluate takes every well typed state
  without a fault to a well typed one and changes no score but those of the model, when the range of the option lies in the
  sentence and its cached scores have a column for each orientation of each direction.
\<close>

theorem LexicalReordering_typed:
  assumes "LexicalReorderingConfiguration modelType = Inr c" "n < 2 ^ 31"
    and "wf_index sps sim" "k < length sps" "sp_id sp = k" "sp_components sp = sp_components (sps ! k)" "sp_components sp = GetNumScoreComponents c"
    and "ph_transOpt hypo = Some topt" "valid_range n (po_range topt)" "enough_scores c (cached topt)" "length out = si_last sim"
  shows "reo_typed c n (LexicalReordering_EmptyHypothesisState c n)
    \<and> (reo_typed c n st \<longrightarrow> (\<exists>st' out'. LexicalReordering_Evaluate sim sp c cached hypo (Some st) out = Inr (Some st', out')
         \<and> reo_typed c n st' \<and> length out' = length out
         \<and> (\<forall>i < length out. i < slot sps k \<or> slot sps k + GetNumScoreComponents c \<le> i \<longrightarrow> out' ! i = out ! i)))"
proof (intro conjI impI)
  show "reo_typed c n (LexicalReordering_EmptyHypothesisState c n)"
    using configured_type [OF assms(1)] assms(2) by (simp add: LexicalReordering_EmptyHypothesisState_def Create_typed)
  assume "reo_typed c n st"
  then obtain st' v where e: "Expand (po_range topt) (cached topt) st (replicate (GetNumScoreComponents c) 0) = Inr (st', v)"
      "reo_typed c n st'" "length v = GetNumScoreComponents c"
    using Expand_typed [of c n st "cached topt" "replicate (GetNumScoreComponents c) 0" "po_range topt"] assms(9,10) by auto
  obtain out' where o': "PlusEquals_scores sim sp v out = Inr out'" "length out' = length out"
      "\<forall>i < length out. out' ! i = (if slot sps k \<le> i \<and> i < slot sps k + length v then out ! i + v ! (i - slot sps k) else out ! i)"
    using PlusEquals_scores_in [OF assms(3-6,11), of v] e(3) assms(7) by auto
  have "\<forall>i < length out. i < slot sps k \<or> slot sps k + GetNumScoreComponents c \<le> i \<longrightarrow> out' ! i = out ! i"
    using o'(3) e(3) by auto
  then show "\<exists>st' out'. LexicalReordering_Evaluate sim sp c cached hypo (Some st) out = Inr (Some st', out')
      \<and> reo_typed c n st' \<and> length out' = length out
      \<and> (\<forall>i < length out. i < slot sps k \<or> slot sps k + GetNumScoreComponents c \<le> i \<longrightarrow> out' ! i = out ! i)"
    using e(1,2) o'(1,2) assms(8) by (auto simp: LexicalReordering_Evaluate_def)
qed

definition example_reo :: reo_config where
  "example_reo = \<lparr>lc_modelType = MSD, lc_phraseBased = True, lc_collapseScores = False, lc_direction = Bidirectional, lc_condition = Some ConditionFE\<rparr>"

lemma example_configuration: "LexicalReorderingConfiguration ''msd-bidirectional-fe'' = Inr example_reo"
proof -
  have "list_all (\<lambda>w. w \<noteq> [] \<and> CHR ''-'' \<notin> set w) [''msd'', ''bidirectional'', ''fe'']" by simp
  from Tokenize_Join [OF this] have "Tokenize ''msd-bidirectional-fe'' ''-'' = [''msd'', ''bidirectional'', ''fe'']" by (simp add: Join_Cons)
  then show ?thesis by (simp add: LexicalReorderingConfiguration_def config_part_def example_reo_def)
qed

definition example_reo_option :: pb_option where
  "example_reo_option = \<lparr>po_target = \<lparr>tp_ptr = 0, tp_words = [\<lparr>w_factors = [], w_isNonTerminal = False\<rparr>], tp_futureScore = Fin 0, tp_breakdown = [], tp_align = [], tp_lhs = \<lparr>w_factors = [], w_isNonTerminal = False\<rparr>\<rparr>, po_range = WordsRange 0 1, po_future = Fin 0, po_breakdown = []\<rparr>"

definition example_reo_hypo :: "reo_state pb_hypo" where
  "example_reo_hypo = PbHypo 1 None (po_target example_reo_option) (WordsBitmap 3) (WordsRange 0 1) (WordsRange 0 0) False (Fin 0) (Fin 0) [] [] None None
     (Some example_reo_option)"

lemma LexicalReordering_typed_witness:
  "\<exists>st' out'. LexicalReordering_Evaluate \<lparr>si_begins = [0], si_ends = [6], si_producers = [example_producer 6 0], si_featureNames = [], si_featureShortNames = [], si_last = 6\<rparr>
      (example_producer 6 0) example_reo (\<lambda>_. Some [1, 2, 3, 4, 5, 6]) example_reo_hypo (Some (LexicalReordering_EmptyHypothesisState example_reo 3))
      [0, 0, 0, 0, 0, 0] = Inr (Some st', out') \<and> reo_typed example_reo 3 st'"
proof -
  let ?sim = "\<lparr>si_begins = [0], si_ends = [6], si_producers = [example_producer 6 0], si_featureNames = [], si_featureShortNames = [], si_last = 6\<rparr>"
  have wf: "wf_index [example_producer 6 0] ?sim" by (simp add: wf_index_def slot_def example_producer_def)
  have n: "(3 :: nat) < 2 ^ 31" by simp
  have k: "0 < length [example_producer 6 0]" "sp_id (example_producer 6 0) = 0" "sp_components (example_producer 6 0) = sp_components ([example_producer 6 0] ! 0)"
      "length [0, 0, 0, 0, 0, 0 :: real] = si_last ?sim"
    by (simp_all add: example_producer_def)
  have c: "sp_components (example_producer 6 0) = GetNumScoreComponents example_reo" "valid_range 3 (po_range example_reo_option)"
      "enough_scores example_reo (Some [1, 2, 3, 4, 5, 6])" "ph_transOpt example_reo_hypo = Some example_reo_option"
    by (simp_all add: example_producer_def example_reo_def GetNumScoreComponents_def GetNumberOfTypes_def example_reo_option_def
        example_reo_hypo_def enough_scores_def table_columns_def NOT_FOUND_def)
  show ?thesis
    using LexicalReordering_typed [OF example_configuration n wf k(1-3) c(1,4,2,3) k(4), of "LexicalReordering_EmptyHypothesisState example_reo 3"]
    by blast
qed

section \<open>Recombination\<close>

text \<open>The scores the model gives to a sequence of options after a state.\<close>

fun reo_run :: "reo_config \<Rightarrow> (words_range \<times> real list option) list \<Rightarrow> reo_state \<Rightarrow> real list list result" where
  "reo_run c [] st = Inr []"
| "reo_run c ((r, cached) # opts) st =
     rbind (Expand r cached st (replicate (GetNumScoreComponents c) 0)) (\<lambda>(st', v). rbind (reo_run c opts st') (\<lambda>vs. Inr (v # vs)))"

text \<open>The forward comparison does not read the coverage: the hypotheses' own coverage is compared before their states.\<close>

fun same_coverage :: "reo_state \<Rightarrow> reo_state \<Rightarrow> bool" where
  "same_coverage (HierarchicalForward b first r cov) (HierarchicalForward b' first' r' cov') \<longleftrightarrow> cov = cov'"
| "same_coverage (BidirectionalReordering b bw fw) (BidirectionalReordering b' bw' fw') \<longleftrightarrow> same_coverage bw bw' \<and> same_coverage fw fw'"
| "same_coverage _ _ \<longleftrightarrow> True"

definition columns_agree :: "reo_base \<Rightarrow> reo_base \<Rightarrow> bool" where
  "columns_agree b b' \<longleftrightarrow> (rb_prevScore b = None \<longleftrightarrow> rb_prevScore b' = None) \<and> (\<forall>s s'. rb_prevScore b = Some s \<longrightarrow> rb_prevScore b' = Some s' \<longrightarrow>
     (\<forall>t < GetNumberOfTypes (rb_config b). s ! (rb_offset b + t) = s' ! (rb_offset b + t)))"

fun reo_alike :: "reo_state \<Rightarrow> reo_state \<Rightarrow> bool" where
  "reo_alike (PhraseBasedReordering b r first) (PhraseBasedReordering b' r' first') \<longleftrightarrow> r = r' \<and> first = first'
     \<and> (rb_direction b = Forward \<longrightarrow> columns_agree b b')"
| "reo_alike (HierarchicalBackward b st) (HierarchicalBackward b' st') \<longleftrightarrow> st = st'"
| "reo_alike (HierarchicalForward b first r cov) (HierarchicalForward b' first' r' cov') \<longleftrightarrow> first = first' \<and> r = r' \<and> cov = cov' \<and> columns_agree b b'"
| "reo_alike (BidirectionalReordering b bw fw) (BidirectionalReordering b' bw' fw') \<longleftrightarrow> reo_alike bw bw' \<and> reo_alike fw fw'"
| "reo_alike _ _ \<longleftrightarrow> False"

lemma column_cong: "s ! (off + t) = s' ! (off + t) \<Longrightarrow> copied_column c s off t = copied_column c s' off t"
  by (simp add: copied_column_def fun_eq_iff)

lemma copied_alike:
  assumes "base_typed c dir b" "base_typed c dir b'" "dir = Forward \<Longrightarrow> columns_agree b b'" "t < GetNumberOfTypes c"
  shows "copied_scores b cached t scores = copied_scores b' cached t scores"
proof -
  have b: "rb_config b = c" "rb_config b' = c" "rb_direction b = dir" "rb_direction b' = dir" "rb_offset b = rb_offset b'"
    "dir = Backward \<or> dir = Forward"
    using assms(1,2) by (simp_all add: base_typed_def)
  then have w: "write_direction b = write_direction b'" by (simp add: write_direction_def fun_eq_iff)
  show ?thesis
  proof (cases "dir = Backward")
    case True
    then show ?thesis using b w by (simp add: copied_scores_def source_scores_def cong: option.case_cong)
  next
    case False
    then have "columns_agree b b'" using assms(3) b(6) by blast
    then show ?thesis using False b w assms(4)
      by (auto simp: copied_scores_def source_scores_def columns_agree_def split: option.split
          intro!: arg_cong [where f = "\<lambda>v. write_direction b' v scores"] column_cong)
  qed
qed

lemma write_alike:
  "base_typed c dir b \<Longrightarrow> base_typed c dir b' \<Longrightarrow> write_direction b v scores = write_direction b' v scores"
  by (simp add: write_direction_def base_typed_def)

lemma next_columns [simp]: "columns_agree (next_base b cached) (next_base b' cached)"
  by (simp add: columns_agree_def next_base_def)

lemma next_direction [simp]: "rb_direction (next_base b cached) = rb_direction b"
  by (simp add: next_base_def)

lemma Expand_alike_one:
  assumes "one_direction c n dir a" "one_direction c n dir a'" "reo_alike a a'"
    and "enough_scores c cached" "length scores = GetNumScoreComponents c" "valid_range n r"
  shows "\<exists>x x' s. Expand r cached a scores = Inr (x, s) \<and> Expand r cached a' scores = Inr (x', s) \<and> reo_alike x x'
    \<and> one_direction c n dir x \<and> one_direction c n dir x' \<and> length s = length scores"
proof -
  obtain x s where x: "Expand r cached a scores = Inr (x, s)" "one_direction c n dir x" "length s = length scores"
    using Expand_one_direction [OF assms(1,4-6)] by blast
  obtain x' s' where x': "Expand r cached a' scores = Inr (x', s')" "one_direction c n dir x'"
    using Expand_one_direction [OF assms(2,4-6)] by blast
  have "s = s' \<and> reo_alike x x'"
  proof (cases a)
    case (PhraseBasedReordering b p first)
    then obtain b' where a': "a' = PhraseBasedReordering b' p first" "dir = Forward \<Longrightarrow> columns_agree b b'"
      using assms(1,3) by (cases a') (auto simp: base_config)
    have bb: "base_typed c dir b" "base_typed c dir b'" using assms(1,2) PhraseBasedReordering a' by simp_all
    show ?thesis
      using x(1) x'(1) Expand_phrase [of c n dir b p first cached scores r] Expand_phrase [of c n dir b' p first cached scores r]
        assms(1,2,4,5) PhraseBasedReordering a' copied_alike [OF bb a'(2) orientation_bounds(1)] write_alike [OF bb]
      by (auto simp del: Expand.simps split: if_splits)
  next
    case (HierarchicalBackward b st)
    then obtain b' where a': "a' = HierarchicalBackward b' st" using assms(3) by (cases a') auto
    have one: "one_direction c n dir (HierarchicalBackward b st)" "one_direction c n dir (HierarchicalBackward b' st)"
      using assms(1,2) unfolding HierarchicalBackward a' by blast+
    have bb: "base_typed c dir b" "base_typed c dir b'" "dir = Backward" using one by auto
    have "dir = Forward \<Longrightarrow> columns_agree b b'" using bb(3) by simp
    from copied_alike [OF bb(1,2) this orientation_bounds(2)] show ?thesis
      using x(1) x'(1) Expand_stack [OF one(1) assms(4,5), of r] Expand_stack [OF one(2) assms(4,5), of r]
      unfolding HierarchicalBackward a' by (auto simp del: Expand.simps)
  next
    case (HierarchicalForward b first p cov)
    then obtain b' where a': "a' = HierarchicalForward b' first p cov" "columns_agree b b'" using assms(3) by (cases a') auto
    have one: "one_direction c n dir (HierarchicalForward b first p cov)" "one_direction c n dir (HierarchicalForward b' first p cov)"
      using assms(1,2) unfolding HierarchicalForward a'(1) by blast+
    have bb: "base_typed c dir b" "base_typed c dir b'" using one by auto
    let ?cov = "set_span cov (GetStartPos r) (Suc (GetEndPos r)) True"
    obtain t t' where t: "first \<or> gap_orientation (lc_modelType c) p r ?cov = Inr t" "first \<or> gap_orientation (lc_modelType c) p r ?cov = Inr t'"
        "(x, s) = (HierarchicalForward (next_base b cached) False r ?cov, if first then write_direction b (\<lambda>_. 0) scores else copied_scores b cached t scores)"
        "(x', s') = (HierarchicalForward (next_base b' cached) False r ?cov, if first then write_direction b' (\<lambda>_. 0) scores else copied_scores b' cached t' scores)"
      using Expand_gap [OF one(1) assms(4-6)] Expand_gap [OF one(2) assms(4-6)] x(1) x'(1) HierarchicalForward a'(1) by auto
    have "t' = t \<and> t < GetNumberOfTypes c" if "\<not> first"
    proof -
      have "wf_bitmap ?cov" "wb_size ?cov = n" "valid_range n p" using one(1) that by (auto simp: wf_set_span)
      then show ?thesis using gap_orientation_bound [of ?cov p r c] assms(6) t(1,2) that by auto
    qed
    then show ?thesis using t(3,4) copied_alike [OF bb a'(2)] write_alike [OF bb] a'(2) by auto
  qed (use assms(1) in simp)
  then show ?thesis using x x' by blast
qed

lemma Expand_alike:
  assumes "reo_typed c n a" "reo_typed c n a'" "reo_alike a a'"
    and "enough_scores c cached" "length scores = GetNumScoreComponents c" "valid_range n r"
  shows "\<exists>x x' s. Expand r cached a scores = Inr (x, s) \<and> Expand r cached a' scores = Inr (x', s) \<and> reo_alike x x'
    \<and> reo_typed c n x \<and> reo_typed c n x'"
proof (cases "lc_direction c = Bidirectional")
  case True
  then obtain b bw fw where a: "a = BidirectionalReordering b bw fw" "rb_config b = c" "one_direction c n Backward bw" "one_direction c n Forward fw"
    using assms(1) by (cases a) auto
  obtain b' bw' fw' where a': "a' = BidirectionalReordering b' bw' fw'" "rb_config b' = c" "one_direction c n Backward bw'"
      "one_direction c n Forward fw'"
    using assms(2) True by (cases a') auto
  have alike: "reo_alike bw bw'" "reo_alike fw fw'" using assms(3) a(1) a'(1) by simp_all
  obtain x x' s where 1: "Expand r cached bw scores = Inr (x, s)" "Expand r cached bw' scores = Inr (x', s)" "reo_alike x x'"
      "one_direction c n Backward x" "one_direction c n Backward x'" "length s = length scores"
    using Expand_alike_one [OF a(3) a'(3) alike(1) assms(4-6)] by blast
  obtain y y' s2 where 2: "Expand r cached fw s = Inr (y, s2)" "Expand r cached fw' s = Inr (y', s2)" "reo_alike y y'"
      "one_direction c n Forward y" "one_direction c n Forward y'"
    using Expand_alike_one [OF a(4) a'(4) alike(2) assms(4) _ assms(6), of s] 1(6) assms(5) by auto
  show ?thesis using 1 2 a a' True by (simp add: initial_base_def)
next
  case False
  then have one: "one_direction c n (lc_direction c) a" "one_direction c n (lc_direction c) a'" using assms(1,2) by (cases a; cases a'; auto)+
  obtain x x' s where x: "Expand r cached a scores = Inr (x, s)" "Expand r cached a' scores = Inr (x', s)" "reo_alike x x'"
      "one_direction c n (lc_direction c) x" "one_direction c n (lc_direction c) x'"
    using Expand_alike_one [OF one assms(3-6)] by blast
  have "reo_typed c n x" "reo_typed c n x'" using x(4,5) False by (cases x; cases x'; auto)+
  then show ?thesis using x by blast
qed

lemma reo_run_alike:
  assumes "\<forall>(r, cached) \<in> set opts. valid_range n r \<and> enough_scores c cached"
    and "reo_typed c n a" "reo_typed c n a'" "reo_alike a a'"
  shows "\<exists>vs. reo_run c opts a = Inr vs \<and> reo_run c opts a' = Inr vs \<and> length vs = length opts"
  using assms
proof (induction opts arbitrary: a a')
  case (Cons opt opts)
  obtain r cached where opt: "opt = (r, cached)" by (cases opt)
  then have ok: "valid_range n r" "enough_scores c cached" using Cons.prems(1) by auto
  have len: "length (replicate (GetNumScoreComponents c) 0) = GetNumScoreComponents c" by simp
  obtain x x' s where x: "Expand r cached a (replicate (GetNumScoreComponents c) 0) = Inr (x, s)"
      "Expand r cached a' (replicate (GetNumScoreComponents c) 0) = Inr (x', s)" "reo_alike x x'" "reo_typed c n x" "reo_typed c n x'"
    using Expand_alike [OF Cons.prems(2-4) ok(2) len ok(1)] by blast
  moreover obtain vs where "reo_run c opts x = Inr vs" "reo_run c opts x' = Inr vs" "length vs = length opts"
    using Cons.IH [OF _ x(4,5,3)] Cons.prems(1) by auto
  ultimately show ?case using opt by simp
qed simp

lemma compare_from_equal: "compare_from my their ks = Inr 0 \<Longrightarrow> i \<in> set ks \<Longrightarrow> my ! i = their ! i"
  by (induction ks) (auto simp: rbind_eq_Inr array_get_eq_Inr split: if_splits)

lemma ComparePrevScores_equal:
  assumes "ComparePrevScores b (rb_prevScore b') = Inr 0"
  shows "columns_agree b b'"
proof (cases "rb_prevScore b = rb_prevScore b'")
  case True
  then show ?thesis by (auto simp: columns_agree_def)
next
  case False
  then obtain my their where s: "rb_prevScore b = Some my" "rb_prevScore b' = Some their"
      "compare_from my their [rb_offset b..<rb_offset b + GetNumberOfTypes (rb_config b)] = Inr 0"
    using assms by (auto simp: ComparePrevScores_def split: option.splits)
  have "my ! (rb_offset b + t) = their ! (rb_offset b + t)" if "t < GetNumberOfTypes (rb_config b)" for t
    by (rule compare_from_equal [OF s(3)]) (use that in simp)
  then show ?thesis using s(1,2) by (simp add: columns_agree_def)
qed

lemma compare_ranges_equal: "compare_ranges r r' e = Inr 0 \<longleftrightarrow> r = r' \<and> e = Inr 0"
  by (auto simp: compare_ranges_def)

lemma stack_Compare_equal: "stack_Compare st st' = 0 \<Longrightarrow> st = st'"
  by (auto simp: stack_Compare_def split: if_splits)

lemma first_range:
  assumes "if first then r = WordsRange NOT_FOUND NOT_FOUND else valid_range n r"
    and "if first' then r = WordsRange NOT_FOUND NOT_FOUND else valid_range n r"
  shows "first = first'"
  using assms by (auto split: if_splits)

lemma columns_agree_refl [simp]: "columns_agree b b"
  by (auto simp: columns_agree_def)

lemma alike_refl: "reo_alike a a"
  by (induction a) auto

lemma Compare_alike_one:
  assumes "reo_Compare a a' = Inr 0" "one_direction c n dir a" "one_direction c n dir a'" "same_coverage a a'"
  shows "reo_alike a a'"
proof (cases a)
  case (PhraseBasedReordering b r first)
  then obtain b' r' first' where a': "a' = PhraseBasedReordering b' r' first'" using assms(2,3) by (cases a') auto
  show ?thesis
  proof (cases "a = a'")
    case True
    then show ?thesis by (simp add: alike_refl)
  next
    case False
    then have cmp: "r = r'" "rb_direction b = Forward \<longrightarrow> ComparePrevScores b (rb_prevScore b') = Inr 0"
      using assms(1) PhraseBasedReordering a' by (auto simp: compare_ranges_equal split: if_splits)
    moreover have "first = first'"
      by (rule first_range [of first r n]) (use assms(2,3) PhraseBasedReordering a' cmp(1) in simp_all)
    ultimately show ?thesis using PhraseBasedReordering a' ComparePrevScores_equal by simp
  qed
next
  case (HierarchicalBackward b st)
  then show ?thesis using assms stack_Compare_equal by (cases a') auto
next
  case (HierarchicalForward b first r cov)
  then obtain b' r' first' where a': "a' = HierarchicalForward b' first' r' cov" using assms(2,3,4) by (cases a') auto
  show ?thesis
  proof (cases "a = a'")
    case True
    then show ?thesis by (simp add: alike_refl)
  next
    case False
    then have cmp: "r = r'" "ComparePrevScores b (rb_prevScore b') = Inr 0"
      using assms(1) HierarchicalForward a' by (auto simp: compare_ranges_equal split: if_splits)
    moreover have "first = first'"
      by (rule first_range [of first r n]) (use assms(2,3) HierarchicalForward a' cmp(1) in auto)
    ultimately show ?thesis using HierarchicalForward a' ComparePrevScores_equal by simp
  qed
qed (use assms(2) in simp)

lemma Compare_alike:
  assumes "reo_Compare a a' = Inr 0" "reo_typed c n a" "reo_typed c n a'" "same_coverage a a'"
  shows "reo_alike a a'"
proof (cases "lc_direction c = Bidirectional")
  case True
  then obtain b bw fw where a: "a = BidirectionalReordering b bw fw" "one_direction c n Backward bw" "one_direction c n Forward fw"
    using assms(2) by (cases a) auto
  obtain b' bw' fw' where a': "a' = BidirectionalReordering b' bw' fw'" "one_direction c n Backward bw'" "one_direction c n Forward fw'"
    using assms(3) True by (cases a') auto
  show ?thesis
  proof (cases "a = a'")
    case True
    then show ?thesis by (simp add: alike_refl)
  next
    case False
    then have "reo_Compare bw bw' = Inr 0" "reo_Compare fw fw' = Inr 0"
      using assms(1) a(1) a'(1) by (auto simp: rbind_eq_Inr split: if_splits)
    then show ?thesis using Compare_alike_one [OF _ a(2) a'(2)] Compare_alike_one [OF _ a(3) a'(3)] assms(4) a(1) a'(1) by simp
  qed
next
  case False
  then have one: "one_direction c n (lc_direction c) a" "one_direction c n (lc_direction c) a'" using assms(2,3) by (cases a; cases a'; auto)+
  show ?thesis by (rule Compare_alike_one [OF assms(1) one assms(4)])
qed

text \<open>
  C20. Recombination is sound: when two states over the same translated words compare as equal, the model gives the same scores to
  every sequence of further options after either of them, so that keeping the better of two hypotheses loses nothing.
\<close>

theorem equal_states_score_alike:
  assumes "reo_Compare a a' = Inr 0" "reo_typed c n a" "reo_typed c n a'" "same_coverage a a'"
    and "\<forall>(r, cached) \<in> set opts. valid_range n r \<and> enough_scores c cached"
  shows "\<exists>vs. reo_run c opts a = Inr vs \<and> reo_run c opts a' = Inr vs \<and> length vs = length opts"
  by (rule reo_run_alike [OF assms(5,2,3) Compare_alike [OF assms(1-4)]])

definition example_after :: "real list \<Rightarrow> reo_state" where
  "example_after s = BidirectionalReordering (initial_base example_reo Bidirectional 0)
     (PhraseBasedReordering (next_base (initial_base example_reo Backward 0) (Some s)) (WordsRange 1 2) False)
     (PhraseBasedReordering (next_base (initial_base example_reo Forward 3) (Some s)) (WordsRange 1 2) False)"

lemma equal_states_score_alike_witness:
  "\<exists>v. reo_run example_reo [(WordsRange 0 0, Some [1, 2, 3, 4, 5, 6])] (example_after [7, 8, 9, 10, 11, 12]) = Inr [v]
     \<and> reo_run example_reo [(WordsRange 0 0, Some [1, 2, 3, 4, 5, 6])] (example_after [-1, -2, -3, 10, 11, 12]) = Inr [v]"
proof -
  have cols: "[3..<6 :: nat] = [3, 4, 5]" by (simp add: upt_rec)
  have "\<exists>vs. reo_run example_reo [(WordsRange 0 0, Some [1, 2, 3, 4, 5, 6])] (example_after [7, 8, 9, 10, 11, 12]) = Inr vs
      \<and> reo_run example_reo [(WordsRange 0 0, Some [1, 2, 3, 4, 5, 6])] (example_after [-1, -2, -3, 10, 11, 12]) = Inr vs
      \<and> length vs = length [(WordsRange 0 0, Some [1, 2, 3, 4, 5, 6 :: real])]"
    by (rule equal_states_score_alike [where n = 3])
      (simp_all add: example_reo_def example_after_def next_base_def initial_base_def base_typed_def direction_offset_def reo_width_def
        enough_scores_def table_columns_def GetNumberOfTypes_def NOT_FOUND_def compare_ranges_def ComparePrevScores_def cols)
  then show ?thesis by (auto simp: length_Suc_conv)
qed

section \<open>Blocks\<close>

definition disjoint_ranges :: "words_range \<Rightarrow> words_range \<Rightarrow> bool" where
  "disjoint_ranges r r' \<longleftrightarrow> GetEndPos r < GetStartPos r' \<or> GetEndPos r' < GetStartPos r"

definition apart :: "words_range \<Rightarrow> words_range \<Rightarrow> bool" where
  "apart r r' \<longleftrightarrow> GetStartPos r \<noteq> Suc (GetEndPos r') \<and> GetStartPos r' \<noteq> Suc (GetEndPos r)"

text \<open>Blocks lie in the sentence and are disjoint, and a block does not touch the next one of the stack.\<close>

definition blocks_ok :: "nat \<Rightarrow> reordering_stack \<Rightarrow> bool" where
  "blocks_ok n st \<longleftrightarrow> (\<forall>r \<in> set st. valid_range n r) \<and> sorted_wrt disjoint_ranges st \<and> successively apart st"

definition words_in :: "words_range list \<Rightarrow> nat set" where
  "words_in rs = (\<Union>r \<in> set rs. {GetStartPos r..GetEndPos r})"

lemma words_in_simps [simp]:
  "words_in [] = {}" "words_in (r # rs) = {GetStartPos r..GetEndPos r} \<union> words_in rs" "words_in (rs @ rs') = words_in rs \<union> words_in rs'"
  by (auto simp: words_in_def)

lemma disjoint_sym: "disjoint_ranges r r' \<Longrightarrow> disjoint_ranges r' r"
  by (auto simp: disjoint_ranges_def)

lemma blocks_Cons:
  "blocks_ok n (r # st) \<longleftrightarrow> valid_range n r \<and> (\<forall>b \<in> set st. disjoint_ranges r b) \<and> (st \<noteq> [] \<longrightarrow> apart r (hd st)) \<and> blocks_ok n st"
  by (cases st) (auto simp: blocks_ok_def)

lemma blocks_Nil [simp]: "blocks_ok n []"
  by (simp add: blocks_ok_def)

lemma disjoint_words: "valid_range n b \<Longrightarrow> valid_range n r \<Longrightarrow>
    disjoint_ranges b r \<longleftrightarrow> {GetStartPos b..GetEndPos b} \<inter> {GetStartPos r..GetEndPos r} = {}"
  by (cases b; cases r) (auto simp: disjoint_ranges_def)

lemma adjacent_iff:
  assumes "e < n" "n \<le> NOT_FOUND" "s < n"
  shows "sz_sub s e = 1 \<longleftrightarrow> s = Suc e"
proof (cases "e \<le> s")
  case True
  then have "sz_sub s e = s - e" using assms NOT_FOUND_Suc [of n] by simp
  then show ?thesis using True by auto
next
  case False
  have "e < SIZE_RANGE" "s < e" using assms NOT_FOUND_Suc [of n] False by auto
  then have "sz_sub s e = s + (SIZE_RANGE - e)" by (simp add: sz_sub_def)
  moreover have "e + 1 < SIZE_RANGE" using assms by (simp add: NOT_FOUND_def SIZE_RANGE_def)
  ultimately show ?thesis using \<open>s < e\<close> by linarith
qed

text \<open>Merging two adjacent ranges.\<close>

lemma merge_ranges:
  assumes "valid_range n a" "valid_range n b" "GetStartPos b = Suc (GetEndPos a)"
  shows "valid_range n (WordsRange (GetStartPos a) (GetEndPos b))"
    "{GetStartPos a..GetEndPos b} = {GetStartPos a..GetEndPos a} \<union> {GetStartPos b..GetEndPos b}"
    "valid_range n r \<Longrightarrow> disjoint_ranges a r \<Longrightarrow> disjoint_ranges b r \<Longrightarrow> disjoint_ranges (WordsRange (GetStartPos a) (GetEndPos b)) r"
  using assms by (cases a; cases b; cases r; auto simp: disjoint_ranges_def)+

lemma stack_Reduce_ok:
  assumes "blocks_ok n st" "valid_range n cur" "\<forall>b \<in> set st. disjoint_ranges cur b"
  shows "blocks_ok n (stack_Reduce cur st) \<and> words_in (stack_Reduce cur st) = {GetStartPos cur..GetEndPos cur} \<union> words_in st
    \<and> (\<exists>b rest. stack_Reduce cur st = b # rest \<and> {GetStartPos cur..GetEndPos cur} \<subseteq> {GetStartPos b..GetEndPos b})"
  using assms
proof (induction cur st rule: stack_Reduce.induct)
  case (1 cur)
  then show ?case by (simp add: blocks_Cons)
next
  case (2 cur prev st)
  have prev: "valid_range n prev" "blocks_ok n st" "\<forall>b \<in> set st. disjoint_ranges prev b" using 2(3) by (simp_all add: blocks_Cons)
  have cur: "\<forall>b \<in> set st. disjoint_ranges cur b" "\<forall>b \<in> set st. valid_range n b" using 2(3,5) by (simp_all add: blocks_ok_def)
  have bounds: "GetEndPos cur < n" "GetStartPos cur < n" "GetEndPos prev < n" "GetStartPos prev < n" "n \<le> NOT_FOUND"
    using 2(4) prev(1) by (cases cur; cases prev; simp)+
  note adj = adjacent_iff [OF bounds(3,5,2)] adjacent_iff [OF bounds(1,5,4)]
  show ?case
  proof (cases "GetStartPos cur = Suc (GetEndPos prev)")
    case True
    note m = merge_ranges [OF prev(1) 2(4) True]
    have "\<forall>b \<in> set st. disjoint_ranges (WordsRange (GetStartPos prev) (GetEndPos cur)) b" using m(3) prev(3) cur by blast
    from 2(1) [OF _ prev(2) m(1) this] True m(2) adj show ?thesis by (auto simp: Un_assoc)
  next
    case False
    show ?thesis
    proof (cases "GetStartPos prev = Suc (GetEndPos cur)")
      case True
      note m = merge_ranges [OF 2(4) prev(1) True]
      have "\<forall>b \<in> set st. disjoint_ranges (WordsRange (GetStartPos cur) (GetEndPos prev)) b" using m(3) prev(3) cur by blast
      from 2(2) [OF _ _ prev(2) m(1) this] True False m(2) adj show ?thesis by (auto simp: Un_assoc)
    next
      case no: False
      then show ?thesis using False adj 2(3-5) by (simp add: blocks_Cons apart_def)
    qed
  qed
qed

lemma to_int32_sub:
  assumes "a < 2 ^ 31" "b < 2 ^ 31"
  shows "to_int32 (sz_sub a b) = int a - int b"
proof (cases "b \<le> a")
  case True
  then show ?thesis using assms by (simp add: SIZE_RANGE_def)
next
  case False
  have "sz_sub a b = SIZE_RANGE - (b - a)" using False assms by (simp add: sz_sub_def SIZE_RANGE_def)
  then have "int (sz_sub a b) + 2 ^ 31 = (int a - int b + 2 ^ 31) + 2 ^ 32 * 2 ^ 32"
    using False assms by (simp add: SIZE_RANGE_def of_nat_diff)
  then have "to_int32 (sz_sub a b) = (int a - int b + 2 ^ 31 + 2 ^ 32 * 2 ^ 32) mod 2 ^ 32 - 2 ^ 31" by (simp only: to_int32_def)
  also have "\<dots> = (int a - int b + 2 ^ 31) mod 2 ^ 32 - 2 ^ 31" by (simp only: mod_mult_self2)
  also have "\<dots> = int a - int b" using False assms by simp
  finally show ?thesis .
qed

text \<open>The distance says on which side of the top block a range lies, and whether it touches it.\<close>

lemma ShiftReduce_distance:
  assumes "valid_range n b" "valid_range n r" "n < 2 ^ 31" "disjoint_ranges r b"
  shows "fst (ShiftReduce r (b # st)) = (if GetEndPos b < GetStartPos r then int (GetStartPos r) - int (GetEndPos b)
     else int (GetEndPos r) - int (GetStartPos b))"
  using assms by (cases b; cases r; auto simp: Let_def disjoint_ranges_def to_int32_sub)

lemma ShiftReduce_snd:
  "snd (ShiftReduce r (b # st)) = (if fst (ShiftReduce r (b # st)) = 1 then stack_Reduce (WordsRange (GetStartPos b) (GetEndPos r)) st
     else if fst (ShiftReduce r (b # st)) = -1 then stack_Reduce (WordsRange (GetStartPos r) (GetEndPos b)) st else r # b # st)"
  by (simp add: Let_def)

lemma ShiftReduce_Nil: "ShiftReduce r [] = (to_int32 (sz_add (GetStartPos r) 1), [r])"
  by simp

declare ShiftReduce.simps [simp del]

lemma distance_cases:
  assumes "valid_range n b" "valid_range n r" "n < 2 ^ 31" "disjoint_ranges r b"
  shows "fst (ShiftReduce r (b # st)) = 1 \<longleftrightarrow> GetStartPos r = Suc (GetEndPos b)"
    "fst (ShiftReduce r (b # st)) = -1 \<longleftrightarrow> GetStartPos b = Suc (GetEndPos r)"
    "fst (ShiftReduce r (b # st)) \<ge> 1 \<longleftrightarrow> GetEndPos b < GetStartPos r"
  unfolding ShiftReduce_distance [OF assms] using assms(1,2,4) by (cases b; cases r; auto simp: disjoint_ranges_def)+

lemma ShiftReduce_ok:
  assumes "blocks_ok n st" "valid_range n r" "\<forall>b \<in> set st. disjoint_ranges r b" "n < 2 ^ 31"
  shows "blocks_ok n (snd (ShiftReduce r st)) \<and> words_in (snd (ShiftReduce r st)) = {GetStartPos r..GetEndPos r} \<union> words_in st
    \<and> (\<exists>b rest. snd (ShiftReduce r st) = b # rest \<and> {GetStartPos r..GetEndPos r} \<subseteq> {GetStartPos b..GetEndPos b})"
proof (cases st)
  case Nil
  then show ?thesis using assms(2) by (simp add: blocks_Cons ShiftReduce_Nil)
next
  case (Cons b st')
  have b: "valid_range n b" "disjoint_ranges r b" "blocks_ok n st'" "\<forall>x \<in> set st'. disjoint_ranges b x \<and> disjoint_ranges r x \<and> valid_range n x"
    using assms(1,3) Cons by (auto simp: blocks_Cons) (simp add: blocks_ok_def)
  note D = distance_cases [OF b(1) assms(2,4) b(2), of st']
  consider (mono) "GetStartPos r = Suc (GetEndPos b)" | (swap) "GetStartPos b = Suc (GetEndPos r)" "GetStartPos r \<noteq> Suc (GetEndPos b)"
    | (far) "GetStartPos b \<noteq> Suc (GetEndPos r)" "GetStartPos r \<noteq> Suc (GetEndPos b)" by blast
  then show ?thesis
  proof cases
    case mono
    note m = merge_ranges [OF b(1) assms(2) mono]
    have "\<forall>x \<in> set st'. disjoint_ranges (WordsRange (GetStartPos b) (GetEndPos r)) x" using m(3) b(4) by blast
    from stack_Reduce_ok [OF b(3) m(1) this] show ?thesis using Cons ShiftReduce_snd D(1) mono m(2) by auto
  next
    case swap
    note m = merge_ranges [OF assms(2) b(1) swap(1)]
    have "\<forall>x \<in> set st'. disjoint_ranges (WordsRange (GetStartPos r) (GetEndPos b)) x" using m(3) b(4) by blast
    from stack_Reduce_ok [OF b(3) m(1) this] show ?thesis using Cons ShiftReduce_snd D(1,2) swap m(2) by auto
  next
    case far
    then show ?thesis using Cons ShiftReduce_snd D(1,2) assms(1-3) by (auto simp: blocks_Cons apart_def)
  qed
qed

text \<open>The stack after a sequence of phrases, the first one first.\<close>

definition shift_all :: "words_range list \<Rightarrow> reordering_stack" where
  "shift_all rs = fold (\<lambda>r st. snd (ShiftReduce r st)) rs []"

text \<open>Disjoint phrases of a sentence, the order of a derivation.\<close>

definition phrases_ok :: "nat \<Rightarrow> words_range list \<Rightarrow> bool" where
  "phrases_ok n rs \<longleftrightarrow> (\<forall>r \<in> set rs. valid_range n r) \<and> sorted_wrt disjoint_ranges rs"

lemma disjoint_from_words:
  assumes "valid_range n r" "\<forall>b \<in> set st. valid_range n b"
  shows "(\<forall>b \<in> set st. disjoint_ranges r b) \<longleftrightarrow> {GetStartPos r..GetEndPos r} \<inter> words_in st = {}"
  using assms(2) by (induction st) (simp_all add: disjoint_words [OF assms(1)] Int_Un_distrib)

lemma shift_all_ok:
  assumes "phrases_ok n rs" "n < 2 ^ 31"
  shows "blocks_ok n (shift_all rs) \<and> words_in (shift_all rs) = words_in rs
    \<and> (rs \<noteq> [] \<longrightarrow> (\<exists>b rest. shift_all rs = b # rest \<and> {GetStartPos (last rs)..GetEndPos (last rs)} \<subseteq> {GetStartPos b..GetEndPos b}))"
  using assms(1)
proof (induction rs rule: rev_induct)
  case Nil
  then show ?case by (simp add: shift_all_def blocks_ok_def)
next
  case (snoc r rs)
  have r: "valid_range n r" "phrases_ok n rs" "\<forall>p \<in> set rs. disjoint_ranges r p" "\<forall>p \<in> set rs. valid_range n p"
    using snoc.prems disjoint_sym by (auto simp: phrases_ok_def sorted_wrt_append)
  have IH: "blocks_ok n (shift_all rs)" "words_in (shift_all rs) = words_in rs" using snoc.IH [OF r(2)] by blast+
  have "\<forall>b \<in> set (shift_all rs). valid_range n b" using IH(1) by (simp add: blocks_ok_def)
  then have "\<forall>b \<in> set (shift_all rs). disjoint_ranges r b"
    using disjoint_from_words [OF r(1)] r(3,4) IH(2) by simp
  from ShiftReduce_ok [OF IH(1) r(1) this assms(2)] show ?case using IH(2) by (auto simp: shift_all_def)
qed

text \<open>
  C22. The stack of the hierarchical model after a sequence of disjoint phrases: its blocks lie in the sentence, are disjoint, no block
  touches the next one, together they are exactly the translated words, and the last phrase is part of the top block. The distance of
  a further phrase is 1 or -1 exactly when the phrase touches the top block on the right or the left, and at least 1 when it lies right
  of it.
\<close>

theorem ShiftReduce_keeps_blocks:
  assumes "phrases_ok n (rs @ [r])" "n < 2 ^ 31"
  shows "blocks_ok n (shift_all rs) \<and> words_in (shift_all rs) = words_in rs
    \<and> (rs \<noteq> [] \<longrightarrow> (let b = hd (shift_all rs); d = fst (ShiftReduce r (shift_all rs)) in
         {GetStartPos (last rs)..GetEndPos (last rs)} \<subseteq> {GetStartPos b..GetEndPos b}
         \<and> (d = 1 \<longleftrightarrow> GetStartPos r = Suc (GetEndPos b)) \<and> (d = -1 \<longleftrightarrow> GetStartPos b = Suc (GetEndPos r))
         \<and> (d \<ge> 1 \<longleftrightarrow> GetEndPos b < GetStartPos r)))"
proof -
  have r: "phrases_ok n rs" "valid_range n r" "\<forall>p \<in> set rs. disjoint_ranges r p" "\<forall>p \<in> set rs. valid_range n p"
    using assms(1) disjoint_sym by (auto simp: phrases_ok_def sorted_wrt_append)
  note S = shift_all_ok [OF r(1) assms(2)]
  show ?thesis
  proof (cases "rs = []")
    case False
    then obtain b rest where b: "shift_all rs = b # rest" "{GetStartPos (last rs)..GetEndPos (last rs)} \<subseteq> {GetStartPos b..GetEndPos b}"
      using S by blast
    have v: "\<forall>x \<in> set (b # rest). valid_range n x" using S unfolding b(1) by (simp add: blocks_ok_def)
    then have "\<forall>x \<in> set (b # rest). disjoint_ranges r x"
      using disjoint_from_words [OF r(2) v] disjoint_from_words [OF r(2,4)] r(3) S unfolding b(1) by simp
    then have "valid_range n b" "disjoint_ranges r b" using v by simp_all
    then show ?thesis using S False b distance_cases [of n b r rest] r(2) assms(2) by (simp add: Let_def)
  qed (use S in simp)
qed

lemma ShiftReduce_keeps_blocks_witness:
  "blocks_ok 9 (shift_all [WordsRange 0 2, WordsRange 5 6, WordsRange 3 4]) \<and> fst (ShiftReduce (WordsRange 7 7) (shift_all [WordsRange 0 2, WordsRange 5 6, WordsRange 3 4])) = 1"
proof -
  let ?rs = "[WordsRange 0 2, WordsRange 5 6, WordsRange 3 4]"
  have st: "shift_all ?rs = [WordsRange 0 6]"
    by (simp add: shift_all_def ShiftReduce.simps Let_def to_int32_def sz_sub_def sz_add_def SIZE_RANGE_def)
  show ?thesis using ShiftReduce_keeps_blocks [of 9 ?rs "WordsRange 7 7"]
    by (simp add: phrases_ok_def disjoint_ranges_def NOT_FOUND_def st Let_def)
qed

section \<open>Hierarchical and phrase-based orientations\<close>

lemma before_start:
  assumes "s < n" "e < n" "n \<le> NOT_FOUND"
  shows "e = sz_sub s 1 \<longleftrightarrow> s = Suc e"
proof (cases s)
  case 0
  then have "sz_sub s 1 = NOT_FOUND" by (simp add: sz_sub_def NOT_FOUND_def SIZE_RANGE_def)
  then show ?thesis using 0 assms by simp
next
  case (Suc k)
  then have "sz_sub s 1 = k" using assms NOT_FOUND_Suc [of n] by simp
  then show ?thesis using Suc by auto
qed

lemma after_end: "e < n \<Longrightarrow> n \<le> NOT_FOUND \<Longrightarrow> sz_add e 1 = Suc e"
  by (simp add: NOT_FOUND_def SIZE_RANGE_def)

lemma top_block:
  assumes "phrases_ok n (rs @ [r])" "n < 2 ^ 31" "rs \<noteq> []"
  obtains b rest where "shift_all rs = b # rest" "valid_range n b" "disjoint_ranges r b"
    "GetStartPos b \<le> GetStartPos (last rs)" "GetEndPos (last rs) \<le> GetEndPos b" "valid_range n (last rs)" "valid_range n r"
proof -
  have r: "phrases_ok n rs" "valid_range n r" "\<forall>p \<in> set rs. disjoint_ranges r p" "\<forall>p \<in> set rs. valid_range n p"
    using assms(1) disjoint_sym by (auto simp: phrases_ok_def sorted_wrt_append)
  note S = shift_all_ok [OF r(1) assms(2)]
  obtain b rest where b: "shift_all rs = b # rest" "{GetStartPos (last rs)..GetEndPos (last rs)} \<subseteq> {GetStartPos b..GetEndPos b}"
    using S assms(3) by blast
  have l: "valid_range n (last rs)" using r(4) assms(3) by simp
  then have "GetStartPos (last rs) \<le> GetEndPos (last rs)" by (cases "last rs") simp
  then have inside: "GetStartPos b \<le> GetStartPos (last rs)" "GetEndPos (last rs) \<le> GetEndPos b" using b(2) by auto
  have v: "\<forall>x \<in> set (b # rest). valid_range n x" using S unfolding b(1) by (simp add: blocks_ok_def)
  then have "\<forall>x \<in> set (b # rest). disjoint_ranges r x"
    using disjoint_from_words [OF r(2) v] disjoint_from_words [OF r(2,4)] r(3) S unfolding b(1) by simp
  then show thesis using that b(1) v inside l r(2) by auto
qed

text \<open>The orientation of a phrase in the phrase-based and in the hierarchical model.\<close>

definition orientation_after :: "model_type \<Rightarrow> words_range list \<Rightarrow> words_range \<Rightarrow> nat" where
  "orientation_after t rs r = (if rs = [] then phrase_orientation t (WordsRange NOT_FOUND NOT_FOUND) True r else phrase_orientation t (last rs) False r)"

definition block_orientation :: "model_type \<Rightarrow> words_range list \<Rightarrow> words_range \<Rightarrow> nat" where
  "block_orientation t rs r = stack_orientation t (fst (ShiftReduce r (shift_all rs)))"

lemma first_orientation:
  assumes "valid_range n r" "n < 2 ^ 31" "t \<noteq> NoModelType"
  shows "orientation_after t [] r = block_orientation t [] r"
proof -
  have s: "GetStartPos r < 2 ^ 31 - 1" using assms(1,2) by (cases r) auto
  then have d: "fst (ShiftReduce r (shift_all [])) = int (GetStartPos r) + 1"
    by (simp add: shift_all_def ShiftReduce_Nil SIZE_RANGE_def)
  have nf: "NOT_FOUND = sz_sub (GetStartPos r) 1 \<Longrightarrow> GetStartPos r = 0"
    using s by (cases "GetStartPos r") (auto simp: NOT_FOUND_def SIZE_RANGE_def)
  show ?thesis
    using assms(3) nf by (cases t) (auto simp: orientation_after_def block_orientation_def phrase_orientation_def stack_orientation_def d
        phrase_MSD_def phrase_MSLR_def phrase_Monotonic_def phrase_LeftRight_def stack_MSD_def stack_MSLR_def stack_Monotonic_def stack_LeftRight_def)
qed

text \<open>
  C23. The hierarchical model refines the phrase-based one. For the first phrase both give the same orientation. After it both agree on
  left and right, and a phrase that is monotone or a swap relative to the previous phrase is so relative to the top block; only a
  discontinuous phrase can become monotone or a swap, on its side.
\<close>

theorem hierarchical_refines_phrase_based:
  assumes "phrases_ok n (rs @ [r])" "n < 2 ^ 31"
  shows "(rs = [] \<longrightarrow> t \<noteq> NoModelType \<longrightarrow> block_orientation t rs r = orientation_after t rs r)
    \<and> block_orientation LeftRight rs r = orientation_after LeftRight rs r
    \<and> (orientation_after Monotonic rs r = orient_M \<longrightarrow> block_orientation Monotonic rs r = orient_M)
    \<and> (orientation_after MSD rs r \<noteq> orient_D \<longrightarrow> block_orientation MSD rs r = orientation_after MSD rs r)
    \<and> (orientation_after MSLR rs r = orient_DR \<longrightarrow> block_orientation MSLR rs r \<in> {orient_M, orient_DR})
    \<and> (orientation_after MSLR rs r = orient_DL \<longrightarrow> block_orientation MSLR rs r \<in> {orient_S, orient_DL})
    \<and> (orientation_after MSLR rs r \<in> {orient_M, orient_S} \<longrightarrow> block_orientation MSLR rs r = orientation_after MSLR rs r)"
proof (cases "rs = []")
  case True
  then have "valid_range n r" using assms(1) by (simp add: phrases_ok_def)
  from first_orientation [OF this assms(2)] show ?thesis using True by simp
next
  case False
  obtain b rest where b: "shift_all rs = b # rest" "valid_range n b" "disjoint_ranges r b"
    "GetStartPos b \<le> GetStartPos (last rs)" "GetEndPos (last rs) \<le> GetEndPos b" and v: "valid_range n (last rs)" "valid_range n r"
    by (rule top_block [OF assms False])
  note D = distance_cases [OF b(2) v(2) assms(2) b(3), of rest]
  have bounds: "GetStartPos r < n" "GetEndPos (last rs) < n" "GetEndPos r < n" "n \<le> NOT_FOUND" "GetStartPos r \<le> GetEndPos r"
      "GetStartPos (last rs) \<le> GetEndPos (last rs)" "GetStartPos b \<le> GetEndPos b"
    using v b(2) by (cases r; cases "last rs"; cases b; simp)+
  note E = before_start [OF bounds(1,2,4)] after_end [OF bounds(3,4)]
  have sides: "GetStartPos r = Suc (GetEndPos (last rs)) \<Longrightarrow> GetStartPos r = Suc (GetEndPos b)"
    "GetStartPos (last rs) = Suc (GetEndPos r) \<Longrightarrow> GetStartPos b = Suc (GetEndPos r)"
    "GetEndPos (last rs) < GetStartPos r \<longleftrightarrow> GetEndPos b < GetStartPos r" "GetEndPos (last rs) \<le> GetStartPos r \<longleftrightarrow> GetEndPos b < GetStartPos r"
    using b(3-5) bounds by (auto simp: disjoint_ranges_def)
  let ?A = "GetStartPos r = Suc (GetEndPos (last rs))" and ?B = "GetStartPos (last rs) = Suc (GetEndPos r)" and ?C = "GetEndPos b < GetStartPos r"
  let ?A' = "GetStartPos r = Suc (GetEndPos b)" and ?B' = "GetStartPos b = Suc (GetEndPos r)"
  have phrase: "orientation_after MSD rs r = (if ?A then 0 else if ?B then 1 else 2)"
    "orientation_after MSLR rs r = (if ?A then 0 else if ?B then 1 else if ?C then 3 else 2)"
    "orientation_after Monotonic rs r = (if ?A then 0 else 1)" "orientation_after LeftRight rs r = (if ?C then 0 else 1)"
    using False by (simp_all add: orientation_after_def phrase_orientation_def phrase_MSD_def phrase_MSLR_def phrase_Monotonic_def
        phrase_LeftRight_def E [unfolded One_nat_def] sides(3,4))
  have block: "block_orientation MSD rs r = (if ?A' then 0 else if ?B' then 1 else 2)"
    "block_orientation Monotonic rs r = (if ?A' then 0 else 1)" "block_orientation LeftRight rs r = (if ?C then 0 else 1)"
    by (simp_all add: block_orientation_def b(1) stack_orientation_def stack_MSD_def stack_Monotonic_def stack_LeftRight_def D)
  have block_MSLR: "block_orientation MSLR rs r = (if ?A' then 0 else if ?B' then 1 else if ?C then 3 else 2)"
  proof -
    have "1 < fst (ShiftReduce r (b # rest)) \<longleftrightarrow> ?C \<and> \<not> ?A'" by (simp only: D(1) [symmetric] D(3) [symmetric]) linarith
    then show ?thesis by (simp add: block_orientation_def b(1) stack_orientation_def stack_MSLR_def D)
  qed
  have "?A' \<Longrightarrow> ?C" "?B' \<Longrightarrow> \<not> ?C" "\<not> (?A' \<and> ?B')" using bounds by auto
  then show ?thesis using sides(1,2) False unfolding phrase block block_MSLR by auto
qed

lemma hierarchical_refines_phrase_based_witness:
  "orientation_after MSD [WordsRange 0 2, WordsRange 5 6, WordsRange 3 4] (WordsRange 7 7) = orient_D
   \<and> block_orientation MSD [WordsRange 0 2, WordsRange 5 6, WordsRange 3 4] (WordsRange 7 7) = orient_M
   \<and> block_orientation LeftRight [WordsRange 0 2, WordsRange 5 6, WordsRange 3 4] (WordsRange 7 7) = orient_R"
proof -
  let ?rs = "[WordsRange 0 2, WordsRange 5 6, WordsRange 3 4]"
  have st: "shift_all ?rs = [WordsRange 0 6]"
    by (simp add: shift_all_def ShiftReduce.simps Let_def to_int32_def sz_sub_def sz_add_def SIZE_RANGE_def)
  have "orientation_after MSD ?rs (WordsRange 7 7) = orient_D" "block_orientation MSD ?rs (WordsRange 7 7) = orient_M"
      "orientation_after LeftRight ?rs (WordsRange 7 7) = orient_R"
    by (simp_all add: orientation_after_def block_orientation_def st ShiftReduce.simps phrase_orientation_def stack_orientation_def phrase_MSD_def
        phrase_LeftRight_def stack_MSD_def Let_def to_int32_def sz_sub_def sz_add_def SIZE_RANGE_def)
  then show ?thesis using hierarchical_refines_phrase_based [of 9 ?rs "WordsRange 7 7"] by (simp add: phrases_ok_def disjoint_ranges_def NOT_FOUND_def)
qed

section \<open>The scores of a derivation\<close>

text \<open>The components of one direction: from the option itself or the previous one; zeros when there is none or it has no scores.\<close>

definition score_part :: "reo_config \<Rightarrow> real list option \<Rightarrow> nat \<Rightarrow> nat \<Rightarrow> real list" where
  "score_part c src offset t = (case src of
     None \<Rightarrow> replicate (reo_width c) 0 | Some s \<Rightarrow> map (copied_column c s offset t) [0..<reo_width c])"

text \<open>The scores of a phrase after another one, or of the first phrase.\<close>

definition phrase_scores :: "reo_config \<Rightarrow> (words_range \<times> real list option) option \<Rightarrow> words_range \<times> real list option \<Rightarrow> real list" where
  "phrase_scores c prev opt =
     (let t = phrase_orientation (lc_modelType c) (case prev of None \<Rightarrow> WordsRange NOT_FOUND NOT_FOUND | Some p \<Rightarrow> fst p) (prev = None) (fst opt);
          bwd = score_part c (snd opt) 0 t;
          fwd = (\<lambda>offset. score_part c (case prev of None \<Rightarrow> None | Some p \<Rightarrow> snd p) offset t)
      in case lc_direction c of Backward \<Rightarrow> bwd | Forward \<Rightarrow> fwd 0 | Bidirectional \<Rightarrow> bwd @ fwd (reo_width c))"

fun path_scores :: "reo_config \<Rightarrow> (words_range \<times> real list option) option \<Rightarrow> (words_range \<times> real list option) list \<Rightarrow> real list list" where
  "path_scores c prev [] = []"
| "path_scores c prev (opt # opts) = phrase_scores c prev opt # path_scores c (Some opt) opts"

text \<open>The state of one direction after a phrase.\<close>

definition after_phrase :: "reo_config \<Rightarrow> reo_direction \<Rightarrow> (words_range \<times> real list option) option \<Rightarrow> reo_state" where
  "after_phrase c dir prev = (let b = initial_base c dir (direction_offset c dir) in case prev of
     None \<Rightarrow> PhraseBasedReordering b (WordsRange NOT_FOUND NOT_FOUND) True
   | Some (p, s) \<Rightarrow> PhraseBasedReordering (next_base b s) p False)"

lemma length_score_part [simp]: "length (score_part c src off t) = reo_width c"
  by (simp add: score_part_def split: option.split)

lemma write_part:
  assumes "rb_config b = c" "rb_offset b = length xs" "length ys = reo_width c"
  shows "write_direction b v (xs @ ys @ zs) = xs @ map v [0..<reo_width c] @ zs"
  using assms by (intro nth_equalityI) (auto simp: write_direction_def nth_append)

lemma copied_part:
  assumes "rb_config b = c" "rb_offset b = length xs"
  shows "copied_scores b cached t (xs @ replicate (reo_width c) 0 @ zs) = xs @ score_part c (source_scores b cached) (length xs) t @ zs"
  using write_part [of b c xs "replicate (reo_width c) 0" _ zs] assms
  by (simp add: copied_scores_def score_part_def split: option.split)

lemma source_after:
  "source_scores (initial_base c dir off) cached = (if dir = Backward then cached else None)"
  "source_scores (next_base (initial_base c dir off) s) cached = (if dir = Backward then cached else s)"
  by (simp_all add: source_scores_def initial_base_def next_base_def)

lemma after_phrase_typed:
  assumes "lc_phraseBased c" "dir = Backward \<or> dir = Forward" "lc_direction c = Bidirectional \<or> lc_direction c = dir"
    and "prev = None \<or> (\<exists>p s. prev = Some (p, s) \<and> valid_range n p \<and> enough_scores c s)"
  shows "one_direction c n dir (after_phrase c dir prev)"
  using assms by (auto simp: after_phrase_def Let_def base_typed_def initial_base_def next_base_def enough_scores_def)

lemma Expand_after:
  assumes "lc_phraseBased c" "dir = Backward \<or> dir = Forward" "lc_direction c = Bidirectional \<or> lc_direction c = dir"
    and "prev = None \<or> (\<exists>p s. prev = Some (p, s) \<and> valid_range n p \<and> enough_scores c s)" "enough_scores c cached"
    and "length xs = direction_offset c dir" "length xs + reo_width c + length zs = GetNumScoreComponents c"
  shows "Expand r cached (after_phrase c dir prev) (xs @ replicate (reo_width c) 0 @ zs) = Inr (after_phrase c dir (Some (r, cached)),
     xs @ score_part c (if dir = Backward then cached else case prev of None \<Rightarrow> None | Some p \<Rightarrow> snd p) (length xs)
       (phrase_orientation (lc_modelType c) (case prev of None \<Rightarrow> WordsRange NOT_FOUND NOT_FOUND | Some p \<Rightarrow> fst p) (prev = None) r) @ zs)"
proof -
  have one: "one_direction c n dir (after_phrase c dir prev)" by (rule after_phrase_typed [OF assms(1-4)])
  let ?b = "initial_base c dir (direction_offset c dir)"
  have len: "length (xs @ replicate (reo_width c) 0 @ zs) = GetNumScoreComponents c" using assms(7) by simp
  have b: "rb_config ?b = c" "rb_offset ?b = length xs" using assms(6) by (simp_all add: initial_base_def)
  show ?thesis
  proof (cases prev)
    case None
    then have st: "after_phrase c dir prev = PhraseBasedReordering ?b (WordsRange NOT_FOUND NOT_FOUND) True" by (simp add: after_phrase_def Let_def)
    have "write_direction ?b (\<lambda>_. 0) (xs @ replicate (reo_width c) 0 @ zs) = xs @ replicate (reo_width c) 0 @ zs"
      using write_part [OF b, of "replicate (reo_width c) 0" "\<lambda>_. 0" zs] by (simp add: map_replicate_const)
    then show ?thesis
      using Expand_phrase [OF one [unfolded st] assms(5) len, of r] copied_part [OF b, of cached _ zs] None assms(2)
      unfolding st by (auto simp: source_after after_phrase_def Let_def score_part_def simp del: Expand.simps)
  next
    case (Some opt)
    then obtain p s where opt: "prev = Some (p, s)" by (cases opt) auto
    then have st: "after_phrase c dir prev = PhraseBasedReordering (next_base ?b s) p False" by (simp add: after_phrase_def Let_def)
    have b': "rb_config (next_base ?b s) = c" "rb_offset (next_base ?b s) = length xs" "next_base (next_base ?b s) cached = next_base ?b cached"
      using b by (simp_all add: next_base_def)
    show ?thesis
      using Expand_phrase [OF one [unfolded st] assms(5) len, of r] copied_part [OF b'(1,2), of cached _ zs]
      unfolding st by (simp add: opt source_after after_phrase_def Let_def b'(3) del: Expand.simps)
  qed
qed

definition state_after :: "reo_config \<Rightarrow> (words_range \<times> real list option) option \<Rightarrow> reo_state" where
  "state_after c prev = (case lc_direction c of
     Bidirectional \<Rightarrow> BidirectionalReordering (initial_base c Bidirectional 0) (after_phrase c Backward prev) (after_phrase c Forward prev)
   | dir \<Rightarrow> after_phrase c dir prev)"

lemma Create_state_after: "lc_phraseBased c \<Longrightarrow> CreateLexicalReorderingState c n = state_after c None"
  by (simp add: CreateLexicalReorderingState_def state_after_def after_phrase_def Let_def direction_offset_def reo_width_def
      split: reo_direction.split)

lemma Expand_state_after:
  assumes "lc_phraseBased c" "prev = None \<or> (\<exists>p s. prev = Some (p, s) \<and> valid_range n p \<and> enough_scores c s)" "enough_scores c cached"
  shows "Expand r cached (state_after c prev) (replicate (GetNumScoreComponents c) 0)
     = Inr (state_after c (Some (r, cached)), phrase_scores c prev (r, cached))"
proof -
  let ?w = "reo_width c"
  have both: "replicate (GetNumScoreComponents c) (0 :: real) = replicate ?w 0 @ replicate ?w 0" if "lc_direction c = Bidirectional"
    using that by (simp add: components_width replicate_add [symmetric] mult_2)
  note E = Expand_after [OF assms(1) _ _ assms(2,3), of _ _ _ r]
  show ?thesis
  proof (cases "lc_direction c")
    case Bidirectional
    let ?t = "phrase_orientation (lc_modelType c) (case prev of None \<Rightarrow> WordsRange NOT_FOUND NOT_FOUND | Some p \<Rightarrow> fst p) (prev = None) r"
    have 1: "Expand r cached (after_phrase c Backward prev) (replicate ?w 0 @ replicate ?w 0)
        = Inr (after_phrase c Backward (Some (r, cached)), score_part c cached 0 ?t @ replicate ?w 0)"
      using E [of Backward "[]" "replicate ?w 0"] Bidirectional by (simp add: direction_offset_def components_width)
    have 2: "Expand r cached (after_phrase c Forward prev) (score_part c cached 0 ?t @ replicate ?w 0)
        = Inr (after_phrase c Forward (Some (r, cached)),
            score_part c cached 0 ?t @ score_part c (case prev of None \<Rightarrow> None | Some p \<Rightarrow> snd p) ?w ?t)"
      using E [of Forward "score_part c cached 0 ?t" "[]"] Bidirectional by (simp add: direction_offset_def components_width)
    show ?thesis using 1 2 Bidirectional
      by (simp add: both state_after_def phrase_scores_def initial_base_def Let_def)
  next
    case Backward
    then show ?thesis using E [of Backward "[]" "[]"] by (simp add: direction_offset_def components_width state_after_def phrase_scores_def)
  next
    case Forward
    then show ?thesis using E [of Forward "[]" "[]"] by (simp add: direction_offset_def components_width state_after_def phrase_scores_def)
  qed
qed

lemma reo_run_scores:
  assumes "lc_phraseBased c" "\<forall>(r, cached) \<in> set opts. valid_range n r \<and> enough_scores c cached"
    and "prev = None \<or> (\<exists>p s. prev = Some (p, s) \<and> valid_range n p \<and> enough_scores c s)"
  shows "reo_run c opts (state_after c prev) = Inr (path_scores c prev opts)"
  using assms(2,3)
proof (induction opts arbitrary: prev)
  case (Cons opt opts)
  obtain r cached where opt: "opt = (r, cached)" by (cases opt)
  then have ok: "valid_range n r" "enough_scores c cached" using Cons.prems(1) by auto
  have "reo_run c opts (state_after c (Some opt)) = Inr (path_scores c (Some opt) opts)"
    by (rule Cons.IH) (use Cons.prems(1) opt ok in auto)
  then show ?case using Expand_state_after [OF assms(1) Cons.prems(2) ok(2), of r] opt by simp
qed simp

text \<open>
  What the scores of a derivation are to be. An entry of the table has the columns of the configured directions one after the other, the
  backward ones first, and in each direction one column for each orientation.
\<close>

definition table_column :: "reo_config \<Rightarrow> reo_direction \<Rightarrow> nat \<Rightarrow> nat" where
  "table_column c dir t = (if dir = Forward \<and> lc_direction c = Bidirectional then GetNumberOfTypes c + t else t)"

text \<open>The components of a direction: the score at the orientation, alone or among zeros; zeros when there is no entry.\<close>

definition direction_scores :: "reo_config \<Rightarrow> reo_direction \<Rightarrow> real list option \<Rightarrow> nat \<Rightarrow> real list" where
  "direction_scores c dir entry t =
     (let x = (case entry of None \<Rightarrow> 0 | Some s \<Rightarrow> s ! table_column c dir t)
      in if lc_collapseScores c then [x] else (replicate (GetNumberOfTypes c) 0)[t := x])"

fun expected_scores :: "reo_config \<Rightarrow> (words_range \<times> real list option) option \<Rightarrow> (words_range \<times> real list option) list \<Rightarrow> real list list" where
  "expected_scores c prev [] = []"
| "expected_scores c prev ((r, entry) # opts) =
     (let t = (case prev of None \<Rightarrow> phrase_orientation (lc_modelType c) (WordsRange NOT_FOUND NOT_FOUND) True r
                 | Some (p, _) \<Rightarrow> phrase_orientation (lc_modelType c) p False r);
          bwd = direction_scores c Backward entry t;
          fwd = direction_scores c Forward (case prev of None \<Rightarrow> None | Some (_, prev_entry) \<Rightarrow> prev_entry) t
      in (case lc_direction c of Backward \<Rightarrow> bwd | Forward \<Rightarrow> fwd | Bidirectional \<Rightarrow> bwd @ fwd)
         # expected_scores c (Some (r, entry)) opts)"

lemma part_is_direction:
  assumes "t < GetNumberOfTypes c" "lc_direction c = Bidirectional \<longrightarrow> \<not> lc_collapseScores c"
  shows "score_part c entry 0 t = direction_scores c Backward entry t"
    and "score_part c entry (if lc_direction c = Bidirectional then reo_width c else 0) t = direction_scores c Forward entry t"
  using assms
  by (auto simp: score_part_def direction_scores_def copied_column_def table_column_def reo_width_def nth_list_update
      split: option.split intro!: nth_equalityI)

lemma scores_are_expected:
  assumes "lc_direction c = Bidirectional \<longrightarrow> \<not> lc_collapseScores c"
  shows "path_scores c prev opts = expected_scores c prev opts"
proof (induction opts arbitrary: prev)
  case (Cons opt opts)
  obtain r entry where opt: "opt = (r, entry)" by (cases opt)
  let ?t = "phrase_orientation (lc_modelType c) (case prev of None \<Rightarrow> WordsRange NOT_FOUND NOT_FOUND | Some p \<Rightarrow> fst p) (prev = None) r"
  note part = part_is_direction [OF orientation_bounds(1) assms]
  have "phrase_scores c prev opt = (case lc_direction c of Backward \<Rightarrow> direction_scores c Backward entry ?t
     | Forward \<Rightarrow> direction_scores c Forward (case prev of None \<Rightarrow> None | Some p \<Rightarrow> snd p) ?t
     | Bidirectional \<Rightarrow> direction_scores c Backward entry ?t @ direction_scores c Forward (case prev of None \<Rightarrow> None | Some p \<Rightarrow> snd p) ?t)"
  proof (cases "lc_direction c")
    case Forward
    then show ?thesis using part(2) by (simp add: phrase_scores_def Let_def opt)
  next
    case Bidirectional
    then show ?thesis using part by (simp add: phrase_scores_def Let_def opt)
  qed (simp add: part(1) phrase_scores_def Let_def opt)
  then show ?case using Cons.IH [of "Some opt"] by (cases prev) (auto simp: opt Let_def split: reo_direction.split)
qed simp

text \<open>
  C24. The scores of a derivation, in the phrase-based models (those configured with phrase, not with hier), for every configuration but
  collapsed scores in both directions: the backward score of a phrase is that of its own entry in the table, the forward score that of the entry
  of the previous phrase, each in the column of its direction at the orientation of the phrase relative to the previous one; the other components
  are zero, and the first phrase has no forward score. (With collapsed scores in both directions the forward column is another one.)
\<close>

theorem derivation_scores:
  assumes "lc_phraseBased c" "\<not> (lc_direction c = Bidirectional \<and> lc_collapseScores c)"
    and "\<forall>(r, cached) \<in> set opts. valid_range n r \<and> enough_scores c cached"
  shows "reo_run c opts (CreateLexicalReorderingState c n) = Inr (expected_scores c None opts)"
proof -
  have "path_scores c None opts = expected_scores c None opts" using assms(2) by (intro scores_are_expected) simp
  then show ?thesis unfolding Create_state_after [OF assms(1)] using reo_run_scores [OF assms(1,3), of None] by simp
qed

lemma derivation_scores_witness:
  "reo_run example_reo [(WordsRange 0 1, Some [1, 2, 3, 4, 5, 6]), (WordsRange 2 2, None)] (CreateLexicalReorderingState example_reo 3)
     = Inr [[1, 0, 0, 0, 0, 0], [0, 0, 0, 4, 0, 0]]"
proof -
  let ?opts = "[(WordsRange 0 1, Some [1, 2, 3, 4, 5, 6 :: real]), (WordsRange 2 2, None)]"
  have cols: "[0..<3 :: nat] = [0, 1, 2]" "replicate 3 (0 :: real) = [0, 0, 0]" by (simp_all add: upt_rec numeral_3_eq_3)
  have "expected_scores example_reo None ?opts = [[1, 0, 0, 0, 0, 0], [0, 0, 0, 4, 0, 0]]"
    by (simp add: direction_scores_def table_column_def example_reo_def Let_def phrase_orientation_def phrase_MSD_def GetNumberOfTypes_def
        cols sz_sub_def SIZE_RANGE_def)
  moreover have "lc_phraseBased example_reo" "\<not> (lc_direction example_reo = Bidirectional \<and> lc_collapseScores example_reo)" "\<forall>(r, cached) \<in> set ?opts. valid_range 3 r \<and> enough_scores example_reo cached"
    by (simp_all add: example_reo_def enough_scores_def table_columns_def GetNumberOfTypes_def NOT_FOUND_def)
  ultimately show ?thesis using derivation_scores [of example_reo ?opts 3] by simp
qed

text \<open>
  C37. With collapsed scores in both directions the forward score of a phrase is read from the wrong column: the offset of the forward
  direction in the collapsed scores, 1, is used as its offset in the table, where it is the number of orientations. The column read,
  1 plus the orientation, is a backward column for all but the last orientation, and never that of the separate scores.
\<close>

theorem collapsed_forward_reads_backward:
  assumes "lc_phraseBased c" "lc_direction c = Bidirectional" "lc_collapseScores c"
    and "valid_range n p" "valid_range n r" "table_columns c \<le> length s" "table_columns c \<le> length s'"
  defines "opts \<equiv> [(p, Some s), (r, Some s')]" and "t \<equiv> phrase_orientation (lc_modelType c) p False r"
  shows "(\<exists>v. reo_run c opts (CreateLexicalReorderingState c n) = Inr [v, [s' ! t, s ! (1 + t)]])
    \<and> (\<exists>v w. reo_run (c\<lparr>lc_collapseScores := False\<rparr>) opts (CreateLexicalReorderingState (c\<lparr>lc_collapseScores := False\<rparr>) n) = Inr [v, w]
         \<and> w ! t = s' ! t \<and> w ! (GetNumberOfTypes c + t) = s ! (GetNumberOfTypes c + t))
    \<and> 1 + t < GetNumberOfTypes c + t \<and> (1 + t < GetNumberOfTypes c \<or> t = GetNumberOfTypes c - 1)"
proof -
  let ?c = "c\<lparr>lc_collapseScores := False\<rparr>"
  have types: "GetNumberOfTypes ?c = GetNumberOfTypes c" "2 \<le> GetNumberOfTypes c" by (simp_all add: GetNumberOfTypes_def split: model_type.split)
  have t: "t < GetNumberOfTypes c" unfolding t_def by (rule orientation_bounds)
  have ok: "\<forall>(r, cached) \<in> set opts. valid_range n r \<and> enough_scores c cached" "\<forall>(r, cached) \<in> set opts. valid_range n r \<and> enough_scores ?c cached"
    using assms(4-7) types(1) by (auto simp: opts_def enough_scores_def table_columns_def)
  have none: "None = None \<or> (\<exists>p s. None = Some (p, s) \<and> valid_range n p \<and> enough_scores c s)" for c by simp
  have 1: "reo_run c opts (CreateLexicalReorderingState c n) = Inr (path_scores c None opts)"
    unfolding Create_state_after [OF assms(1)] by (rule reo_run_scores [OF assms(1) ok(1) none])
  have pb: "lc_phraseBased ?c" using assms(1) by simp
  have 2: "reo_run ?c opts (CreateLexicalReorderingState ?c n) = Inr (path_scores ?c None opts)"
    unfolding Create_state_after [OF pb] by (rule reo_run_scores [OF pb ok(2) none])
  have "phrase_scores c (Some (p, Some s)) (r, Some s') = [s' ! t, s ! (1 + t)]"
    using assms(2,3) by (simp add: phrase_scores_def Let_def score_part_def reo_width_def copied_column_def t_def)
  moreover have "phrase_scores ?c (Some (p, Some s)) (r, Some s') ! t = s' ! t
      \<and> phrase_scores ?c (Some (p, Some s)) (r, Some s') ! (GetNumberOfTypes c + t) = s ! (GetNumberOfTypes c + t)"
    using assms(2) t types(1) by (simp add: phrase_scores_def Let_def score_part_def reo_width_def copied_column_def nth_append flip: t_def)
  ultimately show ?thesis using 1 2 t types(2) by (auto simp: opts_def)
qed

lemma collapsed_forward_reads_backward_witness:
  "\<exists>v. reo_run (example_reo\<lparr>lc_collapseScores := True\<rparr>) [(WordsRange 0 1, Some [1, 2, 3, 4, 5, 6]), (WordsRange 2 2, Some [7, 8, 9, 10, 11, 12])]
      (CreateLexicalReorderingState (example_reo\<lparr>lc_collapseScores := True\<rparr>) 3) = Inr [v, [7, 2]]"
proof -
  have "phrase_orientation MSD (WordsRange 0 1) False (WordsRange 2 2) = 0"
    by (simp add: phrase_orientation_def phrase_MSD_def sz_sub_def SIZE_RANGE_def)
  then show ?thesis
    using collapsed_forward_reads_backward [of "example_reo\<lparr>lc_collapseScores := True\<rparr>" 3 "WordsRange 0 1" "WordsRange 2 2" "[1, 2, 3, 4, 5, 6]" "[7, 8, 9, 10, 11, 12]"]
    by (simp add: example_reo_def table_columns_def GetNumberOfTypes_def NOT_FOUND_def)
qed

end
