(* ===== verification/Spec2Isabelle.thy ===== *)
theory Spec2Isabelle
  imports SquareMatrices LookupProps CellProps TrellisProps ManagerProps ReorderingProps FutureScores SearchProps GraphProps ChartLangModelProps LexReorderingProps
begin

text \<open>
  Verification library of the Moses decoder with minimum spans on chart rules (moses/src).

  \<^bold>\<open>The program.\<close> The library holds two decoders. The chart decoder (ChartManager) parses the source with synchronous rules: for every
  span, from the short ones to the long ones, a rule lookup extends dotted rules over the words and the cells of shorter
  spans, the matching rules become translation options, and cube pruning combines each of them with the best hypotheses of its
  non-terminals into the hypotheses of the cell. In this version of the decoder a rule applies to a span only when the span
  is longer than a minimum (ChartRuleLookupManagerMinSpan, PhraseDictionaryMinSpan) and, when the clauses of the sentence are known
  (ClauseBoundaries), when it does not cross the end of a clause. The phrase-based decoder (SearchNormal) translates the source phrase by
  phrase: a stack for every number of covered words, whose hypotheses are extended by the translation options of the spans
  that coverage, distortion limit and reordering constraints allow. Both score hypotheses with feature functions, which own
  ranges of slots in the score vectors, and recombine hypotheses whose feature function states compare as equal.

  \<^bold>\<open>Shared ground.\<close>
  \<^item> Prelude: faults and results, loops over results, size\_t arithmetic with its wrap-around, lists.
  \<^item> StdAlgorithms, HashMaps, OrderedSets: the contracts of nth\_element, partial\_sort, partition and priority queues, of hash
    tables with their own equality, and of std::set with its own order, as locales with interpretations on the model's functions.
  \<^item> Scores: finite scores and infinities, a linear order and an ordered monoid.
  \<^item> Tokens (Util.h, ClauseBoundaries.cpp): tokenizers and clause boundaries; reading undoes writing.
  \<^item> WordsBitmaps (WordsRange, WordsBitmap), SquareMatrices (SquareMatrix), ScoreIndex (ScoreIndexManager,
    ScoreComponentCollection), Phrases (Phrase, Word): the data both decoders use, with the bounds of every access.

  \<^bold>\<open>The chart decoder.\<close>
  \<^item> ChartTypes: words, target phrases, hypotheses, cell labels; the output of a derivation is the yield of its rules.
  \<^item> RuleTrie (PhraseDictionaryNodeSCFG, TargetPhraseCollection): a rule added is found, and pruning keeps the best.
  \<^item> TransOptList (ChartTranslationOption, ChartTranslationOptionList): lazy pruning keeps the best options.
  \<^item> RuleLookup, LookupCounts, LookupProps (ChartRuleLookupManagerMinSpan, DotChartInMemory): the lookup finds exactly the rules that
    match, each as often as it is derived, and offers them as often as the minimum span and the clauses allow.
  \<^item> RuleCubes, RuleCubeProps, CubeQueue (RuleCube, RuleCubeItem, RuleCubeQueue, ChartHypothesis): cube pruning is a best-first
    enumeration of a grid that takes every point once; it is best first among the neighbours of the points taken, and among all points
    with lazy scoring and sorted lists.
  \<^item> HypoColl, HypoCollProps (ChartHypothesisCollection): recombination, beam and lazy pruning keep the best hypothesis.
  \<^item> ChartCells, CellProps (ChartCell): what filling a cell leaves in it.
  \<^item> Manager, ManagerProps (ChartManager, ChartTranslationOptionCollection): the order of the spans, unknown words, XML options.
  \<^item> Trellis, TrellisProps (ChartTrellisPath, ChartTrellisDetourQueue): the n-best list, with the score of every path.

  \<^bold>\<open>The phrase-based decoder.\<close>
  \<^item> TransOptColl, FutureScores (TranslationOptionCollection): options of every span, and the table of future scores as
    the score of the best sequence of options.
  \<^item> Reordering, ReorderingProps (ReorderingConstraint): walls and zones are respected by every accepted sequence of extensions.
  \<^item> PhraseHypos (Hypothesis, DummyScoreProducers), HypoStacks, StackProps (HypothesisStackNormal): hypotheses and stacks.
  \<^item> PhraseSearch, SearchProps (SearchNormal): the search is a loop over the stacks; it refines an inductive relation of
    the paths the options allow, ends without a fault, and finds a complete translation when every word has an option.
  \<^item> StackArcs: recombination keeps every loser once, as an arc of a hypothesis that scores no less.
  \<^item> PathLists, SearchGraphs, NBestProps (TrellisPath, TrellisPathCollection, CalcNBest): the n-best list of the graph of hypotheses
    and arcs is exact.
  \<^item> ConnectedGraphs, GraphProps (GetSearchGraph and GetForwardBackwardSearchGraph of Manager): the hypotheses of the search
    graphs are those that reach the last stack, and their forward scores those of the best way there.

  \<^bold>\<open>Feature functions.\<close>
  \<^item> LangModels, LangModelProps, ChartLangModels, ChartLangModelProps (LM/Implementation): the scores that phrases, hypotheses and
    chart hypotheses contribute add up to the score of the whole output; recombination keeps score differences.
  \<^item> LexReordering, LexReorderingProps (LexicalReordering, LexicalReorderingState, ReorderingStack): types of states, the
    scores of a derivation, the stack of blocks, and soundness of recombination.

  \<^bold>\<open>Correspondence.\<close> Definitions have the names of the source's functions; a prefix or suffix tells classes apart. A class is a record or a
  datatype with its fields, a method a function from the old object to the new one, and an object graph a tree: predecessors and
  sub-hypotheses are part of a hypothesis, and identifiers stand for addresses where the source compares them. An operation that can leave
  defined behaviour, fail a CHECK or end the process returns a result whose left side names the fault; a theorem that an
  operation returns is a statement on the right side. A size\_t is a natural number; additions and subtractions that can wrap are
  sz\_add and sz\_sub, and the conversion to int is to\_int32. Floats are reals: rounding and NaN are not modelled.

  \<^bold>\<open>Parameters.\<close> Arguments of the definitions, with their contract as a locale or a hypothesis where one is needed, are the standard
  algorithms, the feature functions of the search, the probabilities of the language models, the scores of the reordering table, what
  the decoding steps find for a span, the addresses the source compares when a state is null, and the clock.

  \<^bold>\<open>Termination.\<close> All loops are folds, structural recursions or functions with a measure, and no definition has fuel. The loops on
  queues count the pops the source allows; the tokenizers and the searches for the edge of a bitmap move towards the end.

  \<^bold>\<open>Not modelled.\<close>
  \<^item> Rule and phrase tables other than the tree in memory, language model back ends, suffix arrays and the on-disk
    tables: file formats, memory mapping and external libraries; the decoders reach them through the parameters above.
  \<^item> The Scope-3 parser, the cube pruning variant of the phrase-based search, lattices and confusion networks: alternatives
    to the modelled components.
  \<^item> Lattice samples, the output of n-best lists and search graphs, statistics counters, verbose output, parsing and printing of
    phrases, configuration and threads: input, output and resources.
  \<^item> Tuning (mert), training (scripts), the build tool and contributed programs: not part of the decoder.
\<close>

end
